(* ===== verification/BS_Prelude.thy ===== *)
theory BS_Prelude
  imports Main "HOL-Library.Word"
begin

text \<open>
  Shared base of the development: machine types, the outcome of a C function, stateful
  operations with early return, \<open>size_t\<close> arithmetic, and the generic lemmas on
  big-endian byte strings that the components use.
\<close>

unbundle bit_operations_syntax

section \<open>Machine types\<close>

type_synonym byte = "8 word"
type_synonym u16 = "16 word"
type_synonym u32 = "32 word"
type_synonym u64 = "64 word"

text \<open>
  A \<open>size_t\<close> is a \<open>nat\<close> below \<open>2 ^ 64\<close>; the sums and products whose
  overflow the code tests are written with the wrap-around.
\<close>

definition size_add :: "nat \<Rightarrow> nat \<Rightarrow> nat" where
  "size_add a b = (a + b) mod 2 ^ 64"

definition size_mul :: "nat \<Rightarrow> nat \<Rightarrow> nat" where
  "size_mul a b = (a * b) mod 2 ^ 64"

text \<open>The largest C \<open>int\<close>.\<close>

definition INT_MAX :: nat where
  "INT_MAX = 2147483647"

lemma size_add_exact: "a + b < 2 ^ 64 \<Longrightarrow> size_add a b = a + b"
  by (simp add: size_add_def)

lemma size_add_overflow:
  assumes "a < 2 ^ 64" and "b < 2 ^ 64" and "2 ^ 64 \<le> a + b"
  shows "size_add a b < a"
proof -
  have "a + b - 2 ^ 64 < 2 ^ 64" using assms(1,2) by simp
  then have "(a + b) mod 2 ^ 64 = a + b - 2 ^ 64"
    using assms(3) by (metis le_mod_geq mod_less)
  then show ?thesis using assms by (simp add: size_add_def)
qed

lemma size_add_less_iff:
  assumes "a < 2 ^ 64" and "b < 2 ^ 64"
  shows "size_add a b < a \<longleftrightarrow> 2 ^ 64 \<le> a + b"
  using assms size_add_overflow [of a b] size_add_exact [of a b]
  by (cases "2 ^ 64 \<le> a + b") auto

section \<open>Outcomes and stateful operations\<close>

text \<open>
  A C function of this library returns one with its results written to out-parameters
  (\<open>Ok\<close>), returns zero (\<open>Err\<close>), or does something the code never defines: a
  failing \<open>assert\<close>, a null dereference or an access outside an object (\<open>Abort\<close>).
  An operation maps the object it works on to an outcome and the object afterwards, also
  when it fails.
\<close>

datatype 'a result = Ok 'a | Err | Abort

type_synonym ('s, 'a) op = "'s \<Rightarrow> 'a result \<times> 's"

named_theorems op_defs "the operation combinators, applied to a state"

definition op_ret :: "'a \<Rightarrow> ('s, 'a) op" where
  "op_ret x = (\<lambda>s. (Ok x, s))"

definition op_fail :: "('s, 'a) op" where
  "op_fail = (\<lambda>s. (Err, s))"

definition op_abort :: "('s, 'a) op" where
  "op_abort = (\<lambda>s. (Abort, s))"

definition op_bind :: "('s, 'a) op \<Rightarrow> ('a \<Rightarrow> ('s, 'b) op) \<Rightarrow> ('s, 'b) op" where
  "op_bind m f = (\<lambda>s. case m s of
      (Ok x, t) \<Rightarrow> f x t
    | (Err, t) \<Rightarrow> (Err, t)
    | (Abort, t) \<Rightarrow> (Abort, t))"

definition op_then :: "('s, 'a) op \<Rightarrow> ('s, 'b) op \<Rightarrow> ('s, 'b) op" where
  "op_then m k = op_bind m (\<lambda>_. k)"

text \<open>\<open>if (!b) return 0;\<close> and \<open>assert(b);\<close>\<close>

definition op_require :: "bool \<Rightarrow> ('s, unit) op" where
  "op_require b = (if b then op_ret () else op_fail)"

definition op_assert :: "bool \<Rightarrow> ('s, unit) op" where
  "op_assert b = (if b then op_ret () else op_abort)"

text \<open>Work on a second, local object: the surrounding object is untouched.\<close>

definition op_run :: "('t, 'a) op \<Rightarrow> 't \<Rightarrow> ('s, 'a \<times> 't) op" where
  "op_run m c = (\<lambda>s. case m c of
      (Ok x, c') \<Rightarrow> (Ok (x, c'), s)
    | (Err, c') \<Rightarrow> (Err, s)
    | (Abort, c') \<Rightarrow> (Abort, s))"

definition op_get :: "('s, 's) op" where
  "op_get = (\<lambda>s. (Ok s, s))"

lemma op_ret_apply [simp, op_defs]: "op_ret x s = (Ok x, s)"
  by (simp add: op_ret_def)

lemma op_fail_apply [simp, op_defs]: "op_fail s = (Err, s)"
  by (simp add: op_fail_def)

lemma op_abort_apply [simp, op_defs]: "op_abort s = (Abort, s)"
  by (simp add: op_abort_def)

lemma op_get_apply [simp, op_defs]: "op_get s = (Ok s, s)"
  by (simp add: op_get_def)

lemma op_bind_apply [op_defs]:
  "op_bind m f s = (case m s of
      (Ok x, t) \<Rightarrow> f x t | (Err, t) \<Rightarrow> (Err, t) | (Abort, t) \<Rightarrow> (Abort, t))"
  by (simp add: op_bind_def)

lemma op_then_apply [op_defs]:
  "op_then m k s = (case m s of
      (Ok x, t) \<Rightarrow> k t | (Err, t) \<Rightarrow> (Err, t) | (Abort, t) \<Rightarrow> (Abort, t))"
  by (simp add: op_then_def op_bind_def)

lemma op_require_apply [simp, op_defs]: "op_require b s = (if b then (Ok (), s) else (Err, s))"
  by (simp add: op_require_def)

lemma op_assert_apply [simp, op_defs]: "op_assert b s = (if b then (Ok (), s) else (Abort, s))"
  by (simp add: op_assert_def)

lemma op_run_apply [op_defs]:
  "op_run m c s = (case m c of
      (Ok x, c') \<Rightarrow> (Ok (x, c'), s) | (Err, c') \<Rightarrow> (Err, s) | (Abort, c') \<Rightarrow> (Abort, s))"
  by (simp add: op_run_def)


text \<open>How an operation ends.\<close>

definition no_abort :: "('s, 'a) op \<Rightarrow> 's \<Rightarrow> bool" where
  "no_abort m s \<longleftrightarrow> fst (m s) \<noteq> Abort"

lemma op_bind_Ok_iff:
  "op_bind m f s = (Ok y, u) \<longleftrightarrow> (\<exists>x t. m s = (Ok x, t) \<and> f x t = (Ok y, u))"
  by (auto simp: op_bind_def split: prod.splits result.splits)

lemma op_then_Ok_iff:
  "op_then m k s = (Ok y, u) \<longleftrightarrow> (\<exists>x t. m s = (Ok x, t) \<and> k t = (Ok y, u))"
  by (simp add: op_then_def op_bind_Ok_iff)

lemma op_run_Ok_iff:
  "op_run m c s = (Ok (x, c'), t) \<longleftrightarrow> m c = (Ok x, c') \<and> t = s"
  by (auto simp: op_run_def split: prod.splits result.splits)

lemma op_run_Ok_D: "op_run m c s = (Ok y, t) \<Longrightarrow> m c = (Ok (fst y), snd y) \<and> t = s"
  by (cases y) (simp add: op_run_Ok_iff)

lemma op_run_state [simp]: "snd (op_run m c s) = s"
  by (auto simp: op_run_def split: prod.splits result.splits)

lemma op_bind_OkE:
  "op_bind m f s = (Ok y, u) \<Longrightarrow> (\<And>x t. m s = (Ok x, t) \<Longrightarrow> f x t = (Ok y, u) \<Longrightarrow> P) \<Longrightarrow> P"
  by (auto simp: op_bind_Ok_iff)

lemma op_require_OkE:
  "op_then (op_require b) k s = (Ok y, u) \<Longrightarrow> (b \<Longrightarrow> k s = (Ok y, u) \<Longrightarrow> P) \<Longrightarrow> P"
  by (auto simp: op_then_Ok_iff split: if_splits)

lemma op_get_OkE:
  "op_bind op_get f s = (Ok y, u) \<Longrightarrow> (f s s = (Ok y, u) \<Longrightarrow> P) \<Longrightarrow> P"
  by (simp add: op_bind_Ok_iff)

lemma op_bind_not_Abort:
  "fst (m s) \<noteq> Abort \<Longrightarrow> (\<And>x t. fst (f x t) \<noteq> Abort) \<Longrightarrow> fst (op_bind m f s) \<noteq> Abort"
  by (auto simp: op_bind_def split: prod.split result.split)

lemma op_require_not_Abort:
  "fst (k s) \<noteq> Abort \<Longrightarrow> fst (op_then (op_require b) k s) \<noteq> Abort"
  by (simp add: op_then_def op_bind_def)

lemma fst_Ok_obtain: "fst p = x \<Longrightarrow> (\<And>t. p = (x, t) \<Longrightarrow> thesis) \<Longrightarrow> thesis"
  by (cases p) simp

lemma op_bind_step: "m s = (Ok x, t) \<Longrightarrow> op_bind m f s = f x t"
  by (simp add: op_bind_def)

lemma op_require_step: "op_then (op_require b) k s = (if b then k s else (Err, s))"
  by (simp add: op_then_def op_bind_def)

text \<open>The combinators as equations between operations.\<close>

lemma op_then_assoc: "op_then (op_then a b) c = op_then a (op_then b c)"
  by (rule ext) (auto simp: op_then_apply split: prod.split result.split)

lemma op_bind_then: "op_bind (op_then a b) f = op_then a (op_bind b f)"
  by (rule ext) (auto simp: op_then_apply op_bind_apply split: prod.split result.split)

lemma op_then_ret_unit: "op_then m (op_ret ()) = (m :: ('s, unit) op)"
  by (rule ext) (auto simp: op_then_apply split: prod.split result.split)

lemma op_ret_then: "op_then (op_ret x) m = m"
  by (rule ext) (simp add: op_then_apply)

lemma op_run_step: "m c = (Ok x, c') \<Longrightarrow> op_bind (op_run m c) f = f (x, c')"
  by (rule ext) (simp add: op_bind_apply op_run_apply)

lemma op_run_fails: "fst (m c) = Err \<Longrightarrow> op_bind (op_run m c) f = op_fail"
  by (rule ext) (auto simp: op_bind_apply op_run_apply split: prod.split)

lemma op_require_True [simp]: "op_then (op_require True) k = k"
  by (rule ext) (simp add: op_require_step)

lemma op_require_False: "op_then (op_require False) k = op_fail"
  by (rule ext) (simp add: op_require_step)

lemma op_bind_then_distrib: "op_then (op_bind m f) k = op_bind m (\<lambda>x. op_then (f x) k)"
  by (rule ext) (auto simp: op_then_apply op_bind_apply split: prod.split result.split)

section \<open>Words\<close>

lemma or_eq_plus_shift:
  "push_bit n x OR ucast (b :: 'b::len word) = push_bit n x + ucast b"
  if "LENGTH('b) \<le> n" for x :: "'a::len word"
proof (rule disjunctive_add [symmetric])
  fix k
  show "\<not> bit (push_bit n x) k \<or> \<not> bit (ucast b :: 'a word) k"
    using that by (auto simp: bit_simps dest: bit_imp_le_length)
qed

lemma unat_push_bit_small:
  "unat x * 2 ^ k < 2 ^ LENGTH('a) \<Longrightarrow> unat (push_bit k (x :: 'a::len word)) = unat x * 2 ^ k"
  by (simp only: unsigned_push_bit_eq) (simp add: take_bit_eq_mod push_bit_eq_mult)

lemma or_low: "unat (x :: 'a::len word) < 2 ^ k \<Longrightarrow> push_bit k p OR x = push_bit k p + x"
proof (rule disjunctive_add [symmetric])
  fix j assume x: "unat x < 2 ^ k"
  have "j < k" if "bit x j"
  proof -
    have "odd (unat x div 2 ^ j)" using that by (simp add: bit_unsigned_iff bit_iff_odd [symmetric])
    then have "2 ^ j \<le> unat x" by (metis div_eq_0_iff even_zero not_le)
    with x have "(2 :: nat) ^ j < 2 ^ k" by (rule le_less_trans [rotated])
    then show ?thesis by simp
  qed
  then show "\<not> bit (push_bit k p) j \<or> \<not> bit x j" by (auto simp: bit_simps)
qed

lemma unat_or_low:
  assumes "unat (x :: 'a::len word) < 2 ^ k" and "unat p * 2 ^ k < 2 ^ LENGTH('a)" and "k \<le> LENGTH('a)"
  shows "unat (push_bit k p OR x) = unat p * 2 ^ k + unat x"
proof -
  have "unat p * 2 ^ k + unat x < 2 ^ LENGTH('a)"
  proof -
    have "unat p * 2 ^ k < 2 ^ (LENGTH('a) - k) * 2 ^ k"
      using assms(2,3) by (simp add: power_add [symmetric])
    then have "Suc (unat p) \<le> 2 ^ (LENGTH('a) - k)" by simp
    then have "Suc (unat p) * 2 ^ k \<le> 2 ^ (LENGTH('a) - k) * 2 ^ k" by (rule mult_right_mono) simp
    then show ?thesis using assms(1,3) by (simp add: power_add [symmetric])
  qed
  moreover have "unat (push_bit k p) = unat p * 2 ^ k" by (rule unat_push_bit_small [OF assms(2)])
  ultimately show ?thesis unfolding or_low [OF assms(1)] by (simp add: unat_word_ariths)
qed

lemma byte_bit_high [simp]: "8 \<le> n \<Longrightarrow> \<not> bit (b :: byte) n"
  by (auto dest: bit_imp_le_length)

lemma nat_less_32_cases:
  "(n :: nat) < 32 \<Longrightarrow>
     n \<in> {0,1,2,3,4,5,6,7,8,9,10,11,12,13,14,15,16,17,18,19,20,21,22,23,24,25,26,27,28,29,30,31}"
  by simp arith

lemma unat_ucast_up: "LENGTH('a) \<le> LENGTH('b) \<Longrightarrow> unat (ucast (x :: 'a::len word) :: 'b::len word) = unat x"
  by (simp add: unsigned_ucast_eq take_bit_nat_eq_self_iff unsigned_less less_le_trans
      [OF unsigned_less power_increasing])

lemma unat_lt_256: "unat (b :: byte) < 256"
  using unsigned_less [of b] by simp

lemma unat_u64: "unat (v :: u64) < 2 ^ 64"
  using unsigned_less [of v] by simp

lemma unat_u32: "unat (v :: u32) < 2 ^ 32"
  using unsigned_less [of v] by simp

lemma unat_u16: "unat (v :: u16) < 2 ^ 16"
  using unsigned_less [of v] by simp

lemma unat_mod_256 [simp]: "unat (b :: byte) mod 256 = unat b"
  using unat_lt_256 [of b] by simp

lemma unat_take_bit_mod: "unat (take_bit n (w :: 'a::len word)) = unat w mod 2 ^ n"
  by (simp only: unsigned_take_bit_eq) (simp only: take_bit_eq_mod)

lemma byte_and_80: "(b :: byte) AND 0x80 = 0 \<longleftrightarrow> unat b < 128"
proof -
  have "b AND 0x80 = 0 \<longleftrightarrow> \<not> bit b 7"
    using and_exp_eq_0_iff_not_bit [of b 7] by simp
  also have "\<dots> \<longleftrightarrow> \<not> odd (unat b div 128)"
  proof -
    have "bit b 7 \<longleftrightarrow> bit (unat b) 7" by (simp add: bit_unsigned_iff)
    then show ?thesis by (simp add: bit_iff_odd)
  qed
  also have "\<dots> \<longleftrightarrow> unat b < 128"
  proof -
    have "unat b div 128 < 2" using unat_lt_256 [of b] by simp
    then have "even (unat b div 128) \<longleftrightarrow> unat b div 128 = 0" by (auto simp: less_2_cases_iff)
    then show ?thesis by (simp add: div_eq_0_iff)
  qed
  finally show ?thesis .
qed

lemma byte_and_7f: "unat ((b :: byte) AND 0x7f) = unat b mod 128"
proof -
  have "b AND 0x7f = take_bit 7 b"
    by (simp add: take_bit_eq_mask mask_eq_exp_minus_1)
  then show ?thesis by (simp add: unat_mod_distrib take_bit_eq_mod)
qed

lemma u64_drop_bit_0: "drop_bit n (v :: u64) = 0 \<longleftrightarrow> unat v < 2 ^ n"
proof -
  have "drop_bit n v = 0 \<longleftrightarrow> unat (drop_bit n v) = 0" by (simp add: unat_eq_0)
  also have "\<dots> \<longleftrightarrow> unat v div 2 ^ n = 0" 
    by (simp only: unat_drop_bit_eq) (simp only: drop_bit_eq_div)
  finally show ?thesis by (simp add: div_eq_0_iff)
qed

lemma push7_or: "unat v < 2 ^ 57 \<Longrightarrow>
   unat (push_bit 7 (v :: u64) OR ucast ((b :: byte) AND 0x7f)) = unat v * 128 + unat b mod 128"
proof -
  assume v: "unat v < 2 ^ 57"
  have "push_bit 7 v OR ucast (b AND 0x7f) = push_bit 7 v + (ucast (b AND 0x7f) :: u64)"
  proof (rule disjunctive_add [symmetric])
    fix k
    have "bit (127 :: byte) k \<longleftrightarrow> k < 7"
      using bit_mask_iff [of 7 k, where 'a = byte] by (auto simp: mask_eq_exp_minus_1)
    then show "\<not> bit (push_bit 7 v) k \<or> \<not> bit (ucast (b AND 0x7f) :: u64) k"
      by (auto simp: bit_simps)
  qed
  also have "unat \<dots> = (unat v * 128 + unat b mod 128) mod 2 ^ 64"
    by (simp add: unat_word_ariths push_bit_eq_mult unat_ucast_up byte_and_7f mod_simps mult.commute)
  also have "\<dots> = unat v * 128 + unat b mod 128"
  proof (rule mod_less)
    have "unat b mod 128 < 128" by simp
    with v show "unat v * 128 + unat b mod 128 < 2 ^ 64" by simp
  qed
  finally show ?thesis .
qed

lemma unat_div_256 [simp]: "unat (b :: byte) div 256 = 0"
  using unat_lt_256 [of b] by simp

section \<open>Big-endian byte strings\<close>

text \<open>The number a byte string denotes, and the \<open>n\<close> low bytes of a number.\<close>

fun be_val :: "byte list \<Rightarrow> nat" where
  "be_val [] = 0"
| "be_val (b # bs) = unat b * 256 ^ length bs + be_val bs"

fun be_bytes :: "nat \<Rightarrow> nat \<Rightarrow> byte list" where
  "be_bytes 0 v = []"
| "be_bytes (Suc n) v = be_bytes n (v div 256) @ [of_nat v]"

lemma length_be_bytes [simp]: "length (be_bytes n v) = n"
  by (induction n arbitrary: v) auto

lemma be_val_append: "be_val (xs @ ys) = be_val xs * 256 ^ length ys + be_val ys"
  by (induction xs) (auto simp: power_add algebra_simps)

lemma be_val_less: "be_val bs < 256 ^ length bs"
proof (induction bs)
  case (Cons b bs)
  have "unat b * 256 ^ length bs + be_val bs < unat b * 256 ^ length bs + 256 ^ length bs"
    using Cons by simp
  also have "\<dots> = (unat b + 1) * 256 ^ length bs" by simp
  also have "\<dots> \<le> 256 * 256 ^ length bs"
    using unat_lt_256 [of b] by (intro mult_right_mono) simp_all
  finally show ?case by simp
qed simp

lemma unat_of_nat_byte [simp]: "unat (of_nat v :: byte) = v mod 256"
  by (simp add: unsigned_of_nat take_bit_eq_mod)

lemma be_val_be_bytes: "be_val (be_bytes n v) = v mod 256 ^ n"
proof (induction n arbitrary: v)
  case (Suc n)
  have "v mod 256 ^ Suc n = 256 * (v div 256 mod 256 ^ n) + v mod 256"
    by (simp add: mod_mult2_eq)
  with Suc show ?case by (simp add: be_val_append)
qed simp

lemma be_val_be_bytes_exact [simp]: "v < 256 ^ n \<Longrightarrow> be_val (be_bytes n v) = v"
  by (simp add: be_val_be_bytes)

lemma be_bytes_be_val [simp]: "be_bytes (length bs) (be_val bs) = bs"
proof (induction bs rule: rev_induct)
  case (snoc b bs)
  have "of_nat (be_val (bs @ [b])) = b"
  proof -
    have "be_val (bs @ [b]) mod 256 = unat b"
      by (simp add: be_val_append)
    then have "unat (of_nat (be_val (bs @ [b])) :: byte) = unat b"
      by (simp only: unat_of_nat_byte)
    then show ?thesis by (simp only: word_unat_eq_iff)
  qed
  with snoc show ?case by (simp add: be_val_append)
qed simp

lemma be_val_inj: "length xs = length ys \<Longrightarrow> be_val xs = be_val ys \<Longrightarrow> xs = ys"
  by (metis be_bytes_be_val)

lemma be_bytes_eq_iff:
  "v < 256 ^ n \<Longrightarrow> w < 256 ^ n \<Longrightarrow> be_bytes n v = be_bytes n w \<longleftrightarrow> v = w"
  by (metis be_val_be_bytes_exact)

lemma be_bytes_mod: "be_bytes n (v mod 256 ^ n) = be_bytes n v"
  by (metis be_bytes_be_val be_val_be_bytes length_be_bytes)

lemma be_val_replicate_0 [simp]: "be_val (replicate n 0) = 0"
  by (induction n) auto

lemma unat_drop_u32: "unat (drop_bit k (u :: u32)) = unat u div 2 ^ k"
  by (simp only: unat_drop_bit_eq) (simp add: drop_bit_eq_div)

end
