(* ===== verification/Byte_Codec.thy ===== *)
theory Byte_Codec
  imports BS_Prelude
begin

text \<open>
  The two contracts that the byte-string readers of the library satisfy, as locales. A
  reader consumes a prefix of its input, never leaves the defined behaviour of C, and its
  success does not depend on what follows the bytes it consumed. A codec pairs a reader
  with the one encoding it accepts.
\<close>

section \<open>Readers\<close>

locale byte_reader =
  fixes rd :: "(byte list, 'a) op"
  assumes rd_suffix: "\<exists>p. bs = p @ snd (rd bs)"
    and rd_safe: "fst (rd bs) \<noteq> Abort"
    and rd_local: "rd bs = (Ok x, rest) \<Longrightarrow> rd (bs @ t) = (Ok x, rest @ t)"
begin

lemma rd_shrinks: "rd bs = (r, rest) \<Longrightarrow> length rest \<le> length bs"
  using rd_suffix [of bs] by (metis length_append le_add2 snd_conv)

lemma rd_drop: "rd bs = (r, rest) \<Longrightarrow> rest = drop (length bs - length rest) bs"
  using rd_suffix [of bs] by (metis append_eq_conv_conj diff_add_inverse2 length_append snd_conv)

lemma rd_consumed:
  assumes "rd bs = (Ok x, rest)"
  obtains p where "bs = p @ rest" and "\<And>t. rd (p @ rest @ t) = (Ok x, rest @ t)"
proof -
  from rd_suffix [of bs] assms obtain p where p: "bs = p @ rest" by auto
  then have "rd (p @ rest @ t) = (Ok x, rest @ t)" for t
    using rd_local [OF assms, of t] by simp
  with p show ?thesis by (rule that)
qed

lemma rd_cases:
  obtains (ok) x rest where "rd bs = (Ok x, rest)" | (err) rest where "rd bs = (Err, rest)"
  using rd_safe [of bs] by (cases "rd bs"; cases "fst (rd bs)") auto

end

text \<open>Reading one value and then another is again a reader.\<close>

lemma byte_reader_bind:
  assumes m: "byte_reader m" and f: "\<And>x. byte_reader (f x)"
  shows "byte_reader (op_bind m f)"
proof
  fix bs :: "byte list"
  from byte_reader.rd_suffix [OF m, of bs] obtain p where p: "bs = p @ snd (m bs)" by blast
  have q: "\<exists>q. snd (m bs) = q @ snd (f x (snd (m bs)))" for x
    by (rule byte_reader.rd_suffix [OF f])
  show "\<exists>p. bs = p @ snd (op_bind m f bs)"
  proof (cases "m bs")
    case (Pair r c)
    with p q show ?thesis
      by (cases r) (auto simp: op_bind_def, metis append.assoc)
  qed
  show "fst (op_bind m f bs) \<noteq> Abort"
    using byte_reader.rd_safe [OF m, of bs] byte_reader.rd_safe [OF f]
    by (auto simp: op_bind_def split: prod.splits result.splits)
next
  fix bs x rest t
  assume "op_bind m f bs = (Ok x, rest)"
  then obtain y c where "m bs = (Ok y, c)" and "f y c = (Ok x, rest)"
    by (auto simp: op_bind_Ok_iff)
  then show "op_bind m f (bs @ t) = (Ok x, rest @ t)"
    using byte_reader.rd_local [OF m] byte_reader.rd_local [OF f]
    by (auto simp: op_bind_Ok_iff)
qed

lemma byte_reader_ret: "byte_reader (op_ret x)"
  by unfold_locales auto

lemma byte_reader_fail: "byte_reader op_fail"
  by unfold_locales auto

lemma byte_reader_require: "byte_reader (op_require b)"
  by (cases b) (simp_all add: op_require_def byte_reader_ret byte_reader_fail)

lemma byte_reader_then:
  "byte_reader m \<Longrightarrow> byte_reader k \<Longrightarrow> byte_reader (op_then m k)"
  unfolding op_then_def by (rule byte_reader_bind)

lemma byte_reader_run:
  assumes "fst (m c) \<noteq> Abort" shows "byte_reader (op_run m c)"
  using assms by unfold_locales (auto simp: op_run_def split: prod.splits result.splits)

lemmas byte_reader_intros =
  byte_reader_bind byte_reader_then byte_reader_ret byte_reader_fail byte_reader_require

section \<open>Codecs\<close>

locale byte_codec =
  fixes rd :: "(byte list, 'a) op"
    and enc :: "'a \<Rightarrow> byte list"
    and ok :: "'a \<Rightarrow> bool"
  assumes rd_enc: "ok x \<Longrightarrow> rd (enc x @ rest) = (Ok x, rest)"
    and enc_rd: "rd bs = (Ok x, rest) \<Longrightarrow> ok x \<and> bs = enc x @ rest"
begin

lemma rd_iff: "rd bs = (Ok x, rest) \<longleftrightarrow> ok x \<and> bs = enc x @ rest"
  using rd_enc enc_rd by auto

lemma rd_enc_all: "ok x \<Longrightarrow> rd (enc x) = (Ok x, [])"
  using rd_enc [of x "[]"] by simp

lemma prefix_free:
  assumes "ok x" and "ok y" and "enc x @ s = enc y @ t"
  shows "x = y \<and> s = t"
  using rd_enc [OF assms(1), of s] rd_enc [OF assms(2), of t] unfolding assms(3) by simp

lemma enc_inj: "ok x \<Longrightarrow> ok y \<Longrightarrow> enc x = enc y \<Longrightarrow> x = y"
  using prefix_free [of x y "[]" "[]"] by simp

text \<open>A string of encodings splits in one way only.\<close>

lemma concat_enc_inj:
  "list_all ok xs \<Longrightarrow> list_all ok ys \<Longrightarrow> (\<And>x. ok x \<Longrightarrow> enc x \<noteq> []) \<Longrightarrow>
     concat (map enc xs) = concat (map enc ys) \<Longrightarrow> xs = ys"
proof (induction xs arbitrary: ys)
  case Nil
  then show ?case by (cases ys) auto
next
  case (Cons x xs)
  then show ?case
  proof (cases ys)
    case (Cons y ys')
    have "x = y \<and> concat (map enc xs) = concat (map enc ys')"
      by (rule prefix_free) (use Cons Cons.prems in simp_all)
    with Cons.prems Cons.IH [of ys'] Cons show ?thesis by simp
  next
    case Nil
    with Cons.prems show ?thesis by simp
  qed
qed

end

text \<open>A codec whose reader is safe and consumes from the front is a reader.\<close>

locale safe_byte_codec = byte_codec +
  assumes rd_front: "\<exists>p. bs = p @ snd (rd bs)"
    and rd_no_abort: "fst (rd bs) \<noteq> Abort"

sublocale safe_byte_codec \<subseteq> byte_reader rd
proof
  fix bs x rest t
  assume "rd bs = (Ok x, rest)"
  then have "ok x" and "bs = enc x @ rest" using enc_rd by auto
  then show "rd (bs @ t) = (Ok x, rest @ t)" using rd_enc [of x "rest @ t"] by simp
qed (rule rd_front rd_no_abort)+

end
