(* ===== verification/C_Mem.thy ===== *)
theory C_Mem
  imports BS_Prelude
begin

text \<open>
  The memory and character helpers of crypto/mem.c and crypto/internal.h that the other
  components call. A block of memory is the list of its bytes. The allocator is a
  parameter: it maps a size to the contents of a fresh block of that size, or to nothing
  when the allocation fails.
\<close>

type_synonym allocator = "nat \<Rightarrow> byte list option"

definition alloc_ok :: "allocator \<Rightarrow> bool" where
  "alloc_ok mem \<longleftrightarrow> (\<forall>n bs. mem n = Some bs \<longrightarrow> length bs = n)"

lemma alloc_okD: "alloc_ok mem \<Longrightarrow> mem n = Some bs \<Longrightarrow> length bs = n"
  by (simp add: alloc_ok_def)

section \<open>Characters\<close>

text \<open>Character constants: 0x30 to 0x39 are the digits, 0x41 is A, 0x61 is a.\<close>

definition OPENSSL_isalpha :: "byte \<Rightarrow> bool" where
  "OPENSSL_isalpha c \<longleftrightarrow> (0x61 \<le> c \<and> c \<le> 0x7a) \<or> (0x41 \<le> c \<and> c \<le> 0x5a)"

definition OPENSSL_isdigit :: "byte \<Rightarrow> bool" where
  "OPENSSL_isdigit c \<longleftrightarrow> 0x30 \<le> c \<and> c \<le> 0x39"

definition OPENSSL_isxdigit :: "byte \<Rightarrow> bool" where
  "OPENSSL_isxdigit c \<longleftrightarrow>
     OPENSSL_isdigit c \<or> (0x61 \<le> c \<and> c \<le> 0x66) \<or> (0x41 \<le> c \<and> c \<le> 0x46)"

definition OPENSSL_fromxdigit :: "byte \<Rightarrow> byte result" where
  "OPENSSL_fromxdigit c =
     (if OPENSSL_isdigit c then Ok (c - 0x30)
      else if 0x61 \<le> c \<and> c \<le> 0x66 then Ok (c - 0x61 + 10)
      else if 0x41 \<le> c \<and> c \<le> 0x46 then Ok (c - 0x41 + 10)
      else Err)"

definition OPENSSL_isalnum :: "byte \<Rightarrow> bool" where
  "OPENSSL_isalnum c \<longleftrightarrow> OPENSSL_isalpha c \<or> OPENSSL_isdigit c"

definition OPENSSL_tolower :: "byte \<Rightarrow> byte" where
  "OPENSSL_tolower c = (if 0x41 \<le> c \<and> c \<le> 0x5a then c + (0x61 - 0x41) else c)"

definition OPENSSL_isspace :: "byte \<Rightarrow> bool" where
  "OPENSSL_isspace c \<longleftrightarrow> c = 0x09 \<or> c = 0x0a \<or> c = 0x0b \<or> c = 0x0c \<or> c = 0x0d \<or> c = 0x20"

section \<open>Blocks of memory\<close>

text \<open>The comparison loop reads every byte, whatever it has already found.\<close>

fun CRYPTO_memcmp_loop :: "byte list \<Rightarrow> byte list \<Rightarrow> byte \<Rightarrow> byte" where
  "CRYPTO_memcmp_loop (a # as) (b # bs) x = CRYPTO_memcmp_loop as bs (x OR (a XOR b))"
| "CRYPTO_memcmp_loop _ _ x = x"

definition CRYPTO_memcmp :: "byte list \<Rightarrow> byte list \<Rightarrow> nat \<Rightarrow> int" where
  "CRYPTO_memcmp a b len = uint (CRYPTO_memcmp_loop (take len a) (take len b) 0)"

text \<open>The position of the first \<open>c\<close>, as \<open>memchr\<close> finds it.\<close>

fun OPENSSL_memchr :: "byte list \<Rightarrow> byte \<Rightarrow> nat \<Rightarrow> nat option" where
  "OPENSSL_memchr s c 0 = None"
| "OPENSSL_memchr [] c (Suc n) = None"
| "OPENSSL_memchr (b # s) c (Suc n) =
     (if b = c then Some 0 else map_option Suc (OPENSSL_memchr s c n))"

text \<open>The sign of \<open>memcmp\<close>: the first difference decides, as unsigned bytes.\<close>

fun OPENSSL_memcmp :: "byte list \<Rightarrow> byte list \<Rightarrow> nat \<Rightarrow> int" where
  "OPENSSL_memcmp (a # as) (b # bs) (Suc n) =
     (if a < b then -1 else if b < a then 1 else OPENSSL_memcmp as bs n)"
| "OPENSSL_memcmp _ _ _ = 0"

fun OPENSSL_strnlen :: "byte list \<Rightarrow> nat \<Rightarrow> nat" where
  "OPENSSL_strnlen s 0 = 0"
| "OPENSSL_strnlen [] (Suc n) = 0"
| "OPENSSL_strnlen (c # s) (Suc n) = (if c = 0 then 0 else Suc (OPENSSL_strnlen s n))"

definition OPENSSL_memdup :: "allocator \<Rightarrow> byte list \<Rightarrow> nat \<Rightarrow> byte list option" where
  "OPENSSL_memdup mem data n =
     (if n = 0 then None
      else case mem n of None \<Rightarrow> None | Some _ \<Rightarrow> Some (take n data))"

definition OPENSSL_strndup :: "allocator \<Rightarrow> byte list \<Rightarrow> nat \<Rightarrow> byte list option" where
  "OPENSSL_strndup mem str n =
     (let n' = OPENSSL_strnlen str n;
          alloc_size = size_add n' 1
      in if alloc_size < n' then None
         else case mem alloc_size of
           None \<Rightarrow> None
         | Some _ \<Rightarrow> Some (take n' str @ [0]))"

text \<open>\<open>realloc\<close> keeps the bytes that fit in the new block.\<close>

definition OPENSSL_realloc :: "allocator \<Rightarrow> byte list \<Rightarrow> nat \<Rightarrow> byte list option" where
  "OPENSSL_realloc mem old n =
     (case mem n of
        None \<Rightarrow> None
      | Some fresh \<Rightarrow> Some (take n old @ drop (length (take n old)) fresh))"

text \<open>
  Copies within and between blocks: \<open>dst\<close> is a block with an offset into it, and
  \<open>None\<close> is an access outside a block.
\<close>

definition OPENSSL_memcpy :: "byte list \<Rightarrow> nat \<Rightarrow> byte list \<Rightarrow> nat \<Rightarrow> byte list option" where
  "OPENSSL_memcpy dst off src n =
     (if n = 0 then Some dst
      else if off + n > length dst \<or> n > length src then None
      else Some (take off dst @ take n src @ drop (off + n) dst))"

definition OPENSSL_memmove :: "byte list \<Rightarrow> nat \<Rightarrow> nat \<Rightarrow> nat \<Rightarrow> byte list option" where
  "OPENSSL_memmove block dst src n =
     (if n = 0 then Some block
      else if src + n > length block \<or> dst + n > length block then None
      else Some (take dst block @ take n (drop src block) @ drop (dst + n) block))"

definition OPENSSL_memset :: "byte list \<Rightarrow> nat \<Rightarrow> byte \<Rightarrow> nat \<Rightarrow> byte list option" where
  "OPENSSL_memset block off c n =
     (if n = 0 then Some block
      else if off + n > length block then None
      else Some (take off block @ replicate n c @ drop (off + n) block))"

section \<open>Byte order\<close>

definition CRYPTO_bswap2 :: "u16 \<Rightarrow> u16" where
  "CRYPTO_bswap2 x = drop_bit 8 x OR push_bit 8 x"

definition CRYPTO_bswap4 :: "u32 \<Rightarrow> u32" where
  "CRYPTO_bswap4 x =
     (let x = drop_bit 16 x OR push_bit 16 x
      in drop_bit 8 (x AND 0xff00ff00) OR push_bit 8 (x AND 0x00ff00ff))"

definition CRYPTO_bswap8 :: "u64 \<Rightarrow> u64" where
  "CRYPTO_bswap8 x =
     (ucast (CRYPTO_bswap4 (ucast (drop_bit 32 x))) :: u64)
       OR push_bit 32 (ucast (CRYPTO_bswap4 (ucast x)))"

section \<open>Lemmas\<close>

lemma word_xor_eq_0_iff: "(a :: 'a::len word) XOR b = 0 \<longleftrightarrow> a = b"
  by (metis xor.assoc xor.left_neutral xor_self_eq xor.right_neutral)

lemma CRYPTO_memcmp_loop_zero:
  "length as = length bs \<Longrightarrow> CRYPTO_memcmp_loop as bs x = 0 \<longleftrightarrow> x = 0 \<and> as = bs"
proof (induction as bs x rule: CRYPTO_memcmp_loop.induct)
  case (1 a as b bs x)
  then show ?case by (auto simp: or_eq_0_iff word_xor_eq_0_iff)
qed auto

lemma CRYPTO_memcmp_zero_iff:
  "length a = len \<Longrightarrow> length b = len \<Longrightarrow> CRYPTO_memcmp a b len = 0 \<longleftrightarrow> a = b"
  by (simp add: CRYPTO_memcmp_def uint_0_iff CRYPTO_memcmp_loop_zero)

lemma OPENSSL_memchr_None: "OPENSSL_memchr s c n = None \<longleftrightarrow> c \<notin> set (take n s)"
  by (induction s c n rule: OPENSSL_memchr.induct) auto

lemma OPENSSL_memchr_Some:
  "OPENSSL_memchr s c n = Some i \<longleftrightarrow>
     i < n \<and> i < length s \<and> s ! i = c \<and> c \<notin> set (take i s)"
proof (induction s c n arbitrary: i rule: OPENSSL_memchr.induct)
  case (3 b s c n)
  then show ?case by (cases i) auto
qed auto

lemma OPENSSL_strnlen_le: "OPENSSL_strnlen s n \<le> n \<and> OPENSSL_strnlen s n \<le> length s"
  by (induction s n rule: OPENSSL_strnlen.induct) auto

lemma OPENSSL_strnlen_takeWhile:
  "take (OPENSSL_strnlen s n) s = takeWhile (\<lambda>c. c \<noteq> 0) (take n s)"
  by (induction s n rule: OPENSSL_strnlen.induct) auto

lemma length_OPENSSL_realloc:
  "alloc_ok mem \<Longrightarrow> OPENSSL_realloc mem old n = Some new \<Longrightarrow> length new = n"
  by (auto simp: OPENSSL_realloc_def dest: alloc_okD split: option.splits)

lemma take_OPENSSL_realloc:
  "OPENSSL_realloc mem old n = Some new \<Longrightarrow> k \<le> length old \<Longrightarrow> k \<le> n \<Longrightarrow>
     take k new = take k old"
  by (auto simp: OPENSSL_realloc_def min_def split: option.splits)


lemma OPENSSL_memcpy_at:
  "length old = n \<Longrightarrow> n \<le> length src \<Longrightarrow>
     OPENSSL_memcpy (front @ old @ rest) (length front) src n = Some (front @ take n src @ rest)"
  by (auto simp: OPENSSL_memcpy_def)

lemma OPENSSL_memset_at:
  "length old = n \<Longrightarrow>
     OPENSSL_memset (front @ old @ rest) (length front) c n = Some (front @ replicate n c @ rest)"
  by (auto simp: OPENSSL_memset_def)

text \<open>Moving \<open>xs\<close> up by \<open>length gap\<close> within \<open>front @ xs @ gap @ rest\<close>.\<close>

lemma OPENSSL_memmove_up:
  "OPENSSL_memmove (front @ xs @ gap @ rest) (length front + length gap) (length front) (length xs) =
     Some (front @ take (length gap) (xs @ gap) @ xs @ rest)"
  by (auto simp: OPENSSL_memmove_def add.commute)

lemma CRYPTO_bswap2_bytes:
  "CRYPTO_bswap2 (push_bit 8 (ucast a) OR ucast (b :: byte)) =
     push_bit 8 (ucast b) OR ucast (a :: byte)"
  unfolding CRYPTO_bswap2_def
  by (rule bit_word_eqI) (auto simp: bit_simps dest: bit_imp_le_length)

lemma CRYPTO_bswap4_bytes:
  "CRYPTO_bswap4 (push_bit 24 (ucast a) OR push_bit 16 (ucast b) OR push_bit 8 (ucast c)
       OR ucast (d :: byte)) =
     push_bit 24 (ucast d) OR push_bit 16 (ucast (c :: byte)) OR push_bit 8 (ucast (b :: byte))
       OR ucast (a :: byte)" (is "?l = ?r")
proof (rule bit_word_eqI)
  fix n assume "n < LENGTH(32)"
  then have "n \<in> {0,1,2,3,4,5,6,7,8,9,10,11,12,13,14,15,16,17,18,19,20,21,22,23,24,25,26,27,28,29,30,31}"
    by (intro nat_less_32_cases) simp
  then show "bit ?l n = bit ?r n"
    unfolding insert_iff empty_iff CRYPTO_bswap4_def Let_def
    by (elim disjE) (simp_all add: bit_simps)
qed

lemma CRYPTO_bswap8_halves:
  "CRYPTO_bswap8 (push_bit 32 (ucast hi) OR ucast (lo :: u32)) =
     push_bit 32 (ucast (CRYPTO_bswap4 lo)) OR ucast (CRYPTO_bswap4 (hi :: u32))"
proof -
  have hi: "(ucast (drop_bit 32 (push_bit 32 (ucast hi) OR ucast lo :: u64)) :: u32) = hi"
    by (rule bit_word_eqI) (auto simp: bit_simps dest: bit_imp_le_length)
  have lo: "(ucast (push_bit 32 (ucast hi) OR ucast lo :: u64) :: u32) = lo"
    by (rule bit_word_eqI) (auto simp: bit_simps dest: bit_imp_le_length)
  show ?thesis unfolding CRYPTO_bswap8_def hi lo by (rule or.commute)
qed

text \<open>In terms of the number that a big-endian byte string denotes.\<close>

lemma be_val_2_or: "(of_nat (be_val [a, b]) :: u16) = push_bit 8 (ucast a) OR ucast b"
  by (subst or_eq_plus_shift) (simp_all add: push_bit_eq_mult)

lemma be_val_4_or:
  "(of_nat (be_val [a, b, c, d]) :: u32) =
     push_bit 24 (ucast a) OR push_bit 16 (ucast b) OR push_bit 8 (ucast c) OR ucast d"
proof -
  have step: "push_bit 8 (x :: u32) OR ucast (y :: byte) = x * 256 + ucast y" for x y
    by (subst or_eq_plus_shift) (simp_all add: push_bit_eq_mult)
  have "push_bit 24 (ucast a) OR push_bit 16 (ucast b) OR push_bit 8 (ucast c) OR ucast d =
     push_bit 8 (push_bit 8 (push_bit 8 (ucast a) OR ucast b) OR ucast c) OR (ucast d :: u32)"
    by (simp add: push_bit_or or.assoc)
  also have "\<dots> = ((ucast a * 256 + ucast b) * 256 + ucast c) * 256 + ucast d"
    by (simp only: step)
  finally show ?thesis by (simp add: algebra_simps)
qed

lemma be_val_8_or:
  "length hi = 4 \<Longrightarrow> length lo = 4 \<Longrightarrow>
     (of_nat (be_val (hi @ lo)) :: u64) =
       push_bit 32 (ucast (of_nat (be_val hi) :: u32)) OR ucast (of_nat (be_val lo) :: u32)"
proof -
  assume len: "length hi = 4" "length lo = 4"
  have small: "be_val hi < 2 ^ 32" "be_val lo < 2 ^ 32"
    using be_val_less [of hi] be_val_less [of lo] by (simp_all add: len)
  have up: "(ucast (of_nat v :: u32) :: u64) = of_nat v" if "v < 2 ^ 32" for v
    using that by (intro word_unat_eq_iff [THEN iffD2])
      (simp add: unat_ucast_up unsigned_of_nat take_bit_nat_eq_self)
  show ?thesis
    using small len by (subst or_eq_plus_shift) (simp_all add: up be_val_append push_bit_eq_mult)
qed

lemma CRYPTO_bswap2_be_val:
  "length bs = 2 \<Longrightarrow> CRYPTO_bswap2 (of_nat (be_val bs)) = of_nat (be_val (rev bs))"
  by (cases bs rule: list.exhaust; cases "tl bs") 
    (auto simp del: be_val.simps simp: be_val_2_or CRYPTO_bswap2_bytes length_Suc_conv numeral_2_eq_2)

lemma length_4_cases:
  assumes "length bs = 4" obtains a b c d where "bs = [a, b, c, d]"
  using assms by (auto simp: numeral_eq_Suc length_Suc_conv)

lemma CRYPTO_bswap4_be_val:
  assumes "length bs = 4"
  shows "CRYPTO_bswap4 (of_nat (be_val bs)) = of_nat (be_val (rev bs))"
  using assms by (elim length_4_cases)
    (simp del: be_val.simps add: be_val_4_or CRYPTO_bswap4_bytes or.assoc)

lemma CRYPTO_bswap8_be_val:
  assumes "length bs = 8"
  shows "CRYPTO_bswap8 (of_nat (be_val bs)) = of_nat (be_val (rev bs))"
proof -
  have len: "length (take 4 bs) = 4" "length (drop 4 bs) = 4"
    using assms by simp_all
  have "CRYPTO_bswap8 (of_nat (be_val (take 4 bs @ drop 4 bs))) =
      of_nat (be_val (rev (drop 4 bs) @ rev (take 4 bs)))"
    using len by (subst (1 2) be_val_8_or)
      (simp_all add: CRYPTO_bswap8_halves CRYPTO_bswap4_be_val)
  then show ?thesis by (simp only: append_take_drop_id rev_append [symmetric])
qed

section \<open>Property\<close>

text \<open>The constant-time comparison returns zero exactly on equal blocks.\<close>

theorem memcmp_equal:
  assumes "length a = len" and "length b = len"
  shows "CRYPTO_memcmp a b len = 0 \<longleftrightarrow> a = b"
  using assms by (rule CRYPTO_memcmp_zero_iff)

theorem memcmp_equal_witness:
  "(CRYPTO_memcmp [1, 2] [1, 3] 2 = 0) = ([1, 2] = [1, 3 :: byte])"
  using memcmp_equal [of "[1, 2]" 2 "[1, 3]"] by simp

end
