(* ===== verification/Cbs_Core.thy ===== *)
theory Cbs_Core
  imports Byte_Codec C_Mem
begin

text \<open>
  crypto/bytestring/cbs.c, first part: reading bytes, fixed-width integers,
  length-prefixed strings and decimal numbers off the front of a \<open>CBS\<close>. A \<open>CBS\<close>
  is a pointer and a length into memory it does not own; the model is the list of the
  bytes in view. Every reader is an operation on the \<open>CBS\<close>, which is left advanced by
  what was consumed even when the reader fails, as in the code.
\<close>

type_synonym CBS = "byte list"

abbreviation CBS_len :: "CBS \<Rightarrow> nat" where
  "CBS_len cbs \<equiv> length cbs"

section \<open>Bytes\<close>

definition cbs_get :: "nat \<Rightarrow> (CBS, byte list) op" where
  "cbs_get n cbs = (if CBS_len cbs < n then (Err, cbs) else (Ok (take n cbs), drop n cbs))"

definition CBS_skip :: "nat \<Rightarrow> (CBS, unit) op" where
  "CBS_skip len = op_bind (cbs_get len) (\<lambda>dummy. op_ret ())"

text \<open>\<open>Ok None\<close> is a successful call that stores the null pointer.\<close>

definition CBS_stow :: "allocator \<Rightarrow> CBS \<Rightarrow> byte list option result" where
  "CBS_stow mem cbs =
     (if CBS_len cbs = 0 then Ok None
      else case OPENSSL_memdup mem cbs (CBS_len cbs) of
        None \<Rightarrow> Err
      | Some p \<Rightarrow> Ok (Some p))"

definition CBS_strdup :: "allocator \<Rightarrow> CBS \<Rightarrow> byte list result" where
  "CBS_strdup mem cbs =
     (case OPENSSL_strndup mem cbs (CBS_len cbs) of None \<Rightarrow> Err | Some p \<Rightarrow> Ok p)"

definition CBS_contains_zero_byte :: "CBS \<Rightarrow> bool" where
  "CBS_contains_zero_byte cbs = (OPENSSL_memchr cbs 0 (CBS_len cbs) \<noteq> None)"

definition CBS_mem_equal :: "CBS \<Rightarrow> byte list \<Rightarrow> nat \<Rightarrow> bool" where
  "CBS_mem_equal cbs data len =
     (if len \<noteq> CBS_len cbs then False else CRYPTO_memcmp cbs data len = 0)"

section \<open>Fixed-width integers\<close>

fun cbs_get_u_loop :: "byte list \<Rightarrow> u64 \<Rightarrow> u64" where
  "cbs_get_u_loop [] result = result"
| "cbs_get_u_loop (d # data) result = cbs_get_u_loop data (push_bit 8 result OR ucast d)"

definition cbs_get_u :: "nat \<Rightarrow> (CBS, u64) op" where
  "cbs_get_u len = op_bind (cbs_get len) (\<lambda>data. op_ret (cbs_get_u_loop data 0))"

definition CBS_get_u8 :: "(CBS, byte) op" where
  "CBS_get_u8 = op_bind (cbs_get 1) (\<lambda>v. op_ret (hd v))"

definition CBS_get_u16 :: "(CBS, u16) op" where
  "CBS_get_u16 = op_bind (cbs_get_u 2) (\<lambda>v. op_ret (ucast v))"

definition CBS_get_u16le :: "(CBS, u16) op" where
  "CBS_get_u16le = op_bind CBS_get_u16 (\<lambda>out. op_ret (CRYPTO_bswap2 out))"

definition CBS_get_u24 :: "(CBS, u32) op" where
  "CBS_get_u24 = op_bind (cbs_get_u 3) (\<lambda>v. op_ret (ucast v))"

definition CBS_get_u32 :: "(CBS, u32) op" where
  "CBS_get_u32 = op_bind (cbs_get_u 4) (\<lambda>v. op_ret (ucast v))"

definition CBS_get_u32le :: "(CBS, u32) op" where
  "CBS_get_u32le = op_bind CBS_get_u32 (\<lambda>out. op_ret (CRYPTO_bswap4 out))"

definition CBS_get_u64 :: "(CBS, u64) op" where
  "CBS_get_u64 = cbs_get_u 8"

definition CBS_get_u64le :: "(CBS, u64) op" where
  "CBS_get_u64le = op_bind (cbs_get_u 8) (\<lambda>out. op_ret (CRYPTO_bswap8 out))"

definition CBS_get_last_u8 :: "(CBS, byte) op" where
  "CBS_get_last_u8 cbs =
     (if CBS_len cbs = 0 then (Err, cbs)
      else (Ok (cbs ! (CBS_len cbs - 1)), take (CBS_len cbs - 1) cbs))"

section \<open>Substrings\<close>

definition CBS_get_bytes :: "nat \<Rightarrow> (CBS, CBS) op" where
  "CBS_get_bytes len = op_bind (cbs_get len) (\<lambda>v. op_ret v)"

definition CBS_copy_bytes :: "nat \<Rightarrow> (CBS, byte list) op" where
  "CBS_copy_bytes len = op_bind (cbs_get len) (\<lambda>v. op_ret v)"

definition cbs_get_length_prefixed :: "nat \<Rightarrow> (CBS, CBS) op" where
  "cbs_get_length_prefixed len_len =
     op_bind (cbs_get_u len_len) (\<lambda>len.
       op_then (op_assert (len_len \<le> 3)) (CBS_get_bytes (unat len)))"

definition CBS_get_u8_length_prefixed :: "(CBS, CBS) op" where
  "CBS_get_u8_length_prefixed = cbs_get_length_prefixed 1"

definition CBS_get_u16_length_prefixed :: "(CBS, CBS) op" where
  "CBS_get_u16_length_prefixed = cbs_get_length_prefixed 2"

definition CBS_get_u24_length_prefixed :: "(CBS, CBS) op" where
  "CBS_get_u24_length_prefixed = cbs_get_length_prefixed 3"

definition CBS_get_until_first :: "byte \<Rightarrow> (CBS, CBS) op" where
  "CBS_get_until_first c cbs =
     (case OPENSSL_memchr cbs c (CBS_len cbs) of
        None \<Rightarrow> (Err, cbs)
      | Some split \<Rightarrow> CBS_get_bytes split cbs)"

section \<open>What the readers compute\<close>

lemma cbs_get_u_loop_val: "cbs_get_u_loop bs r = r * 256 ^ length bs + of_nat (be_val bs)"
proof (induction bs arbitrary: r)
  case (Cons b bs)
  have "push_bit 8 r OR ucast b = r * 256 + of_nat (unat b)"
    by (subst or_eq_plus_shift) (simp_all add: push_bit_eq_mult)
  with Cons show ?case by (simp add: algebra_simps)
qed simp

lemma CBS_skip_eq:
  "CBS_skip n cbs = (if CBS_len cbs < n then (Err, cbs) else (Ok (), drop n cbs))"
  by (simp add: CBS_skip_def cbs_get_def op_defs)

lemma cbs_get_u_eq:
  "cbs_get_u n cbs =
     (if CBS_len cbs < n then (Err, cbs) else (Ok (of_nat (be_val (take n cbs))), drop n cbs))"
  by (simp add: cbs_get_u_def cbs_get_def op_defs cbs_get_u_loop_val)

lemma CBS_get_u8_eq:
  "CBS_get_u8 cbs = (case cbs of [] \<Rightarrow> (Err, []) | b # rest \<Rightarrow> (Ok b, rest))"
  by (cases cbs) (simp_all add: CBS_get_u8_def cbs_get_def op_defs)

lemma CBS_get_bytes_eq:
  "CBS_get_bytes n cbs =
     (if CBS_len cbs < n then (Err, cbs) else (Ok (take n cbs), drop n cbs))"
  by (simp add: CBS_get_bytes_def cbs_get_def op_defs)

lemma CBS_copy_bytes_eq: "CBS_copy_bytes n cbs = CBS_get_bytes n cbs"
  by (simp add: CBS_copy_bytes_def CBS_get_bytes_def)

lemma ucast_of_nat_down:
  "LENGTH('b) \<le> LENGTH('a) \<Longrightarrow> (ucast (of_nat n :: 'a::len word) :: 'b::len word) = of_nat n"
  by (simp add: unsigned_of_nat word_of_nat_eq_iff)

lemma CBS_get_u16_eq:
  "CBS_get_u16 cbs =
     (if CBS_len cbs < 2 then (Err, cbs) else (Ok (of_nat (be_val (take 2 cbs))), drop 2 cbs))"
  by (simp add: CBS_get_u16_def cbs_get_u_eq op_defs ucast_of_nat_down)

lemma CBS_get_u24_eq:
  "CBS_get_u24 cbs =
     (if CBS_len cbs < 3 then (Err, cbs) else (Ok (of_nat (be_val (take 3 cbs))), drop 3 cbs))"
  by (simp add: CBS_get_u24_def cbs_get_u_eq op_defs ucast_of_nat_down)

lemma CBS_get_u32_eq:
  "CBS_get_u32 cbs =
     (if CBS_len cbs < 4 then (Err, cbs) else (Ok (of_nat (be_val (take 4 cbs))), drop 4 cbs))"
  by (simp add: CBS_get_u32_def cbs_get_u_eq op_defs ucast_of_nat_down)

lemma CBS_get_u16le_eq:
  "CBS_get_u16le cbs =
     (if CBS_len cbs < 2 then (Err, cbs)
      else (Ok (of_nat (be_val (rev (take 2 cbs)))), drop 2 cbs))"
  by (simp add: CBS_get_u16le_def CBS_get_u16_eq op_defs CRYPTO_bswap2_be_val)

lemma CBS_get_u32le_eq:
  "CBS_get_u32le cbs =
     (if CBS_len cbs < 4 then (Err, cbs)
      else (Ok (of_nat (be_val (rev (take 4 cbs)))), drop 4 cbs))"
  by (simp add: CBS_get_u32le_def CBS_get_u32_eq op_defs CRYPTO_bswap4_be_val)

lemma CBS_get_u64le_eq:
  "CBS_get_u64le cbs =
     (if CBS_len cbs < 8 then (Err, cbs)
      else (Ok (of_nat (be_val (rev (take 8 cbs)))), drop 8 cbs))"
  by (simp add: CBS_get_u64le_def cbs_get_u_eq op_defs CRYPTO_bswap8_be_val)


section \<open>The readers as codecs\<close>

lemma be_word_round:
  "length bs = n \<Longrightarrow> 8 * n \<le> LENGTH('a) \<Longrightarrow> unat (of_nat (be_val bs) :: 'a::len word) = be_val bs"
proof -
  assume "length bs = n" and n: "8 * n \<le> LENGTH('a)"
  then have "be_val bs < 256 ^ n" using be_val_less [of bs] by simp
  also have "(256 :: nat) ^ n = 2 ^ (8 * n)" by (simp add: power_mult)
  also have "\<dots> \<le> 2 ^ LENGTH('a)" using n by (rule power_increasing) simp
  finally show ?thesis by (simp add: unsigned_of_nat take_bit_nat_eq_self)
qed

lemma be_fixed_codec:
  fixes rd :: "(CBS, 'a::len word) op"
  assumes rd: "\<And>cbs. rd cbs = (if CBS_len cbs < n then (Err, cbs)
      else (Ok (of_nat (be_val (take n cbs))), drop n cbs))"
    and n: "8 * n \<le> LENGTH('a)"
  shows "safe_byte_codec rd (\<lambda>v. be_bytes n (unat v)) (\<lambda>v. unat v < 256 ^ n)"
proof
  fix bs :: CBS and x :: "'a word" and rest
  show "rd (be_bytes n (unat x) @ rest) = (Ok x, rest)" if "unat x < 256 ^ n"
    using that by (simp add: rd)
  assume "rd bs = (Ok x, rest)"
  then have len: "n \<le> length bs" and x: "x = of_nat (be_val (take n bs))" and r: "rest = drop n bs"
    by (auto simp: rd split: if_splits)
  have u: "unat x = be_val (take n bs)"
    unfolding x using len n by (intro be_word_round [where n = n]) auto
  have "length (take n bs) = n" using len by simp
  then have "be_val (take n bs) < 256 ^ n" and "be_bytes n (be_val (take n bs)) = take n bs"
    using be_val_less [of "take n bs"] be_bytes_be_val [of "take n bs"] by metis+
  then show "unat x < 256 ^ n \<and> bs = be_bytes n (unat x) @ rest" by (simp add: u r)
next
  fix bs :: CBS
  show "\<exists>p. bs = p @ snd (rd bs)"
    by (simp add: rd) (metis append_take_drop_id)
  show "fst (rd bs) \<noteq> Abort" by (simp add: rd)
qed

lemma le_fixed_codec:
  fixes rd :: "(CBS, 'a::len word) op"
  assumes rd: "\<And>cbs. rd cbs = (if CBS_len cbs < n then (Err, cbs)
      else (Ok (of_nat (be_val (rev (take n cbs)))), drop n cbs))"
    and n: "8 * n \<le> LENGTH('a)"
  shows "safe_byte_codec rd (\<lambda>v. rev (be_bytes n (unat v))) (\<lambda>v. unat v < 256 ^ n)"
proof
  fix bs :: CBS and x :: "'a word" and rest
  show "rd (rev (be_bytes n (unat x)) @ rest) = (Ok x, rest)" if "unat x < 256 ^ n"
    using that by (simp add: rd)
  assume "rd bs = (Ok x, rest)"
  then have len: "n \<le> length bs" and x: "x = of_nat (be_val (rev (take n bs)))"
    and r: "rest = drop n bs"
    by (auto simp: rd split: if_splits)
  have u: "unat x = be_val (rev (take n bs))"
    unfolding x using len n by (intro be_word_round [where n = n]) auto
  have "length (rev (take n bs)) = n" using len by simp
  then have "be_val (rev (take n bs)) < 256 ^ n"
    and "be_bytes n (be_val (rev (take n bs))) = rev (take n bs)"
    using be_val_less [of "rev (take n bs)"] be_bytes_be_val [of "rev (take n bs)"] by metis+
  then show "unat x < 256 ^ n \<and> bs = rev (be_bytes n (unat x)) @ rest" by (simp add: u r)
next
  fix bs :: CBS
  show "\<exists>p. bs = p @ snd (rd bs)"
    by (simp add: rd) (metis append_take_drop_id)
  show "fst (rd bs) \<noteq> Abort" by (simp add: rd)
qed

interpretation u8: safe_byte_codec CBS_get_u8 "\<lambda>b. [b]" "\<lambda>_. True"
  by unfold_locales (auto simp: CBS_get_u8_eq split: list.splits)

interpretation u16: safe_byte_codec CBS_get_u16 "\<lambda>v. be_bytes 2 (unat v)" "\<lambda>v. unat v < 256 ^ 2"
  by (rule be_fixed_codec) (simp_all add: CBS_get_u16_eq)

interpretation u24: safe_byte_codec CBS_get_u24 "\<lambda>v. be_bytes 3 (unat v)" "\<lambda>v. unat v < 256 ^ 3"
  by (rule be_fixed_codec) (simp_all add: CBS_get_u24_eq)

interpretation u32: safe_byte_codec CBS_get_u32 "\<lambda>v. be_bytes 4 (unat v)" "\<lambda>v. unat v < 256 ^ 4"
  by (rule be_fixed_codec) (simp_all add: CBS_get_u32_eq)

interpretation u64: safe_byte_codec CBS_get_u64 "\<lambda>v. be_bytes 8 (unat v)" "\<lambda>v. unat v < 256 ^ 8"
  by (rule be_fixed_codec) (simp_all add: CBS_get_u64_def cbs_get_u_eq)

interpretation u16le: safe_byte_codec CBS_get_u16le
  "\<lambda>v. rev (be_bytes 2 (unat v))" "\<lambda>v. unat v < 256 ^ 2"
  by (rule le_fixed_codec) (simp_all add: CBS_get_u16le_eq)

interpretation u32le: safe_byte_codec CBS_get_u32le
  "\<lambda>v. rev (be_bytes 4 (unat v))" "\<lambda>v. unat v < 256 ^ 4"
  by (rule le_fixed_codec) (simp_all add: CBS_get_u32le_eq)

interpretation u64le: safe_byte_codec CBS_get_u64le
  "\<lambda>v. rev (be_bytes 8 (unat v))" "\<lambda>v. unat v < 256 ^ 8"
  by (rule le_fixed_codec) (simp_all add: CBS_get_u64le_eq)

interpretation fixed_bytes: safe_byte_codec "CBS_get_bytes n" "\<lambda>c. c" "\<lambda>c. length c = n" for n
proof
  fix bs :: CBS
  show "\<exists>p. bs = p @ snd (CBS_get_bytes n bs)"
    by (simp add: CBS_get_bytes_eq) (metis append_take_drop_id)
qed (auto simp: CBS_get_bytes_eq split: if_splits)

text \<open>Length-prefixed strings: the big-endian length in \<open>n\<close> bytes, then the contents.\<close>

lemma cbs_get_length_prefixed_eq:
  assumes "n \<le> 3"
  shows "cbs_get_length_prefixed n cbs =
     (if CBS_len cbs < n then (Err, cbs)
      else CBS_get_bytes (be_val (take n cbs)) (drop n cbs))"
proof -
  have "unat (of_nat (be_val (take n cbs)) :: u64) = be_val (take n cbs)" if "n \<le> length cbs"
    using that assms by (intro be_word_round [where n = n]) auto
  then show ?thesis
    using assms by (auto simp: cbs_get_length_prefixed_def cbs_get_u_eq op_defs not_less
        split: prod.splits result.splits)
qed

lemma length_prefixed_codec:
  assumes n: "n \<le> 3"
  shows "safe_byte_codec (cbs_get_length_prefixed n)
     (\<lambda>c. be_bytes n (length c) @ c) (\<lambda>c. length c < 256 ^ n)"
proof
  fix bs x rest
  show "cbs_get_length_prefixed n ((be_bytes n (length x) @ x) @ rest) = (Ok x, rest)"
    if "length x < 256 ^ n" using that n
    by (simp add: cbs_get_length_prefixed_eq CBS_get_bytes_eq)
  assume "cbs_get_length_prefixed n bs = (Ok x, rest)"
  then have "n \<le> length bs" and "CBS_get_bytes (be_val (take n bs)) (drop n bs) = (Ok x, rest)"
    using n by (auto simp: cbs_get_length_prefixed_eq split: if_splits)
  then have "length x = be_val (take n bs)" and "drop n bs = x @ rest" and len: "length (take n bs) = n"
    by (auto dest: fixed_bytes.enc_rd)
  then show "length x < 256 ^ n \<and> bs = (be_bytes n (length x) @ x) @ rest"
    using be_val_less [of "take n bs"] be_bytes_be_val [of "take n bs"]
    by (metis append.assoc append_take_drop_id)
next
  fix bs
  show "\<exists>p. bs = p @ snd (cbs_get_length_prefixed n bs)"
  proof (cases "length bs < n")
    case False
    obtain p where "drop n bs = p @ snd (CBS_get_bytes (be_val (take n bs)) (drop n bs))"
      using fixed_bytes.rd_front by blast
    then have "bs = (take n bs @ p) @ snd (CBS_get_bytes (be_val (take n bs)) (drop n bs))"
      by (metis append.assoc append_take_drop_id)
    then show ?thesis
      using False n by (intro exI [of _ "take n bs @ p"]) (simp add: cbs_get_length_prefixed_eq)
  qed (use n in \<open>simp add: cbs_get_length_prefixed_eq\<close>)
  show "fst (cbs_get_length_prefixed n bs) \<noteq> Abort"
    using n fixed_bytes.rd_no_abort by (simp add: cbs_get_length_prefixed_eq)
qed

interpretation u8_prefixed: safe_byte_codec CBS_get_u8_length_prefixed
  "\<lambda>c. be_bytes 1 (length c) @ c" "\<lambda>c. length c < 256 ^ 1"
  unfolding CBS_get_u8_length_prefixed_def by (rule length_prefixed_codec) simp

interpretation u16_prefixed: safe_byte_codec CBS_get_u16_length_prefixed
  "\<lambda>c. be_bytes 2 (length c) @ c" "\<lambda>c. length c < 256 ^ 2"
  unfolding CBS_get_u16_length_prefixed_def by (rule length_prefixed_codec) simp

interpretation u24_prefixed: safe_byte_codec CBS_get_u24_length_prefixed
  "\<lambda>c. be_bytes 3 (length c) @ c" "\<lambda>c. length c < 256 ^ 3"
  unfolding CBS_get_u24_length_prefixed_def by (rule length_prefixed_codec) simp

section \<open>Properties\<close>

text \<open>
  The fixed-width readers accept exactly the big-endian (or, for the le readers,
  little-endian) bytes of the value they return, and leave what follows.
\<close>

theorem fixed_width_integers:
  "(CBS_get_u16 cbs = (Ok a, rest) \<longleftrightarrow> cbs = be_bytes 2 (unat a) @ rest) \<and>
   (CBS_get_u24 cbs = (Ok b, rest) \<longleftrightarrow> unat b < 2 ^ 24 \<and> cbs = be_bytes 3 (unat b) @ rest) \<and>
   (CBS_get_u32 cbs = (Ok b, rest) \<longleftrightarrow> cbs = be_bytes 4 (unat b) @ rest) \<and>
   (CBS_get_u64 cbs = (Ok c, rest) \<longleftrightarrow> cbs = be_bytes 8 (unat c) @ rest) \<and>
   (CBS_get_u16le cbs = (Ok a, rest) \<longleftrightarrow> cbs = rev (be_bytes 2 (unat a)) @ rest) \<and>
   (CBS_get_u32le cbs = (Ok b, rest) \<longleftrightarrow> cbs = rev (be_bytes 4 (unat b)) @ rest) \<and>
   (CBS_get_u64le cbs = (Ok c, rest) \<longleftrightarrow> cbs = rev (be_bytes 8 (unat c)) @ rest)"
  using unat_u16 [of a] unat_u32 [of b] unat_u64 [of c]
  by (simp_all add: u16.rd_iff u24.rd_iff u32.rd_iff u64.rd_iff u16le.rd_iff u32le.rd_iff u64le.rd_iff)

text \<open>
  A length-prefixed read returns exactly the bytes the prefix counts: the reader of a
  24-bit prefix accepts the contents below 2^24 bytes behind their length, and nothing else.
\<close>

theorem length_prefixed_read:
  "(CBS_get_u8_length_prefixed cbs = (Ok c, rest) \<longleftrightarrow>
     length c < 2 ^ 8 \<and> cbs = be_bytes 1 (length c) @ c @ rest) \<and>
   (CBS_get_u16_length_prefixed cbs = (Ok c, rest) \<longleftrightarrow>
     length c < 2 ^ 16 \<and> cbs = be_bytes 2 (length c) @ c @ rest) \<and>
   (CBS_get_u24_length_prefixed cbs = (Ok c, rest) \<longleftrightarrow>
     length c < 2 ^ 24 \<and> cbs = be_bytes 3 (length c) @ c @ rest)"
  using u8_prefixed.rd_iff [of cbs c rest] u16_prefixed.rd_iff [of cbs c rest]
    u24_prefixed.rd_iff [of cbs c rest] by simp_all

end
