(* ===== verification/Posix_Time.thy ===== *)
theory Posix_Time
  imports BS_Prelude "HOL-Library.Signed_Division"
begin

text \<open>
  crypto/asn1/posix_time.c: conversion between POSIX seconds and UTC calendar dates of the
  years 0 to 9999. C's \<open>/\<close> and \<open>%\<close> truncate towards zero: they are
  \<open>sdiv\<close> and \<open>smod\<close>. No \<open>int64_t\<close> sum of this file overflows
  (\<open>posix_time_fits\<close>, \<open>gmtime_adj_fits\<close>), so the values are integers.
\<close>

section \<open>The code\<close>

definition SECS_PER_HOUR :: int where
  "SECS_PER_HOUR = 60 * 60"

definition SECS_PER_DAY :: int where
  "SECS_PER_DAY = 24 * SECS_PER_HOUR"

definition is_valid_date :: "int \<Rightarrow> int \<Rightarrow> int \<Rightarrow> bool" where
  "is_valid_date year month day =
     (if day < 1 \<or> month < 1 \<or> year < 0 \<or> year > 9999 then False
      else if month \<in> {1, 3, 5, 7, 8, 10, 12} then day > 0 \<and> day \<le> 31
      else if month \<in> {4, 6, 9, 11} then day > 0 \<and> day \<le> 30
      else if month = 2 then
        (if (year smod 4 = 0 \<and> year smod 100 \<noteq> 0) \<or> year smod 400 = 0
         then day > 0 \<and> day \<le> 29 else day > 0 \<and> day \<le> 28)
      else False)"

definition is_valid_time :: "int \<Rightarrow> int \<Rightarrow> int \<Rightarrow> bool" where
  "is_valid_time hours minutes seconds =
     (if hours < 0 \<or> minutes < 0 \<or> seconds < 0 \<or> hours > 23 \<or> minutes > 59 \<or> seconds > 59
      then False else True)"

definition MIN_POSIX_TIME :: int where "MIN_POSIX_TIME = -62167219200"

definition MAX_POSIX_TIME :: int where "MAX_POSIX_TIME = 253402300799"

definition is_valid_posix_time :: "int \<Rightarrow> bool" where
  "is_valid_posix_time time = (MIN_POSIX_TIME \<le> time \<and> time \<le> MAX_POSIX_TIME)"

definition posix_time_from_utc ::
  "int \<Rightarrow> int \<Rightarrow> int \<Rightarrow> int \<Rightarrow> int \<Rightarrow> int \<Rightarrow> int result" where
  "posix_time_from_utc year0 month day hours minutes seconds =
     (if \<not> is_valid_date year0 month day \<or> \<not> is_valid_time hours minutes seconds then Err
      else (let year = (if month \<le> 2 then year0 - 1 else year0)
            in if \<not> (-1 \<le> year \<and> year \<le> 9999) then Abort
               else (let era = (if year \<ge> 0 then year else year - 399) sdiv 400;
                         year_of_era = year - era * 400;
                         day_of_year =
                           (153 * (if month > 2 then month - 3 else month + 9) + 2) sdiv 5 + day - 1;
                         day_of_era =
                           year_of_era * 365 + year_of_era sdiv 4 - year_of_era sdiv 100 + day_of_year;
                         posix_days = era * 146097 + day_of_era - 719468
                     in Ok (posix_days * SECS_PER_DAY + hours * SECS_PER_HOUR + minutes * 60 + seconds))))"

text \<open>The six out-parameters, in the order of the arguments.\<close>

definition utc_from_posix_time ::
  "int \<Rightarrow> (int \<times> int \<times> int \<times> int \<times> int \<times> int) result" where
  "utc_from_posix_time time =
     (if \<not> is_valid_posix_time time then Err
      else (let days0 = time sdiv SECS_PER_DAY;
                leftover0 = time smod SECS_PER_DAY;
                (days1, leftover) =
                  (if leftover0 < 0 then (days0 - 1, leftover0 + SECS_PER_DAY) else (days0, leftover0));
                days = days1 + 719468
            in if \<not> (-61 \<le> days \<and> days \<le> 3652364) then Abort
               else (let era = (if days > 0 then days else days - 146096) sdiv 146097;
                         day_of_era = days - era * 146097;
                         year_of_era =
                           (day_of_era - day_of_era sdiv 1460 + day_of_era sdiv 36524
                              - day_of_era sdiv 146096) sdiv 365;
                         year = year_of_era + era * 400;
                         day_of_year =
                           day_of_era - (365 * year_of_era + year_of_era sdiv 4 - year_of_era sdiv 100);
                         month_of_year = (5 * day_of_year + 2) sdiv 153;
                         month = (if month_of_year < 10 then month_of_year + 3 else month_of_year - 9);
                         out_year = (if month \<le> 2 then year + 1 else year);
                         out_day = day_of_year - (153 * month_of_year + 2) sdiv 5 + 1;
                         out_hours = leftover sdiv SECS_PER_HOUR;
                         leftover' = leftover smod SECS_PER_HOUR
                     in Ok (out_year, month, out_day, out_hours, leftover' sdiv 60, leftover' smod 60))))"

text \<open>The fields of \<open>struct tm\<close>; the code reads and writes the first six.\<close>

record tm =
  tm_sec :: int
  tm_min :: int
  tm_hour :: int
  tm_mday :: int
  tm_mon :: int
  tm_year :: int
  tm_wday :: int
  tm_yday :: int
  tm_isdst :: int

definition OPENSSL_tm_to_posix :: "tm \<Rightarrow> int result" where
  "OPENSSL_tm_to_posix tm =
     posix_time_from_utc (tm_year tm + 1900) (tm_mon tm + 1) (tm_mday tm)
       (tm_hour tm) (tm_min tm) (tm_sec tm)"

definition OPENSSL_posix_to_tm :: "int \<Rightarrow> tm result" where
  "OPENSSL_posix_to_tm time =
     (case utc_from_posix_time time of
        Ok (year, month, day, hours, minutes, seconds) \<Rightarrow>
          Ok \<lparr>tm_sec = seconds, tm_min = minutes, tm_hour = hours, tm_mday = day,
              tm_mon = month - 1, tm_year = year - 1900, tm_wday = 0, tm_yday = 0, tm_isdst = 0\<rparr>
      | Err \<Rightarrow> Err
      | Abort \<Rightarrow> Abort)"

text \<open>\<open>sizeof_time_t\<close> is 4 or 8, by the static assertion of the code.\<close>

definition OPENSSL_timegm :: "nat \<Rightarrow> tm \<Rightarrow> int result" where
  "OPENSSL_timegm sizeof_time_t tm =
     (case OPENSSL_tm_to_posix tm of
        Ok posix_time \<Rightarrow>
          if sizeof_time_t = 4 \<and> (posix_time > 2 ^ 31 - 1 \<or> posix_time < - (2 ^ 31))
          then Err else Ok posix_time
      | Err \<Rightarrow> Err
      | Abort \<Rightarrow> Abort)"

definition OPENSSL_gmtime :: "int \<Rightarrow> tm result" where
  "OPENSSL_gmtime time = OPENSSL_posix_to_tm time"

definition INT64_MAX :: int where "INT64_MAX = 2 ^ 63 - 1"

definition INT64_MIN :: int where "INT64_MIN = - (2 ^ 63)"

definition OPENSSL_gmtime_adj :: "tm \<Rightarrow> int \<Rightarrow> int \<Rightarrow> tm result" where
  "OPENSSL_gmtime_adj tm offset_day offset_sec =
     (case OPENSSL_tm_to_posix tm of
        Ok posix_time0 \<Rightarrow>
          (let posix_time = posix_time0 + offset_day * SECS_PER_DAY in
           if posix_time > 0 \<and> offset_sec > INT64_MAX - posix_time then Err
           else if posix_time < 0 \<and> offset_sec < INT64_MIN - posix_time then Err
           else OPENSSL_posix_to_tm (posix_time + offset_sec))
      | Err \<Rightarrow> Err
      | Abort \<Rightarrow> Abort)"

text \<open>The out-parameters: days, then seconds.\<close>

definition OPENSSL_gmtime_diff :: "tm \<Rightarrow> tm \<Rightarrow> (int \<times> int) result" where
  "OPENSSL_gmtime_diff tm_from tm_to =
     (case (OPENSSL_tm_to_posix tm_to, OPENSSL_tm_to_posix tm_from) of
        (Ok time_to, Ok time_from) \<Rightarrow>
          (let timediff = time_to - time_from;
               daydiff = timediff sdiv SECS_PER_DAY
           in Ok (daydiff, timediff smod SECS_PER_DAY))
      | (Abort, _) \<Rightarrow> Abort
      | (Ok _, Abort) \<Rightarrow> Abort
      | _ \<Rightarrow> Err)"

section \<open>The calendar\<close>

definition leap :: "int \<Rightarrow> bool" where
  "leap y \<longleftrightarrow> (4 dvd y \<and> \<not> 100 dvd y) \<or> 400 dvd y"

definition month_days :: "int \<Rightarrow> int \<Rightarrow> int" where
  "month_days y m =
     (if m = 2 then (if leap y then 29 else 28)
      else if m \<in> {4, 6, 9, 11} then 30 else 31)"

definition year_days :: "int \<Rightarrow> int" where
  "year_days y = (if leap y then 366 else 365)"

text \<open>Days from 1 January of the year 0, counted year by year and month by month.\<close>

definition calendar_days :: "int \<Rightarrow> int \<Rightarrow> int \<Rightarrow> int" where
  "calendar_days y m d =
     (\<Sum>k\<leftarrow>[0..<nat y]. year_days (int k)) + (\<Sum>k\<leftarrow>[1..<nat m]. month_days y (int k)) + (d - 1)"

definition civil :: "int \<Rightarrow> int \<Rightarrow> int \<Rightarrow> bool" where
  "civil y m d \<longleftrightarrow> 0 \<le> y \<and> y \<le> 9999 \<and> 1 \<le> m \<and> m \<le> 12 \<and> 1 \<le> d \<and> d \<le> month_days y m"

definition clock :: "int \<Rightarrow> int \<Rightarrow> int \<Rightarrow> bool" where
  "clock h mi s \<longleftrightarrow> 0 \<le> h \<and> h \<le> 23 \<and> 0 \<le> mi \<and> mi \<le> 59 \<and> 0 \<le> s \<and> s \<le> 59"

text \<open>POSIX time: the days from 1 January 1970 (day 719528 of the count), in seconds.\<close>

definition calendar_seconds :: "int \<Rightarrow> int \<Rightarrow> int \<Rightarrow> int \<Rightarrow> int \<Rightarrow> int \<Rightarrow> int" where
  "calendar_seconds y m d h mi s =
     (calendar_days y m d - calendar_days 1970 1 1) * 86400 + h * 3600 + mi * 60 + s"

section \<open>Division\<close>

lemma sdiv_nonneg: "0 \<le> a \<Longrightarrow> 0 < b \<Longrightarrow> a sdiv b = a div b" for a b :: int
  by (cases "a = 0") (simp_all add: signed_divide_int_def)

lemma smod_nonneg: "0 \<le> a \<Longrightarrow> 0 < b \<Longrightarrow> a smod b = a mod b" for a b :: int
  by (rule smod_mod_positive) simp_all

lemma div_eqI: "b * q \<le> a \<Longrightarrow> a < b * q + b \<Longrightarrow> a div b = q" for a b q :: int
  by (rule int_div_pos_eq [of _ _ _ "a - b * q"]) simp_all

text \<open>The code's floor divisions: by a correction of the dividend, or of the quotient.\<close>

lemma floor_by_dividend:
  fixes n k :: int
  assumes "0 < k" shows "(if n > 0 then n else n - (k - 1)) sdiv k = n div k"
proof (cases "n > 0")
  case False
  define q where "q = (k - 1 - n) div k"
  define t where "t = (k - 1 - n) mod k"
  have "k - 1 - n = k * q + t" "0 \<le> t" "t < k" using assms by (simp_all add: q_def t_def)
  then have "k * - q \<le> n" and "n < k * - q + k" by linarith+
  then have "n div k = - q" by (rule div_eqI)
  moreover have "(n - (k - 1)) sdiv k = - q"
  proof (cases "n = 0 \<and> k = 1")
    case False
    then have "n - (k - 1) < 0" using \<open>\<not> n > 0\<close> assms by linarith
    then show ?thesis using assms by (simp add: signed_divide_int_def q_def)
  qed (simp add: q_def)
  ultimately show ?thesis using False by simp
qed (use assms in \<open>simp add: sdiv_nonneg\<close>)

lemma floor_by_quotient:
  fixes n k :: int
  assumes "0 < k"
  shows "(if n smod k < 0 then (n sdiv k - 1, n smod k + k) else (n sdiv k, n smod k)) =
     (n div k, n mod k)"
proof -
  have d: "k * (n sdiv k) + n smod k = n" by (rule mult_sdiv_smod_eq)
  have b: "- k < n smod k" "n smod k < k"
    using smod_int_range [of k n] assms by auto
  have "n div k = (if n smod k < 0 then n sdiv k - 1 else n sdiv k)"
    using d b assms by (intro div_eqI) (auto simp: algebra_simps)
  moreover from this have "n mod k = (if n smod k < 0 then n smod k + k else n smod k)"
    using d minus_mult_div_eq_mod [of n k] by (auto simp: algebra_simps)
  ultimately show ?thesis by simp
qed

section \<open>Years counted from March\<close>

definition mar_days :: "int \<Rightarrow> int" where
  "mar_days y = 365 * y + y div 4 - y div 100 + y div 400"

definition mar_year :: "int \<Rightarrow> int \<Rightarrow> int" where
  "mar_year y m = (if m \<le> 2 then y - 1 else y)"

definition mar_month :: "int \<Rightarrow> int" where
  "mar_month m = (if m > 2 then m - 3 else m + 9)"

definition mar_doy :: "int \<Rightarrow> int \<Rightarrow> int" where
  "mar_doy m d = (153 * mar_month m + 2) div 5 + d - 1"

lemma div_step: "0 < k \<Longrightarrow> (y + 1) div k = y div k + (if k dvd y + 1 then 1 else 0)" for k y :: int
proof -
  assume k: "0 < k"
  define q t where "q = y div k" and "t = y mod k"
  have y: "y = k * q + t" "0 \<le> t" "t < k" using k by (simp_all add: q_def t_def)
  show ?thesis
  proof (cases "t = k - 1")
    case True
    then have "y + 1 = k * (q + 1)" using y by (simp add: algebra_simps)
    then have "k dvd y + 1" and "(y + 1) div k = q + 1" using k by auto
    then show ?thesis by (simp add: q_def)
  next
    case False
    have "y + 1 = k * q + (t + 1)" using y by simp
    moreover have "\<not> k dvd t + 1" using False y by (intro zdvd_not_zless) simp_all
    ultimately have "\<not> k dvd y + 1" by (metis dvd_add_right_iff dvd_triv_left)
    moreover have "(y + 1) div k = q" using False y by (intro div_eqI) linarith+
    ultimately show ?thesis by (simp add: q_def)
  qed
qed

lemma mar_days_step: "mar_days (y + 1) = mar_days y + year_days (y + 1)"
proof -
  have "100 dvd y + 1 \<Longrightarrow> 4 dvd y + 1" and "400 dvd y + 1 \<Longrightarrow> 100 dvd y + 1"
    by (auto elim!: dvd_trans [rotated])
  then show ?thesis
    by (auto simp: mar_days_def year_days_def leap_def div_step)
qed

lemma years_sum: "(\<Sum>k\<leftarrow>[0..<n]. year_days (int k)) = mar_days (int n - 1) + 366"
proof (induction n)
  case 0
  show ?case by (simp add: mar_days_def)
next
  case (Suc n)
  have "int (Suc n) - 1 = (int n - 1) + 1" by simp
  with Suc mar_days_step [of "int n - 1"] show ?case by simp
qed

lemma month_cases:
  "1 \<le> m \<Longrightarrow> m \<le> 12 \<Longrightarrow> m \<in> {1,2,3,4,5,6,7,8,9,10,11,12}" for m :: int
  by simp arith

definition months_sum :: "int \<Rightarrow> int \<Rightarrow> int" where
  "months_sum y m = (\<Sum>k\<leftarrow>[1..<nat m]. month_days y (int k))"

lemma months_sum_1: "months_sum y 1 = 0"
  by (simp add: months_sum_def)

lemma months_sum_step: "1 \<le> m \<Longrightarrow> months_sum y (m + 1) = months_sum y m + month_days y m"
  by (simp add: months_sum_def nat_add_distrib Suc_le_eq)

lemma months_sum_table:
  "months_sum y 2 = 31" "months_sum y 3 = 31 + month_days y 2" "months_sum y 4 = 62 + month_days y 2"
  "months_sum y 5 = 92 + month_days y 2" "months_sum y 6 = 123 + month_days y 2"
  "months_sum y 7 = 153 + month_days y 2" "months_sum y 8 = 184 + month_days y 2"
  "months_sum y 9 = 215 + month_days y 2" "months_sum y 10 = 245 + month_days y 2"
  "months_sum y 11 = 276 + month_days y 2" "months_sum y 12 = 306 + month_days y 2"
  using months_sum_1 [of y] months_sum_step [of 1 y] months_sum_step [of 2 y] months_sum_step [of 3 y]
    months_sum_step [of 4 y] months_sum_step [of 5 y] months_sum_step [of 6 y] months_sum_step [of 7 y]
    months_sum_step [of 8 y] months_sum_step [of 9 y] months_sum_step [of 10 y] months_sum_step [of 11 y]
  by (simp_all add: month_days_def)

lemma calendar_days_eq:
  assumes "0 \<le> y" and "1 \<le> m" and "m \<le> 12"
  shows "calendar_days y m d = mar_days (mar_year y m) + mar_doy m d + 60"
proof -
  have step: "mar_days y = mar_days (y - 1) + (if leap y then 366 else 365)"
    using mar_days_step [of "y - 1"] by (simp add: year_days_def)
  have feb: "month_days y 2 = (if leap y then 29 else 28)" by (simp add: month_days_def)
  have y: "int (nat y) = y" using assms(1) by simp
  have "calendar_days y m d = mar_days (y - 1) + 366 + months_sum y m + (d - 1)"
    unfolding calendar_days_def years_sum y months_sum_def by simp
  then show ?thesis
    using month_cases [OF assms(2,3)] unfolding insert_iff empty_iff
    by (elim disjE) (simp_all add: months_sum_1 months_sum_table feb step mar_year_def mar_doy_def mar_month_def)
qed

section \<open>The code follows the calendar\<close>

lemma smod_0_iff: "0 < k \<Longrightarrow> y smod k = 0 \<longleftrightarrow> k dvd y" for k y :: int
proof -
  assume "0 < k"
  have "k * (y sdiv k) + y smod k = y" by (rule mult_sdiv_smod_eq)
  moreover have "- k < y smod k" "y smod k < k" using smod_int_range [of k y] \<open>0 < k\<close> by auto
  ultimately show ?thesis
    by (metis add.right_neutral dvd_add_right_iff dvd_triv_left dvd_imp_le_int abs_less_iff minus_less_iff
        linorder_not_le abs_of_pos \<open>0 < k\<close>)
qed

lemma is_valid_date_iff: "is_valid_date y m d \<longleftrightarrow> civil y m d"
proof (cases "1 \<le> m \<and> m \<le> 12")
  case True
  then have "m \<in> {1,2,3,4,5,6,7,8,9,10,11,12}" by (intro month_cases) simp_all
  then show ?thesis unfolding insert_iff empty_iff
    by (elim disjE) (auto simp: is_valid_date_def civil_def month_days_def leap_def smod_0_iff)
qed (auto simp: is_valid_date_def civil_def)

lemma is_valid_time_iff: "is_valid_time h mi s \<longleftrightarrow> clock h mi s"
  by (auto simp: is_valid_time_def clock_def)

lemma mar_days_era: "0 \<le> r \<Longrightarrow> r < 400 \<Longrightarrow> mar_days (e * 400 + r) = e * 146097 + mar_days r"
proof -
  assume r: "0 \<le> r" "r < 400"
  have "(e * 400 + r) div 4 = e * 100 + r div 4"
    using div_mult_self1 [of 4 r "e * 100"] by (simp add: algebra_simps)
  moreover have "(e * 400 + r) div 100 = e * 4 + r div 100"
    using div_mult_self1 [of 100 r "e * 4"] by (simp add: algebra_simps)
  moreover have "(e * 400 + r) div 400 = e + r div 400"
    using div_mult_self1 [of 400 r e] by (simp add: algebra_simps)
  ultimately show ?thesis by (simp add: mar_days_def)
qed

lemma epoch: "calendar_days 1970 1 1 = 719528"
  by (simp add: calendar_days_eq mar_days_def mar_year_def mar_doy_def mar_month_def)

lemma calendar_seconds_eq:
  "civil y m d \<Longrightarrow> calendar_seconds y m d h mi s =
     (mar_days (mar_year y m) + mar_doy m d - 719468) * 86400 + h * 3600 + mi * 60 + s"
  by (simp add: calendar_seconds_def calendar_days_eq civil_def epoch del: One_nat_def)

lemma posix_time_from_utc_eq:
  "posix_time_from_utc y m d h mi s =
     (if civil y m d \<and> clock h mi s then Ok (calendar_seconds y m d h mi s) else Err)"
proof (cases "civil y m d \<and> clock h mi s")
  case True
  define Y where "Y = mar_year y m"
  define e where "e = Y div 400"
  define r where "r = Y mod 400"
  have Y: "Y = e * 400 + r" "0 \<le> r" "r < 400" by (simp_all add: e_def r_def)
  have range: "-1 \<le> Y" "Y \<le> 9999" using True by (auto simp: Y_def mar_year_def civil_def)
  have era: "(if Y \<ge> 0 then Y else Y - 399) sdiv 400 = e"
    using floor_by_dividend [of 400 Y] by (cases "Y = 0") (auto simp: e_def)
  have mm: "0 \<le> mar_month m" using True by (auto simp: mar_month_def civil_def)
  have doy: "(153 * mar_month m + 2) sdiv 5 + d - 1 = mar_doy m d"
    using mm by (simp add: mar_doy_def sdiv_nonneg)
  have "mar_days Y = e * 146097 + (r * 365 + r sdiv 4 - r sdiv 100)"
    using Y mar_days_era [of r e] by (simp add: sdiv_nonneg mar_days_def)
  then have *: "e * 146097 + (r * 365 + r sdiv 4 - r sdiv 100 + mar_doy m d) - 719468 =
      mar_days Y + mar_doy m d - 719468" by simp
  have r: "Y - e * 400 = r" using Y by simp
  show ?thesis
    using True range unfolding posix_time_from_utc_def is_valid_date_iff is_valid_time_iff Let_def
      mar_year_def [symmetric] mar_month_def [symmetric] Y_def [symmetric] era r doy *
    by (simp add: calendar_seconds_eq Y_def SECS_PER_DAY_def SECS_PER_HOUR_def)
next
  case False
  then show ?thesis unfolding posix_time_from_utc_def is_valid_date_iff is_valid_time_iff by simp
qed

section \<open>And back\<close>

text \<open>The length of the year that starts in March of \<open>r\<close>.\<close>

lemma leap_split:
  assumes "0 \<le> a" "a < 4" "0 \<le> b" "b < 25" "0 \<le> c" "c < 4"
  shows "leap (100 * a + 4 * b + c + 1) \<longleftrightarrow> c = 3 \<and> (b = 24 \<longrightarrow> a = 3)"
proof -
  have "4 dvd 100 * a + 4 * b + c + 1 \<longleftrightarrow> c = 3"
  proof -
    have "4 dvd 100 * a + 4 * b + c + 1 \<longleftrightarrow> 4 dvd c + 1"
      using dvd_add_right_iff [of 4 "4 * (25 * a + b)" "c + 1"] by (simp add: algebra_simps)
    also have "\<dots> \<longleftrightarrow> c = 3" using assms by presburger
    finally show ?thesis .
  qed
  moreover have "100 dvd 100 * a + 4 * b + c + 1 \<longleftrightarrow> 4 * b + c = 99"
  proof -
    have "100 dvd 100 * a + 4 * b + c + 1 \<longleftrightarrow> 100 dvd 4 * b + c + 1"
      using dvd_add_right_iff [of 100 "100 * a" "4 * b + c + 1"] by (simp add: algebra_simps)
    also have "\<dots> \<longleftrightarrow> 4 * b + c = 99"
      using assms zdvd_not_zless [of "4 * b + c + 1" 100] by (cases "4 * b + c = 99") auto
    finally show ?thesis .
  qed
  moreover have "400 dvd 100 * a + 4 * b + c + 1 \<longleftrightarrow> 100 * a + 4 * b + c = 399"
    using assms zdvd_not_zless [of "100 * a + 4 * b + c + 1" 400]
    by (cases "100 * a + 4 * b + c = 399") auto
  ultimately show ?thesis using assms unfolding leap_def by auto
qed

lemma year_of_era:
  assumes "0 \<le> r" "r < 400" "0 \<le> doy" "doy < year_days (r + 1)"
  defines "doe \<equiv> mar_days r + doy"
  shows "0 \<le> doe" and "doe < 146097"
    and "(doe - doe div 1460 + doe div 36524 - doe div 146096) div 365 = r"
    and "0 \<le> doe - doe div 1460 + doe div 36524 - doe div 146096"
proof -
  define a b c where "a = r div 100" and "b = r mod 100 div 4" and "c = r mod 4"
  have rm: "r mod 100 mod 4 = r mod 4" by (simp add: mod_mod_cancel)
  have r: "r = 100 * a + 4 * b + c"
    using div_mult_mod_eq [of r 100] div_mult_mod_eq [of "r mod 100" 4]
    unfolding rm a_def b_def c_def by linarith
  have abc: "0 \<le> a" "a < 4" "0 \<le> b" "b < 25" "0 \<le> c" "c < 4"
    using assms by (auto simp: a_def b_def c_def intro: div_int_pos_iff [THEN iffD2])
  have d4: "r div 4 = 25 * a + b" using abc by (intro div_eqI) (simp_all add: r)
  have d100: "r div 100 = a" by (simp add: a_def)
  have d400: "r div 400 = 0" using assms by simp
  have doe: "doe = 36524 * a + 1461 * b + 365 * c + doy"
    by (simp add: doe_def mar_days_def d4 d100 d400) (simp add: r)
  have lp: "doy < 365 \<or> doy = 365 \<and> c = 3 \<and> (b = 24 \<longrightarrow> a = 3)"
    using assms(4) leap_split [OF abc] by (auto simp: year_days_def r split: if_splits)
  show pos: "0 \<le> doe" using abc assms(3) by (simp add: doe)
  show lt: "doe < 146097" using abc lp by (auto simp: doe)
  define last_day where "last_day = (if a = 3 \<and> b = 24 \<and> c = 3 \<and> doy = 365 then 1 else 0 :: int)"
  define leap_day where "leap_day = (if 1460 \<le> 24 * a + b + 365 * c + doy then 1 else 0 :: int)"
  have e1: "doe div 146096 = last_day"
    using abc lp assms(3) by (intro div_eqI) (auto simp: doe last_day_def)
  have e2: "doe div 36524 = a + last_day"
    using abc lp assms(3) by (intro div_eqI) (auto simp: doe last_day_def)
  have e3: "doe div 1460 = 25 * a + b + leap_day"
    using abc lp assms(3) by (intro div_eqI) (auto simp: doe leap_day_def)
  have e: "doe - doe div 1460 + doe div 36524 - doe div 146096 = 365 * r + (doy - leap_day)"
    by (simp add: e1 e2 e3) (simp add: doe r)
  have ld: "0 \<le> doy - leap_day" "doy - leap_day < 365"
    using abc lp assms(3) by (auto simp: leap_day_def)
  show "(doe - doe div 1460 + doe div 36524 - doe div 146096) div 365 = r"
    unfolding e using ld by (intro div_eqI) simp_all
  show "0 \<le> doe - doe div 1460 + doe div 36524 - doe div 146096"
    unfolding e using ld assms(1) by simp
qed

lemma month_of_year:
  assumes "1 \<le> m" "m \<le> 12" "1 \<le> d" "d \<le> month_days y m"
  shows "(5 * mar_doy m d + 2) div 153 = mar_month m"
    and "0 \<le> mar_doy m d" and "mar_doy m d < year_days (mar_year y m + 1)"
  using month_cases [OF assms(1,2)] assms(3,4) unfolding insert_iff empty_iff
  by - (elim disjE; (intro div_eqI)?;
    auto simp: mar_doy_def mar_month_def month_days_def year_days_def mar_year_def split: if_splits)+

lemma calendar_days_shift:
  assumes "civil y m d"
  obtains e r where "mar_year y m = e * 400 + r" "0 \<le> r" "r < 400"
    and "calendar_days y m d - 60 = e * 146097 + (mar_days r + mar_doy m d)"
proof -
  define e r where "e = mar_year y m div 400" and "r = mar_year y m mod 400"
  have Y: "mar_year y m = e * 400 + r" "0 \<le> r" "r < 400" by (simp_all add: e_def r_def)
  have "calendar_days y m d - 60 = e * 146097 + (mar_days r + mar_doy m d)"
    using assms mar_days_era [OF Y(2,3), of e] by (simp add: calendar_days_eq civil_def Y(1))
  with Y show ?thesis by (rule that)
qed

lemma calendar_days_range:
  assumes "civil y m d" shows "0 \<le> calendar_days y m d" and "calendar_days y m d \<le> 3652424"
proof -
  have yr: "0 \<le> sum_list (map (\<lambda>k. year_days (int k)) ks)" for ks
    by (induction ks) (auto simp: year_days_def)
  have mo: "0 \<le> sum_list (map (\<lambda>k. month_days y (int k)) ks)" for ks
    by (induction ks) (auto simp: month_days_def)
  show "0 \<le> calendar_days y m d"
    using assms yr mo by (simp add: calendar_days_def civil_def)
  have doy: "mar_doy m d < year_days (mar_year y m + 1)"
    using assms month_of_year(3) by (simp add: civil_def)
  have mono: "mar_days x \<le> mar_days z" if "x \<le> z" for x z
    using that
  proof (induction z rule: int_ge_induct)
    case (step z)
    then show ?case using mar_days_step [of z] by (simp add: year_days_def split: if_splits)
  qed simp
  show "calendar_days y m d \<le> 3652424"
  proof (cases "mar_year y m = 9999")
    case True
    have "mar_month m \<le> 9" "d \<le> 31"
      using True assms by (auto simp: mar_year_def mar_month_def civil_def month_days_def split: if_splits)
    then have "mar_doy m d \<le> 305" 
    proof -
      have "(153 * mar_month m + 2) div 5 \<le> (153 * 9 + 2) div 5"
        using \<open>mar_month m \<le> 9\<close> by (intro zdiv_mono1) simp_all
      then show ?thesis using \<open>d \<le> 31\<close> by (simp add: mar_doy_def)
    qed
    then show ?thesis using assms True by (simp add: calendar_days_eq civil_def mar_days_def)
  next
    case False
    then have "mar_days (mar_year y m + 1) \<le> mar_days 9999"
      using assms by (intro mono) (auto simp: mar_year_def civil_def)
    then have "mar_days (mar_year y m) + mar_doy m d < mar_days 9999"
      using doy unfolding mar_days_step by linarith
    moreover have "calendar_days y m d = mar_days (mar_year y m) + mar_doy m d + 60"
      using assms by (intro calendar_days_eq) (simp_all add: civil_def)
    moreover have "mar_days 9999 = 3652059" by (simp add: mar_days_def)
    ultimately show ?thesis by linarith
  qed
qed

lemma clock_seconds:
  assumes "clock h mi s"
  defines "t \<equiv> h * 3600 + mi * 60 + s"
  shows "0 \<le> t" "t < 86400" "t div 3600 = h" "t mod 3600 = mi * 60 + s"
    "(mi * 60 + s) div 60 = mi" "(mi * 60 + s) mod 60 = s"
proof -
  have 1: "0 \<le> mi * 60 + s" "mi * 60 + s < 3600" using assms(1) by (auto simp: clock_def)
  show "0 \<le> t" "t < 86400" using assms(1) by (auto simp: clock_def t_def)
  show h: "t div 3600 = h" using 1 by (intro div_eqI) (simp_all add: t_def)
  show "t mod 3600 = mi * 60 + s"
    using h minus_mult_div_eq_mod [of t 3600] by (simp add: t_def)
  show m: "(mi * 60 + s) div 60 = mi" using assms(1) by (intro div_eqI) (simp_all add: clock_def)
  show "(mi * 60 + s) mod 60 = s"
    using m minus_mult_div_eq_mod [of "mi * 60 + s" 60] by simp
qed

lemma utc_from_calendar:
  assumes c: "civil y m d" and k: "clock h mi s"
  shows "utc_from_posix_time (calendar_seconds y m d h mi s) = Ok (y, m, d, h, mi, s)"
proof -
  define D where "D = calendar_days y m d"
  define t where "t = h * 3600 + mi * 60 + s"
  define time where "time = calendar_seconds y m d h mi s"
  have time: "time = (D - 719528) * 86400 + t"
    by (simp add: time_def calendar_seconds_def epoch D_def t_def)
  have D: "0 \<le> D" "D \<le> 3652424" unfolding D_def by (rule calendar_days_range [OF c])+
  note tt = clock_seconds [OF k, folded t_def]
  have dv: "time div 86400 = D - 719528" using tt by (intro div_eqI) (simp_all add: time)
  have md: "time mod 86400 = t" using dv minus_mult_div_eq_mod [of time 86400] by (simp add: time)
  have valid: "is_valid_posix_time time"
    using D tt by (simp add: is_valid_posix_time_def MIN_POSIX_TIME_def MAX_POSIX_TIME_def time)
  obtain e r where Y: "mar_year y m = e * 400 + r" "0 \<le> r" "r < 400"
    and De: "D - 60 = e * 146097 + (mar_days r + mar_doy m d)"
    using calendar_days_shift [OF c] unfolding D_def by metis
  define doy where "doy = mar_doy m d"
  define doe where "doe = mar_days r + doy"
  have mo: "(5 * doy + 2) div 153 = mar_month m" "0 \<le> doy" "doy < year_days (mar_year y m + 1)"
    using month_of_year [of m d y] c by (simp_all add: civil_def doy_def)
  have "leap (mar_year y m + 1) \<longleftrightarrow> leap (r + 1)"
  proof -
    have "k dvd (e * 400 + r) + 1 \<longleftrightarrow> k dvd r + 1" if "k dvd 400" for k
      using that dvd_add_right_iff [of k "e * 400" "r + 1"] by (simp add: add.assoc)
    from this [of 4] this [of 100] this [of 400] show ?thesis by (simp add: leap_def Y(1))
  qed
  then have "doy < year_days (r + 1)" using mo(3) by (simp add: year_days_def)
  note yoe = year_of_era [OF Y(2,3) mo(2) this, folded doe_def]
  have era: "(if D - 60 > 0 then D - 60 else D - 60 - 146096) sdiv 146097 = e"
  proof -
    have "(D - 60) div 146097 = e"
      using yoe(1,2) De by (intro div_eqI) (simp_all add: doe_def doy_def)
    then show ?thesis using floor_by_dividend [of 146097 "D - 60"] by (cases "60 < D") simp_all
  qed
  have doe: "D - 60 - e * 146097 = doe" using De by (simp add: doe_def doy_def)
  have yr: "(doe - doe sdiv 1460 + doe sdiv 36524 - doe sdiv 146096) sdiv 365 = r"
    using yoe by (simp add: sdiv_nonneg)
  have dy: "doe - (365 * r + r sdiv 4 - r sdiv 100) = doy"
    using Y by (simp add: sdiv_nonneg doe_def mar_days_def)
  have mm: "(5 * doy + 2) sdiv 153 = mar_month m" using mo by (simp add: sdiv_nonneg)
  have mnn: "0 \<le> mar_month m" using c by (auto simp: mar_month_def civil_def)
  have month: "(if mar_month m < 10 then mar_month m + 3 else mar_month m - 9) = m"
    using c by (auto simp: mar_month_def civil_def)
  have day: "doy - (153 * mar_month m + 2) sdiv 5 + 1 = d"
    using mnn by (simp add: sdiv_nonneg doy_def mar_doy_def)
  have year: "(if m \<le> 2 then r + e * 400 + 1 else r + e * 400) = y"
    using Y(1) by (auto simp: mar_year_def split: if_splits)
  have split: "(if time smod 86400 < 0 then (time sdiv 86400 - 1, time smod 86400 + 86400)
      else (time sdiv 86400, time smod 86400)) = (D - 719528, t)"
    using floor_by_quotient [of 86400 time] by (simp only: dv md)
  have spd: "SECS_PER_DAY = 86400" "SECS_PER_HOUR = 3600"
    by (simp_all add: SECS_PER_DAY_def SECS_PER_HOUR_def)
  have shift: "D - 719528 + 719468 = D - 60" by simp
  have bounds: "-61 \<le> D - 60" "D - 60 \<le> 3652364" using D by simp_all
  have tms: "t sdiv 3600 = h" "t smod 3600 = mi * 60 + s"
    "(mi * 60 + s) sdiv 60 = mi" "(mi * 60 + s) smod 60 = s"
    using tt k by (simp_all add: sdiv_nonneg smod_nonneg clock_def)
  show ?thesis
    unfolding time_def [symmetric] utc_from_posix_time_def Let_def spd split prod.case shift
    by (simp only: valid bounds era doe yr dy mm month day year tms not_True_eq_False if_False simp_thms)
qed

lemma calendar_days_next_day: "calendar_days y m (d + 1) = calendar_days y m d + 1"
  by (simp add: calendar_days_def)

lemma calendar_days_next_month:
  "0 \<le> y \<Longrightarrow> 1 \<le> m \<Longrightarrow> calendar_days y (m + 1) 1 = calendar_days y m (month_days y m) + 1"
  by (simp add: calendar_days_def nat_add_distrib Suc_le_eq)

lemma calendar_days_next_year:
  "0 \<le> y \<Longrightarrow> calendar_days (y + 1) 1 1 = calendar_days y 12 31 + 1"
  using mar_days_step [of "y - 1"]
  by (simp add: calendar_days_eq mar_year_def mar_doy_def mar_month_def mar_days_step)

text \<open>Every day up to 31 December 9999 has a date.\<close>

lemma calendar_days_onto:
  "n \<le> 3652424 \<Longrightarrow> \<exists>y m d. civil y m d \<and> calendar_days y m d = int n"
proof (induction n)
  case 0
  have "civil 0 1 1" by (simp add: civil_def month_days_def)
  moreover have "calendar_days 0 1 1 = 0" by (simp add: calendar_days_def)
  ultimately show ?case by auto
next
  case (Suc n)
  then obtain y m d where c: "civil y m d" and n: "calendar_days y m d = int n" by auto
  consider (day) "d < month_days y m" | (month) "d = month_days y m" "m < 12"
    | (year) "d = month_days y m" "m = 12"
    using c unfolding civil_def by linarith
  then show ?case
  proof cases
    case day
    then have "civil y m (d + 1)" using c by (simp add: civil_def)
    then show ?thesis using calendar_days_next_day [of y m d] n by (metis of_nat_Suc add.commute)
  next
    case month
    have "0 < month_days y (m + 1)" by (simp add: month_days_def)
    then have "civil y (m + 1) 1" using c month by (simp add: civil_def)
    then show ?thesis
      using calendar_days_next_month [of y m] n c month by (metis civil_def of_nat_Suc add.commute)
  next
    case year
    have "d = 31" using year by (simp add: month_days_def)
    have "y \<noteq> 9999"
    proof
      assume "y = 9999"
      then have "calendar_days y m d = 3652424"
        using year \<open>d = 31\<close> by (simp add: calendar_days_eq mar_days_def mar_year_def mar_doy_def mar_month_def)
      with n Suc.prems show False by simp
    qed
    then have "civil (y + 1) 1 1" using c by (auto simp: civil_def month_days_def)
    moreover have "calendar_days (y + 1) 1 1 = int n + 1"
      using calendar_days_next_year [of y] n c year \<open>d = 31\<close> by (simp add: civil_def)
    ultimately show ?thesis by (metis of_nat_Suc add.commute)
  qed
qed

lemma calendar_onto:
  assumes "is_valid_posix_time t"
  obtains y m d h mi s where "civil y m d" "clock h mi s" "t = calendar_seconds y m d h mi s"
proof -
  define D u where "D = t div 86400 + 719528" and "u = t mod 86400"
  have t: "t = (D - 719528) * 86400 + u" and u: "0 \<le> u" "u < 86400" by (simp_all add: D_def u_def)
  have "0 \<le> D" "D \<le> 3652424"
    using assms u by (simp_all add: is_valid_posix_time_def MIN_POSIX_TIME_def MAX_POSIX_TIME_def t)
  then obtain y m d where c: "civil y m d" and D: "calendar_days y m d = D"
    using calendar_days_onto [of "nat D"] by (auto simp: nat_le_iff)
  define h mi s where "h = u div 3600" and "mi = u mod 3600 div 60" and "s = u mod 3600 mod 60"
  have "u div 3600 \<le> 86399 div 3600" using u by (intro zdiv_mono1) simp_all
  then have "h < 24" unfolding h_def by simp
  moreover have "mi < 60" unfolding mi_def by simp
  moreover have "0 \<le> h" "0 \<le> mi" unfolding h_def mi_def using u by (simp_all add: pos_imp_zdiv_nonneg_iff)
  moreover have "0 \<le> s" "s < 60" unfolding s_def by simp_all
  ultimately have k: "clock h mi s" by (simp add: clock_def)
  have "u = h * 3600 + mi * 60 + s"
    using div_mult_mod_eq [of u 3600] div_mult_mod_eq [of "u mod 3600" 60]
    unfolding h_def mi_def s_def by linarith
  then have "t = calendar_seconds y m d h mi s"
    by (simp add: calendar_seconds_def epoch D t)
  with c k show ?thesis by (rule that)
qed

lemma calendar_seconds_valid:
  "civil y m d \<Longrightarrow> clock h mi s \<Longrightarrow> is_valid_posix_time (calendar_seconds y m d h mi s)"
  using utc_from_calendar [of y m d h mi s] by (auto simp: utc_from_posix_time_def split: if_splits)

lemma utc_from_posix_time_iff:
  "utc_from_posix_time t = Ok (y, m, d, h, mi, s) \<longleftrightarrow>
     civil y m d \<and> clock h mi s \<and> t = calendar_seconds y m d h mi s"
proof
  assume u: "utc_from_posix_time t = Ok (y, m, d, h, mi, s)"
  then have "is_valid_posix_time t" by (auto simp: utc_from_posix_time_def split: if_splits)
  then show "civil y m d \<and> clock h mi s \<and> t = calendar_seconds y m d h mi s"
    using u utc_from_calendar by (elim calendar_onto) fastforce
qed (simp add: utc_from_calendar)

lemma utc_from_posix_time_total:
  "is_valid_posix_time t \<Longrightarrow> \<exists>y m d h mi s. utc_from_posix_time t = Ok (y, m, d, h, mi, s)"
  by (elim calendar_onto) (auto simp: utc_from_calendar)

lemma utc_from_posix_time_invalid: "\<not> is_valid_posix_time t \<Longrightarrow> utc_from_posix_time t = Err"
  by (simp add: utc_from_posix_time_def)

section \<open>Broken-down times\<close>

definition tm_valid :: "tm \<Rightarrow> bool" where
  "tm_valid t \<longleftrightarrow> civil (tm_year t + 1900) (tm_mon t + 1) (tm_mday t) \<and>
     clock (tm_hour t) (tm_min t) (tm_sec t)"

definition tm_seconds :: "tm \<Rightarrow> int" where
  "tm_seconds t = calendar_seconds (tm_year t + 1900) (tm_mon t + 1) (tm_mday t)
     (tm_hour t) (tm_min t) (tm_sec t)"

text \<open>The fields that a conversion from POSIX time leaves zero.\<close>

definition tm_plain :: "tm \<Rightarrow> bool" where
  "tm_plain t \<longleftrightarrow> tm_wday t = 0 \<and> tm_yday t = 0 \<and> tm_isdst t = 0"

lemma OPENSSL_tm_to_posix_eq:
  "OPENSSL_tm_to_posix t = (if tm_valid t then Ok (tm_seconds t) else Err)"
  by (simp add: OPENSSL_tm_to_posix_def posix_time_from_utc_eq tm_valid_def tm_seconds_def)

lemma OPENSSL_posix_to_tm_iff:
  "OPENSSL_posix_to_tm time = Ok t \<longleftrightarrow> tm_valid t \<and> tm_plain t \<and> tm_seconds t = time"
proof
  assume "OPENSSL_posix_to_tm time = Ok t"
  then obtain y m d h mi s where u: "utc_from_posix_time time = Ok (y, m, d, h, mi, s)"
    and t: "t = \<lparr>tm_sec = s, tm_min = mi, tm_hour = h, tm_mday = d,
              tm_mon = m - 1, tm_year = y - 1900, tm_wday = 0, tm_yday = 0, tm_isdst = 0\<rparr>"
    by (auto simp: OPENSSL_posix_to_tm_def split: result.splits prod.splits)
  show "tm_valid t \<and> tm_plain t \<and> tm_seconds t = time"
    using u unfolding utc_from_posix_time_iff by (simp add: t tm_valid_def tm_plain_def tm_seconds_def)
next
  assume t: "tm_valid t \<and> tm_plain t \<and> tm_seconds t = time"
  then have "utc_from_posix_time time =
      Ok (tm_year t + 1900, tm_mon t + 1, tm_mday t, tm_hour t, tm_min t, tm_sec t)"
    unfolding utc_from_posix_time_iff by (simp add: tm_valid_def tm_seconds_def)
  with t show "OPENSSL_posix_to_tm time = Ok t"
    by (simp add: OPENSSL_posix_to_tm_def tm_plain_def)
qed

lemma OPENSSL_posix_to_tm_cases:
  obtains (ok) t where "OPENSSL_posix_to_tm time = Ok t" "is_valid_posix_time time"
  | (err) "OPENSSL_posix_to_tm time = Err" "\<not> is_valid_posix_time time"
proof (cases "is_valid_posix_time time")
  case True
  then show ?thesis using utc_from_posix_time_total [OF True] ok
    by (auto simp: OPENSSL_posix_to_tm_def)
next
  case False
  then show ?thesis using utc_from_posix_time_invalid [OF False] err
    by (simp add: OPENSSL_posix_to_tm_def)
qed

lemma tm_seconds_valid: "tm_valid t \<Longrightarrow> is_valid_posix_time (tm_seconds t)"
  by (simp add: tm_valid_def tm_seconds_def calendar_seconds_valid)

lemma tm_seconds_inj:
  "tm_valid t \<Longrightarrow> tm_valid u \<Longrightarrow> tm_plain t \<Longrightarrow> tm_plain u \<Longrightarrow> tm_seconds t = tm_seconds u \<Longrightarrow> t = u"
  using OPENSSL_posix_to_tm_iff [of "tm_seconds t" t] OPENSSL_posix_to_tm_iff [of "tm_seconds t" u] by simp

text \<open>
  Adjusting a time by days and seconds: it fails exactly when the result leaves the years 0
  to 9999. Here \<open>offset_day\<close> is an \<open>int\<close> and \<open>offset_sec\<close> an
  \<open>int64_t\<close>, so that no intermediate value overflows.
\<close>

lemma OPENSSL_gmtime_adj_iff:
  assumes "\<bar>offset_day\<bar> \<le> 2 ^ 31"
  shows "OPENSSL_gmtime_adj t offset_day offset_sec = Ok u \<longleftrightarrow>
     tm_valid t \<and> tm_valid u \<and> tm_plain u \<and>
       tm_seconds u = tm_seconds t + offset_day * 86400 + offset_sec"
proof (cases "tm_valid t")
  case True
  define p where "p = tm_seconds t + offset_day * 86400"
  have "is_valid_posix_time (tm_seconds t)" using True by (rule tm_seconds_valid)
  then have p: "- (2 ^ 31) * 86400 - 62167219200 \<le> p" "p \<le> 2 ^ 31 * 86400 + 253402300799"
    using assms by (auto simp: p_def is_valid_posix_time_def MIN_POSIX_TIME_def MAX_POSIX_TIME_def)
  show ?thesis
  proof (cases "(p > 0 \<and> offset_sec > INT64_MAX - p) \<or> (p < 0 \<and> offset_sec < INT64_MIN - p)")
    case out: True
    have "\<not> is_valid_posix_time (p + offset_sec)"
      using out p by (auto simp: is_valid_posix_time_def MIN_POSIX_TIME_def MAX_POSIX_TIME_def
          INT64_MAX_def INT64_MIN_def)
    then have "\<not> (tm_valid u \<and> tm_seconds u = p + offset_sec)" using tm_seconds_valid by metis
    then show ?thesis using True out
      by (auto simp: OPENSSL_gmtime_adj_def OPENSSL_tm_to_posix_eq SECS_PER_DAY_def SECS_PER_HOUR_def
          p_def Let_def)
  next
    case False
    then show ?thesis using True
      by (auto simp: OPENSSL_gmtime_adj_def OPENSSL_tm_to_posix_eq SECS_PER_DAY_def SECS_PER_HOUR_def
          p_def Let_def OPENSSL_posix_to_tm_iff)
  qed
qed (simp add: OPENSSL_gmtime_adj_def OPENSSL_tm_to_posix_eq)

text \<open>
  The difference of two times: days and seconds of the same sign, less than a day of seconds.
\<close>

lemma small_multiple: "0 < k \<Longrightarrow> k dvd x \<Longrightarrow> \<bar>x\<bar> < k \<Longrightarrow> x = 0" for x k :: int
  using dvd_imp_le_int [of x k] by (cases "x = 0") auto

lemma sdiv_smod_unique:
  fixes n k q r :: int
  assumes k: "0 < k"
  shows "n sdiv k = q \<and> n smod k = r \<longleftrightarrow> n = q * k + r \<and> \<bar>r\<bar> < k \<and> 0 \<le> n * r"
proof -
  define q' r' where "q' = n sdiv k" and "r' = n smod k"
  have n: "n = q' * k + r'" using sdiv_mult_smod_eq [of n k] by (simp add: q'_def r'_def)
  have r': "\<bar>r'\<bar> < k" using smod_int_range [of k n] k by (auto simp: r'_def)
  have sg: "0 \<le> n * r'"
    using smod_int_compares [of n k] k by (cases "0 \<le> n") (auto simp: r'_def zero_le_mult_iff)
  show ?thesis
  proof
    assume "n sdiv k = q \<and> n smod k = r"
    then have "q' = q" "r' = r" by (simp_all add: q'_def r'_def)
    then show "n = q * k + r \<and> \<bar>r\<bar> < k \<and> 0 \<le> n * r" using n r' sg by blast
  next
    assume a: "n = q * k + r \<and> \<bar>r\<bar> < k \<and> 0 \<le> n * r"
    have "r - r' = (q' - q) * k" using a n by (simp add: algebra_simps)
    then have d: "k dvd r - r'" by simp
    have "r - r' = 0"
    proof (cases "n = 0")
      case True
      then have "q' * k = - r'" "q * k = - r" using a n by linarith+
      then have "k dvd r'" "k dvd r" by (metis dvd_minus_iff dvd_triv_right)+
      then have "r' = 0" "r = 0" using small_multiple [OF k] r' a by blast+
      then show ?thesis by simp
    next
      case False
      have nr: "0 \<le> n * r" using a by blast
      have "\<bar>r - r'\<bar> < k"
      proof (cases "0 < n")
        case True
        then have "0 \<le> r" "0 \<le> r'" using nr sg by (simp_all add: zero_le_mult_iff)
        then show ?thesis using a r' by linarith
      next
        case False
        then have "r \<le> 0" "r' \<le> 0" using nr sg \<open>n \<noteq> 0\<close> by (simp_all add: zero_le_mult_iff)
        then show ?thesis using a r' by linarith
      qed
      then show ?thesis by (rule small_multiple [OF k d])
    qed
    moreover from this have "(q' - q) * k = 0" using \<open>r - r' = (q' - q) * k\<close> by simp
    ultimately have "q' = q" "r' = r" using k by simp_all
    then show "n sdiv k = q \<and> n smod k = r" by (simp add: q'_def r'_def)
  qed
qed

lemma OPENSSL_gmtime_diff_iff:
  "OPENSSL_gmtime_diff t u = Ok (days, secs) \<longleftrightarrow>
     tm_valid t \<and> tm_valid u \<and> tm_seconds u - tm_seconds t = days * 86400 + secs \<and>
     \<bar>secs\<bar> < 86400 \<and> 0 \<le> (tm_seconds u - tm_seconds t) * secs"
proof -
  have "OPENSSL_gmtime_diff t u = Ok (days, secs) \<longleftrightarrow> tm_valid t \<and> tm_valid u \<and>
      (tm_seconds u - tm_seconds t) sdiv 86400 = days \<and> (tm_seconds u - tm_seconds t) smod 86400 = secs"
    by (auto simp: OPENSSL_gmtime_diff_def OPENSSL_tm_to_posix_eq SECS_PER_DAY_def SECS_PER_HOUR_def Let_def)
  then show ?thesis by (simp only: sdiv_smod_unique [of 86400, simplified])
qed

section \<open>Properties\<close>

text \<open>
  A UTC date and time is converted to the POSIX time that counting the days of the
  Gregorian calendar gives; dates that do not exist and leap seconds are refused.
\<close>

theorem posix_time_of_calendar:
  "posix_time_from_utc y m d h mi s =
     (if civil y m d \<and> clock h mi s then Ok (calendar_seconds y m d h mi s) else Err)"
  by (rule posix_time_from_utc_eq)

text \<open>
  C25. The inverse conversion returns the one date and time of the years 0 to 9999 that has
  the given POSIX time, and fails for the times that have none.
\<close>

theorem calendar_of_posix_time:
  "(utc_from_posix_time t = Ok (y, m, d, h, mi, s) \<longleftrightarrow>
     civil y m d \<and> clock h mi s \<and> t = calendar_seconds y m d h mi s) \<and>
   (utc_from_posix_time t = Err \<longleftrightarrow> \<not> is_valid_posix_time t) \<and>
   utc_from_posix_time t \<noteq> Abort"
  using utc_from_posix_time_iff [of t y m d h mi s] utc_from_posix_time_total [of t]
    utc_from_posix_time_invalid [of t]
  by (auto simp: utc_from_posix_time_def split: if_splits)

text \<open>
  Adding days and seconds to a valid time gives the valid time that many seconds away,
  and succeeds exactly when there is one.
\<close>

theorem gmtime_adjusted:
  assumes "\<bar>offset_day\<bar> \<le> 2 ^ 31"
  shows "OPENSSL_gmtime_adj t offset_day offset_sec = Ok u \<longleftrightarrow>
     tm_valid t \<and> tm_valid u \<and> tm_plain u \<and>
       tm_seconds u = tm_seconds t + offset_day * 86400 + offset_sec"
  using assms by (rule OPENSSL_gmtime_adj_iff)

definition epoch_tm :: "int \<Rightarrow> tm" where
  "epoch_tm d = \<lparr>tm_sec = 0, tm_min = 0, tm_hour = 0, tm_mday = d, tm_mon = 0, tm_year = 70,
     tm_wday = 0, tm_yday = 0, tm_isdst = 0\<rparr>"

theorem gmtime_adjusted_witness: "OPENSSL_gmtime_adj (epoch_tm 1) 1 0 = Ok (epoch_tm 2)"
proof -
  have "calendar_seconds 1970 1 1 0 0 0 = 0" by (simp add: calendar_seconds_def)
  moreover have "calendar_seconds 1970 1 2 0 0 0 = 86400"
    using calendar_days_next_day [of 1970 1 1] by (simp add: calendar_seconds_def)
  ultimately show ?thesis
    using gmtime_adjusted [of 1 "epoch_tm 1" 0 "epoch_tm 2"]
    by (simp add: epoch_tm_def tm_valid_def tm_plain_def tm_seconds_def civil_def clock_def month_days_def)
qed

text \<open>
  The difference of two valid times is split into days and seconds of the same sign.
\<close>

theorem gmtime_difference:
  "OPENSSL_gmtime_diff t u = Ok (days, secs) \<longleftrightarrow>
     tm_valid t \<and> tm_valid u \<and> tm_seconds u - tm_seconds t = days * 86400 + secs \<and>
     \<bar>secs\<bar> < 86400 \<and> 0 \<le> (tm_seconds u - tm_seconds t) * secs"
  by (rule OPENSSL_gmtime_diff_iff)

end
