(* ===== verification/Cbs_Time.thy ===== *)
theory Cbs_Time
  imports Cbs_Core Posix_Time
begin

text \<open>
  crypto/bytestring/cbs.c, the UTCTime and GeneralizedTime parsers of RFC 5280.
\<close>

section \<open>The code\<close>

definition cbs_get_two_digits :: "(CBS, int) op" where
  "cbs_get_two_digits =
     op_bind CBS_get_u8 (\<lambda>first_digit.
     op_then (op_require (OPENSSL_isdigit first_digit))
    (op_bind CBS_get_u8 (\<lambda>second_digit.
     op_then (op_require (OPENSSL_isdigit second_digit))
    (op_ret ((int (unat first_digit) - 48) * 10 + (int (unat second_digit) - 48))))))"

definition is_valid_day :: "int \<Rightarrow> int \<Rightarrow> int \<Rightarrow> bool" where
  "is_valid_day year month day =
     (if day < 1 then False
      else if month \<in> {1, 3, 5, 7, 8, 10, 12} then day \<le> 31
      else if month \<in> {4, 6, 9, 11} then day \<le> 30
      else if month = 2 then
        (if (year smod 4 = 0 \<and> year smod 100 \<noteq> 0) \<or> year smod 400 = 0
         then day \<le> 29 else day \<le> 28)
      else False)"

text \<open>The year: four digits, or two digits of the years 1950 to 2049.\<close>

definition rfc5280_year :: "bool \<Rightarrow> (CBS, int) op" where
  "rfc5280_year is_gentime =
     (if is_gentime then
        op_bind cbs_get_two_digits (\<lambda>tmp.
        op_bind cbs_get_two_digits (\<lambda>tmp'. op_ret (tmp * 100 + tmp')))
      else
        op_bind cbs_get_two_digits (\<lambda>tmp.
          let year = 1900 + tmp;
              year = (if year < 1950 then year + 100 else year)
          in if year \<ge> 2050 then op_fail else op_ret year))"

definition rfc5280_offset :: "bool \<Rightarrow> byte \<Rightarrow> (CBS, int) op" where
  "rfc5280_offset allow_timezone_offset tz =
     op_bind (if tz = 0x5a then op_ret 0
              else if tz = 0x2b then op_ret 1
              else if tz = 0x2d then op_ret (-1)
              else op_fail) (\<lambda>offset_sign.
       if offset_sign \<noteq> 0 then
         op_then (op_require allow_timezone_offset)
        (op_bind cbs_get_two_digits (\<lambda>offset_hours.
         op_then (op_require (\<not> offset_hours > 23))
        (op_bind cbs_get_two_digits (\<lambda>offset_minutes.
         op_then (op_require (\<not> offset_minutes > 59))
        (op_ret (offset_sign * (offset_hours * 3600 + offset_minutes * 60)))))))
       else op_ret 0)"

text \<open>
  \<open>out_tm\<close> is the caller's structure: \<open>None\<close> for \<open>NULL\<close>. On success
  it is returned with the fields the parser fills in; when the adjustment for the offset
  fails, the parser returns zero after having filled it.
\<close>

definition CBS_parse_rfc5280_time_internal ::
  "CBS \<Rightarrow> bool \<Rightarrow> bool \<Rightarrow> tm option \<Rightarrow> tm option result" where
  "CBS_parse_rfc5280_time_internal cbs is_gentime allow_timezone_offset out_tm =
     fst (op_bind (rfc5280_year is_gentime) (\<lambda>year.
          op_bind cbs_get_two_digits (\<lambda>month.
          op_then (op_require (\<not> (month < 1 \<or> month > 12)))
         (op_bind cbs_get_two_digits (\<lambda>day.
          op_then (op_require (is_valid_day year month day))
         (op_bind cbs_get_two_digits (\<lambda>hour.
          op_then (op_require (\<not> hour > 23))
         (op_bind cbs_get_two_digits (\<lambda>min.
          op_then (op_require (\<not> min > 59))
         (op_bind cbs_get_two_digits (\<lambda>sec.
          op_then (op_require (\<not> sec > 59))
         (op_bind CBS_get_u8 (\<lambda>tz.
          op_bind (rfc5280_offset allow_timezone_offset tz) (\<lambda>offset_seconds.
          op_bind op_get (\<lambda>copy.
          op_then (op_require (\<not> CBS_len copy \<noteq> 0))
         (case out_tm of
            None \<Rightarrow> op_ret None
          | Some tm \<Rightarrow>
              (let tm = tm\<lparr>tm_year := year - 1900, tm_mon := month - 1, tm_mday := day,
                          tm_hour := hour, tm_min := min, tm_sec := sec\<rparr>
               in if offset_seconds \<noteq> 0 then
                    (case OPENSSL_gmtime_adj tm 0 offset_seconds of
                       Ok tm' \<Rightarrow> op_ret (Some tm')
                     | Err \<Rightarrow> op_fail
                     | Abort \<Rightarrow> op_abort)
                  else op_ret (Some tm))))))))))))))))) cbs)"

definition CBS_parse_generalized_time :: "CBS \<Rightarrow> tm option \<Rightarrow> bool \<Rightarrow> tm option result" where
  "CBS_parse_generalized_time cbs out_tm allow_timezone_offset =
     CBS_parse_rfc5280_time_internal cbs True allow_timezone_offset out_tm"

definition CBS_parse_utc_time :: "CBS \<Rightarrow> tm option \<Rightarrow> bool \<Rightarrow> tm option result" where
  "CBS_parse_utc_time cbs out_tm allow_timezone_offset =
     CBS_parse_rfc5280_time_internal cbs False allow_timezone_offset out_tm"

section \<open>Two digits as a codec\<close>

definition two_digits :: "int \<Rightarrow> byte list" where
  "two_digits n = [of_nat (48 + nat n div 10), of_nat (48 + nat n mod 10)]"

definition two_digits_ok :: "int \<Rightarrow> bool" where
  "two_digits_ok n \<longleftrightarrow> 0 \<le> n \<and> n < 100"

lemma isdigit_iff: "OPENSSL_isdigit b \<longleftrightarrow> 48 \<le> unat b \<and> unat b \<le> 57"
  by (simp add: OPENSSL_isdigit_def word_le_nat_alt)

lemma two_digits_sound:
  assumes "48 \<le> unat a" "unat a \<le> 57" "48 \<le> unat b" "unat b \<le> 57"
  defines "n \<equiv> (int (unat a) - 48) * 10 + (int (unat b) - 48)"
  shows "two_digits_ok n" and "two_digits n = [a, b]"
proof -
  define x y where "x = unat a - 48" and "y = unat b - 48"
  have xy: "unat a = 48 + x" "unat b = 48 + y" "x < 10" "y < 10" using assms by (auto simp: x_def y_def)
  have n: "n = int (x * 10 + y)" unfolding n_def xy by simp
  show "two_digits_ok n" using xy by (simp add: two_digits_ok_def n)
  have "nat n = x * 10 + y" unfolding n by (rule nat_int)
  then have "nat n div 10 = x" "nat n mod 10 = y" using xy by simp_all
  then show "two_digits n = [a, b]"
    unfolding two_digits_def by (simp add: xy(1,2) [symmetric] word_of_nat_eq_iff del: of_nat_add)
qed

lemma two_digits_bytes:
  assumes "two_digits_ok n"
  obtains a b where "two_digits n = [a, b]" "48 \<le> unat a" "unat a \<le> 57" "48 \<le> unat b" "unat b \<le> 57"
    "(int (unat a) - 48) * 10 + (int (unat b) - 48) = n"
proof -
  define x y where "x = nat n div 10" and "y = nat n mod 10"
  have xy: "x < 10" "y < 10" "nat n = x * 10 + y" using assms by (auto simp: x_def y_def two_digits_ok_def)
  have "n = int (nat n)" using assms by (simp add: two_digits_ok_def)
  then have n: "n = int x * 10 + int y" unfolding xy(3) by simp
  define a b :: byte where "a = of_nat (48 + x)" and "b = of_nat (48 + y)"
  have ab: "unat a = 48 + x" "unat b = 48 + y" using xy by (simp_all add: a_def b_def del: of_nat_add)
  have "two_digits n = [a, b]" by (simp only: two_digits_def x_def y_def a_def b_def)
  with xy n show ?thesis by (intro that [of a b]) (simp_all add: ab del: of_nat_unat)
qed

lemma cbs_get_two_digits_eq:
  "cbs_get_two_digits cbs =
     (case cbs of
        [] \<Rightarrow> (Err, [])
      | a # cs \<Rightarrow> if \<not> OPENSSL_isdigit a then (Err, cs)
          else (case cs of
            [] \<Rightarrow> (Err, [])
          | b # ds \<Rightarrow> if \<not> OPENSSL_isdigit b then (Err, ds)
              else (Ok ((int (unat a) - 48) * 10 + (int (unat b) - 48)), ds)))"
  by (simp add: cbs_get_two_digits_def op_bind_apply op_then_apply CBS_get_u8_eq split: list.split)

lemma cbs_get_two_digits_iff:
  "cbs_get_two_digits cbs = (Ok n, rest) \<longleftrightarrow> two_digits_ok n \<and> cbs = two_digits n @ rest"
proof
  assume "cbs_get_two_digits cbs = (Ok n, rest)"
  then obtain a b where "cbs = a # b # rest" "48 \<le> unat a" "unat a \<le> 57" "48 \<le> unat b" "unat b \<le> 57"
    "n = (int (unat a) - 48) * 10 + (int (unat b) - 48)"
    by (auto simp: cbs_get_two_digits_eq isdigit_iff split: list.splits if_splits)
  then show "two_digits_ok n \<and> cbs = two_digits n @ rest"
    using two_digits_sound [of a b] by simp
next
  assume n: "two_digits_ok n \<and> cbs = two_digits n @ rest"
  then obtain a b where "cbs = a # b # rest" "48 \<le> unat a" "unat a \<le> 57" "48 \<le> unat b" "unat b \<le> 57"
    and "(int (unat a) - 48) * 10 + (int (unat b) - 48) = n"
    using two_digits_bytes [of n] by (metis append_Cons append_Nil)
  then show "cbs_get_two_digits cbs = (Ok n, rest)"
    by (simp add: cbs_get_two_digits_eq isdigit_iff del: of_nat_unat)
qed

lemma cbs_get_two_digits_safe: "fst (cbs_get_two_digits cbs) \<noteq> Abort"
  by (simp add: cbs_get_two_digits_eq split: list.split)

lemma cbs_get_two_digits_front: "\<exists>p. cbs = p @ snd (cbs_get_two_digits cbs)"
  by (auto simp: cbs_get_two_digits_eq split: list.split)

interpretation digits2: safe_byte_codec cbs_get_two_digits two_digits two_digits_ok
  using cbs_get_two_digits_safe cbs_get_two_digits_front
  by unfold_locales (auto simp: cbs_get_two_digits_iff)

lemma byte_reader_rfc5280_year: "byte_reader (rfc5280_year g)"
  unfolding rfc5280_year_def Let_def
  by (auto intro!: byte_reader_intros digits2.byte_reader_axioms)

section \<open>What the parsers accept\<close>









definition zone_ok :: "bool \<Rightarrow> int \<Rightarrow> byte \<Rightarrow> bool" where
  "zone_ok allow off tz \<longleftrightarrow>
     (tz = 0x5a \<and> off = 0) \<or>
     (allow \<and> \<bar>off\<bar> < 86400 \<and> \<bar>off\<bar> mod 60 = 0 \<and> (tz = 0x2b \<and> 0 \<le> off \<or> tz = 0x2d \<and> off \<le> 0))"


lemma byte_eq_ascii: "(0x5a :: byte) \<noteq> 0x2b" "(0x5a :: byte) \<noteq> 0x2d" "(0x2b :: byte) \<noteq> 0x2d"
  by simp_all














lemma time_text_offset_bound: "zone_ok allow off tz \<Longrightarrow> \<bar>off\<bar> < 86400"
  by (auto simp: zone_ok_def)

lemma OPENSSL_gmtime_adj_safe: "OPENSSL_gmtime_adj t a b \<noteq> Abort"
proof -
  have "OPENSSL_posix_to_tm n \<noteq> Abort" for n
    by (rule OPENSSL_posix_to_tm_cases [of n]) simp_all
  then show ?thesis by (simp add: OPENSSL_gmtime_adj_def OPENSSL_tm_to_posix_eq Let_def)
qed

lemma rfc5280_offset_safe: "fst (rfc5280_offset allow tz cbs) \<noteq> Abort"
  unfolding rfc5280_offset_def
proof (rule op_bind_not_Abort)
  fix offset_sign :: int and t :: CBS
  show "fst ((if offset_sign \<noteq> 0 then op_then (op_require allow)
        (op_bind cbs_get_two_digits (\<lambda>offset_hours.
         op_then (op_require (\<not> offset_hours > 23))
        (op_bind cbs_get_two_digits (\<lambda>offset_minutes.
         op_then (op_require (\<not> offset_minutes > 59))
        (op_ret (offset_sign * (offset_hours * 3600 + offset_minutes * 60)))))))
       else op_ret 0) t) \<noteq> Abort"
    by (cases "offset_sign = 0", simp, simp only: simp_thms if_True)
      (intro op_bind_not_Abort op_require_not_Abort cbs_get_two_digits_safe, simp)
qed simp

lemma CBS_parse_time_safe: "CBS_parse_rfc5280_time_internal cbs g allow out \<noteq> Abort"
  unfolding CBS_parse_rfc5280_time_internal_def Let_def
  by (intro op_bind_not_Abort op_require_not_Abort cbs_get_two_digits_safe rfc5280_offset_safe u8.rd_safe
      byte_reader.rd_safe [OF byte_reader_rfc5280_year])
    (use OPENSSL_gmtime_adj_safe in \<open>auto split: option.split result.split\<close>)






section \<open>Properties\<close>


text \<open>Parsing a time never leaves the defined behaviour of C.\<close>

theorem time_read_safe:
  "CBS_parse_generalized_time cbs out allow \<noteq> Abort \<and> CBS_parse_utc_time cbs out allow \<noteq> Abort"
  by (simp add: CBS_parse_generalized_time_def CBS_parse_utc_time_def CBS_parse_time_safe)

end
