(* ===== verification/Cbb_Core.thy ===== *)
theory Cbb_Core
  imports C_Mem
begin

text \<open>
  crypto/bytestring/cbb.c, the buffer and the length prefixes. A builder is its base buffer
  and the chain of its pending children, outermost first: the root has depth 0 and the
  child at depth \<open>d + 1\<close> is \<open>children ! d\<close>. An operation takes the depth of
  the \<open>CBB\<close> it is called on. A \<open>CBB\<close> deeper than the chain has been
  flushed or discarded: its \<open>base\<close> is null. An error cuts children off, and they keep
  their \<open>base\<close>: \<open>cbb_cut\<close> counts those, which are the next ones behind the chain. The
  allocator is a parameter of the builder. Not modelled: reading through or discarding below
  a \<open>CBB\<close> that an error cut off, and the use of the children of a discarded child.
\<close>

section \<open>State\<close>

record cbb_buffer_st =
  cbb_buf :: "byte list"
  cbb_len :: nat
  cbb_cap :: nat
  cbb_can_resize :: bool
  cbb_error :: bool

record cbb_child_st =
  ch_offset :: nat
  ch_pending_len_len :: nat
  ch_pending_is_asn1 :: bool

record CBB =
  cbb_base :: cbb_buffer_st
  cbb_children :: "cbb_child_st list"
  cbb_cut :: nat
  cbb_mem :: allocator

definition cbb_init :: "allocator \<Rightarrow> byte list \<Rightarrow> nat \<Rightarrow> bool \<Rightarrow> CBB" where
  "cbb_init mem buf cap can_resize =
     \<lparr>cbb_base = \<lparr>cbb_buf = buf, cbb_len = 0, cbb_cap = cap, cbb_can_resize = can_resize,
                  cbb_error = False\<rparr>,
      cbb_children = [], cbb_cut = 0, cbb_mem = mem\<rparr>"

definition CBB_init :: "allocator \<Rightarrow> nat \<Rightarrow> CBB result" where
  "CBB_init mem initial_capacity =
     (let buf = mem initial_capacity in
      if initial_capacity > 0 \<and> buf = None then Err
      else Ok (cbb_init mem (case buf of None \<Rightarrow> [] | Some b \<Rightarrow> b) initial_capacity True))"

definition CBB_init_fixed :: "allocator \<Rightarrow> byte list \<Rightarrow> nat \<Rightarrow> CBB result" where
  "CBB_init_fixed mem buf len = Ok (cbb_init mem buf len False)"

text \<open>
  The base of the \<open>CBB\<close> at a depth, null when neither the chain nor the children that an
  error cut off reach it.
\<close>

definition cbb_get_base :: "nat \<Rightarrow> CBB \<Rightarrow> cbb_buffer_st option" where
  "cbb_get_base d s = (if d \<le> length (cbb_children s) + cbb_cut s then Some (cbb_base s) else None)"

section \<open>The buffer\<close>

text \<open>The result is the offset of the reserved bytes.\<close>

definition cbb_buffer_reserve :: "allocator \<Rightarrow> nat \<Rightarrow> (cbb_buffer_st, nat) op" where
  "cbb_buffer_reserve mem len = (\<lambda>base.
     let newlen = size_add (cbb_len base) len in
     if newlen < cbb_len base then (Err, base\<lparr>cbb_error := True\<rparr>)
     else if newlen > cbb_cap base then
       (if \<not> cbb_can_resize base then (Err, base\<lparr>cbb_error := True\<rparr>)
        else (let newcap = size_mul (cbb_cap base) 2;
                  newcap = (if newcap < cbb_cap base \<or> newcap < newlen then newlen else newcap)
              in case OPENSSL_realloc mem (cbb_buf base) newcap of
                   None \<Rightarrow> (Err, base\<lparr>cbb_error := True\<rparr>)
                 | Some newbuf \<Rightarrow>
                     (Ok (cbb_len base), base\<lparr>cbb_buf := newbuf, cbb_cap := newcap\<rparr>)))
     else (Ok (cbb_len base), base))"

definition cbb_buffer_add :: "allocator \<Rightarrow> nat \<Rightarrow> (cbb_buffer_st, nat) op" where
  "cbb_buffer_add mem len =
     op_bind (cbb_buffer_reserve mem len) (\<lambda>out.
       (\<lambda>base. (Ok out, base\<lparr>cbb_len := cbb_len base + len\<rparr>)))"

text \<open>Work on the base of the \<open>CBB\<close> at a depth; a null base fails.\<close>

definition on_base :: "nat \<Rightarrow> (allocator \<Rightarrow> (cbb_buffer_st, 'a) op) \<Rightarrow> (CBB, 'a) op" where
  "on_base d m = (\<lambda>s.
     case cbb_get_base d s of
       None \<Rightarrow> (Err, s)
     | Some base \<Rightarrow> (case m (cbb_mem s) base of (r, base') \<Rightarrow> (r, s\<lparr>cbb_base := base'\<rparr>)))"

text \<open>
  Lock the builder in its error state; the result is the failure of the caller. The children
  are cut off, and their own \<open>base\<close> stays.
\<close>

definition cbb_on_error :: "nat \<Rightarrow> (CBB, 'a) op" where
  "cbb_on_error d = (\<lambda>s.
     case cbb_get_base d s of
       None \<Rightarrow> (Abort, s)
     | Some base \<Rightarrow>
         (Err, s\<lparr>cbb_base := base\<lparr>cbb_error := True\<rparr>, cbb_children := take d (cbb_children s),
                 cbb_cut := cbb_cut s + (length (cbb_children s) - d)\<rparr>))"

definition or_on_error :: "nat \<Rightarrow> (CBB, 'a) op \<Rightarrow> (CBB, 'a) op" where
  "or_on_error d m = (\<lambda>s.
     case m s of
       (Ok x, t) \<Rightarrow> (Ok x, t)
     | (Err, t) \<Rightarrow> cbb_on_error d t
     | (Abort, t) \<Rightarrow> (Abort, t))"

section \<open>Length prefixes\<close>

text \<open>
  The loop that stores \<open>n\<close> bytes of \<open>len\<close> from the last one down; it
  returns what is left of \<open>len\<close>, and \<open>None\<close> for a write outside the buffer.
\<close>

fun cbb_put_be :: "nat \<Rightarrow> nat \<Rightarrow> byte list \<Rightarrow> nat \<Rightarrow> (byte list \<times> nat) option" where
  "cbb_put_be 0 off buf len = Some (buf, len)"
| "cbb_put_be (Suc i) off buf len =
     (if off + i < length buf
      then cbb_put_be i off (buf[off + i := of_nat len]) (len div 256)
      else None)"

text \<open>The length of a DER length and its first byte; a short length is written by that byte.\<close>

definition cbb_asn1_len_len :: "nat \<Rightarrow> (nat \<times> byte \<times> nat) result" where
  "cbb_asn1_len_len len =
     (if len > 0xfffffffe then Err
      else if len > 0xffffff then Ok (5, 0x80 OR 4, len)
      else if len > 0xffff then Ok (4, 0x80 OR 3, len)
      else if len > 0xff then Ok (3, 0x80 OR 2, len)
      else if len > 0x7f then Ok (2, 0x80 OR 1, len)
      else Ok (1, of_nat len, 0))"

text \<open>The loop and the check that nothing of the length is left.\<close>

definition cbb_put_length :: "nat \<Rightarrow> nat \<Rightarrow> nat \<Rightarrow> (cbb_buffer_st, unit) op" where
  "cbb_put_length off n len = (\<lambda>base.
     case cbb_put_be n off (cbb_buf base) len of
       None \<Rightarrow> (Abort, base)
     | Some (buf, len) \<Rightarrow> (if len \<noteq> 0 then Err else Ok (), base\<lparr>cbb_buf := buf\<rparr>))"

text \<open>Move the contents along to make space for a longer length.\<close>

definition cbb_make_space :: "allocator \<Rightarrow> nat \<Rightarrow> nat \<Rightarrow> nat \<Rightarrow> (cbb_buffer_st, unit) op" where
  "cbb_make_space mem child_start extra_bytes len =
     op_then (cbb_buffer_add mem extra_bytes) (\<lambda>base.
       case OPENSSL_memmove (cbb_buf base) (child_start + extra_bytes) child_start len of
         None \<Rightarrow> (Abort, base)
       | Some buf \<Rightarrow> (Ok (), base\<lparr>cbb_buf := buf\<rparr>))"

definition cbb_store_byte :: "nat \<Rightarrow> byte \<Rightarrow> (cbb_buffer_st, unit) op" where
  "cbb_store_byte off b = (\<lambda>base.
     if off < length (cbb_buf base) then (Ok (), base\<lparr>cbb_buf := (cbb_buf base)[off := b]\<rparr>)
     else (Abort, base))"

text \<open>
  The part of \<open>CBB_flush\<close> that writes the prefix of one child whose own children are
  flushed.
\<close>

definition cbb_flush_child :: "allocator \<Rightarrow> cbb_child_st \<Rightarrow> (cbb_buffer_st, unit) op" where
  "cbb_flush_child mem child = (\<lambda>base.
     let child_start = size_add (ch_offset child) (ch_pending_len_len child) in
     if child_start < ch_offset child \<or> cbb_len base < child_start then (Err, base)
     else
       (let len = cbb_len base - child_start
        in if ch_pending_is_asn1 child then
             (if ch_pending_len_len child \<noteq> 1 then (Abort, base)
              else case cbb_asn1_len_len len of
                Ok (len_len, initial_length_byte, len') \<Rightarrow>
                  op_then
                    (if len_len \<noteq> 1 then cbb_make_space mem child_start (len_len - 1) len'
                     else op_ret ())
                    (op_then (cbb_store_byte (ch_offset child) initial_length_byte)
                      (cbb_put_length (ch_offset child + 1) (len_len - 1) len')) base
              | Err \<Rightarrow> (Err, base)
              | Abort \<Rightarrow> (Abort, base))
           else cbb_put_length (ch_offset child) (ch_pending_len_len child) len base))"

function CBB_flush :: "nat \<Rightarrow> (CBB, unit) op" where
  "CBB_flush d s =
     (if d > length (cbb_children s) \<or> cbb_error (cbb_base s) then (Err, s)
      else if d = length (cbb_children s) then (Ok (), s)
      else case CBB_flush (Suc d) s of
        (Ok _, s') \<Rightarrow>
          op_then (or_on_error d (on_base d (\<lambda>mem. cbb_flush_child mem (cbb_children s ! d))))
            (\<lambda>s. (Ok (), s\<lparr>cbb_children := take d (cbb_children s)\<rparr>)) s'
      | (Err, s') \<Rightarrow> cbb_on_error d s'
      | (Abort, s') \<Rightarrow> (Abort, s'))"
  by pat_completeness auto
termination
  by (relation "measure (\<lambda>(d, s). length (cbb_children s) - d)") auto

declare CBB_flush.simps [simp del]

section \<open>Reading back and finishing\<close>

definition cbb_start :: "nat \<Rightarrow> CBB \<Rightarrow> nat" where
  "cbb_start d s =
     (if d = 0 then 0
      else (let child = cbb_children s ! (d - 1)
            in ch_offset child + ch_pending_len_len child))"

definition CBB_data :: "nat \<Rightarrow> (CBB, byte list) op" where
  "CBB_data d = (\<lambda>s.
     if d \<noteq> length (cbb_children s) then (Abort, s)
     else (Ok (drop (cbb_start d s) (cbb_buf (cbb_base s))), s))"

definition CBB_len :: "nat \<Rightarrow> (CBB, nat) op" where
  "CBB_len d = (\<lambda>s.
     if d \<noteq> length (cbb_children s) \<or> cbb_len (cbb_base s) < cbb_start d s then (Abort, s)
     else (Ok (cbb_len (cbb_base s) - cbb_start d s), s))"

definition CBB_cleanup :: "nat \<Rightarrow> (CBB, unit) op" where
  "CBB_cleanup d = (\<lambda>s.
     if d \<noteq> 0 then (Abort, s)
     else if cbb_can_resize (cbb_base s)
     then (Ok (), s\<lparr>cbb_base := (cbb_base s)\<lparr>cbb_buf := []\<rparr>\<rparr>)
     else (Ok (), s))"

text \<open>
  \<open>out_data\<close> and \<open>out_len\<close> say whether the caller passed the pointers. The
  buffer is handed over whole, with the number of its bytes that are valid.
\<close>

definition CBB_finish :: "nat \<Rightarrow> bool \<Rightarrow> bool \<Rightarrow> (CBB, byte list option \<times> nat option) op" where
  "CBB_finish d out_data out_len =
     op_then (op_require (d = 0))
    (op_then (CBB_flush d)
    (op_bind op_get (\<lambda>s.
       let base = cbb_base s in
       op_then (op_require (\<not> (cbb_can_resize base \<and> (\<not> out_data \<or> \<not> out_len))))
      (op_then (\<lambda>s. (Ok (), s\<lparr>cbb_base := base\<lparr>cbb_buf := []\<rparr>\<rparr>))
      (op_then (CBB_cleanup d)
      (op_ret (if out_data then Some (cbb_buf base) else None,
               if out_len then Some (cbb_len base) else None)))))))"

section \<open>Children\<close>

definition cbb_add_child :: "nat \<Rightarrow> nat \<Rightarrow> bool \<Rightarrow> (CBB, unit) op" where
  "cbb_add_child d len_len is_asn1 =
     op_bind op_get (\<lambda>s.
       op_then (op_assert (d = length (cbb_children s)))
      (op_then (op_assert (\<not> is_asn1 \<or> len_len = 1))
      (let offset = cbb_len (cbb_base s) in
       op_bind (on_base d (\<lambda>mem. cbb_buffer_add mem len_len)) (\<lambda>prefix_bytes s.
         case OPENSSL_memset (cbb_buf (cbb_base s)) prefix_bytes 0 len_len of
           None \<Rightarrow> (Abort, s)
         | Some buf \<Rightarrow>
             (Ok (), s\<lparr>cbb_base := (cbb_base s)\<lparr>cbb_buf := buf\<rparr>,
                       cbb_children := cbb_children s @
                         [\<lparr>ch_offset = offset, ch_pending_len_len = len_len,
                           ch_pending_is_asn1 = is_asn1\<rparr>]\<rparr>)))))"

definition cbb_add_length_prefixed :: "nat \<Rightarrow> nat \<Rightarrow> (CBB, unit) op" where
  "cbb_add_length_prefixed d len_len = op_then (CBB_flush d) (cbb_add_child d len_len False)"

definition CBB_add_u8_length_prefixed :: "nat \<Rightarrow> (CBB, unit) op" where
  "CBB_add_u8_length_prefixed d = cbb_add_length_prefixed d 1"

definition CBB_add_u16_length_prefixed :: "nat \<Rightarrow> (CBB, unit) op" where
  "CBB_add_u16_length_prefixed d = cbb_add_length_prefixed d 2"

definition CBB_add_u24_length_prefixed :: "nat \<Rightarrow> (CBB, unit) op" where
  "CBB_add_u24_length_prefixed d = cbb_add_length_prefixed d 3"

text \<open>Drop the pending child and what was written to it.\<close>

definition CBB_discard_child :: "nat \<Rightarrow> (CBB, unit) op" where
  "CBB_discard_child d = (\<lambda>s.
     if d \<ge> length (cbb_children s) then (Ok (), s)
     else (Ok (), s\<lparr>cbb_base := (cbb_base s)\<lparr>cbb_len := ch_offset (cbb_children s ! d)\<rparr>,
                     cbb_children := take d (cbb_children s)\<rparr>))"

section \<open>Bytes and integers\<close>

definition CBB_add_space :: "nat \<Rightarrow> nat \<Rightarrow> (CBB, nat) op" where
  "CBB_add_space d len = op_then (CBB_flush d) (on_base d (\<lambda>mem. cbb_buffer_add mem len))"

definition CBB_reserve :: "nat \<Rightarrow> nat \<Rightarrow> (CBB, nat) op" where
  "CBB_reserve d len = op_then (CBB_flush d) (on_base d (\<lambda>mem. cbb_buffer_reserve mem len))"

definition CBB_did_write :: "nat \<Rightarrow> nat \<Rightarrow> (CBB, unit) op" where
  "CBB_did_write d len = (\<lambda>s.
     case cbb_get_base d s of
       None \<Rightarrow> (Abort, s)
     | Some base \<Rightarrow>
         (let newlen = size_add (cbb_len base) len in
          if d < length (cbb_children s) \<or> newlen < cbb_len base \<or> newlen > cbb_cap base
          then (Err, s)
          else (Ok (), s\<lparr>cbb_base := base\<lparr>cbb_len := newlen\<rparr>\<rparr>)))"

text \<open>Write to the buffer; \<open>None\<close> is an access outside it.\<close>

definition cbb_store :: "(byte list \<Rightarrow> byte list option) \<Rightarrow> (CBB, unit) op" where
  "cbb_store f = (\<lambda>s.
     case f (cbb_buf (cbb_base s)) of
       None \<Rightarrow> (Abort, s)
     | Some buf \<Rightarrow> (Ok (), s\<lparr>cbb_base := (cbb_base s)\<lparr>cbb_buf := buf\<rparr>\<rparr>))"

definition CBB_add_bytes :: "nat \<Rightarrow> byte list \<Rightarrow> nat \<Rightarrow> (CBB, unit) op" where
  "CBB_add_bytes d data len =
     op_bind (CBB_add_space d len) (\<lambda>out. cbb_store (\<lambda>buf. OPENSSL_memcpy buf out data len))"

definition CBB_add_zeros :: "nat \<Rightarrow> nat \<Rightarrow> (CBB, unit) op" where
  "CBB_add_zeros d len =
     op_bind (CBB_add_space d len) (\<lambda>out. cbb_store (\<lambda>buf. OPENSSL_memset buf out 0 len))"

definition cbb_add_u :: "nat \<Rightarrow> u64 \<Rightarrow> nat \<Rightarrow> (CBB, unit) op" where
  "cbb_add_u d v len_len =
     op_bind (CBB_add_space d len_len) (\<lambda>out s.
       case cbb_put_be len_len out (cbb_buf (cbb_base s)) (unat v) of
         None \<Rightarrow> (Abort, s)
       | Some (buf, v) \<Rightarrow>
           (let s = s\<lparr>cbb_base := (cbb_base s)\<lparr>cbb_buf := buf\<rparr>\<rparr>
            in if v \<noteq> 0 then cbb_on_error d s else (Ok (), s)))"

definition CBB_add_u8 :: "nat \<Rightarrow> byte \<Rightarrow> (CBB, unit) op" where
  "CBB_add_u8 d value = cbb_add_u d (ucast value) 1"

definition CBB_add_u16 :: "nat \<Rightarrow> u16 \<Rightarrow> (CBB, unit) op" where
  "CBB_add_u16 d value = cbb_add_u d (ucast value) 2"

definition CBB_add_u16le :: "nat \<Rightarrow> u16 \<Rightarrow> (CBB, unit) op" where
  "CBB_add_u16le d value = CBB_add_u16 d (CRYPTO_bswap2 value)"

definition CBB_add_u24 :: "nat \<Rightarrow> u32 \<Rightarrow> (CBB, unit) op" where
  "CBB_add_u24 d value = cbb_add_u d (ucast value) 3"

definition CBB_add_u32 :: "nat \<Rightarrow> u32 \<Rightarrow> (CBB, unit) op" where
  "CBB_add_u32 d value = cbb_add_u d (ucast value) 4"

definition CBB_add_u32le :: "nat \<Rightarrow> u32 \<Rightarrow> (CBB, unit) op" where
  "CBB_add_u32le d value = CBB_add_u32 d (CRYPTO_bswap4 value)"

definition CBB_add_u64 :: "nat \<Rightarrow> u64 \<Rightarrow> (CBB, unit) op" where
  "CBB_add_u64 d value = cbb_add_u d value 8"

definition CBB_add_u64le :: "nat \<Rightarrow> u64 \<Rightarrow> (CBB, unit) op" where
  "CBB_add_u64le d value = CBB_add_u64 d (CRYPTO_bswap8 value)"

end
