(* ===== verification/Radix.thy ===== *)
theory Radix
  imports Main
begin

text \<open>
  Numbers in positional notation, most significant digit first and without leading zeros.
  Both the base-128 integers of DER and decimal numbers are read and written this way.
\<close>

fun radix :: "nat \<Rightarrow> nat \<Rightarrow> nat list" where
  "radix B n = (if n < B \<or> B < 2 then [n] else radix B (n div B) @ [n mod B])"

declare radix.simps [simp del]

definition radix_val :: "nat \<Rightarrow> nat list \<Rightarrow> nat" where
  "radix_val B ds = foldl (\<lambda>a d. a * B + d) 0 ds"

lemma radix_small: "n < B \<Longrightarrow> radix B n = [n]"
  by (subst radix.simps) simp

lemma radix_snoc: "2 \<le> B \<Longrightarrow> 0 < v \<Longrightarrow> d < B \<Longrightarrow> radix B (v * B + d) = radix B v @ [d]"
proof -
  assume a: "2 \<le> B" "0 < v" "d < B"
  then have "B \<le> v * B + d" by (cases v) auto
  with a show ?thesis by (subst radix.simps) auto
qed

lemma radix_nonempty [simp]: "radix B n \<noteq> []"
  by (subst radix.simps) auto

lemma radix_val_snoc: "radix_val B (ds @ [d]) = radix_val B ds * B + d"
  by (simp add: radix_val_def)

lemma radix_val_single [simp]: "radix_val B [d] = d"
  by (simp add: radix_val_def)

lemma radix_val_radix [simp]: "2 \<le> B \<Longrightarrow> radix_val B (radix B n) = n"
proof (induction B n rule: radix.induct)
  case (1 B n)
  then show ?case by (subst radix.simps) (auto simp: radix_val_snoc)
qed

lemma radix_inj: "2 \<le> B \<Longrightarrow> radix B m = radix B n \<longleftrightarrow> m = n"
  by (metis radix_val_radix)

lemma radix_digits: "2 \<le> B \<Longrightarrow> d \<in> set (radix B n) \<Longrightarrow> d < B"
proof (induction B n rule: radix.induct)
  case (1 B n)
  then show ?case by (cases "n < B") (auto simp: radix.simps [of B n])
qed

lemma radix_val_append_le: "radix_val B xs \<le> radix_val B (xs @ ys)" if "2 \<le> B"
proof (induction ys rule: rev_induct)
  case (snoc y ys)
  have "radix_val B (xs @ ys) \<le> radix_val B (xs @ ys) * B" using that by simp
  also have "\<dots> \<le> radix_val B ((xs @ ys) @ [y])" by (simp only: radix_val_snoc)
  finally show ?case using snoc by (simp only: append.assoc) 
qed simp

lemma radix_hd_0: "2 \<le> B \<Longrightarrow> hd (radix B n) = 0 \<Longrightarrow> n = 0"
proof (induction B n rule: radix.induct)
  case (1 B n)
  show ?case
  proof (cases "n < B")
    case True
    with 1 show ?thesis by (simp add: radix_small)
  next
    case False
    with 1 have "n div B = 0" by (simp add: radix.simps [of B n])
    with False 1 show ?thesis by (simp add: div_eq_0_iff)
  qed
qed

text \<open>Reading one more digit of a number whose first digits are those of \<open>v\<close>.\<close>

lemma radix_next:
  assumes B: "2 \<le> B" and eq: "radix B v @ d # q = radix B w"
  shows "0 < v" and "d < B" and "v * B + d \<le> w" and "radix B (v * B + d) = radix B v @ [d]"
proof -
  show d: "d < B" using radix_digits [OF B, of d w] eq by (metis in_set_conv_decomp)
  show v: "0 < v"
  proof (rule ccontr)
    assume "\<not> 0 < v"
    then have "radix B v = [0]" using B by (simp add: radix_small)
    with eq have hd: "hd (radix B w) = 0" by (metis append_Cons list.sel(1))
    then have "w = 0" using radix_hd_0 B by blast
    then have "radix B w = [0]" using B by (simp add: radix_small)
    with eq \<open>radix B v = [0]\<close> show False by simp
  qed
  show snoc: "radix B (v * B + d) = radix B v @ [d]" using B v d by (rule radix_snoc)
  have "v * B + d = radix_val B (radix B v @ [d])" using B by (simp flip: snoc)
  also have "\<dots> \<le> radix_val B ((radix B v @ [d]) @ q)" using B by (rule radix_val_append_le)
  also have "\<dots> = w" using B eq by simp
  finally show "v * B + d \<le> w" .
qed

lemma radix_first:
  assumes B: "2 \<le> B" and eq: "d # q = radix B w"
  shows "d < B" and "d \<le> w" and "radix B d = [d]" and "q \<noteq> [] \<Longrightarrow> 0 < d"
proof -
  show d: "d < B" using radix_digits [OF B, of d w] eq by (metis list.set_intros(1))
  then show dd: "radix B d = [d]" by (rule radix_small)
  have "radix_val B [d] \<le> radix_val B ([d] @ q)" using B by (rule radix_val_append_le)
  with eq B show "d \<le> w" by simp
  show "0 < d" if ne: "q \<noteq> []"
  proof -
    obtain d' q' where "q = d' # q'" using ne by (cases q) auto
    with eq dd have "radix B d @ d' # q' = radix B w" by simp
    then show ?thesis using radix_next(1) [OF B] by blast
  qed
qed

end
