(* ===== verification/Cbs_Numbers.thy ===== *)
theory Cbs_Numbers
  imports Cbs_Core Radix
begin

text \<open>
  crypto/bytestring/cbs.c, the two number formats of unbounded length: base-128 integers
  (DER high tag numbers and OID components) and decimal numbers. Both readers accept
  exactly the minimal encodings of the 64-bit values, which is what the lemmas show.
\<close>

section \<open>Base-128 integers\<close>

lemma CBS_get_u8_shrinks: "CBS_get_u8 cbs = (Ok b, rest) \<Longrightarrow> cbs = b # rest"
  by (auto simp: CBS_get_u8_eq split: list.splits)

function parse_base128_loop :: "u64 \<Rightarrow> (CBS, u64) op" where
  "parse_base128_loop v cbs =
     (case CBS_get_u8 cbs of
        (Ok b, cbs') \<Rightarrow>
          if drop_bit (64 - 7) v \<noteq> 0 then (Err, cbs')
          else if v = 0 \<and> b = 0x80 then (Err, cbs')
          else (let v' = push_bit 7 v OR ucast (b AND 0x7f)
                in if b AND 0x80 \<noteq> 0 then parse_base128_loop v' cbs' else (Ok v', cbs'))
      | (Err, cbs') \<Rightarrow> (Err, cbs')
      | (Abort, cbs') \<Rightarrow> (Abort, cbs'))"
  by pat_completeness auto
termination
  by (relation "measure (\<lambda>(v, cbs). CBS_len cbs)") (auto dest!: CBS_get_u8_shrinks [OF sym])

definition parse_base128_integer :: "(CBS, u64) op" where
  "parse_base128_integer = parse_base128_loop 0"

declare parse_base128_loop.simps [simp del]

text \<open>The minimal encoding: the high bit of every byte but the last is set.\<close>

definition b128_hi :: "nat \<Rightarrow> byte" where
  "b128_hi d = of_nat (128 + d)"

definition b128_enc :: "nat \<Rightarrow> byte list" where
  "b128_enc n = (let ds = radix 128 n in map b128_hi (butlast ds) @ [of_nat (last ds)])"

text \<open>What has been read when the loop is at \<open>v\<close>.\<close>

definition b128_read :: "nat \<Rightarrow> byte list" where
  "b128_read v = (if v = 0 then [] else map b128_hi (radix 128 v))"

lemma byte_of_nat_unat_mod: "128 \<le> unat (b :: byte) \<Longrightarrow> b128_hi (unat b mod 128) = b"
  and byte_of_nat_unat_low: "unat (b :: byte) < 128 \<Longrightarrow> of_nat (unat b mod 128) = b"
proof -
  assume "128 \<le> unat b"
  then have "unat b mod 128 = unat b - 128"
    using unat_lt_256 [of b] by (simp add: le_mod_geq)
  with \<open>128 \<le> unat b\<close> have "128 + unat b mod 128 = unat b" by simp
  then show "b128_hi (unat b mod 128) = b" by (simp add: b128_hi_def del: of_nat_add)
qed simp

lemma unat_b128_hi: "d < 128 \<Longrightarrow> unat (b128_hi d) = 128 + d"
  by (simp add: b128_hi_def del: of_nat_add)

lemma parse_base128_loop_Nil: "parse_base128_loop v [] = (Err, [])"
  by (simp add: parse_base128_loop.simps CBS_get_u8_eq)

lemma parse_base128_loop_Cons:
  "parse_base128_loop v (b # cbs) =
     (if 2 ^ 57 \<le> unat v \<or> (v = 0 \<and> b = 0x80) then (Err, cbs)
      else if 128 \<le> unat b
      then parse_base128_loop (of_nat (unat v * 128 + unat b mod 128)) cbs
      else (Ok (of_nat (unat v * 128 + unat b mod 128)), cbs))"
proof (cases "unat v < 2 ^ 57")
  case True
  then have "push_bit 7 v OR ucast (b AND 0x7f) = of_nat (unat v * 128 + unat b mod 128)"
    using push7_or [OF True, of b] by (metis of_nat_unat ucast_id)
  moreover have "drop_bit (64 - 7) v = 0" using True u64_drop_bit_0 [of 57 v] by simp
  ultimately show ?thesis using True
    by (subst parse_base128_loop.simps) (auto simp: CBS_get_u8_eq byte_and_80 Let_def)
next
  case False
  then have "drop_bit (64 - 7) v \<noteq> 0" using u64_drop_bit_0 [of 57 v] by simp
  with False show ?thesis by (subst parse_base128_loop.simps) (auto simp: CBS_get_u8_eq)
qed

lemma b128_step_unat:
  "unat v < 2 ^ 57 \<Longrightarrow>
     unat (of_nat (unat v * 128 + unat (b :: byte) mod 128) :: u64) = unat v * 128 + unat b mod 128"
  for v :: u64
  using push7_or [of v b] by (metis of_nat_unat ucast_id)

lemma b128_read_snoc:
  "0 < v \<or> 0 < d \<Longrightarrow> d < 128 \<Longrightarrow> b128_read (v * 128 + d) = b128_read v @ [b128_hi d]"
  by (cases "v = 0") (auto simp: b128_read_def radix_snoc radix_small)

lemma b128_enc_snoc: "d < 128 \<Longrightarrow> b128_enc (v * 128 + d) = b128_read v @ [of_nat d]"
  by (cases "v = 0") (auto simp: b128_read_def b128_enc_def radix_snoc radix_small Let_def)

lemma parse_base128_loop_sound:
  "parse_base128_loop v cbs = (Ok w, rest) \<Longrightarrow>
     \<exists>q. cbs = q @ rest \<and> b128_read (unat v) @ q = b128_enc (unat w)"
proof (induction cbs arbitrary: v)
  case Nil
  then show ?case by (simp add: parse_base128_loop_Nil)
next
  case (Cons b cbs)
  define v' where "v' = (of_nat (unat v * 128 + unat b mod 128) :: u64)"
  from Cons.prems have v: "unat v < 2 ^ 57" and nz: "\<not> (v = 0 \<and> b = 0x80)"
    by (auto simp: parse_base128_loop_Cons split: if_splits)
  have v': "unat v' = unat v * 128 + unat b mod 128"
    using b128_step_unat [OF v, of b] by (simp add: v'_def)
  show ?case
  proof (cases "128 \<le> unat b")
    case True
    with Cons.prems v nz have "parse_base128_loop v' cbs = (Ok w, rest)"
      by (simp add: parse_base128_loop_Cons v'_def)
    from Cons.IH [OF this] obtain q
      where q: "cbs = q @ rest" "b128_read (unat v') @ q = b128_enc (unat w)" by blast
    have "0 < unat v \<or> 0 < unat b mod 128"
    proof (rule ccontr)
      assume "\<not> ?thesis"
      then have "v = 0" and "b = b128_hi 0"
        using byte_of_nat_unat_mod [OF True] by (simp_all add: unat_eq_0)
      with nz show False by (simp add: b128_hi_def)
    qed
    then have "b128_read (unat v') = b128_read (unat v) @ [b]"
      using True by (simp add: v' b128_read_snoc byte_of_nat_unat_mod)
    with q show ?thesis by (intro exI [of _ "b # q"]) simp
  next
    case False
    with Cons.prems v nz have "w = v'" and "rest = cbs"
      by (simp_all add: parse_base128_loop_Cons v'_def split: if_splits)
    then have "b128_enc (unat w) = b128_read (unat v) @ [b]"
      using False by (simp add: v' b128_enc_snoc byte_of_nat_unat_low)
    with \<open>rest = cbs\<close> show ?thesis by (intro exI [of _ "[b]"]) simp
  qed
qed

text \<open>The digits of an encoding, and where its high bits are.\<close>

lemma b128_enc_digits:
  "map (\<lambda>b. unat b mod 128) (b128_enc n) = radix 128 n"
proof -
  define ds where "ds = radix 128 n"
  have small: "\<forall>d\<in>set ds. d < 128" using radix_digits [of 128] by (simp add: ds_def)
  have ne: "ds \<noteq> []" by (simp add: ds_def)
  have "map (\<lambda>b. unat b mod 128) (map b128_hi (butlast ds)) = butlast ds"
    using small by (auto simp: unat_b128_hi intro!: map_idI dest: in_set_butlastD)
  moreover have "last ds < 128" using small ne by simp
  ultimately have "map (\<lambda>b. unat b mod 128) (map b128_hi (butlast ds) @ [of_nat (last ds)]) = ds"
    using ne by simp
  then show ?thesis by (simp add: b128_enc_def Let_def ds_def)
qed

lemma b128_enc_high:
  "b128_enc n = p @ b # q \<Longrightarrow> 128 \<le> unat b \<longleftrightarrow> q \<noteq> []"
proof -
  assume eq: "b128_enc n = p @ b # q"
  define ds where "ds = radix 128 n"
  have small: "\<forall>d\<in>set ds. d < 128" using radix_digits [of 128] by (simp add: ds_def)
  have ne: "ds \<noteq> []" by (simp add: ds_def)
  have enc: "map b128_hi (butlast ds) @ [of_nat (last ds)] = p @ b # q"
    using eq by (simp add: b128_enc_def Let_def ds_def)
  show ?thesis
  proof (cases "q = []")
    case True
    with enc have "b = of_nat (last ds)" by simp
    moreover have "last ds < 128" using small ne by simp
    ultimately show ?thesis using True by simp
  next
    case False
    then obtain q' l where "q = q' @ [l]" by (cases q rule: rev_cases) auto
    with enc have "map b128_hi (butlast ds) = p @ b # q'" by simp
    then have "b \<in> set (map b128_hi (butlast ds))" by simp
    then obtain d where "b = b128_hi d" "d < 128" using small by (auto dest: in_set_butlastD)
    with False show ?thesis by (simp add: unat_b128_hi)
  qed
qed

lemma parse_base128_loop_complete:
  "b128_read (unat v) @ q = b128_enc (unat w) \<Longrightarrow> q \<noteq> [] \<Longrightarrow>
     parse_base128_loop v (q @ rest) = (Ok w, rest)"
proof (induction q arbitrary: v)
  case (Cons b q)
  define d where "d = unat b mod 128"
  define v' where "v' = (of_nat (unat v * 128 + d) :: u64)"
  have digits: "map (\<lambda>b. unat b mod 128) (b128_read (unat v)) @ d # map (\<lambda>b. unat b mod 128) q =
      radix 128 (unat w)"
    using arg_cong [OF Cons.prems(1), of "map (\<lambda>b. unat b mod 128)"]
    by (simp add: b128_enc_digits d_def)
  have rd: "map (\<lambda>b. unat b mod 128) (b128_read n) = (if n = 0 then [] else radix 128 n)" for n
    using radix_digits [of 128 _ n] by (auto simp: b128_read_def unat_b128_hi intro!: map_idI)
  have bound: "unat v * 128 + d \<le> unat w" and first: "q \<noteq> [] \<Longrightarrow> 0 < unat v \<or> 0 < d"
    using digits radix_first [of 128 d _ "unat w"] radix_next(3) [of 128 "unat v" d _ "unat w"]
    by (auto simp: rd split: if_splits)
  have "unat v * 128 < 2 ^ 64" using bound unat_u64 [of w] by simp
  then have v: "unat v < 2 ^ 57" by simp
  have v': "unat v' = unat v * 128 + d"
    using b128_step_unat [OF v, of b] by (simp add: v'_def d_def)
  have d: "d < 128" by (simp add: d_def)
  have high: "128 \<le> unat b \<longleftrightarrow> q \<noteq> []"
    using b128_enc_high Cons.prems(1) by metis
  have nz: "\<not> (v = 0 \<and> b = 0x80)"
  proof
    assume *: "v = 0 \<and> b = 0x80"
    then have "d = 0" and "128 \<le> unat b" by (simp_all add: d_def)
    with first high * show False by simp
  qed
  show ?case
  proof (cases "q = []")
    case True
    then have "b128_enc (unat w) = b128_enc (unat v')"
      using Cons.prems(1) high d byte_of_nat_unat_low [of b]
      by (simp add: v' b128_enc_snoc d_def del: of_nat_unat)
    then have "radix 128 (unat w) = radix 128 (unat v')" by (metis b128_enc_digits)
    then have "w = v'" by (simp add: radix_inj word_unat_eq_iff)
    with True high v nz show ?thesis
      by (simp add: parse_base128_loop_Cons v'_def d_def)
  next
    case False
    then have "b128_read (unat v') = b128_read (unat v) @ [b]"
      using first high d byte_of_nat_unat_mod [of b] by (simp add: v' b128_read_snoc d_def)
    with Cons.prems(1) have "b128_read (unat v') @ q = b128_enc (unat w)" by simp
    from Cons.IH [OF this False] False high v nz show ?thesis
      by (simp add: parse_base128_loop_Cons v'_def d_def)
  qed
qed simp

lemma b128_enc_nonempty [simp]: "b128_enc n \<noteq> []"
  by (simp add: b128_enc_def Let_def)

lemma parse_base128_integer_iff:
  "parse_base128_integer cbs = (Ok v, rest) \<longleftrightarrow> cbs = b128_enc (unat v) @ rest"
  using parse_base128_loop_sound [of 0 cbs v rest] parse_base128_loop_complete [of 0 _ v rest]
  by (auto simp: parse_base128_integer_def b128_read_def)

lemma parse_base128_loop_safe: "fst (parse_base128_loop v cbs) \<noteq> Abort"
  by (induction cbs arbitrary: v) (auto simp: parse_base128_loop_Nil parse_base128_loop_Cons)

lemma parse_base128_loop_front: "\<exists>p. cbs = p @ snd (parse_base128_loop v cbs)"
proof (induction cbs arbitrary: v)
  case (Cons b cbs)
  then obtain p where "cbs = p @ snd (parse_base128_loop (of_nat (unat v * 128 + unat b mod 128)) cbs)"
    by blast
  then show ?case
    by (auto simp: parse_base128_loop_Cons intro: exI [of _ "[b]"] exI [of _ "b # p"])
qed (simp add: parse_base128_loop_Nil)

interpretation base128: safe_byte_codec parse_base128_integer "\<lambda>v. b128_enc (unat v)" "\<lambda>_. True"
  by unfold_locales
    (auto simp: parse_base128_integer_iff, auto simp: parse_base128_integer_def
       parse_base128_loop_front parse_base128_loop_safe)

section \<open>Decimal numbers\<close>

definition UINT64_MAX :: u64 where
  "UINT64_MAX = 0xffffffffffffffff"

function get_u64_decimal_loop :: "u64 \<Rightarrow> bool \<Rightarrow> (CBS, u64 \<times> bool) op" where
  "get_u64_decimal_loop v seen_digit cbs =
     (if CBS_len cbs \<noteq> 0 then
        (let c = cbs ! 0 in
         if \<not> OPENSSL_isdigit c then (Ok (v, seen_digit), cbs)
         else
           (let cbs' = snd (CBS_skip 1 cbs) in
            if (v = 0 \<and> seen_digit) \<or>
               v > UINT64_MAX div 10 \<or>
               v * 10 > UINT64_MAX - (ucast c - 0x30)
            then (Err, cbs')
            else get_u64_decimal_loop (v * 10 + (ucast c - 0x30)) True cbs'))
      else (Ok (v, seen_digit), cbs))"
  by pat_completeness auto
termination
  by (relation "measure (\<lambda>(v, s, cbs). CBS_len cbs)") (auto simp: CBS_skip_eq)

definition CBS_get_u64_decimal :: "(CBS, u64) op" where
  "CBS_get_u64_decimal =
     op_bind (get_u64_decimal_loop 0 False) (\<lambda>(v, seen_digit).
       op_then (op_require seen_digit) (op_ret v))"

declare get_u64_decimal_loop.simps [simp del]

text \<open>The decimal digits of a number, as \<open>snprintf\<close> prints it.\<close>

definition dec_digit :: "nat \<Rightarrow> byte" where
  "dec_digit d = of_nat (0x30 + d)"

definition dec_enc :: "nat \<Rightarrow> byte list" where
  "dec_enc n = map dec_digit (radix 10 n)"

lemma isdigit_unat: "OPENSSL_isdigit c \<longleftrightarrow> 48 \<le> unat c \<and> unat c \<le> 57"
  by (simp add: OPENSSL_isdigit_def word_le_nat_alt)

lemma unat_dec_digit: "d < 10 \<Longrightarrow> unat (dec_digit d) = 48 + d"
  by (simp add: dec_digit_def del: of_nat_add)

lemma isdigit_dec_digit: "d < 10 \<Longrightarrow> OPENSSL_isdigit (dec_digit d)"
  by (simp add: isdigit_unat unat_dec_digit)

lemma dec_digit_of_isdigit: "OPENSSL_isdigit c \<Longrightarrow> dec_digit (unat c - 48) = c"
  by (simp add: isdigit_unat dec_digit_def del: of_nat_add)

lemma dec_enc_digits: "map (\<lambda>c. unat c - 48) (dec_enc n) = radix 10 n"
  using radix_digits [of 10 _ n] by (auto simp: dec_enc_def unat_dec_digit intro!: map_idI)

lemma dec_enc_inj: "dec_enc m = dec_enc n \<longleftrightarrow> m = n"
  using radix_inj [of 10 m n] dec_enc_digits [of m] dec_enc_digits [of n] by auto

lemma dec_enc_isdigit: "c \<in> set (dec_enc n) \<Longrightarrow> OPENSSL_isdigit c"
  using radix_digits [of 10 _ n] by (auto simp: dec_enc_def isdigit_dec_digit)

lemma dec_enc_snoc: "0 < v \<Longrightarrow> d < 10 \<Longrightarrow> dec_enc (v * 10 + d) = dec_enc v @ [dec_digit d]"
  by (simp add: dec_enc_def radix_snoc)

lemma dec_enc_small: "d < 10 \<Longrightarrow> dec_enc d = [dec_digit d]"
  by (simp add: dec_enc_def radix_small)

lemma dec_enc_nonempty [simp]: "dec_enc n \<noteq> []"
  by (simp add: dec_enc_def)

lemma unat_digit_u64: "OPENSSL_isdigit c \<Longrightarrow> unat (ucast c - 0x30 :: u64) = unat c - 48"
  by (subst unat_sub) (auto simp: isdigit_unat word_le_nat_alt unat_ucast_up)

lemma decimal_guard:
  assumes "OPENSSL_isdigit c"
  shows "(v > UINT64_MAX div 10 \<or> v * 10 > UINT64_MAX - (ucast c - 0x30)) \<longleftrightarrow>
     2 ^ 64 \<le> unat v * 10 + (unat c - 48)"
proof -
  have d: "unat c - 48 < 10" using assms by (auto simp: isdigit_unat)
  have q: "unat (UINT64_MAX div 10) = 1844674407370955161"
    by (simp add: UINT64_MAX_def unat_div_distrib)
  have le: "x \<le> UINT64_MAX" for x
    using unat_u64 [of x] by (simp add: UINT64_MAX_def word_le_nat_alt)
  have m: "unat (UINT64_MAX - (ucast c - 0x30)) = 18446744073709551615 - (unat c - 48)"
    using assms by (subst unat_sub [OF le]) (simp_all add: UINT64_MAX_def unat_digit_u64)
  show ?thesis
  proof (cases "unat v \<le> 1844674407370955161")
    case True
    then have "unat (v * 10) = unat v * 10"
      by (simp add: unat_word_ariths)
    with True d q m show ?thesis by (simp add: word_less_nat_alt) linarith
  next
    case False
    with q show ?thesis by (simp add: word_less_nat_alt)
  qed
qed

lemma get_u64_decimal_loop_Nil: "get_u64_decimal_loop v s [] = (Ok (v, s), [])"
  by (simp add: get_u64_decimal_loop.simps)

lemma get_u64_decimal_loop_Cons:
  "get_u64_decimal_loop v s (c # cbs) =
     (if \<not> OPENSSL_isdigit c then (Ok (v, s), c # cbs)
      else if (v = 0 \<and> s) \<or> 2 ^ 64 \<le> unat v * 10 + (unat c - 48) then (Err, cbs)
      else get_u64_decimal_loop (of_nat (unat v * 10 + (unat c - 48))) True cbs)"
proof (cases "OPENSSL_isdigit c")
  case True
  have "v * 10 + (ucast c - 0x30) = of_nat (unat v * 10 + (unat c - 48))"
  proof -
    have "(ucast c - 0x30 :: u64) = of_nat (unat c - 48)"
      using unat_digit_u64 [OF True] by (metis of_nat_unat ucast_id)
    then show ?thesis by simp
  qed
  then show ?thesis
    by (subst get_u64_decimal_loop.simps)
      (use True decimal_guard [OF True, of v] in
        \<open>auto simp: Let_def CBS_skip_eq simp del: of_nat_add of_nat_mult\<close>)
qed (simp add: get_u64_decimal_loop.simps)

lemma decimal_step_unat:
  "unat v * 10 + d < 2 ^ 64 \<Longrightarrow> unat (of_nat (unat v * 10 + d) :: u64) = unat v * 10 + d"
  by (simp add: unsigned_of_nat take_bit_nat_eq_self del: of_nat_add of_nat_mult)

lemma get_u64_decimal_loop_digit:
  assumes "OPENSSL_isdigit c" and "unat c - 48 = d"
  shows "(v = 0 \<and> s) \<or> 2 ^ 64 \<le> unat v * 10 + d \<Longrightarrow>
      get_u64_decimal_loop v s (c # cbs) = (Err, cbs)"
    and "\<not> (v = 0 \<and> s) \<Longrightarrow> unat v * 10 + d < 2 ^ 64 \<Longrightarrow>
      get_u64_decimal_loop v s (c # cbs) = get_u64_decimal_loop (of_nat (unat v * 10 + d)) True cbs"
  unfolding get_u64_decimal_loop_Cons assms(2) not_less [symmetric] using assms(1) by auto

text \<open>What has been read when the loop is at \<open>v\<close>.\<close>

definition dec_read :: "nat \<Rightarrow> bool \<Rightarrow> byte list" where
  "dec_read v seen = (if seen then dec_enc v else [])"

definition decimal_end :: "CBS \<Rightarrow> bool" where
  "decimal_end rest \<longleftrightarrow> (case rest of [] \<Rightarrow> True | c # _ \<Rightarrow> \<not> OPENSSL_isdigit c)"

lemma dec_read_snoc:
  "(seen \<longrightarrow> 0 < v) \<Longrightarrow> (\<not> seen \<longrightarrow> v = 0) \<Longrightarrow> OPENSSL_isdigit c \<Longrightarrow>
     dec_enc (v * 10 + (unat c - 48)) = dec_read v seen @ [c]"
proof -
  assume a: "seen \<longrightarrow> 0 < v" "\<not> seen \<longrightarrow> v = 0" "OPENSSL_isdigit c"
  obtain d where d: "unat c - 48 = d" "c = dec_digit d" "d < 10"
  proof (rule that [of "unat c - 48"])
    show "c = dec_digit (unat c - 48)" using dec_digit_of_isdigit [OF a(3)] by simp
  qed (use a(3) in \<open>auto simp: isdigit_unat\<close>)
  show ?thesis unfolding d(1) using a(1,2) d(2,3)
    by (cases seen) (simp_all add: dec_read_def dec_enc_snoc dec_enc_small)
qed

lemma get_u64_decimal_loop_sound:
  "get_u64_decimal_loop v seen cbs = (Ok (w, s), rest) \<Longrightarrow> (\<not> seen \<longrightarrow> v = 0) \<Longrightarrow>
     (\<exists>q. cbs = q @ rest \<and> dec_read (unat v) seen @ q = dec_read (unat w) s) \<and> decimal_end rest"
proof (induction cbs arbitrary: v seen)
  case Nil
  then show ?case by (simp add: get_u64_decimal_loop_Nil decimal_end_def)
next
  case (Cons c cbs)
  define d where "d = unat c - 48"
  define v' where "v' = (of_nat (unat v * 10 + d) :: u64)"
  show ?case
  proof (cases "OPENSSL_isdigit c")
    case False
    with Cons.prems show ?thesis by (auto simp: get_u64_decimal_loop_Cons decimal_end_def)
  next
    case True
    note digit = get_u64_decimal_loop_digit [OF True d_def [symmetric]]
    have "\<not> ((v = 0 \<and> seen) \<or> 2 ^ 64 \<le> unat v * 10 + d)"
      using Cons.prems(1) digit(1) by fastforce
    then have nz: "\<not> (v = 0 \<and> seen)" and lt: "unat v * 10 + d < 2 ^ 64" by auto
    have rec: "get_u64_decimal_loop v' True cbs = (Ok (w, s), rest)"
      using Cons.prems(1) unfolding digit(2) [OF nz lt] v'_def .
    have "dec_enc (unat v * 10 + (unat c - 48)) = dec_read (unat v) seen @ [c]"
      using nz Cons.prems(2) True by (intro dec_read_snoc) (auto simp: unat_gt_0)
    then have "dec_read (unat v') True = dec_read (unat v) seen @ [c]"
      unfolding v'_def decimal_step_unat [OF lt] by (simp only: d_def dec_read_def if_True)
    with Cons.IH [OF rec] obtain q where "cbs = q @ rest"
      and "dec_read (unat v) seen @ c # q = dec_read (unat w) s" and "decimal_end rest" by auto
    then show ?thesis by (intro conjI exI [of _ "c # q"]) simp_all
  qed
qed

lemma get_u64_decimal_loop_complete:
  "dec_read (unat v) seen @ q = dec_enc (unat w) \<Longrightarrow> (\<not> seen \<longrightarrow> v = 0) \<Longrightarrow> decimal_end rest \<Longrightarrow>
     (seen \<or> q \<noteq> []) \<Longrightarrow> get_u64_decimal_loop v seen (q @ rest) = (Ok (w, True), rest)"
proof (induction q arbitrary: v seen)
  case Nil
  then have "v = w" and seen by (auto simp: dec_read_def dec_enc_inj word_unat_eq_iff)
  with Nil show ?case
    by (cases rest) (simp_all add: get_u64_decimal_loop_Nil get_u64_decimal_loop_Cons decimal_end_def)
next
  case (Cons c q)
  define d where "d = unat c - 48"
  define v' where "v' = (of_nat (unat v * 10 + d) :: u64)"
  have "c \<in> set (dec_enc (unat w))" using Cons.prems(1) by (metis in_set_conv_decomp)
  then have c: "OPENSSL_isdigit c" by (rule dec_enc_isdigit)
  have digits: "map (\<lambda>c. unat c - 48) (dec_read (unat v) seen) @ d # map (\<lambda>c. unat c - 48) q =
      radix 10 (unat w)"
    using arg_cong [OF Cons.prems(1), of "map (\<lambda>c. unat c - 48)"]
    by (simp add: dec_enc_digits d_def)
  have rd: "map (\<lambda>c. unat c - 48) (dec_read n s) = (if s then radix 10 n else [])" for n s
    by (simp add: dec_read_def dec_enc_digits)
  have bound: "unat v * 10 + d \<le> unat w" and nz: "seen \<Longrightarrow> 0 < unat v"
    using digits Cons.prems(2) radix_first(2) [of 10 d _ "unat w"]
      radix_next(1,3) [of 10 "unat v" d _ "unat w"]
    by (auto simp: rd split: if_splits)
  then have lt: "unat v * 10 + d < 2 ^ 64" using unat_u64 [of w] by simp
  have "dec_enc (unat v * 10 + (unat c - 48)) = dec_read (unat v) seen @ [c]"
    using nz Cons.prems(2) c by (intro dec_read_snoc) auto
  then have "dec_enc (unat v') = dec_read (unat v) seen @ [c]"
    unfolding v'_def decimal_step_unat [OF lt] by (simp only: d_def)
  with Cons.prems(1) have "dec_read (unat v') True @ q = dec_enc (unat w)"
    by (simp add: dec_read_def)
  from Cons.IH [OF this] Cons.prems have "get_u64_decimal_loop v' True (q @ rest) = (Ok (w, True), rest)"
    by simp
  moreover have "\<not> (v = 0 \<and> seen)" using nz by auto
  ultimately show ?case
    using get_u64_decimal_loop_digit(2) [OF c d_def [symmetric] _ lt, of seen "q @ rest"]
    by (simp add: v'_def del: of_nat_add)
qed

lemma CBS_get_u64_decimal_iff:
  "CBS_get_u64_decimal cbs = (Ok v, rest) \<longleftrightarrow>
     cbs = dec_enc (unat v) @ rest \<and> decimal_end rest"
proof
  assume "CBS_get_u64_decimal cbs = (Ok v, rest)"
  then have "get_u64_decimal_loop 0 False cbs = (Ok (v, True), rest)"
    by (auto simp: CBS_get_u64_decimal_def op_bind_Ok_iff op_then_Ok_iff split: if_splits)
  from get_u64_decimal_loop_sound [OF this]
  show "cbs = dec_enc (unat v) @ rest \<and> decimal_end rest" by (auto simp: dec_read_def)
next
  assume "cbs = dec_enc (unat v) @ rest \<and> decimal_end rest"
  then have "get_u64_decimal_loop 0 False cbs = (Ok (v, True), rest)"
    using get_u64_decimal_loop_complete [of 0 False "dec_enc (unat v)" v rest]
    by (simp add: dec_read_def)
  then show "CBS_get_u64_decimal cbs = (Ok v, rest)"
    by (simp add: CBS_get_u64_decimal_def op_defs)
qed

section \<open>Properties\<close>

text \<open>
  The base-128 reader accepts exactly the minimal base-128 encoding of a 64-bit value:
  no leading zero group, and no value that overflows.
\<close>

theorem base128_read: "parse_base128_integer cbs = (Ok v, rest) \<longleftrightarrow> cbs = b128_enc (unat v) @ rest"
  by (rule parse_base128_integer_iff)

text \<open>
  The decimal reader accepts exactly the digits of a 64-bit value without leading zeros,
  and stops at the first character that is no digit.
\<close>

theorem decimal_read:
  "CBS_get_u64_decimal cbs = (Ok v, rest) \<longleftrightarrow> cbs = dec_enc (unat v) @ rest \<and> decimal_end rest"
  by (rule CBS_get_u64_decimal_iff)

end
