(* ===== verification/Cbs_Asn1.thy ===== *)
theory Cbs_Asn1
  imports Cbs_Numbers
begin

text \<open>
  crypto/bytestring/cbs.c, the ASN.1 layer: tags, elements in DER or BER form, and the
  readers of typed values built on them. The lemmas show that the DER reader accepts
  exactly one encoding of every element.
\<close>

type_synonym CBS_ASN1_TAG = u32

abbreviation "CBS_ASN1_TAG_SHIFT \<equiv> (24 :: nat)"

definition CBS_ASN1_CONSTRUCTED :: CBS_ASN1_TAG where
  "CBS_ASN1_CONSTRUCTED = push_bit CBS_ASN1_TAG_SHIFT 0x20"

definition CBS_ASN1_TAG_NUMBER_MASK :: CBS_ASN1_TAG where
  "CBS_ASN1_TAG_NUMBER_MASK = push_bit (5 + CBS_ASN1_TAG_SHIFT) 1 - 1"

abbreviation "CBS_ASN1_BOOLEAN \<equiv> (0x1 :: CBS_ASN1_TAG)"
abbreviation "CBS_ASN1_INTEGER \<equiv> (0x2 :: CBS_ASN1_TAG)"
abbreviation "CBS_ASN1_BITSTRING \<equiv> (0x3 :: CBS_ASN1_TAG)"
abbreviation "CBS_ASN1_OCTETSTRING \<equiv> (0x4 :: CBS_ASN1_TAG)"

section \<open>Tags\<close>

definition parse_asn1_tag :: "(CBS, CBS_ASN1_TAG) op" where
  "parse_asn1_tag =
     op_bind CBS_get_u8 (\<lambda>tag_byte.
       let tag = push_bit CBS_ASN1_TAG_SHIFT ((ucast tag_byte :: CBS_ASN1_TAG) AND 0xe0);
           tag_number = ucast (tag_byte AND 0x1f)
       in op_bind
            (if tag_number = 0x1f then
               op_bind parse_base128_integer (\<lambda>v.
                 if v > ucast CBS_ASN1_TAG_NUMBER_MASK \<or> v < 0x1f then op_fail
                 else op_ret (ucast v))
             else op_ret tag_number)
            (\<lambda>tag_number.
               let tag = tag OR tag_number
               in if tag AND NOT CBS_ASN1_CONSTRUCTED = 0 then op_fail else op_ret tag))"

section \<open>Elements\<close>

text \<open>The out-parameters of the element reader. \<open>elem_out\<close> includes the header.\<close>

record asn1_element =
  elem_out :: CBS
  elem_tag :: CBS_ASN1_TAG
  elem_header_len :: nat
  elem_ber_found :: bool
  elem_indefinite :: bool

definition cbs_get_any_asn1_element :: "bool \<Rightarrow> (CBS, asn1_element) op" where
  "cbs_get_any_asn1_element ber_ok =
     op_bind op_get (\<lambda>cbs.
     op_bind (op_run parse_asn1_tag cbs) (\<lambda>(tag, header).
     op_bind (op_run CBS_get_u8 header) (\<lambda>(length_byte, header).
       let header_len = CBS_len cbs - CBS_len header in
       if length_byte AND 0x80 = 0 then
         (let len = unat length_byte + header_len
          in op_bind (CBS_get_bytes len) (\<lambda>out.
               op_ret \<lparr>elem_out = out, elem_tag = tag, elem_header_len = header_len,
                 elem_ber_found = False, elem_indefinite = False\<rparr>))
       else
         (let num_bytes = unat (length_byte AND 0x7f) in
          if ber_ok \<and> tag AND CBS_ASN1_CONSTRUCTED \<noteq> 0 \<and> num_bytes = 0 then
            op_bind (CBS_get_bytes header_len) (\<lambda>out.
              op_ret \<lparr>elem_out = out, elem_tag = tag, elem_header_len = header_len,
                elem_ber_found = True, elem_indefinite = True\<rparr>)
          else if num_bytes = 0 \<or> num_bytes > 4 then op_fail
          else
            op_bind (op_run (cbs_get_u num_bytes) header) (\<lambda>(len64, header).
              if len64 < 128 \<and> \<not> ber_ok then op_fail
              else if drop_bit ((num_bytes - 1) * 8) len64 = 0 \<and> \<not> ber_ok then op_fail
              else
                (let ber_found = (len64 < 128 \<or> drop_bit ((num_bytes - 1) * 8) len64 = 0);
                     len = unat len64
                 in if size_add (size_add len header_len) num_bytes < len then op_fail
                    else
                      op_bind (CBS_get_bytes (size_add len (size_add header_len num_bytes))) (\<lambda>out.
                        op_ret \<lparr>elem_out = out, elem_tag = tag,
                          elem_header_len = header_len + num_bytes,
                          elem_ber_found = ber_found, elem_indefinite = False\<rparr>)))))))"

definition CBS_get_any_asn1_element :: "(CBS, CBS \<times> CBS_ASN1_TAG \<times> nat) op" where
  "CBS_get_any_asn1_element =
     op_bind (cbs_get_any_asn1_element False) (\<lambda>e.
       op_ret (elem_out e, elem_tag e, elem_header_len e))"

definition CBS_get_any_ber_asn1_element :: "(CBS, asn1_element) op" where
  "CBS_get_any_ber_asn1_element = cbs_get_any_asn1_element True"

definition CBS_get_any_asn1 :: "(CBS, CBS_ASN1_TAG \<times> CBS) op" where
  "CBS_get_any_asn1 =
     op_bind CBS_get_any_asn1_element (\<lambda>(out, tag, header_len).
       case CBS_skip header_len out of
         (Ok _, out') \<Rightarrow> op_ret (tag, out')
       | _ \<Rightarrow> op_abort)"

definition cbs_get_asn1 :: "CBS_ASN1_TAG \<Rightarrow> bool \<Rightarrow> (CBS, CBS) op" where
  "cbs_get_asn1 tag_value skip_header =
     op_bind CBS_get_any_asn1_element (\<lambda>(out, tag, header_len).
       if tag \<noteq> tag_value then op_fail
       else if skip_header then
         (case CBS_skip header_len out of
            (Ok _, out') \<Rightarrow> op_ret out'
          | _ \<Rightarrow> op_abort)
       else op_ret out)"

definition CBS_get_asn1 :: "CBS_ASN1_TAG \<Rightarrow> (CBS, CBS) op" where
  "CBS_get_asn1 tag_value = cbs_get_asn1 tag_value True"

definition CBS_get_asn1_element :: "CBS_ASN1_TAG \<Rightarrow> (CBS, CBS) op" where
  "CBS_get_asn1_element tag_value = cbs_get_asn1 tag_value False"

definition CBS_peek_asn1_tag :: "CBS \<Rightarrow> CBS_ASN1_TAG \<Rightarrow> bool" where
  "CBS_peek_asn1_tag cbs tag_value =
     (case parse_asn1_tag cbs of (Ok actual_tag, _) \<Rightarrow> tag_value = actual_tag | _ \<Rightarrow> False)"

section \<open>The encoding\<close>

definition asn1_tag_ok :: "CBS_ASN1_TAG \<Rightarrow> bool" where
  "asn1_tag_ok tag \<longleftrightarrow> tag AND NOT CBS_ASN1_CONSTRUCTED \<noteq> 0"

definition der_tag :: "CBS_ASN1_TAG \<Rightarrow> byte list" where
  "der_tag tag =
     (let tag_bits = ucast (drop_bit CBS_ASN1_TAG_SHIFT tag) AND 0xe0;
          tag_number = unat (tag AND CBS_ASN1_TAG_NUMBER_MASK)
      in if 31 \<le> tag_number then (tag_bits OR 0x1f) # b128_enc tag_number
         else [tag_bits OR of_nat tag_number])"

definition len_len :: "nat \<Rightarrow> nat" where
  "len_len n = (if n < 2 ^ 8 then 1 else if n < 2 ^ 16 then 2 else if n < 2 ^ 24 then 3 else 4)"

definition der_length :: "nat \<Rightarrow> byte list" where
  "der_length n =
     (if n < 128 then [of_nat n] else of_nat (128 + len_len n) # be_bytes (len_len n) n)"

definition der_header :: "CBS_ASN1_TAG \<Rightarrow> nat \<Rightarrow> byte list" where
  "der_header tag n = der_tag tag @ der_length n"

definition der_element :: "CBS_ASN1_TAG \<Rightarrow> byte list \<Rightarrow> byte list" where
  "der_element tag contents = der_header tag (length contents) @ contents"

section \<open>Tags as a codec\<close>

lemma tag_mask_bits: "CBS_ASN1_TAG_NUMBER_MASK = mask 29"
  by (simp add: CBS_ASN1_TAG_NUMBER_MASK_def mask_eq_exp_minus_1)

lemma tag_number_less: "unat (tag AND CBS_ASN1_TAG_NUMBER_MASK) < 2 ^ 29"
proof -
  have "tag AND CBS_ASN1_TAG_NUMBER_MASK = take_bit 29 tag"
    by (simp only: tag_mask_bits take_bit_eq_mask)
  then show ?thesis by (simp only: unat_take_bit_mod) simp
qed

lemma tag_number_id: "unat n < 2 ^ 29 \<Longrightarrow> n AND CBS_ASN1_TAG_NUMBER_MASK = n" for n :: u32
  unfolding tag_mask_bits
  by (simp only: take_bit_eq_mask [symmetric] word_unat_eq_iff unat_take_bit_mod mod_less)

lemma tag_number_bits: "unat n < 2 ^ 29 \<Longrightarrow> 29 \<le> k \<Longrightarrow> \<not> bit n k" for n :: u32
proof -
  assume "unat n < 2 ^ 29" "29 \<le> k"
  then have "n = n AND mask 29" using tag_number_id [of n] by (simp add: tag_mask_bits)
  then have "bit n k \<longleftrightarrow> bit (n AND mask 29) k" by simp
  with \<open>29 \<le> k\<close> show ?thesis by (simp add: bit_simps)
qed

text \<open>Splitting a tag into its leading bits and its number, and back.\<close>

lemma tag_split_bits:
  assumes "unat n < 2 ^ 29"
  shows "ucast (drop_bit 24 (push_bit 24 ((ucast (b :: byte) :: u32) AND 0xe0) OR n)) AND 0xe0 = b AND 0xe0"
    (is "?l = ?r")
proof (rule bit_word_eqI)
  fix k assume "k < LENGTH(8)"
  then have "k \<in> {0,1,2,3,4,5,6,7}" by simp arith
  then show "bit ?l k = bit ?r k"
    unfolding insert_iff empty_iff using tag_number_bits [OF assms]
    by (elim disjE) (simp_all add: bit_simps)
qed

lemma tag_split_number:
  assumes "unat n < 2 ^ 29"
  shows "(push_bit 24 ((ucast (b :: byte) :: u32) AND 0xe0) OR n) AND CBS_ASN1_TAG_NUMBER_MASK = n"
    (is "?l = ?r")
proof (rule bit_word_eqI)
  fix k assume "k < LENGTH(32)"
  then have "k \<in> {0,1,2,3,4,5,6,7,8,9,10,11,12,13,14,15,16,17,18,19,20,21,22,23,24,25,26,27,28,29,30,31}"
    by (intro nat_less_32_cases) simp
  then show "bit ?l k = bit ?r k"
    unfolding insert_iff empty_iff tag_mask_bits using tag_number_bits [OF assms]
    by (elim disjE) (simp_all add: bit_simps)
qed

lemma tag_join:
  "push_bit 24 ((ucast (ucast (drop_bit 24 tag) AND 0xe0 :: byte) :: u32) AND 0xe0)
     OR (tag AND CBS_ASN1_TAG_NUMBER_MASK) = tag" (is "?l = tag")
proof (rule bit_word_eqI)
  fix k assume "k < LENGTH(32)"
  then have "k \<in> {0,1,2,3,4,5,6,7,8,9,10,11,12,13,14,15,16,17,18,19,20,21,22,23,24,25,26,27,28,29,30,31}"
    by (intro nat_less_32_cases) simp
  then show "bit ?l k = bit tag k"
    unfolding insert_iff empty_iff tag_mask_bits
    by (elim disjE) (simp_all add: bit_simps)
qed

lemma byte_split_5: "(b AND 0xe0) OR (b AND 0x1f) = (b :: byte)" (is "?l = b")
proof (rule bit_word_eqI)
  fix k assume "k < LENGTH(8)"
  then have "k \<in> {0,1,2,3,4,5,6,7}" by simp arith
  then show "bit ?l k = bit b k"
    unfolding insert_iff empty_iff by (elim disjE) (simp_all add: bit_simps)
qed

lemma byte_and_1f: "unat ((b :: byte) AND 0x1f) < 32"
proof -
  have "b AND 0x1f = take_bit 5 b" by (simp add: take_bit_eq_mask mask_eq_exp_minus_1)
  then show ?thesis by (simp only: unat_take_bit_mod) simp
qed

lemma byte_1f_val: "(ucast ((b :: byte) AND 0x1f) :: u32) = 0x1f \<longleftrightarrow> b AND 0x1f = 0x1f"
  by (simp add: word_unat_eq_iff unat_ucast_up)

lemma byte_tag_low:
  "(b AND 0xe0 :: byte) AND 0xe0 = b AND 0xe0"
  by (simp add: and.assoc)

text \<open>The encoding of a tag from its first byte and its number.\<close>

lemma der_tag_join:
  assumes "unat n < 2 ^ 29"
  shows "der_tag (push_bit 24 ((ucast (b :: byte) :: u32) AND 0xe0) OR n) =
     (if 31 \<le> unat n then ((b AND 0xe0) OR 0x1f) # b128_enc (unat n)
      else [(b AND 0xe0) OR of_nat (unat n)])"
  unfolding der_tag_def Let_def tag_split_bits [OF assms] tag_split_number [OF assms] ..

lemma parse_asn1_tag_sound:
  "parse_asn1_tag cbs = (Ok tag, rest) \<Longrightarrow> asn1_tag_ok tag \<and> cbs = der_tag tag @ rest"
proof -
  assume p: "parse_asn1_tag cbs = (Ok tag, rest)"
  then obtain b cbs' where cbs: "cbs = b # cbs'"
    by (cases cbs) (auto simp: parse_asn1_tag_def CBS_get_u8_eq op_bind_apply)
  show ?thesis
  proof (cases "b AND 0x1f = 0x1f")
    case True
    with p cbs obtain v where v: "parse_base128_integer cbs' = (Ok v, rest)"
      and range: "v \<le> ucast CBS_ASN1_TAG_NUMBER_MASK" "0x1f \<le> v"
      and tag: "tag = push_bit 24 ((ucast b :: u32) AND 0xe0) OR ucast v"
      and ok: "asn1_tag_ok tag"
      by (auto simp: parse_asn1_tag_def CBS_get_u8_eq op_bind_Ok_iff byte_1f_val asn1_tag_ok_def
          Let_def not_less split: if_splits)
    have "unat v \<le> 536870911" and "31 \<le> unat v"
      using range by (simp_all add: word_le_nat_alt CBS_ASN1_TAG_NUMBER_MASK_def)
    then have n: "unat (ucast v :: u32) = unat v"
      by (simp add: unsigned_ucast_eq take_bit_nat_eq_self)
    have "(b AND 0xe0) OR 0x1f = b" using byte_split_5 [of b] True by simp
    then have "der_tag tag = b # b128_enc (unat v)"
      unfolding tag using n \<open>31 \<le> unat v\<close> \<open>unat v \<le> 536870911\<close> by (subst der_tag_join) simp_all
    with v cbs ok show ?thesis by (simp add: parse_base128_integer_iff)
  next
    case False
    with p cbs have tag: "tag = push_bit 24 ((ucast b :: u32) AND 0xe0) OR ucast (b AND 0x1f)"
      and ok: "asn1_tag_ok tag" and rest: "rest = cbs'"
      by (auto simp: parse_asn1_tag_def CBS_get_u8_eq op_bind_Ok_iff byte_1f_val asn1_tag_ok_def
          Let_def split: if_splits)
    have n: "unat (ucast (b AND 0x1f) :: u32) = unat (b AND 0x1f)" by (simp add: unat_ucast_up)
    have "unat (b AND 0x1f) \<noteq> 31" using False by (simp add: word_unat_eq_iff)
    then have "unat (b AND 0x1f) < 31" using byte_and_1f [of b] by linarith
    then have "der_tag tag = [(b AND 0xe0) OR (b AND 0x1f)]"
      unfolding tag using n by (subst der_tag_join) simp_all
    with cbs ok rest show ?thesis by (simp add: byte_split_5)
  qed
qed
lemma ucast_and_e0: "(ucast (b :: byte) :: u32) AND 0xe0 = ucast (b AND 0xe0)"
  by (simp only: unsigned_and_eq) simp

lemma byte_small_bits: "unat (x :: byte) < 32 \<Longrightarrow> 5 \<le> k \<Longrightarrow> \<not> bit x k"
proof -
  assume "unat x < 32" "5 \<le> k"
  then have "x = take_bit 5 x" by (simp only: word_unat_eq_iff unat_take_bit_mod) simp
  then have "bit x k \<longleftrightarrow> bit (take_bit 5 x) k" by simp
  with \<open>5 \<le> k\<close> show ?thesis by (simp add: bit_simps)
qed

lemma byte_join_5:
  assumes "unat (x :: byte) < 32"
  shows "(t AND 0xe0 OR x) AND 0xe0 = t AND 0xe0" and "(t AND 0xe0 OR x) AND 0x1f = x"
proof -
  have "bit ((t AND 0xe0 OR x) AND 0xe0) k = bit (t AND 0xe0) k \<and>
      bit ((t AND 0xe0 OR x) AND 0x1f) k = bit x k" if "k < 8" for k
  proof -
    from that have "k \<in> {0,1,2,3,4,5,6,7}" by simp arith
    then show ?thesis
      unfolding insert_iff empty_iff using byte_small_bits [OF assms]
      by (elim disjE) (simp_all add: bit_simps)
  qed
  then show "(t AND 0xe0 OR x) AND 0xe0 = t AND 0xe0" and "(t AND 0xe0 OR x) AND 0x1f = x"
    by (auto intro!: bit_word_eqI)
qed

lemma parse_asn1_tag_complete:
  assumes ok: "asn1_tag_ok tag"
  shows "parse_asn1_tag (der_tag tag @ rest) = (Ok tag, rest)"
proof -
  define bits where "bits = (ucast (drop_bit 24 tag) AND 0xe0 :: byte)"
  define n where "n = tag AND CBS_ASN1_TAG_NUMBER_MASK"
  have n: "unat n < 2 ^ 29" unfolding n_def by (rule tag_number_less)
  have bits: "bits AND 0xe0 = bits" by (simp add: bits_def and.assoc)
  have tag: "push_bit 24 (ucast bits :: u32) OR n = tag"
    using tag_join [of tag] unfolding bits_def [symmetric] n_def [symmetric] ucast_and_e0 bits .
  have enc: "der_tag tag = (if 31 \<le> unat n then (bits OR 0x1f) # b128_enc (unat n)
      else [bits OR of_nat (unat n)])"
    unfolding der_tag_def Let_def bits_def n_def ..
  have join: "(bits OR x) AND 0xe0 = bits" "(bits OR x) AND 0x1f = x" if "unat x < 32" for x
    using byte_join_5 [where t = bits, OF that] unfolding bits by simp_all
  have ok': "tag AND NOT CBS_ASN1_CONSTRUCTED \<noteq> 0" using ok by (simp add: asn1_tag_ok_def)
  show ?thesis
  proof (cases "31 \<le> unat n")
    case True
    define v where "v = (of_nat (unat n) :: u64)"
    have v: "unat v = unat n"
      using n by (simp add: v_def unsigned_of_nat take_bit_nat_eq_self del: of_nat_unat)
    then have vn: "(ucast v :: u32) = n" by (metis of_nat_unat ucast_id)
    have range: "\<not> (v > ucast CBS_ASN1_TAG_NUMBER_MASK \<or> v < 0x1f)"
      using True n v by (simp add: word_less_nat_alt word_le_nat_alt CBS_ASN1_TAG_NUMBER_MASK_def)
    have pb: "parse_base128_integer (b128_enc (unat n) @ rest) = (Ok v, rest)"
      using v by (simp add: parse_base128_integer_iff)
    have first: "(bits OR 0x1f) AND 0x1f = 0x1f" "(bits OR 0x1f) AND 0xe0 = bits"
      using join [of "0x1f"] by simp_all
    show ?thesis
      unfolding enc if_P [OF True] parse_asn1_tag_def Let_def
      by (simp add: op_bind_apply CBS_get_u8_eq byte_1f_val first ucast_and_e0 pb range vn tag ok'
          )
  next
    case False
    define x where "x = (of_nat (unat n) :: byte)"
    have x: "unat x = unat n" using False by (simp add: x_def del: of_nat_unat)
    then have x32: "unat x < 32" and x31: "x \<noteq> 0x1f" and xn: "(ucast x :: u32) = n"
      using False by (auto simp: unat_ucast_up intro!: word_unat_eq_iff [THEN iffD2])
    show ?thesis
      unfolding enc if_not_P [OF False] parse_asn1_tag_def Let_def x_def [symmetric]
      by (simp add: op_bind_apply CBS_get_u8_eq byte_1f_val join [OF x32] x31 ucast_and_e0 xn tag ok'
          )
  qed
qed

lemmas byte_reader_bases =
  u8.byte_reader_axioms u16.byte_reader_axioms u32.byte_reader_axioms u64.byte_reader_axioms
  base128.byte_reader_axioms fixed_bytes.byte_reader_axioms

lemma byte_reader_parse_asn1_tag: "byte_reader parse_asn1_tag"
  unfolding parse_asn1_tag_def Let_def
  by (intro byte_reader_intros byte_reader_bases) (auto intro!: byte_reader_intros byte_reader_bases)

interpretation asn1_tag: safe_byte_codec parse_asn1_tag der_tag asn1_tag_ok
  using parse_asn1_tag_complete parse_asn1_tag_sound
    byte_reader.rd_suffix [OF byte_reader_parse_asn1_tag]
    byte_reader.rd_safe [OF byte_reader_parse_asn1_tag]
  by unfold_locales auto

section \<open>Elements as a codec\<close>

lemma length_radix_le: "2 \<le> B \<Longrightarrow> n < B ^ Suc k \<Longrightarrow> length (radix B n) \<le> Suc k"
proof (induction k arbitrary: n)
  case (Suc k)
  show ?case
  proof (cases "n < B")
    case False
    have "n div B < B ^ Suc k" using Suc.prems by (simp add: less_mult_imp_div_less mult.commute)
    then have "length (radix B (n div B)) \<le> Suc k" using Suc by blast
    with False Suc.prems(1) show ?thesis by (simp add: radix.simps [of B n])
  qed (simp add: radix_small)
qed (simp add: radix_small)

lemma length_b128_enc: "length (b128_enc n) = length (radix 128 n)"
  by (simp add: b128_enc_def Let_def)

lemma length_der_tag: "length (der_tag tag) \<le> 6"
proof -
  have "unat (tag AND CBS_ASN1_TAG_NUMBER_MASK) < 128 ^ Suc 4"
    using tag_number_less [of tag] by simp
  then have "length (b128_enc (unat (tag AND CBS_ASN1_TAG_NUMBER_MASK))) \<le> Suc 4"
    unfolding length_b128_enc by (intro length_radix_le) simp_all
  then show ?thesis by (simp add: der_tag_def Let_def)
qed

lemma der_tag_nonempty [simp]: "der_tag tag \<noteq> []"
  by (simp add: der_tag_def Let_def)

lemma len_len_range: "n < 2 ^ 32 \<Longrightarrow> 1 \<le> len_len n \<and> len_len n \<le> 4 \<and> n < 256 ^ len_len n"
  by (simp add: len_len_def)

lemma len_len_unique:
  "1 \<le> k \<Longrightarrow> k \<le> 4 \<Longrightarrow> 256 ^ (k - 1) \<le> n \<Longrightarrow> n < 256 ^ k \<Longrightarrow> len_len n = k"
proof -
  assume k: "1 \<le> k" "k \<le> 4" and n: "256 ^ (k - 1) \<le> n" "n < 256 ^ k"
  then have "k = 1 \<or> k = 2 \<or> k = 3 \<or> k = 4" by arith
  with n show ?thesis by (auto simp: len_len_def)
qed

lemma len_len_minimal: "128 \<le> n \<Longrightarrow> 256 ^ (len_len n - 1) \<le> n"
  by (simp add: len_len_def)

lemma der_length_cases:
  obtains (short) "n < 128" "der_length n = [of_nat n]"
  | (long) "128 \<le> n" "der_length n = of_nat (128 + len_len n) # be_bytes (len_len n) n"
  by (cases "n < 128") (auto simp: der_length_def)

text \<open>The header of an element, read the way the code reads it, in DER mode.\<close>

lemma der_element_short:
  assumes "asn1_tag_ok tag" and "unat lb < 128"
  shows "cbs_get_any_asn1_element False (der_tag tag @ lb # rest) =
     op_bind (CBS_get_bytes (unat lb + (length (der_tag tag) + 1))) (\<lambda>out.
       op_ret \<lparr>elem_out = out, elem_tag = tag, elem_header_len = length (der_tag tag) + 1,
         elem_ber_found = False, elem_indefinite = False\<rparr>) (der_tag tag @ lb # rest)"
  using assms
  by (simp add: cbs_get_any_asn1_element_def op_bind_apply op_run_apply asn1_tag.rd_enc
      CBS_get_u8_eq byte_and_80 Let_def split: prod.splits result.splits)

lemma der_element_long:
  assumes tag: "asn1_tag_ok tag" and lb: "128 \<le> unat lb"
  defines "nb \<equiv> unat lb mod 128" and "hl \<equiv> length (der_tag tag) + 1"
  shows "cbs_get_any_asn1_element False (der_tag tag @ lb # rest) =
     (let cbs = der_tag tag @ lb # rest; n = be_val (take nb rest) in
      if nb = 0 \<or> 4 < nb \<or> length rest < nb \<or> n < 128 \<or> n < 256 ^ (nb - 1) then (Err, cbs)
      else op_bind (CBS_get_bytes (n + hl + nb)) (\<lambda>out.
        op_ret \<lparr>elem_out = out, elem_tag = tag, elem_header_len = hl + nb,
          elem_ber_found = False, elem_indefinite = False\<rparr>) cbs)"
proof -
  have hl: "hl \<le> 7" using length_der_tag [of tag] by (simp add: hl_def)
  have nb: "unat (lb AND 0x7f) = nb" by (simp add: byte_and_7f nb_def)
  show ?thesis
  proof (cases "nb = 0 \<or> 4 < nb \<or> length rest < nb")
    case True
    with tag lb nb show ?thesis
      by (auto simp: cbs_get_any_asn1_element_def op_bind_apply op_run_apply asn1_tag.rd_enc
          CBS_get_u8_eq byte_and_80 Let_def cbs_get_u_eq)
  next
    case False
    define n where "n = be_val (take nb rest)"
    have "n < 256 ^ nb" using be_val_less [of "take nb rest"] False by (simp add: n_def)
    also have "(256 :: nat) ^ nb \<le> 256 ^ 4" using False by (intro power_increasing) auto
    finally have n32: "n < 2 ^ 32" by simp
    have un: "unat (of_nat n :: u64) = n"
      using n32 by (simp add: unsigned_of_nat take_bit_nat_eq_self)
    have small: "(of_nat n :: u64) < 128 \<longleftrightarrow> n < 128"
      using un by (simp add: word_less_nat_alt)
    have drop: "drop_bit ((nb - Suc 0) * 8) (of_nat n :: u64) = 0 \<longleftrightarrow> n < 256 ^ (nb - Suc 0)"
    proof -
      have "(2 :: nat) ^ ((nb - 1) * 8) = 256 ^ (nb - 1)"
        by (subst mult.commute) (simp add: power_mult)
      then show ?thesis using u64_drop_bit_0 [of "(nb - 1) * 8" "of_nat n"] un by simp
    qed
    have "size_add (size_add n hl) nb = n + hl + nb" "size_add n (size_add hl nb) = n + hl + nb"
      using n32 hl False by (simp_all add: size_add_exact)
    with tag lb nb False show ?thesis
      by (simp add: cbs_get_any_asn1_element_def op_bind_apply op_run_apply asn1_tag.rd_enc
          CBS_get_u8_eq byte_and_80 Let_def cbs_get_u_eq small drop un hl_def flip: n_def)
  qed
qed

lemma element_starts:
  assumes "cbs_get_any_asn1_element b cbs = (Ok e, rest)"
  obtains tag lb r where "asn1_tag_ok tag" "cbs = der_tag tag @ lb # r"
proof -
  from assms obtain tag header lb r
    where "parse_asn1_tag cbs = (Ok tag, header)" and "CBS_get_u8 header = (Ok lb, r)"
    unfolding cbs_get_any_asn1_element_def
    by (auto simp: op_bind_Ok_iff op_run_Ok_iff)
  then have "asn1_tag_ok tag" and "cbs = der_tag tag @ lb # r"
    by (auto simp: asn1_tag.rd_iff u8.rd_iff)
  then show ?thesis by (rule that)
qed

definition der_elem :: "CBS_ASN1_TAG \<Rightarrow> byte list \<Rightarrow> asn1_element" where
  "der_elem tag c =
     \<lparr>elem_out = der_element tag c, elem_tag = tag,
      elem_header_len = length (der_header tag (length c)),
      elem_ber_found = False, elem_indefinite = False\<rparr>"

lemma der_elem_complete:
  assumes tag: "asn1_tag_ok tag" and len: "length c < 2 ^ 32"
  shows "cbs_get_any_asn1_element False (der_element tag c @ rest) = (Ok (der_elem tag c), rest)"
proof (cases rule: der_length_cases [of "length c"])
  case short
  have "der_element tag c @ rest = der_tag tag @ of_nat (length c) # (c @ rest)"
    by (simp add: der_element_def der_header_def short)
  with short tag show ?thesis
    by (simp add: der_element_short op_bind_apply CBS_get_bytes_eq der_elem_def der_element_def
        der_header_def)
next
  case long
  define k where "k = len_len (length c)"
  have k: "1 \<le> k" "k \<le> 4" "length c < 256 ^ k" "256 ^ (k - 1) \<le> length c"
    using len_len_range [OF len] len_len_minimal [OF long(1)] by (simp_all add: k_def)
  have eq: "der_element tag c @ rest = der_tag tag @ of_nat (128 + k) # (be_bytes k (length c) @ c @ rest)"
    by (simp add: der_element_def der_header_def long k_def)
  have lb: "unat (of_nat (128 + k) :: byte) = 128 + k" using k by (simp del: of_nat_add)
  show ?thesis unfolding eq using k long(1) lb
    by (subst der_element_long [OF tag])
      (simp_all add: Let_def op_bind_apply CBS_get_bytes_eq der_elem_def der_element_def
        der_header_def long(2) flip: k_def del: of_nat_add)
qed

lemma der_elem_sound:
  assumes "cbs_get_any_asn1_element False cbs = (Ok e, rest)"
  obtains tag c where "asn1_tag_ok tag" "length c < 2 ^ 32" "e = der_elem tag c"
    "cbs = der_element tag c @ rest"
proof -
  from assms obtain tag lb r where tag: "asn1_tag_ok tag" and cbs: "cbs = der_tag tag @ lb # r"
    by (rule element_starts)
  have "\<exists>c. length c < 2 ^ 32 \<and> cbs = der_element tag c @ rest"
  proof (cases "unat lb < 128")
    case True
    have "unat lb \<le> length r" and "rest = drop (unat lb) r"
      using assms True unfolding cbs
      by (auto simp: der_element_short [OF tag] op_bind_Ok_iff CBS_get_bytes_eq split: if_splits)
    moreover have "der_length (unat lb) = [lb]" using True by (simp add: der_length_def)
    ultimately show ?thesis using True unfolding cbs
      by (intro exI [of _ "take (unat lb) r"]) (simp add: der_element_def der_header_def min_def)
  next
    case False
    define nb where "nb = unat lb mod 128"
    define n where "n = be_val (take nb r)"
    have nb: "1 \<le> nb" "nb \<le> 4" "nb \<le> length r" and n: "128 \<le> n" "256 ^ (nb - 1) \<le> n"
      and len: "n + nb \<le> length r" and rest: "rest = drop n (drop nb r)"
      using assms False unfolding cbs
      by (auto simp: der_element_long [OF tag] op_bind_Ok_iff CBS_get_bytes_eq Let_def
          nb_def [symmetric] n_def [symmetric] add.commute split: if_splits)
    have take: "length (take nb r) = nb" using nb by simp
    have n': "n < 256 ^ nb" using be_val_less [of "take nb r"] take by (metis n_def)
    then have k: "len_len n = nb" using nb n by (intro len_len_unique)
    have "(256 :: nat) ^ nb \<le> 256 ^ 4" using nb by (intro power_increasing) auto
    with n' have n32: "n < 2 ^ 32" by simp
    have "of_nat (128 + nb) = lb"
      using byte_of_nat_unat_mod [of lb] False by (simp add: b128_hi_def nb_def)
    moreover have "be_bytes nb n = take nb r" using be_bytes_be_val [of "take nb r"] take by (simp add: n_def)
    ultimately have dl: "der_length n = lb # take nb r" using n k by (simp add: der_length_def)
    define c where "c = take n (drop nb r)"
    have c: "length c = n" using len by (simp add: c_def)
    have "r = take nb r @ c @ rest" unfolding rest c_def by (simp only: append_take_drop_id)
    then have "cbs = der_element tag c @ rest"
      unfolding der_element_def der_header_def c dl cbs by (metis append.assoc append_Cons)
    with n32 c show ?thesis by blast
  qed
  then obtain c where c: "length c < 2 ^ 32" "cbs = der_element tag c @ rest" by blast
  with assms der_elem_complete [OF tag c(1), of rest] have "e = der_elem tag c" by simp
  with tag c show ?thesis by (intro that)
qed
text \<open>Front and safety of readers that look ahead on a copy of the \<open>CBS\<close>.\<close>

definition front_safe :: "(CBS, 'a) op \<Rightarrow> CBS \<Rightarrow> bool" where
  "front_safe m cbs \<longleftrightarrow> (\<exists>p. cbs = p @ snd (m cbs)) \<and> fst (m cbs) \<noteq> Abort"

lemma front_safe_fail [simp]: "front_safe op_fail cbs"
  and front_safe_ret [simp]: "front_safe (op_ret x) cbs"
  by (auto simp: front_safe_def)

lemma front_safe_run:
  "fst (m c) \<noteq> Abort \<Longrightarrow> (\<And>x. front_safe (f x) cbs) \<Longrightarrow> front_safe (op_bind (op_run m c) f) cbs"
  by (auto simp: front_safe_def op_bind_def op_run_def split: prod.splits result.splits)

lemma front_safe_get: "front_safe (f cbs) cbs \<Longrightarrow> front_safe (op_bind op_get f) cbs"
  by (simp add: front_safe_def op_bind_def)

lemma front_safe_bind:
  "front_safe m cbs \<Longrightarrow> (\<And>x rest. m cbs = (Ok x, rest) \<Longrightarrow> front_safe (f x) rest) \<Longrightarrow>
     front_safe (op_bind m f) cbs"
  unfolding front_safe_def op_bind_def
  by (auto split: prod.splits result.splits) (metis append.assoc)+

lemma front_safe_reader: "byte_reader m \<Longrightarrow> front_safe m cbs"
  using byte_reader.rd_suffix byte_reader.rd_safe by (fastforce simp: front_safe_def)

lemma cbs_get_u_safe: "fst (cbs_get_u n cbs) \<noteq> Abort"
  by (simp add: cbs_get_u_eq)

lemma front_safe_bytes: "front_safe (op_bind (CBS_get_bytes n) (\<lambda>x. op_ret (g x))) cbs"
  by (rule front_safe_bind [OF front_safe_reader [OF fixed_bytes.byte_reader_axioms]]) auto

lemma front_safe_element: "front_safe (cbs_get_any_asn1_element b) cbs"
  unfolding cbs_get_any_asn1_element_def Let_def
  by (intro front_safe_get front_safe_run front_safe_bytes)
    (auto intro!: front_safe_run front_safe_bytes
      simp: asn1_tag.rd_safe u8.rd_safe cbs_get_u_safe split: prod.split)

lemma CBS_get_any_asn1_element_iff:
  "CBS_get_any_asn1_element cbs = (Ok (out, tag, hl), rest) \<longleftrightarrow>
     (\<exists>c. asn1_tag_ok tag \<and> length c < 2 ^ 32 \<and> cbs = der_element tag c @ rest \<and>
        out = der_element tag c \<and> hl = length (der_header tag (length c)))"
proof
  assume "CBS_get_any_asn1_element cbs = (Ok (out, tag, hl), rest)"
  then obtain e where e: "cbs_get_any_asn1_element False cbs = (Ok e, rest)"
    and out: "out = elem_out e" "tag = elem_tag e" "hl = elem_header_len e"
    by (auto simp: CBS_get_any_asn1_element_def op_bind_Ok_iff)
  from e show "\<exists>c. asn1_tag_ok tag \<and> length c < 2 ^ 32 \<and> cbs = der_element tag c @ rest \<and>
      out = der_element tag c \<and> hl = length (der_header tag (length c))"
    by (rule der_elem_sound) (auto simp: out der_elem_def)
next
  assume "\<exists>c. asn1_tag_ok tag \<and> length c < 2 ^ 32 \<and> cbs = der_element tag c @ rest \<and>
      out = der_element tag c \<and> hl = length (der_header tag (length c))"
  then show "CBS_get_any_asn1_element cbs = (Ok (out, tag, hl), rest)"
    by (auto simp: CBS_get_any_asn1_element_def op_bind_apply der_elem_complete der_elem_def)
qed

lemma CBS_get_any_asn1_element_complete:
  "asn1_tag_ok tag \<Longrightarrow> length c < 2 ^ 32 \<Longrightarrow>
     CBS_get_any_asn1_element (der_element tag c @ rest) =
       (Ok (der_element tag c, tag, length (der_header tag (length c))), rest)"
  by (auto simp: CBS_get_any_asn1_element_iff)

lemma front_safe_CBS_get_any_asn1_element: "front_safe CBS_get_any_asn1_element cbs"
  unfolding CBS_get_any_asn1_element_def
  by (rule front_safe_bind) (auto intro: front_safe_element)

lemma CBS_skip_header:
  "CBS_skip (length (der_header tag (length c))) (der_element tag c) = (Ok (), c)"
  by (simp add: CBS_skip_eq der_element_def)

lemma CBS_get_any_asn1_iff:
  "CBS_get_any_asn1 cbs = (Ok (tag, c), rest) \<longleftrightarrow>
     (asn1_tag_ok tag \<and> length c < 2 ^ 32) \<and> cbs = der_element tag c @ rest"
proof
  assume "CBS_get_any_asn1 cbs = (Ok (tag, c), rest)"
  then show "(asn1_tag_ok tag \<and> length c < 2 ^ 32) \<and> cbs = der_element tag c @ rest"
    by (auto simp: CBS_get_any_asn1_def op_bind_Ok_iff CBS_get_any_asn1_element_iff CBS_skip_header)
next
  assume "(asn1_tag_ok tag \<and> length c < 2 ^ 32) \<and> cbs = der_element tag c @ rest"
  then show "CBS_get_any_asn1 cbs = (Ok (tag, c), rest)"
    by (auto simp: CBS_get_any_asn1_def op_bind_apply CBS_get_any_asn1_element_complete
        CBS_skip_header)
qed

lemma front_safe_CBS_get_any_asn1: "front_safe CBS_get_any_asn1 cbs"
  unfolding CBS_get_any_asn1_def
  by (rule front_safe_bind)
    (auto intro: front_safe_CBS_get_any_asn1_element
      simp: CBS_get_any_asn1_element_iff CBS_skip_header)

lemma front_safe_cbs_get_asn1: "front_safe (cbs_get_asn1 tag skip) cbs"
  unfolding cbs_get_asn1_def
  by (rule front_safe_bind)
    (auto intro: front_safe_CBS_get_any_asn1_element
      simp: CBS_get_any_asn1_element_iff CBS_skip_header)

lemma CBS_get_asn1_iff:
  "CBS_get_asn1 tag cbs = (Ok c, rest) \<longleftrightarrow>
     (asn1_tag_ok tag \<and> length c < 2 ^ 32) \<and> cbs = der_element tag c @ rest"
proof
  assume "CBS_get_asn1 tag cbs = (Ok c, rest)"
  then show "(asn1_tag_ok tag \<and> length c < 2 ^ 32) \<and> cbs = der_element tag c @ rest"
    by (auto simp: CBS_get_asn1_def cbs_get_asn1_def op_bind_Ok_iff CBS_get_any_asn1_element_iff
        CBS_skip_header split: if_splits)
next
  assume "(asn1_tag_ok tag \<and> length c < 2 ^ 32) \<and> cbs = der_element tag c @ rest"
  then show "CBS_get_asn1 tag cbs = (Ok c, rest)"
    by (auto simp: CBS_get_asn1_def cbs_get_asn1_def op_bind_apply
        CBS_get_any_asn1_element_complete CBS_skip_header)
qed

interpretation asn1_any: safe_byte_codec CBS_get_any_asn1
  "\<lambda>(tag, c). der_element tag c" "\<lambda>(tag, c). asn1_tag_ok tag \<and> length c < 2 ^ 32"
  by unfold_locales
    (use front_safe_CBS_get_any_asn1 in \<open>auto simp: CBS_get_any_asn1_iff front_safe_def\<close>)

lemma front_safe_CBS_get_asn1: "front_safe (CBS_get_asn1 tag) cbs"
  unfolding CBS_get_asn1_def by (rule front_safe_cbs_get_asn1)

interpretation asn1: safe_byte_codec "CBS_get_asn1 tag" "der_element tag"
  "\<lambda>c. asn1_tag_ok tag \<and> length c < 2 ^ 32" for tag
  by unfold_locales
    (use front_safe_CBS_get_asn1 in \<open>auto simp: CBS_get_asn1_iff front_safe_def\<close>)

text \<open>A wrong tag is an error, and leaves the \<open>CBS\<close> past the element.\<close>

lemma CBS_get_asn1_other_tag:
  "asn1_tag_ok tag' \<Longrightarrow> length c < 2 ^ 32 \<Longrightarrow> tag' \<noteq> tag \<Longrightarrow>
     CBS_get_asn1 tag (der_element tag' c @ rest) = (Err, rest)"
  by (simp add: CBS_get_asn1_def cbs_get_asn1_def op_bind_apply CBS_get_any_asn1_element_complete)

lemma CBS_peek_asn1_tag_iff:
  "CBS_peek_asn1_tag cbs tag \<longleftrightarrow> asn1_tag_ok tag \<and> (\<exists>rest. cbs = der_tag tag @ rest)"
proof -
  have "CBS_peek_asn1_tag cbs tag \<longleftrightarrow> (\<exists>rest. parse_asn1_tag cbs = (Ok tag, rest))"
    by (auto simp: CBS_peek_asn1_tag_def split: prod.splits result.splits)
  then show ?thesis by (simp add: asn1_tag.rd_iff)
qed

section \<open>Properties\<close>

text \<open>
  C9. The element reader accepts exactly the DER elements with a universal tag number other
  than zero and fewer than 2^32 bytes of contents: the shortest tag, the shortest length.
\<close>

theorem der_element_read:
  "CBS_get_any_asn1 cbs = (Ok (tag, c), rest) \<longleftrightarrow>
     asn1_tag_ok tag \<and> length c < 2 ^ 32 \<and> cbs = der_element tag c @ rest"
  by (simp add: CBS_get_any_asn1_iff)

text \<open>DER is prefix free: two elements that start the same bytes are the same element.\<close>

theorem der_prefix_free:
  assumes "asn1_tag_ok t" and "length c < 2 ^ 32" and "asn1_tag_ok t'" and "length c' < 2 ^ 32"
    and "der_element t c @ r = der_element t' c' @ r'"
  shows "t = t' \<and> c = c' \<and> r = r'"
  using asn1_any.prefix_free [of "(t, c)" "(t', c')" r r'] assms by simp

theorem der_prefix_free_witness:
  "(2 :: CBS_ASN1_TAG) = 2 \<and> [5 :: byte] = [5] \<and> [9 :: byte] = [9]"
  using der_prefix_free [of 2 "[5]" 2 "[5]" "[9]" "[9]"]
  by (simp add: asn1_tag_ok_def CBS_ASN1_CONSTRUCTED_def)

text \<open>
  Reading an element, in DER or in BER mode, consumes a prefix of the input and never
  leaves the defined behaviour of C, whatever the input.
\<close>

theorem element_read_safe:
  "fst (cbs_get_any_asn1_element ber_ok cbs) \<noteq> Abort \<and>
     (\<exists>p. cbs = p @ snd (cbs_get_any_asn1_element ber_ok cbs))"
  using front_safe_element [of ber_ok cbs] by (simp add: front_safe_def)

end
