(* ===== verification/Cbb_Flush.thy ===== *)
theory Cbb_Flush
  imports Cbb_Core Cbs_Asn1
begin

text \<open>
  What flushing does: a pending child's contents end up behind the length they need. The
  abstract state of a builder is the bytes written at each depth of its chain.
\<close>

section \<open>The buffer\<close>

definition buf_inv :: "allocator \<Rightarrow> cbb_buffer_st \<Rightarrow> bool" where
  "buf_inv mem b \<longleftrightarrow> alloc_ok mem \<and> cbb_cap b = length (cbb_buf b) \<and> cbb_len b \<le> cbb_cap b \<and>
     cbb_cap b < 2 ^ 64"

definition buf_bytes :: "cbb_buffer_st \<Rightarrow> byte list" where
  "buf_bytes b = take (cbb_len b) (cbb_buf b)"

lemma length_buf_bytes [simp]: "buf_inv mem b \<Longrightarrow> length (buf_bytes b) = cbb_len b"
  by (simp add: buf_inv_def buf_bytes_def)

text \<open>A buffer split into its valid bytes and the rest.\<close>

lemma buf_split:
  assumes "buf_inv mem b"
  obtains spare where "cbb_buf b = buf_bytes b @ spare" "cbb_cap b = cbb_len b + length spare"
proof -
  have "cbb_buf b = buf_bytes b @ drop (cbb_len b) (cbb_buf b)" by (simp add: buf_bytes_def)
  moreover have "cbb_cap b = cbb_len b + length (drop (cbb_len b) (cbb_buf b))"
    using assms by (simp add: buf_inv_def)
  ultimately show ?thesis by (rule that)
qed

text \<open>
  The memory a builder needs to reach \<open>N\<close> bytes: a fixed buffer has them, a growing
  one may ask for twice as many.
\<close>

definition room :: "allocator \<Rightarrow> nat \<Rightarrow> cbb_buffer_st \<Rightarrow> bool" where
  "room mem N b \<longleftrightarrow> N < 2 ^ 63 \<and>
     (N \<le> cbb_cap b \<or> cbb_can_resize b \<and> (\<forall>n\<le>2 * N. mem n \<noteq> None))"

lemma reserve_spec:
  assumes inv: "buf_inv mem b" and n: "n < 2 ^ 64" and res: "cbb_buffer_reserve mem n b = (r, b')"
  shows "buf_inv mem b' \<and> cbb_len b' = cbb_len b \<and> buf_bytes b' = buf_bytes b \<and>
     (case r of
        Ok out \<Rightarrow> out = cbb_len b \<and> cbb_len b + n \<le> cbb_cap b' \<and> cbb_error b' = cbb_error b
      | Err \<Rightarrow> cbb_error b' \<and> (\<forall>N. cbb_len b + n \<le> N \<longrightarrow> \<not> room mem N b)
      | Abort \<Rightarrow> False) \<and>
     (\<forall>N. room mem N b \<longrightarrow> room mem N b')"
proof -
  define newlen where "newlen = size_add (cbb_len b) n"
  define dbl where "dbl = size_mul (cbb_cap b) 2"
  define newcap where "newcap = (if dbl < cbb_cap b \<or> dbl < newlen then newlen else dbl)"
  have len: "cbb_len b < 2 ^ 64" "cbb_cap b < 2 ^ 64" using inv by (simp_all add: buf_inv_def)
  have res': "(r, b') = (if newlen < cbb_len b then (Err, b\<lparr>cbb_error := True\<rparr>)
     else if newlen > cbb_cap b then
       (if \<not> cbb_can_resize b then (Err, b\<lparr>cbb_error := True\<rparr>)
        else (case OPENSSL_realloc mem (cbb_buf b) newcap of
                None \<Rightarrow> (Err, b\<lparr>cbb_error := True\<rparr>)
              | Some newbuf \<Rightarrow> (Ok (cbb_len b), b\<lparr>cbb_buf := newbuf, cbb_cap := newcap\<rparr>)))
     else (Ok (cbb_len b), b))"
    unfolding res [symmetric] cbb_buffer_reserve_def Let_def newlen_def newcap_def dbl_def by simp
  have err: "buf_inv mem (b\<lparr>cbb_error := True\<rparr>)" "buf_bytes (b\<lparr>cbb_error := True\<rparr>) = buf_bytes b"
    using inv by (simp_all add: buf_inv_def buf_bytes_def)
  have rerr: "room mem N (b\<lparr>cbb_error := True\<rparr>) = room mem N b" for N by (simp add: room_def)
  show ?thesis
  proof (cases "newlen < cbb_len b")
    case True
    then have big: "2 ^ 64 \<le> cbb_len b + n"
      using size_add_less_iff [OF len(1) n] by (simp add: newlen_def)
    from True res' have rb: "r = Err" "b' = b\<lparr>cbb_error := True\<rparr>" by simp_all
    have "\<not> room mem N b" if "cbb_len b + n \<le> N" for N using big that by (simp add: room_def)
    then show ?thesis using err rerr by (simp add: rb)
  next
    case False
    then have nl: "newlen = cbb_len b + n" "cbb_len b + n < 2 ^ 64"
      using size_add_less_iff [OF len(1) n] size_add_exact [of "cbb_len b" n] by (simp_all add: newlen_def)
    show ?thesis
    proof (cases "newlen > cbb_cap b")
      case grow: True
      show ?thesis
      proof (cases "OPENSSL_realloc mem (cbb_buf b) newcap")
        case None
        then have mn: "mem newcap = None" by (simp add: OPENSSL_realloc_def split: option.splits)
        have rb: "r = Err" "b' = b\<lparr>cbb_error := True\<rparr>" using res' False grow None by (simp_all split: if_splits)
        have "\<not> room mem N b" if N: "cbb_len b + n \<le> N" for N
        proof
          assume rm: "room mem N b"
          then have "cbb_cap b < N" using grow nl(1) N by simp
          then have "dbl = cbb_cap b * 2" using rm by (simp add: dbl_def size_mul_def room_def)
          then have "newcap \<le> 2 * N" using \<open>cbb_cap b < N\<close> N nl by (simp add: newcap_def)
          moreover have "\<forall>n\<le>2 * N. mem n \<noteq> None"
            using rm \<open>cbb_cap b < N\<close> by (auto simp: room_def)
          ultimately show False using mn by blast
        qed
        then show ?thesis using err rerr by (simp add: rb)
      next
        case (Some newbuf)
        show ?thesis
        proof (cases "cbb_can_resize b")
          case True
          then have rb: "r = Ok (cbb_len b)" "b' = b\<lparr>cbb_buf := newbuf, cbb_cap := newcap\<rparr>"
            using res' False grow Some by simp_all
          have cap: "newlen \<le> newcap" "newcap < 2 ^ 64" "cbb_cap b \<le> newcap"
            using nl len grow by (auto simp: newcap_def dbl_def size_mul_def)
          have "length newbuf = newcap" using inv Some length_OPENSSL_realloc by (auto simp: buf_inv_def)
          moreover have "take (cbb_len b) newbuf = take (cbb_len b) (cbb_buf b)"
            using Some inv cap nl by (intro take_OPENSSL_realloc) (auto simp: buf_inv_def)
          ultimately show ?thesis using inv cap nl True
            by (auto simp: rb buf_inv_def buf_bytes_def room_def)
        next
          case fixed: False
          have rb: "r = Err" "b' = b\<lparr>cbb_error := True\<rparr>" using res' False grow fixed by simp_all
          have "\<not> room mem N b" if "cbb_len b + n \<le> N" for N
            using fixed grow nl that by (simp add: room_def)
          then show ?thesis using err rerr by (simp add: rb)
        qed
      qed
    next
      case fits: False
      then have "r = Ok (cbb_len b)" "b' = b" using res' False by simp_all
      then show ?thesis using inv fits nl by simp
    qed
  qed
qed

lemma add_spec:
  assumes inv: "buf_inv mem b" and n: "n < 2 ^ 64" and res: "cbb_buffer_add mem n b = (r, b')"
  shows "buf_inv mem b' \<and> (\<forall>N. room mem N b \<longrightarrow> room mem N b') \<and>
     (case r of
        Ok out \<Rightarrow> out = cbb_len b \<and> cbb_len b' = cbb_len b + n \<and> cbb_error b' = cbb_error b \<and>
          (\<exists>new spare. length new = n \<and> cbb_buf b' = buf_bytes b @ new @ spare)
      | Err \<Rightarrow> cbb_error b' \<and> (\<forall>N. cbb_len b + n \<le> N \<longrightarrow> \<not> room mem N b)
      | Abort \<Rightarrow> False)"
proof -
  obtain r0 b0 where r0: "cbb_buffer_reserve mem n b = (r0, b0)" by fastforce
  note sp = reserve_spec [OF inv n r0]
  show ?thesis
  proof (cases r0)
    case (Ok out)
    then have rb: "r = Ok out" "b' = b0\<lparr>cbb_len := cbb_len b0 + n\<rparr>"
      using res r0 by (simp_all add: cbb_buffer_add_def op_bind_apply)
    have b0: "buf_inv mem b0" "cbb_len b0 = cbb_len b" "buf_bytes b0 = buf_bytes b" "out = cbb_len b"
      "cbb_len b + n \<le> cbb_cap b0" "cbb_error b0 = cbb_error b"
      using sp Ok by simp_all
    obtain sp0 where sp0: "cbb_buf b0 = buf_bytes b @ sp0" "cbb_cap b0 = cbb_len b + length sp0"
      using buf_split [OF b0(1)] b0 by metis
    then have "n \<le> length sp0" using b0 by simp
    then have "length (take n sp0) = n \<and> cbb_buf b' = buf_bytes b @ take n sp0 @ drop n sp0"
      using sp0 by (simp add: rb)
    then have "\<exists>new spare. length new = n \<and> cbb_buf b' = buf_bytes b @ new @ spare" by blast
    moreover have "buf_inv mem b'" using b0 by (simp add: rb buf_inv_def)
    moreover have "\<forall>N. room mem N b \<longrightarrow> room mem N b'" using sp by (simp add: rb room_def)
    ultimately show ?thesis using b0 by (simp add: rb)
  next
    case Err
    then have rb: "r = Err" "b' = b0" using res r0 by (simp_all add: cbb_buffer_add_def op_bind_apply)
    then show ?thesis using sp Err by simp
  next
    case Abort
    then show ?thesis using sp by simp
  qed
qed

section \<open>One length prefix\<close>

text \<open>What a prefix must look like, and the contents it can hold.\<close>

definition spec_prefix :: "bool \<Rightarrow> nat \<Rightarrow> byte list \<Rightarrow> byte list" where
  "spec_prefix is_asn1 n c = (if is_asn1 then der_length (length c) else be_bytes n (length c)) @ c"

definition spec_fits :: "bool \<Rightarrow> nat \<Rightarrow> byte list \<Rightarrow> bool" where
  "spec_fits is_asn1 n c \<longleftrightarrow> (if is_asn1 then length c \<le> 0xfffffffe else length c < 256 ^ n)"

lemma cbb_put_be_at:
  "length hole = n \<Longrightarrow>
     cbb_put_be n (length front) (front @ hole @ rest) v = Some (front @ be_bytes n v @ rest, v div 256 ^ n)"
proof (induction n arbitrary: hole rest v)
  case (Suc n)
  obtain h x where hole: "hole = h @ [x]" "length h = n"
    using Suc.prems by (metis length_Suc_conv_rev)
  have "cbb_put_be (Suc n) (length front) (front @ hole @ rest) v =
      cbb_put_be n (length front) (front @ h @ (of_nat v # rest)) (v div 256)"
    using hole by (simp add: list_update_append)
  also have "\<dots> = Some (front @ be_bytes n (v div 256) @ (of_nat v # rest), v div 256 div 256 ^ n)"
    using hole by (intro Suc.IH)
  finally show ?case by (simp add: div_mult2_eq)
qed simp

text \<open>The bytes after the first one of a DER length.\<close>

lemma asn1_len_len_spec:
  "(case cbb_asn1_len_len n of
      Ok (k, b, len') \<Rightarrow> n \<le> 0xfffffffe \<and> 1 \<le> k \<and> k \<le> 5 \<and>
        der_length n = b # be_bytes (k - 1) len' \<and> len' div 256 ^ (k - 1) = 0 \<and>
        (k \<noteq> 1 \<longrightarrow> len' = n)
    | Err \<Rightarrow> \<not> n \<le> 0xfffffffe
    | Abort \<Rightarrow> False)"
  by (auto simp: cbb_asn1_len_len_def der_length_def len_len_def div_eq_0_iff split: if_splits)

lemma put_length_at:
  assumes inv: "buf_inv mem b" and buf: "cbb_buf b = front @ hole @ rest" and n: "length hole = n"
    and off: "off = length front" and len: "length front + n \<le> cbb_len b"
    and res: "cbb_put_length off n v b = (r, b')"
  shows "buf_inv mem b' \<and> (\<forall>N. room mem N b' = room mem N b) \<and> cbb_error b' = cbb_error b \<and>
     cbb_len b' = cbb_len b \<and> cbb_buf b' = front @ be_bytes n v @ rest \<and>
     r = (if v div 256 ^ n = 0 then Ok () else Err)"
  using res inv buf n off len cbb_put_be_at [OF n, of front rest v]
  by (auto simp: cbb_put_length_def buf_inv_def room_def split: if_splits)

lemma flush_child_spec:
  assumes inv: "buf_inv mem b" and bytes: "buf_bytes b = front @ hole @ c"
    and off: "ch_offset child = length front" and pll: "ch_pending_len_len child = length hole"
    and asn1: "ch_pending_is_asn1 child \<longrightarrow> length hole = 1"
    and res: "cbb_flush_child mem child b = (r, b')"
  defines "a \<equiv> ch_pending_is_asn1 child" and "n \<equiv> length hole"
  shows "buf_inv mem b' \<and> (\<forall>N. room mem N b \<longrightarrow> room mem N b') \<and>
     (case r of
        Ok _ \<Rightarrow> spec_fits a n c \<and> buf_bytes b' = front @ spec_prefix a n c \<and> cbb_error b' = cbb_error b
      | Err \<Rightarrow> \<not> spec_fits a n c \<or>
          (\<forall>N. length front + length (spec_prefix a n c) \<le> N \<longrightarrow> \<not> room mem N b)
      | Abort \<Rightarrow> False)"
proof -
  obtain spare where buf: "cbb_buf b = front @ hole @ c @ spare"
    using buf_split [OF inv] bytes by (metis append.assoc)
  have blen: "cbb_len b = length front + length hole + length c"
    using length_buf_bytes [OF inv] bytes by simp
  have "cbb_len b < 2 ^ 64" using inv by (simp add: buf_inv_def)
  then have start: "size_add (length front) (length hole) = length front + length hole"
    using blen by (simp add: size_add_exact)
  show ?thesis
  proof (cases a)
    case False
    then have "cbb_put_length (length front) n (length c) b = (r, b')"
      using res by (simp add: cbb_flush_child_def start blen off pll a_def n_def)
    from put_length_at [OF inv buf _ refl _ this] blen
    show ?thesis using False
      by (auto simp: n_def spec_fits_def spec_prefix_def buf_bytes_def div_eq_0_iff)
  next
    case True
    then obtain h where hole: "hole = [h]" using asn1 by (auto simp: a_def length_Suc_conv)
    have start': "size_add (length front) (Suc 0) = Suc (length front)"
      using start by (simp add: hole)
    note al = asn1_len_len_spec [of "length c"]
    show ?thesis
    proof (cases "cbb_asn1_len_len (length c)")
      case (Ok t)
      obtain k ib len' where t: "t = (k, ib, len')" by (cases t)
      have k: "length c \<le> 0xfffffffe" "1 \<le> k" "k \<le> 5" "der_length (length c) = ib # be_bytes (k - 1) len'"
        "len' div 256 ^ (k - 1) = 0" "k \<noteq> 1 \<longrightarrow> len' = length c"
        using al Ok t by simp_all
      have fits: "spec_fits a n c" using True k by (simp add: spec_fits_def)
      have pre: "spec_prefix a n c = ib # be_bytes (k - 1) len' @ c" using True k by (simp add: spec_prefix_def)
      have store: "cbb_store_byte (length front) ib x = (Ok (), x\<lparr>cbb_buf := front @ ib # rest\<rparr>)"
        if "cbb_buf x = front @ y # rest" for x y rest using that by (simp add: cbb_store_byte_def)
      have res': "op_then (if k \<noteq> 1 then cbb_make_space mem (length front + 1) (k - 1) len' else op_ret ())
          (op_then (cbb_store_byte (length front) ib)
            (cbb_put_length (length front + 1) (k - 1) len')) b = (r, b')"
        using res True Ok t start'
        by (cases "k = 1") (simp_all add: cbb_flush_child_def blen off pll a_def hole)
      show ?thesis
      proof (cases "k = 1")
        case k1: True
        define b1 where "b1 = b\<lparr>cbb_buf := front @ ib # c @ spare\<rparr>"
        have "buf_inv mem b1" using inv buf hole by (simp add: b1_def buf_inv_def)
        moreover have "cbb_put_length (length front + 1) 0 len' b1 = (r, b')"
          using res' store [of b h "c @ spare"] buf hole
          by (simp add: k1 op_then_apply b1_def)
        moreover have "room mem N b1 = room mem N b" for N by (simp add: b1_def room_def)
        ultimately show ?thesis
          using k fits pre k1 put_length_at [of mem b1 "front @ [ib]" "[]" "c @ spare" 0 _ len' r b'] blen hole
          by (auto simp: b1_def buf_bytes_def)
      next
        case kn: False
        then have len': "len' = length c" using k by simp
        obtain r1 b1 where add: "cbb_buffer_add mem (k - 1) b = (r1, b1)" by fastforce
        have "k - 1 < 2 ^ 64" using k(3) by simp
        note ad = add_spec [OF inv this add]
        show ?thesis
        proof (cases r1)
          case r1: (Ok out)
          with ad obtain new spare' where new: "length new = k - 1" "cbb_buf b1 = buf_bytes b @ new @ spare'"
            and b1: "buf_inv mem b1" "cbb_len b1 = cbb_len b + (k - 1)" "cbb_error b1 = cbb_error b"
            and room1: "\<And>N. room mem N b \<Longrightarrow> room mem N b1" by auto
          define Y where "Y = take (k - 1) (c @ new)"
          have Y: "length Y = k - 1" using new by (simp add: Y_def)
          have buf1: "cbb_buf b1 = (front @ [h]) @ c @ new @ spare'" using new bytes hole by simp
          have move: "OPENSSL_memmove (cbb_buf b1) (length front + 1 + (k - 1)) (length front + 1) (length c) =
              Some (front @ h # Y @ c @ spare')"
            using OPENSSL_memmove_up [of "front @ [h]" c new spare'] by (simp add: buf1 new(1) Y_def)
          define b2 where "b2 = b1\<lparr>cbb_buf := front @ ib # Y @ c @ spare'\<rparr>"
          have ms: "cbb_make_space mem (length front + 1) (k - 1) len' b =
              (Ok (), b1\<lparr>cbb_buf := front @ h # Y @ c @ spare'\<rparr>)"
            unfolding cbb_make_space_def op_then_apply add r1 using move by (simp add: len')
          have "cbb_put_length (length front + 1) (k - 1) len' b2 = (r, b')"
            using res' kn ms store [of "b1\<lparr>cbb_buf := front @ h # Y @ c @ spare'\<rparr>" h "Y @ c @ spare'"]
            unfolding op_then_apply by (simp add: b2_def)
          moreover have "buf_inv mem b2"
            using b1(1) new Y bytes hole by (simp add: b2_def buf_inv_def)
          moreover have "room mem N b2 = room mem N b1" for N by (simp add: b2_def room_def)
          ultimately show ?thesis
            using put_length_at [of mem b2 "front @ [ib]" Y "c @ spare'" "k - 1" "length front + 1" len' r b']
              k fits pre Y b1 room1 blen hole
              take_append [of "length front + length c + k" "front @ ib # be_bytes (k - 1) (length c) @ c" spare']
            by (auto simp: b2_def buf_bytes_def len' simp del: take_append)
        next
          case Err
          then have "r = Err" "b' = b1"
            using res' kn add by (simp_all add: op_then_apply cbb_make_space_def)
          then show ?thesis using ad Err blen pre k hole by (auto simp: Suc_le_eq)
        next
          case Abort
          then show ?thesis using ad by simp
        qed
      qed
    next
      case Err
      then have "r = Err" "b' = b" using res True start' asn1
        by (simp_all add: cbb_flush_child_def blen off pll a_def hole)
      then show ?thesis using al Err True inv by (simp add: spec_fits_def)
    next
      case Abort
      then show ?thesis using al by simp
    qed
  qed
qed

section \<open>The chain of children\<close>

text \<open>
  The bytes of the buffer are the bytes written at each depth, with the reserved prefix of a
  child between its parent's bytes and its own. \<open>segs\<close> is the abstract state.
\<close>

fun layout :: "nat \<Rightarrow> cbb_child_st list \<Rightarrow> byte list \<Rightarrow> byte list list \<Rightarrow> bool" where
  "layout pos [] bytes segs \<longleftrightarrow> segs = [bytes]"
| "layout pos (c # cs) bytes segs \<longleftrightarrow>
     (\<exists>seg hole rest segs'. bytes = seg @ hole @ rest \<and> segs = seg # segs' \<and>
        ch_offset c = pos + length seg \<and> length hole = ch_pending_len_len c \<and>
        (ch_pending_is_asn1 c \<longrightarrow> length hole = 1) \<and>
        layout (ch_offset c + ch_pending_len_len c) cs rest segs')"

definition add_last :: "byte list list \<Rightarrow> byte list \<Rightarrow> byte list list" where
  "add_last segs x = butlast segs @ [last segs @ x]"

lemma add_last_snoc [simp]: "add_last (segs @ [p]) x = segs @ [p @ x]"
  by (simp add: add_last_def)

lemma layout_length: "layout pos cs bytes segs \<Longrightarrow> length segs = Suc (length cs)"
  by (induction pos cs bytes segs rule: layout.induct) auto

lemma layout_nonempty: "layout pos cs bytes segs \<Longrightarrow> segs \<noteq> []"
  using layout_length by fastforce

lemma layout_ConsI:
  "bytes = seg @ hole @ rest \<Longrightarrow> ch_offset c = pos + length seg \<Longrightarrow> length hole = ch_pending_len_len c \<Longrightarrow>
     (ch_pending_is_asn1 c \<longrightarrow> length hole = 1) \<Longrightarrow>
     layout (ch_offset c + ch_pending_len_len c) cs rest segs \<Longrightarrow> layout pos (c # cs) bytes (seg # segs)"
  unfolding layout.simps
  by (intro exI [of _ seg] exI [of _ hole] exI [of _ rest] exI [of _ segs]) simp

lemma layout_ConsE:
  assumes "layout pos (c # cs) bytes segs"
  obtains seg hole rest segs' where "bytes = seg @ hole @ rest" "segs = seg # segs'"
    "ch_offset c = pos + length seg" "length hole = ch_pending_len_len c"
    "ch_pending_is_asn1 c \<longrightarrow> length hole = 1" "layout (ch_offset c + ch_pending_len_len c) cs rest segs'"
  using assms by auto

lemma layout_append:
  "layout pos cs bytes segs \<Longrightarrow> layout pos cs (bytes @ x) (add_last segs x)"
proof (induction pos cs bytes segs rule: layout.induct)
  case (2 pos c cs bytes segs)
  then obtain seg hole rest segs' where *: "bytes = seg @ hole @ rest" "segs = seg # segs'"
    "ch_offset c = pos + length seg" "length hole = ch_pending_len_len c"
    "ch_pending_is_asn1 c \<longrightarrow> length hole = 1" "layout (ch_offset c + ch_pending_len_len c) cs rest segs'"
    by auto
  have "layout (ch_offset c + ch_pending_len_len c) cs (rest @ x) (add_last segs' x)"
    using 2(1) * by blast
  moreover have "add_last segs x = seg # add_last segs' x"
    using layout_nonempty [OF *(6)] *(2) by (simp add: add_last_def)
  ultimately show ?case
    unfolding layout.simps
    by (intro exI [of _ seg] exI [of _ hole] exI [of _ "rest @ x"] exI [of _ "add_last segs' x"])
      (use * in simp)
qed (simp add: add_last_def)

lemma layout_child:
  "layout pos cs bytes segs \<Longrightarrow> ch_offset c = pos + length bytes \<Longrightarrow>
     ch_pending_len_len c = length hole \<Longrightarrow> (ch_pending_is_asn1 c \<longrightarrow> length hole = 1) \<Longrightarrow>
     layout pos (cs @ [c]) (bytes @ hole) (segs @ [[]])"
proof (induction pos cs bytes segs rule: layout.induct)
  case (1 pos bytes segs)
  then show ?case
    by (auto intro!: exI [of _ bytes] exI [of _ hole])
next
  case (2 pos c' cs bytes segs)
  then obtain seg hole' rest segs' where *: "bytes = seg @ hole' @ rest" "segs = seg # segs'"
    "ch_offset c' = pos + length seg" "length hole' = ch_pending_len_len c'"
    "ch_pending_is_asn1 c' \<longrightarrow> length hole' = 1" "layout (ch_offset c' + ch_pending_len_len c') cs rest segs'"
    by auto
  have "layout (ch_offset c' + ch_pending_len_len c') (cs @ [c]) (rest @ hole) (segs' @ [[]])"
    by (rule 2(1) [OF *(6)]) (use * 2 in simp_all)
  then have "layout pos (c' # cs @ [c]) (bytes @ hole) (seg # segs' @ [[]])"
    by (intro layout_ConsI [of _ seg hole' "rest @ hole"]) (use * in simp_all)
  then show ?case using * by simp
qed

text \<open>The innermost child, taken off the chain.\<close>

lemma layout_last_child:
  "layout pos (cs @ [c]) bytes segs \<Longrightarrow>
     \<exists>front hole content segs' p. bytes = front @ hole @ content \<and> segs = segs' @ [p, content] \<and>
       ch_offset c = pos + length front \<and> length hole = ch_pending_len_len c \<and>
       (ch_pending_is_asn1 c \<longrightarrow> length hole = 1) \<and> layout pos cs front (segs' @ [p])"
proof (induction cs arbitrary: pos bytes segs)
  case Nil
  then obtain seg hole rest where "bytes = seg @ hole @ rest" "segs = [seg, rest]"
    "ch_offset c = pos + length seg" "length hole = ch_pending_len_len c"
    "ch_pending_is_asn1 c \<longrightarrow> length hole = 1" by auto
  then show ?case
    by (intro exI [of _ seg] exI [of _ hole] exI [of _ rest] exI [of _ "[]"] exI [of _ seg]) simp
next
  case (Cons c' cs)
  then obtain seg hole' rest segs1 where *: "bytes = seg @ hole' @ rest" "segs = seg # segs1"
    "ch_offset c' = pos + length seg" "length hole' = ch_pending_len_len c'"
    "ch_pending_is_asn1 c' \<longrightarrow> length hole' = 1"
    "layout (ch_offset c' + ch_pending_len_len c') (cs @ [c]) rest segs1" by auto
  from Cons.IH [OF *(6)] obtain front hole content segs' p where
    **: "rest = front @ hole @ content" "segs1 = segs' @ [p, content]"
    "ch_offset c = ch_offset c' + ch_pending_len_len c' + length front" "length hole = ch_pending_len_len c"
    "ch_pending_is_asn1 c \<longrightarrow> length hole = 1"
    "layout (ch_offset c' + ch_pending_len_len c') cs front (segs' @ [p])" by blast
  have "layout pos (c' # cs) (seg @ hole' @ front) ((seg # segs') @ [p])"
    unfolding append_Cons by (rule layout_ConsI [of _ seg hole' front]) (use * ** in simp_all)
  then show ?case
    using * ** by (intro exI [of _ "seg @ hole' @ front"] exI [of _ hole] exI [of _ content]
        exI [of _ "seg # segs'"] exI [of _ p]) simp
qed

section \<open>Flushing a chain\<close>

definition kinds :: "CBB \<Rightarrow> (bool \<times> nat) list" where
  "kinds s = map (\<lambda>c. (ch_pending_is_asn1 c, ch_pending_len_len c)) (cbb_children s)"

text \<open>The bytes of the outermost depth with everything below it flushed into it.\<close>

fun collapse :: "(bool \<times> nat) list \<Rightarrow> byte list list \<Rightarrow> byte list" where
  "collapse (k # ks) (c # cs) = c @ spec_prefix (fst k) (snd k) (collapse ks cs)"
| "collapse [] (c # cs) = c"
| "collapse ks [] = []"

fun collapse_fits :: "(bool \<times> nat) list \<Rightarrow> byte list list \<Rightarrow> bool" where
  "collapse_fits (k # ks) (c # cs) \<longleftrightarrow>
     collapse_fits ks cs \<and> spec_fits (fst k) (snd k) (collapse ks cs)"
| "collapse_fits _ _ \<longleftrightarrow> True"

definition spec_flush :: "nat \<Rightarrow> (bool \<times> nat) list \<Rightarrow> byte list list \<Rightarrow> byte list list" where
  "spec_flush d ks segs = take d segs @ [collapse (drop d ks) (drop d segs)]"

text \<open>A builder in good order whose depths hold the bytes \<open>segs\<close>.\<close>

definition builds :: "CBB \<Rightarrow> byte list list \<Rightarrow> bool" where
  "builds s segs \<longleftrightarrow> buf_inv (cbb_mem s) (cbb_base s) \<and> \<not> cbb_error (cbb_base s) \<and>
     layout 0 (cbb_children s) (buf_bytes (cbb_base s)) segs"

lemma builds_length: "builds s segs \<Longrightarrow> length segs = Suc (length (cbb_children s))"
  unfolding builds_def using layout_length by blast

abbreviation has_room :: "nat \<Rightarrow> CBB \<Rightarrow> bool" where
  "has_room N s \<equiv> room (cbb_mem s) N (cbb_base s)"

lemma length_spec_prefix:
  "(a \<longrightarrow> n = 1) \<Longrightarrow> spec_fits a n c \<Longrightarrow> length (spec_prefix a n c) \<le> n + length c + 4"
  by (auto simp: spec_prefix_def spec_fits_def der_length_def len_len_def)

lemma length_spec_prefix_ge:
  "(a \<longrightarrow> n = 1) \<Longrightarrow> length (spec_prefix a n c) \<ge> n + length c"
  by (auto simp: spec_prefix_def der_length_def)

lemma drop_kinds: "d < length (cbb_children s) \<Longrightarrow>
    drop d (kinds s) = (ch_pending_is_asn1 (cbb_children s ! d), ch_pending_len_len (cbb_children s ! d))
      # drop (Suc d) (kinds s)"
  by (simp add: kinds_def Cons_nth_drop_Suc [symmetric])

lemma flush_spec:
  "builds s segs \<Longrightarrow> d \<le> length (cbb_children s) \<Longrightarrow> CBB_flush d s = (r, s') \<Longrightarrow>
     buf_inv (cbb_mem s') (cbb_base s') \<and> cbb_mem s' = cbb_mem s \<and> (\<forall>N. has_room N s \<longrightarrow> has_room N s') \<and>
     (case r of
        Ok _ \<Rightarrow> collapse_fits (drop d (kinds s)) (drop d segs) \<and>
          builds s' (spec_flush d (kinds s) segs) \<and> cbb_children s' = take d (cbb_children s) \<and>
          cbb_len (cbb_base s') \<le> cbb_len (cbb_base s) + 4 * (length (cbb_children s) - d)
      | Err \<Rightarrow> cbb_error (cbb_base s') \<and> cbb_children s' = take d (cbb_children s) \<and>
          (collapse_fits (drop d (kinds s)) (drop d segs) \<longrightarrow>
           (\<forall>N. cbb_len (cbb_base s) + 4 * (length (cbb_children s) - d) \<le> N \<longrightarrow> \<not> has_room N s))
      | Abort \<Rightarrow> False)"
proof (induction d s arbitrary: r s' rule: CBB_flush.induct)
  case (1 d s)
  have len: "length segs = Suc (length (cbb_children s))" using 1 builds_length by blast
  have ok: "\<not> (d > length (cbb_children s) \<or> cbb_error (cbb_base s))"
    using 1 by (simp add: builds_def)
  show ?case
  proof (cases "d = length (cbb_children s)")
    case True
    then have rs: "r = Ok ()" "s' = s" using 1 ok by (simp_all add: CBB_flush.simps)
    have "take d segs @ [collapse [] (drop d segs)] = segs"
      using len True by (cases segs rule: rev_cases) auto
    then have "spec_flush d (kinds s) segs = segs"
      using True by (simp add: spec_flush_def kinds_def)
    then show ?thesis using 1 True by (simp add: rs kinds_def builds_def)
  next
    case False
    then have d: "d < length (cbb_children s)" using 1 by simp
    define c where "c = cbb_children s ! d"
    obtain r1 s1 where f1: "CBB_flush (Suc d) s = (r1, s1)" by fastforce
    have IH: "buf_inv (cbb_mem s1) (cbb_base s1) \<and> cbb_mem s1 = cbb_mem s \<and>
     (\<forall>N. has_room N s \<longrightarrow> has_room N s1) \<and>
     (case r1 of
        Ok _ \<Rightarrow> collapse_fits (drop (Suc d) (kinds s)) (drop (Suc d) segs) \<and>
          builds s1 (spec_flush (Suc d) (kinds s) segs) \<and> cbb_children s1 = take (Suc d) (cbb_children s) \<and>
          cbb_len (cbb_base s1) \<le> cbb_len (cbb_base s) + 4 * (length (cbb_children s) - Suc d)
      | Err \<Rightarrow> cbb_error (cbb_base s1) \<and> cbb_children s1 = take (Suc d) (cbb_children s) \<and>
          (collapse_fits (drop (Suc d) (kinds s)) (drop (Suc d) segs) \<longrightarrow>
           (\<forall>N. cbb_len (cbb_base s) + 4 * (length (cbb_children s) - Suc d) \<le> N \<longrightarrow> \<not> has_room N s))
      | Abort \<Rightarrow> False)"
      by (rule 1(1) [OF ok False 1(2)]) (use d f1 in simp_all)
    have unf: "CBB_flush d s = (case (r1, s1) of
        (Ok _, s') \<Rightarrow>
          op_then (or_on_error d (on_base d (\<lambda>mem. cbb_flush_child mem c)))
            (\<lambda>s. (Ok (), s\<lparr>cbb_children := take d (cbb_children s)\<rparr>)) s'
      | (Err, s') \<Rightarrow> cbb_on_error d s'
      | (Abort, s') \<Rightarrow> (Abort, s'))"
      using ok d by (subst CBB_flush.simps) (simp add: f1 c_def split: result.split)
    note drop_kinds = drop_kinds [OF d, folded c_def]
    have drop_segs: "drop d segs = segs ! d # drop (Suc d) segs"
      using d len by (simp add: Cons_nth_drop_Suc)
    define K where "K = drop (Suc d) (kinds s)"
    define S where "S = drop (Suc d) segs"
    have fits: "collapse_fits (drop d (kinds s)) (drop d segs) \<longleftrightarrow>
        collapse_fits K S \<and> spec_fits (ch_pending_is_asn1 c) (ch_pending_len_len c) (collapse K S)"
      by (simp add: drop_kinds drop_segs K_def S_def)
    have coll: "collapse (drop d (kinds s)) (drop d segs) =
        segs ! d @ spec_prefix (ch_pending_is_asn1 c) (ch_pending_len_len c) (collapse K S)"
      by (simp add: drop_kinds drop_segs K_def S_def)
    show ?thesis
    proof (cases r1)
      case (Ok u)
      have ch1: "cbb_children s1 = take d (cbb_children s) @ [c]"
        using IH Ok d by (simp add: take_Suc_conv_app_nth c_def)
      have b1: "builds s1 (take d segs @ [segs ! d, collapse K S])"
        using IH Ok d len by (simp add: spec_flush_def take_Suc_conv_app_nth K_def S_def)
      have inv1: "buf_inv (cbb_mem s1) (cbb_base s1)" and e1: "\<not> cbb_error (cbb_base s1)"
        using b1 by (simp_all add: builds_def)
      obtain front hole content segs' p where lay: "buf_bytes (cbb_base s1) = front @ hole @ content"
        "take d segs @ [segs ! d, collapse K S] = segs' @ [p, content]" "ch_offset c = length front"
        "length hole = ch_pending_len_len c" "ch_pending_is_asn1 c \<longrightarrow> length hole = 1"
        "layout 0 (take d (cbb_children s)) front (segs' @ [p])"
        using b1 layout_last_child [of 0 "take d (cbb_children s)" c] unfolding builds_def ch1
        by (metis add_0)
      then have eqs: "segs' = take d segs" "p = segs ! d" "content = collapse K S" by simp_all
      obtain r2 base2 where f2: "cbb_flush_child (cbb_mem s1) c (cbb_base s1) = (r2, base2)" by fastforce
      note fs = flush_child_spec [OF inv1 lay(1) lay(3) lay(4) [symmetric] lay(5) f2, unfolded lay(4) eqs(3)]
      have rm: "\<forall>N. has_room N s \<longrightarrow> room (cbb_mem s) N base2" using IH fs by metis
      have len1: "cbb_len (cbb_base s1) = length front + ch_pending_len_len c + length (collapse K S)"
        using lay(1) length_buf_bytes [OF inv1] by (simp add: lay(4) eqs)
      have base1: "cbb_get_base d s1 = Some (cbb_base s1)" using d by (simp add: cbb_get_base_def ch1)
      define s2 where "s2 = s1\<lparr>cbb_base := base2\<rparr>"
      have run: "on_base d (\<lambda>mem. cbb_flush_child mem c) s1 = (r2, s2)"
        by (simp add: on_base_def base1 f2 s2_def)
      have base2: "cbb_get_base d s2 = Some base2" using d by (simp add: cbb_get_base_def s2_def ch1)
      show ?thesis
      proof (cases r2)
        case r2: (Ok v)
        define s3 where "s3 = s2\<lparr>cbb_children := take d (cbb_children s2)\<rparr>"
        have rs: "r = Ok ()" "s' = s3"
          using 1(4) unf Ok run r2 by (simp_all add: op_then_apply or_on_error_def s3_def)
        have bytes2: "buf_bytes base2 =
            front @ spec_prefix (ch_pending_is_asn1 c) (ch_pending_len_len c) (collapse K S)"
          and inv2: "buf_inv (cbb_mem s1) base2"
          and fit: "spec_fits (ch_pending_is_asn1 c) (ch_pending_len_len c) (collapse K S)"
          and e2: "cbb_error base2 = cbb_error (cbb_base s1)"
          using fs r2 by simp_all
        have ch3: "cbb_children s3 = take d (cbb_children s)"
          using d by (simp add: s3_def s2_def ch1)
        have "layout 0 (cbb_children s3) (buf_bytes base2)
            (take d segs @ [collapse (drop d (kinds s)) (drop d segs)])"
          using layout_append [OF lay(6)] by (simp add: ch3 bytes2 coll eqs)
        then have "builds s3 (spec_flush d (kinds s) segs)"
          using inv2 e2 e1 by (simp add: builds_def s3_def s2_def spec_flush_def)
        moreover have "cbb_len base2 \<le> cbb_len (cbb_base s1) + 4"
        proof -
          have "cbb_len base2 = length front +
              length (spec_prefix (ch_pending_is_asn1 c) (ch_pending_len_len c) (collapse K S))"
            using length_buf_bytes [OF inv2] bytes2 by simp
          also have "\<dots> \<le> length front + (ch_pending_len_len c + length (collapse K S) + 4)"
            using length_spec_prefix [OF _ fit] lay(4,5) by simp
          finally show ?thesis using len1 by simp
        qed
        moreover have "4 * (length (cbb_children s) - d) = 4 * (length (cbb_children s) - Suc d) + 4"
          using d by simp
        ultimately show ?thesis
          using IH Ok rm fit inv2 fits ch3 by (simp add: rs s3_def s2_def K_def S_def)
      next
        case Err
        define s3 where "s3 = s2\<lparr>cbb_base := base2\<lparr>cbb_error := True\<rparr>, cbb_children := take d (cbb_children s2),
          cbb_cut := cbb_cut s2 + (length (cbb_children s2) - d)\<rparr>"
        have rs: "r = Err" "s' = s3"
          using 1(4) unf Ok run Err base2 by (simp_all add: op_then_apply or_on_error_def cbb_on_error_def s3_def)
        have "\<not> has_room N s" if N: "cbb_len (cbb_base s) + 4 * (length (cbb_children s) - d) \<le> N"
          and f: "collapse_fits (drop d (kinds s)) (drop d segs)" for N
        proof -
          have fit: "spec_fits (ch_pending_is_asn1 c) (ch_pending_len_len c) (collapse K S)" using f fits by simp
          have "length front + length (spec_prefix (ch_pending_is_asn1 c) (ch_pending_len_len c) (collapse K S))
              \<le> cbb_len (cbb_base s1) + 4"
            using length_spec_prefix [OF _ fit] lay(4,5) len1 by simp
          also have "\<dots> \<le> cbb_len (cbb_base s) + 4 * (length (cbb_children s) - Suc d) + 4"
            using IH Ok by simp
          also have "\<dots> \<le> N" using N d by simp
          finally have "\<not> has_room N s1" using fs Err fit by simp
          then show ?thesis using IH by blast
        qed
        moreover have "room mem N (base2\<lparr>cbb_error := True\<rparr>) = room mem N base2" for mem N
          by (simp add: room_def)
        moreover have "buf_inv mem (base2\<lparr>cbb_error := True\<rparr>) = buf_inv mem base2" for mem
          by (simp add: buf_inv_def)
        moreover have "cbb_children s3 = take d (cbb_children s)" using d by (simp add: s3_def s2_def ch1)
        moreover have "buf_inv (cbb_mem s) base2" using IH fs by simp
        ultimately show ?thesis using IH rm Err by (simp add: rs s3_def s2_def)
      next
        case Abort
        then show ?thesis using fs by simp
      qed
    next
      case Err
      define s3 where
        "s3 = s1\<lparr>cbb_base := (cbb_base s1)\<lparr>cbb_error := True\<rparr>, cbb_children := take d (cbb_children s1),
           cbb_cut := cbb_cut s1 + (length (cbb_children s1) - d)\<rparr>"
      have rs: "r = Err" "s' = s3"
        using 1(4) unf Err IH d by (auto simp: cbb_on_error_def cbb_get_base_def s3_def)
      have "room mem N ((cbb_base s1)\<lparr>cbb_error := True\<rparr>) = room mem N (cbb_base s1)" for mem N
        by (simp add: room_def)
      moreover have "buf_inv mem ((cbb_base s1)\<lparr>cbb_error := True\<rparr>) = buf_inv mem (cbb_base s1)" for mem
        by (simp add: buf_inv_def)
      moreover have "cbb_children s3 = take d (cbb_children s)" using IH Err by (simp add: s3_def)
      moreover have "4 * (length (cbb_children s) - d) = 4 * (length (cbb_children s) - Suc d) + 4"
        using d by simp
      ultimately show ?thesis using IH Err fits by (auto simp: rs s3_def K_def S_def)
    next
      case Abort
      then show ?thesis using IH by simp
    qed
  qed
qed

end
