(* ===== verification/Cbb_Build.thy ===== *)
theory Cbb_Build
  imports Cbb_Flush
begin

text \<open>
  The contract of the writes to a builder: what they add to the bytes that flushing produces,
  how they compose, and that the operations of cbb.c fulfil it.
\<close>

section \<open>The contract of a write\<close>

text \<open>
  The bytes and pending children of a builder, as a bound on what flushing it needs; and
  what a write at depth \<open>d\<close> does: with everything below \<open>d\<close> flushed, the
  bytes \<open>x\<close> have been added. Unless \<open>cl\<close>, it may leave its own children pending. It fails only when
  a length does not fit or memory runs out, and then locks the builder.
\<close>

definition keeps_room :: "CBB \<Rightarrow> CBB \<Rightarrow> bool" where
  "keeps_room s s' \<longleftrightarrow> cbb_mem s' = cbb_mem s \<and> (\<forall>N. has_room N s \<longrightarrow> has_room N s')"

lemma keeps_room_refl [simp]: "keeps_room s s"
  by (simp add: keeps_room_def)

lemma keeps_room_trans [trans]: "keeps_room s t \<Longrightarrow> keeps_room t u \<Longrightarrow> keeps_room s u"
  unfolding keeps_room_def by metis

lemma keeps_roomD: "keeps_room s s' \<Longrightarrow> has_room N s \<Longrightarrow> has_room N s'"
  unfolding keeps_room_def by blast

definition cbb_phi :: "CBB \<Rightarrow> nat" where
  "cbb_phi s = cbb_len (cbb_base s) + 4 * length (cbb_children s)"

definition fits_below :: "nat \<Rightarrow> CBB \<Rightarrow> byte list list \<Rightarrow> bool" where
  "fits_below d s segs \<longleftrightarrow> collapse_fits (drop d (kinds s)) (drop d segs)"

definition written ::
  "nat \<Rightarrow> byte list \<Rightarrow> nat \<Rightarrow> bool \<Rightarrow> bool \<Rightarrow> CBB \<Rightarrow> byte list list \<Rightarrow> unit result \<Rightarrow> CBB \<Rightarrow> bool" where
  "written d x cost ok cl s segs r s' \<longleftrightarrow>
     keeps_room s s' \<and>
     (case r of
        Ok _ \<Rightarrow> d \<le> length (cbb_children s') \<and> take d (cbb_children s') = take d (cbb_children s) \<and>
          (cl \<longrightarrow> length (cbb_children s') = d) \<and>
          (\<exists>segs'. builds s' segs' \<and>
             spec_flush d (kinds s') segs' = add_last (spec_flush d (kinds s) segs) x \<and>
             (fits_below d s' segs' \<longleftrightarrow> ok)) \<and>
          fits_below d s segs \<and> cbb_phi s' \<le> cbb_phi s + cost
      | Err \<Rightarrow> cbb_error (cbb_base s') \<and> d \<le> length (cbb_children s') \<and>
          (ok \<and> fits_below d s segs \<longrightarrow> (\<forall>N. cbb_phi s + cost \<le> N \<longrightarrow> \<not> has_room N s))
      | Abort \<Rightarrow> False)"

lemma written_OkE:
  assumes "written d x cost ok cl s segs (Ok u) s'"
  obtains segs' where "builds s' segs'" "d \<le> length (cbb_children s')"
    "take d (cbb_children s') = take d (cbb_children s)" "cl \<Longrightarrow> length (cbb_children s') = d"
    "spec_flush d (kinds s') segs' = add_last (spec_flush d (kinds s) segs) x"
    "fits_below d s' segs' \<longleftrightarrow> ok" "fits_below d s segs" "cbb_phi s' \<le> cbb_phi s + cost" "keeps_room s s'"
  using assms unfolding written_def by auto

locale cbb_writer =
  fixes m :: "(CBB, unit) op" and d :: nat and x :: "byte list" and cost :: nat and ok :: bool and cl :: bool
  assumes writes: "builds s segs \<Longrightarrow> d \<le> length (cbb_children s) \<Longrightarrow> m s = (r, s') \<Longrightarrow>
    written d x cost ok cl s segs r s'"
begin

lemma writes_never_aborts:
  "builds s segs \<Longrightarrow> d \<le> length (cbb_children s) \<Longrightarrow> fst (m s) \<noteq> Abort"
  using writes [of s segs "fst (m s)" "snd (m s)"] by (auto simp: written_def split: result.splits)

lemma writes_Ok:
  assumes "builds s segs" "d \<le> length (cbb_children s)" "m s = (Ok u, s')"
  obtains segs' where "builds s' segs'" "d \<le> length (cbb_children s')"
    "spec_flush d (kinds s') segs' = add_last (spec_flush d (kinds s) segs) x"
  using writes [OF assms] by (auto simp: written_def)

lemma writes_succeeds:
  assumes "builds s segs" "d \<le> length (cbb_children s)" "ok" "fits_below d s segs"
    "cbb_phi s + cost \<le> N" "has_room N s"
  shows "\<exists>s'. m s = (Ok (), s')"
proof -
  obtain r s' where r: "m s = (r, s')" by fastforce
  show ?thesis using writes [OF assms(1,2) r] assms(3-) r
    by (cases r) (auto simp: written_def)
qed

end

lemma cbb_writer_then:
  assumes "cbb_writer m d x c1 ok1 cl1" and "cbb_writer k d y c2 ok2 cl"
  shows "cbb_writer (op_then m k) d (x @ y) (c1 + c2) (ok1 \<and> ok2) cl"
proof
  fix s segs r s'
  assume b: "builds s segs" and d: "d \<le> length (cbb_children s)" and run: "op_then m k s = (r, s')"
  obtain r1 s1 where m: "m s = (r1, s1)" by fastforce
  note w1 = cbb_writer.writes [OF assms(1) b d m]
  show "written d (x @ y) (c1 + c2) (ok1 \<and> ok2) cl s segs r s'"
  proof (cases r1)
    case (Ok u)
    then obtain segs1 where s1: "builds s1 segs1" "d \<le> length (cbb_children s1)"
      "spec_flush d (kinds s1) segs1 = add_last (spec_flush d (kinds s) segs) x"
      "fits_below d s1 segs1 \<longleftrightarrow> ok1" "take d (cbb_children s1) = take d (cbb_children s)"
      "fits_below d s segs" "cbb_phi s1 \<le> cbb_phi s + c1" "keeps_room s s1"
      using w1 by (auto simp: written_def)
    have k: "k s1 = (r, s')" using run m Ok by (simp add: op_then_apply)
    have add: "add_last (add_last (spec_flush d (kinds s) segs) x) y =
        add_last (spec_flush d (kinds s) segs) (x @ y)"
      by (simp add: add_last_def)
    show ?thesis
    proof (cases r)
      case r: (Ok v)
      then show ?thesis
        using cbb_writer.writes [OF assms(2) s1(1,2) k] s1 add keeps_room_trans [of s s1 s']
        by (fastforce simp: written_def)
    next
      case Err
      then show ?thesis
        using cbb_writer.writes [OF assms(2) s1(1,2) k] s1 keeps_room_trans [of s s1 s']
          keeps_roomD [of s s1]
        by (force simp: written_def)
    next
      case Abort
      then show ?thesis
        using cbb_writer.writes [OF assms(2) s1(1,2) k] by (simp add: written_def)
    qed
  next
    case Err
    then have "r = Err" "s' = s1" using run m by (simp_all add: op_then_apply)
    then show ?thesis using w1 Err by (auto simp: written_def)
  next
    case Abort
    then show ?thesis using w1 by (simp add: written_def)
  qed
qed

lemma cbb_writer_mono:
  assumes "cbb_writer m d x c ok cl" and "c \<le> c'" and "cl' \<Longrightarrow> cl"
  shows "cbb_writer m d x c' ok cl'"
proof
  fix s segs r s'
  assume "builds s segs" "d \<le> length (cbb_children s)" "m s = (r, s')"
  from cbb_writer.writes [OF assms(1) this] assms(2,3) show "written d x c' ok cl' s segs r s'"
    by (cases r) (fastforce simp: written_def)+
qed

section \<open>Flushing and adding bytes\<close>

lemma spec_flush_length: "length segs = Suc d \<Longrightarrow> length ks = d \<Longrightarrow> spec_flush d ks segs = segs"
  by (cases segs rule: rev_cases) (auto simp: spec_flush_def)

lemma fits_below_all [simp]: "d = length (cbb_children s) \<Longrightarrow> fits_below d s segs"
  by (simp add: fits_below_def kinds_def)

lemma flush_written:
  assumes b: "builds s segs" and d: "d \<le> length (cbb_children s)" and f: "CBB_flush d s = (r, s')"
  shows "keeps_room s s' \<and>
     (case r of
        Ok _ \<Rightarrow> fits_below d s segs \<and> builds s' (spec_flush d (kinds s) segs) \<and>
          cbb_children s' = take d (cbb_children s) \<and> cbb_phi s' \<le> cbb_phi s
      | Err \<Rightarrow> cbb_error (cbb_base s') \<and> d \<le> length (cbb_children s') \<and>
          (fits_below d s segs \<longrightarrow> (\<forall>N. cbb_phi s \<le> N \<longrightarrow> \<not> has_room N s))
      | Abort \<Rightarrow> False)"
proof -
  have kr: "keeps_room s s'" using flush_spec [OF assms] unfolding keeps_room_def by blast
  show ?thesis
proof (cases r)
  case (Ok u)
  have "cbb_len (cbb_base s') \<le> cbb_len (cbb_base s) + 4 * (length (cbb_children s) - d)"
    using flush_spec [OF assms] Ok by simp
  then have "cbb_len (cbb_base s') + 4 * d \<le> cbb_len (cbb_base s) + 4 * length (cbb_children s)"
    using d by linarith
  then show ?thesis using flush_spec [OF assms] d kr Ok
    by (simp add: fits_below_def cbb_phi_def)
next
  case Err
  have "cbb_len (cbb_base s) + 4 * (length (cbb_children s) - d) \<le> cbb_phi s" by (simp add: cbb_phi_def)
  then show ?thesis using flush_spec [OF assms] Err kr d by (auto simp: fits_below_def)
next
  case Abort
  then show ?thesis using flush_spec [OF assms] by simp
qed
qed

text \<open>After making space, the new bytes lie behind the old ones.\<close>

lemma space_written:
  assumes b: "builds s segs" and d: "d \<le> length (cbb_children s)" and n: "n < 2 ^ 64"
    and run: "CBB_add_space d n s = (r, s')"
  shows "keeps_room s s' \<and>
     (case r of
        Ok out \<Rightarrow> fits_below d s segs \<and> cbb_children s' = take d (cbb_children s) \<and>
          \<not> cbb_error (cbb_base s') \<and> buf_inv (cbb_mem s') (cbb_base s') \<and> cbb_phi s' \<le> cbb_phi s + n \<and>
          (\<exists>bytes new spare. layout 0 (take d (cbb_children s)) bytes (spec_flush d (kinds s) segs) \<and>
             cbb_buf (cbb_base s') = bytes @ new @ spare \<and> out = length bytes \<and> length new = n \<and>
             cbb_len (cbb_base s') = length bytes + n)
      | Err \<Rightarrow> cbb_error (cbb_base s') \<and> d \<le> length (cbb_children s') \<and>
          (fits_below d s segs \<longrightarrow> (\<forall>N. cbb_phi s + n \<le> N \<longrightarrow> \<not> has_room N s))
      | Abort \<Rightarrow> False)"
proof -
  obtain r1 s1 where f: "CBB_flush d s = (r1, s1)" by fastforce
  note fw = flush_written [OF b d f]
  show ?thesis
  proof (cases r1)
    case (Ok u)
    then have s1: "fits_below d s segs" "builds s1 (spec_flush d (kinds s) segs)"
      "cbb_children s1 = take d (cbb_children s)" "cbb_phi s1 \<le> cbb_phi s" "keeps_room s s1"
      using fw by simp_all
    have inv1: "buf_inv (cbb_mem s1) (cbb_base s1)" using s1(2) by (simp add: builds_def)
    obtain r2 base2 where a: "cbb_buffer_add (cbb_mem s1) n (cbb_base s1) = (r2, base2)" by fastforce
    have run': "(r, s') = (r2, s1\<lparr>cbb_base := base2\<rparr>)"
      using run f Ok a d s1(3) by (simp add: CBB_add_space_def op_then_apply on_base_def cbb_get_base_def)
    note ad = add_spec [OF inv1 n a]
    have "keeps_room s1 (s1\<lparr>cbb_base := base2\<rparr>)" using ad by (simp add: keeps_room_def)
    with s1 have kr: "keeps_room s (s1\<lparr>cbb_base := base2\<rparr>)" by (blast intro: keeps_room_trans)
    show ?thesis
    proof (cases r2)
      case r2: (Ok out)
      then obtain new spare where ns: "length new = n" "cbb_buf base2 = buf_bytes (cbb_base s1) @ new @ spare"
        "out = cbb_len (cbb_base s1)" "cbb_len base2 = cbb_len (cbb_base s1) + n"
        "cbb_error base2 = cbb_error (cbb_base s1)" "buf_inv (cbb_mem s1) base2"
        using ad by auto
      have lay: "layout 0 (take d (cbb_children s)) (buf_bytes (cbb_base s1)) (spec_flush d (kinds s) segs)"
        using s1(2,3) by (simp add: builds_def)
      have "length (buf_bytes (cbb_base s1)) = cbb_len (cbb_base s1)" by (rule length_buf_bytes [OF inv1])
      moreover have "\<not> cbb_error (cbb_base s1)" using s1(2) by (simp add: builds_def)
      ultimately show ?thesis
        using s1 ns run' r2 lay kr
        by (simp add: cbb_phi_def) (intro exI [of _ "buf_bytes (cbb_base s1)"] conjI exI [of _ new] exI [of _ spare]; simp)
    next
      case Err
      then have "\<not> has_room N s" if "cbb_phi s + n \<le> N" for N
        using ad that s1(4) Err keeps_roomD [OF s1(5), of N] by (auto simp: cbb_phi_def)
      then show ?thesis using ad Err run' kr d s1(3) by simp
    next
      case Abort
      then show ?thesis using ad by simp
    qed
  next
    case Err
    then have "r = Err" "s' = s1" using run f by (simp_all add: CBB_add_space_def op_then_apply)
    then show ?thesis using fw Err by auto
  next
    case Abort
    then show ?thesis using fw by simp
  qed
qed

lemma kinds_take: "cbb_children s' = take d (cbb_children s) \<Longrightarrow> kinds s' = take d (kinds s)"
  by (simp add: kinds_def take_map)

lemma length_spec_flush: "d < length segs \<Longrightarrow> length (spec_flush d ks segs) = Suc d"
  by (simp add: spec_flush_def)

lemma spec_flush_flushed:
  assumes "builds s segs" "d \<le> length (cbb_children s)" "cbb_children s' = take d (cbb_children s)"
    "length segs' = Suc d"
  shows "spec_flush d (kinds s') segs' = segs'"
  using assms by (intro spec_flush_length) (auto simp: kinds_def)

lemma builds_length_flush:
  "builds s segs \<Longrightarrow> d \<le> length (cbb_children s) \<Longrightarrow> length (spec_flush d ks segs) = Suc d"
  using builds_length [of s segs] by (simp add: length_spec_flush)

lemma cbb_writer_flush: "cbb_writer (CBB_flush d) d [] 0 True True"
proof
  fix s segs r s'
  assume b: "builds s segs" and d: "d \<le> length (cbb_children s)" and f: "CBB_flush d s = (r, s')"
  note fw = flush_written [OF this]
  show "written d [] 0 True True s segs r s'"
  proof (cases r)
    case (Ok u)
    then have c: "cbb_children s' = take d (cbb_children s)" and b': "builds s' (spec_flush d (kinds s) segs)"
      using fw by simp_all
    have "spec_flush d (kinds s') (spec_flush d (kinds s) segs) = spec_flush d (kinds s) segs"
      using spec_flush_flushed [OF b d c builds_length_flush [OF b d]] .
    moreover have "add_last (spec_flush d (kinds s) segs) [] = spec_flush d (kinds s) segs"
      by (simp add: spec_flush_def)
    ultimately show ?thesis using fw Ok c b' d by (auto simp: written_def)
  qed (use fw in \<open>auto simp: written_def\<close>)
qed

text \<open>A write that makes space for its bytes and stores them there.\<close>

lemma cbb_writer_space:
  assumes n: "n < 2 ^ 64" "length x = n"
    and store: "\<And>out s bytes new spare. cbb_buf (cbb_base s) = bytes @ new @ spare \<Longrightarrow> length new = n \<Longrightarrow>
      out = length bytes \<Longrightarrow>
      k out s = (Ok (), s\<lparr>cbb_base := (cbb_base s)\<lparr>cbb_buf := bytes @ x @ spare\<rparr>\<rparr>)"
  shows "cbb_writer (op_bind (CBB_add_space d n) k) d x n True True"
proof
  fix s segs r s'
  assume b: "builds s segs" and d: "d \<le> length (cbb_children s)"
    and run: "op_bind (CBB_add_space d n) k s = (r, s')"
  obtain r1 s1 where sp: "CBB_add_space d n s = (r1, s1)" by fastforce
  note sw = space_written [OF b d n(1) sp]
  show "written d x n True True s segs r s'"
  proof (cases r1)
    case (Ok out)
    then obtain bytes new spare where s1: "layout 0 (take d (cbb_children s)) bytes (spec_flush d (kinds s) segs)"
      "cbb_buf (cbb_base s1) = bytes @ new @ spare" "out = length bytes" "length new = n"
      "cbb_len (cbb_base s1) = length bytes + n" "fits_below d s segs"
      "cbb_children s1 = take d (cbb_children s)" "\<not> cbb_error (cbb_base s1)"
      "buf_inv (cbb_mem s1) (cbb_base s1)" "cbb_phi s1 \<le> cbb_phi s + n" "keeps_room s s1"
      using sw by auto
    define s2 where "s2 = s1\<lparr>cbb_base := (cbb_base s1)\<lparr>cbb_buf := bytes @ x @ spare\<rparr>\<rparr>"
    have rs: "r = Ok ()" "s' = s2"
      using run sp Ok store [OF s1(2,4,3)] by (simp_all add: op_bind_apply s2_def)
    have "layout 0 (cbb_children s2) (buf_bytes (cbb_base s2)) (add_last (spec_flush d (kinds s) segs) x)"
      using layout_append [OF s1(1)] n s1(5,7) by (simp add: s2_def buf_bytes_def)
    moreover have "buf_inv (cbb_mem s2) (cbb_base s2)"
      using s1(2,4,9) n by (simp add: s2_def buf_inv_def)
    ultimately have b2: "builds s2 (add_last (spec_flush d (kinds s) segs) x)"
      using s1(8) by (simp add: builds_def s2_def)
    have "keeps_room s1 s2" by (simp add: keeps_room_def s2_def room_def)
    then have kr: "keeps_room s s2" using s1(11) by (blast intro: keeps_room_trans)
    have c2: "cbb_children s2 = take d (cbb_children s)" using s1(7) by (simp add: s2_def)
    have "length (add_last (spec_flush d (kinds s) segs) x) = Suc d"
      using builds_length_flush [OF b d] by (simp add: add_last_def)
    then have "spec_flush d (kinds s2) (add_last (spec_flush d (kinds s) segs) x) =
        add_last (spec_flush d (kinds s) segs) x"
      by (rule spec_flush_flushed [OF b d c2])
    moreover have "cbb_phi s2 = cbb_phi s1" by (simp add: cbb_phi_def s2_def)
    ultimately show ?thesis
      using rs b2 kr s1(6,10) c2 d by (auto simp: written_def)
  next
    case Err
    then have "r = Err" "s' = s1" using run sp by (simp_all add: op_bind_apply)
    then show ?thesis using sw Err by (simp add: written_def)
  next
    case Abort
    then show ?thesis using sw by simp
  qed
qed

lemma cbb_writer_bytes:
  "length data < 2 ^ 64 \<Longrightarrow> cbb_writer (CBB_add_bytes d data (length data)) d data (length data) True True"
  unfolding CBB_add_bytes_def
  by (rule cbb_writer_space) (simp_all add: cbb_store_def OPENSSL_memcpy_at)

lemma cbb_writer_zeros:
  "n < 2 ^ 64 \<Longrightarrow> cbb_writer (CBB_add_zeros d n) d (replicate n 0) n True True"
  unfolding CBB_add_zeros_def
  by (rule cbb_writer_space) (simp_all add: cbb_store_def OPENSSL_memset_at)

lemma cbb_writer_u:
  "n < 2 ^ 64 \<Longrightarrow> unat v < 256 ^ n \<Longrightarrow> cbb_writer (cbb_add_u d v n) d (be_bytes n (unat v)) n True True"
  unfolding cbb_add_u_def
  by (rule cbb_writer_space) (simp_all add: cbb_put_be_at div_eq_0_iff)

interpretation add_u8: cbb_writer "CBB_add_u8 d v" d "[v]" 1 True True for d v
  using cbb_writer_u [of 1 "ucast v" d] by (simp add: CBB_add_u8_def unat_ucast_up unat_lt_256)

interpretation add_u16: cbb_writer "CBB_add_u16 d v" d "be_bytes 2 (unat v)" 2 True True for d v
  using cbb_writer_u [of 2 "ucast v" d] unat_u16 [of v] by (simp add: CBB_add_u16_def unat_ucast_up)

interpretation add_u32: cbb_writer "CBB_add_u32 d v" d "be_bytes 4 (unat v)" 4 True True for d v
  using cbb_writer_u [of 4 "ucast v" d] unat_u32 [of v] by (simp add: CBB_add_u32_def unat_ucast_up)

interpretation add_u64: cbb_writer "CBB_add_u64 d v" d "be_bytes 8 (unat v)" 8 True True for d v
  using cbb_writer_u [of 8 v d] unat_u64 [of v] by (simp add: CBB_add_u64_def)

lemma cbb_writer_u24:
  "unat v < 2 ^ 24 \<Longrightarrow> cbb_writer (CBB_add_u24 d v) d (be_bytes 3 (unat v)) 3 True True"
  using cbb_writer_u [of 3 "ucast v" d] by (simp add: CBB_add_u24_def unat_ucast_up)

text \<open>Little endian: the bytes in the other order.\<close>

lemma bswap_bytes:
  "be_bytes 2 (unat (CRYPTO_bswap2 a)) = rev (be_bytes 2 (unat a))"
  "be_bytes 4 (unat (CRYPTO_bswap4 b)) = rev (be_bytes 4 (unat b))"
  "be_bytes 8 (unat (CRYPTO_bswap8 c)) = rev (be_bytes 8 (unat c))"
proof -
  have *: "be_bytes n (be_val (rev (be_bytes n v))) = rev (be_bytes n v)" for n v
    using be_bytes_be_val [of "rev (be_bytes n v)"] by simp
  have **: "be_val (rev (be_bytes n v)) < 256 ^ n" for n v
    using be_val_less [of "rev (be_bytes n v)"] by simp
  show "be_bytes 2 (unat (CRYPTO_bswap2 a)) = rev (be_bytes 2 (unat a))"
    using CRYPTO_bswap2_be_val [of "be_bytes 2 (unat a)"] unat_u16 [of a] * [of 2] ** [of 2]
    by (simp add: unat_of_nat take_bit_eq_mod del: be_bytes.simps)
  show "be_bytes 4 (unat (CRYPTO_bswap4 b)) = rev (be_bytes 4 (unat b))"
    using CRYPTO_bswap4_be_val [of "be_bytes 4 (unat b)"] unat_u32 [of b] * [of 4] ** [of 4]
    by (simp add: unat_of_nat take_bit_eq_mod del: be_bytes.simps)
  show "be_bytes 8 (unat (CRYPTO_bswap8 c)) = rev (be_bytes 8 (unat c))"
    using CRYPTO_bswap8_be_val [of "be_bytes 8 (unat c)"] unat_u64 [of c] * [of 8] ** [of 8]
    by (simp add: unat_of_nat take_bit_eq_mod del: be_bytes.simps)
qed

interpretation add_u16le: cbb_writer "CBB_add_u16le d v" d "rev (be_bytes 2 (unat v))" 2 True True for d v
  using add_u16.cbb_writer_axioms [of d "CRYPTO_bswap2 v"] by (simp only: CBB_add_u16le_def bswap_bytes)

interpretation add_u32le: cbb_writer "CBB_add_u32le d v" d "rev (be_bytes 4 (unat v))" 4 True True for d v
  using add_u32.cbb_writer_axioms [of d "CRYPTO_bswap4 v"] by (simp only: CBB_add_u32le_def bswap_bytes)

interpretation add_u64le: cbb_writer "CBB_add_u64le d v" d "rev (be_bytes 8 (unat v))" 8 True True for d v
  using add_u64.cbb_writer_axioms [of d "CRYPTO_bswap8 v"] by (simp only: CBB_add_u64le_def bswap_bytes)

section \<open>Opening a child\<close>

text \<open>
  What opening a child of kind \<open>(a, n)\<close> at depth \<open>d\<close> does, the bytes
  \<open>t\<close> before its prefix included.
\<close>

definition opened ::
  "nat \<Rightarrow> byte list \<Rightarrow> bool \<Rightarrow> nat \<Rightarrow> nat \<Rightarrow> CBB \<Rightarrow> byte list list \<Rightarrow> unit result \<Rightarrow> CBB \<Rightarrow> bool" where
  "opened d t a n cost s segs r s' \<longleftrightarrow>
     keeps_room s s' \<and>
     (case r of
        Ok _ \<Rightarrow> length (cbb_children s') = Suc d \<and> take d (cbb_children s') = take d (cbb_children s) \<and>
          kinds s' = take d (kinds s) @ [(a, n)] \<and>
          builds s' (add_last (spec_flush d (kinds s) segs) t @ [[]]) \<and>
          fits_below d s segs \<and> cbb_phi s' \<le> cbb_phi s + cost
      | Err \<Rightarrow> cbb_error (cbb_base s') \<and> d \<le> length (cbb_children s') \<and>
          (fits_below d s segs \<longrightarrow> (\<forall>N. cbb_phi s + cost \<le> N \<longrightarrow> \<not> has_room N s))
      | Abort \<Rightarrow> False)"

locale cbb_opener =
  fixes m :: "(CBB, unit) op" and d :: nat and t :: "byte list" and a :: bool and n :: nat and cost :: nat
  assumes opens: "builds s segs \<Longrightarrow> d \<le> length (cbb_children s) \<Longrightarrow> m s = (r, s') \<Longrightarrow>
    opened d t a n cost s segs r s'"

lemma add_child_opened:
  assumes b: "builds s segs" and d: "length (cbb_children s) = d" and n: "n < 2 ^ 64" "a \<longrightarrow> n = 1"
    and run: "cbb_add_child d n a s = (r, s')"
  shows "opened d [] a n (n + 4) s segs r s'"
proof -
  have inv: "buf_inv (cbb_mem s) (cbb_base s)" and lay: "layout 0 (cbb_children s) (buf_bytes (cbb_base s)) segs"
    and e: "\<not> cbb_error (cbb_base s)" using b by (simp_all add: builds_def)
  obtain r1 base1 where ad: "cbb_buffer_add (cbb_mem s) n (cbb_base s) = (r1, base1)" by fastforce
  note as = add_spec [OF inv n(1) ad]
  define s1 where "s1 = s\<lparr>cbb_base := base1\<rparr>"
  have ob: "on_base d (\<lambda>mem. cbb_buffer_add mem n) s = (r1, s1)"
    using d ad by (simp add: on_base_def cbb_get_base_def s1_def)
  have kr: "keeps_room s s1" using as by (simp add: keeps_room_def s1_def)
  have flat: "spec_flush d (kinds s) segs = segs"
    using builds_length [OF b] d by (intro spec_flush_length) (simp_all add: kinds_def)
  show ?thesis
  proof (cases r1)
    case (Ok out)
    then obtain new spare where ns: "length new = n" "cbb_buf base1 = buf_bytes (cbb_base s) @ new @ spare"
      "out = cbb_len (cbb_base s)" "cbb_len base1 = cbb_len (cbb_base s) + n"
      "cbb_error base1 = cbb_error (cbb_base s)" "buf_inv (cbb_mem s) base1" using as by auto
    define c where "c = \<lparr>ch_offset = cbb_len (cbb_base s), ch_pending_len_len = n, ch_pending_is_asn1 = a\<rparr>"
    define s2 where "s2 = s1\<lparr>cbb_base := base1\<lparr>cbb_buf := buf_bytes (cbb_base s) @ replicate n 0 @ spare\<rparr>,
        cbb_children := cbb_children s @ [c]\<rparr>"
    have ms: "OPENSSL_memset (cbb_buf base1) out 0 n = Some (buf_bytes (cbb_base s) @ replicate n 0 @ spare)"
      using OPENSSL_memset_at [OF ns(1), of "buf_bytes (cbb_base s)" spare 0] length_buf_bytes [OF inv]
      by (simp add: ns)
    have rs: "r = Ok ()" "s' = s2"
      using run d n(2) ob Ok ms
      by (simp_all add: cbb_add_child_def op_bind_apply op_then_apply s1_def s2_def c_def)
    have "layout 0 (cbb_children s @ [c]) (buf_bytes (cbb_base s) @ replicate n 0) (segs @ [[]])"
      using length_buf_bytes [OF inv] n(2) by (intro layout_child [OF lay]) (simp_all add: c_def)
    moreover have "buf_bytes (cbb_base s2) = buf_bytes (cbb_base s) @ replicate n 0"
      using ns length_buf_bytes [OF inv] by (simp add: s2_def buf_bytes_def)
    moreover have "buf_inv (cbb_mem s2) (cbb_base s2)" using ns by (simp add: s2_def s1_def buf_inv_def)
    ultimately have b2: "builds s2 (segs @ [[]])"
      using ns(5) e by (simp add: builds_def s2_def s1_def)
    have "keeps_room s1 s2" by (simp add: keeps_room_def s2_def s1_def room_def)
    then have "keeps_room s s2" using kr by (blast intro: keeps_room_trans)
    moreover have "add_last segs [] = segs" using layout_nonempty [OF lay] by (simp add: add_last_def)
    moreover have "kinds s2 = kinds s @ [(a, n)]" by (simp add: kinds_def s2_def c_def)
    moreover have "length (kinds s) = d" using d by (simp add: kinds_def)
    moreover have "cbb_phi s2 = cbb_phi s + (n + 4)" "cbb_children s2 = cbb_children s @ [c]"
      using ns(4) by (simp_all add: cbb_phi_def s2_def s1_def)
    ultimately show ?thesis using b2 d by (simp add: rs opened_def flat)
  next
    case Err
    then have rs: "r = Err" "s' = s1"
      using run d n(2) ob by (simp_all add: cbb_add_child_def op_bind_apply op_then_apply)
    then show ?thesis using as Err kr d by (auto simp: opened_def s1_def cbb_phi_def)
  next
    case Abort
    then show ?thesis using as by simp
  qed
qed

lemma cbb_opener_child:
  assumes w: "cbb_writer m d t c ok True" and ok: "ok" and n: "n < 2 ^ 64" "a \<longrightarrow> n = 1"
  shows "cbb_opener (op_then m (cbb_add_child d n a)) d t a n (c + n + 4)"
proof
  fix s segs r s'
  assume b: "builds s segs" and d: "d \<le> length (cbb_children s)"
    and run: "op_then m (cbb_add_child d n a) s = (r, s')"
  obtain r1 s1 where m: "m s = (r1, s1)" by fastforce
  note w1 = cbb_writer.writes [OF w b d m]
  show "opened d t a n (c + n + 4) s segs r s'"
  proof (cases r1)
    case (Ok u)
    obtain segs1 where s1: "builds s1 segs1" "length (cbb_children s1) = d"
      "spec_flush d (kinds s1) segs1 = add_last (spec_flush d (kinds s) segs) t"
      "take d (cbb_children s1) = take d (cbb_children s)"
      "fits_below d s segs" "cbb_phi s1 \<le> cbb_phi s + c" "keeps_room s s1"
      using w1 [unfolded Ok] by (rule written_OkE) (rule that; (assumption | simp))
    have k: "cbb_add_child d n a s1 = (r, s')" using run m Ok by (simp add: op_then_apply)
    have flat: "spec_flush d (kinds s1) segs1 = segs1"
      using builds_length [OF s1(1)] s1(2) by (intro spec_flush_length) (simp_all add: kinds_def)
    have ks: "kinds s1 = take d (kinds s)" using s1(2,4) by (intro kinds_take) simp
    have ad: "add_last segs1 [] = segs1"
      using builds_length [OF s1(1)] by (simp add: add_last_def)  (metis append_butlast_last_id list.size(3) nat.distinct(1))
    note op = add_child_opened [OF s1(1,2) n k]
    show ?thesis
    proof (cases r)
      case r: (Ok v)
      then show ?thesis using op s1 ks flat ad keeps_room_trans [OF s1(7)]
        by (auto simp: opened_def)
    next
      case Err
      then show ?thesis using op s1 keeps_room_trans [OF s1(7)] keeps_roomD [OF s1(7)]
        by (force simp: opened_def)
    next
      case Abort
      then show ?thesis using op by (simp add: opened_def)
    qed
  next
    case Err
    then have "r = Err" "s' = s1" using run m by (simp_all add: op_then_apply)
    then show ?thesis using w1 Err ok by (auto simp: written_def opened_def)
  next
    case Abort
    then show ?thesis using w1 by (simp add: written_def)
  qed
qed

interpretation prefix_opener: cbb_opener "cbb_add_length_prefixed d (unat (k :: byte))" d "[]" False "unat k" "unat k + 4"
  for d k
proof -
  have "unat k < 2 ^ 64" using unat_lt_256 [of k] by simp
  from cbb_opener_child [OF cbb_writer_flush TrueI this, of False d]
  show "cbb_opener (cbb_add_length_prefixed d (unat k)) d [] False (unat k) (unat k + 4)"
    by (simp add: cbb_add_length_prefixed_def)
qed

end
