(* ===== verification/Twos_Complement.thy ===== *)
theory Twos_Complement
  imports BS_Prelude
begin

text \<open>
  Two's complement byte strings of any length, most significant byte first, as in the
  contents of a DER INTEGER. \<open>int_enc\<close> is the shortest string of a number; it is the
  only one that \<open>int_minimal\<close> accepts.
\<close>

section \<open>Minimal two's complement\<close>

text \<open>The signed number a byte string denotes, and its shortest byte string.\<close>

definition int_val :: "byte list \<Rightarrow> int" where
  "int_val bs =
     int (be_val bs) - (if bs \<noteq> [] \<and> 128 \<le> unat (hd bs) then 256 ^ length bs else 0)"

function int_enc :: "int \<Rightarrow> byte list" where
  "int_enc k =
     (if -128 \<le> k \<and> k < 128 then [of_int k] else int_enc (k div 256) @ [of_int k])"
  by pat_completeness auto
termination
  by (relation "measure (\<lambda>k. nat \<bar>k\<bar>)") (auto simp: abs_if zdiv_mono1 int_div_less_self)

declare int_enc.simps [simp del]

definition int_minimal :: "byte list \<Rightarrow> bool" where
  "int_minimal bs \<longleftrightarrow>
     (case bs of
        [] \<Rightarrow> False
      | [_] \<Rightarrow> True
      | a # b # _ \<Rightarrow> \<not> (a = 0 \<and> unat b < 128) \<and> \<not> (a = 0xff \<and> 128 \<le> unat b))"

lemma int_val_snoc: "bs \<noteq> [] \<Longrightarrow> int_val (bs @ [b]) = int_val bs * 256 + int (unat b)"
  by (cases bs) (auto simp: int_val_def be_val_append algebra_simps)

lemma int_val_single: "int_val [b] = (if 128 \<le> unat b then int (unat b) - 256 else int (unat b))"
  by (simp add: int_val_def)

lemma int_val_single_range: "-128 \<le> int_val [b] \<and> int_val [b] < 128"
  unfolding int_val_single using unat_lt_256 [of b] by (cases "unat b") auto

lemma of_int_int_val_single: "of_int (int_val [b]) = b"
  by (simp add: int_val_single) 

lemma of_int_snoc: "of_int (k * 256 + int (unat b)) = (b :: byte)"
proof -
  have "(of_int (k * 256 + int (unat b)) :: byte) = of_int k * of_int 256 + of_int (int (unat b))"
    by (simp only: of_int_add of_int_mult)
  also have "(of_int 256 :: byte) = 0" by simp
  finally show ?thesis by simp
qed


lemma uint_of_int_byte: "int (unat (of_int k :: byte)) = k mod 256"
  by (simp add: unsigned_of_int take_bit_eq_mod)

lemma int_val_of_int_small: "-128 \<le> k \<Longrightarrow> k < 128 \<Longrightarrow> int_val [of_int k] = k"
proof -
  assume k: "-128 \<le> k" "k < 128"
  show ?thesis
  proof (cases "0 \<le> k")
    case True
    with k have "int (unat (of_int k :: byte)) = k" unfolding uint_of_int_byte by simp
    then obtain n where "unat (of_int k :: byte) = n" "int n = k" by blast
    with k show ?thesis unfolding int_val_single by simp
  next
    case False
    then have "k mod 256 = (k + 256) mod 256" by simp
    also have "\<dots> = k + 256" using False k by (intro mod_pos_pos_trivial) auto
    finally have "int (unat (of_int k :: byte)) = k + 256" unfolding uint_of_int_byte .
    then obtain n where "unat (of_int k :: byte) = n" "int n = k + 256" by blast
    with k False show ?thesis unfolding int_val_single by simp
  qed
qed

definition int_small :: "int \<Rightarrow> bool" where
  "int_small k \<longleftrightarrow> -128 \<le> k \<and> k < 128"

lemma int_small_step:
  "n < 256 \<Longrightarrow> int_small (m * 256 + int n) \<longleftrightarrow> (m = 0 \<and> n < 128) \<or> (m = -1 \<and> 128 \<le> n)"
proof -
  assume "n < 256"
  consider "m = 0" | "m = -1" | "1 \<le> m" | "m \<le> -2" by linarith
  then show ?thesis
    using \<open>n < 256\<close> unfolding int_small_def by cases auto
qed

lemma int_val_pair_small: "int_small (int_val [a, b]) \<longleftrightarrow> \<not> int_minimal [a, b]"
proof -
  obtain n where n: "unat b = n" "n < 256" using unat_lt_256 [of b] by blast
  have "int_val [a, b] = int_val [a] * 256 + int n"
    using int_val_snoc [of "[a]" b] by (simp only: n) simp
  moreover have "(a = 0 \<longleftrightarrow> int_val [a] = 0) \<and> (a = 0xff \<longleftrightarrow> int_val [a] = -1)"
  proof -
    obtain n where "unat a = n" "n < 256" using unat_lt_256 [of a] by blast
    then show ?thesis unfolding int_val_single word_unat_eq_iff [of a] by auto
  qed
  ultimately show ?thesis
    using int_small_step [OF n(2), of "int_val [a]"] n by (auto simp: int_minimal_def)
qed

lemma length_ge_2: "bs \<noteq> [] \<Longrightarrow> length bs \<noteq> 1 \<Longrightarrow> 2 \<le> length bs"
  by (cases bs; cases "tl bs") auto

lemma int_minimal_append: "2 \<le> length xs \<Longrightarrow> int_minimal (xs @ ys) \<longleftrightarrow> int_minimal xs"
  by (cases xs; cases "tl xs") (auto simp: int_minimal_def)

lemma int_small_snoc: "\<not> int_small k \<Longrightarrow> \<not> int_small (k * 256 + int (unat (b :: byte)))"
proof -
  assume k: "\<not> int_small k"
  obtain n where n: "unat b = n" "n < 256" using unat_lt_256 [of b] by blast
  with k int_small_step [OF n(2), of k] show ?thesis by (auto simp: int_small_def)
qed

lemma int_minimal_large: "int_minimal bs \<Longrightarrow> 2 \<le> length bs \<Longrightarrow> \<not> int_small (int_val bs)"
proof (induction bs rule: rev_induct)
  case (snoc b bs)
  show ?case
  proof (cases "length bs = 1")
    case True
    then obtain a where "bs = [a]" by (auto simp: length_Suc_conv)
    with snoc.prems show ?thesis by (simp add: int_val_pair_small)
  next
    case False
    with snoc.prems(2) have len: "2 \<le> length bs" by simp
    with snoc have "\<not> int_small (int_val bs)" by (simp add: int_minimal_append)
    from int_small_snoc [OF this] len show ?thesis by (subst int_val_snoc) auto
  qed
qed simp

lemma int_enc_unfold:
  "int_enc k = (if int_small k then [of_int k] else int_enc (k div 256) @ [of_int k])"
  by (subst int_enc.simps) (simp add: int_small_def)

lemma int_enc_int_val: "int_minimal bs \<Longrightarrow> int_enc (int_val bs) = bs"
proof (induction bs rule: rev_induct)
  case Nil
  then show ?case by (simp add: int_minimal_def)
next
  case (snoc b bs)
  show ?case
  proof (cases "bs = []")
    case True
    with int_val_single_range [of b] show ?thesis
      by (subst int_enc_unfold) (simp add: int_small_def of_int_int_val_single)
  next
    case False
    then have "2 \<le> length (bs @ [b])" by (cases bs) auto
    then have large: "\<not> int_small (int_val (bs @ [b]))" using int_minimal_large snoc.prems by blast
    have "int_minimal bs"
    proof (cases "length bs = 1")
      case True
      then show ?thesis by (auto simp: length_Suc_conv int_minimal_def)
    next
      case l: False
      from int_minimal_append [OF length_ge_2 [OF False l]] snoc.prems show ?thesis by blast
    qed
    then have "int_enc (int_val bs) = bs" by (rule snoc.IH)
    moreover have "int_val (bs @ [b]) div 256 = int_val bs"
    proof -
      obtain n where "unat b = n" "n < 256" using unat_lt_256 [of b] by blast
      then show ?thesis unfolding int_val_snoc [OF False] by simp
    qed
    moreover have "of_int (int_val (bs @ [b])) = b"
      unfolding int_val_snoc [OF False] by (rule of_int_snoc)
    ultimately show ?thesis using large by (subst int_enc_unfold) simp
  qed
qed

lemma int_enc_minimal: "int_val (int_enc k) = k \<and> int_minimal (int_enc k)"
proof (induction k rule: int_enc.induct)
  case (1 k)
  show ?case
  proof (cases "int_small k")
    case True
    then show ?thesis
      by (subst (1 2) int_enc_unfold) (simp add: int_small_def int_val_of_int_small int_minimal_def)
  next
    case False
    then have IH: "int_val (int_enc (k div 256)) = k div 256" "int_minimal (int_enc (k div 256))"
      using 1 by (auto simp: int_small_def)
    then have ne: "int_enc (k div 256) \<noteq> []" by (auto simp: int_minimal_def)
    have val: "int_val (int_enc k) = k"
      unfolding int_enc_unfold [of k] if_not_P [OF False] int_val_snoc [OF ne] IH uint_of_int_byte
      by simp
    have "int_minimal (int_enc (k div 256) @ [of_int k])"
    proof (cases "length (int_enc (k div 256)) = 1")
      case True
      then obtain a where a: "int_enc (k div 256) = [a]" by (auto simp: length_Suc_conv)
      with val False show ?thesis
        using int_val_pair_small [of a "of_int k"] by (simp add: int_enc_unfold [of k])
    next
      case l: False
      from int_minimal_append [OF length_ge_2 [OF ne l]] IH show ?thesis by blast
    qed
    with val False show ?thesis by (simp add: int_enc_unfold [of k])
  qed
qed

lemma length_int_enc:
  "-128 * 256 ^ n \<le> k \<Longrightarrow> k < 128 * 256 ^ n \<Longrightarrow> length (int_enc k) \<le> Suc n"
proof (induction n arbitrary: k)
  case 0
  then show ?case by (subst int_enc_unfold) (simp add: int_small_def)
next
  case (Suc n)
  have "-128 * 256 ^ n \<le> k div 256" using zdiv_mono1 [OF Suc.prems(1), of 256] by simp
  moreover have "k div 256 < 128 * 256 ^ n"
  proof -
    have "k < 256 * (128 * 256 ^ n)" using Suc.prems(2) by simp
    moreover have "256 * (k div 256) \<le> k" by simp
    ultimately show ?thesis by linarith
  qed
  ultimately have "length (int_enc (k div 256)) \<le> Suc n" by (rule Suc.IH)
  then show ?case by (subst int_enc_unfold) simp
qed

lemma int_val_range:
  "bs \<noteq> [] \<Longrightarrow> -128 * 256 ^ (length bs - 1) \<le> int_val bs \<and> int_val bs < 128 * 256 ^ (length bs - 1)"
proof (induction bs rule: rev_induct)
  case (snoc b bs)
  obtain n where n: "unat b = n" "n < 256" using unat_lt_256 [of b] by blast
  show ?case
  proof (cases "bs = []")
    case True
    with int_val_single_range [of b] show ?thesis by simp
  next
    case False
    then obtain m where m: "length bs = Suc m" by (cases bs) auto
    with snoc.IH False have "-128 * 256 ^ m \<le> int_val bs" "int_val bs < 128 * 256 ^ m" by simp_all
    then have "-128 * 256 ^ m * 256 \<le> int_val bs * 256" "int_val bs * 256 \<le> (128 * 256 ^ m - 1) * 256"
      by (auto intro!: mult_right_mono)
    moreover have "int_val (bs @ [b]) = int_val bs * 256 + int n"
      unfolding int_val_snoc [OF False] n ..
    ultimately show ?thesis using n(2) by (simp add: m algebra_simps)
  qed
qed simp

end
