(* ===== verification/Cbs_Values.thy ===== *)
theory Cbs_Values
  imports Cbs_Asn1 Twos_Complement
begin

text \<open>
  crypto/bytestring/cbs.c, typed ASN.1 values: INTEGER, BOOLEAN, optional fields,
  BIT STRING and OBJECT IDENTIFIER contents.
\<close>

section \<open>Integers\<close>

text \<open>\<open>Ok neg\<close> for a valid integer with the given sign, \<open>Err\<close> for an invalid one.\<close>

definition CBS_is_valid_asn1_integer :: "CBS \<Rightarrow> bool result" where
  "CBS_is_valid_asn1_integer cbs =
     (case CBS_get_u8 cbs of
        (Ok first_byte, copy) \<Rightarrow>
          (let is_negative = (first_byte AND 0x80 \<noteq> 0) in
           case CBS_get_u8 copy of
             (Ok second_byte, _) \<Rightarrow>
               if (first_byte = 0x00 \<and> second_byte AND 0x80 = 0) \<or>
                  (first_byte = 0xff \<and> second_byte AND 0x80 \<noteq> 0)
               then Err else Ok is_negative
           | _ \<Rightarrow> Ok is_negative)
      | _ \<Rightarrow> Err)"

definition CBS_is_unsigned_asn1_integer :: "CBS \<Rightarrow> bool" where
  "CBS_is_unsigned_asn1_integer cbs =
     (case CBS_is_valid_asn1_integer cbs of Ok is_negative \<Rightarrow> \<not> is_negative | _ \<Rightarrow> False)"

fun asn1_uint64_loop :: "byte list \<Rightarrow> u64 \<Rightarrow> u64 result" where
  "asn1_uint64_loop [] out = Ok out"
| "asn1_uint64_loop (d # data) out =
     (if drop_bit 56 out \<noteq> 0 then Err
      else asn1_uint64_loop data (push_bit 8 out OR ucast d))"

definition CBS_get_asn1_uint64 :: "(CBS, u64) op" where
  "CBS_get_asn1_uint64 =
     op_bind (CBS_get_asn1 CBS_ASN1_INTEGER) (\<lambda>bytes.
       if \<not> CBS_is_unsigned_asn1_integer bytes then op_fail
       else (\<lambda>s. (asn1_uint64_loop bytes 0, s)))"

text \<open>
  The value is loaded from eight sign-extended bytes: a native (little-endian) load,
  then the byte swap. The result is read as a signed 64-bit integer.
\<close>

definition CRYPTO_load_u64_be :: "byte list \<Rightarrow> u64" where
  "CRYPTO_load_u64_be ptr = CRYPTO_bswap8 (of_nat (be_val (rev (take 8 ptr))))"

definition CBS_get_asn1_int64 :: "(CBS, u64) op" where
  "CBS_get_asn1_int64 =
     op_bind (CBS_get_asn1 CBS_ASN1_INTEGER) (\<lambda>bytes.
       case CBS_is_valid_asn1_integer bytes of
         Ok is_negative \<Rightarrow>
           if CBS_len bytes > 8 then op_fail
           else (let sign_extend = replicate 8 (if is_negative then 0xff else 0 :: byte)
                 in op_ret (CRYPTO_load_u64_be (take (8 - CBS_len bytes) sign_extend @ bytes)))
       | _ \<Rightarrow> op_fail)"

section \<open>Booleans and optional fields\<close>

definition CBS_get_asn1_bool :: "(CBS, bool) op" where
  "CBS_get_asn1_bool =
     op_bind (CBS_get_asn1 CBS_ASN1_BOOLEAN) (\<lambda>bytes.
       if CBS_len bytes \<noteq> 1 then op_fail
       else (let value = bytes ! 0
             in if value \<noteq> 0 \<and> value \<noteq> 0xff then op_fail else op_ret (value \<noteq> 0)))"

text \<open>\<open>None\<close> when the element is absent: the out-parameter is left alone.\<close>

definition CBS_get_optional_asn1 :: "CBS_ASN1_TAG \<Rightarrow> (CBS, CBS option) op" where
  "CBS_get_optional_asn1 tag =
     op_bind op_get (\<lambda>cbs.
       if CBS_peek_asn1_tag cbs tag then
         op_bind (CBS_get_asn1 tag) (\<lambda>out. op_ret (Some out))
       else op_ret None)"

definition CBS_get_optional_asn1_octet_string :: "CBS_ASN1_TAG \<Rightarrow> (CBS, CBS \<times> bool) op" where
  "CBS_get_optional_asn1_octet_string tag =
     op_bind (CBS_get_optional_asn1 tag) (\<lambda>child.
       case child of
         Some child \<Rightarrow>
           op_bind (op_run (CBS_get_asn1 CBS_ASN1_OCTETSTRING) child) (\<lambda>(out, child).
             if CBS_len child \<noteq> 0 then op_fail else op_ret (out, True))
       | None \<Rightarrow> op_ret ([], False))"

definition CBS_get_optional_asn1_uint64 :: "CBS_ASN1_TAG \<Rightarrow> u64 \<Rightarrow> (CBS, u64) op" where
  "CBS_get_optional_asn1_uint64 tag default_value =
     op_bind (CBS_get_optional_asn1 tag) (\<lambda>child.
       case child of
         Some child \<Rightarrow>
           op_bind (op_run CBS_get_asn1_uint64 child) (\<lambda>(out, child).
             if CBS_len child \<noteq> 0 then op_fail else op_ret out)
       | None \<Rightarrow> op_ret default_value)"

definition CBS_get_optional_asn1_bool :: "CBS_ASN1_TAG \<Rightarrow> bool \<Rightarrow> (CBS, bool) op" where
  "CBS_get_optional_asn1_bool tag default_value =
     op_bind (CBS_get_optional_asn1 tag) (\<lambda>child.
       case child of
         Some child \<Rightarrow>
           op_bind (op_run (CBS_get_asn1 CBS_ASN1_BOOLEAN) child) (\<lambda>(child2, child).
             if CBS_len child2 \<noteq> 1 \<or> CBS_len child \<noteq> 0 then op_fail
             else (let boolean = child2 ! 0
                   in if boolean = 0 then op_ret False
                      else if boolean = 0xff then op_ret True
                      else op_fail))
       | None \<Rightarrow> op_ret default_value)"

section \<open>Bit strings\<close>

definition CBS_is_valid_asn1_bitstring :: "CBS \<Rightarrow> bool" where
  "CBS_is_valid_asn1_bitstring cbs =
     (case CBS_get_u8 cbs of
        (Ok num_unused_bits, rest) \<Rightarrow>
          if num_unused_bits > 7 then False
          else if num_unused_bits = 0 then True
          else (case CBS_get_last_u8 rest of
                  (Ok last_byte, _) \<Rightarrow> last_byte AND (push_bit (unat num_unused_bits) 1 - 1) = 0
                | _ \<Rightarrow> False)
      | _ \<Rightarrow> False)"

definition CBS_asn1_bitstring_has_bit :: "CBS \<Rightarrow> u32 \<Rightarrow> bool" where
  "CBS_asn1_bitstring_has_bit cbs bit_no =
     (if \<not> CBS_is_valid_asn1_bitstring cbs then False
      else (let byte_num = unat (drop_bit 3 bit_no + 1);
                bit_num = 7 - unat (bit_no AND 7)
            in byte_num < CBS_len cbs \<and> (cbs ! byte_num) AND push_bit bit_num 1 \<noteq> 0))"

section \<open>Object identifiers\<close>

function oid_loop :: "byte \<Rightarrow> CBS \<Rightarrow> byte option" where
  "oid_loop prev copy =
     (case CBS_get_u8 copy of
        (Ok v, copy') \<Rightarrow>
          if prev AND 0x80 = 0 \<and> v = 0x80 then None else oid_loop v copy'
      | _ \<Rightarrow> Some prev)"
  by pat_completeness auto
termination
  by (relation "measure (\<lambda>(prev, copy). CBS_len copy)") (auto dest!: CBS_get_u8_shrinks [OF sym])

declare oid_loop.simps [simp del]

definition CBS_is_valid_asn1_oid :: "CBS \<Rightarrow> bool" where
  "CBS_is_valid_asn1_oid cbs =
     (if CBS_len cbs = 0 then False
      else case oid_loop 0 cbs of
        None \<Rightarrow> False
      | Some prev \<Rightarrow> prev AND 0x80 = 0)"

section \<open>What the integer readers accept\<close>

lemma CBS_is_valid_asn1_integer_eq:
  "CBS_is_valid_asn1_integer cbs =
     (if int_minimal cbs then Ok (128 \<le> unat (hd cbs)) else Err)"
  by (auto simp: CBS_is_valid_asn1_integer_def CBS_get_u8_eq int_minimal_def byte_and_80 Let_def
      not_less split: list.splits)

lemma push8_or: "unat v < 2 ^ 56 \<Longrightarrow>
   unat (push_bit 8 (v :: u64) OR ucast (b :: byte)) = unat v * 256 + unat b"
proof -
  assume v: "unat v < 2 ^ 56"
  have "unat (push_bit 8 v OR ucast b :: u64) = (unat v * 256 + unat b) mod 2 ^ 64"
    by (subst or_eq_plus_shift)
      (simp_all add: unat_word_ariths push_bit_eq_mult unat_ucast_up mod_simps mult.commute)
  also have "\<dots> = unat v * 256 + unat b"
    using v unat_lt_256 [of b] by (intro mod_less) simp
  finally show ?thesis .
qed

lemma asn1_uint64_loop_eq:
  "asn1_uint64_loop data out =
     (let n = unat out * 256 ^ length data + be_val data
      in if n < 2 ^ 64 then Ok (of_nat n) else Err)"
proof (induction data arbitrary: out)
  case Nil
  then show ?case using unat_u64 [of out] by simp
next
  case (Cons d data)
  show ?case
  proof (cases "unat out < 2 ^ 56")
    case True
    then show ?thesis
      by (simp add: u64_drop_bit_0 Cons.IH push8_or Let_def algebra_simps)
  next
    case False
    have "2 ^ 64 \<le> unat out * 256" using False by simp
    also have "\<dots> \<le> unat out * 256 ^ length (d # data)" by simp
    finally have "\<not> unat out * 256 ^ length (d # data) + be_val (d # data) < 2 ^ 64" by linarith
    with False show ?thesis by (simp add: u64_drop_bit_0 Let_def del: be_val.simps length_Cons)
  qed
qed

lemma CBS_is_unsigned_asn1_integer_iff:
  "CBS_is_unsigned_asn1_integer cbs \<longleftrightarrow> int_minimal cbs \<and> 0 \<le> int_val cbs"
proof -
  have "int_val cbs = int (be_val cbs)" if "unat (hd cbs) < 128"
    using that by (simp add: int_val_def)
  moreover have "int_val cbs < 0" if "int_minimal cbs" "128 \<le> unat (hd cbs)"
    using that be_val_less [of cbs] by (auto simp: int_val_def int_minimal_def simp flip: of_nat_power)
  ultimately show ?thesis
    by (cases "128 \<le> unat (hd cbs)")
      (auto simp: CBS_is_unsigned_asn1_integer_def CBS_is_valid_asn1_integer_eq not_le)
qed

lemma int_val_nonneg: "int_minimal c \<Longrightarrow> 0 \<le> int_val c \<Longrightarrow> int_val c = int (be_val c)"
  using be_val_less [of c] by (auto simp: int_val_def int_minimal_def simp flip: of_nat_power split: if_splits)

text \<open>Integer values, encoded as DER elements.\<close>

definition der_integer :: "int \<Rightarrow> byte list" where
  "der_integer k = der_element CBS_ASN1_INTEGER (int_enc k)"

lemma tag_ok_primitive [simp]:
  "asn1_tag_ok CBS_ASN1_INTEGER" "asn1_tag_ok CBS_ASN1_BOOLEAN" "asn1_tag_ok CBS_ASN1_BITSTRING"
  "asn1_tag_ok CBS_ASN1_OCTETSTRING"
  by (simp_all add: asn1_tag_ok_def CBS_ASN1_CONSTRUCTED_def)

lemma length_int_enc_u64: "0 \<le> k \<Longrightarrow> k < 2 ^ 64 \<Longrightarrow> length (int_enc k) \<le> 9"
  using length_int_enc [of 8 k] by simp

lemma length_int_enc_i64: "- (2 ^ 63) \<le> k \<Longrightarrow> k < 2 ^ 63 \<Longrightarrow> length (int_enc k) \<le> 8"
  using length_int_enc [of 7 k] by simp

lemma int_unat_u64: "int (unat (v :: u64)) < 2 ^ 64"
  using unsigned_less [of v, where 'a = int] by simp

lemma CBS_get_asn1_uint64_iff_val:
  "CBS_get_asn1_uint64 cbs = (Ok v, rest) \<longleftrightarrow> cbs = der_integer (int (unat v)) @ rest"
proof
  assume "CBS_get_asn1_uint64 cbs = (Ok v, rest)"
  then obtain c where c: "cbs = der_element CBS_ASN1_INTEGER c @ rest"
    and u: "CBS_is_unsigned_asn1_integer c" and l: "asn1_uint64_loop c 0 = Ok v"
    by (auto simp: CBS_get_asn1_uint64_def op_bind_Ok_iff CBS_get_asn1_iff split: if_splits)
  from l have v: "unat v = be_val c"
    by (auto simp: asn1_uint64_loop_eq unat_of_nat take_bit_eq_mod Let_def split: if_splits)
  from u have "int_enc (int (unat v)) = c"
    using int_enc_int_val [of c] int_val_nonneg [of c] 
    by (simp only: v CBS_is_unsigned_asn1_integer_iff)
  with c show "cbs = der_integer (int (unat v)) @ rest" by (simp only: der_integer_def)
next
  assume c: "cbs = der_integer (int (unat v)) @ rest"
  have k: "int (unat v) < 2 ^ 64" by (rule int_unat_u64)
  have e: "int_val (int_enc (int (unat v))) = int (unat v)" "int_minimal (int_enc (int (unat v)))"
    using int_enc_minimal by blast+
  then have b: "be_val (int_enc (int (unat v))) = unat v"
    using int_val_nonneg [OF e(2)] by (metis of_nat_0_le_iff of_nat_eq_iff)
  have "length (int_enc (int (unat v))) \<le> 9" using k by (intro length_int_enc_u64) simp_all
  then have "CBS_get_asn1 CBS_ASN1_INTEGER cbs = (Ok (int_enc (int (unat v))), rest)"
    unfolding c der_integer_def by (intro asn1.rd_enc) (simp del: of_nat_unat)
  moreover have "asn1_uint64_loop (int_enc (int (unat v))) 0 = Ok v"
    using unat_u64 [of v] unfolding asn1_uint64_loop_eq b Let_def by simp
  ultimately show "CBS_get_asn1_uint64 cbs = (Ok v, rest)"
    using e by (simp add: CBS_get_asn1_uint64_def op_bind_apply CBS_is_unsigned_asn1_integer_iff
        del: of_nat_unat)
qed

lemma CRYPTO_load_u64_be_eq: "length bs = 8 \<Longrightarrow> CRYPTO_load_u64_be bs = of_nat (be_val bs)"
  by (simp add: CRYPTO_load_u64_be_def CRYPTO_bswap8_be_val)

lemma be_val_ff: "int (be_val (replicate n 0xff)) = 256 ^ n - 1"
proof (induction n)
  case (Suc n)
  have "unat (0xff :: byte) = 255" by simp
  with Suc show ?case by (simp only: replicate_Suc be_val.simps of_nat_add of_nat_mult length_replicate) simp
qed simp

lemma load_sign_extended:
  assumes "c \<noteq> []" and "length c \<le> 8"
  shows "CRYPTO_load_u64_be (take (8 - CBS_len c)
      (replicate 8 (if 128 \<le> unat (hd c) then 0xff else 0)) @ c) = of_int (int_val c)"
    (is "CRYPTO_load_u64_be ?bs = _")
proof -
  have len: "length ?bs = 8" using assms by simp
  have e: "256 ^ (8 - length c) * 256 ^ length c = (2 ^ 64 :: int)"
    using assms by (simp flip: power_add)
  have "(of_nat (be_val ?bs) :: u64) = of_int (int (be_val ?bs))" by simp
  also have "\<dots> = of_int (int_val c)"
  proof (cases "128 \<le> unat (hd c)")
    case True
    then have "int (be_val ?bs) =
        int (be_val (replicate (8 - length c) 0xff)) * 256 ^ length c + int (be_val c)"
      using assms by (simp add: be_val_append min_def)
    also have "\<dots> = 2 ^ 64 + int_val c"
      using True assms e unfolding be_val_ff by (simp add: int_val_def algebra_simps)
    finally have "(of_int (int (be_val ?bs)) :: u64) = of_int (2 ^ 64) + of_int (int_val c)"
      by (simp only: of_int_add)
    also have "(of_int (2 ^ 64) :: u64) = 0" by simp
    finally show ?thesis by simp
  qed (use assms in \<open>simp add: be_val_append min_def int_val_def\<close>)
  finally show ?thesis using CRYPTO_load_u64_be_eq [OF len] by simp
qed

lemma sint_of_int_u64: "- (2 ^ 63) \<le> k \<Longrightarrow> k < 2 ^ 63 \<Longrightarrow> sint (of_int k :: u64) = k"
  by (simp add: signed_of_int signed_take_bit_int_eq_self)

lemma int_minimal_nonempty: "int_minimal c \<Longrightarrow> c \<noteq> []"
  by (auto simp: int_minimal_def)

lemma CBS_get_asn1_int64_iff_val:
  "CBS_get_asn1_int64 cbs = (Ok v, rest) \<longleftrightarrow> cbs = der_integer (sint v) @ rest"
proof
  assume "CBS_get_asn1_int64 cbs = (Ok v, rest)"
  then obtain c where c: "cbs = der_element CBS_ASN1_INTEGER c @ rest"
    and m: "int_minimal c" and l: "length c \<le> 8" and v: "v = CRYPTO_load_u64_be (take (8 - CBS_len c)
      (replicate 8 (if 128 \<le> unat (hd c) then 0xff else 0)) @ c)"
    by (auto simp: CBS_get_asn1_int64_def op_bind_Ok_iff CBS_get_asn1_iff Let_def
        CBS_is_valid_asn1_integer_eq split: if_splits)
  have ne: "c \<noteq> []" using m by (rule int_minimal_nonempty)
  have le: "(256 :: int) ^ (length c - 1) \<le> 256 ^ 7" using l by (intro power_increasing) simp_all
  then have "(256 :: int) ^ (length c - 1) \<le> 72057594037927936" by simp
  then have "sint v = int_val c"
    unfolding v load_sign_extended [OF ne l]
    using int_val_range [OF ne] by (intro sint_of_int_u64) simp_all
  then show "cbs = der_integer (sint v) @ rest"
    using c int_enc_int_val [OF m] by (simp add: der_integer_def)
next
  assume c: "cbs = der_integer (sint v) @ rest"
  define e where "e = int_enc (sint v)"
  have e: "int_val e = sint v" "int_minimal e"
    unfolding e_def using int_enc_minimal by blast+
  have ne: "e \<noteq> []" using e(2) by (rule int_minimal_nonempty)
  have l: "length e \<le> 8"
    unfolding e_def using sint_greater_eq [of v] sint_less [of v] by (intro length_int_enc_i64) simp_all
  then have "CBS_get_asn1 CBS_ASN1_INTEGER cbs = (Ok e, rest)"
    unfolding c der_integer_def e_def [symmetric] by (intro asn1.rd_enc) simp
  moreover have "(of_int (int_val e) :: u64) = v" by (simp add: e)
  ultimately show "CBS_get_asn1_int64 cbs = (Ok v, rest)"
    using e(2) l load_sign_extended [OF ne l]
    by (simp add: CBS_get_asn1_int64_def op_bind_apply CBS_is_valid_asn1_integer_eq)
qed

section \<open>What the boolean readers accept: booleans and optional fields\<close>

definition der_bool :: "bool \<Rightarrow> byte list" where
  "der_bool b = der_element CBS_ASN1_BOOLEAN [if b then 0xff else 0]"

lemma CBS_get_asn1_bool_iff_val:
  "CBS_get_asn1_bool cbs = (Ok b, rest) \<longleftrightarrow> cbs = der_bool b @ rest"
  by (auto simp: CBS_get_asn1_bool_def op_bind_Ok_iff CBS_get_asn1_iff der_bool_def Let_def
      length_Suc_conv split: if_splits)

lemma front_safe_asn1_uint64: "front_safe CBS_get_asn1_uint64 cbs"
  unfolding CBS_get_asn1_uint64_def
  by (rule front_safe_bind [OF front_safe_CBS_get_asn1])
    (auto simp: front_safe_def asn1_uint64_loop_eq Let_def)

lemma front_safe_asn1_int64: "front_safe CBS_get_asn1_int64 cbs"
  unfolding CBS_get_asn1_int64_def
  by (rule front_safe_bind [OF front_safe_CBS_get_asn1]) (simp add: Let_def split: result.split)

lemma front_safe_asn1_bool: "front_safe CBS_get_asn1_bool cbs"
  unfolding CBS_get_asn1_bool_def
  by (rule front_safe_bind [OF front_safe_CBS_get_asn1]) (simp add: Let_def)

interpretation asn1_uint64: safe_byte_codec CBS_get_asn1_uint64 "\<lambda>v. der_integer (int (unat v))" "\<lambda>_. True"
  using front_safe_asn1_uint64
  by unfold_locales (auto simp: CBS_get_asn1_uint64_iff_val front_safe_def simp del: of_nat_unat)

interpretation asn1_int64: safe_byte_codec CBS_get_asn1_int64 "\<lambda>v. der_integer (sint v)" "\<lambda>_. True"
  using front_safe_asn1_int64
  by unfold_locales (auto simp: CBS_get_asn1_int64_iff_val front_safe_def)

interpretation asn1_bool: safe_byte_codec CBS_get_asn1_bool der_bool "\<lambda>_. True"
  using front_safe_asn1_bool
  by unfold_locales (auto simp: CBS_get_asn1_bool_iff_val front_safe_def)

lemma CBS_get_optional_asn1_iff:
  "CBS_get_optional_asn1 tag cbs = (Ok r, rest) \<longleftrightarrow>
     (case r of
        None \<Rightarrow> \<not> CBS_peek_asn1_tag cbs tag \<and> rest = cbs
      | Some c \<Rightarrow> asn1_tag_ok tag \<and> length c < 2 ^ 32 \<and> cbs = der_element tag c @ rest)"
  by (auto simp: CBS_get_optional_asn1_def op_bind_Ok_iff CBS_get_asn1_iff CBS_peek_asn1_tag_iff
      der_element_def der_header_def split: option.splits if_splits)

lemma CBS_get_optional_asn1_present:
  "CBS_peek_asn1_tag cbs tag \<Longrightarrow>
     CBS_get_optional_asn1 tag cbs = (case CBS_get_asn1 tag cbs of
       (Ok c, rest) \<Rightarrow> (Ok (Some c), rest) | (Err, rest) \<Rightarrow> (Err, rest) | (Abort, rest) \<Rightarrow> (Abort, rest))"
  by (simp add: CBS_get_optional_asn1_def op_bind_apply split: prod.split result.split)

lemma peek_der_element [simp]: "asn1_tag_ok tag \<Longrightarrow> CBS_peek_asn1_tag (der_element tag c @ rest) tag"
  by (auto simp: CBS_peek_asn1_tag_iff der_element_def der_header_def)

text \<open>An optional field with a default: absent, or the element and nothing after the value in it.\<close>

definition optional_field :: "CBS_ASN1_TAG \<Rightarrow> 'a \<Rightarrow> ('a \<Rightarrow> byte list) \<Rightarrow> CBS \<Rightarrow> 'a \<Rightarrow> CBS \<Rightarrow> bool" where
  "optional_field tag dflt enc cbs v rest \<longleftrightarrow>
     (\<not> CBS_peek_asn1_tag cbs tag \<and> v = dflt \<and> rest = cbs) \<or>
     (asn1_tag_ok tag \<and> length (enc v) < 2 ^ 32 \<and> cbs = der_element tag (enc v) @ rest)"

lemma optional_bind_iff:
  "op_bind (CBS_get_optional_asn1 tag) f cbs = (Ok y, rest) \<longleftrightarrow>
     (\<not> CBS_peek_asn1_tag cbs tag \<and> f None cbs = (Ok y, rest)) \<or>
     (\<exists>c r. asn1_tag_ok tag \<and> length c < 2 ^ 32 \<and> cbs = der_element tag c @ r \<and>
        f (Some c) r = (Ok y, rest))"
  unfolding op_bind_Ok_iff CBS_get_optional_asn1_iff
proof (intro iffI; elim exE conjE disjE)
  fix x t
  assume "case x of None \<Rightarrow> \<not> CBS_peek_asn1_tag cbs tag \<and> t = cbs
    | Some c \<Rightarrow> asn1_tag_ok tag \<and> length c < 2 ^ 32 \<and> cbs = der_element tag c @ t"
    and "f x t = (Ok y, rest)"
  then show "(\<not> CBS_peek_asn1_tag cbs tag \<and> f None cbs = (Ok y, rest)) \<or>
     (\<exists>c r. asn1_tag_ok tag \<and> length c < 2 ^ 32 \<and> cbs = der_element tag c @ r \<and>
        f (Some c) r = (Ok y, rest))"
    by (cases x) auto
next
  assume "\<not> CBS_peek_asn1_tag cbs tag" "f None cbs = (Ok y, rest)"
  then show "\<exists>x t. (case x of None \<Rightarrow> \<not> CBS_peek_asn1_tag cbs tag \<and> t = cbs
    | Some c \<Rightarrow> asn1_tag_ok tag \<and> length c < 2 ^ 32 \<and> cbs = der_element tag c @ t) \<and>
      f x t = (Ok y, rest)"
    by (intro exI [of _ None] exI [of _ cbs]) simp
next
  fix c r
  assume "asn1_tag_ok tag" "length c < 2 ^ 32" "cbs = der_element tag c @ r" "f (Some c) r = (Ok y, rest)"
  then show "\<exists>x t. (case x of None \<Rightarrow> \<not> CBS_peek_asn1_tag cbs tag \<and> t = cbs
    | Some c \<Rightarrow> asn1_tag_ok tag \<and> length c < 2 ^ 32 \<and> cbs = der_element tag c @ t) \<and>
      f x t = (Ok y, rest)"
    by (intro exI [of _ "Some c"] exI [of _ r]) simp
qed

lemma run_all_Ok_iff:
  "op_bind (op_run m c) (\<lambda>(out, child). if CBS_len child \<noteq> 0 then op_fail else op_ret (g out)) r =
     (Ok y, rest) \<longleftrightarrow> (\<exists>x. m c = (Ok x, []) \<and> y = g x \<and> r = rest)"
proof -
  have "op_bind (op_run m c) (\<lambda>(out, child). if CBS_len child \<noteq> 0 then op_fail else op_ret (g out)) r =
      (case m c of (Ok x, []) \<Rightarrow> (Ok (g x), r) | (Abort, _) \<Rightarrow> (Abort, r) | _ \<Rightarrow> (Err, r))"
    by (auto simp: op_bind_apply op_run_apply split: prod.splits result.splits list.splits)
  then show ?thesis by (auto split: prod.splits result.splits list.splits)
qed

lemma CBS_get_optional_asn1_uint64_iff:
  "CBS_get_optional_asn1_uint64 tag dflt cbs = (Ok v, rest) \<longleftrightarrow>
     optional_field tag dflt (\<lambda>v. der_integer (int (unat v))) cbs v rest"
  unfolding CBS_get_optional_asn1_uint64_def optional_bind_iff option.case run_all_Ok_iff
    CBS_get_asn1_uint64_iff_val optional_field_def append_Nil2
  by (auto simp del: of_nat_unat)

lemma CBS_get_optional_asn1_octet_string_iff:
  "CBS_get_optional_asn1_octet_string tag cbs = (Ok (out, present), rest) \<longleftrightarrow>
     (if present then
        (let field = der_element CBS_ASN1_OCTETSTRING out
         in length out < 2 ^ 32 \<and> asn1_tag_ok tag \<and> length field < 2 ^ 32 \<and> cbs = der_element tag field @ rest)
      else \<not> CBS_peek_asn1_tag cbs tag \<and> out = [] \<and> rest = cbs)"
  unfolding CBS_get_optional_asn1_octet_string_def optional_bind_iff option.case run_all_Ok_iff
    CBS_get_asn1_iff append_Nil2 Let_def
  by auto

lemma CBS_get_optional_asn1_bool_iff:
  "CBS_get_optional_asn1_bool tag dflt cbs = (Ok v, rest) \<longleftrightarrow>
     optional_field tag dflt der_bool cbs v rest"
proof -
  have "op_bind (op_run (CBS_get_asn1 CBS_ASN1_BOOLEAN) c) (\<lambda>(child2, child).
       if CBS_len child2 \<noteq> 1 \<or> CBS_len child \<noteq> 0 then op_fail
       else (let boolean = child2 ! 0
             in if boolean = 0 then op_ret False
                else if boolean = 0xff then op_ret True
                else op_fail)) r = (Ok v, rest) \<longleftrightarrow> c = der_bool v \<and> r = rest" for c r
    by (auto simp: op_bind_Ok_iff op_run_Ok_iff CBS_get_asn1_iff der_bool_def Let_def length_Suc_conv
        intro!: exI [of _ "[if v then 0xff else 0]"] split: if_splits)
  then show ?thesis
    unfolding CBS_get_optional_asn1_bool_def optional_bind_iff option.case optional_field_def
    by auto
qed

section \<open>What bit strings and object identifiers are accepted\<close>

text \<open>Bit \<open>i\<close> of a byte string, the most significant bit of the first byte being bit 0.\<close>

definition bit_at :: "byte list \<Rightarrow> nat \<Rightarrow> bool" where
  "bit_at bs i = bit (bs ! (i div 8)) (7 - i mod 8)"

definition bitstring_ok :: "nat \<Rightarrow> byte list \<Rightarrow> bool" where
  "bitstring_ok unused bs \<longleftrightarrow> unused < 8 \<and> (0 < unused \<longrightarrow> bs \<noteq> []) \<and>
     (\<forall>i\<in>{8 * length bs - unused ..< 8 * length bs}. \<not> bit_at bs i)"

lemma byte_and_low_mask: "(b :: byte) AND (push_bit n 1 - 1) = 0 \<longleftrightarrow> (\<forall>k<n. \<not> bit b k)"
proof -
  have "b AND (push_bit n 1 - 1) = take_bit n b"
    by (simp add: take_bit_eq_mask mask_eq_exp_minus_1 push_bit_eq_mult)
  then show ?thesis
    by (auto simp: bit_eq_iff bit_simps) (metis byte_bit_high linorder_not_le)
qed

lemma unused_bits_clear:
  assumes "bs \<noteq> []" and "n < 8"
  shows "(\<forall>i\<in>{8 * length bs - n ..< 8 * length bs}. \<not> bit_at bs i) \<longleftrightarrow> (\<forall>k<n. \<not> bit (List.last bs) k)"
proof -
  obtain m where m: "length bs = Suc m" using assms by (cases bs) auto
  have last_eq: "List.last bs = bs ! m" using assms m by (simp add: last_conv_nth)
  have idx: "bit_at bs (8 * m + 7 - k) = bit (bs ! m) k" if "k < 8" for k
  proof -
    have "8 * m + 7 - k = 8 * m + (7 - k)" using that by simp
    moreover have "(8 * m + (7 - k)) div 8 = m" and "(8 * m + (7 - k)) mod 8 = 7 - k" by simp_all
    ultimately show ?thesis using that by (simp add: bit_at_def)
  qed
  show ?thesis
  proof (intro iffI ballI allI impI)
    fix k assume *: "\<forall>i\<in>{8 * length bs - n ..< 8 * length bs}. \<not> bit_at bs i" and "k < n"
    then have "8 * m + 7 - k \<in> {8 * length bs - n ..< 8 * length bs}" using assms m by auto
    with * idx [of k] \<open>k < n\<close> assms show "\<not> bit (List.last bs) k" by (auto simp: last_eq)
  next
    fix i assume *: "\<forall>k<n. \<not> bit (List.last bs) k" and i: "i \<in> {8 * length bs - n ..< 8 * length bs}"
    define k where "k = 8 * m + 7 - i"
    have "k < n" "k < 8" and "i = 8 * m + 7 - k" using i m assms by (auto simp: k_def)
    with * idx [of k] show "\<not> bit_at bs i" by (simp add: last_eq)
  qed
qed

lemma CBS_get_last_u8_eq:
  "CBS_get_last_u8 cbs = (if cbs = [] then (Err, []) else (Ok (List.last cbs), butlast cbs))"
  by (simp add: CBS_get_last_u8_def last_conv_nth butlast_conv_take)

lemma CBS_is_valid_asn1_bitstring_iff:
  "CBS_is_valid_asn1_bitstring cbs \<longleftrightarrow> (\<exists>u bs. cbs = u # bs \<and> bitstring_ok (unat u) bs)"
proof (cases cbs)
  case (Cons u bs)
  have gt: "u > 7 \<longleftrightarrow> 7 < unat u" by (simp add: word_less_nat_alt)
  have z: "u = 0 \<longleftrightarrow> unat u = 0" by (simp add: unat_eq_0)
  show ?thesis
    using Cons unused_bits_clear [of bs "unat u"]
    by (auto simp: CBS_is_valid_asn1_bitstring_def CBS_get_u8_eq CBS_get_last_u8_eq gt z bitstring_ok_def
        byte_and_low_mask [simplified] simp del: unat_eq_0)
qed (simp add: CBS_is_valid_asn1_bitstring_def CBS_get_u8_eq)


lemma byte_and_bit: "(b :: byte) AND push_bit n 1 \<noteq> 0 \<longleftrightarrow> bit b n"
  by (simp add: bit_iff_and_push_bit_not_eq_0)

lemma unat_u32_and_7: "unat ((n :: u32) AND 7) = unat n mod 8"
proof -
  have "n AND 7 = take_bit 3 n" by (simp add: take_bit_eq_mask mask_eq_exp_minus_1)
  then show ?thesis by (simp only: unat_take_bit_mod) simp
qed

lemma unat_u32_byte_num: "unat (drop_bit 3 (n :: u32) + 1) = Suc (unat n div 8)"
proof -
  have "unat (drop_bit 3 n) = unat n div 8"
    by (simp only: unat_drop_bit_eq) (simp add: drop_bit_eq_div)
  moreover have "unat n div 8 + 1 < 2 ^ 32" using unat_u32 [of n] by simp
  ultimately show ?thesis by (simp add: unat_word_ariths)
qed

lemma CBS_asn1_bitstring_has_bit_iff:
  "CBS_asn1_bitstring_has_bit cbs n \<longleftrightarrow>
     (\<exists>u bs. cbs = u # bs \<and> bitstring_ok (unat u) bs \<and> unat n < 8 * length bs \<and> bit_at bs (unat n))"
proof (cases "CBS_is_valid_asn1_bitstring cbs")
  case True
  then obtain u bs where cbs: "cbs = u # bs" and ok: "bitstring_ok (unat u) bs"
    by (auto simp: CBS_is_valid_asn1_bitstring_iff)
  have "CBS_asn1_bitstring_has_bit cbs n \<longleftrightarrow>
      Suc (unat n div 8) < CBS_len cbs \<and> (cbs ! Suc (unat n div 8)) AND push_bit (7 - unat n mod 8) 1 \<noteq> 0"
    using True by (simp only: CBS_asn1_bitstring_has_bit_def Let_def unat_u32_and_7 unat_u32_byte_num
        not_True_eq_False if_False)
  also have "\<dots> \<longleftrightarrow> unat n div 8 < length bs \<and> bit_at bs (unat n)"
    unfolding byte_and_bit by (simp add: cbs bit_at_def)
  also have "unat n div 8 < length bs \<longleftrightarrow> unat n < 8 * length bs"
    by (simp add: div_less_iff_less_mult mult.commute)
  finally show ?thesis using cbs ok by simp
next
  case False
  then show ?thesis
    by (auto simp: CBS_asn1_bitstring_has_bit_def CBS_is_valid_asn1_bitstring_iff)
qed

lemma oid_loop_Nil: "oid_loop prev [] = Some prev"
  by (simp add: oid_loop.simps CBS_get_u8_eq)

lemma oid_loop_Cons:
  "oid_loop prev (v # copy) =
     (if unat prev < 128 \<and> v = 0x80 then None else oid_loop v copy)"
  by (subst oid_loop.simps) (simp add: CBS_get_u8_eq byte_and_80)

lemma b128_read_high: "b \<in> set (b128_read v) \<Longrightarrow> 128 \<le> unat b"
  using radix_digits [of 128 _ v] by (auto simp: b128_read_def unat_b128_hi split: if_splits)

lemma b128_read_hd: "b128_read v = b # bs \<Longrightarrow> b \<noteq> 0x80"
proof -
  assume b: "b128_read v = b # bs"
  then have v: "v \<noteq> 0" and r: "map b128_hi (radix 128 v) = b # bs"
    by (auto simp: b128_read_def split: if_splits)
  then have "b = b128_hi (hd (radix 128 v))" by (cases "radix 128 v") auto
  moreover have "hd (radix 128 v) < 128" using radix_digits [of 128 _ v] by simp
  moreover have "hd (radix 128 v) \<noteq> 0" using radix_hd_0 [of 128 v] v by auto
  ultimately have "unat b \<noteq> unat (0x80 :: byte)" by (simp add: unat_b128_hi)
  then show ?thesis by blast
qed

lemma oid_loop_high:
  "\<forall>b\<in>set hs. 128 \<le> unat b \<Longrightarrow> 128 \<le> unat prev \<Longrightarrow>
     oid_loop prev (hs @ r) = oid_loop (List.last (prev # hs)) r"
  by (induction hs arbitrary: prev) (auto simp: oid_loop_Cons)

lemma oid_loop_arc: "oid_loop prev (b128_enc n @ r) = oid_loop (of_nat (n mod 128)) r"
proof -
  have "b128_enc n = b128_read (n div 128) @ [of_nat (n mod 128)]"
    using b128_enc_snoc [of "n mod 128" "n div 128"] by simp
  moreover have "unat (of_nat (n mod 128) :: byte) \<noteq> unat (0x80 :: byte)"
    by (simp add: unat_of_nat_byte del: of_nat_mod)
  then have low: "oid_loop p (of_nat (n mod 128) # r) = oid_loop (of_nat (n mod 128)) r" for p
    unfolding oid_loop_Cons by metis
  ultimately show ?thesis
  proof (cases "b128_read (n div 128)")
    case (Cons b bs)
    have h: "\<forall>b\<in>set bs. 128 \<le> unat b" "128 \<le> unat b" using b128_read_high [of _ "n div 128"] Cons by auto
    have "oid_loop prev (b128_enc n @ r) = oid_loop b (bs @ of_nat (n mod 128) # r)"
      using b128_read_hd [OF Cons] Cons \<open>b128_enc n = _\<close> by (simp add: oid_loop_Cons)
    then show ?thesis by (simp only: oid_loop_high [OF h] low)
  qed (simp add: low)
qed

lemma oid_loop_arcs:
  "oid_loop prev (concat (map b128_enc ns)) =
     Some (if ns = [] then prev else of_nat (List.last ns mod 128))"
  by (induction ns arbitrary: prev) (simp_all add: oid_loop_Nil oid_loop_arc)

lemma high_run:
  "p \<noteq> [] \<Longrightarrow> \<forall>b\<in>set p. 128 \<le> unat b \<Longrightarrow> hd p \<noteq> 0x80 \<Longrightarrow> \<exists>v>0. b128_read v = p"
proof (induction p rule: rev_induct)
  case (snoc b p)
  have b: "b128_hi (unat b mod 128) = b" using snoc.prems by (intro byte_of_nat_unat_mod) simp
  show ?case
  proof (cases "p = []")
    case True
    have "unat b \<noteq> 128" using snoc.prems(3) True by (auto simp: word_unat_eq_iff)
    moreover have "128 \<le> unat b" "unat b < 256" using snoc.prems True unat_lt_256 [of b] by auto
    ultimately have "0 < unat b mod 128" by (simp add: le_mod_geq)
    then show ?thesis
      using b128_read_snoc [of 0 "unat b mod 128"] b True
      by (intro exI [of _ "unat b mod 128"]) (simp add: b128_read_def)
  next
    case False
    then obtain v where "0 < v" "b128_read v = p" using snoc by auto
    then show ?thesis
      using b128_read_snoc [of v "unat b mod 128"] b
      by (intro exI [of _ "v * 128 + unat b mod 128"]) simp
  qed
qed simp

lemma oid_loop_first_arc:
  assumes "unat prev < 128" and "oid_loop prev cbs = Some q" and "unat q < 128" and "cbs \<noteq> []"
  obtains n r where "cbs = b128_enc n @ r"
proof -
  define p where "p = takeWhile (\<lambda>b. 128 \<le> unat b) cbs"
  define s where "s = dropWhile (\<lambda>b. 128 \<le> unat b) cbs"
  have cbs: "cbs = p @ s" by (simp add: p_def s_def)
  have high: "\<forall>b\<in>set p. 128 \<le> unat b" by (auto simp: p_def dest: set_takeWhileD)
  have hd_p: "hd p \<noteq> 0x80" if "p \<noteq> []"
    using assms(1,2) that by (cases p) (auto simp: cbs oid_loop_Cons split: if_splits)
  have "s \<noteq> []"
  proof
    assume "s = []"
    with cbs assms(4) obtain b bs where p: "p = b # bs" by (cases p) auto
    have "oid_loop prev cbs = oid_loop b (bs @ [])"
      using hd_p p \<open>s = []\<close> by (simp add: cbs oid_loop_Cons)
    also have "\<dots> = Some (List.last p)"
      using high p by (subst oid_loop_high) (simp_all add: oid_loop_Nil)
    finally have "q = List.last p" using assms(2) by simp
    with high p assms(3) show False using last_in_set [of p] by fastforce
  qed
  then obtain b r where s: "s = b # r" by (cases s) auto
  have "dropWhile (\<lambda>b. 128 \<le> unat b) cbs \<noteq> []" using s by (simp add: s_def)
  then have "\<not> 128 \<le> unat (hd (dropWhile (\<lambda>b. 128 \<le> unat b) cbs))" by (rule hd_dropWhile)
  then have b: "unat b < 128" using s by (simp add: s_def)
  have bb: "of_nat (unat b) = b" by simp
  obtain v where v: "b128_read v = p"
    using high_run [of p] high hd_p by (cases "p = []") (auto simp: b128_read_def)
  have "cbs = b128_enc (v * 128 + unat b) @ r"
    using b128_enc_snoc [OF b, of v] v by (simp add: cbs s)
  then show ?thesis by (rule that)
qed

lemma oid_loop_arcs_sound:
  "unat prev < 128 \<Longrightarrow> oid_loop prev cbs = Some q \<Longrightarrow> unat q < 128 \<Longrightarrow>
     \<exists>ns. cbs = concat (map b128_enc ns)"
proof (induction "length cbs" arbitrary: prev cbs rule: less_induct)
  case less
  show ?case
  proof (cases "cbs = []")
    case True
    then show ?thesis by (intro exI [of _ "[]"]) simp
  next
    case False
    then obtain n r where cbs: "cbs = b128_enc n @ r" using oid_loop_first_arc less.prems by metis
    have "oid_loop (of_nat (n mod 128)) r = Some q" using less.prems(2) by (simp only: cbs oid_loop_arc)
    moreover have "unat (of_nat (n mod 128) :: byte) < 128" by (simp del: of_nat_mod)
    moreover have "length r < length cbs" by (simp add: cbs)
    ultimately obtain ns where "r = concat (map b128_enc ns)" using less by blast
    then show ?thesis by (intro exI [of _ "n # ns"]) (simp add: cbs)
  qed
qed

lemma CBS_is_valid_asn1_oid_iff_arcs:
  "CBS_is_valid_asn1_oid cbs \<longleftrightarrow> (\<exists>ns. ns \<noteq> [] \<and> cbs = concat (map b128_enc ns))"
proof
  assume "CBS_is_valid_asn1_oid cbs"
  then obtain q where "cbs \<noteq> []" "oid_loop 0 cbs = Some q" "unat q < 128"
    by (auto simp: CBS_is_valid_asn1_oid_def byte_and_80 split: if_splits option.splits)
  then show "\<exists>ns. ns \<noteq> [] \<and> cbs = concat (map b128_enc ns)"
    using oid_loop_arcs_sound [of 0 cbs q] by fastforce
next
  assume "\<exists>ns. ns \<noteq> [] \<and> cbs = concat (map b128_enc ns)"
  then obtain ns where ns: "ns \<noteq> []" "cbs = concat (map b128_enc ns)" by blast
  then have "cbs \<noteq> []" by (cases ns) auto
  moreover have "unat (of_nat (List.last ns mod 128) :: byte) < 128" by (simp del: of_nat_mod)
  ultimately show "CBS_is_valid_asn1_oid cbs"
    using ns oid_loop_arcs [of 0 ns] by (simp add: CBS_is_valid_asn1_oid_def byte_and_80 del: of_nat_mod)
qed

section \<open>Properties\<close>

text \<open>
  C10. The signed integer reader accepts exactly the INTEGER elements whose contents are the
  minimal two's complement of a 64-bit value, and returns that value.
\<close>

theorem int64_read: "CBS_get_asn1_int64 cbs = (Ok v, rest) \<longleftrightarrow> cbs = der_integer (sint v) @ rest"
  by (rule CBS_get_asn1_int64_iff_val)

text \<open>The unsigned integer reader does so for the values of 0 to 2^64 - 1.\<close>

theorem uint64_read:
  "CBS_get_asn1_uint64 cbs = (Ok v, rest) \<longleftrightarrow> cbs = der_integer (int (unat v)) @ rest"
  by (rule CBS_get_asn1_uint64_iff_val)

text \<open>
  An optional field with a default is absent, and the default is returned and nothing
  consumed, or it is the field's element holding exactly one value.
\<close>

theorem optional_read:
  "(CBS_get_optional_asn1_uint64 tag d cbs = (Ok v, rest) \<longleftrightarrow>
     optional_field tag d (\<lambda>v. der_integer (int (unat v))) cbs v rest) \<and>
   (CBS_get_optional_asn1_bool tag e cbs = (Ok b, rest) \<longleftrightarrow>
     optional_field tag e der_bool cbs b rest)"
  by (intro conjI CBS_get_optional_asn1_uint64_iff CBS_get_optional_asn1_bool_iff)

text \<open>
  A named bit of a BIT STRING is read as set exactly when the string is valid (at most
  seven unused bits, all of them zero), long enough, and has the bit set.
\<close>

theorem bitstring_bit:
  "CBS_asn1_bitstring_has_bit cbs n \<longleftrightarrow>
     (\<exists>u bs. cbs = u # bs \<and> bitstring_ok (unat u) bs \<and> unat n < 8 * length bs \<and> bit_at bs (unat n))"
  by (rule CBS_asn1_bitstring_has_bit_iff)

text \<open>
  The contents of an OBJECT IDENTIFIER are valid exactly when they are a non-empty
  sequence of minimal base-128 integers, of any size.
\<close>

theorem oid_valid: "CBS_is_valid_asn1_oid cbs \<longleftrightarrow> (\<exists>ns. ns \<noteq> [] \<and> cbs = concat (map b128_enc ns))"
  by (rule CBS_is_valid_asn1_oid_iff_arcs)

end
