(* ===== verification/Cbb_Asn1.thy ===== *)
theory Cbb_Asn1
  imports Cbb_Build Cbs_Values
begin

text \<open>
  crypto/bytestring/cbb.c, the ASN.1 writers: base-128 integers, element headers, integers,
  booleans and octet strings, with their contracts.
\<close>

section \<open>Base-128 integers and elements\<close>

function b128_len_loop :: "u64 \<Rightarrow> nat" where
  "b128_len_loop copy = (if copy > 0 then Suc (b128_len_loop (drop_bit 7 copy)) else 0)"
  by pat_completeness auto
termination
proof (relation "measure unat")
  fix copy :: u64
  assume "0 < copy"
  then have "unat copy div 128 < unat copy" by (simp add: word_less_nat_alt)
  then show "(drop_bit 7 copy, copy) \<in> measure unat"
    by (simp only: in_measure unat_drop_bit_eq) (simp add: drop_bit_eq_div)
qed simp

declare b128_len_loop.simps [simp del]

fun add_base128_loop :: "nat \<Rightarrow> u64 \<Rightarrow> nat \<Rightarrow> (CBB, unit) op" where
  "add_base128_loop d v 0 = op_ret ()"
| "add_base128_loop d v (Suc i) =
     (let b = ucast (drop_bit (7 * i) v) AND 0x7f
      in op_then (CBB_add_u8 d (if i \<noteq> 0 then b OR 0x80 else b)) (add_base128_loop d v i))"

definition add_base128_integer :: "nat \<Rightarrow> u64 \<Rightarrow> (CBB, unit) op" where
  "add_base128_integer d v =
     (let len_len = b128_len_loop v;
          len_len = (if len_len = 0 then 1 else len_len)
      in add_base128_loop d v len_len)"

definition CBB_add_asn1 :: "nat \<Rightarrow> CBS_ASN1_TAG \<Rightarrow> (CBB, unit) op" where
  "CBB_add_asn1 d tag =
     op_then (CBB_flush d)
      (let tag_bits = ucast (drop_bit CBS_ASN1_TAG_SHIFT tag) AND 0xe0 :: byte;
           tag_number = tag AND CBS_ASN1_TAG_NUMBER_MASK
       in op_then
            (if tag_number \<ge> 0x1f then
               op_then (CBB_add_u8 d (tag_bits OR 0x1f)) (add_base128_integer d (ucast tag_number))
             else CBB_add_u8 d (tag_bits OR ucast tag_number))
            (cbb_add_child d 1 True))"

section \<open>Values\<close>

text \<open>The loop over the eight bytes, the most significant first; the result is \<open>started\<close>.\<close>

fun asn1_uint64_bytes :: "nat \<Rightarrow> u64 \<Rightarrow> nat \<Rightarrow> bool \<Rightarrow> (CBB, bool) op" where
  "asn1_uint64_bytes d value 0 started = op_ret started"
| "asn1_uint64_bytes d value (Suc k) started =
     (let b = ucast (drop_bit (8 * k) value) :: byte
      in if \<not> started \<and> b = 0 then asn1_uint64_bytes d value k started
         else op_then
                (if \<not> started \<and> b AND 0x80 \<noteq> 0 then CBB_add_u8 d 0 else op_ret ())
                (op_then (CBB_add_u8 d b) (asn1_uint64_bytes d value k True)))"

definition CBB_add_asn1_uint64_with_tag :: "nat \<Rightarrow> u64 \<Rightarrow> CBS_ASN1_TAG \<Rightarrow> (CBB, unit) op" where
  "CBB_add_asn1_uint64_with_tag d value tag =
     op_then
      (or_on_error d
        (op_then (CBB_add_asn1 d tag)
          (op_bind (asn1_uint64_bytes (Suc d) value 8 False) (\<lambda>started.
             if \<not> started then CBB_add_u8 (Suc d) 0 else op_ret ()))))
      (CBB_flush d)"

definition CBB_add_asn1_uint64 :: "nat \<Rightarrow> u64 \<Rightarrow> (CBB, unit) op" where
  "CBB_add_asn1_uint64 d value = CBB_add_asn1_uint64_with_tag d value CBS_ASN1_INTEGER"

text \<open>\<open>bytes\<close> holds the value as the machine stores it: least significant byte first.\<close>

fun int64_start :: "byte list \<Rightarrow> nat \<Rightarrow> nat" where
  "int64_start bytes 0 = 0"
| "int64_start bytes (Suc k) =
     (if bytes ! Suc k = 0xff \<and> bytes ! k AND 0x80 \<noteq> 0 then int64_start bytes k else Suc k)"

fun asn1_int64_bytes :: "nat \<Rightarrow> byte list \<Rightarrow> nat \<Rightarrow> (CBB, unit) op" where
  "asn1_int64_bytes d bytes 0 = op_ret ()"
| "asn1_int64_bytes d bytes (Suc i) =
     op_then (CBB_add_u8 d (bytes ! i)) (asn1_int64_bytes d bytes i)"

definition CBB_add_asn1_int64_with_tag :: "nat \<Rightarrow> u64 \<Rightarrow> CBS_ASN1_TAG \<Rightarrow> (CBB, unit) op" where
  "CBB_add_asn1_int64_with_tag d value tag =
     (if sint value \<ge> 0 then CBB_add_asn1_uint64_with_tag d value tag
      else (let bytes = rev (be_bytes 8 (unat value));
                start = int64_start bytes 7
            in op_then
                (or_on_error d
                  (op_then (CBB_add_asn1 d tag) (asn1_int64_bytes (Suc d) bytes (Suc start))))
                (CBB_flush d)))"

definition CBB_add_asn1_int64 :: "nat \<Rightarrow> u64 \<Rightarrow> (CBB, unit) op" where
  "CBB_add_asn1_int64 d value = CBB_add_asn1_int64_with_tag d value CBS_ASN1_INTEGER"

definition CBB_add_asn1_octet_string :: "nat \<Rightarrow> byte list \<Rightarrow> nat \<Rightarrow> (CBB, unit) op" where
  "CBB_add_asn1_octet_string d data data_len =
     or_on_error d
      (op_then (CBB_add_asn1 d CBS_ASN1_OCTETSTRING)
        (op_then (CBB_add_bytes (Suc d) data data_len) (CBB_flush d)))"

definition CBB_add_asn1_bool :: "nat \<Rightarrow> int \<Rightarrow> (CBB, unit) op" where
  "CBB_add_asn1_bool d value =
     or_on_error d
      (op_then (CBB_add_asn1 d CBS_ASN1_BOOLEAN)
        (op_then (CBB_add_u8 (Suc d) (if value \<noteq> 0 then 0xff else 0)) (CBB_flush d)))"

section \<open>Writes inside a child\<close>

lemma drop_take_Suc: "take (Suc d) xs = ys @ [y] \<Longrightarrow> length ys = d \<Longrightarrow> drop d xs = y # drop (Suc d) xs"
proof -
  assume t: "take (Suc d) xs = ys @ [y]" and l: "length ys = d"
  have "xs = ys @ [y] @ drop (Suc d) xs" using append_take_drop_id [of "Suc d" xs] unfolding t by simp
  then have "drop d xs = drop d (ys @ [y] @ drop (Suc d) xs)" by simp
  then show ?thesis using l by simp
qed

lemma cbb_writer_child:
  assumes o1: "cbb_opener m d t a n c1" and w: "cbb_writer k (Suc d) x c2 ok cl"
  shows "cbb_writer (op_then m k) d (t @ spec_prefix a n x) (c1 + c2) (ok \<and> spec_fits a n x) False"
proof
  fix s segs r s'
  assume b: "builds s segs" and d: "d \<le> length (cbb_children s)" and run: "op_then m k s = (r, s')"
  obtain r1 s1 where m: "m s = (r1, s1)" by fastforce
  note op = cbb_opener.opens [OF o1 b d m]
  show "written d (t @ spec_prefix a n x) (c1 + c2) (ok \<and> spec_fits a n x) False s segs r s'"
  proof (cases r1)
    case (Ok u)
    define A where "A = add_last (spec_flush d (kinds s) segs) t"
    have s1: "length (cbb_children s1) = Suc d" "take d (cbb_children s1) = take d (cbb_children s)"
      "kinds s1 = take d (kinds s) @ [(a, n)]" "builds s1 (A @ [[]])" "fits_below d s segs"
      "cbb_phi s1 \<le> cbb_phi s + c1" "keeps_room s s1"
      using op Ok by (simp_all add: opened_def A_def)
    have lenA: "length A = Suc d"
      using builds_length_flush [OF b d] by (simp add: A_def add_last_def)
    obtain A0 p where A: "A = A0 @ [p]" "length A0 = d" using lenA by (metis length_Suc_conv_rev)
    have k: "k s1 = (r, s')" using run m Ok by (simp add: op_then_apply)
    have flat: "spec_flush (Suc d) (kinds s1) (A @ [[]]) = A @ [[]]"
      using lenA s1(1) by (intro spec_flush_length) (simp_all add: kinds_def)
    have fit1: "fits_below (Suc d) s1 (A @ [[]])" using s1(1) by simp
    note w1 = cbb_writer.writes [OF w s1(4) _ k]
    show ?thesis
    proof (cases r)
      case r: (Ok v)
      have "written (Suc d) x c2 ok cl s1 (A @ [[]]) (Ok v) s'" using w1 s1(1) r by simp
      then obtain segs' where s': "builds s' segs'" "Suc d \<le> length (cbb_children s')"
        "take (Suc d) (cbb_children s') = take (Suc d) (cbb_children s1)"
        "spec_flush (Suc d) (kinds s') segs' = A @ [x]" "fits_below (Suc d) s' segs' \<longleftrightarrow> ok"
        "cbb_phi s' \<le> cbb_phi s1 + c2" "keeps_room s1 s'"
        by (rule written_OkE) (rule that; (assumption | simp add: flat))
      have tk: "take d (cbb_children s') = take d (cbb_children s)"
        proof -
        have "take d (take (Suc d) (cbb_children s')) = take d (take (Suc d) (cbb_children s1))"
          by (simp only: s'(3))
        then show ?thesis using s1(2) by (simp add: min_def)
      qed
      have dl: "d < length (cbb_children s')" using s'(2) by simp
      have lk: "length (take d (kinds s)) = d" using d by (simp add: kinds_def)
      have tk1: "take (Suc d) (kinds s') = take d (kinds s) @ [(a, n)]"
        using s'(3) s1(1,3) by (simp add: kinds_def take_map)
      have kd: "drop d (kinds s') = (a, n) # drop (Suc d) (kinds s')"
        using drop_take_Suc [OF tk1 lk] .
      have sp: "take (Suc d) segs' @ [collapse (drop (Suc d) (kinds s')) (drop (Suc d) segs')] = A @ [x]"
        using s'(4) by (simp only: spec_flush_def)
      then have tA: "take (Suc d) segs' = A0 @ [p]"
        and cx: "collapse (drop (Suc d) (kinds s')) (drop (Suc d) segs') = x"
        by (simp_all add: A(1))
      have sd: "drop d segs' = p # drop (Suc d) segs'" by (rule drop_take_Suc [OF tA A(2)])
      have "take d (take (Suc d) segs') = A0" using A(2) by (simp add: tA)
      then have td: "take d segs' = A0" by (simp add: min_def)
      have "spec_flush d (kinds s') segs' = A0 @ [p @ spec_prefix a n x]"
        by (simp add: spec_flush_def kd sd td cx)
      also have "\<dots> = add_last (spec_flush d (kinds s) segs) (t @ spec_prefix a n x)"
      proof -
        obtain B q where B: "spec_flush d (kinds s) segs = B @ [q]" by (auto simp: spec_flush_def)
        then have "A0 @ [p] = B @ [q @ t]" using A(1) by (simp add: A_def)
        then show ?thesis using B by simp
      qed
      finally have view: "spec_flush d (kinds s') segs' = \<dots>" .
      have "fits_below d s' segs' \<longleftrightarrow> ok \<and> spec_fits a n x"
        using s'(5) by (simp add: fits_below_def kd sd cx)
      then show ?thesis
        using s' s1 tk view r dl keeps_room_trans [OF s1(7) s'(7)] by (auto simp: written_def)
    next
      case Err
      then show ?thesis
        using w1 s1 fit1 keeps_room_trans [OF s1(7)] keeps_roomD [OF s1(7)]
        by (force simp: written_def)
    next
      case Abort
      then show ?thesis using w1 s1(1) by (simp add: written_def)
    qed
  next
    case Err
    then have "r = Err" "s' = s1" using run m by (simp_all add: op_then_apply)
    then show ?thesis using op Err by (auto simp: written_def opened_def)
  next
    case Abort
    then show ?thesis using op by (simp add: opened_def)
  qed
qed

text \<open>Locking the builder when a write fails.\<close>

lemma cbb_writer_on_error:
  assumes "cbb_writer m d x c ok cl" shows "cbb_writer (or_on_error d m) d x c ok cl"
proof
  fix s segs r s'
  assume b: "builds s segs" and d: "d \<le> length (cbb_children s)" and run: "or_on_error d m s = (r, s')"
  obtain r1 s1 where m: "m s = (r1, s1)" by fastforce
  note w = cbb_writer.writes [OF assms b d m]
  show "written d x c ok cl s segs r s'"
  proof (cases r1)
    case Err
    define s2 where "s2 = s1\<lparr>cbb_base := (cbb_base s1)\<lparr>cbb_error := True\<rparr>, cbb_children := take d (cbb_children s1),
      cbb_cut := cbb_cut s1 + (length (cbb_children s1) - d)\<rparr>"
    have l: "d \<le> length (cbb_children s1)" using w Err by (simp add: written_def)
    then have "r = Err" "s' = s2"
      using run m Err by (simp_all add: or_on_error_def cbb_on_error_def cbb_get_base_def s2_def)
    moreover have "keeps_room s1 s2" by (simp add: keeps_room_def s2_def room_def)
    ultimately show ?thesis
      using w Err l keeps_room_trans [of s s1 s2] by (auto simp: written_def s2_def)
  qed (use w run m in \<open>auto simp: or_on_error_def\<close>)
qed

section \<open>Base-128 integers\<close>

definition b128_byte :: "nat \<Rightarrow> nat \<Rightarrow> byte" where
  "b128_byte v i = (if i \<noteq> 0 then b128_hi (v div 128 ^ i mod 128) else of_nat (v mod 128))"

lemma byte_or_80: "unat b < 128 \<Longrightarrow> b OR 0x80 = of_nat (128 + unat (b :: byte))"
proof -
  assume b: "unat b < 128"
  then have "b AND 0x80 = 0" by (simp only: byte_and_80)
  then have b7: "\<not> bit b 7" using and_exp_eq_0_iff_not_bit [of b 7] by simp
  have "b OR 0x80 = b + 0x80"
  proof (rule disjunctive_add [symmetric])
    fix k
    show "\<not> bit b k \<or> \<not> bit (0x80 :: byte) k"
      using b7 bit_exp_iff [of 7 k, where 'a = byte] by (cases "k = 7") simp_all
  qed
  then show ?thesis by (simp add: add.commute)
qed

lemma add_base128_byte:
  "(let b = ucast (drop_bit (7 * i) (v :: u64)) AND 0x7f in if i \<noteq> 0 then b OR 0x80 else b) =
     b128_byte (unat v) i"
proof -
  define b where "b = (ucast (drop_bit (7 * i) v) AND 0x7f :: byte)"
  have "unat (ucast (drop_bit (7 * i) v) :: byte) = unat v div 128 ^ i mod 256"
    by (simp only: unsigned_ucast_eq unat_drop_bit_eq) (simp add: take_bit_eq_mod drop_bit_eq_div power_mult)
  then have b: "unat b = unat v div 128 ^ i mod 128"
    unfolding b_def byte_and_7f by (simp add: mod_mod_cancel)
  have "b = of_nat (unat b)" by simp
  then show ?thesis
    unfolding b_def [symmetric] Let_def using byte_or_80 [of b] b by (simp add: b128_byte_def b128_hi_def)
qed

lemma b128_bytes_read:
  "128 ^ n \<le> v \<Longrightarrow> v < 128 ^ Suc n \<Longrightarrow>
     map (\<lambda>i. b128_hi (v div 128 ^ i mod 128)) (rev [0..<Suc n]) = b128_read v"
proof (induction n arbitrary: v)
  case 0
  then show ?case by (simp add: b128_read_def radix_small)
next
  case (Suc n)
  define q r where "q = v div 128" and "r = v mod 128"
  have v: "v = q * 128 + r" "r < 128" by (simp_all add: q_def r_def)
  have q: "128 ^ n \<le> q" "q < 128 ^ Suc n"
    using Suc.prems by (simp_all add: q_def less_mult_imp_div_less mult.commute)
  have "v div 128 ^ Suc i mod 128 = q div 128 ^ i mod 128" for i by (simp add: q_def div_mult2_eq)
  then have "map (\<lambda>i. b128_hi (v div 128 ^ i mod 128)) (rev [0..<Suc (Suc n)]) =
      map (\<lambda>i. b128_hi (q div 128 ^ i mod 128)) (rev [0..<Suc n]) @ [b128_hi r]"
    by (subst upt_rec) (simp add: map_Suc_upt [symmetric] rev_map [symmetric] r_def comp_def del: upt_Suc)
  also have "\<dots> = b128_read v"
    using Suc.IH [OF q] b128_read_snoc [of q r] q v by (cases "q = 0") auto
  finally show ?case .
qed

lemma b128_bytes_enc:
  "v < 128 ^ Suc n \<Longrightarrow> (n \<noteq> 0 \<longrightarrow> 128 ^ n \<le> v) \<Longrightarrow> map (b128_byte v) (rev [0..<Suc n]) = b128_enc v"
proof (cases n)
  case 0
  assume "v < 128 ^ Suc n"
  with 0 show ?thesis using b128_enc_snoc [of v 0] by (simp add: b128_byte_def b128_read_def)
next
  case (Suc k)
  assume v: "v < 128 ^ Suc n" "n \<noteq> 0 \<longrightarrow> 128 ^ n \<le> v"
  define q r where "q = v div 128" and "r = v mod 128"
  have vq: "v = q * 128 + r" "r < 128" by (simp_all add: q_def r_def)
  have q: "128 ^ k \<le> q" "q < 128 ^ Suc k"
    using v Suc by (simp_all add: q_def less_mult_imp_div_less mult.commute)
  have "b128_byte v (Suc i) = b128_hi (q div 128 ^ i mod 128)" for i
    by (simp add: b128_byte_def q_def div_mult2_eq)
  then have "map (b128_byte v) (rev [0..<Suc n]) =
      map (\<lambda>i. b128_hi (q div 128 ^ i mod 128)) (rev [0..<Suc k]) @ [of_nat r]"
    unfolding Suc
    by (subst upt_rec) (simp add: map_Suc_upt [symmetric] rev_map [symmetric] b128_byte_def r_def comp_def del: upt_Suc)
  also have "\<dots> = b128_enc v"
    using b128_bytes_read [OF q] b128_enc_snoc [of r q] vq by simp
  finally show ?thesis .
qed

lemma cbb_writer_base128_loop:
  "cbb_writer (add_base128_loop d v (Suc n)) d (map (b128_byte (unat v)) (rev [0..<Suc n])) (Suc n) True True"
proof (induction n)
  case 0
  show ?case
    using add_u8.cbb_writer_axioms [of d "b128_byte (unat v) 0"] add_base128_byte [of 0 v]
    by (simp add: op_then_ret_unit Let_def)
next
  case (Suc n)
  have "cbb_writer (op_then (CBB_add_u8 d (b128_byte (unat v) (Suc n))) (add_base128_loop d v (Suc n))) d
      ([b128_byte (unat v) (Suc n)] @ map (b128_byte (unat v)) (rev [0..<Suc n])) (1 + Suc n) (True \<and> True) True"
    by (rule cbb_writer_then [OF add_u8.cbb_writer_axioms Suc])
  then show ?case using add_base128_byte [of "Suc n" v]
    by (simp add: Let_def del: add_base128_loop.simps) (simp add: Let_def)
qed

lemma b128_len_loop_range:
  "0 < v \<Longrightarrow> \<exists>n. b128_len_loop v = Suc n \<and> 128 ^ n \<le> unat v \<and> unat v < 128 ^ Suc n"
proof (induction v rule: b128_len_loop.induct)
  case (1 v)
  have u: "unat (drop_bit 7 v) = unat v div 128"
    by (simp only: unat_drop_bit_eq) (simp add: drop_bit_eq_div)
  show ?case
  proof (cases "0 < drop_bit 7 v")
    case True
    then obtain n where n: "b128_len_loop (drop_bit 7 v) = Suc n" "128 ^ n \<le> unat v div 128"
      "unat v div 128 < 128 ^ Suc n" using 1 u by auto
    then have "128 ^ Suc n \<le> unat v" "unat v < 128 ^ Suc (Suc n)"
      by (simp_all add: less_eq_div_iff_mult_less_eq div_less_iff_less_mult mult.commute)
    with n 1(2) show ?thesis by (subst b128_len_loop.simps) simp
  next
    case False
    then have "drop_bit 7 v = 0" by (simp only: word_gt_0 not_not)
    then have "unat (drop_bit 7 v) = 0" by simp
    then have "unat v div 128 = 0" by (simp only: u)
    then have "unat v < 128" by (simp add: div_eq_0_iff)
    moreover have "b128_len_loop v = Suc 0"
      using 1(2) False by (subst b128_len_loop.simps, subst b128_len_loop.simps) simp
    ultimately show ?thesis using 1(2) by (simp add: word_less_nat_alt)
  qed
qed

lemma cbb_writer_base128:
  "cbb_writer (add_base128_integer d v) d (b128_enc (unat v)) (length (b128_enc (unat v))) True True"
proof -
  obtain n where n: "add_base128_integer d v = add_base128_loop d v (Suc n)" "unat v < 128 ^ Suc n"
    "n \<noteq> 0 \<longrightarrow> 128 ^ n \<le> unat v"
  proof (cases "0 < v")
    case True
    with b128_len_loop_range [OF True] that show ?thesis by (auto simp: add_base128_integer_def)
  next
    case False
    then have "v = 0" by (simp only: word_gt_0 not_not)
    moreover have "b128_len_loop 0 = 0" by (subst b128_len_loop.simps) simp
    ultimately show ?thesis using that [of 0] by (simp add: add_base128_integer_def)
  qed
  note e = b128_bytes_enc [OF n(2,3)]
  have "length (map (b128_byte (unat v)) (rev [0..<Suc n])) = Suc n" by simp
  then have "length (b128_enc (unat v)) = Suc n" unfolding e .
  with cbb_writer_base128_loop [of d v n] show ?thesis by (simp only: n(1) e)
qed

section \<open>Element headers\<close>

lemma cbb_writer_u8: "b = b' \<Longrightarrow> cbb_writer (CBB_add_u8 d b) d [b'] 1 True True"
  using add_u8.cbb_writer_axioms by simp

lemma ucast_tag_number: "unat (tag AND CBS_ASN1_TAG_NUMBER_MASK) < 31 \<Longrightarrow>
  (ucast (tag AND CBS_ASN1_TAG_NUMBER_MASK) :: byte) = of_nat (unat (tag AND CBS_ASN1_TAG_NUMBER_MASK))"
  by (simp add: of_nat_unat)

lemma cbb_writer_tag:
  "cbb_writer
     (let tag_bits = ucast (drop_bit CBS_ASN1_TAG_SHIFT tag) AND 0xe0 :: byte;
          tag_number = tag AND CBS_ASN1_TAG_NUMBER_MASK
      in if tag_number \<ge> 0x1f then
           op_then (CBB_add_u8 d (tag_bits OR 0x1f)) (add_base128_integer d (ucast tag_number))
         else CBB_add_u8 d (tag_bits OR ucast tag_number))
     d (der_tag tag) (length (der_tag tag)) True True"
proof -
  define tag_bits :: byte where "tag_bits = ucast (drop_bit CBS_ASN1_TAG_SHIFT tag) AND 0xe0"
  define n where "n = tag AND CBS_ASN1_TAG_NUMBER_MASK"
  have ge: "0x1f \<le> n \<longleftrightarrow> 31 \<le> unat n" by (simp add: word_le_nat_alt)
  have u: "unat (ucast n :: u64) = unat n" by (simp add: unat_ucast_up)
  show ?thesis
  proof (cases "31 \<le> unat n")
    case True
    have t: "der_tag tag = [tag_bits OR 0x1f] @ b128_enc (unat n)"
      using True by (simp add: der_tag_def Let_def tag_bits_def n_def)
    have "cbb_writer (op_then (CBB_add_u8 d (tag_bits OR 0x1f)) (add_base128_integer d (ucast n)))
        d (der_tag tag) (1 + length (b128_enc (unat n))) (True \<and> True) True"
      unfolding t using cbb_writer_then [OF cbb_writer_u8 [OF refl] cbb_writer_base128 [of d "ucast n"]]
      by (simp only: u)
    then show ?thesis using True ge t by (simp add: Let_def tag_bits_def [symmetric] n_def [symmetric])
  next
    case False
    have t: "der_tag tag = [tag_bits OR of_nat (unat n)]"
      using False by (simp add: der_tag_def Let_def tag_bits_def n_def)
    show ?thesis using False ge cbb_writer_u8 [of "tag_bits OR ucast n" "tag_bits OR of_nat (unat n)" d]
      by (simp add: t Let_def tag_bits_def [symmetric] n_def [symmetric] of_nat_unat)
  qed
qed

interpretation asn1_opener: cbb_opener "CBB_add_asn1 d tag" d "der_tag tag" True 1
    "length (der_tag tag) + 5" for d tag
proof -
  have "cbb_opener (op_then (op_then (CBB_flush d)
     (let tag_bits = ucast (drop_bit CBS_ASN1_TAG_SHIFT tag) AND 0xe0 :: byte;
          tag_number = tag AND CBS_ASN1_TAG_NUMBER_MASK
      in if tag_number \<ge> 0x1f then
           op_then (CBB_add_u8 d (tag_bits OR 0x1f)) (add_base128_integer d (ucast tag_number))
         else CBB_add_u8 d (tag_bits OR ucast tag_number)))
     (cbb_add_child d 1 True)) d ([] @ der_tag tag) True 1 (0 + length (der_tag tag) + 1 + 4)"
    by (rule cbb_opener_child [OF cbb_writer_then [OF cbb_writer_flush cbb_writer_tag]]) simp_all
  then show "cbb_opener (CBB_add_asn1 d tag) d (der_tag tag) True 1 (length (der_tag tag) + 5)"
    by (simp add: CBB_add_asn1_def op_then_assoc Let_def add.commute)
qed

lemma der_element_prefix: "der_element tag x = der_tag tag @ spec_prefix True 1 x"
  by (simp add: der_element_def der_header_def spec_prefix_def)

lemma cbb_writer_element:
  assumes "cbb_writer k (Suc d) x c ok cl"
  shows "cbb_writer (op_then (CBB_add_asn1 d tag) k) d (der_element tag x) (length (der_tag tag) + 5 + c)
    (ok \<and> length x \<le> 0xfffffffe) False"
  using cbb_writer_child [OF asn1_opener.cbb_opener_axioms assms]
  by (simp add: der_element_prefix spec_fits_def)

lemma cbb_writer_flushed:
  assumes "cbb_writer m d x c ok cl" shows "cbb_writer (op_then m (CBB_flush d)) d x c ok True"
  using cbb_writer_then [OF assms cbb_writer_flush] by simp

lemma cbb_writer_value:
  assumes "cbb_writer k (Suc d) x c True cl" and "length x \<le> 0xfffffffe"
  shows "cbb_writer (op_then (or_on_error d (op_then (CBB_add_asn1 d tag) k)) (CBB_flush d))
    d (der_element tag x) (length (der_tag tag) + 5 + c) True True"
  using cbb_writer_flushed [OF cbb_writer_on_error [OF cbb_writer_element [OF assms(1)]]] assms(2)
  by simp

lemma cbb_writer_value_inside:
  assumes "cbb_writer k (Suc d) x c True cl" and "length x \<le> 0xfffffffe"
  shows "cbb_writer (or_on_error d (op_then (CBB_add_asn1 d tag) (op_then k (CBB_flush d))))
    d (der_element tag x) (length (der_tag tag) + 5 + c) True True"
  using cbb_writer_on_error [OF cbb_writer_flushed [OF cbb_writer_element [OF assms(1)]]] assms(2)
  by (simp add: op_then_assoc)

section \<open>Integers, booleans and octet strings\<close>

lemma be_bytes_Cons: "be_bytes (Suc n) v = of_nat (v div 256 ^ n) # be_bytes n v"
  by (induction n arbitrary: v) (simp_all add: div_mult2_eq)

lemma u64_byte: "(ucast (drop_bit (8 * k) (v :: u64)) :: byte) = of_nat (unat v div 256 ^ k)"
proof -
  have "unat (ucast (drop_bit (8 * k) v) :: byte) = unat (of_nat (unat v div 256 ^ k) :: byte)"
    by (simp only: unsigned_ucast_eq unat_drop_bit_eq unat_of_nat_byte)
       (simp add: take_bit_eq_mod drop_bit_eq_div power_mult)
  then show ?thesis by (simp only: word_unat_eq_iff)
qed

fun uint64_contents :: "nat \<Rightarrow> nat \<Rightarrow> byte list" where
  "uint64_contents 0 v = [0]"
| "uint64_contents (Suc k) v =
     (let b = of_nat (v div 256 ^ k) :: byte
      in if b = 0 then uint64_contents k v
         else (if 128 \<le> unat b then [0] else []) @ be_bytes (Suc k) v)"

abbreviation uint64_tail :: "nat \<Rightarrow> u64 \<Rightarrow> nat \<Rightarrow> bool \<Rightarrow> (CBB, unit) op" where
  "uint64_tail d v k started \<equiv>
     op_bind (asn1_uint64_bytes d v k started) (\<lambda>started. if \<not> started then CBB_add_u8 d 0 else op_ret ())"

lemma uint64_tail_started: "uint64_tail d v (Suc k) True =
    op_then (CBB_add_u8 d (of_nat (unat v div 256 ^ k))) (uint64_tail d v k True)"
  by (simp add: op_ret_then op_bind_then u64_byte)

lemma cbb_writer_started:
  "cbb_writer m d x c True True \<Longrightarrow>
     cbb_writer (op_then m (uint64_tail d v k True)) d (x @ be_bytes k (unat v)) (c + k) True True"
proof (induction k arbitrary: m x c)
  case 0
  have "uint64_tail d v 0 True = op_ret ()" by (rule ext) (simp add: op_bind_apply)
  with 0 show ?case by (simp only: op_then_ret_unit be_bytes.simps(1) append_Nil2 add_0_right)
next
  case (Suc k)
  let ?b = "of_nat (unat v div 256 ^ k) :: byte"
  have "cbb_writer (op_then m (CBB_add_u8 d ?b)) d (x @ [?b]) (c + 1) (True \<and> True) True"
    by (rule cbb_writer_then [OF Suc.prems cbb_writer_u8]) simp
  from Suc.IH [OF this [unfolded conj_absorb]] show ?case
    unfolding uint64_tail_started be_bytes_Cons by (simp add: op_then_assoc)
qed

lemma cbb_writer_uint64_tail:
  "cbb_writer (uint64_tail d v k False) d (uint64_contents k (unat v)) (k + 1) True True"
proof (induction k)
  case 0
  have "uint64_tail d v 0 False = CBB_add_u8 d 0" by (rule ext) (simp add: op_bind_apply)
  then show ?case using cbb_writer_u8 [of 0 0 d] by (simp only: uint64_contents.simps(1) add_0)
next
  case (Suc k)
  define b :: byte where "b = of_nat (unat v div 256 ^ k)"
  show ?case
  proof (cases "b = 0")
    case True
    then have "asn1_uint64_bytes d v (Suc k) False = asn1_uint64_bytes d v k False"
      "uint64_contents (Suc k) (unat v) = uint64_contents k (unat v)"
      by (simp_all add: u64_byte b_def [symmetric])
    then show ?thesis using cbb_writer_mono [OF Suc] by simp
  next
    case b: False
    have a80: "b AND 0x80 \<noteq> 0 \<longleftrightarrow> 128 \<le> unat b" by (simp only: byte_and_80 not_less)
    have be: "be_bytes (Suc k) (unat v) = b # be_bytes k (unat v)" by (simp only: be_bytes_Cons b_def)
    have t: "uint64_tail d v (Suc k) False =
        op_then (if 128 \<le> unat b then CBB_add_u8 d 0 else op_ret ()) (op_then (CBB_add_u8 d b) (uint64_tail d v k True))"
      using b a80 by (simp add: op_bind_then u64_byte b_def [symmetric])
    show ?thesis
    proof (cases "128 \<le> unat b")
      case True
      have "cbb_writer (op_then (CBB_add_u8 d 0) (CBB_add_u8 d b)) d ([0] @ [b]) (1 + 1) (True \<and> True) True"
        by (rule cbb_writer_then [OF cbb_writer_u8 cbb_writer_u8]) simp_all
      from cbb_writer_started [OF this [unfolded conj_absorb], of v k] show ?thesis
        unfolding t using True b be by (simp add: op_then_assoc Let_def b_def [symmetric] del: be_bytes.simps)
    next
      case False
      have "cbb_writer (op_then (CBB_add_u8 d b) (uint64_tail d v k True)) d ([b] @ be_bytes k (unat v)) (1 + k) True True"
        by (rule cbb_writer_started [OF cbb_writer_u8]) simp
      from cbb_writer_mono [OF this] show ?thesis
        unfolding t using False b be by (simp add: op_ret_then Let_def b_def [symmetric] del: be_bytes.simps)
    qed
  qed
qed

lemma uint64_contents_val: "int_minimal (uint64_contents k v) \<and> int_val (uint64_contents k v) = int (v mod 256 ^ k)"
proof (induction k)
  case 0
  show ?case by (simp add: int_minimal_def int_val_def)
next
  case (Suc k)
  define b :: byte where "b = of_nat (v div 256 ^ k)"
  have ub: "unat b = v div 256 ^ k mod 256" by (simp add: b_def)
  have vm: "v mod 256 ^ Suc k = unat b * 256 ^ k + v mod 256 ^ k"
    by (simp add: ub power_Suc2 mod_mult2_eq del: power_Suc)
  have be: "be_bytes (Suc k) v = b # be_bytes k v" by (simp only: be_bytes_Cons b_def)
  show ?case
  proof (cases "b = 0")
    case True
    then have "unat b = 0" by simp
    with vm True Suc show ?thesis by (simp add: b_def [symmetric] del: power_Suc)
  next
    case False
    have val: "be_val (be_bytes (Suc k) v) = v mod 256 ^ Suc k" by (rule be_val_be_bytes)
    have c: "uint64_contents (Suc k) v = (if 128 \<le> unat b then [0] else []) @ be_bytes (Suc k) v"
      using False by (simp add: Let_def b_def)
    have "int_minimal (b # be_bytes k v)" if "unat b < 128"
    proof -
      have "b \<noteq> 0xff" using that by auto
      then show ?thesis using False by (cases "be_bytes k v") (auto simp: int_minimal_def)
    qed
    moreover have "int_val (b # be_bytes k v) = int (v mod 256 ^ Suc k)" if "unat b < 128"
      using that val unfolding be int_val_def by (simp del: be_bytes.simps be_val.simps power_Suc)
    moreover have "int_val (0 # b # be_bytes k v) = int (v mod 256 ^ Suc k)"
      using val unfolding be int_val_def by (simp del: be_bytes.simps power_Suc)
    ultimately show ?thesis
      unfolding c be by (auto simp: int_minimal_def simp del: be_bytes.simps power_Suc)
  qed
qed

lemma uint64_contents_enc: "uint64_contents 8 (unat (v :: u64)) = int_enc (int (unat v))"
  using int_enc_int_val [of "uint64_contents 8 (unat v)"] uint64_contents_val [of 8 "unat v"] unat_u64 [of v]
  by (simp del: of_nat_unat)

lemma sint_u64: "sint (v :: u64) = (if unat v < 2 ^ 63 then int (unat v) else int (unat v) - 2 ^ 64)"
proof -
  define k where "k = (if unat v < 2 ^ 63 then int (unat v) else int (unat v) - 2 ^ 64)"
  have "(of_int (int (unat v)) :: u64) = v" by simp
  moreover have "(of_int (2 ^ 64) :: u64) = 0" by simp
  ultimately have "(of_int k :: u64) = v" unfolding k_def by (simp del: of_nat_unat)
  moreover have "- (2 ^ 63) \<le> k" "k < 2 ^ 63" using unat_u64 [of v] by (simp_all add: k_def del: of_nat_unat)
  ultimately show ?thesis using sint_of_int_u64 [of k] by (simp add: k_def)
qed

lemma sint_be_bytes:
  assumes "sint (v :: u64) < 0"
  shows "128 \<le> unat (hd (be_bytes 8 (unat v))) \<and> int_val (be_bytes 8 (unat v)) = sint v"
proof -
  have s: "sint v = int (unat v) - 2 ^ 64" "2 ^ 63 \<le> unat v"
    using assms unfolding sint_u64 by (simp_all split: if_splits del: of_nat_unat)
  define b :: byte where "b = of_nat (unat v div 256 ^ 7)"
  have "unat b = unat v div 256 ^ 7 mod 256" by (simp add: b_def)
  moreover have "unat v div 256 ^ 7 < 256" using unat_u64 [of v] by (simp add: div_less_iff_less_mult)
  moreover have "128 \<le> unat v div 256 ^ 7" using s(2) by (simp add: less_eq_div_iff_mult_less_eq)
  ultimately have "128 \<le> unat b" by simp
  moreover have be: "be_bytes 8 (unat v) = b # be_bytes 7 (unat v)"
    using be_bytes_Cons [of 7 "unat v"] by (simp del: be_bytes.simps add: b_def)
  moreover have "be_val (b # be_bytes 7 (unat v)) = unat v"
    using unat_u64 [of v] unfolding be [symmetric] by (simp del: be_bytes.simps)
  ultimately show ?thesis
    unfolding be int_val_def using s(1) by (simp del: be_val.simps be_bytes.simps of_nat_unat)
qed

lemma sint_nonneg: "0 \<le> sint (v :: u64) \<Longrightarrow> int (unat v) = sint v"
  using unat_u64 [of v] unfolding sint_u64 by (simp split: if_splits del: of_nat_unat)

text \<open>Stripping sign bytes from the front.\<close>

lemma int_val_strip: "128 \<le> unat b \<Longrightarrow> int_val (0xff # b # bs) = int_val (b # bs)"
proof -
  have "unat (0xff :: byte) = 255" by simp
  then show "128 \<le> unat b \<Longrightarrow> ?thesis" by (simp only: int_val_def) simp
qed

lemma int64_start_spec:
  "k < length xs \<Longrightarrow> 128 \<le> unat (xs ! k) \<Longrightarrow>
     int64_start xs k \<le> k \<and> int_minimal (rev (take (Suc (int64_start xs k)) xs)) \<and>
     int_val (rev (take (Suc (int64_start xs k)) xs)) = int_val (rev (take (Suc k) xs))"
proof (induction k)
  case 0
  then show ?case by (simp add: take_Suc_conv_app_nth int_minimal_def)
next
  case (Suc k)
  have r: "rev (take (Suc (Suc k)) xs) = xs ! Suc k # xs ! k # rev (take k xs)"
    using Suc.prems(1) by (simp add: take_Suc_conv_app_nth)
  have h: "xs ! k AND 0x80 \<noteq> 0 \<longleftrightarrow> 128 \<le> unat (xs ! k)" by (simp only: byte_and_80 not_less)
  show ?case
  proof (cases "xs ! Suc k = 0xff \<and> 128 \<le> unat (xs ! k)")
    case True
    then have "int_val (rev (take (Suc (Suc k)) xs)) = int_val (rev (take (Suc k) xs))"
      using int_val_strip [of "xs ! k" "rev (take k xs)"] Suc.prems(1) by (simp add: take_Suc_conv_app_nth)
    with True Suc h show ?thesis by (simp del: take_Suc_Cons)
  next
    case False
    then have "int64_start xs (Suc k) = Suc k" using h by auto
    moreover have "int_minimal (rev (take (Suc (Suc k)) xs))"
      using False Suc.prems(2) unfolding r by (auto simp: int_minimal_def)
    ultimately show ?thesis by simp
  qed
qed

lemma cbb_writer_int64_bytes:
  "Suc n \<le> length xs \<Longrightarrow> cbb_writer (asn1_int64_bytes d xs (Suc n)) d (rev (take (Suc n) xs)) (Suc n) True True"
proof (induction n)
  case 0
  have "asn1_int64_bytes d xs (Suc 0) = CBB_add_u8 d (xs ! 0)" by (simp add: op_then_ret_unit)
  moreover have "rev (take (Suc 0) xs) = [xs ! 0]" using 0 by (cases xs) simp_all
  ultimately show ?case using cbb_writer_u8 [of "xs ! 0" "xs ! 0" d] by simp
next
  case (Suc n)
  have "rev (take (Suc (Suc n)) xs) = [xs ! Suc n] @ rev (take (Suc n) xs)"
    using Suc.prems by (simp add: take_Suc_conv_app_nth)
  moreover have w: "cbb_writer (asn1_int64_bytes d xs (Suc n)) d (rev (take (Suc n) xs)) (Suc n) True True"
    using Suc by simp
  ultimately show ?case
    using cbb_writer_then [OF cbb_writer_u8 [OF refl] w, of "xs ! Suc n"]
    by (simp only: asn1_int64_bytes.simps(2) [of d xs "Suc n"] simp_thms add_Suc_right add_Suc add_0 One_nat_def)
qed

lemma cbb_writer_asn1_uint64:
  "cbb_writer (CBB_add_asn1_uint64_with_tag d v tag) d (der_element tag (int_enc (int (unat v)))) 
     (length (der_tag tag) + 14) True True"
proof -
  have "length (int_enc (int (unat v))) \<le> 9" by (rule length_int_enc_u64) (use int_unat_u64 in simp_all)
  then show ?thesis
    using cbb_writer_value [OF cbb_writer_uint64_tail [of "Suc d" v 8], of tag]
    unfolding CBB_add_asn1_uint64_with_tag_def uint64_contents_enc by (simp add: add.commute)
qed

lemma cbb_writer_asn1_int64:
  "cbb_writer (CBB_add_asn1_int64_with_tag d v tag) d (der_element tag (int_enc (sint v)))
     (length (der_tag tag) + 14) True True"
proof (cases "sint v \<ge> 0")
  case True
  then have "int (unat v) = sint v" by (rule sint_nonneg)
  moreover have "CBB_add_asn1_int64_with_tag d v tag = CBB_add_asn1_uint64_with_tag d v tag"
    using True by (simp add: CBB_add_asn1_int64_with_tag_def)
  ultimately show ?thesis using cbb_writer_asn1_uint64 [of d v tag] by (simp only:)
next
  case False
  define xs where "xs = rev (be_bytes 8 (unat v))"
  define j where "j = int64_start xs 7"
  define c where "c = rev (take (Suc j) xs)"
  have l: "length xs = 8" by (simp add: xs_def del: be_bytes.simps)
  have x7: "xs ! 7 = hd (be_bytes 8 (unat v))"
    using l by (simp add: xs_def rev_nth hd_conv_nth del: be_bytes.simps) (metis hd_conv_nth length_0_conv length_be_bytes zero_neq_numeral)
  have neg: "sint v < 0" using False by simp
  note sb = sint_be_bytes [OF neg]
  have all: "rev (take (Suc 7) xs) = be_bytes 8 (unat v)" by (simp add: l xs_def del: be_bytes.simps)
  have "j \<le> 7 \<and> int_minimal c \<and> int_val c = int_val (rev (take (Suc 7) xs))"
    unfolding j_def c_def by (rule int64_start_spec) (use l sb x7 in simp_all)
  then have j: "j \<le> 7" and "int_minimal c" "int_val c = sint v" using sb unfolding all by simp_all
  then have c: "c = int_enc (sint v)" using int_enc_int_val [of c] by simp
  have "cbb_writer (op_then (or_on_error d (op_then (CBB_add_asn1 d tag) (asn1_int64_bytes (Suc d) xs (Suc j)))) (CBB_flush d))
      d (der_element tag c) (length (der_tag tag) + 5 + Suc j) True True"
    unfolding c_def by (rule cbb_writer_value [OF cbb_writer_int64_bytes]) (use l j in simp_all)
  from cbb_writer_mono [OF this] show ?thesis
    using False j by (simp add: CBB_add_asn1_int64_with_tag_def Let_def xs_def [symmetric] j_def [symmetric] c del: asn1_int64_bytes.simps be_bytes.simps)
qed

lemma cbb_writer_asn1_octet_string:
  "length data \<le> 0xfffffffe \<Longrightarrow> cbb_writer (CBB_add_asn1_octet_string d data (length data)) d
     (der_element CBS_ASN1_OCTETSTRING data) (length (der_tag CBS_ASN1_OCTETSTRING) + 5 + length data) True True"
  unfolding CBB_add_asn1_octet_string_def
  by (rule cbb_writer_value_inside [OF cbb_writer_bytes]) simp_all

lemma cbb_writer_asn1_bool:
  "cbb_writer (CBB_add_asn1_bool d value) d (der_bool (value \<noteq> 0)) (length (der_tag CBS_ASN1_BOOLEAN) + 6) True True"
  using cbb_writer_value_inside [OF cbb_writer_u8, of "if value \<noteq> 0 then 0xff else 0" "if value \<noteq> 0 then 0xff else 0" d CBS_ASN1_BOOLEAN]
  by (simp add: CBB_add_asn1_bool_def der_bool_def add.commute)

end
