(* ===== verification/Cbb_Document.thy ===== *)
theory Cbb_Document
  imports Cbb_Asn1
begin

text \<open>
  Whole outputs. A document is raw bytes, contents behind a length of \<open>k\<close> bytes, or
  an ASN.1 value; \<open>write_items\<close> is the caller that writes it piece by piece and flushes
  at the end of every level.
\<close>

datatype item =
    Raw "byte list"
  | Prefixed byte "item list"
  | Element CBS_ASN1_TAG "item list"
  | Unsigned u64
  | Signed u64
  | Boolean int
  | Octets "byte list"

fun write_item :: "nat \<Rightarrow> item \<Rightarrow> (CBB, unit) op"
  and write_items :: "nat \<Rightarrow> item list \<Rightarrow> (CBB, unit) op" where
  "write_item d (Raw bs) = CBB_add_bytes d bs (length bs)"
| "write_item d (Prefixed k is) = op_then (cbb_add_length_prefixed d (unat k)) (write_items (Suc d) is)"
| "write_item d (Element tag is) = op_then (CBB_add_asn1 d tag) (write_items (Suc d) is)"
| "write_item d (Unsigned v) = CBB_add_asn1_uint64 d v"
| "write_item d (Signed v) = CBB_add_asn1_int64 d v"
| "write_item d (Boolean b) = CBB_add_asn1_bool d b"
| "write_item d (Octets bs) = CBB_add_asn1_octet_string d bs (length bs)"
| "write_items d [] = CBB_flush d"
| "write_items d (i # is) = op_then (write_item d i) (write_items d is)"

text \<open>The bytes of a document, whether its lengths fit, and a bound on what writing it needs.\<close>

fun item_bytes :: "item \<Rightarrow> byte list" where
  "item_bytes (Raw bs) = bs"
| "item_bytes (Prefixed k is) =
     (let x = concat (map item_bytes is) in be_bytes (unat k) (length x) @ x)"
| "item_bytes (Element tag is) = der_element tag (concat (map item_bytes is))"
| "item_bytes (Unsigned v) = der_integer (int (unat v))"
| "item_bytes (Signed v) = der_integer (sint v)"
| "item_bytes (Boolean b) = der_bool (b \<noteq> 0)"
| "item_bytes (Octets bs) = der_element CBS_ASN1_OCTETSTRING bs"

abbreviation items_bytes :: "item list \<Rightarrow> byte list" where
  "items_bytes is \<equiv> concat (map item_bytes is)"

fun item_fits :: "item \<Rightarrow> bool" where
  "item_fits (Prefixed k is) \<longleftrightarrow> list_all item_fits is \<and> length (items_bytes is) < 256 ^ unat k"
| "item_fits (Element tag is) \<longleftrightarrow> list_all item_fits is \<and> length (items_bytes is) \<le> 0xfffffffe"
| "item_fits _ \<longleftrightarrow> True"

fun item_wf :: "item \<Rightarrow> bool" where
  "item_wf (Raw bs) \<longleftrightarrow> length bs < 2 ^ 64"
| "item_wf (Prefixed k is) \<longleftrightarrow> list_all item_wf is"
| "item_wf (Element tag is) \<longleftrightarrow> list_all item_wf is"
| "item_wf (Octets bs) \<longleftrightarrow> length bs \<le> 0xfffffffe"
| "item_wf _ \<longleftrightarrow> True"

fun item_cost :: "item \<Rightarrow> nat" where
  "item_cost (Raw bs) = length bs"
| "item_cost (Prefixed k is) = unat k + 4 + sum_list (map item_cost is)"
| "item_cost (Element tag is) = length (der_tag tag) + 5 + sum_list (map item_cost is)"
| "item_cost (Octets bs) = length (der_tag CBS_ASN1_OCTETSTRING) + 5 + length bs"
| "item_cost (Boolean b) = length (der_tag CBS_ASN1_BOOLEAN) + 6"
| "item_cost _ = length (der_tag CBS_ASN1_INTEGER) + 14"

lemma write_items_contract:
  "(item_wf i \<longrightarrow> cbb_writer (write_item d i) d (item_bytes i) (item_cost i) (item_fits i) False) \<and> True"
  "list_all item_wf is \<longrightarrow> cbb_writer (write_items d is) d (items_bytes is) (sum_list (map item_cost is)) (list_all item_fits is) True"
proof (induction d i and d "is" rule: write_item_write_items.induct)
  case (1 d bs)
  then show ?case using cbb_writer_mono [OF cbb_writer_bytes [of bs d]] by simp
next
  case (2 d k "is")
  show ?case
    using cbb_writer_child [OF prefix_opener.cbb_opener_axioms [of d k]] 2
    by (auto simp: spec_prefix_def spec_fits_def Let_def)
next
  case (3 d tag "is")
  then show ?case using cbb_writer_element by auto
next
  case (4 d v)
  then show ?case using cbb_writer_mono [OF cbb_writer_asn1_uint64 [of d v CBS_ASN1_INTEGER]]
    by (simp add: CBB_add_asn1_uint64_def der_integer_def del: of_nat_unat)
next
  case (5 d v)
  then show ?case using cbb_writer_mono [OF cbb_writer_asn1_int64 [of d v CBS_ASN1_INTEGER]]
    by (simp add: CBB_add_asn1_int64_def der_integer_def)
next
  case (6 d b)
  then show ?case using cbb_writer_mono [OF cbb_writer_asn1_bool [of d b]] by simp
next
  case (7 d bs)
  then show ?case using cbb_writer_mono [OF cbb_writer_asn1_octet_string [of bs d]] by simp
next
  case (8 d)
  then show ?case using cbb_writer_flush by simp
next
  case (9 d i "is")
  then show ?case using cbb_writer_then by auto
qed

lemma CBB_init_builds:
  assumes "alloc_ok mem" "cap < 2 ^ 64" "CBB_init mem cap = Ok s"
  shows "builds s [[]] \<and> cbb_children s = [] \<and> cbb_phi s = 0 \<and> cbb_mem s = mem \<and> cbb_can_resize (cbb_base s)"
proof -
  obtain buf where s: "s = cbb_init mem buf cap True" "length buf = cap"
  proof (cases "mem cap")
    case None
    with assms that [of "[]"] show ?thesis by (auto simp: CBB_init_def Let_def split: if_splits)
  next
    case (Some buf)
    with assms that [of buf] show ?thesis by (auto simp: CBB_init_def Let_def dest: alloc_okD)
  qed
  then show ?thesis using assms(1,2)
    by (simp add: cbb_init_def builds_def buf_inv_def buf_bytes_def cbb_phi_def)
qed

lemma flush_flushed: "builds s segs \<Longrightarrow> length (cbb_children s) = d \<Longrightarrow> CBB_flush d s = (Ok (), s)"
  by (subst CBB_flush.simps) (simp add: builds_def)

lemma CBB_finish_whole:
  assumes "builds s [x]" and "cbb_children s = []"
  shows "fst (CBB_finish 0 True True s) = Ok (Some (cbb_buf (cbb_base s)), Some (length x))
     \<and> take (length x) (cbb_buf (cbb_base s)) = x"
proof -
  have "CBB_flush 0 s = (Ok (), s)" using assms by (subst CBB_flush.simps) (simp add: builds_def)
  moreover have "buf_bytes (cbb_base s) = x" using assms by (simp add: builds_def)
  moreover from this have "cbb_len (cbb_base s) = length x"
    using assms(1) length_buf_bytes [of "cbb_mem s" "cbb_base s"] by (simp add: builds_def)
  ultimately show ?thesis
    by (simp add: CBB_finish_def op_then_apply op_bind_apply Let_def buf_bytes_def CBB_cleanup_def)
qed

text \<open>A builder that is initialised, written to by \<open>m\<close> and finished.\<close>

definition build :: "allocator \<Rightarrow> nat \<Rightarrow> (CBB, unit) op \<Rightarrow> (byte list option \<times> nat option) result" where
  "build mem cap m =
     (case CBB_init mem cap of
        Ok s \<Rightarrow> fst (op_then m (CBB_finish 0 True True) s)
      | Err \<Rightarrow> Err
      | Abort \<Rightarrow> Abort)"

definition write_document :: "allocator \<Rightarrow> nat \<Rightarrow> item list \<Rightarrow> (byte list option \<times> nat option) result" where
  "write_document mem cap is = build mem cap (write_items 0 is)"

definition memory_for :: "allocator \<Rightarrow> nat \<Rightarrow> nat \<Rightarrow> bool" where
  "memory_for mem cap n \<longleftrightarrow> n < 2 ^ 63 \<and> mem cap \<noteq> None \<and> (\<forall>k\<le>2 * n. mem k \<noteq> None)"

text \<open>The result is a buffer that starts with \<open>x\<close> and the length of \<open>x\<close>.\<close>

definition holds_bytes :: "byte list option \<times> nat option \<Rightarrow> byte list \<Rightarrow> bool" where
  "holds_bytes out x \<longleftrightarrow>
     (case out of
        (Some b, Some n) \<Rightarrow> n = length x \<and> take n b = x
      | _ \<Rightarrow> False)"

lemma build_result:
  assumes a: "alloc_ok mem" "cap < 2 ^ 64" and w: "cbb_writer m 0 x cost ok True"
  shows "case build mem cap m of
     Ok out \<Rightarrow> ok \<and> holds_bytes out x
   | Err \<Rightarrow> \<not> (ok \<and> memory_for mem cap cost)
   | Abort \<Rightarrow> False"
proof (cases "CBB_init mem cap")
  case (Ok s)
  note i = CBB_init_builds [OF a Ok]
  obtain r s' where m: "m s = (r, s')" by fastforce
  have ww: "written 0 x cost ok True s [[]] r s'" using cbb_writer.writes [OF w _ _ m] i by simp
  show ?thesis
  proof (cases r)
    case r: (Ok u)
    obtain segs' where s': "builds s' segs'" "length (cbb_children s') = 0"
      "spec_flush 0 (kinds s') segs' = add_last (spec_flush 0 (kinds s) [[]]) x"
      "fits_below 0 s' segs' \<longleftrightarrow> ok"
      using ww [unfolded r] by (rule written_OkE) (rule that; (assumption | simp))
    have "length segs' = 1" using builds_length [OF s'(1)] s'(2) by simp
    then have "segs' = [x]" using s'(2,3) i by (simp add: spec_flush_length kinds_def add_last_def)
    then have "fst (CBB_finish 0 True True s') = Ok (Some (cbb_buf (cbb_base s')), Some (length x))"
      "take (length x) (cbb_buf (cbb_base s')) = x"
      using s' CBB_finish_whole [of s' x] by simp_all
    moreover have ok using s'(2,4) by simp
    ultimately show ?thesis using m r by (simp add: build_def Ok op_then_apply holds_bytes_def)
  next
    case Err
    have "room (cbb_mem s) n (cbb_base s)" if "memory_for mem cap n" for n
      using that i by (auto simp: room_def memory_for_def)
    then show ?thesis using ww i m Err
      by (auto simp: build_def Ok op_then_apply written_def)
  next
    case Abort
    then show ?thesis using ww by (simp add: written_def)
  qed
next
  case Err
  then show ?thesis by (auto simp: build_def CBB_init_def Let_def memory_for_def split: if_splits)
next
  case Abort
  then show ?thesis by (simp add: CBB_init_def Let_def split: if_splits)
qed

lemmas document_result =
  build_result [OF _ _ write_items_contract(2) [rule_format], folded write_document_def]

section \<open>Properties\<close>

text \<open>
  C1. Building a document with the writers of cbb.c gives exactly its bytes. When the builder
  returns a result, every length fits its prefix and the valid part of the buffer is the
  document; when it fails, a length does not fit or memory ran out; and it never writes outside its buffer.
\<close>

theorem document_built:
  assumes "alloc_ok mem" and "cap < 2 ^ 64" and "list_all item_wf is"
  shows "case write_document mem cap is of
     Ok out \<Rightarrow> list_all item_fits is \<and> holds_bytes out (items_bytes is)
   | Err \<Rightarrow> \<not> (list_all item_fits is \<and> memory_for mem cap (sum_list (map item_cost is)))
   | Abort \<Rightarrow> False"
  by (rule document_result [OF assms])

theorem document_built_witness:
  "case write_document (\<lambda>n. Some (replicate n 0)) 4 [Element 0x20000010 [Unsigned 200, Octets [1, 2]]] of
     Ok out \<Rightarrow> list_all item_fits [Element 0x20000010 [Unsigned 200, Octets [1, 2]]] \<and>
       holds_bytes out (items_bytes [Element 0x20000010 [Unsigned 200, Octets [1, 2]]])
   | Err \<Rightarrow> \<not> (list_all item_fits [Element 0x20000010 [Unsigned 200, Octets [1, 2]]] \<and>
       memory_for (\<lambda>n. Some (replicate n 0)) 4 (sum_list (map item_cost [Element 0x20000010 [Unsigned 200, Octets [1, 2]]])))
   | Abort \<Rightarrow> False"
  by (rule document_built) (simp_all add: alloc_ok_def)

text \<open>
  C4. What the writers build, the readers of cbs.c read back: elements, unsigned and signed
  64-bit integers, booleans and octet strings, whatever follows them.
\<close>

theorem built_then_read:
  assumes "alloc_ok mem" and "cap < 2 ^ 64" and "item_wf i"
    and "write_document mem cap [i] = Ok (Some buf, Some n)"
  shows "case i of
     Element tag is \<Rightarrow> asn1_tag_ok tag \<longrightarrow>
       CBS_get_any_asn1 (take n buf @ rest) = (Ok (tag, items_bytes is), rest)
   | Unsigned v \<Rightarrow> CBS_get_asn1_uint64 (take n buf @ rest) = (Ok v, rest)
   | Signed v \<Rightarrow> CBS_get_asn1_int64 (take n buf @ rest) = (Ok v, rest)
   | Boolean b \<Rightarrow> CBS_get_asn1_bool (take n buf @ rest) = (Ok (b \<noteq> 0), rest)
   | Octets bs \<Rightarrow> CBS_get_asn1 CBS_ASN1_OCTETSTRING (take n buf @ rest) = (Ok bs, rest)
   | _ \<Rightarrow> True"
proof -
  have "item_fits i \<and> n = length (item_bytes i) \<and> take n buf = item_bytes i"
    using document_result [OF assms(1,2), of "[i]"] assms(3,4) by (auto simp add: holds_bytes_def)
  then have "item_fits i" "take n buf = item_bytes i" by blast+
  then show ?thesis using assms(3)
    by (cases i) (simp_all add: CBS_get_any_asn1_iff CBS_get_asn1_iff asn1_uint64.rd_iff asn1_int64.rd_iff
        asn1_bool.rd_iff)
qed

theorem built_then_read_witness:
  "\<exists>buf n. write_document (\<lambda>n. Some (replicate n 0)) 0 [Signed (- 129)] = Ok (Some buf, Some n) \<and>
     CBS_get_asn1_int64 (take n buf @ [7]) = (Ok (- 129), [7])"
proof -
  let ?mem = "\<lambda>n. Some (replicate n 0) :: byte list option"
  have a: "alloc_ok ?mem" by (simp add: alloc_ok_def)
  have "item_cost (Signed (- 129)) < 2 ^ 62"
    using length_der_tag [of CBS_ASN1_INTEGER] by simp
  then have "memory_for ?mem 0 (sum_list (map item_cost [Signed (- 129)]))"
    by (simp add: memory_for_def)
  then obtain buf n where "write_document ?mem 0 [Signed (- 129)] = Ok (Some buf, Some n)"
    using document_result [OF a, of 0 "[Signed (- 129)]"]
    by (auto simp: holds_bytes_def split: result.splits option.splits)
  with built_then_read [OF a _ _ this, of "[7]"] show ?thesis by simp
qed

text \<open>
  C11. Flushing writes the length prefixes of the pending children and nothing else: on the
  abstract builder, one list of bytes per open child, it collapses the children below
  \<open>d\<close>, each contents behind its length; it fails, and locks the builder, only when a
  length does not fit its prefix or memory runs out.
\<close>

theorem flush_refines:
  assumes "builds s segs" and "d \<le> length (cbb_children s)" and "CBB_flush d s = (r, s')"
  shows "case r of
     Ok _ \<Rightarrow> collapse_fits (drop d (kinds s)) (drop d segs) \<and>
       cbb_children s' = take d (cbb_children s) \<and> builds s' (spec_flush d (kinds s) segs)
   | Err \<Rightarrow> cbb_error (cbb_base s') \<and>
       (collapse_fits (drop d (kinds s)) (drop d segs) \<longrightarrow>
        (\<forall>N. cbb_len (cbb_base s) + 4 * length (cbb_children s) \<le> N \<longrightarrow> \<not> has_room N s))
   | Abort \<Rightarrow> False"
  using flush_written [OF assms] by (simp add: fits_below_def cbb_phi_def split: result.splits)

definition example_builder :: CBB where
  "example_builder =
     \<lparr>cbb_base = \<lparr>cbb_buf = [0, 7, 9, 0], cbb_len = 3, cbb_cap = 4, cbb_can_resize = False, cbb_error = False\<rparr>,
      cbb_children = [\<lparr>ch_offset = 0, ch_pending_len_len = 1, ch_pending_is_asn1 = False\<rparr>],
      cbb_cut = 0, cbb_mem = (\<lambda>_. None)\<rparr>"

lemma example_builder_builds: "builds example_builder [[], [7, 9]]"
  by (auto simp: example_builder_def builds_def buf_inv_def buf_bytes_def alloc_ok_def)

lemma example_builder_flush:
  "CBB_flush 0 example_builder =
     (Ok (), example_builder\<lparr>cbb_base := (cbb_base example_builder)\<lparr>cbb_buf := [2, 7, 9, 0]\<rparr>, cbb_children := []\<rparr>)"
  by (simp add: CBB_flush.simps [of 0] CBB_flush.simps [of 1] CBB_flush.simps [of "Suc 0"] example_builder_def or_on_error_def
      on_base_def cbb_get_base_def cbb_flush_child_def cbb_put_length_def size_add_def op_then_apply Let_def)

theorem flush_refines_witness:
  "builds (snd (CBB_flush 0 example_builder)) [[2, 7, 9]] \<and> cbb_children (snd (CBB_flush 0 example_builder)) = []"
  using flush_refines [OF example_builder_builds _ example_builder_flush]
  unfolding example_builder_flush
  by (simp add: spec_flush_def kinds_def example_builder_def spec_prefix_def)

text \<open>
  The buffer: making room and adding bytes keeps the valid bytes and the buffer's
  consistency (its length within its capacity, the capacity the size of the block), adds
  exactly the space asked for, and fails, locking the buffer, when the size overflows, a
  fixed buffer is full, or the allocator fails.
\<close>

theorem buffer_add_safe:
  assumes "buf_inv mem b" and "n < 2 ^ 64" and "cbb_buffer_add mem n b = (r, b')"
  shows "buf_inv mem b' \<and>
    (case r of
       Ok out \<Rightarrow> out = cbb_len b \<and> cbb_len b' = cbb_len b + n \<and> cbb_len b' \<le> cbb_cap b' \<and>
         take (cbb_len b) (buf_bytes b') = buf_bytes b
     | Err \<Rightarrow> cbb_error b' \<and> buf_bytes b' = buf_bytes b
     | Abort \<Rightarrow> False)"
proof -
  obtain r0 b0 where r0: "cbb_buffer_reserve mem n b = (r0, b0)" by fastforce
  note rs = reserve_spec [OF assms(1,2) r0] and ad = add_spec [OF assms]
  show ?thesis
  proof (cases r)
    case (Ok out)
    then obtain new spare where "length new = n" "cbb_buf b' = buf_bytes b @ new @ spare"
      "cbb_len b' = cbb_len b + n" using ad by auto
    then have "take (cbb_len b) (buf_bytes b') = buf_bytes b"
      using length_buf_bytes [OF assms(1)] by (simp add: buf_bytes_def [of b'])
    then show ?thesis using ad Ok by (simp add: buf_inv_def)
  next
    case Err
    then have "b' = b0" using assms(3) r0 by (cases r0) (simp_all add: cbb_buffer_add_def op_bind_apply)
    then show ?thesis using rs ad Err by simp
  next
    case Abort
    then show ?thesis using ad by simp
  qed
qed

theorem buffer_add_safe_witness:
  "buf_inv (\<lambda>_. None) (snd (cbb_buffer_add (\<lambda>_. None) 2 (cbb_base example_builder)))"
proof -
  have i: "buf_inv (\<lambda>_. None) (cbb_base example_builder)"
    by (simp add: buf_inv_def alloc_ok_def example_builder_def)
  obtain r b' where e: "cbb_buffer_add (\<lambda>_. None) 2 (cbb_base example_builder) = (r, b')" by fastforce
  show ?thesis using buffer_add_safe [OF i _ e] by (simp add: e)
qed

text \<open>
  A builder in its error state stays there: flushing, every write and finishing fail and
  change nothing.
\<close>

theorem error_locked:
  assumes "cbb_error (cbb_base s)"
  shows "CBB_flush d s = (Err, s) \<and> CBB_finish d out_data out_len s = (Err, s) \<and>
    CBB_add_space d n s = (Err, s) \<and> CBB_reserve d n s = (Err, s) \<and>
    CBB_add_bytes d data n s = (Err, s) \<and> CBB_add_zeros d n s = (Err, s) \<and>
    CBB_add_u8 d b s = (Err, s) \<and> CBB_add_u16 d w s = (Err, s) \<and> CBB_add_u32 d x s = (Err, s) \<and>
    CBB_add_u64 d v s = (Err, s) \<and> CBB_add_asn1 d tag s = (Err, s) \<and>
    CBB_add_u8_length_prefixed d s = (Err, s) \<and> CBB_add_u16_length_prefixed d s = (Err, s) \<and>
    CBB_add_u24_length_prefixed d s = (Err, s)"
proof -
  have f: "CBB_flush d s = (Err, s)" for d using assms by (simp add: CBB_flush.simps)
  show ?thesis
    by (simp add: f op_then_apply op_bind_apply CBB_finish_def CBB_add_space_def CBB_reserve_def
        CBB_add_bytes_def CBB_add_zeros_def CBB_add_u8_def CBB_add_u16_def CBB_add_u32_def CBB_add_u64_def
        cbb_add_u_def CBB_add_asn1_def cbb_add_length_prefixed_def CBB_add_u8_length_prefixed_def
        CBB_add_u16_length_prefixed_def CBB_add_u24_length_prefixed_def)
qed

definition locked_builder :: CBB where
  "locked_builder = example_builder\<lparr>cbb_base := (cbb_base example_builder)\<lparr>cbb_error := True\<rparr>\<rparr>"

theorem error_locked_witness: "CBB_add_u8 0 5 locked_builder = (Err, locked_builder)"
  using error_locked [of locked_builder 0 False False 0 "[]" 5 0 0 0 0] by (simp add: locked_builder_def)

text \<open>A flush that succeeds leaves the chain down to its \<open>CBB\<close> and cuts nothing off.\<close>

lemma CBB_flush_chain:
  "CBB_flush d s = (Ok (), t) \<Longrightarrow> d \<le> length (cbb_children s) \<and> cbb_children t = take d (cbb_children s) \<and> cbb_cut t = cbb_cut s"
proof (induction d s arbitrary: t rule: CBB_flush.induct)
  case (1 d s)
  have ok: "\<not> (d > length (cbb_children s) \<or> cbb_error (cbb_base s))"
    using 1(2) by (subst (asm) CBB_flush.simps) (auto split: if_splits)
  show ?case
  proof (cases "d = length (cbb_children s)")
    case True
    with 1(2) ok show ?thesis by (simp add: CBB_flush.simps)
  next
    case False
    obtain r1 s1 where f1: "CBB_flush (Suc d) s = (r1, s1)" by fastforce
    have unf: "CBB_flush d s = (case (r1, s1) of
        (Ok _, s') \<Rightarrow>
          op_then (or_on_error d (on_base d (\<lambda>mem. cbb_flush_child mem (cbb_children s ! d))))
            (\<lambda>s. (Ok (), s\<lparr>cbb_children := take d (cbb_children s)\<rparr>)) s'
      | (Err, s') \<Rightarrow> cbb_on_error d s'
      | (Abort, s') \<Rightarrow> (Abort, s'))"
      using ok False by (subst CBB_flush.simps) (simp add: f1 split: result.split)
    have r1: "r1 = Ok ()" using unf 1(2) by (cases r1) (auto simp: cbb_on_error_def split: option.splits)
    then have IH: "cbb_children s1 = take (Suc d) (cbb_children s)" "cbb_cut s1 = cbb_cut s"
      using 1(1) [OF ok False] f1 by auto
    have "cbb_children t = take d (cbb_children s1) \<and> cbb_cut t = cbb_cut s1"
      using unf r1 1(2)
      by (auto simp: op_then_apply or_on_error_def on_base_def cbb_on_error_def split: result.splits prod.splits option.splits)
    then show ?thesis using IH ok False by (simp add: min_def)
  qed
qed

text \<open>The writers on a \<open>CBB\<close> whose flush fails.\<close>

lemma flush_failed_writers:
  assumes f: "CBB_flush k s = (Err, s)"
  shows "CBB_add_u8 k b s = (Err, s) \<and> CBB_add_bytes k data n s = (Err, s) \<and> CBB_add_asn1 k tag s = (Err, s)"
    and "CBB_add_asn1_bool k v s = cbb_on_error k s \<and> CBB_add_asn1_uint64 k u s = cbb_on_error k s \<and>
      CBB_add_asn1_int64 k u s = cbb_on_error k s \<and> CBB_add_asn1_octet_string k data n s = cbb_on_error k s"
proof -
  have a: "CBB_add_asn1 k tag s = (Err, s)" for tag by (simp add: f op_then_apply CBB_add_asn1_def)
  then show "CBB_add_u8 k b s = (Err, s) \<and> CBB_add_bytes k data n s = (Err, s) \<and> CBB_add_asn1 k tag s = (Err, s)"
    by (simp add: f op_then_apply op_bind_apply CBB_add_u8_def cbb_add_u_def CBB_add_space_def CBB_add_bytes_def)
  have e: "(case (cbb_on_error k s :: unit result \<times> CBB) of (Ok x, t) \<Rightarrow> h t | (Err, t) \<Rightarrow> (Err, t) | (Abort, t) \<Rightarrow> (Abort, t)) =
      (cbb_on_error k s :: unit result \<times> CBB)" for h
    by (simp add: cbb_on_error_def split: option.split)
  show "CBB_add_asn1_bool k v s = cbb_on_error k s \<and> CBB_add_asn1_uint64 k u s = cbb_on_error k s \<and>
      CBB_add_asn1_int64 k u s = cbb_on_error k s \<and> CBB_add_asn1_octet_string k data n s = cbb_on_error k s"
    by (simp add: a e op_then_apply CBB_add_asn1_bool_def CBB_add_asn1_uint64_def CBB_add_asn1_int64_def
        CBB_add_asn1_int64_with_tag_def CBB_add_asn1_uint64_with_tag_def CBB_add_asn1_octet_string_def or_on_error_def Let_def)
qed

text \<open>
  C36. A child \<open>k\<close> of a builder from which no error has cut off children yet. When its parent
  (or a builder further out) has been flushed, the plain writers on the child fail and change
  nothing, but the value writers follow its null base when they record the error. When an
  error cut it off instead, its base is still valid and all the writers fail and change
  nothing.
\<close>

theorem stale_child:
  assumes "d < k" and "k \<le> length (cbb_children s)" and "cbb_cut s = 0"
  shows "(CBB_flush d s = (Ok (), t) \<longrightarrow>
      CBB_add_u8 k b t = (Err, t) \<and> CBB_add_bytes k data n t = (Err, t) \<and> CBB_add_asn1 k tag t = (Err, t) \<and>
      CBB_add_asn1_bool k v t = (Abort, t) \<and> CBB_add_asn1_uint64 k u t = (Abort, t) \<and>
      CBB_add_asn1_int64 k u t = (Abort, t) \<and> CBB_add_asn1_octet_string k data n t = (Abort, t)) \<and>
    (cbb_on_error d s = (Err :: unit result, t) \<longrightarrow>
      CBB_add_u8 k b t = (Err, t) \<and> CBB_add_bytes k data n t = (Err, t) \<and> CBB_add_asn1 k tag t = (Err, t) \<and>
      CBB_add_asn1_bool k v t = (Err, t) \<and> CBB_add_asn1_uint64 k u t = (Err, t) \<and>
      CBB_add_asn1_int64 k u t = (Err, t) \<and> CBB_add_asn1_octet_string k data n t = (Err, t))"
proof (intro conjI [of "_ \<longrightarrow> _"] impI)
  assume "CBB_flush d s = (Ok (), t)"
  then have t: "length (cbb_children t) < k" "cbb_cut t = 0"
    using CBB_flush_chain [of d s t] assms by auto
  have "CBB_flush k t = (Err, t)" using t by (simp add: CBB_flush.simps)
  moreover have "cbb_on_error k t = (Abort :: unit result, t)" using t by (simp add: cbb_on_error_def cbb_get_base_def)
  ultimately show "CBB_add_u8 k b t = (Err, t) \<and> CBB_add_bytes k data n t = (Err, t) \<and> CBB_add_asn1 k tag t = (Err, t) \<and>
      CBB_add_asn1_bool k v t = (Abort, t) \<and> CBB_add_asn1_uint64 k u t = (Abort, t) \<and>
      CBB_add_asn1_int64 k u t = (Abort, t) \<and> CBB_add_asn1_octet_string k data n t = (Abort, t)"
    using flush_failed_writers by simp
next
  assume "cbb_on_error d s = (Err :: unit result, t)"
  then have t: "t = s\<lparr>cbb_base := (cbb_base s)\<lparr>cbb_error := True\<rparr>, cbb_children := take d (cbb_children s),
      cbb_cut := length (cbb_children s) - d\<rparr>"
    using assms by (auto simp: cbb_on_error_def split: option.splits)
      (auto simp: cbb_get_base_def split: if_splits)
  have "CBB_flush k t = (Err, t)" by (simp add: t CBB_flush.simps)
  moreover have "cbb_on_error k t = (Err :: unit result, t)"
    using assms by (simp add: cbb_on_error_def cbb_get_base_def t)
  ultimately show "CBB_add_u8 k b t = (Err, t) \<and> CBB_add_bytes k data n t = (Err, t) \<and> CBB_add_asn1 k tag t = (Err, t) \<and>
      CBB_add_asn1_bool k v t = (Err, t) \<and> CBB_add_asn1_uint64 k u t = (Err, t) \<and>
      CBB_add_asn1_int64 k u t = (Err, t) \<and> CBB_add_asn1_octet_string k data n t = (Err, t)"
    using flush_failed_writers by simp
qed

theorem stale_child_witness:
  "CBB_add_asn1_bool 1 1 (snd (CBB_flush 0 example_builder)) = (Abort, snd (CBB_flush 0 example_builder))"
proof -
  have "1 \<le> length (cbb_children example_builder)" "cbb_cut example_builder = 0" by (simp_all add: example_builder_def)
  from stale_child [OF _ this, of 0] show ?thesis unfolding example_builder_flush by simp
qed

end
