(* ===== verification/Cbb_Oid.thy ===== *)
theory Cbb_Oid
  imports Cbb_Document
begin

text \<open>
  Object identifiers in text form: \<open>CBB_add_asn1_oid_from_text\<close> of cbb.c and
  \<open>CBS_asn1_oid_to_text\<close> of cbs.c, which writes to a builder.
\<close>

section \<open>From text\<close>

definition parse_dotted_decimal :: "(CBS, u64) op" where
  "parse_dotted_decimal =
     op_bind CBS_get_u64_decimal (\<lambda>out cbs.
       case CBS_get_u8 cbs of
         (Ok dot, cbs) \<Rightarrow> (if dot = 0x2e \<and> CBS_len cbs > 0 then Ok out else Err, cbs)
       | (Err, cbs) \<Rightarrow> (Ok out, cbs)
       | (Abort, cbs) \<Rightarrow> (Abort, cbs))"

text \<open>The dotted form of a list of numbers.\<close>

fun dotted :: "nat list \<Rightarrow> byte list" where
  "dotted [] = []"
| "dotted [n] = dec_enc n"
| "dotted (n # ns) = dec_enc n @ 0x2e # dotted ns"

lemma parse_dotted_decimal_iff:
  "parse_dotted_decimal cbs = (Ok v, rest) \<longleftrightarrow>
     (if rest = [] then cbs = dec_enc (unat v) else cbs = dec_enc (unat v) @ 0x2e # rest)"
proof
  assume "parse_dotted_decimal cbs = (Ok v, rest)"
  then obtain t where t: "CBS_get_u64_decimal cbs = (Ok v, t)"
    "t = [] \<and> rest = [] \<or> t = 0x2e # rest \<and> rest \<noteq> []"
    unfolding parse_dotted_decimal_def
    by (elim op_bind_OkE) (simp add: CBS_get_u8_eq split: list.splits if_splits)
  from t(1) have "cbs = dec_enc (unat v) @ t" by (simp only: CBS_get_u64_decimal_iff)
  with t(2) show "if rest = [] then cbs = dec_enc (unat v) else cbs = dec_enc (unat v) @ 0x2e # rest" by auto
next
  define t where "t = (if rest = [] then [] else 0x2e # rest)"
  assume "if rest = [] then cbs = dec_enc (unat v) else cbs = dec_enc (unat v) @ 0x2e # rest"
  then have "cbs = dec_enc (unat v) @ t" by (simp add: t_def split: if_splits)
  moreover have "decimal_end t" by (simp add: t_def decimal_end_def isdigit_unat)
  ultimately have "CBS_get_u64_decimal cbs = (Ok v, t)" by (simp only: CBS_get_u64_decimal_iff)
  then show "parse_dotted_decimal cbs = (Ok v, rest)"
    by (simp add: parse_dotted_decimal_def op_bind_step CBS_get_u8_eq t_def)
qed

lemma parse_dotted_decimal_shrinks: "parse_dotted_decimal cbs = (Ok v, rest) \<Longrightarrow> length rest < length cbs"
  by (auto simp: parse_dotted_decimal_iff split: if_splits)

function oid_text_loop :: "nat \<Rightarrow> CBS \<Rightarrow> (CBB, unit) op" where
  "oid_text_loop d cbs =
     (if CBS_len cbs > 0 then
        (case parse_dotted_decimal cbs of
           (Ok a, cbs) \<Rightarrow> op_then (add_base128_integer d a) (oid_text_loop d cbs)
         | (Err, cbs) \<Rightarrow> op_fail
         | (Abort, cbs) \<Rightarrow> op_abort)
      else op_ret ())"
  by pat_completeness auto
termination
  by (relation "measure (\<lambda>(d, cbs). length cbs)") (auto dest: parse_dotted_decimal_shrinks [OF sym])

declare oid_text_loop.simps [simp del]

definition CBB_add_asn1_oid_from_text :: "nat \<Rightarrow> byte list \<Rightarrow> (CBB, unit) op" where
  "CBB_add_asn1_oid_from_text d text =
     op_then (CBB_flush d)
    (op_bind (op_run parse_dotted_decimal text) (\<lambda>(a, cbs).
     op_bind (op_run parse_dotted_decimal cbs) (\<lambda>(b, cbs).
     op_then (op_require (\<not> (a > 2 \<or> (a < 2 \<and> b > 39) \<or> b > UINT64_MAX - 80)))
    (op_then (add_base128_integer d (40 * a + b))
    (oid_text_loop d cbs)))))"

section \<open>To text\<close>

definition add_decimal :: "nat \<Rightarrow> u64 \<Rightarrow> (CBB, unit) op" where
  "add_decimal d v = (let buf = dec_enc (unat v) in CBB_add_bytes d buf (length buf))"

lemma parse_base128_shrinks: "parse_base128_integer cbs = (Ok v, rest) \<Longrightarrow> length rest < length cbs"
  by (auto simp: parse_base128_integer_iff)

function oid_arcs_loop :: "CBS \<Rightarrow> (CBB, unit) op" where
  "oid_arcs_loop copy =
     (if CBS_len copy \<noteq> 0 then
        (case parse_base128_integer copy of
           (Ok v, copy) \<Rightarrow> op_then (CBB_add_u8 0 0x2e) (op_then (add_decimal 0 v) (oid_arcs_loop copy))
         | (Err, copy) \<Rightarrow> op_fail
         | (Abort, copy) \<Rightarrow> op_abort)
      else op_ret ())"
  by pat_completeness auto
termination
  by (relation "measure length") (auto dest: parse_base128_shrinks [OF sym])

declare oid_arcs_loop.simps [simp del]

text \<open>The text is the result; a failure is the null pointer.\<close>

definition CBS_asn1_oid_to_text :: "allocator \<Rightarrow> CBS \<Rightarrow> byte list option result" where
  "CBS_asn1_oid_to_text mem cbs =
     (case CBB_init mem 32 of
        Err \<Rightarrow> Ok None
      | Abort \<Rightarrow> Abort
      | Ok cbb \<Rightarrow>
          (case fst (op_bind (op_run parse_base128_integer cbs) (\<lambda>(v, copy).
             op_then
               (if v \<ge> 80 then op_then (CBB_add_bytes 0 [0x32, 0x2e] 2) (add_decimal 0 (v - 80))
                else op_then (add_decimal 0 (v div 40)) (op_then (CBB_add_u8 0 0x2e) (add_decimal 0 (v mod 40))))
            (op_then (oid_arcs_loop copy)
            (op_then (CBB_add_u8 0 0) (CBB_finish 0 True True)))) cbb) of
             Ok (txt, txt_len) \<Rightarrow> Ok txt
           | Err \<Rightarrow> Ok None
           | Abort \<Rightarrow> Abort))"

section \<open>Lists of numbers\<close>

definition u64_nums :: "nat list \<Rightarrow> bool" where
  "u64_nums ns \<longleftrightarrow> list_all (\<lambda>n. n < 2 ^ 64) ns"

lemma u64_nums_simps [simp]:
  "u64_nums []" "u64_nums (n # ns) \<longleftrightarrow> n < 2 ^ 64 \<and> u64_nums ns"
  by (simp_all add: u64_nums_def)

definition arcs_bytes :: "nat list \<Rightarrow> byte list" where
  "arcs_bytes ns = concat (map b128_enc ns)"

lemma arcs_bytes_simps [simp]: "arcs_bytes [] = []" "arcs_bytes (n # ns) = b128_enc n @ arcs_bytes ns"
  by (simp_all add: arcs_bytes_def)

lemma unat_of_nat_u64: "n < 2 ^ 64 \<Longrightarrow> unat (of_nat n :: u64) = n"
  by (simp add: unat_of_nat take_bit_nat_eq_self)

lemma dotted_Cons: "dotted (n # ns) = (if ns = [] then dec_enc n else dec_enc n @ 0x2e # dotted ns)"
  by (cases ns) simp_all

lemma dotted_nonempty: "ns \<noteq> [] \<Longrightarrow> dotted ns \<noteq> []"
  by (cases ns) (simp_all add: dotted_Cons)

lemma parse_dotted_step: "n < 2 ^ 64 \<Longrightarrow> parse_dotted_decimal (dotted (n # ns)) = (Ok (of_nat n), dotted ns)"
  using dotted_nonempty [of ns] by (auto simp: parse_dotted_decimal_iff dotted_Cons unat_of_nat_u64)

lemma get_u64_decimal_loop_safe: "fst (get_u64_decimal_loop v s cbs) \<noteq> Abort"
  by (induction cbs arbitrary: v s) (simp_all add: get_u64_decimal_loop_Nil get_u64_decimal_loop_Cons)

lemma parse_dotted_decimal_safe: "fst (parse_dotted_decimal cbs) \<noteq> Abort"
proof -
  have "fst (CBS_get_u64_decimal cbs) \<noteq> Abort"
    unfolding CBS_get_u64_decimal_def
    by (rule op_bind_not_Abort [OF get_u64_decimal_loop_safe])
      (auto intro!: op_require_not_Abort)
  then show ?thesis
    unfolding parse_dotted_decimal_def
    by (rule op_bind_not_Abort) (simp add: CBS_get_u8_eq split: list.split)
qed

text \<open>An operation that always fails on a builder.\<close>

definition cbb_refuses :: "(CBB, unit) op \<Rightarrow> nat \<Rightarrow> bool" where
  "cbb_refuses m d \<longleftrightarrow>
     (\<forall>s segs. builds s segs \<longrightarrow> d \<le> length (cbb_children s) \<longrightarrow> fst (m s) = Err)"

lemma cbb_refuses_then:
  assumes "cbb_writer m d x c ok cl" and "cbb_refuses k d"
  shows "cbb_refuses (op_then m k) d"
  unfolding cbb_refuses_def
proof (intro allI impI)
  fix s segs assume b: "builds s segs" "d \<le> length (cbb_children s)"
  obtain r s1 where m: "m s = (r, s1)" by fastforce
  note w = cbb_writer.writes [OF assms(1) b m]
  show "fst (op_then m k s) = Err"
  proof (cases r)
    case (Ok u)
    then obtain segs1 where "builds s1 segs1" "d \<le> length (cbb_children s1)"
      using w by (auto simp: written_def)
    then have "fst (k s1) = Err" using assms(2) unfolding cbb_refuses_def by blast
    then show ?thesis using m Ok by (simp add: op_then_apply)
  qed (use w m in \<open>simp_all add: op_then_apply written_def\<close>)
qed

lemma cbb_refuses_fail: "cbb_refuses op_fail d"
  by (simp add: cbb_refuses_def)

section \<open>The text reader\<close>

lemma oid_text_loop_step:
  "n < 2 ^ 64 \<Longrightarrow> oid_text_loop d (dotted (n # ns)) =
     op_then (add_base128_integer d (of_nat n)) (oid_text_loop d (dotted ns))"
  using dotted_nonempty [of "n # ns"] by (subst oid_text_loop.simps) (simp add: parse_dotted_step)

lemma cbb_writer_arc: "n < 2 ^ 64 \<Longrightarrow>
  cbb_writer (add_base128_integer d (of_nat n)) d (b128_enc n) (length (b128_enc n)) True True"
  using cbb_writer_base128 [of d "of_nat n"] by (simp only: unat_of_nat_u64)

lemma oid_text_loop_ok:
  "u64_nums ns \<Longrightarrow> cbb_writer m d x c True True \<Longrightarrow>
     cbb_writer (op_then m (oid_text_loop d (dotted ns))) d (x @ arcs_bytes ns)
       (c + length (arcs_bytes ns)) True True"
proof (induction ns arbitrary: m x c)
  case Nil
  have "oid_text_loop d (dotted []) = op_ret ()" by (subst oid_text_loop.simps) simp
  with Nil show ?case by (simp only: op_then_ret_unit arcs_bytes_simps append_Nil2 list.size add_0_right)
next
  case (Cons n ns)
  have n: "n < 2 ^ 64" using Cons.prems(1) by (simp only: u64_nums_simps)
  have "cbb_writer (op_then m (add_base128_integer d (of_nat n))) d (x @ b128_enc n)
      (c + length (b128_enc n)) (True \<and> True) True"
    by (rule cbb_writer_then [OF Cons.prems(2) cbb_writer_arc [OF n]])
  from Cons.IH [OF _ this [unfolded conj_absorb]] Cons.prems(1) show ?case
    by (simp add: oid_text_loop_step [OF n] op_then_assoc add.assoc)
qed

lemma oid_text_loop_bad:
  "\<nexists>ns. u64_nums ns \<and> cbs = dotted ns \<Longrightarrow> cbb_writer m d x c True True \<Longrightarrow>
     cbb_refuses (op_then m (oid_text_loop d cbs)) d"
proof (induction cbs arbitrary: m x c rule: length_induct)
  case (1 cbs)
  have ne: "cbs \<noteq> []"
  proof
    assume "cbs = []"
    then have "u64_nums [] \<and> cbs = dotted []" by simp
    with 1(2) show False by blast
  qed
  obtain r rest where p: "parse_dotted_decimal cbs = (r, rest)" by fastforce
  show ?case
  proof (cases r)
    case (Ok a)
    have l: "oid_text_loop d cbs = op_then (add_base128_integer d a) (oid_text_loop d rest)"
      using ne p Ok by (subst oid_text_loop.simps) simp
    have "cbs = dotted (unat a # ns)" if "rest = dotted ns" for ns
      using p Ok that dotted_nonempty [of ns] parse_dotted_decimal_iff [of cbs a rest]
      by (cases "ns = []") (simp_all add: dotted_Cons)
    then have bad: "\<nexists>ns. u64_nums ns \<and> rest = dotted ns"
      using 1(2) unat_u64 [of a] by (metis u64_nums_simps(2))
    have "cbb_writer (op_then m (add_base128_integer d a)) d (x @ b128_enc (unat a))
        (c + length (b128_enc (unat a))) (True \<and> True) True"
      by (rule cbb_writer_then [OF 1(3) cbb_writer_base128])
    moreover have "length rest < length cbs" using p Ok parse_dotted_decimal_shrinks by simp
    ultimately have "cbb_refuses (op_then (op_then m (add_base128_integer d a)) (oid_text_loop d rest)) d"
      using 1(1) bad by (metis conj_absorb)
    then show ?thesis by (simp add: l op_then_assoc)
  next
    case Err
    have "oid_text_loop d cbs = op_fail" using ne p Err by (subst oid_text_loop.simps) simp
    then show ?thesis using cbb_refuses_then [OF 1(3) cbb_refuses_fail] by (simp only:)
  next
    case Abort
    then show ?thesis using parse_dotted_decimal_safe [of cbs] p by simp
  qed
qed

text \<open>
  The components of an object identifier and its first subidentifier.
\<close>

definition oid_root_ok :: "nat \<Rightarrow> nat \<Rightarrow> bool" where
  "oid_root_ok a b \<longleftrightarrow> a \<le> 2 \<and> (a < 2 \<longrightarrow> b < 40) \<and> b \<le> 2 ^ 64 - 1 - 80"

definition oid_contents :: "nat \<Rightarrow> nat \<Rightarrow> nat list \<Rightarrow> byte list" where
  "oid_contents a b ns = arcs_bytes ((40 * a + b) # ns)"

definition oid_writable :: "byte list \<Rightarrow> nat \<Rightarrow> nat \<Rightarrow> nat list \<Rightarrow> bool" where
  "oid_writable text a b ns \<longleftrightarrow> oid_root_ok a b \<and> u64_nums ns \<and> text = dotted (a # b # ns)"

lemma oid_root_test: "\<not> (a > 2 \<or> (a < 2 \<and> b > 39) \<or> b > UINT64_MAX - 80) \<longleftrightarrow>
    oid_root_ok (unat (a :: u64)) (unat b)"
  by (auto simp: oid_root_ok_def UINT64_MAX_def word_less_nat_alt)

lemma oid_root_sum: "oid_root_ok (unat a) (unat b) \<Longrightarrow> 40 * a + b = (of_nat (40 * unat a + unat b) :: u64)"
  by simp

lemma oid_root_sum_less: "oid_root_ok a b \<Longrightarrow> 40 * a + b < 2 ^ 64"
  by (simp add: oid_root_ok_def)

lemma oid_from_text_ok:
  assumes "oid_writable text a b ns"
  shows "cbb_writer (CBB_add_asn1_oid_from_text d text) d (oid_contents a b ns)
    (length (oid_contents a b ns)) True True"
proof -
  have r: "oid_root_ok a b" and ns: "u64_nums ns" and tx: "text = dotted (a # b # ns)"
    using assms by (simp_all add: oid_writable_def)
  have a: "a < 2 ^ 64" "b < 2 ^ 64" using r by (simp_all add: oid_root_ok_def)
  have u: "unat (of_nat a :: u64) = a" "unat (of_nat b :: u64) = b" using a by (simp_all only: unat_of_nat_u64)
  define k where "k = 40 * a + b"
  have k: "k < 2 ^ 64" using oid_root_sum_less [OF r] by (simp add: k_def)
  have "CBB_add_asn1_oid_from_text d text = op_then (CBB_flush d)
      (op_then (add_base128_integer d (of_nat k)) (oid_text_loop d (dotted ns)))"
    using oid_root_test [of "of_nat a" "of_nat b"] r u
    unfolding CBB_add_asn1_oid_from_text_def tx k_def
    by (simp only: op_run_step [of parse_dotted_decimal, OF parse_dotted_step [OF a(1)]]
        op_run_step [of parse_dotted_decimal, OF parse_dotted_step [OF a(2)]] prod.case op_require_True) simp
  moreover have "cbb_writer (op_then (op_then (CBB_flush d) (add_base128_integer d (of_nat k))) (oid_text_loop d (dotted ns)))
      d (([] @ b128_enc k) @ arcs_bytes ns) ((0 + length (b128_enc k)) + length (arcs_bytes ns)) True True"
    using oid_text_loop_ok [OF ns cbb_writer_then [OF cbb_writer_flush cbb_writer_arc [OF k], unfolded conj_absorb]] .
  ultimately show ?thesis by (simp add: op_then_assoc oid_contents_def k_def [symmetric])
qed

lemma oid_from_text_bad:
  assumes bad: "\<nexists>a b ns. oid_writable text a b ns"
  shows "cbb_refuses (CBB_add_asn1_oid_from_text d text) d"
proof -
  have "cbb_refuses (op_bind (op_run parse_dotted_decimal text) (\<lambda>(a, cbs).
     op_bind (op_run parse_dotted_decimal cbs) (\<lambda>(b, cbs).
     op_then (op_require (\<not> (a > 2 \<or> (a < 2 \<and> b > 39) \<or> b > UINT64_MAX - 80)))
    (op_then (add_base128_integer d (40 * a + b)) (oid_text_loop d cbs))))) d" (is "cbb_refuses ?m d")
  proof (cases "fst (parse_dotted_decimal text) = Err")
    case True
    then show ?thesis by (simp only: op_run_fails cbb_refuses_fail)
  next
    case False
    then obtain a cbs where p1: "parse_dotted_decimal text = (Ok a, cbs)"
      using parse_dotted_decimal_safe [of "text"] by (cases "parse_dotted_decimal text"; cases "fst (parse_dotted_decimal text)") auto
    show ?thesis
    proof (cases "fst (parse_dotted_decimal cbs) = Err")
      case True
      then show ?thesis by (simp only: op_run_step [of parse_dotted_decimal, OF p1] prod.case op_run_fails cbb_refuses_fail)
    next
      case False
      then obtain b rest where p2: "parse_dotted_decimal cbs = (Ok b, rest)"
        using parse_dotted_decimal_safe [of cbs] by (cases "parse_dotted_decimal cbs"; cases "fst (parse_dotted_decimal cbs)") auto
      have m: "?m = op_then (op_require (oid_root_ok (unat a) (unat b)))
          (op_then (add_base128_integer d (40 * a + b)) (oid_text_loop d rest))"
        by (simp only: op_run_step [of parse_dotted_decimal, OF p1] op_run_step [of parse_dotted_decimal, OF p2] prod.case oid_root_test)
      show ?thesis
      proof (cases "oid_root_ok (unat a) (unat b)")
        case False
        then show ?thesis by (simp only: m op_require_False cbb_refuses_fail)
      next
        case True
        have "\<not> (u64_nums ns \<and> rest = dotted ns)" for ns
        proof
          assume ns: "u64_nums ns \<and> rest = dotted ns"
          then have "cbs = dotted (unat b # ns)"
            using p2 dotted_nonempty [of ns] by (cases "ns = []") (simp_all add: dotted_Cons parse_dotted_decimal_iff)
          then have "text = dotted (unat a # unat b # ns)"
            using p1 dotted_nonempty [of "unat b # ns"] by (simp add: dotted_Cons [of "unat a"] parse_dotted_decimal_iff)
          then show False using bad True ns by (auto simp: oid_writable_def)
        qed
        then have "cbb_refuses (op_then (add_base128_integer d (40 * a + b)) (oid_text_loop d rest)) d"
          by (intro oid_text_loop_bad [OF _ cbb_writer_base128]) blast
        then show ?thesis by (simp only: m True op_require_True)
      qed
    qed
  qed
  then show ?thesis unfolding CBB_add_asn1_oid_from_text_def by (rule cbb_refuses_then [OF cbb_writer_flush])
qed

lemma build_refused: "alloc_ok mem \<Longrightarrow> cap < 2 ^ 64 \<Longrightarrow> cbb_refuses m 0 \<Longrightarrow> build mem cap m = Err"
proof -
  assume a: "alloc_ok mem" "cap < 2 ^ 64" "cbb_refuses m 0"
  show "build mem cap m = Err"
  proof (cases "CBB_init mem cap")
    case (Ok s)
    then have "fst (m s) = Err" using CBB_init_builds [OF a(1,2) Ok] a(3) by (simp add: cbb_refuses_def) blast
    then show ?thesis using Ok by (cases "m s") (simp add: build_def op_then_apply)
  next
    case Abort
    then show ?thesis by (simp add: CBB_init_def Let_def split: if_splits)
  qed (simp add: build_def)
qed

section \<open>The text writer\<close>

definition dot_tail :: "nat list \<Rightarrow> byte list" where
  "dot_tail ns = concat (map (\<lambda>n. 0x2e # dec_enc n) ns)"

lemma dot_tail_simps [simp]: "dot_tail [] = []" "dot_tail (n # ns) = 0x2e # dec_enc n @ dot_tail ns"
  by (simp_all add: dot_tail_def)

lemma dotted_tail: "dotted (n # ns) = dec_enc n @ dot_tail ns"
  by (induction ns arbitrary: n) simp_all

lemma length_dec_enc_u64: "n < 2 ^ 64 \<Longrightarrow> length (dec_enc n) < 2 ^ 64"
proof -
  assume "n < 2 ^ 64"
  then have "length (radix 10 n) \<le> Suc 64"
    by (intro length_radix_le) (simp_all add: order_less_le_trans [OF _ power_mono [of 2 10 65]])
  then show ?thesis by (simp add: dec_enc_def)
qed

lemma cbb_writer_decimal: "n < 2 ^ 64 \<Longrightarrow> cbb_writer (add_decimal d (of_nat n)) d (dec_enc n) (length (dec_enc n)) True True"
  using cbb_writer_bytes [OF length_dec_enc_u64, of n d] by (simp only: add_decimal_def Let_def unat_of_nat_u64)

lemma cbb_writer_dot_decimal: "n < 2 ^ 64 \<Longrightarrow>
  cbb_writer (op_then (CBB_add_u8 d 0x2e) (add_decimal d (of_nat n))) d (0x2e # dec_enc n) (Suc (length (dec_enc n))) True True"
  using cbb_writer_then [OF cbb_writer_u8 [OF refl] cbb_writer_decimal, of n d "0x2e"] by simp

lemma parse_arc_step: "n < 2 ^ 64 \<Longrightarrow> parse_base128_integer (arcs_bytes (n # ns)) = (Ok (of_nat n), arcs_bytes ns)"
  by (simp add: parse_base128_integer_iff unat_of_nat_u64)

lemma oid_arcs_loop_ok:
  "u64_nums ns \<Longrightarrow> cbb_writer m 0 x c True True \<Longrightarrow>
     cbb_writer (op_then m (oid_arcs_loop (arcs_bytes ns))) 0 (x @ dot_tail ns)
       (c + length (dot_tail ns)) True True"
proof (induction ns arbitrary: m x c)
  case Nil
  have "oid_arcs_loop (arcs_bytes []) = op_ret ()" by (subst oid_arcs_loop.simps) simp
  with Nil show ?case by (simp only: op_then_ret_unit dot_tail_simps append_Nil2 list.size add_0_right)
next
  case (Cons n ns)
  have n: "n < 2 ^ 64" using Cons.prems(1) by (simp only: u64_nums_simps)
  have ne: "arcs_bytes (n # ns) \<noteq> []" by simp
  have l: "oid_arcs_loop (arcs_bytes (n # ns)) =
      op_then (op_then (CBB_add_u8 0 0x2e) (add_decimal 0 (of_nat n))) (oid_arcs_loop (arcs_bytes ns))"
    using ne by (subst oid_arcs_loop.simps) (simp only: parse_arc_step [OF n] op_then_assoc length_0_conv not_False_eq_True if_True prod.case result.case)
  have "cbb_writer (op_then m (op_then (CBB_add_u8 0 0x2e) (add_decimal 0 (of_nat n)))) 0 (x @ 0x2e # dec_enc n)
      (c + Suc (length (dec_enc n))) (True \<and> True) True"
    by (rule cbb_writer_then [OF Cons.prems(2) cbb_writer_dot_decimal [OF n]])
  from Cons.IH [OF _ this [unfolded conj_absorb]] Cons.prems(1) show ?case
    unfolding l by (simp add: op_then_assoc add.assoc)
qed

lemma oid_arcs_loop_bad:
  "\<nexists>ns. u64_nums ns \<and> cbs = arcs_bytes ns \<Longrightarrow> cbb_writer m 0 x c True True \<Longrightarrow>
     cbb_refuses (op_then m (oid_arcs_loop cbs)) 0"
proof (induction cbs arbitrary: m x c rule: length_induct)
  case (1 cbs)
  have ne: "cbs \<noteq> []"
  proof
    assume "cbs = []"
    then have "u64_nums [] \<and> cbs = arcs_bytes []" by simp
    with 1(2) show False by blast
  qed
  obtain r rest where p: "parse_base128_integer cbs = (r, rest)" by fastforce
  show ?case
  proof (cases r)
    case (Ok v)
    have l: "oid_arcs_loop cbs = op_then (op_then (CBB_add_u8 0 0x2e) (add_decimal 0 (of_nat (unat v)))) (oid_arcs_loop rest)"
      using ne p Ok by (subst oid_arcs_loop.simps) (simp add: op_then_assoc)
    have "cbs = arcs_bytes (unat v # ns)" if "rest = arcs_bytes ns" for ns
      using p Ok that by (simp add: parse_base128_integer_iff)
    then have bad: "\<nexists>ns. u64_nums ns \<and> rest = arcs_bytes ns"
      using 1(2) unat_u64 [of v] by (metis u64_nums_simps(2))
    have "cbb_writer (op_then m (op_then (CBB_add_u8 0 0x2e) (add_decimal 0 (of_nat (unat v))))) 0
        (x @ 0x2e # dec_enc (unat v)) (c + Suc (length (dec_enc (unat v)))) (True \<and> True) True"
      by (rule cbb_writer_then [OF 1(3) cbb_writer_dot_decimal [OF unat_u64]])
    moreover have "length rest < length cbs" using p Ok parse_base128_shrinks by simp
    ultimately have "cbb_refuses (op_then (op_then m (op_then (CBB_add_u8 0 0x2e) (add_decimal 0 (of_nat (unat v))))) (oid_arcs_loop rest)) 0"
      using 1(1) bad by (metis conj_absorb)
    then show ?thesis by (simp only: l op_then_assoc)
  next
    case Err
    have "oid_arcs_loop cbs = op_fail" using ne p Err by (subst oid_arcs_loop.simps) simp
    then show ?thesis using cbb_refuses_then [OF 1(3) cbb_refuses_fail] by (simp only:)
  next
    case Abort
    then show ?thesis using base128.rd_no_abort [of cbs] p by simp
  qed
qed

text \<open>The first subidentifier, split the way the code splits it.\<close>

definition oid_first :: "nat \<Rightarrow> nat \<times> nat" where
  "oid_first k = (if 80 \<le> k then (2, k - 80) else (k div 40, k mod 40))"

lemma oid_first_ok: "k < 2 ^ 64 \<Longrightarrow> oid_first k = (a, b) \<Longrightarrow> oid_root_ok a b \<and> 40 * a + b = k"
  by (auto simp: oid_first_def oid_root_ok_def split: if_splits)

lemma oid_first_unique: "oid_root_ok a b \<Longrightarrow> oid_first (40 * a + b) = (a, b)"
proof -
  assume r: "oid_root_ok a b"
  then consider "a = 2" | "a < 2" "b < 40" by (fastforce simp: oid_root_ok_def)
  then show ?thesis
  proof cases
    case 2
    then have "a = 0 \<or> a = 1" by auto
    with 2 show ?thesis by (auto simp: oid_first_def)
  qed (simp add: oid_first_def)
qed

definition oid_first_writer :: "u64 \<Rightarrow> (CBB, unit) op" where
  "oid_first_writer v =
     (if v \<ge> 80 then op_then (CBB_add_bytes 0 [0x32, 0x2e] 2) (add_decimal 0 (v - 80))
      else op_then (add_decimal 0 (v div 40)) (op_then (CBB_add_u8 0 0x2e) (add_decimal 0 (v mod 40))))"

lemma cbb_writer_oid_first:
  assumes "oid_first (unat v) = (a, b)"
  shows "cbb_writer (oid_first_writer v) 0 (dotted [a, b]) (length (dotted [a, b])) True True"
proof (cases "80 \<le> unat v")
  case True
  then have ab: "a = 2" "b = unat v - 80" using assms by (simp_all add: oid_first_def)
  have v: "80 \<le> v" using True by (simp add: word_le_nat_alt)
  have b: "b < 2 ^ 64" using unat_u64 [of v] ab by simp
  have vb: "v - 80 = of_nat b"
    using v True unfolding ab by (simp add: of_nat_diff)
  have two: "dec_enc 2 = [0x32]" by (simp add: dec_enc_small dec_digit_def)
  have "cbb_writer (op_then (CBB_add_bytes 0 [0x32, 0x2e] (length [0x32 :: byte, 0x2e])) (add_decimal 0 (of_nat b))) 0
      ([0x32, 0x2e] @ dec_enc b) (length [0x32 :: byte, 0x2e] + length (dec_enc b)) (True \<and> True) True"
    by (rule cbb_writer_then [OF cbb_writer_bytes cbb_writer_decimal [OF b]]) simp
  then show ?thesis using v by (simp add: oid_first_writer_def vb ab(1) two two [unfolded numeral_2_eq_2] numeral_2_eq_2)
next
  case False
  then have ab: "a = unat v div 40" "b = unat v mod 40" using assms by (simp_all add: oid_first_def)
  have v: "\<not> 80 \<le> v" using False by (simp add: word_le_nat_alt)
  have lt: "a < 2 ^ 64" "b < 2 ^ 64" using unat_u64 [of v] unfolding ab
    by (meson div_le_dividend le_less_trans mod_less_eq_dividend)+
  have d: "v div 40 = of_nat a" "v mod 40 = of_nat b"
    unfolding ab by (simp_all add: word_arith_nat_div word_arith_nat_mod)
  have "cbb_writer (op_then (add_decimal 0 (of_nat a)) (op_then (CBB_add_u8 0 0x2e) (add_decimal 0 (of_nat b)))) 0
      (dec_enc a @ 0x2e # dec_enc b) (length (dec_enc a) + Suc (length (dec_enc b))) (True \<and> True) True"
    by (rule cbb_writer_then [OF cbb_writer_decimal [OF lt(1)] cbb_writer_dot_decimal [OF lt(2)]])
  then show ?thesis using v by (simp add: oid_first_writer_def d)
qed

definition oid_text_writer :: "CBS \<Rightarrow> (CBB, unit) op" where
  "oid_text_writer cbs = op_bind (op_run parse_base128_integer cbs) (\<lambda>(v, copy).
     op_then (oid_first_writer v) (op_then (oid_arcs_loop copy) (CBB_add_u8 0 0)))"

lemma CBS_asn1_oid_to_text_build:
  "CBS_asn1_oid_to_text mem cbs =
     (case build mem 32 (oid_text_writer cbs) of
        Ok (txt, txt_len) \<Rightarrow> Ok txt | Err \<Rightarrow> Ok None | Abort \<Rightarrow> Abort)"
  unfolding CBS_asn1_oid_to_text_def build_def oid_text_writer_def oid_first_writer_def
    op_bind_then_distrib op_then_assoc split_beta
  by (cases "CBB_init mem 32") (simp_all add: split_beta)

definition oid_text :: "CBS \<Rightarrow> nat \<Rightarrow> nat \<Rightarrow> nat list \<Rightarrow> bool" where
  "oid_text cbs a b ns \<longleftrightarrow> oid_root_ok a b \<and> u64_nums ns \<and> cbs = oid_contents a b ns"

lemma oid_text_writer_ok:
  assumes "oid_text cbs a b ns"
  shows "cbb_writer (oid_text_writer cbs) 0 (dotted (a # b # ns) @ [0]) (length (dotted (a # b # ns)) + 1) True True"
proof -
  have r: "oid_root_ok a b" and ns: "u64_nums ns" and cbs: "cbs = arcs_bytes ((40 * a + b) # ns)"
    using assms by (simp_all add: oid_text_def oid_contents_def)
  define k where "k = 40 * a + b"
  have k: "k < 2 ^ 64" using oid_root_sum_less [OF r] by (simp add: k_def)
  have f: "oid_first (unat (of_nat k :: u64)) = (a, b)"
    using oid_first_unique [OF r] by (simp only: unat_of_nat_u64 [OF k]) (simp only: k_def)
  have "cbb_writer (op_then (op_then (oid_first_writer (of_nat k)) (oid_arcs_loop (arcs_bytes ns))) (CBB_add_u8 0 0)) 0
      ((dotted [a, b] @ dot_tail ns) @ [0]) ((length (dotted [a, b]) + length (dot_tail ns)) + 1) (True \<and> True) True"
    by (rule cbb_writer_then [OF oid_arcs_loop_ok [OF ns cbb_writer_oid_first [OF f]] cbb_writer_u8]) simp
  moreover have "dotted [a, b] @ dot_tail ns = dotted (a # b # ns)" by (simp add: dotted_tail)
  moreover from this have "length (dotted [a, b]) + length (dot_tail ns) = length (dotted (a # b # ns))"
    by (metis length_append)
  ultimately show ?thesis
    unfolding oid_text_writer_def cbs k_def [symmetric]
    by (simp only: op_run_step [of parse_base128_integer, OF parse_arc_step [OF k]] prod.case op_then_assoc conj_absorb)
qed

lemma oid_text_writer_bad:
  assumes bad: "\<nexists>a b ns. oid_text cbs a b ns"
  shows "cbb_refuses (oid_text_writer cbs) 0"
proof (cases "fst (parse_base128_integer cbs) = Err")
  case True
  then show ?thesis by (simp only: oid_text_writer_def op_run_fails cbb_refuses_fail)
next
  case False
  then obtain v copy where p: "parse_base128_integer cbs = (Ok v, copy)"
    using base128.rd_no_abort [of cbs] by (cases "parse_base128_integer cbs"; cases "fst (parse_base128_integer cbs)") auto
  obtain a b where f: "oid_first (unat v) = (a, b)" by fastforce
  note ab = oid_first_ok [OF unat_u64 f]
  have "\<not> (u64_nums ns \<and> copy = arcs_bytes ns)" for ns
  proof
    assume ns: "u64_nums ns \<and> copy = arcs_bytes ns"
    then have "cbs = oid_contents a b ns" using p ab by (simp add: oid_contents_def parse_base128_integer_iff)
    then have "oid_text cbs a b ns" using ns ab by (simp only: oid_text_def simp_thms)
    with bad show False by blast
  qed
  then have "cbb_refuses (op_then (oid_first_writer v) (oid_arcs_loop copy)) 0"
    by (intro oid_arcs_loop_bad [OF _ cbb_writer_oid_first [OF f]]) blast
  then have "cbb_refuses (op_then (op_then (oid_first_writer v) (oid_arcs_loop copy)) (CBB_add_u8 0 0)) 0"
    unfolding cbb_refuses_def by (auto simp: op_then_apply split: prod.split result.split)
  then show ?thesis
    by (simp only: oid_text_writer_def op_run_step [of parse_base128_integer, OF p] prod.case op_then_assoc)
qed

text \<open>The dotted form determines the numbers.\<close>

lemma dotted_inj: "u64_nums ms \<Longrightarrow> u64_nums ns \<Longrightarrow> dotted ms = dotted ns \<Longrightarrow> ms = ns"
proof (induction ms arbitrary: ns)
  case Nil
  then show ?case using dotted_nonempty [of ns] by auto
next
  case (Cons m ms)
  then obtain n ns' where ns: "ns = n # ns'" using dotted_nonempty [of "m # ms"] by (cases ns) auto
  have "m < 2 ^ 64" "n < 2 ^ 64" using Cons.prems(1,2) unfolding ns u64_nums_simps by blast+
  note mn = this
  have "parse_dotted_decimal (dotted (m # ms)) = parse_dotted_decimal (dotted (n # ns'))"
    by (simp only: Cons.prems(3) ns)
  then have "(Ok (of_nat m :: u64), dotted ms) = (Ok (of_nat n), dotted ns')"
    by (simp only: parse_dotted_step mn)
  then have "(of_nat m :: u64) = of_nat n" "dotted ms = dotted ns'" by simp_all
  then have "unat (of_nat m :: u64) = unat (of_nat n :: u64)" by (simp only:)
  then have "m = n" by (simp only: unat_of_nat_u64 mn)
  moreover have "ms = ns'"
    by (rule Cons.IH) (use Cons.prems(1,2) ns \<open>dotted ms = dotted ns'\<close> in \<open>simp_all only: u64_nums_simps\<close>)
  ultimately show ?case by (simp only: ns)
qed

lemma oid_root_u64: "oid_root_ok a b \<Longrightarrow> u64_nums ns \<Longrightarrow> u64_nums (a # b # ns)"
  by (simp add: oid_root_ok_def)

lemma oid_writable_unique:
  "oid_writable t a b ns \<Longrightarrow> oid_writable t a' b' ns' \<Longrightarrow> a' # b' # ns' = a # b # ns"
  unfolding oid_writable_def
  using dotted_inj [of "a' # b' # ns'" "a # b # ns"] oid_root_u64 [of a b ns] oid_root_u64 [of a' b' ns'] by simp

lemma oid_text_unique:
  assumes "oid_text cbs a b ns" "oid_text cbs a' b' ns'" shows "a' # b' # ns' = a # b # ns"
proof -
  have k: "oid_root_ok a b" "oid_root_ok a' b'" "u64_nums ns" "u64_nums ns'"
    "arcs_bytes ((40 * a + b) # ns) = arcs_bytes ((40 * a' + b') # ns')"
    using assms by (simp_all add: oid_text_def oid_contents_def)
  have inj: "u64_nums ms \<Longrightarrow> u64_nums ns \<Longrightarrow> arcs_bytes ms = arcs_bytes ns \<Longrightarrow> ms = ns" for ms ns
  proof (induction ms arbitrary: ns)
    case Nil
    then show ?case by (cases ns) simp_all
  next
    case (Cons m ms)
    then obtain n ns' where ns: "ns = n # ns'" by (cases ns) simp_all
    have "m < 2 ^ 64" "n < 2 ^ 64" using Cons.prems(1,2) unfolding ns u64_nums_simps by blast+
    note mn = this
    have "parse_base128_integer (arcs_bytes (m # ms)) = parse_base128_integer (arcs_bytes (n # ns'))"
      by (simp only: Cons.prems(3) ns)
    then have "(Ok (of_nat m :: u64), arcs_bytes ms) = (Ok (of_nat n), arcs_bytes ns')"
      by (simp only: parse_arc_step mn)
    then have "(of_nat m :: u64) = of_nat n" "arcs_bytes ms = arcs_bytes ns'" by simp_all
    then have "unat (of_nat m :: u64) = unat (of_nat n :: u64)" by (simp only:)
    then have "m = n" by (simp only: unat_of_nat_u64 mn)
    moreover have "ms = ns'"
      by (rule Cons.IH) (use Cons.prems(1,2) ns \<open>arcs_bytes ms = arcs_bytes ns'\<close> in \<open>simp_all only: u64_nums_simps\<close>)
    ultimately show ?case by (simp only: ns)
  qed
  have "u64_nums ((40 * a + b) # ns)" "u64_nums ((40 * a' + b') # ns')"
    using oid_root_sum_less [OF k(1)] oid_root_sum_less [OF k(2)] k(3,4) by (simp_all only: u64_nums_simps)
  then have "(40 * a + b) # ns = (40 * a' + b') # ns'" by (rule inj [OF _ _ k(5)])
  then have e: "40 * a + b = 40 * a' + b'" and n: "ns = ns'" by (simp_all only: list.inject)
  have "(a, b) = (a', b')" using oid_first_unique [OF k(1)] oid_first_unique [OF k(2)] unfolding e by (rule subst)
  then show ?thesis using n by simp
qed

section \<open>Properties\<close>

text \<open>
  C18. Writing an object identifier from its text succeeds exactly on dotted decimal numbers
  with a first component of at most 2, a second one below 40 under 0 and 1, and components
  of 64 bits; the result is the DER contents of that identifier.
\<close>

theorem oid_from_text:
  assumes "alloc_ok mem" and "cap < 2 ^ 64"
  shows "case build mem cap (CBB_add_asn1_oid_from_text 0 text) of
     Ok out \<Rightarrow> (\<exists>a b ns. oid_writable text a b ns \<and> holds_bytes out (oid_contents a b ns))
   | Err \<Rightarrow> \<not> (\<exists>a b ns. oid_writable text a b ns \<and> memory_for mem cap (length (oid_contents a b ns)))
   | Abort \<Rightarrow> False"
proof (cases "\<exists>a b ns. oid_writable text a b ns")
  case True
  then obtain a b ns where w: "oid_writable text a b ns" by blast
  have all: "case build mem cap (CBB_add_asn1_oid_from_text 0 text) of
     Ok out \<Rightarrow> True \<and> holds_bytes out (oid_contents a b ns)
   | Err \<Rightarrow> \<not> (True \<and> memory_for mem cap (length (oid_contents a b ns)))
   | Abort \<Rightarrow> False"
    by (rule build_result [OF assms oid_from_text_ok [OF w]])
  have same: "oid_contents a' b' ns' = oid_contents a b ns" if "oid_writable text a' b' ns'" for a' b' ns'
    using oid_writable_unique [OF w that] by simp
  show ?thesis
  proof (cases "build mem cap (CBB_add_asn1_oid_from_text 0 text)")
    case (Ok out)
    then show ?thesis using all w by auto
  next
    case Err
    then have "\<not> memory_for mem cap (length (oid_contents a b ns))" using all by simp
    then have "\<not> (oid_writable text a' b' ns' \<and> memory_for mem cap (length (oid_contents a' b' ns')))" for a' b' ns'
      using same [of a' b' ns'] by auto
    then show ?thesis using Err by simp
  next
    case Abort
    then show ?thesis using all by simp
  qed
next
  case False
  then show ?thesis using build_refused [OF assms oid_from_text_bad [OF False]] by auto
qed

theorem oid_from_text_witness:
  "case build (\<lambda>n. Some (replicate n 0)) 0 (CBB_add_asn1_oid_from_text 0 (dotted [1, 2, 840])) of
     Ok out \<Rightarrow> (\<exists>a b ns. oid_writable (dotted [1, 2, 840]) a b ns \<and> holds_bytes out (oid_contents a b ns))
   | Err \<Rightarrow> \<not> (\<exists>a b ns. oid_writable (dotted [1, 2, 840]) a b ns \<and>
       memory_for (\<lambda>n. Some (replicate n 0)) 0 (length (oid_contents a b ns)))
   | Abort \<Rightarrow> False"
  by (rule oid_from_text) (simp_all add: alloc_ok_def)

text \<open>
  Printing an object identifier: the result is its dotted decimal text and a null byte,
  exactly for the DER contents of an identifier with 64-bit components; other inputs and
  running out of memory give the null pointer.
\<close>

theorem oid_to_text:
  assumes "alloc_ok mem"
  shows "case CBS_asn1_oid_to_text mem cbs of
     Ok (Some txt) \<Rightarrow> (\<exists>a b ns. oid_text cbs a b ns \<and>
       take (length (dotted (a # b # ns)) + 1) txt = dotted (a # b # ns) @ [0])
   | Ok None \<Rightarrow> \<not> (\<exists>a b ns. oid_text cbs a b ns \<and>
       memory_for mem 32 (length (dotted (a # b # ns)) + 1))
   | Err \<Rightarrow> False | Abort \<Rightarrow> False"
proof (cases "\<exists>a b ns. oid_text cbs a b ns")
  case True
  then obtain a b ns where w: "oid_text cbs a b ns" by blast
  have all: "case build mem 32 (oid_text_writer cbs) of
     Ok out \<Rightarrow> True \<and> holds_bytes out (dotted (a # b # ns) @ [0])
   | Err \<Rightarrow> \<not> (True \<and> memory_for mem 32 (length (dotted (a # b # ns)) + 1))
   | Abort \<Rightarrow> False"
    by (rule build_result [OF assms _ oid_text_writer_ok [OF w]]) simp
  have same: "dotted (a' # b' # ns') = dotted (a # b # ns)" if "oid_text cbs a' b' ns'" for a' b' ns'
    using oid_text_unique [OF w that] by simp
  note to_text = CBS_asn1_oid_to_text_build [of mem cbs]
  show ?thesis
  proof (cases "build mem 32 (oid_text_writer cbs)")
    case (Ok out)
    then obtain buf where "out = (Some buf, Some (length (dotted (a # b # ns)) + 1))"
      "take (length (dotted (a # b # ns)) + 1) buf = dotted (a # b # ns) @ [0]"
      using all by (auto simp: holds_bytes_def split: option.splits simp del: dotted.simps)
    then show ?thesis using Ok w by (simp add: to_text del: dotted.simps) blast
  next
    case Err
    then have "\<not> memory_for mem 32 (length (dotted (a # b # ns)) + 1)" using all by simp
    then have "\<not> (oid_text cbs a' b' ns' \<and> memory_for mem 32 (length (dotted (a' # b' # ns')) + 1))" for a' b' ns'
      using same [of a' b' ns'] by (auto simp del: dotted.simps)
    then show ?thesis using Err by (simp add: to_text del: dotted.simps)
  next
    case Abort
    then show ?thesis using all by (simp add: to_text)
  qed
next
  case False
  then show ?thesis using build_refused [OF assms _ oid_text_writer_bad [OF False], of 32]
    by (auto simp: CBS_asn1_oid_to_text_build)
qed

theorem oid_to_text_witness:
  "case CBS_asn1_oid_to_text (\<lambda>n. Some (replicate n 0)) [0x2a, 0x86, 0x48] of
     Ok (Some txt) \<Rightarrow> (\<exists>a b ns. oid_text [0x2a, 0x86, 0x48] a b ns \<and>
       take (length (dotted (a # b # ns)) + 1) txt = dotted (a # b # ns) @ [0])
   | Ok None \<Rightarrow> \<not> (\<exists>a b ns. oid_text [0x2a, 0x86, 0x48] a b ns \<and>
       memory_for (\<lambda>n. Some (replicate n 0)) 32 (length (dotted (a # b # ns)) + 1))
   | Err \<Rightarrow> False | Abort \<Rightarrow> False"
  by (rule oid_to_text) (simp add: alloc_ok_def)

end
