(* ===== verification/Unicode_Enc.thy ===== *)
theory Unicode_Enc
  imports Cbb_Document
begin

text \<open>
  crypto/bytestring/unicode.c: reading and writing single code points in UTF-8, Latin-1,
  UCS-2 and UTF-32.
\<close>

section \<open>Code points\<close>

definition is_valid_code_point :: "u32 \<Rightarrow> bool" where
  "is_valid_code_point v \<longleftrightarrow>
     \<not> (v > 0x10ffff \<or> v AND 0xfffe = 0xfffe \<or> (v \<ge> 0xfdd0 \<and> v \<le> 0xfdef) \<or> (v \<ge> 0xd800 \<and> v \<le> 0xdfff))"

definition BOTTOM_BITS :: "nat \<Rightarrow> byte" where
  "BOTTOM_BITS n = ucast (push_bit n (1 :: u32) - 1)"

definition TOP_BITS :: "nat \<Rightarrow> byte" where
  "TOP_BITS n = NOT (BOTTOM_BITS (8 - n))"

section \<open>Reading\<close>

fun utf8_continuation :: "nat \<Rightarrow> u32 \<Rightarrow> (CBS, u32) op" where
  "utf8_continuation 0 v = op_ret v"
| "utf8_continuation (Suc len) v =
     op_bind CBS_get_u8 (\<lambda>c.
     op_then (op_require (c AND TOP_BITS 2 = TOP_BITS 1))
       (utf8_continuation len (push_bit 6 v OR ucast (c AND BOTTOM_BITS 6))))"

definition CBS_get_utf8 :: "(CBS, u32) op" where
  "CBS_get_utf8 =
     op_bind CBS_get_u8 (\<lambda>c.
       if c \<le> 0x7f then op_ret (ucast c)
       else op_bind
         (if c AND TOP_BITS 3 = TOP_BITS 2 then op_ret (c AND BOTTOM_BITS 5, 1, 0x80)
          else if c AND TOP_BITS 4 = TOP_BITS 3 then op_ret (c AND BOTTOM_BITS 4, 2, 0x800)
          else if c AND TOP_BITS 5 = TOP_BITS 4 then op_ret (c AND BOTTOM_BITS 3, 3, 0x10000)
          else op_fail)
         (\<lambda>(v, len, lower_bound).
            op_bind (utf8_continuation len (ucast v)) (\<lambda>v.
            op_then (op_require (\<not> (\<not> is_valid_code_point v \<or> v < lower_bound)))
            (op_ret v))))"

definition CBS_get_latin1 :: "(CBS, u32) op" where
  "CBS_get_latin1 = op_bind CBS_get_u8 (\<lambda>c. op_ret (ucast c))"

definition CBS_get_ucs2_be :: "(CBS, u32) op" where
  "CBS_get_ucs2_be =
     op_bind CBS_get_u16 (\<lambda>c.
     op_then (op_require (is_valid_code_point (ucast c))) (op_ret (ucast c)))"

definition CBS_get_utf32_be :: "(CBS, u32) op" where
  "CBS_get_utf32_be =
     op_bind CBS_get_u32 (\<lambda>out. op_then (op_require (is_valid_code_point out)) (op_ret out))"

section \<open>Writing\<close>

definition CBB_get_utf8_len :: "u32 \<Rightarrow> nat" where
  "CBB_get_utf8_len u = (if u \<le> 0x7f then 1 else if u \<le> 0x7ff then 2 else if u \<le> 0xffff then 3 else 4)"

definition CBB_add_utf8 :: "nat \<Rightarrow> u32 \<Rightarrow> (CBB, unit) op" where
  "CBB_add_utf8 d u =
     op_then (op_require (is_valid_code_point u))
      (if u \<le> 0x7f then CBB_add_u8 d (ucast u)
       else if u \<le> 0x7ff then
         op_then (CBB_add_u8 d (TOP_BITS 2 OR ucast (drop_bit 6 u)))
           (CBB_add_u8 d (TOP_BITS 1 OR (ucast u AND BOTTOM_BITS 6)))
       else if u \<le> 0xffff then
         op_then (CBB_add_u8 d (TOP_BITS 3 OR ucast (drop_bit 12 u)))
        (op_then (CBB_add_u8 d (TOP_BITS 1 OR (ucast (drop_bit 6 u) AND BOTTOM_BITS 6)))
           (CBB_add_u8 d (TOP_BITS 1 OR (ucast u AND BOTTOM_BITS 6))))
       else if u \<le> 0x10ffff then
         op_then (CBB_add_u8 d (TOP_BITS 4 OR ucast (drop_bit 18 u)))
        (op_then (CBB_add_u8 d (TOP_BITS 1 OR (ucast (drop_bit 12 u) AND BOTTOM_BITS 6)))
        (op_then (CBB_add_u8 d (TOP_BITS 1 OR (ucast (drop_bit 6 u) AND BOTTOM_BITS 6)))
           (CBB_add_u8 d (TOP_BITS 1 OR (ucast u AND BOTTOM_BITS 6)))))
       else op_fail)"

definition CBB_add_latin1 :: "nat \<Rightarrow> u32 \<Rightarrow> (CBB, unit) op" where
  "CBB_add_latin1 d u = op_then (op_require (u \<le> 0xff)) (CBB_add_u8 d (ucast u))"

definition CBB_add_ucs2_be :: "nat \<Rightarrow> u32 \<Rightarrow> (CBB, unit) op" where
  "CBB_add_ucs2_be d u =
     op_then (op_require (u \<le> 0xffff)) (op_then (op_require (is_valid_code_point u)) (CBB_add_u16 d (ucast u)))"

definition CBB_add_utf32_be :: "nat \<Rightarrow> u32 \<Rightarrow> (CBB, unit) op" where
  "CBB_add_utf32_be d u = op_then (op_require (is_valid_code_point u)) (CBB_add_u32 d u)"

section \<open>The encoding\<close>

text \<open>Scalar values without the noncharacters, and UTF-8 by its table.\<close>

definition code_point :: "nat \<Rightarrow> bool" where
  "code_point n \<longleftrightarrow> n < 0x110000 \<and> n mod 0x10000 < 0xfffe \<and> \<not> (0xfdd0 \<le> n \<and> n < 0xfdf0) \<and>
     \<not> (0xd800 \<le> n \<and> n < 0xe000)"

definition cont_byte :: "nat \<Rightarrow> byte" where
  "cont_byte n = of_nat (0x80 + n mod 64)"

definition utf8_enc :: "nat \<Rightarrow> byte list" where
  "utf8_enc n =
     (if n < 0x80 then [of_nat n]
      else if n < 0x800 then [of_nat (0xc0 + n div 64), cont_byte n]
      else if n < 0x10000 then [of_nat (0xe0 + n div 4096), cont_byte (n div 64), cont_byte n]
      else [of_nat (0xf0 + n div 262144), cont_byte (n div 4096), cont_byte (n div 64), cont_byte n])"

text \<open>Comparing a field of bits.\<close>

lemma and_field:
  fixes w :: "'a::len word"
  assumes "c < 2 ^ m" and "k + m \<le> LENGTH('a)"
  shows "w AND push_bit k (mask m) = push_bit k (of_nat c) \<longleftrightarrow> unat w div 2 ^ k mod 2 ^ m = c"
proof -
  have less: "n * 2 ^ k < 2 ^ LENGTH('a)" if "n < 2 ^ m" for n :: nat
  proof -
    have "n * 2 ^ k < 2 ^ m * 2 ^ k" using that by simp
    also have "\<dots> = 2 ^ (k + m)" by (simp add: power_add)
    also have "\<dots> \<le> 2 ^ LENGTH('a)" using assms(2) by (intro power_increasing) simp_all
    finally show ?thesis .
  qed
  have c: "unat (of_nat c :: 'a word) = c"
  proof -
    have "c < 2 ^ LENGTH('a)" using less [OF assms(1)] by (rule le_less_trans [rotated]) simp
    then show ?thesis by (simp add: unat_of_nat take_bit_nat_eq_self)
  qed
  define f where "f = unat w div 2 ^ k mod 2 ^ m"
  have "w AND push_bit k (mask m) = push_bit k (take_bit m (drop_bit k w))"
    by (rule bit_word_eqI) (auto simp: bit_simps)
  moreover have uf: "unat (take_bit m (drop_bit k w)) = f"
    by (simp only: unat_take_bit_mod unat_drop_bit_eq f_def) (simp only: drop_bit_eq_div)
  moreover have "unat (push_bit k (take_bit m (drop_bit k w))) = f * 2 ^ k"
    using less [of f] by (subst unat_push_bit_small) (simp_all only: uf, simp add: f_def)
  moreover have "unat (push_bit k (of_nat c :: 'a word)) = c * 2 ^ k"
    using less [OF assms(1)] by (subst unat_push_bit_small) (simp_all only: c)
  ultimately show ?thesis
    unfolding word_unat_eq_iff by (simp add: f_def)
qed

lemma half_mod: "n mod 65536 = 2 * (n div 2 mod 32768) + n mod (2 :: nat)"
proof -
  have "n mod (2 ^ Suc k) = 2 * (n div 2 mod 2 ^ k) + n mod (2::nat)" for k
    by (simp add: mod_mult2_eq)
  from this [of 15] show ?thesis by simp
qed

lemma fffe_mask: "v AND 0xfffe = 0xfffe \<longleftrightarrow> 0xfffe \<le> unat (v :: u32) mod 0x10000"
proof -
  have "v AND 0xfffe = 0xfffe \<longleftrightarrow> unat v div 2 mod 0x8000 = 0x7fff"
    using and_field [of "0x7fff" 15 1 v] by (simp add: mask_eq_exp_minus_1)
  also have "\<dots> \<longleftrightarrow> 0xfffe \<le> unat v mod 0x10000"
  proof -
    have "unat v mod 0x10000 = 2 * (unat v div 2 mod 0x8000) + unat v mod 2"
      using half_mod .
    moreover have "unat v div 2 mod 0x8000 < 0x8000" "unat v mod 2 < 2" by simp_all
    ultimately show ?thesis by linarith
  qed
  finally show ?thesis .
qed

lemma BOTTOM_BITS_vals [simp]:
  "BOTTOM_BITS 3 = 7" "BOTTOM_BITS 4 = 15" "BOTTOM_BITS 5 = 31" "BOTTOM_BITS 6 = 63" "BOTTOM_BITS 7 = 127"
  by (simp_all add: BOTTOM_BITS_def)

lemma TOP_BITS_vals [simp]:
  "TOP_BITS (Suc 0) = 0x80" "TOP_BITS 1 = 0x80" "TOP_BITS 2 = 0xc0" "TOP_BITS 3 = 0xe0" "TOP_BITS 4 = 0xf0" "TOP_BITS 5 = 0xf8"
  by (simp_all add: TOP_BITS_def)

lemma byte_top:
  "(b :: byte) AND 0xc0 = 0x80 \<longleftrightarrow> unat b div 64 = 2"
  "b AND 0xe0 = 0xc0 \<longleftrightarrow> unat b div 32 = 6"
  "b AND 0xf0 = 0xe0 \<longleftrightarrow> unat b div 16 = 14"
  "b AND 0xf8 = 0xf0 \<longleftrightarrow> unat b div 8 = 30"
proof -
  have d: "unat b div 64 < 4" "unat b div 32 < 8" "unat b div 16 < 16" "unat b div 8 < 32"
    using unat_lt_256 [of b] by simp_all
  show "b AND 0xc0 = 0x80 \<longleftrightarrow> unat b div 64 = 2"
    using and_field [of 2 2 6 b] d by (simp add: mask_eq_exp_minus_1)
  show "b AND 0xe0 = 0xc0 \<longleftrightarrow> unat b div 32 = 6"
    using and_field [of 6 3 5 b] d by (simp add: mask_eq_exp_minus_1)
  show "b AND 0xf0 = 0xe0 \<longleftrightarrow> unat b div 16 = 14"
    using and_field [of 14 4 4 b] d by (simp add: mask_eq_exp_minus_1)
  show "b AND 0xf8 = 0xf0 \<longleftrightarrow> unat b div 8 = 30"
    using and_field [of 30 5 3 b] d by (simp add: mask_eq_exp_minus_1)
qed

lemma byte_bottom:
  "unat ((b :: byte) AND 63) = unat b mod 64" "unat (b AND 31) = unat b mod 32"
  "unat (b AND 15) = unat b mod 16" "unat (b AND 7) = unat b mod 8"
proof -
  have m: "b AND 63 = take_bit 6 b" "b AND 31 = take_bit 5 b" "b AND 15 = take_bit 4 b" "b AND 7 = take_bit 3 b"
    by (simp_all add: take_bit_eq_mask mask_eq_exp_minus_1)
  show "unat (b AND 63) = unat b mod 64" "unat (b AND 31) = unat b mod 32"
    "unat (b AND 15) = unat b mod 16" "unat (b AND 7) = unat b mod 8"
    unfolding m unat_take_bit_mod by simp_all
qed

lemma is_valid_code_point_iff: "is_valid_code_point v \<longleftrightarrow> code_point (unat v)"
  unfolding is_valid_code_point_def code_point_def fffe_mask
  by (auto simp: word_less_nat_alt word_le_nat_alt)

section \<open>UTF-8 as a codec\<close>

fun cont_bytes :: "nat \<Rightarrow> nat \<Rightarrow> byte list" where
  "cont_bytes 0 n = []"
| "cont_bytes (Suc k) n = cont_byte (n div 64 ^ k) # cont_bytes k n"

lemma unat_cont_byte: "unat (cont_byte n) = 128 + n mod 64"
  by (simp add: cont_byte_def unat_of_nat take_bit_eq_mod del: of_nat_add)

lemma cont_byte_of: "unat c div 64 = 2 \<Longrightarrow> cont_byte (unat c mod 64) = c"
proof -
  assume "unat c div 64 = 2"
  then have "unat c = 128 + unat c mod 64" using div_mult_mod_eq [of "unat c" 64] by linarith
  then show ?thesis unfolding word_unat_eq_iff unat_cont_byte by simp
qed

lemma cont_byte_mod [simp]: "cont_byte (n mod 64) = cont_byte n"
  by (simp add: cont_byte_def)

lemma push6_or:
  "m < 2 ^ 26 \<Longrightarrow> push_bit 6 (of_nat m :: u32) OR ucast ((c :: byte) AND 63) = of_nat (m * 64 + unat c mod 64)"
proof -
  assume m: "m < 2 ^ 26"
  have sum: "push_bit 6 (of_nat m :: u32) OR ucast (c AND 63) = push_bit 6 (of_nat m) + ucast (c AND 63)"
  proof (rule disjunctive_add [symmetric])
    fix k
    have "bit (63 :: byte) k \<longleftrightarrow> k < 6"
      using bit_mask_iff [of 6 k, where 'a = byte] by (auto simp: mask_eq_exp_minus_1)
    then show "\<not> bit (push_bit 6 (of_nat m :: u32)) k \<or> \<not> bit (ucast (c AND 63) :: u32) k"
      by (auto simp: bit_simps)
  qed
  have "ucast (c AND 63) = (of_nat (unat c mod 64) :: u32)"
    by (simp only: byte_bottom [symmetric]) simp
  moreover have "push_bit 6 (of_nat m :: u32) = of_nat (m * 64)" by (simp add: push_bit_eq_mult)
  ultimately show ?thesis unfolding sum by simp
qed

lemma continuation_Suc:
  assumes "m < 2 ^ 26"
  shows "utf8_continuation (Suc n) (of_nat m) cbs = (Ok w, rest) \<longleftrightarrow>
    (\<exists>k t. k < 64 \<and> cbs = cont_byte k # t \<and> utf8_continuation n (of_nat (m * 64 + k)) t = (Ok w, rest))"
    (is "?l \<longleftrightarrow> ?r")
proof
  assume ?l
  then obtain c t where t: "cbs = c # t" "unat c div 64 = 2"
    "utf8_continuation n (of_nat (m * 64 + unat c mod 64)) t = (Ok w, rest)"
    unfolding utf8_continuation.simps
    by (elim op_bind_OkE op_require_OkE)
      (simp add: CBS_get_u8_eq byte_top push6_or [OF assms] split: list.splits)
  then show ?r using cont_byte_of [OF t(2)]
    by (intro exI [of _ "unat c mod 64"] exI [of _ t]) simp
next
  assume ?r
  then obtain k t where t: "k < 64" "cbs = cont_byte k # t"
    "utf8_continuation n (of_nat (m * 64 + k)) t = (Ok w, rest)" by blast
  have "unat (cont_byte k) div 64 = 2" "unat (cont_byte k) mod 64 = k"
    using t(1) mod_mult_self3 [of 2 64 k] by (simp_all add: unat_cont_byte)
  with t(3) show ?l
    unfolding utf8_continuation.simps t(2)
    by (simp add: CBS_get_u8_eq op_bind_apply op_then_apply byte_top push6_or [OF assms])
qed

lemma continuation_iff:
  "(m + 1) * 64 ^ n \<le> 2 ^ 32 \<Longrightarrow>
     utf8_continuation n (of_nat m) cbs = (Ok w, rest) \<longleftrightarrow>
       unat w div 64 ^ n = m \<and> cbs = cont_bytes n (unat w) @ rest"
proof (induction n arbitrary: m cbs)
  case 0
  have "m < 2 ^ 32" using 0 by simp
  then have "unat (of_nat m :: u32) = m" by (simp add: unat_of_nat take_bit_nat_eq_self)
  then have "(of_nat m :: u32) = w \<longleftrightarrow> unat w = m" by (auto simp: word_unat_eq_iff)
  then show ?case by auto
next
  case (Suc n)
  have "(m + 1) * 64 * 1 \<le> (m + 1) * 64 * 64 ^ n" by (intro mult_left_mono) simp_all
  also have "\<dots> \<le> 2 ^ 32" using Suc.prems by (simp add: algebra_simps)
  finally have m: "m < 2 ^ 26" by simp
  have step: "(m * 64 + k + 1) * 64 ^ n \<le> 2 ^ 32" if "k < 64" for k
  proof -
    have "(m * 64 + k + 1) * 64 ^ n \<le> (m + 1) * 64 * 64 ^ n" using that by (intro mult_right_mono) simp_all
    also have "\<dots> \<le> 2 ^ 32" using Suc.prems by (simp add: algebra_simps)
    finally show ?thesis .
  qed
  define q where "q = unat w div 64 ^ n"
  have q: "unat w div 64 ^ Suc n = q div 64"
    unfolding q_def power_Suc2 by (rule div_mult2_eq)
  have "utf8_continuation (Suc n) (of_nat m) cbs = (Ok w, rest) \<longleftrightarrow>
      (\<exists>k. k < 64 \<and> q = m * 64 + k \<and> cbs = cont_byte k # cont_bytes n (unat w) @ rest)"
    unfolding continuation_Suc [OF m] using Suc.IH [OF step] by (auto simp: q_def)
  also have "\<dots> \<longleftrightarrow> q div 64 = m \<and> cbs = cont_byte q # cont_bytes n (unat w) @ rest"
  proof
    assume "\<exists>k. k < 64 \<and> q = m * 64 + k \<and> cbs = cont_byte k # cont_bytes n (unat w) @ rest"
    then obtain k where k: "k < 64" "q = m * 64 + k" "cbs = cont_byte k # cont_bytes n (unat w) @ rest" by blast
    then have "q div 64 = m" "q mod 64 = k" by simp_all
    then show "q div 64 = m \<and> cbs = cont_byte q # cont_bytes n (unat w) @ rest"
      using k(3) cont_byte_mod [of q] by simp
  next
    assume "q div 64 = m \<and> cbs = cont_byte q # cont_bytes n (unat w) @ rest"
    then show "\<exists>k. k < 64 \<and> q = m * 64 + k \<and> cbs = cont_byte k # cont_bytes n (unat w) @ rest"
      by (intro exI [of _ "q mod 64"]) auto
  qed
  finally show ?case by (simp only: q q_def cont_bytes.simps append_Cons)
qed

lemma utf8_enc_cases:
  "utf8_enc n =
     (if n < 0x80 then [of_nat n]
      else if n < 0x800 then of_nat (0xc0 + n div 64 ^ 1) # cont_bytes 1 n
      else if n < 0x10000 then of_nat (0xe0 + n div 64 ^ 2) # cont_bytes 2 n
      else of_nat (0xf0 + n div 64 ^ 3) # cont_bytes 3 n)"
  by (simp add: utf8_enc_def numeral_2_eq_2 numeral_3_eq_3)

lemma lead_byte_ok:
  "unat (c :: byte) = p + m \<Longrightarrow> c = of_nat (p + m)"
  by (metis of_nat_unat ucast_id)

text \<open>One branch of the reader: the lead byte, then the continuation.\<close>

lemma utf8_branch:
  assumes "(m + 1) * 64 ^ n \<le> 2 ^ 32" and "unat x = m"
  shows "op_bind (utf8_continuation n (ucast (x :: byte))) (\<lambda>v.
      op_then (op_require (\<not> (\<not> is_valid_code_point v \<or> v < lower))) (op_ret v)) cbs = (Ok w, rest) \<longleftrightarrow>
    unat w div 64 ^ n = m \<and> cbs = cont_bytes n (unat w) @ rest \<and> code_point (unat w) \<and> unat lower \<le> unat w"
proof -
  have x: "ucast x = (of_nat m :: u32)" using assms(2) by (metis of_nat_unat)
  show ?thesis
    by (auto simp: op_bind_Ok_iff op_then_Ok_iff x continuation_iff [OF assms(1)] is_valid_code_point_iff
        word_less_nat_alt)
qed

text \<open>The lead byte and the number of continuation bytes.\<close>

definition utf8_lead :: "nat \<Rightarrow> nat" where
  "utf8_lead n =
     (if n < 0x80 then n
      else if n < 0x800 then 192 + n div 64
      else if n < 0x10000 then 224 + n div 4096
      else 240 + n div 262144)"

definition utf8_tail :: "nat \<Rightarrow> nat" where
  "utf8_tail n = (if n < 0x80 then 0 else if n < 0x800 then 1 else if n < 0x10000 then 2 else 3)"

lemma utf8_enc_lead: "utf8_enc n = of_nat (utf8_lead n) # cont_bytes (utf8_tail n) n"
  by (simp add: utf8_enc_cases utf8_lead_def utf8_tail_def)

lemma utf8_lead_range:
  "code_point n \<Longrightarrow> utf8_lead n < 256 \<and>
     (if n < 0x80 then utf8_lead n < 128
      else if n < 0x800 then utf8_lead n div 32 = 6 \<and> utf8_lead n mod 32 = n div 64
      else if n < 0x10000 then utf8_lead n div 16 = 14 \<and> utf8_lead n mod 16 = n div 4096
      else utf8_lead n div 8 = 30 \<and> utf8_lead n mod 8 = n div 262144)"
proof -
  assume "code_point n"
  then have n: "n < 0x110000" by (simp add: code_point_def)
  show ?thesis
  proof (cases "n < 0x80")
    case True
    then show ?thesis by (simp add: utf8_lead_def)
  next
    case False
    have d: "n < 0x800 \<Longrightarrow> n div 64 < 32" "n < 0x10000 \<Longrightarrow> n div 4096 < 16" "n div 262144 < 8"
      using n by simp_all
    have m: "(192 + k) div 32 = 6" "(192 + k) mod 32 = k" if "k < 32" for k :: nat
      using that mod_mult_self3 [of 6 32 k] div_mult_self3 [of 32 6 k] by simp_all
    have m': "(224 + k) div 16 = 14" "(224 + k) mod 16 = k" if "k < 16" for k :: nat
      using that mod_mult_self3 [of 14 16 k] div_mult_self3 [of 16 14 k] by simp_all
    have m'': "(240 + k) div 8 = 30" "(240 + k) mod 8 = k" if "k < 8" for k :: nat
      using that mod_mult_self3 [of 30 8 k] div_mult_self3 [of 8 30 k] by simp_all
    show ?thesis using False d m [of "n div 64"] m' [of "n div 4096"] m'' [of "n div 262144"]
      by (auto simp: utf8_lead_def)
  qed
qed

lemma utf8_lead_eq:
  "unat (c :: byte) < 128 \<Longrightarrow> code_point n \<Longrightarrow> unat c = utf8_lead n \<longleftrightarrow> n < 0x80 \<and> unat c = n"
  "unat c div 32 = 6 \<Longrightarrow> code_point n \<Longrightarrow>
     unat c = utf8_lead n \<longleftrightarrow> 0x80 \<le> n \<and> n < 0x800 \<and> unat c mod 32 = n div 64"
  "unat c div 16 = 14 \<Longrightarrow> code_point n \<Longrightarrow>
     unat c = utf8_lead n \<longleftrightarrow> 0x800 \<le> n \<and> n < 0x10000 \<and> unat c mod 16 = n div 4096"
  "unat c div 8 = 30 \<Longrightarrow> code_point n \<Longrightarrow>
     unat c = utf8_lead n \<longleftrightarrow> 0x10000 \<le> n \<and> unat c mod 8 = n div 262144"
  "128 \<le> unat c \<Longrightarrow> unat c div 32 \<noteq> 6 \<Longrightarrow> unat c div 16 \<noteq> 14 \<Longrightarrow> unat c div 8 \<noteq> 30 \<Longrightarrow>
     code_point n \<Longrightarrow> unat c \<noteq> utf8_lead n"
proof -
  fix c :: byte and n
  have c: "unat c = 32 * (unat c div 32) + unat c mod 32" "unat c = 16 * (unat c div 16) + unat c mod 16"
    "unat c = 8 * (unat c div 8) + unat c mod 8" by simp_all
  assume n: "code_point n"
  note r = utf8_lead_range [OF n] and l = utf8_lead_def [of n]
  show "unat c < 128 \<Longrightarrow> unat c = utf8_lead n \<longleftrightarrow> n < 0x80 \<and> unat c = n"
    unfolding l by auto
  show "unat c div 32 = 6 \<Longrightarrow> unat c = utf8_lead n \<longleftrightarrow> 0x80 \<le> n \<and> n < 0x800 \<and> unat c mod 32 = n div 64"
    using r c unfolding l by (auto split: if_splits)
  show "unat c div 16 = 14 \<Longrightarrow> unat c = utf8_lead n \<longleftrightarrow> 0x800 \<le> n \<and> n < 0x10000 \<and> unat c mod 16 = n div 4096"
    using r c unfolding l by (auto split: if_splits)
  show "unat c div 8 = 30 \<Longrightarrow> unat c = utf8_lead n \<longleftrightarrow> 0x10000 \<le> n \<and> unat c mod 8 = n div 262144"
    using r c unfolding l by (auto split: if_splits)
  show "128 \<le> unat c \<Longrightarrow> unat c div 32 \<noteq> 6 \<Longrightarrow> unat c div 16 \<noteq> 14 \<Longrightarrow> unat c div 8 \<noteq> 30 \<Longrightarrow> unat c \<noteq> utf8_lead n"
    using r by (auto split: if_splits)
qed

lemma CBS_get_utf8_iff:
  "CBS_get_utf8 cbs = (Ok v, rest) \<longleftrightarrow> code_point (unat v) \<and> cbs = utf8_enc (unat v) @ rest"
proof (cases cbs)
  case Nil
  then show ?thesis by (auto simp: CBS_get_utf8_def CBS_get_u8_eq op_bind_apply utf8_enc_lead)
next
  case (Cons c t)
  define n where "n = unat v"
  have rhs: "code_point n \<and> cbs = utf8_enc n @ rest \<longleftrightarrow>
      code_point n \<and> unat c = utf8_lead n \<and> t = cont_bytes (utf8_tail n) n @ rest"
    using utf8_lead_range [of n] Cons by (auto simp: utf8_enc_lead word_unat_eq_iff)
  have get: "CBS_get_utf8 cbs =
     (if unat c < 128 then (Ok (ucast c), t)
      else if unat c div 32 = 6 then op_bind (utf8_continuation 1 (ucast (c AND 31))) (\<lambda>v.
        op_then (op_require (\<not> (\<not> is_valid_code_point v \<or> v < 0x80))) (op_ret v)) t
      else if unat c div 16 = 14 then op_bind (utf8_continuation 2 (ucast (c AND 15))) (\<lambda>v.
        op_then (op_require (\<not> (\<not> is_valid_code_point v \<or> v < 0x800))) (op_ret v)) t
      else if unat c div 8 = 30 then op_bind (utf8_continuation 3 (ucast (c AND 7))) (\<lambda>v.
        op_then (op_require (\<not> (\<not> is_valid_code_point v \<or> v < 0x10000))) (op_ret v)) t
      else (Err, t))"
    unfolding Cons CBS_get_utf8_def
    by (simp add: CBS_get_u8_eq op_bind_apply [of CBS_get_u8] op_bind_apply [of "op_ret _"] op_bind_apply [of "op_fail"] byte_top word_le_nat_alt not_le)
  consider (a) "unat c < 128" | (b) "unat c div 32 = 6" | (c) "unat c div 16 = 14" | (d) "unat c div 8 = 30"
    | (e) "128 \<le> unat c" "unat c div 32 \<noteq> 6" "unat c div 16 \<noteq> 14" "unat c div 8 \<noteq> 30" by fastforce
  then have "CBS_get_utf8 cbs = (Ok v, rest) \<longleftrightarrow>
      code_point n \<and> unat c = utf8_lead n \<and> t = cont_bytes (utf8_tail n) n @ rest"
  proof cases
    case a
    have "code_point (unat c)" using a by (simp add: code_point_def)
    moreover have "ucast c = v \<longleftrightarrow> unat c = n" by (simp add: n_def word_unat_eq_iff unat_ucast_up)
    ultimately show ?thesis using a utf8_lead_eq(1) [OF a, of n]
      by (auto simp: get utf8_tail_def)
  next
    case b
    then have g: "\<not> unat c < 128" by auto
    have l: "(unat c mod 32 + 1) * 64 ^ 1 \<le> 2 ^ 32" by simp
    show ?thesis
      unfolding get using b g utf8_branch [OF l byte_bottom(2), where lower = "0x80" and cbs = t and w = v and rest = rest] utf8_lead_eq(2) [OF b, of n]
      by (auto simp: n_def [symmetric] utf8_tail_def)
  next
    case c
    then have g: "\<not> unat c < 128" "unat c div 32 \<noteq> 6" by auto
    have l: "(unat c mod 16 + 1) * 64 ^ 2 \<le> 2 ^ 32" by simp
    show ?thesis
      unfolding get using c g utf8_branch [OF l byte_bottom(3), where lower = "0x800" and cbs = t and w = v and rest = rest] utf8_lead_eq(3) [OF c, of n]
      by (auto simp: n_def [symmetric] utf8_tail_def)
  next
    case d
    then have g: "\<not> unat c < 128" "unat c div 32 \<noteq> 6" "unat c div 16 \<noteq> 14" by auto
    have l: "(unat c mod 8 + 1) * 64 ^ 3 \<le> 2 ^ 32" by simp
    show ?thesis
      unfolding get using d g utf8_branch [OF l byte_bottom(4), where lower = "0x10000" and cbs = t and w = v and rest = rest] utf8_lead_eq(4) [OF d, of n]
      by (auto simp: n_def [symmetric] utf8_tail_def)
  next
    case e
    then show ?thesis using utf8_lead_eq(5) [OF e, of n] by (auto simp: get)
  qed
  then show ?thesis using rhs by (simp add: n_def)
qed

section \<open>Writing as a contract\<close>

lemma lead_bytes:
  "unat (x :: byte) < 32 \<Longrightarrow> 0xc0 OR x = of_nat (0xc0 + unat x)"
  "unat x < 16 \<Longrightarrow> 0xe0 OR x = of_nat (0xe0 + unat x)"
  "unat x < 8 \<Longrightarrow> 0xf0 OR x = of_nat (0xf0 + unat x)"
  using or_low [of x 5 6] or_low [of x 4 14] or_low [of x 3 30] by simp_all

lemma cont_byte_or: "0x80 OR ((b :: byte) AND 63) = cont_byte (unat b)"
proof -
  have "unat (b AND 63) < 2 ^ 6" by (simp add: byte_bottom)
  then have "0x80 OR (b AND 63) = 0x80 + (b AND 63)" using or_low [of "b AND 63" 6 2] by simp
  also have "\<dots> = of_nat (128 + unat (b AND 63))" by simp
  also have "\<dots> = cont_byte (unat b)" unfolding byte_bottom cont_byte_def ..
  finally show ?thesis .
qed

lemma unat_shifted: "unat (ucast (drop_bit k (u :: u32)) :: byte) = unat u div 2 ^ k mod 256"
  by (simp only: unsigned_ucast_eq unat_drop_bit_eq) (simp add: take_bit_eq_mod drop_bit_eq_div)

lemma cont_byte_mod_256 [simp]: "cont_byte (n mod 256) = cont_byte n"
  by (simp add: cont_byte_def mod_mod_cancel)

lemma cont_byte_shifted:
  "TOP_BITS 1 OR (ucast (drop_bit k (u :: u32)) AND BOTTOM_BITS 6) = cont_byte (unat u div 2 ^ k)"
  "TOP_BITS 1 OR (ucast u AND BOTTOM_BITS 6) = cont_byte (unat u)"
  using cont_byte_or [of "ucast (drop_bit k u)"] cont_byte_or [of "ucast u"] unat_shifted [of k u] unat_shifted [of 0 u]
  by simp_all

lemma lead_shifted:
  "unat (u :: u32) < 0x800 \<Longrightarrow> TOP_BITS 2 OR ucast (drop_bit 6 u) = of_nat (0xc0 + unat u div 64)"
  "unat u < 0x10000 \<Longrightarrow> TOP_BITS 3 OR ucast (drop_bit 12 u) = of_nat (0xe0 + unat u div 4096)"
  "unat u < 0x110000 \<Longrightarrow> TOP_BITS 4 OR ucast (drop_bit 18 u) = of_nat (0xf0 + unat u div 262144)"
proof -
  have a: "unat u div 64 < 32" if "unat u < 0x800" using that by simp
  show "unat u < 0x800 \<Longrightarrow> TOP_BITS 2 OR ucast (drop_bit 6 u) = of_nat (0xc0 + unat u div 64)"
    using lead_bytes(1) [of "ucast (drop_bit 6 u)"] a unat_shifted [of 6 u] by simp
  have b: "unat u div 4096 < 16" if "unat u < 0x10000" using that by simp
  show "unat u < 0x10000 \<Longrightarrow> TOP_BITS 3 OR ucast (drop_bit 12 u) = of_nat (0xe0 + unat u div 4096)"
    using lead_bytes(2) [of "ucast (drop_bit 12 u)"] b unat_shifted [of 12 u] by simp
  have c: "unat u div 262144 < 8" if "unat u < 0x110000" using that by simp
  show "unat u < 0x110000 \<Longrightarrow> TOP_BITS 4 OR ucast (drop_bit 18 u) = of_nat (0xf0 + unat u div 262144)"
    using lead_bytes(3) [of "ucast (drop_bit 18 u)"] c unat_shifted [of 18 u] by simp
qed

lemma two_writes: "cbb_writer (op_then (CBB_add_u8 d a) (CBB_add_u8 d b)) d [a, b] 2 True True"
  using cbb_writer_then [OF cbb_writer_u8 cbb_writer_u8, of a a b b d] by (simp add: numeral_2_eq_2)

lemma three_writes:
  "cbb_writer (op_then (CBB_add_u8 d a) (op_then (CBB_add_u8 d b) (CBB_add_u8 d c))) d [a, b, c] 3 True True"
  using cbb_writer_then [OF cbb_writer_u8 two_writes, of a a d b c] by (simp add: numeral_3_eq_3 numeral_2_eq_2)

lemma four_writes:
  "cbb_writer (op_then (CBB_add_u8 d a) (op_then (CBB_add_u8 d b) (op_then (CBB_add_u8 d c) (CBB_add_u8 d e))))
     d [a, b, c, e] 4 True True"
  using cbb_writer_then [OF cbb_writer_u8 three_writes, of a a d b c e] by simp

lemma cbb_writer_utf8:
  assumes "code_point (unat u)"
  shows "cbb_writer (CBB_add_utf8 d u) d (utf8_enc (unat u)) (CBB_get_utf8_len u) True True"
proof -
  have n: "unat u < 0x110000" using assms by (simp add: code_point_def)
  have v: "is_valid_code_point u" using assms by (simp add: is_valid_code_point_iff)
  have le: "u \<le> 0x7f \<longleftrightarrow> unat u < 0x80" "u \<le> 0x7ff \<longleftrightarrow> unat u < 0x800" "u \<le> 0xffff \<longleftrightarrow> unat u < 0x10000"
    "u \<le> 0x10ffff \<longleftrightarrow> unat u < 0x110000" by (simp_all add: word_le_nat_alt less_Suc_eq_le [symmetric])
  consider "unat u < 0x80" | "0x80 \<le> unat u" "unat u < 0x800" | "0x800 \<le> unat u" "unat u < 0x10000"
    | "0x10000 \<le> unat u" by linarith
  then show ?thesis
  proof cases
    case 1
    then have "CBB_add_utf8 d u = CBB_add_u8 d (ucast u)" "CBB_get_utf8_len u = 1" "utf8_enc (unat u) = [ucast u]"
      by (simp_all add: CBB_add_utf8_def CBB_get_utf8_len_def utf8_enc_def v le)
    then show ?thesis using cbb_writer_u8 [OF refl] by (simp only:)
  next
    case 2
    then have l: "\<not> unat u < 0x80" by simp
    have "CBB_add_utf8 d u = op_then (CBB_add_u8 d (of_nat (0xc0 + unat u div 64))) (CBB_add_u8 d (cont_byte (unat u)))"
      by (simp only: CBB_add_utf8_def v le op_require_True cont_byte_shifted unat_drop_u32 lead_shifted l 2 if_False if_True)
    moreover have "CBB_get_utf8_len u = 2" by (simp only: CBB_get_utf8_len_def le l 2 if_False if_True)
    moreover have "utf8_enc (unat u) = [of_nat (0xc0 + unat u div 64), cont_byte (unat u)]"
      using l 2 by (simp add: utf8_enc_def)
    ultimately show ?thesis using two_writes by (simp only:)
  next
    case 3
    then have l: "\<not> unat u < 0x80" "\<not> unat u < 0x800" by simp_all
    have "CBB_add_utf8 d u = op_then (CBB_add_u8 d (of_nat (0xe0 + unat u div 4096)))
        (op_then (CBB_add_u8 d (cont_byte (unat u div 2 ^ 6))) (CBB_add_u8 d (cont_byte (unat u))))"
      by (simp only: CBB_add_utf8_def v le op_require_True cont_byte_shifted unat_drop_u32 lead_shifted l 3 if_False if_True)
    moreover have "CBB_get_utf8_len u = 3" by (simp only: CBB_get_utf8_len_def le l 3 if_False if_True)
    moreover have "utf8_enc (unat u) = [of_nat (0xe0 + unat u div 4096), cont_byte (unat u div 2 ^ 6), cont_byte (unat u)]"
      using l 3 by (simp add: utf8_enc_def)
    ultimately show ?thesis using three_writes by (simp only:)
  next
    case 4
    then have l: "\<not> unat u < 0x80" "\<not> unat u < 0x800" "\<not> unat u < 0x10000" by simp_all
    have "CBB_add_utf8 d u = op_then (CBB_add_u8 d (of_nat (0xf0 + unat u div 262144)))
        (op_then (CBB_add_u8 d (cont_byte (unat u div 2 ^ 12))) (op_then (CBB_add_u8 d (cont_byte (unat u div 2 ^ 6)))
          (CBB_add_u8 d (cont_byte (unat u)))))"
      by (simp only: CBB_add_utf8_def v le op_require_True cont_byte_shifted unat_drop_u32 lead_shifted l n if_False if_True)
    moreover have "CBB_get_utf8_len u = 4" by (simp only: CBB_get_utf8_len_def le l if_False)
    moreover have "utf8_enc (unat u) = [of_nat (0xf0 + unat u div 262144), cont_byte (unat u div 2 ^ 12),
        cont_byte (unat u div 2 ^ 6), cont_byte (unat u)]"
      using l by (simp add: utf8_enc_def)
    ultimately show ?thesis using four_writes by (simp only:)
  qed
qed

lemma utf8_refuses: "\<not> code_point (unat u) \<Longrightarrow> CBB_add_utf8 d u s = (Err, s)"
  by (simp add: CBB_add_utf8_def is_valid_code_point_iff op_require_step)

lemma utf8_len: "code_point (unat u) \<Longrightarrow> CBB_get_utf8_len u = length (utf8_enc (unat u))"
  by (auto simp: CBB_get_utf8_len_def utf8_enc_def word_le_nat_alt code_point_def)

section \<open>The other encodings\<close>

lemma CBS_get_latin1_iff: "CBS_get_latin1 cbs = (Ok v, rest) \<longleftrightarrow> unat v < 256 \<and> cbs = of_nat (unat v) # rest"
proof
  assume "CBS_get_latin1 cbs = (Ok v, rest)"
  then obtain c where "cbs = c # rest" "v = ucast c"
    by (auto simp: CBS_get_latin1_def op_bind_Ok_iff CBS_get_u8_eq split: list.splits)
  then show "unat v < 256 \<and> cbs = of_nat (unat v) # rest" using unat_lt_256 [of c] by (simp add: unat_ucast_up)
next
  assume v: "unat v < 256 \<and> cbs = of_nat (unat v) # rest"
  have "(ucast (of_nat (unat v) :: byte) :: u32) = v"
    using v by (simp only: word_unat_eq_iff unat_ucast_up unat_of_nat_byte) (simp add: unat_ucast_up del: of_nat_unat)
  then show "CBS_get_latin1 cbs = (Ok v, rest)" using v
    by (simp add: CBS_get_latin1_def op_bind_apply CBS_get_u8_eq)
qed

lemma CBS_get_utf32_be_iff:
  "CBS_get_utf32_be cbs = (Ok v, rest) \<longleftrightarrow> code_point (unat v) \<and> cbs = be_bytes 4 (unat v) @ rest"
proof
  assume "CBS_get_utf32_be cbs = (Ok v, rest)"
  then show "code_point (unat v) \<and> cbs = be_bytes 4 (unat v) @ rest"
    unfolding CBS_get_utf32_be_def
    by (elim op_bind_OkE op_require_OkE) (simp add: u32.rd_iff is_valid_code_point_iff del: be_bytes.simps)
next
  assume v: "code_point (unat v) \<and> cbs = be_bytes 4 (unat v) @ rest"
  then have "CBS_get_u32 cbs = (Ok v, rest)" using unat_u32 [of v] by (simp add: u32.rd_iff del: be_bytes.simps)
  then show "CBS_get_utf32_be cbs = (Ok v, rest)"
    using v by (simp add: CBS_get_utf32_be_def op_bind_step op_require_step is_valid_code_point_iff)
qed

lemma CBS_get_ucs2_be_iff:
  "CBS_get_ucs2_be cbs = (Ok v, rest) \<longleftrightarrow>
     code_point (unat v) \<and> unat v < 0x10000 \<and> cbs = be_bytes 2 (unat v) @ rest"
proof
  assume "CBS_get_ucs2_be cbs = (Ok v, rest)"
  then obtain c t where t: "CBS_get_u16 cbs = (Ok c, t)" "is_valid_code_point (ucast c)"
    "op_ret (ucast c) t = (Ok v, rest)"
    unfolding CBS_get_ucs2_be_def by (elim op_bind_OkE op_require_OkE)
  then have c: "cbs = be_bytes 2 (unat c) @ rest" "v = ucast c" "code_point (unat v)"
    by (simp_all add: u16.rd_iff is_valid_code_point_iff del: be_bytes.simps)
  have "unat v = unat c" by (simp add: c(2) unat_ucast_up)
  then show "code_point (unat v) \<and> unat v < 0x10000 \<and> cbs = be_bytes 2 (unat v) @ rest"
    using c unat_u16 [of c] by simp
next
  assume v: "code_point (unat v) \<and> unat v < 0x10000 \<and> cbs = be_bytes 2 (unat v) @ rest"
  define c :: u16 where "c = of_nat (unat v)"
  have c: "unat c = unat v" using v unfolding c_def unat_of_nat by (simp add: take_bit_nat_eq_self del: of_nat_unat)
  then have "ucast c = v" by (simp add: word_unat_eq_iff unat_ucast_up)
  moreover have "CBS_get_u16 cbs = (Ok c, rest)" using v c by (simp add: u16.rd_iff)
  ultimately show "CBS_get_ucs2_be cbs = (Ok v, rest)"
    using v by (simp add: CBS_get_ucs2_be_def op_bind_apply op_then_apply is_valid_code_point_iff)
qed

text \<open>The four encodings: which code points they have and their bytes.\<close>

datatype encoding = UTF8 | Latin1 | UCS2 | UTF32

definition encodable :: "encoding \<Rightarrow> nat \<Rightarrow> bool" where
  "encodable e n \<longleftrightarrow>
     (case e of UTF8 \<Rightarrow> code_point n | Latin1 \<Rightarrow> n < 256
      | UCS2 \<Rightarrow> code_point n \<and> n < 0x10000 | UTF32 \<Rightarrow> code_point n)"

definition encoded :: "encoding \<Rightarrow> nat \<Rightarrow> byte list" where
  "encoded e n =
     (case e of UTF8 \<Rightarrow> utf8_enc n | Latin1 \<Rightarrow> [of_nat n] | UCS2 \<Rightarrow> be_bytes 2 n | UTF32 \<Rightarrow> be_bytes 4 n)"

definition get_code_point :: "encoding \<Rightarrow> (CBS, u32) op" where
  "get_code_point e =
     (case e of UTF8 \<Rightarrow> CBS_get_utf8 | Latin1 \<Rightarrow> CBS_get_latin1
      | UCS2 \<Rightarrow> CBS_get_ucs2_be | UTF32 \<Rightarrow> CBS_get_utf32_be)"

definition add_code_point :: "encoding \<Rightarrow> nat \<Rightarrow> u32 \<Rightarrow> (CBB, unit) op" where
  "add_code_point e =
     (case e of UTF8 \<Rightarrow> CBB_add_utf8 | Latin1 \<Rightarrow> CBB_add_latin1
      | UCS2 \<Rightarrow> CBB_add_ucs2_be | UTF32 \<Rightarrow> CBB_add_utf32_be)"

lemma get_code_point_iff:
  "get_code_point e cbs = (Ok v, rest) \<longleftrightarrow> encodable e (unat v) \<and> cbs = encoded e (unat v) @ rest"
  by (cases e) (simp_all add: get_code_point_def encodable_def encoded_def CBS_get_utf8_iff CBS_get_latin1_iff
      CBS_get_ucs2_be_iff CBS_get_utf32_be_iff)

lemma add_code_point_writes:
  "encodable e (unat u) \<Longrightarrow>
     cbb_writer (add_code_point e d u) d (encoded e (unat u)) (length (encoded e (unat u))) True True"
proof (cases e)
  case UTF8
  assume "encodable e (unat u)"
  then show ?thesis using cbb_writer_utf8 [of u d] utf8_len [of u] UTF8
    by (simp add: encodable_def encoded_def add_code_point_def)
next
  case Latin1
  assume u: "encodable e (unat u)"
  then have "u \<le> 0xff" "ucast u = (of_nat (unat u) :: byte)" using Latin1
    by (simp_all add: encodable_def word_le_nat_alt)
  then show ?thesis using Latin1 cbb_writer_u8 [of "ucast u" "of_nat (unat u)" d]
    by (simp add: encoded_def add_code_point_def CBB_add_latin1_def)
next
  case UCS2
  assume u: "encodable e (unat u)"
  then have v: "is_valid_code_point u" "u \<le> 0xffff" "unat u < 0x10000" using UCS2
    by (simp_all add: encodable_def word_le_nat_alt is_valid_code_point_iff)
  then have "unat (ucast u :: u16) = unat u"
    by (simp add: unsigned_ucast_eq take_bit_nat_eq_self)
  then show ?thesis using UCS2 v add_u16.cbb_writer_axioms [of d "ucast u"]
    by (simp add: encoded_def add_code_point_def CBB_add_ucs2_be_def del: be_bytes.simps)
next
  case UTF32
  assume u: "encodable e (unat u)"
  then have v: "is_valid_code_point u" using UTF32 by (simp add: encodable_def is_valid_code_point_iff)
  then show ?thesis using UTF32 add_u32.cbb_writer_axioms [of d u]
    by (simp add: encoded_def add_code_point_def CBB_add_utf32_be_def del: be_bytes.simps)
qed

lemma add_code_point_refuses: "\<not> encodable e (unat u) \<Longrightarrow> add_code_point e d u s = (Err, s)"
  by (cases e) (auto simp: encodable_def add_code_point_def CBB_add_latin1_def CBB_add_ucs2_be_def
      CBB_add_utf32_be_def utf8_refuses is_valid_code_point_iff op_require_step word_le_nat_alt)

section \<open>Properties\<close>

text \<open>
  Each reader of code points accepts exactly the encodings its writer produces: shortest
  UTF-8 of the scalar values other than noncharacters, one byte of Latin-1, two of UCS-2, four
  of UTF-32.
\<close>

theorem code_point_read:
  "(CBS_get_utf8 cbs = (Ok v, rest) \<longleftrightarrow> code_point (unat v) \<and> cbs = utf8_enc (unat v) @ rest) \<and>
   (CBS_get_latin1 cbs = (Ok v, rest) \<longleftrightarrow> unat v < 256 \<and> cbs = of_nat (unat v) # rest) \<and>
   (CBS_get_ucs2_be cbs = (Ok v, rest) \<longleftrightarrow>
      code_point (unat v) \<and> unat v < 0x10000 \<and> cbs = be_bytes 2 (unat v) @ rest) \<and>
   (CBS_get_utf32_be cbs = (Ok v, rest) \<longleftrightarrow> code_point (unat v) \<and> cbs = be_bytes 4 (unat v) @ rest)"
  by (simp only: CBS_get_utf8_iff CBS_get_latin1_iff CBS_get_ucs2_be_iff CBS_get_utf32_be_iff simp_thms)

text \<open>
  C35. A code point written in one of the encodings is read back; a value the encoding does not
  have is refused and leaves the builder as it was.
\<close>

theorem code_point_roundtrip:
  assumes "alloc_ok mem" and "cap < 2 ^ 64"
  shows "(encodable e (unat u) \<longrightarrow>
      (case build mem cap (add_code_point e 0 u) of
         Ok (Some buf, Some n) \<Rightarrow> get_code_point e (take n buf @ rest) = (Ok u, rest)
       | Err \<Rightarrow> \<not> memory_for mem cap 4
       | _ \<Rightarrow> False)) \<and>
    (\<not> encodable e (unat u) \<longrightarrow> add_code_point e d u s = (Err, s))"
proof (intro conjI impI)
  assume e: "encodable e (unat u)"
  have "length (encoded e (unat u)) \<le> 4" by (cases e) (simp_all add: encoded_def utf8_enc_def)
  then have "cbb_writer (add_code_point e 0 u) 0 (encoded e (unat u)) 4 True True"
    using cbb_writer_mono [OF add_code_point_writes [OF e]] by blast
  from build_result [OF assms this] show "case build mem cap (add_code_point e 0 u) of
         Ok (Some buf, Some n) \<Rightarrow> get_code_point e (take n buf @ rest) = (Ok u, rest)
       | Err \<Rightarrow> \<not> memory_for mem cap 4
       | _ \<Rightarrow> False"
    using e by (auto simp: holds_bytes_def get_code_point_iff split: result.splits option.splits)
qed (rule add_code_point_refuses)

theorem code_point_roundtrip_witness:
  "case build (\<lambda>n. Some (replicate n 0)) 0 (add_code_point UTF8 0 0x20ac) of
     Ok (Some buf, Some n) \<Rightarrow> get_code_point UTF8 (take n buf @ [1]) = (Ok 0x20ac, [1])
   | Err \<Rightarrow> \<not> memory_for (\<lambda>n. Some (replicate n (0 :: byte))) 0 4
   | _ \<Rightarrow> False"
proof -
  have "alloc_ok (\<lambda>n. Some (replicate n 0))" by (simp add: alloc_ok_def)
  from code_point_roundtrip [OF this, where cap = 0 and e = UTF8 and u = "0x20ac" and rest = "[1]"] show ?thesis
    by (simp add: encodable_def code_point_def)
qed

end
