(* ===== verification/Const_Time.thy ===== *)
theory Const_Time
  imports BS_Prelude
begin

text \<open>
  crypto/internal.h, the constant-time comparisons and selections: masks of all ones or all
  zeros computed without a branch, here on a 64-bit platform. The buffers of the conditional
  copies are two lists, so they do not overlap.
\<close>

type_synonym crypto_word_t = u64
type_synonym c_int = "32 word"

section \<open>Masks\<close>

definition CONSTTIME_TRUE_W :: crypto_word_t where "CONSTTIME_TRUE_W = NOT 0"
definition CONSTTIME_FALSE_W :: crypto_word_t where "CONSTTIME_FALSE_W = 0"
definition CONSTTIME_TRUE_8 :: byte where "CONSTTIME_TRUE_8 = 0xff"
definition CONSTTIME_FALSE_8 :: byte where "CONSTTIME_FALSE_8 = 0"

definition value_barrier_w :: "crypto_word_t \<Rightarrow> crypto_word_t" where "value_barrier_w a = a"
definition value_barrier_u32 :: "u32 \<Rightarrow> u32" where "value_barrier_u32 a = a"
definition value_barrier_u64 :: "u64 \<Rightarrow> u64" where "value_barrier_u64 a = a"

definition constant_time_msb_w :: "crypto_word_t \<Rightarrow> crypto_word_t" where
  "constant_time_msb_w a = 0 - drop_bit (8 * 8 - 1) a"

definition constant_time_lt_w :: "crypto_word_t \<Rightarrow> crypto_word_t \<Rightarrow> crypto_word_t" where
  "constant_time_lt_w a b = constant_time_msb_w (a XOR ((a XOR b) OR ((a - b) XOR a)))"

definition constant_time_lt_8 :: "crypto_word_t \<Rightarrow> crypto_word_t \<Rightarrow> byte" where
  "constant_time_lt_8 a b = ucast (constant_time_lt_w a b)"

definition constant_time_ge_w :: "crypto_word_t \<Rightarrow> crypto_word_t \<Rightarrow> crypto_word_t" where
  "constant_time_ge_w a b = NOT (constant_time_lt_w a b)"

definition constant_time_ge_8 :: "crypto_word_t \<Rightarrow> crypto_word_t \<Rightarrow> byte" where
  "constant_time_ge_8 a b = ucast (constant_time_ge_w a b)"

definition constant_time_is_zero_w :: "crypto_word_t \<Rightarrow> crypto_word_t" where
  "constant_time_is_zero_w a = constant_time_msb_w (NOT a AND (a - 1))"

definition constant_time_is_zero_8 :: "crypto_word_t \<Rightarrow> byte" where
  "constant_time_is_zero_8 a = ucast (constant_time_is_zero_w a)"

definition constant_time_eq_w :: "crypto_word_t \<Rightarrow> crypto_word_t \<Rightarrow> crypto_word_t" where
  "constant_time_eq_w a b = constant_time_is_zero_w (a XOR b)"

definition constant_time_eq_8 :: "crypto_word_t \<Rightarrow> crypto_word_t \<Rightarrow> byte" where
  "constant_time_eq_8 a b = ucast (constant_time_eq_w a b)"

text \<open>An \<open>int\<close> is sign-extended to the word.\<close>

definition constant_time_eq_int :: "c_int \<Rightarrow> c_int \<Rightarrow> crypto_word_t" where
  "constant_time_eq_int a b = constant_time_eq_w (scast a) (scast b)"

definition constant_time_eq_int_8 :: "c_int \<Rightarrow> c_int \<Rightarrow> byte" where
  "constant_time_eq_int_8 a b = constant_time_eq_8 (scast a) (scast b)"

section \<open>Selection\<close>

definition constant_time_select_w :: "crypto_word_t \<Rightarrow> crypto_word_t \<Rightarrow> crypto_word_t \<Rightarrow> crypto_word_t" where
  "constant_time_select_w msk a b =
     (let msk = value_barrier_w msk in (msk AND a) OR (NOT msk AND b))"

definition constant_time_select_8 :: "crypto_word_t \<Rightarrow> byte \<Rightarrow> byte \<Rightarrow> byte" where
  "constant_time_select_8 msk a b =
     (let m = ucast (value_barrier_w msk) :: byte in (m AND a) OR (NOT m AND b))"

definition constant_time_select_int :: "crypto_word_t \<Rightarrow> c_int \<Rightarrow> c_int \<Rightarrow> c_int" where
  "constant_time_select_int msk a b = ucast (constant_time_select_w msk (scast a) (scast b))"

text \<open>The loops over the bytes, with the index counting up to \<open>n\<close>; \<open>None\<close> is an access outside a buffer.\<close>

function conditional_loop :: "(byte \<Rightarrow> byte \<Rightarrow> byte) \<Rightarrow> byte list \<Rightarrow> byte list \<Rightarrow> nat \<Rightarrow> nat \<Rightarrow> byte list option" where
  "conditional_loop f out in' n i =
     (if i < n then
        (if i < length out \<and> i < length in'
         then conditional_loop f (out[i := f (out ! i) (in' ! i)]) in' n (i + 1)
         else None)
      else Some out)"
  by pat_completeness auto
termination by (relation "measure (\<lambda>(f, out, in', n, i). n - i)") auto

declare conditional_loop.simps [simp del]

definition constant_time_conditional_memcpy ::
  "byte list \<Rightarrow> byte list \<Rightarrow> nat \<Rightarrow> crypto_word_t \<Rightarrow> byte list option" where
  "constant_time_conditional_memcpy dst src n msk =
     conditional_loop (\<lambda>o' i'. constant_time_select_8 msk i' o') dst src n 0"

definition constant_time_conditional_memxor ::
  "byte list \<Rightarrow> byte list \<Rightarrow> nat \<Rightarrow> crypto_word_t \<Rightarrow> byte list option" where
  "constant_time_conditional_memxor dst src n msk =
     conditional_loop (\<lambda>o' i'. o' XOR ucast (value_barrier_w msk AND ucast i')) dst src n 0"

definition constant_time_declassify_w :: "crypto_word_t \<Rightarrow> crypto_word_t" where
  "constant_time_declassify_w v = value_barrier_w v"

definition constant_time_declassify_int :: "c_int \<Rightarrow> c_int" where
  "constant_time_declassify_int v = value_barrier_u32 v"

section \<open>The masks are right\<close>

text \<open>The mask of a condition.\<close>

definition mask_w :: "bool \<Rightarrow> crypto_word_t" where
  "mask_w b = (if b then CONSTTIME_TRUE_W else CONSTTIME_FALSE_W)"

definition mask_8 :: "bool \<Rightarrow> byte" where
  "mask_8 b = (if b then CONSTTIME_TRUE_8 else CONSTTIME_FALSE_8)"

lemma bit_ff: "bit (0xff :: byte) k \<longleftrightarrow> k < 8"
  using bit_mask_iff [of 8 k, where 'a = byte] by (simp add: mask_eq_exp_minus_1)

lemma bit_mask_cond [simp]: "bit (mask_w b) k \<longleftrightarrow> b \<and> k < 64" "bit (mask_8 b) k \<longleftrightarrow> b \<and> k < 8"
  unfolding mask_w_def mask_8_def CONSTTIME_TRUE_W_def CONSTTIME_FALSE_W_def CONSTTIME_TRUE_8_def CONSTTIME_FALSE_8_def
  by (simp_all only: bit_ff split: if_split) (simp_all add: bit_simps)

lemma ucast_mask [simp]: "(ucast (mask_w b) :: byte) = mask_8 b"
  by (rule bit_word_eqI) (simp add: bit_simps)

lemma not_mask [simp]: "NOT (mask_w b) = mask_w (\<not> b)" "NOT (mask_8 b) = mask_8 (\<not> b)"
  by (rule bit_word_eqI, simp add: bit_simps)+

lemma bit_63: "bit (v :: u64) 63 \<longleftrightarrow> 2 ^ 63 \<le> unat v"
proof -
  have "bit v 63 \<longleftrightarrow> bit (unat v) 63" by (simp add: bit_unsigned_iff)
  then have "bit v 63 \<longleftrightarrow> odd (unat v div 2 ^ 63)" by (simp add: bit_iff_odd)
  moreover have "unat v div 2 ^ 63 < 2" using unat_u64 [of v] by (simp add: div_less_iff_less_mult)
  ultimately show ?thesis by (auto simp: less_2_cases_iff div_eq_0_iff)
qed

lemma msb_mask: "constant_time_msb_w a = mask_w (bit a 63)"
proof -
  have u: "unat (drop_bit 63 a) = unat a div 2 ^ 63"
    by (simp only: unat_drop_bit_eq) (simp add: drop_bit_eq_div)
  have lt: "unat a div 2 ^ 63 < 2" using unat_u64 [of a] by (simp add: div_less_iff_less_mult)
  have "drop_bit 63 a = (if bit a 63 then 1 else 0)"
  proof (cases "bit a 63")
    case True
    then have "unat a div 2 ^ 63 \<noteq> 0" unfolding bit_63 by (simp add: div_eq_0_iff)
    with lt have "unat a div 2 ^ 63 = 1" by linarith
    with u True show ?thesis by (simp add: word_unat_eq_iff)
  next
    case False
    then have "unat a div 2 ^ 63 = 0" unfolding bit_63 by (simp add: div_eq_0_iff)
    with u False show ?thesis by (simp add: word_unat_eq_iff)
  qed
  then show ?thesis
    by (simp add: constant_time_msb_w_def mask_w_def CONSTTIME_TRUE_W_def CONSTTIME_FALSE_W_def)
qed

lemma unat_sub_u64: "unat ((a :: u64) - b) = (if unat b \<le> unat a then unat a - unat b else 2 ^ 64 + unat a - unat b)"
  using unat_u64 [of a] unat_u64 [of b] unat_sub_if' [of a b] by (simp split: if_splits)

lemma lt_mask: "constant_time_lt_w a b = mask_w (a < b)"
proof -
  have "bit (a XOR ((a XOR b) OR ((a - b) XOR a))) 63 \<longleftrightarrow>
      (if bit a 63 = bit b 63 then bit (a - b) 63 else bit b 63)"
    by (auto simp: bit_simps)
  also have "\<dots> \<longleftrightarrow> a < b"
    unfolding bit_63 unat_sub_u64 word_less_nat_alt using unat_u64 [of a] unat_u64 [of b] by auto
  finally show ?thesis by (simp add: constant_time_lt_w_def msb_mask)
qed

lemma is_zero_mask: "constant_time_is_zero_w a = mask_w (a = 0)"
proof -
  have "bit (NOT a AND (a - 1)) 63 \<longleftrightarrow> \<not> bit a 63 \<and> bit (a - 1) 63"
    by (simp add: bit_simps)
  also have "\<dots> \<longleftrightarrow> a = 0"
    unfolding bit_63 unat_sub_u64 word_unat_eq_iff using unat_u64 [of a] by auto
  finally show ?thesis by (simp add: constant_time_is_zero_w_def msb_mask)
qed

lemma eq_mask: "constant_time_eq_w a b = mask_w (a = b)"
proof -
  have "a XOR b = 0 \<longleftrightarrow> a = b" by (auto simp: bit_eq_iff bit_simps)
  then show ?thesis by (simp add: constant_time_eq_w_def is_zero_mask)
qed

lemma scast_int_eq: "(scast (a :: c_int) :: u64) = scast b \<longleftrightarrow> a = b"
proof -
  have "bit (scast x :: u64) n \<longleftrightarrow> bit x n" if "n < 32" for x :: c_int and n
    using that by (simp add: bit_simps)
  note bits = this
  have "a = b" if e: "(scast a :: u64) = scast b"
  proof (rule bit_word_eqI)
    fix n assume "n < LENGTH(32)"
    then have n: "n < 32" by simp
    show "bit a n = bit b n" using bits [OF n, of a] bits [OF n, of b] unfolding e by simp
  qed
  then show ?thesis by auto
qed

lemma select_w_mask: "constant_time_select_w (mask_w c) a b = (if c then a else b)"
  unfolding constant_time_select_w_def value_barrier_w_def Let_def
  by (rule bit_word_eqI) (auto simp: bit_simps)

lemma select_8_mask: "constant_time_select_8 (mask_w c) a b = (if c then a else b)"
  unfolding constant_time_select_8_def value_barrier_w_def Let_def
  by (rule bit_word_eqI) (auto simp: bit_simps)

lemma ucast_scast_int [simp]: "(ucast (scast (a :: c_int) :: u64) :: c_int) = a"
  by (rule bit_word_eqI) (simp add: bit_simps)

lemma conditional_loop_from:
  "i \<le> n \<Longrightarrow> n \<le> length out \<Longrightarrow> n \<le> length in' \<Longrightarrow>
     conditional_loop f out in' n i =
       Some (take i out @ map2 f (drop i (take n out)) (drop i (take n in')) @ drop n out)"
proof (induction "n - i" arbitrary: i out)
  case 0
  then show ?case by (subst conditional_loop.simps) simp
next
  case (Suc k)
  then have i: "i < n" by simp
  define out' where "out' = out[i := f (out ! i) (in' ! i)]"
  have "conditional_loop f out in' n i = conditional_loop f out' in' n (i + 1)"
    using i Suc.prems by (subst conditional_loop.simps) (simp add: out'_def)
  also have "\<dots> = Some (take (i + 1) out' @ map2 f (drop (i + 1) (take n out')) (drop (i + 1) (take n in')) @ drop n out')"
    using Suc.hyps i Suc.prems by (intro Suc.hyps(1)) (simp_all add: out'_def)
  also have "take (i + 1) out' = take i out @ [f (out ! i) (in' ! i)]"
    using i Suc.prems by (simp add: out'_def take_Suc_conv_app_nth)
  also have "drop (i + 1) (take n out') = drop (i + 1) (take n out)"
    by (simp add: out'_def take_update_swap)
  also have "drop n out' = drop n out" using i by (simp add: out'_def)
  finally have run: "conditional_loop f out in' n i = Some ((take i out @ [f (out ! i) (in' ! i)]) @
      map2 f (drop (i + 1) (take n out)) (drop (i + 1) (take n in')) @ drop n out)" .
  have "drop i (take n out) = out ! i # drop (i + 1) (take n out)"
    "drop i (take n in') = in' ! i # drop (i + 1) (take n in')"
    using i Suc.prems Cons_nth_drop_Suc [of i "take n out"] Cons_nth_drop_Suc [of i "take n in'"] by simp_all
  then show ?case unfolding run by simp
qed

lemma map2_right [simp]: "length xs = length ys \<Longrightarrow> map2 (\<lambda>x y. y) xs ys = ys"
  by (induction xs ys rule: list_induct2) simp_all

lemma map2_left [simp]: "length xs = length ys \<Longrightarrow> map2 (\<lambda>x y. x) xs ys = xs"
  by (induction xs ys rule: list_induct2) simp_all

lemma conditional_memcpy_mask:
  assumes "n \<le> length dst" and "n \<le> length src"
  shows "constant_time_conditional_memcpy dst src n (mask_w c) =
    Some (if c then take n src @ drop n dst else dst)"
  using assms by (simp add: constant_time_conditional_memcpy_def conditional_loop_from select_8_mask)

lemma conditional_memxor_mask:
  assumes "n \<le> length dst" and "n \<le> length src"
  shows "constant_time_conditional_memxor dst src n (mask_w c) =
    Some (if c then map2 (XOR) (take n dst) (take n src) @ drop n dst else dst)"
proof -
  have "(\<lambda>o' i'. o' XOR ucast (value_barrier_w (mask_w c) AND ucast i')) =
      (\<lambda>o' i'. if c then o' XOR i' else o' :: byte)"
    by (intro ext bit_word_eqI) (auto simp: value_barrier_w_def bit_simps)
  then show ?thesis
    using assms by (cases c) (simp_all add: constant_time_conditional_memxor_def conditional_loop_from)
qed

section \<open>Properties\<close>

text \<open>
  The branch-free comparisons compute the mask of the comparison: all ones when it holds,
  zero when it does not, for words, bytes and ints.
\<close>

theorem constant_time_masks:
  "constant_time_lt_w a b = mask_w (a < b) \<and> constant_time_lt_8 a b = mask_8 (a < b) \<and>
   constant_time_ge_w a b = mask_w (a \<ge> b) \<and> constant_time_ge_8 a b = mask_8 (a \<ge> b) \<and>
   constant_time_is_zero_w a = mask_w (a = 0) \<and> constant_time_is_zero_8 a = mask_8 (a = 0) \<and>
   constant_time_eq_w a b = mask_w (a = b) \<and> constant_time_eq_8 a b = mask_8 (a = b) \<and>
   constant_time_eq_int x y = mask_w (x = y) \<and> constant_time_eq_int_8 x y = mask_8 (x = y)"
  by (simp add: lt_mask is_zero_mask eq_mask constant_time_lt_8_def constant_time_ge_w_def constant_time_ge_8_def
      constant_time_is_zero_8_def constant_time_eq_8_def constant_time_eq_int_def constant_time_eq_int_8_def
      scast_int_eq not_less)

text \<open>
  Selecting with a mask picks the first value under all ones and the second under zero;
  the conditional copies then copy, or xor in, exactly the first \<open>n\<close> bytes, or do nothing.
\<close>

theorem constant_time_selection:
  assumes "n \<le> length dst" and "n \<le> length src"
  shows "constant_time_select_w (mask_w c) a b = (if c then a else b) \<and>
    constant_time_select_8 (mask_w c) p q = (if c then p else q) \<and>
    constant_time_select_int (mask_w c) x y = (if c then x else y) \<and>
    constant_time_conditional_memcpy dst src n (mask_w c) =
      Some (if c then take n src @ drop n dst else dst) \<and>
    constant_time_conditional_memxor dst src n (mask_w c) =
      Some (if c then map2 (XOR) (take n dst) (take n src) @ drop n dst else dst)"
  using conditional_memcpy_mask [OF assms] conditional_memxor_mask [OF assms]
  by (simp add: select_w_mask select_8_mask constant_time_select_int_def)

theorem constant_time_selection_witness:
  "constant_time_conditional_memcpy [1, 2, 3] [4, 5] 2 (mask_w (0 < (1 :: nat))) = Some [4, 5, 3]"
  using constant_time_selection [of 2 "[1, 2, 3]" "[4, 5]" "0 < (1 :: nat)" 0 0 0 0 0 0] by simp

end
