(* ===== verification/Base64_Enc.thy ===== *)
theory Base64_Enc
  imports Const_Time C_Mem
begin

text \<open>
  crypto/base64/base64.c: the Base64 alphabet without table look-ups, one-shot and streaming
  encoding and decoding. Characters are given by their ASCII codes. What a function stores
  behind an output pointer is a list of bytes in the order of the stores; a null byte that
  a later store overwrites is not in it.
\<close>

section \<open>Encoding\<close>

definition constant_time_lt_args_8 :: "byte \<Rightarrow> byte \<Rightarrow> byte" where
  "constant_time_lt_args_8 a b =
     (let aw = ucast a :: crypto_word_t; bw = ucast b in ucast (constant_time_msb_w (aw - bw)))"

definition constant_time_in_range_8 :: "byte \<Rightarrow> byte \<Rightarrow> byte \<Rightarrow> byte" where
  "constant_time_in_range_8 a min' max' = constant_time_lt_args_8 (a - min') (max' - min' + 1)"

definition conv_bin2ascii :: "byte \<Rightarrow> byte" where
  "conv_bin2ascii a =
     (let a = a AND 0x3f;
          ret = constant_time_select_8 (ucast (constant_time_eq_8 (ucast a) 62)) 0x2b 0x2f;
          ret = constant_time_select_8 (ucast (constant_time_lt_args_8 a 62)) (a - 52 + 0x30) ret;
          ret = constant_time_select_8 (ucast (constant_time_lt_args_8 a 52)) (a - 26 + 0x61) ret
      in constant_time_select_8 (ucast (constant_time_lt_args_8 a 26)) (a + 0x41) ret)"

definition EVP_EncodedLength :: "nat \<Rightarrow> nat option" where
  "EVP_EncodedLength len =
     (if size_add len 2 < len then None
      else (let len = size_add len 2;
                len = len div 3
            in if size_mul len 4 div 4 \<noteq> len then None
               else (let len = size_mul len 4
                     in if size_add len 1 < len then None else Some (size_add len 1))))"

text \<open>The loop over groups of three bytes; the result is what was stored and the count.\<close>

function encode_block_loop :: "byte list \<Rightarrow> nat \<Rightarrow> byte list \<times> nat" where
  "encode_block_loop src remaining =
     (if remaining = 0 then ([], 0)
      else if remaining \<ge> 3 then
        (let l = push_bit 16 (ucast (src ! 0)) OR push_bit 8 (ucast (src ! 1)) OR ucast (src ! 2) :: u32;
             (dst, ret) = encode_block_loop (drop 3 src) (remaining - 3)
         in ([conv_bin2ascii (ucast (drop_bit 18 l)), conv_bin2ascii (ucast (drop_bit 12 l)),
              conv_bin2ascii (ucast (drop_bit 6 l)), conv_bin2ascii (ucast l)] @ dst, ret + 4))
      else
        (let l = push_bit 16 (ucast (src ! 0)) :: u32;
             l = (if remaining = 2 then l OR push_bit 8 (ucast (src ! 1)) else l)
         in ([conv_bin2ascii (ucast (drop_bit 18 l)), conv_bin2ascii (ucast (drop_bit 12 l)),
              if remaining = 1 then 0x3d else conv_bin2ascii (ucast (drop_bit 6 l)), 0x3d], 4)))"
  by pat_completeness auto
termination by (relation "measure snd") auto

declare encode_block_loop.simps [simp del]

definition EVP_EncodeBlock :: "byte list \<Rightarrow> nat \<Rightarrow> byte list \<times> nat" where
  "EVP_EncodeBlock src src_len = (case encode_block_loop src src_len of (dst, ret) \<Rightarrow> (dst @ [0], ret))"

section \<open>Streaming encoding\<close>

record EVP_ENCODE_CTX =
  data_used :: nat
  ctx_data :: "byte list"
  eof_seen :: bool
  error_encountered :: bool

definition EVP_EncodeInit :: EVP_ENCODE_CTX where
  "EVP_EncodeInit =
     \<lparr>data_used = 0, ctx_data = replicate 48 0, eof_seen = False, error_encountered = False\<rparr>"

text \<open>
  One line: the encoded bytes and a newline. The loop over whole lines stops early, with
  \<open>True\<close> in front of its result, when the count of the output overflows.
\<close>

definition encode_line :: "byte list \<Rightarrow> nat \<Rightarrow> byte list \<times> nat" where
  "encode_line src n = (case EVP_EncodeBlock src n of (dst, encoded) \<Rightarrow> (take encoded dst @ [0xa], encoded))"

function encode_update_loop :: "byte list \<Rightarrow> nat \<Rightarrow> byte list \<Rightarrow> nat \<Rightarrow> bool \<times> byte list \<times> nat \<times> byte list \<times> nat" where
  "encode_update_loop in' in_len out tot =
     (if in_len \<ge> 48 then
        (case encode_line in' 48 of (line, encoded) \<Rightarrow>
           if size_add (size_add tot encoded) 1 < tot
           then (True, out @ line, tot, drop 48 in', in_len - 48)
           else encode_update_loop (drop 48 in') (in_len - 48) (out @ line) (size_add (size_add tot encoded) 1))
      else (False, out, tot, in', in_len))"
  by pat_completeness auto
termination by (relation "measure (\<lambda>(i, n, out, t). n)") auto

declare encode_update_loop.simps [simp del]

text \<open>Copy into the context's block; a copy past its end is undefined.\<close>

definition ctx_store :: "nat \<Rightarrow> byte list \<Rightarrow> nat \<Rightarrow> (EVP_ENCODE_CTX, unit) op" where
  "ctx_store at src n = (\<lambda>ctx.
     case OPENSSL_memcpy (ctx_data ctx) at src n of
       None \<Rightarrow> (Abort, ctx)
     | Some data \<Rightarrow> (Ok (), ctx\<lparr>ctx_data := data\<rparr>))"

definition set_data_used :: "nat \<Rightarrow> (EVP_ENCODE_CTX, unit) op" where
  "set_data_used n = (\<lambda>ctx. (Ok (), ctx\<lparr>data_used := n\<rparr>))"

text \<open>The result is the bytes stored at \<open>out\<close>, the trailing null left out, and \<open>*out_len\<close>.\<close>

definition EVP_EncodeUpdate :: "byte list \<Rightarrow> nat \<Rightarrow> (EVP_ENCODE_CTX, byte list \<times> nat) op" where
  "EVP_EncodeUpdate in' in_len =
     (if in_len = 0 then op_ret ([], 0)
      else op_bind op_get (\<lambda>ctx.
        op_then (op_assert (data_used ctx < 48))
         (if 48 - data_used ctx > in_len then
            op_then (ctx_store (data_used ctx) in' in_len)
           (op_then (set_data_used (data_used ctx + in_len))
              (op_ret ([], 0)))
          else
            op_bind
              (if data_used ctx \<noteq> 0 then
                 (let todo = 48 - data_used ctx
                  in op_then (ctx_store (data_used ctx) in' todo)
                    (op_bind op_get (\<lambda>ctx.
                       case encode_line (ctx_data ctx) 48 of (line, encoded) \<Rightarrow>
                         op_then (set_data_used 0)
                           (op_ret (drop todo in', in_len - todo, line, encoded + 1)))))
               else op_ret (in', in_len, [], 0))
              (\<lambda>(in', in_len, out, tot).
                 case encode_update_loop in' in_len out tot of (overflow, out, tot, in', in_len) \<Rightarrow>
                   if overflow then op_ret (out, 0)
                   else
                     op_then (if in_len \<noteq> 0 then ctx_store 0 in' in_len else op_ret ())
                    (op_then (set_data_used in_len)
                       (op_ret (out, if tot > INT_MAX then 0 else tot)))))))"

definition EVP_EncodeFinal :: "(EVP_ENCODE_CTX, byte list \<times> nat) op" where
  "EVP_EncodeFinal =
     op_bind op_get (\<lambda>ctx.
       if data_used ctx = 0 then op_ret ([], 0)
       else
         (case encode_line (ctx_data ctx) (data_used ctx) of (line, encoded) \<Rightarrow>
            op_then (set_data_used 0)
           (op_then (op_assert (encoded + 1 \<le> INT_MAX))
              (op_ret (line, encoded + 1)))))"

section \<open>Decoding\<close>

definition EVP_DecodedLength :: "nat \<Rightarrow> nat option" where
  "EVP_DecodedLength len = (if len mod 4 \<noteq> 0 then None else Some (len div 4 * 3))"

definition EVP_DecodeInit :: EVP_ENCODE_CTX where
  "EVP_DecodeInit =
     \<lparr>data_used = 0, ctx_data = replicate 48 0, eof_seen = False, error_encountered = False\<rparr>"

definition base64_ascii_to_bin :: "byte \<Rightarrow> byte" where
  "base64_ascii_to_bin a =
     (let is_upper = constant_time_in_range_8 a 0x41 0x5a;
          is_lower = constant_time_in_range_8 a 0x61 0x7a;
          is_digit = constant_time_in_range_8 a 0x30 0x39;
          is_plus = constant_time_eq_8 (ucast a) 0x2b;
          is_slash = constant_time_eq_8 (ucast a) 0x2f;
          is_equals = constant_time_eq_8 (ucast a) 0x3d;
          ret = 0;
          ret = ret OR (is_upper AND (a - 0x41));
          ret = ret OR (is_lower AND (a - 0x61 + 26));
          ret = ret OR (is_digit AND (a - 0x30 + 52));
          ret = ret OR (is_plus AND 62);
          ret = ret OR (is_slash AND 63);
          is_valid = is_upper OR is_lower OR is_digit OR is_plus OR is_slash OR is_equals
      in ret OR NOT is_valid)"

text \<open>The bytes of a quad; \<open>None\<close> for a return of zero.\<close>

definition base64_decode_quad :: "byte list \<Rightarrow> byte list option" where
  "base64_decode_quad in' =
     (let a = base64_ascii_to_bin (in' ! 0);
          b = base64_ascii_to_bin (in' ! 1);
          c = base64_ascii_to_bin (in' ! 2);
          d = base64_ascii_to_bin (in' ! 3)
      in if a = 0xff \<or> b = 0xff \<or> c = 0xff \<or> d = 0xff then None
         else
           (let v = push_bit 18 (ucast a) OR push_bit 12 (ucast b) OR push_bit 6 (ucast c) OR ucast d :: u32;
                padding_pattern =
                  push_bit 3 (of_bool (in' ! 0 = 0x3d)) OR push_bit 2 (of_bool (in' ! 1 = 0x3d)) OR
                  push_bit 1 (of_bool (in' ! 2 = 0x3d)) OR of_bool (in' ! 3 = 0x3d) :: u32
            in if padding_pattern = 0 then Some [ucast (drop_bit 16 v), ucast (drop_bit 8 v), ucast v]
               else if padding_pattern = 1 then Some [ucast (drop_bit 16 v), ucast (drop_bit 8 v)]
               else if padding_pattern = 3 then Some [ucast (drop_bit 16 v)]
               else None))"

text \<open>
  The loop of the streaming decoder: \<open>Err\<close> for the returns of -1, with the error flag set.
  The list is what was stored behind \<open>out\<close>.
\<close>

fun decode_update_loop :: "byte list \<Rightarrow> byte list \<Rightarrow> (EVP_ENCODE_CTX, byte list) op" where
  "decode_update_loop [] out ctx = (Ok out, ctx)"
| "decode_update_loop (c # in') out ctx =
     (if c = 0x20 \<or> c = 0x9 \<or> c = 0xd \<or> c = 0xa then decode_update_loop in' out ctx
      else if eof_seen ctx then (Err, ctx\<lparr>error_encountered := True\<rparr>)
      else if data_used ctx \<ge> length (ctx_data ctx) then (Abort, ctx)
      else
        (let ctx = ctx\<lparr>ctx_data := (ctx_data ctx)[data_used ctx := c], data_used := data_used ctx + 1\<rparr>
         in if data_used ctx = 4 then
              (case base64_decode_quad (ctx_data ctx) of
                 None \<Rightarrow> (Err, ctx\<lparr>error_encountered := True\<rparr>)
               | Some bytes \<Rightarrow>
                   decode_update_loop in' (out @ bytes)
                     (ctx\<lparr>data_used := 0, eof_seen := eof_seen ctx \<or> length bytes < 3\<rparr>))
            else decode_update_loop in' out ctx))"

text \<open>The result is the return value, 0 or 1, and the bytes stored, whose number is \<open>*out_len\<close>.\<close>

definition EVP_DecodeUpdate :: "byte list \<Rightarrow> (EVP_ENCODE_CTX, nat \<times> byte list) op" where
  "EVP_DecodeUpdate in' =
     op_bind op_get (\<lambda>ctx.
     op_then (op_require (\<not> error_encountered ctx))
    (op_bind (decode_update_loop in' []) (\<lambda>out ctx.
       if length out > INT_MAX then (Err, ctx\<lparr>error_encountered := True\<rparr>)
       else (Ok (if eof_seen ctx then 0 else 1, out), ctx))))"

definition EVP_DecodeFinal :: "(EVP_ENCODE_CTX, unit) op" where
  "EVP_DecodeFinal =
     op_bind op_get (\<lambda>ctx. op_require (\<not> (error_encountered ctx \<or> data_used ctx \<noteq> 0)))"

function decode_base64_loop :: "byte list \<Rightarrow> nat \<Rightarrow> nat \<Rightarrow> byte list \<Rightarrow> byte list option" where
  "decode_base64_loop in' in_len i out =
     (if i < in_len then
        (case base64_decode_quad (drop i in') of
           None \<Rightarrow> None
         | Some bytes \<Rightarrow>
             if length bytes \<noteq> 3 \<and> i \<noteq> in_len - 4 then None
             else decode_base64_loop in' in_len (i + 4) (out @ bytes))
      else Some out)"
  by pat_completeness auto
termination by (relation "measure (\<lambda>(in', n, i, out). n - i)") auto

declare decode_base64_loop.simps [simp del]

definition EVP_DecodeBase64 :: "nat \<Rightarrow> byte list \<Rightarrow> nat \<Rightarrow> byte list option" where
  "EVP_DecodeBase64 max_out in' in_len =
     (if in_len mod 4 \<noteq> 0 then None
      else case EVP_DecodedLength in_len of
        None \<Rightarrow> None
      | Some max_len \<Rightarrow>
          if max_out < max_len then None else decode_base64_loop in' in_len 0 [])"

fun trim_front :: "byte list \<Rightarrow> byte list" where
  "trim_front [] = []"
| "trim_front (c # src) = (if c \<noteq> 0x20 \<and> c \<noteq> 0x9 then c # src else trim_front src)"

fun trim_back :: "byte list \<Rightarrow> nat \<Rightarrow> nat" where
  "trim_back src 0 = 0"
| "trim_back src (Suc n) =
     (if src ! n = 0x20 \<or> src ! n = 0x9 \<or> src ! n = 0xd \<or> src ! n = 0xa then trim_back src n else Suc n)"

text \<open>The stored bytes, padded with null bytes to a multiple of three; \<open>None\<close> is the return of -1.\<close>

function pad_to_three :: "byte list \<Rightarrow> byte list" where
  "pad_to_three dst = (if length dst mod 3 \<noteq> 0 then pad_to_three (dst @ [0]) else dst)"
  by pat_completeness auto
termination
proof (relation "measure (\<lambda>dst. (3 - length dst mod 3) mod 3)")
  fix dst :: "byte list"
  assume "length dst mod 3 \<noteq> 0"
  then consider "length dst mod 3 = 1" | "length dst mod 3 = 2" by fastforce
  then show "(dst @ [0], dst) \<in> measure (\<lambda>dst. (3 - length dst mod 3) mod 3)"
    by cases (simp_all add: mod_Suc)
qed simp

declare pad_to_three.simps [simp del]

definition EVP_DecodeBlock :: "byte list \<Rightarrow> byte list option" where
  "EVP_DecodeBlock src =
     (let src = trim_front src;
          src_len = trim_back src (length src)
      in case EVP_DecodedLength src_len of
           None \<Rightarrow> None
         | Some dst_len \<Rightarrow>
             if dst_len > INT_MAX then None
             else case EVP_DecodeBase64 dst_len src src_len of
               None \<Rightarrow> None
             | Some dst \<Rightarrow> Some (pad_to_three dst))"

section \<open>The alphabet\<close>

definition b64_alphabet :: "byte list" where
  "b64_alphabet = map of_nat ([65..<91] @ [97..<123] @ [48..<58] @ [43, 47])"

definition b64_char :: "nat \<Rightarrow> byte" where
  "b64_char n = b64_alphabet ! n"

lemma b64_char_cases:
  "n < 64 \<Longrightarrow> unat (b64_char n) =
     (if n < 26 then n + 65 else if n < 52 then n + 71 else if n < 62 then n - 4 else if n = 62 then 43 else 47)"
proof -
  assume n: "n < 64"
  have l: "length ([65..<91] @ [97..<123] @ [48..<58] @ [43, 47] :: nat list) = 64" by simp
  define k where "k = ([65..<91] @ [97..<123] @ [48..<58] @ [43, 47] :: nat list) ! n"
  have b: "b64_char n = of_nat k" unfolding b64_char_def b64_alphabet_def k_def using n l by (intro nth_map) simp
  have k: "k = (if n < 26 then n + 65 else if n < 52 then n + 71 else if n < 62 then n - 4 else if n = 62 then 43 else 47)"
    using n unfolding k_def by (auto simp: nth_append nth_Cons' simp del: upt_Suc)
  have "k < 256" using n by (auto simp: k)
  then show ?thesis unfolding b unat_of_nat_byte using k by simp
qed

text \<open>The constant-time masks on bytes.\<close>

lemma unat_ucast_byte_u64 [simp]: "unat (ucast (a :: byte) :: u64) = unat a"
  by (simp add: unat_ucast_up)

lemma lt_args_mask: "constant_time_lt_args_8 a b = mask_8 (a < b)"
proof -
  have "bit ((ucast a :: u64) - ucast b) 63 \<longleftrightarrow> a < b"
    unfolding bit_63 unat_sub_u64 word_less_nat_alt using unat_lt_256 [of a] unat_lt_256 [of b] by auto
  then show ?thesis by (simp add: constant_time_lt_args_8_def msb_mask)
qed

lemma in_range_mask:
  "unat hi < 255 \<Longrightarrow> lo \<le> hi \<Longrightarrow> constant_time_in_range_8 a lo hi = mask_8 (lo \<le> a \<and> a \<le> hi)"
proof -
  assume hi: "unat hi < 255" "lo \<le> hi"
  have d: "unat (hi - lo + 1) = unat hi - unat lo + 1"
    using hi by (simp add: unat_word_ariths unat_sub word_le_nat_alt)
  have "a - lo < hi - lo + 1 \<longleftrightarrow> lo \<le> a \<and> a \<le> hi"
  proof (cases "lo \<le> a")
    case True
    then have "unat (a - lo) = unat a - unat lo" by (rule unat_sub)
    then show ?thesis using True hi unfolding word_less_nat_alt d by (auto simp: word_le_nat_alt)
  next
    case False
    then have "unat (a - lo) = 256 + unat a - unat lo"
      using unat_lt_256 [of a] unat_lt_256 [of lo] by (simp add: unat_sub_if' word_le_nat_alt)
    then show ?thesis using False hi unfolding word_less_nat_alt d by (auto simp: word_le_nat_alt)
  qed
  then show ?thesis by (simp add: constant_time_in_range_8_def lt_args_mask)
qed

lemma select_8_byte_mask: "constant_time_select_8 (ucast (mask_8 c)) a b = (if c then a else b)"
  unfolding constant_time_select_8_def value_barrier_w_def Let_def
  by (rule bit_word_eqI) (auto simp: bit_simps)

lemma eq_8_mask: "constant_time_eq_8 (ucast (a :: byte)) (ucast (b :: byte)) = mask_8 (a = b)"
proof -
  have "(ucast a :: u64) = ucast b \<longleftrightarrow> a = b" by (simp add: word_unat_eq_iff)
  then show ?thesis by (simp add: constant_time_eq_8_def eq_mask)
qed

lemma mask_8_and [simp]: "mask_8 c AND x = (if c then x else 0)"
  by (rule bit_word_eqI) (auto simp: bit_simps)

lemma mask_8_or [simp]: "mask_8 c OR mask_8 d = mask_8 (c \<or> d)"
  by (rule bit_word_eqI) (auto simp: bit_simps)

lemma conv_bin2ascii_eq: "conv_bin2ascii a = b64_char (unat a mod 64)"
proof -
  define b where "b = a AND 0x3f"
  define n where "n = unat a mod 64"
  have "b = take_bit 6 a" by (simp add: b_def take_bit_eq_mask mask_eq_exp_minus_1)
  then have b: "unat b = n" by (simp only: unat_take_bit_mod n_def) simp
  have n: "n < 64" by (simp add: n_def)
  have lt: "b < 62 \<longleftrightarrow> n < 62" "b < 52 \<longleftrightarrow> n < 52" "b < 26 \<longleftrightarrow> n < 26" "b = 62 \<longleftrightarrow> n = 62"
    by (simp_all add: word_less_nat_alt word_unat_eq_iff b)
  have e: "constant_time_eq_8 (ucast b) 62 = mask_8 (n = 62)"
    using eq_8_mask [of b 62] lt by simp
  have "conv_bin2ascii a = (if n < 26 then b + 0x41 else if n < 52 then b - 26 + 0x61
      else if n < 62 then b - 52 + 0x30 else if n = 62 then 0x2b else 0x2f)"
    unfolding conv_bin2ascii_def Let_def b_def [symmetric]
    by (simp add: e lt_args_mask lt select_8_byte_mask)
  moreover have "unat \<dots> = unat (b64_char n)"
  proof -
    have "52 \<le> n \<Longrightarrow> unat (b - 4) = n - 4" "26 \<le> n \<Longrightarrow> unat (b - 26) = n - 26"
      using unat_sub [of 4 b] unat_sub [of 26 b] by (simp_all add: b word_le_nat_alt)
    then show ?thesis
      unfolding b64_char_cases [OF n] using n by (auto simp: unat_word_ariths b)
  qed
  ultimately show ?thesis by (simp add: word_unat_eq_iff n_def)
qed

text \<open>Reading a character: its number, zero for the padding, 0xff for the rest.\<close>

definition b64_read :: "byte \<Rightarrow> nat" where
  "b64_read a =
     (let u = unat a
      in if 65 \<le> u \<and> u \<le> 90 then u - 65
         else if 97 \<le> u \<and> u \<le> 122 then u - 71
         else if 48 \<le> u \<and> u \<le> 57 then u + 4
         else if u = 43 then 62
         else if u = 47 then 63
         else if u = 61 then 0
         else 255)"

lemma base64_ascii_to_bin_eq: "unat (base64_ascii_to_bin a) = b64_read a"
proof -
  define u where "u = unat a"
  have le: "0x41 \<le> a \<longleftrightarrow> 65 \<le> u" "a \<le> 0x5a \<longleftrightarrow> u \<le> 90" "0x61 \<le> a \<longleftrightarrow> 97 \<le> u" "a \<le> 0x7a \<longleftrightarrow> u \<le> 122"
    "0x30 \<le> a \<longleftrightarrow> 48 \<le> u" "a \<le> 0x39 \<longleftrightarrow> u \<le> 57" "a = 0x2b \<longleftrightarrow> u = 43" "a = 0x2f \<longleftrightarrow> u = 47" "a = 0x3d \<longleftrightarrow> u = 61"
    by (simp_all add: u_def word_le_nat_alt word_unat_eq_iff)
  have e: "constant_time_eq_8 (ucast a) 0x2b = mask_8 (u = 43)" "constant_time_eq_8 (ucast a) 0x2f = mask_8 (u = 47)"
    "constant_time_eq_8 (ucast a) 0x3d = mask_8 (u = 61)"
    using eq_8_mask [of a "0x2b"] eq_8_mask [of a "0x2f"] eq_8_mask [of a "0x3d"] le by simp_all
  have r: "constant_time_in_range_8 a 0x41 0x5a = mask_8 (65 \<le> u \<and> u \<le> 90)"
    "constant_time_in_range_8 a 0x61 0x7a = mask_8 (97 \<le> u \<and> u \<le> 122)"
    "constant_time_in_range_8 a 0x30 0x39 = mask_8 (48 \<le> u \<and> u \<le> 57)"
    by (simp_all add: in_range_mask word_le_nat_alt u_def)
  have ff: "(mask_8 False :: byte) = 0" "mask_8 True = 0xff" by (simp_all add: mask_8_def CONSTTIME_TRUE_8_def CONSTTIME_FALSE_8_def)
  have sub: "65 \<le> u \<Longrightarrow> unat (a - 0x41) = u - 65" "97 \<le> u \<Longrightarrow> unat (a - 0x47) = u - 71"
    using unat_sub [of "0x41" a] unat_sub [of "0x47" a] by (simp_all add: u_def word_le_nat_alt)
  have add: "unat (4 + a) = (4 + u) mod 256" by (simp add: u_def unat_word_ariths(1))
  show ?thesis
    unfolding base64_ascii_to_bin_def Let_def e r b64_read_def u_def [symmetric] not_mask mask_8_or mask_8_and
    using sub add by (auto simp: ff)
qed

lemma b64_read_char: "n < 64 \<Longrightarrow> b64_read (b64_char n) = n \<and> b64_char n \<noteq> 0x3d"
  by (auto simp: b64_read_def b64_char_cases word_unat_eq_iff Let_def)

lemma b64_char_read: "b64_read a \<noteq> 255 \<Longrightarrow> a \<noteq> 0x3d \<Longrightarrow> b64_read a < 64 \<and> b64_char (b64_read a) = a"
proof -
  assume a: "b64_read a \<noteq> 255" "a \<noteq> 0x3d"
  then have "unat a \<noteq> 61" by (simp add: word_unat_eq_iff)
  then have l: "b64_read a < 64" using a(1) by (auto simp: b64_read_def Let_def split: if_splits)
  moreover have "unat (b64_char (b64_read a)) = unat a"
    unfolding b64_char_cases [OF l] using a \<open>unat a \<noteq> 61\<close> by (auto simp: b64_read_def Let_def split: if_splits)
  ultimately show ?thesis by (simp add: word_unat_eq_iff)
qed

lemma b64_read_pad [simp]: "b64_read 0x3d = 0"
  by (simp add: b64_read_def)

section \<open>Groups of three bytes\<close>

text \<open>The four six-bit digits of a 24-bit number, and the number of four digits.\<close>

definition sextets :: "nat \<Rightarrow> nat list" where
  "sextets n = [n div 262144 mod 64, n div 4096 mod 64, n div 64 mod 64, n mod 64]"

definition sextets_val :: "nat list \<Rightarrow> nat" where
  "sextets_val ds = foldl (\<lambda>v d. v * 64 + d) 0 ds"

lemma sextets_val_sextets: "n < 2 ^ 24 \<Longrightarrow> sextets_val (sextets n) = n"
proof -
  assume n: "n < 2 ^ 24"
  have e: "n = 64 * (n div 64) + n mod 64" "n div 64 = 64 * (n div 4096) + n div 64 mod 64"
    "n div 4096 = 64 * (n div 262144) + n div 4096 mod 64"
    using div_mult_mod_eq [of n 64] div_mult_mod_eq [of "n div 64" 64] div_mult_mod_eq [of "n div 4096" 64]
    by (simp_all add: div_mult2_eq [symmetric])
  have "n div 262144 mod 64 = n div 262144" using n by (simp add: div_less_iff_less_mult)
  moreover have "((r * 64 + d2) * 64 + d1) * 64 + d0 = m"
    if "m = 64 * p + d0" "p = 64 * q + d1" "q = 64 * r + d2" for m p q r d0 d1 d2 :: nat
    using that by simp
  ultimately have "((n div 262144 mod 64 * 64 + n div 4096 mod 64) * 64 + n div 64 mod 64) * 64 + n mod 64 = n"
    using e by metis
  then show ?thesis
    by (simp only: sextets_val_def sextets_def foldl.simps mult_0 add_0_left)
qed

lemma word24:
  fixes a b c :: byte
  shows "unat (push_bit 16 (ucast a) OR push_bit 8 (ucast b) OR ucast c :: u32) = be_val [a, b, c]"
proof -
  have c: "unat (ucast c :: u32) = unat c" "unat (ucast b :: u32) = unat b" "unat (ucast a :: u32) = unat a"
    by (simp_all add: unat_ucast_up)
  have bc: "unat (push_bit 8 (ucast b) OR ucast c :: u32) = unat b * 2 ^ 8 + unat c"
    using unat_or_low [of "ucast c :: u32" 8 "ucast b"] unat_lt_256 [of b] unat_lt_256 [of c] by (simp add: c)
  have "unat b * 2 ^ 8 + unat c < 2 ^ 16" using unat_lt_256 [of b] unat_lt_256 [of c] by simp
  then have "unat (push_bit 16 (ucast a) OR (push_bit 8 (ucast b) OR ucast c) :: u32) =
      unat a * 2 ^ 16 + (unat b * 2 ^ 8 + unat c)"
    using unat_or_low [of "push_bit 8 (ucast b) OR ucast c :: u32" 16 "ucast a"] unat_lt_256 [of a] by (simp only: c bc) simp
  then show ?thesis by simp
qed

lemma conv_shifted: "conv_bin2ascii (ucast (drop_bit k (l :: u32))) = b64_char (unat l div 2 ^ k mod 64)"
  and conv_low: "conv_bin2ascii (ucast l) = b64_char (unat l mod 64)"
proof -
  have "unat (ucast (drop_bit k l) :: byte) mod 64 = unat l div 2 ^ k mod 64" for k
    by (simp only: unsigned_ucast_eq unat_drop_bit_eq) (simp add: take_bit_eq_mod drop_bit_eq_div mod_mod_cancel)
  from this [of k] this [of 0] show "conv_bin2ascii (ucast (drop_bit k l)) = b64_char (unat l div 2 ^ k mod 64)"
    "conv_bin2ascii (ucast l) = b64_char (unat l mod 64)"
    by (simp_all add: conv_bin2ascii_eq)
qed

text \<open>Base64 of a byte string.\<close>

fun b64 :: "byte list \<Rightarrow> byte list" where
  "b64 [] = []"
| "b64 [a] = map b64_char (take 2 (sextets (be_val [a, 0, 0]))) @ [0x3d, 0x3d]"
| "b64 [a, b] = map b64_char (take 3 (sextets (be_val [a, b, 0]))) @ [0x3d]"
| "b64 (a # b # c # bs) = map b64_char (sextets (be_val [a, b, c])) @ b64 bs"

lemma length_b64: "length (b64 bs) = 4 * ((length bs + 2) div 3)"
proof (induction bs rule: b64.induct)
  case (4 a b c bs)
  have "(length bs + 5) div 3 = Suc ((length bs + 2) div 3)" by presburger
  with 4 show ?case by (simp add: sextets_def add.commute)
qed (simp_all add: sextets_def)

lemma encode_block_loop_eq: "encode_block_loop (bs @ rest) (length bs) = (b64 bs, length (b64 bs))"
proof (induction bs rule: b64.induct)
  case 1
  show ?case by (subst encode_block_loop.simps) simp
next
  case (2 a)
  define l :: u32 where "l = push_bit 16 (ucast a)"
  have "unat l = be_val [a, 0, 0]" using word24 [of a 0 0] by (simp add: l_def)
  then show ?case
    by (subst encode_block_loop.simps)
      (simp add: l_def [symmetric] conv_shifted conv_low unat_drop_u32 sextets_def del: be_val.simps)
next
  case (3 a b)
  define l :: u32 where "l = push_bit 16 (ucast a) OR push_bit 8 (ucast b)"
  have "unat l = be_val [a, b, 0]" using word24 [of a b 0] by (simp add: l_def)
  then show ?case
    by (subst encode_block_loop.simps)
      (simp add: l_def [symmetric] conv_shifted conv_low unat_drop_u32 sextets_def del: be_val.simps)
next
  case (4 a b c bs)
  define l :: u32 where "l = push_bit 16 (ucast a) OR push_bit 8 (ucast b) OR ucast c"
  have "unat l = be_val [a, b, c]" using word24 [of a b c] by (simp add: l_def)
  with 4 show ?case
    by (subst encode_block_loop.simps)
      (simp add: l_def [symmetric] conv_shifted conv_low unat_drop_u32 sextets_def Let_def del: be_val.simps)
qed

lemma EVP_EncodeBlock_eq: "EVP_EncodeBlock (bs @ rest) (length bs) = (b64 bs @ [0], length (b64 bs))"
  by (simp add: EVP_EncodeBlock_def encode_block_loop_eq)

section \<open>Decoding a quad\<close>

lemma b64_read_less: "b64_read a \<noteq> 255 \<Longrightarrow> b64_read a < 64"
  by (auto simp: b64_read_def Let_def split: if_splits)

lemma sextets_val_4: "sextets_val [a, b, c, d] = a * 262144 + (b * 4096 + (c * 64 + d))"
  by (simp add: sextets_val_def)

lemma word_sextets:
  fixes a b c d :: byte
  assumes "unat a < 64" "unat b < 64" "unat c < 64" "unat d < 64"
  shows "unat (push_bit 18 (ucast a) OR push_bit 12 (ucast b) OR push_bit 6 (ucast c) OR ucast d :: u32) =
    sextets_val [unat a, unat b, unat c, unat d]"
proof -
  have u: "unat (ucast x :: u32) = unat x" for x :: byte by (simp add: unat_ucast_up)
  have cd: "unat (push_bit 6 (ucast c) OR ucast d :: u32) = unat c * 64 + unat d"
    using unat_or_low [of "ucast d :: u32" 6 "ucast c"] assms by (simp add: u)
  have bcd: "unat (push_bit 12 (ucast b) OR (push_bit 6 (ucast c) OR ucast d) :: u32) =
      unat b * 4096 + (unat c * 64 + unat d)"
    using unat_or_low [of "push_bit 6 (ucast c) OR ucast d :: u32" 12 "ucast b"] assms by (simp only: u cd) simp
  show ?thesis
    using unat_or_low [of "push_bit 12 (ucast b) OR push_bit 6 (ucast c) OR ucast d :: u32" 18 "ucast a"] assms
    unfolding sextets_val_4 by (simp only: u bcd) simp
qed

lemma ucast_shifted_byte: "(ucast (drop_bit k (l :: u32)) :: byte) = of_nat (unat l div 2 ^ k)"
proof -
  have "unat (ucast (drop_bit k l) :: byte) = unat (of_nat (unat l div 2 ^ k) :: byte)"
    by (simp only: unsigned_ucast_eq unat_drop_bit_eq unat_of_nat_byte) (simp add: take_bit_eq_mod drop_bit_eq_div)
  then show ?thesis by (simp only: word_unat_eq_iff)
qed

lemma be_bytes_3: "be_bytes 3 n = [of_nat (n div 65536), of_nat (n div 256), of_nat n]"
  by (simp add: numeral_3_eq_3 div_mult2_eq [symmetric])

definition quad_result :: "bool \<Rightarrow> bool \<Rightarrow> bool \<Rightarrow> bool \<Rightarrow> nat option" where
  "quad_result p0 p1 p2 p3 =
     (if p0 \<or> p1 then None else if p2 then (if p3 then Some 1 else None) else if p3 then Some 2 else Some 3)"

lemma padding_pattern:
  "(push_bit 3 (of_bool p0) OR push_bit 2 (of_bool p1) OR push_bit 1 (of_bool p2) OR of_bool p3 :: u32) = k \<Longrightarrow>
     (if k = 0 then Some 3 else if k = 1 then Some 2 else if k = 3 then Some 1 else None) = quad_result p0 p1 p2 p3"
  by (cases p0; cases p1; cases p2; cases p3) (auto simp: quad_result_def)

lemma base64_decode_quad_eq:
  "base64_decode_quad (c0 # c1 # c2 # c3 # rest) =
     (if b64_read c0 = 255 \<or> b64_read c1 = 255 \<or> b64_read c2 = 255 \<or> b64_read c3 = 255 then None
      else case quad_result (c0 = 0x3d) (c1 = 0x3d) (c2 = 0x3d) (c3 = 0x3d) of
        None \<Rightarrow> None
      | Some n \<Rightarrow> Some (take n (be_bytes 3 (sextets_val [b64_read c0, b64_read c1, b64_read c2, b64_read c3]))))"
proof -
  let ?b = base64_ascii_to_bin
  have ff: "?b c = 0xff \<longleftrightarrow> b64_read c = 255" for c
    by (simp add: word_unat_eq_iff base64_ascii_to_bin_eq)
  show ?thesis
  proof (cases "b64_read c0 = 255 \<or> b64_read c1 = 255 \<or> b64_read c2 = 255 \<or> b64_read c3 = 255")
    case True
    then show ?thesis by (auto simp: base64_decode_quad_def Let_def ff)
  next
    case False
    define v :: u32 where "v = push_bit 18 (ucast (?b c0)) OR push_bit 12 (ucast (?b c1)) OR push_bit 6 (ucast (?b c2)) OR ucast (?b c3)"
    define k :: u32 where "k = push_bit 3 (of_bool (c0 = 0x3d)) OR push_bit 2 (of_bool (c1 = 0x3d)) OR
        push_bit 1 (of_bool (c2 = 0x3d)) OR of_bool (c3 = 0x3d)"
    have v: "unat v = sextets_val [b64_read c0, b64_read c1, b64_read c2, b64_read c3]"
      unfolding v_def using False b64_read_less
      by (subst word_sextets) (simp_all add: base64_ascii_to_bin_eq)
    have b: "[ucast (drop_bit 16 v), ucast (drop_bit 8 v), ucast v] = be_bytes 3 (unat v)"
      using ucast_shifted_byte [of 16 v] ucast_shifted_byte [of 8 v] ucast_shifted_byte [of 0 v]
      by (simp add: be_bytes_3)
    have "base64_decode_quad (c0 # c1 # c2 # c3 # rest) =
        (case (if k = 0 then Some 3 else if k = 1 then Some 2 else if k = 3 then Some 1 else None) of
           None \<Rightarrow> None | Some n \<Rightarrow> Some (take n [ucast (drop_bit 16 v), ucast (drop_bit 8 v), ucast v]))"
    proof -
      have nth: "(c0 # c1 # c2 # c3 # rest) ! 0 = c0" "(c0 # c1 # c2 # c3 # rest) ! 1 = c1"
        "(c0 # c1 # c2 # c3 # rest) ! 2 = c2" "(c0 # c1 # c2 # c3 # rest) ! 3 = c3" by simp_all
      have "(if k = 0 then Some [x, y, z] else if k = 1 then Some [x, y] else if k = 3 then Some [x] else None) =
          (case (if k = 0 then Some 3 else if k = 1 then Some 2 else if k = 3 then Some 1 else None) of
             None \<Rightarrow> None | Some n \<Rightarrow> Some (take n [x, y, z]))" for x y z :: byte
        by simp
      then show ?thesis
        using False unfolding base64_decode_quad_def nth Let_def ff v_def [symmetric] k_def [symmetric]
        by (simp only: if_False)
    qed
    also have "\<dots> = (case quad_result (c0 = 0x3d) (c1 = 0x3d) (c2 = 0x3d) (c3 = 0x3d) of
           None \<Rightarrow> None | Some n \<Rightarrow> Some (take n (be_bytes 3 (unat v))))"
      unfolding padding_pattern [OF k_def [symmetric]] b ..
    finally show ?thesis using False unfolding v by (simp only: if_False)
  qed
qed

text \<open>The text and the bytes of a group of two to four digits.\<close>

definition b64_quad :: "nat list \<Rightarrow> byte list" where
  "b64_quad ds = map b64_char ds @ replicate (4 - length ds) 0x3d"

definition quad_bytes :: "nat list \<Rightarrow> byte list" where
  "quad_bytes ds = take (length ds - 1) (be_bytes 3 (sextets_val (ds @ replicate (4 - length ds) 0)))"

definition digits_ok :: "nat list \<Rightarrow> bool" where
  "digits_ok ds \<longleftrightarrow> 2 \<le> length ds \<and> length ds \<le> 4 \<and> list_all (\<lambda>d. d < 64) ds"

lemma digits_ok_cases:
  assumes "digits_ok ds"
  obtains (two) a b where "ds = [a, b]" "a < 64" "b < 64"
    | (three) a b c where "ds = [a, b, c]" "a < 64" "b < 64" "c < 64"
    | (four) a b c d where "ds = [a, b, c, d]" "a < 64" "b < 64" "c < 64" "d < 64"
proof -
  have "length ds = 2 \<or> length ds = 3 \<or> length ds = 4" using assms by (auto simp: digits_ok_def)
  then show ?thesis
    using assms two three four by (auto simp: digits_ok_def length_Suc_conv numeral_2_eq_2 numeral_3_eq_3 eval_nat_numeral)
qed

lemma quad_complete: "digits_ok ds \<Longrightarrow> base64_decode_quad (b64_quad ds @ rest) = Some (quad_bytes ds)"
proof (erule digits_ok_cases)
  fix a b assume "ds = [a, b]" "a < 64" "b < 64"
  then show ?thesis using b64_read_char [of a] b64_read_char [of b]
    by (simp add: b64_quad_def quad_bytes_def base64_decode_quad_eq quad_result_def numeral_2_eq_2)
next
  fix a b c assume "ds = [a, b, c]" "a < 64" "b < 64" "c < 64"
  then show ?thesis using b64_read_char [of a] b64_read_char [of b] b64_read_char [of c]
    by (simp add: b64_quad_def quad_bytes_def base64_decode_quad_eq quad_result_def numeral_2_eq_2)
next
  fix a b c d assume "ds = [a, b, c, d]" "a < 64" "b < 64" "c < 64" "d < 64"
  then show ?thesis using b64_read_char [of a] b64_read_char [of b] b64_read_char [of c] b64_read_char [of d]
    by (simp add: b64_quad_def quad_bytes_def base64_decode_quad_eq quad_result_def numeral_3_eq_3)
qed

lemma quad_sound:
  assumes "base64_decode_quad (c0 # c1 # c2 # c3 # rest) = Some out"
  shows "\<exists>ds. digits_ok ds \<and> [c0, c1, c2, c3] = b64_quad ds \<and> out = quad_bytes ds"
proof -
  from assms have r: "b64_read c0 \<noteq> 255" "b64_read c1 \<noteq> 255" "b64_read c2 \<noteq> 255" "b64_read c3 \<noteq> 255"
    by (auto simp: base64_decode_quad_eq split: if_splits)
  from assms r obtain n where n: "quad_result (c0 = 0x3d) (c1 = 0x3d) (c2 = 0x3d) (c3 = 0x3d) = Some n"
    "out = take n (be_bytes 3 (sextets_val [b64_read c0, b64_read c1, b64_read c2, b64_read c3]))"
    by (auto simp: base64_decode_quad_eq split: option.splits)
  define ds where "ds = take (n + 1) [b64_read c0, b64_read c1, b64_read c2, b64_read c3]"
  from n(1) consider
      "n = 3" "c0 \<noteq> 0x3d" "c1 \<noteq> 0x3d" "c2 \<noteq> 0x3d" "c3 \<noteq> 0x3d"
    | "n = 2" "c0 \<noteq> 0x3d" "c1 \<noteq> 0x3d" "c2 \<noteq> 0x3d" "c3 = 0x3d"
    | "n = 1" "c0 \<noteq> 0x3d" "c1 \<noteq> 0x3d" "c2 = 0x3d" "c3 = 0x3d"
    by (auto simp: quad_result_def split: if_splits)
  then show ?thesis
    by cases (use n(2) r b64_char_read [of c0] b64_char_read [of c1] b64_char_read [of c2] b64_char_read [of c3] in
      \<open>auto intro!: exI [of _ ds] simp: ds_def digits_ok_def b64_quad_def quad_bytes_def numeral_2_eq_2\<close>)
qed

lemma length_b64_quad: "digits_ok ds \<Longrightarrow> length (b64_quad ds) = 4"
  by (simp add: digits_ok_def b64_quad_def)

lemma length_quad_bytes: "digits_ok ds \<Longrightarrow> length (quad_bytes ds) = length ds - 1"
  by (auto simp: digits_ok_def quad_bytes_def)

section \<open>Decoding a text\<close>

fun dec_quads :: "byte list \<Rightarrow> byte list option" where
  "dec_quads (c0 # c1 # c2 # c3 # t) =
     (case base64_decode_quad [c0, c1, c2, c3] of
        None \<Rightarrow> None
      | Some bytes \<Rightarrow> if length bytes \<noteq> 3 \<and> t \<noteq> [] then None else map_option ((@) bytes) (dec_quads t))"
| "dec_quads t = (if t = [] then Some [] else None)"

lemma quad_prefix: "base64_decode_quad (c0 # c1 # c2 # c3 # t) = base64_decode_quad [c0, c1, c2, c3]"
  by (simp only: base64_decode_quad_eq)

lemma decode_base64_loop_step:
  "i < n \<Longrightarrow> base64_decode_quad (drop i in') = Some bytes \<Longrightarrow> \<not> (length bytes \<noteq> 3 \<and> i \<noteq> n - 4) \<Longrightarrow>
     decode_base64_loop in' n i out = decode_base64_loop in' n (i + 4) (out @ bytes)"
  by (subst decode_base64_loop.simps) auto

lemma decode_base64_loop_eq:
  "length t mod 4 = 0 \<Longrightarrow>
     decode_base64_loop (pre @ t @ suf) (length pre + length t) (length pre) out = map_option ((@) out) (dec_quads t)"
proof (induction t arbitrary: pre out rule: dec_quads.induct)
  case (1 c0 c1 c2 c3 t)
  define whole where "whole = pre @ (c0 # c1 # c2 # c3 # t) @ suf"
  have q: "base64_decode_quad (drop (length pre) whole) = base64_decode_quad [c0, c1, c2, c3]"
    using quad_prefix [of c0 c1 c2 c3 "t @ suf"] by (simp add: whole_def)
  have last: "length pre \<noteq> length pre + length (c0 # c1 # c2 # c3 # t) - 4 \<longleftrightarrow> t \<noteq> []" by simp
  show ?case unfolding whole_def [symmetric]
  proof (cases "base64_decode_quad [c0, c1, c2, c3]")
    case None
    then show "decode_base64_loop whole (length pre + length (c0 # c1 # c2 # c3 # t)) (length pre) out =
        map_option ((@) out) (dec_quads (c0 # c1 # c2 # c3 # t))"
      using q by (subst decode_base64_loop.simps) simp
  next
    case (Some bytes)
    show "decode_base64_loop whole (length pre + length (c0 # c1 # c2 # c3 # t)) (length pre) out =
        map_option ((@) out) (dec_quads (c0 # c1 # c2 # c3 # t))"
    proof (cases "length bytes \<noteq> 3 \<and> t \<noteq> []")
      case True
      then show ?thesis using q Some last by (subst decode_base64_loop.simps) simp
    next
      case False
      have "decode_base64_loop whole (length pre + length (c0 # c1 # c2 # c3 # t)) (length pre) out =
          decode_base64_loop whole (length pre + length (c0 # c1 # c2 # c3 # t)) (length pre + 4) (out @ bytes)"
        by (rule decode_base64_loop_step) (use q Some False last in simp_all)
      also have "\<dots> = decode_base64_loop ((pre @ [c0, c1, c2, c3]) @ t @ suf) (length (pre @ [c0, c1, c2, c3]) + length t)
          (length (pre @ [c0, c1, c2, c3])) (out @ bytes)"
        by (simp add: eval_nat_numeral whole_def)
      also have "\<dots> = map_option ((@) (out @ bytes)) (dec_quads t)"
        using 1(2) False Some by (intro 1(1)) auto
      finally show ?thesis using Some False by (cases "dec_quads t") auto
    qed
  qed
qed (subst decode_base64_loop.simps, simp)+

lemma EVP_DecodeBase64_eq:
  "EVP_DecodeBase64 max_out (t @ suf) (length t) =
     (if length t mod 4 \<noteq> 0 \<or> max_out < length t div 4 * 3 then None else dec_quads t)"
  using decode_base64_loop_eq [of t "[]" suf "[]"]
  by (cases "dec_quads t") (simp_all add: EVP_DecodeBase64_def EVP_DecodedLength_def)

text \<open>A text: full groups, the last one possibly padded.\<close>

definition b64_groups :: "nat list list \<Rightarrow> bool" where
  "b64_groups qs \<longleftrightarrow> list_all digits_ok qs \<and> list_all (\<lambda>ds. length ds = 4) (butlast qs)"

lemma b64_groups_Cons:
  "b64_groups (ds # qs) \<longleftrightarrow> digits_ok ds \<and> b64_groups qs \<and> (qs \<noteq> [] \<longrightarrow> length ds = 4)"
  by (auto simp: b64_groups_def)

lemma b64_quad_nonempty: "digits_ok ds \<Longrightarrow> b64_quad ds \<noteq> []"
  using length_b64_quad by fastforce

lemma dec_quads_complete:
  "b64_groups qs \<Longrightarrow> dec_quads (concat (map b64_quad qs)) = Some (concat (map quad_bytes qs))"
proof (induction qs)
  case (Cons ds qs)
  then have ds: "digits_ok ds" "b64_groups qs" "qs \<noteq> [] \<longrightarrow> length ds = 4" by (simp_all add: b64_groups_Cons)
  obtain c0 c1 c2 c3 where q: "b64_quad ds = [c0, c1, c2, c3]"
    using length_b64_quad [OF ds(1)] by (auto simp: eval_nat_numeral length_Suc_conv)
  have d: "base64_decode_quad [c0, c1, c2, c3] = Some (quad_bytes ds)"
    using quad_complete [OF ds(1), of "[]"] by (simp add: q)
  have "length (quad_bytes ds) = 3 \<or> concat (map b64_quad qs) = []"
    using ds length_quad_bytes [OF ds(1)] by auto
  then show ?case using Cons.IH [OF ds(2)] by (auto simp: q d)
qed simp

lemma dec_quads_sound:
  "dec_quads t = Some out \<Longrightarrow> \<exists>qs. b64_groups qs \<and> t = concat (map b64_quad qs) \<and> out = concat (map quad_bytes qs)"
proof (induction t arbitrary: out rule: dec_quads.induct)
  case (1 c0 c1 c2 c3 t)
  then obtain bytes rest where b: "base64_decode_quad [c0, c1, c2, c3] = Some bytes" "length bytes = 3 \<or> t = []"
    "dec_quads t = Some rest" "out = bytes @ rest"
    by (auto split: option.splits if_splits)
  obtain ds where ds: "digits_ok ds" "[c0, c1, c2, c3] = b64_quad ds" "bytes = quad_bytes ds"
    using quad_sound [OF b(1)] by blast
  have "\<not> (length bytes \<noteq> 3 \<and> t \<noteq> [])" using b(2) by blast
  from 1(1) [OF b(1) this b(3)] obtain qs where qs: "b64_groups qs" "t = concat (map b64_quad qs)"
    "rest = concat (map quad_bytes qs)" by blast
  have "length ds = 4" if "qs \<noteq> []"
  proof -
    obtain e qs' where e: "qs = e # qs'" "digits_ok e" using qs(1) \<open>qs \<noteq> []\<close>
      by (cases qs) (auto simp: b64_groups_Cons)
    then have "t \<noteq> []" using qs(2) b64_quad_nonempty by auto
    then show ?thesis using b(2) length_quad_bytes [OF ds(1)] ds(1,3) by (simp add: digits_ok_def)
  qed
  then have "b64_groups (ds # qs)" using ds(1) qs(1) by (simp add: b64_groups_Cons)
  moreover have "c0 # c1 # c2 # c3 # t = concat (map b64_quad (ds # qs))" using ds(2) qs(2) by (simp flip: ds(2))
  ultimately show ?case using b(4) ds(3) qs(3) by (intro exI [of _ "ds # qs"]) simp
next
  case "2_1"
  then show ?case by (intro exI [of _ "[]"]) (simp add: b64_groups_def)
qed simp_all

text \<open>Encoded bytes are such a text.\<close>

fun b64_digits :: "byte list \<Rightarrow> nat list list" where
  "b64_digits [] = []"
| "b64_digits [a] = [take 2 (sextets (be_val [a, 0, 0]))]"
| "b64_digits [a, b] = [take 3 (sextets (be_val [a, b, 0]))]"
| "b64_digits (a # b # c # bs) = sextets (be_val [a, b, c]) # b64_digits bs"

lemma b64_digits_text: "concat (map b64_quad (b64_digits bs)) = b64 bs"
  by (induction bs rule: b64.induct) (simp_all add: b64_quad_def sextets_def numeral_2_eq_2 numeral_3_eq_3 del: be_val.simps)

lemma b64_digits_groups: "b64_groups (b64_digits bs)"
  by (induction bs rule: b64.induct)
    (auto simp: b64_groups_Cons digits_ok_def sextets_def b64_groups_def numeral_2_eq_2 numeral_3_eq_3 simp del: be_val.simps)

lemma quad_bytes_sextets:
  "be_val bs < 2 ^ 24 \<Longrightarrow> length bs = 3 \<Longrightarrow> be_bytes 3 (sextets_val (sextets (be_val bs))) = bs"
  using be_bytes_be_val [of bs] by (simp add: sextets_val_sextets del: be_bytes.simps)

lemma b64_digits_bytes: "concat (map quad_bytes (b64_digits bs)) = bs"
proof (induction bs rule: b64.induct)
  case (2 a)
  have l: "be_val [a, 0, 0] < 2 ^ 24" using be_val_less [of "[a, 0, 0]"] by simp
  have "be_val [a, 0, 0] = unat a * 65536" by simp
  then have z: "be_val [a, 0, 0] div 64 mod 64 = 0" "be_val [a, 0, 0] mod 64 = 0" by simp_all
  then have "take 2 (sextets (be_val [a, 0, 0])) @ [0, 0] = sextets (be_val [a, 0, 0])"
    by (simp add: sextets_def del: be_val.simps)
  moreover have "length (take 2 (sextets (be_val [a, 0, 0]))) = 2" by (simp add: sextets_def)
  ultimately have "quad_bytes (take 2 (sextets (be_val [a, 0, 0]))) = take 1 (be_bytes 3 (sextets_val (sextets (be_val [a, 0, 0]))))"
    by (simp add: quad_bytes_def numeral_2_eq_2 del: be_val.simps be_bytes.simps)
  then show ?case using quad_bytes_sextets [OF l] by (simp del: be_val.simps be_bytes.simps)
next
  case (3 a b)
  have l: "be_val [a, b, 0] < 2 ^ 24" using be_val_less [of "[a, b, 0]"] by simp
  have "be_val [a, b, 0] = 256 * (unat a * 256 + unat b)" by simp
  then have z: "be_val [a, b, 0] mod 64 = 0" by (simp add: mod_mult_left_eq [symmetric])
  then have "take 3 (sextets (be_val [a, b, 0])) @ [0] = sextets (be_val [a, b, 0])"
    by (simp add: sextets_def numeral_3_eq_3 del: be_val.simps)
  moreover have "length (take 3 (sextets (be_val [a, b, 0]))) = 3" by (simp add: sextets_def)
  ultimately have "quad_bytes (take 3 (sextets (be_val [a, b, 0]))) = take 2 (be_bytes 3 (sextets_val (sextets (be_val [a, b, 0]))))"
    by (simp add: quad_bytes_def del: be_val.simps be_bytes.simps)
  then show ?case using quad_bytes_sextets [OF l] by (simp add: numeral_2_eq_2 del: be_val.simps be_bytes.simps)
next
  case (4 a b c bs)
  have l: "be_val [a, b, c] < 2 ^ 24" using be_val_less [of "[a, b, c]"] by simp
  have "quad_bytes (sextets (be_val [a, b, c])) = be_bytes 3 (sextets_val (sextets (be_val [a, b, c])))"
    by (simp add: quad_bytes_def sextets_def del: be_val.simps be_bytes.simps)
  then show ?case using quad_bytes_sextets [OF l] 4 by (simp del: be_val.simps be_bytes.simps)
qed simp

end
