(* ===== verification/Base64_Stream.thy ===== *)
theory Base64_Stream
  imports Base64_Enc
begin

text \<open>
  The streaming side of \<open>base64.c\<close>: what \<open>EVP_EncodeUpdate\<close>,
  \<open>EVP_EncodeFinal\<close>, \<open>EVP_DecodeUpdate\<close> and \<open>EVP_DecodeFinal\<close> do to the
  bytes that wait in the context, two callers that feed them chunk after chunk, and the
  properties of the block and the streaming routines.
\<close>

section \<open>Streaming encoding\<close>

text \<open>Whole lines of 48 bytes, and what is left for the next call.\<close>

function pem_lines :: "byte list \<Rightarrow> byte list" where
  "pem_lines bs = (if 48 \<le> length bs then b64 (take 48 bs) @ 0xa # pem_lines (drop 48 bs) else [])"
  by pat_completeness auto
termination by (relation "measure length") auto

function pem_rest :: "byte list \<Rightarrow> byte list" where
  "pem_rest bs = (if 48 \<le> length bs then pem_rest (drop 48 bs) else bs)"
  by pat_completeness auto
termination by (relation "measure length") auto

declare pem_lines.simps [simp del] pem_rest.simps [simp del]

definition pem_text :: "byte list \<Rightarrow> byte list" where
  "pem_text bs = pem_lines bs @ (if pem_rest bs = [] then [] else b64 (pem_rest bs) @ [0xa])"

lemma pem_short: "length bs < 48 \<Longrightarrow> pem_lines bs = [] \<and> pem_rest bs = bs"
  by (simp add: pem_lines.simps [of bs] pem_rest.simps [of bs])

lemma pem_step:
  "length l = 48 \<Longrightarrow> pem_lines (l @ bs) = b64 l @ 0xa # pem_lines bs \<and> pem_rest (l @ bs) = pem_rest bs"
  by (simp add: pem_lines.simps [of "l @ bs"] pem_rest.simps [of "l @ bs"])

lemma length_pem_rest: "length (pem_rest bs) < 48"
  by (induction bs rule: pem_rest.induct) (subst pem_rest.simps, simp)

lemma pem_append:
  "pem_lines (x @ y) = pem_lines x @ pem_lines (pem_rest x @ y) \<and> pem_rest (x @ y) = pem_rest (pem_rest x @ y)"
proof (induction x rule: pem_lines.induct)
  case (1 x)
  show ?case
  proof (cases "48 \<le> length x")
    case True
    obtain l r where x: "x = l @ r" "length l = 48"
      using True append_take_drop_id [of 48 x] by (metis length_take min.absorb2)
    then have "drop 48 x = r" by simp
    with 1 True have "pem_lines (r @ y) = pem_lines r @ pem_lines (pem_rest r @ y) \<and> pem_rest (r @ y) = pem_rest (pem_rest r @ y)"
      by simp
    then show ?thesis using pem_step [OF x(2)] by (simp add: x(1))
  qed (simp add: pem_short)
qed

lemma length_pem_lines: "length (pem_lines bs) = 65 * (length bs div 48)"
proof (induction bs rule: pem_lines.induct)
  case (1 bs)
  show ?case
  proof (cases "48 \<le> length bs")
    case True
    then have "length bs div 48 = Suc ((length bs - 48) div 48)" by (simp add: le_div_geq)
    with 1 True show ?thesis by (subst pem_lines.simps) (simp add: length_b64)
  qed (simp add: pem_short)
qed

lemma encode_line_eq: "n \<le> length src \<Longrightarrow> encode_line src n = (b64 (take n src) @ [0xa], length (b64 (take n src)))"
  using EVP_EncodeBlock_eq [of "take n src" "drop n src"] by (simp add: encode_line_def)

lemma encode_update_loop_eq:
  "tot + length (pem_lines bs) < 2 ^ 64 \<Longrightarrow>
     encode_update_loop bs (length bs) out tot =
       (False, out @ pem_lines bs, tot + length (pem_lines bs), pem_rest bs, length (pem_rest bs))"
proof (induction bs arbitrary: out tot rule: pem_lines.induct)
  case (1 bs)
  show ?case
  proof (cases "48 \<le> length bs")
    case True
    obtain l r where x: "bs = l @ r" "length l = 48"
      using True append_take_drop_id [of 48 bs] by (metis length_take min.absorb2)
    have b: "length (b64 l) = 64" by (simp add: length_b64 x(2))
    have p: "length (pem_lines bs) = 65 + length (pem_lines r)" using pem_step [OF x(2), of r] b by (simp add: x(1))
    have "size_add (size_add tot 64) 1 = tot + 65" using 1(2) p by (simp add: size_add_exact)
    moreover have "encode_line bs 48 = (b64 l @ [0xa], 64)" using encode_line_eq [OF True] b by (simp add: x)
    ultimately have "encode_update_loop bs (length bs) out tot =
        encode_update_loop (drop 48 bs) (length (drop 48 bs)) (out @ b64 l @ [0xa]) (tot + 65)"
      using True by (subst encode_update_loop.simps) simp
    also have "\<dots> = (False, (out @ b64 l @ [0xa]) @ pem_lines r, (tot + 65) + length (pem_lines r), pem_rest r, length (pem_rest r))"
      using 1(1) [OF True, of "tot + 65"] 1(2) p by (simp add: x)
    finally show ?thesis using pem_step [OF x(2), of r] p by (simp add: x(1))
  next
    case False
    then show ?thesis by (subst encode_update_loop.simps) (simp add: pem_short)
  qed
qed

text \<open>The context as the bytes that wait for a full line.\<close>

definition enc_inv :: "EVP_ENCODE_CTX \<Rightarrow> bool" where
  "enc_inv ctx \<longleftrightarrow> length (ctx_data ctx) = 48 \<and> data_used ctx < 48"

definition pending :: "EVP_ENCODE_CTX \<Rightarrow> byte list" where
  "pending ctx = take (data_used ctx) (ctx_data ctx)"

lemma length_pending [simp]: "enc_inv ctx \<Longrightarrow> length (pending ctx) = data_used ctx"
  by (simp add: enc_inv_def pending_def)

lemma ctx_store_at:
  "at + n \<le> length (ctx_data ctx) \<Longrightarrow> n \<le> length src \<Longrightarrow>
     ctx_store at src n ctx =
       (Ok (), ctx\<lparr>ctx_data := take at (ctx_data ctx) @ take n src @ drop (at + n) (ctx_data ctx)\<rparr>)"
  by (simp add: ctx_store_def OPENSSL_memcpy_def)

lemma EVP_EncodeUpdate_spec:
  assumes inv: "enc_inv ctx" and len: "length (pem_lines (pending ctx @ bs)) < 2 ^ 64"
  shows "\<exists>ctx'. EVP_EncodeUpdate bs (length bs) ctx =
      (Ok (pem_lines (pending ctx @ bs),
           if length (pem_lines (pending ctx @ bs)) > INT_MAX then 0 else length (pem_lines (pending ctx @ bs))), ctx') \<and>
    enc_inv ctx' \<and> pending ctx' = pem_rest (pending ctx @ bs)"
proof -
  have d: "length (ctx_data ctx) = 48" "data_used ctx < 48" using inv by (simp_all add: enc_inv_def)
  consider (none) "bs = []" | (short) "bs \<noteq> []" "data_used ctx + length bs < 48"
    | (long) "bs \<noteq> []" "48 \<le> data_used ctx + length bs" by linarith
  then show ?thesis
  proof cases
    case none
    then show ?thesis using inv pem_short [of "pending ctx"] d by (simp add: EVP_EncodeUpdate_def)
  next
    case short
    define ctx' where "ctx' = ctx\<lparr>ctx_data := take (data_used ctx) (ctx_data ctx) @ bs @ drop (data_used ctx + length bs) (ctx_data ctx),
      data_used := data_used ctx + length bs\<rparr>"
    have "EVP_EncodeUpdate bs (length bs) ctx = (Ok ([], 0), ctx')"
      using short d by (simp add: EVP_EncodeUpdate_def op_bind_apply op_then_apply ctx_store_at set_data_used_def ctx'_def less_diff_conv add.commute)
    moreover have "enc_inv ctx' \<and> pending ctx' = pending ctx @ bs"
      using short d by (simp add: enc_inv_def pending_def ctx'_def)
    ultimately show ?thesis using pem_short [of "pending ctx @ bs"] short inv by auto
  next
    case long
    define todo where "todo = (if data_used ctx = 0 then 0 else 48 - data_used ctx)"
    define line where "line = (if data_used ctx = 0 then [] else b64 (pending ctx @ take todo bs) @ [0xa])"
    define ctx1 where "ctx1 = (if data_used ctx = 0 then ctx else ctx\<lparr>ctx_data := pending ctx @ take todo bs, data_used := 0\<rparr>)"
    define r where "r = drop todo bs"
    have t: "todo \<le> length bs" using long by (auto simp: todo_def)
    have lines: "pem_lines (pending ctx @ bs) = line @ pem_lines r" "pem_rest (pending ctx @ bs) = pem_rest r"
    proof -
      have b: "pending ctx @ bs = (pending ctx @ take todo bs) @ r" by (simp add: r_def)
      show "pem_lines (pending ctx @ bs) = line @ pem_lines r" "pem_rest (pending ctx @ bs) = pem_rest r"
        using pem_step [of "pending ctx @ take todo bs" r] inv t d
        unfolding b by (auto simp: line_def todo_def r_def pending_def)
    qed
    have first: "op_bind op_get (\<lambda>ctx. op_then (op_assert (data_used ctx < 48)) (f ctx)) ctx = f ctx ctx" for f
      using d by (simp add: op_bind_apply op_then_apply)
    define part where "part = (if data_used ctx \<noteq> 0 then
             (let todo = 48 - data_used ctx
              in op_then (ctx_store (data_used ctx) bs todo)
                (op_bind op_get (\<lambda>ctx. case encode_line (ctx_data ctx) 48 of (line, encoded) \<Rightarrow>
                   op_then (set_data_used 0) (op_ret (drop todo bs, length bs - todo, line, encoded + 1)))))
           else op_ret (bs, length bs, [], 0))"
    have "part ctx = (Ok (r, length r, line, length line), ctx1)"
    proof (cases "data_used ctx = 0")
      case True
      then show ?thesis by (simp add: part_def r_def todo_def line_def ctx1_def)
    next
      case False
      have st: "ctx_store (data_used ctx) bs (48 - data_used ctx) ctx = (Ok (), ctx\<lparr>ctx_data := pending ctx @ take todo bs\<rparr>)"
        using False d t by (subst ctx_store_at) (simp_all add: todo_def pending_def)
      have "length (pending ctx @ take todo bs) = 48" using inv t False d by (simp add: todo_def)
      moreover have "encode_line xs 48 = (b64 xs @ [0xa], length (b64 xs))" if "length xs = 48" for xs
        using encode_line_eq [of 48 xs] that by simp
      ultimately have "encode_line (pending ctx @ take todo bs) 48 =
          (b64 (pending ctx @ take todo bs) @ [0xa], length (b64 (pending ctx @ take todo bs)))" by blast
      then show ?thesis using False
        by (simp add: part_def Let_def op_then_apply op_bind_apply st set_data_used_def line_def ctx1_def r_def todo_def)
    qed
    note before = this
    have loop: "encode_update_loop r (length r) line (length line) =
        (False, pem_lines (pending ctx @ bs), length (pem_lines (pending ctx @ bs)), pem_rest r, length (pem_rest r))"
      using encode_update_loop_eq [of "length line" r line] len by (simp add: lines)
    define ctx' where "ctx' = ctx1\<lparr>ctx_data := pem_rest r @ drop (length (pem_rest r)) (ctx_data ctx1), data_used := length (pem_rest r)\<rparr>"
    have d1: "length (ctx_data ctx1) = 48" using inv t d by (auto simp: ctx1_def todo_def min_def)
    have rl: "length (pem_rest r) < 48" by (rule length_pem_rest)
    have after: "op_then (if length (pem_rest r) \<noteq> 0 then ctx_store 0 (pem_rest r) (length (pem_rest r)) else op_ret ())
        (op_then (set_data_used (length (pem_rest r))) (op_ret x)) ctx1 = (Ok x, ctx')" for x :: "byte list \<times> nat"
      using d1 rl by (auto simp: op_then_apply ctx_store_at set_data_used_def ctx'_def)
    have "EVP_EncodeUpdate bs (length bs) ctx =
      (Ok (pem_lines (pending ctx @ bs),
           if length (pem_lines (pending ctx @ bs)) > INT_MAX then 0 else length (pem_lines (pending ctx @ bs))), ctx')"
    proof -
      have g: "(length bs = 0) = False" "(48 - data_used ctx > length bs) = False" using long by auto
      show ?thesis
        by (simp only: EVP_EncodeUpdate_def g if_False first part_def [symmetric] op_bind_step [of part, OF before] prod.case loop after)
    qed
    moreover have "enc_inv ctx'" "pending ctx' = pem_rest r"
      using d1 rl unfolding enc_inv_def pending_def [of ctx'] by (simp_all add: ctx'_def)
    ultimately show ?thesis using lines(2) by metis
  qed
qed

lemma EVP_EncodeFinal_spec:
  assumes "enc_inv ctx"
  shows "\<exists>ctx'. EVP_EncodeFinal ctx =
    (Ok (if pending ctx = [] then ([], 0) else (b64 (pending ctx) @ [0xa], length (b64 (pending ctx)) + 1)), ctx')"
proof -
  have d: "length (ctx_data ctx) = 48" "data_used ctx < 48" using assms by (simp_all add: enc_inv_def)
  have p: "pending ctx = [] \<longleftrightarrow> data_used ctx = 0" using d by (auto simp: pending_def)
  have l: "encode_line (ctx_data ctx) (data_used ctx) = (b64 (pending ctx) @ [0xa], length (b64 (pending ctx)))"
    using d by (simp add: encode_line_eq pending_def)
  have "length (b64 (pending ctx)) + 1 \<le> INT_MAX"
    using d assms by (simp add: length_b64 INT_MAX_def)
  then show ?thesis using p l by (auto simp: EVP_EncodeFinal_def op_bind_apply op_then_apply set_data_used_def)
qed

text \<open>A caller that encodes chunk after chunk and collects what the calls say they wrote.\<close>

fun encode_chunks :: "byte list list \<Rightarrow> (EVP_ENCODE_CTX, byte list) op" where
  "encode_chunks [] = op_bind EVP_EncodeFinal (\<lambda>(out, out_len). op_ret (take out_len out))"
| "encode_chunks (c # cs) =
     op_bind (EVP_EncodeUpdate c (length c)) (\<lambda>(out, out_len).
     op_bind (encode_chunks cs) (\<lambda>rest. op_ret (take out_len out @ rest)))"

lemma encode_chunks_spec:
  "enc_inv ctx \<Longrightarrow> list_all (\<lambda>c. length c < 2 ^ 30) cs \<Longrightarrow>
     fst (encode_chunks cs ctx) = Ok (pem_text (pending ctx @ concat cs))"
proof (induction cs arbitrary: ctx)
  case Nil
  then have "length (pending ctx) < 48" by (simp add: enc_inv_def)
  with EVP_EncodeFinal_spec [OF Nil(1)] pem_short show ?case
    by (auto simp: op_bind_apply pem_text_def)
next
  case (Cons c cs)
  have "length (pending ctx @ c) div 48 \<le> (2 ^ 30 + 47) div 48"
    using Cons.prems by (intro div_le_mono) (simp add: enc_inv_def)
  then have l: "length (pem_lines (pending ctx @ c)) \<le> INT_MAX" unfolding length_pem_lines INT_MAX_def by simp
  then obtain ctx' where c: "EVP_EncodeUpdate c (length c) ctx =
      (Ok (pem_lines (pending ctx @ c), length (pem_lines (pending ctx @ c))), ctx')"
    "enc_inv ctx'" "pending ctx' = pem_rest (pending ctx @ c)"
    using EVP_EncodeUpdate_spec [OF Cons.prems(1), of c] by (auto simp: INT_MAX_def split: if_splits)
  have "fst (encode_chunks cs ctx') = Ok (pem_text (pem_rest (pending ctx @ c) @ concat cs))"
    using Cons.IH [OF c(2)] Cons.prems by (simp add: c(3))
  then obtain ctx'' where "encode_chunks cs ctx' = (Ok (pem_text (pem_rest (pending ctx @ c) @ concat cs)), ctx'')"
    by (rule fst_Ok_obtain)
  moreover have "pem_text (pending ctx @ concat (c # cs)) =
      pem_lines (pending ctx @ c) @ pem_text (pem_rest (pending ctx @ c) @ concat cs)"
    using pem_append [of "pending ctx @ c" "concat cs"] by (simp add: pem_text_def)
  ultimately show ?case using c(1) by (simp add: op_bind_apply)
qed

section \<open>Streaming decoding\<close>

definition b64_space :: "byte \<Rightarrow> bool" where
  "b64_space c \<longleftrightarrow> c = 0x20 \<or> c = 0x9 \<or> c = 0xd \<or> c = 0xa"

text \<open>Decoding as far as whole groups go: the bytes, the characters left, and whether padding was seen.\<close>

fun quads_run :: "byte list \<Rightarrow> (byte list \<times> byte list \<times> bool) option" where
  "quads_run (c0 # c1 # c2 # c3 # t) =
     (case base64_decode_quad [c0, c1, c2, c3] of
        None \<Rightarrow> None
      | Some bytes \<Rightarrow>
          if length bytes < 3 then (if t = [] then Some (bytes, [], True) else None)
          else map_option (\<lambda>(out, left, eof). (bytes @ out, left, eof)) (quads_run t))"
| "quads_run t = Some ([], t, False)"

lemma quad_length: "base64_decode_quad [c0, c1, c2, c3] = Some bytes \<Longrightarrow> length bytes \<le> 3"
  using quad_sound [of c0 c1 c2 c3 "[]" bytes] length_quad_bytes by (force simp: digits_ok_def)

lemma dec_quads_run: "dec_quads t = Some out \<longleftrightarrow> (\<exists>eof. quads_run t = Some (out, [], eof))"
proof (induction t arbitrary: out rule: dec_quads.induct)
  case (1 c0 c1 c2 c3 t)
  show ?case
  proof (cases "base64_decode_quad [c0, c1, c2, c3]")
    case (Some bytes)
    show ?thesis
    proof (cases "length bytes < 3")
      case True
      then show ?thesis using Some by auto
    next
      case False
      then have "length bytes = 3" using quad_length [OF Some] by simp
      then show ?thesis using Some 1 [OF Some] by auto
    qed
  qed simp
qed auto

definition dec_inv :: "EVP_ENCODE_CTX \<Rightarrow> bool" where
  "dec_inv ctx \<longleftrightarrow> length (ctx_data ctx) = 48 \<and> data_used ctx < 4 \<and> (eof_seen ctx \<longrightarrow> data_used ctx = 0)"

lemma quads_run_short: "length t < 4 \<Longrightarrow> quads_run t = Some ([], t, False)"
  by (cases t rule: quads_run.cases) simp_all

lemma decode_update_eof:
  "eof_seen ctx \<Longrightarrow> \<exists>ctx'. decode_update_loop cs out ctx =
     (if filter (\<lambda>c. \<not> b64_space c) cs = [] then (Ok out, ctx) else (Err, ctx')) \<and> error_encountered ctx'"
proof (induction cs)
  case Nil
  then show ?case by (intro exI [of _ "ctx\<lparr>error_encountered := True\<rparr>"]) simp
next
  case (Cons c cs)
  then show ?case by (cases "b64_space c") (auto simp: b64_space_def)
qed

lemma decode_update_loop_spec:
  "dec_inv ctx \<Longrightarrow> \<not> eof_seen ctx \<Longrightarrow>
     (case quads_run (pending ctx @ filter (\<lambda>c. \<not> b64_space c) cs) of
        None \<Rightarrow> (\<exists>ctx'. decode_update_loop cs out ctx = (Err, ctx') \<and> error_encountered ctx')
      | Some (o', left, eof) \<Rightarrow>
          (\<exists>ctx'. decode_update_loop cs out ctx = (Ok (out @ o'), ctx') \<and> dec_inv ctx' \<and> pending ctx' = left \<and>
             eof_seen ctx' = eof \<and> error_encountered ctx' = error_encountered ctx))"
proof (induction cs arbitrary: ctx out)
  case Nil
  then have "length (pending ctx) < 4" by (simp add: dec_inv_def pending_def)
  with Nil show ?case by (simp add: quads_run_short)
next
  case (Cons c cs)
  have d: "length (ctx_data ctx) = 48" "data_used ctx < 4" using Cons.prems by (simp_all add: dec_inv_def)
  define t where "t = filter (\<lambda>c. \<not> b64_space c) cs"
  show ?case
  proof (cases "b64_space c")
    case True
    then have e: "decode_update_loop (c # cs) out ctx = decode_update_loop cs out ctx"
      by (simp add: b64_space_def)
    show ?thesis unfolding e using Cons.IH [OF Cons.prems, of out] True by simp
  next
    case False
    define ctx1 where "ctx1 = ctx\<lparr>ctx_data := (ctx_data ctx)[data_used ctx := c], data_used := data_used ctx + 1\<rparr>"
    have p1: "pending ctx1 = pending ctx @ [c]" "length (ctx_data ctx1) = 48"
      using d by (simp_all add: pending_def ctx1_def take_Suc_conv_app_nth)
    have tt: "pending ctx @ filter (\<lambda>c. \<not> b64_space c) (c # cs) = pending ctx1 @ t"
      using False by (simp add: p1 t_def)
    show ?thesis
    proof (cases "data_used ctx1 = 4")
      case ne: False
      have e: "decode_update_loop (c # cs) out ctx = decode_update_loop cs out ctx1"
        using False Cons.prems(2) d ne by (simp add: b64_space_def ctx1_def Let_def)
      have "dec_inv ctx1" "\<not> eof_seen ctx1"
        using ne d Cons.prems by (simp_all add: dec_inv_def ctx1_def)
      have err: "error_encountered ctx1 = error_encountered ctx" by (simp add: ctx1_def)
      show ?thesis using Cons.IH [OF \<open>dec_inv ctx1\<close> \<open>\<not> eof_seen ctx1\<close>, of out]
        unfolding tt t_def e err by simp
    next
      case True
      then have l4: "length (pending ctx1) = 4" using p1(2) by (simp add: pending_def)
      then obtain c0 c1 c2 c3 where q: "pending ctx1 = [c0, c1, c2, c3]"
        by (auto simp: eval_nat_numeral length_Suc_conv)
      have "ctx_data ctx1 = pending ctx1 @ drop 4 (ctx_data ctx1)" using True by (simp add: pending_def)
      then have quad: "base64_decode_quad (ctx_data ctx1) = base64_decode_quad [c0, c1, c2, c3]"
        using q quad_prefix [of c0 c1 c2 c3 "drop 4 (ctx_data ctx1)"] by (metis append_Cons append_Nil)
      have run: "decode_update_loop (c # cs) out ctx = (case base64_decode_quad [c0, c1, c2, c3] of
           None \<Rightarrow> (Err, ctx1\<lparr>error_encountered := True\<rparr>)
         | Some bytes \<Rightarrow> decode_update_loop cs (out @ bytes) (ctx1\<lparr>data_used := 0, eof_seen := eof_seen ctx1 \<or> length bytes < 3\<rparr>))"
        using False Cons.prems(2) d True unfolding quad [symmetric]
        by (cases "base64_decode_quad (ctx_data ctx1)") (simp_all add: b64_space_def ctx1_def Let_def)
      show ?thesis
      proof (cases "base64_decode_quad [c0, c1, c2, c3]")
        case None
        then show ?thesis unfolding tt q using run by (simp del: decode_update_loop.simps)
      next
        case (Some bytes)
        define ctx2 where "ctx2 = ctx1\<lparr>data_used := 0, eof_seen := eof_seen ctx1 \<or> length bytes < 3\<rparr>"
        have run2: "decode_update_loop (c # cs) out ctx = decode_update_loop cs (out @ bytes) ctx2"
          using run Some by (simp add: ctx2_def)
        have i2: "dec_inv ctx2" "pending ctx2 = []" "error_encountered ctx2 = error_encountered ctx"
          "eof_seen ctx2 \<longleftrightarrow> length bytes < 3"
          using p1(2) Cons.prems(2) by (simp_all add: dec_inv_def ctx2_def pending_def ctx1_def)
        show ?thesis
        proof (cases "length bytes < 3")
          case True
          then show ?thesis
            using decode_update_eof [of ctx2 cs "out @ bytes"] i2 Some
            unfolding tt q t_def run2 by (auto split: if_splits)
        next
          case ge: False
          then show ?thesis
            using Cons.IH [of ctx2 "out @ bytes"] i2 Some
            unfolding tt q t_def run2 by (auto split: option.splits)
        qed
      qed
    qed
  qed
qed


lemma quads_run_length: "quads_run t = Some (out, left, eof) \<Longrightarrow> 4 * length out + length left \<le> 3 * length t + length left"
proof (induction t arbitrary: out left eof rule: quads_run.induct)
  case (1 c0 c1 c2 c3 t)
  obtain bytes where b: "base64_decode_quad [c0, c1, c2, c3] = Some bytes"
    using 1(2) by (auto split: option.splits)
  show ?case
  proof (cases "length bytes < 3")
    case True
    then show ?thesis using 1(2) b by (auto split: if_splits)
  next
    case False
    then obtain o' where r: "quads_run t = Some (o', left, eof)" "out = bytes @ o'"
      using 1(2) b by auto
    show ?thesis using 1(1) [OF b False r(1)] quad_length [OF b] r(2) by simp
  qed
qed auto

definition run_from :: "byte list \<Rightarrow> byte list \<Rightarrow> bool \<Rightarrow> (byte list \<times> byte list \<times> bool) option" where
  "run_from left y eof = (if eof then (if y = [] then Some ([], [], True) else None) else quads_run (left @ y))"

lemma quads_run_append:
  "quads_run (x @ y) = (case quads_run x of None \<Rightarrow> None
     | Some (out, left, eof) \<Rightarrow> map_option (\<lambda>(o', r). (out @ o', r)) (run_from left y eof))"
proof (induction x rule: quads_run.induct)
  case (1 c0 c1 c2 c3 t)
  show ?case
  proof (cases "base64_decode_quad [c0, c1, c2, c3]")
    case (Some bytes)
    show ?thesis
    proof (cases "length bytes < 3")
      case False
      show ?thesis using 1 [OF Some False] Some False
        by (auto simp: option.map_comp split: option.splits intro!: option.map_cong)
    qed (simp add: Some run_from_def)
  qed simp
qed (simp_all add: run_from_def option.map_id case_prod_eta)

text \<open>A caller that decodes chunk after chunk, and the reading of the whole text.\<close>

fun decode_chunks :: "byte list list \<Rightarrow> (EVP_ENCODE_CTX, byte list) op" where
  "decode_chunks [] = op_then EVP_DecodeFinal (op_ret [])"
| "decode_chunks (c # cs) =
     op_bind (EVP_DecodeUpdate c) (\<lambda>(r, out).
     op_bind (decode_chunks cs) (\<lambda>rest. op_ret (out @ rest)))"

definition run_result :: "(byte list \<times> byte list \<times> bool) option \<Rightarrow> byte list result" where
  "run_result r = (case r of Some (out, [], eof) \<Rightarrow> Ok out | _ \<Rightarrow> Err)"

lemma decode_update_loop_run:
  assumes "dec_inv ctx"
  shows "case run_from (pending ctx) (filter (\<lambda>c. \<not> b64_space c) cs) (eof_seen ctx) of
      None \<Rightarrow> (\<exists>ctx'. decode_update_loop cs out ctx = (Err, ctx'))
    | Some (o', left, eof) \<Rightarrow> (\<exists>ctx'. decode_update_loop cs out ctx = (Ok (out @ o'), ctx') \<and> dec_inv ctx' \<and>
        pending ctx' = left \<and> eof_seen ctx' = eof \<and> error_encountered ctx' = error_encountered ctx)"
proof (cases "eof_seen ctx")
  case False
  show ?thesis using decode_update_loop_spec [OF assms False, of cs out] False
    by (auto simp: run_from_def split: option.splits)
next
  case True
  have "pending ctx = []" using assms True by (simp add: dec_inv_def pending_def)
  then show ?thesis using decode_update_eof [OF True, of cs out] assms True
    by (auto simp: run_from_def)
qed

lemma run_from_length:
  "run_from left y eof = Some (out, left', eof') \<Longrightarrow> 4 * length out \<le> 3 * (length left + length y)"
  using quads_run_length [of "left @ y" out left' eof'] by (auto simp: run_from_def split: if_splits)

lemma run_from_append:
  "run_from left (x @ y) eof = (case run_from left x eof of None \<Rightarrow> None
     | Some (out, left, eof) \<Rightarrow> map_option (\<lambda>(o', r). (out @ o', r)) (run_from left y eof))"
  using quads_run_append [of "left @ x" y] by (auto simp: run_from_def)

lemma EVP_DecodeUpdate_run:
  assumes "dec_inv ctx" "\<not> error_encountered ctx" "length c < 2 ^ 31"
  shows "case run_from (pending ctx) (filter (\<lambda>c. \<not> b64_space c) c) (eof_seen ctx) of
      None \<Rightarrow> (\<exists>ctx'. EVP_DecodeUpdate c ctx = (Err, ctx'))
    | Some (out, left, eof) \<Rightarrow> (\<exists>ctx'. EVP_DecodeUpdate c ctx = (Ok (if eof then 0 else 1, out), ctx') \<and> dec_inv ctx' \<and>
        pending ctx' = left \<and> eof_seen ctx' = eof \<and> \<not> error_encountered ctx')"
proof (cases "run_from (pending ctx) (filter (\<lambda>c. \<not> b64_space c) c) (eof_seen ctx)")
  case None
  then show ?thesis using decode_update_loop_run [OF assms(1), of c "[]"] assms(2)
    by (auto simp: EVP_DecodeUpdate_def op_bind_apply op_then_apply)
next
  case (Some r)
  obtain out left eof where r: "r = (out, left, eof)" by (cases r)
  have "4 * length out \<le> 3 * (length (pending ctx) + length c)"
    by (rule order_trans [OF run_from_length [OF Some [unfolded r]]]) (simp add: length_filter_le)
  moreover have "length (pending ctx) < 4" using assms(1) by (simp add: dec_inv_def pending_def)
  ultimately have "length out \<le> INT_MAX" using assms(3) by (simp add: INT_MAX_def)
  then show ?thesis using decode_update_loop_run [OF assms(1), of c "[]"] assms(2)
    unfolding Some r by (auto simp: EVP_DecodeUpdate_def op_bind_apply op_then_apply)
qed

lemma decode_chunks_run:
  "dec_inv ctx \<Longrightarrow> \<not> error_encountered ctx \<Longrightarrow> list_all (\<lambda>c. length c < 2 ^ 31) cs \<Longrightarrow>
     fst (decode_chunks cs ctx) =
       run_result (run_from (pending ctx) (filter (\<lambda>c. \<not> b64_space c) (concat cs)) (eof_seen ctx))"
proof (induction cs arbitrary: ctx)
  case Nil
  then have p: "length (pending ctx) < 4" "pending ctx = [] \<longleftrightarrow> data_used ctx = 0" "eof_seen ctx \<longrightarrow> data_used ctx = 0"
    by (auto simp: dec_inv_def pending_def)
  then show ?case using Nil(2)
    by (auto simp: EVP_DecodeFinal_def op_bind_apply op_then_apply op_require_def run_result_def run_from_def
          quads_run_short split: list.splits)
next
  case (Cons c cs)
  let ?f = "filter (\<lambda>c. \<not> b64_space c)"
  show ?case
  proof (cases "run_from (pending ctx) (?f c) (eof_seen ctx)")
    case None
    then obtain ctx' where "EVP_DecodeUpdate c ctx = (Err, ctx')"
      using EVP_DecodeUpdate_run [OF Cons.prems(1,2), of c] Cons.prems(3) by auto
    then show ?thesis by (simp add: op_bind_apply run_from_append None run_result_def)
  next
    case (Some r)
    obtain out left eof where r: "r = (out, left, eof)" by (cases r)
    obtain ctx' where u: "EVP_DecodeUpdate c ctx = (Ok (if eof then 0 else 1, out), ctx')" "dec_inv ctx'"
      "pending ctx' = left" "eof_seen ctx' = eof" "\<not> error_encountered ctx'"
      using EVP_DecodeUpdate_run [OF Cons.prems(1,2), of c] Cons.prems(3) unfolding Some r by auto
    obtain res ctx'' where d: "decode_chunks cs ctx' = (res, ctx'')" by (cases "decode_chunks cs ctx'")
    have "res = run_result (run_from left (?f (concat cs)) eof)"
      using Cons.IH [OF u(2,5)] Cons.prems(3) d u(3,4) by simp
    then show ?thesis using u(1) d
      by (auto simp: op_bind_apply run_from_append Some r run_result_def split: option.splits list.splits)
  qed
qed

section \<open>The properties\<close>

lemma EVP_EncodedLength_eq:
  assumes "len < 2 ^ 64"
  shows "EVP_EncodedLength len =
    (if 4 * ((len + 2) div 3) + 1 < 2 ^ 64 then Some (4 * ((len + 2) div 3) + 1) else None)"
proof (cases "len + 2 < 2 ^ 64")
  case True
  define n where "n = (len + 2) div 3"
  have add: "size_add len 2 = len + 2" using True by (simp add: size_add_exact)
  have n: "n < 2 ^ 63" using True unfolding n_def by simp
  show ?thesis
  proof (cases "n * 4 < 2 ^ 64")
    case True
    then have "size_mul n 4 = n * 4" "n * 4 + 1 < 2 ^ 64" by (simp_all add: size_mul_def)
    then show ?thesis unfolding EVP_EncodedLength_def add Let_def n_def [symmetric]
      by (simp add: size_add_exact)
  next
    case False
    have "n * 4 mod 2 ^ 64 < 2 ^ 64" by simp
    then have "n * 4 mod 2 ^ 64 div 4 < n" using False by (intro less_mult_imp_div_less) simp
    then have "size_mul n 4 div 4 \<noteq> n" by (simp add: size_mul_def)
    then show ?thesis using False unfolding EVP_EncodedLength_def add Let_def n_def [symmetric] by simp
  qed
next
  case False
  have "size_add len 2 < len" using False assms by (subst size_add_less_iff) simp_all
  moreover have "2 ^ 64 \<le> 4 * ((len + 2) div 3)" using False by simp
  ultimately show ?thesis by (simp add: EVP_EncodedLength_def)
qed

lemma trim_front_eq: "trim_front src = dropWhile (\<lambda>c. c = 0x20 \<or> c = 0x9) src"
  by (induction src) auto

lemma trim_back_eq: "n \<le> length src \<Longrightarrow> take (trim_back src n) src = rev (dropWhile b64_space (rev (take n src)))"
  by (induction n) (auto simp: take_Suc_conv_app_nth b64_space_def)

lemma trim_back_le: "trim_back src n \<le> n"
  by (induction n) auto

lemma pad_to_three_eq: "pad_to_three dst = dst @ replicate ((3 - length dst mod 3) mod 3) 0"
proof -
  have s: "pad_to_three d = (if length d mod 3 \<noteq> 0 then pad_to_three (d @ [0]) else d)" for d
    by (rule pad_to_three.simps)
  consider "length dst mod 3 = 0" | "length dst mod 3 = 1" | "length dst mod 3 = 2" by fastforce
  then show ?thesis
  proof cases
    case 2
    then have "pad_to_three dst = pad_to_three (dst @ [0, 0])"
      by (simp add: s [of dst] s [of "dst @ [0]"] mod_Suc)
    then show ?thesis using 2 by (simp add: s [of "dst @ [0, 0]"] mod_Suc numeral_2_eq_2)
  qed (simp_all add: s [of dst] s [of "dst @ [0]"] mod_Suc)
qed


definition trimmed :: "byte list \<Rightarrow> byte list" where
  "trimmed src = rev (dropWhile b64_space (rev (dropWhile (\<lambda>c. c = 0x20 \<or> c = 0x9) src)))"

lemma EVP_DecodeBlock_eq:
  "EVP_DecodeBlock src = (let t = trimmed src in
     if length t mod 4 \<noteq> 0 \<or> length t div 4 * 3 > INT_MAX then None
     else map_option (\<lambda>dst. dst @ replicate ((3 - length dst mod 3) mod 3) 0) (dec_quads t))"
proof -
  define s where "s = trim_front src"
  define n where "n = trim_back s (length s)"
  have n: "n \<le> length s" by (simp add: n_def trim_back_le)
  have t: "take n s = trimmed src"
    using trim_back_eq [of "length s" s] by (simp add: n_def s_def trimmed_def trim_front_eq)
  have l: "length (trimmed src) = n" using n by (simp flip: t)
  have "EVP_DecodeBase64 m s n = (if n mod 4 \<noteq> 0 \<or> m < n div 4 * 3 then None else dec_quads (trimmed src))" for m
    using EVP_DecodeBase64_eq [of m "trimmed src" "drop n s"] by (simp add: l) (simp flip: t)
  then show ?thesis
    by (simp add: EVP_DecodeBlock_def s_def [symmetric] n_def [symmetric] EVP_DecodedLength_def l pad_to_three_eq Let_def
          split: option.split)
qed

lemma dec_quads_b64: "dec_quads (b64 bs) = Some bs"
  using dec_quads_complete [OF b64_digits_groups, of bs] by (simp only: b64_digits_text b64_digits_bytes)

lemma trimmed_spaces:
  assumes "list_all (\<lambda>c. c = 0x20 \<or> c = 0x9) pre" "list_all b64_space suf" "t = [] \<or> \<not> b64_space (hd t) \<and> \<not> b64_space (last t)"
  shows "trimmed (pre @ t @ suf) = t"
proof (cases "t = []")
  case True
  have "list_all b64_space (dropWhile (\<lambda>c. c = 0x20 \<or> c = 0x9) (pre @ suf))"
    using assms(1,2) by (auto simp: list_all_iff b64_space_def dest: set_dropWhileD)
  then show ?thesis by (simp add: trimmed_def True list_all_iff)
next
  case False
  then obtain a u where t: "t = a # u" by (cases t) auto
  have "dropWhile (\<lambda>c. c = 0x20 \<or> c = 0x9) (pre @ t @ suf) = t @ suf"
    using assms(1,3) by (subst dropWhile_append2) (auto simp: list_all_iff t b64_space_def)
  moreover have "dropWhile b64_space (rev (t @ suf)) = rev t"
    unfolding rev_append using assms(2,3) False
    by (subst dropWhile_append2) (auto simp: list_all_iff dropWhile_eq_self_iff hd_rev)
  ultimately show ?thesis by (simp add: trimmed_def)
qed

lemma b64_no_space: "list_all (\<lambda>c. \<not> b64_space c) (b64 bs)"
proof (induction bs rule: b64.induct)
  have c: "\<not> b64_space (b64_char n)" if "n < 64" for n
    using b64_read_char [OF that] that by (auto simp: b64_space_def b64_read_def)
  have p: "\<not> b64_space 0x3d" by (simp add: b64_space_def)
  { case 2 then show ?case by (simp add: sextets_def c p del: be_val.simps) }
  { case 3 then show ?case by (simp add: sextets_def c p del: be_val.simps) }
  { case 4 then show ?case by (simp add: sextets_def c p del: be_val.simps) }
qed simp


lemma b64_append: "length x mod 3 = 0 \<Longrightarrow> b64 (x @ y) = b64 x @ b64 y"
proof (induction x rule: b64.induct)
  case (4 a b c bs)
  have "length bs mod 3 = 0" using 4(2) by (simp add: mod_Suc split: if_splits)
  then show ?case using 4(1) by (simp del: be_val.simps)
qed simp_all

lemma filter_b64: "filter (\<lambda>c. \<not> b64_space c) (b64 bs) = b64 bs"
  using b64_no_space [of bs] by (simp add: filter_id_conv list_all_iff)

lemma space_newline [simp]: "b64_space 0xa"
  by (simp add: b64_space_def)

lemma filter_pem_text: "filter (\<lambda>c. \<not> b64_space c) (pem_text bs) = b64 bs"
proof (induction bs rule: pem_lines.induct)
  case (1 bs)
  show ?case
  proof (cases "48 \<le> length bs")
    case True
    obtain l r where x: "bs = l @ r" "length l = 48"
      using True append_take_drop_id [of 48 bs] by (metis length_take min.absorb2)
    then have d: "drop 48 bs = r" by simp
    have "pem_text bs = b64 l @ 0xa # pem_text r" using pem_step [OF x(2), of r] by (simp add: pem_text_def x(1))
    then show ?thesis using 1 [OF True] x(2) b64_append [of l r] by (simp add: filter_b64 d) (simp add: x(1))
  next
    case False
    then show ?thesis by (simp add: pem_text_def pem_short filter_b64)
  qed
qed

lemma pending_init [simp]: "enc_inv EVP_EncodeInit" "pending EVP_EncodeInit = []" "dec_inv EVP_DecodeInit"
  "pending EVP_DecodeInit = []" "\<not> eof_seen EVP_DecodeInit" "\<not> error_encountered EVP_DecodeInit"
  by (simp_all add: enc_inv_def dec_inv_def pending_def EVP_EncodeInit_def EVP_DecodeInit_def)

lemma decode_chunks_whole:
  assumes "list_all (\<lambda>c. length c < 2 ^ 31) cs"
  shows "fst (decode_chunks cs EVP_DecodeInit) =
    (case dec_quads (filter (\<lambda>c. \<not> b64_space c) (concat cs)) of None \<Rightarrow> Err | Some out \<Rightarrow> Ok out)"
proof -
  let ?t = "filter (\<lambda>c. \<not> b64_space c) (concat cs)"
  have "fst (decode_chunks cs EVP_DecodeInit) = run_result (quads_run ?t)"
    using decode_chunks_run [OF pending_init(3,6) assms] by (simp only: pending_init run_from_def if_False append_Nil)
  then show ?thesis using dec_quads_run [of ?t]
    by (cases "dec_quads ?t") (auto simp: run_result_def split: option.splits list.splits)
qed

lemmas b64_eval = sextets_def b64_char_def b64_alphabet_def

text \<open>
  \<open>EVP_EncodeBlock\<close> writes the standard Base64 text of its input (groups of six bits
  through the alphabet, one or two padding characters at the end), then a null byte, and returns the
  length of the text; \<open>EVP_EncodedLength\<close> is exactly the number of bytes stored,
  and fails exactly when this number is no \<open>size_t\<close>.
\<close>

theorem encode_block_text:
  assumes "length bs < 2 ^ 64"
  shows "EVP_EncodeBlock (bs @ rest) (length bs) = (b64 bs @ [0], length (b64 bs)) \<and>
    EVP_EncodedLength (length bs) = (if length (b64 bs @ [0]) < 2 ^ 64 then Some (length (b64 bs @ [0])) else None) \<and>
    concat (map b64_quad (b64_digits bs)) = b64 bs"
  using EVP_EncodedLength_eq [OF assms] by (simp add: EVP_EncodeBlock_eq length_b64 b64_digits_text)

theorem encode_block_text_witness:
  "EVP_EncodeBlock [0x4d, 0x61, 0x6e, 0x21] (length [0x4d, 0x61, 0x6e, 0x21 :: byte]) =
     ([0x54, 0x57, 0x46, 0x75, 0x49, 0x51, 0x3d, 0x3d, 0], length [0x54, 0x57, 0x46, 0x75, 0x49, 0x51, 0x3d, 0x3d :: byte])"
proof -
  define bs :: "byte list" where "bs = [0x4d, 0x61, 0x6e, 0x21]"
  have b: "b64 bs = [0x54, 0x57, 0x46, 0x75, 0x49, 0x51, 0x3d, 0x3d]" by (simp add: bs_def b64_eval)
  have "length bs < 2 ^ 64" by (simp add: bs_def)
  from encode_block_text [OF this, of "[]"]
  have "EVP_EncodeBlock bs (length bs) =
      ([0x54, 0x57, 0x46, 0x75, 0x49, 0x51, 0x3d, 0x3d, 0], length [0x54, 0x57, 0x46, 0x75, 0x49, 0x51, 0x3d, 0x3d :: byte])"
    unfolding b append_Nil2 by simp
  then show ?thesis unfolding bs_def .
qed

lemma dec_quads_length: "dec_quads t = Some out \<Longrightarrow> length t mod 4 = 0"
  by (induction t arbitrary: out rule: dec_quads.induct) (auto split: option.splits if_splits)

text \<open>
  \<open>EVP_DecodeBase64\<close> succeeds exactly on the texts made of full groups, where
  only the last group may be padded, when the room given is enough, and then yields the bytes the
  digits stand for; bits under the padding are ignored.
\<close>

theorem decode_accepts:
  "EVP_DecodeBase64 max_out (t @ rest) (length t) = Some out \<longleftrightarrow>
     length t div 4 * 3 \<le> max_out \<and>
     (\<exists>qs. b64_groups qs \<and> t = concat (map b64_quad qs) \<and> out = concat (map quad_bytes qs))"
proof -
  have len: "length (concat (map b64_quad qs)) mod 4 = 0" if "b64_groups qs" for qs
    using that by (induction qs) (auto simp: b64_groups_Cons length_b64_quad)
  have "EVP_DecodeBase64 max_out (t @ rest) (length t) = Some out \<longleftrightarrow>
      length t mod 4 = 0 \<and> length t div 4 * 3 \<le> max_out \<and> dec_quads t = Some out"
    by (auto simp: EVP_DecodeBase64_eq)
  then show ?thesis using dec_quads_sound [of t out] dec_quads_complete len by metis
qed

text \<open>
  C37. Every byte string encoded by \<open>EVP_EncodeBlock\<close> comes back from
  \<open>EVP_DecodeBase64\<close>, and from \<open>EVP_DecodeBlock\<close> with blanks around the text, in
  which case null bytes pad the result to a multiple of three.
\<close>

theorem base64_roundtrip:
  assumes "EVP_EncodeBlock bs (length bs) = (t @ [0], n)" and "length bs + 2 \<le> max_out" "length bs + 2 \<le> INT_MAX"
    and "list_all (\<lambda>c. c = 0x20 \<or> c = 0x9) pre" and "list_all b64_space suf"
  shows "EVP_DecodeBase64 max_out (t @ [0]) n = Some bs \<and>
    EVP_DecodeBlock (pre @ t @ suf) = Some (bs @ replicate ((3 - length bs mod 3) mod 3) 0)"
proof -
  have t: "t = b64 bs" "n = length t" using assms(1) EVP_EncodeBlock_eq [of bs "[]"] by simp_all
  have l: "length t mod 4 = 0" "length t div 4 * 3 \<le> length bs + 2" by (simp_all add: t(1) length_b64)
  have "t = [] \<or> \<not> b64_space (hd t) \<and> \<not> b64_space (last t)"
    using b64_no_space [of bs] by (auto simp: t(1) list_all_iff)
  then have "trimmed (pre @ t @ suf) = t" by (rule trimmed_spaces [OF assms(4,5)])
  then show ?thesis using l assms(2,3)
    by (simp add: EVP_DecodeBase64_eq EVP_DecodeBlock_eq t(2) dec_quads_b64) (simp add: t(1) dec_quads_b64)
qed

theorem base64_roundtrip_witness:
  "EVP_DecodeBlock [0x20, 0x54, 0x51, 0x3d, 0x3d, 0xa] = Some [0x4d, 0, 0]"
proof -
  have "EVP_EncodeBlock [0x4d] (length [0x4d :: byte]) = ([0x54, 0x51, 0x3d, 0x3d] @ [0], 4)"
    using EVP_EncodeBlock_eq [of "[0x4d]" "[]"] by (simp add: b64_eval)
  from base64_roundtrip [OF this, of 100 "[0x20]" "[0xa]"] show ?thesis
    by (simp add: INT_MAX_def b64_space_def numeral_2_eq_2)
qed

text \<open>
  Streaming encoding does not depend on how the input is cut: any sequence of
  \<open>EVP_EncodeUpdate\<close> calls on chunks below \<open>2 ^ 30\<close> bytes followed by
  \<open>EVP_EncodeFinal\<close> writes the lines of 64 characters of the whole input.
\<close>

theorem stream_encoding:
  assumes "list_all (\<lambda>c. length c < 2 ^ 30) cs"
  shows "fst (encode_chunks cs EVP_EncodeInit) = Ok (pem_text (concat cs))"
  using encode_chunks_spec [OF pending_init(1) assms] by simp

theorem stream_encoding_witness:
  "fst (encode_chunks [[0x4d], [], [0x61, 0x6e]] EVP_EncodeInit) = Ok [0x54, 0x57, 0x46, 0x75, 0xa]"
proof -
  have "pem_text (concat [[0x4d], [], [0x61, 0x6e]]) = [0x54, 0x57, 0x46, 0x75, 0xa]"
    by (simp add: pem_text_def pem_short b64_eval)
  then show ?thesis using stream_encoding [of "[[0x4d], [], [0x61, 0x6e]]"] by simp
qed

text \<open>
  C28. Streaming decoding accepts a text exactly when the text without its white space is
  accepted as a whole, whatever the chunks of \<open>EVP_DecodeUpdate\<close>, and so gives back
  the bytes of a streamed encoding that is cut anew: the two streams are inverse.
\<close>

theorem stream_decoding:
  assumes "list_all (\<lambda>c. length c < 2 ^ 31) ds" and "t = filter (\<lambda>c. \<not> b64_space c) (concat ds)"
  shows "fst (decode_chunks ds EVP_DecodeInit) =
      (case EVP_DecodeBase64 (length t) t (length t) of None \<Rightarrow> Err | Some out \<Rightarrow> Ok out) \<and>
    (concat ds = pem_text bs \<longrightarrow> fst (decode_chunks ds EVP_DecodeInit) = Ok bs)"
proof -
  have "EVP_DecodeBase64 (length t) t (length t) = dec_quads t"
    using EVP_DecodeBase64_eq [of "length t" t "[]"] dec_quads_length [of t] by (cases "dec_quads t") auto
  then show ?thesis unfolding decode_chunks_whole [OF assms(1)] assms(2)
    by (simp add: filter_pem_text dec_quads_b64)
qed

theorem stream_decoding_witness:
  "fst (decode_chunks [[0x54, 0x57], [0x46, 0x75, 0xa]] EVP_DecodeInit) = Ok [0x4d, 0x61, 0x6e]"
proof -
  have c: "list_all (\<lambda>c. length c < 2 ^ 31) [[0x54, 0x57], [0x46, 0x75, 0xa :: byte]]" by simp
  have "concat [[0x54, 0x57], [0x46, 0x75, 0xa]] = pem_text [0x4d, 0x61, 0x6e]"
    by (simp add: pem_text_def pem_short b64_eval)
  then show ?thesis by (rule mp [OF conjunct2 [OF stream_decoding [OF c refl]]])
qed

end
