(* ===== verification/Stack.thy ===== *)
theory Stack
  imports C_Mem
begin

text \<open>
  The stack of pointers of crypto/stack/stack.c. A pointer is its address, 0 is \<open>NULL\<close>;
  a stack handle is \<open>None\<close> for \<open>NULL\<close>. The type-erased functions of the caller
  (compare, copy, free, delete) are parameters, as they are arguments of the code; those with
  side effects work on a world of the caller's own. \<open>Abort\<close> is a failing \<open>assert\<close>.
\<close>

type_synonym ptr = u64

text \<open>Blocks of pointers; the request is in bytes, eight for a pointer.\<close>

type_synonym ptr_allocator = "nat \<Rightarrow> ptr list option"

definition ptr_alloc_ok :: "ptr_allocator \<Rightarrow> bool" where
  "ptr_alloc_ok mem \<longleftrightarrow> (\<forall>n ps. mem n = Some ps \<longrightarrow> length ps = n div 8)"

record OPENSSL_STACK =
  st_num :: nat
  st_data :: "ptr list"
  st_sorted :: bool
  st_num_alloc :: nat
  st_comp :: u64

definition kMinSize :: nat where
  "kMinSize = 4"

definition PTRDIFF_MAX :: nat where
  "PTRDIFF_MAX = 2 ^ 63 - 1"

section \<open>Making a stack, and reading it\<close>

text \<open>\<open>struct_ok\<close> tells whether the structure itself can be allocated.\<close>

definition OPENSSL_calloc_ptrs :: "ptr_allocator \<Rightarrow> nat \<Rightarrow> ptr list option" where
  "OPENSSL_calloc_ptrs mem n =
     (if n > (2 ^ 64 - 1) div 8 then None
      else map_option (map (\<lambda>_. 0)) (mem (n * 8)))"

definition OPENSSL_sk_new :: "bool \<Rightarrow> ptr_allocator \<Rightarrow> u64 \<Rightarrow> OPENSSL_STACK option" where
  "OPENSSL_sk_new struct_ok mem cmp_fn =
     (if \<not> struct_ok then None
      else case OPENSSL_calloc_ptrs mem kMinSize of
        None \<Rightarrow> None
      | Some data \<Rightarrow>
          Some \<lparr>st_num = 0, st_data = data, st_sorted = False, st_num_alloc = kMinSize, st_comp = cmp_fn\<rparr>)"

definition OPENSSL_sk_new_null :: "bool \<Rightarrow> ptr_allocator \<Rightarrow> OPENSSL_STACK option" where
  "OPENSSL_sk_new_null struct_ok mem = OPENSSL_sk_new struct_ok mem 0"

definition OPENSSL_sk_num :: "OPENSSL_STACK option \<Rightarrow> nat" where
  "OPENSSL_sk_num sk = (case sk of None \<Rightarrow> 0 | Some s \<Rightarrow> st_num s)"

definition OPENSSL_sk_zero :: "OPENSSL_STACK option \<Rightarrow> OPENSSL_STACK option" where
  "OPENSSL_sk_zero sk =
     (case sk of
        None \<Rightarrow> None
      | Some s \<Rightarrow>
          if st_num s = 0 then Some s
          else Some (s\<lparr>st_data := replicate (st_num s) 0 @ drop (st_num s) (st_data s),
                       st_num := 0, st_sorted := False\<rparr>))"

definition OPENSSL_sk_value :: "OPENSSL_STACK option \<Rightarrow> nat \<Rightarrow> ptr" where
  "OPENSSL_sk_value sk i =
     (case sk of
        None \<Rightarrow> 0
      | Some s \<Rightarrow> if i \<ge> st_num s then 0 else st_data s ! i)"

definition OPENSSL_sk_set :: "OPENSSL_STACK option \<Rightarrow> nat \<Rightarrow> ptr \<Rightarrow> ptr \<times> OPENSSL_STACK option" where
  "OPENSSL_sk_set sk i value =
     (case sk of
        None \<Rightarrow> (0, None)
      | Some s \<Rightarrow>
          if i \<ge> st_num s then (0, Some s)
          else (value, Some (s\<lparr>st_data := (st_data s)[i := value]\<rparr>)))"

definition OPENSSL_sk_is_sorted :: "OPENSSL_STACK option \<Rightarrow> bool" where
  "OPENSSL_sk_is_sorted sk =
     (case sk of
        None \<Rightarrow> True
      | Some s \<Rightarrow> st_sorted s \<or> (st_comp s \<noteq> 0 \<and> st_num s < 2))"

definition OPENSSL_sk_set_cmp_func :: "OPENSSL_STACK \<Rightarrow> u64 \<Rightarrow> u64 \<times> OPENSSL_STACK" where
  "OPENSSL_sk_set_cmp_func sk cmp_fn =
     (let old = st_comp sk;
          sk = (if st_comp sk \<noteq> cmp_fn then sk\<lparr>st_sorted := False\<rparr> else sk)
      in (old, sk\<lparr>st_comp := cmp_fn\<rparr>))"

text \<open>The elements are freed in order, null pointers are passed over; the stack is gone.\<close>

fun pop_free_loop :: "(ptr \<Rightarrow> 'w \<Rightarrow> 'w) \<Rightarrow> ptr list \<Rightarrow> 'w \<Rightarrow> 'w" where
  "pop_free_loop free [] w = w"
| "pop_free_loop free (p # ps) w = pop_free_loop free ps (if p \<noteq> 0 then free p w else w)"

definition OPENSSL_sk_pop_free_ex :: "OPENSSL_STACK option \<Rightarrow> (ptr \<Rightarrow> 'w \<Rightarrow> 'w) \<Rightarrow> 'w \<Rightarrow> 'w" where
  "OPENSSL_sk_pop_free_ex sk free w =
     (case sk of
        None \<Rightarrow> w
      | Some s \<Rightarrow> pop_free_loop free (take (st_num s) (st_data s)) w)"

section \<open>Inserting and deleting\<close>

definition OPENSSL_realloc_ptrs :: "ptr_allocator \<Rightarrow> ptr list \<Rightarrow> nat \<Rightarrow> ptr list option" where
  "OPENSSL_realloc_ptrs mem old n =
     (case mem n of
        None \<Rightarrow> None
      | Some fresh \<Rightarrow> Some (take (n div 8) old @ drop (length (take (n div 8) old)) fresh))"

text \<open>Moving pointers within the block; \<open>None\<close> is an access outside it.\<close>

definition OPENSSL_memmove_ptrs :: "ptr list \<Rightarrow> nat \<Rightarrow> nat \<Rightarrow> nat \<Rightarrow> ptr list option" where
  "OPENSSL_memmove_ptrs block dst src n =
     (if n = 0 then Some block
      else if dst + n > length block \<or> src + n > length block then None
      else Some (take dst block @ take n (drop src block) @ drop (dst + n) block))"

definition sk_grow :: "ptr_allocator \<Rightarrow> OPENSSL_STACK \<Rightarrow> OPENSSL_STACK option" where
  "sk_grow mem s =
     (if st_num_alloc s \<le> size_add (st_num s) 1 then
        (let new_alloc = size_mul (st_num_alloc s) 2;
             alloc_size = size_mul new_alloc 8;
             overflowed = new_alloc < st_num_alloc s \<or> alloc_size div 8 \<noteq> new_alloc;
             new_alloc = (if overflowed then size_add (st_num_alloc s) 1 else new_alloc);
             alloc_size = (if overflowed then size_mul new_alloc 8 else alloc_size)
         in if new_alloc < st_num_alloc s \<or> alloc_size div 8 \<noteq> new_alloc then None
            else case OPENSSL_realloc_ptrs mem (st_data s) alloc_size of
              None \<Rightarrow> None
            | Some data \<Rightarrow> Some (s\<lparr>st_data := data, st_num_alloc := new_alloc\<rparr>))
      else Some s)"

definition OPENSSL_sk_insert ::
    "ptr_allocator \<Rightarrow> ptr \<Rightarrow> nat \<Rightarrow> OPENSSL_STACK option \<Rightarrow> nat result \<times> OPENSSL_STACK option" where
  "OPENSSL_sk_insert mem p at sk =
     (case sk of
        None \<Rightarrow> (Ok 0, None)
      | Some s \<Rightarrow>
          if st_num s \<ge> INT_MAX then (Ok 0, Some s)
          else case sk_grow mem s of
            None \<Rightarrow> (Ok 0, Some s)
          | Some s \<Rightarrow>
              if st_num s \<ge> length (st_data s) then (Abort, Some s)
              else case (if at \<ge> st_num s then Some ((st_data s)[st_num s := p])
                         else map_option (\<lambda>d. d[at := p])
                                (OPENSSL_memmove_ptrs (st_data s) (at + 1) at (st_num s - at))) of
                None \<Rightarrow> (Abort, Some s)
              | Some data \<Rightarrow>
                  (Ok (st_num s + 1), Some (s\<lparr>st_data := data, st_num := st_num s + 1, st_sorted := False\<rparr>)))"

text \<open>Unlike the other functions this one reads the length through a null pointer.\<close>

definition OPENSSL_sk_push ::
    "ptr_allocator \<Rightarrow> ptr \<Rightarrow> OPENSSL_STACK option \<Rightarrow> nat result \<times> OPENSSL_STACK option" where
  "OPENSSL_sk_push mem p sk =
     (case sk of None \<Rightarrow> (Abort, None) | Some s \<Rightarrow> OPENSSL_sk_insert mem p (st_num s) sk)"

definition OPENSSL_sk_delete :: "nat \<Rightarrow> OPENSSL_STACK option \<Rightarrow> ptr result \<times> OPENSSL_STACK option" where
  "OPENSSL_sk_delete at sk =
     (case sk of
        None \<Rightarrow> (Ok 0, None)
      | Some s \<Rightarrow>
          if at \<ge> st_num s then (Ok 0, Some s)
          else (let ret = st_data s ! at
                in case (if at \<noteq> st_num s - 1
                         then OPENSSL_memmove_ptrs (st_data s) at (at + 1) (st_num s - at - 1)
                         else Some (st_data s)) of
                     None \<Rightarrow> (Abort, Some s)
                   | Some data \<Rightarrow> (Ok ret, Some (s\<lparr>st_data := data, st_num := st_num s - 1\<rparr>))))"

text \<open>The first index, from \<open>i\<close> on, of an element with the property.\<close>

fun sk_scan :: "('a \<Rightarrow> bool) \<Rightarrow> 'a list \<Rightarrow> nat \<Rightarrow> nat option" where
  "sk_scan P [] i = None"
| "sk_scan P (q # qs) i = (if P q then Some i else sk_scan P qs (i + 1))"

definition OPENSSL_sk_delete_ptr :: "ptr \<Rightarrow> OPENSSL_STACK option \<Rightarrow> ptr result \<times> OPENSSL_STACK option" where
  "OPENSSL_sk_delete_ptr p sk =
     (case sk of
        None \<Rightarrow> (Ok 0, None)
      | Some s \<Rightarrow>
          (case sk_scan (\<lambda>q. q = p) (take (st_num s) (st_data s)) 0 of
             None \<Rightarrow> (Ok 0, sk)
           | Some i \<Rightarrow> OPENSSL_sk_delete i sk))"

definition OPENSSL_sk_shift :: "OPENSSL_STACK option \<Rightarrow> ptr result \<times> OPENSSL_STACK option" where
  "OPENSSL_sk_shift sk =
     (case sk of
        None \<Rightarrow> (Ok 0, None)
      | Some s \<Rightarrow> if st_num s = 0 then (Ok 0, sk) else OPENSSL_sk_delete 0 sk)"

definition OPENSSL_sk_pop :: "OPENSSL_STACK option \<Rightarrow> ptr result \<times> OPENSSL_STACK option" where
  "OPENSSL_sk_pop sk =
     (case sk of
        None \<Rightarrow> (Ok 0, None)
      | Some s \<Rightarrow> if st_num s = 0 then (Ok 0, sk) else OPENSSL_sk_delete (st_num s - 1) sk)"

function delete_if_loop ::
    "(ptr \<Rightarrow> 'w \<Rightarrow> bool \<times> 'w) \<Rightarrow> nat \<Rightarrow> nat \<Rightarrow> nat \<Rightarrow> ptr list \<Rightarrow> 'w \<Rightarrow> nat \<times> ptr list \<times> 'w" where
  "delete_if_loop func n i new_num data w =
     (if i < n then
        (case func (data ! i) w of
           (True, w) \<Rightarrow> delete_if_loop func n (i + 1) new_num data w
         | (False, w) \<Rightarrow> delete_if_loop func n (i + 1) (new_num + 1) (data[new_num := data ! i]) w)
      else (new_num, data, w))"
  by pat_completeness auto
termination by (relation "measure (\<lambda>(func, n, i, _). n - i)") auto

declare delete_if_loop.simps [simp del]

definition OPENSSL_sk_delete_if ::
    "(ptr \<Rightarrow> 'w \<Rightarrow> bool \<times> 'w) \<Rightarrow> OPENSSL_STACK option \<Rightarrow> 'w \<Rightarrow> OPENSSL_STACK option \<times> 'w" where
  "OPENSSL_sk_delete_if func sk w =
     (case sk of
        None \<Rightarrow> (None, w)
      | Some s \<Rightarrow>
          (case delete_if_loop func (st_num s) 0 0 (st_data s) w of
             (new_num, data, w) \<Rightarrow> (Some (s\<lparr>st_data := data, st_num := new_num\<rparr>), w)))"

section \<open>Finding\<close>

text \<open>The binary search for the earliest match in the sorted case.\<close>

function find_loop :: "('a \<Rightarrow> 'a \<Rightarrow> int) \<Rightarrow> 'a \<Rightarrow> 'a list \<Rightarrow> nat \<Rightarrow> nat \<Rightarrow> nat option result" where
  "find_loop cmp p data lo hi =
     (if lo < hi then
        (let mid = lo + (hi - lo - 1) div 2
         in if \<not> (lo \<le> mid \<and> mid < hi) then Abort
            else
              (let r = cmp p (data ! mid)
               in if r > 0 then find_loop cmp p data (mid + 1) hi
                  else if r < 0 then find_loop cmp p data lo mid
                  else if hi - lo = 1 then Ok (Some mid)
                  else if \<not> (mid + 1 < hi) then Abort
                  else find_loop cmp p data lo (mid + 1)))
      else if lo = hi then Ok None else Abort)"
  by pat_completeness auto
termination by (relation "measure (\<lambda>(cmp, p, data, lo, hi). hi - lo)") auto

declare find_loop.simps [simp del]

definition OPENSSL_sk_find ::
    "(u64 \<Rightarrow> ptr \<Rightarrow> ptr \<Rightarrow> int) \<Rightarrow> OPENSSL_STACK option \<Rightarrow> ptr \<Rightarrow> nat option result" where
  "OPENSSL_sk_find call_cmp sk p =
     (case sk of
        None \<Rightarrow> Ok None
      | Some s \<Rightarrow>
          if st_comp s = 0 then Ok (sk_scan (\<lambda>q. q = p) (take (st_num s) (st_data s)) 0)
          else if p = 0 then Ok None
          else if \<not> OPENSSL_sk_is_sorted sk then
            Ok (sk_scan (\<lambda>q. call_cmp (st_comp s) p q = 0) (take (st_num s) (st_data s)) 0)
          else find_loop (call_cmp (st_comp s)) p (st_data s) 0 (st_num s))"

section \<open>Copying\<close>

definition OPENSSL_sk_dup :: "bool \<Rightarrow> ptr_allocator \<Rightarrow> OPENSSL_STACK option \<Rightarrow> OPENSSL_STACK option" where
  "OPENSSL_sk_dup struct_ok mem sk =
     (case sk of
        None \<Rightarrow> None
      | Some s \<Rightarrow>
          if \<not> struct_ok then None
          else if size_mul 8 (st_num_alloc s) = 0 then None
          else case mem (size_mul 8 (st_num_alloc s)) of
            None \<Rightarrow> None
          | Some _ \<Rightarrow>
              Some \<lparr>st_num = st_num s, st_data = take (size_mul 8 (st_num_alloc s) div 8) (st_data s),
                    st_sorted = st_sorted s, st_num_alloc = st_num_alloc s, st_comp = st_comp s\<rparr>)"

text \<open>The elements copied one by one, those already copied freed when a copy fails.\<close>

function deep_copy_loop ::
    "(ptr \<Rightarrow> 'w \<Rightarrow> ptr \<times> 'w) \<Rightarrow> (ptr \<Rightarrow> 'w \<Rightarrow> 'w) \<Rightarrow> nat \<Rightarrow> nat \<Rightarrow> ptr list \<Rightarrow> 'w \<Rightarrow> ptr list option \<times> 'w" where
  "deep_copy_loop copy free n i data w =
     (if i < n then
        if data ! i = 0 then deep_copy_loop copy free n (i + 1) data w
        else
          (case copy (data ! i) w of (q, w) \<Rightarrow>
             if q = 0 then (None, pop_free_loop free (take i data) w)
             else deep_copy_loop copy free n (i + 1) (data[i := q]) w)
      else (Some data, w))"
  by pat_completeness auto
termination by (relation "measure (\<lambda>(copy, free, n, i, data, w). n - i)") auto

declare deep_copy_loop.simps [simp del]

definition OPENSSL_sk_deep_copy ::
    "bool \<Rightarrow> ptr_allocator \<Rightarrow> (ptr \<Rightarrow> 'w \<Rightarrow> ptr \<times> 'w) \<Rightarrow> (ptr \<Rightarrow> 'w \<Rightarrow> 'w) \<Rightarrow> OPENSSL_STACK option \<Rightarrow> 'w \<Rightarrow>
     OPENSSL_STACK option \<times> 'w" where
  "OPENSSL_sk_deep_copy struct_ok mem copy free sk w =
     (case OPENSSL_sk_dup struct_ok mem sk of
        None \<Rightarrow> (None, w)
      | Some ret \<Rightarrow>
          (case deep_copy_loop copy free (st_num ret) 0 (st_data ret) w of
             (None, w) \<Rightarrow> (None, w)
           | (Some data, w) \<Rightarrow> (Some (ret\<lparr>st_data := data\<rparr>), w)))"

section \<open>Sorting\<close>

definition parent_idx :: "nat \<Rightarrow> nat result" where
  "parent_idx idx = (if idx > 0 then Ok ((idx - 1) div 2) else Abort)"

definition left_idx :: "nat \<Rightarrow> nat result" where
  "left_idx idx = (if idx \<le> PTRDIFF_MAX then Ok (2 * idx + 1) else Abort)"

text \<open>The larger of \<open>i\<close> and its children, where it has any below \<open>n\<close>.\<close>

definition heap_next :: "('a \<Rightarrow> 'a \<Rightarrow> int) \<Rightarrow> nat \<Rightarrow> nat \<Rightarrow> nat \<Rightarrow> 'a list \<Rightarrow> nat" where
  "heap_next cmp i left n data =
     (let next = (if cmp (data ! i) (data ! left) < 0 then left else i);
          right = left + 1
      in if right < n \<and> cmp (data ! next) (data ! right) < 0 then right else next)"

function down_heap_loop :: "('a \<Rightarrow> 'a \<Rightarrow> int) \<Rightarrow> nat \<Rightarrow> nat \<Rightarrow> 'a list \<Rightarrow> 'a list result" where
  "down_heap_loop cmp i n data =
     (case left_idx i of
        Ok left \<Rightarrow>
          if left \<ge> n then Ok data
          else
            (let next = heap_next cmp i left n data
             in if i = next then Ok data
                else down_heap_loop cmp next n (data[i := data ! next, next := data ! i]))
      | Err \<Rightarrow> Err
      | Abort \<Rightarrow> Abort)"
  by pat_completeness auto
termination
  by (relation "measure (\<lambda>(cmp, i, n, data). n - i)")
    (auto simp: heap_next_def left_idx_def Let_def split: if_splits)

declare down_heap_loop.simps [simp del]

definition down_heap ::
    "('a \<Rightarrow> 'a \<Rightarrow> int) \<Rightarrow> nat \<Rightarrow> nat \<Rightarrow> nat \<Rightarrow> 'a list \<Rightarrow> 'a list result" where
  "down_heap cmp sk_num i n data =
     (if \<not> (i < n \<and> n \<le> sk_num) then Abort else down_heap_loop cmp i n data)"

text \<open>
  The first loop of the sort: \<open>i--\<close> at zero wraps to \<open>SIZE_MAX\<close>, which is not below the
  number of elements, and ends the loop.
\<close>

fun heapify_loop :: "('a \<Rightarrow> 'a \<Rightarrow> int) \<Rightarrow> nat \<Rightarrow> nat \<Rightarrow> 'a list \<Rightarrow> 'a list result" where
  "heapify_loop cmp n i data =
     (if i < n then
        (case down_heap cmp n i n data of
           Ok data \<Rightarrow> (case i of 0 \<Rightarrow> Ok data | Suc j \<Rightarrow> heapify_loop cmp n j data)
         | Err \<Rightarrow> Err
         | Abort \<Rightarrow> Abort)
      else Ok data)"

declare heapify_loop.simps [simp del]

fun extract_loop :: "('a \<Rightarrow> 'a \<Rightarrow> int) \<Rightarrow> nat \<Rightarrow> nat \<Rightarrow> 'a list \<Rightarrow> 'a list result" where
  "extract_loop cmp n 0 data = Ok data"
| "extract_loop cmp n (Suc j) data =
     (case down_heap cmp n 0 (Suc j) (data[0 := data ! Suc j, Suc j := data ! 0]) of
        Ok data \<Rightarrow> extract_loop cmp n j data
      | Err \<Rightarrow> Err
      | Abort \<Rightarrow> Abort)"

definition OPENSSL_sk_sort ::
    "(u64 \<Rightarrow> ptr \<Rightarrow> ptr \<Rightarrow> int) \<Rightarrow> OPENSSL_STACK option \<Rightarrow> OPENSSL_STACK option result" where
  "OPENSSL_sk_sort call_cmp sk =
     (case sk of
        None \<Rightarrow> Ok None
      | Some s \<Rightarrow>
          if st_comp s = 0 \<or> st_sorted s then Ok sk
          else if st_num s \<ge> 2 then
            (case parent_idx (st_num s - 1) of
               Ok i \<Rightarrow>
                 (case heapify_loop (call_cmp (st_comp s)) (st_num s) i (st_data s) of
                    Ok data \<Rightarrow>
                      (case extract_loop (call_cmp (st_comp s)) (st_num s) (st_num s - 1) data of
                         Ok data \<Rightarrow> Ok (Some (s\<lparr>st_data := data, st_sorted := True\<rparr>))
                       | Err \<Rightarrow> Err
                       | Abort \<Rightarrow> Abort)
                  | Err \<Rightarrow> Err
                  | Abort \<Rightarrow> Abort)
             | Err \<Rightarrow> Err
             | Abort \<Rightarrow> Abort)
          else Ok (Some (s\<lparr>st_sorted := True\<rparr>)))"

end
