(* ===== verification/C_Compare.thy ===== *)
theory C_Compare
  imports BS_Prelude
begin

text \<open>
  The contract of the comparison functions that sorting and searching code is given.
\<close>

text \<open>
  What \<open>qsort\<close>, the heap sort of the stack and its binary search ask of a C comparison
  function on the elements \<open>S\<close> it is called on: its sign is a total preorder.
\<close>

locale c_compare =
  fixes cmp :: "'a \<Rightarrow> 'a \<Rightarrow> int"
    and S :: "'a set"
  assumes cmp_flip: "a \<in> S \<Longrightarrow> b \<in> S \<Longrightarrow> cmp a b < 0 \<longleftrightarrow> 0 < cmp b a"
    and cmp_trans: "a \<in> S \<Longrightarrow> b \<in> S \<Longrightarrow> c \<in> S \<Longrightarrow> cmp a b \<le> 0 \<Longrightarrow> cmp b c \<le> 0 \<Longrightarrow> cmp a c \<le> 0"
begin

lemma cmp_refl: "a \<in> S \<Longrightarrow> cmp a a = 0"
  using cmp_flip [of a a] by linarith

lemma le_flip: "a \<in> S \<Longrightarrow> b \<in> S \<Longrightarrow> cmp a b \<le> 0 \<longleftrightarrow> 0 \<le> cmp b a"
  using cmp_flip [of b a] cmp_flip [of a b] by linarith

lemma eq_flip: "a \<in> S \<Longrightarrow> b \<in> S \<Longrightarrow> cmp a b = 0 \<longleftrightarrow> cmp b a = 0"
  using cmp_flip [of b a] cmp_flip [of a b] by linarith

end

end
