(* ===== verification/Stack_Sort.thy ===== *)
theory Stack_Sort
  imports Stack C_Compare "HOL-Library.Multiset"
begin

text \<open>
  The heap sort and the binary search of the stack, for any comparison function that keeps
  the contract: the sort ends, permutes and orders; the search finds the earliest match.
\<close>

section \<open>Swapping and the heap order\<close>

definition swap_at :: "nat \<Rightarrow> nat \<Rightarrow> 'a list \<Rightarrow> 'a list" where
  "swap_at i j d = d[i := d ! j, j := d ! i]"

lemma length_swap_at [simp]: "length (swap_at i j d) = length d"
  by (simp add: swap_at_def)

lemma nth_swap_at:
  "i < length d \<Longrightarrow> j < length d \<Longrightarrow> k < length d \<Longrightarrow>
     swap_at i j d ! k = (if k = j then d ! i else if k = i then d ! j else d ! k)"
  by (auto simp: swap_at_def nth_list_update)

lemma mset_swap_at: "i < n \<Longrightarrow> j < n \<Longrightarrow> n \<le> length d \<Longrightarrow> mset (take n (swap_at i j d)) = mset (take n d)"
  using mset_swap [of j "take n d" i] by (simp add: swap_at_def take_update_swap)

lemma drop_swap_at: "i < n \<Longrightarrow> j < n \<Longrightarrow> drop n (swap_at i j d) = drop n d"
  by (simp add: swap_at_def)

text \<open>The parent of a node, and the order of a heap from \<open>lo\<close> on.\<close>

definition par :: "nat \<Rightarrow> nat" where
  "par k = (k - 1) div 2"

lemma par_child: "0 < k \<Longrightarrow> par k = i \<longleftrightarrow> k = 2 * i + 1 \<or> k = 2 * i + 2"
  by (auto simp: par_def)

lemma par_less: "0 < k \<Longrightarrow> par k < k"
  by (auto simp: par_def)

context c_compare begin

definition heap :: "nat \<Rightarrow> nat \<Rightarrow> 'a list \<Rightarrow> bool" where
  "heap lo n d \<longleftrightarrow> (\<forall>k. 0 < k \<longrightarrow> k < n \<longrightarrow> lo \<le> par k \<longrightarrow> 0 \<le> cmp (d ! par k) (d ! k))"

text \<open>A heap but for node \<open>i\<close>, whose parent dominates its children.\<close>

definition heap_but :: "nat \<Rightarrow> nat \<Rightarrow> nat \<Rightarrow> 'a list \<Rightarrow> bool" where
  "heap_but i lo n d \<longleftrightarrow>
     (\<forall>k. 0 < k \<longrightarrow> k < n \<longrightarrow> lo \<le> par k \<longrightarrow> par k \<noteq> i \<longrightarrow> 0 \<le> cmp (d ! par k) (d ! k)) \<and>
     (\<forall>k. 0 < k \<longrightarrow> k < n \<longrightarrow> par k = i \<longrightarrow> 0 < i \<longrightarrow> lo \<le> par i \<longrightarrow> 0 \<le> cmp (d ! par i) (d ! k))"

lemma ge_trans: "a \<in> S \<Longrightarrow> b \<in> S \<Longrightarrow> c \<in> S \<Longrightarrow> 0 \<le> cmp a b \<Longrightarrow> 0 \<le> cmp b c \<Longrightarrow> 0 \<le> cmp a c"
  using cmp_trans [of c b a] le_flip by blast

lemma heap_but_swap:
  assumes hb: "heap_but i lo n d" and i: "lo \<le> i" "i < n" and ch: "nxt < n" "0 < nxt" "par nxt = i"
    and big: "\<And>k. 0 < k \<Longrightarrow> k < n \<Longrightarrow> par k = i \<Longrightarrow> 0 \<le> cmp (d ! nxt) (d ! k)"
    and up: "0 \<le> cmp (d ! nxt) (d ! i)" and len: "n \<le> length d" and S: "set (take n d) \<subseteq> S"
  shows "heap_but nxt lo n (swap_at i nxt d)"
proof -
  have nth: "swap_at i nxt d ! k = (if k = nxt then d ! i else if k = i then d ! nxt else d ! k)" if "k < n" for k
    using that i ch len by (intro nth_swap_at) auto
  have ne: "i \<noteq> nxt" using par_less [OF ch(2)] ch(3) by simp
  have S1: "d ! k \<in> S" if "k < n" for k
    using S that len by (metis in_set_conv_nth length_take min.absorb2 nth_take subset_iff)
  have ok: "0 \<le> cmp (swap_at i nxt d ! par k) (swap_at i nxt d ! k)"
    if k: "0 < k" "k < n" "lo \<le> par k" "par k \<noteq> nxt" for k
  proof -
    have p: "par k < n" "par k < k" using par_less [OF k(1)] k(2) by auto
    consider "par k = i" "k = nxt" | "par k = i" "k \<noteq> nxt" | "par k \<noteq> i" "k = i" | "par k \<noteq> i" "k \<noteq> i" by blast
    then show ?thesis
    proof cases
      case 3
      then have "0 \<le> cmp (d ! par i) (d ! nxt)" using hb k ch unfolding heap_but_def by metis
      then show ?thesis using 3 k p ne by (simp add: nth)
    next
      case 4
      then have "k \<noteq> nxt" using ch by auto
      moreover have "0 \<le> cmp (d ! par k) (d ! k)" using hb k 4 unfolding heap_but_def by blast
      ultimately show ?thesis using 4 k p by (simp add: nth)
    qed (use up big k p ne in \<open>auto simp: nth\<close>)
  qed
  have "0 \<le> cmp (swap_at i nxt d ! par nxt) (swap_at i nxt d ! k)" if k: "0 < k" "k < n" "par k = nxt" for k
  proof -
    have "0 \<le> cmp (d ! nxt) (d ! k)" using hb k ne i ch par_less [OF ch(2)] unfolding heap_but_def
      by (metis le_trans less_or_eq_imp_le)
    moreover have "k \<noteq> nxt" "k \<noteq> i" using par_less [OF k(1)] par_less [OF ch(2)] k(3) ch(3) by auto
    ultimately show ?thesis using k ch i ne by (simp add: nth)
  qed
  with ok show ?thesis unfolding heap_but_def by blast
qed

lemma heap_but_exit:
  assumes "heap_but i lo n d" "\<And>k. 0 < k \<Longrightarrow> k < n \<Longrightarrow> par k = i \<Longrightarrow> 0 \<le> cmp (d ! i) (d ! k)"
  shows "heap lo n d"
  using assms unfolding heap_but_def heap_def by metis

end


section \<open>The heap sort\<close>

context c_compare begin

lemma heap_next_cases:
  assumes "left < n" "left = 2 * i + 1" "n \<le> length d" "set (take n d) \<subseteq> S"
  obtains (stay) "heap_next cmp i left n d = i" "\<And>k. 0 < k \<Longrightarrow> k < n \<Longrightarrow> par k = i \<Longrightarrow> 0 \<le> cmp (d ! i) (d ! k)"
  | (down) nxt where "heap_next cmp i left n d = nxt" "nxt < n" "0 < nxt" "par nxt = i"
      "0 \<le> cmp (d ! nxt) (d ! i)" "\<And>k. 0 < k \<Longrightarrow> k < n \<Longrightarrow> par k = i \<Longrightarrow> 0 \<le> cmp (d ! nxt) (d ! k)"
proof -
  have S1: "d ! k \<in> S" if "k < n" for k
    using assms(3,4) that by (metis in_set_conv_nth length_take min.absorb2 nth_take subset_iff)
  have i: "i < n" using assms by simp
  define m where "m = (if cmp (d ! i) (d ! left) < 0 then left else i)"
  have m: "m < n" "0 \<le> cmp (d ! m) (d ! i)" "0 \<le> cmp (d ! m) (d ! left)" "m = i \<or> m = left"
    using cmp_flip [OF S1 [OF i] S1 [OF assms(1)]] cmp_refl S1 i assms(1) by (auto simp: m_def)
  define nxt where "nxt = heap_next cmp i left n d"
  have nx: "nxt = (if left + 1 < n \<and> cmp (d ! m) (d ! (left + 1)) < 0 then left + 1 else m)"
    by (simp add: nxt_def heap_next_def m_def Let_def)
  have n1: "nxt < n" using nx m(1) by auto
  have top: "0 \<le> cmp (d ! nxt) (d ! m)"
    using nx cmp_flip [OF S1 [OF m(1)], of "d ! (left + 1)"] S1 cmp_refl [OF S1 [OF m(1)]] by auto
  have big: "0 \<le> cmp (d ! nxt) (d ! k)" if k: "0 < k" "k < n" "par k = i" for k
  proof (cases "k = left")
    case True
    then show ?thesis using ge_trans [OF S1 [OF n1] S1 [OF m(1)] S1 [OF k(2)] top] m(3) by simp
  next
    case False
    then have e: "k = left + 1" using k assms(2) by (auto simp: par_child)
    show ?thesis
    proof (cases "nxt = left + 1")
      case True
      then show ?thesis using e cmp_refl [OF S1 [OF k(2)]] by simp
    next
      case False
      then show ?thesis using nx e k(2) by (auto split: if_splits)
    qed
  qed
  have up: "0 \<le> cmp (d ! nxt) (d ! i)"
    using ge_trans [OF S1 [OF n1] S1 [OF m(1)] S1 [OF i] top m(2)] .
  show ?thesis
  proof (cases "nxt = i")
    case True
    then show ?thesis using stay big by (simp add: nxt_def)
  next
    case False
    then have "nxt = left \<or> nxt = left + 1" using nx m(4) by (auto split: if_splits)
    then have "par nxt = i" "0 < nxt" using assms(2) by (auto simp: par_def)
    then show ?thesis using down [of nxt] n1 up big by (simp add: nxt_def)
  qed
qed

lemma down_heap_loop_spec:
  "heap_but i lo n d \<Longrightarrow> lo \<le> i \<Longrightarrow> i < n \<Longrightarrow> n \<le> length d \<Longrightarrow> n \<le> PTRDIFF_MAX \<Longrightarrow> set (take n d) \<subseteq> S \<Longrightarrow>
     \<exists>d'. down_heap_loop cmp i n d = Ok d' \<and> heap lo n d' \<and> length d' = length d \<and>
       mset (take n d') = mset (take n d) \<and> drop n d' = drop n d"
proof (induction "n - i" arbitrary: i d rule: less_induct)
  case less
  note prems = less.prems
  define left where "left = 2 * i + 1"
  have l: "left_idx i = Ok left" using prems(3,5) by (simp add: left_idx_def left_def)
  show ?case
  proof (cases "left < n")
    case False
    then have "heap lo n d" using prems(1) by (intro heap_but_exit) (auto simp: par_child left_def)
    moreover have "down_heap_loop cmp i n d = Ok d" using False l by (subst down_heap_loop.simps) simp
    ultimately show ?thesis by simp
  next
    case True
    show ?thesis
    proof (rule heap_next_cases [OF True left_def prems(4,6)])
      assume "heap_next cmp i left n d = i" "\<And>k. 0 < k \<Longrightarrow> k < n \<Longrightarrow> par k = i \<Longrightarrow> 0 \<le> cmp (d ! i) (d ! k)"
      moreover from this have "down_heap_loop cmp i n d = Ok d" using True l by (subst down_heap_loop.simps) simp
      ultimately show ?thesis using heap_but_exit [OF prems(1)] by simp
    next
      fix c
      assume c: "heap_next cmp i left n d = c" "c < n" "0 < c" "par c = i" "0 \<le> cmp (d ! c) (d ! i)"
        "\<And>k. 0 < k \<Longrightarrow> k < n \<Longrightarrow> par k = i \<Longrightarrow> 0 \<le> cmp (d ! c) (d ! k)"
      have ic: "i < c" using par_less [OF c(3)] c(4) by simp
      have e: "down_heap_loop cmp i n d = down_heap_loop cmp c n (swap_at i c d)"
        using True l c(1) ic by (subst down_heap_loop.simps) (simp add: swap_at_def)
      have m: "mset (take n (swap_at i c d)) = mset (take n d)"
        using prems(3,4) c(2) by (intro mset_swap_at)
      have hb: "heap_but c lo n (swap_at i c d)"
        using heap_but_swap [OF prems(1-3) c(2-4,6,5) prems(4,6)] .
      have S: "set (take n (swap_at i c d)) \<subseteq> S" using prems(6) mset_eq_setD [OF m] by simp
      have "\<exists>d'. down_heap_loop cmp c n (swap_at i c d) = Ok d' \<and> heap lo n d' \<and> length d' = length (swap_at i c d) \<and>
          mset (take n d') = mset (take n (swap_at i c d)) \<and> drop n d' = drop n (swap_at i c d)"
        using less.hyps [OF _ hb] ic prems(2-5) c(2) S by simp
      then show ?thesis unfolding e using m drop_swap_at [OF prems(3) c(2), of d] by simp
    qed
  qed
qed

lemma down_heap_spec:
  assumes "heap (Suc i) n d" "i < n" "n \<le> k" "n \<le> length d" "n \<le> PTRDIFF_MAX" "set (take n d) \<subseteq> S"
  shows "\<exists>d'. down_heap cmp k i n d = Ok d' \<and> heap i n d' \<and> length d' = length d \<and>
       mset (take n d') = mset (take n d) \<and> drop n d' = drop n d"
proof -
  have "heap_but i i n d"
    using assms(1) par_less unfolding heap_but_def heap_def
    by (metis Suc_leI leD le_neq_implies_less)
  then show ?thesis using down_heap_loop_spec [of i i n d] assms by (simp add: down_heap_def)
qed

lemma heapify_loop_spec:
  "heap (Suc i) n d \<Longrightarrow> i < n \<Longrightarrow> n \<le> length d \<Longrightarrow> n \<le> PTRDIFF_MAX \<Longrightarrow> set (take n d) \<subseteq> S \<Longrightarrow>
     \<exists>d'. heapify_loop cmp n i d = Ok d' \<and> heap 0 n d' \<and> length d' = length d \<and>
       mset (take n d') = mset (take n d) \<and> drop n d' = drop n d"
proof (induction i arbitrary: d)
  case 0
  then obtain d' where "down_heap cmp n 0 n d = Ok d'" "heap 0 n d'" "length d' = length d"
    "mset (take n d') = mset (take n d)" "drop n d' = drop n d"
    using down_heap_spec [of 0 n d n] by auto
  then show ?case using 0 by (subst heapify_loop.simps) simp
next
  case (Suc i)
  then obtain d' where d': "down_heap cmp n (Suc i) n d = Ok d'" "heap (Suc i) n d'" "length d' = length d"
    "mset (take n d') = mset (take n d)" "drop n d' = drop n d"
    using down_heap_spec [of "Suc i" n d n] by auto
  then have "\<exists>e. heapify_loop cmp n i d' = Ok e \<and> heap 0 n e \<and> length e = length d' \<and>
       mset (take n e) = mset (take n d') \<and> drop n e = drop n d'"
    using Suc mset_eq_setD [OF d'(4)] by (intro Suc.IH) auto
  then show ?case using Suc.prems d' by (subst heapify_loop.simps) simp
qed

lemma heap_top: "heap 0 n d \<Longrightarrow> n \<le> length d \<Longrightarrow> set (take n d) \<subseteq> S \<Longrightarrow> k < n \<Longrightarrow> 0 \<le> cmp (d ! 0) (d ! k)"
proof (induction k rule: less_induct)
  case (less k)
  have S1: "d ! j \<in> S" if "j < n" for j
    using less.prems that by (metis in_set_conv_nth length_take min.absorb2 nth_take subset_iff)
  show ?case
  proof (cases "k = 0")
    case False
    then have p: "par k < k" by (simp add: par_less)
    then have "0 \<le> cmp (d ! par k) (d ! k)" "0 \<le> cmp (d ! 0) (d ! par k)"
      using less False by (auto simp: heap_def)
    then show ?thesis using ge_trans S1 less.prems(4) p by (meson le_less_trans less_imp_le_nat less_trans order_le_less_trans zero_less_iff_neq_zero False)
  qed (use S1 less cmp_refl in simp)
qed

end

context c_compare begin

abbreviation cmp_le :: "'a \<Rightarrow> 'a \<Rightarrow> bool" where
  "cmp_le a b \<equiv> cmp a b \<le> 0"

lemma extract_step:
  assumes d: "heap 0 (Suc (Suc j)) d" and n: "Suc j < n" "n \<le> length d" and S: "set (take n d) \<subseteq> S"
    and srt: "sorted_wrt cmp_le (drop (Suc (Suc j)) (take n d))"
    and cross: "\<forall>a\<in>set (take (Suc (Suc j)) d). \<forall>b\<in>set (drop (Suc (Suc j)) (take n d)). cmp_le a b"
  defines "e \<equiv> swap_at 0 (Suc j) d"
  shows "heap 1 (Suc j) e" "sorted_wrt cmp_le (drop (Suc j) (take n e))"
    "\<forall>a\<in>set (take (Suc j) e). \<forall>b\<in>set (drop (Suc j) (take n e)). cmp_le a b"
    "mset (take n e) = mset (take n d)" "length e = length d" "drop n e = drop n d"
proof -
  let ?m = "Suc (Suc j)"
  have nth: "e ! k = (if k = Suc j then d ! 0 else if k = 0 then d ! Suc j else d ! k)" if "k < length d" for k
    unfolding e_def using n that by (intro nth_swap_at) auto
  show "length e = length d" "drop n e = drop n d" using n by (simp_all add: e_def drop_swap_at)
  show "mset (take n e) = mset (take n d)" unfolding e_def using n by (intro mset_swap_at) auto
  show "heap 1 (Suc j) e"
    unfolding heap_def
  proof (intro allI impI)
    fix k assume k: "0 < k" "k < Suc j" "1 \<le> par k"
    have "e ! k = d ! k" "e ! par k = d ! par k" using k n par_less [OF k(1)] by (simp_all add: nth)
    moreover have "0 \<le> cmp (d ! par k) (d ! k)" using d k by (simp add: heap_def)
    ultimately show "0 \<le> cmp (e ! par k) (e ! k)" by simp
  qed
  have "e ! Suc j = d ! 0" using n nth [of "Suc j"] by simp
  moreover have "drop (Suc j) (take n e) = e ! Suc j # drop ?m (take n e)"
    using n by (subst Cons_nth_drop_Suc [symmetric]) (simp_all add: e_def)
  moreover have "drop ?m (take n e) = drop ?m (take n d)"
    by (simp add: e_def drop_take drop_swap_at)
  ultimately have tail: "drop (Suc j) (take n e) = d ! 0 # drop ?m (take n d)" by metis
  have top: "d ! 0 \<in> set (take ?m d)" using n by (auto simp: in_set_conv_nth intro!: exI [of _ 0])
  have m: "mset (take ?m e) = mset (take ?m d)" unfolding e_def using n by (intro mset_swap_at) auto
  have front: "set (take (Suc j) e) \<subseteq> set (take ?m d)"
    using set_take_subset_set_take [of "Suc j" ?m e] mset_eq_setD [OF m] by auto
  have max: "cmp_le a (d ! 0)" if a: "a \<in> set (take ?m d)" for a
  proof -
    have Sm: "set (take ?m d) \<subseteq> S" using S n set_take_subset_set_take [of ?m n d] by auto
    obtain k where k: "k < ?m" "a = d ! k" using a n by (auto simp: in_set_conv_nth)
    then have "0 \<le> cmp (d ! 0) (d ! k)" using heap_top [OF d _ Sm] n by simp
    moreover have "a \<in> S" "d ! 0 \<in> S" using Sm a top by auto
    ultimately show ?thesis using le_flip k(2) by simp
  qed
  show "sorted_wrt cmp_le (drop (Suc j) (take n e))" unfolding tail using srt cross top by simp
  show "\<forall>a\<in>set (take (Suc j) e). \<forall>b\<in>set (drop (Suc j) (take n e)). cmp_le a b"
    unfolding tail using front max cross by auto
qed

lemma extract_loop_spec:
  "heap 0 (Suc j) d \<Longrightarrow> j < n \<Longrightarrow> n \<le> length d \<Longrightarrow> n \<le> PTRDIFF_MAX \<Longrightarrow> set (take n d) \<subseteq> S \<Longrightarrow>
   sorted_wrt cmp_le (drop (Suc j) (take n d)) \<Longrightarrow>
   \<forall>a\<in>set (take (Suc j) d). \<forall>b\<in>set (drop (Suc j) (take n d)). cmp_le a b \<Longrightarrow>
     \<exists>d'. extract_loop cmp n j d = Ok d' \<and> sorted_wrt cmp_le (take n d') \<and> length d' = length d \<and>
       mset (take n d') = mset (take n d) \<and> drop n d' = drop n d"
proof (induction j arbitrary: d)
  case 0
  have eq: "take n d = d ! 0 # drop (Suc 0) (take n d)"
    using 0 by (cases d; cases n) simp_all
  have "take (Suc 0) d = [d ! 0]" using 0 by (cases d) auto
  then have "sorted_wrt cmp_le (d ! 0 # drop (Suc 0) (take n d))" using 0(6,7) by simp
  then have "sorted_wrt cmp_le (take n d)" by (rule iffD2 [OF arg_cong [OF eq, where f = "sorted_wrt cmp_le"]])
  then show ?case by simp
next
  case (Suc j)
  define e where "e = swap_at 0 (Suc j) d"
  note e = extract_step [OF Suc.prems(1-3,5-7), folded e_def]
  have "set (take (Suc j) e) \<subseteq> S"
    using set_take_subset_set_take [of "Suc j" n e] mset_eq_setD [OF e(4)] Suc.prems(2,5) by auto
  then obtain d' where d': "down_heap cmp n 0 (Suc j) e = Ok d'" "heap 0 (Suc j) d'" "length d' = length e"
    "mset (take (Suc j) d') = mset (take (Suc j) e)" "drop (Suc j) d' = drop (Suc j) e"
    using down_heap_spec [of 0 "Suc j" e n] e(1,5) Suc.prems(2-4) by auto
  have tl: "drop (Suc j) (take n d') = drop (Suc j) (take n e)" by (simp add: drop_take d'(5))
  have split: "take n x = take (Suc j) x @ take (n - Suc j) (drop (Suc j) x)" for x :: "'a list"
    using take_add [of "Suc j" "n - Suc j" x] Suc.prems(2) by simp
  have m: "mset (take n d') = mset (take n e)"
    unfolding split [of d'] split [of e] d'(5) mset_append d'(4) ..
  have dn: "drop n d' = drop n e"
    using d'(5) Suc.prems(2) by (metis drop_drop le_add_diff_inverse2 less_imp_le_nat)
  have "\<exists>f. extract_loop cmp n j d' = Ok f \<and> sorted_wrt cmp_le (take n f) \<and> length f = length d' \<and>
       mset (take n f) = mset (take n d') \<and> drop n f = drop n d'"
    using Suc.prems(2-5) e d' tl m mset_eq_setD [OF m] mset_eq_setD [OF e(4)] mset_eq_setD [OF d'(4)]
    by (intro Suc.IH) simp_all
  then show ?case using d'(1,3) m dn e(4-6) by (simp add: e_def swap_at_def)
qed

lemma heap_sort:
  assumes "2 \<le> n" "n \<le> length d" "n \<le> PTRDIFF_MAX" "set (take n d) \<subseteq> S"
  shows "\<exists>i e d'. parent_idx (n - 1) = Ok i \<and> heapify_loop cmp n i d = Ok e \<and>
    extract_loop cmp n (n - 1) e = Ok d' \<and> sorted_wrt cmp_le (take n d') \<and> length d' = length d \<and>
    mset (take n d') = mset (take n d) \<and> drop n d' = drop n d"
proof -
  define i where "i = (n - 1 - 1) div 2"
  have i: "parent_idx (n - 1) = Ok i" "i < n" using assms(1) by (auto simp: parent_idx_def i_def)
  have "n \<le> 2 * Suc i + 1" unfolding i_def using assms(1) by presburger
  then have "heap (Suc i) n d" by (auto simp: heap_def par_def)
  then obtain e where e: "heapify_loop cmp n i d = Ok e" "heap 0 n e" "length e = length d"
    "mset (take n e) = mset (take n d)" "drop n e = drop n d"
    using heapify_loop_spec [OF _ i(2) assms(2-4)] by blast
  have "\<exists>d'. extract_loop cmp n (n - 1) e = Ok d' \<and> sorted_wrt cmp_le (take n d') \<and> length d' = length e \<and>
       mset (take n d') = mset (take n e) \<and> drop n d' = drop n e"
    using assms e mset_eq_setD [OF e(4)] by (intro extract_loop_spec) auto
  then show ?thesis using i(1) e by auto
qed

end

section \<open>Finding in a sorted stack\<close>

definition first_match :: "('a \<Rightarrow> bool) \<Rightarrow> 'a list \<Rightarrow> nat option \<Rightarrow> bool" where
  "first_match P xs r =
     (case r of
        None \<Rightarrow> \<forall>k<length xs. \<not> P (xs ! k)
      | Some i \<Rightarrow> i < length xs \<and> P (xs ! i) \<and> (\<forall>k<i. \<not> P (xs ! k)))"

lemma sk_scan_first: "first_match P xs r \<Longrightarrow> sk_scan P xs i = map_option ((+) i) r"
proof (induction xs arbitrary: r i)
  case Nil
  then show ?case by (cases r) (auto simp: first_match_def)
next
  case (Cons x xs)
  show ?case
  proof (cases "P x")
    case True
    then have "r = Some 0" using Cons.prems by (force simp: first_match_def split: option.splits)
    then show ?thesis using True by simp
  next
    case False
    have "first_match P xs (map_option (\<lambda>j. j - 1) r) \<and> (\<forall>j. r = Some j \<longrightarrow> 0 < j)"
    proof (cases r)
      case None
      then show ?thesis using Cons.prems by (force simp: first_match_def)
    next
      case (Some j)
      then have "0 < j" using Cons.prems False by (auto simp: first_match_def intro: gr0I)
      then show ?thesis using Some Cons.prems
        by (cases j) (auto simp: first_match_def)
    qed
    then show ?thesis using Cons.IH [of "map_option (\<lambda>j. j - 1) r" "i + 1"] False
      by (cases r) auto
  qed
qed

context c_compare begin

lemma find_loop_spec:
  assumes srt: "sorted_wrt cmp_le (take n d)" and S: "set (take n d) \<subseteq> S" "p \<in> S" and n: "n \<le> length d"
  shows "lo \<le> hi \<Longrightarrow> hi \<le> n \<Longrightarrow> \<forall>k<lo. 0 < cmp p (d ! k) \<Longrightarrow>
    (\<forall>k. hi \<le> k \<longrightarrow> k < n \<longrightarrow> cmp p (d ! k) < 0) \<or> lo < hi \<and> cmp p (d ! (hi - 1)) = 0 \<Longrightarrow>
    \<exists>r. find_loop cmp p d lo hi = Ok r \<and> first_match (\<lambda>q. cmp p q = 0) (take n d) r"
proof (induction "hi - lo" arbitrary: lo hi rule: less_induct)
  case less
  have S1: "d ! k \<in> S" if "k < n" for k
    using S n that by (metis in_set_conv_nth length_take min.absorb2 nth_take subset_iff)
  have le: "cmp (d ! i) (d ! j) \<le> 0" if "i \<le> j" "j < n" for i j
  proof (cases "i = j")
    case False
    then have "cmp_le (take n d ! i) (take n d ! j)" using that n by (intro sorted_wrt_nth_less [OF srt]) auto
    then show ?thesis using that by simp
  qed (use cmp_refl S1 that in auto)
  show ?case
  proof (cases "lo < hi")
    case False
    then have lh: "lo = hi" using less.prems by simp
    have "cmp p (d ! k) \<noteq> 0" if "k < n" for k
      using less.prems(3,4) that unfolding lh by (metis less_irrefl not_le)
    then have "first_match (\<lambda>q. cmp p q = 0) (take n d) None" by (simp add: first_match_def)
    moreover have "find_loop cmp p d lo hi = Ok None" by (subst find_loop.simps) (simp add: lh)
    ultimately show ?thesis by blast
  next
    case True
    define mid where "mid = lo + (hi - lo - 1) div 2"
    have mid: "lo \<le> mid" "mid < hi" using True unfolding mid_def by linarith+
    have mn: "mid < n" using mid less.prems(2) by simp
    have step: "find_loop cmp p d lo hi =
        (if cmp p (d ! mid) > 0 then find_loop cmp p d (mid + 1) hi
         else if cmp p (d ! mid) < 0 then find_loop cmp p d lo mid
         else if hi - lo = 1 then Ok (Some mid)
         else if \<not> mid + 1 < hi then Abort else find_loop cmp p d lo (mid + 1))"
      unfolding find_loop.simps [of cmp p d lo hi] Let_def mid_def [symmetric] using True mid by simp
    consider (low) "cmp p (d ! mid) > 0" | (high) "cmp p (d ! mid) < 0" | (found) "cmp p (d ! mid) = 0" by linarith
    then show ?thesis
    proof cases
      case low
      have "0 < cmp p (d ! k)" if "k < mid + 1" for k
      proof -
        have "\<not> cmp p (d ! k) \<le> 0"
          using low le [of k mid] cmp_trans [OF S(2) S1 S1, of k mid] that mn by force
        then show ?thesis by simp
      qed
      moreover have "(\<forall>k. hi \<le> k \<longrightarrow> k < n \<longrightarrow> cmp p (d ! k) < 0) \<or> mid + 1 < hi \<and> cmp p (d ! (hi - 1)) = 0"
        using less.prems(4) low mid by (metis Suc_eq_plus1 Suc_leI diff_Suc_1 le_neq_implies_less less_irrefl)
      ultimately show ?thesis using less.hyps [of hi "mid + 1"] less.prems(2) mid low step by auto
    next
      case high
      have "cmp p (d ! k) < 0" if "mid \<le> k" "k < n" for k
      proof -
        have "\<not> cmp (d ! k) p \<le> 0"
          using high le [OF that] cmp_trans [OF S1 S1 S(2), of mid k] that mn cmp_flip [OF S(2) S1 [OF mn]] by force
        then show ?thesis using cmp_flip [OF S(2) S1 [OF that(2)]] by simp
      qed
      moreover have "find_loop cmp p d lo hi = find_loop cmp p d lo mid" using step high by simp
      ultimately show ?thesis using less.hyps [of mid lo] less.prems(2,3) mid by simp
    next
      case found
      show ?thesis
      proof (cases "hi - lo = 1")
        case True
        then have "mid = lo" by (simp add: mid_def)
        then have "first_match (\<lambda>q. cmp p q = 0) (take n d) (Some mid)"
          using found mn n less.prems(3) by (force simp: first_match_def)
        then show ?thesis using step found True by auto
      next
        case False
        then have "mid + 1 < hi" unfolding mid_def using \<open>lo < hi\<close> by linarith
        then show ?thesis using less.hyps [of "mid + 1" lo] less.prems(2,3) mid found step False by auto
      qed
    qed
  qed
qed

lemma find_loop_scan:
  assumes "sorted_wrt cmp_le (take n d)" "set (take n d) \<subseteq> S" "p \<in> S" "n \<le> length d"
  shows "find_loop cmp p d 0 n = Ok (sk_scan (\<lambda>q. cmp p q = 0) (take n d) 0)"
  using find_loop_spec [OF assms, of 0 n] sk_scan_first [of "\<lambda>q. cmp p q = 0" "take n d" _ 0]
  by (auto simp: option.map_ident map_option_case split: option.splits)

end

end
