(* ===== verification/Stack_List.thy ===== *)
theory Stack_List
  imports Stack_Sort
begin

text \<open>
  The stack as the list of its elements: the consistency every operation keeps but one, what the
  insertions and deletions do to the list, and the properties of sorting and searching.
\<close>

section \<open>The stack as a list\<close>

definition contents :: "OPENSSL_STACK \<Rightarrow> ptr list" where
  "contents s = take (st_num s) (st_data s)"

definition stack_ok :: "(u64 \<Rightarrow> ptr \<Rightarrow> ptr \<Rightarrow> int) \<Rightarrow> OPENSSL_STACK \<Rightarrow> bool" where
  "stack_ok call_cmp s \<longleftrightarrow>
     st_num s \<le> st_num_alloc s \<and> length (st_data s) = st_num_alloc s \<and> 0 < st_num_alloc s \<and>
     st_num_alloc s < 2 ^ 61 \<and> st_num s \<le> INT_MAX \<and>
     (st_sorted s \<and> st_comp s \<noteq> 0 \<longrightarrow> sorted_wrt (\<lambda>a b. call_cmp (st_comp s) a b \<le> 0) (contents s))"

lemma length_contents: "stack_ok cc s \<Longrightarrow> length (contents s) = st_num s"
  by (simp add: stack_ok_def contents_def)

lemma sk_new_ok:
  assumes "ptr_alloc_ok mem" "OPENSSL_sk_new struct_ok mem cmp_fn = Some s"
  shows "stack_ok cc s \<and> contents s = [] \<and> st_comp s = cmp_fn"
  using assms
  by (auto simp: OPENSSL_sk_new_def OPENSSL_calloc_ptrs_def ptr_alloc_ok_def stack_ok_def contents_def
        kMinSize_def INT_MAX_def split: if_splits option.splits)

lemma sk_grow_ok:
  assumes "ptr_alloc_ok mem" "stack_ok cc s" "sk_grow mem s = Some s'" "st_num s < INT_MAX"
  shows "stack_ok cc s' \<and> contents s' = contents s \<and> st_num s' = st_num s \<and> st_num s' < st_num_alloc s' \<and> st_comp s' = st_comp s"
proof (cases "st_num_alloc s \<le> st_num s + 1")
  case False
  then show ?thesis using assms by (simp add: sk_grow_def size_add_exact INT_MAX_def)
next
  case True
  have n: "st_num s + 1 < 2 ^ 64" "st_num_alloc s \<le> 2 ^ 31" using assms(4) True by (simp_all add: INT_MAX_def)
  have m: "size_mul (st_num_alloc s) 2 = st_num_alloc s * 2" "size_mul (st_num_alloc s * 2) 8 = st_num_alloc s * 16"
    using n by (simp_all add: size_mul_def)
  obtain data where d: "OPENSSL_realloc_ptrs mem (st_data s) (st_num_alloc s * 16) = Some data"
    "s' = s\<lparr>st_data := data, st_num_alloc := st_num_alloc s * 2\<rparr>"
    using assms(3) True n by (auto simp: sk_grow_def size_add_exact m Let_def split: option.splits)
  have ok: "length (st_data s) = st_num_alloc s" "st_num s \<le> st_num_alloc s" "0 < st_num_alloc s"
    using assms(2) by (simp_all add: stack_ok_def)
  have "length data = st_num_alloc s * 2" "take (st_num_alloc s) data = st_data s"
    using d(1) assms(1) ok(1) by (auto simp: OPENSSL_realloc_ptrs_def ptr_alloc_ok_def split: option.splits)
  then have "contents s' = contents s"
    using ok d(2) by (auto simp: contents_def) (metis min.absorb1 take_take)
  then show ?thesis using d(2) assms(2) ok n \<open>length data = _\<close> True
    by (auto simp: stack_ok_def contents_def)
qed

lemma sk_grow_succeeds:
  assumes "\<forall>n. mem n \<noteq> None" "stack_ok cc s" "st_num s < INT_MAX"
  shows "sk_grow mem s \<noteq> None"
proof (cases "st_num_alloc s \<le> st_num s + 1")
  case True
  have n: "st_num s + 1 < 2 ^ 64" "st_num_alloc s \<le> 2 ^ 31" using assms(3) True by (simp_all add: INT_MAX_def)
  have "size_mul (st_num_alloc s) 2 = st_num_alloc s * 2" "size_mul (st_num_alloc s * 2) 8 = st_num_alloc s * 16"
    using n by (simp_all add: size_mul_def)
  moreover obtain ps where "mem (st_num_alloc s * 16) = Some ps" using assms(1) by auto
  ultimately show ?thesis by (simp add: sk_grow_def Let_def OPENSSL_realloc_ptrs_def)
qed (use assms(3) in \<open>simp add: sk_grow_def size_add_exact INT_MAX_def\<close>)

lemma sk_insert_grown:
  assumes "stack_ok cc s" "st_num s < INT_MAX" "st_num s < st_num_alloc s" "sk_grow mem s0 = Some s" "st_num s0 = st_num s"
  shows "\<exists>s'. OPENSSL_sk_insert mem p at (Some s0) = (Ok (st_num s + 1), Some s') \<and> stack_ok cc s' \<and>
    contents s' = take at (contents s) @ p # drop at (contents s) \<and> st_comp s' = st_comp s"
proof -
  have ok: "length (st_data s) = st_num_alloc s" "st_num_alloc s < 2 ^ 61" using assms(1) by (simp_all add: stack_ok_def)
  define data where "data = (if at \<ge> st_num s then (st_data s)[st_num s := p]
    else (take (at + 1) (st_data s) @ take (st_num s - at) (drop at (st_data s)) @ drop (st_num s + 1) (st_data s))[at := p])"
  have mv: "(if at \<ge> st_num s then Some ((st_data s)[st_num s := p])
       else map_option (\<lambda>d. d[at := p]) (OPENSSL_memmove_ptrs (st_data s) (at + 1) at (st_num s - at))) = Some data"
    using assms(3) ok by (simp add: data_def OPENSSL_memmove_ptrs_def)
  define s' where "s' = s\<lparr>st_data := data, st_num := st_num s + 1, st_sorted := False\<rparr>"
  have "OPENSSL_sk_insert mem p at (Some s0) = (Ok (st_num s + 1), Some s')"
    using assms ok unfolding OPENSSL_sk_insert_def by (simp add: mv s'_def)
  moreover have "length data = st_num_alloc s" using ok assms(3) by (auto simp: data_def)
  then have "stack_ok cc s'" using assms ok by (simp add: stack_ok_def s'_def)
  moreover have "take (st_num s + 1) data = take at (contents s) @ p # drop at (contents s)"
  proof (cases "at \<ge> st_num s")
    case True
    then show ?thesis using assms(3) ok by (simp add: data_def contents_def take_Suc_conv_app_nth)
  next
    case False
    then have "take (at + 1) (st_data s) = take at (st_data s) @ [st_data s ! at]"
      using assms(3) ok by (simp add: take_Suc_conv_app_nth)
    then have "data = take at (st_data s) @ p # take (st_num s - at) (drop at (st_data s)) @ drop (st_num s + 1) (st_data s)"
      using False assms(3) ok by (simp add: data_def list_update_append)
    moreover have "Suc (st_num s) - at = Suc (st_num s - at)" using False by simp
    ultimately show ?thesis using False assms(3) ok by (simp add: contents_def drop_take min_def)
  qed
  then have "contents s' = take at (contents s) @ p # drop at (contents s)"
    unfolding contents_def [of s'] by (simp add: s'_def)
  ultimately show ?thesis by (auto simp: s'_def)
qed

lemma sk_insert_list:
  assumes "ptr_alloc_ok mem" "stack_ok cc s"
  shows "(\<exists>s'. OPENSSL_sk_insert mem p at (Some s) = (Ok (length (contents s) + 1), Some s') \<and> stack_ok cc s' \<and>
      contents s' = take at (contents s) @ p # drop at (contents s) \<and> st_comp s' = st_comp s) \<or>
    OPENSSL_sk_insert mem p at (Some s) = (Ok 0, Some s) \<and> (st_num s = INT_MAX \<or> (\<exists>n. mem n = None))"
proof (cases "st_num s \<ge> INT_MAX \<or> sk_grow mem s = None")
  case True
  then have "OPENSSL_sk_insert mem p at (Some s) = (Ok 0, Some s)" by (auto simp: OPENSSL_sk_insert_def)
  moreover have "st_num s = INT_MAX \<or> (\<exists>n. mem n = None)"
    using True sk_grow_succeeds [OF _ assms(2), of mem] assms(2) by (force simp: stack_ok_def)
  ultimately show ?thesis by simp
next
  case False
  then obtain s1 where s1: "sk_grow mem s = Some s1" by auto
  have lt: "st_num s < INT_MAX" using False by simp
  have g: "stack_ok cc s1" "contents s1 = contents s" "st_num s1 = st_num s" "st_num s1 < st_num_alloc s1" "st_comp s1 = st_comp s"
    using sk_grow_ok [OF assms s1 lt] by auto
  have "st_num s1 < INT_MAX" "st_num s = st_num s1" using g(3) lt by simp_all
  from sk_insert_grown [OF g(1) this(1) g(4) s1 this(2), of p at]
  show ?thesis unfolding g(2,3,5) length_contents [OF assms(2)] by (rule disjI1)
qed

lemma sorted_wrt_delete: "sorted_wrt P xs \<Longrightarrow> sorted_wrt P (take n xs @ drop (Suc n) xs)"
proof -
  assume "sorted_wrt P xs"
  then have "sorted_wrt P (take n xs @ drop n xs)" by simp
  moreover have "drop (Suc n) xs = tl (drop n xs)" by (simp add: drop_Suc tl_drop)
  ultimately show ?thesis unfolding sorted_wrt_append by (cases "drop n xs") auto
qed

lemma sk_delete_list:
  assumes "stack_ok cc s" "at < length (contents s)"
  shows "\<exists>s'. OPENSSL_sk_delete at (Some s) = (Ok (contents s ! at), Some s') \<and> stack_ok cc s' \<and>
    contents s' = take at (contents s) @ drop (Suc at) (contents s) \<and> st_comp s' = st_comp s"
proof -
  have ok: "length (st_data s) = st_num_alloc s" "st_num s \<le> st_num_alloc s" "at < st_num s"
    using assms length_contents [OF assms(1)] by (simp_all add: stack_ok_def)
  define data where "data = (if at \<noteq> st_num s - 1
    then take at (st_data s) @ take (st_num s - at - 1) (drop (at + 1) (st_data s)) @ drop (at + (st_num s - at - 1)) (st_data s)
    else st_data s)"
  have mv: "(if at \<noteq> st_num s - 1 then OPENSSL_memmove_ptrs (st_data s) at (at + 1) (st_num s - at - 1)
      else Some (st_data s)) = Some data"
    using ok by (auto simp: data_def OPENSSL_memmove_ptrs_def)
  define s' where "s' = s\<lparr>st_data := data, st_num := st_num s - 1\<rparr>"
  have "OPENSSL_sk_delete at (Some s) = (Ok (contents s ! at), Some s')"
    using ok unfolding OPENSSL_sk_delete_def option.case(2) Let_def mv by (simp add: s'_def contents_def)
  moreover have c: "take (st_num s - 1) data = take at (contents s) @ drop (Suc at) (contents s)"
    using ok by (auto simp: data_def contents_def drop_take min_def)
  then have cs: "contents s' = take at (contents s) @ drop (Suc at) (contents s)"
    unfolding contents_def [of s'] by (simp add: s'_def)
  moreover have "length data = st_num_alloc s" using ok by (auto simp: data_def)
  then have "stack_ok cc s'"
    using assms(1) cs sorted_wrt_delete [of "\<lambda>a b. cc (st_comp s) a b \<le> 0" "contents s" at]
    by (auto simp: stack_ok_def s'_def)
  ultimately show ?thesis by (auto simp: s'_def)
qed

text \<open>What a deletion predicate with side effects keeps, asked once for every element in order.\<close>

fun sk_kept :: "(ptr \<Rightarrow> 'w \<Rightarrow> bool \<times> 'w) \<Rightarrow> ptr list \<Rightarrow> 'w \<Rightarrow> ptr list \<times> 'w" where
  "sk_kept func [] w = ([], w)"
| "sk_kept func (q # qs) w =
     (case func q w of (gone, w) \<Rightarrow>
        (case sk_kept func qs w of (kept, w) \<Rightarrow> (if gone then kept else q # kept, w)))"

lemma set_sk_kept: "set (fst (sk_kept func qs w)) \<subseteq> set qs"
proof (induction qs arbitrary: w)
  case (Cons q qs)
  obtain gone w1 where f: "func q w = (gone, w1)" by (cases "func q w")
  show ?case using Cons [of w1] by (auto simp: f split: prod.splits if_splits)
qed simp

lemma length_sk_kept: "length (fst (sk_kept func qs w)) \<le> length qs"
proof (induction qs arbitrary: w)
  case (Cons q qs)
  obtain gone w1 where f: "func q w = (gone, w1)" by (cases "func q w")
  show ?case using Cons [of w1] by (auto simp: f split: prod.splits)
qed simp

lemma sorted_sk_kept: "sorted_wrt P qs \<Longrightarrow> sorted_wrt P (fst (sk_kept func qs w))"
proof (induction qs arbitrary: w)
  case (Cons q qs)
  obtain gone w1 where f: "func q w = (gone, w1)" by (cases "func q w")
  show ?case using Cons.IH [of w1] Cons.prems set_sk_kept [of func qs w1]
    by (auto simp: f split: prod.splits)
qed simp

lemma delete_if_loop_spec:
  "i \<le> n \<Longrightarrow> n \<le> length data \<Longrightarrow> new \<le> i \<Longrightarrow> sk_kept func (drop i (take n data)) w = (kept, w') \<Longrightarrow>
     \<exists>data'. delete_if_loop func n i new data w = (new + length kept, data', w') \<and>
       take (new + length kept) data' = take new data @ kept \<and> length data' = length data"
proof (induction "n - i" arbitrary: i new data w kept)
  case 0
  then show ?case by (subst delete_if_loop.simps) auto
next
  case (Suc m)
  have lt: "i < n" using Suc.hyps(2) by simp
  obtain gone w1 where f: "func (data ! i) w = (gone, w1)" by (cases "func (data ! i) w")
  have dr: "drop i (take n data) = data ! i # drop (Suc i) (take n data)"
    using lt Suc.prems(2) by (subst Cons_nth_drop_Suc [symmetric]) auto
  obtain kept1 where k1: "sk_kept func (drop (Suc i) (take n data)) w1 = (kept1, w')" "kept = (if gone then kept1 else data ! i # kept1)"
    using Suc.prems(4) by (auto simp: dr f split: prod.splits)
  show ?case
  proof (cases gone)
    case True
    then have "delete_if_loop func n i new data w = delete_if_loop func n (Suc i) new data w1"
      using lt f by (subst delete_if_loop.simps) simp
    then show ?thesis using Suc.hyps(1) [of "Suc i" data new w1 kept1] Suc.hyps(2) Suc.prems k1 lt True by auto
  next
    case False
    let ?d = "data[new := data ! i]"
    have e: "delete_if_loop func n i new data w = delete_if_loop func n (Suc i) (new + 1) ?d w1"
      using lt f False by (subst delete_if_loop.simps) simp
    have "drop (Suc i) (take n ?d) = drop (Suc i) (take n data)"
      using Suc.prems(3) by (simp add: take_update_swap)
    then have "\<exists>data'. delete_if_loop func n (Suc i) (new + 1) ?d w1 = (new + 1 + length kept1, data', w') \<and>
       take (new + 1 + length kept1) data' = take (new + 1) ?d @ kept1 \<and> length data' = length ?d"
      using Suc.hyps(2) Suc.prems k1 lt by (intro Suc.hyps(1)) auto
    moreover have "take (new + 1) ?d = take new data @ [data ! i]"
      using Suc.prems lt by (simp add: take_Suc_conv_app_nth)
    ultimately show ?thesis using k1(2) False e by auto
  qed
qed

lemma sk_delete_if_list:
  assumes "stack_ok cc s" "sk_kept func (contents s) w = (kept, w')"
  shows "\<exists>s'. OPENSSL_sk_delete_if func (Some s) w = (Some s', w') \<and> stack_ok cc s' \<and> contents s' = kept \<and> st_comp s' = st_comp s"
proof -
  have ok: "length (st_data s) = st_num_alloc s" "st_num s \<le> st_num_alloc s" using assms(1) by (simp_all add: stack_ok_def)
  obtain data where d: "delete_if_loop func (st_num s) 0 0 (st_data s) w = (length kept, data, w')"
    "take (length kept) data = kept" "length data = st_num_alloc s"
    using delete_if_loop_spec [of 0 "st_num s" "st_data s" 0 func w kept w'] assms(2) ok by (auto simp: contents_def)
  have "length kept \<le> st_num s"
    using length_sk_kept [of func "contents s" w] assms(2) ok by (simp add: contents_def)
  moreover have "sorted_wrt P kept" if "sorted_wrt P (contents s)" for P
    using sorted_sk_kept [OF that, of func w] assms(2) by simp
  ultimately show ?thesis using d assms(1)
    by (intro exI [of _ "s\<lparr>st_data := data, st_num := length kept\<rparr>"])
      (auto simp: OPENSSL_sk_delete_if_def stack_ok_def contents_def)
qed

lemma sk_scan_at: "sk_scan (\<lambda>q. q = p) xs i = Some j \<Longrightarrow> i \<le> j \<and> j - i < length xs \<and> xs ! (j - i) = p \<and> p \<notin> set (take (j - i) xs)"
proof (induction xs arbitrary: i)
  case (Cons x xs)
  show ?case
  proof (cases "x = p")
    case False
    then have "i + 1 \<le> j \<and> j - (i + 1) < length xs \<and> xs ! (j - (i + 1)) = p \<and> p \<notin> set (take (j - (i + 1)) xs)"
      using Cons by simp
    moreover obtain m where "j - i = Suc m" "j - (i + 1) = m" using calculation by (cases "j - i") auto
    ultimately show ?thesis using False by simp
  qed (use Cons.prems in simp)
qed simp

lemma sk_scan_none: "sk_scan P xs i = None \<longleftrightarrow> (\<forall>x\<in>set xs. \<not> P x)"
  by (induction xs arbitrary: i) auto

lemma remove1_nth: "p \<notin> set (take j xs) \<Longrightarrow> j < length xs \<Longrightarrow> xs ! j = p \<Longrightarrow> remove1 p xs = take j xs @ drop (Suc j) xs"
  by (induction xs arbitrary: j) (auto simp: nth_Cons' take_Cons' split: if_splits nat.splits)

lemma sk_delete_ptr_list:
  assumes "stack_ok cc s"
  shows "\<exists>s'. OPENSSL_sk_delete_ptr p (Some s) = (Ok (if p \<in> set (contents s) then p else 0), Some s') \<and>
    stack_ok cc s' \<and> contents s' = remove1 p (contents s) \<and> st_comp s' = st_comp s"
proof (cases "sk_scan (\<lambda>q. q = p) (contents s) 0")
  case None
  then have "p \<notin> set (contents s)" by (auto simp: sk_scan_none)
  then show ?thesis using None assms by (auto simp: OPENSSL_sk_delete_ptr_def contents_def [symmetric] remove1_idem)
next
  case (Some j)
  then have j: "j < length (contents s)" "contents s ! j = p" "p \<notin> set (take j (contents s))"
    using sk_scan_at by fastforce+
  then have "p \<in> set (contents s)" by auto
  then show ?thesis using sk_delete_list [OF assms j(1)] Some remove1_nth [OF j(3,1,2)] j(2)
    by (simp add: OPENSSL_sk_delete_ptr_def contents_def [symmetric])
qed

lemma sk_sort_ok:
  assumes "stack_ok cc s" "c_compare (cc (st_comp s)) S" "set (contents s) \<subseteq> S"
  shows "\<exists>s'. OPENSSL_sk_sort cc (Some s) = Ok (Some s') \<and> stack_ok cc s' \<and> mset (contents s') = mset (contents s) \<and>
    st_comp s' = st_comp s \<and> st_num s' = st_num s \<and> (st_comp s \<noteq> 0 \<longrightarrow> st_sorted s') \<and> (st_comp s = 0 \<longrightarrow> s' = s)"
proof -
  have ok: "length (st_data s) = st_num_alloc s" "st_num s \<le> st_num_alloc s" "st_num s \<le> PTRDIFF_MAX"
    using assms(1) by (simp_all add: stack_ok_def INT_MAX_def PTRDIFF_MAX_def)
  consider (skip) "st_comp s = 0 \<or> st_sorted s" | (short) "st_comp s \<noteq> 0" "\<not> st_sorted s" "st_num s < 2"
    | (long) "st_comp s \<noteq> 0" "\<not> st_sorted s" "2 \<le> st_num s" by linarith
  then show ?thesis
  proof cases
    case skip
    then show ?thesis using assms(1) by (auto simp: OPENSSL_sk_sort_def)
  next
    case short
    then have "sorted_wrt P (contents s)" for P
      using ok by (cases "st_data s"; cases "st_num s") (auto simp: contents_def)
    then show ?thesis using short assms(1)
      by (intro exI [of _ "s\<lparr>st_sorted := True\<rparr>"]) (auto simp: OPENSSL_sk_sort_def stack_ok_def contents_def)
  next
    case long
    have sub: "set (take (st_num s) (st_data s)) \<subseteq> S" using assms(3) by (simp add: contents_def)
    have nl: "st_num s \<le> length (st_data s)" using ok by simp
    obtain i e data where h: "parent_idx (st_num s - 1) = Ok i"
      "heapify_loop (cc (st_comp s)) (st_num s) i (st_data s) = Ok e"
      "extract_loop (cc (st_comp s)) (st_num s) (st_num s - 1) e = Ok data"
      "sorted_wrt (\<lambda>a b. cc (st_comp s) a b \<le> 0) (take (st_num s) data)" "length data = st_num_alloc s"
      "mset (take (st_num s) data) = mset (contents s)"
      using c_compare.heap_sort [OF assms(2) long(3) nl ok(3) sub] ok by (auto simp: contents_def)
    show ?thesis using long h assms(1)
      by (intro exI [of _ "s\<lparr>st_data := data, st_sorted := True\<rparr>"])
        (auto simp: OPENSSL_sk_sort_def stack_ok_def contents_def)
  qed
qed


section \<open>The properties\<close>

text \<open>
  C21. \<open>OPENSSL_sk_sort\<close>, the heap sort in place, ends without a failing assertion on every
  consistent stack whose comparison function is a total preorder on its elements, and leaves the
  same elements, in ascending order, with the flag set.
\<close>

theorem stack_sort:
  assumes "stack_ok cc s" "st_comp s \<noteq> 0" "c_compare (cc (st_comp s)) S" "set (contents s) \<subseteq> S"
  shows "\<exists>s'. OPENSSL_sk_sort cc (Some s) = Ok (Some s') \<and> stack_ok cc s' \<and> OPENSSL_sk_is_sorted (Some s') \<and>
    mset (contents s') = mset (contents s) \<and> sorted_wrt (\<lambda>a b. cc (st_comp s) a b \<le> 0) (contents s')"
  using sk_sort_ok [OF assms(1,3,4)] assms(2) by (auto simp: OPENSSL_sk_is_sorted_def stack_ok_def)

definition address_cmp :: "u64 \<Rightarrow> ptr \<Rightarrow> ptr \<Rightarrow> int" where
  "address_cmp handle a b = uint a - uint b"

lemma c_compare_address: "c_compare (address_cmp h) S"
  by unfold_locales (auto simp: address_cmp_def)

definition sample_stack :: OPENSSL_STACK where
  "sample_stack = \<lparr>st_num = 3, st_data = [7, 5, 6, 0], st_sorted = False, st_num_alloc = 4, st_comp = 1\<rparr>"

lemma sample_stack_ok: "stack_ok cc sample_stack" "contents sample_stack = [7, 5, 6]" "st_comp sample_stack = 1"
  by (simp_all add: stack_ok_def sample_stack_def contents_def INT_MAX_def)

theorem stack_sort_witness:
  "\<exists>s'. OPENSSL_sk_sort address_cmp (Some sample_stack) = Ok (Some s') \<and> mset (contents s') = {#5, 6, 7#} \<and>
     sorted_wrt (\<lambda>a b. address_cmp 1 a b \<le> 0) (contents s')"
  using stack_sort [where cc = address_cmp and s = sample_stack and S = UNIV] c_compare_address
  by (auto simp: sample_stack_ok add_mset_commute)

text \<open>
  C22. \<open>OPENSSL_sk_find\<close> gives the earliest match: the binary search of a sorted stack and
  the scan of an unsorted one agree, and no assertion of the search fails.
\<close>

theorem stack_find:
  assumes "stack_ok cc s" "st_comp s \<noteq> 0" "c_compare (cc (st_comp s)) S" "set (contents s) \<subseteq> S" "p \<in> S" "p \<noteq> 0"
  shows "OPENSSL_sk_find cc (Some s) p = Ok (sk_scan (\<lambda>q. cc (st_comp s) p q = 0) (contents s) 0)"
proof (cases "OPENSSL_sk_is_sorted (Some s)")
  case True
  have ok: "st_num s \<le> length (st_data s)" using assms(1) by (simp add: stack_ok_def)
  have "sorted_wrt (\<lambda>a b. cc (st_comp s) a b \<le> 0) (take (st_num s) (st_data s))"
  proof (cases "st_sorted s")
    case False
    then have "st_num s < 2" using True by (simp add: OPENSSL_sk_is_sorted_def)
    then show ?thesis by (cases "st_data s"; cases "st_num s") auto
  qed (use assms(1,2) in \<open>simp add: stack_ok_def contents_def\<close>)
  from c_compare.find_loop_scan [OF assms(3) this _ assms(5) ok]
  show ?thesis using True assms(2,4,6) by (simp add: OPENSSL_sk_find_def contents_def)
qed (use assms(2,6) in \<open>simp add: OPENSSL_sk_find_def contents_def\<close>)

theorem stack_find_witness:
  "OPENSSL_sk_find address_cmp (Some sample_stack) 6 = Ok (Some 2)"
  using stack_find [where cc = address_cmp and s = sample_stack and S = UNIV and p = 6] c_compare_address
  by (simp add: sample_stack_ok address_cmp_def)

text \<open>
  Insertion refines insertion into a list: a pointer is put at the index, or at the end behind
  it, and the new length returned, or nothing changes and 0 is returned, which happens only at
  \<open>INT_MAX\<close> elements or when an allocation fails.
\<close>

theorem stack_insert:
  assumes "ptr_alloc_ok mem" "stack_ok cc s"
  shows "(\<exists>s'. OPENSSL_sk_insert mem p at (Some s) = (Ok (length (contents s) + 1), Some s') \<and> stack_ok cc s' \<and>
      contents s' = take at (contents s) @ p # drop at (contents s)) \<and>
      (at = st_num s \<longrightarrow> OPENSSL_sk_push mem p (Some s) = OPENSSL_sk_insert mem p at (Some s)) \<or>
    OPENSSL_sk_insert mem p at (Some s) = (Ok 0, Some s) \<and> (st_num s = INT_MAX \<or> (\<exists>n. mem n = None))"
  using sk_insert_list [OF assms, of p at] by (auto simp: OPENSSL_sk_push_def)

theorem stack_insert_witness:
  "\<exists>s'. OPENSSL_sk_insert (\<lambda>n. Some (replicate (n div 8) 0)) 9 1 (Some sample_stack) = (Ok 4, Some s') \<and>
     contents s' = [7, 9, 5, 6]"
proof -
  have "ptr_alloc_ok (\<lambda>n. Some (replicate (n div 8) 0))" by (simp add: ptr_alloc_ok_def)
  moreover have "st_num sample_stack < INT_MAX" by (simp add: sample_stack_def INT_MAX_def)
  ultimately show ?thesis using stack_insert [OF _ sample_stack_ok(1), where p = 9 and at = 1]
    by (force simp: sample_stack_ok)
qed

text \<open>
  The deletions refine those of a list: by index, by pointer (the first one), at both ends, and
  by a predicate, which is asked once for every element in order. They keep the stack consistent,
  with it the meaning of the sorted flag.
\<close>

theorem stack_delete:
  assumes "stack_ok cc s"
  shows "\<exists>s1 s2 s3.
    OPENSSL_sk_delete at (Some s) = (Ok (if at < length (contents s) then contents s ! at else 0), Some s1) \<and>
    contents s1 = take at (contents s) @ drop (Suc at) (contents s) \<and> stack_ok cc s1 \<and>
    OPENSSL_sk_delete_ptr p (Some s) = (Ok (if p \<in> set (contents s) then p else 0), Some s2) \<and>
    contents s2 = remove1 p (contents s) \<and> stack_ok cc s2 \<and>
    OPENSSL_sk_delete_if func (Some s) w = (Some s3, snd (sk_kept func (contents s) w)) \<and>
    contents s3 = fst (sk_kept func (contents s) w) \<and> stack_ok cc s3 \<and>
    OPENSSL_sk_shift (Some s) = OPENSSL_sk_delete 0 (Some s) \<and>
    OPENSSL_sk_pop (Some s) = OPENSSL_sk_delete (length (contents s) - 1) (Some s)"
proof -
  have n: "st_num s = length (contents s)" using length_contents [OF assms] by simp
  obtain s1 where "OPENSSL_sk_delete at (Some s) = (Ok (if at < length (contents s) then contents s ! at else 0), Some s1)"
    "contents s1 = take at (contents s) @ drop (Suc at) (contents s)" "stack_ok cc s1"
    using sk_delete_list [OF assms, of at] assms n
    by (cases "at < length (contents s)") (auto simp: OPENSSL_sk_delete_def)
  moreover obtain s2 where "OPENSSL_sk_delete_ptr p (Some s) = (Ok (if p \<in> set (contents s) then p else 0), Some s2)"
    "contents s2 = remove1 p (contents s)" "stack_ok cc s2"
    using sk_delete_ptr_list [OF assms, of p] by blast
  moreover obtain s3 where "OPENSSL_sk_delete_if func (Some s) w = (Some s3, snd (sk_kept func (contents s) w))"
    "contents s3 = fst (sk_kept func (contents s) w)" "stack_ok cc s3"
    using sk_delete_if_list [OF assms prod.collapse [symmetric], of func w] by blast
  moreover have "OPENSSL_sk_shift (Some s) = OPENSSL_sk_delete 0 (Some s)"
    "OPENSSL_sk_pop (Some s) = OPENSSL_sk_delete (length (contents s) - 1) (Some s)"
    by (cases "contents s"; simp add: OPENSSL_sk_shift_def OPENSSL_sk_pop_def OPENSSL_sk_delete_def n)+
  ultimately show ?thesis by blast
qed

theorem stack_delete_witness:
  "\<exists>s'. OPENSSL_sk_delete 1 (Some sample_stack) = (Ok 5, Some s') \<and> contents s' = [7, 6]"
  using stack_delete [OF sample_stack_ok(1), where at = 1 and p = 5 and func = "\<lambda>_ w. (True, w)" and w = "()"]
  by (auto simp: sample_stack_ok)

text \<open>
  \<open>OPENSSL_sk_set\<close> replaces one element and leaves the sorted flag as it is: a sorted
  stack can end up inconsistent, and a search for an element it holds then fails.
\<close>

theorem stack_set_unsorted:
  "\<exists>s s'. stack_ok address_cmp s \<and> OPENSSL_sk_set (Some s) 0 9 = (9, Some s') \<and> 9 \<in> set (contents s') \<and>
      \<not> stack_ok address_cmp s' \<and> OPENSSL_sk_find address_cmp (Some s') 9 = Ok None"
proof -
  define s where "s = \<lparr>st_num = 3, st_data = [5, 6, 7, 0], st_sorted = True, st_num_alloc = 4, st_comp = 1\<rparr>"
  define s' where "s' = s\<lparr>st_data := [9, 6, 7, 0]\<rparr>"
  have "stack_ok address_cmp s" by (simp add: s_def stack_ok_def contents_def INT_MAX_def address_cmp_def)
  moreover have "OPENSSL_sk_set (Some s) 0 9 = (9, Some s')" by (simp add: s_def s'_def OPENSSL_sk_set_def)
  moreover have "9 \<in> set (contents s')" "\<not> stack_ok address_cmp s'"
    by (simp_all add: s_def s'_def stack_ok_def contents_def address_cmp_def numeral_3_eq_3)
  moreover have "find_loop (address_cmp 1) 9 [9, 6, 7, 0] 0 3 = Ok None"
    by (simp add: find_loop.simps Let_def address_cmp_def)
  then have "OPENSSL_sk_find address_cmp (Some s') 9 = Ok None"
    by (simp add: OPENSSL_sk_find_def OPENSSL_sk_is_sorted_def s_def s'_def)
  ultimately show ?thesis by blast
qed

text \<open>An element is replaced at its index.\<close>

lemma sk_set_list:
  assumes "stack_ok cc s" "i < length (contents s)"
  shows "\<exists>s'. OPENSSL_sk_set (Some s) i p = (p, Some s') \<and> contents s' = (contents s)[i := p] \<and> st_sorted s' = st_sorted s"
  using assms length_contents [OF assms(1)] by (simp add: OPENSSL_sk_set_def contents_def take_update_swap)

end
