(* ===== verification/Siphash.thy ===== *)
theory Siphash
  imports C_Mem
begin

text \<open>
  SipHash-2-4 of crypto/siphash/siphash.c, with the rotation and the little-endian load of
  crypto/internal.h. The four words of the state are a tuple.
\<close>

definition CRYPTO_rotl_u64 :: "u64 \<Rightarrow> nat \<Rightarrow> u64" where
  "CRYPTO_rotl_u64 value shift = push_bit shift value OR drop_bit ((64 - shift) mod 64) value"

definition CRYPTO_load_u64_le :: "byte list \<Rightarrow> u64" where
  "CRYPTO_load_u64_le bs = of_nat (be_val (rev (take 8 bs)))"

type_synonym siphash_state = "u64 \<times> u64 \<times> u64 \<times> u64"

definition siphash_round :: "siphash_state \<Rightarrow> siphash_state" where
  "siphash_round v =
     (case v of (v0, v1, v2, v3) \<Rightarrow>
        let v0 = v0 + v1;
            v2 = v2 + v3;
            v1 = CRYPTO_rotl_u64 v1 13;
            v3 = CRYPTO_rotl_u64 v3 16;
            v1 = v1 XOR v0;
            v3 = v3 XOR v2;
            v0 = CRYPTO_rotl_u64 v0 32;
            v2 = v2 + v1;
            v0 = v0 + v3;
            v1 = CRYPTO_rotl_u64 v1 17;
            v3 = CRYPTO_rotl_u64 v3 21;
            v1 = v1 XOR v2;
            v3 = v3 XOR v0;
            v2 = CRYPTO_rotl_u64 v2 32
        in (v0, v1, v2, v3))"

text \<open>One word of input: into \<open>v[3]\<close>, two rounds, into \<open>v[0]\<close>.\<close>

definition siphash_word :: "u64 \<Rightarrow> siphash_state \<Rightarrow> siphash_state" where
  "siphash_word m v =
     (case v of (v0, v1, v2, v3) \<Rightarrow>
        (case siphash_round (siphash_round (v0, v1, v2, v3 XOR m)) of
           (v0, v1, v2, v3) \<Rightarrow> (v0 XOR m, v1, v2, v3)))"

function siphash_loop :: "byte list \<Rightarrow> nat \<Rightarrow> siphash_state \<Rightarrow> byte list \<times> nat \<times> siphash_state" where
  "siphash_loop input input_len v =
     (if input_len \<ge> 8 then siphash_loop (drop 8 input) (input_len - 8) (siphash_word (CRYPTO_load_u64_le input) v)
      else (input, input_len, v))"
  by pat_completeness auto
termination by (relation "measure (\<lambda>(input, n, v). n)") auto

declare siphash_loop.simps [simp del]

definition SIPHASH_24 :: "u64 \<times> u64 \<Rightarrow> byte list \<Rightarrow> nat \<Rightarrow> u64" where
  "SIPHASH_24 key input input_len =
     (let orig_input_len = input_len;
          v = (fst key XOR 0x736f6d6570736575, snd key XOR 0x646f72616e646f6d,
               fst key XOR 0x6c7967656e657261, snd key XOR 0x7465646279746573)
      in case siphash_loop input input_len v of (input, input_len, v) \<Rightarrow>
         (let last_block = replicate 8 0;
              last_block = take input_len input @ drop input_len last_block;
              last_block = last_block[7 := of_nat orig_input_len AND 0xff]
          in case siphash_word (CRYPTO_load_u64_le last_block) v of (v0, v1, v2, v3) \<Rightarrow>
             (case siphash_round (siphash_round (siphash_round (siphash_round (v0, v1, v2 XOR 0xff, v3)))) of
                (v0, v1, v2, v3) \<Rightarrow> v0 XOR v1 XOR v2 XOR v3)))"

section \<open>The algorithm as it is published\<close>

text \<open>
  SipHash-c-d as its authors describe it, for c = 2 and d = 4, written down without the
  definitions above. A round is two half rounds, the second with the outer words exchanged;
  its rotations are those of the word library.
\<close>

definition sip_half :: "nat \<Rightarrow> nat \<Rightarrow> u64 \<times> u64 \<times> u64 \<times> u64 \<Rightarrow> u64 \<times> u64 \<times> u64 \<times> u64" where
  "sip_half m n = (\<lambda>(a, b, c, d).
     (word_rotl 32 (a + b), word_rotl m b XOR (a + b), c + d, word_rotl n d XOR (c + d)))"

definition sip_swap :: "u64 \<times> u64 \<times> u64 \<times> u64 \<Rightarrow> u64 \<times> u64 \<times> u64 \<times> u64" where
  "sip_swap = (\<lambda>(a, b, c, d). (c, b, a, d))"

definition sip_round :: "u64 \<times> u64 \<times> u64 \<times> u64 \<Rightarrow> u64 \<times> u64 \<times> u64 \<times> u64" where
  "sip_round v = sip_swap (sip_half 17 21 (sip_swap (sip_half 13 16 v)))"

definition sip_compress :: "u64 \<Rightarrow> u64 \<times> u64 \<times> u64 \<times> u64 \<Rightarrow> u64 \<times> u64 \<times> u64 \<times> u64" where
  "sip_compress m = (\<lambda>(a, b, c, d).
     case (sip_round ^^ 2) (a, b, c, d XOR m) of (a, b, c, d) \<Rightarrow> (a XOR m, b, c, d))"

text \<open>
  The message is padded with zero bytes up to one byte short of a whole word, then with its
  length modulo 256; each eight bytes are a little-endian word. The initial state is the key
  twice, XORed with the ASCII text ``somepseudorandomlygeneratedbytes''.
\<close>

definition sip_pad :: "byte list \<Rightarrow> byte list" where
  "sip_pad bs = bs @ replicate (7 - length bs mod 8) 0 @ [of_nat (length bs)]"

definition sip_blocks :: "byte list \<Rightarrow> u64 list" where
  "sip_blocks bs =
     map (\<lambda>i. of_nat (horner_sum unat 256 (take 8 (drop (8 * i) (sip_pad bs))))) [0..<length bs div 8 + 1]"

definition ascii_word :: "string \<Rightarrow> u64" where
  "ascii_word cs = of_nat (horner_sum of_char 256 (rev cs))"

definition siphash_spec :: "u64 \<times> u64 \<Rightarrow> byte list \<Rightarrow> u64" where
  "siphash_spec = (\<lambda>(k0, k1) bs.
     case fold sip_compress (sip_blocks bs)
         (k0 XOR ascii_word ''somepseu'', k1 XOR ascii_word ''dorandom'',
          k0 XOR ascii_word ''lygenera'', k1 XOR ascii_word ''tedbytes'') of
       (a, b, c, d) \<Rightarrow>
         (case (sip_round ^^ 4) (a, b, c XOR 0xff, d) of (a, b, c, d) \<Rightarrow> a XOR b XOR c XOR d))"

section \<open>The code computes it\<close>

lemma rotl_u64:
  assumes "0 < n" and "n < 64"
  shows "CRYPTO_rotl_u64 w n = word_rotl n w"
proof (rule bit_word_eqI)
  fix i assume i: "i < LENGTH(64)"
  show "bit (CRYPTO_rotl_u64 w n) i \<longleftrightarrow> bit (word_rotl n w) i"
  proof (cases "n \<le> i")
    case True
    have "(i + (64 - n)) mod 64 = i - n"
    proof -
      have "i + (64 - n) = 64 + (i - n)" using True assms(2) by simp
      moreover have "i - n < 64" using i by simp
      ultimately show ?thesis by simp
    qed
    moreover have "\<not> bit w j" if "64 \<le> j" for j using that bit_imp_le_length [of w j] by auto
    ultimately show ?thesis using True i assms
      by (simp add: CRYPTO_rotl_u64_def bit_simps bit_word_rotl_iff)
  next
    case False
    then have "(i + (64 - n)) mod 64 = i + (64 - n)" using assms(2) by simp
    with False i assms show ?thesis
      by (simp add: CRYPTO_rotl_u64_def bit_simps bit_word_rotl_iff) (metis add.commute)
  qed
qed

lemma siphash_round_eq: "siphash_round v = sip_round v"
  by (cases v) (simp add: siphash_round_def sip_round_def sip_half_def sip_swap_def rotl_u64 Let_def)

lemma siphash_word_eq: "siphash_word m v = sip_compress m v"
  by (cases v) (simp add: siphash_word_def sip_compress_def siphash_round_eq eval_nat_numeral split: prod.split)

lemma ascii_words:
  "ascii_word ''somepseu'' = 0x736f6d6570736575" "ascii_word ''dorandom'' = 0x646f72616e646f6d"
  "ascii_word ''lygenera'' = 0x6c7967656e657261" "ascii_word ''tedbytes'' = 0x7465646279746573"
  by (simp_all add: ascii_word_def)

lemma load_u64_horner: "CRYPTO_load_u64_le bs = of_nat (horner_sum unat 256 (take 8 bs))"
proof -
  have "be_val (rev xs) = horner_sum unat 256 xs" for xs :: "byte list"
    by (induction xs) (simp_all add: be_val_append)
  then show ?thesis by (simp add: CRYPTO_load_u64_le_def)
qed

function le_words :: "byte list \<Rightarrow> u64 list" where
  "le_words bs = (if length bs < 8 then [] else CRYPTO_load_u64_le bs # le_words (drop 8 bs))"
  by pat_completeness auto
termination by (relation "measure length") auto

declare le_words.simps [simp del]

lemma le_words_map:
  "le_words bs = map (\<lambda>i. of_nat (horner_sum unat 256 (take 8 (drop (8 * i) bs)))) [0..<length bs div 8]"
proof (induction bs rule: le_words.induct)
  case (1 bs)
  show ?case
  proof (cases "length bs < 8")
    case True
    then show ?thesis by (simp add: le_words.simps [of bs])
  next
    case False
    then have "length bs div 8 = Suc (length (drop 8 bs) div 8)" by (simp add: le_div_geq)
    then show ?thesis using False 1
      by (simp add: le_words.simps [of bs] load_u64_horner map_upt_Suc add.commute del: upt_Suc)
  qed
qed

lemma le_words_pad: "le_words (sip_pad bs) = sip_blocks bs"
proof -
  have "length (sip_pad bs) = 8 * (length bs div 8 + 1)"
    by (simp add: sip_pad_def) presburger
  then have "length (sip_pad bs) div 8 = length bs div 8 + 1" by simp
  then show ?thesis unfolding le_words_map sip_blocks_def by simp
qed

lemma load_prefix: "8 \<le> length x \<Longrightarrow> CRYPTO_load_u64_le (x @ y) = CRYPTO_load_u64_le x"
  by (simp add: CRYPTO_load_u64_le_def)

lemma le_words_step: "8 \<le> length bs \<Longrightarrow> le_words (bs @ t) = CRYPTO_load_u64_le bs # le_words (drop 8 bs @ t)"
  by (subst le_words.simps) (simp add: load_prefix)

lemma siphash_loop_words:
  "\<exists>r. siphash_loop (bs @ rest) (length bs) v = (r @ rest, length r, fold siphash_word (le_words bs) v) \<and> length r < 8 \<and>
     length r = length bs mod 8 \<and> (\<forall>t v. fold siphash_word (le_words (bs @ t)) v =
       fold siphash_word (le_words (r @ t)) (fold siphash_word (le_words bs) v))"
proof (induction bs arbitrary: v rule: length_induct)
  case (1 bs)
  show ?case
  proof (cases "8 \<le> length bs")
    case False
    then show ?thesis
      by (intro exI [of _ bs]) (simp add: siphash_loop.simps [of "bs @ rest"] le_words.simps [of bs])
  next
    case True
    then have l: "length (drop 8 bs) < length bs" by simp
    define w where "w = siphash_word (CRYPTO_load_u64_le bs) v"
    obtain r where r: "siphash_loop (drop 8 bs @ rest) (length (drop 8 bs)) w =
        (r @ rest, length r, fold siphash_word (le_words (drop 8 bs)) w)" "length r < 8" "length r = length (drop 8 bs) mod 8"
      "\<forall>t v. fold siphash_word (le_words (drop 8 bs @ t)) v =
         fold siphash_word (le_words (r @ t)) (fold siphash_word (le_words (drop 8 bs)) v)"
      using 1 [rule_format, OF l, of w] by blast
    have "le_words bs = CRYPTO_load_u64_le bs # le_words (drop 8 bs)" using le_words_step [OF True, of "[]"] by simp
    moreover have "siphash_loop (bs @ rest) (length bs) v = siphash_loop (drop 8 bs @ rest) (length (drop 8 bs)) w"
      using True by (subst siphash_loop.simps) (simp add: w_def load_prefix)
    moreover have "length (drop 8 bs) mod 8 = length bs mod 8" using True by (simp add: le_mod_geq)
    ultimately show ?thesis using r le_words_step [OF True] by (intro exI [of _ r]) (simp add: w_def del: split_paired_All)
  qed
qed

text \<open>
  C40. \<open>SIPHASH_24\<close> computes SipHash-2-4 as published, for inputs of every length: the
  compression of the little-endian words of the padded message with two rounds each, then four
  rounds. The published algorithm is written down apart from the code.
\<close>

theorem siphash_equals_spec: "SIPHASH_24 key (bs @ rest) (length bs) = siphash_spec key bs"
proof -
  define v where "v = (fst key XOR 0x736f6d6570736575, snd key XOR 0x646f72616e646f6d,
               fst key XOR 0x6c7967656e657261, snd key XOR 0x7465646279746573 :: u64)"
  obtain r where r: "siphash_loop (bs @ rest) (length bs) v = (r @ rest, length r, fold siphash_word (le_words bs) v)"
    "length r < 8" "length r = length bs mod 8"
    "\<And>t v. fold siphash_word (le_words (bs @ t)) v = fold siphash_word (le_words (r @ t)) (fold siphash_word (le_words bs) v)"
    using siphash_loop_words [of bs rest v] by blast
  define pad :: "byte list" where "pad = replicate (7 - length r) 0 @ [of_nat (length bs)]"
  have "(of_nat (length bs) :: byte) AND 0xff = of_nat (length bs)"
  proof -
    have "(0xff :: byte) = - 1" by simp
    then show ?thesis by (simp only: and.right_neutral)
  qed
  moreover have "drop (length r) (replicate 8 0) = replicate (7 - length r) (0 :: byte) @ [0]"
  proof -
    have "8 - length r = Suc (7 - length r)" using r(2) by simp
    then show ?thesis by (simp add: replicate_append_same)
  qed
  ultimately have b: "(take (length r) (r @ rest) @ drop (length r) (replicate 8 0))[7 := of_nat (length bs) AND 0xff] = r @ pad"
    using r(2) by (simp add: pad_def list_update_append)
  have p: "sip_pad bs = bs @ pad" by (simp add: sip_pad_def pad_def r(3))
  have "length (r @ pad) = 8" using r(2) by (simp add: pad_def)
  then have w: "le_words (r @ pad) = [CRYPTO_load_u64_le (r @ pad)]"
    using le_words_step [of "r @ pad" "[]"] by (simp add: le_words.simps [of "[]"])
  have f: "fold siphash_word ws = fold sip_compress ws" for ws
    by (rule arg_cong2 [where f = fold]) (simp_all add: fun_eq_iff siphash_word_eq)
  obtain k0 k1 where k: "key = (k0, k1)" by fastforce
  have words: "fold siphash_word (le_words (r @ pad)) (fold siphash_word (le_words bs) v) = fold sip_compress (sip_blocks bs) v"
    using r(4) [of pad v] unfolding p [symmetric] le_words_pad f by simp
  have "SIPHASH_24 key (bs @ rest) (length bs) =
      (case fold sip_compress (sip_blocks bs) v of (v0, v1, v2, v3) \<Rightarrow>
         (case siphash_round (siphash_round (siphash_round (siphash_round (v0, v1, v2 XOR 0xff, v3)))) of
            (v0, v1, v2, v3) \<Rightarrow> v0 XOR v1 XOR v2 XOR v3))"
    unfolding SIPHASH_24_def Let_def v_def [symmetric] r(1) prod.case b words [symmetric] w by simp
  then show ?thesis
    by (simp add: siphash_spec_def ascii_words k v_def siphash_round_eq eval_nat_numeral)
qed

text \<open>The test vector that the authors of SipHash publish.\<close>

lemma siphash_test_vector:
  "SIPHASH_24 (0x0706050403020100, 0x0f0e0d0c0b0a0908) [0, 1, 2, 3, 4, 5, 6, 7, 8, 9, 10, 11, 12, 13, 14] 15 = 0xa129ca6149be45e5"
  by (simp add: SIPHASH_24_def siphash_loop.simps siphash_word_def siphash_round_def CRYPTO_rotl_u64_def CRYPTO_load_u64_le_def cong: let_weak_cong)
end
