(* ===== verification/Lhash.thy ===== *)
theory Lhash
  imports Stack
begin

text \<open>
  The hash table of crypto/lhash/lhash.c. A chain is the list of its items in order; an item
  keeps its own address, so that freed and live items can be told apart. The caller's hash and
  comparison functions and the allocations are parameters. An operation works on the table and,
  where it calls back, on a world of the caller's own. \<open>Abort\<close> is a failing assertion or the
  use of a freed item.
\<close>

definition kMinNumBuckets :: nat where "kMinNumBuckets = 16"
definition kMaxAverageChainLength :: nat where "kMaxAverageChainLength = 2"
definition kMinAverageChainLength :: nat where "kMinAverageChainLength = 1"
definition UINT_MAX :: nat where "UINT_MAX = 4294967295"

record LHASH_ITEM =
  it_addr :: u64
  it_data :: ptr
  it_hash :: u32

record LHASH =
  num_items :: nat
  buckets :: "LHASH_ITEM list list"
  num_buckets :: nat
  callback_depth :: nat
  lh_comp :: u64
  lh_hash :: u64

type_synonym hash_caller = "u64 \<Rightarrow> ptr \<Rightarrow> u32"
type_synonym cmp_caller = "u64 \<Rightarrow> ptr \<Rightarrow> ptr \<Rightarrow> int"

definition size_dec :: "nat \<Rightarrow> nat" where
  "size_dec n = (n + (2 ^ 64 - 1)) mod 2 ^ 64"

text \<open>
  \<open>mem n\<close> tells whether a block of \<open>n\<close> bytes can be allocated; \<open>struct_ok\<close>, whether
  the structure can.
\<close>

definition OPENSSL_lh_new :: "bool \<Rightarrow> (nat \<Rightarrow> bool) \<Rightarrow> u64 \<Rightarrow> u64 \<Rightarrow> LHASH option" where
  "OPENSSL_lh_new struct_ok mem hash_fn cmp_fn =
     (if \<not> struct_ok then None
      else if \<not> mem (kMinNumBuckets * 8) then None
      else Some \<lparr>num_items = 0, buckets = replicate kMinNumBuckets [], num_buckets = kMinNumBuckets,
                 callback_depth = 0, lh_comp = cmp_fn, lh_hash = hash_fn\<rparr>)"

definition OPENSSL_lh_num_items :: "LHASH \<Rightarrow> nat" where
  "OPENSSL_lh_num_items lh = num_items lh"

text \<open>
  The pointer to the pointer to the item equal to the data, as a bucket and a position in
  its chain; the position behind the last item stands for the pointer that holds \<open>NULL\<close>.
\<close>

fun chain_pos :: "(ptr \<Rightarrow> int) \<Rightarrow> LHASH_ITEM list \<Rightarrow> nat" where
  "chain_pos c [] = 0"
| "chain_pos c (cur # chain) = (if c (it_data cur) = 0 then 0 else Suc (chain_pos c chain))"

definition get_next_ptr_and_hash :: "hash_caller \<Rightarrow> cmp_caller \<Rightarrow> LHASH \<Rightarrow> ptr \<Rightarrow> u32 \<times> nat \<times> nat" where
  "get_next_ptr_and_hash call_hash call_cmp lh data =
     (let hash = call_hash (lh_hash lh) data;
          b = unat hash mod num_buckets lh
      in (hash, b, chain_pos (\<lambda>cur. call_cmp (lh_comp lh) cur data) (buckets lh ! b)))"

definition get_next_ptr_by_key :: "LHASH \<Rightarrow> 'k \<Rightarrow> u32 \<Rightarrow> ('k \<Rightarrow> ptr \<Rightarrow> int) \<Rightarrow> nat \<times> nat" where
  "get_next_ptr_by_key lh key key_hash cmp_key =
     (let b = unat key_hash mod num_buckets lh
      in (b, chain_pos (\<lambda>cur. cmp_key key cur) (buckets lh ! b)))"

definition deref_item :: "LHASH \<Rightarrow> nat \<Rightarrow> nat \<Rightarrow> LHASH_ITEM option" where
  "deref_item lh b i = (if i < length (buckets lh ! b) then Some (buckets lh ! b ! i) else None)"

definition OPENSSL_lh_retrieve :: "hash_caller \<Rightarrow> cmp_caller \<Rightarrow> LHASH \<Rightarrow> ptr \<Rightarrow> ptr" where
  "OPENSSL_lh_retrieve call_hash call_cmp lh data =
     (case get_next_ptr_and_hash call_hash call_cmp lh data of
        (_, b, i) \<Rightarrow> (case deref_item lh b i of None \<Rightarrow> 0 | Some item \<Rightarrow> it_data item))"

definition OPENSSL_lh_retrieve_key :: "LHASH \<Rightarrow> 'k \<Rightarrow> u32 \<Rightarrow> ('k \<Rightarrow> ptr \<Rightarrow> int) \<Rightarrow> ptr" where
  "OPENSSL_lh_retrieve_key lh key key_hash cmp_key =
     (case get_next_ptr_by_key lh key key_hash cmp_key of
        (b, i) \<Rightarrow> (case deref_item lh b i of None \<Rightarrow> 0 | Some item \<Rightarrow> it_data item))"

section \<open>Resizing\<close>

text \<open>Each item moves to the front of its new chain.\<close>

fun rebucket_chain :: "nat \<Rightarrow> LHASH_ITEM list \<Rightarrow> LHASH_ITEM list list \<Rightarrow> LHASH_ITEM list list" where
  "rebucket_chain n [] new_buckets = new_buckets"
| "rebucket_chain n (cur # chain) new_buckets =
     (let new_bucket = unat (it_hash cur) mod n
      in rebucket_chain n chain (new_buckets[new_bucket := cur # new_buckets ! new_bucket]))"

fun rebucket_loop :: "nat \<Rightarrow> LHASH_ITEM list list \<Rightarrow> LHASH_ITEM list list \<Rightarrow> LHASH_ITEM list list" where
  "rebucket_loop n [] new_buckets = new_buckets"
| "rebucket_loop n (chain # rest) new_buckets = rebucket_loop n rest (rebucket_chain n chain new_buckets)"

definition lh_rebucket :: "(nat \<Rightarrow> bool) \<Rightarrow> nat \<Rightarrow> LHASH \<Rightarrow> LHASH" where
  "lh_rebucket mem new_num_buckets lh =
     (let alloc_size = size_mul 8 new_num_buckets
      in if alloc_size div 8 \<noteq> new_num_buckets then lh
         else if \<not> mem alloc_size then lh
         else lh\<lparr>num_buckets := new_num_buckets,
                 buckets := rebucket_loop new_num_buckets (buckets lh) (replicate new_num_buckets [])\<rparr>)"

definition lh_maybe_resize :: "(nat \<Rightarrow> bool) \<Rightarrow> (LHASH, unit) op" where
  "lh_maybe_resize mem lh =
     (if callback_depth lh > 0 then (Ok (), lh)
      else if \<not> num_buckets lh \<ge> kMinNumBuckets then (Abort, lh)
      else
        (let avg_chain_length = num_items lh div num_buckets lh
         in if avg_chain_length > kMaxAverageChainLength then
              (let new_num_buckets = size_mul (num_buckets lh) 2
               in (Ok (), if new_num_buckets > num_buckets lh then lh_rebucket mem new_num_buckets lh else lh))
            else if avg_chain_length < kMinAverageChainLength \<and> num_buckets lh > kMinNumBuckets then
              (let new_num_buckets = num_buckets lh div 2;
                   new_num_buckets = (if new_num_buckets < kMinNumBuckets then kMinNumBuckets else new_num_buckets)
               in (Ok (), lh_rebucket mem new_num_buckets lh))
            else (Ok (), lh)))"

section \<open>Inserting and deleting\<close>

text \<open>\<open>fresh\<close> is the address of a new item, when one can be allocated; the result is \<open>*old_data\<close>.\<close>

definition OPENSSL_lh_insert ::
    "(nat \<Rightarrow> bool) \<Rightarrow> u64 option \<Rightarrow> hash_caller \<Rightarrow> cmp_caller \<Rightarrow> ptr \<Rightarrow> (LHASH, ptr) op" where
  "OPENSSL_lh_insert mem fresh call_hash call_cmp data lh =
     (case get_next_ptr_and_hash call_hash call_cmp lh data of
        (hash, b, i) \<Rightarrow>
          (case deref_item lh b i of
             Some item \<Rightarrow>
               (Ok (it_data item),
                lh\<lparr>buckets := (buckets lh)[b := (buckets lh ! b)[i := item\<lparr>it_data := data\<rparr>]]\<rparr>)
           | None \<Rightarrow>
               (case fresh of
                  None \<Rightarrow> (Err, lh)
                | Some addr \<Rightarrow>
                    op_then (lh_maybe_resize mem) (op_ret 0)
                      (lh\<lparr>buckets := (buckets lh)[b := buckets lh ! b @ [\<lparr>it_addr = addr, it_data = data, it_hash = hash\<rparr>]],
                          num_items := size_add (num_items lh) 1\<rparr>))))"

definition OPENSSL_lh_delete ::
    "(nat \<Rightarrow> bool) \<Rightarrow> hash_caller \<Rightarrow> cmp_caller \<Rightarrow> ptr \<Rightarrow> (LHASH, ptr) op" where
  "OPENSSL_lh_delete mem call_hash call_cmp data lh =
     (case get_next_ptr_and_hash call_hash call_cmp lh data of
        (_, b, i) \<Rightarrow>
          (case deref_item lh b i of
             None \<Rightarrow> (Ok 0, lh)
           | Some item \<Rightarrow>
               op_then (lh_maybe_resize mem) (op_ret (it_data item))
                 (lh\<lparr>buckets := (buckets lh)[b := take i (buckets lh ! b) @ drop (Suc i) (buckets lh ! b)],
                     num_items := size_dec (num_items lh)\<rparr>)))"

section \<open>Calling back for every item\<close>

text \<open>
  The callback may change the table. A chain is followed by address: the next item is read
  before the call, and if it is gone afterwards, it has been freed. The loops may run
  forever, when every call adds items: then the result is \<open>None\<close>.
\<close>

definition chain_from :: "u64 \<Rightarrow> LHASH_ITEM list \<Rightarrow> LHASH_ITEM list" where
  "chain_from a chain = dropWhile (\<lambda>it. it_addr it \<noteq> a) chain"

definition chain_head :: "LHASH_ITEM list \<Rightarrow> u64 option" where
  "chain_head chain = (case chain of [] \<Rightarrow> None | it # _ \<Rightarrow> Some (it_addr it))"

partial_function (option) doall_chain ::
    "(ptr \<Rightarrow> LHASH \<times> 'w \<Rightarrow> LHASH \<times> 'w) \<Rightarrow> nat \<Rightarrow> u64 option \<Rightarrow> LHASH \<times> 'w \<Rightarrow> (unit result \<times> LHASH \<times> 'w) option" where
  "doall_chain func b cur st =
     (case cur of
        None \<Rightarrow> Some (Ok (), st)
      | Some a \<Rightarrow>
          (case chain_from a (buckets (fst st) ! b) of
             [] \<Rightarrow> Some (Abort, st)
           | it # rest \<Rightarrow> doall_chain func b (chain_head rest) (func (it_data it) st)))"

partial_function (option) doall_loop ::
    "(ptr \<Rightarrow> LHASH \<times> 'w \<Rightarrow> LHASH \<times> 'w) \<Rightarrow> nat \<Rightarrow> LHASH \<times> 'w \<Rightarrow> (unit result \<times> LHASH \<times> 'w) option" where
  "doall_loop func i st =
     (if i < num_buckets (fst st) then
        Option.bind (doall_chain func i (chain_head (buckets (fst st) ! i)) st) (\<lambda>(r, st).
          (case r of Ok _ \<Rightarrow> doall_loop func (i + 1) st | Err \<Rightarrow> Some (Err, st) | Abort \<Rightarrow> Some (Abort, st)))
      else Some (Ok (), st))"

definition OPENSSL_lh_doall_arg ::
    "(nat \<Rightarrow> bool) \<Rightarrow> (ptr \<Rightarrow> LHASH \<times> 'w \<Rightarrow> LHASH \<times> 'w) \<Rightarrow> LHASH option \<Rightarrow> 'w \<Rightarrow>
     (unit result \<times> LHASH option \<times> 'w) option" where
  "OPENSSL_lh_doall_arg mem func lh w =
     (case lh of
        None \<Rightarrow> Some (Ok (), None, w)
      | Some lh \<Rightarrow>
          (let lh = (if callback_depth lh < UINT_MAX then lh\<lparr>callback_depth := callback_depth lh + 1\<rparr> else lh)
           in Option.bind (doall_loop func 0 (lh, w)) (\<lambda>(r, lh, w).
                case r of
                  Ok _ \<Rightarrow>
                    (let lh = (if callback_depth lh < UINT_MAX then lh\<lparr>callback_depth := callback_depth lh - 1\<rparr> else lh)
                     in case lh_maybe_resize mem lh of (r, lh) \<Rightarrow> Some (r, Some lh, w))
                | Err \<Rightarrow> Some (Err, Some lh, w)
                | Abort \<Rightarrow> Some (Abort, Some lh, w))))"

end
