(* ===== verification/Lhash_Table.thy ===== *)
theory Lhash_Table
  imports Lhash Stack_List
begin

text \<open>
  The hash table as the multiset of its elements: the contract of the caller's hash and comparison
  functions, the consistency every operation keeps (also over a resize), and iteration with a
  callback that changes the table.
\<close>

lemma filter_mset_none: "filter_mset P M = {#} \<longleftrightarrow> (\<forall>e\<in>#M. \<not> P e)"
  by (induction M) auto

section \<open>The contract of the hash and comparison functions\<close>

locale hash_keys =
  fixes h :: "'a \<Rightarrow> u32"
    and c :: "'a \<Rightarrow> 'a \<Rightarrow> int"
    and S :: "'a set"
  assumes eq_refl: "a \<in> S \<Longrightarrow> c a a = 0"
    and eq_sym: "a \<in> S \<Longrightarrow> b \<in> S \<Longrightarrow> c a b = 0 \<Longrightarrow> c b a = 0"
    and eq_trans: "a \<in> S \<Longrightarrow> b \<in> S \<Longrightarrow> d \<in> S \<Longrightarrow> c a b = 0 \<Longrightarrow> c b d = 0 \<Longrightarrow> c a d = 0"
    and eq_hash: "a \<in> S \<Longrightarrow> b \<in> S \<Longrightarrow> c a b = 0 \<Longrightarrow> h a = h b"
begin

text \<open>No element has two partners.\<close>

definition uniq :: "'a multiset \<Rightarrow> bool" where
  "uniq M \<longleftrightarrow> set_mset M \<subseteq> S \<and> (\<forall>x\<in>S. size (filter_mset (\<lambda>e. c e x = 0) M) \<le> 1)"

lemma uniq_add:
  assumes "uniq M" "x \<in> S" "\<And>e. e \<in># M \<Longrightarrow> c e x \<noteq> 0"
  shows "uniq (add_mset x M)"
proof -
  have "size (filter_mset (\<lambda>e. c e y = 0) (add_mset x M)) \<le> 1" if y: "y \<in> S" for y
  proof (cases "c x y = 0")
    case True
    have "c e y \<noteq> 0" if "e \<in># M" for e
      using assms that y True eq_sym eq_trans by (metis subset_iff uniq_def)
    then have "filter_mset (\<lambda>e. c e y = 0) M = {#}" by (auto simp: filter_mset_none)
    then show ?thesis using True by simp
  qed (use assms(1) y in \<open>simp add: uniq_def\<close>)
  then show ?thesis using assms(1,2) by (simp add: uniq_def)
qed

lemma uniq_mono: "uniq (add_mset x M) \<Longrightarrow> uniq M"
proof -
  assume u: "uniq (add_mset x M)"
  have "size (filter_mset P M) \<le> size (filter_mset P (add_mset x M))" for P by simp
  then show "uniq M" using u order_trans unfolding uniq_def by (metis set_mset_add_mset_insert subset_insertI subset_trans)
qed

lemma uniq_replace:
  assumes "uniq (add_mset e M)" "x \<in> S" "c e x = 0"
  shows "uniq (add_mset x M)"
proof (rule uniq_add [OF uniq_mono [OF assms(1)] assms(2)])
  fix d
  assume d: "d \<in># M"
  have "size (filter_mset (\<lambda>e. c e x = 0) (add_mset e M)) \<le> 1" using assms(1,2) by (simp add: uniq_def)
  then have "filter_mset (\<lambda>e. c e x = 0) M = {#}" using assms(3) by simp
  then show "c d x \<noteq> 0" using d by (auto simp: filter_mset_none)
qed

end

section \<open>Chains and buckets\<close>

lemma chain_pos_le: "chain_pos c chain \<le> length chain"
  by (induction chain) auto

lemma chain_pos_found: "chain_pos c chain < length chain \<Longrightarrow> c (it_data (chain ! chain_pos c chain)) = 0"
  by (induction chain) (auto split: if_splits)

lemma chain_pos_none: "chain_pos c chain = length chain \<longleftrightarrow> (\<forall>it\<in>set chain. c (it_data it) \<noteq> 0)"
  by (induction chain) auto

lemma mset_bucket_update:
  "b < length bs \<Longrightarrow> mset (concat (bs[b := chain])) + mset (bs ! b) = mset (concat bs) + mset chain"
proof (induction bs arbitrary: b)
  case (Cons x bs)
  then show ?case by (cases b) (auto simp: ac_simps)
qed simp

definition placed :: "nat \<Rightarrow> LHASH_ITEM list list \<Rightarrow> bool" where
  "placed n bs \<longleftrightarrow> length bs = n \<and> (\<forall>b<n. \<forall>it\<in>set (bs ! b). unat (it_hash it) mod n = b)"

lemma placed_update:
  "placed n bs \<Longrightarrow> \<forall>it\<in>set chain. unat (it_hash it) mod n = b \<Longrightarrow> placed n (bs[b := chain])"
  unfolding placed_def by (metis length_list_update nth_list_update_eq nth_list_update_neq)

lemma placed_replicate: "placed n (replicate n [])"
  by (simp add: placed_def)

lemma rebucket_chain_spec:
  "placed n bs \<Longrightarrow> 0 < n \<Longrightarrow>
     placed n (rebucket_chain n chain bs) \<and> mset (concat (rebucket_chain n chain bs)) = mset chain + mset (concat bs)"
proof (induction chain arbitrary: bs)
  case (Cons it chain)
  define b where "b = unat (it_hash it) mod n"
  have b: "b < length bs" using Cons.prems by (simp add: b_def placed_def)
  have "placed n (bs[b := it # bs ! b])"
    using Cons.prems b by (intro placed_update) (auto simp: placed_def b_def)
  moreover have "mset (concat (bs[b := it # bs ! b])) = add_mset it (mset (concat bs))"
    using mset_bucket_update [OF b, of "it # bs ! b"] by simp
  ultimately show ?case using Cons.IH [of "bs[b := it # bs ! b]"] Cons.prems(2) by (simp add: b_def [symmetric])
qed simp

lemma rebucket_loop_spec:
  "placed n bs \<Longrightarrow> 0 < n \<Longrightarrow>
     placed n (rebucket_loop n old bs) \<and> mset (concat (rebucket_loop n old bs)) = mset (concat old) + mset (concat bs)"
proof (induction old arbitrary: bs)
  case (Cons chain old)
  then show ?case using rebucket_chain_spec [of n bs chain] Cons.IH [of "rebucket_chain n chain bs"] by simp
qed simp

section \<open>The table as a multiset of elements\<close>

definition items :: "LHASH \<Rightarrow> LHASH_ITEM multiset" where
  "items lh = mset (concat (buckets lh))"

definition elems :: "LHASH \<Rightarrow> ptr multiset" where
  "elems lh = image_mset it_data (items lh)"

definition shape_ok :: "LHASH \<Rightarrow> bool" where
  "shape_ok lh \<longleftrightarrow> kMinNumBuckets \<le> num_buckets lh \<and> num_buckets lh < 2 ^ 61 \<and>
     placed (num_buckets lh) (buckets lh) \<and> num_items lh = size (items lh) \<and> num_items lh < 2 ^ 61"

text \<open>Everything but the buckets as before.\<close>

definition same_items :: "LHASH \<Rightarrow> LHASH \<Rightarrow> bool" where
  "same_items lh lh' \<longleftrightarrow> shape_ok lh' \<and> items lh' = items lh \<and> callback_depth lh' = callback_depth lh \<and>
     lh_comp lh' = lh_comp lh \<and> lh_hash lh' = lh_hash lh"

lemma same_items_refl: "shape_ok lh \<Longrightarrow> same_items lh lh"
  by (simp add: same_items_def)

lemma lh_rebucket_same:
  assumes "shape_ok lh" "kMinNumBuckets \<le> n"
  shows "same_items lh (lh_rebucket mem n lh)"
proof (cases "size_mul 8 n div 8 = n \<and> mem (size_mul 8 n)")
  case True
  have "size_mul 8 n < 2 ^ 64" by (simp add: size_mul_def)
  then have "size_mul 8 n div 8 < 2 ^ 61" by simp
  then have n: "0 < n" "n < 2 ^ 61" using True assms(2) by (auto simp: kMinNumBuckets_def)
  show ?thesis using True rebucket_loop_spec [OF placed_replicate n(1), of "buckets lh"] assms n
    by (simp add: lh_rebucket_def same_items_def shape_ok_def items_def concat_replicate_trivial)
next
  case False
  then have "lh_rebucket mem n lh = lh" by (auto simp: lh_rebucket_def Let_def)
  then show ?thesis using assms(1) by (simp add: same_items_refl)
qed

lemma lh_maybe_resize_same:
  assumes "shape_ok lh"
  shows "\<exists>lh'. lh_maybe_resize mem lh = (Ok (), lh') \<and> same_items lh lh'"
proof -
  have n: "kMinNumBuckets \<le> num_buckets lh" "num_buckets lh < 2 ^ 61" using assms by (simp_all add: shape_ok_def)
  then have "size_mul (num_buckets lh) 2 = num_buckets lh * 2" by (simp add: size_mul_def)
  then show ?thesis using lh_rebucket_same [OF assms] same_items_refl [OF assms] n
    by (auto simp: lh_maybe_resize_def Let_def)
qed

definition lh_ok :: "hash_caller \<Rightarrow> cmp_caller \<Rightarrow> ptr set \<Rightarrow> LHASH \<Rightarrow> bool" where
  "lh_ok ch cc S lh \<longleftrightarrow>
     shape_ok lh \<and> hash_keys (ch (lh_hash lh)) (cc (lh_comp lh)) S \<and>
     hash_keys.uniq (cc (lh_comp lh)) S (elems lh) \<and>
     (\<forall>it\<in>#items lh. it_hash it = ch (lh_hash lh) (it_data it))"

lemma lh_ok_elems: "lh_ok ch cc S lh \<Longrightarrow> set_mset (elems lh) \<subseteq> S"
  using hash_keys.uniq_def [of "ch (lh_hash lh)" "cc (lh_comp lh)" S] by (simp add: lh_ok_def)

lemma lh_ok_same: "lh_ok ch cc S lh \<Longrightarrow> same_items lh lh' \<Longrightarrow> lh_ok ch cc S lh' \<and> elems lh' = elems lh"
  by (simp add: lh_ok_def same_items_def elems_def)

lemma in_items: "it \<in># items lh \<longleftrightarrow> (\<exists>b<length (buckets lh). it \<in> set (buckets lh ! b))"
  by (auto simp: items_def in_set_conv_nth Bex_def)

lemma find_item:
  assumes ok: "lh_ok ch cc S lh" and x: "x \<in> S"
  obtains b i where "get_next_ptr_and_hash ch cc lh x = (ch (lh_hash lh) x, b, i)" "b = unat (ch (lh_hash lh) x) mod num_buckets lh"
      "b < length (buckets lh)" "deref_item lh b i = None" "i = length (buckets lh ! b)"
      "\<And>e. e \<in># elems lh \<Longrightarrow> cc (lh_comp lh) e x \<noteq> 0"
  | b i it where "get_next_ptr_and_hash ch cc lh x = (ch (lh_hash lh) x, b, i)" "b = unat (ch (lh_hash lh) x) mod num_buckets lh"
      "b < length (buckets lh)" "deref_item lh b i = Some it" "i < length (buckets lh ! b)" "buckets lh ! b ! i = it"
      "cc (lh_comp lh) (it_data it) x = 0" "it \<in># items lh"
proof -
  define b where "b = unat (ch (lh_hash lh) x) mod num_buckets lh"
  define i where "i = chain_pos (\<lambda>cur. cc (lh_comp lh) cur x) (buckets lh ! b)"
  have g: "get_next_ptr_and_hash ch cc lh x = (ch (lh_hash lh) x, b, i)"
    by (simp add: get_next_ptr_and_hash_def b_def i_def Let_def)
  have sh: "placed (num_buckets lh) (buckets lh)" "0 < num_buckets lh"
    using ok by (auto simp: lh_ok_def shape_ok_def kMinNumBuckets_def)
  then have b: "b < length (buckets lh)" by (simp add: b_def placed_def)
  show ?thesis
  proof (cases "i < length (buckets lh ! b)")
    case True
    show ?thesis
      by (rule that(2) [OF g b_def b, of "buckets lh ! b ! i"])
        (use True b chain_pos_found in \<open>auto simp: deref_item_def in_items i_def\<close>)
  next
    case False
    then have i: "i = length (buckets lh ! b)" using chain_pos_le by (simp add: i_def le_antisym not_less)
    have "cc (lh_comp lh) e x \<noteq> 0" if e: "e \<in># elems lh" for e
    proof
      assume eq: "cc (lh_comp lh) e x = 0"
      obtain it where it: "it \<in># items lh" "e = it_data it" using e by (auto simp: elems_def)
      have "e \<in> S" using lh_ok_elems [OF ok] e by auto
      then have "ch (lh_hash lh) e = ch (lh_hash lh) x"
        using ok eq x hash_keys.eq_hash [of "ch (lh_hash lh)" "cc (lh_comp lh)" S e x] by (simp add: lh_ok_def)
      then have "unat (it_hash it) mod num_buckets lh = b" using ok it by (auto simp: lh_ok_def b_def)
      then have "it \<in> set (buckets lh ! b)" using it(1) sh(1) by (auto simp: in_items placed_def)
      then show False using i eq it(2) chain_pos_none [of "\<lambda>cur. cc (lh_comp lh) cur x" "buckets lh ! b"]
        by (simp add: i_def)
    qed
    then show ?thesis using that(1) [OF g b_def b] i by (simp add: deref_item_def)
  qed
qed

lemma lh_retrieve_elem:
  assumes "lh_ok ch cc S lh" "x \<in> S"
  shows "(\<exists>e. e \<in># elems lh \<and> cc (lh_comp lh) e x = 0 \<and> OPENSSL_lh_retrieve ch cc lh x = e) \<or>
    (\<forall>e\<in>#elems lh. cc (lh_comp lh) e x \<noteq> 0) \<and> OPENSSL_lh_retrieve ch cc lh x = 0"
  by (rule find_item [OF assms]) (auto simp: OPENSSL_lh_retrieve_def elems_def)

lemma bucket_items:
  assumes "placed n bs" "b < n" "\<forall>it\<in>set chain. unat (it_hash it) mod n = b"
    and "mset (bs ! b) = M + L" "mset chain = M + K"
  shows "placed n (bs[b := chain])" "mset (concat (bs[b := chain])) + L = mset (concat bs) + K"
proof -
  show "placed n (bs[b := chain])" using placed_update [OF assms(1,3)] .
  have "mset (concat (bs[b := chain])) + mset (bs ! b) = mset (concat bs) + mset chain"
    using assms(1,2) by (intro mset_bucket_update) (simp add: placed_def)
  then show "mset (concat (bs[b := chain])) + L = mset (concat bs) + K"
    by (simp add: assms(4,5) ac_simps)
qed

lemma mset_at: "i < length xs \<Longrightarrow> mset xs = mset (take i xs @ drop (Suc i) xs) + {#xs ! i#}"
  by (metis (no_types) id_take_nth_drop mset.simps mset_append union_mset_add_mset_right add_mset_add_single)

lemma lh_insert_elems:
  assumes ok: "lh_ok ch cc S lh" and x: "x \<in> S" and room: "num_items lh + 1 < 2 ^ 61"
  obtains (replaced) e M lh' where "OPENSSL_lh_insert mem fresh ch cc x lh = (Ok e, lh')" "elems lh = add_mset e M"
      "cc (lh_comp lh) e x = 0" "lh_ok ch cc S lh'" "elems lh' = add_mset x M" "num_items lh' = num_items lh"
      "callback_depth lh' = callback_depth lh" "lh_comp lh' = lh_comp lh" "lh_hash lh' = lh_hash lh"
  | (added) a lh' where "OPENSSL_lh_insert mem fresh ch cc x lh = (Ok 0, lh')" "fresh = Some a"
      "\<And>e. e \<in># elems lh \<Longrightarrow> cc (lh_comp lh) e x \<noteq> 0" "lh_ok ch cc S lh'" "elems lh' = add_mset x (elems lh)"
      "callback_depth lh' = callback_depth lh" "lh_comp lh' = lh_comp lh" "lh_hash lh' = lh_hash lh"
  | (failed) "OPENSSL_lh_insert mem fresh ch cc x lh = (Err, lh)" "fresh = None"
      "\<And>e. e \<in># elems lh \<Longrightarrow> cc (lh_comp lh) e x \<noteq> 0"
proof -
  have sh: "placed (num_buckets lh) (buckets lh)" "num_items lh = size (items lh)"
    and hk: "hash_keys (ch (lh_hash lh)) (cc (lh_comp lh)) S"
    using ok by (auto simp: lh_ok_def shape_ok_def)
  have un: "hash_keys.uniq (cc (lh_comp lh)) S (elems lh)" using ok by (simp add: lh_ok_def)
  show ?thesis
  proof (rule find_item [OF ok x])
    fix b i
    assume g: "get_next_ptr_and_hash ch cc lh x = (ch (lh_hash lh) x, b, i)" "b = unat (ch (lh_hash lh) x) mod num_buckets lh"
      "b < length (buckets lh)" "deref_item lh b i = None" "i = length (buckets lh ! b)"
      "\<And>e. e \<in># elems lh \<Longrightarrow> cc (lh_comp lh) e x \<noteq> 0"
    show ?thesis
    proof (cases fresh)
      case None
      then show ?thesis using failed g by (simp add: OPENSSL_lh_insert_def)
    next
      case (Some a)
      define it where "it = \<lparr>it_addr = a, it_data = x, it_hash = ch (lh_hash lh) x\<rparr>"
      define lh1 where "lh1 = lh\<lparr>buckets := (buckets lh)[b := buckets lh ! b @ [it]], num_items := num_items lh + 1\<rparr>"
      have b: "b < num_buckets lh" using g(3) sh(1) by (simp add: placed_def)
      have ch: "\<forall>it\<in>set (buckets lh ! b @ [it]). unat (it_hash it) mod num_buckets lh = b"
        using sh(1) b g(2) by (auto simp: placed_def it_def)
      have p: "placed (num_buckets lh1) (buckets lh1)" "items lh1 = add_mset it (items lh)"
        using bucket_items [OF sh(1) b ch, of "mset (buckets lh ! b)" "{#}" "{#it#}"] by (simp_all add: lh1_def items_def)
      have s1: "shape_ok lh1" using ok p sh(2) room by (simp add: lh_ok_def shape_ok_def lh1_def)
      have e1: "elems lh1 = add_mset x (elems lh)" using p(2) by (simp add: elems_def it_def)
      have "hash_keys.uniq (cc (lh_comp lh)) S (elems lh1)"
        unfolding e1 using hash_keys.uniq_add [OF hk un x] g(6) by simp
      then have ok1: "lh_ok ch cc S lh1"
        using ok s1 p(2) by (auto simp: lh_ok_def) (auto simp: lh1_def it_def)
      obtain lh2 where r: "lh_maybe_resize mem lh1 = (Ok (), lh2)" "same_items lh1 lh2"
        using lh_maybe_resize_same [OF s1] by blast
      have "OPENSSL_lh_insert mem fresh ch cc x lh = (Ok 0, lh2)"
        using g(1,4) Some r(1) room by (simp add: OPENSSL_lh_insert_def op_then_apply size_add_exact lh1_def it_def)
      moreover have "lh_ok ch cc S lh2" "elems lh2 = add_mset x (elems lh)"
        using lh_ok_same [OF ok1 r(2)] e1 by simp_all
      ultimately show ?thesis using added [OF _ Some g(6)] r(2) by (simp add: same_items_def lh1_def)
    qed
  next
    fix b i it
    assume g: "get_next_ptr_and_hash ch cc lh x = (ch (lh_hash lh) x, b, i)" "b = unat (ch (lh_hash lh) x) mod num_buckets lh"
      "b < length (buckets lh)" "deref_item lh b i = Some it" "i < length (buckets lh ! b)" "buckets lh ! b ! i = it"
      "cc (lh_comp lh) (it_data it) x = 0" "it \<in># items lh"
    define new where "new = it\<lparr>it_data := x\<rparr>"
    define chain where "chain = (buckets lh ! b)[i := new]"
    define lh1 where "lh1 = lh\<lparr>buckets := (buckets lh)[b := chain]\<rparr>"
    have r: "OPENSSL_lh_insert mem fresh ch cc x lh = (Ok (it_data it), lh1)"
      using g(1,4) by (simp add: OPENSSL_lh_insert_def lh1_def chain_def new_def)
    have b: "b < num_buckets lh" using g(3) sh(1) by (simp add: placed_def)
    have "it \<in> set (buckets lh ! b)" using g(5,6) by auto
    then have hi: "unat (it_hash it) mod num_buckets lh = b" using sh(1) b by (simp add: placed_def)
    then have ch: "\<forall>it\<in>set chain. unat (it_hash it) mod num_buckets lh = b"
      using sh(1) b set_update_subset_insert [of "buckets lh ! b" i new] by (auto simp: placed_def chain_def new_def)
    define M where "M = mset (take i (buckets lh ! b) @ drop (Suc i) (buckets lh ! b))"
    have m: "mset (buckets lh ! b) = M + {#it#}" "mset chain = M + {#new#}"
      using mset_at [OF g(5)] g(5,6) by (simp_all add: M_def chain_def upd_conv_take_nth_drop)
    have p: "placed (num_buckets lh) (buckets lh1)" "add_mset it (items lh1) = add_mset new (items lh)"
      using bucket_items [OF sh(1) b ch m] by (simp_all add: lh1_def items_def)
    obtain R where R: "items lh = add_mset it R" using g(8) by (metis multi_member_split)
    then have i1: "items lh1 = add_mset new R" using p(2) by (simp add: add_mset_commute)
    have eit: "it_data it \<in> S" using g(8) lh_ok_elems [OF ok] by (auto simp: elems_def)
    have "hash_keys.uniq (cc (lh_comp lh)) S (add_mset x (image_mset it_data R))"
      using hash_keys.uniq_replace [OF hk _ x g(7)] un R by (simp add: elems_def)
    moreover have "it_hash new = ch (lh_hash lh) (it_data new)"
      using ok g(7,8) hash_keys.eq_hash [OF hk eit x] by (auto simp: lh_ok_def new_def)
    ultimately have "lh_ok ch cc S lh1"
      using ok p(1) sh(2) R i1 by (auto simp: lh_ok_def shape_ok_def elems_def new_def) (simp_all add: lh1_def)
    then show ?thesis using replaced [OF r, of "image_mset it_data R"] R i1 g(7) by (simp add: elems_def new_def lh1_def)
  qed
qed

lemma lh_ok_unique:
  assumes ok: "lh_ok ch cc S lh" and x: "x \<in> S" and e: "e \<in># elems lh" "cc (lh_comp lh) e x = 0"
  shows "count (elems lh) e = 1" "e' \<in># elems lh \<Longrightarrow> cc (lh_comp lh) e' x = 0 \<Longrightarrow> e' = e"
proof -
  let ?F = "filter_mset (\<lambda>d. cc (lh_comp lh) d x = 0) (elems lh)"
  have "hash_keys (ch (lh_hash lh)) (cc (lh_comp lh)) S" using ok by (simp add: lh_ok_def)
  then have le: "size ?F \<le> 1" using ok x hash_keys.uniq_def by (fastforce simp: lh_ok_def)
  have eF: "e \<in># ?F" using e by simp
  with le have F: "?F = {#e#}" by (metis One_nat_def add_mset_eq_single insert_DiffM le_Suc_eq le_zero_eq size_1_singleton_mset size_eq_0_iff_empty empty_not_add_mset)
  then have "count ?F e = 1" by simp
  then show "count (elems lh) e = 1" using e by simp
  assume "e' \<in># elems lh" "cc (lh_comp lh) e' x = 0"
  then have "e' \<in># ?F" by simp
  then show "e' = e" by (simp add: F)
qed

lemma lh_delete_retrieves:
  "OPENSSL_lh_delete mem ch cc x lh = (Ok e, lh') \<Longrightarrow> OPENSSL_lh_retrieve ch cc lh x = e"
  by (auto simp: OPENSSL_lh_delete_def OPENSSL_lh_retrieve_def op_then_apply split: prod.splits option.splits result.splits)

lemma lh_delete_elems:
  assumes ok: "lh_ok ch cc S lh" and x: "x \<in> S"
  obtains (deleted) e lh' where "OPENSSL_lh_delete mem ch cc x lh = (Ok e, lh')" "cc (lh_comp lh) e x = 0"
      "elems lh = add_mset e (elems lh')" "lh_ok ch cc S lh'"
      "callback_depth lh' = callback_depth lh" "lh_comp lh' = lh_comp lh" "lh_hash lh' = lh_hash lh"
  | (absent) "OPENSSL_lh_delete mem ch cc x lh = (Ok 0, lh)" "\<And>e. e \<in># elems lh \<Longrightarrow> cc (lh_comp lh) e x \<noteq> 0"
proof -
  have sh: "placed (num_buckets lh) (buckets lh)" "num_items lh = size (items lh)" "num_items lh < 2 ^ 61"
    and hk: "hash_keys (ch (lh_hash lh)) (cc (lh_comp lh)) S"
    using ok by (auto simp: lh_ok_def shape_ok_def)
  have un: "hash_keys.uniq (cc (lh_comp lh)) S (elems lh)" using ok by (simp add: lh_ok_def)
  show ?thesis
  proof (rule find_item [OF ok x])
    fix b i
    assume g: "get_next_ptr_and_hash ch cc lh x = (ch (lh_hash lh) x, b, i)" "deref_item lh b i = None"
      "\<And>e. e \<in># elems lh \<Longrightarrow> cc (lh_comp lh) e x \<noteq> 0"
    then show ?thesis using absent by (simp add: OPENSSL_lh_delete_def)
  next
    fix b i it
    assume g: "get_next_ptr_and_hash ch cc lh x = (ch (lh_hash lh) x, b, i)" "b = unat (ch (lh_hash lh) x) mod num_buckets lh"
      "b < length (buckets lh)" "deref_item lh b i = Some it" "i < length (buckets lh ! b)" "buckets lh ! b ! i = it"
      "cc (lh_comp lh) (it_data it) x = 0" "it \<in># items lh"
    define chain where "chain = take i (buckets lh ! b) @ drop (Suc i) (buckets lh ! b)"
    define lh1 where "lh1 = lh\<lparr>buckets := (buckets lh)[b := chain], num_items := num_items lh - 1\<rparr>"
    have b: "b < num_buckets lh" using g(3) sh(1) by (simp add: placed_def)
    have ch: "\<forall>it\<in>set chain. unat (it_hash it) mod num_buckets lh = b"
      using sh(1) b by (auto simp: placed_def chain_def dest: in_set_takeD in_set_dropD)
    have m: "mset (buckets lh ! b) = mset chain + {#it#}" "mset chain = mset chain + {#}"
      using mset_at [OF g(5)] g(6) by (simp_all add: chain_def)
    have p: "placed (num_buckets lh) (buckets lh1)" "items lh = add_mset it (items lh1)"
      using bucket_items [OF sh(1) b ch m] by (simp_all add: lh1_def items_def)
    have "hash_keys.uniq (cc (lh_comp lh)) S (elems lh1)"
      using hash_keys.uniq_mono [OF hk, of "it_data it" "elems lh1"] un p(2) by (simp add: elems_def)
    moreover have pr: "lh_comp lh1 = lh_comp lh" "lh_hash lh1 = lh_hash lh" by (simp_all add: lh1_def)
    moreover have s1: "shape_ok lh1"
    proof -
      have "num_buckets lh1 = num_buckets lh" "num_items lh1 = num_items lh - 1" by (simp_all add: lh1_def)
      then show ?thesis using ok p(1) sh(2,3) arg_cong [OF p(2), of size] by (simp add: lh_ok_def shape_ok_def)
    qed
    moreover have "\<forall>it\<in>#items lh1. it_hash it = ch (lh_hash lh) (it_data it)" using ok p(2) by (simp add: lh_ok_def)
    ultimately have ok1: "lh_ok ch cc S lh1" using hk by (simp add: lh_ok_def)
    obtain lh2 where r: "lh_maybe_resize mem lh1 = (Ok (), lh2)" "same_items lh1 lh2"
      using lh_maybe_resize_same [OF s1] by blast
    have n: "0 < num_items lh" using sh(2) p(2) by simp
    have "num_items lh + (2 ^ 64 - 1) = num_items lh - 1 + 2 ^ 64" using n by simp
    then have "size_dec (num_items lh) = num_items lh - 1"
      using sh(3) unfolding size_dec_def by (simp only: mod_add_self2) simp
    then have "OPENSSL_lh_delete mem ch cc x lh = (Ok (it_data it), lh2)"
      using g(1,4) r(1) by (simp add: OPENSSL_lh_delete_def op_then_apply lh1_def chain_def)
    moreover have "lh_ok ch cc S lh2" "elems lh2 = elems lh1" using lh_ok_same [OF ok1 r(2)] by simp_all
    moreover have "elems lh = add_mset (it_data it) (elems lh1)" using p(2) by (simp add: elems_def)
    ultimately show ?thesis using deleted g(7) r(2) by (simp add: same_items_def lh1_def)
  qed
qed

section \<open>Calling back\<close>

text \<open>
  A callback that leaves the table alone, or takes out the item it is called for and nothing
  else, keeps every item behind it where it is.
\<close>

definition addr_ok :: "LHASH \<Rightarrow> bool" where
  "addr_ok lh \<longleftrightarrow> distinct (map it_addr (concat (buckets lh)))"

lemma addr_ok_bucket: "addr_ok lh \<Longrightarrow> b < length (buckets lh) \<Longrightarrow> distinct (map it_addr (buckets lh ! b))"
  unfolding addr_ok_def map_concat using distinct_concat_iff by (metis length_map nth_map nth_mem)

definition polite :: "nat \<Rightarrow> LHASH_ITEM \<Rightarrow> LHASH \<Rightarrow> LHASH \<Rightarrow> bool" where
  "polite b it lh lh' \<longleftrightarrow>
     num_buckets lh' = num_buckets lh \<and> callback_depth lh' = callback_depth lh \<and>
     (buckets lh' = buckets lh \<or>
      buckets lh' = (buckets lh)[b := filter (\<lambda>i. it_addr i \<noteq> it_addr it) (buckets lh ! b)])"

fun visit :: "(ptr \<Rightarrow> LHASH \<times> 'w \<Rightarrow> LHASH \<times> 'w) \<Rightarrow> LHASH_ITEM list \<Rightarrow> LHASH \<times> 'w \<Rightarrow> LHASH \<times> 'w" where
  "visit func [] st = st"
| "visit func (it # its) st = visit func its (func (it_data it) st)"

lemma visit_append: "visit func (xs @ ys) st = visit func ys (visit func xs st)"
  by (induction xs arbitrary: st) auto

lemma chain_from_head:
  "distinct (map it_addr (pre @ it # rest)) \<Longrightarrow> chain_from (it_addr it) (pre @ it # rest) = it # rest"
  unfolding chain_from_def by (subst dropWhile_append2) (force simp: image_iff)+

lemma filter_addr:
  "distinct (map it_addr (pre @ it # rest)) \<Longrightarrow> filter (\<lambda>i. it_addr i \<noteq> it_addr it) (pre @ it # rest) = pre @ rest"
proof -
  assume d: "distinct (map it_addr (pre @ it # rest))"
  have "filter (\<lambda>i. it_addr i \<noteq> it_addr it) pre = pre" "filter (\<lambda>i. it_addr i \<noteq> it_addr it) rest = rest"
    using d by (force simp: filter_id_conv image_iff)+
  then show ?thesis by simp
qed

locale lh_callback =
  fixes func :: "ptr \<Rightarrow> LHASH \<times> 'w \<Rightarrow> LHASH \<times> 'w" and I :: "LHASH \<times> 'w \<Rightarrow> bool"
  assumes keep: "\<And>st b it. I st \<Longrightarrow> b < num_buckets (fst st) \<Longrightarrow> it \<in> set (buckets (fst st) ! b) \<Longrightarrow>
      I (func (it_data it) st) \<and> polite b it (fst st) (fst (func (it_data it) st))"
    and well: "\<And>st. I st \<Longrightarrow> shape_ok (fst st) \<and> addr_ok (fst st)"
begin

lemma shape: "I st \<Longrightarrow> length (buckets (fst st)) = num_buckets (fst st) \<and>
    (\<forall>b<num_buckets (fst st). distinct (map it_addr (buckets (fst st) ! b)))"
  using well [of st] addr_ok_bucket [of "fst st"] by (auto simp: shape_ok_def placed_def)

lemma doall_chain_visits:
  "I st \<Longrightarrow> b < num_buckets (fst st) \<Longrightarrow> buckets (fst st) ! b = pre @ suf \<Longrightarrow>
     doall_chain func b (chain_head suf) st = Some (Ok (), visit func suf st) \<and> I (visit func suf st) \<and>
     num_buckets (fst (visit func suf st)) = num_buckets (fst st) \<and>
     callback_depth (fst (visit func suf st)) = callback_depth (fst st) \<and>
     (\<forall>b'. b' \<noteq> b \<longrightarrow> buckets (fst (visit func suf st)) ! b' = buckets (fst st) ! b')"
proof (induction suf arbitrary: pre st)
  case Nil
  then show ?case by (subst doall_chain.simps) (simp add: chain_head_def)
next
  case (Cons it rest)
  let ?st = "func (it_data it) st"
  have "distinct (map it_addr (buckets (fst st) ! b))" "length (buckets (fst st)) = num_buckets (fst st)"
    using shape [OF Cons.prems(1)] Cons.prems(2) by blast+
  then have d: "distinct (map it_addr (pre @ it # rest))" "length (buckets (fst st)) = num_buckets (fst st)"
    unfolding Cons.prems(3) by simp_all
  have k: "I ?st" "polite b it (fst st) (fst ?st)" using keep Cons.prems by auto
  have "filter (\<lambda>i. it_addr i \<noteq> it_addr it) (pre @ it # rest) = pre @ rest"
    by (rule filter_addr [OF d(1)])
  then obtain pre' where b: "buckets (fst ?st) ! b = pre' @ rest"
    using k(2) Cons.prems d(2) by (fastforce simp: polite_def)
  have o: "buckets (fst ?st) ! b' = buckets (fst st) ! b'" if "b' \<noteq> b" for b'
    using k(2) that by (auto simp: polite_def)
  have n: "num_buckets (fst ?st) = num_buckets (fst st)" "callback_depth (fst ?st) = callback_depth (fst st)"
    using k(2) by (simp_all add: polite_def)
  have "doall_chain func b (chain_head (it # rest)) st = doall_chain func b (chain_head rest) ?st"
    using chain_from_head [OF d(1)] Cons.prems(3) by (subst doall_chain.simps) (simp add: chain_head_def)
  then show ?case using Cons.IH [OF k(1) _ b] Cons.prems(2) n o by simp
qed

lemma doall_loop_visits:
  "I st \<Longrightarrow> i \<le> num_buckets (fst st) \<Longrightarrow>
     doall_loop func i st = Some (Ok (), visit func (concat (drop i (buckets (fst st)))) st) \<and>
     I (visit func (concat (drop i (buckets (fst st)))) st) \<and>
     callback_depth (fst (visit func (concat (drop i (buckets (fst st)))) st)) = callback_depth (fst st) \<and>
     num_buckets (fst (visit func (concat (drop i (buckets (fst st)))) st)) = num_buckets (fst st)"
proof (induction "num_buckets (fst st) - i" arbitrary: i st)
  case 0
  then show ?case using shape [OF 0(2)] by (subst doall_loop.simps) simp
next
  case (Suc m)
  then have i: "i < num_buckets (fst st)" by simp
  have sh: "length (buckets (fst st)) = num_buckets (fst st)" using shape [OF Suc.prems(1)] by simp
  let ?c = "buckets (fst st) ! i"
  let ?st = "visit func ?c st"
  have c: "doall_chain func i (chain_head ?c) st = Some (Ok (), ?st)" "I ?st"
    "num_buckets (fst ?st) = num_buckets (fst st)" "callback_depth (fst ?st) = callback_depth (fst st)"
    "\<And>b'. b' \<noteq> i \<Longrightarrow> buckets (fst ?st) ! b' = buckets (fst st) ! b'"
    using doall_chain_visits [OF Suc.prems(1) i, of "[]" ?c] by auto
  have dr: "drop (Suc i) (buckets (fst ?st)) = drop (Suc i) (buckets (fst st))"
    using shape [OF c(2)] sh c(3,5) by (intro nth_equalityI) auto
  have "drop i (buckets (fst st)) = ?c # drop (Suc i) (buckets (fst st))"
    using i sh by (simp add: Cons_nth_drop_Suc)
  then have v: "visit func (concat (drop i (buckets (fst st)))) st = visit func (concat (drop (Suc i) (buckets (fst ?st)))) ?st"
    by (simp add: dr visit_append)
  have "doall_loop func i st = doall_loop func (Suc i) ?st"
    using i c(1) by (subst doall_loop.simps) simp
  then show ?case unfolding v using Suc.hyps(1) [of ?st "Suc i"] Suc.hyps(2) c(2,3,4) i by simp
qed

lemma doall_arg_visits:
  assumes depth: "callback_depth lh + 1 < UINT_MAX" and inv: "I (lh\<lparr>callback_depth := callback_depth lh + 1\<rparr>, w)"
    and st: "visit func (concat (buckets lh)) (lh\<lparr>callback_depth := callback_depth lh + 1\<rparr>, w) = (lh2, w2)"
  shows "\<exists>lh'. OPENSSL_lh_doall_arg mem func (Some lh) w = Some (Ok (), Some lh', w2) \<and>
    same_items (lh2\<lparr>callback_depth := callback_depth lh\<rparr>) lh' \<and>
    lh_maybe_resize mem (lh2\<lparr>callback_depth := callback_depth lh\<rparr>) = (Ok (), lh') \<and> num_buckets lh2 = num_buckets lh"
proof -
  have v: "doall_loop func 0 (lh\<lparr>callback_depth := callback_depth lh + 1\<rparr>, w) = Some (Ok (), lh2, w2)"
    "I (lh2, w2)" "callback_depth lh2 = callback_depth lh + 1" "num_buckets lh2 = num_buckets lh"
    using doall_loop_visits [OF inv, of 0] st by auto
  have "shape_ok (lh2\<lparr>callback_depth := callback_depth lh\<rparr>)"
    using well [OF v(2)] by (simp add: shape_ok_def items_def)
  then obtain lh' where "lh_maybe_resize mem (lh2\<lparr>callback_depth := callback_depth lh\<rparr>) = (Ok (), lh')"
    "same_items (lh2\<lparr>callback_depth := callback_depth lh\<rparr>) lh'"
    using lh_maybe_resize_same by blast
  then show ?thesis using v depth by (simp add: OPENSSL_lh_doall_arg_def Let_def)
qed

end

section \<open>A callback that deletes every element\<close>

lemma resize_empty:
  assumes "num_items lh = 0" and "num_buckets lh < 2 ^ 61" and "kMinNumBuckets \<le> num_buckets lh"
    and "lh_maybe_resize mem lh = (Ok (), lh')"
  defines "half \<equiv> max kMinNumBuckets (num_buckets lh div 2)"
  shows "num_buckets lh' =
    (if callback_depth lh = 0 \<and> num_buckets lh > kMinNumBuckets \<and> mem (8 * half) then half else num_buckets lh)"
proof -
  have half: "(if num_buckets lh div 2 < kMinNumBuckets then kMinNumBuckets else num_buckets lh div 2) = half"
    by (simp add: half_def max_def)
  have "size_mul 8 half = 8 * half" using assms(2) by (simp add: size_mul_def half_def kMinNumBuckets_def)
  then show ?thesis using assms(1,3,4) half
    by (auto simp: lh_maybe_resize_def lh_rebucket_def Let_def kMinAverageChainLength_def split: if_splits)
qed

lemma uniq_item:
  assumes "lh_ok ch cc S lh" "it \<in># items lh" "it' \<in># items lh" "x \<in> S"
    "cc (lh_comp lh) (it_data it) x = 0" "cc (lh_comp lh) (it_data it') x = 0"
  shows "it' = it"
proof (rule ccontr)
  assume "it' \<noteq> it"
  obtain R where R: "items lh = add_mset it R" using assms(2) by (metis multi_member_split)
  then have "it' \<in># R" using assms(3) \<open>it' \<noteq> it\<close> by simp
  then obtain Q where "items lh = add_mset it (add_mset it' Q)" using R by (metis multi_member_split)
  then have "2 \<le> size (filter_mset (\<lambda>e. cc (lh_comp lh) e x = 0) (elems lh))"
    using assms(5,6) by (simp add: elems_def)
  moreover have "size (filter_mset (\<lambda>e. cc (lh_comp lh) e x = 0) (elems lh)) \<le> 1"
    using assms(1,4) hash_keys.uniq_def [of "ch (lh_hash lh)" "cc (lh_comp lh)" S] by (simp add: lh_ok_def)
  ultimately show False by simp
qed

lemma lh_delete_item:
  assumes ok: "lh_ok ch cc S lh" and addr: "addr_ok lh" and depth: "0 < callback_depth lh"
    and b: "b < num_buckets lh" and it: "it \<in> set (buckets lh ! b)"
  shows "OPENSSL_lh_delete mem ch cc (it_data it) lh =
    (Ok (it_data it), lh\<lparr>buckets := (buckets lh)[b := filter (\<lambda>i. it_addr i \<noteq> it_addr it) (buckets lh ! b)],
       num_items := size_dec (num_items lh)\<rparr>)"
proof -
  have hk: "hash_keys (ch (lh_hash lh)) (cc (lh_comp lh)) S" and len: "length (buckets lh) = num_buckets lh"
    and pl: "placed (num_buckets lh) (buckets lh)"
    using ok by (auto simp: lh_ok_def shape_ok_def placed_def)
  have iti: "it \<in># items lh" using it b len by (auto simp: in_items)
  then have x: "it_data it \<in> S" using lh_ok_elems [OF ok] by (auto simp: elems_def)
  have r: "cc (lh_comp lh) (it_data it) (it_data it) = 0" using hash_keys.eq_refl [OF hk x] .
  show ?thesis
  proof (rule find_item [OF ok x])
    fix b' i
    assume "\<And>e. e \<in># elems lh \<Longrightarrow> cc (lh_comp lh) e (it_data it) \<noteq> 0"
    then show ?thesis using iti r by (auto simp: elems_def)
  next
    fix b' i it'
    assume g: "get_next_ptr_and_hash ch cc lh (it_data it) = (ch (lh_hash lh) (it_data it), b', i)"
      "b' = unat (ch (lh_hash lh) (it_data it)) mod num_buckets lh" "deref_item lh b' i = Some it'"
      "i < length (buckets lh ! b')" "buckets lh ! b' ! i = it'"
      "cc (lh_comp lh) (it_data it') (it_data it) = 0" "it' \<in># items lh"
    have e: "it' = it" using uniq_item [OF ok iti g(7) x r g(6)] .
    have "it_hash it = ch (lh_hash lh) (it_data it)" using ok iti by (simp add: lh_ok_def)
    then have bb: "b' = b" using pl b it g(2) unfolding placed_def by metis
    have "buckets lh ! b = take i (buckets lh ! b) @ it # drop (Suc i) (buckets lh ! b)"
      using id_take_nth_drop [OF g(4)] g(5) e bb by simp
    moreover have "distinct (map it_addr (buckets lh ! b))" using addr_ok_bucket [OF addr] b len by simp
    ultimately have "filter (\<lambda>i. it_addr i \<noteq> it_addr it) (buckets lh ! b) =
        take i (buckets lh ! b) @ drop (Suc i) (buckets lh ! b)"
      using filter_addr by metis
    then show ?thesis using g(1,3) e bb depth
      by (simp add: OPENSSL_lh_delete_def op_then_apply lh_maybe_resize_def)
  qed
qed

definition delete_callback ::
    "(nat \<Rightarrow> bool) \<Rightarrow> hash_caller \<Rightarrow> cmp_caller \<Rightarrow> ptr \<Rightarrow> LHASH \<times> ptr list \<Rightarrow> LHASH \<times> ptr list" where
  "delete_callback mem ch cc p st = (snd (OPENSSL_lh_delete mem ch cc p (fst st)), snd st @ [p])"

definition delete_inv :: "hash_caller \<Rightarrow> cmp_caller \<Rightarrow> ptr set \<Rightarrow> LHASH \<times> ptr list \<Rightarrow> bool" where
  "delete_inv ch cc S st \<longleftrightarrow> lh_ok ch cc S (fst st) \<and> addr_ok (fst st) \<and> 0 < callback_depth (fst st)"

lemma distinct_iff_count: "distinct xs \<longleftrightarrow> (\<forall>a. count (mset xs) a \<le> 1)"
proof (induction xs)
  case (Cons x xs)
  have "distinct (x # xs) \<longleftrightarrow> count (mset xs) x = 0 \<and> (\<forall>a. count (mset xs) a \<le> 1)"
    using Cons by (simp add: count_eq_zero_iff)
  also have "\<dots> \<longleftrightarrow> (\<forall>a. count (mset (x # xs)) a \<le> 1)"
  proof
    assume c: "\<forall>a. count (mset (x # xs)) a \<le> 1"
    have "count (mset xs) x = 0" using c [rule_format, of x] by simp
    moreover have "count (mset xs) a \<le> count (mset (x # xs)) a" for a by simp
    then have "count (mset xs) a \<le> 1" for a using c le_trans by blast
    ultimately show "count (mset xs) x = 0 \<and> (\<forall>a. count (mset xs) a \<le> 1)" by blast
  qed simp
  finally show ?case .
qed simp

lemma addr_ok_items: "addr_ok lh \<longleftrightarrow> (\<forall>a. count (image_mset it_addr (items lh)) a \<le> 1)"
  by (simp add: addr_ok_def items_def distinct_iff_count flip: mset_map)

lemma delete_callback_step:
  assumes "delete_inv ch cc S st" "it \<in># items (fst st)"
  shows "delete_inv ch cc S (delete_callback mem ch cc (it_data it) st) \<and>
    items (fst st) = add_mset it (items (fst (delete_callback mem ch cc (it_data it) st))) \<and>
    (\<exists>b<num_buckets (fst st). it \<in> set (buckets (fst st) ! b) \<and>
       polite b it (fst st) (fst (delete_callback mem ch cc (it_data it) st)))"
proof -
  let ?lh = "fst st"
  have ok: "lh_ok ch cc S ?lh" "addr_ok ?lh" "0 < callback_depth ?lh" using assms(1) by (simp_all add: delete_inv_def)
  have len: "length (buckets ?lh) = num_buckets ?lh" using ok(1) by (simp add: lh_ok_def shape_ok_def placed_def)
  obtain b where b: "b < num_buckets ?lh" "it \<in> set (buckets ?lh ! b)" using assms(2) len by (auto simp: in_items)
  define lh' where "lh' = snd (OPENSSL_lh_delete mem ch cc (it_data it) ?lh)"
  note r = lh_delete_item [OF ok b, of mem]
  have x: "it_data it \<in> S" using lh_ok_elems [OF ok(1)] assms(2) by (auto simp: elems_def)
  have ok': "lh_ok ch cc S lh'" "callback_depth lh' = callback_depth ?lh"
    by (rule lh_delete_elems [OF ok(1) x, of mem]; use ok(1) in \<open>simp add: lh'_def\<close>)+
  obtain p q where pq: "buckets ?lh ! b = p @ it # q" using b(2) by (meson split_list)
  have "distinct (map it_addr (buckets ?lh ! b))" using addr_ok_bucket [OF ok(2)] b len by simp
  then have f: "filter (\<lambda>i. it_addr i \<noteq> it_addr it) (buckets ?lh ! b) = p @ q" using filter_addr pq by metis
  have l: "lh' = ?lh\<lparr>buckets := (buckets ?lh)[b := p @ q], num_items := size_dec (num_items ?lh)\<rparr>"
    by (simp add: lh'_def r f)
  have "add_mset it (items lh') = items ?lh"
    using mset_bucket_update [of b "buckets ?lh" "p @ q"] b(1) len by (simp add: l items_def pq)
  then have i: "items ?lh = add_mset it (items lh')" by simp
  then have "addr_ok lh'" using ok(2) unfolding addr_ok_items by (metis count_add_mset image_mset_add_mset le_SucI Suc_leD le_Suc_eq)
  moreover have "polite b it ?lh lh'" by (simp add: polite_def f) (simp add: l)
  ultimately show ?thesis using ok' ok(3) i b by (auto simp: delete_inv_def delete_callback_def lh'_def [symmetric])
qed

interpretation deleting: lh_callback "delete_callback mem ch cc" "delete_inv ch cc S" for mem ch cc S
proof
  fix st :: "LHASH \<times> ptr list" and b it
  assume a: "delete_inv ch cc S st" "b < num_buckets (fst st)" "it \<in> set (buckets (fst st) ! b)"
  have pl: "placed (num_buckets (fst st)) (buckets (fst st))" using a(1) by (simp add: delete_inv_def lh_ok_def shape_ok_def)
  then have "it \<in># items (fst st)" using a(2,3) by (auto simp: in_items placed_def)
  from delete_callback_step [OF a(1) this, of mem] pl a(2,3)
  show "delete_inv ch cc S (delete_callback mem ch cc (it_data it) st) \<and>
      polite b it (fst st) (fst (delete_callback mem ch cc (it_data it) st))"
    unfolding placed_def by metis
next
  fix st :: "LHASH \<times> ptr list"
  assume "delete_inv ch cc S st"
  then show "shape_ok (fst st) \<and> addr_ok (fst st)" by (simp add: delete_inv_def lh_ok_def)
qed

lemma visit_deletes:
  "delete_inv ch cc S st \<Longrightarrow> items (fst st) = mset its + R \<Longrightarrow>
     items (fst (visit (delete_callback mem ch cc) its st)) = R \<and>
     delete_inv ch cc S (visit (delete_callback mem ch cc) its st) \<and>
     snd (visit (delete_callback mem ch cc) its st) = snd st @ map it_data its"
proof (induction its arbitrary: st)
  case (Cons it its)
  have "it \<in># items (fst st)" using Cons.prems(2) by simp
  note s = delete_callback_step [OF Cons.prems(1) this, of mem]
  have "items (fst (delete_callback mem ch cc (it_data it) st)) = mset its + R"
    using conjunct1 [OF conjunct2 [OF s]] Cons.prems(2) by simp
  then show ?case using Cons.IH [of "delete_callback mem ch cc (it_data it) st"] s
    by (simp add: delete_callback_def)
qed simp

section \<open>The properties\<close>

lemma lh_new_ok:
  assumes "OPENSSL_lh_new struct_ok mem hash_fn cmp_fn = Some lh" "hash_keys (ch hash_fn) (cc cmp_fn) S"
  shows "lh_ok ch cc S lh \<and> elems lh = {#} \<and> addr_ok lh"
proof -
  have lh: "lh = \<lparr>num_items = 0, buckets = replicate kMinNumBuckets [], num_buckets = kMinNumBuckets,
                 callback_depth = 0, lh_comp = cmp_fn, lh_hash = hash_fn\<rparr>"
    using assms(1) by (auto simp: OPENSSL_lh_new_def split: if_splits)
  have "items lh = {#}" by (simp add: items_def lh concat_replicate_trivial)
  then show ?thesis using assms(2) hash_keys.uniq_def [OF assms(2)] placed_replicate [of kMinNumBuckets]
    by (simp add: lh_ok_def shape_ok_def elems_def addr_ok_def) (simp add: lh kMinNumBuckets_def concat_replicate_trivial)
qed

text \<open>
  C7. Inserting into the table refines insertion into a set without equal elements: an equal
  element is replaced and handed back, a new one is added when an item can be allocated, and a
  failed allocation changes nothing. Placement by hash, uniqueness and the count hold again, also
  across a resize.
\<close>

theorem lhash_insert:
  assumes "lh_ok ch cc S lh" "x \<in> S" "num_items lh + 1 < 2 ^ 61"
  shows "(\<exists>e M lh'. OPENSSL_lh_insert mem fresh ch cc x lh = (Ok e, lh') \<and> elems lh = add_mset e M \<and>
        cc (lh_comp lh) e x = 0 \<and> elems lh' = add_mset x M \<and> lh_ok ch cc S lh') \<or>
    (\<forall>e\<in>#elems lh. cc (lh_comp lh) e x \<noteq> 0) \<and>
      (if fresh = None then OPENSSL_lh_insert mem fresh ch cc x lh = (Err, lh)
       else \<exists>lh'. OPENSSL_lh_insert mem fresh ch cc x lh = (Ok 0, lh') \<and>
        elems lh' = add_mset x (elems lh) \<and> lh_ok ch cc S lh')"
  by (rule lh_insert_elems [OF assms, of mem fresh]) auto

definition sample_hash :: hash_caller where
  "sample_hash handle p = ucast p"

definition sample_table :: LHASH where
  "sample_table = \<lparr>num_items = 2,
     buckets = (replicate 16 [])[5 := [\<lparr>it_addr = 1, it_data = 5, it_hash = 5\<rparr>, \<lparr>it_addr = 2, it_data = 21, it_hash = 21\<rparr>]],
     num_buckets = 16, callback_depth = 0, lh_comp = 0, lh_hash = 0\<rparr>"

lemma sample_keys: "hash_keys (sample_hash h) (address_cmp c) S"
  by unfold_locales (auto simp: address_cmp_def word_uint_eq_iff [symmetric])

lemma concat_one_bucket: "b < n \<Longrightarrow> concat ((replicate n [])[b := chain]) = chain"
  using id_take_nth_drop [of b "(replicate n [])[b := chain]"]
  by (simp add: upd_conv_take_nth_drop concat_replicate_trivial)

lemma sample_table_items: "items sample_table = {#\<lparr>it_addr = 1, it_data = 5, it_hash = 5\<rparr>, \<lparr>it_addr = 2, it_data = 21, it_hash = 21\<rparr>#}"
  "concat (buckets sample_table) = [\<lparr>it_addr = 1, it_data = 5, it_hash = 5\<rparr>, \<lparr>it_addr = 2, it_data = 21, it_hash = 21\<rparr>]"
  unfolding items_def sample_table_def by (simp_all add: concat_one_bucket)

lemma sample_table_ok: "lh_ok sample_hash address_cmp UNIV sample_table" "elems sample_table = {#5, 21#}" "addr_ok sample_table"
proof -
  show e: "elems sample_table = {#5, 21#}" by (simp add: elems_def sample_table_items)
  show "addr_ok sample_table" by (simp add: addr_ok_def sample_table_items)
  have "placed 16 (buckets sample_table)"
    unfolding sample_table_def select_convs by (intro placed_update placed_replicate) simp_all
  then have "shape_ok sample_table"
    by (simp add: shape_ok_def sample_table_items kMinNumBuckets_def) (simp add: sample_table_def)
  moreover have "hash_keys.uniq (address_cmp 0) UNIV {#5, 21#}"
    unfolding hash_keys.uniq_def [OF sample_keys] by (auto simp: address_cmp_def)
  moreover have "lh_comp sample_table = 0" "lh_hash sample_table = 0" by (simp_all add: sample_table_def)
  ultimately show "lh_ok sample_hash address_cmp UNIV sample_table"
    using sample_keys by (simp add: lh_ok_def e sample_table_items sample_hash_def)
qed

lemma sample_table_fields: "lh_comp sample_table = 0" "lh_hash sample_table = 0" "num_items sample_table = 2"
    "callback_depth sample_table = 0" "num_buckets sample_table = 16"
  by (simp_all add: sample_table_def)

theorem lhash_insert_witness:
  "\<exists>lh'. OPENSSL_lh_insert (\<lambda>_. True) (Some 3) sample_hash address_cmp 7 sample_table = (Ok 0, lh') \<and>
     elems lh' = {#5, 7, 21#}"
proof -
  have "num_items sample_table + 1 < 2 ^ 61" by (simp add: sample_table_fields)
  from lhash_insert [OF sample_table_ok(1) UNIV_I this, where x = 7 and mem = "\<lambda>_. True" and fresh = "Some 3"]
  show ?thesis
  proof (elim disjE exE conjE)
    fix e M assume "elems sample_table = add_mset e M" "address_cmp (lh_comp sample_table) e 7 = 0"
    then have "e \<in># {#5, 21#}" "e = 7" by (simp_all add: sample_table_ok(2) [symmetric] address_cmp_def word_uint_eq_iff)
    then show ?thesis by simp
  qed (auto simp: sample_table_ok(2) add_mset_commute)
qed

text \<open>
  C8. Looking up finds the element equal to the data exactly when the table holds one, in
  whatever bucket it is, and deleting hands it back and takes out that one only; otherwise both
  give a null pointer.
\<close>

theorem lhash_lookup_delete:
  assumes "lh_ok ch cc S lh" "x \<in> S"
  shows "(\<exists>e lh'. cc (lh_comp lh) e x = 0 \<and> OPENSSL_lh_retrieve ch cc lh x = e \<and>
        OPENSSL_lh_delete mem ch cc x lh = (Ok e, lh') \<and> elems lh = add_mset e (elems lh') \<and> lh_ok ch cc S lh') \<or>
    (\<forall>e\<in>#elems lh. cc (lh_comp lh) e x \<noteq> 0) \<and> OPENSSL_lh_retrieve ch cc lh x = 0 \<and>
        OPENSSL_lh_delete mem ch cc x lh = (Ok 0, lh)"
  by (rule lh_delete_elems [OF assms, of mem]) (use lh_delete_retrieves in blast)+

theorem lhash_lookup_delete_witness:
  "OPENSSL_lh_retrieve sample_hash address_cmp sample_table 21 = 21"
proof -
  have "address_cmp c e 21 = 0 \<Longrightarrow> e = 21" for c e by (simp add: address_cmp_def word_uint_eq_iff)
  then show ?thesis
    using lhash_lookup_delete [OF sample_table_ok(1) UNIV_I, where x = 21 and mem = "\<lambda>_. True"]
    by (force simp: sample_table_ok(2) address_cmp_def)
qed

text \<open>
  C39. \<open>OPENSSL_lh_doall_arg\<close> with a callback that deletes the element it is given calls it for
  every element once, in order, ends, never touches a freed item, and leaves the table empty and
  consistent. While callbacks are made the number of buckets stays; the resize that was held back
  is done at the end: unless this is itself a callback, or the smaller array cannot be
  allocated, the table then has half its buckets, and at least 16.
\<close>

theorem lhash_doall_delete:
  assumes "lh_ok ch cc S lh" "addr_ok lh" "callback_depth lh + 1 < UINT_MAX"
  shows "\<exists>lh'. OPENSSL_lh_doall_arg mem (delete_callback mem ch cc) (Some lh) [] =
      Some (Ok (), Some lh', map it_data (concat (buckets lh))) \<and> elems lh' = {#} \<and> num_items lh' = 0 \<and>
      callback_depth lh' = callback_depth lh \<and> lh_ok ch cc S lh' \<and>
      num_buckets lh' =
        (let n = num_buckets lh; half = max kMinNumBuckets (n div 2)
         in if callback_depth lh = 0 \<and> n > kMinNumBuckets \<and> mem (8 * half) then half else n)"
proof -
  define lh1 where "lh1 = lh\<lparr>callback_depth := callback_depth lh + 1\<rparr>"
  have i1: "items lh1 = items lh" by (simp add: items_def lh1_def)
  have ok1: "lh_ok ch cc S lh1"
    using assms(1) i1 by (simp add: lh_ok_def shape_ok_def elems_def) (simp add: lh1_def)
  have inv: "delete_inv ch cc S (lh1, [])"
    using assms(2) ok1 by (simp add: delete_inv_def addr_ok_def) (simp add: lh1_def)
  obtain lh2 w2 where v: "visit (delete_callback mem ch cc) (concat (buckets lh)) (lh1, []) = (lh2, w2)"
    by (cases "visit (delete_callback mem ch cc) (concat (buckets lh)) (lh1, [])")
  have vd: "items lh2 = {#}" "delete_inv ch cc S (lh2, w2)" "w2 = map it_data (concat (buckets lh))"
    using visit_deletes [OF inv, of "concat (buckets lh)" "{#}" mem] i1 by (auto simp: v items_def)
  obtain lh' where r: "OPENSSL_lh_doall_arg mem (delete_callback mem ch cc) (Some lh) [] = Some (Ok (), Some lh', w2)"
    "same_items (lh2\<lparr>callback_depth := callback_depth lh\<rparr>) lh'"
    "lh_maybe_resize mem (lh2\<lparr>callback_depth := callback_depth lh\<rparr>) = (Ok (), lh')" "num_buckets lh2 = num_buckets lh"
    using deleting.doall_arg_visits [OF assms(3) inv [unfolded lh1_def] v [unfolded lh1_def], of mem] by blast
  have "lh_ok ch cc S (lh2\<lparr>callback_depth := callback_depth lh\<rparr>)"
    using vd(2) by (simp add: delete_inv_def lh_ok_def shape_ok_def elems_def items_def)
  from lh_ok_same [OF this r(2)] have ok': "lh_ok ch cc S lh'" by simp
  have "items lh' = {#}" "callback_depth lh' = callback_depth lh"
    using r(2) vd(1) by (simp_all add: same_items_def items_def)
  moreover have "num_items lh2 = 0" "num_buckets lh < 2 ^ 61" "kMinNumBuckets \<le> num_buckets lh"
    using vd(1,2) assms(1) by (simp_all add: delete_inv_def lh_ok_def shape_ok_def)
  ultimately show ?thesis using r(1,3,4) vd(3) ok' resize_empty [OF _ _ _ r(3)]
    by (simp add: lh_ok_def shape_ok_def elems_def Let_def)
qed

theorem lhash_doall_delete_witness:
  "\<exists>lh'. OPENSSL_lh_doall_arg (\<lambda>_. True) (delete_callback (\<lambda>_. True) sample_hash address_cmp) (Some sample_table) [] =
     Some (Ok (), Some lh', [5, 21]) \<and> num_items lh' = 0 \<and> num_buckets lh' = 16"
proof -
  have "callback_depth sample_table + 1 < UINT_MAX" by (simp add: sample_table_fields UINT_MAX_def)
  from lhash_doall_delete [OF sample_table_ok(1,3) this, of "\<lambda>_. True"]
  show ?thesis by (auto simp: sample_table_items sample_table_fields kMinNumBuckets_def Let_def)
qed

end
