(* ===== verification/Buffer_Pool.thy ===== *)
theory Buffer_Pool
  imports Siphash Lhash_Table Cbs_Core
begin

text \<open>
  The pool of shared byte buffers of crypto/pool/pool.c, with the reference counts of
  crypto/refcount.c. Buffers live in a heap, from addresses to buffers; the pool keeps the
  addresses of its buffers in a hash table keyed by their contents. There is one pool, at the
  address \<open>POOL\<close>; a buffer with the null pool belongs to none. Allocations are parameters:
  \<open>None\<close> is a failure, \<open>Some a\<close> the address of the new block.
\<close>

section \<open>Reference counts\<close>

definition CRYPTO_REFCOUNT_MAX :: u32 where
  "CRYPTO_REFCOUNT_MAX = 0xffffffff"

text \<open>
  The two operations retry a compare-and-swap until it succeeds; each is the atomic step it
  then makes. The second gives the new count and whether it is zero.
\<close>

definition CRYPTO_refcount_inc :: "u32 \<Rightarrow> u32" where
  "CRYPTO_refcount_inc cnt = (if cnt \<noteq> CRYPTO_REFCOUNT_MAX then cnt + 1 else cnt)"

definition CRYPTO_refcount_dec_and_test_zero :: "u32 \<Rightarrow> (u32 \<times> bool) result" where
  "CRYPTO_refcount_dec_and_test_zero cnt =
     (if cnt = 0 then Abort
      else if cnt = CRYPTO_REFCOUNT_MAX then Ok (cnt, False)
      else (let new_value = cnt - 1 in Ok (new_value, new_value = 0)))"

section \<open>Buffers and the pool\<close>

record CRYPTO_BUFFER =
  cb_pool :: ptr
  cb_data :: "byte list"
  cb_len :: nat
  cb_references :: u32
  cb_static :: bool

type_synonym buffer_heap = "ptr \<Rightarrow> CRYPTO_BUFFER option"

definition POOL :: ptr where "POOL = 1"

record CRYPTO_BUFFER_POOL =
  pl_heap :: buffer_heap
  pl_bufs :: LHASH
  pl_hash_key :: "u64 \<times> u64"

definition CRYPTO_BUFFER_hash :: "u64 \<times> u64 \<Rightarrow> CRYPTO_BUFFER \<Rightarrow> u32" where
  "CRYPTO_BUFFER_hash key buf = ucast (SIPHASH_24 key (cb_data buf) (cb_len buf))"

definition CRYPTO_BUFFER_cmp :: "CRYPTO_BUFFER \<Rightarrow> CRYPTO_BUFFER \<Rightarrow> int result" where
  "CRYPTO_BUFFER_cmp a b =
     (if cb_pool a = 0 then Abort
      else if cb_pool a \<noteq> cb_pool b then Abort
      else if cb_len a \<noteq> cb_len b then Ok 1
      else Ok (OPENSSL_memcmp (cb_data a) (cb_data b) (cb_len a)))"

text \<open>
  The two functions as the table calls them, on addresses. Where the comparison would fail an
  assertion or read a freed buffer, \<open>heap_cmp\<close> is 1; the table of a pool never calls it so
  (Pool_Table, \<open>heap_cmp_safe\<close>).
\<close>

definition heap_hash :: "buffer_heap \<Rightarrow> u64 \<times> u64 \<Rightarrow> hash_caller" where
  "heap_hash heap key handle p = (case heap p of Some buf \<Rightarrow> CRYPTO_BUFFER_hash key buf | None \<Rightarrow> 0)"

definition heap_cmp :: "buffer_heap \<Rightarrow> cmp_caller" where
  "heap_cmp heap handle p q =
     (case (heap p, heap q) of
        (Some a, Some b) \<Rightarrow> (case CRYPTO_BUFFER_cmp a b of Ok r \<Rightarrow> r | _ \<Rightarrow> 1)
      | _ \<Rightarrow> 1)"

definition CRYPTO_BUFFER_POOL_new ::
    "bool \<Rightarrow> bool \<Rightarrow> (nat \<Rightarrow> bool) \<Rightarrow> u64 \<times> u64 \<Rightarrow> buffer_heap \<Rightarrow> CRYPTO_BUFFER_POOL option" where
  "CRYPTO_BUFFER_POOL_new pool_mem table_mem mem random heap =
     (if \<not> pool_mem then None
      else case OPENSSL_lh_new table_mem mem 0 0 of
        None \<Rightarrow> None
      | Some bufs \<Rightarrow> Some \<lparr>pl_heap = heap, pl_bufs = bufs, pl_hash_key = random\<rparr>)"

text \<open>The table has to be empty when the pool is freed.\<close>

definition CRYPTO_BUFFER_POOL_free :: "CRYPTO_BUFFER_POOL option \<Rightarrow> unit result" where
  "CRYPTO_BUFFER_POOL_free pool =
     (case pool of
        None \<Rightarrow> Ok ()
      | Some pl \<Rightarrow> if OPENSSL_lh_num_items (pl_bufs pl) \<noteq> 0 then Abort else Ok ())"

text \<open>A lookup with a buffer on the caller's stack, at an address of its own.\<close>

definition lookup_tmp :: "ptr \<Rightarrow> byte list \<Rightarrow> nat \<Rightarrow> CRYPTO_BUFFER_POOL \<Rightarrow> ptr" where
  "lookup_tmp tmp data len pl =
     (let heap = (pl_heap pl)(tmp \<mapsto> \<lparr>cb_pool = POOL, cb_data = data, cb_len = len, cb_references = 0, cb_static = False\<rparr>)
      in OPENSSL_lh_retrieve (heap_hash heap (pl_hash_key pl)) (heap_cmp heap) (pl_bufs pl) tmp)"

definition is_static :: "buffer_heap \<Rightarrow> ptr \<Rightarrow> bool" where
  "is_static heap p = (case heap p of Some buf \<Rightarrow> cb_static buf | None \<Rightarrow> False)"

definition inc_references :: "ptr \<Rightarrow> CRYPTO_BUFFER_POOL \<Rightarrow> CRYPTO_BUFFER_POOL" where
  "inc_references p pl =
     pl\<lparr>pl_heap := (pl_heap pl)(p := map_option
       (\<lambda>buf. buf\<lparr>cb_references := CRYPTO_refcount_inc (cb_references buf)\<rparr>) (pl_heap pl p))\<rparr>"

text \<open>
  The first critical section of \<open>crypto_buffer_new\<close>, under the read lock: a buffer with the same
  contents, counted once more, or \<open>NULL\<close>.
\<close>

definition buffer_new_lookup :: "ptr \<Rightarrow> byte list \<Rightarrow> nat \<Rightarrow> bool \<Rightarrow> CRYPTO_BUFFER_POOL \<Rightarrow> ptr \<times> CRYPTO_BUFFER_POOL" where
  "buffer_new_lookup tmp data len data_is_static pl =
     (let duplicate = lookup_tmp tmp data len pl;
          duplicate = (if data_is_static \<and> duplicate \<noteq> 0 \<and> \<not> is_static (pl_heap pl) duplicate then 0 else duplicate)
      in (duplicate, if duplicate \<noteq> 0 then inc_references duplicate pl else pl))"

text \<open>Between the critical sections: a new buffer with a copy of the data, or the static data itself.\<close>

definition buffer_new_alloc ::
    "ptr option \<Rightarrow> bool \<Rightarrow> byte list \<Rightarrow> nat \<Rightarrow> bool \<Rightarrow> bool \<Rightarrow> CRYPTO_BUFFER_POOL \<Rightarrow> ptr \<times> CRYPTO_BUFFER_POOL" where
  "buffer_new_alloc fresh copy_ok data len data_is_static pooled pl =
     (case fresh of
        None \<Rightarrow> (0, pl)
      | Some buf \<Rightarrow>
          if \<not> data_is_static \<and> len \<noteq> 0 \<and> \<not> copy_ok then (0, pl)
          else (buf, pl\<lparr>pl_heap := (pl_heap pl)(buf \<mapsto>
                 \<lparr>cb_pool = (if pooled then POOL else 0), cb_data = take len data, cb_len = len,
                  cb_references = 1, cb_static = data_is_static\<rparr>)\<rparr>))"

definition crypto_buffer_free_object :: "ptr \<Rightarrow> CRYPTO_BUFFER_POOL \<Rightarrow> CRYPTO_BUFFER_POOL" where
  "crypto_buffer_free_object buf pl = pl\<lparr>pl_heap := (pl_heap pl)(buf := None)\<rparr>"

text \<open>
  The second critical section, under the write lock: another thread may have inserted a buffer
  with the same contents in between.
\<close>

definition buffer_new_insert ::
    "(nat \<Rightarrow> bool) \<Rightarrow> u64 option \<Rightarrow> ptr \<Rightarrow> bool \<Rightarrow> CRYPTO_BUFFER_POOL \<Rightarrow> ptr result \<times> CRYPTO_BUFFER_POOL" where
  "buffer_new_insert mem item buf data_is_static pl =
     (let ch = heap_hash (pl_heap pl) (pl_hash_key pl);
          cc = heap_cmp (pl_heap pl);
          duplicate = OPENSSL_lh_retrieve ch cc (pl_bufs pl) buf;
          duplicate = (if data_is_static \<and> duplicate \<noteq> 0 \<and> \<not> is_static (pl_heap pl) duplicate then 0 else duplicate)
      in if duplicate = 0 then
           (case OPENSSL_lh_insert mem item ch cc buf (pl_bufs pl) of
              (Ok _, bufs) \<Rightarrow> (Ok buf, pl\<lparr>pl_bufs := bufs\<rparr>)
            | (Err, bufs) \<Rightarrow> (Ok 0, crypto_buffer_free_object buf (pl\<lparr>pl_bufs := bufs\<rparr>))
            | (Abort, bufs) \<Rightarrow> (Abort, pl\<lparr>pl_bufs := bufs\<rparr>))
         else (Ok duplicate, crypto_buffer_free_object buf (inc_references duplicate pl)))"

text \<open>The whole function, for a caller that no other thread interrupts.\<close>

definition crypto_buffer_new ::
    "(nat \<Rightarrow> bool) \<Rightarrow> ptr \<Rightarrow> ptr option \<Rightarrow> bool \<Rightarrow> u64 option \<Rightarrow> byte list \<Rightarrow> nat \<Rightarrow> bool \<Rightarrow> bool \<Rightarrow>
     CRYPTO_BUFFER_POOL \<Rightarrow> ptr result \<times> CRYPTO_BUFFER_POOL" where
  "crypto_buffer_new mem tmp fresh copy_ok item data len data_is_static pooled pl =
     (case (if pooled then buffer_new_lookup tmp data len data_is_static pl else (0, pl)) of
        (duplicate, pl) \<Rightarrow>
          if duplicate \<noteq> 0 then (Ok duplicate, pl)
          else (case buffer_new_alloc fresh copy_ok data len data_is_static pooled pl of
             (buf, pl) \<Rightarrow>
               if buf = 0 then (Ok 0, pl)
               else if \<not> pooled then (Ok buf, pl)
               else buffer_new_insert mem item buf data_is_static pl))"

definition CRYPTO_BUFFER_new ::
    "(nat \<Rightarrow> bool) \<Rightarrow> ptr \<Rightarrow> ptr option \<Rightarrow> bool \<Rightarrow> u64 option \<Rightarrow> byte list \<Rightarrow> nat \<Rightarrow> bool \<Rightarrow>
     CRYPTO_BUFFER_POOL \<Rightarrow> ptr result \<times> CRYPTO_BUFFER_POOL" where
  "CRYPTO_BUFFER_new mem tmp fresh copy_ok item data len pooled pl =
     crypto_buffer_new mem tmp fresh copy_ok item data len False pooled pl"

definition CRYPTO_BUFFER_new_from_static_data_unsafe ::
    "(nat \<Rightarrow> bool) \<Rightarrow> ptr \<Rightarrow> ptr option \<Rightarrow> bool \<Rightarrow> u64 option \<Rightarrow> byte list \<Rightarrow> nat \<Rightarrow> bool \<Rightarrow>
     CRYPTO_BUFFER_POOL \<Rightarrow> ptr result \<times> CRYPTO_BUFFER_POOL" where
  "CRYPTO_BUFFER_new_from_static_data_unsafe mem tmp fresh copy_ok item data len pooled pl =
     crypto_buffer_new mem tmp fresh copy_ok item data len True pooled pl"

definition CRYPTO_BUFFER_new_from_CBS ::
    "(nat \<Rightarrow> bool) \<Rightarrow> ptr \<Rightarrow> ptr option \<Rightarrow> bool \<Rightarrow> u64 option \<Rightarrow> CBS \<Rightarrow> bool \<Rightarrow>
     CRYPTO_BUFFER_POOL \<Rightarrow> ptr result \<times> CRYPTO_BUFFER_POOL" where
  "CRYPTO_BUFFER_new_from_CBS mem tmp fresh copy_ok item cbs pooled pl =
     CRYPTO_BUFFER_new mem tmp fresh copy_ok item cbs (CBS_len cbs) pooled pl"

text \<open>A buffer outside every pool, with the bytes the allocator gives.\<close>

definition CRYPTO_BUFFER_alloc ::
    "ptr option \<Rightarrow> allocator \<Rightarrow> nat \<Rightarrow> CRYPTO_BUFFER_POOL \<Rightarrow> ptr \<times> CRYPTO_BUFFER_POOL" where
  "CRYPTO_BUFFER_alloc fresh mem len pl =
     (case fresh of
        None \<Rightarrow> (0, pl)
      | Some buf \<Rightarrow>
          (case mem len of
             None \<Rightarrow>
               if len \<noteq> 0 then (0, pl)
               else (buf, pl\<lparr>pl_heap := (pl_heap pl)(buf \<mapsto>
                      \<lparr>cb_pool = 0, cb_data = [], cb_len = 0, cb_references = 1, cb_static = False\<rparr>)\<rparr>)
           | Some data \<Rightarrow>
               (buf, pl\<lparr>pl_heap := (pl_heap pl)(buf \<mapsto>
                  \<lparr>cb_pool = 0, cb_data = data, cb_len = len, cb_references = 1, cb_static = False\<rparr>)\<rparr>)))"

text \<open>Giving a reference back. \<open>Abort\<close> is a freed buffer or a failing assertion.\<close>

definition CRYPTO_BUFFER_free :: "(nat \<Rightarrow> bool) \<Rightarrow> ptr \<Rightarrow> (CRYPTO_BUFFER_POOL, unit) op" where
  "CRYPTO_BUFFER_free mem buf pl =
     (if buf = 0 then (Ok (), pl)
      else case pl_heap pl buf of
        None \<Rightarrow> (Abort, pl)
      | Some b \<Rightarrow>
          (case CRYPTO_refcount_dec_and_test_zero (cb_references b) of
             Ok (cnt, zero) \<Rightarrow>
               (let pl = pl\<lparr>pl_heap := (pl_heap pl)(buf \<mapsto> b\<lparr>cb_references := cnt\<rparr>)\<rparr>
                in if \<not> zero then (Ok (), pl)
                   else if cb_pool b = 0 then (Ok (), crypto_buffer_free_object buf pl)
                   else
                     (let ch = heap_hash (pl_heap pl) (pl_hash_key pl);
                          cc = heap_cmp (pl_heap pl);
                          found = OPENSSL_lh_retrieve ch cc (pl_bufs pl) buf
                      in if found = buf then
                           (case OPENSSL_lh_delete mem ch cc buf (pl_bufs pl) of
                              (Ok found, bufs) \<Rightarrow>
                                if found \<noteq> buf then (Abort, pl\<lparr>pl_bufs := bufs\<rparr>)
                                else (Ok (), crypto_buffer_free_object buf (pl\<lparr>pl_bufs := bufs\<rparr>))
                            | (Err, bufs) \<Rightarrow> (Err, pl\<lparr>pl_bufs := bufs\<rparr>)
                            | (Abort, bufs) \<Rightarrow> (Abort, pl\<lparr>pl_bufs := bufs\<rparr>))
                         else (Ok (), crypto_buffer_free_object buf pl)))
           | Err \<Rightarrow> (Err, pl)
           | Abort \<Rightarrow> (Abort, pl)))"

definition CRYPTO_BUFFER_up_ref :: "ptr \<Rightarrow> (CRYPTO_BUFFER_POOL, unit) op" where
  "CRYPTO_BUFFER_up_ref buf pl =
     (case pl_heap pl buf of
        None \<Rightarrow> (Abort, pl)
      | Some _ \<Rightarrow> (Ok (), inc_references buf pl))"

definition CRYPTO_BUFFER_data :: "ptr \<Rightarrow> CRYPTO_BUFFER_POOL \<Rightarrow> byte list result" where
  "CRYPTO_BUFFER_data buf pl = (case pl_heap pl buf of None \<Rightarrow> Abort | Some b \<Rightarrow> Ok (cb_data b))"

definition CRYPTO_BUFFER_len :: "ptr \<Rightarrow> CRYPTO_BUFFER_POOL \<Rightarrow> nat result" where
  "CRYPTO_BUFFER_len buf pl = (case pl_heap pl buf of None \<Rightarrow> Abort | Some b \<Rightarrow> Ok (cb_len b))"

definition CRYPTO_BUFFER_init_CBS :: "ptr \<Rightarrow> CRYPTO_BUFFER_POOL \<Rightarrow> CBS result" where
  "CRYPTO_BUFFER_init_CBS buf pl =
     (case pl_heap pl buf of None \<Rightarrow> Abort | Some b \<Rightarrow> Ok (take (cb_len b) (cb_data b)))"

end
