(* ===== verification/Pool_Table.thy ===== *)
theory Pool_Table
  imports Buffer_Pool
begin

text \<open>
  The pool as a table keyed by contents: the hash and the comparison of the pool keep the contract
  of the hash table on the buffers of the heap, whatever the counts are, and the consistency
  \<open>pool_ok\<close> that a lookup relies on.
\<close>

section \<open>Buffers by contents\<close>

lemma memcmp_zero: "length a = n \<Longrightarrow> length b = n \<Longrightarrow> OPENSSL_memcmp a b n = 0 \<longleftrightarrow> a = b"
proof (induction a b n rule: OPENSSL_memcmp.induct)
  case (1 a as b bs n)
  have "a < b \<or> b < a \<or> a = b" by auto
  with 1 show ?case by auto
qed auto

definition contents_of :: "CRYPTO_BUFFER \<Rightarrow> ptr \<times> byte list \<times> nat" where
  "contents_of b = (cb_pool b, cb_data b, cb_len b)"

definition pooled :: "buffer_heap \<Rightarrow> ptr set" where
  "pooled heap = {p. \<exists>b. heap p = Some b \<and> cb_pool b = POOL \<and> cb_len b = length (cb_data b)}"

lemma pooledE: "p \<in> pooled heap \<Longrightarrow> (\<And>b. heap p = Some b \<Longrightarrow> cb_pool b = POOL \<Longrightarrow> cb_len b = length (cb_data b) \<Longrightarrow> thesis) \<Longrightarrow> thesis"
  by (auto simp: pooled_def)

lemma heap_cmp_zero:
  assumes "p \<in> pooled heap" "q \<in> pooled heap"
  shows "heap_cmp heap h p q = 0 \<longleftrightarrow> map_option cb_data (heap p) = map_option cb_data (heap q)"
  by (rule pooledE [OF assms(1)], rule pooledE [OF assms(2)])
    (auto simp: heap_cmp_def CRYPTO_BUFFER_cmp_def POOL_def memcmp_zero)

text \<open>On the buffers of the pool, the comparison is defined and no assertion of it fails.\<close>

lemma heap_cmp_safe:
  assumes "p \<in> pooled heap" "q \<in> pooled heap"
  shows "\<exists>a b r. heap p = Some a \<and> heap q = Some b \<and> CRYPTO_BUFFER_cmp a b = Ok r \<and> heap_cmp heap h p q = r"
  by (rule pooledE [OF assms(1)], rule pooledE [OF assms(2)]) (simp add: heap_cmp_def CRYPTO_BUFFER_cmp_def POOL_def)

text \<open>The pool's functions keep the contract of the table on the buffers of the pool.\<close>

lemma heap_hash_cong:
  "p \<in> pooled heap \<Longrightarrow> q \<in> pooled heap \<Longrightarrow> map_option cb_data (heap p) = map_option cb_data (heap q) \<Longrightarrow>
     heap_hash heap key h p = heap_hash heap key h q"
  by (elim pooledE) (simp add: heap_hash_def CRYPTO_BUFFER_hash_def)

interpretation pool_keys: hash_keys "heap_hash heap key h" "heap_cmp heap c" "pooled heap" for heap key h c
proof
  fix a b
  assume ab: "a \<in> pooled heap" "b \<in> pooled heap" "heap_cmp heap c a b = 0"
  then show "heap_cmp heap c b a = 0" "heap_hash heap key h a = heap_hash heap key h b"
    using heap_hash_cong [OF ab(1,2)] by (simp_all add: heap_cmp_zero)
next
  fix a b d
  assume "a \<in> pooled heap" "b \<in> pooled heap" "d \<in> pooled heap" "heap_cmp heap c a b = 0" "heap_cmp heap c b d = 0"
  then show "heap_cmp heap c a d = 0" by (simp add: heap_cmp_zero)
qed (simp add: heap_cmp_zero)

section \<open>The consistency of the pool\<close>

definition heap_wf :: "buffer_heap \<Rightarrow> bool" where
  "heap_wf heap \<longleftrightarrow> heap 0 = None \<and>
     (\<forall>p b. heap p = Some b \<longrightarrow> cb_references b \<noteq> 0 \<and> cb_len b = length (cb_data b) \<and> (cb_pool b = 0 \<or> cb_pool b = POOL))"

definition table_ok :: "CRYPTO_BUFFER_POOL \<Rightarrow> bool" where
  "table_ok pl \<longleftrightarrow> lh_ok (heap_hash (pl_heap pl) (pl_hash_key pl)) (heap_cmp (pl_heap pl)) (pooled (pl_heap pl)) (pl_bufs pl)"

definition pool_ok :: "CRYPTO_BUFFER_POOL \<Rightarrow> bool" where
  "pool_ok pl \<longleftrightarrow> table_ok pl \<and> heap_wf (pl_heap pl)"

lemma table_ok_elems: "table_ok pl \<Longrightarrow> set_mset (elems (pl_bufs pl)) \<subseteq> pooled (pl_heap pl)"
  by (auto simp: table_ok_def dest: lh_ok_elems)

lemma size_filter_le: "(\<And>e. e \<in># M \<Longrightarrow> P e \<Longrightarrow> Q e) \<Longrightarrow> size (filter_mset P M) \<le> size (filter_mset Q M)"
  by (induction M) (auto intro: le_SucI)

lemma lh_ok_transfer:
  assumes ok: "lh_ok ch cc S lh" and hk: "hash_keys (ch' (lh_hash lh)) (cc' (lh_comp lh)) S'"
    and sub: "set_mset (elems lh) \<subseteq> S'" and h: "\<And>a. a \<in># elems lh \<Longrightarrow> ch' (lh_hash lh) a = ch (lh_hash lh) a"
    and c: "\<And>a b. a \<in># elems lh \<Longrightarrow> b \<in># elems lh \<Longrightarrow> cc' (lh_comp lh) a b = 0 \<Longrightarrow> cc (lh_comp lh) a b = 0"
  shows "lh_ok ch' cc' S' lh"
proof -
  let ?c = "cc (lh_comp lh)" and ?c' = "cc' (lh_comp lh)" and ?E = "elems lh"
  have hk0: "hash_keys (ch (lh_hash lh)) ?c S" using ok by (simp add: lh_ok_def)
  have u: "\<And>x. x \<in> S \<Longrightarrow> size (filter_mset (\<lambda>e. ?c e x = 0) ?E) \<le> 1" and S: "set_mset ?E \<subseteq> S"
    using ok hash_keys.uniq_def [OF hk0] by (auto simp: lh_ok_def)
  have "size (filter_mset (\<lambda>e. ?c' e x = 0) ?E) \<le> 1" if x: "x \<in> S'" for x
  proof (cases "filter_mset (\<lambda>e. ?c' e x = 0) ?E = {#}")
    case False
    then obtain e where e: "e \<in># ?E" "?c' e x = 0" by (auto simp: filter_mset_none)
    have "?c d e = 0" if d: "d \<in># ?E" "?c' d x = 0" for d
    proof -
      have "?c' x e = 0" using hash_keys.eq_sym [OF hk] e x sub by blast
      then have "?c' d e = 0" using hash_keys.eq_trans [OF hk, of d x e] d e x sub by blast
      then show ?thesis using c d e by blast
    qed
    then have "size (filter_mset (\<lambda>e. ?c' e x = 0) ?E) \<le> size (filter_mset (\<lambda>d. ?c d e = 0) ?E)"
      by (intro size_filter_le) blast
    then show ?thesis using u [of e] e S le_trans by blast
  next
    case True
    show ?thesis unfolding True by simp
  qed
  then have "hash_keys.uniq ?c' S' ?E" using sub hash_keys.uniq_def [OF hk] by simp
  moreover have "it_hash it = ch' (lh_hash lh) (it_data it)" if "it \<in># items lh" for it
    using ok that h [of "it_data it"] by (simp add: lh_ok_def elems_def)
  ultimately show ?thesis using ok hk by (simp add: lh_ok_def)
qed

section \<open>What the operations keep\<close>

lemma contents_pooled: "map_option contents_of (H' q) = map_option contents_of (H q) \<Longrightarrow> q \<in> pooled H \<Longrightarrow> q \<in> pooled H'"
  by (auto simp: pooled_def contents_of_def)

lemma contents_data:
  "map_option contents_of (H' q) = map_option contents_of (H q) \<Longrightarrow> map_option cb_data (H' q) = map_option cb_data (H q)"
  by (cases "H q"; cases "H' q") (auto simp: contents_of_def)

lemma contents_hash:
  "map_option contents_of (H' q) = map_option contents_of (H q) \<Longrightarrow> heap_hash H' key h q = heap_hash H key h q"
  by (cases "H q"; cases "H' q") (auto simp: contents_of_def heap_hash_def CRYPTO_BUFFER_hash_def)

lemma table_ok_heap:
  assumes ok: "table_ok pl" and same: "\<And>q. q \<in># elems (pl_bufs pl) \<Longrightarrow> map_option contents_of (H' q) = map_option contents_of (pl_heap pl q)"
  shows "lh_ok (heap_hash H' (pl_hash_key pl)) (heap_cmp H') (pooled H') (pl_bufs pl)"
proof (rule lh_ok_transfer [OF ok [unfolded table_ok_def] pool_keys.hash_keys_axioms])
  have sub: "set_mset (elems (pl_bufs pl)) \<subseteq> pooled (pl_heap pl)" using table_ok_elems [OF ok] .
  show sub': "set_mset (elems (pl_bufs pl)) \<subseteq> pooled H'" using sub same contents_pooled by blast
  show "\<And>a. a \<in># elems (pl_bufs pl) \<Longrightarrow>
      heap_hash H' (pl_hash_key pl) (lh_hash (pl_bufs pl)) a = heap_hash (pl_heap pl) (pl_hash_key pl) (lh_hash (pl_bufs pl)) a"
    using same contents_hash by blast
  fix a b
  assume ab: "a \<in># elems (pl_bufs pl)" "b \<in># elems (pl_bufs pl)" "heap_cmp H' (lh_comp (pl_bufs pl)) a b = 0"
  then have "map_option cb_data (H' a) = map_option cb_data (H' b)" using sub' heap_cmp_zero by blast
  then show "heap_cmp (pl_heap pl) (lh_comp (pl_bufs pl)) a b = 0"
    using ab sub contents_data [of H' a "pl_heap pl", OF same [OF ab(1)]]
      contents_data [of H' b "pl_heap pl", OF same [OF ab(2)]] by (subst heap_cmp_zero) auto
qed

lemma pool_ok_heap:
  assumes "pool_ok pl" "heap_wf H'" "\<And>q. q \<in># elems (pl_bufs pl) \<Longrightarrow> map_option contents_of (H' q) = map_option contents_of (pl_heap pl q)"
  shows "pool_ok (pl\<lparr>pl_heap := H'\<rparr>)"
  using table_ok_heap [of pl H'] assms by (simp add: pool_ok_def table_ok_def)

lemma heap_wf_upd:
  "heap_wf H \<Longrightarrow> p \<noteq> 0 \<Longrightarrow> cb_references b \<noteq> 0 \<Longrightarrow> cb_len b = length (cb_data b) \<Longrightarrow> cb_pool b = 0 \<or> cb_pool b = POOL \<Longrightarrow>
     heap_wf (H(p \<mapsto> b))"
  by (simp add: heap_wf_def)

lemma heap_wf_free: "heap_wf H \<Longrightarrow> heap_wf (H(p := None))"
  by (simp add: heap_wf_def)

lemma pool_ok_elem: "pool_ok pl \<Longrightarrow> e \<in># elems (pl_bufs pl) \<Longrightarrow> \<exists>b. pl_heap pl e = Some b \<and> cb_pool b = POOL \<and> e \<noteq> 0"
  using table_ok_elems [of pl] by (fastforce simp: pool_ok_def pooled_def heap_wf_def)

lemma refcount_inc_unat: "c \<noteq> CRYPTO_REFCOUNT_MAX \<Longrightarrow> unat (CRYPTO_refcount_inc c) = Suc (unat c)"
proof -
  assume a: "c \<noteq> CRYPTO_REFCOUNT_MAX"
  have "unat c < 2 ^ 32" by (rule order_less_le_trans [OF unsigned_less]) simp
  moreover have "unat c \<noteq> unat CRYPTO_REFCOUNT_MAX" using a by (metis word_unat_eq_iff)
  ultimately have "unat c + 1 < 2 ^ 32" by (simp add: CRYPTO_REFCOUNT_MAX_def)
  then show ?thesis using a by (simp add: CRYPTO_refcount_inc_def unat_word_ariths)
qed

lemma refcount_inc_nonzero: "c \<noteq> 0 \<Longrightarrow> CRYPTO_refcount_inc c \<noteq> 0"
  by (metis CRYPTO_refcount_inc_def Zero_not_Suc refcount_inc_unat unat_0)

lemma inc_references_ok:
  assumes "pool_ok pl" "pl_heap pl p = Some b"
  shows "inc_references p pl = pl\<lparr>pl_heap := (pl_heap pl)(p \<mapsto> b\<lparr>cb_references := CRYPTO_refcount_inc (cb_references b)\<rparr>)\<rparr>"
    "pool_ok (inc_references p pl)"
proof -
  show e: "inc_references p pl = pl\<lparr>pl_heap := (pl_heap pl)(p \<mapsto> b\<lparr>cb_references := CRYPTO_refcount_inc (cb_references b)\<rparr>)\<rparr>"
    by (simp add: inc_references_def assms(2))
  have w: "heap_wf (pl_heap pl)" using assms(1) by (simp add: pool_ok_def)
  then have "heap_wf ((pl_heap pl)(p \<mapsto> b\<lparr>cb_references := CRYPTO_refcount_inc (cb_references b)\<rparr>))"
    using assms(2) refcount_inc_nonzero by (intro heap_wf_upd) (auto simp: heap_wf_def)
  then show "pool_ok (inc_references p pl)"
    unfolding e using assms by (intro pool_ok_heap) (auto simp: contents_of_def)
qed

lemma lookup_tmp_cases:
  assumes ok: "pool_ok pl" and tmp: "pl_heap pl tmp = None"
  obtains (found) b where "lookup_tmp tmp data (length data) pl \<in># elems (pl_bufs pl)"
      "pl_heap pl (lookup_tmp tmp data (length data) pl) = Some b" "cb_data b = data"
  | (missing) "lookup_tmp tmp data (length data) pl = 0" "\<And>e. e \<in># elems (pl_bufs pl) \<Longrightarrow> map_option cb_data (pl_heap pl e) \<noteq> Some data"
proof -
  define H where "H = (pl_heap pl)(tmp \<mapsto> \<lparr>cb_pool = POOL, cb_data = data, cb_len = length data, cb_references = 0, cb_static = False\<rparr>)"
  have ne: "e \<noteq> tmp" if "e \<in># elems (pl_bufs pl)" for e using pool_ok_elem [OF ok that] tmp by auto
  have lok: "lh_ok (heap_hash H (pl_hash_key pl)) (heap_cmp H) (pooled H) (pl_bufs pl)"
    using ok ne by (intro table_ok_heap) (auto simp: pool_ok_def H_def)
  have t: "tmp \<in> pooled H" by (simp add: pooled_def H_def)
  have c: "heap_cmp H c e tmp = 0 \<longleftrightarrow> map_option cb_data (pl_heap pl e) = Some data" if "e \<in># elems (pl_bufs pl)" for e c
    using heap_cmp_zero [of e H tmp c] lh_ok_elems [OF lok] that t ne [OF that] by (auto simp: H_def)
  have l: "lookup_tmp tmp data (length data) pl = OPENSSL_lh_retrieve (heap_hash H (pl_hash_key pl)) (heap_cmp H) (pl_bufs pl) tmp"
    by (simp add: lookup_tmp_def H_def Let_def)
  from lh_retrieve_elem [OF lok t] show ?thesis
  proof (elim disjE exE conjE)
    fix e assume e: "e \<in># elems (pl_bufs pl)" "heap_cmp H (lh_comp (pl_bufs pl)) e tmp = 0"
      "OPENSSL_lh_retrieve (heap_hash H (pl_hash_key pl)) (heap_cmp H) (pl_bufs pl) tmp = e"
    then show ?thesis using found c [OF e(1)] by (auto simp: l)
  qed (use missing c l in auto)
qed

lemma retrieve_cases:
  assumes ok: "pool_ok pl" and a: "pl_heap pl a = Some b" "cb_pool b = POOL"
  defines "d \<equiv> OPENSSL_lh_retrieve (heap_hash (pl_heap pl) (pl_hash_key pl)) (heap_cmp (pl_heap pl)) (pl_bufs pl) a"
  obtains (found) b' where "d \<in># elems (pl_bufs pl)" "pl_heap pl d = Some b'" "cb_data b' = cb_data b" "d \<noteq> 0"
  | (missing) "d = 0" "\<And>e. e \<in># elems (pl_bufs pl) \<Longrightarrow> map_option cb_data (pl_heap pl e) \<noteq> Some (cb_data b)"
proof -
  have t: "a \<in> pooled (pl_heap pl)" using ok a by (simp add: pooled_def pool_ok_def heap_wf_def)
  have lok: "table_ok pl" using ok by (simp add: pool_ok_def)
  have c: "heap_cmp (pl_heap pl) c e a = 0 \<longleftrightarrow> map_option cb_data (pl_heap pl e) = Some (cb_data b)"
    if "e \<in># elems (pl_bufs pl)" for e c
    using heap_cmp_zero [of e "pl_heap pl" a c] table_ok_elems [OF lok] that t a by auto
  from lh_retrieve_elem [OF lok [unfolded table_ok_def] t] show ?thesis
  proof (elim disjE exE conjE)
    fix e assume e: "e \<in># elems (pl_bufs pl)" "heap_cmp (pl_heap pl) (lh_comp (pl_bufs pl)) e a = 0"
      "OPENSSL_lh_retrieve (heap_hash (pl_heap pl) (pl_hash_key pl)) (heap_cmp (pl_heap pl)) (pl_bufs pl) a = e"
    then show ?thesis using found c [OF e(1)] pool_ok_elem [OF ok e(1)] by (auto simp: d_def)
  qed (use missing c in \<open>auto simp: d_def\<close>)
qed

end
