(* ===== verification/Pool_Counts.thy ===== *)
theory Pool_Counts
  imports Pool_Table
begin

text \<open>
  Reference counts and owners: what one operation of the pool does to the table, the counts and
  the heap, each on a consistent pool.
\<close>

section \<open>Reference counts and owners\<close>

text \<open>
  \<open>counted heap M\<close>: with the owners \<open>M\<close> (an address once for every reference somebody holds),
  every count is the number of the owners or saturated, and no owned buffer has been freed.
\<close>

definition counted :: "buffer_heap \<Rightarrow> ptr multiset \<Rightarrow> bool" where
  "counted H M \<longleftrightarrow>
     (\<forall>p b. H p = Some b \<longrightarrow> cb_references b = CRYPTO_REFCOUNT_MAX \<or> unat (cb_references b) = count M p) \<and>
     (\<forall>p\<in>#M. H p \<noteq> None)"

lemma counted_live: "counted H M \<Longrightarrow> p \<in># M \<Longrightarrow> \<exists>b. H p = Some b"
  by (auto simp: counted_def)

lemma counted_refs:
  "counted H M \<Longrightarrow> H p = Some b \<Longrightarrow> cb_references b = CRYPTO_REFCOUNT_MAX \<or> unat (cb_references b) = count M p"
  by (simp add: counted_def)

lemma counted_inc:
  "counted H M \<Longrightarrow> H p = Some b \<Longrightarrow> counted (H(p \<mapsto> b\<lparr>cb_references := CRYPTO_refcount_inc (cb_references b)\<rparr>)) (add_mset p M)"
  unfolding counted_def by (cases "cb_references b = CRYPTO_REFCOUNT_MAX") (auto simp: refcount_inc_unat, simp add: CRYPTO_refcount_inc_def)

lemma refcount_dec_cases:
  assumes "c \<noteq> 0"
  obtains (saturated) "c = CRYPTO_REFCOUNT_MAX" "CRYPTO_refcount_dec_and_test_zero c = Ok (c, False)"
  | (last_one) "c = 1" "CRYPTO_refcount_dec_and_test_zero c = Ok (0, True)"
  | (more_left) c' where "CRYPTO_refcount_dec_and_test_zero c = Ok (c', False)" "unat c = Suc (unat c')" "c' \<noteq> 0" "c \<noteq> 1"
proof -
  have "unat c = Suc (unat (c - 1))" using assms by (simp add: unat_minus_one unat_gt_0)
  moreover have "CRYPTO_REFCOUNT_MAX \<noteq> 1" by (simp add: CRYPTO_REFCOUNT_MAX_def)
  ultimately show ?thesis
    using that assms by (cases "c = CRYPTO_REFCOUNT_MAX"; cases "c = 1") (auto simp: CRYPTO_refcount_dec_and_test_zero_def Let_def)
qed

lemma refcount_dec_unsaturated:
  assumes "CRYPTO_refcount_dec_and_test_zero c = Ok (c', z)" "c \<noteq> CRYPTO_REFCOUNT_MAX"
  shows "c' \<noteq> CRYPTO_REFCOUNT_MAX"
proof -
  have "c \<noteq> 0" using assms by (auto simp: CRYPTO_refcount_dec_and_test_zero_def)
  then have "c' < c" using assms by (auto simp: CRYPTO_refcount_dec_and_test_zero_def Let_def word_less_nat_alt unat_minus_one unat_gt_0)
  moreover have "unat c < 2 ^ 32" by (rule order_less_le_trans [OF unsigned_less]) simp
  then have "c \<le> CRYPTO_REFCOUNT_MAX" by (simp add: CRYPTO_REFCOUNT_MAX_def word_le_nat_alt)
  ultimately show ?thesis by auto
qed

lemma counted_dec:
  assumes "counted H M" "p \<in># M" "H p = Some b" "CRYPTO_refcount_dec_and_test_zero (cb_references b) = Ok (c, False)"
  shows "counted (H(p \<mapsto> b\<lparr>cb_references := c\<rparr>)) (M - {#p#}) \<and> c \<noteq> 0"
proof -
  have nz: "cb_references b \<noteq> 0"
    using counted_refs [OF assms(1,3)] assms(2) by (auto simp: CRYPTO_REFCOUNT_MAX_def count_eq_zero_iff)
  show ?thesis
  proof (rule refcount_dec_cases [OF nz])
    assume "cb_references b = CRYPTO_REFCOUNT_MAX" "CRYPTO_refcount_dec_and_test_zero (cb_references b) = Ok (cb_references b, False)"
    then show ?thesis using assms nz by (auto simp: counted_def dest: in_diffD)
  next
    fix c' assume c: "CRYPTO_refcount_dec_and_test_zero (cb_references b) = Ok (c', False)" "unat (cb_references b) = Suc (unat c')" "c' \<noteq> 0"
    show ?thesis
    proof (cases "cb_references b = CRYPTO_REFCOUNT_MAX")
      case True
      then show ?thesis using assms nz by (auto simp: counted_def CRYPTO_refcount_dec_and_test_zero_def dest: in_diffD)
    next
      case False
      then have "count M p = Suc (unat c')" using counted_refs [OF assms(1,3)] c by simp
      then show ?thesis using assms c by (auto simp: counted_def dest: in_diffD)
    qed
  qed (use assms in simp)
qed

lemma counted_free: "counted H M \<Longrightarrow> count M p \<le> 1 \<Longrightarrow> counted (H(p := None)) (M - {#p#})"
  by (auto simp: counted_def dest: in_diffD simp flip: count_greater_zero_iff)

lemma counted_new: "counted H M \<Longrightarrow> H p = None \<Longrightarrow> cb_references b = 1 \<Longrightarrow> counted (H(p \<mapsto> b)) (add_mset p M)"
  by (auto simp: counted_def not_in_iff [symmetric])

section \<open>Freeing a reference\<close>

lemma pool_ok_drop:
  assumes ok: "lh_ok (heap_hash H1 (pl_hash_key pl)) (heap_cmp H1) (pooled H1) bufs"
    and "p \<notin># elems bufs" "\<And>q. q \<noteq> p \<Longrightarrow> H1 q = pl_heap pl q" "heap_wf (pl_heap pl)"
  shows "pool_ok (pl\<lparr>pl_heap := (pl_heap pl)(p := None), pl_bufs := bufs\<rparr>)"
proof -
  have "table_ok (pl\<lparr>pl_heap := H1, pl_bufs := bufs\<rparr>)" using ok by (simp add: table_ok_def)
  moreover have "map_option contents_of (((pl_heap pl)(p := None)) q) = map_option contents_of (H1 q)" if "q \<in># elems bufs" for q
    using that assms(2,3) by auto
  ultimately show ?thesis
    using table_ok_heap [of "pl\<lparr>pl_heap := H1, pl_bufs := bufs\<rparr>" "(pl_heap pl)(p := None)"] assms(4)
    by (simp add: pool_ok_def table_ok_def heap_wf_free)
qed

lemma free_ok:
  assumes ok: "pool_ok pl" and cnt: "counted (pl_heap pl) M" and p: "p \<in># M" "pl_heap pl p = Some b"
  obtains pl' where "CRYPTO_BUFFER_free mem p pl = (Ok (), pl')" "pool_ok pl'" "counted (pl_heap pl') (M - {#p#})"
    "elems (pl_bufs pl') \<subseteq># elems (pl_bufs pl)" "\<And>q. q \<noteq> p \<Longrightarrow> pl_heap pl' q = pl_heap pl q"
    "map_option contents_of (pl_heap pl' p) = (if cb_references b = 1 then None else Some (contents_of b))"
    "\<And>b'. pl_heap pl' p = Some b' \<Longrightarrow> cb_references b \<noteq> CRYPTO_REFCOUNT_MAX \<Longrightarrow> cb_references b' \<noteq> CRYPTO_REFCOUNT_MAX"
proof -
  have p0: "p \<noteq> 0" and nz: "cb_references b \<noteq> 0" and wf: "heap_wf (pl_heap pl)" and pool: "cb_pool b = 0 \<or> cb_pool b = POOL"
    and len: "cb_len b = length (cb_data b)"
    using ok p by (auto simp: pool_ok_def heap_wf_def)
  show ?thesis
  proof (cases "cb_references b = 1")
    case False
    then obtain c where c: "CRYPTO_refcount_dec_and_test_zero (cb_references b) = Ok (c, False)"
      using refcount_dec_cases [OF nz] by metis
    let ?H = "(pl_heap pl)(p \<mapsto> b\<lparr>cb_references := c\<rparr>)"
    have cd: "counted ?H (M - {#p#})" "c \<noteq> 0" using counted_dec [OF cnt p c] by simp_all
    have "pool_ok (pl\<lparr>pl_heap := ?H\<rparr>)"
      using wf p0 cd(2) len pool p(2) by (intro pool_ok_heap [OF ok] heap_wf_upd) (auto simp: contents_of_def)
    then show ?thesis
      using that [of "pl\<lparr>pl_heap := ?H\<rparr>"] cd False p0 p(2) c refcount_dec_unsaturated [OF c]
      by (simp add: CRYPTO_BUFFER_free_def contents_of_def)
  next
    case True
    have dec: "CRYPTO_refcount_dec_and_test_zero (cb_references b) = Ok (0, True)"
      by (simp add: True CRYPTO_refcount_dec_and_test_zero_def CRYPTO_REFCOUNT_MAX_def)
    have cM: "count M p \<le> 1" using counted_refs [OF cnt p(2)] True by (simp add: CRYPTO_REFCOUNT_MAX_def)
    have cf: "counted ((pl_heap pl)(p := None)) (M - {#p#})" using counted_free [OF cnt cM] .
    let ?H = "(pl_heap pl)(p \<mapsto> b\<lparr>cb_references := 0\<rparr>)"
    show ?thesis
    proof (cases "cb_pool b = 0")
      case z: True
      have "p \<notin># elems (pl_bufs pl)" using pool_ok_elem [OF ok, of p] p(2) z by (auto simp: POOL_def)
      then have "pool_ok (pl\<lparr>pl_heap := (pl_heap pl)(p := None)\<rparr>)"
        using wf by (intro pool_ok_heap [OF ok] heap_wf_free) auto
      then show ?thesis
        using that [of "pl\<lparr>pl_heap := (pl_heap pl)(p := None)\<rparr>"] cf True p0 p(2) dec z
        by (simp add: CRYPTO_BUFFER_free_def crypto_buffer_free_object_def Let_def)
    next
      case False
      then have P: "cb_pool b = POOL" using pool by simp
      let ?ch = "heap_hash ?H (pl_hash_key pl)" and ?cc = "heap_cmp ?H"
      have lok: "lh_ok ?ch ?cc (pooled ?H) (pl_bufs pl)"
        using ok p(2) by (intro table_ok_heap) (auto simp: pool_ok_def contents_of_def)
      have x: "p \<in> pooled ?H" using P len by (simp add: pooled_def)
      have self: "?cc c p p = 0" for c using heap_cmp_zero [OF x x] by simp
      show ?thesis
      proof (cases "OPENSSL_lh_retrieve ?ch ?cc (pl_bufs pl) p = p")
        case found: True
        show ?thesis
        proof (rule lh_delete_elems [OF lok x, of mem])
          fix e lh'
          assume d: "OPENSSL_lh_delete mem ?ch ?cc p (pl_bufs pl) = (Ok e, lh')" "elems (pl_bufs pl) = add_mset e (elems lh')"
            "lh_ok ?ch ?cc (pooled ?H) lh'"
          have e: "e = p" using lh_delete_retrieves [OF d(1)] found by simp
          have "count (elems (pl_bufs pl)) p = 1" using lh_ok_unique(1) [OF lok x _ self] d(2) e by simp
          then have "p \<notin># elems lh'" using d(2) e by (simp add: not_in_iff)
          then have "pool_ok (pl\<lparr>pl_heap := (pl_heap pl)(p := None), pl_bufs := lh'\<rparr>)"
            using wf by (intro pool_ok_drop [OF d(3)]) auto
          then show ?thesis
            using that [of "pl\<lparr>pl_heap := (pl_heap pl)(p := None), pl_bufs := lh'\<rparr>"] cf True False p0 p(2) dec found d e
            by (simp add: CRYPTO_BUFFER_free_def crypto_buffer_free_object_def Let_def)
        next
          assume "OPENSSL_lh_delete mem ?ch ?cc p (pl_bufs pl) = (Ok 0, pl_bufs pl)"
          from lh_delete_retrieves [OF this] show ?thesis using found p0 by simp
        qed
      next
        case nf: False
        have "p \<notin># elems (pl_bufs pl)"
        proof
          assume "p \<in># elems (pl_bufs pl)"
          then show False using lh_retrieve_elem [OF lok x] lh_ok_unique(2) [OF lok x _ self] nf self by metis
        qed
        then have "pool_ok (pl\<lparr>pl_heap := (pl_heap pl)(p := None)\<rparr>)"
          using wf by (intro pool_ok_heap [OF ok] heap_wf_free) auto
        then show ?thesis
          using that [of "pl\<lparr>pl_heap := (pl_heap pl)(p := None)\<rparr>"] cf True False p0 p(2) dec nf
          by (simp add: CRYPTO_BUFFER_free_def crypto_buffer_free_object_def Let_def)
      qed
    qed
  qed
qed

section \<open>Making a buffer\<close>

lemma lookup_ok:
  assumes ok: "pool_ok pl" and tmp: "pl_heap pl tmp = None"
    and l: "buffer_new_lookup tmp data (length data) st pl = (p, pl')" "p \<noteq> 0"
  shows "\<exists>b. pl_heap pl p = Some b \<and> cb_data b = data \<and> p \<in># elems (pl_bufs pl) \<and> (st \<longrightarrow> cb_static b) \<and> pl' = inc_references p pl"
proof -
  have p: "p = lookup_tmp tmp data (length data) pl" "pl' = inc_references p pl" "st \<longrightarrow> is_static (pl_heap pl) p"
    using l by (auto simp: buffer_new_lookup_def Let_def split: if_splits)
  show ?thesis
    by (rule lookup_tmp_cases [OF ok tmp, of data]) (use p l(2) in \<open>auto simp: is_static_def split: option.splits\<close>)
qed

lemma lookup_hit:
  assumes ok: "pool_ok pl" and tmp: "pl_heap pl tmp = None" and e: "e \<in># elems (pl_bufs pl)" "pl_heap pl e = Some b" "st \<longrightarrow> cb_static b"
  shows "buffer_new_lookup tmp (cb_data b) (length (cb_data b)) st pl = (e, inc_references e pl)"
proof -
  have e0: "e \<noteq> 0" using pool_ok_elem [OF ok e(1)] by auto
  have "lookup_tmp tmp (cb_data b) (length (cb_data b)) pl = e"
  proof (rule lookup_tmp_cases [OF ok tmp, of "cb_data b"])
    fix b' assume l: "lookup_tmp tmp (cb_data b) (length (cb_data b)) pl \<in># elems (pl_bufs pl)"
      "pl_heap pl (lookup_tmp tmp (cb_data b) (length (cb_data b)) pl) = Some b'" "cb_data b' = cb_data b"
    have t: "table_ok pl" using ok by (simp add: pool_ok_def)
    have P: "lookup_tmp tmp (cb_data b) (length (cb_data b)) pl \<in> pooled (pl_heap pl)" "e \<in> pooled (pl_heap pl)"
      using table_ok_elems [OF t] l(1) e(1) by auto
    show ?thesis
      by (rule lh_ok_unique(2) [OF t [unfolded table_ok_def] P(2) e(1) _ l(1)]) (use P e l in \<open>simp_all add: heap_cmp_zero\<close>)
  qed (use e in auto)
  then show ?thesis using e0 e by (auto simp: buffer_new_lookup_def is_static_def)
qed

lemma pool_ok_unlisted: "pool_ok pl \<Longrightarrow> pl_heap pl p = None \<Longrightarrow> p \<notin># elems (pl_bufs pl)"
  using pool_ok_elem [of pl p] by auto

lemma pool_ok_heap_wf: "pool_ok pl \<Longrightarrow> heap_wf (pl_heap pl)"
  by (simp add: pool_ok_def)

lemma pool_ok_fresh:
  "pool_ok pl \<Longrightarrow> pl_heap pl p = None \<Longrightarrow> p \<noteq> 0 \<Longrightarrow> cb_references b = 1 \<Longrightarrow> cb_len b = length (cb_data b) \<Longrightarrow>
     cb_pool b = 0 \<or> cb_pool b = POOL \<Longrightarrow> pool_ok (pl\<lparr>pl_heap := (pl_heap pl)(p \<mapsto> b)\<rparr>)"
  by (intro pool_ok_heap heap_wf_upd) (auto simp: pool_ok_heap_wf dest: pool_ok_unlisted)

lemma insert_ok:
  assumes ok: "pool_ok pl" and p: "pl_heap pl p = Some b" "cb_pool b = POOL" "p \<notin># elems (pl_bufs pl)"
    and cnt: "counted (pl_heap pl) (add_mset p M)" "p \<notin># M" and room: "num_items (pl_bufs pl) + 1 < 2 ^ 61"
    and i: "buffer_new_insert mem item p st pl = (r, pl')"
  obtains (inserted) "r = Ok p" "pool_ok pl'" "pl_heap pl' = pl_heap pl" "p \<in># elems (pl_bufs pl')"
      "set_mset (elems (pl_bufs pl')) \<subseteq> insert p (set_mset (elems (pl_bufs pl)))"
  | (failed) "r = Ok 0" "pool_ok pl'" "pl_heap pl' = (pl_heap pl)(p := None)" "elems (pl_bufs pl') = elems (pl_bufs pl)" "item = None"
  | (raced) q b' where "r = Ok q" "q \<noteq> p" "pool_ok pl'" "q \<in># elems (pl_bufs pl)" "pl_heap pl q = Some b'" "cb_data b' = cb_data b"
      "elems (pl_bufs pl') = elems (pl_bufs pl)" "pl' = crypto_buffer_free_object p (inc_references q pl)"
proof -
  let ?ch = "heap_hash (pl_heap pl) (pl_hash_key pl)" and ?cc = "heap_cmp (pl_heap pl)"
  have t: "lh_ok ?ch ?cc (pooled (pl_heap pl)) (pl_bufs pl)" and wf: "heap_wf (pl_heap pl)"
    using ok by (simp_all add: pool_ok_def table_ok_def)
  have x: "p \<in> pooled (pl_heap pl)" using wf p by (simp add: pooled_def heap_wf_def)
  have ins: ?thesis if "buffer_new_insert mem item p st pl = (case OPENSSL_lh_insert mem item ?ch ?cc p (pl_bufs pl) of
      (Ok _, bufs) \<Rightarrow> (Ok p, pl\<lparr>pl_bufs := bufs\<rparr>)
    | (Err, bufs) \<Rightarrow> (Ok 0, crypto_buffer_free_object p (pl\<lparr>pl_bufs := bufs\<rparr>))
    | (Abort, bufs) \<Rightarrow> (Abort, pl\<lparr>pl_bufs := bufs\<rparr>))"
  proof (rule lh_insert_elems [OF t x room, of mem item])
    fix e N lh' assume "OPENSSL_lh_insert mem item ?ch ?cc p (pl_bufs pl) = (Ok e, lh')" "elems (pl_bufs pl) = add_mset e N"
      "lh_ok ?ch ?cc (pooled (pl_heap pl)) lh'" "elems lh' = add_mset p N"
    then show ?thesis using inserted that i wf by (auto simp: pool_ok_def table_ok_def)
  next
    fix a lh' assume "OPENSSL_lh_insert mem item ?ch ?cc p (pl_bufs pl) = (Ok 0, lh')"
      "lh_ok ?ch ?cc (pooled (pl_heap pl)) lh'" "elems lh' = add_mset p (elems (pl_bufs pl))"
    then show ?thesis using inserted that i wf by (auto simp: pool_ok_def table_ok_def)
  next
    assume "OPENSSL_lh_insert mem item ?ch ?cc p (pl_bufs pl) = (Err, pl_bufs pl)" "item = None"
    moreover have "pool_ok (pl\<lparr>pl_heap := (pl_heap pl)(p := None)\<rparr>)"
      using wf p(3) by (intro pool_ok_heap [OF ok] heap_wf_free) auto
    ultimately show ?thesis using failed that i by (auto simp: crypto_buffer_free_object_def)
  qed
  let ?d = "OPENSSL_lh_retrieve ?ch ?cc (pl_bufs pl) p"
  show ?thesis
  proof (cases "?d = 0 \<or> st \<and> \<not> is_static (pl_heap pl) ?d")
    case True
    then show ?thesis by (intro ins) (auto simp: buffer_new_insert_def Let_def)
  next
    case False
    show ?thesis
    proof (rule retrieve_cases [OF ok p(1,2)])
      fix b' assume d: "?d \<in># elems (pl_bufs pl)" "pl_heap pl ?d = Some b'" "cb_data b' = cb_data b"
      have ne: "?d \<noteq> p" using d(1) p(3) by auto
      have inc: "pool_ok (inc_references ?d pl)" "pl_bufs (inc_references ?d pl) = pl_bufs pl"
        using inc_references_ok [OF ok d(2)] by auto
      have "pool_ok ((inc_references ?d pl)\<lparr>pl_heap := (pl_heap (inc_references ?d pl))(p := None)\<rparr>)"
        using inc p(3) by (intro pool_ok_heap [OF inc(1)] heap_wf_free) (auto simp: pool_ok_def)
      moreover have "(r, pl') = (Ok ?d, crypto_buffer_free_object p (inc_references ?d pl))"
        using i False by (auto simp: buffer_new_insert_def Let_def)
      ultimately show ?thesis using raced [of ?d b'] ne d inc by (simp add: crypto_buffer_free_object_def)
    qed (use False in auto)
  qed
qed

end
