(* ===== verification/Pool_System.thy ===== *)
theory Pool_System
  imports Pool_Counts
begin

text \<open>
  The threads that share a pool, as a step relation over the atomic steps of the calls: the
  invariant of every reachable state, and what it gives the callers.
\<close>

section \<open>Threads that share a pool\<close>

text \<open>
  What the threads hold: an address once for every reference a caller owns, and the buffers of
  the calls of \<open>crypto_buffer_new\<close> that are between their two critical sections.
\<close>

record pool_system =
  ps_pool :: CRYPTO_BUFFER_POOL
  ps_held :: "ptr multiset"
  ps_flight :: "ptr multiset"

definition new_address :: "ptr option \<Rightarrow> CRYPTO_BUFFER_POOL \<Rightarrow> bool" where
  "new_address fresh pl = (case fresh of None \<Rightarrow> True | Some a \<Rightarrow> a \<noteq> 0 \<and> pl_heap pl a = None)"

text \<open>One atomic step of one thread; the steps of different calls interleave freely.\<close>

inductive pool_step :: "pool_system \<Rightarrow> pool_system \<Rightarrow> bool" where
  lookup: "pl_heap pl tmp = None \<Longrightarrow> buffer_new_lookup tmp data (length data) st pl = (p, pl') \<Longrightarrow> p \<noteq> 0 \<Longrightarrow>
    pool_step \<lparr>ps_pool = pl, ps_held = H, ps_flight = F\<rparr> \<lparr>ps_pool = pl', ps_held = add_mset p H, ps_flight = F\<rparr>"
| alloc: "new_address fresh pl \<Longrightarrow> buffer_new_alloc fresh copy_ok data (length data) st True pl = (p, pl') \<Longrightarrow> p \<noteq> 0 \<Longrightarrow>
    pool_step \<lparr>ps_pool = pl, ps_held = H, ps_flight = F\<rparr> \<lparr>ps_pool = pl', ps_held = H, ps_flight = add_mset p F\<rparr>"
| insert: "p \<in># F \<Longrightarrow> num_items (pl_bufs pl) + 1 < 2 ^ 61 \<Longrightarrow> buffer_new_insert mem item p (is_static (pl_heap pl) p) pl = (r, pl') \<Longrightarrow>
    pool_step \<lparr>ps_pool = pl, ps_held = H, ps_flight = F\<rparr>
      \<lparr>ps_pool = pl', ps_held = (case r of Ok q \<Rightarrow> if q = 0 then H else add_mset q H | _ \<Rightarrow> H), ps_flight = F - {#p#}\<rparr>"
| unpooled: "new_address fresh pl \<Longrightarrow> buffer_new_alloc fresh copy_ok data (length data) st False pl = (p, pl') \<Longrightarrow> p \<noteq> 0 \<Longrightarrow>
    pool_step \<lparr>ps_pool = pl, ps_held = H, ps_flight = F\<rparr> \<lparr>ps_pool = pl', ps_held = add_mset p H, ps_flight = F\<rparr>"
| uninitialised: "new_address fresh pl \<Longrightarrow> (\<And>data. mem len = Some data \<Longrightarrow> length data = len) \<Longrightarrow>
    CRYPTO_BUFFER_alloc fresh mem len pl = (p, pl') \<Longrightarrow> p \<noteq> 0 \<Longrightarrow>
    pool_step \<lparr>ps_pool = pl, ps_held = H, ps_flight = F\<rparr> \<lparr>ps_pool = pl', ps_held = add_mset p H, ps_flight = F\<rparr>"
| up_ref: "p \<in># H \<Longrightarrow> CRYPTO_BUFFER_up_ref p pl = (r, pl') \<Longrightarrow>
    pool_step \<lparr>ps_pool = pl, ps_held = H, ps_flight = F\<rparr> \<lparr>ps_pool = pl', ps_held = add_mset p H, ps_flight = F\<rparr>"
| free: "p \<in># H \<Longrightarrow> CRYPTO_BUFFER_free mem p pl = (r, pl') \<Longrightarrow>
    pool_step \<lparr>ps_pool = pl, ps_held = H, ps_flight = F\<rparr> \<lparr>ps_pool = pl', ps_held = H - {#p#}, ps_flight = F\<rparr>"

inductive pool_reachable :: "pool_system \<Rightarrow> bool" where
  start: "CRYPTO_BUFFER_POOL_new pool_mem table_mem mem key Map.empty = Some pl \<Longrightarrow>
    pool_reachable \<lparr>ps_pool = pl, ps_held = {#}, ps_flight = {#}\<rparr>"
| step: "pool_reachable s \<Longrightarrow> pool_step s s' \<Longrightarrow> pool_reachable s'"

definition sys_ok :: "pool_system \<Rightarrow> bool" where
  "sys_ok s \<longleftrightarrow> pool_ok (ps_pool s) \<and> counted (pl_heap (ps_pool s)) (ps_held s + ps_flight s) \<and>
     (\<forall>p\<in>#ps_flight s. count (ps_held s + ps_flight s) p = 1 \<and> p \<notin># elems (pl_bufs (ps_pool s)) \<and>
        (\<exists>b. pl_heap (ps_pool s) p = Some b \<and> cb_pool b = POOL))"

text \<open>Every step keeps the contents of the buffers that stay allocated.\<close>

definition same_contents :: "buffer_heap \<Rightarrow> buffer_heap \<Rightarrow> bool" where
  "same_contents H H' \<longleftrightarrow> (\<forall>q b b'. H q = Some b \<longrightarrow> H' q = Some b' \<longrightarrow> contents_of b' = contents_of b)"

lemma same_contents_inc: "pl_heap pl p = Some b \<Longrightarrow> same_contents (pl_heap pl) (pl_heap (inc_references p pl))"
  by (auto simp: same_contents_def inc_references_def contents_of_def)

lemma alloc_ok:
  assumes ok: "pool_ok pl" and cnt: "counted (pl_heap pl) M" and fresh: "new_address fresh pl" "p \<noteq> 0"
    and a: "buffer_new_alloc fresh copy_ok data (length data) st pd pl = (p, pl')"
  shows "pool_ok pl' \<and> counted (pl_heap pl') (add_mset p M) \<and> pl_heap pl p = None \<and> pl_bufs pl' = pl_bufs pl \<and>
    (\<exists>b. pl' = pl\<lparr>pl_heap := (pl_heap pl)(p \<mapsto> b)\<rparr> \<and> cb_pool b = (if pd then POOL else 0) \<and> cb_data b = data \<and> cb_static b = st)"
proof -
  let ?b = "\<lparr>cb_pool = (if pd then POOL else 0), cb_data = data, cb_len = length data, cb_references = 1, cb_static = st\<rparr>"
  have f: "fresh = Some p" "pl' = pl\<lparr>pl_heap := (pl_heap pl)(p \<mapsto> ?b)\<rparr>"
    using a fresh(2) by (auto simp: buffer_new_alloc_def split: option.splits if_splits)
  have n: "pl_heap pl p = None" using fresh(1) f(1) by (simp add: new_address_def)
  have "pool_ok pl'" using pool_ok_fresh [OF ok n fresh(2), of ?b] by (simp add: f)
  then show ?thesis using counted_new [OF cnt n, of ?b] n by (auto simp: f)
qed

lemma uninitialised_ok:
  assumes ok: "pool_ok pl" and cnt: "counted (pl_heap pl) M" and fresh: "new_address fresh pl" "p \<noteq> 0"
    and a: "CRYPTO_BUFFER_alloc fresh mem len pl = (p, pl')" and mem: "\<And>data. mem len = Some data \<Longrightarrow> length data = len"
  shows "pool_ok pl' \<and> counted (pl_heap pl') (add_mset p M) \<and> pl_heap pl p = None \<and> pl_bufs pl' = pl_bufs pl \<and>
    (\<exists>b. pl' = pl\<lparr>pl_heap := (pl_heap pl)(p \<mapsto> b)\<rparr> \<and> cb_pool b = 0 \<and> cb_len b = len)"
proof -
  obtain b where f: "fresh = Some p" "pl' = pl\<lparr>pl_heap := (pl_heap pl)(p \<mapsto> b)\<rparr>"
    and b: "cb_pool b = 0" "cb_len b = len" "length (cb_data b) = len" "cb_references b = 1"
    using a fresh(2) mem by (auto simp: CRYPTO_BUFFER_alloc_def split: option.splits if_splits)
  have n: "pl_heap pl p = None" using fresh(1) f(1) by (simp add: new_address_def)
  have "pool_ok pl'" using pool_ok_fresh [OF ok n fresh(2), of b] by (simp add: f b)
  then show ?thesis using counted_new [OF cnt n b(4)] n b by (auto simp: f)
qed

lemma inc_system:
  assumes "sys_ok \<lparr>ps_pool = pl, ps_held = H, ps_flight = F\<rparr>" "pl_heap pl p = Some b" "p \<notin># F"
  shows "sys_ok \<lparr>ps_pool = inc_references p pl, ps_held = add_mset p H, ps_flight = F\<rparr>"
  using assms inc_references_ok [of pl p b] counted_inc [of "pl_heap pl" "H + F" p b]
  by (auto simp: sys_ok_def)

lemma new_system:
  assumes "sys_ok \<lparr>ps_pool = pl, ps_held = H, ps_flight = F\<rparr>" "pool_ok pl'" "counted (pl_heap pl') (add_mset p (H + F))"
    "pl_heap pl p = None" "pl' = pl\<lparr>pl_heap := (pl_heap pl)(p \<mapsto> b)\<rparr>"
  shows "sys_ok \<lparr>ps_pool = pl', ps_held = add_mset p H, ps_flight = F\<rparr>"
    "cb_pool b = POOL \<Longrightarrow> sys_ok \<lparr>ps_pool = pl', ps_held = H, ps_flight = add_mset p F\<rparr>"
proof -
  have p: "p \<notin># H + F" using assms(1,4) counted_live [of "pl_heap pl" "H + F" p] by (auto simp: sys_ok_def)
  have u: "p \<notin># elems (pl_bufs pl)" using assms(1,4) pool_ok_unlisted by (auto simp: sys_ok_def)
  show "sys_ok \<lparr>ps_pool = pl', ps_held = add_mset p H, ps_flight = F\<rparr>"
    "cb_pool b = POOL \<Longrightarrow> sys_ok \<lparr>ps_pool = pl', ps_held = H, ps_flight = add_mset p F\<rparr>"
    using assms p u by (auto simp: sys_ok_def count_eq_zero_iff)
qed

lemma same_contents_refl: "same_contents H H"
  by (simp add: same_contents_def)

lemma same_contents_new: "H p = None \<Longrightarrow> same_contents H (H(p \<mapsto> b))"
  by (auto simp: same_contents_def)

lemma same_contents_gone: "same_contents H H' \<Longrightarrow> same_contents H (H'(p := None))"
  by (auto simp: same_contents_def)

lemma held_not_flight: "sys_ok s \<Longrightarrow> p \<in># ps_held s \<Longrightarrow> p \<notin># ps_flight s"
proof
  assume s: "sys_ok s" "p \<in># ps_held s" "p \<in># ps_flight s"
  then have "count (ps_held s + ps_flight s) p = 1" by (simp add: sys_ok_def)
  then show False using s(2,3) by (simp flip: count_greater_zero_iff)
qed

lemma free_system:
  assumes ok: "sys_ok \<lparr>ps_pool = pl, ps_held = H, ps_flight = F\<rparr>" and p: "p \<in># H"
    and fr: "CRYPTO_BUFFER_free mem p pl = (r, pl')"
  shows "r = Ok () \<and> sys_ok \<lparr>ps_pool = pl', ps_held = H - {#p#}, ps_flight = F\<rparr> \<and> same_contents (pl_heap pl) (pl_heap pl')"
proof -
  have o: "pool_ok pl" "counted (pl_heap pl) (H + F)" "p \<in># H + F" using ok p by (auto simp: sys_ok_def)
  obtain b where b: "pl_heap pl p = Some b" using counted_live [OF o(2,3)] by auto
  have pF: "p \<notin># F" using held_not_flight [OF ok] p by simp
  show ?thesis
  proof (rule free_ok [OF o b, of mem])
    fix pl'' assume f: "CRYPTO_BUFFER_free mem p pl = (Ok (), pl'')" "pool_ok pl''" "counted (pl_heap pl'') (H + F - {#p#})"
      "elems (pl_bufs pl'') \<subseteq># elems (pl_bufs pl)" "\<And>q. q \<noteq> p \<Longrightarrow> pl_heap pl'' q = pl_heap pl q"
      "map_option contents_of (pl_heap pl'' p) = (if cb_references b = 1 then None else Some (contents_of b))"
    have e: "pl'' = pl'" "r = Ok ()" using f(1) fr by simp_all
    have m: "H + F - {#p#} = H - {#p#} + F" using p by simp
    have "same_contents (pl_heap pl) (pl_heap pl')"
      unfolding same_contents_def
    proof (intro allI impI)
      fix q c c' assume q: "pl_heap pl q = Some c" "pl_heap pl' q = Some c'"
      show "contents_of c' = contents_of c"
        by (cases "q = p") (use q f(5,6) b in \<open>auto simp: e split: if_splits\<close>)
    qed
    moreover have "count (H - {#p#} + F) q = 1 \<and> q \<notin># elems (pl_bufs pl') \<and> (\<exists>b. pl_heap pl' q = Some b \<and> cb_pool b = POOL)"
      if q: "q \<in># F" for q
    proof -
      have "q \<noteq> p" using pF q by auto
      then show ?thesis using ok q f(4,5) by (auto simp: sys_ok_def e dest: mset_subset_eqD)
    qed
    ultimately show ?thesis using f(2,3) e m by (simp add: sys_ok_def)
  qed
qed

lemma insert_system:
  assumes ok: "sys_ok \<lparr>ps_pool = pl, ps_held = H, ps_flight = F\<rparr>" and p: "p \<in># F" and room: "num_items (pl_bufs pl) + 1 < 2 ^ 61"
    and i: "buffer_new_insert mem item p st pl = (r, pl')"
  shows "\<exists>q. r = Ok q \<and> sys_ok \<lparr>ps_pool = pl', ps_held = (if q = 0 then H else add_mset q H), ps_flight = F - {#p#}\<rparr> \<and>
    same_contents (pl_heap pl) (pl_heap pl')"
proof -
  have o: "pool_ok pl" "counted (pl_heap pl) (H + F)" using ok by (auto simp: sys_ok_def)
  obtain b where b: "pl_heap pl p = Some b" "cb_pool b = POOL" "p \<notin># elems (pl_bufs pl)" "count (H + F) p = 1"
    using ok p by (auto simp: sys_ok_def)
  define G where "G = F - {#p#}"
  have F: "F = add_mset p G" using p by (simp add: G_def)
  have pn: "p \<notin># H + G" using b(4) by (simp add: F count_eq_zero_iff)
  have fl: "count (H + G) q = 1 \<and> q \<noteq> p \<and> q \<notin># elems (pl_bufs pl) \<and> (\<exists>b. pl_heap pl q = Some b \<and> cb_pool b = POOL)" if "q \<in># G" for q
  proof -
    have "q \<noteq> p" using that pn by auto
    then show ?thesis using ok that by (auto simp: sys_ok_def F)
  qed
  have cnt: "counted (pl_heap pl) (add_mset p (H + G))" using o(2) by (simp add: F)
  have p0: "p \<noteq> 0" using o(1) b(1) by (auto simp: pool_ok_def heap_wf_def)
  have cfree: "counted ((pl_heap pl)(p := None)) (H + G)"
    using counted_free [OF cnt, of p] pn by (simp add: not_in_iff)
  show ?thesis
  proof (rule insert_ok [OF o(1) b(1-3) cnt pn room i])
    assume s: "r = Ok p" "pool_ok pl'" "pl_heap pl' = pl_heap pl" "p \<in># elems (pl_bufs pl')"
      "set_mset (elems (pl_bufs pl')) \<subseteq> insert p (set_mset (elems (pl_bufs pl)))"
    have "sys_ok \<lparr>ps_pool = pl', ps_held = add_mset p H, ps_flight = G\<rparr>"
      using s cnt fl by (auto simp: sys_ok_def)
    then show ?thesis using s p0 same_contents_refl by (simp add: F)
  next
    assume s: "r = Ok 0" "pool_ok pl'" "pl_heap pl' = (pl_heap pl)(p := None)" "elems (pl_bufs pl') = elems (pl_bufs pl)"
    have "sys_ok \<lparr>ps_pool = pl', ps_held = H, ps_flight = G\<rparr>"
      using s cfree fl by (auto simp: sys_ok_def)
    then show ?thesis using s same_contents_gone [OF same_contents_refl] by (simp add: F)
  next
    fix q b' assume s: "r = Ok q" "q \<noteq> p" "pool_ok pl'" "q \<in># elems (pl_bufs pl)" "pl_heap pl q = Some b'" "elems (pl_bufs pl') = elems (pl_bufs pl)"
      "pl' = crypto_buffer_free_object p (inc_references q pl)"
    have q0: "q \<noteq> 0" using pool_ok_elem [OF o(1) s(4)] by auto
    have h: "pl_heap pl' = (pl_heap (inc_references q pl))(p := None)" by (simp add: s(7) crypto_buffer_free_object_def)
    have c: "counted (pl_heap pl') (add_mset q (H + G))"
      using counted_inc [OF cfree, of q b'] s(2,5) inc_references_ok(1) [OF o(1) s(5)] by (simp add: h fun_upd_twist)
    have "q \<notin># G" using fl s(4) by auto
    then have "sys_ok \<lparr>ps_pool = pl', ps_held = add_mset q H, ps_flight = G\<rparr>"
      using s(3,6) c fl s(5) inc_references_ok(1) [OF o(1) s(5)] by (auto simp: sys_ok_def h)
    then show ?thesis using s(1) q0 same_contents_gone [OF same_contents_inc [OF s(5)]] by (simp add: F h)
  qed
qed

lemma pool_step_keeps: "pool_step s s' \<Longrightarrow> sys_ok s \<Longrightarrow> sys_ok s' \<and> same_contents (pl_heap (ps_pool s)) (pl_heap (ps_pool s'))"
proof (induction rule: pool_step.induct)
  case (lookup pl tmp data st p pl' H F)
  have o: "pool_ok pl" using lookup.prems by (simp add: sys_ok_def)
  obtain b where b: "pl_heap pl p = Some b" "p \<in># elems (pl_bufs pl)" "pl' = inc_references p pl"
    using lookup_ok [OF o lookup.hyps] by auto
  then have "p \<notin># F" using lookup.prems by (auto simp: sys_ok_def)
  then show ?case using inc_system [OF lookup.prems b(1)] same_contents_inc [OF b(1)] by (simp add: b(3))
next
  case (alloc fresh pl copy_ok data st p pl' H F)
  have o: "pool_ok pl" "counted (pl_heap pl) (H + F)" using alloc.prems by (simp_all add: sys_ok_def)
  from alloc_ok [OF o alloc.hyps(1,3,2)] obtain b where
    b: "pool_ok pl'" "counted (pl_heap pl') (add_mset p (H + F))" "pl_heap pl p = None" "pl' = pl\<lparr>pl_heap := (pl_heap pl)(p \<mapsto> b)\<rparr>"
      "cb_pool b = POOL" by auto
  show ?case using new_system(2) [OF alloc.prems b] same_contents_new [of "pl_heap pl" p b] b(3) by (simp add: b(4) del: fun_upd_apply)
next
  case (insert p F pl mem item r pl' H)
  show ?case using insert_system [OF insert.prems insert.hyps] by auto
next
  case (unpooled fresh pl copy_ok data st p pl' H F)
  have o: "pool_ok pl" "counted (pl_heap pl) (H + F)" using unpooled.prems by (simp_all add: sys_ok_def)
  from alloc_ok [OF o unpooled.hyps(1,3,2)] obtain b where
    b: "pool_ok pl'" "counted (pl_heap pl') (add_mset p (H + F))" "pl_heap pl p = None" "pl' = pl\<lparr>pl_heap := (pl_heap pl)(p \<mapsto> b)\<rparr>"
    by auto
  show ?case using new_system(1) [OF unpooled.prems b] same_contents_new [of "pl_heap pl" p b] b(3) by (simp add: b(4) del: fun_upd_apply)
next
  case (uninitialised fresh pl mem len p pl' H F)
  have o: "pool_ok pl" "counted (pl_heap pl) (H + F)" using uninitialised.prems by (simp_all add: sys_ok_def)
  from uninitialised_ok [OF o uninitialised.hyps(1,4,3,2)] obtain b where
    b: "pool_ok pl'" "counted (pl_heap pl') (add_mset p (H + F))" "pl_heap pl p = None" "pl' = pl\<lparr>pl_heap := (pl_heap pl)(p \<mapsto> b)\<rparr>"
    by auto
  show ?case using new_system(1) [OF uninitialised.prems b] same_contents_new [of "pl_heap pl" p b] b(3) by (simp add: b(4) del: fun_upd_apply)
next
  case (up_ref p H pl r pl' F)
  have c: "counted (pl_heap pl) (H + F)" using up_ref.prems by (simp add: sys_ok_def)
  obtain b where b: "pl_heap pl p = Some b" using counted_live [OF c, of p] up_ref.hyps by auto
  have "p \<notin># F" using held_not_flight [OF up_ref.prems, of p] up_ref.hyps by simp
  moreover have "pl' = inc_references p pl" using up_ref.hyps b by (simp add: CRYPTO_BUFFER_up_ref_def)
  ultimately show ?case using inc_system [OF up_ref.prems b] same_contents_inc [OF b] by simp
next
  case (free p H mem pl r pl' F)
  show ?case using free_system [OF free.prems free.hyps] by simp
qed

lemma pool_new_ok:
  assumes "CRYPTO_BUFFER_POOL_new pool_mem table_mem mem key Map.empty = Some pl"
  shows "sys_ok \<lparr>ps_pool = pl, ps_held = {#}, ps_flight = {#}\<rparr>" "pl_heap pl = Map.empty" "elems (pl_bufs pl) = {#}"
    "num_items (pl_bufs pl) = 0"
proof -
  obtain bufs where b: "OPENSSL_lh_new table_mem mem 0 0 = Some bufs" "pl = \<lparr>pl_heap = Map.empty, pl_bufs = bufs, pl_hash_key = key\<rparr>"
    using assms by (auto simp: CRYPTO_BUFFER_POOL_new_def split: if_splits option.splits)
  have l: "lh_ok (heap_hash Map.empty key) (heap_cmp Map.empty) (pooled Map.empty) bufs \<and> elems bufs = {#} \<and> addr_ok bufs"
    using lh_new_ok [OF b(1) pool_keys.hash_keys_axioms] .
  then show "sys_ok \<lparr>ps_pool = pl, ps_held = {#}, ps_flight = {#}\<rparr>" "pl_heap pl = Map.empty" "elems (pl_bufs pl) = {#}"
    by (simp_all add: b(2) sys_ok_def pool_ok_def table_ok_def heap_wf_def counted_def)
  show "num_items (pl_bufs pl) = 0" using b by (auto simp: OPENSSL_lh_new_def split: if_splits)
qed

lemma pool_reachable_ok: "pool_reachable s \<Longrightarrow> sys_ok s"
  by (induction rule: pool_reachable.induct) (use pool_new_ok(1) pool_step_keeps in auto)

section \<open>The properties\<close>

text \<open>
  C3. However the calls of the threads interleave, a buffer somebody holds is allocated and its
  count is the number of the references held, unless it saturated; giving one back never aborts
  nor touches freed memory, and frees the buffer exactly when it is the last.
\<close>

theorem pool_references:
  assumes "pool_reachable s" "p \<in># ps_held s"
  shows "\<exists>b pl'. pl_heap (ps_pool s) p = Some b \<and>
    (cb_references b = CRYPTO_REFCOUNT_MAX \<or> unat (cb_references b) = count (ps_held s) p) \<and>
    CRYPTO_BUFFER_free mem p (ps_pool s) = (Ok (), pl') \<and> (pl_heap pl' p = None \<longleftrightarrow> cb_references b = 1)"
proof -
  have ok: "sys_ok s" using pool_reachable_ok [OF assms(1)] .
  then have o: "pool_ok (ps_pool s)" "counted (pl_heap (ps_pool s)) (ps_held s + ps_flight s)" "p \<in># ps_held s + ps_flight s"
    using assms(2) by (simp_all add: sys_ok_def)
  obtain b where b: "pl_heap (ps_pool s) p = Some b" using counted_live [OF o(2,3)] by auto
  have "count (ps_held s + ps_flight s) p = count (ps_held s) p"
    using held_not_flight [OF ok assms(2)] by (simp add: not_in_iff)
  then have r: "cb_references b = CRYPTO_REFCOUNT_MAX \<or> unat (cb_references b) = count (ps_held s) p"
    using counted_refs [OF o(2) b] by simp
  show ?thesis
  proof (rule free_ok [OF o b, of mem])
    fix pl' assume "CRYPTO_BUFFER_free mem p (ps_pool s) = (Ok (), pl')"
      "map_option contents_of (pl_heap pl' p) = (if cb_references b = 1 then None else Some (contents_of b))"
    then show ?thesis using b r by (auto split: if_splits)
  qed
qed

text \<open>
  C19. While somebody holds a buffer its bytes and length do not change, whatever the other
  threads do with the pool, a replacement by a static buffer included.
\<close>

theorem pool_data_stable:
  assumes "pool_reachable s" "p \<in># ps_held s" "(\<lambda>a b. pool_step a b \<and> p \<in># ps_held b)\<^sup>*\<^sup>* s s'"
  shows "\<exists>data. CRYPTO_BUFFER_data p (ps_pool s) = Ok data \<and> CRYPTO_BUFFER_len p (ps_pool s) = Ok (length data) \<and>
    CRYPTO_BUFFER_data p (ps_pool s') = Ok data \<and> CRYPTO_BUFFER_len p (ps_pool s') = Ok (length data)"
proof -
  have live: "\<exists>b. pl_heap (ps_pool a) p = Some b \<and> cb_len b = length (cb_data b)" if "sys_ok a" "p \<in># ps_held a" for a
    using that counted_live [of "pl_heap (ps_pool a)" "ps_held a + ps_flight a" p] by (auto simp: sys_ok_def pool_ok_def heap_wf_def)
  have "sys_ok s' \<and> p \<in># ps_held s' \<and>
      map_option contents_of (pl_heap (ps_pool s') p) = map_option contents_of (pl_heap (ps_pool s) p)"
    using assms(3)
  proof (induction rule: rtranclp_induct)
    case base
    show ?case using pool_reachable_ok assms(1,2) by simp
  next
    case (step a b)
    then have k: "sys_ok b" "same_contents (pl_heap (ps_pool a)) (pl_heap (ps_pool b))" using pool_step_keeps by blast+
    obtain c d where "pl_heap (ps_pool a) p = Some c" "pl_heap (ps_pool b) p = Some d"
      using live [of a] live [of b] step k(1) by auto
    then show ?case using step k by (auto simp: same_contents_def)
  qed
  then show ?thesis
    using live [OF pool_reachable_ok [OF assms(1)] assms(2)] live [of s']
    by (auto simp: CRYPTO_BUFFER_data_def CRYPTO_BUFFER_len_def contents_of_def)
qed

lemma insert_lookup:
  assumes ok: "pool_ok pl" "counted (pl_heap pl) M" and n: "new_address fresh pl" and room: "num_items (pl_bufs pl) + 1 < 2 ^ 61"
    and tmp: "pl_heap pl tmp = None"
    and c: "crypto_buffer_new mem tmp fresh copy_ok item data (length data) st True pl = (Ok p, pl')" "p \<noteq> 0"
  shows "\<exists>b. pool_ok pl' \<and> p \<in># elems (pl_bufs pl') \<and> pl_heap pl' p = Some b \<and> cb_data b = data"
proof (cases "buffer_new_lookup tmp data (length data) st pl")
  case (Pair d pl1)
  show ?thesis
  proof (cases "d = 0")
    case False
    then obtain b where b: "pl_heap pl d = Some b" "cb_data b = data" "d \<in># elems (pl_bufs pl)" "pl1 = inc_references d pl"
      using lookup_ok [OF ok(1) tmp Pair] by auto
    then show ?thesis using c False inc_references_ok [OF ok(1) b(1)] by (auto simp: crypto_buffer_new_def Pair)
  next
    case True
    then have l: "pl1 = pl" using Pair by (auto simp: buffer_new_lookup_def Let_def split: if_splits)
    obtain a pl2 where a: "buffer_new_alloc fresh copy_ok data (length data) st True pl = (a, pl2)" by fastforce
    have a0: "a \<noteq> 0" and i: "buffer_new_insert mem item a st pl2 = (Ok p, pl')"
      using c True by (auto simp: crypto_buffer_new_def Pair l a split: if_splits)
    from alloc_ok [OF ok n a0 a] obtain b where
      b: "pool_ok pl2" "counted (pl_heap pl2) (add_mset a M)" "pl_heap pl a = None" "pl2 = pl\<lparr>pl_heap := (pl_heap pl)(a \<mapsto> b)\<rparr>"
        "cb_pool b = POOL" "cb_data b = data" by auto
    have h: "pl_heap pl2 a = Some b" "a \<notin># elems (pl_bufs pl2)" "num_items (pl_bufs pl2) + 1 < 2 ^ 61"
      using b(4) pool_ok_unlisted [OF ok(1) b(3)] room by simp_all
    have aM: "a \<notin># M" using counted_live [OF ok(2), of a] b(3) by auto
    show ?thesis
    proof (rule insert_ok [OF b(1) h(1) b(5) h(2) b(2) aM h(3) i])
      fix q b' assume "Ok p = Ok q" "q \<noteq> a" "pool_ok pl'" "q \<in># elems (pl_bufs pl2)" "pl_heap pl2 q = Some b'" "cb_data b' = cb_data b"
        "elems (pl_bufs pl') = elems (pl_bufs pl2)" "pl' = crypto_buffer_free_object a (inc_references q pl2)"
      then show ?thesis using b(6) by (simp add: crypto_buffer_free_object_def inc_references_def)
    qed (use c(2) h(1) b(6) in auto)
  qed
qed

text \<open>
  C14. Equal bytes are one buffer: once a call has made or found the pool's buffer for some bytes,
  asking again for the same bytes, copied or static if the first was, gives that buffer with its
  count raised, and it holds exactly those bytes.
\<close>

theorem pool_interns:
  assumes "pool_reachable s" "new_address fresh (ps_pool s)" "num_items (pl_bufs (ps_pool s)) + 1 < 2 ^ 61"
    and "pl_heap (ps_pool s) tmp = None" "pl_heap pl' tmp' = None"
    and "crypto_buffer_new mem tmp fresh copy_ok item data (length data) st True (ps_pool s) = (Ok p, pl')" "p \<noteq> 0"
  shows "CRYPTO_BUFFER_data p pl' = Ok data \<and>
    CRYPTO_BUFFER_new mem' tmp' fresh' copy_ok' item' data (length data) True pl' = (Ok p, inc_references p pl')"
proof -
  have ok: "pool_ok (ps_pool s)" "counted (pl_heap (ps_pool s)) (ps_held s + ps_flight s)"
    using pool_reachable_ok [OF assms(1)] by (simp_all add: sys_ok_def)
  obtain b where b: "pool_ok pl'" "p \<in># elems (pl_bufs pl')" "pl_heap pl' p = Some b" "cb_data b = data"
    using insert_lookup [OF ok assms(2,3,4,6,7)] by auto
  show ?thesis
    using lookup_hit [OF b(1) assms(5) b(2,3), of False] b(3,4) assms(7)
    by (simp add: CRYPTO_BUFFER_new_def crypto_buffer_new_def CRYPTO_BUFFER_data_def)
qed

text \<open>Giving every reference back, in some order, and then freeing the pool.\<close>

fun free_all :: "(nat \<Rightarrow> bool) \<Rightarrow> ptr list \<Rightarrow> (CRYPTO_BUFFER_POOL, unit) op" where
  "free_all mem [] pl = (Ok (), pl)"
| "free_all mem (p # ps) pl = (case CRYPTO_BUFFER_free mem p pl of (Ok _, pl) \<Rightarrow> free_all mem ps pl | failed \<Rightarrow> failed)"

definition unsaturated :: "buffer_heap \<Rightarrow> bool" where
  "unsaturated heap \<longleftrightarrow> (\<forall>p b. heap p = Some b \<longrightarrow> cb_references b \<noteq> CRYPTO_REFCOUNT_MAX)"

lemma free_all_ok:
  "pool_ok pl \<Longrightarrow> counted (pl_heap pl) (mset ps) \<Longrightarrow> unsaturated (pl_heap pl) \<Longrightarrow>
     \<exists>pl'. free_all mem ps pl = (Ok (), pl') \<and> pool_ok pl' \<and> pl_heap pl' = Map.empty"
proof (induction ps arbitrary: pl)
  case Nil
  have "pl_heap pl p = None" for p
  proof (cases "pl_heap pl p")
    case (Some b)
    then have "cb_references b \<noteq> 0" "cb_references b \<noteq> CRYPTO_REFCOUNT_MAX" using Nil by (auto simp: pool_ok_def heap_wf_def unsaturated_def)
    then show ?thesis using counted_refs [OF Nil(2) Some] by (simp add: unat_eq_0)
  qed
  then show ?case using Nil by auto
next
  case (Cons p ps)
  have p: "p \<in># mset (p # ps)" by simp
  obtain b where b: "pl_heap pl p = Some b" using counted_live [OF Cons.prems(2) p] by auto
  show ?case
  proof (rule free_ok [OF Cons.prems(1,2) p b, of mem])
    fix pl' assume f: "CRYPTO_BUFFER_free mem p pl = (Ok (), pl')" "pool_ok pl'" "counted (pl_heap pl') (mset (p # ps) - {#p#})"
      "\<And>q. q \<noteq> p \<Longrightarrow> pl_heap pl' q = pl_heap pl q"
      "\<And>b'. pl_heap pl' p = Some b' \<Longrightarrow> cb_references b \<noteq> CRYPTO_REFCOUNT_MAX \<Longrightarrow> cb_references b' \<noteq> CRYPTO_REFCOUNT_MAX"
    have "unsaturated (pl_heap pl')" unfolding unsaturated_def
    proof (intro allI impI)
      fix q c assume "pl_heap pl' q = Some c"
      then show "cb_references c \<noteq> CRYPTO_REFCOUNT_MAX"
        by (cases "q = p") (use f(4,5) b Cons.prems(3) in \<open>auto simp: unsaturated_def\<close>)
    qed
    then show ?case using Cons.IH [OF f(2)] f(1,3) by simp
  qed
qed

text \<open>
  C12. No leak and no failed assertion at the end: when every reference the callers hold is given
  back, in any order, and no count had saturated, every buffer has been freed, the table is empty
  and \<open>CRYPTO_BUFFER_POOL_free\<close> finds it so.
\<close>

theorem pool_teardown:
  assumes "pool_reachable s" "ps_flight s = {#}" "unsaturated (pl_heap (ps_pool s))" "mset ps = ps_held s"
  shows "\<exists>pl'. free_all mem ps (ps_pool s) = (Ok (), pl') \<and> pl_heap pl' = Map.empty \<and>
    CRYPTO_BUFFER_POOL_free (Some pl') = Ok ()"
proof -
  have "pool_ok (ps_pool s)" "counted (pl_heap (ps_pool s)) (mset ps)"
    using pool_reachable_ok [OF assms(1)] assms(2,4) by (simp_all add: sys_ok_def)
  then obtain pl' where f: "free_all mem ps (ps_pool s) = (Ok (), pl')" "pool_ok pl'" "pl_heap pl' = Map.empty"
    using free_all_ok [OF _ _ assms(3)] by blast
  have "elems (pl_bufs pl') = {#}"
    using pool_ok_elem [OF f(2)] f(3) by (metis multiset_nonemptyE option.distinct(1))
  then have "num_items (pl_bufs pl') = 0"
    using f(2) by (simp add: pool_ok_def table_ok_def lh_ok_def shape_ok_def elems_def)
  then show ?thesis using f by (simp add: CRYPTO_BUFFER_POOL_free_def OPENSSL_lh_num_items_def)
qed

section \<open>A pool with one buffer\<close>

definition sample_buffer :: CRYPTO_BUFFER where
  "sample_buffer = \<lparr>cb_pool = POOL, cb_data = [1, 2], cb_len = 2, cb_references = 1, cb_static = False\<rparr>"

lemma sample_pool:
  "\<exists>pl. pool_reachable \<lparr>ps_pool = pl, ps_held = {#5#}, ps_flight = {#}\<rparr> \<and> pl_heap pl = [5 \<mapsto> sample_buffer] \<and>
     elems (pl_bufs pl) = {#5#}"
proof -
  obtain pl0 where new: "CRYPTO_BUFFER_POOL_new True True (\<lambda>_. True) (1, 2) Map.empty = Some pl0"
    by (simp add: CRYPTO_BUFFER_POOL_new_def OPENSSL_lh_new_def)
  note n = pool_new_ok [OF new]
  define pl1 where "pl1 = pl0\<lparr>pl_heap := [5 \<mapsto> sample_buffer]\<rparr>"
  have r0: "pool_reachable \<lparr>ps_pool = pl0, ps_held = {#}, ps_flight = {#}\<rparr>" using new by (rule pool_reachable.start)
  have a: "buffer_new_alloc (Some 5) True [1, 2] (length [1, 2 :: byte]) False True pl0 = (5, pl1)"
    using n(2) by (simp add: buffer_new_alloc_def pl1_def sample_buffer_def numeral_2_eq_2)
  have na: "new_address (Some 5) pl0" using n(2) by (simp add: new_address_def)
  have r1: "pool_reachable \<lparr>ps_pool = pl1, ps_held = {#}, ps_flight = {#5#}\<rparr>"
    using pool_reachable.step [OF r0 pool_step.alloc [OF na a]] by simp
  have ok: "pool_ok pl1" "counted (pl_heap pl1) (add_mset 5 {#})" using pool_reachable_ok [OF r1] by (simp_all add: sys_ok_def)
  have h: "pl_heap pl1 5 = Some sample_buffer" "cb_pool sample_buffer = POOL" "5 \<notin># elems (pl_bufs pl1)"
    "num_items (pl_bufs pl1) + 1 < 2 ^ 61" "pl_bufs pl1 = pl_bufs pl0"
    using n by (simp_all add: pl1_def sample_buffer_def)
  obtain r pl2 where i: "buffer_new_insert (\<lambda>_. True) (Some 1) 5 False pl1 = (r, pl2)" by fastforce
  have st: "is_static (pl_heap pl1) 5 = False" by (simp add: is_static_def h(1) sample_buffer_def)
  show ?thesis
  proof (rule insert_ok [OF ok(1) h(1-3) ok(2) _ h(4) i])
    assume s: "r = Ok 5" "pl_heap pl2 = pl_heap pl1" "5 \<in># elems (pl_bufs pl2)" "pool_ok pl2"
      "set_mset (elems (pl_bufs pl2)) \<subseteq> insert 5 (set_mset (elems (pl_bufs pl1)))"
    have r2: "pool_reachable \<lparr>ps_pool = pl2, ps_held = {#5#}, ps_flight = {#}\<rparr>"
      using pool_reachable.step [OF r1 pool_step.insert [where p = 5, OF _ h(4) i [folded st]]] s(1) by simp
    have t: "lh_ok (heap_hash (pl_heap pl2) (pl_hash_key pl2)) (heap_cmp (pl_heap pl2)) (pooled (pl_heap pl2)) (pl_bufs pl2)"
      using s(4) by (simp add: pool_ok_def table_ok_def)
    have "5 \<in> pooled (pl_heap pl2)" using h(1,2) s(2) by (simp add: pooled_def sample_buffer_def)
    then have "count (elems (pl_bufs pl2)) 5 = 1" using lh_ok_unique(1) [OF t _ s(3)] by (simp add: heap_cmp_zero)
    moreover have "set_mset (elems (pl_bufs pl2)) = {5}" using s(3,5) n(3) h(5) by auto
    ultimately have "elems (pl_bufs pl2) = {#5#}"
      by (intro multiset_eqI) (metis count_single count_eq_zero_iff singleton_iff)
    then show ?thesis using r2 s(2) by (intro exI [of _ pl2]) (simp add: pl1_def)
  next
    fix q b' assume "q \<in># elems (pl_bufs pl1)"
    then show ?thesis using n(3) h(5) by simp
  qed simp_all
qed

theorem pool_references_witness:
  "\<exists>(s :: pool_system) pl'. ps_held s = {#5#} \<and> CRYPTO_BUFFER_free (\<lambda>_. True) 5 (ps_pool s) = (Ok (), pl') \<and> pl_heap pl' 5 = None"
proof -
  obtain pl where s: "pool_reachable \<lparr>ps_pool = pl, ps_held = {#5#}, ps_flight = {#}\<rparr>" "pl_heap pl = [5 \<mapsto> sample_buffer]"
    using sample_pool by auto
  from pool_references [OF s(1), of 5 "\<lambda>_. True"] s(2)
  obtain pl' where "CRYPTO_BUFFER_free (\<lambda>_. True) 5 pl = (Ok (), pl')" "pl_heap pl' 5 = None"
    by (auto simp: sample_buffer_def)
  then have "ps_held \<lparr>ps_pool = pl, ps_held = {#5#}, ps_flight = {#}\<rparr> = {#5#} \<and>
      CRYPTO_BUFFER_free (\<lambda>_. True) 5 (ps_pool \<lparr>ps_pool = pl, ps_held = {#5#}, ps_flight = {#}\<rparr>) = (Ok (), pl') \<and> pl_heap pl' 5 = None"
    by simp
  then show ?thesis by blast
qed

theorem pool_data_stable_witness:
  "\<exists>s s'. pool_step s s' \<and> ps_held s = {#5#} \<and> ps_held s' = {#5, 5#} \<and> CRYPTO_BUFFER_data 5 (ps_pool s') = Ok [1, 2]"
proof -
  obtain pl where s: "pool_reachable \<lparr>ps_pool = pl, ps_held = {#5#}, ps_flight = {#}\<rparr>" "pl_heap pl = [5 \<mapsto> sample_buffer]"
    using sample_pool by auto
  have u: "CRYPTO_BUFFER_up_ref 5 pl = (Ok (), inc_references 5 pl)" by (simp add: CRYPTO_BUFFER_up_ref_def s(2))
  have st: "pool_step \<lparr>ps_pool = pl, ps_held = {#5#}, ps_flight = {#}\<rparr> \<lparr>ps_pool = inc_references 5 pl, ps_held = {#5, 5#}, ps_flight = {#}\<rparr>"
    by (rule pool_step.up_ref [OF _ u]) simp
  let ?R = "\<lambda>a b. pool_step a b \<and> 5 \<in># ps_held b"
  have "?R\<^sup>*\<^sup>* \<lparr>ps_pool = pl, ps_held = {#5#}, ps_flight = {#}\<rparr> \<lparr>ps_pool = inc_references 5 pl, ps_held = {#5, 5#}, ps_flight = {#}\<rparr>"
    using st by (intro r_into_rtranclp) simp
  from pool_data_stable [OF s(1) _ this] have "CRYPTO_BUFFER_data 5 (inc_references 5 pl) = CRYPTO_BUFFER_data 5 pl" by auto
  then show ?thesis using st s(2)
    by (intro exI [of _ "\<lparr>ps_pool = pl, ps_held = {#5#}, ps_flight = {#}\<rparr>"]
        exI [of _ "\<lparr>ps_pool = inc_references 5 pl, ps_held = {#5, 5#}, ps_flight = {#}\<rparr>"])
      (simp add: CRYPTO_BUFFER_data_def sample_buffer_def)
qed

theorem pool_interns_witness:
  "\<exists>pl pl'. elems (pl_bufs pl) = {#5#} \<and> CRYPTO_BUFFER_new (\<lambda>_. True) 9 None True None [1, 2] 2 True pl = (Ok 5, pl')"
proof -
  obtain pl where s: "pool_reachable \<lparr>ps_pool = pl, ps_held = {#5#}, ps_flight = {#}\<rparr>" "pl_heap pl = [5 \<mapsto> sample_buffer]"
      "elems (pl_bufs pl) = {#5#}"
    using sample_pool by auto
  have ok: "pool_ok pl" using pool_reachable_ok [OF s(1)] by (simp add: sys_ok_def)
  have "num_items (pl_bufs pl) = size (elems (pl_bufs pl))"
    using ok by (simp add: pool_ok_def table_ok_def lh_ok_def shape_ok_def elems_def)
  then have room: "num_items (pl_bufs pl) + 1 < 2 ^ 61" by (simp add: s(3))
  have first: "crypto_buffer_new (\<lambda>_. True) 9 None True None [1, 2] (length [1, 2 :: byte]) False True pl = (Ok 5, inc_references 5 pl)"
    using lookup_hit [OF ok, of 9 5 sample_buffer False] s(2,3) by (simp add: crypto_buffer_new_def sample_buffer_def)
  have e: "elems (pl_bufs (inc_references 5 pl)) = {#5#}" by (simp add: inc_references_def s(3))
  have "CRYPTO_BUFFER_data 5 (inc_references 5 pl) = Ok [1, 2] \<and>
      CRYPTO_BUFFER_new (\<lambda>_. True) 9 None True None [1, 2] (length [1, 2 :: byte]) True (inc_references 5 pl) =
        (Ok 5, inc_references 5 (inc_references 5 pl))"
    by (rule pool_interns [OF s(1) _ _ _ _ , where fresh = None and tmp = 9 and tmp' = 9 and mem = "\<lambda>_. True" and item = None
          and copy_ok = True and st = False])
      (use first room in \<open>simp_all add: new_address_def s(2) inc_references_def\<close>)
  then show ?thesis using e by (auto simp: numeral_2_eq_2)
qed

theorem pool_teardown_witness:
  "\<exists>pl pl'. elems (pl_bufs pl) = {#5#} \<and> free_all (\<lambda>_. True) [5] pl = (Ok (), pl') \<and> CRYPTO_BUFFER_POOL_free (Some pl') = Ok ()"
proof -
  obtain pl where s: "pool_reachable \<lparr>ps_pool = pl, ps_held = {#5#}, ps_flight = {#}\<rparr>" "pl_heap pl = [5 \<mapsto> sample_buffer]"
      "elems (pl_bufs pl) = {#5#}"
    using sample_pool by auto
  have "unsaturated (pl_heap pl)" by (auto simp: s(2) unsaturated_def sample_buffer_def CRYPTO_REFCOUNT_MAX_def split: if_splits)
  with pool_teardown [OF s(1), where ps = "[5]" and mem = "\<lambda>_. True"]
  obtain pl' where "free_all (\<lambda>_. True) [5] pl = (Ok (), pl')" "CRYPTO_BUFFER_POOL_free (Some pl') = Ok ()"
    by (auto simp del: free_all.simps)
  then show ?thesis using s(3) by blast
qed

end
