(* ===== verification/Ber_Element.thy ===== *)
theory Ber_Element
  imports Cbs_Asn1
begin

text \<open>
  The element reader of cbs.c in BER mode: which bytes it accepts, and what it reports of them.
  A BER length is any of the forms that give the number; the shortest is the DER one.
\<close>

definition ber_length :: "byte list \<Rightarrow> nat \<Rightarrow> bool" where
  "ber_length l n \<longleftrightarrow> n < 128 \<and> l = [of_nat n] \<or>
     (\<exists>k. 1 \<le> k \<and> k \<le> 4 \<and> n < 256 ^ k \<and> l = of_nat (128 + k) # be_bytes k n)"

lemma ber_length_der: "n < 2 ^ 32 \<Longrightarrow> ber_length (der_length n) n"
  using len_len_range [of n] by (auto simp: ber_length_def der_length_def)

lemma ber_length_less: "ber_length l n \<Longrightarrow> n < 2 ^ 32 \<and> 1 \<le> length l \<and> length l \<le> 5"
proof -
  have "n < 2 ^ 32" if "1 \<le> k" "k \<le> 4" "n < 256 ^ k" for k
  proof -
    have "(256 :: nat) ^ k \<le> 256 ^ 4" using that by (intro power_increasing) auto
    with that show ?thesis by simp
  qed
  then show "ber_length l n \<Longrightarrow> ?thesis" by (auto simp: ber_length_def)
qed

lemma ber_length_not_shortest:
  assumes "1 \<le> k" "k \<le> 4" "n < 256 ^ k"
  shows "of_nat (128 + k) # be_bytes k n \<noteq> der_length n \<longleftrightarrow> n < 128 \<or> n < 256 ^ (k - 1)"
proof -
  have "len_len n = k \<longleftrightarrow> 256 ^ (k - 1) \<le> n" if "128 \<le> n"
    using len_len_unique [OF assms(1,2) _ assms(3)] len_len_minimal [OF that] by auto
  moreover have "length (der_length n) = Suc k \<longleftrightarrow> len_len n = k" if "128 \<le> n"
    using that by (simp add: der_length_def)
  moreover have "length (der_length n) \<noteq> Suc k" if "n < 128" using that assms(1) by (simp add: der_length_def)
  ultimately show ?thesis
    by (cases "128 \<le> n") (auto simp: der_length_def dest: arg_cong [where f = length])
qed

text \<open>What the reader reports of an element with a definite and one with an indefinite length.\<close>

definition definite_elem :: "CBS_ASN1_TAG \<Rightarrow> byte list \<Rightarrow> byte list \<Rightarrow> asn1_element" where
  "definite_elem tag l c =
     \<lparr>elem_out = der_tag tag @ l @ c, elem_tag = tag, elem_header_len = length (der_tag tag) + length l,
      elem_ber_found = (l \<noteq> der_length (length c)), elem_indefinite = False\<rparr>"

definition indefinite_elem :: "CBS_ASN1_TAG \<Rightarrow> asn1_element" where
  "indefinite_elem tag =
     \<lparr>elem_out = der_tag tag @ [0x80], elem_tag = tag, elem_header_len = length (der_tag tag) + 1,
      elem_ber_found = True, elem_indefinite = True\<rparr>"

lemma ber_element_short:
  assumes "asn1_tag_ok tag" and "unat lb < 128"
  shows "cbs_get_any_asn1_element True (der_tag tag @ lb # rest) =
     op_bind (CBS_get_bytes (unat lb + (length (der_tag tag) + 1))) (\<lambda>out.
       op_ret \<lparr>elem_out = out, elem_tag = tag, elem_header_len = length (der_tag tag) + 1,
         elem_ber_found = False, elem_indefinite = False\<rparr>) (der_tag tag @ lb # rest)"
  using assms
  by (simp add: cbs_get_any_asn1_element_def op_bind_apply op_run_apply asn1_tag.rd_enc
      CBS_get_u8_eq byte_and_80 Let_def split: prod.splits result.splits)

lemma ber_element_long:
  assumes tag: "asn1_tag_ok tag" and lb: "128 \<le> unat lb"
  defines "nb \<equiv> unat lb mod 128" and "hl \<equiv> length (der_tag tag) + 1"
  shows "cbs_get_any_asn1_element True (der_tag tag @ lb # rest) =
     (let cbs = der_tag tag @ lb # rest; n = be_val (take nb rest) in
      if nb = 0 \<and> tag AND CBS_ASN1_CONSTRUCTED \<noteq> 0 then
        op_bind (CBS_get_bytes hl) (\<lambda>out.
          op_ret \<lparr>elem_out = out, elem_tag = tag, elem_header_len = hl,
            elem_ber_found = True, elem_indefinite = True\<rparr>) cbs
      else if nb = 0 \<or> 4 < nb \<or> length rest < nb then (Err, cbs)
      else op_bind (CBS_get_bytes (n + hl + nb)) (\<lambda>out.
        op_ret \<lparr>elem_out = out, elem_tag = tag, elem_header_len = hl + nb,
          elem_ber_found = (n < 128 \<or> n < 256 ^ (nb - 1)), elem_indefinite = False\<rparr>) cbs)"
proof -
  have hl: "hl \<le> 7" using length_der_tag [of tag] by (simp add: hl_def)
  have nb: "unat (lb AND 0x7f) = nb" by (simp add: byte_and_7f nb_def)
  show ?thesis
  proof (cases "nb = 0 \<or> 4 < nb \<or> length rest < nb")
    case True
    with tag lb nb show ?thesis
      by (auto simp: cbs_get_any_asn1_element_def op_bind_apply op_run_apply asn1_tag.rd_enc
          CBS_get_u8_eq byte_and_80 Let_def cbs_get_u_eq hl_def)
  next
    case False
    define n where "n = be_val (take nb rest)"
    have "n < 256 ^ nb" using be_val_less [of "take nb rest"] False by (simp add: n_def)
    also have "(256 :: nat) ^ nb \<le> 256 ^ 4" using False by (intro power_increasing) auto
    finally have n32: "n < 2 ^ 32" by simp
    have un: "unat (of_nat n :: u64) = n"
      using n32 by (simp add: unsigned_of_nat take_bit_nat_eq_self)
    have small: "(of_nat n :: u64) < 128 \<longleftrightarrow> n < 128"
      using un by (simp add: word_less_nat_alt)
    have drop: "drop_bit ((nb - Suc 0) * 8) (of_nat n :: u64) = 0 \<longleftrightarrow> n < 256 ^ (nb - Suc 0)"
    proof -
      have "(2 :: nat) ^ ((nb - 1) * 8) = 256 ^ (nb - 1)"
        by (subst mult.commute) (simp add: power_mult)
      then show ?thesis using u64_drop_bit_0 [of "(nb - 1) * 8" "of_nat n"] un by simp
    qed
    have "size_add (size_add n hl) nb = n + hl + nb" "size_add n (size_add hl nb) = n + hl + nb"
      using n32 hl False by (simp_all add: size_add_exact)
    with tag lb nb False show ?thesis
      by (simp add: cbs_get_any_asn1_element_def op_bind_apply op_run_apply asn1_tag.rd_enc
          CBS_get_u8_eq byte_and_80 Let_def cbs_get_u_eq small drop un hl_def flip: n_def)
  qed
qed

lemma ber_definite_complete:
  assumes tag: "asn1_tag_ok tag" and l: "ber_length l (length c)"
  shows "CBS_get_any_ber_asn1_element (der_tag tag @ l @ c @ rest) = (Ok (definite_elem tag l c), rest)"
  using l [unfolded ber_length_def]
proof (elim disjE exE conjE)
  assume s: "length c < 128" "l = [of_nat (length c)]"
  then show ?thesis using tag
    by (simp add: CBS_get_any_ber_asn1_element_def ber_element_short op_bind_apply CBS_get_bytes_eq definite_elem_def der_length_def)
next
  fix k assume k: "1 \<le> k" "k \<le> 4" "length c < 256 ^ k" and l: "l = of_nat (128 + k) # be_bytes k (length c)"
  have lb: "unat (of_nat (128 + k) :: byte) = 128 + k" using k by (simp del: of_nat_add)
  show ?thesis using k lb ber_length_not_shortest [OF k]
    unfolding CBS_get_any_ber_asn1_element_def l append_Cons
    by (subst ber_element_long [OF tag])
      (simp_all add: Let_def op_bind_apply CBS_get_bytes_eq definite_elem_def del: of_nat_add)
qed

lemma ber_indefinite_complete:
  assumes "asn1_tag_ok tag" and "tag AND CBS_ASN1_CONSTRUCTED \<noteq> 0"
  shows "CBS_get_any_ber_asn1_element (der_tag tag @ 0x80 # rest) = (Ok (indefinite_elem tag), rest)"
  unfolding CBS_get_any_ber_asn1_element_def using assms
  by (subst ber_element_long [OF assms(1)]) (simp_all add: Let_def op_bind_apply CBS_get_bytes_eq indefinite_elem_def)

lemma ber_element_sound:
  assumes "CBS_get_any_ber_asn1_element cbs = (Ok e, rest)"
  obtains (definite) tag l c where "asn1_tag_ok tag" "ber_length l (length c)" "e = definite_elem tag l c"
      "cbs = der_tag tag @ l @ c @ rest"
  | (indefinite) tag where "asn1_tag_ok tag" "tag AND CBS_ASN1_CONSTRUCTED \<noteq> 0" "e = indefinite_elem tag"
      "cbs = der_tag tag @ 0x80 # rest"
proof -
  note rd = assms [unfolded CBS_get_any_ber_asn1_element_def]
  from rd obtain tag lb r where tag: "asn1_tag_ok tag" and cbs: "cbs = der_tag tag @ lb # r"
    by (rule element_starts)
  have def_case: thesis if "ber_length (lb # l') (length c)" "r = l' @ c @ rest" for l' c
  proof (rule definite [OF tag that(1)])
    show "cbs = der_tag tag @ (lb # l') @ c @ rest" using that(2) by (simp add: cbs)
    then show "e = definite_elem tag (lb # l') c"
      using assms ber_definite_complete [OF tag that(1), of rest] by simp
  qed
  show thesis
  proof (cases "unat lb < 128")
    case True
    have "unat lb \<le> length r" and "rest = drop (unat lb) r"
      using rd True unfolding cbs
      by (auto simp: ber_element_short [OF tag] op_bind_Ok_iff CBS_get_bytes_eq split: if_splits)
    then show thesis using True by (intro def_case [of "[]" "take (unat lb) r"]) (simp_all add: ber_length_def min_def)
  next
    case False
    define nb where "nb = unat lb mod 128"
    define n where "n = be_val (take nb r)"
    note long = ber_element_long [OF tag, of lb r, folded nb_def, folded n_def]
    have lb: "lb = of_nat (128 + nb)"
      using byte_of_nat_unat_mod [of lb] False by (simp add: b128_hi_def nb_def)
    show thesis
    proof (cases "nb = 0 \<and> tag AND CBS_ASN1_CONSTRUCTED \<noteq> 0")
      case True
      then have l80: "lb = 0x80" using lb by simp
      have "rest = r" using rd False True long unfolding cbs by (simp add: op_bind_apply CBS_get_bytes_eq split: if_splits)
      then have "cbs = der_tag tag @ 0x80 # rest" by (simp add: cbs l80)
      then show thesis using indefinite [OF tag] True assms ber_indefinite_complete [OF tag, of rest] by simp
    next
      case nind: False
      have nb: "1 \<le> nb" "nb \<le> 4" "nb \<le> length r" and len: "n + nb \<le> length r" and rest: "rest = drop n (drop nb r)"
        using rd False nind long unfolding cbs
        by (auto simp: op_bind_Ok_iff CBS_get_bytes_eq Let_def add.commute split: if_splits)
      have take: "length (take nb r) = nb" using nb by simp
      have n': "n < 256 ^ nb" using be_val_less [of "take nb r"] take by (metis n_def)
      have be: "be_bytes nb n = take nb r" using be_bytes_be_val [of "take nb r"] take by (simp add: n_def)
      define c where "c = take n (drop nb r)"
      have c: "length c = n" using len by (simp add: c_def)
      have "r = take nb r @ c @ rest" unfolding rest c_def by (simp only: append_take_drop_id)
      moreover have "ber_length (lb # take nb r) (length c)"
        unfolding ber_length_def c using nb n' lb be by auto
      ultimately show thesis by (intro def_case [of "take nb r" c]) auto
    qed
  qed
qed

lemma ber_element_shorter:
  "CBS_get_any_ber_asn1_element cbs = (Ok e, rest) \<Longrightarrow>
     length rest < length cbs \<and> length (elem_out e) \<le> length cbs \<and> 0 < elem_header_len e"
  by (erule ber_element_sound) (auto simp: definite_elem_def indefinite_elem_def dest: ber_length_less)

lemma ber_element_safe: "fst (CBS_get_any_ber_asn1_element cbs) \<noteq> Abort"
  using front_safe_element [of True cbs] by (simp add: front_safe_def CBS_get_any_ber_asn1_element_def)

end
