(* ===== verification/Ber_Conv.thy ===== *)
theory Ber_Conv
  imports Cbb_Document Ber_Element
begin

text \<open>
  crypto/bytestring/ber.c: from BER to DER. Strings may come in pieces and elements with
  indefinite lengths; the conversion joins the pieces and writes every length in its one DER
  form. The conversion works on two objects at once, the input and the builder of the output.
\<close>

section \<open>Looking for BER\<close>

abbreviation "CBS_ASN1_UTF8STRING \<equiv> (0xc :: CBS_ASN1_TAG)"
abbreviation "CBS_ASN1_NUMERICSTRING \<equiv> (0x12 :: CBS_ASN1_TAG)"
abbreviation "CBS_ASN1_PRINTABLESTRING \<equiv> (0x13 :: CBS_ASN1_TAG)"
abbreviation "CBS_ASN1_T61STRING \<equiv> (0x14 :: CBS_ASN1_TAG)"
abbreviation "CBS_ASN1_VIDEOTEXSTRING \<equiv> (0x15 :: CBS_ASN1_TAG)"
abbreviation "CBS_ASN1_IA5STRING \<equiv> (0x16 :: CBS_ASN1_TAG)"
abbreviation "CBS_ASN1_GRAPHICSTRING \<equiv> (0x19 :: CBS_ASN1_TAG)"
abbreviation "CBS_ASN1_VISIBLESTRING \<equiv> (0x1a :: CBS_ASN1_TAG)"
abbreviation "CBS_ASN1_GENERALSTRING \<equiv> (0x1b :: CBS_ASN1_TAG)"
abbreviation "CBS_ASN1_UNIVERSALSTRING \<equiv> (0x1c :: CBS_ASN1_TAG)"
abbreviation "CBS_ASN1_BMPSTRING \<equiv> (0x1e :: CBS_ASN1_TAG)"

definition kMaxDepth :: nat where
  "kMaxDepth = 128"

abbreviation constructed :: "CBS_ASN1_TAG \<Rightarrow> bool" where
  "constructed tag \<equiv> tag AND CBS_ASN1_CONSTRUCTED \<noteq> 0"

abbreviation primitive_tag :: "CBS_ASN1_TAG \<Rightarrow> CBS_ASN1_TAG" where
  "primitive_tag tag \<equiv> tag AND NOT CBS_ASN1_CONSTRUCTED"

definition is_string_type :: "CBS_ASN1_TAG \<Rightarrow> bool" where
  "is_string_type tag \<longleftrightarrow>
     primitive_tag tag \<in> set [CBS_ASN1_OCTETSTRING, CBS_ASN1_UTF8STRING,
       CBS_ASN1_NUMERICSTRING, CBS_ASN1_PRINTABLESTRING, CBS_ASN1_T61STRING,
       CBS_ASN1_VIDEOTEXSTRING, CBS_ASN1_IA5STRING, CBS_ASN1_GRAPHICSTRING,
       CBS_ASN1_VISIBLESTRING, CBS_ASN1_GENERALSTRING, CBS_ASN1_UNIVERSALSTRING,
       CBS_ASN1_BMPSTRING]"

text \<open>The contents of an element that has been read: \<open>CBS_skip(&contents, header_len)\<close>.\<close>

definition elem_contents :: "asn1_element \<Rightarrow> CBS result" where
  "elem_contents e =
     (case CBS_skip (elem_header_len e) (elem_out e) of
        (Ok _, contents) \<Rightarrow> Ok contents
      | (Err, _) \<Rightarrow> Err
      | (Abort, _) \<Rightarrow> Abort)"

lemma elem_contents_shorter:
  "elem_contents e = Ok contents \<Longrightarrow> CBS_get_any_ber_asn1_element inp = (Ok e, rest) \<Longrightarrow> length contents < length inp"
  using ber_element_shorter [of inp e rest]
  by (auto simp: elem_contents_def CBS_skip_eq split: if_splits)

text \<open>The loop continues with the rest of the input, the recursion with the contents.\<close>

function cbs_find_ber :: "CBS \<Rightarrow> nat \<Rightarrow> bool result" where
  "cbs_find_ber inp depth =
     (if depth > kMaxDepth then Err
      else if CBS_len inp = 0 then Ok False
      else case CBS_get_any_ber_asn1_element inp of
        (Ok e, inp') \<Rightarrow>
          if elem_ber_found e then Ok True
          else if constructed (elem_tag e) then
            (if is_string_type (elem_tag e) then Ok True
             else case elem_contents e of
               Ok contents \<Rightarrow>
                 (case cbs_find_ber contents (Suc depth) of
                    Ok ber_found \<Rightarrow> if ber_found then Ok True else cbs_find_ber inp' depth
                  | failed \<Rightarrow> failed)
             | Err \<Rightarrow> Err
             | Abort \<Rightarrow> Abort)
          else cbs_find_ber inp' depth
      | (Err, _) \<Rightarrow> Err
      | (Abort, _) \<Rightarrow> Abort)"
  by pat_completeness auto
termination
  by (relation "measure (\<lambda>(inp, depth). length inp)")
    (auto dest!: sym [where s = "(_, _)"] dest: ber_element_shorter elem_contents_shorter)

declare cbs_find_ber.simps [simp del]

section \<open>Converting\<close>

text \<open>Operations on the input and on the builder of the output.\<close>

definition on_in :: "(CBS, 'a) op \<Rightarrow> (CBS \<times> CBB, 'a) op" where
  "on_in m = (\<lambda>(inp, out). case m inp of (r, inp') \<Rightarrow> (r, (inp', out)))"

definition on_out :: "(CBB, 'a) op \<Rightarrow> (CBS \<times> CBB, 'a) op" where
  "on_out m = (\<lambda>(inp, out). case m out of (r, out') \<Rightarrow> (r, (inp, out')))"

text \<open>With \<open>&contents\<close> for the input.\<close>

definition with_in :: "CBS \<Rightarrow> (CBS \<times> CBB, 'a) op \<Rightarrow> (CBS \<times> CBB, 'a) op" where
  "with_in contents m = (\<lambda>(inp, out). case m (contents, out) of (r, (_, out')) \<Rightarrow> (r, (inp, out')))"

definition op_of :: "'a result \<Rightarrow> ('s, 'a) op" where
  "op_of r = (\<lambda>s. (r, s))"

definition cbs_get_eoc :: "CBS \<Rightarrow> bool \<times> CBS" where
  "cbs_get_eoc cbs =
     (if CBS_len cbs \<ge> 2 \<and> cbs ! 0 = 0 \<and> cbs ! 1 = 0 then
        (case CBS_skip 2 cbs of (r, cbs') \<Rightarrow> (r = Ok (), cbs'))
      else (False, cbs))"

text \<open>
  \<open>out_contents\<close>, as a depth of the builder, and \<open>child_string_tag\<close> for an element: a piece of a
  string goes to the builder itself, any other element to a new child.
\<close>

definition ber_out_contents :: "nat \<Rightarrow> CBS_ASN1_TAG \<Rightarrow> CBS_ASN1_TAG \<Rightarrow> (CBB, nat \<times> CBS_ASN1_TAG) op" where
  "ber_out_contents d string_tag tag =
     (if string_tag \<noteq> 0 then
        (if primitive_tag tag \<noteq> string_tag then op_fail else op_ret (d, string_tag))
      else if constructed tag \<and> is_string_type tag then
        op_then (CBB_add_asn1 d (primitive_tag tag)) (op_ret (Suc d, primitive_tag tag))
      else op_then (CBB_add_asn1 d tag) (op_ret (Suc d, string_tag)))"

text \<open>
  One element that has been read, where \<open>convert\<close> is the function itself: an indefinite length
  is followed by the elements up to the end of contents, in the input.
\<close>

type_synonym ber_converter = "nat \<Rightarrow> CBS_ASN1_TAG \<Rightarrow> bool \<Rightarrow> nat \<Rightarrow> (CBS \<times> CBB, unit) op"

definition ber_contents :: "ber_converter \<Rightarrow> nat \<Rightarrow> asn1_element \<Rightarrow> nat \<Rightarrow> CBS_ASN1_TAG \<Rightarrow> (CBS \<times> CBB, unit) op" where
  "ber_contents convert depth e d' child_string_tag =
     (if elem_indefinite e then convert d' child_string_tag True (Suc depth)
      else op_bind (op_of (elem_contents e)) (\<lambda>contents.
        if constructed (elem_tag e) then with_in contents (convert d' child_string_tag False (Suc depth))
        else on_out (CBB_add_bytes d' contents (CBS_len contents))))"

definition ber_element :: "ber_converter \<Rightarrow> nat \<Rightarrow> CBS_ASN1_TAG \<Rightarrow> nat \<Rightarrow> asn1_element \<Rightarrow> (CBS \<times> CBB, unit) op" where
  "ber_element convert d string_tag depth e =
     op_bind (on_out (ber_out_contents d string_tag (elem_tag e))) (\<lambda>(d', child_string_tag).
       op_then (ber_contents convert depth e d' child_string_tag) (on_out (CBB_flush d)))"

text \<open>
  The loop and the recursion take one unit of fuel each; \<open>out\<close> is at depth \<open>d\<close>
  of the builder.
\<close>

primrec cbs_convert_ber :: "nat \<Rightarrow> nat \<Rightarrow> CBS_ASN1_TAG \<Rightarrow> bool \<Rightarrow> nat \<Rightarrow> (CBS \<times> CBB, unit) op" where
  "cbs_convert_ber 0 = (\<lambda>d string_tag looking_for_eoc depth. op_abort)"
| "cbs_convert_ber (Suc fuel) = (\<lambda>d string_tag looking_for_eoc depth (inp, out).
     if constructed string_tag then (Abort, (inp, out))
     else if depth > kMaxDepth then (Err, (inp, out))
     else if CBS_len inp = 0 then (if looking_for_eoc then Err else Ok (), (inp, out))
     else if looking_for_eoc \<and> fst (cbs_get_eoc inp) then (Ok (), (snd (cbs_get_eoc inp), out))
     else
       op_bind (on_in CBS_get_any_ber_asn1_element) (\<lambda>e.
         op_then (ber_element (cbs_convert_ber fuel) d string_tag depth e)
           (cbs_convert_ber fuel d string_tag looking_for_eoc depth)) (inp, out))"

declare cbs_convert_ber.simps [simp del]

text \<open>
  The result is \<open>out\<close> and \<open>out_storage\<close>. Every round of the loop and every recursion
  takes at least two bytes off its input, so the length of the input is fuel enough.
\<close>

definition CBS_asn1_ber_to_der :: "allocator \<Rightarrow> (CBS, CBS \<times> byte list option) op" where
  "CBS_asn1_ber_to_der mem = (\<lambda>inp.
     case cbs_find_ber inp 0 of
       Ok conversion_needed \<Rightarrow>
         if \<not> conversion_needed then
           op_bind CBS_get_any_asn1_element (\<lambda>(out, _, _). op_ret (out, None)) inp
         else
           (case CBB_init mem (CBS_len inp) of
              Ok cbb \<Rightarrow>
                (case op_then (cbs_convert_ber (Suc (CBS_len inp)) 0 0 False 0)
                        (on_out (CBB_finish 0 True True)) (inp, cbb) of
                   (Ok (Some data, Some len), (inp', _)) \<Rightarrow> (Ok (take len data, Some data), inp')
                 | (Ok _, (inp', _)) \<Rightarrow> (Abort, inp')
                 | (Err, (inp', _)) \<Rightarrow> (Err, inp')
                 | (Abort, (inp', _)) \<Rightarrow> (Abort, inp'))
            | Err \<Rightarrow> (Err, inp)
            | Abort \<Rightarrow> (Abort, inp))
     | Err \<Rightarrow> (Err, inp)
     | Abort \<Rightarrow> (Abort, inp))"

section \<open>Implicitly tagged strings\<close>

lemma get_asn1_shorter: "CBS_get_asn1 tag cbs = (Ok c, rest) \<Longrightarrow> length rest < length cbs"
  by (auto simp: CBS_get_asn1_iff der_element_def der_header_def der_length_def)

function implicit_string_loop :: "CBS_ASN1_TAG \<Rightarrow> CBS \<Rightarrow> (CBB, unit) op" where
  "implicit_string_loop inner_tag child =
     (if CBS_len child = 0 then op_ret ()
      else case CBS_get_asn1 inner_tag child of
        (Ok chunk, child') \<Rightarrow>
          op_then (CBB_add_bytes 0 chunk (CBS_len chunk)) (implicit_string_loop inner_tag child')
      | (Err, _) \<Rightarrow> op_fail
      | (Abort, _) \<Rightarrow> op_abort)"
  by pat_completeness auto
termination
  by (relation "measure (\<lambda>(tag, child). length child)") (auto dest!: sym [where s = "(_, _)"] dest: get_asn1_shorter)

declare implicit_string_loop.simps [simp del]

definition CBS_get_asn1_implicit_string ::
    "allocator \<Rightarrow> CBS_ASN1_TAG \<Rightarrow> CBS_ASN1_TAG \<Rightarrow> (CBS, CBS \<times> byte list option) op" where
  "CBS_get_asn1_implicit_string mem outer_tag inner_tag =
     op_then (op_assert (\<not> constructed outer_tag))
    (op_then (op_assert (\<not> constructed inner_tag))
    (op_then (op_assert (is_string_type inner_tag))
    (\<lambda>inp.
       if CBS_peek_asn1_tag inp outer_tag then
         op_bind (CBS_get_asn1 outer_tag) (\<lambda>out. op_ret (out, None)) inp
       else
         (case CBB_init mem (CBS_len inp) of
            Ok result \<Rightarrow>
              op_bind (CBS_get_asn1 (outer_tag OR CBS_ASN1_CONSTRUCTED)) (\<lambda>child.
                case fst (op_then (implicit_string_loop inner_tag child) (CBB_finish 0 True True) result) of
                  Ok (Some data, Some len) \<Rightarrow> op_ret (take len data, Some data)
                | Ok _ \<Rightarrow> op_abort
                | Err \<Rightarrow> op_fail
                | Abort \<Rightarrow> op_abort) inp
          | Err \<Rightarrow> (Err, inp)
          | Abort \<Rightarrow> (Abort, inp)))))"

end
