(* ===== verification/Ber_Trees.thy ===== *)
theory Ber_Trees
  imports Ber_Conv
begin

text \<open>
  What the conversion means: the trees that BER encodes, the documents they convert to, and that
  the code reads and writes exactly these.
\<close>

section \<open>Trees\<close>

text \<open>An element with the form its length has.\<close>

datatype ber =
    Primitive CBS_ASN1_TAG "byte list" "byte list"
  | Definite CBS_ASN1_TAG "byte list" "ber list"
  | Indefinite CBS_ASN1_TAG "ber list"

fun ber_bytes :: "ber \<Rightarrow> byte list" where
  "ber_bytes (Primitive tag l c) = der_tag tag @ l @ c"
| "ber_bytes (Definite tag l ts) = der_tag tag @ l @ concat (map ber_bytes ts)"
| "ber_bytes (Indefinite tag ts) = der_tag tag @ 0x80 # concat (map ber_bytes ts) @ [0, 0]"

abbreviation bers_bytes :: "ber list \<Rightarrow> byte list" where
  "bers_bytes ts \<equiv> concat (map ber_bytes ts)"

text \<open>The string a child is a piece of, zero when it is no piece.\<close>

definition child_string :: "CBS_ASN1_TAG \<Rightarrow> CBS_ASN1_TAG \<Rightarrow> CBS_ASN1_TAG" where
  "child_string st tag = (if st \<noteq> 0 then st else if is_string_type tag then primitive_tag tag else 0)"

fun ber_ok :: "CBS_ASN1_TAG \<Rightarrow> nat \<Rightarrow> ber \<Rightarrow> bool" where
  "ber_ok st depth (Primitive tag l c) \<longleftrightarrow>
     asn1_tag_ok tag \<and> \<not> constructed tag \<and> ber_length l (length c) \<and> (st \<noteq> 0 \<longrightarrow> primitive_tag tag = st)"
| "ber_ok st depth (Definite tag l ts) \<longleftrightarrow>
     asn1_tag_ok tag \<and> constructed tag \<and> ber_length l (length (bers_bytes ts)) \<and>
     (st \<noteq> 0 \<longrightarrow> primitive_tag tag = st) \<and> depth < kMaxDepth \<and> list_all (ber_ok (child_string st tag) (Suc depth)) ts"
| "ber_ok st depth (Indefinite tag ts) \<longleftrightarrow>
     asn1_tag_ok tag \<and> constructed tag \<and>
     (st \<noteq> 0 \<longrightarrow> primitive_tag tag = st) \<and> depth < kMaxDepth \<and> list_all (ber_ok (child_string st tag) (Suc depth)) ts"

text \<open>The bytes of a string from its pieces, and the document an element converts to.\<close>

fun ber_string :: "ber \<Rightarrow> byte list" where
  "ber_string (Primitive tag l c) = c"
| "ber_string (Definite tag l ts) = concat (map ber_string ts)"
| "ber_string (Indefinite tag ts) = concat (map ber_string ts)"

fun ber_item :: "ber \<Rightarrow> item" where
  "ber_item (Primitive tag l c) = Element tag [Raw c]"
| "ber_item (Definite tag l ts) =
     (if is_string_type tag then Element (primitive_tag tag) (map (\<lambda>t. Raw (ber_string t)) ts)
      else Element tag (map ber_item ts))"
| "ber_item (Indefinite tag ts) =
     (if is_string_type tag then Element (primitive_tag tag) (map (\<lambda>t. Raw (ber_string t)) ts)
      else Element tag (map ber_item ts))"

definition ber_items :: "CBS_ASN1_TAG \<Rightarrow> ber list \<Rightarrow> item list" where
  "ber_items st ts = (if st \<noteq> 0 then map (\<lambda>t. Raw (ber_string t)) ts else map ber_item ts)"

text \<open>Whether an element is DER already, as far as the conversion goes.\<close>

fun ber_is_der :: "ber \<Rightarrow> bool" where
  "ber_is_der (Primitive tag l c) \<longleftrightarrow> l = der_length (length c)"
| "ber_is_der (Definite tag l ts) \<longleftrightarrow>
     l = der_length (length (bers_bytes ts)) \<and> \<not> is_string_type tag \<and> list_all ber_is_der ts"
| "ber_is_der (Indefinite tag ts) \<longleftrightarrow> False"

section \<open>Reading one tree\<close>

lemma der_tag_nonzero: "asn1_tag_ok tag \<Longrightarrow> der_tag tag @ xs \<noteq> 0 # ys"
proof
  assume t: "asn1_tag_ok tag" "der_tag tag @ xs = 0 # ys"
  have "fst (parse_asn1_tag (0 # ys)) = Err"
    by (simp add: parse_asn1_tag_def CBS_get_u8_eq op_bind_apply)
  moreover have "fst (parse_asn1_tag (der_tag tag @ xs)) = Ok tag" using t(1) by (simp add: parse_asn1_tag_complete)
  ultimately show False using t(2) by simp
qed

lemma der_tag_not_empty [simp]: "der_tag tag \<noteq> []"
  by (simp add: der_tag_def Let_def)

lemma eoc_not_tag: "asn1_tag_ok tag \<Longrightarrow> \<not> fst (cbs_get_eoc (der_tag tag @ xs))"
  using der_tag_nonzero [of tag xs "tl (der_tag tag @ xs)"]
  by (cases "der_tag tag @ xs") (auto simp: cbs_get_eoc_def split: prod.splits)

lemma eoc_found: "cbs_get_eoc (0 # 0 # rest) = (True, rest)"
  by (simp add: cbs_get_eoc_def CBS_skip_eq)

lemma eoc_inv: "fst (cbs_get_eoc inp) \<Longrightarrow> inp = 0 # 0 # snd (cbs_get_eoc inp)"
  by (cases inp; cases "tl inp") (auto simp: cbs_get_eoc_def CBS_skip_eq split: if_splits)

lemma elem_contents_definite [simp]: "elem_contents (definite_elem tag l c) = Ok c"
  by (simp add: elem_contents_def definite_elem_def CBS_skip_eq)

lemma definite_elem_fields [simp]:
  "elem_tag (definite_elem tag l c) = tag" "elem_indefinite (definite_elem tag l c) = False"
  "elem_ber_found (definite_elem tag l c) \<longleftrightarrow> l \<noteq> der_length (length c)"
  "elem_tag (indefinite_elem tag) = tag" "elem_indefinite (indefinite_elem tag) = True"
  "elem_ber_found (indefinite_elem tag) = True"
  by (simp_all add: definite_elem_def indefinite_elem_def)

section \<open>Looking for BER\<close>

lemma find_ber_sound:
  "cbs_find_ber inp depth = Ok False \<Longrightarrow>
     depth \<le> kMaxDepth \<and> (\<exists>ts. list_all (ber_ok 0 depth) ts \<and> list_all ber_is_der ts \<and> inp = bers_bytes ts)"
proof (induction inp depth rule: cbs_find_ber.induct)
  case (1 inp depth)
  have d: "depth \<le> kMaxDepth" using "1.prems" by (subst (asm) cbs_find_ber.simps) (auto split: if_splits)
  show ?case
  proof (cases "inp = []")
    case True
    then show ?thesis using d by (intro conjI exI [of _ "[]"]) simp_all
  next
    case False
    note step = "1.prems" [unfolded cbs_find_ber.simps [of inp]]
    obtain e inp' where e: "CBS_get_any_ber_asn1_element inp = (Ok e, inp')" "\<not> elem_ber_found e"
      using step d False by (auto split: prod.splits result.splits if_splits)
    from e(1) show ?thesis
    proof (cases rule: ber_element_sound)
      case (definite tag l c)
      then have l: "l = der_length (length c)" using e(2) by simp
      show ?thesis
      proof (cases "constructed tag")
        case con: True
        have ns: "\<not> is_string_type tag" and r: "cbs_find_ber c (Suc depth) = Ok False" "cbs_find_ber inp' depth = Ok False"
          using step d False e definite l con by (auto split: result.splits if_splits)
        obtain ts where ts: "Suc depth \<le> kMaxDepth" "list_all (ber_ok 0 (Suc depth)) ts" "list_all ber_is_der ts" "c = bers_bytes ts"
          using "1.IH"(1) [OF _ _ e(1) [symmetric] refl e(2)] d False definite con ns r by auto
        obtain us where us: "list_all (ber_ok 0 depth) us" "list_all ber_is_der us" "inp' = bers_bytes us"
          using "1.IH"(2) [OF _ _ e(1) [symmetric] refl e(2)] d False definite con ns r by auto
        show ?thesis
          by (intro conjI d exI [of _ "Definite tag l ts # us"])
            (use definite l con ns ts us in \<open>auto simp: child_string_def\<close>)
      next
        case prim: False
        then have r: "cbs_find_ber inp' depth = Ok False" using step d False e definite l by simp
        obtain us where us: "list_all (ber_ok 0 depth) us" "list_all ber_is_der us" "inp' = bers_bytes us"
          using "1.IH"(3) [OF _ _ e(1) [symmetric] refl e(2)] d False definite prim r by auto
        show ?thesis
          by (intro conjI d exI [of _ "Primitive tag l c # us"]) (use definite l prim us in auto)
      qed
    qed (use e(2) in simp)
  qed
qed

lemma find_ber_complete:
  "list_all (ber_ok 0 depth) ts \<Longrightarrow> depth \<le> kMaxDepth \<Longrightarrow> cbs_find_ber (bers_bytes ts) depth = Ok (\<not> list_all ber_is_der ts)"
proof (induction "bers_bytes ts" depth arbitrary: ts rule: cbs_find_ber.induct)
  case (1 depth)
  show ?case
  proof (cases ts)
    case Nil
    then show ?thesis using "1.prems"(2) by (simp add: cbs_find_ber.simps)
  next
    case (Cons t us)
    note d = "1.prems"(2)
    have us: "list_all (ber_ok 0 depth) us" and t: "ber_ok 0 depth t" using "1.prems"(1) Cons by simp_all
    have ne: "\<not> CBS_len (bers_bytes ts) = 0" using Cons by (cases t) simp_all
    show ?thesis
    proof (cases t)
      case (Primitive tag l c)
      have e: "CBS_get_any_ber_asn1_element (bers_bytes ts) = (Ok (definite_elem tag l c), bers_bytes us)"
        using ber_definite_complete [of tag l c "bers_bytes us"] t by (simp add: Cons Primitive)
      show ?thesis
      proof (cases "l = der_length (length c)")
        case l: True
        have "cbs_find_ber (bers_bytes us) depth = Ok (\<not> list_all ber_is_der us)"
          using "1.hyps"(3) [OF _ ne e [symmetric] refl _ _ us] d l t by (simp add: Primitive)
        then show ?thesis using e d ne l t by (subst cbs_find_ber.simps) (simp add: Cons Primitive)
      qed (use e d ne in \<open>subst cbs_find_ber.simps, simp add: Cons Primitive\<close>)
    next
      case (Definite tag l vs)
      have e: "CBS_get_any_ber_asn1_element (bers_bytes ts) = (Ok (definite_elem tag l (bers_bytes vs)), bers_bytes us)"
        using ber_definite_complete [of tag l "bers_bytes vs" "bers_bytes us"] t by (simp add: Cons Definite)
      show ?thesis
      proof (cases "l = der_length (length (bers_bytes vs)) \<and> \<not> is_string_type tag")
        case l: True
        have vs: "list_all (ber_ok 0 (Suc depth)) vs" "Suc depth \<le> kMaxDepth"
          using t l by (auto simp: Definite child_string_def)
        have r: "cbs_find_ber (bers_bytes vs) (Suc depth) = Ok (\<not> list_all ber_is_der vs)"
          using "1.hyps"(1) [OF _ ne e [symmetric] refl _ _ _ _ vs] d l t by (simp add: Definite)
        show ?thesis
        proof (cases "list_all ber_is_der vs")
          case True
          have "cbs_find_ber (bers_bytes us) depth = Ok (\<not> list_all ber_is_der us)"
            using "1.hyps"(2) [OF _ ne e [symmetric] refl _ _ _ _ r _ us] d l t True by (simp add: Definite)
          then show ?thesis using e d ne l t r True by (subst cbs_find_ber.simps) (simp add: Cons Definite)
        next
          case False
          then show ?thesis using e d ne l t r by (subst cbs_find_ber.simps) (simp add: Cons Definite)
        qed
      qed (use e d ne t in \<open>subst cbs_find_ber.simps, auto simp: Cons Definite\<close>)
    next
      case (Indefinite tag vs)
      have "CBS_get_any_ber_asn1_element (bers_bytes ts) =
          (Ok (indefinite_elem tag), bers_bytes vs @ [0, 0] @ bers_bytes us)"
        using ber_indefinite_complete [of tag] t by (simp add: Cons Indefinite)
      then show ?thesis using d ne by (subst cbs_find_ber.simps) (simp add: Cons Indefinite)
    qed
  qed
qed

lemma find_ber_safe: "cbs_find_ber inp depth \<noteq> Abort"
proof (induction inp depth rule: cbs_find_ber.induct)
  case (1 inp depth)
  have ec: "elem_contents e \<noteq> Abort" for e by (simp add: elem_contents_def CBS_skip_eq)
  show ?case
  proof (cases "depth > kMaxDepth \<or> inp = []")
    case True
    then show ?thesis by (subst cbs_find_ber.simps) auto
  next
    case False
    obtain r inp' where r: "CBS_get_any_ber_asn1_element inp = (r, inp')" by fastforce
    show ?thesis
    proof (cases r)
      case (Ok e)
      have in1: "cbs_find_ber inp' depth \<noteq> Abort" if "\<not> elem_ber_found e" "\<not> constructed (elem_tag e)"
        using "1.IH"(3) [OF _ _ r [symmetric] Ok that] False by simp
      have in2: "cbs_find_ber contents (Suc depth) \<noteq> Abort \<and>
          (cbs_find_ber contents (Suc depth) = Ok False \<longrightarrow> cbs_find_ber inp' depth \<noteq> Abort)"
        if "\<not> elem_ber_found e" "constructed (elem_tag e)" "\<not> is_string_type (elem_tag e)" "elem_contents e = Ok contents" for contents
        using "1.IH"(1) [OF _ _ r [symmetric] Ok that] "1.IH"(2) [OF _ _ r [symmetric] Ok that] False by simp
      show ?thesis using False in1 in2 ec [of e]
        by (subst cbs_find_ber.simps) (auto simp: r Ok split: result.splits)
    qed (use False r ber_element_safe [of inp] in \<open>subst cbs_find_ber.simps, auto\<close>)
  qed
qed

section \<open>What a successful conversion has read\<close>

lemma on_in_Ok: "on_in m (inp, out) = (Ok x, (inp', out')) \<longleftrightarrow> m inp = (Ok x, inp') \<and> out' = out"
  by (auto simp: on_in_def split: prod.splits)

lemma on_out_Ok: "on_out m (inp, out) = (Ok x, (inp', out')) \<longleftrightarrow> m out = (Ok x, out') \<and> inp' = inp"
  by (auto simp: on_out_def split: prod.splits)

lemma with_in_Ok: "with_in c m (inp, out) = (Ok x, (inp', out')) \<longleftrightarrow> (\<exists>c'. m (c, out) = (Ok x, (c', out'))) \<and> inp' = inp"
  by (auto simp: with_in_def split: prod.splits)

lemma op_of_Ok: "op_of r s = (Ok x, s') \<longleftrightarrow> r = Ok x \<and> s' = s"
  by (auto simp: op_of_def)

lemma out_contents_inv:
  "ber_out_contents d st tag s = (Ok (d', st'), s') \<Longrightarrow>
     (constructed tag \<longrightarrow> st' = child_string st tag) \<and> (st \<noteq> 0 \<longrightarrow> primitive_tag tag = st)"
  by (auto simp: ber_out_contents_def child_string_def op_then_Ok_iff split: if_splits)

lemma convert_sound:
  "cbs_convert_ber fuel d st eoc depth (inp, s) = (Ok (), (rest, s')) \<Longrightarrow>
     depth \<le> kMaxDepth \<and> \<not> constructed st \<and>
     (\<exists>ts. list_all (ber_ok st depth) ts \<and> inp = bers_bytes ts @ (if eoc then 0 # 0 # rest else []) \<and> (\<not> eoc \<longrightarrow> rest = []))"
proof (induction fuel arbitrary: d st eoc depth inp s rest s')
  case 0
  then show ?case by (simp add: cbs_convert_ber.simps)
next
  case (Suc fuel)
  note step = Suc.prems [unfolded cbs_convert_ber.simps prod.case]
  have g: "\<not> constructed st" "depth \<le> kMaxDepth" using step by (auto split: if_splits)
  show ?case
  proof (cases "inp = [] \<or> eoc \<and> fst (cbs_get_eoc inp)")
    case True
    then show ?thesis using step g eoc_inv [of inp] by (intro conjI g exI [of _ "[]"]) (auto split: if_splits)
  next
    case False
    obtain e inp' s1 inp1 where e: "CBS_get_any_ber_asn1_element inp = (Ok e, inp')"
      and el: "ber_element (cbs_convert_ber fuel) d st depth e (inp', s) = (Ok (), (inp1, s1))"
      and lp: "cbs_convert_ber fuel d st eoc depth (inp1, s1) = (Ok (), (rest, s'))"
      using step False g by (auto simp: op_bind_Ok_iff op_then_Ok_iff on_in_Ok split: if_splits)
    obtain d' st' s2 s3 where o: "ber_out_contents d st (elem_tag e) s = (Ok (d', st'), s2)"
      and c: "ber_contents (cbs_convert_ber fuel) depth e d' st' (inp', s2) = (Ok (), (inp1, s3))"
      using el by (auto simp: ber_element_def op_bind_Ok_iff op_then_Ok_iff on_out_Ok)
    note oi = out_contents_inv [OF o]
    obtain us where us: "list_all (ber_ok st depth) us" "inp1 = bers_bytes us @ (if eoc then 0 # 0 # rest else [])" "\<not> eoc \<longrightarrow> rest = []"
      using Suc.IH [OF lp] by blast
    have "\<exists>t. ber_ok st depth t \<and> inp = ber_bytes t @ inp1"
      using e
    proof (cases rule: ber_element_sound)
      case (definite tag l cs)
      show ?thesis
      proof (cases "constructed tag")
        case con: True
        obtain c' where "cbs_convert_ber fuel d' st' False (Suc depth) (cs, s2) = (Ok (), (c', s3))" "inp1 = inp'"
          using c definite con by (auto simp: ber_contents_def op_bind_Ok_iff op_of_Ok with_in_Ok)
        with Suc.IH obtain ts where "list_all (ber_ok st' (Suc depth)) ts" "cs = bers_bytes ts" "depth < kMaxDepth"
          by (fastforce simp: Suc_le_eq)
        then show ?thesis
          using definite con oi \<open>inp1 = inp'\<close> by (intro exI [of _ "Definite tag l ts"]) auto
      next
        case False
        then have "inp1 = inp'" using c definite by (auto simp: ber_contents_def op_bind_Ok_iff op_of_Ok on_out_Ok)
        then show ?thesis using definite False oi by (intro exI [of _ "Primitive tag l cs"]) auto
      qed
    next
      case (indefinite tag)
      then have "cbs_convert_ber fuel d' st' True (Suc depth) (inp', s2) = (Ok (), (inp1, s3))"
        using c by (simp add: ber_contents_def)
      with Suc.IH obtain ts where "list_all (ber_ok st' (Suc depth)) ts" "inp' = bers_bytes ts @ 0 # 0 # inp1" "depth < kMaxDepth"
        by (fastforce simp: Suc_le_eq)
      then show ?thesis using indefinite oi by (intro exI [of _ "Indefinite tag ts"]) auto
    qed
    then obtain t where "ber_ok st depth t" "inp = ber_bytes t @ inp1" by blast
    then show ?thesis using us g by (intro conjI exI [of _ "t # us"]) auto
  qed
qed

end
