(* ===== verification/Ber_Write.thy ===== *)
theory Ber_Write
  imports Ber_Trees
begin

text \<open>
  What the conversion of ber.c writes to the builder: the contract of the writers of cbb.c,
  carried to operations that read an input as they write.
\<close>

section \<open>Writers that start on a flushed builder\<close>

definition flushed_writer :: "(CBB, unit) op \<Rightarrow> nat \<Rightarrow> byte list \<Rightarrow> nat \<Rightarrow> bool \<Rightarrow> bool \<Rightarrow> bool" where
  "flushed_writer m d x cost ok cl \<longleftrightarrow> cbb_writer (op_then (CBB_flush d) m) d x cost ok cl"

lemma flushed_writer_ret: "flushed_writer (op_ret ()) d [] 0 True True"
  using cbb_writer_flush by (simp add: flushed_writer_def op_then_ret_unit)

lemma flushed_writer_of: "cbb_writer m d x c ok cl \<Longrightarrow> flushed_writer m d x c ok cl"
  using cbb_writer_then [OF cbb_writer_flush, of m d x c ok cl] by (simp add: flushed_writer_def)

lemma flushed_writer_flush: "flushed_writer m d x c ok cl \<Longrightarrow> flushed_writer (op_then m (CBB_flush d)) d x c ok True"
  using cbb_writer_then [OF _ cbb_writer_flush, of "op_then (CBB_flush d) m" d x c ok cl]
  by (simp add: flushed_writer_def op_then_assoc)

lemma cbb_writer_cong:
  assumes "cbb_writer m d x c ok cl" "\<And>s segs. builds s segs \<Longrightarrow> d \<le> length (cbb_children s) \<Longrightarrow> m' s = m s"
  shows "cbb_writer m' d x c ok cl"
  using assms by (auto simp: cbb_writer_def)

text \<open>Between two writers a flush that changes nothing can be left out.\<close>

lemma flushed_writer_then:
  assumes m: "flushed_writer m d x c1 ok1 True" and k: "flushed_writer k d y c2 ok2 cl"
  shows "flushed_writer (op_then m k) d (x @ y) (c1 + c2) (ok1 \<and> ok2) cl"
proof -
  have w: "cbb_writer (op_then (op_then (CBB_flush d) m) (op_then (CBB_flush d) k)) d (x @ y) (c1 + c2) (ok1 \<and> ok2) cl"
    using cbb_writer_then [OF m [unfolded flushed_writer_def] k [unfolded flushed_writer_def]] .
  show ?thesis unfolding flushed_writer_def
  proof (rule cbb_writer_cong [OF w])
    fix s segs assume s: "builds s segs" "d \<le> length (cbb_children s)"
    obtain r s1 where r: "op_then (CBB_flush d) m s = (r, s1)" by fastforce
    note wr = cbb_writer.writes [OF m [unfolded flushed_writer_def] s r]
    show "op_then (CBB_flush d) (op_then m k) s = op_then (op_then (CBB_flush d) m) (op_then (CBB_flush d) k) s"
    proof (cases r)
      case (Ok u)
      obtain segs' where "builds s1 segs'" "length (cbb_children s1) = d"
        using written_OkE [OF wr [unfolded Ok]] by metis
      then have "CBB_flush d s1 = (Ok (), s1)" by (rule flush_flushed)
      then show ?thesis using r Ok by (simp add: op_then_assoc [symmetric]) (simp add: op_then_apply)
    qed (use r in \<open>simp_all add: op_then_assoc [symmetric]\<close>, simp_all add: op_then_apply)
  qed
qed

lemma flushed_writer_element:
  assumes k: "flushed_writer k (Suc d) x c ok cl"
  shows "cbb_writer (op_then (CBB_add_asn1 d tag) k) d (der_element tag x) (length (der_tag tag) + 5 + c)
    (ok \<and> length x \<le> 0xfffffffe) False"
proof (rule cbb_writer_cong [OF cbb_writer_element [OF k [unfolded flushed_writer_def], of tag]])
  fix s segs assume s: "builds s segs" "d \<le> length (cbb_children s)"
  obtain r s1 where r: "CBB_add_asn1 d tag s = (r, s1)" by fastforce
  note o = asn1_opener.opens [OF s r]
  show "op_then (CBB_add_asn1 d tag) k s = op_then (CBB_add_asn1 d tag) (op_then (CBB_flush (Suc d)) k) s"
  proof (cases r)
    case (Ok u)
    then have "CBB_flush (Suc d) s1 = (Ok (), s1)" using o by (intro flush_flushed) (auto simp: opened_def)
    then show ?thesis using r Ok by (simp add: op_then_apply)
  qed (use r in \<open>simp_all add: op_then_apply\<close>)
qed

section \<open>What a conversion writes\<close>

text \<open>An operation on the input and the output, as a writer to the output for one input.\<close>

definition feed :: "(CBS \<times> CBB, unit) op \<Rightarrow> CBS \<Rightarrow> (CBB, unit) op" where
  "feed m inp = (\<lambda>s. case m (inp, s) of (r, (_, s')) \<Rightarrow> (r, s'))"

definition leaves :: "(CBS \<times> CBB, unit) op \<Rightarrow> CBS \<Rightarrow> CBS \<Rightarrow> bool" where
  "leaves m inp rest \<longleftrightarrow> (\<forall>s s' inp'. m (inp, s) = (Ok (), (inp', s')) \<longrightarrow> inp' = rest)"

lemma feed_then: "leaves m inp mid \<Longrightarrow> feed (op_then m k) inp = op_then (feed m inp) (feed k mid)"
  by (auto simp: feed_def leaves_def op_then_def op_bind_def fun_eq_iff split: prod.splits result.splits)

lemma feed_then_out: "feed (op_then m (on_out k)) inp = op_then (feed m inp) k"
  by (auto simp: feed_def on_out_def op_then_def op_bind_def fun_eq_iff split: prod.splits result.splits)

lemma feed_out_bind: "feed (op_bind (on_out m) f) inp = op_bind m (\<lambda>x. feed (f x) inp)"
  by (auto simp: feed_def on_out_def op_bind_def fun_eq_iff split: prod.splits result.splits)

lemma feed_out: "feed (on_out m) inp = m"
  by (auto simp: feed_def on_out_def fun_eq_iff split: prod.splits)

lemma feed_with_in: "feed (with_in c m) inp = feed m c"
  by (auto simp: feed_def with_in_def fun_eq_iff split: prod.splits)

lemma feed_contents: "feed (op_bind (op_of (Ok c)) f) inp = feed (f c) inp"
  by (simp add: feed_def op_of_def op_bind_apply)

lemma leaves_then: "leaves m inp mid \<Longrightarrow> leaves k mid rest \<Longrightarrow> leaves (op_then m k) inp rest"
  by (auto simp: leaves_def op_then_Ok_iff)

lemma leaves_then_out: "leaves m inp rest \<Longrightarrow> leaves (op_then m (on_out k)) inp rest"
  by (auto simp: leaves_def op_then_Ok_iff on_out_Ok)

lemma leaves_out: "leaves (on_out m) inp inp"
  by (auto simp: leaves_def on_out_Ok)

lemma leaves_with_in: "leaves (with_in c m) inp inp"
  by (auto simp: leaves_def with_in_Ok)

lemma leaves_contents: "leaves (f c) inp rest \<Longrightarrow> leaves (op_bind (op_of (Ok c)) f) inp rest"
  by (simp add: leaves_def op_of_def op_bind_apply)

lemma leaves_out_bind: "(\<And>x. leaves (f x) inp rest) \<Longrightarrow> leaves (op_bind (on_out m) f) inp rest"
  by (auto simp: leaves_def op_bind_Ok_iff on_out_Ok)

text \<open>The loop on a first element and what follows it.\<close>

lemma convert_step:
  assumes "\<not> constructed st" "depth \<le> kMaxDepth" "CBS_get_any_ber_asn1_element inp = (Ok e, inp')"
    "\<not> (eoc \<and> fst (cbs_get_eoc inp))"
  shows "cbs_convert_ber (Suc fuel) d st eoc depth (inp, s) =
      op_then (ber_element (cbs_convert_ber fuel) d st depth e) (cbs_convert_ber fuel d st eoc depth) (inp', s)"
proof -
  have "inp \<noteq> []" using ber_element_shorter [OF assms(3)] by auto
  then show ?thesis using assms by (auto simp: cbs_convert_ber.simps op_bind_apply on_in_def)
qed

lemma primitive_tag_id: "\<not> constructed tag \<Longrightarrow> primitive_tag tag = tag"
proof (rule bit_word_eqI)
  fix n assume "\<not> constructed tag" "n < LENGTH(32)"
  then have "\<not> bit (tag AND CBS_ASN1_CONSTRUCTED) n" by simp
  then show "bit (primitive_tag tag) n \<longleftrightarrow> bit tag n" using \<open>n < LENGTH(32)\<close> by (auto simp: bit_simps)
qed

lemma primitive_tag_primitive: "\<not> constructed (primitive_tag tag)"
  by (simp add: and.assoc)

lemma child_string_primitive: "\<not> constructed st \<Longrightarrow> \<not> constructed (child_string st tag)"
  using primitive_tag_primitive [of tag] by (simp only: child_string_def split: if_split) simp

lemma op_bind_then_ret: "op_bind (op_then m (op_ret x)) f = op_then m (f x)"
  by (auto simp: op_bind_def op_then_def fun_eq_iff split: prod.splits result.splits)

lemma op_bind_ret: "op_bind (op_ret x) f = f x"
  by (simp add: op_bind_def)

definition ber_piece :: "CBS_ASN1_TAG \<Rightarrow> ber \<Rightarrow> item" where
  "ber_piece st t = (if st \<noteq> 0 then Raw (ber_string t) else ber_item t)"

lemma ber_items_Cons [simp]: "ber_items st (t # ts) = ber_piece st t # ber_items st ts"
  and ber_items_Nil [simp]: "ber_items st [] = []"
  by (simp_all add: ber_items_def ber_piece_def)

abbreviation writes_items :: "(CBB, unit) op \<Rightarrow> nat \<Rightarrow> item list \<Rightarrow> bool \<Rightarrow> bool" where
  "writes_items m d is cl \<equiv> flushed_writer m d (items_bytes is) (sum_list (map item_cost is)) (list_all item_fits is) cl"

text \<open>From the contents of an element to the element, as a piece or on its own.\<close>

lemma element_writes:
  assumes b: "\<And>d' st'. (constructed tag \<Longrightarrow> st' = child_string st tag) \<Longrightarrow> writes_items (feed (ber_contents conv depth e d' st') inp) d' its cl"
    and e: "elem_tag e = tag" "st \<noteq> 0 \<longrightarrow> primitive_tag tag = st"
    and piece: "st \<noteq> 0 \<Longrightarrow> items_bytes its = ber_string t \<and> sum_list (map item_cost its) = length (ber_string t) \<and> list_all item_fits its"
      "st = 0 \<Longrightarrow> ber_item t = Element (if constructed tag \<and> is_string_type tag then primitive_tag tag else tag) its"
  shows "writes_items (feed (ber_element conv d st depth e) inp) d [ber_piece st t] True"
proof (cases "st = 0")
  case False
  have "feed (ber_element conv d st depth e) inp = op_then (feed (ber_contents conv depth e d st) inp) (CBB_flush d)"
    unfolding ber_element_def feed_out_bind using False e
    by (simp add: ber_out_contents_def feed_then_out op_bind_ret)
  moreover have "writes_items (feed (ber_contents conv depth e d st) inp) d its cl"
    using False by (intro b) (simp add: child_string_def)
  ultimately show ?thesis using flushed_writer_flush piece(1) False by (simp add: ber_piece_def)
next
  case True
  let ?t = "if constructed tag \<and> is_string_type tag then primitive_tag tag else tag"
  let ?st = "if constructed tag \<and> is_string_type tag then primitive_tag tag else 0"
  have f: "feed (ber_element conv d st depth e) inp =
      op_then (op_then (CBB_add_asn1 d ?t) (feed (ber_contents conv depth e (Suc d) ?st) inp)) (CBB_flush d)"
    unfolding ber_element_def feed_out_bind using True e(1)
    by (simp add: ber_out_contents_def op_bind_then_ret feed_then_out op_then_assoc)
  have "writes_items (feed (ber_contents conv depth e (Suc d) ?st) inp) (Suc d) its cl"
    using True by (intro b) (simp add: child_string_def)
  from flushed_writer_flush [OF flushed_writer_of [OF flushed_writer_element [OF this, of ?t]]]
  show ?thesis unfolding f using True piece(2) by (simp add: ber_piece_def add.assoc)
qed

lemma raw_items: "items_bytes (map (\<lambda>t. Raw (f t)) ts) = concat (map f ts)"
    "sum_list (map item_cost (map (\<lambda>t. Raw (f t)) ts)) = length (concat (map f ts))"
    "list_all item_fits (map (\<lambda>t. Raw (f t)) ts)"
  by (induction ts) simp_all

lemma child_items:
  assumes "asn1_tag_ok tag" "constructed tag"
  shows "st \<noteq> 0 \<Longrightarrow> items_bytes (ber_items (child_string st tag) ts) = concat (map ber_string ts) \<and>
      sum_list (map item_cost (ber_items (child_string st tag) ts)) = length (concat (map ber_string ts)) \<and>
      list_all item_fits (ber_items (child_string st tag) ts)"
    "st = 0 \<Longrightarrow> ber_items (child_string st tag) ts =
      (if is_string_type tag then map (\<lambda>t. Raw (ber_string t)) ts else map ber_item ts)"
  using assms by (simp_all add: ber_items_def child_string_def raw_items asn1_tag_ok_def del: map_map)

lemma feed_ext: "(\<And>s. m (inp, s) = m' (inp', s)) \<Longrightarrow> feed m inp = feed m' inp'"
  by (simp add: feed_def)

lemma leaves_ext: "(\<And>s. m (inp, s) = m' (inp', s)) \<Longrightarrow> leaves m inp rest = leaves m' inp' rest"
  by (simp add: leaves_def)

lemma der_tag_pos: "1 \<le> length (der_tag tag)"
  by (simp add: Suc_le_eq)

lemma length_ber_bytes: "ber_ok st depth t \<Longrightarrow> 2 \<le> length (ber_bytes t)"
proof (cases t)
  case (Primitive tag l c)
  then show "ber_ok st depth t \<Longrightarrow> ?thesis" using der_tag_pos [of tag] ber_length_less [of l "length c"] by simp
next
  case (Definite tag l ts)
  then show "ber_ok st depth t \<Longrightarrow> ?thesis" using der_tag_pos [of tag] ber_length_less [of l "length (bers_bytes ts)"] by simp
qed simp

lemma convert_writes:
  assumes "length inp < fuel" "depth \<le> kMaxDepth" "\<not> constructed st" "list_all (ber_ok st depth) ts"
    "inp = bers_bytes ts @ (if eoc then 0 # 0 # rest else [])" "\<not> eoc \<longrightarrow> rest = []"
  shows "writes_items (feed (cbs_convert_ber fuel d st eoc depth) inp) d (ber_items st ts) True \<and>
    leaves (cbs_convert_ber fuel d st eoc depth) inp rest"
  using assms
proof (induction fuel arbitrary: d st eoc depth inp ts rest)
  case (Suc fuel)
  let ?conv = "cbs_convert_ber fuel"
  show ?case
  proof (cases ts)
    case Nil
    have r: "cbs_convert_ber (Suc fuel) d st eoc depth (inp, s) = (Ok (), (rest, s))" for s
      using Suc.prems Nil by (auto simp: cbs_convert_ber.simps eoc_found)
    then have "feed (cbs_convert_ber (Suc fuel) d st eoc depth) inp = op_ret ()" by (simp add: feed_def fun_eq_iff)
    with flushed_writer_ret [of d] have "writes_items (feed (cbs_convert_ber (Suc fuel) d st eoc depth) inp) d (ber_items st ts) True"
      by (simp only: Nil ber_items_Nil list.map concat.simps sum_list.Nil list.pred_inject)
    then show ?thesis using r by (simp add: leaves_def)
  next
    case (Cons t us)
    define inp' where "inp' = bers_bytes us @ (if eoc then 0 # 0 # rest else [])"
    have t: "ber_ok st depth t" and us: "list_all (ber_ok st depth) us" and inp: "inp = ber_bytes t @ inp'"
      using Suc.prems by (simp_all add: Cons inp'_def)
    have len: "length (ber_bytes t) + length inp' \<le> fuel" "length inp' < fuel"
      using Suc.prems(1) length_ber_bytes [OF t] by (simp_all add: inp)
    have loop: "writes_items (feed (?conv d st eoc depth) inp') d (ber_items st us) True \<and> leaves (?conv d st eoc depth) inp' rest"
      using Suc.IH [OF len(2) Suc.prems(2,3) us inp'_def Suc.prems(6)] .
    have "\<exists>e inp1. CBS_get_any_ber_asn1_element inp = (Ok e, inp1) \<and> \<not> fst (cbs_get_eoc inp) \<and>
      writes_items (feed (ber_element ?conv d st depth e) inp1) d [ber_piece st t] True \<and> leaves (ber_element ?conv d st depth e) inp1 inp'"
    proof (cases t)
      case (Primitive tag l c)
      let ?e = "definite_elem tag l c"
      have e: "CBS_get_any_ber_asn1_element inp = (Ok ?e, inp')" "\<not> fst (cbs_get_eoc inp)"
        using t ber_definite_complete [of tag l c inp'] eoc_not_tag [of tag] by (simp_all add: inp Primitive)
      have c: "length c < 2 ^ 64" using t ber_length_less [of l "length c"] by (auto simp: Primitive)
      have "writes_items (feed (ber_contents ?conv depth ?e d' st') inp') d' [Raw c] True" for d' st'
        using flushed_writer_of [OF cbb_writer_bytes [OF c, of d']] t
        by (simp add: ber_contents_def feed_contents feed_out Primitive)
      then have "writes_items (feed (ber_element ?conv d st depth ?e) inp') d [ber_piece st t] True"
        using t by (intro element_writes [where tag = tag and its = "[Raw c]" and cl = True]) (simp_all add: Primitive)
      moreover have "leaves (ber_element ?conv d st depth ?e) inp' inp'"
        unfolding ber_element_def ber_contents_def using t
        by (intro leaves_out_bind) (auto simp: Primitive intro!: leaves_then_out leaves_contents leaves_out)
      ultimately show ?thesis using e by blast
    next
      case (Definite tag l vs)
      let ?e = "definite_elem tag l (bers_bytes vs)"
      have e: "CBS_get_any_ber_asn1_element inp = (Ok ?e, inp')" "\<not> fst (cbs_get_eoc inp)"
        using t ber_definite_complete [of tag l "bers_bytes vs" inp'] eoc_not_tag [of tag] by (simp_all add: inp Definite)
      have sub: "length (bers_bytes vs) < fuel" using len(1) der_tag_pos [of tag] by (simp add: Definite)
      have b: "writes_items (feed (ber_contents ?conv depth ?e d' st') inp') d' (ber_items (child_string st tag) vs) True"
        if "constructed tag \<Longrightarrow> st' = child_string st tag" for d' st'
        using Suc.IH [OF sub, of "Suc depth" st' vs False "[]" d'] t that child_string_primitive [OF Suc.prems(3), of tag]
        by (simp add: ber_contents_def feed_contents feed_with_in Definite)
      have "writes_items (feed (ber_element ?conv d st depth ?e) inp') d [ber_piece st t] True"
        using t by (intro element_writes [OF b, where tag = tag]) (use child_items in \<open>auto simp: Definite\<close>)
      moreover have "leaves (ber_element ?conv d st depth ?e) inp' inp'"
        unfolding ber_element_def ber_contents_def using t
        by (intro leaves_out_bind) (auto simp: Definite intro!: leaves_then_out leaves_contents leaves_with_in)
      ultimately show ?thesis using e by blast
    next
      case (Indefinite tag vs)
      let ?e = "indefinite_elem tag" and ?inp = "bers_bytes vs @ 0 # 0 # inp'"
      have e: "CBS_get_any_ber_asn1_element inp = (Ok ?e, ?inp)" "\<not> fst (cbs_get_eoc inp)"
        using t ber_indefinite_complete [of tag] eoc_not_tag [of tag] by (simp_all add: inp Indefinite)
      have sub: "length ?inp < fuel"
        using len(1) der_tag_pos [of tag] by (simp add: Indefinite)
      have b: "writes_items (feed (ber_contents ?conv depth ?e d' st') ?inp) d' (ber_items (child_string st tag) vs) True \<and>
          leaves (ber_contents ?conv depth ?e d' st') ?inp inp'"
        if "constructed tag \<Longrightarrow> st' = child_string st tag" for d' st'
        using Suc.IH [OF sub, of "Suc depth" st' vs True inp' d'] t that child_string_primitive [OF Suc.prems(3), of tag]
        by (simp add: ber_contents_def Indefinite)
      have "writes_items (feed (ber_element ?conv d st depth ?e) ?inp) d [ber_piece st t] True"
        using t by (intro element_writes [OF conjunct1 [OF b], where tag = tag]) (use child_items in \<open>auto simp: Indefinite\<close>)
      moreover have "leaves (ber_element ?conv d st depth ?e) ?inp inp'"
        unfolding leaves_def
      proof (intro allI impI)
        fix s s' inp2 assume "ber_element ?conv d st depth ?e (?inp, s) = (Ok (), (inp2, s'))"
        then obtain d' st' s1 s2 where o: "ber_out_contents d st tag s = (Ok (d', st'), s1)"
          "ber_contents ?conv depth ?e d' st' (?inp, s1) = (Ok (), (inp2, s2))"
          by (auto simp: ber_element_def op_bind_Ok_iff op_then_Ok_iff on_out_Ok)
        then show "inp2 = inp'" using conjunct2 [OF b] out_contents_inv [OF o(1)] by (auto simp: leaves_def)
      qed
      ultimately show ?thesis using e by blast
    qed
    then obtain e inp1 where e: "CBS_get_any_ber_asn1_element inp = (Ok e, inp1)" "\<not> fst (cbs_get_eoc inp)"
      and el: "writes_items (feed (ber_element ?conv d st depth e) inp1) d [ber_piece st t] True" "leaves (ber_element ?conv d st depth e) inp1 inp'"
      by blast
    have step: "cbs_convert_ber (Suc fuel) d st eoc depth (inp, s) =
        op_then (ber_element ?conv d st depth e) (?conv d st eoc depth) (inp1, s)" for s
      using convert_step [OF Suc.prems(3,2) e(1)] e(2) by simp
    have "writes_items (op_then (feed (ber_element ?conv d st depth e) inp1) (feed (?conv d st eoc depth) inp')) d (ber_items st ts) True"
      using flushed_writer_then [OF el(1) conjunct1 [OF loop]] by (simp add: Cons)
    then show ?thesis
      using leaves_then [OF el(2) conjunct2 [OF loop]] step feed_then [OF el(2), of "?conv d st eoc depth"]
        feed_ext [of "cbs_convert_ber (Suc fuel) d st eoc depth" inp "op_then (ber_element ?conv d st depth e) (?conv d st eoc depth)" inp1]
        leaves_ext [of "cbs_convert_ber (Suc fuel) d st eoc depth" inp "op_then (ber_element ?conv d st depth e) (?conv d st eoc depth)" inp1]
      by simp
  qed
qed simp

section \<open>The conversion never leaves defined behaviour\<close>

lemma flushed_writes:
  assumes m: "flushed_writer m d x c ok cl" and s: "builds s segs" "length (cbb_children s) = d" and run: "m s = (r, s')"
  shows "r \<noteq> Abort \<and> (r = Ok () \<longrightarrow> (\<exists>segs'. builds s' segs' \<and> d \<le> length (cbb_children s')))"
proof -
  have "op_then (CBB_flush d) m s = (r, s')" using run flush_flushed [OF s] by (simp add: op_then_apply)
  from cbb_writer.writes [OF m [unfolded flushed_writer_def] s(1) _ this] s(2) show ?thesis
    by (auto simp: written_def split: result.splits)
qed

lemma flush_builds:
  assumes "builds s segs" "d \<le> length (cbb_children s)" "CBB_flush d s = (r, s')"
  shows "r \<noteq> Abort \<and> (r = Ok () \<longrightarrow> (\<exists>segs'. builds s' segs') \<and> length (cbb_children s') = d)"
  using flush_written [OF assms] assms(2) by (auto split: result.splits)

lemma out_contents_builds:
  assumes "builds s segs" "length (cbb_children s) = d" "\<not> constructed st" "ber_out_contents d st tag s = (r, s')"
  shows "r \<noteq> Abort \<and> (\<forall>d' st'. r = Ok (d', st') \<longrightarrow>
    d \<le> d' \<and> \<not> constructed st' \<and> (\<exists>segs'. builds s' segs') \<and> length (cbb_children s') = d')"
proof (cases "st = 0")
  case False
  then show ?thesis using assms by (auto simp: ber_out_contents_def split: if_splits)
next
  case True
  have o: "opened d (der_tag t) True 1 c s segs r1 s1" if "CBB_add_asn1 d t s = (r1, s1)" "c = length (der_tag t) + 5" for t r1 s1 c
    using asn1_opener.opens [OF assms(1) _ that(1)] assms(2) that(2) by simp
  show ?thesis
    using assms(4) True primitive_tag_primitive [of tag]
    by (auto simp: ber_out_contents_def op_then_apply opened_def dest!: o [OF _ refl] split: if_splits prod.splits result.splits)
qed

lemma convert_safe:
  assumes "length inp < fuel" "builds s segs" "length (cbb_children s) = d" "\<not> constructed st"
  shows "fst (cbs_convert_ber fuel d st eoc depth (inp, s)) \<noteq> Abort"
  using assms
proof (induction fuel arbitrary: d st eoc depth inp s segs)
  case (Suc fuel)
  let ?conv = "cbs_convert_ber fuel"
  show ?case
  proof (cases "depth > kMaxDepth \<or> inp = [] \<or> eoc \<and> fst (cbs_get_eoc inp)")
    case True
    then show ?thesis using Suc.prems by (auto simp: cbs_convert_ber.simps)
  next
    case False
    obtain r inp' where r: "CBS_get_any_ber_asn1_element inp = (r, inp')" by fastforce
    show ?thesis
    proof (cases r)
      case (Ok e)
      note e = r [unfolded Ok]
      have sh: "length inp' < fuel" using ber_element_shorter [OF e] Suc.prems(1) by simp
      have step: "cbs_convert_ber (Suc fuel) d st eoc depth (inp, s) =
          op_then (ber_element ?conv d st depth e) (?conv d st eoc depth) (inp', s)"
        using convert_step [OF Suc.prems(4) _ e] False by auto
      obtain r1 s1 where o: "ber_out_contents d st (elem_tag e) s = (r1, s1)" by fastforce
      note oc = out_contents_builds [OF Suc.prems(2-4) o]
      show ?thesis
      proof (cases r1)
        case r1: (Ok p)
        obtain d' st' where p: "p = (d', st')" by fastforce
        obtain segs1 where b1: "builds s1 segs1" "length (cbb_children s1) = d'" "d \<le> d'" "\<not> constructed st'"
          using oc r1 p by auto
        obtain r2 inp2 s2 where c: "ber_contents ?conv depth e d' st' (inp', s1) = (r2, (inp2, s2))" by (metis surj_pair)
        have body: "r2 \<noteq> Abort \<and> (r2 = Ok () \<longrightarrow> (\<exists>segs2. builds s2 segs2 \<and> d' \<le> length (cbb_children s2)) \<and> length inp2 < fuel)"
        proof -
          have rec: "r3 \<noteq> Abort \<and> (r3 = Ok () \<longrightarrow> (\<exists>segs2. builds s3 segs2 \<and> d' \<le> length (cbb_children s3)) \<and> length inp3 \<le> length inp1)"
            if run: "?conv d' st' eoc' (Suc depth) (inp1, s1) = (r3, (inp3, s3))" and l: "length inp1 < fuel" for eoc' inp1 r3 inp3 s3
          proof (intro conjI impI)
            show "r3 \<noteq> Abort" using Suc.IH [OF l b1(1,2,4), of eoc' "Suc depth"] run by simp
            assume ok: "r3 = Ok ()"
            note cs = convert_sound [OF run [unfolded ok]]
            then obtain ts where ts: "list_all (ber_ok st' (Suc depth)) ts" "inp1 = bers_bytes ts @ (if eoc' then 0 # 0 # inp3 else [])"
              "\<not> eoc' \<longrightarrow> inp3 = []" by blast
            then show "length inp3 \<le> length inp1" by (cases eoc') simp_all
            have "writes_items (feed (?conv d' st' eoc' (Suc depth)) inp1) d' (ber_items st' ts) True"
              using convert_writes [OF l _ b1(4) ts] cs by blast
            from flushed_writes [OF this b1(1,2), of r3 s3] show "\<exists>segs2. builds s3 segs2 \<and> d' \<le> length (cbb_children s3)"
              using run ok by (simp add: feed_def)
          qed
          from e show ?thesis
          proof (cases rule: ber_element_sound)
            case (definite tag l cs)
            have cl: "length cs < fuel" using definite Suc.prems(1) der_tag_pos [of tag] by simp
            show ?thesis
            proof (cases "constructed tag")
              case True
              obtain r3 inp3 s3 where "?conv d' st' False (Suc depth) (cs, s1) = (r3, (inp3, s3))" by (metis surj_pair)
              then show ?thesis using rec [OF _ cl] c sh definite True
                by (auto simp: ber_contents_def op_bind_apply op_of_def with_in_def)
            next
              case False
              have "length cs < 2 ^ 64" using ber_length_less definite by fastforce
              from cbb_writer.writes [OF cbb_writer_bytes [OF this, of d'] b1(1)] b1(2)
              show ?thesis using c sh definite False
                by (auto simp: ber_contents_def op_bind_apply op_of_def on_out_def written_def split: prod.splits result.splits)
            qed
          next
            case (indefinite tag)
            then have run: "?conv d' st' True (Suc depth) (inp', s1) = (r2, (inp2, s2))" using c by (simp add: ber_contents_def)
            show ?thesis using rec [OF run sh] sh by auto
          qed
        qed
        show ?thesis
        proof (cases r2)
          case r2: (Ok u)
          obtain segs2 where b2: "builds s2 segs2" "d \<le> length (cbb_children s2)" "length inp2 < fuel"
            using body r2 b1(3) by auto
          obtain r4 s4 where fl: "CBB_flush d s2 = (r4, s4)" by fastforce
          note f = flush_builds [OF b2(1,2) fl]
          have el: "ber_element ?conv d st depth e (inp', s) = (r4, (inp2, s4))"
            using o c fl r1 r2 p by (simp add: ber_element_def op_bind_apply op_then_apply on_out_def)
          show ?thesis
          proof (cases r4)
            case r4: (Ok v)
            then obtain segs4 where "builds s4 segs4" "length (cbb_children s4) = d" using f by auto
            from Suc.IH [OF b2(3) this Suc.prems(4)] show ?thesis unfolding step by (simp add: op_then_apply el r4)
          qed (use f in \<open>simp_all add: step op_then_apply el\<close>)
        qed (use body o c r1 p in \<open>simp_all add: step op_then_apply ber_element_def op_bind_apply on_out_def\<close>)
      qed (use oc o in \<open>simp_all add: step op_then_apply ber_element_def op_bind_apply on_out_def\<close>)
    qed (use False r Suc.prems(4) ber_element_safe [of inp] in
        \<open>auto simp: cbs_convert_ber.simps op_bind_apply on_in_def\<close>)
  qed
qed simp

end
