(* ===== verification/Ber_Der.thy ===== *)
theory Ber_Der
  imports Ber_Write
begin

text \<open>
  The properties of ber.c: the conversion of whole inputs, what it does to its own output, and
  implicitly tagged strings.
\<close>

section \<open>The whole conversion\<close>

lemma elem_read_first:
  assumes "ber_ok 0 0 t" "ber_is_der t"
  shows "\<exists>tag n. CBS_get_any_asn1_element (ber_bytes t @ rest) = (Ok (ber_bytes t, tag, n), rest)"
proof -
  obtain tag c where "ber_bytes t = der_element tag c" "asn1_tag_ok tag" "length c < 2 ^ 32"
    using assms ber_length_less by (cases t) (fastforce simp: der_element_def der_header_def)+
  then show ?thesis using CBS_get_any_asn1_element_complete by metis
qed

lemma convert_run:
  assumes a: "alloc_ok mem" "length inp < 2 ^ 64" and cbb: "CBB_init mem (length inp) = Ok cbb"
  defines "res \<equiv> op_then (cbs_convert_ber (Suc (length inp)) 0 0 False 0) (on_out (CBB_finish 0 True True)) (inp, cbb)"
  obtains (converted) ts cbb' inp' buf where "list_all (ber_ok 0 0) ts" "inp = bers_bytes ts" "inp' = []"
      "res = (Ok (Some buf, Some (length (items_bytes (map ber_item ts)))), (inp', cbb'))"
      "take (length (items_bytes (map ber_item ts))) buf = items_bytes (map ber_item ts)"
  | (failed) inp' cbb' where "res = (Err, (inp', cbb'))"
      "\<And>ts. inp = bers_bytes ts \<Longrightarrow> list_all (ber_ok 0 0) ts \<Longrightarrow>
         \<not> (list_all item_fits (map ber_item ts) \<and> memory_for mem (length inp) (sum_list (map item_cost (map ber_item ts))))"
proof -
  let ?m = "cbs_convert_ber (Suc (length inp)) 0 0 False 0"
  note i = CBB_init_builds [OF a cbb]
  have fl: "CBB_flush 0 cbb = (Ok (), cbb)" using i by (intro flush_flushed [of _ "[[]]"]) simp_all
  obtain r inp' cbb' where m: "?m (inp, cbb) = (r, (inp', cbb'))" by (metis surj_pair)
  have "fst (?m (inp, cbb)) \<noteq> Abort" using i by (intro convert_safe [of _ _ _ "[[]]"]) simp_all
  then have safe: "r \<noteq> Abort" using m by simp
  have forest: "case build mem (length inp) (op_then (CBB_flush 0) (feed ?m inp)) of
       Ok out \<Rightarrow> list_all item_fits (map ber_item ts) \<and> holds_bytes out (items_bytes (map ber_item ts))
     | Err \<Rightarrow> \<not> (list_all item_fits (map ber_item ts) \<and> memory_for mem (length inp) (sum_list (map item_cost (map ber_item ts))))
     | Abort \<Rightarrow> False" if "inp = bers_bytes ts" "list_all (ber_ok 0 0) ts" for ts
    using convert_writes [of inp "Suc (length inp)" 0 0 ts False "[]" 0] that
    by (intro build_result [OF a]) (simp add: flushed_writer_def ber_items_def kMaxDepth_def)
  have b: "build mem (length inp) (op_then (CBB_flush 0) (feed ?m inp)) =
      (case r of Ok _ \<Rightarrow> fst (CBB_finish 0 True True cbb') | Err \<Rightarrow> Err | Abort \<Rightarrow> Abort)"
    by (simp add: build_def cbb op_then_apply fl feed_def m split: result.splits)
  have none: "\<not> (list_all item_fits (map ber_item ts) \<and> memory_for mem (length inp) (sum_list (map item_cost (map ber_item ts))))"
    if "build mem (length inp) (op_then (CBB_flush 0) (feed ?m inp)) = Err" "inp = bers_bytes ts" "list_all (ber_ok 0 0) ts" for ts
    using forest [OF that(2,3)] unfolding that(1) by simp
  show ?thesis
  proof (cases r)
    case (Ok u)
    then obtain ts where ts: "list_all (ber_ok 0 0) ts" "inp = bers_bytes ts" "inp' = []"
      using convert_sound [of _ 0 0 False 0 inp cbb inp' cbb'] m by force
    obtain f cbb'' where f: "CBB_finish 0 True True cbb' = (f, cbb'')" by fastforce
    have res: "res = (f, (inp', cbb''))" using m Ok f by (simp add: res_def op_then_apply on_out_def)
    show ?thesis
    proof (cases f)
      case fo: (Ok out)
      then have "holds_bytes out (items_bytes (map ber_item ts))" using forest [OF ts(2,1)] b Ok f by simp
      then obtain buf where "out = (Some buf, Some (length (items_bytes (map ber_item ts))))"
        "take (length (items_bytes (map ber_item ts))) buf = items_bytes (map ber_item ts)"
        by (auto simp: holds_bytes_def split: prod.splits option.splits)
      then show ?thesis using converted [OF ts] res fo by blast
    next
      case fe: Err
      show ?thesis by (rule failed [OF res [unfolded fe]], rule none) (use b Ok f fe in auto)
    next
      case Abort
      then show ?thesis using forest [OF ts(2,1)] b Ok f by simp
    qed
  next
    case Err
    have "res = (Err, (inp', cbb'))" using m Err by (simp add: res_def op_then_apply)
    then show ?thesis by (rule failed, intro none) (use b Err in auto)
  qed (use safe in simp)
qed

text \<open>
  C2. \<open>CBS_asn1_ber_to_der\<close> accepts exactly the sequences of BER elements, in any length form,
  nested at most 128 deep, with strings of the twelve types possibly in pieces of the same type.
  If everything is DER already it gives the first element as it stands and leaves the rest;
  otherwise it takes the whole input and gives the DER encoding, every length in its shortest
  form, every string in one piece. It fails only on other inputs, or when a length does not fit
  or memory runs out, and never leaves defined behaviour.
\<close>

theorem ber_to_der:
  assumes "alloc_ok mem" "length inp < 2 ^ 64"
  shows "case CBS_asn1_ber_to_der mem inp of
     (Ok (out, None), rest) \<Rightarrow>
       (\<exists>t ts. list_all (ber_ok 0 0) (t # ts) \<and> list_all ber_is_der (t # ts) \<and>
          out = ber_bytes t \<and> rest = bers_bytes ts \<and> inp = out @ rest)
   | (Ok (out, Some data), rest) \<Rightarrow>
       (\<exists>ts. list_all (ber_ok 0 0) ts \<and> \<not> list_all ber_is_der ts \<and>
          inp = bers_bytes ts \<and> out = items_bytes (map ber_item ts) \<and> rest = [] \<and> out = take (length out) data)
   | (Err, _) \<Rightarrow>
       (\<forall>ts. ts \<noteq> [] \<and> list_all (ber_ok 0 0) ts \<and> inp = bers_bytes ts \<longrightarrow> \<not> list_all ber_is_der ts \<and>
          \<not> (list_all item_fits (map ber_item ts) \<and> memory_for mem (length inp) (sum_list (map item_cost (map ber_item ts)))))
   | (Abort, _) \<Rightarrow> False"
proof (cases "cbs_find_ber inp 0")
  case (Ok needed)
  have found: "needed \<longleftrightarrow> \<not> list_all ber_is_der ts" if "list_all (ber_ok 0 0) ts" "inp = bers_bytes ts" for ts
    using find_ber_complete [OF that(1)] that(2) Ok by simp
  show ?thesis
  proof (cases needed)
    case False
    obtain ts where ts: "list_all (ber_ok 0 0) ts" "list_all ber_is_der ts" "inp = bers_bytes ts"
      using find_ber_sound [of inp 0] Ok False by auto
    show ?thesis
    proof (cases ts)
      case Nil
      have "fst (CBS_get_any_asn1_element []) = Err"
        by (simp add: CBS_get_any_asn1_element_def cbs_get_any_asn1_element_def parse_asn1_tag_def op_bind_apply op_run_apply CBS_get_u8_eq)
      then obtain e where "CBS_get_any_asn1_element [] = (Err, e)" by (cases "CBS_get_any_asn1_element []") auto
      moreover have "us = []" if "bers_bytes us = []" for us using that by (cases us; cases "hd us") auto
      ultimately show ?thesis using Ok False ts(3) Nil by (auto simp: CBS_asn1_ber_to_der_def op_bind_apply)
    next
      case (Cons t us)
      obtain tag n where "CBS_get_any_asn1_element inp = (Ok (ber_bytes t, tag, n), bers_bytes us)"
        using elem_read_first [of t "bers_bytes us"] ts Cons by auto
      then have "CBS_asn1_ber_to_der mem inp = (Ok (ber_bytes t, None), bers_bytes us)"
        using Ok False by (simp add: CBS_asn1_ber_to_der_def op_bind_apply)
      then show ?thesis using ts Cons by (auto intro!: exI [of _ t] exI [of _ us])
    qed
  next
    case True
    show ?thesis
    proof (cases "CBB_init mem (length inp)")
      case cbb: (Ok cbb)
      show ?thesis
      proof (rule convert_run [OF assms cbb])
        fix ts cbb' inp' buf
        assume "list_all (ber_ok 0 0) ts" "inp = bers_bytes ts" "inp' = []"
          "op_then (cbs_convert_ber (Suc (length inp)) 0 0 False 0) (on_out (CBB_finish 0 True True)) (inp, cbb) =
            (Ok (Some buf, Some (length (items_bytes (map ber_item ts)))), (inp', cbb'))"
          "take (length (items_bytes (map ber_item ts))) buf = items_bytes (map ber_item ts)"
        then show ?thesis using Ok True cbb found
          by (simp add: CBS_asn1_ber_to_der_def) (auto intro!: exI [of _ ts])
      next
        fix inp' cbb'
        assume r: "op_then (cbs_convert_ber (Suc (length inp)) 0 0 False 0) (on_out (CBB_finish 0 True True)) (inp, cbb) = (Err, (inp', cbb'))"
          and f: "\<And>ts. inp = bers_bytes ts \<Longrightarrow> list_all (ber_ok 0 0) ts \<Longrightarrow>
            \<not> (list_all item_fits (map ber_item ts) \<and> memory_for mem (length inp) (sum_list (map item_cost (map ber_item ts))))"
        have "CBS_asn1_ber_to_der mem inp = (Err, inp')" using Ok True cbb r by (simp add: CBS_asn1_ber_to_der_def)
        then show ?thesis using f found True by auto
      qed
    next
      case Err
      then have "mem (length inp) = None" by (auto simp: CBB_init_def Let_def split: if_splits)
      then show ?thesis using Ok True Err found by (auto simp: CBS_asn1_ber_to_der_def memory_for_def)
    qed (simp add: CBB_init_def Let_def split: if_splits)
  qed
next
  case Err
  then show ?thesis using find_ber_complete [of 0] by (fastforce simp: CBS_asn1_ber_to_der_def)
qed (use find_ber_safe in blast)

definition ber_example :: "ber list" where
  "ber_example = [Indefinite 0x20000004 [Primitive 4 [2] [7, 8], Primitive 4 [0x81, 1] [9]]]"

lemma ber_example_ok: "list_all (ber_ok 0 0) ber_example" "\<not> list_all ber_is_der ber_example"
    "bers_bytes ber_example = [0x24, 0x80, 4, 2, 7, 8, 4, 0x81, 1, 9, 0, 0]"
    "items_bytes (map ber_item ber_example) = [4, 3, 7, 8, 9]"
    "list_all item_fits (map ber_item ber_example)"
proof -
  have "ber_length [0x81, 1] 1" unfolding ber_length_def by (intro disjI2 exI [of _ 1]) simp
  then show "list_all (ber_ok 0 0) ber_example"
    by (simp add: ber_example_def asn1_tag_ok_def CBS_ASN1_CONSTRUCTED_def kMaxDepth_def child_string_def is_string_type_def)
      (simp add: ber_length_def)
qed (simp_all add: ber_example_def CBS_ASN1_CONSTRUCTED_def is_string_type_def der_tag_def CBS_ASN1_TAG_NUMBER_MASK_def
      der_element_def der_header_def der_length_def)

theorem ber_to_der_witness:
  "\<exists>out data. CBS_asn1_ber_to_der (\<lambda>n. Some (replicate n 0)) [0x24, 0x80, 4, 2, 7, 8, 4, 0x81, 1, 9, 0, 0] = (Ok (out, Some data), [])"
proof -
  let ?mem = "\<lambda>n. Some (replicate n 0) :: byte list option"
  have a: "alloc_ok ?mem" "length (bers_bytes ber_example) < 2 ^ 64" by (simp_all add: alloc_ok_def ber_example_ok(3))
  have m: "memory_for ?mem (length (bers_bytes ber_example)) (sum_list (map item_cost (map ber_item ber_example)))"
    by (simp add: memory_for_def ber_example_def der_tag_def CBS_ASN1_TAG_NUMBER_MASK_def is_string_type_def CBS_ASN1_CONSTRUCTED_def)
  obtain r rest where r: "CBS_asn1_ber_to_der ?mem (bers_bytes ber_example) = (r, rest)" by fastforce
  note th = ber_to_der [OF a, unfolded r prod.case]
  show ?thesis
  proof (cases r)
    case (Ok p)
    obtain out data where p: "p = (out, data)" by fastforce
    show ?thesis
    proof (cases data)
      case None
      from th obtain t us where "list_all (ber_ok 0 0) (t # us) \<and> list_all ber_is_der (t # us) \<and> out = ber_bytes t \<and>
          rest = bers_bytes us \<and> bers_bytes ber_example = out @ rest"
        unfolding Ok p None result.case prod.case option.case by (elim exE)
      then have ts: "list_all (ber_ok 0 0) (t # us)" "list_all ber_is_der (t # us)" "bers_bytes ber_example = bers_bytes (t # us)"
        by simp_all
      then show ?thesis using find_ber_complete [OF ts(1)] find_ber_complete [OF ber_example_ok(1)] ber_example_ok(2) by simp
    next
      case (Some d)
      then have "rest = []" using th unfolding Ok p by auto
      then show ?thesis using r unfolding Ok p Some ber_example_ok(3) by blast
    qed
  next
    case Err
    have "ber_example \<noteq> []" by (simp add: ber_example_def)
    then show ?thesis using th m ber_example_ok(1,2,5) unfolding Err result.case by blast
  qed (use th in simp)
qed

section \<open>Converting what has been converted\<close>

text \<open>The tree of the converted element.\<close>

fun ber_normal :: "ber \<Rightarrow> ber" where
  "ber_normal (Primitive tag l c) = Primitive tag (der_length (length c)) c"
| "ber_normal (Definite tag l ts) =
     (if is_string_type tag then
        (let c = concat (map ber_string ts) in Primitive (primitive_tag tag) (der_length (length c)) c)
      else (let us = map ber_normal ts in Definite tag (der_length (length (bers_bytes us))) us))"
| "ber_normal (Indefinite tag ts) =
     (if is_string_type tag then
        (let c = concat (map ber_string ts) in Primitive (primitive_tag tag) (der_length (length c)) c)
      else (let us = map ber_normal ts in Definite tag (der_length (length (bers_bytes us))) us))"

definition normalises :: "nat \<Rightarrow> ber \<Rightarrow> bool" where
  "normalises depth t \<longleftrightarrow> ber_bytes (ber_normal t) = item_bytes (ber_item t) \<and> ber_ok 0 depth (ber_normal t) \<and> ber_is_der (ber_normal t)"

lemma normalises_string:
  assumes "asn1_tag_ok tag" "length (concat (map ber_string ts)) < 2 ^ 32"
  shows "let c = concat (map ber_string ts) in
    ber_bytes (Primitive (primitive_tag tag) (der_length (length c)) c) = der_element (primitive_tag tag) c \<and>
    ber_ok 0 depth (Primitive (primitive_tag tag) (der_length (length c)) c)"
  using assms ber_length_der primitive_tag_primitive [of tag]
  by (simp add: der_element_def der_header_def Let_def) (simp add: asn1_tag_ok_def)

lemma normalises_list:
  "list_all (normalises depth) ts \<Longrightarrow> bers_bytes (map ber_normal ts) = items_bytes (map ber_item ts) \<and>
     list_all (ber_ok 0 depth) (map ber_normal ts) \<and> list_all ber_is_der (map ber_normal ts)"
  by (induction ts) (auto simp: normalises_def)

lemma ber_normalises: "ber_ok 0 depth t \<Longrightarrow> item_fits (ber_item t) \<Longrightarrow> normalises depth t"
proof (induction t arbitrary: depth)
  case (Primitive tag l c)
  then show ?case using ber_length_less [of l "length c"] ber_length_der [of "length c"]
    by (simp add: normalises_def der_element_def der_header_def)
next
  case (Definite tag l ts)
  show ?case
  proof (cases "is_string_type tag")
    case True
    then have "length (concat (map ber_string ts)) < 2 ^ 32" using Definite.prems(2) raw_items(1) [of ber_string ts] by simp
    then show ?thesis using normalises_string [of tag ts depth] Definite.prems True raw_items(1) [of ber_string ts]
      by (simp add: normalises_def Let_def)
  next
    case False
    have "list_all (normalises (Suc depth)) ts"
      using Definite False by (auto simp: list_all_iff child_string_def)
    from normalises_list [OF this] have ts: "bers_bytes (map ber_normal ts) = items_bytes (map ber_item ts)"
      "list_all (ber_ok 0 (Suc depth)) (map ber_normal ts)" "list_all ber_is_der (map ber_normal ts)" by blast+
    have "length (items_bytes (map ber_item ts)) < 2 ^ 32" using Definite.prems(2) False by simp
    then show ?thesis using ts Definite.prems(1) False ber_length_der
      by (simp add: normalises_def Let_def der_element_def der_header_def child_string_def del: map_map)
  qed
next
  case (Indefinite tag ts)
  show ?case
  proof (cases "is_string_type tag")
    case True
    then have "length (concat (map ber_string ts)) < 2 ^ 32" using Indefinite.prems(2) raw_items(1) [of ber_string ts] by simp
    then show ?thesis using normalises_string [of tag ts depth] Indefinite.prems True raw_items(1) [of ber_string ts]
      by (simp add: normalises_def Let_def)
  next
    case False
    have "list_all (normalises (Suc depth)) ts"
      using Indefinite False by (auto simp: list_all_iff child_string_def)
    from normalises_list [OF this] have ts: "bers_bytes (map ber_normal ts) = items_bytes (map ber_item ts)"
      "list_all (ber_ok 0 (Suc depth)) (map ber_normal ts)" "list_all ber_is_der (map ber_normal ts)" by blast+
    have "length (items_bytes (map ber_item ts)) < 2 ^ 32" using Indefinite.prems(2) False by simp
    then show ?thesis using ts Indefinite.prems(1) False ber_length_der
      by (simp add: normalises_def Let_def der_element_def der_header_def child_string_def del: map_map)
  qed
qed

text \<open>
  The output of a conversion is DER: \<open>CBS_asn1_ber_to_der\<close> on the DER encoding of any BER
  elements needs no buffer and gives the first of them as it stands.
\<close>

theorem ber_to_der_idempotent:
  assumes "list_all (ber_ok 0 0) (t # ts)" "list_all item_fits (map ber_item (t # ts))"
  shows "CBS_asn1_ber_to_der mem (items_bytes (map ber_item (t # ts))) =
    (Ok (item_bytes (ber_item t), None), items_bytes (map ber_item ts))"
proof -
  have "list_all (normalises 0) (t # ts)" using assms ber_normalises by (simp add: list_all_iff)
  then have n: "items_bytes (map ber_item (t # ts)) = bers_bytes (map ber_normal (t # ts))"
      "list_all (ber_ok 0 0) (map ber_normal (t # ts))" "list_all ber_is_der (map ber_normal (t # ts))"
      "item_bytes (ber_item t) = ber_bytes (ber_normal t)" "items_bytes (map ber_item ts) = bers_bytes (map ber_normal ts)"
    using normalises_list [of 0 "t # ts"] normalises_list [of 0 ts] by (simp_all add: normalises_def)
  have "cbs_find_ber (bers_bytes (map ber_normal (t # ts))) 0 = Ok False"
    using find_ber_complete [OF n(2)] n(3) by simp
  moreover obtain tag k where "CBS_get_any_asn1_element (ber_bytes (ber_normal t) @ bers_bytes (map ber_normal ts)) =
      (Ok (ber_bytes (ber_normal t), tag, k), bers_bytes (map ber_normal ts))"
    using elem_read_first [of "ber_normal t" "bers_bytes (map ber_normal ts)"] n(2,3) by (auto simp del: map_map)
  ultimately show ?thesis unfolding n(1,4,5) by (simp add: CBS_asn1_ber_to_der_def op_bind_apply)
qed

theorem ber_to_der_idempotent_witness:
  "CBS_asn1_ber_to_der (\<lambda>_. None) [4, 3, 7, 8, 9] = (Ok ([4, 3, 7, 8, 9], None), [])"
proof -
  obtain t where t: "ber_example = [t]" by (simp add: ber_example_def)
  show ?thesis
    using ber_to_der_idempotent [of t "[]" "\<lambda>_. None"] ber_example_ok(1,4,5) by (simp add: t)
qed

section \<open>Implicitly tagged strings\<close>

definition chunks_ok :: "byte list list \<Rightarrow> bool" where
  "chunks_ok cs \<longleftrightarrow> list_all (\<lambda>c. length c < 2 ^ 32) cs"

abbreviation chunk_bytes :: "CBS_ASN1_TAG \<Rightarrow> byte list list \<Rightarrow> byte list" where
  "chunk_bytes tag cs \<equiv> concat (map (der_element tag) cs)"

lemma der_element_not_empty [simp]: "der_element tag c \<noteq> []"
  by (simp add: der_element_def der_header_def)

lemma implicit_loop_writes:
  "asn1_tag_ok tag \<Longrightarrow> chunks_ok cs \<Longrightarrow>
     flushed_writer (implicit_string_loop tag (chunk_bytes tag cs)) 0 (concat cs) (length (concat cs)) True True"
proof (induction cs)
  case Nil
  then show ?case using flushed_writer_ret by (simp add: implicit_string_loop.simps del: op_ret_apply)
next
  case (Cons c cs)
  have c: "length c < 2 ^ 32" and cs: "chunks_ok cs" using Cons.prems(2) by (simp_all add: chunks_ok_def)
  have "CBS_get_asn1 tag (der_element tag c @ chunk_bytes tag cs) = (Ok c, chunk_bytes tag cs)"
    using Cons.prems(1) c by (simp add: CBS_get_asn1_iff)
  then have s: "implicit_string_loop tag (chunk_bytes tag (c # cs)) =
      op_then (CBB_add_bytes 0 c (length c)) (implicit_string_loop tag (chunk_bytes tag cs))"
    by (subst implicit_string_loop.simps) simp
  have "length c < 2 ^ 64" using c by simp
  from flushed_writer_then [OF flushed_writer_of [OF cbb_writer_bytes [OF this, of 0]] Cons.IH [OF Cons.prems(1) cs]]
  show ?case unfolding s by simp
qed

lemma implicit_loop_sound:
  "implicit_string_loop tag child s = (Ok (), s') \<Longrightarrow> \<exists>cs. chunks_ok cs \<and> child = chunk_bytes tag cs"
proof (induction tag child arbitrary: s rule: implicit_string_loop.induct)
  case (1 tag child)
  show ?case
  proof (cases "child = []")
    case True
    then show ?thesis by (intro exI [of _ "[]"]) (simp add: chunks_ok_def)
  next
    case False
    obtain c rest s1 where r: "CBS_get_asn1 tag child = (Ok c, rest)" "implicit_string_loop tag rest s1 = (Ok (), s')"
      using "1.prems" False
      by (subst (asm) implicit_string_loop.simps) (auto simp: op_then_Ok_iff split: prod.splits result.splits)
    from "1.IH" [OF _ r(1) [symmetric] refl r(2)] False obtain cs where "chunks_ok cs" "rest = chunk_bytes tag cs" by auto
    then show ?thesis using r(1) by (intro exI [of _ "c # cs"]) (simp add: CBS_get_asn1_iff chunks_ok_def)
  qed
qed

lemma implicit_loop_safe:
  "builds s segs \<Longrightarrow> cbb_children s = [] \<Longrightarrow> fst (implicit_string_loop tag child s) \<noteq> Abort"
proof (induction tag child arbitrary: s segs rule: implicit_string_loop.induct)
  case (1 tag child)
  show ?case
  proof (cases "child = []")
    case True
    then show ?thesis by (simp add: implicit_string_loop.simps)
  next
    case False
    obtain r rest where r: "CBS_get_asn1 tag child = (r, rest)" by fastforce
    have safe: "r \<noteq> Abort" using front_safe_CBS_get_asn1 [of tag child] r by (simp add: front_safe_def)
    show ?thesis
    proof (cases r)
      case (Ok c)
      have c: "length c < 2 ^ 64" using r Ok by (simp add: CBS_get_asn1_iff)
      obtain r1 s1 where a: "CBB_add_bytes 0 c (length c) s = (r1, s1)" by fastforce
      note w = cbb_writer.writes [OF cbb_writer_bytes [OF c, of 0] "1.prems"(1) _ a]
      have "fst (implicit_string_loop tag rest s1) \<noteq> Abort" if r1: "r1 = Ok u" for u
      proof -
        obtain segs' where s1: "builds s1 segs'" "length (cbb_children s1) = 0"
          using written_OkE [OF w [unfolded r1]] by auto
        show ?thesis using "1.IH" [OF _ r [symmetric] Ok s1(1)] False s1(2) by simp
      qed
      then show ?thesis using False r Ok a w
        by (subst implicit_string_loop.simps) (auto simp: op_then_apply written_def split: result.splits)
    qed (use False r safe in \<open>subst implicit_string_loop.simps, simp\<close>)+
  qed
qed

text \<open>
  \<open>CBS_get_asn1_implicit_string\<close> accepts a primitive element with the outer tag, whose contents
  it gives without a copy, and a constructed one that holds elements with the inner tag, whose
  contents it joins in a new buffer; nothing else; it needs memory in the second case only.
\<close>

theorem implicit_string_read:
  assumes "alloc_ok mem" "length inp < 2 ^ 64" "asn1_tag_ok outer" "\<not> constructed outer"
    "asn1_tag_ok inner" "\<not> constructed inner" "is_string_type inner"
  shows "case CBS_get_asn1_implicit_string mem outer inner inp of
     (Ok (out, None), rest) \<Rightarrow> length out < 2 ^ 32 \<and> inp = der_element outer out @ rest
   | (Ok (out, Some data), rest) \<Rightarrow>
       (\<exists>cs. chunks_ok cs \<and> length (chunk_bytes inner cs) < 2 ^ 32 \<and>
          inp = der_element (outer OR CBS_ASN1_CONSTRUCTED) (chunk_bytes inner cs) @ rest \<and>
          out = concat cs \<and> out = take (length out) data)
   | (Err, _) \<Rightarrow>
       \<not> (\<exists>c rest. length c < 2 ^ 32 \<and> inp = der_element outer c @ rest) \<and>
       \<not> (\<exists>cs rest. chunks_ok cs \<and> length (chunk_bytes inner cs) < 2 ^ 32 \<and>
            inp = der_element (outer OR CBS_ASN1_CONSTRUCTED) (chunk_bytes inner cs) @ rest \<and>
            memory_for mem (length inp) (length (concat cs)))
   | (Abort, _) \<Rightarrow> False"
proof -
  let ?t = "outer OR CBS_ASN1_CONSTRUCTED"
  have t: "asn1_tag_ok ?t" using assms(3) by (simp add: asn1_tag_ok_def bit.conj_disj_distrib2)
  have "?t AND CBS_ASN1_CONSTRUCTED = CBS_ASN1_CONSTRUCTED" by (rule bit_word_eqI) (auto simp: bit_simps)
  moreover have "CBS_ASN1_CONSTRUCTED \<noteq> 0" by (simp add: CBS_ASN1_CONSTRUCTED_def)
  ultimately have ne: "?t \<noteq> outer" using assms(4) by metis
  have tags: "?t = tag" if "der_element ?t c @ rest = der_tag tag @ rest'" "asn1_tag_ok tag" for tag c rest rest'
  proof -
    have "fst (parse_asn1_tag (der_element ?t c @ rest)) = Ok ?t"
      unfolding der_element_def der_header_def append_assoc parse_asn1_tag_complete [OF t] by (rule fst_conv)
    moreover have "fst (parse_asn1_tag (der_element ?t c @ rest)) = Ok tag"
      unfolding that(1) parse_asn1_tag_complete [OF that(2)] by (rule fst_conv)
    ultimately show ?thesis by (simp only: result.inject)
  qed
  have peek: "CBS_peek_asn1_tag inp outer \<longleftrightarrow> (\<exists>rest. inp = der_tag outer @ rest)"
    using assms(3) by (simp add: CBS_peek_asn1_tag_iff)
  have prim: "inp \<noteq> der_element outer c @ rest" if "\<not> CBS_peek_asn1_tag inp outer" for c rest
    using that unfolding peek by (auto simp: der_element_def der_header_def)
  have start: "CBS_get_asn1_implicit_string mem outer inner inp =
     (if CBS_peek_asn1_tag inp outer then op_bind (CBS_get_asn1 outer) (\<lambda>out. op_ret (out, None)) inp
      else (case CBB_init mem (CBS_len inp) of
            Ok result \<Rightarrow>
              op_bind (CBS_get_asn1 ?t) (\<lambda>child.
                case fst (op_then (implicit_string_loop inner child) (CBB_finish 0 True True) result) of
                  Ok (Some data, Some len) \<Rightarrow> op_ret (take len data, Some data)
                | Ok _ \<Rightarrow> op_abort
                | Err \<Rightarrow> op_fail
                | Abort \<Rightarrow> op_abort) inp
          | Err \<Rightarrow> (Err, inp)
          | Abort \<Rightarrow> (Abort, inp)))"
    using assms(4,6,7) by (simp add: CBS_get_asn1_implicit_string_def op_then_apply)
  show ?thesis
  proof (cases "CBS_peek_asn1_tag inp outer")
    case True
    obtain r rest where r: "CBS_get_asn1 outer inp = (r, rest)" by fastforce
    have "r \<noteq> Abort" using front_safe_CBS_get_asn1 [of outer inp] r by (simp add: front_safe_def)
    moreover have "inp \<noteq> der_element ?t c @ rest" for c rest using True tags ne assms(3) unfolding peek by metis
    moreover have "inp \<noteq> der_element outer c @ rest'" if "r = Err" "length c < 2 ^ 32" for c rest'
      using r that assms(3) CBS_get_asn1_iff [of outer inp c rest'] by auto
    moreover have "CBS_get_asn1_implicit_string mem outer inner inp =
        (case r of Ok out \<Rightarrow> Ok (out, None) | Err \<Rightarrow> Err | Abort \<Rightarrow> Abort, rest)"
      unfolding start using True r by (simp add: op_bind_apply split: result.splits)
    ultimately show ?thesis using r by (cases r) (auto simp: CBS_get_asn1_iff)
  next
    case False
    show ?thesis
    proof (cases "CBB_init mem (length inp)")
      case cbb: (Ok cbb)
      obtain r rest where r: "CBS_get_asn1 ?t inp = (r, rest)" by fastforce
      show ?thesis
      proof (cases r)
        case (Ok child)
        then have inp: "inp = der_element ?t child @ rest" "length child < 2 ^ 32" using r by (simp_all add: CBS_get_asn1_iff)
        note i = CBB_init_builds [OF assms(1,2) cbb]
        have fl: "CBB_flush 0 cbb = (Ok (), cbb)" using i by (intro flush_flushed [of _ "[[]]"]) simp_all
        let ?loop = "implicit_string_loop inner child"
        have b: "build mem (length inp) (op_then (CBB_flush 0) ?loop) = fst (op_then ?loop (CBB_finish 0 True True) cbb)"
          by (simp add: build_def cbb op_then_apply fl)
        have forest: "case fst (op_then ?loop (CBB_finish 0 True True) cbb) of
            Ok out \<Rightarrow> True \<and> holds_bytes out (concat cs)
          | Err \<Rightarrow> \<not> (True \<and> memory_for mem (length inp) (length (concat cs)))
          | Abort \<Rightarrow> False" if "chunks_ok cs" "child = chunk_bytes inner cs" for cs
          unfolding b [symmetric] using implicit_loop_writes [OF assms(5) that(1)] that(2)
          by (intro build_result [OF assms(1,2)]) (simp add: flushed_writer_def)
        have other: "chunk_bytes inner cs = child"
          if "length (chunk_bytes inner cs) < 2 ^ 32" "inp = der_element ?t (chunk_bytes inner cs) @ rest'" for cs rest'
          using r Ok CBS_get_asn1_iff [of ?t inp "chunk_bytes inner cs" rest'] that t by simp
        have safe: "fst (?loop cbb) \<noteq> Abort" using i by (intro implicit_loop_safe [of _ "[[]]"]) simp_all
        show ?thesis
        proof (cases "fst (op_then ?loop (CBB_finish 0 True True) cbb)")
          case out: (Ok out)
          then obtain s' where "?loop cbb = (Ok (), s')" by (auto simp: op_then_apply split: prod.splits result.splits)
          from implicit_loop_sound [OF this] obtain cs where cs: "chunks_ok cs" "child = chunk_bytes inner cs" by blast
          then obtain data where d: "out = (Some data, Some (length (concat cs)))" "take (length (concat cs)) data = concat cs"
            using forest [OF cs] out by (auto simp: holds_bytes_def split: prod.splits option.splits)
          have "CBS_get_asn1_implicit_string mem outer inner inp = (Ok (concat cs, Some data), rest)"
            unfolding start using False cbb r Ok out d by (simp add: op_bind_apply)
          then show ?thesis using cs inp d by auto
        next
          case Err
          have "CBS_get_asn1_implicit_string mem outer inner inp = (Err, rest)"
            unfolding start using False cbb r Ok Err by (simp add: op_bind_apply)
          then show ?thesis using prim [OF False] forest other unfolding Err by auto
        next
          case Abort
          then obtain s' u where "?loop cbb = (Ok u, s')" using safe by (cases "?loop cbb"; cases "fst (?loop cbb)") (auto simp: op_then_apply)
          from implicit_loop_sound [OF this [simplified]] forest show ?thesis unfolding Abort by fastforce
        qed
      next
        case Err
        have "CBS_get_asn1_implicit_string mem outer inner inp = (Err, rest)"
          unfolding start using False cbb r Err by (simp add: op_bind_apply)
        moreover have "inp \<noteq> der_element ?t c @ rest'" if "length c < 2 ^ 32" for c rest'
          using r Err that t CBS_get_asn1_iff [of ?t inp c rest'] by auto
        ultimately show ?thesis using prim [OF False] by auto
      next
        case Abort
        then show ?thesis using front_safe_CBS_get_asn1 [of ?t inp] r by (simp add: front_safe_def)
      qed
    next
      case Err
      then have "mem (length inp) = None" by (auto simp: CBB_init_def Let_def split: if_splits)
      then show ?thesis unfolding start using False Err prim [OF False] by (simp add: memory_for_def)
    qed (simp add: CBB_init_def Let_def split: if_splits)
  qed
qed

theorem implicit_string_read_witness:
  "\<exists>out data. CBS_get_asn1_implicit_string (\<lambda>n. Some (replicate n 0)) 0x80000000 4 [0xa0, 5, 4, 1, 7, 4, 0] = (Ok (out, Some data), [])"
proof -
  let ?mem = "\<lambda>n. Some (replicate n 0) :: byte list option" and ?inp = "[0xa0, 5, 4, 1, 7, 4, 0] :: byte list"
  let ?t = "0x80000000 OR CBS_ASN1_CONSTRUCTED"
  have h: "alloc_ok ?mem" "length ?inp < 2 ^ 64" "asn1_tag_ok 0x80000000" "\<not> constructed 0x80000000"
      "asn1_tag_ok 4" "\<not> constructed 4" "is_string_type 4"
    by (simp_all add: alloc_ok_def asn1_tag_ok_def CBS_ASN1_CONSTRUCTED_def is_string_type_def)
  have e: "chunks_ok [[7], []]" "length (chunk_bytes 4 [[7], []]) < 2 ^ 32" "?inp = der_element ?t (chunk_bytes 4 [[7], []]) @ []"
      "memory_for ?mem (length ?inp) (length (concat [[7 :: byte], []]))"
    by (simp_all add: chunks_ok_def memory_for_def der_element_def der_header_def der_tag_def der_length_def
        CBS_ASN1_CONSTRUCTED_def CBS_ASN1_TAG_NUMBER_MASK_def)
  have read: "CBS_get_asn1 ?t ?inp = (Ok (chunk_bytes 4 [[7], []]), [])"
    unfolding e(3) using e(2) by (subst CBS_get_asn1_iff) (simp add: asn1_tag_ok_def CBS_ASN1_CONSTRUCTED_def)
  obtain r rest where r: "CBS_get_asn1_implicit_string ?mem 0x80000000 4 ?inp = (r, rest)" by fastforce
  note th = implicit_string_read [OF h, unfolded r prod.case]
  show ?thesis
  proof (cases r)
    case (Ok p)
    obtain out data where p: "p = (out, data)" by fastforce
    show ?thesis
    proof (cases data)
      case None
      then have "?inp = der_element 0x80000000 out @ rest" using th Ok p by simp
      then show ?thesis by (simp add: der_element_def der_header_def der_tag_def CBS_ASN1_TAG_NUMBER_MASK_def)
    next
      case (Some d)
      from th obtain cs where "length (chunk_bytes 4 cs) < 2 ^ 32 \<and> ?inp = der_element ?t (chunk_bytes 4 cs) @ rest"
        unfolding Ok p Some result.case prod.case option.case by blast
      then have "CBS_get_asn1 ?t ?inp = (Ok (chunk_bytes 4 cs), rest)"
        by (subst CBS_get_asn1_iff) (simp add: asn1_tag_ok_def CBS_ASN1_CONSTRUCTED_def)
      then have "rest = []" using read by simp
      then show ?thesis using r unfolding Ok p Some by blast
    qed
  next
    case Err
    show ?thesis using th e unfolding Err result.case by blast
  qed (use th in simp)
qed

end
