(* ===== verification/Set_Of.thy ===== *)
theory Set_Of
  imports Cbb_Document C_Compare "HOL-Library.List_Lexorder" "HOL-Library.Multiset"
begin

text \<open>
  crypto/bytestring/cbb.c and asn1_compat.c: sorting the elements of a SET OF that has been
  written to a builder, and handing a finished builder to an \<open>i2d\<close> caller.
  \<open>qsort\<close> is a parameter, with what the C standard says of it.
\<close>

section \<open>Sorting a SET OF\<close>

definition compare_set_of_element :: "CBS \<Rightarrow> CBS \<Rightarrow> int" where
  "compare_set_of_element a b =
     (let a_len = CBS_len a; b_len = CBS_len b;
          min_len = (if a_len < b_len then a_len else b_len);
          ret = OPENSSL_memcmp a b min_len
      in if ret \<noteq> 0 then ret
         else if a_len = b_len then 0
         else if a_len < b_len then -1 else 1)"

text \<open>Counting the children, and reading them again into an array.\<close>

lemma any_element_shorter: "CBS_get_any_asn1_element cbs = (Ok e, rest) \<Longrightarrow> length rest < length cbs"
  by (cases e) (auto simp: CBS_get_any_asn1_element_iff der_element_def der_header_def der_length_def)

function count_children :: "CBS \<Rightarrow> nat result" where
  "count_children cbs =
     (if CBS_len cbs = 0 then Ok 0
      else case CBS_get_any_asn1_element cbs of
        (Ok _, cbs') \<Rightarrow> (case count_children cbs' of Ok n \<Rightarrow> Ok (Suc n) | failed \<Rightarrow> failed)
      | (Err, _) \<Rightarrow> Err
      | (Abort, _) \<Rightarrow> Abort)"
  by pat_completeness auto
termination
  by (relation "measure length") (auto dest!: sym [where s = "(_, _)"] dest: any_element_shorter)

declare count_children.simps [simp del]

fun read_children :: "nat \<Rightarrow> CBS \<Rightarrow> CBS list result" where
  "read_children 0 cbs = Ok []"
| "read_children (Suc n) cbs =
     (case CBS_get_any_asn1_element cbs of
        (Ok (child, _, _), cbs') \<Rightarrow> (case read_children n cbs' of Ok cs \<Rightarrow> Ok (child # cs) | failed \<Rightarrow> failed)
      | (Err, _) \<Rightarrow> Err
      | (Abort, _) \<Rightarrow> Abort)"

text \<open>The loop that writes them back and the assertion after it.\<close>

fun write_children :: "nat \<Rightarrow> nat \<Rightarrow> nat \<Rightarrow> CBS list \<Rightarrow> (CBB, unit) op" where
  "write_children out offset buf_len [] = op_assert (offset = buf_len)"
| "write_children out offset buf_len (c # cs) =
     op_then (cbb_store (\<lambda>buf. OPENSSL_memcpy buf (out + offset) c (CBS_len c)))
       (write_children out (offset + CBS_len c) buf_len cs)"

definition CBB_flush_asn1_set_of ::
    "((CBS \<Rightarrow> CBS \<Rightarrow> int) \<Rightarrow> CBS list \<Rightarrow> CBS list) \<Rightarrow> allocator \<Rightarrow> (nat \<Rightarrow> bool) \<Rightarrow> nat \<Rightarrow> (CBB, unit) op" where
  "CBB_flush_asn1_set_of qsort mem calloc_ok d =
     op_then (CBB_flush d)
    (op_bind (CBB_data d) (\<lambda>data.
     op_bind (CBB_len d) (\<lambda>buf_len.
     case count_children (take buf_len data) of
       Ok num_children \<Rightarrow>
         if num_children < 2 then op_ret ()
         else
           (case OPENSSL_memdup mem data buf_len of
              None \<Rightarrow> op_fail
            | Some buf \<Rightarrow>
                if \<not> calloc_ok num_children then op_fail
                else
                  (case read_children num_children buf of
                     Ok children \<Rightarrow>
                       op_bind op_get (\<lambda>s.
                         write_children (cbb_start d s) 0 buf_len (qsort compare_set_of_element children))
                   | Err \<Rightarrow> op_fail
                   | Abort \<Rightarrow> op_abort))
     | Err \<Rightarrow> op_fail
     | Abort \<Rightarrow> op_abort)))"

section \<open>The order\<close>

lemma compare_lex: "(compare_set_of_element a b < 0 \<longleftrightarrow> a < b) \<and> (compare_set_of_element a b = 0 \<longleftrightarrow> a = b)"
proof (induction a arbitrary: b)
  case Nil
  then show ?case by (cases b) (simp_all add: compare_set_of_element_def)
next
  case (Cons x a)
  show ?case
  proof (cases b)
    case (Cons y b')
    have m: "(if length (x # a) < length (y # b') then length (x # a) else length (y # b')) =
        Suc (if length a < length b' then length a else length b')" by simp
    show ?thesis
      using Cons.IH [of b'] unfolding Cons compare_set_of_element_def m
      by (auto simp: Let_def split: if_splits)
  qed (simp add: compare_set_of_element_def)
qed

interpretation set_of: c_compare compare_set_of_element UNIV
proof
  fix a b c
  show "compare_set_of_element a b < 0 \<longleftrightarrow> 0 < compare_set_of_element b a"
    using compare_lex [of a b] compare_lex [of b a] by (metis linorder_neqE_linordered_idom linorder_less_linear order_less_asym)
  show "compare_set_of_element a b \<le> 0 \<Longrightarrow> compare_set_of_element b c \<le> 0 \<Longrightarrow> compare_set_of_element a c \<le> 0"
    using compare_lex [of a b] compare_lex [of b c] compare_lex [of a c]
    by (metis order_le_less order_less_trans)
qed

text \<open>What the standard promises of \<open>qsort\<close>.\<close>

definition qsort_ok :: "((CBS \<Rightarrow> CBS \<Rightarrow> int) \<Rightarrow> CBS list \<Rightarrow> CBS list) \<Rightarrow> bool" where
  "qsort_ok qsort \<longleftrightarrow>
     (\<forall>cmp xs. c_compare cmp UNIV \<longrightarrow> mset (qsort cmp xs) = mset xs \<and> sorted_wrt (\<lambda>a b. cmp a b \<le> 0) (qsort cmp xs))"

lemma qsort_sorts: "qsort_ok qsort \<Longrightarrow> qsort compare_set_of_element xs = sort xs"
proof -
  assume q: "qsort_ok qsort"
  have "sorted_wrt (\<lambda>a b. compare_set_of_element a b \<le> 0) ys = sorted ys" for ys
    using compare_lex by (intro arg_cong2 [where f = sorted_wrt] ext) (auto simp: order_le_less)
  then show ?thesis using q set_of.c_compare_axioms
    by (auto simp: qsort_ok_def intro!: properties_for_sort [symmetric])
qed

section \<open>What it does to a builder\<close>

text \<open>The bytes of the innermost depth lie at the end of the buffer, and any others fit there.\<close>

lemma layout_last:
  "layout pos cs bytes segs \<Longrightarrow>
     \<exists>front. bytes = front @ last segs \<and> (cs = [] \<longrightarrow> front = []) \<and>
       (cs \<noteq> [] \<longrightarrow> pos + length front = ch_offset (last cs) + ch_pending_len_len (last cs)) \<and>
       (\<forall>y. layout pos cs (front @ y) (butlast segs @ [y]))"
proof (induction pos cs bytes segs rule: layout.induct)
  case (2 pos c cs bytes segs)
  then obtain seg hole rest segs' where l: "bytes = seg @ hole @ rest" "segs = seg # segs'"
    "ch_offset c = pos + length seg" "length hole = ch_pending_len_len c"
    "ch_pending_is_asn1 c \<longrightarrow> length hole = 1" "layout (ch_offset c + ch_pending_len_len c) cs rest segs'"
    by (elim layout_ConsE)
  from "2.IH" [OF l(6)] obtain front where f: "rest = front @ last segs'" "cs = [] \<longrightarrow> front = []"
    "cs \<noteq> [] \<longrightarrow> ch_offset c + ch_pending_len_len c + length front = ch_offset (last cs) + ch_pending_len_len (last cs)"
    "\<And>y. layout (ch_offset c + ch_pending_len_len c) cs (front @ y) (butlast segs' @ [y])" by auto
  have ne: "segs' \<noteq> []" using layout_nonempty [OF l(6)] .
  show ?case
  proof (intro exI [of _ "seg @ hole @ front"] conjI allI impI)
    fix y
    have "layout pos (c # cs) ((seg @ hole @ front) @ y) (seg # butlast segs' @ [y])"
      by (rule layout_ConsI [OF _ l(3-5) f(4)]) simp
    then show "layout pos (c # cs) ((seg @ hole @ front) @ y) (butlast segs @ [y])" using l(2) ne by simp
  qed (use l f ne in auto)
qed simp

definition set_elem_ok :: "CBS_ASN1_TAG \<times> byte list \<Rightarrow> bool" where
  "set_elem_ok e \<longleftrightarrow> asn1_tag_ok (fst e) \<and> length (snd e) < 2 ^ 32"

abbreviation set_elem :: "CBS_ASN1_TAG \<times> byte list \<Rightarrow> byte list" where
  "set_elem e \<equiv> der_element (fst e) (snd e)"

lemma count_children_complete: "list_all set_elem_ok els \<Longrightarrow> count_children (concat (map set_elem els)) = Ok (length els)"
proof (induction els)
  case (Cons e els)
  have "CBS_get_any_asn1_element (set_elem e @ concat (map set_elem els)) =
      (Ok (set_elem e, fst e, length (der_header (fst e) (length (snd e)))), concat (map set_elem els))"
    using Cons.prems by (intro CBS_get_any_asn1_element_complete) (auto simp: set_elem_ok_def)
  moreover have "set_elem e \<noteq> []" by (simp add: der_element_def der_header_def der_tag_def Let_def)
  ultimately show ?case using Cons by (subst count_children.simps) simp
qed (simp add: count_children.simps)

lemma count_children_sound: "count_children cbs = Ok n \<Longrightarrow> \<exists>els. list_all set_elem_ok els \<and> cbs = concat (map set_elem els)"
proof (induction cbs arbitrary: n rule: count_children.induct)
  case (1 cbs)
  show ?case
  proof (cases "cbs = []")
    case False
    obtain e rest m where r: "CBS_get_any_asn1_element cbs = (Ok e, rest)" "count_children rest = Ok m"
      using "1.prems" False by (subst (asm) count_children.simps) (auto split: prod.splits result.splits)
    from "1.IH" [OF _ r(1) [symmetric] refl r(2)] False obtain els where "list_all set_elem_ok els" "rest = concat (map set_elem els)" by auto
    moreover obtain tag c where "asn1_tag_ok tag" "length c < 2 ^ 32" "cbs = der_element tag c @ rest"
      using r(1) by (cases e) (auto simp: CBS_get_any_asn1_element_iff)
    moreover have "set_elem_ok (tag, c)" using calculation by (simp add: set_elem_ok_def)
    ultimately show ?thesis by (intro exI [of _ "(tag, c) # els"]) simp
  qed (auto intro: exI [of _ "[]"])
qed

lemma any_element_safe: "fst (CBS_get_any_asn1_element cbs) \<noteq> Abort"
  using front_safe_CBS_get_any_asn1_element [of cbs] by (simp add: front_safe_def)

lemma count_children_safe: "count_children cbs \<noteq> Abort"
proof (induction cbs rule: count_children.induct)
  case (1 cbs)
  obtain r rest where r: "CBS_get_any_asn1_element cbs = (r, rest)" by fastforce
  then have "r \<noteq> Abort" using any_element_safe [of cbs] by simp
  show ?case
  proof (cases r)
    case (Ok e)
    then show ?thesis using "1.IH" [OF _ r [symmetric] Ok] r
      by (subst count_children.simps) (auto split: result.splits)
  qed (use r \<open>r \<noteq> Abort\<close> in \<open>subst count_children.simps, simp\<close>)+
qed

lemma read_children_complete: "list_all set_elem_ok els \<Longrightarrow> read_children (length els) (concat (map set_elem els)) = Ok (map set_elem els)"
proof (induction els)
  case (Cons e els)
  have "CBS_get_any_asn1_element (set_elem e @ concat (map set_elem els)) =
      (Ok (set_elem e, fst e, length (der_header (fst e) (length (snd e)))), concat (map set_elem els))"
    using Cons.prems by (intro CBS_get_any_asn1_element_complete) (auto simp: set_elem_ok_def)
  then show ?case using Cons by simp
qed simp

lemma write_children_all:
  "cbb_buf (cbb_base s) = front @ written_part @ old @ spare \<Longrightarrow> length old = length (concat cs) \<Longrightarrow> offset = length written_part \<Longrightarrow>
     buf_len = offset + length (concat cs) \<Longrightarrow>
     write_children (length front) offset buf_len cs s =
       (Ok (), s\<lparr>cbb_base := (cbb_base s)\<lparr>cbb_buf := front @ written_part @ concat cs @ spare\<rparr>\<rparr>)"
proof (induction cs arbitrary: s written_part old offset)
  case (Cons c cs)
  define s1 where "s1 = s\<lparr>cbb_base := (cbb_base s)\<lparr>cbb_buf := (front @ written_part) @ c @ drop (length c) old @ spare\<rparr>\<rparr>"
  have "cbb_buf (cbb_base s) = (front @ written_part) @ take (length c) old @ drop (length c) old @ spare"
    using Cons.prems(1) by simp
  then have st: "cbb_store (\<lambda>buf. OPENSSL_memcpy buf (length front + offset) c (length c)) s = (Ok (), s1)"
    using OPENSSL_memcpy_at [of "take (length c) old" "length c" c "front @ written_part" "drop (length c) old @ spare"] Cons.prems(2,3)
    by (simp add: cbb_store_def s1_def)
  have "write_children (length front) (offset + length c) buf_len cs s1 =
      (Ok (), s1\<lparr>cbb_base := (cbb_base s1)\<lparr>cbb_buf := front @ (written_part @ c) @ concat cs @ spare\<rparr>\<rparr>)"
    using Cons.prems by (intro Cons.IH [of _ _ "drop (length c) old"]) (simp_all add: s1_def)
  then show ?case by (simp add: op_then_apply st) (simp add: s1_def)
qed simp

lemma set_of_parsed:
  assumes s: "builds s segs" "length (cbb_children s) = d"
  obtains front spare where "cbb_buf (cbb_base s) = front @ last segs @ spare" "cbb_start d s = length front"
    "CBB_data d s = (Ok (last segs @ spare), s)" "CBB_len d s = (Ok (length (last segs)), s)"
    "\<And>y. length y = length (last segs) \<Longrightarrow>
      builds (s\<lparr>cbb_base := (cbb_base s)\<lparr>cbb_buf := front @ y @ spare\<rparr>\<rparr>) (butlast segs @ [y])"
proof -
  have inv: "buf_inv (cbb_mem s) (cbb_base s)" and ne: "\<not> cbb_error (cbb_base s)"
    and lay: "layout 0 (cbb_children s) (buf_bytes (cbb_base s)) segs"
    using s(1) by (simp_all add: builds_def)
  obtain spare where sp: "cbb_buf (cbb_base s) = buf_bytes (cbb_base s) @ spare" using buf_split [OF inv] by metis
  obtain front where f: "buf_bytes (cbb_base s) = front @ last segs" "cbb_children s = [] \<longrightarrow> front = []"
    "cbb_children s \<noteq> [] \<longrightarrow> length front = ch_offset (last (cbb_children s)) + ch_pending_len_len (last (cbb_children s))"
    "\<And>y. layout 0 (cbb_children s) (front @ y) (butlast segs @ [y])"
    using layout_last [OF lay] by auto
  have len: "cbb_len (cbb_base s) = length front + length (last segs)"
    using length_buf_bytes [OF inv] by (simp add: f(1))
  have st: "cbb_start d s = length front"
    using f(2,3) s(2) by (cases "cbb_children s = []") (auto simp: cbb_start_def last_conv_nth Let_def)
  show ?thesis
  proof (rule that)
    show buf: "cbb_buf (cbb_base s) = front @ last segs @ spare" using sp f(1) by simp
    then show "CBB_data d s = (Ok (last segs @ spare), s)" using s(2) st by (simp add: CBB_data_def)
    show "CBB_len d s = (Ok (length (last segs)), s)" using s(2) st len by (simp add: CBB_len_def)
    show "builds (s\<lparr>cbb_base := (cbb_base s)\<lparr>cbb_buf := front @ y @ spare\<rparr>\<rparr>) (butlast segs @ [y])"
      if "length y = length (last segs)" for y
    proof -
      have "cbb_cap (cbb_base s) = length front + length (last segs) + length spare" using inv buf by (simp add: buf_inv_def)
      then show ?thesis using inv ne f(4) [of y] that len by (simp add: builds_def buf_inv_def buf_bytes_def)
    qed
  qed (rule st)
qed

lemma length_concat_sort: "length (concat (sort xs)) = length (concat (xs :: byte list list))"
proof -
  have "sum_mset (mset (map length (sort xs))) = sum_mset (mset (map length xs))" by (simp only: mset_map mset_sort)
  then show ?thesis by (simp only: sum_mset_sum_list length_concat)
qed

text \<open>
  C16. \<open>CBB_flush_asn1_set_of\<close> on a builder whose innermost contents are DER elements leaves the
  same elements in ascending order of their bytes, in place; on any other contents, or without
  memory for its arrays, it fails and leaves the contents alone.
\<close>

theorem set_of_sorted:
  assumes "builds s segs" "d \<le> length (cbb_children s)" "qsort_ok qsort" "CBB_flush_asn1_set_of qsort mem calloc_ok d s = (r, s')"
  defines "contents \<equiv> last (spec_flush d (kinds s) segs)"
  shows "case r of
     Ok _ \<Rightarrow> cbb_children s' = take d (cbb_children s) \<and>
       (\<exists>els. list_all set_elem_ok els \<and> contents = concat (map set_elem els) \<and>
          builds s' (butlast (spec_flush d (kinds s) segs) @ [concat (sort (map set_elem els))]))
   | Err \<Rightarrow>
       cbb_error (cbb_base s') \<and> (fits_below d s segs \<longrightarrow> (\<forall>N. cbb_phi s \<le> N \<longrightarrow> \<not> has_room N s)) \<or>
       builds s' (spec_flush d (kinds s) segs) \<and>
       (\<forall>els. list_all set_elem_ok els \<and> contents = concat (map set_elem els) \<longrightarrow>
          2 \<le> length els \<and> (mem (length contents) = None \<or> \<not> calloc_ok (length els)))
   | Abort \<Rightarrow> False"
proof -
  obtain rf s1 where fl: "CBB_flush d s = (rf, s1)" by fastforce
  note fw = flush_written [OF assms(1,2) fl]
  show ?thesis
  proof (cases rf)
    case (Ok u)
    let ?segs = "spec_flush d (kinds s) segs"
    have b1: "builds s1 ?segs" "cbb_children s1 = take d (cbb_children s)" "length (cbb_children s1) = d"
      using fw Ok assms(2) by auto
    obtain front spare where p: "cbb_buf (cbb_base s1) = front @ contents @ spare" "cbb_start d s1 = length front"
      "CBB_data d s1 = (Ok (contents @ spare), s1)" "CBB_len d s1 = (Ok (length contents), s1)"
      and upd: "\<And>y. length y = length contents \<Longrightarrow>
        builds (s1\<lparr>cbb_base := (cbb_base s1)\<lparr>cbb_buf := front @ y @ spare\<rparr>\<rparr>) (butlast ?segs @ [y])"
      using set_of_parsed [OF b1(1,3)] unfolding contents_def by metis
    have last: "butlast ?segs @ [contents] = ?segs"
      using builds_length [OF b1(1)] unfolding contents_def by (intro append_butlast_last_id) auto
    have run: "CBB_flush_asn1_set_of qsort mem calloc_ok d s =
       (case count_children contents of
          Ok n \<Rightarrow>
            if n < 2 then op_ret ()
            else (case OPENSSL_memdup mem (contents @ spare) (length contents) of
              None \<Rightarrow> op_fail
            | Some buf \<Rightarrow> if \<not> calloc_ok n then op_fail
                else (case read_children n buf of
                   Ok children \<Rightarrow> write_children (length front) 0 (length contents) (qsort compare_set_of_element children)
                 | Err \<Rightarrow> op_fail | Abort \<Rightarrow> op_abort))
        | Err \<Rightarrow> op_fail | Abort \<Rightarrow> op_abort) s1"
      unfolding CBB_flush_asn1_set_of_def
      by (simp add: op_then_apply fl Ok op_bind_apply p split: result.splits option.splits)
    show ?thesis
    proof (cases "count_children contents")
      case cnt: (Ok n)
      obtain els where els: "list_all set_elem_ok els" "contents = concat (map set_elem els)"
        using count_children_sound [OF cnt] by auto
      have n: "n = length els" using count_children_complete [OF els(1)] cnt els(2) by simp
      have uniq: "length els' = length els" if "list_all set_elem_ok els'" "contents = concat (map set_elem els')" for els'
        using count_children_complete [OF that(1)] that(2) cnt n by simp
      show ?thesis
      proof (cases "n < 2")
        case True
        then have "sort (map set_elem els) = map set_elem els" using n by (cases els; cases "tl els") auto
        then have "concat (sort (map set_elem els)) = contents" using els(2) by simp
        moreover have "(r, s') = (Ok (), s1)" using run assms(4) cnt True by simp
        ultimately show ?thesis using b1 last els by auto
      next
        case False
        have ne: "length contents \<noteq> 0"
          using False n els(2) by (cases els) (auto simp: der_element_def der_header_def der_tag_def Let_def)
        show ?thesis
        proof (cases "mem (length contents) = None \<or> \<not> calloc_ok n")
          case True
          then have "(r, s') = (Err, s1)" using run assms(4) cnt False ne
            by (auto simp: OPENSSL_memdup_def split: option.splits)
          then show ?thesis using b1 True False n uniq by auto
        next
          case mem: False
          have rd: "read_children n contents = Ok (map set_elem els)" using read_children_complete [OF els(1)] els(2) n by simp
          let ?y = "concat (sort (map set_elem els))"
          have ly: "length ?y = length contents"
            by (simp only: els(2) length_concat_sort)
          have wr: "write_children (length front) 0 (length contents) (sort (map set_elem els)) s1 =
              (Ok (), s1\<lparr>cbb_base := (cbb_base s1)\<lparr>cbb_buf := front @ [] @ ?y @ spare\<rparr>\<rparr>)"
            using p(1) ly by (intro write_children_all [where old = contents]) simp_all
          have "(r, s') = (Ok (), s1\<lparr>cbb_base := (cbb_base s1)\<lparr>cbb_buf := front @ ?y @ spare\<rparr>\<rparr>)"
            using run assms(4) cnt False ne mem rd wr qsort_sorts [OF assms(3)]
            by (auto simp: OPENSSL_memdup_def split: option.splits)
          then show ?thesis using b1(2) els upd [OF ly] by auto
        qed
      qed
    next
      case Err
      then have "(r, s') = (Err, s1)" using run assms(4) by simp
      moreover have "contents \<noteq> concat (map set_elem els)" if "list_all set_elem_ok els" for els
        using count_children_complete [OF that] Err by auto
      ultimately show ?thesis using b1 by auto
    qed (use count_children_safe in blast)
  next
    case Err
    then have "(r, s') = (Err, s1)" using assms(4) fl by (simp add: CBB_flush_asn1_set_of_def op_then_apply)
    then show ?thesis using fw Err by simp
  next
    case Abort
    then show ?thesis using fw by simp
  qed
qed

text \<open>A sort that keeps the promise, and a builder with two elements in the wrong order.\<close>

fun insert_by :: "(CBS \<Rightarrow> CBS \<Rightarrow> int) \<Rightarrow> CBS \<Rightarrow> CBS list \<Rightarrow> CBS list" where
  "insert_by cmp x [] = [x]"
| "insert_by cmp x (y # ys) = (if cmp x y \<le> 0 then x # y # ys else y # insert_by cmp x ys)"

definition insertion_sort :: "(CBS \<Rightarrow> CBS \<Rightarrow> int) \<Rightarrow> CBS list \<Rightarrow> CBS list" where
  "insertion_sort cmp xs = foldr (insert_by cmp) xs []"

lemma insertion_sort_ok: "qsort_ok insertion_sort"
  unfolding qsort_ok_def
proof (intro allI impI)
  fix cmp :: "CBS \<Rightarrow> CBS \<Rightarrow> int" and xs
  assume c: "c_compare cmp UNIV"
  have m: "mset (insert_by cmp x ys) = add_mset x (mset ys)" for x ys by (induction ys) auto
  have tot: "cmp y x \<le> 0" if "\<not> cmp x y \<le> 0" for x y using c_compare.cmp_flip [OF c, of y x] that by simp
  have "sorted_wrt (\<lambda>a b. cmp a b \<le> 0) ys \<Longrightarrow> sorted_wrt (\<lambda>a b. cmp a b \<le> 0) (insert_by cmp x ys)" for x ys
  proof (induction ys)
    case (Cons y ys)
    have "set (insert_by cmp x ys) = insert x (set ys)" using arg_cong [OF m [of x ys], of set_mset] by simp
    then show ?case using Cons c_compare.cmp_trans [OF c, of x y] tot [of x y] by auto
  qed simp
  then show "mset (insertion_sort cmp xs) = mset xs \<and> sorted_wrt (\<lambda>a b. cmp a b \<le> 0) (insertion_sort cmp xs)"
    by (induction xs) (auto simp: insertion_sort_def m)
qed

definition set_of_builder :: CBB where
  "set_of_builder =
     \<lparr>cbb_base = \<lparr>cbb_buf = [4, 1, 9, 4, 1, 3], cbb_len = 6, cbb_cap = 6, cbb_can_resize = False, cbb_error = False\<rparr>,
      cbb_children = [], cbb_cut = 0, cbb_mem = (\<lambda>_. None)\<rparr>"

theorem set_of_sorted_witness:
  "\<exists>s'. CBB_flush_asn1_set_of insertion_sort (\<lambda>n. Some (replicate n 0)) (\<lambda>_. True) 0 set_of_builder = (Ok (), s') \<and>
     builds s' [[4, 1, 3, 4, 1, 9]]"
proof -
  have b: "builds set_of_builder [[4, 1, 9, 4, 1, 3]]"
    by (simp add: set_of_builder_def builds_def buf_inv_def buf_bytes_def alloc_ok_def)
  obtain r s' where r: "CBB_flush_asn1_set_of insertion_sort (\<lambda>n. Some (replicate n 0)) (\<lambda>_. True) 0 set_of_builder = (r, s')" by fastforce
  let ?els = "[(4 :: CBS_ASN1_TAG, [9 :: byte]), (4, [3])]"
  have e: "list_all set_elem_ok ?els" "[4, 1, 9, 4, 1, 3] = concat (map set_elem ?els)"
    by (simp_all add: set_elem_ok_def asn1_tag_ok_def CBS_ASN1_CONSTRUCTED_def der_element_def der_header_def der_tag_def
        der_length_def CBS_ASN1_TAG_NUMBER_MASK_def)
  have sp: "spec_flush 0 (kinds set_of_builder) [[4, 1, 9, 4, 1, 3]] = [[4, 1, 9, 4, 1, 3 :: byte]]"
    by (simp add: spec_flush_def kinds_def set_of_builder_def)
  note th = set_of_sorted [OF b le0 insertion_sort_ok r, unfolded sp list.sel last.simps butlast.simps]
  show ?thesis
  proof (cases r)
    case (Ok u)
    obtain els where els: "list_all set_elem_ok els" "[4, 1, 9, 4, 1, 3] = concat (map set_elem els)" "builds s' [concat (sort (map set_elem els))]"
      using th Ok by auto
    have "length els = length ?els" using count_children_complete [OF els(1)] count_children_complete [OF e(1)] els(2) e(2) by simp
    then have "map set_elem els = map set_elem ?els"
      using read_children_complete [OF els(1)] read_children_complete [OF e(1)] els(2) e(2) by simp
    also have "... = [[4, 1, 9], [4, 1, 3]]"
      by (simp add: der_element_def der_header_def der_tag_def der_length_def CBS_ASN1_TAG_NUMBER_MASK_def)
    finally show ?thesis using r Ok els(3) by simp
  next
    case Err
    have "has_room 6 set_of_builder" "cbb_phi set_of_builder = 6" "fits_below 0 set_of_builder [[4, 1, 9, 4, 1, 3]]"
      by (simp_all add: room_def cbb_phi_def fits_below_def kinds_def set_of_builder_def)
    then have "\<forall>els. \<not> (list_all set_elem_ok els \<and> [4, 1, 9, 4, 1, 3] = concat (map set_elem els))"
      using th unfolding Err by auto
    then show ?thesis using e by blast
  qed (use th in simp)
qed

section \<open>Finishing for an i2d caller\<close>

text \<open>
  \<open>outp\<close> is \<open>NULL\<close> (\<open>None\<close>), the address of a null pointer, or that of a pointer into a
  block, as the block and an offset. The result is the number the function returns and
  \<open>outp\<close> afterwards.
\<close>

type_synonym i2d_out = "(byte list \<times> nat) option option"

definition CBB_finish_i2d :: "nat \<Rightarrow> i2d_out \<Rightarrow> (CBB, int \<times> i2d_out) op" where
  "CBB_finish_i2d d outp =
     op_then (op_assert (d = 0))
    (op_bind op_get (\<lambda>s.
     op_then (op_assert (cbb_can_resize (cbb_base s)))
    (\<lambda>s. case CBB_finish d True True s of
       (Ok (Some der, Some der_len), s) \<Rightarrow>
         if der_len > INT_MAX then (Ok (-1, outp), s)
         else
           (case outp of
              None \<Rightarrow> (Ok (int der_len, None), s)
            | Some None \<Rightarrow> (Ok (int der_len, Some (Some (der, 0))), s)
            | Some (Some (block, off)) \<Rightarrow>
                (case OPENSSL_memcpy block off der der_len of
                   None \<Rightarrow> (Abort, s)
                 | Some block \<Rightarrow> (Ok (int der_len, Some (Some (block, off + der_len))), s)))
     | (Ok _, s) \<Rightarrow> (Abort, s)
     | (Err, s) \<Rightarrow> op_then (CBB_cleanup d) (op_ret (-1, outp)) s
     | (Abort, s) \<Rightarrow> (Abort, s))))"

lemma CBB_finish_flushed:
  assumes "CBB_flush 0 s = (Ok (), s1)" "builds s1 segs" "cbb_children s1 = []"
  shows "CBB_finish 0 a b s = CBB_finish 0 a b s1"
  using assms flush_flushed [OF assms(2), of 0] by (simp add: CBB_finish_def op_then_apply)

text \<open>
  \<open>CBB_finish_i2d\<close> returns the length of the finished contents, and gives them to the caller
  the way \<open>outp\<close> asks for: not at all, in a buffer of their own, or copied to the caller's place,
  which moves past them; it returns -1 and gives nothing when finishing fails or the length does
  not fit an \<open>int\<close>.
\<close>

theorem i2d_output:
  assumes "builds s segs" "cbb_can_resize (cbb_base s)"
    and "\<And>block off. outp = Some (Some (block, off)) \<Longrightarrow> off + length (collapse (kinds s) segs) \<le> length block"
  shows "case fst (CBB_finish_i2d 0 outp s) of
     Ok (n, out) \<Rightarrow>
       (let contents = collapse (kinds s) segs in
        n = -1 \<and> out = outp \<and>
          (length contents > INT_MAX \<or> \<not> fits_below 0 s segs \<or> (\<forall>N. cbb_phi s \<le> N \<longrightarrow> \<not> has_room N s)) \<or>
        n = int (length contents) \<and> n \<le> int INT_MAX \<and>
          (case outp of
             None \<Rightarrow> out = None
           | Some None \<Rightarrow> \<exists>der. out = Some (Some (der, 0)) \<and> take (length contents) der = contents
           | Some (Some (block, off)) \<Rightarrow>
               out = Some (Some (take off block @ contents @ drop (off + length contents) block, off + length contents))))
   | Err \<Rightarrow> False
   | Abort \<Rightarrow> False"
proof -
  obtain rf s1 where fl: "CBB_flush 0 s = (rf, s1)" by fastforce
  note fw = flush_written [OF assms(1) le0 fl]
  let ?c = "collapse (kinds s) segs"
  show ?thesis
  proof (cases rf)
    case (Ok u)
    then have b1: "builds s1 [?c]" "cbb_children s1 = []" using fw by (simp_all add: spec_flush_def)
    obtain s2 where fin: "CBB_finish 0 True True s = (Ok (Some (cbb_buf (cbb_base s1)), Some (length ?c)), s2)"
      using CBB_finish_whole [OF b1] CBB_finish_flushed [OF fl [unfolded Ok, simplified] b1]
      by (cases "CBB_finish 0 True True s1") auto
    have whole: "take (length ?c) (cbb_buf (cbb_base s1)) = ?c" using CBB_finish_whole [OF b1] by simp
    then have cl: "length ?c \<le> length (cbb_buf (cbb_base s1))" by (metis length_take min.cobounded1)
    have run: "CBB_finish_i2d 0 outp s = (if length ?c > INT_MAX then (Ok (-1, outp), s2)
         else
           (case outp of
              None \<Rightarrow> (Ok (int (length ?c), None), s2)
            | Some None \<Rightarrow> (Ok (int (length ?c), Some (Some (cbb_buf (cbb_base s1), 0))), s2)
            | Some (Some (block, off)) \<Rightarrow>
                (case OPENSSL_memcpy block off (cbb_buf (cbb_base s1)) (length ?c) of
                   None \<Rightarrow> (Abort, s2)
                 | Some block \<Rightarrow> (Ok (int (length ?c), Some (Some (block, off + length ?c))), s2))))"
      using assms(2) by (simp add: CBB_finish_i2d_def op_then_apply op_bind_apply fin split: option.splits)
    show ?thesis
    proof (cases outp)
      case (Some p)
      show ?thesis
      proof (cases p)
        case p: (Some bo)
        obtain block off where bo: "bo = (block, off)" by fastforce
        have "off + length ?c \<le> length block" using assms(3) Some p bo by simp
        then have "OPENSSL_memcpy block off (cbb_buf (cbb_base s1)) (length ?c) = Some (take off block @ ?c @ drop (off + length ?c) block)"
          using whole cl by (auto simp: OPENSSL_memcpy_def)
        then show ?thesis using run Some p bo by (simp add: Let_def not_less)
      qed (use run Some whole in \<open>auto simp: Let_def\<close>)
    qed (use run in \<open>auto simp: Let_def\<close>)
  next
    case Err
    then have "CBB_finish 0 True True s = (Err, s1)" using fl by (simp add: CBB_finish_def op_then_apply)
    then have "fst (CBB_finish_i2d 0 outp s) = Ok (-1, outp)"
      using assms(2) by (simp add: CBB_finish_i2d_def op_then_apply op_bind_apply CBB_cleanup_def)
    then show ?thesis using fw Err by (simp add: Let_def)
  next
    case Abort
    then show ?thesis using fw by simp
  qed
qed

theorem i2d_output_witness:
  "\<exists>s n out. CBB_init (\<lambda>n. Some (replicate n 0)) 4 = Ok s \<and> fst (CBB_finish_i2d 0 (Some (Some ([7, 8], 1))) s) = Ok (n, out)"
proof -
  let ?mem = "\<lambda>n. Some (replicate n 0) :: byte list option"
  obtain s where s: "CBB_init ?mem 4 = Ok s" by (simp add: CBB_init_def)
  have "alloc_ok ?mem" by (simp add: alloc_ok_def)
  note i = CBB_init_builds [OF this _ s, simplified]
  then have c: "collapse (kinds s) [[]] = []" by (simp add: kinds_def)
  from i2d_output [where s = s and segs = "[[]]" and outp = "Some (Some ([7, 8], 1))"] i c s show ?thesis
    by (auto split: result.splits)
qed

end
