(* ===== verification/Asn1_String.thy ===== *)
theory Asn1_String
  imports Cbs_Values C_Compare "HOL-Library.List_Lexorder" "HOL-Library.Product_Lexorder"
begin

text \<open>
  crypto/asn1/asn1_lib.c and the part of a_bitstr.c that it calls: the \<open>ASN1_STRING\<close>
  structure behind every ASN.1 string, integer and bit string of the older API, its
  creation, assignment, copy and comparison.
\<close>

section \<open>The structure\<close>

text \<open>
  The block \<open>as_data\<close> can be longer than the \<open>as_length\<close> bytes in use, and is the
  null pointer when \<open>None\<close>. \<open>ASN1_STRING_length\<close>, \<open>ASN1_STRING_type\<close> and
  \<open>ASN1_STRING_get0_data\<close> are the selectors.
\<close>

record asn1_string =
  as_length :: nat
  as_type :: int
  as_data :: "byte list option"
  as_flags :: int

definition as_bytes :: "asn1_string \<Rightarrow> byte list" where
  "as_bytes s = (case as_data s of None \<Rightarrow> [] | Some block \<Rightarrow> block)"

definition V_ASN1_INTEGER :: int where
  "V_ASN1_INTEGER = 2"

definition V_ASN1_BIT_STRING :: int where
  "V_ASN1_BIT_STRING = 3"

definition V_ASN1_OCTET_STRING :: int where
  "V_ASN1_OCTET_STRING = 4"

definition V_ASN1_ENUMERATED :: int where
  "V_ASN1_ENUMERATED = 10"

definition V_ASN1_NEG :: int where
  "V_ASN1_NEG = 0x100"

definition ASN1_STRING_FLAG_BITS_LEFT :: int where
  "ASN1_STRING_FLAG_BITS_LEFT = 0x08"

definition ASN1_STRING_MAX :: nat where
  "ASN1_STRING_MAX = 64 * 1024 * 1024"

section \<open>Creation, assignment and copy\<close>

text \<open>\<open>struct_ok\<close> tells whether the structure itself can be allocated.\<close>

definition ASN1_STRING_type_new :: "bool \<Rightarrow> int \<Rightarrow> asn1_string option" where
  "ASN1_STRING_type_new struct_ok type =
     (if \<not> struct_ok then None
      else Some \<lparr>as_length = 0, as_type = type, as_data = None, as_flags = 0\<rparr>)"

definition ASN1_STRING_new :: "bool \<Rightarrow> asn1_string option" where
  "ASN1_STRING_new struct_ok = ASN1_STRING_type_new struct_ok V_ASN1_OCTET_STRING"

text \<open>
  A negative length asks for the length of a C string; without a terminator in its block,
  \<open>strlen\<close> leaves it. The source is not part of the destination's own block.
\<close>

definition asn1_set_len :: "byte list option \<Rightarrow> int \<Rightarrow> nat result" where
  "asn1_set_len data len_s =
     (if len_s < 0 then
        (case data of
           None \<Rightarrow> Err
         | Some d \<Rightarrow> (case OPENSSL_memchr d 0 (length d) of None \<Rightarrow> Abort | Some n \<Rightarrow> Ok n))
      else Ok (nat len_s))"

definition ASN1_STRING_set ::
    "allocator \<Rightarrow> byte list option \<Rightarrow> int \<Rightarrow> (asn1_string, unit) op" where
  "ASN1_STRING_set mem data len_s str =
     (case asn1_set_len data len_s of
        Err \<Rightarrow> (Err, str)
      | Abort \<Rightarrow> (Abort, str)
      | Ok len \<Rightarrow>
          if len > ASN1_STRING_MAX then (Err, str)
          else
            (case (if as_length str \<le> len \<or> as_data str = None
                   then (case as_data str of
                           None \<Rightarrow> mem (len + 1)
                         | Some c \<Rightarrow> OPENSSL_realloc mem c (len + 1))
                   else as_data str) of
               None \<Rightarrow> (Err, str)
             | Some block \<Rightarrow>
                 (let str = str\<lparr>as_data := Some block, as_length := len\<rparr> in
                  case data of
                    None \<Rightarrow> (Ok (), str)
                  | Some d \<Rightarrow>
                      (case OPENSSL_memcpy block 0 d len of
                         None \<Rightarrow> (Abort, str)
                       | Some block' \<Rightarrow>
                           if len < length block'
                           then (Ok (), str\<lparr>as_data := Some (block'[len := 0])\<rparr>)
                           else (Abort, str)))))"

definition ASN1_STRING_set0 :: "byte list option \<Rightarrow> nat \<Rightarrow> asn1_string \<Rightarrow> asn1_string" where
  "ASN1_STRING_set0 data len str = str\<lparr>as_data := data, as_length := len\<rparr>"

definition ASN1_STRING_copy :: "allocator \<Rightarrow> asn1_string option \<Rightarrow> (asn1_string, unit) op" where
  "ASN1_STRING_copy mem str =
     (case str of
        None \<Rightarrow> op_fail
      | Some str \<Rightarrow>
          op_then (ASN1_STRING_set mem (as_data str) (int (as_length str)))
            (\<lambda>dst. (Ok (), dst\<lparr>as_type := as_type str, as_flags := as_flags str\<rparr>)))"

definition ASN1_STRING_dup ::
    "bool \<Rightarrow> allocator \<Rightarrow> asn1_string option \<Rightarrow> asn1_string result" where
  "ASN1_STRING_dup struct_ok mem str =
     (if str = None then Err
      else case ASN1_STRING_new struct_ok of
        None \<Rightarrow> Err
      | Some ret \<Rightarrow>
          (case ASN1_STRING_copy mem str ret of
             (Ok _, ret) \<Rightarrow> Ok ret
           | (Err, _) \<Rightarrow> Err
           | (Abort, _) \<Rightarrow> Abort))"

section \<open>The length of a bit string and the comparison\<close>

fun trim_zeros :: "byte list \<Rightarrow> nat \<Rightarrow> nat" where
  "trim_zeros data 0 = 0"
| "trim_zeros data (Suc n) = (if data ! n = 0 then trim_zeros data n else Suc n)"

function padding_loop :: "byte \<Rightarrow> nat \<Rightarrow> nat" where
  "padding_loop b padding_bits =
     (if padding_bits < 7 \<and> b AND push_bit padding_bits 1 = 0
      then padding_loop b (Suc padding_bits) else padding_bits)"
  by pat_completeness auto
termination
  by (relation "measure (\<lambda>(b, n). 7 - n)") auto

declare padding_loop.simps [simp del]

text \<open>
  The number of bytes and of unused bits in the last one. The scan for zeros reads the
  \<open>as_length\<close> bytes from the end.
\<close>

definition asn1_bit_string_length :: "asn1_string \<Rightarrow> (nat \<times> nat) result" where
  "asn1_bit_string_length str =
     (let len = as_length str in
      if as_flags str AND ASN1_STRING_FLAG_BITS_LEFT \<noteq> 0
      then Ok (len, if len = 0 then 0 else nat (as_flags str AND 0x07))
      else if len > length (as_bytes str) then Abort
      else
        (let len = trim_zeros (as_bytes str) len
         in Ok (len, if len > 0 then padding_loop (as_bytes str ! (len - 1)) 0 else 0)))"

definition asn1_cmp_length :: "asn1_string \<Rightarrow> (nat \<times> nat) result" where
  "asn1_cmp_length a =
     (if as_type a = V_ASN1_BIT_STRING then asn1_bit_string_length a else Ok (as_length a, 0))"

definition ASN1_STRING_cmp :: "asn1_string \<Rightarrow> asn1_string \<Rightarrow> int result" where
  "ASN1_STRING_cmp a b =
     (case asn1_cmp_length a of
        Ok (a_length, a_padding) \<Rightarrow>
          (case asn1_cmp_length b of
             Ok (b_length, b_padding) \<Rightarrow>
               if a_length < b_length then Ok (-1)
               else if a_length > b_length then Ok 1
               else if a_padding > b_padding then Ok (-1)
               else if a_padding < b_padding then Ok 1
               else if a_length > length (as_bytes a) \<or> a_length > length (as_bytes b) then Abort
               else
                 (let ret = OPENSSL_memcmp (as_bytes a) (as_bytes b) a_length
                  in if ret \<noteq> 0 then Ok ret
                     else if as_type a < as_type b then Ok (-1)
                     else if as_type a > as_type b then Ok 1
                     else Ok 0)
           | _ \<Rightarrow> Abort)
      | _ \<Rightarrow> Abort)"

section \<open>Well-formed strings\<close>

text \<open>The length never exceeds the block, so that the bytes in use are readable.\<close>

definition asn1_string_wf :: "asn1_string \<Rightarrow> bool" where
  "asn1_string_wf s \<longleftrightarrow> as_length s \<le> length (as_bytes s)"

definition as_contents :: "asn1_string \<Rightarrow> byte list" where
  "as_contents s = take (as_length s) (as_bytes s)"

lemma length_as_contents [simp]: "asn1_string_wf s \<Longrightarrow> length (as_contents s) = as_length s"
  by (simp add: asn1_string_wf_def as_contents_def)

lemma asn1_string_new_wf: "ASN1_STRING_type_new struct_ok type = Some s \<Longrightarrow>
    asn1_string_wf s \<and> as_contents s = [] \<and> as_type s = type \<and> as_flags s = 0"
  by (auto simp: ASN1_STRING_type_new_def asn1_string_wf_def as_contents_def split: if_splits)

text \<open>
  What an assignment does: the bytes are stored and terminated, or the string is as it was
  and the length was too large or the memory was refused.
\<close>

definition stored :: "byte list \<Rightarrow> asn1_string \<Rightarrow> asn1_string \<Rightarrow> bool" where
  "stored bs s t \<longleftrightarrow>
     asn1_string_wf t \<and> as_contents t = bs \<and> as_length t = length bs \<and> as_length t < length (as_bytes t) \<and>
     as_data t \<noteq> None \<and> as_type t = as_type s \<and> as_flags t = as_flags s"

lemma ASN1_STRING_set_cases:
  assumes mem: "alloc_ok mem" and wf: "asn1_string_wf str" and n: "n \<le> length d"
  obtains (set) t where "ASN1_STRING_set mem (Some d) (int n) str = (Ok (), t)" "stored (take n d) str t"
      "n \<le> ASN1_STRING_MAX"
  | (failed) "ASN1_STRING_set mem (Some d) (int n) str = (Err, str)"
      "ASN1_STRING_MAX < n \<or> mem (n + 1) = None"
proof -
  define blk where "blk = (if as_length str \<le> n \<or> as_data str = None
                   then (case as_data str of None \<Rightarrow> mem (n + 1) | Some c \<Rightarrow> OPENSSL_realloc mem c (n + 1))
                   else as_data str)"
  have set_eq: "ASN1_STRING_set mem (Some d) (int n) str =
      (if ASN1_STRING_MAX < n then (Err, str)
       else case blk of None \<Rightarrow> (Err, str)
         | Some block \<Rightarrow>
             (case OPENSSL_memcpy block 0 d n of
                None \<Rightarrow> (Abort, str\<lparr>as_data := Some block, as_length := n\<rparr>)
              | Some block' \<Rightarrow>
                  if n < length block' then (Ok (), str\<lparr>as_length := n, as_data := Some (block'[n := 0])\<rparr>)
                  else (Abort, str\<lparr>as_data := Some block, as_length := n\<rparr>)))"
    by (auto simp: ASN1_STRING_set_def asn1_set_len_def blk_def [symmetric] Let_def split: option.split)
  show thesis
  proof (cases "ASN1_STRING_MAX < n \<or> blk = None")
    case True
    moreover have "mem (n + 1) = None" if "blk = None"
      using that by (auto simp: blk_def OPENSSL_realloc_def split: if_splits option.splits)
    ultimately show thesis by (intro failed) (auto simp: set_eq)
  next
    case False
    then obtain block where b: "blk = Some block" by auto
    have len: "n < length block"
      using b mem wf unfolding blk_def
      by (auto simp: asn1_string_wf_def as_bytes_def dest: alloc_okD length_OPENSSL_realloc split: if_splits option.splits)
    then have cpy: "OPENSSL_memcpy block 0 d n = Some (take n d @ drop n block)"
      using n by (auto simp: OPENSSL_memcpy_def)
    define t where "t = str\<lparr>as_length := n, as_data := Some ((take n d @ drop n block)[n := 0])\<rparr>"
    have "ASN1_STRING_set mem (Some d) (int n) str = (Ok (), t)"
      using False len n by (simp add: set_eq b cpy t_def)
    moreover have "stored (take n d) str t"
      using len n by (simp add: stored_def t_def asn1_string_wf_def as_contents_def as_bytes_def)
    ultimately show thesis using False by (intro set) auto
  qed
qed

lemma as_updates [simp]:
  "as_contents (s\<lparr>as_type := x\<rparr>) = as_contents s" "as_contents (s\<lparr>as_flags := y\<rparr>) = as_contents s"
  "asn1_string_wf (s\<lparr>as_type := x\<rparr>) = asn1_string_wf s" "asn1_string_wf (s\<lparr>as_flags := y\<rparr>) = asn1_string_wf s"
  "as_bytes (s\<lparr>as_type := x\<rparr>) = as_bytes s" "as_bytes (s\<lparr>as_flags := y\<rparr>) = as_bytes s"
  by (simp_all add: as_contents_def asn1_string_wf_def as_bytes_def)

text \<open>A copy has the contents, type and flags of the original, or there was no memory for it.\<close>

lemma ASN1_STRING_copy_cases:
  assumes mem: "alloc_ok mem" and s: "asn1_string_wf s" and wf: "asn1_string_wf dst"
  obtains (copied) t where "ASN1_STRING_copy mem (Some s) dst = (Ok (), t)" "asn1_string_wf t"
      "as_contents t = as_contents s" "as_type t = as_type s" "as_flags t = as_flags s"
  | (failed) "ASN1_STRING_copy mem (Some s) dst = (Err, dst)"
      "ASN1_STRING_MAX < as_length s \<or> mem (as_length s + 1) = None"
proof (cases "as_data s")
  case None
  then have l: "as_length s = 0" "as_contents s = []"
    using s by (auto simp: asn1_string_wf_def as_bytes_def as_contents_def)
  define blk where "blk = (if as_length dst \<le> 0 \<or> as_data dst = None
      then (case as_data dst of None \<Rightarrow> mem (0 + 1) | Some c \<Rightarrow> OPENSSL_realloc mem c (0 + 1))
      else as_data dst)"
  have eq: "ASN1_STRING_set mem None 0 dst =
      (case blk of None \<Rightarrow> (Err, dst) | Some block \<Rightarrow> (Ok (), dst\<lparr>as_data := Some block, as_length := 0\<rparr>))"
    by (simp add: ASN1_STRING_set_def asn1_set_len_def blk_def Let_def split: option.split)
  show thesis
  proof (cases blk)
    case None
    moreover from None have "mem (as_length s + 1) = None"
      by (auto simp: l blk_def OPENSSL_realloc_def split: if_splits option.splits)
    ultimately show thesis using \<open>as_data s = None\<close>
      by (intro failed) (simp_all add: ASN1_STRING_copy_def op_then_apply l eq)
  next
    case (Some block)
    then show thesis using \<open>as_data s = None\<close>
      by (intro copied [of "dst\<lparr>as_data := Some block, as_length := 0, as_type := as_type s, as_flags := as_flags s\<rparr>"])
        (auto simp: ASN1_STRING_copy_def op_then_apply l eq asn1_string_wf_def as_contents_def)
  qed
next
  case (Some d)
  then have n: "as_length s \<le> length d" using s by (simp add: asn1_string_wf_def as_bytes_def)
  have c: "as_contents s = take (as_length s) d" by (simp add: as_contents_def as_bytes_def Some)
  show thesis
  proof (cases rule: ASN1_STRING_set_cases [OF mem wf n])
    case (1 t)
    then show thesis
      by (intro copied [of "t\<lparr>as_type := as_type s, as_flags := as_flags s\<rparr>"])
        (simp_all add: ASN1_STRING_copy_def op_then_apply Some stored_def c)
  next
    case 2
    then show thesis by (intro failed) (simp_all add: ASN1_STRING_copy_def op_then_apply Some)
  qed
qed

lemma ASN1_STRING_dup_cases:
  assumes mem: "alloc_ok mem" and s: "asn1_string_wf s"
  obtains (copied) t where "ASN1_STRING_dup struct_ok mem (Some s) = Ok t" "asn1_string_wf t"
      "as_contents t = as_contents s" "as_type t = as_type s" "as_flags t = as_flags s"
  | (failed) "ASN1_STRING_dup struct_ok mem (Some s) = Err"
      "\<not> struct_ok \<or> ASN1_STRING_MAX < as_length s \<or> mem (as_length s + 1) = None"
proof (cases "ASN1_STRING_new struct_ok")
  case None
  then show thesis
    by (intro failed) (auto simp: ASN1_STRING_dup_def ASN1_STRING_new_def ASN1_STRING_type_new_def)
next
  case (Some new)
  then have "asn1_string_wf new" by (auto simp: ASN1_STRING_new_def dest: asn1_string_new_wf)
  from ASN1_STRING_copy_cases [OF mem s this] show thesis
    by (cases) (use Some in \<open>auto simp: ASN1_STRING_dup_def intro: that\<close>)
qed

section \<open>The length of a bit string\<close>

lemma trim_zeros_le: "trim_zeros data n \<le> n"
  by (induction n) auto

lemma trim_zeros_split:
  "n \<le> length data \<Longrightarrow> take n data = take (trim_zeros data n) data @ replicate (n - trim_zeros data n) 0"
proof (induction n)
  case (Suc n)
  show ?case
  proof (cases "data ! n = 0")
    case True
    with Suc trim_zeros_le [of data n] show ?thesis
      by (simp add: take_Suc_conv_app_nth Suc_diff_le flip: replicate_append_same)
  qed simp
qed simp

lemma trim_zeros_last: "0 < trim_zeros data n \<Longrightarrow> data ! (trim_zeros data n - 1) \<noteq> 0"
  by (induction n) (auto split: if_splits)

lemma padding_loop_props:
  "n \<le> 7 \<Longrightarrow> n \<le> padding_loop b n \<and> padding_loop b n \<le> 7 \<and>
     (\<forall>k. n \<le> k \<longrightarrow> k < padding_loop b n \<longrightarrow> \<not> bit b k) \<and> (padding_loop b n < 7 \<longrightarrow> bit b (padding_loop b n))"
proof (induction b n rule: padding_loop.induct)
  case (1 b n)
  show ?case
  proof (cases "n < 7 \<and> \<not> bit b n")
    case True
    then have eq: "padding_loop b n = padding_loop b (Suc n)"
      by (subst padding_loop.simps) (metis byte_and_bit)
    from True have "n < 7 \<and> b AND push_bit n 1 = 0" using byte_and_bit by blast
    from 1(1) [OF this] True show ?thesis unfolding eq by (auto simp: Suc_le_eq le_eq_less_or_eq [of n])
  next
    case False
    then have "padding_loop b n = n"
      by (subst padding_loop.simps) (metis byte_and_bit)
    with 1 False show ?thesis by auto
  qed
qed

section \<open>The comparison is an order\<close>

lemma OPENSSL_memcmp_lex:
  "length a = length b \<Longrightarrow> (OPENSSL_memcmp a b (length a) < 0 \<longleftrightarrow> a < b) \<and> (OPENSSL_memcmp a b (length a) = 0 \<longleftrightarrow> a = b)"
proof (induction a arbitrary: b)
  case (Cons x a)
  then obtain y b' where "b = y # b'" "length a = length b'" by (cases b) auto
  with Cons.IH [of b'] show ?case by auto
qed simp

lemma OPENSSL_memcmp_take:
  "OPENSSL_memcmp (take n a) (take n b) n = OPENSSL_memcmp a b n"
  by (induction a b n rule: OPENSSL_memcmp.induct) auto

text \<open>
  Strings compare by length, by the number of unused bits of a bit string downwards, by bytes
  and then by type.
\<close>

definition asn1_len :: "asn1_string \<Rightarrow> nat \<times> nat" where
  "asn1_len s = (case asn1_cmp_length s of Ok p \<Rightarrow> p | _ \<Rightarrow> (0, 0))"

definition asn1_key :: "asn1_string \<Rightarrow> nat \<times> int \<times> byte list \<times> int" where
  "asn1_key s = (fst (asn1_len s), - int (snd (asn1_len s)), take (fst (asn1_len s)) (as_bytes s), as_type s)"

lemma asn1_cmp_length_wf:
  assumes "asn1_string_wf s"
  shows "asn1_cmp_length s = Ok (asn1_len s) \<and> fst (asn1_len s) \<le> length (as_bytes s)"
  using assms trim_zeros_le [of "as_bytes s" "as_length s"]
  by (auto simp: asn1_len_def asn1_cmp_length_def asn1_bit_string_length_def asn1_string_wf_def Let_def)

lemma ASN1_STRING_cmp_order:
  assumes a: "asn1_string_wf a" and b: "asn1_string_wf b"
  shows "\<exists>n. ASN1_STRING_cmp a b = Ok n \<and> (n < 0 \<longleftrightarrow> asn1_key a < asn1_key b) \<and> (n = 0 \<longleftrightarrow> asn1_key a = asn1_key b)"
proof -
  obtain la pa where la: "asn1_cmp_length a = Ok (la, pa)" "asn1_len a = (la, pa)" "la \<le> length (as_bytes a)"
    using asn1_cmp_length_wf [OF a] by (metis fst_conv surj_pair)
  obtain lb pb where lb: "asn1_cmp_length b = Ok (lb, pb)" "asn1_len b = (lb, pb)" "lb \<le> length (as_bytes b)"
    using asn1_cmp_length_wf [OF b] by (metis fst_conv surj_pair)
  consider "la \<noteq> lb" | "la = lb" "pa \<noteq> pb" | "la = lb" "pa = pb" by blast
  then show ?thesis
  proof cases
    case 3
    have m: "(OPENSSL_memcmp (as_bytes a) (as_bytes b) lb < 0 \<longleftrightarrow> take lb (as_bytes a) < take lb (as_bytes b)) \<and>
        (OPENSSL_memcmp (as_bytes a) (as_bytes b) lb = 0 \<longleftrightarrow> take lb (as_bytes a) = take lb (as_bytes b))"
      using OPENSSL_memcmp_lex [of "take lb (as_bytes a)" "take lb (as_bytes b)"] la lb 3
      by (simp add: OPENSSL_memcmp_take)
    show ?thesis
      using 3 la lb m by (auto simp: ASN1_STRING_cmp_def asn1_key_def Let_def not_less)
  qed (use la lb in \<open>auto simp: ASN1_STRING_cmp_def asn1_key_def\<close>)
qed

definition asn1_sign :: "asn1_string \<Rightarrow> asn1_string \<Rightarrow> int" where
  "asn1_sign a b = (case ASN1_STRING_cmp a b of Ok n \<Rightarrow> n | _ \<Rightarrow> 0)"

lemma asn1_sign_key:
  "asn1_string_wf a \<Longrightarrow> asn1_string_wf b \<Longrightarrow>
     (asn1_sign a b < 0 \<longleftrightarrow> asn1_key a < asn1_key b) \<and> (asn1_sign a b = 0 \<longleftrightarrow> asn1_key a = asn1_key b)"
  using ASN1_STRING_cmp_order [of a b] by (auto simp: asn1_sign_def)

interpretation asn1_strings: c_compare asn1_sign "{s. asn1_string_wf s}"
proof
  fix a b c assume "a \<in> {s. asn1_string_wf s}" "b \<in> {s. asn1_string_wf s}"
  then have k: "asn1_string_wf a" "asn1_string_wf b" by simp_all
  show "asn1_sign a b < 0 \<longleftrightarrow> 0 < asn1_sign b a"
    using asn1_sign_key [OF k] asn1_sign_key [OF k(2,1)]
    by (metis linorder_less_linear order_less_asym)
  assume "c \<in> {s. asn1_string_wf s}" "asn1_sign a b \<le> 0" "asn1_sign b c \<le> 0"
  then have c: "asn1_string_wf c" and le: "asn1_key a \<le> asn1_key b" "asn1_key b \<le> asn1_key c"
    using asn1_sign_key [OF k] asn1_sign_key [OF k(2), of c] by (auto simp: order_le_less)
  from le have "asn1_key a \<le> asn1_key c" by (rule order_trans)
  then show "asn1_sign a c \<le> 0" using asn1_sign_key [OF k(1) c] by (auto simp: order_le_less)
qed

end
