(* ===== verification/Asn1_Bits.thy ===== *)
theory Asn1_Bits
  imports Asn1_String
begin

text \<open>
  crypto/asn1/a_bitstr.c: BIT STRING values. With \<open>ASN1_STRING_FLAG_BITS_LEFT\<close> set,
  the low flag bits hold the number of unused bits; without it, trailing zero bits are
  dropped when the value is written. Bit numbers are not negative.
\<close>

section \<open>Operations\<close>

definition ASN1_BIT_STRING_set :: "allocator \<Rightarrow> byte list option \<Rightarrow> int \<Rightarrow> (asn1_string, unit) op" where
  "ASN1_BIT_STRING_set mem d len = ASN1_STRING_set mem d len"

definition ASN1_BIT_STRING_num_bytes :: "asn1_string \<Rightarrow> nat result" where
  "ASN1_BIT_STRING_num_bytes str =
     (case asn1_bit_string_length str of
        Ok (len, padding_bits) \<Rightarrow> if padding_bits \<noteq> 0 then Err else Ok len
      | Err \<Rightarrow> Err
      | Abort \<Rightarrow> Abort)"

definition i2c_ASN1_BIT_STRING ::
    "asn1_string option \<Rightarrow> (byte list \<times> nat) option \<Rightarrow> (nat \<times> (byte list \<times> nat) option) result" where
  "i2c_ASN1_BIT_STRING a pp =
     (case a of
        None \<Rightarrow> Err
      | Some a \<Rightarrow>
          (case asn1_bit_string_length a of
             Ok (len, bits) \<Rightarrow>
               if len > INT_MAX - 1 then Err
               else (case pp of
                  None \<Rightarrow> Ok (1 + len, None)
                | Some (block, pos) \<Rightarrow>
                    if length block \<le> pos then Abort
                    else
                      (case OPENSSL_memcpy (block[pos := of_nat bits]) (pos + 1) (as_bytes a) len of
                         None \<Rightarrow> Abort
                       | Some block \<Rightarrow>
                           (let p = pos + 1;
                                block = (if len > 0
                                         then block[p + (len - 1) := block ! (p + (len - 1)) AND push_bit bits 0xff]
                                         else block)
                            in Ok (1 + len, Some (block, p + len)))))
           | Err \<Rightarrow> Err
           | Abort \<Rightarrow> Abort))"

text \<open>
  As \<open>c2i_ASN1_INTEGER\<close>, on the memory at \<open>*pp\<close> and the object at \<open>*a\<close>. The
  flags of a reused object are written before its bytes are allocated.
\<close>

definition bits_left_flags :: "nat \<Rightarrow> int \<Rightarrow> int" where
  "bits_left_flags padding flags =
     (flags AND NOT (ASN1_STRING_FLAG_BITS_LEFT OR 0x07)) OR (ASN1_STRING_FLAG_BITS_LEFT OR int padding)"

definition c2i_ASN1_BIT_STRING ::
    "bool \<Rightarrow> allocator \<Rightarrow> int \<Rightarrow> (byte list \<times> asn1_string option, asn1_string) op" where
  "c2i_ASN1_BIT_STRING struct_ok mem len st =
     (case st of (inp, a) \<Rightarrow>
        if len < 1 then (Err, st)
        else if len > int INT_MAX then (Err, st)
        else
          (case (if a = None then ASN1_STRING_type_new struct_ok V_ASN1_BIT_STRING else a) of
             None \<Rightarrow> (Err, st)
           | Some ret \<Rightarrow>
               if length inp < nat len then (Abort, st)
               else
                 (let padding = unat (inp ! 0);
                      p = tl inp;
                      len = nat len - 1 in
                  if padding > 7 then (Err, st)
                  else if padding \<noteq> 0 \<and> (len < 1 \<or> p ! (len - 1) AND (push_bit padding 1 - 1) \<noteq> 0) then (Err, st)
                  else
                    (let ret = ret\<lparr>as_flags := bits_left_flags padding (as_flags ret)\<rparr>;
                         s = (if len > 0 then OPENSSL_memdup mem p len else None) in
                     if len > 0 \<and> s = None then (Err, (inp, if a = None then None else Some ret))
                     else
                       (let ret = ret\<lparr>as_length := len, as_data := s, as_type := V_ASN1_BIT_STRING\<rparr>
                        in (Ok ret, (drop len p, Some ret)))))))"

text \<open>The last two lines of \<open>ASN1_BIT_STRING_set_bit\<close>: store the byte, drop zero bytes.\<close>

definition set_bit_store :: "nat \<Rightarrow> byte \<Rightarrow> byte \<Rightarrow> (asn1_string, unit) op" where
  "set_bit_store w iv v a =
     (let data = as_bytes a in
      if length data \<le> w \<or> length data < as_length a then (Abort, a)
      else
        (let data = data[w := (data ! w AND iv) OR v]
         in (Ok (), a\<lparr>as_data := Some data, as_length := trim_zeros data (as_length a)\<rparr>)))"

definition ASN1_BIT_STRING_set_bit ::
    "allocator \<Rightarrow> nat \<Rightarrow> bool \<Rightarrow> (asn1_string option, unit) op" where
  "ASN1_BIT_STRING_set_bit mem n val a =
     (let w = n div 8;
          v = push_bit (7 - n mod 8) 1 :: byte;
          iv = NOT v;
          v = (if \<not> val then 0 else v) in
      case a of
        None \<Rightarrow> (Err, a)
      | Some a \<Rightarrow>
          (let a = a\<lparr>as_flags := as_flags a AND NOT (ASN1_STRING_FLAG_BITS_LEFT OR 0x07)\<rparr> in
           if as_length a < w + 1 \<or> as_data a = None then
             if \<not> val then (Ok (), Some a)
             else
               (case (case as_data a of None \<Rightarrow> mem (w + 1) | Some d \<Rightarrow> OPENSSL_realloc mem d (w + 1)) of
                  None \<Rightarrow> (Err, Some a)
                | Some c \<Rightarrow>
                    (case (if w + 1 > as_length a
                           then OPENSSL_memset c (as_length a) 0 (w + 1 - as_length a) else Some c) of
                       None \<Rightarrow> (Abort, Some a)
                     | Some c \<Rightarrow> apsnd Some (set_bit_store w iv v (a\<lparr>as_data := Some c, as_length := w + 1\<rparr>))))
           else apsnd Some (set_bit_store w iv v a)))"

definition ASN1_BIT_STRING_get_bit :: "asn1_string option \<Rightarrow> nat \<Rightarrow> bool result" where
  "ASN1_BIT_STRING_get_bit a n =
     (let w = n div 8; v = push_bit (7 - n mod 8) 1 :: byte in
      case a of
        None \<Rightarrow> Ok False
      | Some a \<Rightarrow>
          if as_length a < w + 1 \<or> as_data a = None then Ok False
          else if length (as_bytes a) \<le> w then Abort
          else Ok (as_bytes a ! w AND v \<noteq> 0))"

fun bit_string_check_loop :: "byte list \<Rightarrow> byte list \<Rightarrow> bool" where
  "bit_string_check_loop [] flags = True"
| "bit_string_check_loop (d # data) flags =
     (let m = (case flags of [] \<Rightarrow> 0xff | f # _ \<Rightarrow> NOT f) in
      if d AND m = 0 then bit_string_check_loop data (tl flags) else False)"

definition ASN1_BIT_STRING_check :: "asn1_string option \<Rightarrow> byte list \<Rightarrow> bool result" where
  "ASN1_BIT_STRING_check a flags =
     (case a of
        None \<Rightarrow> Ok True
      | Some a \<Rightarrow>
          (case as_data a of
             None \<Rightarrow> Ok True
           | Some data \<Rightarrow>
               if length data < as_length a then Abort
               else Ok (bit_string_check_loop (take (as_length a) data) flags)))"

end
