(* ===== verification/Asn1_Bit_Props.thy ===== *)
theory Asn1_Bit_Props
  imports Asn1_Bits
begin

text \<open>
  What a_bitstr.c computes: reading, writing and testing BIT STRINGs against the validity
  check and the bit numbering of cbs.c, and setting single bits.
\<close>

section \<open>The bits of a string\<close>

definition asn1_bit :: "asn1_string \<Rightarrow> nat \<Rightarrow> bool" where
  "asn1_bit s n \<longleftrightarrow> n div 8 < as_length s \<and> bit_at (as_bytes s) n"

lemma ASN1_BIT_STRING_get_bit_eq:
  "asn1_string_wf s \<Longrightarrow> ASN1_BIT_STRING_get_bit (Some s) n = Ok (asn1_bit s n)"
  by (auto simp: ASN1_BIT_STRING_get_bit_def asn1_bit_def bit_at_def asn1_string_wf_def byte_and_bit as_bytes_def
      Let_def not_less simp del: push_bit_of_1 split: option.splits)

lemma bit_at_take: "n div 8 < k \<Longrightarrow> bit_at (take k bs) n = bit_at bs n"
  by (simp add: bit_at_def)

lemma bit_at_zero: "n div 8 < length bs \<Longrightarrow> bs ! (n div 8) = 0 \<Longrightarrow> \<not> bit_at bs n"
  by (simp add: bit_at_def)

lemma trim_zeros_dropped:
  "k \<le> length data \<Longrightarrow> trim_zeros data k \<le> i \<Longrightarrow> i < k \<Longrightarrow> data ! i = 0"
proof (induction k)
  case (Suc k)
  then show ?case by (cases "data ! k = 0"; cases "i = k") (auto split: if_splits)
qed simp

lemma asn1_bit_trim:
  assumes "as_length s \<le> length (as_bytes s)"
  shows "asn1_bit (s\<lparr>as_length := trim_zeros (as_bytes s) (as_length s)\<rparr>) n = asn1_bit s n"
proof -
  let ?t = "trim_zeros (as_bytes s) (as_length s)"
  have b: "as_bytes (s\<lparr>as_length := ?t\<rparr>) = as_bytes s" by (simp add: as_bytes_def)
  have le: "?t \<le> as_length s" by (rule trim_zeros_le)
  have z: "as_bytes s ! (n div 8) = 0" if "?t \<le> n div 8" "n div 8 < as_length s"
    using trim_zeros_dropped [OF assms that] .
  show ?thesis
  proof (cases "n div 8 < ?t")
    case True
    with le show ?thesis by (simp add: asn1_bit_def b)
  next
    case False
    with z show ?thesis by (auto simp: asn1_bit_def b bit_at_def)
  qed
qed

section \<open>Setting a bit\<close>

lemma byte_store_bit:
  "bit ((b AND NOT (push_bit k 1)) OR (if v then push_bit k 1 else 0 :: byte)) j =
     (if j = k \<and> k < 8 then v else bit b j)"
  by (cases "j < 8") (auto simp: bit_simps)

lemma bit_at_update:
  assumes "n div 8 < length bs"
  shows "bit_at (bs[n div 8 := (bs ! (n div 8) AND NOT (push_bit (7 - n mod 8) 1)) OR
            (if v then push_bit (7 - n mod 8) 1 else 0)]) m = (if m = n then v else bit_at bs m)"
proof (cases "m div 8 = n div 8")
  case True
  have "7 - m mod 8 = 7 - n mod 8 \<longleftrightarrow> m = n"
  proof
    assume "7 - m mod 8 = 7 - n mod 8"
    moreover have "m mod 8 < 8" "n mod 8 < 8" by simp_all
    ultimately have "m mod 8 = n mod 8" by linarith
    with True show "m = n" by (metis div_mult_mod_eq)
  qed simp
  moreover have "7 - n mod 8 < 8" by simp
  ultimately show ?thesis using assms True by (simp only: bit_at_def nth_list_update_eq byte_store_bit) simp
qed (auto simp: bit_at_def)

lemma set_bit_store_spec:
  assumes wf: "asn1_string_wf a" and w: "n div 8 < as_length a"
  obtains t where "set_bit_store (n div 8) (NOT (push_bit (7 - n mod 8) 1)) (if v then push_bit (7 - n mod 8) 1 else 0) a = (Ok (), t)"
    "asn1_string_wf t" "as_flags t = as_flags a" "as_type t = as_type a"
    "\<And>m. asn1_bit t m = (if m = n then v else asn1_bit a m)"
proof -
  define d where "d = (as_bytes a)[n div 8 := (as_bytes a ! (n div 8) AND NOT (push_bit (7 - n mod 8) 1)) OR
            (if v then push_bit (7 - n mod 8) 1 else 0)]"
  define s where "s = a\<lparr>as_data := Some d\<rparr>"
  have len: "n div 8 < length (as_bytes a)" "as_length a \<le> length (as_bytes a)"
    using wf w by (simp_all add: asn1_string_wf_def)
  have s: "as_bytes s = d" "as_length s = as_length a" "length d = length (as_bytes a)"
    by (simp_all add: s_def as_bytes_def d_def)
  show thesis
  proof (rule that)
    show "set_bit_store (n div 8) (NOT (push_bit (7 - n mod 8) 1)) (if v then push_bit (7 - n mod 8) 1 else 0) a =
        (Ok (), s\<lparr>as_length := trim_zeros d (as_length a)\<rparr>)"
      using len unfolding set_bit_store_def Let_def d_def [symmetric]
      by (simp add: s_def)
    show "asn1_string_wf (s\<lparr>as_length := trim_zeros d (as_length a)\<rparr>)"
      using trim_zeros_le [of d "as_length a"] len s by (simp add: asn1_string_wf_def as_bytes_def s_def)
    fix m
    have "asn1_bit (s\<lparr>as_length := trim_zeros d (as_length a)\<rparr>) m = asn1_bit s m"
      using asn1_bit_trim [of s m] s len by simp
    also have "\<dots> = (if m = n then v else asn1_bit a m)"
      using bit_at_update [OF len(1), of v m] w unfolding asn1_bit_def s d_def by auto
    finally show "asn1_bit (s\<lparr>as_length := trim_zeros d (as_length a)\<rparr>) m = (if m = n then v else asn1_bit a m)" .
  qed (simp_all add: s_def)
qed

lemma OPENSSL_memset_zeros:
  assumes "k \<le> length c" and "length c = n"
  shows "(if n > k then OPENSSL_memset c k 0 (n - k) else Some c) = Some (take k c @ replicate (n - k) 0)"
  using assms by (auto simp: OPENSSL_memset_def)

lemma ASN1_BIT_STRING_set_bit_cases:
  assumes mem: "alloc_ok mem" and wf: "asn1_string_wf a"
  obtains (set) t where "ASN1_BIT_STRING_set_bit mem n v (Some a) = (Ok (), Some t)" "asn1_string_wf t"
      "as_flags t AND ASN1_STRING_FLAG_BITS_LEFT = 0" "\<And>m. asn1_bit t m = (if m = n then v else asn1_bit a m)"
  | (failed) t where "ASN1_BIT_STRING_set_bit mem n v (Some a) = (Err, Some t)" "mem (n div 8 + 1) = None" "v"
      "t = a\<lparr>as_flags := as_flags a AND NOT (ASN1_STRING_FLAG_BITS_LEFT OR 7)\<rparr>"
proof -
  define w where "w = n div 8"
  define x :: byte where "x = push_bit (7 - n mod 8) 1"
  define a' where "a' = a\<lparr>as_flags := as_flags a AND NOT (ASN1_STRING_FLAG_BITS_LEFT OR 7)\<rparr>"
  have wf': "asn1_string_wf a'" and a': "as_bytes a' = as_bytes a" "as_length a' = as_length a" "as_data a' = as_data a"
    using wf by (simp_all add: a'_def)
  have bits: "asn1_bit a' m = asn1_bit a m" for m by (simp add: asn1_bit_def a')
  have fl: "as_flags a' AND ASN1_STRING_FLAG_BITS_LEFT = 0"
    by (simp add: a'_def ASN1_STRING_FLAG_BITS_LEFT_def and.assoc)
  have swap: "(if \<not> v then 0 else x) = (if v then x else 0)" by simp
  have eq: "ASN1_BIT_STRING_set_bit mem n v (Some a) =
      (if as_length a' < w + 1 \<or> as_data a' = None then
         if \<not> v then (Ok (), Some a')
         else
           (case (case as_data a' of None \<Rightarrow> mem (w + 1) | Some d \<Rightarrow> OPENSSL_realloc mem d (w + 1)) of
              None \<Rightarrow> (Err, Some a')
            | Some c \<Rightarrow>
                (case (if w + 1 > as_length a'
                       then OPENSSL_memset c (as_length a') 0 (w + 1 - as_length a') else Some c) of
                   None \<Rightarrow> (Abort, Some a')
                 | Some c \<Rightarrow> apsnd Some (set_bit_store w (NOT x) (if v then x else 0) (a'\<lparr>as_data := Some c, as_length := w + 1\<rparr>))))
       else apsnd Some (set_bit_store w (NOT x) (if v then x else 0) a'))"
    unfolding ASN1_BIT_STRING_set_bit_def Let_def w_def [symmetric] x_def [symmetric] option.case a'_def [symmetric]
    unfolding swap ..
  show thesis
  proof (cases "as_length a' < w + 1 \<or> as_data a' = None")
    case False
    then have "n div 8 < as_length a'" by (simp add: w_def)
    from set_bit_store_spec [OF wf' this, of v] obtain t where
      "set_bit_store w (NOT x) (if v then x else 0) a' = (Ok (), t)" "asn1_string_wf t" "as_flags t = as_flags a'"
      "\<And>m. asn1_bit t m = (if m = n then v else asn1_bit a' m)" unfolding w_def x_def by blast
    with fl bits show thesis by (intro set [of t]) (simp_all only: eq if_not_P [OF False] apsnd_conv)
  next
    case out: True
    have len: "as_length a' \<le> w"
      using out wf' by (auto simp: asn1_string_wf_def as_bytes_def)
    show thesis
    proof (cases v)
      case False
      have "\<not> asn1_bit a n" using len by (simp add: asn1_bit_def a' w_def)
      moreover have "ASN1_BIT_STRING_set_bit mem n v (Some a) = (Ok (), Some a')"
        using False unfolding eq if_P [OF out] by simp
      ultimately show thesis using False wf' fl bits by (intro set [of a']) auto
    next
      case True
      show thesis
      proof (cases "case as_data a' of None \<Rightarrow> mem (w + 1) | Some d \<Rightarrow> OPENSSL_realloc mem d (w + 1)")
        case None
        then have "mem (w + 1) = None" by (auto simp: OPENSSL_realloc_def split: option.splits)
        moreover have "ASN1_BIT_STRING_set_bit mem n v (Some a) = (Err, Some a')"
          using True None unfolding eq if_P [OF out] by simp
        ultimately show thesis using True unfolding w_def by (intro failed [of a'] a'_def) simp_all
      next
        case (Some c)
        then have lc: "length c = w + 1"
          using mem by (auto dest: alloc_okD length_OPENSSL_realloc split: option.splits)
        have tc: "take (as_length a') c = take (as_length a') (as_bytes a')"
          using Some wf' len by (auto simp: asn1_string_wf_def as_bytes_def intro: take_OPENSSL_realloc split: option.splits)
        define c' where "c' = take (as_length a') c @ replicate (w + 1 - as_length a') 0"
        have set_c: "(if w + 1 > as_length a' then OPENSSL_memset c (as_length a') 0 (w + 1 - as_length a') else Some c) = Some c'"
          unfolding c'_def using lc len by (intro OPENSSL_memset_zeros) simp_all
        define b where "b = a'\<lparr>as_data := Some c', as_length := w + 1\<rparr>"
        have lc': "length c' = w + 1" using len lc by (simp add: c'_def)
        have wb: "asn1_string_wf b" "n div 8 < as_length b" "as_flags b = as_flags a'"
          using lc' by (simp_all add: b_def asn1_string_wf_def as_bytes_def w_def)
        have bb: "asn1_bit b m = asn1_bit a m" for m
        proof (cases "m div 8 < as_length a'")
          case True
          then have "c' ! (m div 8) = as_bytes a' ! (m div 8)"
            using lc len unfolding c'_def tc by (simp add: nth_append) (use wf' in \<open>auto simp: asn1_string_wf_def\<close>)
          with True len show ?thesis by (simp add: asn1_bit_def bits [symmetric] b_def as_bytes_def bit_at_def a')
        next
          case False
          then have "c' ! (m div 8) = 0" if "m div 8 < w + 1"
            using that lc len by (simp add: c'_def nth_append)
          with False show ?thesis by (auto simp: asn1_bit_def a' b_def as_bytes_def bit_at_def)
        qed
        from set_bit_store_spec [OF wb(1,2), of v] obtain t where t:
          "set_bit_store w (NOT x) (if v then x else 0) b = (Ok (), t)" "asn1_string_wf t" "as_flags t = as_flags b"
          "\<And>m. asn1_bit t m = (if m = n then v else asn1_bit b m)" unfolding w_def x_def by blast
        have nv: "\<not> \<not> v" using True by simp
        have "ASN1_BIT_STRING_set_bit mem n v (Some a) = (Ok (), Some t)"
          unfolding eq if_P [OF out] if_not_P [OF nv] Some option.case set_c b_def [symmetric] t(1) apsnd_conv ..
        with t(2-) fl bb wb(3) show thesis by (intro set [of t]) simp_all
      qed
    qed
  qed
qed

section \<open>The encoding\<close>

text \<open>The bytes and the number of unused bits that a string stands for.\<close>

definition bit_string_of :: "asn1_string \<Rightarrow> nat \<Rightarrow> byte list \<Rightarrow> bool" where
  "bit_string_of s u bs \<longleftrightarrow>
     asn1_bit_string_length s = Ok (length bs, u) \<and> take (length bs) (as_bytes s) = bs \<and> bitstring_ok u bs"

lemma bitstring_ok_last:
  assumes "bs \<noteq> []"
  shows "bitstring_ok u bs \<longleftrightarrow> u < 8 \<and> (\<forall>k<u. \<not> bit (List.last bs) k)"
  using unused_bits_clear [OF assms, of u] assms by (auto simp: bitstring_ok_def)

lemma bit_string_implicit:
  assumes wf: "asn1_string_wf s" and fl: "as_flags s AND ASN1_STRING_FLAG_BITS_LEFT = 0"
  obtains u bs where "bit_string_of s u bs" "length bs \<le> as_length s" "bs = [] \<Longrightarrow> u = 0"
    "bs \<noteq> [] \<Longrightarrow> bit (List.last bs) u" "\<And>n. asn1_bit s n \<longleftrightarrow> n div 8 < length bs \<and> bit_at bs n"
proof -
  define k where "k = trim_zeros (as_bytes s) (as_length s)"
  define bs where "bs = take k (as_bytes s)"
  define u where "u = (if 0 < k then padding_loop (as_bytes s ! (k - 1)) 0 else 0)"
  have len: "as_length s \<le> length (as_bytes s)" using wf by (simp add: asn1_string_wf_def)
  have k: "k \<le> as_length s" unfolding k_def by (rule trim_zeros_le)
  have lb: "length bs = k" using k len by (simp add: bs_def)
  have last: "List.last bs = as_bytes s ! (k - 1)" if "bs \<noteq> []"
    using that lb k len by (simp add: last_conv_nth bs_def)
  note pad = padding_loop_props [of 0 "as_bytes s ! (k - 1)"]
  have nz: "bit (List.last bs) u" if "bs \<noteq> []"
  proof (rule ccontr)
    assume no: "\<not> bit (List.last bs) u"
    have kpos: "0 < k" using that lb by auto
    with no pad last [OF that] have "u = 7" by (auto simp: u_def le_eq_less_or_eq)
    with no pad kpos last [OF that] have "\<not> bit (List.last bs) j" if "j < 8" for j
      using that by (cases "j = 7") (auto simp: u_def)
    then have "List.last bs = 0" by (auto intro!: bit_word_eqI)
    with trim_zeros_last [of "as_bytes s" "as_length s"] kpos last [OF that] show False by (simp add: k_def)
  qed
  show thesis
  proof (rule that)
    have "asn1_bit_string_length s = Ok (k, u)"
      using fl len by (simp add: asn1_bit_string_length_def Let_def k_def u_def)
    moreover have "bitstring_ok u bs"
    proof (cases "bs = []")
      case True
      then show ?thesis using lb by (auto simp: bitstring_ok_def u_def)
    next
      case False
      moreover from False have "0 < k" using lb by auto
      ultimately show ?thesis using pad last [OF False] unfolding bitstring_ok_last [OF False] by (auto simp: u_def)
    qed
    ultimately show "bit_string_of s u bs" by (simp add: bit_string_of_def lb) (simp add: bs_def)
    show "length bs \<le> as_length s" by (simp add: lb k)
    show "bs = [] \<Longrightarrow> u = 0" using lb by (auto simp: u_def)
    show "bs \<noteq> [] \<Longrightarrow> bit (List.last bs) u" by (rule nz)
    fix n
    have "asn1_bit s n = asn1_bit (s\<lparr>as_length := k\<rparr>) n" using asn1_bit_trim [OF len, of n] by (simp add: k_def)
    also have "\<dots> \<longleftrightarrow> n div 8 < length bs \<and> bit_at bs n"
      unfolding lb by (auto simp: asn1_bit_def as_bytes_def bs_def bit_at_take)
    finally show "asn1_bit s n \<longleftrightarrow> n div 8 < length bs \<and> bit_at bs n" .
  qed
qed

lemma byte_mask_high:
  assumes "\<forall>k<u. \<not> bit (b :: byte) k"
  shows "b AND push_bit u 0xff = b"
proof (rule bit_word_eqI)
  fix n assume "n < LENGTH(8)"
  then have n: "n < 8" by simp
  have "bit (0xff :: byte) m" if "m < 8" for m
    using bit_mask_iff [of 8 m, where 'a = byte] that by (simp add: mask_eq_exp_minus_1)
  then show "bit (b AND push_bit u 0xff) n = bit b n"
    using assms n by (cases "u \<le> n") (auto simp: bit_simps)
qed

lemma i2c_ASN1_BIT_STRING_eq:
  assumes s: "bit_string_of s u bs" and len: "length bs < INT_MAX"
  defines "e \<equiv> of_nat u # bs"
  shows "i2c_ASN1_BIT_STRING (Some s) None = Ok (length e, None)"
    and "length old = length e \<Longrightarrow>
      i2c_ASN1_BIT_STRING (Some s) (Some (front @ old @ rest, length front)) =
        Ok (length e, Some (front @ e @ rest, length front + length e))"
proof -
  have l: "asn1_bit_string_length s = Ok (length bs, u)" and t: "take (length bs) (as_bytes s) = bs"
    and ok: "bitstring_ok u bs" using s by (simp_all add: bit_string_of_def)
  have small: "\<not> length bs > INT_MAX - 1" using len by simp
  show "i2c_ASN1_BIT_STRING (Some s) None = Ok (length e, None)"
    using small by (simp add: i2c_ASN1_BIT_STRING_def l e_def)
  assume "length old = length e"
  then obtain o1 o2 where old: "old = o1 # o2" "length o2 = length bs" by (cases old) (auto simp: e_def)
  have len_s: "length bs \<le> length (as_bytes s)" using t by (metis length_take min.cobounded1 nat_le_linear take_all_iff)
  have upd: "(front @ old @ rest)[length front := of_nat u] = (front @ [of_nat u]) @ o2 @ rest"
    by (simp add: old)
  have cpy: "OPENSSL_memcpy ((front @ [of_nat u]) @ o2 @ rest) (length front + 1) (as_bytes s) (length bs) =
      Some (front @ e @ rest)"
    using OPENSSL_memcpy_at [of o2 "length bs" "as_bytes s" "front @ [of_nat u]" rest] old len_s t by (simp add: e_def)
  have mask: "(if 0 < length bs
      then (front @ e @ rest)[length front + 1 + (length bs - 1) :=
             (front @ e @ rest) ! (length front + 1 + (length bs - 1)) AND push_bit u 0xff]
      else front @ e @ rest) = front @ e @ rest"
  proof (cases "bs = []")
    case False
    have "(front @ e @ rest) ! (length front + 1 + (length bs - 1)) = List.last bs"
      using False by (simp add: e_def nth_append last_conv_nth)
    moreover from this have "List.last bs AND push_bit u 0xff = List.last bs"
      using ok unfolding bitstring_ok_last [OF False] by (intro byte_mask_high) blast
    ultimately show ?thesis by (metis list_update_id)
  qed simp
  have room: "\<not> length (front @ old @ rest) \<le> length front" by (simp add: old)
  have "i2c_ASN1_BIT_STRING (Some s) (Some (front @ old @ rest, length front)) =
      Ok (1 + length bs, Some (front @ e @ rest, length front + 1 + length bs))"
    unfolding i2c_ASN1_BIT_STRING_def option.case l result.case prod.case if_not_P [OF small] if_not_P [OF room]
      upd cpy Let_def mask ..
  then show "i2c_ASN1_BIT_STRING (Some s) (Some (front @ old @ rest, length front)) =
      Ok (length e, Some (front @ e @ rest, length front + length e))"
    by (simp add: e_def)
qed

end
