(* ===== verification/Asn1_Bit_Read.thy ===== *)
theory Asn1_Bit_Read
  imports Asn1_Bit_Props
begin

text \<open>
  Reading BIT STRINGs, the comparison of a string with a set of allowed bits, and the
  properties of crypto/asn1/a_bitstr.c.
\<close>

section \<open>Reading the contents\<close>

lemma bits_left_flags_and:
  assumes "p < 8"
  shows "bits_left_flags p f AND ASN1_STRING_FLAG_BITS_LEFT \<noteq> 0" "bits_left_flags p f AND 7 = int p"
proof -
  have "p \<in> {0, 1, 2, 3, 4, 5, 6, 7}" using assms by auto
  then show "bits_left_flags p f AND ASN1_STRING_FLAG_BITS_LEFT \<noteq> 0" "bits_left_flags p f AND 7 = int p"
    by (auto simp: bits_left_flags_def ASN1_STRING_FLAG_BITS_LEFT_def bit.conj_disj_distrib2 and.assoc)
qed

text \<open>The memory that reading \<open>n\<close> bytes of contents asks for.\<close>

definition bits_memory :: "bool \<Rightarrow> allocator \<Rightarrow> nat \<Rightarrow> bool" where
  "bits_memory struct_ok mem n \<longleftrightarrow> struct_ok \<and> (1 < n \<longrightarrow> mem (n - 1) \<noteq> None)"

lemma padding_check:
  "(unat u > 7 \<or> unat u \<noteq> 0 \<and> (length bs < 1 \<or> (bs @ rest) ! (length bs - 1) AND (push_bit (unat u) 1 - 1) \<noteq> 0)) \<longleftrightarrow>
     \<not> bitstring_ok (unat u) bs"
proof (cases "bs = []")
  case True
  then show ?thesis by (auto simp: bitstring_ok_def)
next
  case False
  then have "(bs @ rest) ! (length bs - 1) = List.last bs" by (simp add: nth_append last_conv_nth)
  then show ?thesis
    using False unfolding bitstring_ok_last [OF False] byte_and_low_mask by (auto simp: not_less)
qed

lemma c2i_ASN1_BIT_STRING_cases:
  assumes mem: "bits_memory struct_ok mem (length c)" and len: "length c \<le> INT_MAX"
  obtains (read) u bs s where "c = u # bs" "bitstring_ok (unat u) bs"
      "c2i_ASN1_BIT_STRING struct_ok mem (int (length c)) (c @ rest, a) = (Ok s, (rest, Some s))"
      "bit_string_of s (unat u) bs" "asn1_string_wf s" "as_type s = V_ASN1_BIT_STRING"
  | (invalid) "\<not> CBS_is_valid_asn1_bitstring c"
      "c2i_ASN1_BIT_STRING struct_ok mem (int (length c)) (c @ rest, a) = (Err, (c @ rest, a))"
proof (cases c)
  case Nil
  then show thesis by (intro invalid) (simp_all add: CBS_is_valid_asn1_bitstring_iff c2i_ASN1_BIT_STRING_def)
next
  case (Cons u bs)
  obtain ret where ret: "(if a = None then ASN1_STRING_type_new struct_ok V_ASN1_BIT_STRING else a) = Some ret"
    using mem by (cases a) (auto simp: bits_memory_def ASN1_STRING_type_new_def)
  have g: "\<not> int (length c) < 1" "\<not> int (length c) > int INT_MAX" "\<not> length (c @ rest) < nat (int (length c))"
    "nat (int (length c)) - 1 = length bs" "tl (c @ rest) = bs @ rest" "(c @ rest) ! 0 = u"
    using len by (simp_all add: Cons)
  define r where "r = ret\<lparr>as_flags := bits_left_flags (unat u) (as_flags ret)\<rparr>"
  define s where "s = (if length bs > 0 then OPENSSL_memdup mem (bs @ rest) (length bs) else None)"
  have eq: "c2i_ASN1_BIT_STRING struct_ok mem (int (length c)) (c @ rest, a) =
      (if \<not> bitstring_ok (unat u) bs then (Err, (c @ rest, a))
       else if length bs > 0 \<and> s = None then (Err, (c @ rest, if a = None then None else Some r))
       else let t = r\<lparr>as_length := length bs, as_data := s, as_type := V_ASN1_BIT_STRING\<rparr>
            in (Ok t, (drop (length bs) (bs @ rest), Some t)))"
    unfolding c2i_ASN1_BIT_STRING_def prod.case if_not_P [OF g(1)] if_not_P [OF g(2)] ret option.case
      if_not_P [OF g(3)] g(4-6) Let_def padding_check [of u bs rest, symmetric] r_def s_def
    by simp
  show thesis
  proof (cases "bitstring_ok (unat u) bs")
    case False
    show thesis
    proof (rule invalid)
      show "\<not> CBS_is_valid_asn1_bitstring c" using False by (simp add: CBS_is_valid_asn1_bitstring_iff Cons)
      show "c2i_ASN1_BIT_STRING struct_ok mem (int (length c)) (c @ rest, a) = (Err, (c @ rest, a))"
        unfolding eq using False by simp
    qed
  next
    case True
    have s: "s = (if bs = [] then None else Some bs)"
      using mem by (auto simp: s_def OPENSSL_memdup_def bits_memory_def Cons split: option.split)
    define t where "t = r\<lparr>as_length := length bs, as_data := s, as_type := V_ASN1_BIT_STRING\<rparr>"
    have b: "as_bytes t = bs" by (simp add: t_def s as_bytes_def)
    have "unat u < 8" using True by (simp add: bitstring_ok_def)
    then have f: "as_flags t AND ASN1_STRING_FLAG_BITS_LEFT \<noteq> 0" "as_flags t AND 7 = int (unat u)"
      using bits_left_flags_and [of "unat u"] by (simp_all add: t_def r_def)
    have "bs = [] \<longrightarrow> unat u = 0" using True by (auto simp: bitstring_ok_def)
    then have l: "asn1_bit_string_length t = Ok (length bs, unat u)"
    proof -
      have "as_length t = length bs" by (simp add: t_def)
      with f \<open>bs = [] \<longrightarrow> unat u = 0\<close> show ?thesis
        by (simp add: asn1_bit_string_length_def Let_def del: of_nat_unat)
    qed
    show thesis
    proof (rule read)
      show "c2i_ASN1_BIT_STRING struct_ok mem (int (length c)) (c @ rest, a) = (Ok t, (rest, Some t))"
        unfolding eq using True s by (simp add: t_def Let_def)
      show "bit_string_of t (unat u) bs" using True l b by (simp add: bit_string_of_def)
      show "asn1_string_wf t" by (simp add: asn1_string_wf_def b) (simp add: t_def)
    qed (use Cons True in \<open>simp_all add: t_def\<close>)
  qed
qed

section \<open>The allowed bits\<close>

lemma bit_string_check_loop_iff:
  "bit_string_check_loop data flags \<longleftrightarrow>
     (\<forall>i<length data. \<forall>k<8. bit (data ! i) k \<longrightarrow> i < length flags \<and> bit (flags ! i) k)"
proof (induction data flags rule: bit_string_check_loop.induct)
  case (2 d data flags)
  define m where "m = (case flags of [] \<Rightarrow> 0xff | f # _ \<Rightarrow> NOT f)"
  have bitff: "bit (0xff :: byte) k" if "k < 8" for k
    using bit_mask_iff [of 8 k, where 'a = byte] that by (simp add: mask_eq_exp_minus_1)
  have zero: "d AND m = 0 \<longleftrightarrow> (\<forall>k<8. bit d k \<longrightarrow> 0 < length flags \<and> bit (flags ! 0) k)"
    using bitff by (cases flags) (force simp: m_def bit_eq_iff bit_simps)+
  have IH: "d AND m = 0 \<Longrightarrow> bit_string_check_loop data (tl flags) \<longleftrightarrow>
      (\<forall>i<length data. \<forall>k<8. bit (data ! i) k \<longrightarrow> i < length (tl flags) \<and> bit (tl flags ! i) k)"
    using 2 m_def by blast
  have tl: "i < length (tl flags) \<and> bit (tl flags ! i) k \<longleftrightarrow> Suc i < length flags \<and> bit (flags ! Suc i) k" for i k
    by (cases flags) auto
  show ?case
    using IH zero unfolding tl
    by (auto simp: m_def [symmetric] Let_def All_less_Suc2)
qed simp

section \<open>Properties\<close>

text \<open>
  C15. The contents of a BIT STRING are accepted exactly when the validity check of cbs.c accepts
  them; the object that was read is written as the same bytes, and a refused input leaves
  the position and a reused object as they were.
\<close>

theorem bit_string_roundtrip:
  assumes "bits_memory struct_ok mem (length c)" and "length c \<le> INT_MAX" and "length old = length c"
  shows "if CBS_is_valid_asn1_bitstring c
         then \<exists>s. c2i_ASN1_BIT_STRING struct_ok mem (int (length c)) (c @ rest, a) = (Ok s, (rest, Some s)) \<and>
                i2c_ASN1_BIT_STRING (Some s) (Some (front @ old @ after, length front)) =
                  Ok (length c, Some (front @ c @ after, length front + length c))
         else c2i_ASN1_BIT_STRING struct_ok mem (int (length c)) (c @ rest, a) = (Err, (c @ rest, a))"
proof (cases rule: c2i_ASN1_BIT_STRING_cases [OF assms(1,2), of rest a])
  case (1 u bs s)
  have "length bs < INT_MAX" using assms(2) 1(1) by simp
  from i2c_ASN1_BIT_STRING_eq(2) [OF 1(4) this, of old front after] assms(3)
  have "i2c_ASN1_BIT_STRING (Some s) (Some (front @ old @ after, length front)) =
      Ok (length c, Some (front @ c @ after, length front + length c))" by (simp add: 1(1))
  with 1(1-3) show ?thesis by (auto simp: CBS_is_valid_asn1_bitstring_iff)
qed simp

theorem bit_string_roundtrip_witness:
  "\<exists>s. c2i_ASN1_BIT_STRING True (\<lambda>n. Some (replicate n 0)) 2 ([4, 0xf0, 9], None) = (Ok s, ([9], Some s)) \<and>
       i2c_ASN1_BIT_STRING (Some s) (Some ([0, 0], 0)) = Ok (2, Some ([4, 0xf0], 2))"
proof -
  have "CBS_is_valid_asn1_bitstring [4, 0xf0]"
    by (simp add: CBS_is_valid_asn1_bitstring_def CBS_get_u8_eq CBS_get_last_u8_eq)
  then show ?thesis
    using bit_string_roundtrip [of True "\<lambda>n. Some (replicate n 0)" "[4, 0xf0]" "[0, 0]" "[9]" None "[]" "[]"]
    by (simp add: bits_memory_def INT_MAX_def numeral_2_eq_2)
qed

text \<open>
  C29. Setting a bit changes that bit and no other, whatever the length of the string was, and
  leaves a readable string.
\<close>

theorem bit_set_get:
  assumes "alloc_ok mem" and "asn1_string_wf a" and "mem (n div 8 + 1) \<noteq> None"
  shows "\<exists>t. ASN1_BIT_STRING_set_bit mem n v (Some a) = (Ok (), Some t) \<and> asn1_string_wf t \<and>
           ASN1_BIT_STRING_get_bit (Some t) m =
             (if m = n then Ok v else ASN1_BIT_STRING_get_bit (Some a) m)"
proof (cases rule: ASN1_BIT_STRING_set_bit_cases [OF assms(1,2), of n v])
  case (1 t)
  then show ?thesis
    by (intro exI [of _ t]) (simp add: ASN1_BIT_STRING_get_bit_eq [OF 1(2)] ASN1_BIT_STRING_get_bit_eq [OF assms(2)])
qed (use assms(3) in simp)

theorem bit_set_get_witness:
  "\<exists>t. ASN1_BIT_STRING_set_bit (\<lambda>n. Some (replicate n 0)) 9 True
         (Some \<lparr>as_length = 1, as_type = 3, as_data = Some [0x80], as_flags = 0xf\<rparr>) = (Ok (), Some t) \<and>
       ASN1_BIT_STRING_get_bit (Some t) 9 = Ok True"
  using bit_set_get [of "\<lambda>n. Some (replicate n 0)" "\<lparr>as_length = 1, as_type = 3, as_data = Some [0x80], as_flags = 0xf\<rparr>"
      9 True 9]
  by (auto simp: alloc_ok_def asn1_string_wf_def as_bytes_def)

text \<open>
  A string whose bits were set one by one is written without trailing zero bits, as DER
  requires of a named bit list, and the reader of cbs.c finds exactly the bits that are set.
\<close>

theorem bit_string_written:
  assumes "asn1_string_wf s" and "as_flags s AND ASN1_STRING_FLAG_BITS_LEFT = 0" and "as_length s < INT_MAX"
  shows "\<exists>u bs. i2c_ASN1_BIT_STRING (Some s) None = Ok (Suc (length bs), None) \<and>
           (if bs = [] then u = 0 else bit_at bs (8 * length bs - unat u - 1)) \<and>
           CBS_asn1_bitstring_has_bit (u # bs) n = asn1_bit s (unat n) \<and>
           i2c_ASN1_BIT_STRING (Some s) (Some (replicate (Suc (length bs)) 0, 0)) = Ok (Suc (length bs), Some (u # bs, Suc (length bs)))"
proof -
  obtain u bs where s: "bit_string_of s u bs" "length bs \<le> as_length s" "bs = [] \<Longrightarrow> u = 0"
    "bs \<noteq> [] \<Longrightarrow> bit (List.last bs) u" "\<And>n. asn1_bit s n \<longleftrightarrow> n div 8 < length bs \<and> bit_at bs n"
    using bit_string_implicit [OF assms(1,2)] by metis
  have ok: "bitstring_ok u bs" and u8: "u < 8" using s(1) by (auto simp: bit_string_of_def bitstring_ok_def)
  have u: "unat (of_nat u :: byte) = u" using u8 by simp
  have len: "length bs < INT_MAX" using s(2) assms(3) by simp
  note w = i2c_ASN1_BIT_STRING_eq [OF s(1) len]
  have top: "bit_at bs (8 * length bs - u - 1)" if ne: "bs \<noteq> []"
  proof -
    obtain m where m: "length bs = Suc m" using ne by (cases bs) auto
    have e: "8 * length bs - u - 1 = 8 * m + (7 - u)" using u8 by (simp add: m)
    have "(8 * m + (7 - u)) div 8 = m" "(8 * m + (7 - u)) mod 8 = 7 - u" by simp_all
    then show ?thesis using s(4) [OF ne] u8 ne m unfolding e by (simp add: bit_at_def last_conv_nth)
  qed
  have has: "CBS_asn1_bitstring_has_bit (of_nat u # bs) n = asn1_bit s (unat n)"
    unfolding CBS_asn1_bitstring_has_bit_iff s(5) using ok u
    by (auto simp: div_less_iff_less_mult mult.commute simp del: unat_of_nat_byte)
  show ?thesis
  proof (intro exI conjI)
    show "i2c_ASN1_BIT_STRING (Some s) None = Ok (Suc (length bs), None)" using w(1) by simp
    show "if bs = [] then of_nat u = (0 :: byte) else bit_at bs (8 * length bs - unat (of_nat u :: byte) - 1)"
      using s(3) top unfolding u by auto
    show "CBS_asn1_bitstring_has_bit (of_nat u # bs) n = asn1_bit s (unat n)" by (rule has)
    show "i2c_ASN1_BIT_STRING (Some s) (Some (replicate (Suc (length bs)) 0, 0)) =
        Ok (Suc (length bs), Some (of_nat u # bs, Suc (length bs)))"
      using w(2) [of "replicate (Suc (length bs)) 0" "[]" "[]"] by simp
  qed
qed

theorem bit_string_written_witness:
  "\<exists>u bs. i2c_ASN1_BIT_STRING (Some \<lparr>as_length = 2, as_type = 3, as_data = Some [0x60, 0], as_flags = 0\<rparr>) None =
       Ok (Suc (length bs), None) \<and> CBS_asn1_bitstring_has_bit (u # bs) 1"
proof -
  let ?s = "\<lparr>as_length = 2, as_type = 3, as_data = Some [0x60, 0], as_flags = 0\<rparr>"
  have "asn1_bit ?s (unat (1 :: u32))" by (simp add: asn1_bit_def as_bytes_def bit_at_def)
  then show ?thesis
    using bit_string_written [of ?s 1] by (auto simp: asn1_string_wf_def as_bytes_def INT_MAX_def)
qed

text \<open>A string passes the check exactly when each of its bits is among the allowed ones.\<close>

theorem bit_string_check:
  assumes "asn1_string_wf a"
  shows "ASN1_BIT_STRING_check (Some a) flags =
           Ok (\<forall>n\<in>{..<8 * as_length a}. asn1_bit a n \<longrightarrow> n div 8 < length flags \<and> bit_at flags n)"
proof -
  define data where "data = as_contents a"
  have len: "length data = as_length a" using assms by (simp add: data_def)
  have "ASN1_BIT_STRING_check (Some a) flags = Ok (bit_string_check_loop data flags)"
    using assms by (auto simp: ASN1_BIT_STRING_check_def data_def as_contents_def as_bytes_def asn1_string_wf_def split: option.split)
  also have "bit_string_check_loop data flags \<longleftrightarrow>
      (\<forall>n\<in>{..<8 * as_length a}. asn1_bit a n \<longrightarrow> n div 8 < length flags \<and> bit_at flags n)" (is "_ \<longleftrightarrow> ?all")
  proof
    assume c: "bit_string_check_loop data flags"
    show ?all
    proof (intro ballI impI)
      fix n assume "n \<in> {..<8 * as_length a}" "asn1_bit a n"
      then have "n div 8 < length data" "bit (data ! (n div 8)) (7 - n mod 8)"
        using len by (simp_all add: asn1_bit_def bit_at_def data_def as_contents_def)
      then show "n div 8 < length flags \<and> bit_at flags n"
      proof -
        have "7 - n mod 8 < 8" by simp
        with c \<open>n div 8 < length data\<close> \<open>bit (data ! (n div 8)) (7 - n mod 8)\<close> show ?thesis
          unfolding bit_string_check_loop_iff bit_at_def by blast
      qed
    qed
  next
    assume all: ?all
    show "bit_string_check_loop data flags"
      unfolding bit_string_check_loop_iff
    proof (intro allI impI)
      fix i k :: nat assume i: "i < length data" and k: "k < 8" and b: "bit (data ! i) k"
      define n where "n = 8 * i + (7 - k)"
      have n: "n div 8 = i" "n mod 8 = 7 - k" by (simp_all add: n_def)
      then have k': "7 - n mod 8 = k" using k by simp
      have "n < 8 * as_length a" using i k unfolding n_def len by linarith
      moreover have "asn1_bit a n"
        using i b len unfolding asn1_bit_def bit_at_def n(1) k' by (simp add: data_def as_contents_def)
      ultimately have "n div 8 < length flags \<and> bit_at flags n" using all by simp
      then show "i < length flags \<and> bit (flags ! i) k" unfolding bit_at_def n(1) k' .
    qed
  qed
  finally show ?thesis .
qed

theorem bit_string_check_witness:
  "ASN1_BIT_STRING_check (Some \<lparr>as_length = 1, as_type = 3, as_data = Some [0x40], as_flags = 0\<rparr>) [0x80] = Ok False"
proof -
  have b: "asn1_bit \<lparr>as_length = 1, as_type = 3, as_data = Some [0x40], as_flags = 0\<rparr> 1"
    by (simp add: asn1_bit_def as_bytes_def bit_at_def)
  have "\<not> bit_at [0x80] 1" by (simp add: bit_at_def)
  with b show ?thesis
    using bit_string_check [of "\<lparr>as_length = 1, as_type = 3, as_data = Some [0x40], as_flags = 0\<rparr>" "[0x80]"]
    by (auto simp: asn1_string_wf_def as_bytes_def intro!: bexI [of _ 1])
qed

text \<open>
  A failed allocation is not clean: the flags of a reused object already describe the string
  that was not read, so that the number of its unused bits has changed.
\<close>

theorem bit_string_failed_read:
  "\<exists>s. c2i_ASN1_BIT_STRING True (\<lambda>_. None) 2
         ([4, 0xf0], Some \<lparr>as_length = 1, as_type = 3, as_data = Some [0xff], as_flags = 8\<rparr>) = (Err, ([4, 0xf0], Some s)) \<and>
       asn1_bit_string_length \<lparr>as_length = 1, as_type = 3, as_data = Some [0xff], as_flags = 8\<rparr> = Ok (1, 0) \<and>
       asn1_bit_string_length s = Ok (1, 4)"
  by (simp add: c2i_ASN1_BIT_STRING_def INT_MAX_def Let_def OPENSSL_memdup_def bits_left_flags_def
      ASN1_STRING_FLAG_BITS_LEFT_def asn1_bit_string_length_def)

end
