(* ===== verification/Asn1_Object.thy ===== *)
theory Asn1_Object
  imports Cbb_Asn1
begin

text \<open>
  crypto/asn1/asn1_lib.c: the element headers of the older ASN.1 code, read with the CBS
  parser and written directly into memory, and their size.
\<close>

section \<open>Reading a header\<close>

definition CBS_ASN1_CLASS_MASK :: CBS_ASN1_TAG where
  "CBS_ASN1_CLASS_MASK = push_bit CBS_ASN1_TAG_SHIFT 0xc0"

definition V_ASN1_UNIVERSAL :: int where
  "V_ASN1_UNIVERSAL = 0"

definition V_ASN1_MAX_UNIVERSAL :: int where
  "V_ASN1_MAX_UNIVERSAL = 0xff"

text \<open>
  The bytes from \<open>*inp\<close> on are the state, left at the first byte of the body; the
  result is the returned constructed bit, the length, the tag number and the class.
\<close>

definition ASN1_get_object :: "int \<Rightarrow> (byte list, int \<times> int \<times> int \<times> int) op" where
  "ASN1_get_object in_len inp =
     (if in_len < 0 then (Err, inp)
      else if length inp < nat in_len then (Abort, inp)
      else
        (let cbs = take (nat in_len) inp in
         case CBS_get_any_asn1 cbs of
           (Ok (tag, body), after) \<Rightarrow>
             if CBS_len body > INT_MAX div 2 then (Err, inp)
             else
               (let tag_class = uint (drop_bit CBS_ASN1_TAG_SHIFT (tag AND CBS_ASN1_CLASS_MASK));
                    constructed = uint (drop_bit CBS_ASN1_TAG_SHIFT (tag AND CBS_ASN1_CONSTRUCTED));
                    tag_number = uint (tag AND CBS_ASN1_TAG_NUMBER_MASK)
                in if tag_class = V_ASN1_UNIVERSAL \<and> tag_number > V_ASN1_MAX_UNIVERSAL then (Err, inp)
                   else (Ok (constructed, int (CBS_len body), tag_number, tag_class),
                         drop (CBS_len cbs - CBS_len after - CBS_len body) inp))
         | (Err, _) \<Rightarrow> (Err, inp)
         | (Abort, _) \<Rightarrow> (Abort, inp)))"

section \<open>Writing a header\<close>

text \<open>A pointer into a block: a store outside the block is not defined.\<close>

type_synonym out_ptr = "byte list \<times> nat"

definition put_at :: "nat \<Rightarrow> byte \<Rightarrow> (out_ptr, unit) op" where
  "put_at i b = (\<lambda>(block, p). if p + i < length block then (Ok (), (block[p + i := b], p)) else (Abort, (block, p)))"

definition put_skip :: "nat \<Rightarrow> (out_ptr, unit) op" where
  "put_skip n = (\<lambda>(block, p). (Ok (), (block, p + n)))"

definition put_byte :: "byte \<Rightarrow> (out_ptr, unit) op" where
  "put_byte b = op_then (put_at 0 b) (put_skip 1)"

text \<open>How often a number can be shifted before it is zero.\<close>

function shift_count :: "nat \<Rightarrow> nat \<Rightarrow> nat" where
  "shift_count k v = (if v > 0 \<and> 0 < k then Suc (shift_count k (v div 2 ^ k)) else 0)"
  by pat_completeness auto
termination
  by (relation "measure snd") (auto intro!: div_less_dividend one_less_power)

declare shift_count.simps [simp del]

fun put_length_loop :: "nat \<Rightarrow> nat \<Rightarrow> (out_ptr, unit) op" where
  "put_length_loop 0 len = op_ret ()"
| "put_length_loop (Suc i) len =
     op_then (put_at i (of_nat len AND 0xff)) (put_length_loop i (len div 2 ^ 8))"

definition asn1_put_length :: "int \<Rightarrow> (out_ptr, unit) op" where
  "asn1_put_length len =
     (if len \<le> 127 then put_byte (of_int len)
      else
        (let l = shift_count 8 (nat len)
         in op_then (put_byte (of_nat l OR 0x80)) (op_then (put_length_loop l (nat len)) (put_skip l))))"

fun put_tag_loop :: "nat \<Rightarrow> nat \<Rightarrow> nat \<Rightarrow> (out_ptr, unit) op" where
  "put_tag_loop 0 ttag tag = op_ret ()"
| "put_tag_loop (Suc i) ttag tag =
     op_then (put_at i (if i \<noteq> ttag - 1 then (of_nat tag AND 0x7f) OR 0x80 else of_nat tag AND 0x7f))
       (put_tag_loop i ttag (tag div 2 ^ 7))"

definition ASN1_put_object :: "int \<Rightarrow> int \<Rightarrow> int \<Rightarrow> int \<Rightarrow> (out_ptr, unit) op" where
  "ASN1_put_object constructed len tag xclass =
     (let i = (if constructed \<noteq> 0 then 0x20 else 0) OR (xclass AND 0xc0) in
      op_then
        (if tag < 31 then put_byte (of_int (i OR (tag AND 0x1f)))
         else
           (let ttag = shift_count 7 (nat tag)
            in op_then (put_byte (of_int (i OR 0x1f)))
                 (op_then (put_tag_loop ttag ttag (nat tag)) (put_skip ttag))))
        (if constructed = 2 then put_byte 0x80 else asn1_put_length len))"

definition ASN1_put_eoc :: "(out_ptr, int) op" where
  "ASN1_put_eoc = op_then (put_byte 0) (op_then (put_byte 0) (op_ret 2))"

definition ASN1_object_size :: "int \<Rightarrow> int \<Rightarrow> int \<Rightarrow> int" where
  "ASN1_object_size constructed len tag =
     (if len < 0 then -1
      else
        (let ret = 1 + (if tag \<ge> 31 then int (shift_count 7 (nat tag)) else 0);
             ret = (if constructed = 2 then ret + 3
                    else ret + 1 + (if len > 127 then int (shift_count 8 (nat len)) else 0))
         in if ret \<ge> int INT_MAX - len then -1 else ret + len))"

section \<open>Stores\<close>

definition puts :: "(out_ptr, unit) op \<Rightarrow> byte list \<Rightarrow> bool" where
  "puts m bs \<longleftrightarrow>
     (\<forall>front old rest. length old = length bs \<longrightarrow>
        m (front @ old @ rest, length front) = (Ok (), (front @ bs @ rest, length front + length bs)))"

lemma putsD:
  "puts m bs \<Longrightarrow> length old = length bs \<Longrightarrow>
     m (front @ old @ rest, length front) = (Ok (), (front @ bs @ rest, length front + length bs))"
  by (simp add: puts_def)

lemma puts_then:
  assumes a: "puts m as" and b: "puts k bs"
  shows "puts (op_then m k) (as @ bs)"
  unfolding puts_def
proof (intro allI impI)
  fix front old rest :: "byte list" assume len: "length old = length (as @ bs)"
  define o1 o2 where "o1 = take (length as) old" and "o2 = drop (length as) old"
  have o: "old = o1 @ o2" "length o1 = length as" "length o2 = length bs"
    using len by (simp_all add: o1_def o2_def)
  have "m (front @ o1 @ o2 @ rest, length front) = (Ok (), (front @ as @ o2 @ rest, length front + length as))"
    by (rule putsD [OF a o(2)])
  moreover have "k ((front @ as) @ o2 @ rest, length (front @ as)) =
      (Ok (), ((front @ as) @ bs @ rest, length (front @ as) + length bs))"
    by (rule putsD [OF b o(3)])
  ultimately show "op_then m k (front @ old @ rest, length front) =
      (Ok (), (front @ (as @ bs) @ rest, length front + length (as @ bs)))"
    by (simp add: op_then_apply o(1) add.assoc)
qed

lemma puts_byte: "puts (put_byte b) [b]"
  by (auto simp: puts_def put_byte_def put_at_def put_skip_def op_then_apply length_Suc_conv)

text \<open>A loop that stores \<open>n\<close> bytes from the last to the first leaves the pointer alone.\<close>

definition puts_back :: "(out_ptr, unit) op \<Rightarrow> byte list \<Rightarrow> bool" where
  "puts_back m bs \<longleftrightarrow>
     (\<forall>front old rest. length old = length bs \<longrightarrow>
        m (front @ old @ rest, length front) = (Ok (), (front @ bs @ rest, length front)))"

lemma puts_back_Nil: "puts_back (op_ret ()) []"
  by (simp add: puts_back_def)

lemma puts_back_snoc:
  assumes "puts_back m bs"
  shows "puts_back (op_then (put_at (length bs) b) m) (bs @ [b])"
  unfolding puts_back_def
proof (intro allI impI)
  fix front old rest :: "byte list" assume "length old = length (bs @ [b])"
  then obtain o1 x where o: "old = o1 @ [x]" "length o1 = length bs"
    by (cases old rule: rev_cases) auto
  have "(front @ old @ rest)[length front + length bs := b] = front @ o1 @ b # rest"
    using o by (simp add: list_update_append)
  then show "op_then (put_at (length bs) b) m (front @ old @ rest, length front) = (Ok (), (front @ (bs @ [b]) @ rest, length front))"
    using assms o by (simp add: puts_back_def put_at_def op_then_apply)
qed

lemma puts_back_skip: "puts_back m bs \<Longrightarrow> n = length bs \<Longrightarrow> puts (op_then m (put_skip n)) bs"
  by (simp add: puts_def puts_back_def op_then_apply put_skip_def)

section \<open>The bytes of a header\<close>

lemma puts_back_length: "puts_back (put_length_loop n v) (be_bytes n v)"
proof (induction n arbitrary: v)
  case (Suc n)
  have "(of_nat v :: byte) AND 0xff = take_bit 8 (of_nat v)"
    by (simp add: take_bit_eq_mask mask_eq_exp_minus_1)
  then have "(of_nat v :: byte) AND 0xff = of_nat v" by (simp add: take_bit_word_eq_self)
  with puts_back_snoc [OF Suc [of "v div 2 ^ 8"], of "of_nat v"] show ?case by simp
qed (simp add: puts_back_Nil)

lemma shift_count_range:
  "0 < v \<Longrightarrow> 0 < k \<Longrightarrow> 1 \<le> shift_count k v \<and> (2 ^ k) ^ (shift_count k v - 1) \<le> v \<and> v < (2 ^ k) ^ shift_count k v"
proof (induction k v rule: shift_count.induct)
  case (1 k v)
  show ?case
  proof (cases "v div 2 ^ k = 0")
    case True
    then have "shift_count k v = 1" using 1 by (subst shift_count.simps) (simp add: shift_count.simps)
    with True 1 show ?thesis by (simp add: div_eq_0_iff)
  next
    case False
    define n where "n = shift_count k (v div 2 ^ k)"
    have IH: "1 \<le> n" "(2 ^ k) ^ (n - 1) \<le> v div 2 ^ k" "v div 2 ^ k < (2 ^ k) ^ n"
      using 1 False by (simp_all add: n_def)
    have sc: "shift_count k v = Suc n" using 1 by (subst shift_count.simps) (simp add: n_def)
    have "(2 ^ k) ^ (n - 1) * 2 ^ k \<le> v" using IH(2) by (simp add: less_eq_div_iff_mult_less_eq)
    moreover have "(2 ^ k) ^ (n - 1) * 2 ^ k = ((2 :: nat) ^ k) ^ n" using IH(1) by (cases n) simp_all
    moreover have "v < (2 ^ k) ^ n * 2 ^ k" using IH(3) by (simp add: div_less_iff_less_mult)
    ultimately show ?thesis by (simp add: sc mult.commute)
  qed
qed

lemma shift_count_len_len: "128 \<le> n \<Longrightarrow> n < 2 ^ 32 \<Longrightarrow> shift_count 8 n = len_len n"
proof -
  assume n: "128 \<le> n" "n < 2 ^ 32"
  have r: "1 \<le> shift_count 8 n" "256 ^ (shift_count 8 n - 1) \<le> n" "n < 256 ^ shift_count 8 n"
    using shift_count_range [of n 8] n by simp_all
  have "shift_count 8 n \<le> 4"
  proof (rule ccontr)
    assume "\<not> shift_count 8 n \<le> 4"
    then have "(256 :: nat) ^ 4 \<le> 256 ^ (shift_count 8 n - 1)" by (intro power_increasing) simp_all
    with r(2) n(2) show False by simp
  qed
  with r show ?thesis by (intro len_len_unique [symmetric]) simp_all
qed

lemma shift_count_radix: "0 < v \<Longrightarrow> shift_count 7 v = length (radix 128 v)"
proof (induction "128 :: nat" v rule: radix.induct)
  case (1 v)
  show ?case
  proof (cases "v < 128")
    case True
    then have "shift_count 7 v = 1" using 1(2) by (subst shift_count.simps) (simp add: shift_count.simps)
    with True show ?thesis by (simp add: radix_small)
  next
    case False
    then have "0 < v div 128" by (simp add: div_greater_zero_iff)
    with 1 False have "shift_count 7 (v div 128) = length (radix 128 (v div 128))" by simp
    moreover have "radix 128 v = radix 128 (v div 128) @ [v mod 128]" using False by (subst radix.simps) simp
    moreover have "shift_count 7 v = Suc (shift_count 7 (v div 128))" using 1(2) by (subst shift_count.simps) simp
    ultimately show ?thesis by simp
  qed
qed

lemma tag_byte_low: "(of_nat v :: byte) AND 0x7f = of_nat (v mod 128)"
proof -
  have "v mod 256 mod 128 = v mod 128" by (rule mod_mod_cancel) simp
  moreover have "v mod 128 < 256" by (rule less_trans [of _ 128]) simp_all
  ultimately show ?thesis by (simp add: word_unat_eq_iff byte_and_7f)
qed

lemma tag_byte_high: "((of_nat v :: byte) AND 0x7f) OR 0x80 = b128_hi (v mod 128)"
proof -
  have v: "v mod 128 < 256" by (rule less_trans [of _ 128]) simp_all
  then have "unat (of_nat (v mod 128) :: byte) = v mod 128" by simp
  then show ?thesis unfolding tag_byte_low by (subst byte_or_80) (simp_all add: b128_hi_def)
qed

lemma puts_back_tag:
  "i = length (radix 128 v) \<Longrightarrow> i \<le> ttag \<Longrightarrow>
     puts_back (put_tag_loop i ttag v) (if i = ttag then b128_enc v else map b128_hi (radix 128 v))"
proof (induction i arbitrary: v)
  case (Suc i)
  show ?case
  proof (cases "v < 128")
    case True
    then have r: "radix 128 v = [v]" by (rule radix_small)
    with Suc.prems have "i = 0" by simp
    then show ?thesis
      using puts_back_snoc [OF puts_back_Nil, of "b128_hi v"] puts_back_snoc [OF puts_back_Nil, of "of_nat v"] Suc.prems(2) True
        tag_byte_high [of v, unfolded tag_byte_low]
      by (auto simp: b128_enc_def r Let_def tag_byte_low)
  next
    case False
    then have r: "radix 128 v = radix 128 (v div 128) @ [v mod 128]" by (subst radix.simps) simp
    with Suc.prems have i: "i = length (radix 128 (v div 128))" "i \<le> ttag" "i \<noteq> ttag" by simp_all
    have IH: "puts_back (put_tag_loop i ttag (v div 2 ^ 7)) (map b128_hi (radix 128 (v div 128)))"
      using Suc.IH [OF i(1,2)] i(3) by simp
    have "puts_back (put_tag_loop (Suc i) ttag v) (map b128_hi (radix 128 (v div 128)) @
        [if i \<noteq> ttag - 1 then b128_hi (v mod 128) else of_nat (v mod 128)])"
      using puts_back_snoc [OF IH] i(1) unfolding put_tag_loop.simps tag_byte_high unfolding tag_byte_low by simp
    moreover have "i \<noteq> ttag - 1 \<longleftrightarrow> Suc i \<noteq> ttag" using Suc.prems(2) by linarith
    ultimately show ?thesis by (auto simp: b128_enc_def r Let_def)
  qed
qed simp

lemma puts_length:
  assumes "0 \<le> len" and "len < 2 ^ 32"
  shows "puts (asn1_put_length len) (der_length (nat len))"
proof (cases "len \<le> 127")
  case True
  then have "of_int len = (of_nat (nat len) :: byte)" using assms(1) by simp
  with True assms(1) show ?thesis using puts_byte [of "of_nat (nat len)"] by (simp add: asn1_put_length_def der_length_def nat_less_iff)
next
  case False
  define n where "n = nat len"
  have n: "128 \<le> n" "n < 2 ^ 32" using False assms by (simp_all add: n_def nat_less_iff le_nat_iff)
  have l: "shift_count 8 n = len_len n" by (rule shift_count_len_len [OF n])
  have "unat (of_nat (len_len n) :: byte) = len_len n" using len_len_range [OF n(2)] by simp
  then have h: "of_nat (len_len n) OR 0x80 = (of_nat (128 + len_len n) :: byte)"
    using len_len_range [OF n(2)] by (subst byte_or_80) simp_all
  have "puts (op_then (put_byte (of_nat (len_len n) OR 0x80))
      (op_then (put_length_loop (len_len n) n) (put_skip (len_len n))))
      ([of_nat (128 + len_len n)] @ be_bytes (len_len n) n)"
    unfolding h by (intro puts_then puts_byte puts_back_skip puts_back_length) simp
  then show ?thesis using False n by (simp add: asn1_put_length_def der_length_def l n_def [symmetric] Let_def)
qed

section \<open>The tag\<close>

definition asn1_first :: "int \<Rightarrow> int \<Rightarrow> byte" where
  "asn1_first constructed xclass = of_int ((if constructed \<noteq> 0 then 0x20 else 0) OR (xclass AND 0xc0))"

definition asn1_tag_word :: "int \<Rightarrow> int \<Rightarrow> int \<Rightarrow> CBS_ASN1_TAG" where
  "asn1_tag_word constructed tag xclass =
     push_bit CBS_ASN1_TAG_SHIFT ((ucast (asn1_first constructed xclass) :: u32) AND 0xe0) OR of_int tag"

lemma byte_of_int_or: "(of_int (a OR b) :: byte) = of_int a OR of_int b"
  by (rule bit_word_eqI) (simp add: bit_simps)

lemma byte_of_int_and: "(of_int (a AND b) :: byte) = of_int a AND of_int b"
  by (rule bit_word_eqI) (simp add: bit_simps)

lemma asn1_first_high: "asn1_first constructed xclass AND 0xe0 = asn1_first constructed xclass"
proof -
  have "(of_int (xclass AND 192) :: byte) AND 0xe0 = of_int (xclass AND 192)"
    by (simp add: byte_of_int_and and.assoc)
  then show ?thesis by (simp add: asn1_first_def byte_of_int_or bit.conj_disj_distrib2)
qed

lemma puts_tag:
  fixes constructed xclass :: int
  assumes "0 \<le> tag" and "tag < 2 ^ 29"
  defines "i \<equiv> (if constructed \<noteq> 0 then 0x20 else 0) OR (xclass AND 0xc0)"
  shows "puts (if tag < 31 then put_byte (of_int (i OR (tag AND 0x1f)))
         else
           (let ttag = shift_count 7 (nat tag)
            in op_then (put_byte (of_int (i OR 0x1f)))
                 (op_then (put_tag_loop ttag ttag (nat tag)) (put_skip ttag))))
         (der_tag (asn1_tag_word constructed tag xclass))"
proof -
  define n where "n = nat tag"
  have n: "int n = tag" "n < 2 ^ 29" using assms(1,2) by (simp_all add: n_def nat_less_iff)
  have w: "unat (of_int tag :: u32) = n"
    using n by (simp add: n(1) [symmetric] unsigned_of_nat take_bit_nat_eq_self)
  have b: "of_int i = asn1_first constructed xclass" by (simp add: i_def asn1_first_def)
  have der: "der_tag (asn1_tag_word constructed tag xclass) =
     (if 31 \<le> n then (of_int i OR 0x1f) # b128_enc n else [of_int i OR of_nat n])"
    using der_tag_join [of "of_int tag" "asn1_first constructed xclass"] n(2)
    unfolding w asn1_first_high asn1_tag_word_def b by simp
  show ?thesis
  proof (cases "tag < 31")
    case True
    have "tag AND 0x1f = tag"
      using take_bit_int_eq_self [of tag 5] True assms(1) by (simp add: take_bit_eq_mask mask_eq_exp_minus_1)
    then have "of_int (i OR (tag AND 0x1f)) = (of_int i OR of_nat n :: byte)"
      by (simp add: byte_of_int_or n(1) [symmetric])
    with True n show ?thesis using puts_byte [of "of_int i OR of_nat n"] by (simp add: der)
  next
    case False
    then have pos: "0 < n" "31 \<le> n" using n by simp_all
    have sc: "shift_count 7 n = length (radix 128 n)" by (rule shift_count_radix [OF pos(1)])
    have "puts (op_then (put_byte (of_int i OR 0x1f))
        (op_then (put_tag_loop (shift_count 7 n) (shift_count 7 n) n) (put_skip (shift_count 7 n))))
        ([of_int i OR 0x1f] @ b128_enc n)"
      using puts_back_tag [OF sc, of "shift_count 7 n"]
      by (intro puts_then puts_byte puts_back_skip) (simp_all add: sc length_b128_enc)
    with False pos show ?thesis by (simp add: der Let_def n_def [symmetric] byte_of_int_or)
  qed
qed

lemma puts_object:
  assumes "0 \<le> tag" and "tag < 2 ^ 29" and "0 \<le> len" and "len < 2 ^ 32" and "constructed \<noteq> 2"
  shows "puts (ASN1_put_object constructed len tag xclass)
     (der_header (asn1_tag_word constructed tag xclass) (nat len))"
  using puts_then [OF puts_tag [OF assms(1,2), of constructed xclass] puts_length [OF assms(3,4)]] assms(5)
  by (simp add: ASN1_put_object_def der_header_def Let_def)

end
