(* ===== verification/Asn1_Header.thy ===== *)
theory Asn1_Header
  imports Asn1_Object
begin

text \<open>
  The element headers of asn1_lib.c against the encoding of cbs.c: their size, writing them
  and reading them back.
\<close>

section \<open>Sizes\<close>

lemma length_der_length: "n < 2 ^ 32 \<Longrightarrow> length (der_length n) = 1 + (if 127 < n then shift_count 8 n else 0)"
  by (cases "127 < n") (simp_all add: der_length_def shift_count_len_len)

lemma asn1_word_number:
  assumes "0 \<le> tag" and "tag < 2 ^ 29"
  shows "unat (of_int tag :: u32) = nat tag"
    and "asn1_tag_word constructed tag xclass AND CBS_ASN1_TAG_NUMBER_MASK = of_int tag"
proof -
  define n where "n = nat tag"
  have n: "int n = tag" "n < 2 ^ 29" using assms by (simp_all add: n_def nat_less_iff)
  show u: "unat (of_int tag :: u32) = nat tag"
    unfolding n_def [symmetric] using n by (simp add: n(1) [symmetric] unsigned_of_nat take_bit_nat_eq_self)
  show "asn1_tag_word constructed tag xclass AND CBS_ASN1_TAG_NUMBER_MASK = of_int tag"
    unfolding asn1_tag_word_def using n(2) u by (intro tag_split_number) (simp add: n_def)
qed

lemma length_der_tag_word:
  assumes "0 \<le> tag" and "tag < 2 ^ 29"
  shows "int (length (der_tag (asn1_tag_word constructed tag xclass))) =
     1 + (if tag \<ge> 31 then int (shift_count 7 (nat tag)) else 0)"
proof (cases "tag \<ge> 31")
  case True
  then have "0 < nat tag" "31 \<le> nat tag" by simp_all
  with True show ?thesis
    by (simp add: der_tag_def Let_def asn1_word_number [OF assms] length_b128_enc shift_count_radix)
next
  case False
  then have "\<not> 31 \<le> nat tag" using assms(1) by simp
  with False show ?thesis by (simp add: der_tag_def Let_def asn1_word_number [OF assms])
qed

lemma ASN1_object_size_eq:
  fixes xclass :: int
  assumes "0 \<le> tag" and "tag < 2 ^ 29" and "0 \<le> len" and "len < 2 ^ 32" and "constructed \<noteq> 2"
  defines "n \<equiv> int (length (der_header (asn1_tag_word constructed tag xclass) (nat len))) + len"
  shows "ASN1_object_size constructed len tag = (if n < int INT_MAX then n else -1)"
proof -
  have "int (length (der_length (nat len))) = 1 + (if len > 127 then int (shift_count 8 (nat len)) else 0)"
    using length_der_length [of "nat len"] assms(3,4) by (auto simp: nat_less_iff zless_nat_eq_int_zless)
  then show ?thesis
    using assms(3,5) unfolding ASN1_object_size_def n_def der_header_def length_append of_nat_add
      length_der_tag_word [OF assms(1,2)]
    by (auto simp: Let_def)
qed

section \<open>Reading\<close>

lemma word_first_bits:
  assumes "unat n < 2 ^ 29"
  shows "drop_bit 24 ((push_bit 24 ((ucast (b :: byte) :: u32) AND 0xe0) OR n) AND CBS_ASN1_CLASS_MASK) = ucast (b AND 0xc0)"
      (is "?a = ?b")
    and "drop_bit 24 ((push_bit 24 ((ucast (b :: byte) :: u32) AND 0xe0) OR n) AND CBS_ASN1_CONSTRUCTED) = ucast (b AND 0x20)"
      (is "?c = ?d")
proof -
  have "bit ?a k = bit ?b k \<and> bit ?c k = bit ?d k" if "k < LENGTH(32)" for k
  proof -
    have "k \<in> {0,1,2,3,4,5,6,7,8,9,10,11,12,13,14,15,16,17,18,19,20,21,22,23,24,25,26,27,28,29,30,31}"
      using that by (intro nat_less_32_cases) simp
    then show ?thesis
      unfolding insert_iff empty_iff CBS_ASN1_CLASS_MASK_def CBS_ASN1_CONSTRUCTED_def using tag_number_bits [OF assms]
      by (elim disjE) (simp_all add: bit_simps)
  qed
  then show "?a = ?b" "?c = ?d" by (auto intro!: bit_word_eqI)
qed

lemma ASN1_get_object_element:
  assumes tag: "asn1_tag_ok w" and len: "length c \<le> INT_MAX div 2"
  shows "ASN1_get_object (int (length (der_element w c @ rest))) (der_element w c @ rest) =
     (let tag_class = uint (drop_bit CBS_ASN1_TAG_SHIFT (w AND CBS_ASN1_CLASS_MASK));
          tag_number = uint (w AND CBS_ASN1_TAG_NUMBER_MASK)
      in if tag_class = V_ASN1_UNIVERSAL \<and> tag_number > V_ASN1_MAX_UNIVERSAL
         then (Err, der_element w c @ rest)
         else (Ok (uint (drop_bit CBS_ASN1_TAG_SHIFT (w AND CBS_ASN1_CONSTRUCTED)), int (length c), tag_number, tag_class),
               c @ rest))"
proof -
  have small: "length c < 2 ^ 32" using len by (simp add: INT_MAX_def)
  have any: "CBS_get_any_asn1 (der_element w c @ rest) = (Ok (w, c), rest)"
    using tag small by (simp add: CBS_get_any_asn1_iff)
  have pos: "drop (length (der_element w c @ rest) - length rest - length c) (der_element w c @ rest) = c @ rest"
    by (simp add: der_element_def)
  have t: "take (nat (int (length (der_element w c @ rest)))) (der_element w c @ rest) = der_element w c @ rest" by simp
  have g: "\<not> int (length (der_element w c @ rest)) < 0"
    "\<not> length (der_element w c @ rest) < nat (int (length (der_element w c @ rest)))"
    "\<not> length c > INT_MAX div 2" using len by simp_all
  show ?thesis
    unfolding ASN1_get_object_def if_not_P [OF g(1)] if_not_P [OF g(2)] t Let_def any prod.case result.case
      if_not_P [OF g(3)] pos ..
qed

section \<open>Properties\<close>

text \<open>
  A header that is written occupies exactly the bytes that the size announced, in the
  encoding of cbs.c, and nothing around it changes.
\<close>

theorem object_header_written:
  assumes "0 \<le> tag" and "tag < 2 ^ 29" and "0 \<le> len" and "len < 2 ^ 31" and "constructed \<noteq> 2"
    and "length old = length (der_header (asn1_tag_word constructed tag xclass) (nat len))"
  shows "ASN1_put_object constructed len tag xclass (front @ old @ rest, length front) =
           (Ok (), (front @ der_header (asn1_tag_word constructed tag xclass) (nat len) @ rest, length front + length old)) \<and>
         ASN1_object_size constructed len tag =
           (if int (length old) + len < int INT_MAX then int (length old) + len else -1)"
proof -
  have len: "len < 2 ^ 32" using assms(4) by simp
  show ?thesis
    using putsD [OF puts_object [OF assms(1-3) len assms(5)] assms(6)]
      ASN1_object_size_eq [OF assms(1-3) len assms(5), of xclass] assms(6) by simp
qed

theorem object_header_written_witness:
  "ASN1_put_object 1 200 40 0x80 (replicate 5 0, 0) = (Ok (), ([0xbf, 0x28, 0x81, 0xc8, 0], 4)) \<and>
   ASN1_object_size 1 200 40 = 204"
proof -
  have h: "der_header (asn1_tag_word 1 40 0x80) 200 = [0xbf, 0x28, 0x81, 0xc8]"
    by code_simp
  have r: "replicate 5 (0 :: byte) = [] @ replicate 4 0 @ [0]" by (simp add: numeral_eq_Suc)
  show ?thesis
    using object_header_written [of 40 200 1 "replicate 4 0" "0x80" "[]" "[0]"]
    unfolding r by (simp add: h INT_MAX_def)
qed

text \<open>
  C24. Reading a header that was written, in front of any contents of the announced length, gives
  back the tag, the class, the constructed bit and the length.
\<close>

theorem object_header_roundtrip:
  assumes "0 \<le> tag" and "tag < 2 ^ 29" and "length c \<le> INT_MAX div 2"
    and "constructed \<in> {0, 1}" and "xclass \<in> {0, 0x40, 0x80, 0xc0}"
    and "xclass = 0 \<longrightarrow> 0 < tag \<and> tag \<le> V_ASN1_MAX_UNIVERSAL"
    and "length old = length (der_header (asn1_tag_word constructed tag xclass) (length c))"
  shows "\<exists>h. ASN1_put_object constructed (int (length c)) tag xclass (old @ c @ rest, 0) = (Ok (), (h @ c @ rest, length h)) \<and>
           ASN1_get_object (int (length (h @ c @ rest))) (h @ c @ rest) =
             (Ok (constructed * 0x20, int (length c), tag, xclass), c @ rest)"
proof -
  define w where "w = asn1_tag_word constructed tag xclass"
  define b where "b = asn1_first constructed xclass"
  have small: "int (length c) < 2 ^ 32" "constructed \<noteq> 2" using assms(3,4) by (auto simp: INT_MAX_def)
  note num = asn1_word_number [OF assms(1,2)]
  have u29: "unat (of_int tag :: u32) < 2 ^ 29" using num(1) assms(1,2) by (simp add: nat_less_iff)
  have w: "w = push_bit 24 ((ucast b :: u32) AND 0xe0) OR of_int tag" by (simp add: w_def b_def asn1_tag_word_def)
  have cls: "uint (drop_bit CBS_ASN1_TAG_SHIFT (w AND CBS_ASN1_CLASS_MASK)) = xclass"
    using assms(4,5) unfolding w word_first_bits(1) [OF u29] by (auto simp: b_def asn1_first_def)
  have con: "uint (drop_bit CBS_ASN1_TAG_SHIFT (w AND CBS_ASN1_CONSTRUCTED)) = constructed * 0x20"
    using assms(4,5) unfolding w word_first_bits(2) [OF u29] by (auto simp: b_def asn1_first_def)
  have tn: "uint (w AND CBS_ASN1_TAG_NUMBER_MASK) = tag"
    using num assms(1) unfolding w_def by (simp add: uint_nat)
  have ok: "asn1_tag_ok w"
  proof (rule ccontr)
    assume "\<not> asn1_tag_ok w"
    then have z: "w AND NOT CBS_ASN1_CONSTRUCTED = 0" by (simp add: asn1_tag_ok_def)
    have "CBS_ASN1_CLASS_MASK = NOT CBS_ASN1_CONSTRUCTED AND CBS_ASN1_CLASS_MASK"
      "CBS_ASN1_TAG_NUMBER_MASK = NOT CBS_ASN1_CONSTRUCTED AND CBS_ASN1_TAG_NUMBER_MASK"
      by (simp_all add: CBS_ASN1_CLASS_MASK_def CBS_ASN1_CONSTRUCTED_def CBS_ASN1_TAG_NUMBER_MASK_def)
    then have "w AND CBS_ASN1_CLASS_MASK = (w AND NOT CBS_ASN1_CONSTRUCTED) AND CBS_ASN1_CLASS_MASK"
      "w AND CBS_ASN1_TAG_NUMBER_MASK = (w AND NOT CBS_ASN1_CONSTRUCTED) AND CBS_ASN1_TAG_NUMBER_MASK"
      unfolding and.assoc by argo+
    then have "w AND CBS_ASN1_CLASS_MASK = 0" "w AND CBS_ASN1_TAG_NUMBER_MASK = 0" unfolding z by simp_all
    with cls tn have "xclass = 0" "tag = 0" by simp_all
    with assms(6) show False by simp
  qed
  define h where "h = der_header w (length c)"
  have put: "puts (ASN1_put_object constructed (int (length c)) tag xclass) h"
    using puts_object [OF assms(1,2) _ small, of xclass] by (simp add: h_def w_def)
  have "ASN1_put_object constructed (int (length c)) tag xclass (old @ c @ rest, 0) = (Ok (), (h @ c @ rest, length h))"
    using putsD [OF put, of old "[]" "c @ rest"] assms(7) by (simp add: h_def w_def)
  moreover have "ASN1_get_object (int (length (h @ c @ rest))) (h @ c @ rest) =
      (Ok (constructed * 0x20, int (length c), tag, xclass), c @ rest)"
    using ASN1_get_object_element [OF ok assms(3), of rest] assms(6)
    unfolding der_element_def h_def [symmetric] append.assoc cls con tn Let_def
    by (auto simp: V_ASN1_UNIVERSAL_def)
  ultimately show ?thesis by blast
qed

theorem object_header_roundtrip_witness:
  "\<exists>h. ASN1_put_object 1 3 40 0x80 ([0, 0, 0, 7, 8, 9], 0) = (Ok (), (h @ [7, 8, 9], length h)) \<and>
       ASN1_get_object (int (length (h @ [7, 8, 9]))) (h @ [7, 8, 9]) = (Ok (0x20, 3, 40, 0x80), [7, 8, 9])"
proof -
  have h: "length (der_header (asn1_tag_word 1 40 0x80) 3) = 3"
    by code_simp
  show ?thesis
    using object_header_roundtrip [of 40 "[7, 8, 9]" 1 "0x80" "[0, 0, 0]" "[]"] h
    by (simp add: INT_MAX_def V_ASN1_MAX_UNIVERSAL_def numeral_3_eq_3)
qed

end
