(* ===== verification/Asn1_Integer.thy ===== *)
theory Asn1_Integer
  imports Asn1_String
begin

text \<open>
  crypto/asn1/a_int.c: INTEGER and ENUMERATED values as a sign in the type and the
  magnitude in big-endian bytes, converted to and from two's complement contents and machine
  integers, and compared.
\<close>

section \<open>Two's complement contents\<close>

text \<open>Negation of \<open>len\<close> bytes at an offset of a block, from the last byte to the first.\<close>

fun negate_loop :: "nat \<Rightarrow> nat \<Rightarrow> byte \<Rightarrow> byte list \<Rightarrow> byte list" where
  "negate_loop off 0 borrow buf = buf"
| "negate_loop off (Suc i) borrow buf =
     (let t = buf ! (off + i)
      in negate_loop off i (borrow OR (if t \<noteq> 0 then 1 else 0)) (buf[off + i := 0 - borrow - t]))"

definition negate_twos_complement :: "byte list \<Rightarrow> nat \<Rightarrow> nat \<Rightarrow> byte list option" where
  "negate_twos_complement buf off len =
     (if length buf < off + len then None else Some (negate_loop off len 0 buf))"

fun is_all_zeros :: "byte list \<Rightarrow> bool" where
  "is_all_zeros [] = True"
| "is_all_zeros (b # bs) = (if b \<noteq> 0 then False else is_all_zeros bs)"

fun skip_zeros :: "CBS \<Rightarrow> CBS" where
  "skip_zeros [] = []"
| "skip_zeros (b # cbs) = (if b = 0 then skip_zeros cbs else b # cbs)"

text \<open>The number of padding bytes, and the sign with which zero is written.\<close>

definition i2c_pad :: "bool \<Rightarrow> CBS \<Rightarrow> nat \<times> bool" where
  "i2c_pad is_negative cbs =
     (case CBS_get_u8 cbs of
        (Ok msb, copy) \<Rightarrow>
          if is_negative
          then (if msb > 0x80 \<or> (msb = 0x80 \<and> \<not> is_all_zeros copy) then 1 else 0, True)
          else (if msb AND 0x80 \<noteq> 0 then 1 else 0, False)
      | _ \<Rightarrow> (1, False))"

text \<open>
  The output is a block and a position in it, or absent when only the length is asked for.
  A string whose length exceeds its block cannot be read.
\<close>

definition i2c_ASN1_INTEGER ::
    "asn1_string option \<Rightarrow> (byte list \<times> nat) option \<Rightarrow> (nat \<times> (byte list \<times> nat) option) result" where
  "i2c_ASN1_INTEGER inp outp =
     (case inp of
        None \<Rightarrow> Err
      | Some inp \<Rightarrow>
          if length (as_bytes inp) < as_length inp then Abort
          else
            (let cbs = skip_zeros (take (as_length inp) (as_bytes inp));
                 (pad, is_negative) = i2c_pad (as_type inp AND V_ASN1_NEG \<noteq> 0) cbs
             in if CBS_len cbs > INT_MAX - pad then Err
                else
                  (let len = pad + CBS_len cbs in
                   if len = 0 then Abort
                   else case outp of
                     None \<Rightarrow> Ok (len, None)
                   | Some (block, pos) \<Rightarrow>
                       if pad \<noteq> 0 \<and> length block \<le> pos then Abort
                       else
                         (let block = (if pad \<noteq> 0 then block[pos := 0] else block) in
                          case OPENSSL_memcpy block (pos + pad) cbs (CBS_len cbs) of
                            None \<Rightarrow> Abort
                          | Some block \<Rightarrow>
                              (case (if is_negative then negate_twos_complement block pos len
                                     else Some block) of
                                 None \<Rightarrow> Abort
                               | Some block \<Rightarrow>
                                   if (if is_negative then block ! pos \<ge> 0x80 else block ! pos < 0x80)
                                   then Ok (len, Some (block, pos + len)) else Abort)))))"

text \<open>
  \<open>c2i_ASN1_INTEGER\<close> works on the memory that \<open>*inp\<close> points to and on the object
  that \<open>*out\<close> points to, if there is one.
\<close>

definition c2i_strip :: "bool \<Rightarrow> CBS \<Rightarrow> CBS" where
  "c2i_strip is_negative cbs =
     (if is_negative
      then (if CBS_len cbs > 0 \<and> hd cbs = 0xff \<and> \<not> is_all_zeros (tl cbs)
            then snd (CBS_skip 1 cbs) else cbs)
      else (if CBS_len cbs > 0 \<and> hd cbs = 0x00 then snd (CBS_skip 1 cbs) else cbs))"

definition c2i_sign :: "bool \<Rightarrow> asn1_string \<Rightarrow> asn1_string option" where
  "c2i_sign is_negative ret =
     (if is_negative
      then (case negate_twos_complement (as_bytes ret) 0 (as_length ret) of
              None \<Rightarrow> None
            | Some block \<Rightarrow> Some (ret\<lparr>as_type := V_ASN1_INTEGER OR V_ASN1_NEG, as_data := Some block\<rparr>))
      else Some (ret\<lparr>as_type := V_ASN1_INTEGER\<rparr>))"

definition c2i_ASN1_INTEGER ::
    "bool \<Rightarrow> allocator \<Rightarrow> int \<Rightarrow> (byte list \<times> asn1_string option, asn1_string) op" where
  "c2i_ASN1_INTEGER struct_ok mem len st =
     (case st of (inp, out) \<Rightarrow>
        if len < 0 \<or> len > int (INT_MAX div 2) then (Err, st)
        else if length inp < nat len then (Abort, st)
        else
          (let cbs = take (nat len) inp in
           case CBS_is_valid_asn1_integer cbs of
             Ok is_negative \<Rightarrow>
               (case (if out = None then ASN1_STRING_type_new struct_ok V_ASN1_INTEGER else out) of
                  None \<Rightarrow> (Err, st)
                | Some ret \<Rightarrow>
                    (let cbs = c2i_strip is_negative cbs in
                     case ASN1_STRING_set mem (Some cbs) (int (CBS_len cbs)) ret of
                       (Ok _, ret) \<Rightarrow>
                         (case c2i_sign is_negative ret of
                            None \<Rightarrow> (Abort, st)
                          | Some ret \<Rightarrow>
                              if (as_length ret = 0 \<or> as_bytes ret ! 0 \<noteq> 0) \<and>
                                 (\<not> is_negative \<or> as_length ret > 0)
                              then (Ok ret, (drop (nat len) inp, Some ret))
                              else (Abort, st))
                     | (Err, _) \<Rightarrow> (Err, st)
                     | (Abort, _) \<Rightarrow> (Abort, st)))
           | _ \<Rightarrow> (Err, st)))"

section \<open>Machine integers\<close>

text \<open>A native (little-endian) store after the byte swap.\<close>

definition CRYPTO_store_u64_be :: "u64 \<Rightarrow> byte list" where
  "CRYPTO_store_u64_be v = rev (be_bytes 8 (unat (CRYPTO_bswap8 v)))"

definition asn1_string_set_uint64 :: "allocator \<Rightarrow> u64 \<Rightarrow> int \<Rightarrow> (asn1_string, unit) op" where
  "asn1_string_set_uint64 mem v type =
     (let buf = skip_zeros (CRYPTO_store_u64_be v) in
      op_then (ASN1_STRING_set mem (Some buf) (int (length buf)))
        (\<lambda>out. (Ok (), out\<lparr>as_type := type\<rparr>)))"

definition ASN1_INTEGER_set_uint64 :: "allocator \<Rightarrow> u64 \<Rightarrow> (asn1_string, unit) op" where
  "ASN1_INTEGER_set_uint64 mem v = asn1_string_set_uint64 mem v V_ASN1_INTEGER"

definition ASN1_ENUMERATED_set_uint64 :: "allocator \<Rightarrow> u64 \<Rightarrow> (asn1_string, unit) op" where
  "ASN1_ENUMERATED_set_uint64 mem v = asn1_string_set_uint64 mem v V_ASN1_ENUMERATED"

text \<open>A signed 64-bit integer is a word read with \<open>sint\<close>; the cast wraps around.\<close>

definition ASN1_INTEGER_set_int64 :: "allocator \<Rightarrow> u64 \<Rightarrow> (asn1_string, unit) op" where
  "ASN1_INTEGER_set_int64 mem v =
     (if sint v \<ge> 0 then ASN1_INTEGER_set_uint64 mem v
      else op_then (ASN1_INTEGER_set_uint64 mem (0 - v))
        (\<lambda>a. (Ok (), a\<lparr>as_type := V_ASN1_INTEGER OR V_ASN1_NEG\<rparr>)))"

definition ASN1_ENUMERATED_set_int64 :: "allocator \<Rightarrow> u64 \<Rightarrow> (asn1_string, unit) op" where
  "ASN1_ENUMERATED_set_int64 mem v =
     (if sint v \<ge> 0 then ASN1_ENUMERATED_set_uint64 mem v
      else op_then (ASN1_ENUMERATED_set_uint64 mem (0 - v))
        (\<lambda>a. (Ok (), a\<lparr>as_type := V_ASN1_ENUMERATED OR V_ASN1_NEG\<rparr>)))"

definition ASN1_INTEGER_set :: "allocator \<Rightarrow> u64 \<Rightarrow> (asn1_string, unit) op" where
  "ASN1_INTEGER_set mem v = ASN1_INTEGER_set_int64 mem v"

definition ASN1_ENUMERATED_set :: "allocator \<Rightarrow> u64 \<Rightarrow> (asn1_string, unit) op" where
  "ASN1_ENUMERATED_set mem v = ASN1_ENUMERATED_set_int64 mem v"

definition asn1_string_get_abs_uint64 :: "asn1_string \<Rightarrow> int \<Rightarrow> u64 result" where
  "asn1_string_get_abs_uint64 a type =
     (if as_type a AND NOT V_ASN1_NEG \<noteq> type then Err
      else if as_length a > 8 then Err
      else case OPENSSL_memcpy (replicate 8 0) (8 - as_length a) (as_bytes a) (as_length a) of
        None \<Rightarrow> Abort
      | Some buf \<Rightarrow> Ok (CRYPTO_load_u64_be buf))"

definition asn1_string_get_uint64 :: "asn1_string \<Rightarrow> int \<Rightarrow> u64 result" where
  "asn1_string_get_uint64 a type =
     (case asn1_string_get_abs_uint64 a type of
        Ok v \<Rightarrow> if as_type a AND V_ASN1_NEG \<noteq> 0 then Err else Ok v
      | failed \<Rightarrow> failed)"

definition ASN1_INTEGER_get_uint64 :: "asn1_string \<Rightarrow> u64 result" where
  "ASN1_INTEGER_get_uint64 a = asn1_string_get_uint64 a V_ASN1_INTEGER"

definition ASN1_ENUMERATED_get_uint64 :: "asn1_string \<Rightarrow> u64 result" where
  "ASN1_ENUMERATED_get_uint64 a = asn1_string_get_uint64 a V_ASN1_ENUMERATED"

definition asn1_string_get_int64 :: "asn1_string \<Rightarrow> int \<Rightarrow> u64 result" where
  "asn1_string_get_int64 a type =
     (case asn1_string_get_abs_uint64 a type of
        Ok v \<Rightarrow>
          (let negative = (as_type a AND V_ASN1_NEG \<noteq> 0 \<and> v \<noteq> 0);
               i64 = (if negative then 0 - v else v);
               fits_in_i64 = (if negative then sint i64 < 0 else sint i64 \<ge> 0)
           in if \<not> fits_in_i64 then Err else Ok i64)
      | failed \<Rightarrow> failed)"

definition ASN1_INTEGER_get_int64 :: "asn1_string \<Rightarrow> u64 result" where
  "ASN1_INTEGER_get_int64 a = asn1_string_get_int64 a V_ASN1_INTEGER"

definition ASN1_ENUMERATED_get_int64 :: "asn1_string \<Rightarrow> u64 result" where
  "ASN1_ENUMERATED_get_int64 a = asn1_string_get_int64 a V_ASN1_ENUMERATED"

text \<open>A \<open>long\<close> has 64 bits, so that every value that was read fits.\<close>

definition asn1_string_get_long :: "asn1_string option \<Rightarrow> int \<Rightarrow> int result" where
  "asn1_string_get_long a type =
     (case a of
        None \<Rightarrow> Ok 0
      | Some a \<Rightarrow>
          (case asn1_string_get_int64 a type of
             Ok v \<Rightarrow> if sint v < - (2 ^ 63) \<or> sint v > 2 ^ 63 - 1 then Ok (-1) else Ok (sint v)
           | Err \<Rightarrow> Ok (-1)
           | Abort \<Rightarrow> Abort))"

definition ASN1_INTEGER_get :: "asn1_string option \<Rightarrow> int result" where
  "ASN1_INTEGER_get a = asn1_string_get_long a V_ASN1_INTEGER"

definition ASN1_ENUMERATED_get :: "asn1_string option \<Rightarrow> int result" where
  "ASN1_ENUMERATED_get a = asn1_string_get_long a V_ASN1_ENUMERATED"

section \<open>Comparison and copy\<close>

definition ASN1_INTEGER_cmp :: "asn1_string \<Rightarrow> asn1_string \<Rightarrow> int result" where
  "ASN1_INTEGER_cmp x y =
     (let neg = as_type x AND V_ASN1_NEG in
      if neg \<noteq> as_type y AND V_ASN1_NEG then Ok (if neg \<noteq> 0 then -1 else 1)
      else case ASN1_STRING_cmp x y of
        Ok ret \<Rightarrow>
          if neg \<noteq> 0 then (if ret < 0 then Ok 1 else if ret > 0 then Ok (-1) else Ok 0)
          else Ok ret
      | failed \<Rightarrow> failed)"

definition ASN1_INTEGER_dup :: "bool \<Rightarrow> allocator \<Rightarrow> asn1_string option \<Rightarrow> asn1_string result" where
  "ASN1_INTEGER_dup struct_ok mem x = ASN1_STRING_dup struct_ok mem x"

end
