(* ===== verification/Asn1_Int_Lemmas.thy ===== *)
theory Asn1_Int_Lemmas
  imports Asn1_Integer
begin

text \<open>
  The arithmetic behind a_int.c: negating a byte string, what a minimal two's complement
  string is in terms of its number, and the value of a sign-and-magnitude string.
\<close>

section \<open>Powers as numbers and as integers\<close>

lemma int_val_le: "int m * 256 ^ n \<le> int v \<longleftrightarrow> m * 256 ^ n \<le> v" "int v < int m * 256 ^ n \<longleftrightarrow> v < m * 256 ^ n"
  "int m * 256 ^ n < int v \<longleftrightarrow> m * 256 ^ n < v"
  unfolding of_nat_le_iff [where 'a = int, symmetric] of_nat_less_iff [where 'a = int, symmetric] by simp_all

lemma int_be_val_less: "int (be_val bs) < 256 ^ length bs"
  using be_val_less [of bs] int_val_le(2) [of "be_val bs" 1 "length bs"] by simp

section \<open>Negation\<close>

lemma mod_256_neg: "-256 \<le> x \<Longrightarrow> x < 0 \<Longrightarrow> x mod 256 = x + (256 :: int)"
  using mod_pos_pos_trivial [of "x + 256" 256] by simp

lemma negate_borrow_byte:
  assumes c: "unat (c :: byte) \<le> 1"
  shows "- int (unat t) - int (unat c) =
           int (unat (0 - c - t)) - 256 * int (unat (c OR (if t \<noteq> 0 then 1 else 0)))"
    and "unat (c OR (if t \<noteq> 0 then 1 else 0)) \<le> 1"
proof -
  have c01: "c = 0 \<or> c = 1" using c by (auto simp: le_Suc_eq word_unat_eq_iff)
  obtain n where n: "unat t = n" "n < 256" using unat_lt_256 [of t] by blast
  have t0: "t = 0 \<longleftrightarrow> n = 0" using n by (simp add: unat_eq_0 [symmetric])
  have d: "int (unat (0 - c - t)) = (- int (unat c) - int n) mod 256"
    by (simp add: uint_word_ariths n(1) [symmetric] mod_simps)
  show "- int (unat t) - int (unat c) =
           int (unat (0 - c - t)) - 256 * int (unat (c OR (if t \<noteq> 0 then 1 else 0)))"
    unfolding d n(1) t0 using c01 n(2) by (auto simp: mod_256_neg)
  show "unat (c OR (if t \<noteq> 0 then 1 else 0)) \<le> 1" using c01 by auto
qed

lemma mod_step_256:
  "0 \<le> d \<Longrightarrow> d < 256 \<Longrightarrow> (a * 256 + d) mod (256 ^ Suc n) = (a mod 256 ^ n) * 256 + (d :: int)"
proof -
  assume d: "0 \<le> d" "d < 256"
  have "(a * 256 + d) mod (256 * 256 ^ n) = 256 * ((a * 256 + d) div 256 mod 256 ^ n) + (a * 256 + d) mod 256"
    by (rule zmod_zmult2_eq) simp
  with d show ?thesis by simp
qed

lemma negate_loop_val:
  "unat c \<le> 1 \<Longrightarrow>
     \<exists>ys. length ys = length xs \<and>
       negate_loop (length front) (length xs) c (front @ xs @ rest) = front @ ys @ rest \<and>
       int (be_val ys) = (- int (be_val xs) - int (unat c)) mod 256 ^ length xs"
proof (induction xs arbitrary: c rest rule: rev_induct)
  case (snoc t xs)
  define d c' where "d = 0 - c - t" and "c' = c OR (if t \<noteq> 0 then 1 else 0)"
  note b = negate_borrow_byte [OF snoc.prems, of t, folded d_def c'_def]
  from snoc.IH [OF b(2), of "d # rest"] obtain ys where ys: "length ys = length xs"
    "negate_loop (length front) (length xs) c' (front @ xs @ d # rest) = front @ ys @ d # rest"
    "int (be_val ys) = (- int (be_val xs) - int (unat c')) mod 256 ^ length xs" by blast
  have upd: "(front @ (xs @ [t]) @ rest)[length front + length xs := d] = front @ xs @ d # rest"
    by (simp add: list_update_append)
  have nth: "(front @ (xs @ [t]) @ rest) ! (length front + length xs) = t"
    by (simp add: nth_append)
  have "int (be_val (ys @ [d])) = (- int (be_val xs) - int (unat c')) mod 256 ^ length xs * 256 + int (unat d)"
    using ys(3) by (simp add: be_val_append)
  also have "\<dots> = ((- int (be_val xs) - int (unat c')) * 256 + int (unat d)) mod 256 ^ Suc (length xs)"
    using unat_lt_256 [of d] by (intro mod_step_256 [symmetric]) linarith+
  also have "(- int (be_val xs) - int (unat c')) * 256 + int (unat d) =
      - int (be_val (xs @ [t])) - int (unat c)"
    using b(1) by (simp add: be_val_append algebra_simps)
  finally have val: "int (be_val (ys @ [d])) = (- int (be_val (xs @ [t])) - int (unat c)) mod 256 ^ Suc (length xs)" .
  have "negate_loop (length front) (Suc (length xs)) c (front @ (xs @ [t]) @ rest) = front @ (ys @ [d]) @ rest"
    unfolding negate_loop.simps nth Let_def d_def [symmetric] c'_def [symmetric] upd ys(2) by simp
  with val ys(1) show ?case by (intro exI [of _ "ys @ [d]"]) (simp del: be_val.simps)
qed simp

text \<open>The bytes of \<open>- v\<close> modulo a power of 256.\<close>

definition neg_bytes :: "byte list \<Rightarrow> byte list" where
  "neg_bytes xs = be_bytes (length xs) (nat (- int (be_val xs) mod 256 ^ length xs))"

lemma length_neg_bytes [simp]: "length (neg_bytes xs) = length xs"
  by (simp add: neg_bytes_def)

lemma be_val_neg_bytes: "int (be_val (neg_bytes xs)) = - int (be_val xs) mod 256 ^ length xs"
proof -
  have "0 \<le> - int (be_val xs) mod 256 ^ length xs" "- int (be_val xs) mod 256 ^ length xs < 256 ^ length xs"
    by simp_all
  then have "nat (- int (be_val xs) mod 256 ^ length xs) < 256 ^ length xs"
    by (simp add: nat_less_iff)
  then show ?thesis by (simp add: neg_bytes_def)
qed

lemma negate_twos_complement_at:
  "negate_twos_complement (front @ xs @ rest) (length front) (length xs) = Some (front @ neg_bytes xs @ rest)"
proof -
  from negate_loop_val [of 0 xs front rest] obtain ys where ys: "length ys = length xs"
    "negate_loop (length front) (length xs) 0 (front @ xs @ rest) = front @ ys @ rest"
    "int (be_val ys) = - int (be_val xs) mod 256 ^ length xs" by auto
  have "ys = neg_bytes xs"
    using ys(1,3) be_val_neg_bytes [of xs] by (intro be_val_inj) simp_all
  with ys show ?thesis by (simp add: negate_twos_complement_def)
qed

lemma be_val_neg_bytes_pos:
  "0 < be_val xs \<Longrightarrow> int (be_val (neg_bytes xs)) = 256 ^ length xs - int (be_val xs)"
proof -
  assume "0 < be_val xs"
  have "int (be_val xs) < 256 ^ length xs"
    by (rule int_be_val_less)
  then have "(- int (be_val xs) + 256 ^ length xs) mod 256 ^ length xs = - int (be_val xs) + 256 ^ length xs"
    using \<open>0 < be_val xs\<close> by (intro mod_pos_pos_trivial) simp_all
  then show ?thesis by (simp add: be_val_neg_bytes)
qed

section \<open>Leading bytes\<close>

lemma is_all_zeros_iff: "is_all_zeros bs \<longleftrightarrow> be_val bs = 0"
  by (induction bs) (auto simp: unat_eq_0)

lemma be_val_skip_zeros [simp]: "be_val (skip_zeros bs) = be_val bs"
  by (induction bs) auto

lemma length_skip_zeros: "length (skip_zeros bs) \<le> length bs"
  by (induction bs) auto

lemma hd_skip_zeros: "skip_zeros bs \<noteq> [] \<Longrightarrow> hd (skip_zeros bs) \<noteq> 0"
  by (induction bs) auto

lemma skip_zeros_minimal: "bs = [] \<or> hd bs \<noteq> 0 \<Longrightarrow> skip_zeros bs = bs"
  by (cases bs) auto

lemma be_val_pos_skip: "skip_zeros bs = [] \<longleftrightarrow> be_val bs = 0"
  by (induction bs) (auto simp: unat_eq_0)

lemma be_val_Cons_range:
  "unat b * 256 ^ length bs \<le> be_val (b # bs) \<and> be_val (b # bs) < (unat b + 1) * 256 ^ length bs"
  using be_val_less [of bs] by simp

lemma hd_ge_iff: "n * 256 ^ length bs \<le> be_val (b # bs) \<longleftrightarrow> n \<le> unat b"
proof
  assume "n * 256 ^ length bs \<le> be_val (b # bs)"
  also have "\<dots> < (unat b + 1) * 256 ^ length bs" using be_val_Cons_range by blast
  finally have "n < unat b + 1" by (simp only: mult_less_cancel2)
  then show "n \<le> unat b" by simp
next
  assume "n \<le> unat b"
  then have "n * 256 ^ length bs \<le> unat b * 256 ^ length bs" by (rule mult_right_mono) simp
  then show "n * 256 ^ length bs \<le> be_val (b # bs)" unfolding be_val.simps by (rule trans_le_add1)
qed

section \<open>Minimal two's complement, by its number\<close>

lemma int_val_hd:
  "int_val (b # bs) =
     int (be_val (b # bs)) - (if 128 * 256 ^ length bs \<le> be_val (b # bs) then 256 ^ Suc (length bs) else 0)"
  unfolding hd_ge_iff by (simp add: int_val_def)

lemma int_val_0_Cons: "bs \<noteq> [] \<Longrightarrow> unat (hd bs) < 128 \<Longrightarrow> int_val (0 # bs) = int_val bs"
  by (simp add: int_val_def)

lemma int_val_ff_Cons: "bs \<noteq> [] \<Longrightarrow> 128 \<le> unat (hd bs) \<Longrightarrow> int_val (0xff # bs) = int_val bs"
  by (simp add: int_val_def)

lemma int_minimal_large_iff:
  assumes "length bs = Suc (Suc n)" and "\<not> (-128 * 256 ^ n \<le> int_val bs \<and> int_val bs < 128 * 256 ^ n)"
  shows "int_minimal bs"
proof (rule ccontr)
  obtain a b r where bs: "bs = a # b # r" "length r = n" using assms(1) by (auto simp: length_Suc_conv)
  assume "\<not> int_minimal bs"
  then have "int_val bs = int_val (b # r)"
    using int_val_0_Cons [of "b # r"] int_val_ff_Cons [of "b # r"] by (auto simp: int_minimal_def bs(1))
  with int_val_range [of "b # r"] bs(2) assms(2) show False by simp
qed

lemma int_enc_eqI: "int_minimal bs \<Longrightarrow> int_val bs = k \<Longrightarrow> int_enc k = bs"
  using int_enc_int_val by blast

lemma int_val_bytes:
  assumes "length bs = Suc n"
  shows "int_val bs = int (be_val bs) - (if 128 * 256 ^ n \<le> int (be_val bs) then 256 ^ Suc n else 0)"
proof -
  obtain b r where bs: "bs = b # r" "length r = n" using assms by (auto simp: length_Suc_conv)
  have "128 * 256 ^ n \<le> int (be_val bs) \<longleftrightarrow> 128 * 256 ^ n \<le> be_val bs"
    using int_val_le(1) [of 128 n "be_val bs"] by simp
  then show ?thesis using int_val_hd [of b r] by (simp only: bs)
qed

lemma pow_256_pos: "0 < (256 :: int) ^ n"
  by simp

section \<open>Writing a magnitude\<close>

definition i2c_bytes :: "bool \<Rightarrow> byte list \<Rightarrow> byte list" where
  "i2c_bytes neg z =
     (let (pad, neg') = i2c_pad neg z; p = replicate pad 0 @ z in if neg' then neg_bytes p else p)"

lemma i2c_pad_neg:
  assumes "b \<noteq> 0"
  shows "i2c_pad True (b # r) = (if 128 * 256 ^ length r < int (be_val (b # r)) then 1 else 0, True)"
proof -
  have "b > 0x80 \<or> (b = 0x80 \<and> \<not> is_all_zeros r) \<longleftrightarrow> 128 * 256 ^ length r < be_val (b # r)"
  proof -
    consider "unat b < 128" | "unat b = 128" | "128 < unat b" by linarith
    then show ?thesis
    proof cases
      case 1
      then have "be_val (b # r) < 128 * 256 ^ length r"
        using hd_ge_iff [of 128 r b] by simp
      moreover from 1 have "\<not> b > 0x80 \<and> b \<noteq> 0x80" by (auto simp: word_less_nat_alt)
      ultimately show ?thesis by simp
    next
      case 2
      then have "b = 0x80" by (simp add: word_unat_eq_iff)
      then show ?thesis by (simp add: is_all_zeros_iff)
    next
      case 3
      then have "129 * 256 ^ length r \<le> be_val (b # r)" by (subst hd_ge_iff) simp
      then have "128 * 256 ^ length r < be_val (b # r)"
        by (rule less_le_trans [rotated]) simp
      with 3 show ?thesis by (simp add: word_less_nat_alt)
    qed
  qed
  also have "\<dots> \<longleftrightarrow> 128 * 256 ^ length r < int (be_val (b # r))"
    using int_val_le(3) [of 128 "length r" "be_val (b # r)"] by simp
  finally show ?thesis by (simp add: i2c_pad_def CBS_get_u8_eq)
qed

lemma i2c_bytes_enc:
  assumes "z = [] \<or> hd z \<noteq> 0"
  shows "i2c_bytes neg z = int_enc (if neg then - int (be_val z) else int (be_val z))"
proof (cases z)
  case Nil
  then show ?thesis by (simp add: i2c_bytes_def i2c_pad_def CBS_get_u8_eq int_enc_unfold int_small_def)
next
  case (Cons b r)
  define n where "n = length r"
  define V where "V = int (be_val z)"
  have b: "b \<noteq> 0" "1 \<le> unat b" using assms Cons by (simp_all add: Suc_le_eq unat_gt_0)
  have lo: "256 ^ n \<le> V"
    using hd_ge_iff [of 1 r b] b(2) unfolding V_def n_def Cons
    using int_val_le(1) [of 1 n "be_val (b # r)"] by (simp add: n_def)
  have hi: "V < 256 ^ Suc n"
    using int_be_val_less [of z] unfolding V_def n_def Cons length_Cons .
  show ?thesis
  proof (cases neg)
    case True
    define p where "p = replicate (fst (i2c_pad True z)) 0 @ z"
    have bytes: "i2c_bytes neg z = neg_bytes p"
      using True b i2c_pad_neg [of b r] by (simp add: i2c_bytes_def p_def Cons)
    have pV: "int (be_val p) = V" by (simp add: p_def be_val_append V_def)
    have N: "int (be_val (neg_bytes p)) = 256 ^ length p - V"
      using be_val_neg_bytes_pos [of p] lo pow_256_pos [of n] pV by simp
    have "int_minimal (neg_bytes p) \<and> int_val (neg_bytes p) = - V"
    proof (cases "128 * 256 ^ n < V")
      case True
      then have len: "length (neg_bytes p) = Suc (Suc n)"
        using b i2c_pad_neg [of b r] by (simp add: p_def Cons n_def V_def)
      have h: "V < 32768 * 256 ^ n" using hi pow_256_pos [of n] unfolding power_Suc by linarith
      have "int_val (neg_bytes p) = - V"
        unfolding int_val_bytes [OF len] N using h len by simp
      with True int_minimal_large_iff [OF len] show ?thesis by simp
    next
      case False
      then have len: "length (neg_bytes p) = Suc n"
        using b i2c_pad_neg [of b r] by (simp add: p_def Cons n_def V_def)
      have val: "int_val (neg_bytes p) = - V"
        unfolding int_val_bytes [OF len] N using False len by simp
      have "int_minimal (neg_bytes p)"
      proof (cases n)
        case 0
        then obtain y where "neg_bytes p = [y]" using len by (auto simp only: length_Suc_conv length_0_conv)
        then show ?thesis by (simp add: int_minimal_def)
      next
        case (Suc m)
        with val lo pow_256_pos [of m] show ?thesis by (intro int_minimal_large_iff [OF len [unfolded Suc]]) simp
      qed
      with val show ?thesis by blast
    qed
    then have "int_enc (- V) = neg_bytes p" by (intro int_enc_eqI) simp_all
    with True bytes show ?thesis by (simp add: V_def)
  next
    case False
    have "int_enc V = i2c_bytes False z"
    proof (cases "128 \<le> unat b")
      case True
      then have "i2c_bytes False z = 0 # b # r"
        by (simp add: i2c_bytes_def i2c_pad_def CBS_get_u8_eq Cons byte_and_80)
      with True show ?thesis
        by (auto intro!: int_enc_eqI simp: V_def Cons int_minimal_def int_val_def)
    next
      case small: False
      then have "i2c_bytes False z = b # r"
        by (simp add: i2c_bytes_def i2c_pad_def CBS_get_u8_eq Cons byte_and_80)
      with small b show ?thesis
        by (auto intro!: int_enc_eqI simp: V_def Cons int_minimal_def int_val_def split: list.splits)
    qed
    with False show ?thesis by (simp add: V_def)
  qed
qed

section \<open>Reading a magnitude\<close>

definition c2i_bytes :: "bool \<Rightarrow> byte list \<Rightarrow> byte list" where
  "c2i_bytes neg c = (if neg then neg_bytes (c2i_strip neg c) else c2i_strip neg c)"

lemma c2i_strip_Cons:
  "c2i_strip neg (b # r) =
     (if (if neg then b = 0xff \<and> be_val r \<noteq> 0 else b = 0) then r else b # r)"
  by (simp add: c2i_strip_def CBS_skip_eq is_all_zeros_iff)

lemma hd_nonzero_iff: "length bs = Suc n \<Longrightarrow> hd bs \<noteq> 0 \<longleftrightarrow> 256 ^ n \<le> int (be_val bs)"
proof -
  assume "length bs = Suc n"
  then obtain b r where bs: "bs = b # r" "length r = n" by (auto simp: length_Suc_conv)
  have "b \<noteq> 0 \<longleftrightarrow> 1 \<le> unat b" by (simp add: Suc_le_eq unat_gt_0)
  also have "\<dots> \<longleftrightarrow> 256 ^ n \<le> be_val bs" using hd_ge_iff [of 1 r b] bs by simp
  also have "\<dots> \<longleftrightarrow> 256 ^ n \<le> int (be_val bs)" using int_val_le(1) [of 1 n "be_val bs"] by simp
  finally show ?thesis by (simp add: bs)
qed

lemma c2i_bytes_val:
  assumes c: "int_minimal c" and neg: "neg \<longleftrightarrow> 128 \<le> unat (hd c)"
  shows "int (be_val (c2i_bytes neg c)) = \<bar>int_val c\<bar> \<and> (c2i_bytes neg c = [] \<or> hd (c2i_bytes neg c) \<noteq> 0) \<and>
         (neg \<longrightarrow> c2i_bytes neg c \<noteq> []) \<and> (neg \<longleftrightarrow> int_val c < 0)"
proof -
  obtain b r where br: "c = b # r" using c by (cases c) (auto simp: int_minimal_def)
  show ?thesis
  proof (cases neg)
    case False
    then have small: "unat b < 128" using neg br by simp
    have iv: "int_val c = int (be_val c)" using small by (simp add: br int_val_def)
    show ?thesis
    proof (cases "b = 0")
      case True
      moreover have "r \<noteq> [] \<longrightarrow> hd r \<noteq> 0" using True c by (auto simp: br int_minimal_def split: list.splits)
      ultimately show ?thesis using False iv by (auto simp: c2i_bytes_def br c2i_strip_Cons)
    next
      case nz: False
      then have eq: "c2i_bytes neg c = c" using False by (simp add: c2i_bytes_def br c2i_strip_Cons)
      have "hd c \<noteq> 0" using nz by (simp add: br)
      with False show ?thesis unfolding eq iv by simp
    qed
  next
    case True
    then have b: "128 \<le> unat b" using neg br by simp
    define n where "n = length r"
    have iv: "int_val c = int (be_val c) - 256 ^ Suc n" using b by (simp add: br int_val_def n_def)
    have lo: "128 * 256 ^ n \<le> int (be_val c)"
      using hd_ge_iff [of 128 r b] b unfolding br n_def
      using int_val_le(1) [of 128 "length r" "be_val (b # r)"] by simp
    have hi: "int (be_val c) < 256 ^ Suc n"
      using int_be_val_less [of c] unfolding n_def br length_Cons .
    have neg_val: "int_val c < 0" using iv hi by simp
    define m where "m = c2i_bytes neg c"
    have "int (be_val m) = - int_val c \<and> m \<noteq> [] \<and> hd m \<noteq> 0"
    proof (cases "b = 0xff \<and> be_val r \<noteq> 0")
      case strip: True
      then have m: "m = neg_bytes r" using True by (simp add: m_def c2i_bytes_def br c2i_strip_Cons)
      have vm: "int (be_val m) = 256 ^ n - int (be_val r)"
        using strip be_val_neg_bytes_pos [of r] by (simp add: m n_def)
      have vc: "int (be_val c) = 255 * 256 ^ n + int (be_val r)" using strip by (simp add: br n_def)
      obtain k where k: "n = Suc k" using strip by (cases r) (auto simp: n_def)
      then obtain b' r' where r: "r = b' # r'" "length r' = k" by (auto simp: n_def length_Suc_conv)
      have "unat b' < 128" using c strip by (auto simp: br r int_minimal_def)
      then have "be_val r < 128 * 256 ^ k" using hd_ge_iff [of 128 r' b'] r by simp
      then have "int (be_val r) < 128 * 256 ^ k" using int_val_le(2) [of "be_val r" 128 k] by simp
      then have "256 ^ k \<le> int (be_val m)" unfolding vm k using pow_256_pos [of k] by simp
      moreover have "length m = Suc k" by (simp add: m n_def [symmetric] k)
      ultimately show ?thesis using hd_nonzero_iff [of m k] vm vc iv by auto
    next
      case keep: False
      then have m: "m = neg_bytes c" using True by (auto simp: m_def c2i_bytes_def br c2i_strip_Cons)
      have len: "length m = Suc n" by (simp add: m br n_def)
      have "0 < int (be_val c)" using lo pow_256_pos [of n] by linarith
      then have vm: "int (be_val m) = - int_val c"
        by (simp only: of_nat_0_less_iff m iv be_val_neg_bytes_pos) (simp add: br n_def)
      have "int (be_val c) \<le> 255 * 256 ^ n"
      proof (cases "b = 0xff")
        case True
        with keep show ?thesis by (simp add: br n_def)
      next
        case False
        then have "unat b < 255" using unat_lt_256 [of b] by (simp add: word_unat_eq_iff)
        then have "be_val c < 255 * 256 ^ n" using hd_ge_iff [of 255 r b] by (simp add: br n_def)
        then have "int (be_val c) < int (255 * 256 ^ n)" by (simp only: of_nat_less_iff)
        then show ?thesis by simp
      qed
      then have "256 ^ n \<le> int (be_val m)" by (simp add: vm iv)
      with len vm show ?thesis using hd_nonzero_iff [OF len] by auto
    qed
    with True neg_val show ?thesis by (simp add: m_def)
  qed
qed

end
