(* ===== verification/Asn1_Int_Props.thy ===== *)
theory Asn1_Int_Props
  imports Asn1_Int_Lemmas Cbb_Asn1
begin

text \<open>
  What a_int.c computes: an INTEGER or ENUMERATED denotes a number, its contents are read
  and written as the shortest two's complement string of that number, and the comparison and
  the conversions to machine integers respect it.
\<close>

section \<open>The number and the type of an INTEGER\<close>

definition asn1_negative :: "asn1_string \<Rightarrow> bool" where
  "asn1_negative s \<longleftrightarrow> as_type s AND V_ASN1_NEG \<noteq> 0"

definition asn1_int_val :: "asn1_string \<Rightarrow> int" where
  "asn1_int_val s = (if asn1_negative s then - int (be_val (as_contents s)) else int (be_val (as_contents s)))"

definition asn1_typed :: "int \<Rightarrow> asn1_string \<Rightarrow> bool" where
  "asn1_typed base s \<longleftrightarrow>
     asn1_string_wf s \<and> (as_type s = base \<or> as_type s = base OR V_ASN1_NEG) \<and>
     (as_contents s = [] \<or> hd (as_contents s) \<noteq> 0) \<and> (asn1_negative s \<longrightarrow> as_contents s \<noteq> [])"

lemmas asn1_constants = V_ASN1_INTEGER_def V_ASN1_ENUMERATED_def V_ASN1_NEG_def

lemma asn1_typed_wf: "asn1_typed base s \<Longrightarrow> asn1_string_wf s"
  by (simp add: asn1_typed_def)

section \<open>Writing the contents\<close>

lemma int_val_neg_hd: "bs \<noteq> [] \<Longrightarrow> int_val bs < 0 \<longleftrightarrow> 128 \<le> unat (hd bs)"
  using int_be_val_less [of bs] by (auto simp: int_val_def)

lemma i2c_pad_sign:
  "z = [] \<or> hd z \<noteq> 0 \<Longrightarrow> snd (i2c_pad neg z) \<longleftrightarrow> (if neg then - int (be_val z) else int (be_val z)) < 0"
proof (cases z)
  case (Cons b r)
  assume "z = [] \<or> hd z \<noteq> 0"
  then have "0 < be_val z" using Cons by (simp add: unat_gt_0)
  then show ?thesis by (simp add: i2c_pad_def CBS_get_u8_eq Cons del: be_val.simps)
qed (simp add: i2c_pad_def CBS_get_u8_eq)

lemma i2c_pad_le: "fst (i2c_pad neg z) \<le> 1"
  by (auto simp: i2c_pad_def CBS_get_u8_eq split: list.split)

lemma as_contents_take: "take (as_length s) (as_bytes s) = as_contents s"
  by (simp add: as_contents_def)

lemma i2c_ASN1_INTEGER_eq:
  assumes wf: "asn1_string_wf s" and len: "as_length s < INT_MAX"
  defines "e \<equiv> int_enc (asn1_int_val s)"
  shows "i2c_ASN1_INTEGER (Some s) None = Ok (length e, None)"
    and "length old = length e \<Longrightarrow>
      i2c_ASN1_INTEGER (Some s) (Some (front @ old @ rest, length front)) =
        Ok (length e, Some (front @ e @ rest, length front + length e))"
proof -
  define z where "z = skip_zeros (as_contents s)"
  obtain pad neg where pn: "i2c_pad (asn1_negative s) z = (pad, neg)" by fastforce
  have hz: "z = [] \<or> hd z \<noteq> 0" using hd_skip_zeros by (auto simp: z_def)
  have val: "asn1_int_val s = (if asn1_negative s then - int (be_val z) else int (be_val z))"
    by (simp add: asn1_int_val_def z_def)
  define p where "p = replicate pad 0 @ z"
  have e: "e = (if neg then neg_bytes p else p)"
    using i2c_bytes_enc [OF hz, of "asn1_negative s"] by (simp only: e_def val i2c_bytes_def pn p_def Let_def prod.case)
  have le: "length e = pad + length z" by (simp add: e p_def)
  have ne: "e \<noteq> []" using int_enc_minimal [of "asn1_int_val s"] int_minimal_nonempty by (simp add: e_def)
  have ev: "int_val e = asn1_int_val s" using int_enc_minimal by (simp add: e_def)
  have sign: "neg \<longleftrightarrow> 128 \<le> unat (hd e)"
    using i2c_pad_sign [OF hz, of "asn1_negative s"] int_val_neg_hd [OF ne] by (simp add: pn ev val)
  have small: "length z \<le> INT_MAX - pad"
  proof -
    have "pad \<le> 1" using i2c_pad_le [of "asn1_negative s" z] by (simp add: pn)
    moreover have "length z \<le> as_length s" using length_skip_zeros [of "as_contents s"] wf by (simp add: z_def)
    ultimately show ?thesis using len by linarith
  qed
  have start: "\<not> length (as_bytes s) < as_length s" "skip_zeros (take (as_length s) (as_bytes s)) = z"
    "i2c_pad (as_type s AND V_ASN1_NEG \<noteq> 0) z = (pad, neg)" "\<not> INT_MAX - pad < length z"
    using wf pn small by (simp_all add: asn1_string_wf_def as_contents_take z_def asn1_negative_def not_less)
  have pos: "pad + length z \<noteq> 0" using le ne by (metis length_0_conv)
  note simps = i2c_ASN1_INTEGER_def option.case start(2) Let_def prod.case start(3) if_not_P [OF start(1)]
    if_not_P [OF start(4)] if_not_P [OF pos]
  show "i2c_ASN1_INTEGER (Some s) None = Ok (length e, None)"
    unfolding simps le ..
  assume "length old = length e"
  define o1 o2 where "o1 = take pad old" and "o2 = drop pad old"
  have old: "old = o1 @ o2" "length o1 = pad" "length o2 = length z"
    using \<open>length old = length e\<close> le by (simp_all add: o1_def o2_def)
  define block where "block = front @ old @ rest"
  have room: "\<not> (pad \<noteq> 0 \<and> length block \<le> length front)"
    using old by (auto simp: block_def)
  have "pad = 0 \<or> pad = 1" using i2c_pad_le [of "asn1_negative s" z] pn by auto
  then have zero: "(if pad \<noteq> 0 then block[length front := 0] else block) = (front @ replicate pad 0) @ o2 @ rest"
    using old by (auto simp: block_def length_Suc_conv list_update_append)
  have cpy: "OPENSSL_memcpy ((front @ replicate pad 0) @ o2 @ rest) (length front + pad) z (length z) =
      Some (front @ p @ rest)"
    using OPENSSL_memcpy_at [of o2 "length z" z "front @ replicate pad 0" rest] old by (simp add: p_def)
  have neg_eq: "(if neg then negate_twos_complement (front @ p @ rest) (length front) (pad + length z)
      else Some (front @ p @ rest)) = Some (front @ e @ rest)"
    using negate_twos_complement_at [of front p rest] by (simp add: e p_def)
  have first: "(front @ e @ rest) ! length front = hd e" using ne by (cases e) simp_all
  have ok: "if neg then (front @ e @ rest) ! length front \<ge> 0x80 else (front @ e @ rest) ! length front < 0x80"
    unfolding first using sign by (auto simp: word_le_nat_alt word_less_nat_alt)
  show "i2c_ASN1_INTEGER (Some s) (Some (front @ old @ rest, length front)) =
      Ok (length e, Some (front @ e @ rest, length front + length e))"
    unfolding simps block_def [symmetric] if_not_P [OF room] zero cpy neg_eq if_P [OF ok] le ..
qed

section \<open>Reading the contents\<close>

text \<open>The memory that reading an INTEGER of \<open>n\<close> bytes may ask for.\<close>

definition int_memory :: "bool \<Rightarrow> allocator \<Rightarrow> nat \<Rightarrow> bool" where
  "int_memory struct_ok mem n \<longleftrightarrow> struct_ok \<and> n \<le> ASN1_STRING_MAX \<and> list_all (\<lambda>k. mem k \<noteq> None) [0..<n + 2]"

lemma length_c2i_strip: "length (c2i_strip neg c) \<le> length c"
proof (cases c)
  case Nil
  then show ?thesis by (simp add: c2i_strip_def)
qed (simp add: c2i_strip_Cons)

lemma c2i_stored:
  assumes st: "stored (c2i_strip neg c) s t" and c: "int_minimal c" and neg: "neg \<longleftrightarrow> 128 \<le> unat (hd c)"
  obtains u where "c2i_sign neg t = Some u" "asn1_typed V_ASN1_INTEGER u" "asn1_int_val u = int_val c"
    "as_length u = 0 \<or> as_bytes u ! 0 \<noteq> 0" "neg \<longrightarrow> 0 < as_length u"
proof -
  note v = c2i_bytes_val [OF c neg]
  define x where "x = c2i_strip neg c"
  obtain r where r: "as_bytes t = x @ r" "as_length t = length x"
    using st unfolding stored_def x_def [symmetric] as_contents_def
    by (metis append_take_drop_id)
  obtain u where u: "c2i_sign neg t = Some u" "as_length u = length x" "as_bytes u = c2i_bytes neg c @ r"
    "as_type u = (if neg then V_ASN1_INTEGER OR V_ASN1_NEG else V_ASN1_INTEGER)"
  proof (cases neg)
    case True
    have "negate_twos_complement (as_bytes t) 0 (as_length t) = Some (neg_bytes x @ r)"
      using negate_twos_complement_at [of "[]" x r] by (simp add: r)
    then show thesis using True r(2)
      by (intro that [of "t\<lparr>as_type := V_ASN1_INTEGER OR V_ASN1_NEG, as_data := Some (neg_bytes x @ r)\<rparr>"])
        (simp_all add: c2i_sign_def, simp_all add: as_bytes_def c2i_bytes_def x_def)
  qed (use r in \<open>auto intro!: that simp: c2i_sign_def c2i_bytes_def x_def\<close>)
  have lx: "length (c2i_bytes neg c) = length x" by (simp add: c2i_bytes_def x_def)
  have cont: "as_contents u = c2i_bytes neg c" by (simp add: as_contents_def u lx)
  have sg: "asn1_negative u \<longleftrightarrow> neg" by (simp add: asn1_negative_def u asn1_constants)
  show thesis
  proof (rule that)
    show "c2i_sign neg t = Some u" by (rule u(1))
    show "asn1_typed V_ASN1_INTEGER u"
      using v u(2-4) lx by (auto simp: asn1_typed_def cont sg asn1_string_wf_def)
    show "asn1_int_val u = int_val c" using v by (auto simp: asn1_int_val_def cont sg)
    show "as_length u = 0 \<or> as_bytes u ! 0 \<noteq> 0"
      using v by (cases "c2i_bytes neg c") (auto simp: u lx [symmetric])
    show "neg \<longrightarrow> 0 < as_length u" using v by (auto simp: u lx [symmetric])
  qed
qed

lemma c2i_ASN1_INTEGER_cases:
  assumes mem: "alloc_ok mem" and wf: "pred_option asn1_string_wf out" and len: "length c \<le> INT_MAX div 2"
  obtains (read) s where "c2i_ASN1_INTEGER struct_ok mem (int (length c)) (c @ rest, out) = (Ok s, (rest, Some s))"
      "asn1_typed V_ASN1_INTEGER s" "c = int_enc (asn1_int_val s)"
  | (invalid) "c2i_ASN1_INTEGER struct_ok mem (int (length c)) (c @ rest, out) = (Err, (c @ rest, out))" "\<And>k. c \<noteq> int_enc k"
  | (no_memory) "c2i_ASN1_INTEGER struct_ok mem (int (length c)) (c @ rest, out) = (Err, (c @ rest, out))"
      "\<not> int_memory struct_ok mem (length c)"
proof (cases "int_minimal c")
  case False
  then have "c \<noteq> int_enc k" for k using int_enc_minimal by metis
  with False len show thesis
    by (intro invalid) (simp_all add: c2i_ASN1_INTEGER_def CBS_is_valid_asn1_integer_eq)
next
  case True
  define neg where "neg = (128 \<le> unat (hd c))"
  define x where "x = c2i_strip neg c"
  have unf: "c2i_ASN1_INTEGER struct_ok mem (int (length c)) (c @ rest, out) =
      (case (if out = None then ASN1_STRING_type_new struct_ok V_ASN1_INTEGER else out) of
         None \<Rightarrow> (Err, (c @ rest, out))
       | Some ret \<Rightarrow>
           (case ASN1_STRING_set mem (Some x) (int (length x)) ret of
              (Ok _, ret) \<Rightarrow>
                (case c2i_sign neg ret of
                   None \<Rightarrow> (Abort, (c @ rest, out))
                 | Some ret \<Rightarrow>
                     if (as_length ret = 0 \<or> as_bytes ret ! 0 \<noteq> 0) \<and> (\<not> neg \<or> as_length ret > 0)
                     then (Ok ret, (rest, Some ret)) else (Abort, (c @ rest, out)))
            | (Err, _) \<Rightarrow> (Err, (c @ rest, out))
            | (Abort, _) \<Rightarrow> (Abort, (c @ rest, out))))"
  proof -
    have g: "\<not> (int (length c) < 0 \<or> int (INT_MAX div 2) < int (length c))" "\<not> length (c @ rest) < nat (int (length c))"
      "take (nat (int (length c))) (c @ rest) = c" "drop (nat (int (length c))) (c @ rest) = rest"
      using len by simp_all
    show ?thesis
      unfolding c2i_ASN1_INTEGER_def prod.case if_not_P [OF g(1)] if_not_P [OF g(2)] g(3,4) Let_def
        CBS_is_valid_asn1_integer_eq if_P [OF True] result.case neg_def [symmetric] x_def [symmetric] ..
  qed
  show thesis
  proof (cases "if out = None then ASN1_STRING_type_new struct_ok V_ASN1_INTEGER else out")
    case None
    then show thesis
      by (intro no_memory) (simp_all add: unf ASN1_STRING_type_new_def int_memory_def split: if_splits)
  next
    case (Some ret)
    then have wr: "asn1_string_wf ret" using wf asn1_string_new_wf by (auto split: if_splits)
    show thesis
    proof (cases rule: ASN1_STRING_set_cases [OF mem wr order_refl, of x])
      case (1 t)
      from 1(2) have "stored (c2i_strip neg c) ret t" by (simp add: x_def)
      then obtain u where u: "c2i_sign neg t = Some u" "asn1_typed V_ASN1_INTEGER u" "asn1_int_val u = int_val c"
          "as_length u = 0 \<or> as_bytes u ! 0 \<noteq> 0" "neg \<longrightarrow> 0 < as_length u"
        using True neg_def by (rule c2i_stored)
      then have "c = int_enc (asn1_int_val u)" using int_enc_int_val [OF True] by simp
      moreover have "c2i_ASN1_INTEGER struct_ok mem (int (length c)) (c @ rest, out) = (Ok u, (rest, Some u))"
        unfolding unf Some option.case 1(1) prod.case result.case u(1) using u(4,5) by auto
      ultimately show thesis using u(2) by (intro read)
    next
      case 2
      have "length x \<le> length c" unfolding x_def by (rule length_c2i_strip)
      then have "length x + 1 \<in> set [0..<length c + 2]" unfolding set_upt atLeastLessThan_iff by linarith
      then have "\<not> int_memory struct_ok mem (length c)"
        using 2(2) \<open>length x \<le> length c\<close> unfolding int_memory_def list_all_iff by auto
      with 2(1) show thesis by (intro no_memory) (simp_all add: unf Some)
    qed
  qed
qed

end
