(* ===== verification/Asn1_Int_Values.thy ===== *)
theory Asn1_Int_Values
  imports Asn1_Int_Props
begin

text \<open>
  INTEGERs and ENUMERATEDs as numbers: machine integers in and out, the comparison, and the
  properties of a_int.c.
\<close>

section \<open>Storing a machine integer\<close>

lemma unat_neg_u64: "(v :: u64) \<noteq> 0 \<Longrightarrow> int (unat (- v)) = 2 ^ 64 - int (unat v)"
proof -
  assume "v \<noteq> 0"
  then have v: "0 < unat v" "int (unat v) < 2 ^ 64" using int_unat_u64 [of v] unat_gt_0 [of v] by blast+
  define m where "m = int (unat v)"
  have "0 < m" "m < 2 ^ 64" using v unfolding m_def by linarith+
  then have "(- m) mod 2 ^ 64 = 2 ^ 64 - m" by (simp add: zmod_zminus1_eq_if)
  then show ?thesis unfolding m_def by (simp add: uint_word_ariths)
qed

lemma be_bytes_unat_u64: "(of_nat (be_val (be_bytes 8 (unat v))) :: u64) = v"
  using unat_u64 [of v] by (simp del: be_bytes.simps)

lemma CRYPTO_store_u64_be_eq: "CRYPTO_store_u64_be v = be_bytes 8 (unat v)"
proof -
  define bs where "bs = be_bytes 8 (unat v)"
  have len: "length bs = 8" by (simp add: bs_def del: be_bytes.simps)
  have small: "be_val (rev bs) < 2 ^ 64" using be_val_less [of "rev bs"] len by simp
  have "CRYPTO_bswap8 (of_nat (be_val bs)) = of_nat (be_val (rev bs))"
    by (rule CRYPTO_bswap8_be_val [OF len])
  then have "unat (CRYPTO_bswap8 v) = be_val (rev bs)"
    using small by (simp add: bs_def be_bytes_unat_u64 unsigned_of_nat take_bit_nat_eq_self del: be_bytes.simps)
  moreover have "be_bytes 8 (be_val (rev bs)) = rev bs"
    using be_bytes_be_val [of "rev bs"] len by simp
  ultimately have "CRYPTO_store_u64_be v = rev (rev bs)" by (simp add: CRYPTO_store_u64_be_def del: be_bytes.simps)
  then show ?thesis by (simp add: bs_def del: be_bytes.simps)
qed

definition u64_bytes :: "u64 \<Rightarrow> byte list" where
  "u64_bytes v = skip_zeros (be_bytes 8 (unat v))"

lemma be_val_u64_bytes: "be_val (u64_bytes v) = unat v"
  using unat_u64 [of v] by (simp add: u64_bytes_def del: be_bytes.simps)

lemma u64_bytes_minimal: "u64_bytes v = [] \<or> hd (u64_bytes v) \<noteq> 0"
  using hd_skip_zeros by (auto simp: u64_bytes_def simp del: be_bytes.simps)

lemma length_u64_bytes: "length (u64_bytes v) \<le> 8"
  using length_skip_zeros [of "be_bytes 8 (unat v)"] by (simp add: u64_bytes_def del: be_bytes.simps)

lemma set_uint64_cases:
  assumes mem: "alloc_ok mem" and wf: "asn1_string_wf s"
  obtains (set) t where "asn1_string_set_uint64 mem v type s = (Ok (), t)" "asn1_string_wf t"
      "as_contents t = u64_bytes v" "as_type t = type"
  | (failed) "asn1_string_set_uint64 mem v type s = (Err, s)" "\<not> int_memory True mem 8"
proof (cases rule: ASN1_STRING_set_cases [OF mem wf order_refl, of "u64_bytes v"])
  case (1 t)
  then show thesis
    by (intro set [of "t\<lparr>as_type := type\<rparr>"])
      (simp_all add: asn1_string_set_uint64_def CRYPTO_store_u64_be_eq u64_bytes_def [symmetric] op_then_apply
        Let_def stored_def del: be_bytes.simps)
next
  case 2
  have "length (u64_bytes v) + 1 \<in> set [0..<8 + 2]"
    unfolding set_upt atLeastLessThan_iff using length_u64_bytes [of v] by linarith
  moreover have "length (u64_bytes v) \<le> ASN1_STRING_MAX"
    using length_u64_bytes [of v] by (simp add: ASN1_STRING_MAX_def)
  ultimately have "\<not> int_memory True mem 8" using 2(2) unfolding int_memory_def list_all_iff by auto
  with 2(1) show thesis
    by (intro failed) (simp_all add: asn1_string_set_uint64_def CRYPTO_store_u64_be_eq u64_bytes_def [symmetric]
        op_then_apply Let_def del: be_bytes.simps)
qed

section \<open>Signed and unsigned, INTEGER and ENUMERATED\<close>

definition asn1_base :: "int \<Rightarrow> bool" where
  "asn1_base base \<longleftrightarrow> base = V_ASN1_INTEGER \<or> base = V_ASN1_ENUMERATED"

lemma asn1_base_bits:
  assumes "asn1_base base"
  shows "base AND V_ASN1_NEG = 0" "(base OR V_ASN1_NEG) AND V_ASN1_NEG \<noteq> 0"
    "base AND NOT V_ASN1_NEG = base" "(base OR V_ASN1_NEG) AND NOT V_ASN1_NEG = base"
    "base \<noteq> V_ASN1_BIT_STRING" "base OR V_ASN1_NEG \<noteq> V_ASN1_BIT_STRING" "base OR V_ASN1_NEG \<noteq> base"
  using assms by (auto simp: asn1_base_def asn1_constants V_ASN1_BIT_STRING_def)

lemma asn1_base_intros [simp]: "asn1_base V_ASN1_INTEGER" "asn1_base V_ASN1_ENUMERATED"
  by (simp_all add: asn1_base_def)

definition asn1_set_signed :: "allocator \<Rightarrow> u64 \<Rightarrow> int \<Rightarrow> (asn1_string, unit) op" where
  "asn1_set_signed mem v base =
     (if sint v \<ge> 0 then asn1_string_set_uint64 mem v base
      else op_then (asn1_string_set_uint64 mem (0 - v) base) (\<lambda>a. (Ok (), a\<lparr>as_type := base OR V_ASN1_NEG\<rparr>)))"

lemma set_int64_signed:
  "ASN1_INTEGER_set_int64 mem v = asn1_set_signed mem v V_ASN1_INTEGER"
  "ASN1_ENUMERATED_set_int64 mem v = asn1_set_signed mem v V_ASN1_ENUMERATED"
  by (simp_all add: ASN1_INTEGER_set_int64_def ASN1_ENUMERATED_set_int64_def asn1_set_signed_def
      ASN1_INTEGER_set_uint64_def ASN1_ENUMERATED_set_uint64_def)

lemma asn1_set_unsigned_cases:
  assumes mem: "alloc_ok mem" and wf: "asn1_string_wf s" and base: "asn1_base base"
  obtains (set) t where "asn1_string_set_uint64 mem v base s = (Ok (), t)" "asn1_typed base t" "asn1_int_val t = int (unat v)"
  | (failed) "asn1_string_set_uint64 mem v base s = (Err, s)" "\<not> int_memory True mem 8"
proof (cases rule: set_uint64_cases [OF mem wf, of v base])
  case (1 t)
  then show thesis
    using u64_bytes_minimal [of v] asn1_base_bits [OF base]
    by (intro set [of t]) (simp_all add: asn1_typed_def asn1_negative_def asn1_int_val_def be_val_u64_bytes del: of_nat_unat)
qed (rule failed)

lemma asn1_set_signed_cases:
  assumes mem: "alloc_ok mem" and wf: "asn1_string_wf s" and base: "asn1_base base"
  obtains (set) t where "asn1_set_signed mem v base s = (Ok (), t)" "asn1_typed base t" "asn1_int_val t = sint v"
  | (failed) "asn1_set_signed mem v base s = (Err, s)" "\<not> int_memory True mem 8"
proof (cases "0 \<le> sint v")
  case True
  then have "int (unat v) = sint v" by (rule sint_nonneg)
  with asn1_set_unsigned_cases [OF mem wf base, of v] True show thesis
    by (metis asn1_set_signed_def set failed)
next
  case False
  have neg: "2 ^ 63 \<le> unat v" "sint v = int (unat v) - 2 ^ 64"
    using False unfolding sint_u64 by (simp_all split: if_splits del: of_nat_unat)
  then have "v \<noteq> 0" by auto
  then have u: "int (unat (0 - v)) = - sint v"
    using unat_neg_u64 [of v] unfolding neg(2) diff_0 by linarith
  show thesis
  proof (cases rule: set_uint64_cases [OF mem wf, of "0 - v" base])
    case (1 t)
    define t' where "t' = t\<lparr>as_type := base OR V_ASN1_NEG\<rparr>"
    have "0 < unat (0 - v)" using u False by linarith
    then have ne: "u64_bytes (0 - v) \<noteq> []"
      using be_val_u64_bytes [of "0 - v"] by auto
    show thesis
    proof (rule set)
      show "asn1_set_signed mem v base s = (Ok (), t')"
        using False 1 by (simp add: asn1_set_signed_def op_then_apply t'_def)
      show "asn1_typed base t'"
        using 1 ne u64_bytes_minimal [of "0 - v"] by (simp add: asn1_typed_def t'_def)
      have "asn1_negative t'" using asn1_base_bits [OF base] by (simp add: asn1_negative_def t'_def)
      then show "asn1_int_val t' = sint v"
        using 1 u by (simp add: asn1_int_val_def t'_def be_val_u64_bytes del: of_nat_unat)
    qed
  next
    case 2
    with False show thesis by (intro failed) (simp_all add: asn1_set_signed_def op_then_apply)
  qed
qed

section \<open>Loading a machine integer\<close>

lemma asn1_typed_bits:
  assumes "asn1_typed base s" and "asn1_base base"
  shows "as_type s AND NOT V_ASN1_NEG = base"
  using assms asn1_base_bits [OF assms(2)] by (auto simp: asn1_typed_def)

lemma asn1_typed_large:
  assumes "asn1_typed base s" and "8 < as_length s"
  shows "2 ^ 64 \<le> \<bar>asn1_int_val s\<bar>"
proof -
  have len: "length (as_contents s) = as_length s" using assms by (auto dest: asn1_typed_wf)
  then obtain n where n: "length (as_contents s) = Suc n" "8 \<le> n" using assms(2) by (cases "as_length s") auto
  then have "as_contents s \<noteq> []" by auto
  then have "hd (as_contents s) \<noteq> 0" using assms(1) by (auto simp: asn1_typed_def)
  then have "256 ^ n \<le> int (be_val (as_contents s))" using hd_nonzero_iff [OF n(1)] by simp
  moreover have "(256 :: int) ^ 8 \<le> 256 ^ n" using n(2) by (intro power_increasing) simp_all
  moreover have "(256 :: int) ^ 8 = 2 ^ 64" by simp
  ultimately have "2 ^ 64 \<le> int (be_val (as_contents s))" by (metis order_trans)
  then show ?thesis by (simp add: asn1_int_val_def)
qed

lemma asn1_short_val:
  assumes "asn1_string_wf s" and "as_length s \<le> 8"
  shows "be_val (as_contents s) < 2 ^ 64"
proof -
  have "(256 :: nat) ^ as_length s \<le> 256 ^ 8" using assms(2) by (intro power_increasing) simp_all
  with be_val_less [of "as_contents s"] assms(1) show ?thesis by simp
qed

lemma asn1_negative_pos: "asn1_typed base s \<Longrightarrow> asn1_negative s \<Longrightarrow> 0 < be_val (as_contents s)"
  using be_val_pos_skip [of "as_contents s"] skip_zeros_minimal [of "as_contents s"]
  by (auto simp: asn1_typed_def)

lemma asn1_get_abs_eq:
  assumes s: "asn1_typed base s" and base: "asn1_base base"
  shows "asn1_string_get_abs_uint64 s base =
     (if as_length s \<le> 8 then Ok (of_nat (be_val (as_contents s))) else Err)"
proof (cases "as_length s \<le> 8")
  case True
  have n: "as_length s \<le> length (as_bytes s)" using s by (simp add: asn1_typed_def asn1_string_wf_def)
  define k where "k = 8 - as_length s"
  have r: "replicate 8 (0 :: byte) = replicate k 0 @ replicate (as_length s) 0 @ []"
    using True by (simp add: k_def flip: replicate_add)
  have "OPENSSL_memcpy (replicate 8 0) (8 - as_length s) (as_bytes s) (as_length s) =
      Some (replicate k 0 @ as_contents s)"
    using OPENSSL_memcpy_at [of "replicate (as_length s) 0" "as_length s" "as_bytes s" "replicate k 0" "[]"] n
    unfolding r as_contents_def by (simp add: k_def)
  moreover have "length (replicate k 0 @ as_contents s) = 8"
    using True asn1_typed_wf [OF s] by (simp add: k_def)
  ultimately show ?thesis
    using True asn1_typed_bits [OF s base]
    by (simp add: asn1_string_get_abs_uint64_def CRYPTO_load_u64_be_eq be_val_append)
qed (use asn1_typed_bits [OF s base] in \<open>simp add: asn1_string_get_abs_uint64_def\<close>)

lemma asn1_get_uint64_eq:
  assumes s: "asn1_typed base s" and base: "asn1_base base"
  shows "asn1_string_get_uint64 s base =
     (if 0 \<le> asn1_int_val s \<and> asn1_int_val s < 2 ^ 64 then Ok (of_int (asn1_int_val s)) else Err)"
proof (cases "as_length s \<le> 8")
  case True
  have "be_val (as_contents s) < 2 ^ 64" using asn1_typed_wf [OF s] True by (rule asn1_short_val)
  then show ?thesis
    using True asn1_negative_pos [OF s] by (auto simp: asn1_string_get_uint64_def asn1_get_abs_eq [OF s base] asn1_int_val_def asn1_negative_def)
next
  case False
  then show ?thesis
    using asn1_typed_large [OF s] by (auto simp: asn1_string_get_uint64_def asn1_get_abs_eq [OF s base])
qed

lemma sint_of_nat_sign:
  assumes "n < 2 ^ 64"
  shows "0 \<le> sint (of_nat n :: u64) \<longleftrightarrow> n < 2 ^ 63"
    and "0 < n \<Longrightarrow> sint (- of_nat n :: u64) < 0 \<longleftrightarrow> n \<le> 2 ^ 63"
proof -
  have u: "unat (of_nat n :: u64) = n" using assms by (simp add: unsigned_of_nat take_bit_nat_eq_self)
  then show "0 \<le> sint (of_nat n :: u64) \<longleftrightarrow> n < 2 ^ 63"
    unfolding sint_u64 u using assms by auto
  assume n: "0 < n"
  then have "(of_nat n :: u64) \<noteq> 0" using u by (metis less_irrefl unsigned_0)
  then have "int (unat (- of_nat n :: u64)) = 2 ^ 64 - int n" using unat_neg_u64 [of "of_nat n"] unfolding u by blast
  moreover define k where "k = unat (- of_nat n :: u64)"
  ultimately have "int k = 2 ^ 64 - int n" by simp
  then have m: "unat (- of_nat n :: u64) = 2 ^ 64 - n" unfolding k_def [symmetric] by simp
  show "sint (- of_nat n :: u64) < 0 \<longleftrightarrow> n \<le> 2 ^ 63"
    unfolding sint_u64 m using n assms by auto
qed

lemma asn1_get_int64_eq:
  assumes s: "asn1_typed base s" and base: "asn1_base base"
  shows "asn1_string_get_int64 s base =
     (if - (2 ^ 63) \<le> asn1_int_val s \<and> asn1_int_val s < 2 ^ 63 then Ok (of_int (asn1_int_val s)) else Err)"
proof (cases "as_length s \<le> 8")
  case True
  define n where "n = be_val (as_contents s)"
  have n: "n < 2 ^ 64" unfolding n_def using asn1_typed_wf [OF s] True by (rule asn1_short_val)
  have u: "unat (of_nat n :: u64) = n" using n by (simp add: unsigned_of_nat take_bit_nat_eq_self)
  have pos: "0 < n" if "asn1_negative s"
    using asn1_negative_pos [OF s that] by (simp add: n_def)
  have nz: "(of_nat n :: u64) \<noteq> 0" if "0 < n" using that u by (metis less_irrefl unsigned_0)
  have get: "asn1_string_get_abs_uint64 s base = Ok (of_nat n)"
    using True by (simp add: asn1_get_abs_eq [OF s base] n_def)
  show ?thesis
  proof (cases "asn1_negative s")
    case neg: True
    then have "asn1_string_get_int64 s base = (if sint (- of_nat n :: u64) < 0 then Ok (- of_nat n) else Err)"
      using nz [OF pos [OF neg]] by (simp add: asn1_string_get_int64_def get asn1_negative_def)
    moreover have "asn1_int_val s = - int n" using neg by (simp add: asn1_int_val_def n_def)
    ultimately show ?thesis using pos [OF neg] by (simp add: sint_of_nat_sign(2) [OF n])
  next
    case False
    then have "asn1_string_get_int64 s base = (if 0 \<le> sint (of_nat n :: u64) then Ok (of_nat n) else Err)"
      by (simp add: asn1_string_get_int64_def get asn1_negative_def)
    moreover have "asn1_int_val s = int n" using False by (simp add: asn1_int_val_def n_def)
    ultimately show ?thesis by (simp add: sint_of_nat_sign(1) [OF n])
  qed
next
  case False
  then show ?thesis
    using asn1_typed_large [OF s] by (auto simp: asn1_string_get_int64_def asn1_get_abs_eq [OF s base])
qed

end
