(* ===== verification/Asn1_Int_Order.thy ===== *)
theory Asn1_Int_Order
  imports Asn1_Int_Values
begin

text \<open>
  The comparison of INTEGERs is the order of the numbers they denote, and the properties of
  crypto/asn1/a_int.c.
\<close>

section \<open>Magnitudes\<close>

lemma be_val_lex: "length a = length b \<Longrightarrow> a < b \<longleftrightarrow> be_val a < be_val b"
proof (induction a arbitrary: b)
  case (Cons x a)
  then obtain y b' where b: "b = y # b'" "length a = length b'" by (cases b) auto
  have lt: "be_val (p # a) < be_val (q # b')" if "unat p < unat q" for p q
  proof -
    have "be_val (p # a) < (unat p + 1) * 256 ^ length a" using be_val_Cons_range by blast
    also have "\<dots> \<le> unat q * 256 ^ length a" using that by (intro mult_right_mono) simp_all
    also have "\<dots> \<le> be_val (q # b')" using b(2) by simp
    finally show ?thesis .
  qed
  have gt: "be_val (q # b') < be_val (p # a)" if "unat q < unat p" for p q
  proof -
    have "be_val (q # b') < (unat q + 1) * 256 ^ length b'" using be_val_Cons_range by blast
    also have "\<dots> \<le> unat p * 256 ^ length b'" using that by (intro mult_right_mono) simp_all
    also have "\<dots> \<le> be_val (p # a)" using b(2) by simp
    finally show ?thesis .
  qed
  consider "unat x < unat y" | "x = y" | "unat y < unat x"
    by (metis linorder_neqE_nat word_unat_eq_iff)
  then show ?case
  proof cases
    case 2
    with Cons.IH [OF b(2)] show ?thesis by (simp add: b)
  qed (use lt [of x y] gt [of y x] b in \<open>auto simp: word_less_nat_alt simp del: be_val.simps\<close>)
qed simp

lemma be_val_shorter:
  assumes "length a < length b" and "b = [] \<or> hd b \<noteq> 0"
  shows "be_val a < be_val b"
proof -
  obtain n where n: "length b = Suc n" using assms(1) by (cases "length b") auto
  then have "hd b \<noteq> 0" using assms(2) by auto
  then have "256 ^ n \<le> be_val b" using hd_nonzero_iff [OF n] int_val_le(1) [of 1 n "be_val b"] by simp
  moreover have "be_val a < 256 ^ length a" by (rule be_val_less)
  moreover have "(256 :: nat) ^ length a \<le> 256 ^ n" using assms(1) n by (intro power_increasing) simp_all
  ultimately show ?thesis by linarith
qed

lemma minimal_order:
  assumes "a = [] \<or> hd a \<noteq> 0" and "b = [] \<or> hd b \<noteq> 0"
  shows "(length a, a) < (length b, b) \<longleftrightarrow> be_val a < be_val b"
    and "a = b \<longleftrightarrow> be_val a = be_val b"
proof -
  consider "length a < length b" | "length a = length b" | "length b < length a" by linarith
  then have "((length a, a) < (length b, b) \<longleftrightarrow> be_val a < be_val b) \<and> (a = b \<longleftrightarrow> be_val a = be_val b)"
    using be_val_lex [of a b] be_val_inj [of a b] be_val_shorter [OF _ assms(2), of a] be_val_shorter [OF _ assms(1), of b]
    by cases auto
  then show "(length a, a) < (length b, b) \<longleftrightarrow> be_val a < be_val b" "a = b \<longleftrightarrow> be_val a = be_val b" by blast+
qed

lemma asn1_typed_key:
  assumes s: "asn1_typed base s" and base: "asn1_base base"
  shows "asn1_key s = (length (as_contents s), 0, as_contents s, as_type s)"
proof -
  have "as_type s \<noteq> V_ASN1_BIT_STRING" using s asn1_base_bits [OF base] by (auto simp: asn1_typed_def)
  then have "asn1_len s = (as_length s, 0)" by (simp add: asn1_len_def asn1_cmp_length_def)
  then show ?thesis using asn1_typed_wf [OF s] by (simp add: asn1_key_def as_contents_take)
qed

lemma asn1_typed_sign:
  assumes s: "asn1_typed base s" and base: "asn1_base base"
  shows "as_type s = (if asn1_negative s then base OR V_ASN1_NEG else base)"
    and "as_type s AND V_ASN1_NEG = (if asn1_negative s then V_ASN1_NEG else 0)"
    and "asn1_negative s \<longleftrightarrow> asn1_int_val s < 0"
proof -
  show t: "as_type s = (if asn1_negative s then base OR V_ASN1_NEG else base)"
    using s asn1_base_bits [OF base] by (auto simp: asn1_typed_def asn1_negative_def)
  show "as_type s AND V_ASN1_NEG = (if asn1_negative s then V_ASN1_NEG else 0)"
    using base by (auto simp: t asn1_base_def asn1_constants)
  show "asn1_negative s \<longleftrightarrow> asn1_int_val s < 0"
    using asn1_negative_pos [OF s] by (auto simp: asn1_int_val_def)
qed

section \<open>The comparison\<close>

lemma ASN1_INTEGER_cmp_order:
  assumes x: "asn1_typed base x" and y: "asn1_typed base y" and base: "asn1_base base"
  shows "\<exists>n. ASN1_INTEGER_cmp x y = Ok n \<and> sgn n = sgn (asn1_int_val x - asn1_int_val y)"
proof (cases "asn1_negative x \<longleftrightarrow> asn1_negative y")
  case False
  then show ?thesis
    using asn1_typed_sign [OF x base] asn1_typed_sign [OF y base]
    by (auto simp: ASN1_INTEGER_cmp_def asn1_constants Let_def)
next
  case True
  have min: "as_contents x = [] \<or> hd (as_contents x) \<noteq> 0" "as_contents y = [] \<or> hd (as_contents y) \<noteq> 0"
    using x y by (simp_all add: asn1_typed_def)
  have ty: "as_type x = as_type y" using True asn1_typed_sign [OF x base] asn1_typed_sign [OF y base] by simp
  obtain n where n: "ASN1_STRING_cmp x y = Ok n" "n < 0 \<longleftrightarrow> asn1_key x < asn1_key y" "n = 0 \<longleftrightarrow> asn1_key x = asn1_key y"
    using ASN1_STRING_cmp_order [OF asn1_typed_wf [OF x] asn1_typed_wf [OF y]] by blast
  have lt: "n < 0 \<longleftrightarrow> be_val (as_contents x) < be_val (as_contents y)"
    using minimal_order(1) [OF min] unfolding n(2) asn1_typed_key [OF x base] asn1_typed_key [OF y base] ty
    by auto
  have eq: "n = 0 \<longleftrightarrow> be_val (as_contents x) = be_val (as_contents y)"
    using minimal_order(2) [OF min] unfolding n(3) asn1_typed_key [OF x base] asn1_typed_key [OF y base] ty
    by auto
  have cmp: "ASN1_INTEGER_cmp x y = Ok (if asn1_negative x then - sgn n else n)"
    using n(1) ty asn1_typed_sign(2) [OF y base] True
    by (auto simp: ASN1_INTEGER_cmp_def Let_def asn1_constants sgn_if)
  show ?thesis
    unfolding cmp using lt eq True by (auto simp: asn1_int_val_def sgn_if)
qed

section \<open>Properties\<close>

text \<open>
  C33. Where there is memory for it, setting an INTEGER or ENUMERATED to a machine integer leaves
  a well-typed sign-and-magnitude string of that number, whatever the object was before.
\<close>

theorem integer_typed:
  assumes "alloc_ok mem" and "asn1_string_wf s" and "int_memory True mem 8"
  shows "(\<exists>t. ASN1_INTEGER_set_int64 mem v s = (Ok (), t) \<and>
            asn1_typed V_ASN1_INTEGER t \<and> asn1_int_val t = sint v) \<and>
         (\<exists>t. ASN1_INTEGER_set_uint64 mem v s = (Ok (), t) \<and>
            asn1_typed V_ASN1_INTEGER t \<and> asn1_int_val t = int (unat v)) \<and>
         (\<exists>t. ASN1_ENUMERATED_set_int64 mem v s = (Ok (), t) \<and>
            asn1_typed V_ASN1_ENUMERATED t \<and> asn1_int_val t = sint v) \<and>
         (\<exists>t. ASN1_ENUMERATED_set_uint64 mem v s = (Ok (), t) \<and>
            asn1_typed V_ASN1_ENUMERATED t \<and> asn1_int_val t = int (unat v))"
proof -
  have signed: "\<exists>t. asn1_set_signed mem v base s = (Ok (), t) \<and> asn1_typed base t \<and> asn1_int_val t = sint v"
    if "asn1_base base" for base
    using asn1_set_signed_cases [OF assms(1,2) that, of v] assms(3) by metis
  have unsigned: "\<exists>t. asn1_string_set_uint64 mem v base s = (Ok (), t) \<and> asn1_typed base t \<and> asn1_int_val t = int (unat v)"
    if "asn1_base base" for base
    using asn1_set_unsigned_cases [OF assms(1,2) that, of v] assms(3) by metis
  show ?thesis
    unfolding set_int64_signed ASN1_INTEGER_set_uint64_def ASN1_ENUMERATED_set_uint64_def
    by (intro conjI signed unsigned) simp_all
qed

definition plain_memory :: allocator where
  "plain_memory n = Some (replicate n 0)"

lemma plain_memory_ok: "alloc_ok plain_memory" "n \<le> ASN1_STRING_MAX \<Longrightarrow> int_memory True plain_memory n"
  by (simp_all add: alloc_ok_def plain_memory_def int_memory_def list_all_iff)

theorem integer_typed_witness:
  "\<exists>t. ASN1_INTEGER_set_int64 plain_memory (- 129) \<lparr>as_length = 0, as_type = 2, as_data = None, as_flags = 0\<rparr> =
     (Ok (), t) \<and> asn1_typed V_ASN1_INTEGER t \<and> asn1_int_val t = sint (- 129 :: u64)"
  using integer_typed [OF plain_memory_ok(1) _ plain_memory_ok(2),
      of "\<lparr>as_length = 0, as_type = 2, as_data = None, as_flags = 0\<rparr>" "- 129"]
  by (simp add: asn1_string_wf_def ASN1_STRING_MAX_def)

text \<open>
  C6. The contents of an INTEGER are accepted exactly when they are the shortest two's
  complement string of some number, which the object then denotes; nothing is consumed
  otherwise.
\<close>

theorem integer_contents_read:
  assumes "alloc_ok mem" and "pred_option asn1_string_wf out" and "length c \<le> INT_MAX div 2"
    and "int_memory struct_ok mem (length c)"
  shows "if \<exists>k. c = int_enc k
         then \<exists>s. c2i_ASN1_INTEGER struct_ok mem (int (length c)) (c @ rest, out) = (Ok s, (rest, Some s)) \<and>
                asn1_typed V_ASN1_INTEGER s \<and> c = int_enc (asn1_int_val s)
         else c2i_ASN1_INTEGER struct_ok mem (int (length c)) (c @ rest, out) = (Err, (c @ rest, out))"
  using assms(4) by (cases rule: c2i_ASN1_INTEGER_cases [OF assms(1-3), of struct_ok rest]) auto

theorem integer_contents_read_witness:
  "\<exists>s. c2i_ASN1_INTEGER True plain_memory 2 ([0xff, 0x7f, 5], None) = (Ok s, ([5], Some s)) \<and>
       asn1_typed V_ASN1_INTEGER s \<and> asn1_int_val s = - 129"
proof -
  have e: "int_enc (- 129) = [0xff, 0x7f]"
    by (rule int_enc_eqI) (simp_all add: int_minimal_def int_val_def)
  have "\<exists>k. [0xff, 0x7f] = int_enc k" by (intro exI [of _ "- 129"]) (simp add: e)
  note ex = this
  obtain s where s: "c2i_ASN1_INTEGER True plain_memory (int (length [0xff, 0x7f :: byte])) ([0xff, 0x7f] @ [5], None) = (Ok s, ([5], Some s))"
    "asn1_typed V_ASN1_INTEGER s" "[0xff, 0x7f] = int_enc (asn1_int_val s)"
    using integer_contents_read [OF plain_memory_ok(1) _ _ plain_memory_ok(2), of None "[0xff, 0x7f]" "[5]"]
    unfolding if_P [OF ex] by (fastforce simp: INT_MAX_def ASN1_STRING_MAX_def)
  then have "asn1_int_val s = - 129" using int_enc_minimal e by metis
  with s(1,2) show ?thesis by auto
qed

text \<open>
  C23. An INTEGER is written as the shortest two's complement string of its number, minimal or
  not, in exactly the bytes it asked for.
\<close>

theorem integer_contents_written:
  assumes "asn1_string_wf s" and "as_length s < INT_MAX" and "length old = length (int_enc (asn1_int_val s))"
  shows "i2c_ASN1_INTEGER (Some s) None = Ok (length old, None) \<and>
         i2c_ASN1_INTEGER (Some s) (Some (front @ old @ rest, length front)) =
           Ok (length old, Some (front @ int_enc (asn1_int_val s) @ rest, length front + length old))"
  using i2c_ASN1_INTEGER_eq [OF assms(1,2)] assms(3) by simp

theorem integer_contents_written_witness:
  "i2c_ASN1_INTEGER (Some \<lparr>as_length = 2, as_type = 0x102, as_data = Some [0, 0x81], as_flags = 0\<rparr>) (Some ([1, 2, 3], 0)) =
     Ok (2, Some ([0xff, 0x7f, 3], 2))"
proof -
  let ?s = "\<lparr>as_length = 2, as_type = 0x102, as_data = Some [0, 0x81], as_flags = 0\<rparr>"
  have v: "asn1_int_val ?s = - 129"
    by (simp add: asn1_int_val_def asn1_negative_def as_contents_def as_bytes_def V_ASN1_NEG_def)
  have e: "int_enc (- 129) = [0xff, 0x7f]"
    by (rule int_enc_eqI) (simp_all add: int_minimal_def int_val_def)
  show ?thesis
    using integer_contents_written [of ?s "[1, 2]" "[]" "[3]"]
    by (simp add: v e asn1_string_wf_def as_bytes_def INT_MAX_def)
qed

text \<open>C20. The comparison of two INTEGERs has the sign of the difference of their numbers.\<close>

theorem integer_order:
  assumes "asn1_typed V_ASN1_INTEGER x" and "asn1_typed V_ASN1_INTEGER y"
  shows "\<exists>n. ASN1_INTEGER_cmp x y = Ok n \<and> sgn n = sgn (asn1_int_val x - asn1_int_val y)"
  by (rule ASN1_INTEGER_cmp_order [OF assms]) simp

theorem integer_order_witness:
  "\<exists>n. ASN1_INTEGER_cmp \<lparr>as_length = 1, as_type = 0x102, as_data = Some [9], as_flags = 0\<rparr>
         \<lparr>as_length = 1, as_type = 0x102, as_data = Some [8], as_flags = 0\<rparr> = Ok n \<and> sgn n = - 1"
  using integer_order [of "\<lparr>as_length = 1, as_type = 0x102, as_data = Some [9], as_flags = 0\<rparr>"
      "\<lparr>as_length = 1, as_type = 0x102, as_data = Some [8], as_flags = 0\<rparr>"]
  by (simp add: asn1_typed_def asn1_string_wf_def as_bytes_def as_contents_def asn1_int_val_def
      asn1_negative_def asn1_constants)

text \<open>
  C31. A machine integer is returned exactly when the number fits its type; otherwise it is an
  error, and never a wrapped-around value.
\<close>

theorem integer_loaded:
  assumes "asn1_typed V_ASN1_INTEGER s"
  shows "ASN1_INTEGER_get_int64 s =
           (if - (2 ^ 63) \<le> asn1_int_val s \<and> asn1_int_val s < 2 ^ 63 then Ok (of_int (asn1_int_val s)) else Err) \<and>
         ASN1_INTEGER_get_uint64 s =
           (if 0 \<le> asn1_int_val s \<and> asn1_int_val s < 2 ^ 64 then Ok (of_int (asn1_int_val s)) else Err) \<and>
         ASN1_INTEGER_get (Some s) =
           Ok (if - (2 ^ 63) \<le> asn1_int_val s \<and> asn1_int_val s < 2 ^ 63 then asn1_int_val s else - 1)"
proof -
  note get = asn1_get_int64_eq [OF assms asn1_base_intros(1)]
  show ?thesis
    unfolding ASN1_INTEGER_get_int64_def ASN1_INTEGER_get_uint64_def ASN1_INTEGER_get_def asn1_string_get_long_def
      option.case get asn1_get_uint64_eq [OF assms asn1_base_intros(1)]
    using sint_of_int_u64 [of "asn1_int_val s"] by auto
qed

theorem integer_loaded_witness:
  "ASN1_INTEGER_get_int64 \<lparr>as_length = 8, as_type = 0x102, as_data = Some [0x80, 0, 0, 0, 0, 0, 0, 0], as_flags = 0\<rparr> =
     Ok 0x8000000000000000 \<and>
   ASN1_INTEGER_get_uint64 \<lparr>as_length = 8, as_type = 0x102, as_data = Some [0x80, 0, 0, 0, 0, 0, 0, 0], as_flags = 0\<rparr> = Err"
  using integer_loaded [of "\<lparr>as_length = 8, as_type = 0x102, as_data = Some [0x80, 0, 0, 0, 0, 0, 0, 0], as_flags = 0\<rparr>"]
  by (simp add: asn1_typed_def asn1_string_wf_def as_bytes_def as_contents_def asn1_int_val_def
      asn1_negative_def asn1_constants)

end
