(* ===== verification/Bignum.thy ===== *)
theory Bignum
  imports Cbs_Values Const_Time
begin

text \<open>
  crypto/fipsmodule/bn: the representation of big numbers on a 64-bit platform. bn.c keeps
  and sizes the words, bytes.c converts them from and to byte strings, cmp.c compares them
  without a branch on their values.
\<close>

type_synonym BN_ULONG = u64

text \<open>
  A \<open>BIGNUM\<close>. The block \<open>bn_d\<close> has \<open>dmax\<close> words, the number is in the
  first \<open>bn_width\<close> of them, least significant first, and its sign in \<open>bn_neg\<close>. A null
  pointer is the empty block.
\<close>

record bignum =
  bn_d :: "BN_ULONG list"
  bn_width :: nat
  bn_neg :: bool
  bn_flags :: int

abbreviation bn_dmax :: "bignum \<Rightarrow> nat" where
  "bn_dmax bn \<equiv> length (bn_d bn)"

definition bn_words :: "bignum \<Rightarrow> BN_ULONG list" where
  "bn_words bn = take (bn_width bn) (bn_d bn)"

definition BN_MAX_WORDS :: nat where
  "BN_MAX_WORDS = INT_MAX div (4 * 64)"

definition BN_FLG_MALLOCED :: int where "BN_FLG_MALLOCED = 0x01"
definition BN_FLG_STATIC_DATA :: int where "BN_FLG_STATIC_DATA = 0x02"

section \<open>Words in use\<close>

fun bn_or_words :: "BN_ULONG list \<Rightarrow> BN_ULONG \<Rightarrow> BN_ULONG" where
  "bn_or_words [] msk = msk"
| "bn_or_words (w # ws) msk = bn_or_words ws (msk OR w)"

definition bn_fits_in_words :: "bignum \<Rightarrow> nat \<Rightarrow> bool" where
  "bn_fits_in_words bn num = (bn_or_words (drop num (bn_words bn)) 0 = 0)"

fun minimal_width_loop :: "BN_ULONG list \<Rightarrow> nat \<Rightarrow> nat" where
  "minimal_width_loop d 0 = 0"
| "minimal_width_loop d (Suc ret) = (if d ! ret = 0 then minimal_width_loop d ret else Suc ret)"

definition bn_minimal_width :: "bignum \<Rightarrow> nat" where
  "bn_minimal_width bn = minimal_width_loop (bn_d bn) (bn_width bn)"

definition bn_set_minimal_width :: "bignum \<Rightarrow> bignum" where
  "bn_set_minimal_width bn =
     (let bn = bn\<lparr>bn_width := bn_minimal_width bn\<rparr>
      in if bn_width bn = 0 then bn\<lparr>bn_neg := False\<rparr> else bn)"

text \<open>One of the blocks of the bit count: the upper half of \<open>l\<close> starts at bit \<open>k\<close>.\<close>

definition num_bits_block :: "nat \<Rightarrow> nat \<times> BN_ULONG \<Rightarrow> nat \<times> BN_ULONG" where
  "num_bits_block k = (\<lambda>(bits, l).
     let x = drop_bit k l;
         msk = 0 - x;
         msk = 0 - drop_bit 63 msk
     in (bits + unat (of_nat k AND msk), l XOR ((x XOR l) AND msk)))"

definition BN_num_bits_word :: "BN_ULONG \<Rightarrow> nat" where
  "BN_num_bits_word l =
     (let start = (if l \<noteq> 0 then 1 else 0, l)
      in fst (num_bits_block 1 (num_bits_block 2 (num_bits_block 4 (num_bits_block 8
           (num_bits_block 16 (num_bits_block 32 start)))))))"

text \<open>
  Both results are an \<open>unsigned int\<close>, whose sums wrap. The product is an \<open>int\<close>: that it does
  not overflow is part of what is proved of these functions.
\<close>

definition BN_num_bits :: "bignum \<Rightarrow> nat" where
  "BN_num_bits bn =
     (let width = bn_minimal_width bn
      in if width = 0 then 0
         else ((width - 1) * 64 + BN_num_bits_word (bn_d bn ! (width - 1))) mod 2 ^ 32)"

definition BN_num_bytes :: "bignum \<Rightarrow> nat" where
  "BN_num_bytes bn = (BN_num_bits bn + 7) mod 2 ^ 32 div 8"

section \<open>Creation and size\<close>

definition BN_init :: bignum where
  "BN_init = \<lparr>bn_d = [], bn_width = 0, bn_neg = False, bn_flags = 0\<rparr>"

definition BN_new :: "bool \<Rightarrow> bignum option" where
  "BN_new struct_ok = (if \<not> struct_ok then None else Some (BN_init\<lparr>bn_flags := BN_FLG_MALLOCED\<rparr>))"

text \<open>\<open>calloc n\<close> tells whether \<open>n\<close> words, all zero, can be allocated.\<close>

definition bn_wexpand :: "(nat \<Rightarrow> bool) \<Rightarrow> nat \<Rightarrow> (bignum, unit) op" where
  "bn_wexpand calloc words bn =
     (if words \<le> bn_dmax bn then (Ok (), bn)
      else if words > BN_MAX_WORDS then (Err, bn)
      else if bn_flags bn AND BN_FLG_STATIC_DATA \<noteq> 0 then (Err, bn)
      else if \<not> calloc words then (Err, bn)
      else if bn_width bn > bn_dmax bn then (Abort, bn)
      else (Ok (), bn\<lparr>bn_d := bn_words bn @ replicate (words - bn_width bn) 0\<rparr>))"

definition bn_expand :: "(nat \<Rightarrow> bool) \<Rightarrow> nat \<Rightarrow> (bignum, unit) op" where
  "bn_expand calloc bits =
     (if size_add bits 63 < bits then op_fail
      else bn_wexpand calloc (size_add bits 63 div 64))"

definition bn_resize_words :: "(nat \<Rightarrow> bool) \<Rightarrow> nat \<Rightarrow> (bignum, unit) op" where
  "bn_resize_words calloc words bn =
     (if bn_width bn \<le> words then
        op_then (bn_wexpand calloc words)
          (\<lambda>bn. (Ok (), bn\<lparr>bn_d := bn_words bn @ replicate (words - bn_width bn) 0 @ drop words (bn_d bn),
                          bn_width := words\<rparr>)) bn
      else if \<not> bn_fits_in_words bn words then (Err, bn)
      else (Ok (), bn\<lparr>bn_width := words\<rparr>))"

text \<open>The words in use are stored at the front of the block of \<open>dest\<close>.\<close>

definition bn_store_words :: "BN_ULONG list \<Rightarrow> bool \<Rightarrow> bignum \<Rightarrow> bignum" where
  "bn_store_words ws neg bn = bn\<lparr>bn_d := ws @ drop (length ws) (bn_d bn), bn_width := length ws, bn_neg := neg\<rparr>"

definition BN_copy :: "(nat \<Rightarrow> bool) \<Rightarrow> bignum \<Rightarrow> (bignum, unit) op" where
  "BN_copy calloc src =
     op_then (bn_wexpand calloc (bn_width src))
       (\<lambda>dest. if bn_width src > bn_dmax src then (Abort, dest)
               else (Ok (), bn_store_words (bn_words src) (bn_neg src) dest))"

definition BN_dup :: "bool \<Rightarrow> (nat \<Rightarrow> bool) \<Rightarrow> bignum option \<Rightarrow> bignum result" where
  "BN_dup struct_ok calloc src =
     (case src of
        None \<Rightarrow> Err
      | Some src \<Rightarrow>
          (case BN_new struct_ok of
             None \<Rightarrow> Err
           | Some copy \<Rightarrow>
               (case BN_copy calloc src copy of (Ok _, copy) \<Rightarrow> Ok copy | (Err, _) \<Rightarrow> Err | (Abort, _) \<Rightarrow> Abort)))"

definition BN_clear :: "bignum \<Rightarrow> bignum" where
  "BN_clear bn = bn\<lparr>bn_d := replicate (bn_dmax bn) 0, bn_width := 0, bn_neg := False\<rparr>"

definition BN_value_one :: bignum where
  "BN_value_one = \<lparr>bn_d = [1], bn_width = 1, bn_neg = False, bn_flags = BN_FLG_STATIC_DATA\<rparr>"

definition BN_zero :: "bignum \<Rightarrow> bignum" where
  "BN_zero bn = bn\<lparr>bn_width := 0, bn_neg := False\<rparr>"

definition BN_set_word :: "(nat \<Rightarrow> bool) \<Rightarrow> BN_ULONG \<Rightarrow> (bignum, unit) op" where
  "BN_set_word calloc val =
     (if val = 0 then (\<lambda>bn. (Ok (), BN_zero bn))
      else op_then (bn_wexpand calloc 1) (\<lambda>bn. (Ok (), bn_store_words [val] False bn)))"

definition BN_one :: "(nat \<Rightarrow> bool) \<Rightarrow> (bignum, unit) op" where
  "BN_one calloc = BN_set_word calloc 1"

definition BN_set_u64 :: "(nat \<Rightarrow> bool) \<Rightarrow> u64 \<Rightarrow> (bignum, unit) op" where
  "BN_set_u64 calloc val = BN_set_word calloc val"

definition bn_set_words :: "(nat \<Rightarrow> bool) \<Rightarrow> BN_ULONG list \<Rightarrow> (bignum, unit) op" where
  "bn_set_words calloc words =
     op_then (bn_wexpand calloc (length words)) (\<lambda>bn. (Ok (), bn_store_words words False bn))"

definition bn_set_static_words :: "BN_ULONG list \<Rightarrow> (bignum, unit) op" where
  "bn_set_static_words words bn =
     (if length words > BN_MAX_WORDS then (Abort, bn)
      else (Ok (), bn\<lparr>bn_d := words, bn_width := length words, bn_neg := False,
                      bn_flags := bn_flags bn OR BN_FLG_STATIC_DATA\<rparr>))"

definition bn_copy_words :: "nat \<Rightarrow> bignum \<Rightarrow> BN_ULONG list result" where
  "bn_copy_words num bn =
     (if bn_neg bn then Err
      else if bn_width bn > num \<and> \<not> bn_fits_in_words bn num then Err
      else
        (let width = (if bn_width bn > num then num else bn_width bn)
         in if bn_dmax bn < width then Abort
            else Ok (take width (bn_d bn) @ replicate (num - width) 0)))"

definition bn_select_words :: "BN_ULONG \<Rightarrow> BN_ULONG list \<Rightarrow> BN_ULONG list \<Rightarrow> BN_ULONG list" where
  "bn_select_words msk a b = map2 (constant_time_select_w msk) a b"

section \<open>Comparison\<close>

definition BN_is_zero :: "bignum \<Rightarrow> bool" where
  "BN_is_zero bn = bn_fits_in_words bn 0"

definition BN_set_negative :: "bool \<Rightarrow> bignum \<Rightarrow> bignum" where
  "BN_set_negative sign bn = bn\<lparr>bn_neg := (sign \<and> \<not> BN_is_zero bn)\<rparr>"

fun cmp_words_loop :: "BN_ULONG list \<Rightarrow> BN_ULONG list \<Rightarrow> c_int \<Rightarrow> c_int" where
  "cmp_words_loop (a # as) (b # bs) ret =
     (let eq = constant_time_eq_w a b;
          lt = constant_time_lt_w a b
      in cmp_words_loop as bs (constant_time_select_int eq ret (constant_time_select_int lt (- 1) 1)))"
| "cmp_words_loop _ _ ret = ret"

definition bn_cmp_words_consttime :: "BN_ULONG list \<Rightarrow> BN_ULONG list \<Rightarrow> c_int" where
  "bn_cmp_words_consttime a b =
     (let a_len = length a; b_len = length b;
          m = (if a_len < b_len then a_len else b_len);
          ret = cmp_words_loop (take m a) (take m b) 0
      in if a_len < b_len
         then constant_time_select_int (constant_time_is_zero_w (bn_or_words (drop a_len b) 0)) ret (- 1)
         else if b_len < a_len
         then constant_time_select_int (constant_time_is_zero_w (bn_or_words (drop b_len a) 0)) ret 1
         else ret)"

definition BN_ucmp :: "bignum \<Rightarrow> bignum \<Rightarrow> c_int" where
  "BN_ucmp a b = bn_cmp_words_consttime (bn_words a) (bn_words b)"

definition BN_cmp :: "bignum option \<Rightarrow> bignum option \<Rightarrow> c_int" where
  "BN_cmp a b =
     (case (a, b) of
        (Some a, Some b) \<Rightarrow>
          if bn_neg a \<noteq> bn_neg b then (if bn_neg a then - 1 else 1)
          else (let ret = BN_ucmp a b in if bn_neg a then - ret else ret)
      | (Some _, None) \<Rightarrow> - 1
      | (None, Some _) \<Rightarrow> 1
      | (None, None) \<Rightarrow> 0)"

definition bn_less_than_words :: "BN_ULONG list \<Rightarrow> BN_ULONG list \<Rightarrow> bool" where
  "bn_less_than_words a b = (sint (bn_cmp_words_consttime a b) < 0)"

definition BN_abs_is_word :: "bignum \<Rightarrow> BN_ULONG \<Rightarrow> bool" where
  "BN_abs_is_word bn w =
     (case bn_words bn of
        [] \<Rightarrow> w = 0
      | d # ds \<Rightarrow> bn_or_words ds (d XOR w) = 0)"

definition BN_cmp_word :: "bignum option \<Rightarrow> BN_ULONG \<Rightarrow> c_int" where
  "BN_cmp_word a b =
     BN_cmp a (Some \<lparr>bn_d = [b], bn_width = (if b > 0 then 1 else 0), bn_neg = False, bn_flags = BN_FLG_STATIC_DATA\<rparr>)"

definition BN_is_one :: "bignum \<Rightarrow> bool" where
  "BN_is_one bn \<longleftrightarrow> \<not> bn_neg bn \<and> BN_abs_is_word bn 1"

definition BN_is_word :: "bignum \<Rightarrow> BN_ULONG \<Rightarrow> bool" where
  "BN_is_word bn w \<longleftrightarrow> BN_abs_is_word bn w \<and> (w = 0 \<or> \<not> bn_neg bn)"

definition BN_is_odd :: "bignum \<Rightarrow> bool" where
  "BN_is_odd bn \<longleftrightarrow> bn_width bn > 0 \<and> (bn_d bn ! 0) AND 1 = 1"

definition BN_is_pow2 :: "bignum \<Rightarrow> bool" where
  "BN_is_pow2 bn =
     (let width = bn_minimal_width bn in
      if width = 0 \<or> bn_neg bn then False
      else if list_ex (\<lambda>w. w \<noteq> 0) (take (width - 1) (bn_d bn)) then False
      else (let w = bn_d bn ! (width - 1) in w AND (w - 1) = 0))"

fun xor_words_loop :: "BN_ULONG list \<Rightarrow> BN_ULONG list \<Rightarrow> BN_ULONG \<Rightarrow> BN_ULONG" where
  "xor_words_loop (a # as) (b # bs) msk = xor_words_loop as bs (msk OR (a XOR b))"
| "xor_words_loop _ _ msk = msk"

definition BN_equal_consttime :: "bignum \<Rightarrow> bignum \<Rightarrow> bool" where
  "BN_equal_consttime a b =
     (let msk = bn_or_words (drop (bn_width a) (bn_words b)) 0;
          msk = bn_or_words (drop (bn_width b) (bn_words a)) msk;
          m = (if bn_width a < bn_width b then bn_width a else bn_width b);
          msk = xor_words_loop (take m (bn_words a)) (take m (bn_words b)) msk;
          msk = msk OR (of_bool (bn_neg a) XOR of_bool (bn_neg b))
      in msk = 0)"

end
