(* ===== verification/Bignum_Bytes.thy ===== *)
theory Bignum_Bytes
  imports Bignum
begin

text \<open>
  crypto/fipsmodule/bn/bytes.c: big numbers from and to byte strings, on a little-endian
  platform. The words of a block, as bytes, are \<open>le_bytes\<close>.
\<close>

definition le_bytes :: "BN_ULONG list \<Rightarrow> byte list" where
  "le_bytes ws = concat (map (\<lambda>w. rev (be_bytes 8 (unat w))) ws)"

fun le_words_of :: "nat \<Rightarrow> byte list \<Rightarrow> BN_ULONG list" where
  "le_words_of 0 bs = []"
| "le_words_of (Suc n) bs = of_nat (be_val (rev (take 8 bs))) # le_words_of n (drop 8 bs)"

section \<open>From bytes\<close>

fun load_partial_word :: "byte list \<Rightarrow> BN_ULONG \<Rightarrow> BN_ULONG" where
  "load_partial_word [] word = word"
| "load_partial_word (b # bs) word = load_partial_word bs (push_bit 8 word OR ucast b)"

function load_words_be :: "byte list \<Rightarrow> BN_ULONG list" where
  "load_words_be inp =
     (if 8 \<le> length inp
      then CRYPTO_load_u64_be (drop (length inp - 8) inp) # load_words_be (take (length inp - 8) inp)
      else if inp \<noteq> [] then [load_partial_word inp 0] else [])"
  by pat_completeness auto
termination
  by (relation "measure length") auto

declare load_words_be.simps [simp del]

definition bn_big_endian_to_words :: "nat \<Rightarrow> byte list \<Rightarrow> BN_ULONG list result" where
  "bn_big_endian_to_words out_len inp =
     (if length inp > out_len * 8 then Abort
      else let out = load_words_be inp in Ok (out @ replicate (out_len - length out) 0))"

text \<open>
  The readers work on the object \<open>ret\<close> points to, or make one; the result is what the
  call returns, and the state the object that \<open>ret\<close> points to afterwards.
\<close>

definition bn_read ::
    "bool \<Rightarrow> (bignum, unit) op \<Rightarrow> (bignum option, bignum) op" where
  "bn_read struct_ok fill ret =
     (case (if ret = None then BN_new struct_ok else ret) of
        None \<Rightarrow> (Err, ret)
      | Some bn \<Rightarrow>
          (case fill bn of
             (Ok _, bn) \<Rightarrow> (Ok bn, if ret = None then None else Some bn)
           | (Err, bn) \<Rightarrow> (Err, if ret = None then None else Some bn)
           | (Abort, bn) \<Rightarrow> (Abort, ret)))"

definition bin2bn_into :: "(nat \<Rightarrow> bool) \<Rightarrow> byte list \<Rightarrow> (bignum, unit) op" where
  "bin2bn_into calloc inp =
     (if length inp = 0 then (\<lambda>ret. (Ok (), ret\<lparr>bn_width := 0\<rparr>))
      else
        (let num_words = (length inp - 1) div 8 + 1 in
         op_then (bn_wexpand calloc num_words)
           (\<lambda>ret. if num_words > INT_MAX then (Abort, ret)
                  else case bn_big_endian_to_words num_words inp of
                    Ok ws \<Rightarrow> (Ok (), bn_store_words ws False ret)
                  | _ \<Rightarrow> (Abort, ret))))"

definition BN_bin2bn :: "bool \<Rightarrow> (nat \<Rightarrow> bool) \<Rightarrow> byte list \<Rightarrow> (bignum option, bignum) op" where
  "BN_bin2bn struct_ok calloc inp = bn_read struct_ok (bin2bn_into calloc inp)"

definition lebin2bn_into :: "(nat \<Rightarrow> bool) \<Rightarrow> byte list \<Rightarrow> (bignum, unit) op" where
  "lebin2bn_into calloc inp =
     (if length inp = 0 then (\<lambda>ret. (Ok (), ret\<lparr>bn_width := 0, bn_neg := False\<rparr>))
      else
        (let num_words = (length inp - 1) div 8 + 1 in
         op_then (bn_wexpand calloc num_words)
           (\<lambda>ret. let d = (bn_d ret)[num_words - 1 := 0] in
                  case OPENSSL_memcpy (le_bytes d) 0 inp (length inp) of
                    None \<Rightarrow> (Abort, ret)
                  | Some bytes \<Rightarrow> (Ok (), ret\<lparr>bn_d := le_words_of (length d) bytes, bn_width := num_words\<rparr>))))"

definition BN_lebin2bn :: "bool \<Rightarrow> (nat \<Rightarrow> bool) \<Rightarrow> byte list \<Rightarrow> (bignum option, bignum) op" where
  "BN_lebin2bn struct_ok calloc inp = bn_read struct_ok (lebin2bn_into calloc inp)"

definition BN_le2bn :: "bool \<Rightarrow> (nat \<Rightarrow> bool) \<Rightarrow> byte list \<Rightarrow> (bignum option, bignum) op" where
  "BN_le2bn struct_ok calloc inp = BN_lebin2bn struct_ok calloc inp"

section \<open>To bytes\<close>

fun or_bytes :: "byte list \<Rightarrow> byte \<Rightarrow> byte" where
  "or_bytes [] msk = msk"
| "or_bytes (b # bs) msk = or_bytes bs (msk OR b)"

definition fits_in_bytes :: "BN_ULONG list \<Rightarrow> nat \<Rightarrow> bool" where
  "fits_in_bytes words num_bytes = (or_bytes (drop num_bytes (le_bytes words)) 0 = 0)"

definition bn_assert_fits_in_bytes :: "bignum \<Rightarrow> nat \<Rightarrow> unit result" where
  "bn_assert_fits_in_bytes bn num =
     (if list_all (\<lambda>b. b = 0) (drop num (le_bytes (bn_words bn))) then Ok () else Abort)"

definition bn_words_to_big_endian :: "nat \<Rightarrow> BN_ULONG list \<Rightarrow> byte list result" where
  "bn_words_to_big_endian out_len words =
     (if \<not> fits_in_bytes words out_len then Abort
      else
        (let bytes = le_bytes words;
             num_bytes = (if out_len < length bytes then out_len else length bytes)
         in Ok (replicate (out_len - num_bytes) 0 @ rev (take num_bytes bytes))))"

definition BN_bn2bin :: "bignum \<Rightarrow> byte list result" where
  "BN_bn2bin bn = bn_words_to_big_endian (BN_num_bytes bn) (bn_words bn)"

definition BN_bn2bin_padded :: "nat \<Rightarrow> bignum \<Rightarrow> byte list result" where
  "BN_bn2bin_padded len bn =
     (if \<not> fits_in_bytes (bn_words bn) len then Err else bn_words_to_big_endian len (bn_words bn))"

definition BN_bn2le_padded :: "nat \<Rightarrow> bignum \<Rightarrow> byte list result" where
  "BN_bn2le_padded len bn =
     (if \<not> fits_in_bytes (bn_words bn) len then Err
      else
        (let bytes = le_bytes (bn_words bn);
             num_bytes = (if len < length bytes then len else length bytes)
         in Ok (take num_bytes bytes @ replicate (len - num_bytes) 0)))"

definition BN_get_word :: "bignum \<Rightarrow> BN_ULONG" where
  "BN_get_word bn =
     (let width = bn_minimal_width bn
      in if width = 0 then 0 else if width = 1 then bn_d bn ! 0 else - 1)"

definition BN_get_u64 :: "bignum \<Rightarrow> u64 result" where
  "BN_get_u64 bn =
     (let width = bn_minimal_width bn
      in if width = 0 then Ok 0 else if width = 1 then Ok (bn_d bn ! 0) else Err)"

end
