(* ===== verification/Bignum_Val.thy ===== *)
theory Bignum_Val
  imports Bignum_Bytes
begin

text \<open>
  The value of a big number, and what the functions of bn.c, cmp.c and bytes.c do to it.
\<close>

section \<open>Values\<close>

fun words_val :: "BN_ULONG list \<Rightarrow> nat" where
  "words_val [] = 0"
| "words_val (w # ws) = unat w + 2 ^ 64 * words_val ws"

definition bn_abs :: "bignum \<Rightarrow> nat" where
  "bn_abs bn = words_val (bn_words bn)"

definition bn_val :: "bignum \<Rightarrow> int" where
  "bn_val bn = (if bn_neg bn then - int (bn_abs bn) else int (bn_abs bn))"

text \<open>The representation invariant, with the bound that \<open>bn_wexpand\<close> and static data keep.\<close>

definition bn_wf :: "bignum \<Rightarrow> bool" where
  "bn_wf bn \<longleftrightarrow> bn_width bn \<le> bn_dmax bn \<and> bn_dmax bn \<le> BN_MAX_WORDS"

lemma length_bn_words [simp]: "bn_wf bn \<Longrightarrow> length (bn_words bn) = bn_width bn"
  by (simp add: bn_wf_def bn_words_def)

lemma words_val_append: "words_val (xs @ ys) = words_val xs + 2 ^ (64 * length xs) * words_val ys"
  by (induction xs) (simp_all add: power_add algebra_simps)

lemma words_val_less: "words_val ws < 2 ^ (64 * length ws)"
proof (induction ws)
  case (Cons w ws)
  have "words_val (w # ws) < 2 ^ 64 * Suc (words_val ws)" using unat_u64 [of w] by simp
  also have "\<dots> \<le> 2 ^ 64 * 2 ^ (64 * length ws)" using Cons by (intro mult_left_mono) simp_all
  finally show ?case by (simp add: power_add)
qed simp

lemma words_val_zeros [simp]: "words_val (replicate n 0) = 0"
  by (induction n) auto

lemma words_val_0_iff: "words_val ws = 0 \<longleftrightarrow> list_all (\<lambda>w. w = 0) ws"
  by (induction ws) (auto simp: unat_eq_0)

lemma bn_or_words_0: "bn_or_words ws msk = 0 \<longleftrightarrow> msk = 0 \<and> list_all (\<lambda>w. w = 0) ws"
  by (induction ws arbitrary: msk) (auto simp: or_eq_0_iff)

lemma or_bytes_0: "or_bytes bs msk = 0 \<longleftrightarrow> msk = 0 \<and> list_all (\<lambda>b. b = 0) bs"
  by (induction bs arbitrary: msk) (auto simp: or_eq_0_iff)

section \<open>Bytes\<close>

lemma length_le_bytes [simp]: "length (le_bytes ws) = 8 * length ws"
  by (induction ws) (simp_all add: le_bytes_def del: be_bytes.simps)

lemma le_bytes_Cons: "le_bytes (w # ws) = rev (be_bytes 8 (unat w)) @ le_bytes ws"
  by (simp add: le_bytes_def)

lemma be_val_le_bytes: "be_val (rev (le_bytes ws)) = words_val ws"
proof (induction ws)
  case (Cons w ws)
  have "be_val (rev (le_bytes (w # ws))) = be_val (rev (le_bytes ws)) * 256 ^ 8 + be_val (be_bytes 8 (unat w))"
    by (simp add: le_bytes_Cons be_val_append del: be_bytes.simps)
  also have "be_val (be_bytes 8 (unat w)) = unat w"
    using unat_u64 [of w] by (intro be_val_be_bytes_exact) simp
  finally show ?case using Cons by simp
qed (simp add: le_bytes_def)

lemma be_val_zero_bytes: "be_val bs = 0 \<longleftrightarrow> list_all (\<lambda>b. b = 0) bs"
  by (induction bs) (auto simp: unat_eq_0)

text \<open>Bytes above a position are zero exactly when the number is below that power.\<close>

lemma be_val_split: "be_val (rev bs) = be_val (rev (drop n bs)) * 256 ^ length (take n bs) + be_val (rev (take n bs))"
proof -
  have "rev bs = rev (drop n bs) @ rev (take n bs)" by (simp flip: rev_append)
  then show ?thesis by (simp only: be_val_append length_rev)
qed

lemma le_fits: "list_all (\<lambda>b. b = 0) (drop n bs) \<longleftrightarrow> be_val (rev bs) < 256 ^ n"
proof (cases "n \<le> length bs")
  case True
  have z: "list_all (\<lambda>b. b = 0) (drop n bs) \<longleftrightarrow> be_val (rev (drop n bs)) = 0"
    by (simp add: be_val_zero_bytes)
  have lt: "be_val (rev (take n bs)) < 256 ^ n"
    using be_val_less [of "rev (take n bs)"] True by (simp only: length_rev length_take min_absorb2)
  show ?thesis
  proof
    assume "list_all (\<lambda>b. b = 0) (drop n bs)"
    with lt show "be_val (rev bs) < 256 ^ n" unfolding be_val_split [of bs n] z by simp
  next
    assume a: "be_val (rev bs) < 256 ^ n"
    have "length (take n bs) = n" using True by simp
    from a [unfolded be_val_split [of bs n] this]
    have "be_val (rev (drop n bs)) * 256 ^ n < 1 * 256 ^ n" by linarith
    then show "list_all (\<lambda>b. b = 0) (drop n bs)" unfolding z by (simp only: mult_less_cancel2) simp
  qed
next
  case False
  have "be_val (rev bs) < 256 ^ length bs" using be_val_less [of "rev bs"] by simp
  also have "\<dots> \<le> 256 ^ n" using False by (intro power_increasing) simp_all
  finally have "be_val (rev bs) < 256 ^ n" .
  with False show ?thesis by simp
qed

lemma fits_in_bytes_iff: "fits_in_bytes ws n \<longleftrightarrow> words_val ws < 256 ^ n"
  unfolding fits_in_bytes_def or_bytes_0 be_val_le_bytes [symmetric] using le_fits by blast

lemma be_bytes_pad:
  assumes "be_val bs < 256 ^ n"
  shows "be_bytes n (be_val bs) = replicate (n - length bs) 0 @ drop (length bs - n) bs"
proof (rule be_val_inj)
  define hi where "hi = take (length bs - n) bs"
  define lo where "lo = drop (length bs - n) bs"
  have bs: "be_val bs = be_val hi * 256 ^ length lo + be_val lo"
    unfolding be_val_append [symmetric] by (simp add: hi_def lo_def)
  have "be_val hi = 0"
  proof (cases "n \<le> length bs")
    case True
    then have len: "length lo = n" by (simp add: lo_def)
    have "be_val hi * 256 ^ n + be_val lo < 256 ^ n" using assms unfolding bs len .
    then have "be_val hi * 256 ^ n < 1 * 256 ^ n" by linarith
    then show ?thesis by (simp only: mult_less_cancel2) simp
  qed (simp add: hi_def)
  then have "be_val lo = be_val bs" using bs by simp
  then show "be_val (be_bytes n (be_val bs)) = be_val (replicate (n - length bs) 0 @ drop (length bs - n) bs)"
    using assms by (simp add: be_val_append lo_def)
qed simp

lemma bn_words_to_big_endian_eq:
  "bn_words_to_big_endian n ws = (if words_val ws < 256 ^ n then Ok (be_bytes n (words_val ws)) else Abort)"
proof (cases "words_val ws < 256 ^ n")
  case True
  define bs where "bs = rev (le_bytes ws)"
  have v: "be_val bs = words_val ws" by (simp add: bs_def be_val_le_bytes)
  have "be_bytes n (words_val ws) = replicate (n - length bs) 0 @ drop (length bs - n) bs"
    using be_bytes_pad [of bs n] True by (simp add: v)
  also have "drop (length bs - n) bs = rev (take n (le_bytes ws))"
    by (simp add: bs_def rev_take)
  finally have "be_bytes n (words_val ws) = replicate (n - 8 * length ws) 0 @ rev (take n (le_bytes ws))"
    by (simp add: bs_def)
  with True show ?thesis
    by (auto simp: bn_words_to_big_endian_def fits_in_bytes_iff Let_def)
qed (simp add: bn_words_to_big_endian_def fits_in_bytes_iff)

lemma load_partial_word_val:
  "load_partial_word bs w = w * 256 ^ length bs + of_nat (be_val bs)"
proof (induction bs arbitrary: w)
  case (Cons b bs)
  have "push_bit 8 w OR ucast b = w * 256 + of_nat (unat b)"
    by (subst or_eq_plus_shift) (simp_all add: push_bit_eq_mult)
  with Cons show ?case by (simp add: algebra_simps)
qed simp

lemma load_words_be_val:
  "words_val (load_words_be inp) = be_val inp \<and> length (load_words_be inp) = (length inp + 7) div 8"
proof (induction inp rule: load_words_be.induct)
  case (1 inp)
  show ?case
  proof (cases "8 \<le> length inp")
    case True
    define hi lo where "hi = take (length inp - 8) inp" and "lo = drop (length inp - 8) inp"
    have l: "length lo = 8" "length inp = length hi + 8" using True by (simp_all add: hi_def lo_def)
    have IH: "words_val (load_words_be hi) = be_val hi" "length (load_words_be hi) = (length hi + 7) div 8"
      using 1(1) [OF True] by (simp_all add: hi_def)
    have ld: "load_words_be inp = CRYPTO_load_u64_be lo # load_words_be hi"
      using True by (subst load_words_be.simps) (simp add: hi_def lo_def)
    have "be_val lo < 2 ^ 64" using be_val_less [of lo] l by simp
    then have "unat (CRYPTO_load_u64_be lo) = be_val lo"
      using l by (simp add: CRYPTO_load_u64_be_eq unsigned_of_nat take_bit_nat_eq_self)
    moreover have "be_val inp = be_val hi * 256 ^ 8 + be_val lo"
      using l(1) be_val_append [of hi lo] by (simp add: hi_def lo_def)
    ultimately show ?thesis using IH l by (simp add: ld)
  next
    case False
    show ?thesis
    proof (cases "inp = []")
      case True
      then show ?thesis by (simp add: load_words_be.simps)
    next
      case ne: False
      then have ld: "load_words_be inp = [load_partial_word inp 0]"
        using False by (subst load_words_be.simps) simp
      have "(256 :: nat) ^ length inp \<le> 256 ^ 8" using False by (intro power_increasing) simp_all
      then have "be_val inp < 2 ^ 64" using be_val_less [of inp] by simp
      then have "unat (load_partial_word inp 0) = be_val inp"
        by (simp add: load_partial_word_val unsigned_of_nat take_bit_nat_eq_self)
      moreover have "(length inp + 7) div 8 = 1" using ne False by (cases inp) simp_all
      ultimately show ?thesis by (simp add: ld)
    qed
  qed
qed

end
