(* ===== verification/Bignum_Bits.thy ===== *)
theory Bignum_Bits
  imports Bignum_Val
begin

text \<open>
  The width of a big number: the words in use without leading zeros, and its bits.
\<close>

section \<open>Minimal width\<close>

lemma minimal_width_loop_le: "minimal_width_loop d n \<le> n"
  by (induction d n rule: minimal_width_loop.induct) auto

lemma minimal_width_loop_top:
  "minimal_width_loop d n = Suc m \<Longrightarrow> d ! m \<noteq> 0"
  by (induction d n rule: minimal_width_loop.induct) (auto split: if_splits)

lemma minimal_width_loop_val:
  "n \<le> length d \<Longrightarrow> words_val (take (minimal_width_loop d n) d) = words_val (take n d)"
  by (induction d n rule: minimal_width_loop.induct)
    (auto simp: take_Suc_conv_app_nth words_val_append)

lemma words_val_pos: "words_val ws < 1 \<longleftrightarrow> words_val ws = 0"
  by simp

lemma bn_minimal_width_le: "bn_minimal_width bn \<le> bn_width bn"
  by (simp add: bn_minimal_width_def minimal_width_loop_le)

lemma bn_minimal_words:
  "bn_wf bn \<Longrightarrow> words_val (take (bn_minimal_width bn) (bn_d bn)) = bn_abs bn"
  by (simp add: bn_minimal_width_def minimal_width_loop_val bn_wf_def bn_abs_def bn_words_def)

text \<open>The number, from its top word.\<close>

lemma bn_top_word:
  assumes "bn_wf bn" and "bn_minimal_width bn = Suc m"
  defines "lo \<equiv> words_val (take m (bn_d bn))"
  shows "bn_abs bn = lo + 2 ^ (64 * m) * unat (bn_d bn ! m)" "lo < 2 ^ (64 * m)" "bn_d bn ! m \<noteq> 0"
proof -
  have m: "m < length (bn_d bn)"
    using bn_minimal_width_le [of bn] assms(1,2) by (simp add: bn_wf_def)
  show "bn_abs bn = lo + 2 ^ (64 * m) * unat (bn_d bn ! m)"
    unfolding bn_minimal_words [OF assms(1), symmetric] assms(2) lo_def
    using m by (simp add: take_Suc_conv_app_nth words_val_append)
  show "lo < 2 ^ (64 * m)"
    using words_val_less [of "take m (bn_d bn)"] m by (simp add: lo_def)
  show "bn_d bn ! m \<noteq> 0"
    using assms(2) minimal_width_loop_top by (auto simp: bn_minimal_width_def)
qed

lemma bn_minimal_width_0:
  assumes "bn_wf bn"
  shows "bn_minimal_width bn = 0 \<longleftrightarrow> bn_abs bn = 0"
proof (cases "bn_minimal_width bn")
  case 0
  then show ?thesis using bn_minimal_words [OF assms] by simp
next
  case (Suc m)
  then show ?thesis using bn_top_word [OF assms Suc] by (simp add: unat_eq_0)
qed

section \<open>Bits\<close>

lemma unat_drop_u64: "unat (drop_bit k (l :: u64)) = unat l div 2 ^ k"
proof -
  have "unat (drop_bit k l) = drop_bit k (unat l)" by (simp only: unat_drop_bit_eq)
  then show ?thesis by (simp add: drop_bit_eq_div)
qed

lemma top_bit_mask: "0 - drop_bit 63 a = mask_w (bit a 63)"
  using msb_mask [of a] by (simp add: constant_time_msb_w_def)

lemma num_bits_block_eq:
  assumes "0 < k"
  shows "num_bits_block k (bits, l) =
           (if drop_bit k l \<noteq> 0 then (bits + unat (of_nat k :: u64), drop_bit k l) else (bits, l))"
proof -
  let ?x = "drop_bit k l"
  have "unat ?x \<le> unat l div 2 ^ 1"
    unfolding unat_drop_u64 using assms by (intro div_le_mono2 power_increasing) simp_all
  then have x: "unat ?x < 2 ^ 63" using unat_u64 [of l] by simp
  have "bit (0 - ?x) 63 \<longleftrightarrow> ?x \<noteq> 0"
  proof (cases "?x = 0")
    case False
    then have "unat ?x \<noteq> 0" by (simp add: unat_eq_0)
    then show ?thesis using x False unfolding bit_63 unat_sub_u64 by simp
  qed simp
  then have msk: "0 - drop_bit 63 (0 - ?x) = mask_w (?x \<noteq> 0)"
    unfolding top_bit_mask by simp
  have a: "a AND mask_w c = (if c then a else 0)" for a c
    by (rule bit_word_eqI) (simp add: bit_simps)
  have "l XOR (?x XOR l) = ?x" by (rule bit_word_eqI) (auto simp: bit_simps)
  then show ?thesis
    unfolding num_bits_block_def prod.case Let_def msk a by simp
qed

lemma num_bits_block_step:
  assumes "num_bits_block k (bits, l) = (bits', l')"
    and "0 < bits" and "unat l = n div 2 ^ (bits - 1)" and "0 < unat l" and "unat l < 2 ^ (2 * k)"
    and "0 < k" and "k < 64"
  shows "0 < bits' \<and> unat l' = n div 2 ^ (bits' - 1) \<and> 0 < unat l' \<and> unat l' < 2 ^ k"
proof -
  have k: "unat (of_nat k :: u64) = k" using assms(7) by (simp add: unsigned_of_nat take_bit_nat_eq_self)
  show ?thesis
  proof (cases "drop_bit k l = 0")
    case True
    then have "unat l div 2 ^ k = 0" unfolding unat_drop_u64 [symmetric] by simp
    then have "unat l < 2 ^ k" by (simp add: div_eq_0_iff)
    with True assms show ?thesis by (simp add: num_bits_block_eq)
  next
    case False
    then have r: "bits' = bits + k" "l' = drop_bit k l"
      using assms(1) k by (simp_all add: num_bits_block_eq [OF assms(6)])
    have "0 < unat l'" using False r(2) by (simp add: unat_gt_0)
    moreover have "unat l' = n div 2 ^ (bits' - 1)"
    proof -
      have "bits' - 1 = (bits - 1) + k" using r(1) assms(2) by simp
      then show ?thesis by (simp add: r(2) unat_drop_u64 assms(3) power_add div_mult2_eq)
    qed
    moreover have "unat l' < 2 ^ k"
    proof -
      have "unat l < 2 ^ k * 2 ^ k" using assms(5) by (simp add: power_add mult_2)
      then show ?thesis unfolding r(2) unat_drop_u64 by (simp add: div_less_iff_less_mult)
    qed
    ultimately show ?thesis using r(1) assms(2) by simp
  qed
qed

lemma BN_num_bits_word_le:
  "BN_num_bits_word l \<le> k \<longleftrightarrow> unat l < 2 ^ k"
proof (cases "l = 0")
  case True
  then show ?thesis by (simp add: BN_num_bits_word_def num_bits_block_eq)
next
  case False
  then have l: "0 < unat l" by (simp add: unat_gt_0)
  obtain b1 l1 where 1: "num_bits_block 32 (1, l) = (b1, l1)" by fastforce
  obtain b2 l2 where 2: "num_bits_block 16 (b1, l1) = (b2, l2)" by fastforce
  obtain b3 l3 where 3: "num_bits_block 8 (b2, l2) = (b3, l3)" by fastforce
  obtain b4 l4 where 4: "num_bits_block 4 (b3, l3) = (b4, l4)" by fastforce
  obtain b5 l5 where 5: "num_bits_block 2 (b4, l4) = (b5, l5)" by fastforce
  obtain b l6 where 6: "num_bits_block 1 (b5, l5) = (b, l6)" by fastforce
  have nb: "BN_num_bits_word l = b"
    unfolding BN_num_bits_word_def Let_def using False by (simp only: if_True simp_thms 1 2 3 4 5 6 fst_conv)
  note s1 = num_bits_block_step [OF 1, of "unat l"]
  note s2 = num_bits_block_step [OF 2, of "unat l"]
  note s3 = num_bits_block_step [OF 3, of "unat l"]
  note s4 = num_bits_block_step [OF 4, of "unat l"]
  note s5 = num_bits_block_step [OF 5, of "unat l"]
  note s6 = num_bits_block_step [OF 6, of "unat l"]
  have i1: "0 < b1 \<and> unat l1 = unat l div 2 ^ (b1 - 1) \<and> 0 < unat l1 \<and> unat l1 < 2 ^ 32"
    using s1 l unat_u64 [of l] by simp
  have i2: "0 < b2 \<and> unat l2 = unat l div 2 ^ (b2 - 1) \<and> 0 < unat l2 \<and> unat l2 < 2 ^ 16"
    using s2 i1 by simp
  have i3: "0 < b3 \<and> unat l3 = unat l div 2 ^ (b3 - 1) \<and> 0 < unat l3 \<and> unat l3 < 2 ^ 8"
    using s3 i2 by simp
  have i4: "0 < b4 \<and> unat l4 = unat l div 2 ^ (b4 - 1) \<and> 0 < unat l4 \<and> unat l4 < 2 ^ 4"
    using s4 i3 by simp
  have i5: "0 < b5 \<and> unat l5 = unat l div 2 ^ (b5 - 1) \<and> 0 < unat l5 \<and> unat l5 < 2 ^ 2"
    using s5 i4 by simp
  have i6: "0 < b" "unat l6 = unat l div 2 ^ (b - 1)" "0 < unat l6" "unat l6 < 2 ^ 1"
    using s6 i5 by simp_all
  have one: "unat l div 2 ^ (b - 1) = 1" using i6 by simp
  have lo: "2 ^ (b - 1) \<le> unat l" using one by (metis div_less less_numeral_extra(1) linorder_not_less order_less_irrefl)
  have hi: "unat l < 2 ^ b"
  proof -
    have "unat l div 2 ^ (b - 1) < 2" using one by simp
    then have "unat l < 2 * 2 ^ (b - 1)" by (simp only: div_less_iff_less_mult zero_less_power zero_less_numeral)
    also have "\<dots> = 2 ^ b" using i6(1) by (cases b) simp_all
    finally show ?thesis .
  qed
  show ?thesis unfolding nb
  proof
    assume "b \<le> k"
    then have "(2 :: nat) ^ b \<le> 2 ^ k" by (intro power_increasing) simp_all
    with hi show "unat l < 2 ^ k" by linarith
  next
    assume "unat l < 2 ^ k"
    with lo have "(2 :: nat) ^ (b - 1) < 2 ^ k" by linarith
    then have "b - 1 < k" by (rule power_less_imp_less_exp [rotated]) simp
    then show "b \<le> k" by simp
  qed
qed

text \<open>The bits of a number: the least power of two above it.\<close>

lemma bn_bits_bounded:
  assumes "bn_wf bn"
  shows "(bn_minimal_width bn - 1) * 64 \<le> INT_MAX" and "bn_minimal_width bn * 64 + 7 < 2 ^ 32"
  using bn_minimal_width_le [of bn] assms by (auto simp: bn_wf_def BN_MAX_WORDS_def INT_MAX_def)

lemma BN_num_bits_word_64: "BN_num_bits_word l \<le> 64"
  unfolding BN_num_bits_word_le by (rule unat_u64)

lemma BN_num_bits_bounded:
  assumes "bn_wf bn"
  shows "BN_num_bits bn + 7 < 2 ^ 32"
proof (cases "bn_minimal_width bn")
  case (Suc m)
  then show ?thesis
    using bn_bits_bounded(2) [OF assms] BN_num_bits_word_64 [of "bn_d bn ! m"]
    by (simp add: BN_num_bits_def)
qed (simp add: BN_num_bits_def)

lemma BN_num_bits_le:
  assumes "bn_wf bn"
  shows "BN_num_bits bn \<le> k \<longleftrightarrow> bn_abs bn < 2 ^ k"
proof (cases "bn_minimal_width bn")
  case 0
  then show ?thesis using bn_minimal_width_0 [OF assms] by (simp add: BN_num_bits_def)
next
  case (Suc m)
  let ?lo = "words_val (take m (bn_d bn))"
  note v = bn_top_word(1,2) [OF assms Suc] and top = bn_top_word(3) [OF assms Suc]
  let ?t = "unat (bn_d bn ! m)"
  have nb: "BN_num_bits bn = 64 * m + BN_num_bits_word (bn_d bn ! m)"
    using Suc bn_bits_bounded(2) [OF assms] BN_num_bits_word_64 [of "bn_d bn ! m"]
    by (simp add: BN_num_bits_def)
  have pos: "0 < ?t" using top by (simp add: unat_gt_0)
  then have nz: "\<not> BN_num_bits_word (bn_d bn ! m) \<le> 0" unfolding BN_num_bits_word_le by simp
  show ?thesis
  proof (cases "64 * m \<le> k")
    case True
    then obtain j where j: "k = 64 * m + j" using le_Suc_ex by blast
    have "bn_abs bn < 2 ^ k \<longleftrightarrow> ?t < 2 ^ j"
    proof
      assume "bn_abs bn < 2 ^ k"
      then have "2 ^ (64 * m) * ?t < 2 ^ (64 * m) * 2 ^ j" using v(1) unfolding j power_add by linarith
      then show "?t < 2 ^ j" by (simp only: mult_less_cancel1)
    next
      assume "?t < 2 ^ j"
      then have "2 ^ (64 * m) * Suc ?t \<le> 2 ^ (64 * m) * 2 ^ j" by (intro mult_le_mono2) simp
      with v show "bn_abs bn < 2 ^ k" by (simp add: j power_add)
    qed
    then show ?thesis unfolding nb j BN_num_bits_word_le [symmetric] by simp
  next
    case False
    have "(2 :: nat) ^ k \<le> 2 ^ (64 * m)" using False by (intro power_increasing) simp_all
    also have "\<dots> \<le> bn_abs bn" using v(1) pos by (simp add: trans_le_add2)
    finally show ?thesis using False nb by simp
  qed
qed

lemma BN_num_bytes_le:
  assumes "bn_wf bn"
  shows "BN_num_bytes bn \<le> k \<longleftrightarrow> bn_abs bn < 256 ^ k"
proof -
  have "BN_num_bytes bn \<le> k \<longleftrightarrow> BN_num_bits bn \<le> 8 * k" using BN_num_bits_bounded [OF assms] by (auto simp: BN_num_bytes_def)
  also have "\<dots> \<longleftrightarrow> bn_abs bn < 256 ^ k" unfolding BN_num_bits_le [OF assms] by (simp add: power_mult)
  finally show ?thesis .
qed

end
