(* ===== verification/Bignum_Order.thy ===== *)
theory Bignum_Order
  imports Bignum_Bits
begin

text \<open>
  What the functions of bn.c and cmp.c do to the numbers: comparisons, sizes and copies.
\<close>

section \<open>Comparison\<close>

text \<open>Numbers in a base compare like their digits, the leading part first.\<close>

lemma digits_less:
  fixes p q P Q m :: nat
  assumes "p < m" and "q < m"
  shows "p + m * P < q + m * Q \<longleftrightarrow> P < Q \<or> P = Q \<and> p < q"
proof (cases P Q rule: linorder_cases)
  case less
  then have "m * Suc P \<le> m * Q" by (intro mult_le_mono2) simp
  with assms(1) less show ?thesis by simp
next
  case greater
  then have "m * Suc Q \<le> m * P" by (intro mult_le_mono2) simp
  with assms(2) greater show ?thesis by simp
qed simp

lemma digits_eq:
  fixes p q P Q m :: nat
  assumes "p < m" and "q < m"
  shows "p + m * P = q + m * Q \<longleftrightarrow> P = Q \<and> p = q"
  using digits_less [OF assms, of P Q] digits_less [OF assms(2,1), of Q P] by (auto simp: nat_neq_iff)

lemma words_val_Cons_less:
  "words_val (x # xs) < words_val (y # ys) \<longleftrightarrow>
     words_val xs < words_val ys \<or> words_val xs = words_val ys \<and> x < y"
  unfolding words_val.simps digits_less [OF unat_u64 unat_u64] word_less_nat_alt ..

lemma words_val_Cons_eq:
  "words_val (x # xs) = words_val (y # ys) \<longleftrightarrow> words_val xs = words_val ys \<and> x = y"
  unfolding words_val.simps digits_eq [OF unat_u64 unat_u64] word_unat_eq_iff ..

lemma select_int_mask: "constant_time_select_int (mask_w c) x y = (if c then x else y)"
  by (simp add: select_w_mask constant_time_select_int_def)

lemma cmp_words_loop_eq:
  assumes "length a = length b"
  shows "cmp_words_loop a b r =
           (if words_val a = words_val b then r else if words_val a < words_val b then - 1 else 1)"
  using assms
proof (induction a b arbitrary: r rule: list_induct2)
  case (Cons x xs y ys)
  show ?case
    unfolding cmp_words_loop.simps Let_def eq_mask lt_mask select_int_mask Cons.IH words_val_Cons_eq
      words_val_Cons_less by auto
qed simp

lemma words_val_split: "words_val ws = words_val (take n ws) + 2 ^ (64 * length (take n ws)) * words_val (drop n ws)"
  using words_val_append [of "take n ws" "drop n ws"] by (simp only: append_take_drop_id)

lemma bn_or_words_val: "bn_or_words ws 0 = 0 \<longleftrightarrow> words_val ws = 0"
  by (simp add: bn_or_words_0 words_val_0_iff)

lemma words_val_longer:
  assumes "length a \<le> length b" and "words_val (drop (length a) b) \<noteq> 0"
  shows "words_val a < words_val b"
proof -
  have "words_val a < 2 ^ (64 * length a) * 1" using words_val_less [of a] by simp
  also have "\<dots> \<le> 2 ^ (64 * length a) * words_val (drop (length a) b)"
    using assms(2) by (intro mult_le_mono2) simp
  also have "\<dots> \<le> words_val b" using words_val_split [of b "length a"] assms(1) by simp
  finally show ?thesis .
qed

lemma bn_cmp_words_eq:
  "bn_cmp_words_consttime a b =
     (if words_val a < words_val b then - 1 else if words_val a = words_val b then 0 else 1)"
proof (cases "length a" "length b" rule: linorder_cases)
  case less
  then have t: "take (length a) a = a" "length a = length (take (length a) b)" by simp_all
  have r: "bn_cmp_words_consttime a b =
      (if words_val (drop (length a) b) = 0 then cmp_words_loop a (take (length a) b) 0 else - 1)"
    using less by (simp add: bn_cmp_words_consttime_def Let_def is_zero_mask select_int_mask bn_or_words_val)
  show ?thesis
  proof (cases "words_val (drop (length a) b) = 0")
    case True
    then have "words_val (take (length a) b) = words_val b" using words_val_split [of b "length a"] by simp
    then show ?thesis unfolding r cmp_words_loop_eq [OF t(2)] using True by auto
  next
    case False
    then show ?thesis unfolding r using words_val_longer [of a b] less by simp
  qed
next
  case equal
  then show ?thesis by (simp add: bn_cmp_words_consttime_def Let_def cmp_words_loop_eq)
next
  case greater
  then have t: "take (length b) b = b" "length (take (length b) a) = length b" by simp_all
  have r: "bn_cmp_words_consttime a b =
      (if words_val (drop (length b) a) = 0 then cmp_words_loop (take (length b) a) b 0 else 1)"
    using greater by (simp add: bn_cmp_words_consttime_def Let_def is_zero_mask select_int_mask bn_or_words_val)
  show ?thesis
  proof (cases "words_val (drop (length b) a) = 0")
    case True
    then have "words_val (take (length b) a) = words_val a" using words_val_split [of a "length b"] by simp
    then show ?thesis unfolding r cmp_words_loop_eq [OF t(2)] using True by auto
  next
    case False
    then show ?thesis unfolding r using words_val_longer [of b a] greater by simp
  qed
qed

lemma BN_ucmp_eq:
  "BN_ucmp a b = (if bn_abs a < bn_abs b then - 1 else if bn_abs a = bn_abs b then 0 else 1)"
  by (simp add: BN_ucmp_def bn_cmp_words_eq bn_abs_def)

lemma BN_ucmp_neg: "sint (BN_ucmp a b) < 0 \<longleftrightarrow> bn_abs a < bn_abs b"
  by (simp add: BN_ucmp_eq)

lemma BN_is_zero_iff: "BN_is_zero bn \<longleftrightarrow> bn_abs bn = 0"
  by (simp add: BN_is_zero_def bn_fits_in_words_def bn_or_words_val bn_abs_def)

lemma bn_fits_in_words_iff:
  assumes "bn_wf bn" 
  shows "bn_fits_in_words bn num \<longleftrightarrow> bn_abs bn < 2 ^ (64 * num)"
proof (cases "num \<le> bn_width bn")
  case True
  let ?w = "bn_words bn"
  have len: "length (take num ?w) = num" using True assms by simp
  have v: "bn_abs bn = words_val (take num ?w) + 2 ^ (64 * num) * words_val (drop num ?w)"
    unfolding bn_abs_def using words_val_split [of ?w num] len by simp
  have "words_val (take num ?w) < 2 ^ (64 * num)" using words_val_less [of "take num ?w"] len by simp
  then have "bn_abs bn < 2 ^ (64 * num) \<longleftrightarrow> words_val (drop num ?w) = 0"
    using digits_less [of "words_val (take num ?w)" "2 ^ (64 * num)" 0 "words_val (drop num ?w)" 1]
    unfolding v by simp
  then show ?thesis by (simp add: bn_fits_in_words_def bn_or_words_val)
next
  case False
  have "bn_abs bn < 2 ^ (64 * bn_width bn)" unfolding bn_abs_def using words_val_less [of "bn_words bn"] assms by simp
  also have "(2 :: nat) ^ (64 * bn_width bn) \<le> 2 ^ (64 * num)" using False by (intro power_increasing) simp_all
  finally have "bn_abs bn < 2 ^ (64 * num)" .
  with False assms show ?thesis by (simp add: bn_fits_in_words_def)
qed

text \<open>Zero is not negative: what \<open>BN_set_negative\<close> and \<open>bn_set_minimal_width\<close> see to.\<close>

definition bn_normal :: "bignum \<Rightarrow> bool" where
  "bn_normal bn \<longleftrightarrow> bn_wf bn \<and> (bn_neg bn \<longrightarrow> bn_abs bn \<noteq> 0)"

lemma BN_cmp_eq:
  assumes "bn_normal a" and "bn_normal b"
  shows "BN_cmp (Some a) (Some b) =
           (if bn_val a < bn_val b then - 1 else if bn_val a = bn_val b then 0 else 1)"
  using assms by (auto simp: BN_cmp_def BN_ucmp_eq bn_val_def bn_normal_def Let_def)

section \<open>Equality and the tests for small values\<close>

lemma xor_words_loop_0:
  "length a = length b \<Longrightarrow> xor_words_loop a b msk = 0 \<longleftrightarrow> msk = 0 \<and> a = b"
proof (induction a b arbitrary: msk rule: list_induct2)
  case (Cons x xs y ys)
  have "x XOR y = 0 \<longleftrightarrow> x = y" by (auto simp: bit_eq_iff bit_simps)
  with Cons show ?case by (auto simp: or_eq_0_iff)
qed simp

lemma words_val_inj: "length a = length b \<Longrightarrow> words_val a = words_val b \<longleftrightarrow> a = b"
  by (induction a b rule: list_induct2) (auto simp: words_val_Cons_eq simp del: words_val.simps(2))

lemma words_val_eq_common:
  assumes "length a \<le> length b"
  shows "words_val a = words_val b \<longleftrightarrow> words_val (drop (length a) b) = 0 \<and> a = take (length a) b"
proof (cases "words_val (drop (length a) b) = 0")
  case True
  then have "words_val b = words_val (take (length a) b)" using words_val_split [of b "length a"] by simp
  with True assms show ?thesis by (simp add: words_val_inj)
next
  case False
  with assms show ?thesis using words_val_longer [of a b] by simp
qed

lemma BN_equal_consttime_iff:
  assumes "bn_wf a" and "bn_wf b"
  shows "BN_equal_consttime a b \<longleftrightarrow> bn_neg a = bn_neg b \<and> bn_abs a = bn_abs b"
proof -
  let ?a = "bn_words a" and ?b = "bn_words b"
  have s: "(of_bool p XOR of_bool q :: u64) = 0 \<longleftrightarrow> p = q" for p q by simp
  have eq: "words_val ?a = words_val ?b \<longleftrightarrow>
      words_val (drop (length ?a) ?b) = 0 \<and> words_val (drop (length ?b) ?a) = 0 \<and>
      take (min (length ?a) (length ?b)) ?a = take (min (length ?a) (length ?b)) ?b"
  proof (cases "length ?a \<le> length ?b")
    case True
    then show ?thesis using words_val_eq_common [OF True] by simp
  next
    case False
    then have "length ?b \<le> length ?a" by simp
    from words_val_eq_common [OF this] this show ?thesis by (auto simp: min_def)
  qed
  have m: "(if bn_width a < bn_width b then bn_width a else bn_width b) = min (length ?a) (length ?b)"
    using assms by simp
  show ?thesis
    unfolding BN_equal_consttime_def Let_def m bn_abs_def eq
    using assms by (auto simp: or_eq_0_iff s xor_words_loop_0 bn_or_words_0 words_val_0_iff)
qed

lemma BN_abs_is_word_iff: "BN_abs_is_word bn w \<longleftrightarrow> bn_abs bn = unat w"
proof (cases "bn_words bn")
  case Nil
  then show ?thesis by (auto simp: BN_abs_is_word_def bn_abs_def unat_eq_0)
next
  case (Cons d ds)
  have x: "d XOR w = 0 \<longleftrightarrow> d = w" by (auto simp: bit_eq_iff bit_simps)
  have w: "words_val [w] = unat w" by simp
  have "words_val (d # ds) = unat w \<longleftrightarrow> words_val ds = 0 \<and> d = w"
    using words_val_Cons_eq [of d ds w "[]"] unfolding w by simp
  then show ?thesis
    using Cons x by (auto simp: BN_abs_is_word_def bn_abs_def bn_or_words_0 words_val_0_iff simp del: words_val.simps(2))
qed

lemma BN_is_odd_iff:
  assumes "bn_wf bn"
  shows "BN_is_odd bn \<longleftrightarrow> odd (bn_abs bn)"
proof (cases "bn_words bn")
  case Nil
  then have "bn_width bn = 0" using length_bn_words [OF assms] by simp
  with Nil show ?thesis by (simp add: BN_is_odd_def bn_abs_def)
next
  case (Cons d ds)
  then have w: "0 < bn_width bn" "bn_d bn ! 0 = d"
    by (cases "bn_width bn"; cases "bn_d bn"; simp add: bn_words_def)+
  have "odd d \<longleftrightarrow> odd (unat d)"
    unfolding bit_0 [symmetric] by (simp add: bit_unsigned_iff)
  then have "(d AND 1 = 1) = odd (unat d)" by (simp add: and_one_eq mod2_eq_if)
  with w Cons show ?thesis by (simp add: BN_is_odd_def bn_abs_def)
qed

lemma and_pred_nat: "0 < n \<Longrightarrow> n AND (n - 1) = 0 \<longleftrightarrow> (\<exists>k. n = 2 ^ k)" for n :: nat
proof (induction n rule: less_induct)
  case (less n)
  show ?case
  proof (cases "even n")
    case True
    then obtain m where m: "n = 2 * m" by blast
    with less.prems have pos: "0 < m" "m < n" by simp_all
    obtain p where p: "m = Suc p" using pos(1) gr0_implies_Suc by blast
    have "n AND (n - 1) = 2 * (m AND (m - 1))"
      unfolding m p by (subst and_rec) simp
    then have "n AND (n - 1) = 0 \<longleftrightarrow> (\<exists>k. m = 2 ^ k)" using less.IH [OF pos(2,1)] by simp
    also have "\<dots> \<longleftrightarrow> (\<exists>k. n = 2 ^ k)"
    proof
      assume "\<exists>k. n = 2 ^ k"
      then obtain k where k: "n = 2 ^ k" by blast
      with m have "k \<noteq> 0" by (cases k) auto
      then obtain j where "k = Suc j" using not0_implies_Suc by blast
      with k m show "\<exists>k. m = 2 ^ k" by auto
    qed (auto simp: m intro: exI [of _ "Suc _"])
    finally show ?thesis .
  next
    case False
    then obtain m where m: "n = 2 * m + 1" using oddE by blast
    have "n AND (n - 1) = 2 * m"
      by (subst and_rec) (auto simp: m)
    moreover have "(\<exists>k. n = 2 ^ k) \<longleftrightarrow> n = 1"
    proof
      assume "\<exists>k. n = 2 ^ k"
      then obtain k where "n = 2 ^ k" by blast
      with False show "n = 1" by (cases k) auto
    qed (auto intro: exI [of _ 0])
    ultimately show ?thesis by (simp add: m)
  qed
qed

lemma BN_is_pow2_iff:
  assumes "bn_wf bn"
  shows "BN_is_pow2 bn \<longleftrightarrow> \<not> bn_neg bn \<and> (\<exists>k. bn_abs bn = 2 ^ k)"
proof (cases "bn_minimal_width bn")
  case 0
  then show ?thesis using bn_minimal_width_0 [OF assms] by (simp add: BN_is_pow2_def)
next
  case (Suc m)
  let ?lo = "words_val (take m (bn_d bn))" and ?t = "bn_d bn ! m"
  note v = bn_top_word [OF assms Suc]
  have lo: "list_ex (\<lambda>w. w \<noteq> 0) (take m (bn_d bn)) \<longleftrightarrow> ?lo \<noteq> 0"
    by (simp add: words_val_0_iff list_all_iff list_ex_iff)
  have pos: "0 < unat ?t" using v(3) by (simp add: unat_gt_0)
  have "unat (?t AND (?t - 1)) = unat ?t AND (unat ?t - 1)"
    using pos by (simp add: unsigned_and_eq unat_sub_u64)
  then have "?t AND (?t - 1) = 0 \<longleftrightarrow> unat ?t AND (unat ?t - 1) = 0" by (metis unat_eq_0)
  then have t: "?t AND (?t - 1) = 0 \<longleftrightarrow> (\<exists>k. unat ?t = 2 ^ k)" using and_pred_nat [OF pos] by simp
  have "(\<exists>k. bn_abs bn = 2 ^ k) \<longleftrightarrow> ?lo = 0 \<and> (\<exists>k. unat ?t = 2 ^ k)"
  proof
    assume "\<exists>k. bn_abs bn = 2 ^ k"
    then obtain k where k: "bn_abs bn = 2 ^ k" by blast
    have "(2 :: nat) ^ (64 * m) \<le> 2 ^ k" unfolding k [symmetric] v(1) using pos by (simp add: trans_le_add2)
    then have "64 * m \<le> k" by (rule power_le_imp_le_exp [rotated]) simp
    then obtain j where "k = 64 * m + j" using le_Suc_ex by blast
    then have "?lo + 2 ^ (64 * m) * unat ?t = 0 + 2 ^ (64 * m) * 2 ^ j" using k v(1) by (simp add: power_add)
    then have "unat ?t = 2 ^ j \<and> ?lo = 0" by (subst (asm) digits_eq) (use v(2) in simp_all)
    then show "?lo = 0 \<and> (\<exists>k. unat ?t = 2 ^ k)" by blast
  next
    assume "?lo = 0 \<and> (\<exists>k. unat ?t = 2 ^ k)"
    then obtain j where "?lo = 0" "unat ?t = 2 ^ j" by blast
    then have "bn_abs bn = 2 ^ (64 * m + j)" using v(1) by (simp add: power_add)
    then show "\<exists>k. bn_abs bn = 2 ^ k" by blast
  qed
  then show ?thesis
    unfolding BN_is_pow2_def Let_def Suc using lo t by auto
qed

lemma BN_get_u64_eq:
  assumes "bn_wf bn"
  shows "BN_get_u64 bn = (if bn_abs bn < 2 ^ 64 then Ok (of_nat (bn_abs bn)) else Err)"
    and "BN_get_word bn = (if bn_abs bn < 2 ^ 64 then of_nat (bn_abs bn) else - 1)"
proof -
  have "BN_get_u64 bn = (if bn_abs bn < 2 ^ 64 then Ok (of_nat (bn_abs bn)) else Err) \<and>
      BN_get_word bn = (if bn_abs bn < 2 ^ 64 then of_nat (bn_abs bn) else - 1)"
  proof (cases "bn_minimal_width bn")
    case 0
    then show ?thesis using bn_minimal_width_0 [OF assms] by (simp add: BN_get_u64_def BN_get_word_def)
  next
    case (Suc m)
    note v = bn_top_word [OF assms Suc]
    show ?thesis
    proof (cases m)
      case 0
      then have "bn_abs bn = unat (bn_d bn ! 0)" using v(1) by simp
      then show ?thesis using Suc 0 unat_u64 [of "bn_d bn ! 0"] by (simp add: BN_get_u64_def BN_get_word_def)
    next
      case (Suc j)
      have "(2 :: nat) ^ 64 \<le> 2 ^ (64 * m)" using Suc by (intro power_increasing) simp_all
      also have "\<dots> \<le> 2 ^ (64 * m) * unat (bn_d bn ! m)" using v(3) by (simp add: Suc_leI unat_gt_0)
      also have "\<dots> \<le> bn_abs bn" using v(1) by linarith
      finally show ?thesis using Suc \<open>bn_minimal_width bn = Suc m\<close>
        by (simp add: BN_get_u64_def BN_get_word_def)
    qed
  qed
  then show "BN_get_u64 bn = (if bn_abs bn < 2 ^ 64 then Ok (of_nat (bn_abs bn)) else Err)"
    "BN_get_word bn = (if bn_abs bn < 2 ^ 64 then of_nat (bn_abs bn) else - 1)" by simp_all
qed

lemma BN_cmp_word_eq:
  assumes "bn_normal bn"
  shows "BN_cmp_word (Some bn) w =
           (if bn_val bn < int (unat w) then - 1 else if bn_val bn = int (unat w) then 0 else 1)"
proof -
  let ?w = "\<lparr>bn_d = [w], bn_width = (if w > 0 then 1 else 0), bn_neg = False, bn_flags = BN_FLG_STATIC_DATA\<rparr>"
  have a: "bn_abs ?w = unat w" by (simp add: bn_abs_def bn_words_def word_greater_zero_iff)
  have "bn_normal ?w" by (simp add: bn_normal_def bn_wf_def BN_MAX_WORDS_def INT_MAX_def)
  then show ?thesis
    unfolding BN_cmp_word_def BN_cmp_eq [OF assms \<open>bn_normal ?w\<close>] bn_val_def [of ?w] a by simp
qed

end
