(* ===== verification/Bignum_Size.thy ===== *)
theory Bignum_Size
  imports Bignum_Order
begin

text \<open>
  Assignment and resizing of big numbers: the contract of a function that gives an object a
  new number, the functions of bn.c that keep it, and what follows for the functions that
  work on an object of the caller's or make one.
\<close>

section \<open>Room for words\<close>

definition bn_grows :: "(nat \<Rightarrow> bool) \<Rightarrow> nat \<Rightarrow> bignum \<Rightarrow> bool" where
  "bn_grows calloc words bn \<longleftrightarrow>
     words \<le> bn_dmax bn \<or>
     words \<le> BN_MAX_WORDS \<and> bn_flags bn AND BN_FLG_STATIC_DATA = 0 \<and> calloc words"

lemma bn_wexpand_fails: "\<not> bn_grows calloc words bn \<Longrightarrow> bn_wexpand calloc words bn = (Err, bn)"
  by (auto simp: bn_grows_def bn_wexpand_def)

lemma bn_wexpand_ok:
  assumes "bn_wf bn" and "bn_grows calloc words bn"
  obtains t where "bn_wexpand calloc words bn = (Ok (), t)" "bn_wf t" "words \<le> bn_dmax t"
    "bn_words t = bn_words bn" "bn_width t = bn_width bn" "bn_neg t = bn_neg bn" "bn_flags t = bn_flags bn"
proof (cases "words \<le> bn_dmax bn")
  case True
  with assms show thesis by (intro that [of bn]) (simp_all add: bn_wexpand_def)
next
  case False
  then have w: "bn_width bn \<le> words" using assms(1) by (simp add: bn_wf_def)
  have max: "words \<le> BN_MAX_WORDS" using False assms(2) by (auto simp: bn_grows_def)
  let ?t = "bn\<lparr>bn_d := bn_words bn @ replicate (words - bn_width bn) 0\<rparr>"
  have len: "length (bn_words bn) = bn_width bn" using assms(1) by simp
  show thesis
  proof (rule that [of ?t])
    show "bn_wexpand calloc words bn = (Ok (), ?t)"
      using False assms by (auto simp: bn_wexpand_def bn_grows_def bn_wf_def)
    show "bn_wf ?t" "words \<le> bn_dmax ?t" "bn_words ?t = bn_words bn"
      using w len max by (simp_all add: bn_wf_def bn_words_def [of ?t])
  qed simp_all
qed

lemma bn_val_words: "bn_words t = bn_words bn \<Longrightarrow> bn_neg t = bn_neg bn \<Longrightarrow> bn_val t = bn_val bn"
  by (simp add: bn_val_def bn_abs_def)

lemma bn_normalI: "bn_wf bn \<Longrightarrow> (bn_neg bn \<Longrightarrow> bn_abs bn \<noteq> 0) \<Longrightarrow> bn_normal bn"
  by (auto simp: bn_normal_def)

lemma bn_normal_wf: "bn_normal bn \<Longrightarrow> bn_wf bn"
  by (simp add: bn_normal_def)

lemma bn_store_words_words:
  "length ws \<le> bn_dmax bn \<Longrightarrow> bn_dmax bn \<le> BN_MAX_WORDS \<Longrightarrow> bn_words (bn_store_words ws neg bn) = ws \<and> bn_wf (bn_store_words ws neg bn)"
  by (simp add: bn_store_words_def bn_words_def bn_wf_def)

lemma bn_store_words_val:
  assumes "length ws \<le> bn_dmax bn" and "bn_dmax bn \<le> BN_MAX_WORDS" and "neg \<longrightarrow> words_val ws \<noteq> 0"
  shows "bn_normal (bn_store_words ws neg bn) \<and>
         bn_val (bn_store_words ws neg bn) = (if neg then - int (words_val ws) else int (words_val ws))"
proof -
  have "bn_neg (bn_store_words ws neg bn) = neg" by (simp add: bn_store_words_def)
  with bn_store_words_words [OF assms(1,2), of neg] assms(3) show ?thesis
    by (cases neg) (simp_all add: bn_normal_def bn_val_def bn_abs_def)
qed

section \<open>The contract\<close>

text \<open>
  \<open>m\<close> gives an object that meets \<open>pre\<close> the number \<open>f v\<close>, \<open>v\<close> being the one it had,
  where there is \<open>room\<close>, and otherwise fails without touching it.
\<close>

definition bn_fresh :: bignum where
  "bn_fresh = BN_init\<lparr>bn_flags := BN_FLG_MALLOCED\<rparr>"

definition bn_target :: "bignum option \<Rightarrow> bignum" where
  "bn_target ret = (case ret of None \<Rightarrow> bn_fresh | Some bn \<Rightarrow> bn)"

lemma bn_fresh_normal [simp]: "bn_normal bn_fresh" "bn_val bn_fresh = 0" "bn_neg bn_fresh = False"
  by (simp_all add: bn_fresh_def BN_init_def bn_normal_def bn_wf_def bn_val_def bn_abs_def bn_words_def)

locale bn_setter =
  fixes m :: "(bignum, unit) op"
    and pre :: "bignum \<Rightarrow> bool"
    and room :: "bignum \<Rightarrow> bool"
    and f :: "int \<Rightarrow> int"
  assumes sets: "bn_normal bn \<Longrightarrow> pre bn \<Longrightarrow> room bn \<Longrightarrow>
      \<exists>t. m bn = (Ok (), t) \<and> bn_normal t \<and> bn_val t = f (bn_val bn)"
    and fails: "bn_normal bn \<Longrightarrow> \<not> room bn \<Longrightarrow> m bn = (Err, bn)"
begin

lemma never_aborts: "bn_normal bn \<Longrightarrow> pre bn \<Longrightarrow> fst (m bn) \<noteq> Abort"
  using sets [of bn] fails [of bn] by (cases "room bn") auto

lemma bn_read_ok:
  assumes "pred_option bn_normal ret" and "pre (bn_target ret)" and "room (bn_target ret)"
    and "ret = None \<longrightarrow> struct_ok"
  shows "\<exists>t. bn_read struct_ok m ret = (Ok t, map_option (\<lambda>_. t) ret) \<and>
           bn_normal t \<and> bn_val t = f (bn_val (bn_target ret))"
proof -
  have n: "bn_normal (bn_target ret)" using assms(1) by (cases ret) (simp_all add: bn_target_def)
  from sets [OF this assms(2,3)] show ?thesis
    using assms(4) by (cases ret) (auto simp: bn_read_def bn_target_def BN_new_def bn_fresh_def [symmetric])
qed

lemma bn_read_fails:
  assumes "pred_option bn_normal ret" and "ret = None \<and> \<not> struct_ok \<or> \<not> room (bn_target ret)"
  shows "bn_read struct_ok m ret = (Err, ret)"
proof -
  have n: "bn_normal (bn_target ret)" using assms(1) by (cases ret) (simp_all add: bn_target_def)
  from fails [OF this] assms(2) show ?thesis
    by (cases ret) (auto simp: bn_read_def bn_target_def BN_new_def bn_fresh_def [symmetric])
qed

end

section \<open>The functions that keep it\<close>

interpretation bn_wexpand: bn_setter "bn_wexpand calloc words" "\<lambda>_. True" "bn_grows calloc words" "\<lambda>v. v"
  for calloc words
proof
  fix bn assume n: "bn_normal bn" and r: "bn_grows calloc words bn"
  obtain t where t: "bn_wexpand calloc words bn = (Ok (), t)" "bn_wf t" "bn_words t = bn_words bn" "bn_neg t = bn_neg bn"
    by (rule bn_wexpand_ok [OF bn_normal_wf [OF n] r])
  then have "bn_normal t" using n by (simp add: bn_normal_def bn_abs_def)
  with t show "\<exists>t. bn_wexpand calloc words bn = (Ok (), t) \<and> bn_normal t \<and> bn_val t = bn_val bn"
    using bn_val_words by blast
qed (rule bn_wexpand_fails)

interpretation bn_expand: bn_setter "bn_expand calloc bits" "\<lambda>_. True"
    "\<lambda>bn. bits \<le> size_add bits 63 \<and> bn_grows calloc (size_add bits 63 div 64) bn" "\<lambda>v. v"
  for calloc bits
  using bn_wexpand.sets [of _ calloc "size_add bits 63 div 64"] bn_wexpand.fails [of _ calloc "size_add bits 63 div 64"]
  by unfold_locales (auto simp: bn_expand_def op_fail_def)

text \<open>Storing words into an object that was made large enough.\<close>

lemma op_then_store:
  assumes n: "bn_normal bn" and ws: "neg \<longrightarrow> words_val ws \<noteq> 0"
    and k: "\<And>t. length ws \<le> bn_dmax t \<Longrightarrow> bn_dmax t \<le> BN_MAX_WORDS \<Longrightarrow> k t = (Ok (), bn_store_words ws neg t)"
  shows "if bn_grows calloc (length ws) bn
         then \<exists>t. op_then (bn_wexpand calloc (length ws)) k bn = (Ok (), t) \<and> bn_normal t \<and>
                bn_val t = (if neg then - int (words_val ws) else int (words_val ws))
         else op_then (bn_wexpand calloc (length ws)) k bn = (Err, bn)"
proof (cases "bn_grows calloc (length ws) bn")
  case True
  obtain t where t: "bn_wexpand calloc (length ws) bn = (Ok (), t)" "length ws \<le> bn_dmax t" "bn_wf t"
    by (rule bn_wexpand_ok [OF bn_normal_wf [OF n] True])
  with True show ?thesis using bn_store_words_val [OF t(2) _ ws] k by (simp add: op_then_apply bn_wf_def)
qed (simp add: op_then_apply bn_wexpand_fails)

interpretation bn_set_words: bn_setter "bn_set_words calloc ws" "\<lambda>_. True" "bn_grows calloc (length ws)"
    "\<lambda>_. int (words_val ws)"
  for calloc ws
proof
  fix bn assume n: "bn_normal bn"
  note s = op_then_store [OF n, of False ws "\<lambda>bn. (Ok (), bn_store_words ws False bn)" calloc]
  show "bn_grows calloc (length ws) bn \<Longrightarrow>
      \<exists>t. bn_set_words calloc ws bn = (Ok (), t) \<and> bn_normal t \<and> bn_val t = int (words_val ws)"
    "\<not> bn_grows calloc (length ws) bn \<Longrightarrow> bn_set_words calloc ws bn = (Err, bn)"
    using s by (simp_all add: bn_set_words_def)
qed

interpretation BN_copy: bn_setter "BN_copy calloc src" "\<lambda>_. bn_normal src" 
    "\<lambda>bn. bn_grows calloc (bn_width src) bn" "\<lambda>_. bn_val src"
  for calloc src
proof
  let ?k = "\<lambda>dest. if bn_width src > bn_dmax src then (Abort, dest)
               else (Ok (), bn_store_words (bn_words src) (bn_neg src) dest)"
  fix bn assume n: "bn_normal bn"
  show "\<exists>t. BN_copy calloc src bn = (Ok (), t) \<and> bn_normal t \<and> bn_val t = bn_val src"
    if src: "bn_normal src" and room: "bn_grows calloc (bn_width src) bn"
  proof -
    have w: "length (bn_words src) = bn_width src" using src by (simp add: bn_normal_wf)
    have neg: "bn_neg src \<longrightarrow> words_val (bn_words src) \<noteq> 0" using src by (auto simp: bn_normal_def bn_abs_def)
    have k: "?k t = (Ok (), bn_store_words (bn_words src) (bn_neg src) t)" for t
      using bn_normal_wf [OF src] by (simp add: bn_wf_def)
    have "\<exists>t. op_then (bn_wexpand calloc (length (bn_words src))) ?k bn = (Ok (), t) \<and> bn_normal t \<and>
        bn_val t = (if bn_neg src then - int (words_val (bn_words src)) else int (words_val (bn_words src)))"
      using op_then_store [OF n neg, of ?k calloc] k room w by (simp only: if_True)
    then show ?thesis
      unfolding BN_copy_def w bn_val_def [of src] bn_abs_def by simp
  qed
  show "BN_copy calloc src bn = (Err, bn)" if "\<not> bn_grows calloc (bn_width src) bn"
    using that by (simp add: BN_copy_def op_then_apply bn_wexpand_fails)
qed

lemma BN_zero_normal: "bn_wf bn \<Longrightarrow> bn_normal (BN_zero bn) \<and> bn_val (BN_zero bn) = 0"
  by (simp add: BN_zero_def bn_normal_def bn_wf_def bn_val_def bn_abs_def bn_words_def)

interpretation BN_set_word: bn_setter "BN_set_word calloc w" "\<lambda>_. True"
    "\<lambda>bn. w = 0 \<or> bn_grows calloc 1 bn" "\<lambda>_. int (unat w)"
  for calloc w
proof
  fix bn assume n: "bn_normal bn"
  note s = op_then_store [OF n, of False "[w]" "\<lambda>bn. (Ok (), bn_store_words [w] False bn)" calloc]
  show "w = 0 \<or> bn_grows calloc 1 bn \<Longrightarrow>
      \<exists>t. BN_set_word calloc w bn = (Ok (), t) \<and> bn_normal t \<and> bn_val t = int (unat w)"
    "\<not> (w = 0 \<or> bn_grows calloc 1 bn) \<Longrightarrow> BN_set_word calloc w bn = (Err, bn)"
    using s BN_zero_normal [OF bn_normal_wf [OF n]] by (auto simp: BN_set_word_def)
qed

interpretation BN_set_u64: bn_setter "BN_set_u64 calloc w" "\<lambda>_. True"
    "\<lambda>bn. w = 0 \<or> bn_grows calloc 1 bn" "\<lambda>_. int (unat w)"
  for calloc w
  using BN_set_word.sets [of _ w calloc] BN_set_word.fails [of _ w calloc]
  by unfold_locales (simp_all add: BN_set_u64_def)

interpretation BN_one: bn_setter "BN_one calloc" "\<lambda>_. True" "bn_grows calloc 1" "\<lambda>_. 1"
  for calloc
  using BN_set_word.sets [of _ 1 calloc] BN_set_word.fails [of _ 1 calloc]
  by unfold_locales (simp_all add: BN_one_def)

interpretation bn_resize_words: bn_setter "bn_resize_words calloc words" "\<lambda>_. True"
    "\<lambda>bn. if bn_width bn \<le> words then bn_grows calloc words bn else bn_abs bn < 2 ^ (64 * words)" "\<lambda>v. v"
  for calloc words
proof
  fix bn assume n: "bn_normal bn"
  note wf = bn_normal_wf [OF n]
  show "\<exists>t. bn_resize_words calloc words bn = (Ok (), t) \<and> bn_normal t \<and> bn_val t = bn_val bn"
    if room: "if bn_width bn \<le> words then bn_grows calloc words bn else bn_abs bn < 2 ^ (64 * words)"
  proof (cases "bn_width bn \<le> words")
    case True
    then obtain t where t: "bn_wexpand calloc words bn = (Ok (), t)" "bn_wf t" "words \<le> bn_dmax t"
      "bn_words t = bn_words bn" "bn_width t = bn_width bn" "bn_neg t = bn_neg bn"
      using room bn_wexpand_ok [OF wf, of calloc words] by (metis (full_types))
    let ?t = "t\<lparr>bn_d := bn_words t @ replicate (words - bn_width t) 0 @ drop words (bn_d t), bn_width := words\<rparr>"
    have len: "length (bn_words t) = bn_width t" using t(2) by simp
    have w: "bn_words ?t = bn_words bn @ replicate (words - bn_width t) 0"
      unfolding bn_words_def [of ?t] using True t(4,5) len by simp
    have v: "bn_abs ?t = bn_abs bn" unfolding bn_abs_def w by (simp add: words_val_append)
    have "bn_wf ?t" using t(2,3) len t(5) True by (simp add: bn_wf_def)
    with v n t(6) have "bn_normal ?t \<and> bn_val ?t = bn_val bn" by (simp add: bn_normal_def bn_val_def)
    with True t(1) show ?thesis by (auto simp: bn_resize_words_def op_then_apply)
  next
    case False
    let ?t = "bn\<lparr>bn_width := words\<rparr>"
    have fit: "bn_fits_in_words bn words" using room False by (simp add: bn_fits_in_words_iff [OF wf])
    have w: "bn_words ?t = take words (bn_words bn)" using False by (simp add: bn_words_def min_def)
    have "words_val (drop words (bn_words bn)) = 0"
      using fit by (simp add: bn_fits_in_words_def bn_or_words_val)
    then have v: "bn_abs ?t = bn_abs bn"
      unfolding bn_abs_def w using words_val_split [of "bn_words bn" words] by simp
    have "bn_wf ?t" using wf False by (simp add: bn_wf_def)
    with v n have "bn_normal ?t \<and> bn_val ?t = bn_val bn" by (simp add: bn_normal_def bn_val_def)
    with False fit show ?thesis by (simp add: bn_resize_words_def)
  qed
  show "bn_resize_words calloc words bn = (Err, bn)"
    if "\<not> (if bn_width bn \<le> words then bn_grows calloc words bn else bn_abs bn < 2 ^ (64 * words))"
    using that by (auto simp: bn_resize_words_def op_then_apply bn_wexpand_fails bn_fits_in_words_iff [OF wf] split: if_splits)
qed

section \<open>Signs and minimal widths\<close>

lemma BN_set_negative_eq:
  assumes "bn_wf bn"
  shows "bn_normal (BN_set_negative sign bn) \<and>
         bn_val (BN_set_negative sign bn) = (if sign then - int (bn_abs bn) else int (bn_abs bn))"
proof -
  have a: "bn_abs (BN_set_negative sign bn) = bn_abs bn"
    by (simp add: BN_set_negative_def bn_abs_def bn_words_def)
  show ?thesis
    unfolding bn_normal_def bn_val_def a using assms
    by (auto simp: BN_set_negative_def bn_wf_def BN_is_zero_iff)
qed

lemma bn_set_minimal_width_eq:
  assumes "bn_wf bn"
  shows "bn_normal (bn_set_minimal_width bn) \<and> bn_val (bn_set_minimal_width bn) = bn_val bn \<and>
         bn_width (bn_set_minimal_width bn) = bn_minimal_width bn"
proof -
  let ?t = "bn\<lparr>bn_width := bn_minimal_width bn\<rparr>"
  have t: "bn_abs ?t = bn_abs bn" "bn_wf ?t"
    using bn_minimal_words [OF assms] bn_minimal_width_le [of bn] assms
    by (simp_all add: bn_abs_def bn_words_def [of ?t] bn_wf_def)
  have z: "bn_minimal_width bn = 0 \<longleftrightarrow> bn_abs bn = 0" by (rule bn_minimal_width_0 [OF assms])
  show ?thesis
  proof (cases "bn_minimal_width bn = 0")
    case True
    then show ?thesis using z assms
      by (simp add: bn_set_minimal_width_def Let_def bn_normal_def bn_val_def bn_abs_def bn_words_def bn_wf_def)
  next
    case False
    then have "bn_set_minimal_width bn = ?t" by (simp add: bn_set_minimal_width_def Let_def)
    with False z t show ?thesis by (simp add: bn_normal_def bn_val_def)
  qed
qed

end
