(* ===== verification/Bignum_IO.thy ===== *)
theory Bignum_IO
  imports Bignum_Size
begin

text \<open>
  What the conversions of bytes.c do: reading is a setter of the contract of Bignum_Size,
  writing gives the digits of the magnitude in base 256.
\<close>

section \<open>Reading\<close>

abbreviation bytes_width :: "byte list \<Rightarrow> nat" where
  "bytes_width inp \<equiv> (length inp - 1) div 8 + 1"

lemma bytes_width_eq: "inp \<noteq> [] \<Longrightarrow> (length inp + 7) div 8 = bytes_width inp"
  by (cases inp) simp_all

lemma bytes_width_fits: "length inp \<le> bytes_width inp * 8"
  by simp

lemma bn_big_endian_ok:
  assumes "inp \<noteq> []"
  shows "bn_big_endian_to_words (bytes_width inp) inp = Ok (load_words_be inp)"
    and "length (load_words_be inp) = bytes_width inp"
  using load_words_be_val [of inp] bytes_width_eq [OF assms] bytes_width_fits [of inp]
  by (simp_all add: bn_big_endian_to_words_def Let_def)

interpretation bin2bn: bn_setter "bin2bn_into calloc inp" "\<lambda>bn. inp = [] \<longrightarrow> \<not> bn_neg bn"
    "\<lambda>bn. inp = [] \<or> bn_grows calloc (bytes_width inp) bn" "\<lambda>_. int (be_val inp)"
  for calloc inp
proof
  fix bn assume n: "bn_normal bn"
  let ?k = "\<lambda>ret. if bytes_width inp > INT_MAX then (Abort, ret)
                  else case bn_big_endian_to_words (bytes_width inp) inp of
                    Ok ws \<Rightarrow> (Ok (), bn_store_words ws False ret)
                  | _ \<Rightarrow> (Abort, ret)"
  show "\<exists>t. bin2bn_into calloc inp bn = (Ok (), t) \<and> bn_normal t \<and> bn_val t = int (be_val inp)"
    if pre: "inp = [] \<longrightarrow> \<not> bn_neg bn" and room: "inp = [] \<or> bn_grows calloc (bytes_width inp) bn"
  proof (cases "inp = []")
    case True
    then show ?thesis using n pre
      by (simp add: bin2bn_into_def bn_normal_def bn_wf_def bn_val_def bn_abs_def bn_words_def)
  next
    case False
    note w = bn_big_endian_ok [OF False]
    have k: "?k t = (Ok (), bn_store_words (load_words_be inp) False t)"
      if "length (load_words_be inp) \<le> bn_dmax t" "bn_dmax t \<le> BN_MAX_WORDS" for t
      using that unfolding w by (simp add: BN_MAX_WORDS_def INT_MAX_def)
    have "bin2bn_into calloc inp bn = op_then (bn_wexpand calloc (length (load_words_be inp))) ?k bn"
      unfolding bin2bn_into_def Let_def w(2) using False by (simp only: length_0_conv if_False)
    moreover have g: "bn_grows calloc (length (load_words_be inp)) bn" using room False unfolding w(2) by blast
    have "\<exists>t. op_then (bn_wexpand calloc (length (load_words_be inp))) ?k bn = (Ok (), t) \<and> bn_normal t \<and>
        bn_val t = (if False then - int (words_val (load_words_be inp)) else int (words_val (load_words_be inp)))"
      using op_then_store [OF n, of False "load_words_be inp" ?k calloc, OF _ k, unfolded if_P [OF g]] by blast
    ultimately show ?thesis unfolding if_False load_words_be_val [THEN conjunct1] by (simp only:)
  qed
  show "bin2bn_into calloc inp bn = (Err, bn)"
    if "\<not> (inp = [] \<or> bn_grows calloc (bytes_width inp) bn)"
    using that by (simp add: bin2bn_into_def Let_def op_then_apply bn_wexpand_fails)
qed

text \<open>The words of a string of bytes.\<close>

lemma length_le_words_of [simp]: "length (le_words_of n bs) = n"
  by (induction n bs rule: le_words_of.induct) auto

lemma take_le_words_of: "m \<le> n \<Longrightarrow> take m (le_words_of n bs) = le_words_of m (take (8 * m) bs)"
proof (induction n bs arbitrary: m rule: le_words_of.induct)
  case (2 n bs)
  show ?case
  proof (cases m)
    case (Suc k)
    have "take k (le_words_of n (drop 8 bs)) = le_words_of k (take (8 * k) (drop 8 bs))"
      using 2 Suc by simp
    then show ?thesis by (simp add: Suc drop_take min_def)
  qed simp
qed simp

lemma words_val_le_words_of: "length bs = 8 * n \<Longrightarrow> words_val (le_words_of n bs) = be_val (rev bs)"
proof (induction n bs rule: le_words_of.induct)
  case (2 n bs)
  define lo hi where "lo = take 8 bs" and "hi = drop 8 bs"
  have b: "bs = lo @ hi" "length lo = 8" "length hi = 8 * n" using 2(2) by (simp_all add: lo_def hi_def)
  have "be_val (rev lo) < 2 ^ 64" using be_val_less [of "rev lo"] b(2) by simp
  then have u: "unat (of_nat (be_val (rev lo)) :: u64) = be_val (rev lo)"
    by (simp add: unsigned_of_nat take_bit_nat_eq_self)
  have "words_val (le_words_of (Suc n) bs) = be_val (rev lo) + 2 ^ 64 * words_val (le_words_of n hi)"
    using u by (simp add: lo_def hi_def)
  also have "words_val (le_words_of n hi) = be_val (rev hi)" using 2(1) b(3) by (simp add: hi_def)
  also have "be_val (rev lo) + 2 ^ 64 * be_val (rev hi) = be_val (rev bs)"
    unfolding b(1) rev_append be_val_append using b(2) by simp
  finally show ?case .
qed simp

lemma be_val_rev_zeros: "be_val (rev (bs @ replicate n 0)) = be_val (rev bs)"
  by (simp add: be_val_append)

lemma be_bytes_zero: "be_bytes n 0 = replicate n 0"
  by (induction n) (simp_all add: replicate_append_same)

lemma lebin2bn_bytes:
  assumes ne: "inp \<noteq> []" and d: "bytes_width inp \<le> length d"
  shows "\<exists>bytes. OPENSSL_memcpy (le_bytes (d[bytes_width inp - 1 := 0])) 0 inp (length inp) = Some bytes \<and>
           words_val (take (bytes_width inp) (le_words_of (length d) bytes)) = be_val (rev inp)"
proof -
  let ?n = "bytes_width inp"
  have n: "0 < ?n" "length inp \<le> 8 * ?n" "8 * (?n - 1) \<le> length inp"
    using ne bytes_width_fits [of inp] by (auto simp: Suc_le_eq)
  define L where "L = le_bytes (d[?n - 1 := 0])"
  have L: "length L = 8 * length d" by (simp add: L_def)
  define bytes where "bytes = inp @ drop (length inp) L"
  have lb: "length bytes = 8 * length d" using L n d by (simp add: bytes_def)
  have cp: "OPENSSL_memcpy L 0 inp (length inp) = Some bytes"
    using L n d by (simp add: OPENSSL_memcpy_def bytes_def)
  define front where "front = take (?n - 1) d"
  have dd: "d[?n - 1 := 0] = front @ 0 # drop ?n d"
    unfolding front_def using upd_conv_take_nth_drop [of "?n - 1" d 0] d by simp
  have lf: "length (le_bytes front) = 8 * (?n - 1)" using d by (simp add: front_def)
  have "L = le_bytes front @ replicate 8 0 @ le_bytes (drop ?n d)"
    unfolding L_def dd by (simp add: le_bytes_def be_bytes_zero del: be_bytes.simps)
  then have "take (8 * ?n) L = le_bytes front @ replicate 8 0"
    using lf by simp
  then have "drop (length inp) (take (8 * ?n) L) = drop (length inp) (le_bytes front @ replicate 8 0)" by simp
  also have "\<dots> = replicate (8 * ?n - length inp) 0"
    using lf n by (simp add: drop_replicate) 
  finally have z: "drop (length inp) (take (8 * ?n) L) = replicate (8 * ?n - length inp) 0" .
  have "take (8 * ?n) bytes = inp @ replicate (8 * ?n - length inp) 0"
    unfolding bytes_def using n z by (simp add: take_drop)
  then have "words_val (take ?n (le_words_of (length d) bytes)) = be_val (rev inp)"
    unfolding take_le_words_of [OF d]
    using words_val_le_words_of [of "take (8 * ?n) bytes" ?n] n be_val_rev_zeros by simp
  with cp show ?thesis unfolding L_def by blast
qed

text \<open>The old sign stays.\<close>

lemma lebin2bn_into_ok:
  assumes "bn_wf bn" and "inp \<noteq> []" and "bn_grows calloc (bytes_width inp) bn"
  shows "\<exists>t. lebin2bn_into calloc inp bn = (Ok (), t) \<and> bn_wf t \<and> bn_neg t = bn_neg bn \<and>
           bn_abs t = be_val (rev inp)"
proof -
  obtain t where t: "bn_wexpand calloc (bytes_width inp) bn = (Ok (), t)" "bn_wf t" "bytes_width inp \<le> bn_dmax t"
    "bn_neg t = bn_neg bn" by (rule bn_wexpand_ok [OF assms(1,3)])
  obtain bytes where b: "OPENSSL_memcpy (le_bytes ((bn_d t)[bytes_width inp - 1 := 0])) 0 inp (length inp) = Some bytes"
    "words_val (take (bytes_width inp) (le_words_of (bn_dmax t) bytes)) = be_val (rev inp)"
    using lebin2bn_bytes [OF assms(2) t(3)] by blast
  define u where "u = t\<lparr>bn_d := le_words_of (bn_dmax t) bytes, bn_width := bytes_width inp\<rparr>"
  have "lebin2bn_into calloc inp bn = (Ok (), u)"
    unfolding lebin2bn_into_def Let_def u_def using assms(2) t(1) b(1)
    by (simp only: length_0_conv if_False op_then_apply prod.case result.case option.case length_list_update)
  moreover have "bn_wf u \<and> bn_neg u = bn_neg bn \<and> bn_abs u = be_val (rev inp)"
    using t b(2) by (simp add: u_def bn_wf_def bn_abs_def bn_words_def)
  ultimately show ?thesis by blast
qed

interpretation lebin2bn: bn_setter "lebin2bn_into calloc inp" "\<lambda>bn. inp \<noteq> [] \<longrightarrow> \<not> bn_neg bn"
    "\<lambda>bn. inp = [] \<or> bn_grows calloc (bytes_width inp) bn" "\<lambda>_. int (be_val (rev inp))"
  for calloc inp
proof
  fix bn assume n: "bn_normal bn"
  show "\<exists>t. lebin2bn_into calloc inp bn = (Ok (), t) \<and> bn_normal t \<and> bn_val t = int (be_val (rev inp))"
    if pre: "inp \<noteq> [] \<longrightarrow> \<not> bn_neg bn" and room: "inp = [] \<or> bn_grows calloc (bytes_width inp) bn"
  proof (cases "inp = []")
    case True
    then show ?thesis using n
      by (simp add: lebin2bn_into_def bn_normal_def bn_wf_def bn_val_def bn_abs_def bn_words_def)
  next
    case False
    then show ?thesis using lebin2bn_into_ok [OF bn_normal_wf [OF n] False] pre room
      by (auto simp: bn_normal_def bn_val_def)
  qed
  show "lebin2bn_into calloc inp bn = (Err, bn)"
    if "\<not> (inp = [] \<or> bn_grows calloc (bytes_width inp) bn)"
    using that by (simp add: lebin2bn_into_def Let_def op_then_apply bn_wexpand_fails)
qed

section \<open>Writing\<close>

lemma BN_bn2bin_padded_eq:
  "BN_bn2bin_padded n bn = (if bn_abs bn < 256 ^ n then Ok (be_bytes n (bn_abs bn)) else Err)"
  by (simp add: BN_bn2bin_padded_def fits_in_bytes_iff bn_words_to_big_endian_eq bn_abs_def)

lemma BN_bn2bin_eq:
  assumes "bn_wf bn"
  shows "BN_bn2bin bn = Ok (be_bytes (BN_num_bytes bn) (bn_abs bn))"
  using BN_num_bytes_le [OF assms, of "BN_num_bytes bn"]
  by (simp add: BN_bn2bin_def bn_words_to_big_endian_eq bn_abs_def)

lemma BN_bn2le_padded_eq:
  "BN_bn2le_padded n bn = (if bn_abs bn < 256 ^ n then Ok (rev (be_bytes n (bn_abs bn))) else Err)"
proof (cases "bn_abs bn < 256 ^ n")
  case True
  let ?b = "le_bytes (bn_words bn)"
  have v: "be_val (rev ?b) = bn_abs bn" by (simp add: be_val_le_bytes bn_abs_def)
  have "be_bytes n (bn_abs bn) = replicate (n - length ?b) 0 @ drop (length ?b - n) (rev ?b)"
    using be_bytes_pad [of "rev ?b" n] True unfolding v by simp
  also have "drop (length ?b - n) (rev ?b) = rev (take n ?b)" by (simp add: rev_take)
  finally have "rev (be_bytes n (bn_abs bn)) = take n ?b @ replicate (n - length ?b) 0" by simp
  with True show ?thesis
    by (auto simp: BN_bn2le_padded_def fits_in_bytes_iff bn_abs_def Let_def)
qed (simp add: BN_bn2le_padded_def fits_in_bytes_iff bn_abs_def)

lemma bn_assert_fits_iff:
  "bn_assert_fits_in_bytes bn n = (if bn_abs bn < 256 ^ n then Ok () else Abort)"
  unfolding bn_assert_fits_in_bytes_def bn_abs_def fits_in_bytes_iff [symmetric]
  by (simp add: fits_in_bytes_def or_bytes_0)

end
