(* ===== verification/Bignum_Add.thy ===== *)
theory Bignum_Add
  imports Bignum_IO
begin

text \<open>
  crypto/fipsmodule/bn/add.c and the word loops of generic.c it calls. The result may be the
  same object as an operand, so the functions work on a store of objects and take their
  addresses; each object owns its block of words. A pointer into a block is an address with
  an offset, and a read or write outside the block is not defined.
\<close>

type_synonym bn_store = "nat \<Rightarrow> bignum"

definition bn_at :: "nat \<Rightarrow> (bignum, 'a) op \<Rightarrow> (bn_store, 'a) op" where
  "bn_at r m s = (case m (s r) of (res, bn) \<Rightarrow> (res, s(r := bn)))"

definition bn_load :: "nat \<Rightarrow> nat \<Rightarrow> (bn_store, BN_ULONG) op" where
  "bn_load a i s = (if i < bn_dmax (s a) then (Ok (bn_d (s a) ! i), s) else (Abort, s))"

definition bn_put :: "nat \<Rightarrow> nat \<Rightarrow> BN_ULONG \<Rightarrow> (bn_store, unit) op" where
  "bn_put r i w s =
     (if i < bn_dmax (s r) then (Ok (), s(r := (s r)\<lparr>bn_d := (bn_d (s r))[i := w]\<rparr>)) else (Abort, s))"

section \<open>Words with a carry\<close>

type_synonym u128 = "128 word"

definition CRYPTO_addc_u64 :: "u64 \<Rightarrow> u64 \<Rightarrow> u64 \<Rightarrow> u64 \<times> u64" where
  "CRYPTO_addc_u64 x y carry =
     (let ret = ucast carry + (ucast x + ucast y) :: u128
      in (ucast ret, ucast (drop_bit 64 ret)))"

definition CRYPTO_subc_u64 :: "u64 \<Rightarrow> u64 \<Rightarrow> u64 \<Rightarrow> u64 \<times> u64" where
  "CRYPTO_subc_u64 x y borrow =
     (x - y - borrow, of_bool (x < y) OR (of_bool (x = y) AND borrow))"

text \<open>
  One round of a word loop: \<open>r[i] = f(a[i], y, c, &c)\<close>. Both functions \<open>f\<close> assert that the
  carry they are given is a bit.
\<close>

definition word_step ::
    "(u64 \<Rightarrow> u64 \<Rightarrow> u64 \<Rightarrow> u64 \<times> u64) \<Rightarrow> nat \<Rightarrow> nat \<Rightarrow> (nat \<Rightarrow> (bn_store, u64) op) \<Rightarrow>
     nat \<Rightarrow> u64 \<Rightarrow> (bn_store, u64) op" where
  "word_step f r a y i c =
     op_bind (bn_load a i) (\<lambda>x. op_bind (y i) (\<lambda>y.
       op_then (op_assert (c \<le> 1))
         (case f x y c of (w, c) \<Rightarrow> op_then (bn_put r i w) (op_ret c))))"

primrec word_loop ::
    "(u64 \<Rightarrow> u64 \<Rightarrow> u64 \<Rightarrow> u64 \<times> u64) \<Rightarrow> nat \<Rightarrow> nat \<Rightarrow> (nat \<Rightarrow> (bn_store, u64) op) \<Rightarrow>
     nat \<Rightarrow> nat \<Rightarrow> u64 \<Rightarrow> (bn_store, u64) op" where
  "word_loop f r a y 0 i c = op_ret c"
| "word_loop f r a y (Suc n) i c = op_bind (word_step f r a y i c) (word_loop f r a y n (Suc i))"

text \<open>The loops of generic.c take four words a round while there are as many.\<close>

function word_blocks ::
    "(u64 \<Rightarrow> u64 \<Rightarrow> u64 \<Rightarrow> u64 \<times> u64) \<Rightarrow> nat \<Rightarrow> nat \<Rightarrow> (nat \<Rightarrow> (bn_store, u64) op) \<Rightarrow>
     nat \<Rightarrow> nat \<Rightarrow> u64 \<Rightarrow> (bn_store, u64) op" where
  "word_blocks f r a y n i c =
     (if n div 4 \<noteq> 0
      then op_bind (word_step f r a y i c) (\<lambda>c.
           op_bind (word_step f r a y (i + 1) c) (\<lambda>c.
           op_bind (word_step f r a y (i + 2) c) (\<lambda>c.
           op_bind (word_step f r a y (i + 3) c) (\<lambda>c. word_blocks f r a y (n - 4) (i + 4) c))))
      else word_loop f r a y n i c)"
  by pat_completeness auto
termination
  by (relation "measure (\<lambda>(f, r, a, y, n, i, c). n)") auto

declare word_blocks.simps [simp del]

definition bn_add_words :: "nat \<Rightarrow> nat \<Rightarrow> nat \<Rightarrow> nat \<Rightarrow> (bn_store, BN_ULONG) op" where
  "bn_add_words r a b n =
     (if n = 0 then op_ret 0 else word_blocks CRYPTO_addc_u64 r a (bn_load b) n 0 0)"

definition bn_sub_words :: "nat \<Rightarrow> nat \<Rightarrow> nat \<Rightarrow> nat \<Rightarrow> (bn_store, BN_ULONG) op" where
  "bn_sub_words r a b n =
     (if n = 0 then op_ret 0 else word_blocks CRYPTO_subc_u64 r a (bn_load b) n 0 0)"

section \<open>Addition and subtraction\<close>

definition bn_uadd_consttime :: "(nat \<Rightarrow> bool) \<Rightarrow> nat \<Rightarrow> nat \<Rightarrow> nat \<Rightarrow> (bn_store, unit) op" where
  "bn_uadd_consttime calloc r a b s =
     (let (a, b) = (if bn_width (s a) < bn_width (s b) then (b, a) else (a, b));
          max_w = bn_width (s a);
          min_w = bn_width (s b) in
      op_then (bn_at r (bn_wexpand calloc (max_w + 1)))
        (op_then (bn_at r (\<lambda>bn. (Ok (), bn\<lparr>bn_width := max_w + 1\<rparr>)))
          (op_bind (bn_add_words r a b min_w) (\<lambda>carry.
           op_bind (word_loop CRYPTO_addc_u64 r a (\<lambda>_. op_ret 0) (max_w - min_w) min_w carry) (\<lambda>carry.
           bn_put r max_w carry)))) s)"

definition BN_uadd :: "(nat \<Rightarrow> bool) \<Rightarrow> nat \<Rightarrow> nat \<Rightarrow> nat \<Rightarrow> (bn_store, unit) op" where
  "BN_uadd calloc r a b =
     op_then (bn_uadd_consttime calloc r a b) (bn_at r (\<lambda>bn. (Ok (), bn_set_minimal_width bn)))"

definition bn_usub_consttime :: "(nat \<Rightarrow> bool) \<Rightarrow> nat \<Rightarrow> nat \<Rightarrow> nat \<Rightarrow> (bn_store, unit) op" where
  "bn_usub_consttime calloc r a b s =
     (let a_width = bn_width (s a);
          b_width = bn_width (s b) in
      if b_width > a_width \<and> \<not> bn_fits_in_words (s b) a_width then (Err, s)
      else
        (let b_width = (if b_width > a_width then a_width else b_width) in
         op_then (bn_at r (bn_wexpand calloc a_width))
           (op_bind (bn_sub_words r a b b_width) (\<lambda>borrow.
            op_bind (word_loop CRYPTO_subc_u64 r a (\<lambda>_. op_ret 0) (a_width - b_width) b_width borrow) (\<lambda>borrow.
            if borrow \<noteq> 0 then op_fail
            else bn_at r (\<lambda>bn. (Ok (), bn\<lparr>bn_width := a_width, bn_neg := False\<rparr>))))) s))"

definition BN_usub :: "(nat \<Rightarrow> bool) \<Rightarrow> nat \<Rightarrow> nat \<Rightarrow> nat \<Rightarrow> (bn_store, unit) op" where
  "BN_usub calloc r a b =
     op_then (bn_usub_consttime calloc r a b) (bn_at r (\<lambda>bn. (Ok (), bn_set_minimal_width bn)))"

definition bn_set_sign :: "nat \<Rightarrow> bool \<Rightarrow> (bn_store, unit) op" where
  "bn_set_sign r neg = bn_at r (\<lambda>bn. (Ok (), bn\<lparr>bn_neg := neg\<rparr>))"

text \<open>The end of \<open>BN_add\<close> and \<open>BN_sub\<close>: \<open>a - b\<close> from the magnitudes.\<close>

definition bn_diff :: "(nat \<Rightarrow> bool) \<Rightarrow> nat \<Rightarrow> nat \<Rightarrow> nat \<Rightarrow> (bn_store, unit) op" where
  "bn_diff calloc r a b s =
     (if sint (BN_ucmp (s a) (s b)) < 0
      then op_then (BN_usub calloc r b a) (bn_set_sign r True) s
      else op_then (BN_usub calloc r a b) (bn_set_sign r False) s)"

text \<open>In the first function, the sign is set whether or not the addition succeeded.\<close>

definition BN_add :: "(nat \<Rightarrow> bool) \<Rightarrow> nat \<Rightarrow> nat \<Rightarrow> nat \<Rightarrow> (bn_store, unit) op" where
  "BN_add calloc r a b s =
     (let a_neg = bn_neg (s a) in
      if a_neg \<noteq> bn_neg (s b)
      then (let (a, b) = (if a_neg then (b, a) else (a, b)) in bn_diff calloc r a b s)
      else (case BN_uadd calloc r a b s of (ret, s) \<Rightarrow> (ret, s(r := (s r)\<lparr>bn_neg := a_neg\<rparr>))))"

definition BN_sub :: "(nat \<Rightarrow> bool) \<Rightarrow> nat \<Rightarrow> nat \<Rightarrow> nat \<Rightarrow> (bn_store, unit) op" where
  "BN_sub calloc r a b s =
     (let (a, b, add, neg) =
        (if bn_neg (s a) then (if bn_neg (s b) then (b, a, False, False) else (a, b, True, True))
         else (if bn_neg (s b) then (a, b, True, False) else (a, b, False, False))) in
      if add then op_then (BN_uadd calloc r a b) (bn_set_sign r neg) s
      else bn_diff calloc r a b s)"

section \<open>Adding and subtracting a word\<close>

fun add_word_loop :: "BN_ULONG list \<Rightarrow> nat \<Rightarrow> nat \<Rightarrow> BN_ULONG \<Rightarrow> BN_ULONG list \<times> nat \<times> BN_ULONG" where
  "add_word_loop d i 0 w = (d, i, w)"
| "add_word_loop d i (Suc n) w =
     (if w \<noteq> 0 then (let l = d ! i + w in add_word_loop (d[i := l]) (Suc i) n (if w > l then 1 else 0))
      else (d, i, w))"

text \<open>The loop of \<open>BN_sub_word\<close> ends at a word that needs no borrow, or leaves the block.\<close>

function sub_word_loop :: "BN_ULONG list \<Rightarrow> nat \<Rightarrow> BN_ULONG \<Rightarrow> (BN_ULONG list \<times> nat) option" where
  "sub_word_loop d i w =
     (if i \<ge> length d then None
      else if d ! i \<ge> w then Some (d[i := d ! i - w], i)
      else sub_word_loop (d[i := d ! i - w]) (Suc i) 1)"
  by pat_completeness auto
termination
  by (relation "measure (\<lambda>(d, i, w). length d - i)") auto

declare sub_word_loop.simps [simp del]

function BN_add_word :: "(nat \<Rightarrow> bool) \<Rightarrow> BN_ULONG \<Rightarrow> (bignum, unit) op"
  and BN_sub_word :: "(nat \<Rightarrow> bool) \<Rightarrow> BN_ULONG \<Rightarrow> (bignum, unit) op" where
  "BN_add_word calloc w a =
     (if w = 0 then (Ok (), a)
      else if BN_is_zero a then BN_set_word calloc w a
      else if bn_neg a then
        (case BN_sub_word calloc w (a\<lparr>bn_neg := False\<rparr>) of
           (i, a) \<Rightarrow> (i, if \<not> BN_is_zero a then a\<lparr>bn_neg := \<not> bn_neg a\<rparr> else a))
      else if bn_dmax a < bn_width a then (Abort, a)
      else
        (case add_word_loop (bn_d a) 0 (bn_width a) w of (d, i, w) \<Rightarrow>
           let a = a\<lparr>bn_d := d\<rparr> in
           if w \<noteq> 0 \<and> i = bn_width a then
             op_then (bn_wexpand calloc (bn_width a + 1))
               (\<lambda>a. (Ok (), a\<lparr>bn_width := bn_width a + 1, bn_d := (bn_d a)[i := w]\<rparr>)) a
           else (Ok (), a)))"
| "BN_sub_word calloc w a =
     (if w = 0 then (Ok (), a)
      else if BN_is_zero a then
        op_then (BN_set_word calloc w) (\<lambda>a. (Ok (), BN_set_negative True a)) a
      else if bn_neg a then
        (case BN_add_word calloc w (a\<lparr>bn_neg := False\<rparr>) of (i, a) \<Rightarrow> (i, a\<lparr>bn_neg := True\<rparr>))
      else if bn_minimal_width a = 1 \<and> bn_d a ! 0 < w then
        (Ok (), a\<lparr>bn_d := (bn_d a)[0 := w - bn_d a ! 0], bn_neg := True\<rparr>)
      else
        (case sub_word_loop (bn_d a) 0 w of
           None \<Rightarrow> (Abort, a)
         | Some (d, i) \<Rightarrow>
             let a = a\<lparr>bn_d := d\<rparr> in
             if d ! i = 0 \<and> i = bn_width a - 1 then (Ok (), a\<lparr>bn_width := bn_width a - 1\<rparr>)
             else (Ok (), a)))"
  by pat_completeness auto
termination
  by (relation "measure (\<lambda>x. case x of Inl (calloc, w, a) \<Rightarrow> of_bool (bn_neg a) | Inr (calloc, w, a) \<Rightarrow> of_bool (bn_neg a))")
    auto

declare BN_add_word.simps [simp del] BN_sub_word.simps [simp del]

end
