(* ===== verification/Bignum_Arith.thy ===== *)
theory Bignum_Arith
  imports Bignum_Add
begin

text \<open>
  The word loops of addition and subtraction, as functions on lists of words, and the
  numbers they compute.
\<close>

section \<open>Carries\<close>

lemma CRYPTO_addc_u64_eq:
  assumes "unat c \<le> 1" and "CRYPTO_addc_u64 x y c = (w, c')"
  shows "unat w + 2 ^ 64 * unat c' = unat x + unat y + unat c" and "unat c' \<le> 1"
proof -
  define n where "n = unat x + unat y + unat c"
  have n: "n < 2 * 2 ^ 64" using unat_u64 [of x] unat_u64 [of y] assms(1) by (simp add: n_def)
  define s :: u128 where "s = ucast c + (ucast x + ucast y)"
  have "s = of_nat n" by (simp add: s_def n_def unsigned_ucast_eq [symmetric] add.commute add.left_commute)
  then have s: "unat s = n" using n by (simp add: unsigned_of_nat take_bit_nat_eq_self)
  have w: "w = ucast s" "c' = ucast (drop_bit 64 s)"
    using assms(2) by (simp_all add: CRYPTO_addc_u64_def s_def Let_def)
  have u: "unat w = n mod 2 ^ 64"
    using s by (simp add: w(1) unsigned_ucast_eq unsigned_take_bit_eq take_bit_eq_mod)
  have "unat (drop_bit 64 s) = n div 2 ^ 64"
  proof -
    have "unat (drop_bit 64 s) = drop_bit 64 (unat s)" by (simp only: unat_drop_bit_eq)
    then show ?thesis using s by (simp add: drop_bit_eq_div)
  qed
  moreover have d: "n div 2 ^ 64 \<le> 1" using n by (simp add: div_less_iff_less_mult less_Suc_eq_le flip: less_Suc_eq_le)
  ultimately have c: "unat c' = n div 2 ^ 64"
    by (simp add: w(2) unsigned_ucast_eq unsigned_take_bit_eq take_bit_eq_mod)
  show "unat w + 2 ^ 64 * unat c' = unat x + unat y + unat c"
    unfolding u c n_def [symmetric] by (rule mod_mult_div_eq)
  show "unat c' \<le> 1" unfolding c by (rule d)
qed

lemma CRYPTO_subc_u64_eq:
  assumes "unat c \<le> 1" and "CRYPTO_subc_u64 x y c = (w, c')"
  shows "unat w + unat y + unat c = unat x + 2 ^ 64 * unat c'" and "unat c' \<le> 1"
proof -
  have "unat c = 0 \<or> unat c = 1" using assms(1) by linarith
  then have c: "c = 0 \<or> c = 1" by (simp add: word_unat_eq_iff)
  have w: "w = x - y - c" "c' = of_bool (x < y) OR (of_bool (x = y) AND c)"
    using assms(2) by (simp_all add: CRYPTO_subc_u64_def)
  have bits: "unat (of_bool p OR (of_bool q AND c)) = (if p \<or> q \<and> c = 1 then 1 else 0)" for p q
    using c by auto
  have b: "unat c' = (if unat x < unat y + unat c then 1 else 0)"
    unfolding w(2) bits using c by (auto simp: word_less_nat_alt word_unat_eq_iff)
  have "unat w = (if unat x < unat y + unat c then 2 ^ 64 + unat x - (unat y + unat c) else unat x - (unat y + unat c))"
    using c unat_u64 [of x] unat_u64 [of y] by (auto simp: w(1) unat_sub_u64)
  with b show "unat w + unat y + unat c = unat x + 2 ^ 64 * unat c'" "unat c' \<le> 1"
    using unat_u64 [of x] unat_u64 [of y] c by auto
qed

text \<open>A function that turns a carry bit into a carry bit.\<close>

definition carries :: "(u64 \<Rightarrow> u64 \<Rightarrow> u64 \<Rightarrow> u64 \<times> u64) \<Rightarrow> bool" where
  "carries f \<longleftrightarrow> (\<forall>x y c. c \<le> 1 \<longrightarrow> snd (f x y c) \<le> 1)"

lemma carries_words: "carries CRYPTO_addc_u64" "carries CRYPTO_subc_u64"
  using CRYPTO_addc_u64_eq(2) CRYPTO_subc_u64_eq(2) unfolding carries_def word_le_nat_alt
  by (metis prod.collapse unsigned_1)+

section \<open>Lists of words\<close>

fun chain :: "(u64 \<Rightarrow> u64 \<Rightarrow> u64 \<Rightarrow> u64 \<times> u64) \<Rightarrow> u64 list \<Rightarrow> u64 list \<Rightarrow> u64 \<Rightarrow> u64 list \<times> u64" where
  "chain f (x # xs) (y # ys) c = (case f x y c of (w, c) \<Rightarrow> apfst ((#) w) (chain f xs ys c))"
| "chain f _ _ c = ([], c)"

lemma chain_append:
  "length xs = length ys \<Longrightarrow>
     chain f (xs @ xs') (ys @ ys') c = (case chain f xs ys c of (ws, c) \<Rightarrow> apfst ((@) ws) (chain f xs' ys' c))"
  by (induction f xs ys c rule: chain.induct) (auto split: prod.split simp: apfst_def map_prod_def)

lemma chain_length: "length xs = length ys \<Longrightarrow> length (fst (chain f xs ys c)) = length xs"
  by (induction f xs ys c rule: chain.induct) (auto split: prod.split)

lemma chain_carries: "carries f \<Longrightarrow> c \<le> 1 \<Longrightarrow> snd (chain f xs ys c) \<le> 1"
proof (induction f xs ys c rule: chain.induct)
  case (1 f x xs y ys c)
  obtain w k where f: "f x y c = (w, k)" by fastforce
  then have "k \<le> 1" using 1(2,3) unfolding carries_def by (metis snd_conv)
  with 1(1) [OF f [symmetric] 1(2)] \<open>k \<le> 1\<close> f show ?case by simp
qed simp_all

lemma chain_addc:
  assumes "length xs = length ys" and "unat c \<le> 1" and "chain CRYPTO_addc_u64 xs ys c = (ws, c')"
  shows "words_val ws + 2 ^ (64 * length xs) * unat c' = words_val xs + words_val ys + unat c \<and> unat c' \<le> 1"
  using assms
proof (induction xs ys arbitrary: c ws rule: list_induct2)
  case (Cons x xs y ys)
  obtain w k where f: "CRYPTO_addc_u64 x y c = (w, k)" by fastforce
  obtain vs where vs: "chain CRYPTO_addc_u64 xs ys k = (vs, c')" "ws = w # vs"
    using Cons.prems(2) f by (auto simp: apfst_def map_prod_def split: prod.splits)
  note a = CRYPTO_addc_u64_eq [OF Cons.prems(1) f]
  have IH: "words_val vs + 2 ^ (64 * length xs) * unat c' = words_val xs + words_val ys + unat k" "unat c' \<le> 1"
    using Cons.IH [OF a(2) vs(1)] by simp_all
  have "words_val ws + 2 ^ (64 * length (x # xs)) * unat c' =
      unat w + 2 ^ 64 * (words_val vs + 2 ^ (64 * length xs) * unat c')"
    by (simp add: vs(2) power_add algebra_simps)
  also have "\<dots> = (unat w + 2 ^ 64 * unat k) + 2 ^ 64 * (words_val xs + words_val ys)"
    unfolding IH(1) by (simp add: algebra_simps)
  also have "\<dots> = words_val (x # xs) + words_val (y # ys) + unat c" unfolding a(1) by simp
  finally show ?case using IH(2) by simp
qed simp

lemma chain_subc:
  assumes "length xs = length ys" and "unat c \<le> 1" and "chain CRYPTO_subc_u64 xs ys c = (ws, c')"
  shows "words_val ws + words_val ys + unat c = words_val xs + 2 ^ (64 * length xs) * unat c' \<and> unat c' \<le> 1"
  using assms
proof (induction xs ys arbitrary: c ws rule: list_induct2)
  case (Cons x xs y ys)
  obtain w k where f: "CRYPTO_subc_u64 x y c = (w, k)" by fastforce
  obtain vs where vs: "chain CRYPTO_subc_u64 xs ys k = (vs, c')" "ws = w # vs"
    using Cons.prems(2) f by (auto simp: apfst_def map_prod_def split: prod.splits)
  note a = CRYPTO_subc_u64_eq [OF Cons.prems(1) f]
  have IH: "words_val vs + words_val ys + unat k = words_val xs + 2 ^ (64 * length xs) * unat c'" "unat c' \<le> 1"
    using Cons.IH [OF a(2) vs(1)] by simp_all
  have "words_val ws + words_val (y # ys) + unat c =
      (unat w + unat y + unat c) + 2 ^ 64 * (words_val vs + words_val ys)"
    by (simp add: vs(2) algebra_simps)
  also have "\<dots> = unat x + 2 ^ 64 * (words_val vs + words_val ys + unat k)"
    unfolding a(1) by (simp add: algebra_simps)
  also have "\<dots> = words_val (x # xs) + 2 ^ (64 * length (x # xs)) * unat c'"
    unfolding IH(1) by (simp add: power_add algebra_simps)
  finally show ?case using IH(2) by simp
qed simp

end
