(* ===== verification/Bignum_Loops.thy ===== *)
theory Bignum_Loops
  imports Bignum_Arith
begin

text \<open>
  The word loops run on blocks: what they store, when the result is one of the operands.
\<close>

section \<open>Unrolled loops\<close>

lemma word_loop_Suc:
  "word_loop f r a y (Suc n) i = (\<lambda>c. op_bind (word_step f r a y i c) (word_loop f r a y n (Suc i)))"
  by (rule ext) simp

lemma word_blocks_eq: "word_blocks f r a y n i c = word_loop f r a y n i c"
proof (induction f r a y n i c rule: word_blocks.induct)
  case (1 f r a y n i c)
  show ?case
  proof (cases "n div 4 \<noteq> 0")
    case True
    then have "4 \<le> n" by (cases "n < 4") simp_all
    then obtain m where n: "n = 4 + m" using le_Suc_ex by blast
    have IH: "(\<lambda>c. word_blocks f r a y (n - 4) (i + 4) c) = word_loop f r a y m (i + 4)"
      using 1 [OF True] by (intro ext) (simp add: n)
    have four: "4 + m = Suc (Suc (Suc (Suc m)))" by simp
    have loop: "word_loop f r a y n i c = word_loop f r a y (Suc (Suc (Suc (Suc m)))) i c"
      unfolding n four ..
    show ?thesis
      unfolding loop word_blocks.simps [of f r a y n i c] if_P [OF True] IH
      by (simp add: word_loop_Suc eval_nat_numeral del: word_loop.simps)
  next
    case False
    then show ?thesis by (subst word_blocks.simps) simp
  qed
qed

section \<open>What the loops store\<close>

text \<open>
  \<open>y\<close> gives the words \<open>ys\<close> from position \<open>i\<close> on, also after earlier words of \<open>r\<close> have
  been overwritten.
\<close>

abbreviation bn_with :: "bn_store \<Rightarrow> nat \<Rightarrow> BN_ULONG list \<Rightarrow> bn_store" where
  "bn_with s r d \<equiv> s(r := (s r)\<lparr>bn_d := d\<rparr>)"

definition supplies ::
    "(nat \<Rightarrow> (bn_store, u64) op) \<Rightarrow> u64 list \<Rightarrow> nat \<Rightarrow> nat \<Rightarrow> bn_store \<Rightarrow> bool" where
  "supplies y ys i r s \<longleftrightarrow>
     (\<forall>j < length ys. \<forall>d. length d = bn_dmax (s r) \<longrightarrow> drop (i + j) d = drop (i + j) (bn_d (s r)) \<longrightarrow>
        y (i + j) (bn_with s r d) = (Ok (ys ! j), bn_with s r d))"

lemma supplies_load:
  assumes "i + n \<le> bn_dmax (s a)" and "xs = take n (drop i (bn_d (s a)))"
  shows "supplies (bn_load a) xs i r s"
  unfolding supplies_def
proof (intro allI impI)
  fix j d assume j: "j < length xs" and d: "length d = bn_dmax (s r)" "drop (i + j) d = drop (i + j) (bn_d (s r))"
  have n: "j < n" using j assms by simp
  show "bn_load a (i + j) (bn_with s r d) = (Ok (xs ! j), bn_with s r d)"
  proof (cases "a = r")
    case True
    have "d ! (i + j) = hd (drop (i + j) d)" using n assms(1) d(1) True by (simp add: hd_drop_conv_nth)
    also have "\<dots> = bn_d (s r) ! (i + j)" unfolding d(2) using n assms(1) True by (simp add: hd_drop_conv_nth)
    finally show ?thesis using n assms True d(1) by (simp add: bn_load_def)
  next
    case False
    then show ?thesis using n assms by (simp add: bn_load_def)
  qed
qed

lemma supplies_zeros: "supplies (\<lambda>_. op_ret 0) (replicate n 0) i r s"
  by (simp add: supplies_def)

lemma supplies_step:
  assumes "supplies y (v # ys) i r s" and "length d = bn_dmax (s r)" and "drop (Suc i) d = drop (Suc i) (bn_d (s r))"
  shows "supplies y ys (Suc i) r (bn_with s r d)"
  unfolding supplies_def
proof (intro allI impI)
  fix j e assume j: "j < length ys" and e: "length e = bn_dmax (bn_with s r d r)"
    "drop (Suc i + j) e = drop (Suc i + j) (bn_d (bn_with s r d r))"
  have l: "length e = bn_dmax (s r)" using e(1) assms(2) by simp
  have "drop (Suc i + j) e = drop j (drop (Suc i) d)" using e(2) by (simp add: add.commute)
  then have "drop (i + Suc j) e = drop (i + Suc j) (bn_d (s r))" unfolding assms(3) by (simp add: add.commute)
  then have "y (i + Suc j) (bn_with s r e) = (Ok ((v # ys) ! Suc j), bn_with s r e)"
    using assms(1) j l unfolding supplies_def by (metis length_Cons Suc_less_eq)
  then show "y (Suc i + j) (bn_with (bn_with s r d) r e) = (Ok (ys ! j), bn_with (bn_with s r d) r e)" by simp
qed

lemma supplies_now:
  assumes "supplies y (v # ys) i r s"
  shows "y i s = (Ok v, s)"
proof -
  have "y (i + 0) (bn_with s r (bn_d (s r))) = (Ok ((v # ys) ! 0), bn_with s r (bn_d (s r)))"
    using assms unfolding supplies_def by blast
  then show ?thesis by simp
qed

lemma word_loop_eq:
  assumes "supplies (bn_load a) xs i r s" and "supplies y ys i r s" and "length xs = n" and "length ys = n"
    and "i + n \<le> bn_dmax (s r)" and "chain f xs ys c = (ws, c')" and "c \<le> 1" and f: "carries f"
  shows "word_loop f r a y n i c s =
           (Ok c', bn_with s r (take i (bn_d (s r)) @ ws @ drop (i + n) (bn_d (s r))))"
  using assms(1-7)
proof (induction n arbitrary: xs ys i c ws s)
  case (Suc n)
  obtain x xs' where xs: "xs = x # xs'" "length xs' = n" using Suc.prems(3) by (cases xs) auto
  obtain v ys' where ys: "ys = v # ys'" "length ys' = n" using Suc.prems(4) by (cases ys) auto
  obtain w k where fx: "f x v c = (w, k)" by fastforce
  then have k: "k \<le> 1" using f Suc.prems(7) unfolding carries_def by (metis snd_conv)
  obtain vs where vs: "chain f xs' ys' k = (vs, c')" "ws = w # vs"
    using Suc.prems(6) fx by (auto simp: xs ys apfst_def map_prod_def split: prod.splits)
  let ?D = "bn_d (s r)"
  define d where "d = ?D[i := w]"
  have d: "length d = bn_dmax (s r)" "drop (Suc i) d = drop (Suc i) ?D" "i < bn_dmax (s r)"
    using Suc.prems(5) by (simp_all add: d_def)
  have step: "word_step f r a y i c s = (Ok k, bn_with s r d)"
    using supplies_now [OF Suc.prems(1) [unfolded xs(1)]] supplies_now [OF Suc.prems(2) [unfolded ys(1)]] fx d(3) Suc.prems(7)
    by (simp add: word_step_def op_bind_apply op_then_apply bn_put_def d_def)
  have "word_loop f r a y n (Suc i) k (bn_with s r d) =
      (Ok c', bn_with (bn_with s r d) r
        (take (Suc i) (bn_d (bn_with s r d r)) @ vs @ drop (Suc i + n) (bn_d (bn_with s r d r))))"
    by (rule Suc.IH [OF supplies_step [OF Suc.prems(1) [unfolded xs(1)] d(1,2)]
          supplies_step [OF Suc.prems(2) [unfolded ys(1)] d(1,2)] xs(2) ys(2) _ vs(1) k])
      (use Suc.prems(5) d(1) in simp)
  moreover have "take (Suc i) d = take i ?D @ [w]"
    using d(3) by (simp add: d_def take_Suc_conv_app_nth)
  moreover have "drop (Suc i + n) d = drop (i + Suc n) ?D"
    by (simp add: d_def)
  ultimately show ?case by (simp add: step op_bind_apply vs(2) fun_eq_iff)
qed simp

end
