(* ===== verification/Bignum_Sum.thy ===== *)
theory Bignum_Sum
  imports Bignum_Loops
begin

text \<open>
  Addition and subtraction of big numbers compute the sum and the difference, whichever of
  the three objects are the same.
\<close>

section \<open>Both loops of a function\<close>

lemma two_loops:
  assumes xs: "take n (bn_d (s a)) = xs" "length xs = n"
    and ys: "take m (bn_d (s b)) = ys" "length ys = m" "m \<le> n"
    and r: "n \<le> bn_dmax (s r)"
    and ch: "chain f xs (ys @ replicate (n - m) 0) 0 = (ws, c')" and f: "carries f"
  shows "op_bind (word_loop f r a (bn_load b) m 0 0)
           (\<lambda>c. op_bind (word_loop f r a (\<lambda>_. op_ret 0) (n - m) m c) k) s =
         k c' (bn_with s r (ws @ drop n (bn_d (s r))))"
proof -
  let ?D = "bn_d (s r)"
  have la: "n \<le> bn_dmax (s a)" "m \<le> bn_dmax (s b)"
    using xs ys by (metis length_take min.cobounded1)+
  define x1 x2 where "x1 = take m xs" and "x2 = drop m xs"
  have x: "xs = x1 @ x2" "length x1 = m" "length x2 = n - m" using xs(2) ys(3) by (simp_all add: x1_def x2_def)
  obtain ws1 k1 where 1: "chain f x1 ys 0 = (ws1, k1)" by fastforce
  obtain ws2 k2 where 2: "chain f x2 (replicate (n - m) 0) k1 = (ws2, k2)" by fastforce
  have ws: "ws = ws1 @ ws2" "k2 = c'"
    using ch chain_append [of x1 ys f x2 "replicate (n - m) 0" 0] 1 2 x(2) ys(2) by (simp_all add: x(1))
  have l1: "length ws1 = m" using chain_length [of x1 ys f 0] 1 x(2) ys(2) by simp
  have k1: "k1 \<le> 1" using chain_carries [OF f, of 0 x1 ys] 1 by simp
  let ?s = "bn_with s r (ws1 @ drop m ?D)"
  have "word_loop f r a (bn_load b) m 0 0 s =
      (Ok k1, bn_with s r (take 0 ?D @ ws1 @ drop (0 + m) ?D))"
  proof (rule word_loop_eq [OF _ _ x(2) ys(2) _ 1 _ f])
    show "supplies (bn_load a) x1 0 r s"
      by (rule supplies_load [of 0 m]) (use xs ys(3) la in \<open>auto simp: x1_def min_def\<close>)
    show "supplies (bn_load b) ys 0 r s"
      by (rule supplies_load [of 0 m]) (use ys la in auto)
  qed (use r ys(3) in simp_all)
  then have first: "word_loop f r a (bn_load b) m 0 0 s = (Ok k1, ?s)" by simp
  have "word_loop f r a (\<lambda>_. op_ret 0) (n - m) m k1 ?s =
      (Ok k2, bn_with ?s r (take m (bn_d (?s r)) @ ws2 @ drop (m + (n - m)) (bn_d (?s r))))"
  proof (rule word_loop_eq [OF _ _ x(3) _ _ 2 k1 f])
    have "drop m (bn_d (?s a)) = drop m (bn_d (s a))" using l1 by simp
    moreover have "bn_dmax (?s a) = bn_dmax (s a)" using l1 r ys(3) by simp
    ultimately show "supplies (bn_load a) x2 m r ?s"
      by (intro supplies_load [of m "n - m"]) (use xs ys(3) la in \<open>auto simp: x2_def drop_take\<close>)
    show "supplies (\<lambda>_. op_ret 0) (replicate (n - m) 0) m r ?s" by (rule supplies_zeros)
  qed (use l1 r ys(3) in simp_all)
  moreover have "drop (m + (n - m)) (bn_d (?s r)) = drop n ?D" using l1 ys(3) by simp
  ultimately have "word_loop f r a (\<lambda>_. op_ret 0) (n - m) m k1 ?s = (Ok c', bn_with s r (ws @ drop n ?D))"
    using l1 ws by simp
  with first show ?thesis by (simp add: op_bind_apply)
qed

lemma bn_add_words_eq: "bn_add_words r a b n = word_loop CRYPTO_addc_u64 r a (bn_load b) n 0 0"
  by (simp add: bn_add_words_def word_blocks_eq)

lemma bn_sub_words_eq: "bn_sub_words r a b n = word_loop CRYPTO_subc_u64 r a (bn_load b) n 0 0"
  by (simp add: bn_sub_words_def word_blocks_eq)

section \<open>Magnitudes\<close>

lemma bn_at_apply: "bn_at r m s = (case m (s r) of (res, bn) \<Rightarrow> (res, s(r := bn)))"
  by (simp add: bn_at_def)

lemma bn_wexpand_at:
  assumes "bn_wf (s r)" and "bn_grows calloc n (s r)"
  obtains t where "bn_at r (bn_wexpand calloc n) s = (Ok (), s(r := t))" "bn_wf t" "n \<le> bn_dmax t"
    "bn_neg t = bn_neg (s r)" "\<And>x. take (bn_width (s x)) (bn_d ((s(r := t)) x)) = bn_words (s x)"
proof -
  obtain t where t: "bn_wexpand calloc n (s r) = (Ok (), t)" "bn_wf t" "n \<le> bn_dmax t"
    "bn_words t = bn_words (s r)" "bn_width t = bn_width (s r)" "bn_neg t = bn_neg (s r)"
    by (rule bn_wexpand_ok [OF assms])
  show thesis
    by (rule that [of t]) (use t in \<open>auto simp: bn_at_apply bn_words_def\<close>)
qed

lemma bn_wexpand_at_fails:
  "\<not> bn_grows calloc n (s r) \<Longrightarrow> bn_at r (bn_wexpand calloc n) s = (Err, s)"
  by (simp add: bn_at_apply bn_wexpand_fails)

lemma bn_uadd_ordered:
  assumes wf: "bn_wf (s r)" "bn_wf (s a)" "bn_wf (s b)"
    and le: "bn_width (s b) \<le> bn_width (s a)" and room: "bn_grows calloc (bn_width (s a) + 1) (s r)"
  shows "\<exists>t. bn_uadd_consttime calloc r a b s = (Ok (), s(r := t)) \<and> bn_wf t \<and> bn_neg t = bn_neg (s r) \<and>
           bn_width t = bn_width (s a) + 1 \<and> bn_abs t = bn_abs (s a) + bn_abs (s b)"
proof -
  define n m where "n = bn_width (s a)" and "m = bn_width (s b)"
  obtain t0 where t0: "bn_at r (bn_wexpand calloc (n + 1)) s = (Ok (), s(r := t0))" "bn_wf t0" "n + 1 \<le> bn_dmax t0"
    "bn_neg t0 = bn_neg (s r)" "\<And>x. take (bn_width (s x)) (bn_d ((s(r := t0)) x)) = bn_words (s x)"
    by (rule bn_wexpand_at [where s = s and r = r and calloc = calloc and n = "n + 1"]) (use wf room in \<open>auto simp: n_def\<close>)
  let ?t = "t0\<lparr>bn_width := n + 1\<rparr>" and ?xs = "bn_words (s a)" and ?ys = "bn_words (s b)"
  define s2 where "s2 = s(r := ?t)"
  have len: "length ?xs = n" "length ?ys = m" using wf by (simp_all add: n_def m_def)
  have d: "take n (bn_d (s2 a)) = ?xs" "take m (bn_d (s2 b)) = ?ys"
    using t0(5) [of a] t0(5) [of b] by (auto simp: s2_def n_def m_def)
  obtain ws c where ch: "chain CRYPTO_addc_u64 ?xs (?ys @ replicate (n - m) 0) 0 = (ws, c)" by fastforce
  have lw: "length ws = n"
    using chain_length [of ?xs "?ys @ replicate (n - m) 0" CRYPTO_addc_u64 0] ch len le by (simp add: n_def m_def)
  have v: "words_val ws + 2 ^ (64 * n) * unat c = words_val ?xs + words_val ?ys"
    using chain_addc [OF _ _ ch] len le by (simp add: n_def m_def words_val_append)
  have dm: "n < bn_dmax (s2 r)" using t0(3) by (simp add: s2_def)
  define t where "t = ?t\<lparr>bn_d := ws @ c # drop (n + 1) (bn_d t0)\<rparr>"
  have upd: "(ws @ drop n (bn_d t0))[n := c] = ws @ c # drop (n + 1) (bn_d t0)"
    using lw t0(3) by (simp add: list_update_append Cons_nth_drop_Suc [symmetric])
  have "bn_uadd_consttime calloc r a b s =
      op_bind (bn_add_words r a b m) (\<lambda>c. op_bind (word_loop CRYPTO_addc_u64 r a (\<lambda>_. op_ret 0) (n - m) m c)
        (\<lambda>c. bn_put r n c)) s2"
    unfolding bn_uadd_consttime_def Let_def
    using le t0(1) by (simp add: n_def m_def op_then_apply bn_at_apply s2_def)
  also have "\<dots> = bn_put r n c (bn_with s2 r (ws @ drop n (bn_d (s2 r))))"
    unfolding bn_add_words_eq by (rule two_loops [OF d(1) len(1) d(2) len(2) _ _ ch carries_words(1)]) (use le dm in \<open>simp_all add: n_def m_def\<close>)
  also have "\<dots> = (Ok (), s(r := t))"
    using t0(3) lw upd by (simp add: bn_put_def s2_def t_def)
  finally have run: "bn_uadd_consttime calloc r a b s = (Ok (), s(r := t))" .
  have w: "bn_words t = ws @ [c]" using lw by (simp add: bn_words_def t_def)
  have "bn_abs t = bn_abs (s a) + bn_abs (s b)"
    unfolding bn_abs_def w words_val_append using v lw by simp
  moreover have "bn_wf t" using t0(2,3) lw by (auto simp: bn_wf_def t_def)
  ultimately show ?thesis using run t0(4) by (intro exI [of _ t]) (simp add: t_def n_def)
qed

lemma bn_uadd_swap:
  "bn_width (s a) < bn_width (s b) \<Longrightarrow> bn_uadd_consttime calloc r a b s = bn_uadd_consttime calloc r b a s"
  by (simp add: bn_uadd_consttime_def)

abbreviation bn_max_width :: "bignum \<Rightarrow> bignum \<Rightarrow> nat" where
  "bn_max_width a b \<equiv> max (bn_width a) (bn_width b)"

lemma bn_uadd_consttime_ok:
  assumes wf: "bn_wf (s r)" "bn_wf (s a)" "bn_wf (s b)"
    and room: "bn_grows calloc (bn_max_width (s a) (s b) + 1) (s r)"
  shows "\<exists>t. bn_uadd_consttime calloc r a b s = (Ok (), s(r := t)) \<and> bn_wf t \<and> bn_neg t = bn_neg (s r) \<and>
           bn_width t = bn_max_width (s a) (s b) + 1 \<and> bn_abs t = bn_abs (s a) + bn_abs (s b)"
proof (cases "bn_width (s b) \<le> bn_width (s a)")
  case True
  then show ?thesis using bn_uadd_ordered [OF wf True] room by (simp add: max_def)
next
  case False
  then have "bn_width (s a) < bn_width (s b)" "max (bn_width (s a)) (bn_width (s b)) = bn_width (s b)" by simp_all
  then show ?thesis using bn_uadd_ordered [OF wf(1,3,2), of calloc] room bn_uadd_swap [of s a b calloc r]
    by (simp add: add.commute)
qed

lemma bn_uadd_consttime_fails:
  "\<not> bn_grows calloc (bn_max_width (s a) (s b) + 1) (s r) \<Longrightarrow> bn_uadd_consttime calloc r a b s = (Err, s)"
  unfolding bn_uadd_consttime_def Let_def
  by (cases "bn_width (s a) < bn_width (s b)") (simp_all add: op_then_apply bn_wexpand_at_fails max_def)

lemma bn_usub_consttime_ok:
  assumes wf: "bn_wf (s r)" "bn_wf (s a)" "bn_wf (s b)"
    and le: "bn_abs (s b) \<le> bn_abs (s a)" and room: "bn_grows calloc (bn_width (s a)) (s r)"
  shows "\<exists>t. bn_usub_consttime calloc r a b s = (Ok (), s(r := t)) \<and> bn_wf t \<and> \<not> bn_neg t \<and>
           bn_width t = bn_width (s a) \<and> bn_abs t = bn_abs (s a) - bn_abs (s b)"
proof -
  define n where "n = bn_width (s a)"
  define m where "m = (if bn_width (s b) > n then n else bn_width (s b))"
  have mn: "m \<le> n" "m \<le> bn_width (s b)" by (simp_all add: m_def)
  obtain t0 where t0: "bn_at r (bn_wexpand calloc n) s = (Ok (), s(r := t0))" "bn_wf t0" "n \<le> bn_dmax t0"
    "bn_neg t0 = bn_neg (s r)" "\<And>x. take (bn_width (s x)) (bn_d ((s(r := t0)) x)) = bn_words (s x)"
    by (rule bn_wexpand_at [where s = s and r = r and calloc = calloc and n = n]) (use wf room in \<open>auto simp: n_def\<close>)
  let ?xs = "bn_words (s a)" and ?ys = "take m (bn_words (s b))"
  define s2 where "s2 = s(r := t0)"
  have len: "length ?xs = n" "length ?ys = m" using wf mn by (simp_all add: n_def)
  have "take m (take (bn_width (s b)) (bn_d (s2 b))) = ?ys"
    using t0(5) [of b] by (simp only: s2_def)
  then have d: "take n (bn_d (s2 a)) = ?xs" "take m (bn_d (s2 b)) = ?ys"
    using t0(5) [of a] mn(2) by (simp_all add: s2_def n_def min_def)
  have "bn_abs (s a) < 2 ^ (64 * n)" unfolding bn_abs_def using words_val_less [of ?xs] len by simp
  with le have small: "bn_abs (s b) < 2 ^ (64 * n)" by simp
  then have fits: "bn_fits_in_words (s b) n" by (simp add: bn_fits_in_words_iff [OF wf(3)])
  then have fit: "\<not> (n < bn_width (s b) \<and> \<not> bn_fits_in_words (s b) n)" by simp
  have y: "words_val ?ys = bn_abs (s b)"
  proof (cases "bn_width (s b) > n")
    case True
    then have "words_val (drop m (bn_words (s b))) = 0"
      using fits by (simp add: m_def bn_fits_in_words_def bn_or_words_val)
    then show ?thesis unfolding bn_abs_def using words_val_split [of "bn_words (s b)" m] by simp
  next
    case False
    then show ?thesis using wf by (simp add: m_def bn_abs_def)
  qed
  obtain ws c where ch: "chain CRYPTO_subc_u64 ?xs (?ys @ replicate (n - m) 0) 0 = (ws, c)" by fastforce
  have lw: "length ws = n"
    using chain_length [of ?xs "?ys @ replicate (n - m) 0" CRYPTO_subc_u64 0] ch len mn by simp
  have v: "words_val ws + bn_abs (s b) = bn_abs (s a) + 2 ^ (64 * n) * unat c"
    using chain_subc [OF _ _ ch] len mn y by (simp add: bn_abs_def words_val_append)
  have "unat c = 0"
  proof (rule ccontr)
    assume "unat c \<noteq> 0"
    then have "2 ^ (64 * n) * 1 \<le> 2 ^ (64 * n) * unat c" by (intro mult_le_mono2) simp
    moreover have "words_val ws < 2 ^ (64 * n)" using words_val_less [of ws] lw by simp
    ultimately show False using v le by linarith
  qed
  then have c: "c = 0" and v: "words_val ws = bn_abs (s a) - bn_abs (s b)" using v by (simp_all add: unat_eq_0)
  define t where "t = t0\<lparr>bn_d := ws @ drop n (bn_d t0), bn_width := n, bn_neg := False\<rparr>"
  have "bn_usub_consttime calloc r a b s =
      op_bind (bn_sub_words r a b m) (\<lambda>c. op_bind (word_loop CRYPTO_subc_u64 r a (\<lambda>_. op_ret 0) (n - m) m c)
        (\<lambda>c. if c \<noteq> 0 then op_fail else bn_at r (\<lambda>bn. (Ok (), bn\<lparr>bn_width := n, bn_neg := False\<rparr>)))) s2"
    unfolding bn_usub_consttime_def Let_def n_def [symmetric] m_def [symmetric] if_not_P [OF fit] op_then_apply
      t0(1) prod.case result.case s2_def ..
  also have "\<dots> = bn_at r (\<lambda>bn. (Ok (), bn\<lparr>bn_width := n, bn_neg := False\<rparr>)) (bn_with s2 r (ws @ drop n (bn_d (s2 r))))"
    unfolding bn_sub_words_eq using t0(3)
    by (subst two_loops [OF d(1) len(1) d(2) len(2) mn(1) _ ch carries_words(2)]) (simp_all add: c s2_def)
  also have "\<dots> = (Ok (), s(r := t))"
    by (simp add: bn_at_apply s2_def t_def)
  finally have run: "bn_usub_consttime calloc r a b s = (Ok (), s(r := t))" .
  have w: "bn_words t = ws" using lw by (simp add: bn_words_def t_def)
  have "bn_abs t = bn_abs (s a) - bn_abs (s b)" unfolding bn_abs_def [of t] w v ..
  moreover have "bn_wf t" using t0(2,3) lw by (auto simp: bn_wf_def t_def)
  ultimately show ?thesis using run by (intro exI [of _ t]) (simp add: t_def n_def)
qed

lemma bn_usub_consttime_fails:
  assumes "bn_wf (s a)" and "bn_wf (s b)" and "bn_abs (s b) \<le> bn_abs (s a)"
    and "\<not> bn_grows calloc (bn_width (s a)) (s r)"
  shows "bn_usub_consttime calloc r a b s = (Err, s)"
  using assms(4) by (simp add: bn_usub_consttime_def Let_def op_then_apply bn_wexpand_at_fails)

section \<open>The public functions\<close>

definition bn_minimal :: "bignum \<Rightarrow> bool" where
  "bn_minimal bn \<longleftrightarrow> bn_normal bn \<and> bn_minimal_width bn = bn_width bn"

lemma bn_set_minimal_width_minimal: "bn_wf bn \<Longrightarrow> bn_minimal (bn_set_minimal_width bn)"
proof -
  assume wf: "bn_wf bn"
  let ?t = "bn_set_minimal_width bn"
  note t = bn_set_minimal_width_eq [OF wf]
  have m: "minimal_width_loop d (minimal_width_loop d n) = minimal_width_loop d n" for d n
    by (induction d n rule: minimal_width_loop.induct) auto
  have "bn_d ?t = bn_d bn" by (simp add: bn_set_minimal_width_def Let_def)
  then have "bn_minimal_width ?t = bn_width ?t" using t by (simp add: bn_minimal_width_def m)
  with t show ?thesis by (simp add: bn_minimal_def)
qed

lemma bn_minimal_sign:
  assumes "bn_minimal t" and "neg \<longrightarrow> bn_abs t \<noteq> 0"
  shows "bn_minimal (t\<lparr>bn_neg := neg\<rparr>) \<and>
         bn_val (t\<lparr>bn_neg := neg\<rparr>) = (if neg then - int (bn_abs t) else int (bn_abs t))"
proof -
  have a: "bn_abs (t\<lparr>bn_neg := neg\<rparr>) = bn_abs t" by (simp add: bn_abs_def bn_words_def)
  have "bn_minimal_width (t\<lparr>bn_neg := neg\<rparr>) = bn_minimal_width t" by (simp add: bn_minimal_width_def)
  with assms a show ?thesis by (auto simp: bn_minimal_def bn_normal_def bn_wf_def bn_val_def)
qed

lemma BN_uadd_ok:
  assumes wf: "bn_wf (s r)" "bn_wf (s a)" "bn_wf (s b)"
    and room: "bn_grows calloc (bn_max_width (s a) (s b) + 1) (s r)"
  shows "\<exists>t. BN_uadd calloc r a b s = (Ok (), s(r := t)) \<and> bn_minimal t \<and>
           bn_abs t = bn_abs (s a) + bn_abs (s b) \<and> bn_neg t = (bn_neg (s r) \<and> bn_abs t \<noteq> 0)"
proof -
  obtain u where u: "bn_uadd_consttime calloc r a b s = (Ok (), s(r := u))" "bn_wf u" "bn_neg u = bn_neg (s r)"
    "bn_abs u = bn_abs (s a) + bn_abs (s b)"
    using bn_uadd_consttime_ok [OF wf room] by blast
  let ?t = "bn_set_minimal_width u"
  note t = bn_set_minimal_width_eq [OF u(2)]
  have neg: "bn_neg ?t = (bn_neg u \<and> bn_minimal_width u \<noteq> 0)"
    by (simp add: bn_set_minimal_width_def Let_def)
  have abs: "bn_abs ?t = bn_abs u"
    using t by (auto simp: bn_val_def neg split: if_splits)
  have "BN_uadd calloc r a b s = (Ok (), s(r := ?t))"
    using u(1) by (simp add: BN_uadd_def op_then_apply bn_at_apply)
  with abs neg u bn_minimal_width_0 [OF u(2)] bn_set_minimal_width_minimal [OF u(2)] show ?thesis by auto
qed

lemma BN_uadd_fails:
  "\<not> bn_grows calloc (bn_max_width (s a) (s b) + 1) (s r) \<Longrightarrow> BN_uadd calloc r a b s = (Err, s)"
  by (simp add: BN_uadd_def op_then_apply bn_uadd_consttime_fails)

lemma BN_usub_ok:
  assumes wf: "bn_wf (s r)" "bn_wf (s a)" "bn_wf (s b)"
    and le: "bn_abs (s b) \<le> bn_abs (s a)" and room: "bn_grows calloc (bn_width (s a)) (s r)"
  shows "\<exists>t. BN_usub calloc r a b s = (Ok (), s(r := t)) \<and> bn_minimal t \<and> \<not> bn_neg t \<and>
           bn_abs t = bn_abs (s a) - bn_abs (s b)"
proof -
  obtain u where u: "bn_usub_consttime calloc r a b s = (Ok (), s(r := u))" "bn_wf u" "\<not> bn_neg u"
    "bn_abs u = bn_abs (s a) - bn_abs (s b)"
    using bn_usub_consttime_ok [OF wf le room] by blast
  let ?t = "bn_set_minimal_width u"
  note t = bn_set_minimal_width_eq [OF u(2)]
  have neg: "\<not> bn_neg ?t" using u(3) by (simp add: bn_set_minimal_width_def Let_def)
  have "BN_usub calloc r a b s = (Ok (), s(r := ?t))"
    using u(1) by (simp add: BN_usub_def op_then_apply bn_at_apply)
  moreover have "bn_abs ?t = bn_abs u" using t neg u(3) by (simp add: bn_val_def)
  ultimately show ?thesis using neg u bn_set_minimal_width_minimal [OF u(2)] by auto
qed

lemma BN_usub_fails:
  assumes "bn_wf (s a)" and "bn_wf (s b)" and "bn_abs (s b) \<le> bn_abs (s a)"
    and "\<not> bn_grows calloc (bn_width (s a)) (s r)"
  shows "BN_usub calloc r a b s = (Err, s)"
  using bn_usub_consttime_fails [OF assms] by (simp add: BN_usub_def op_then_apply)

text \<open>The words that the signed functions need in the block of the result.\<close>

definition bn_diff_width :: "bignum \<Rightarrow> bignum \<Rightarrow> nat" where
  "bn_diff_width a b = (if bn_abs a < bn_abs b then bn_width b else bn_width a)"

definition bn_add_width :: "bignum \<Rightarrow> bignum \<Rightarrow> nat" where
  "bn_add_width a b =
     (if bn_neg a = bn_neg b then bn_max_width a b + 1
      else if bn_neg a then bn_diff_width b a else bn_diff_width a b)"

definition bn_sub_width :: "bignum \<Rightarrow> bignum \<Rightarrow> nat" where
  "bn_sub_width a b =
     (if bn_neg a \<noteq> bn_neg b then bn_max_width a b + 1
      else if bn_neg a then bn_diff_width b a else bn_diff_width a b)"

lemma bn_set_sign_apply: "bn_set_sign r neg s = (Ok (), s(r := (s r)\<lparr>bn_neg := neg\<rparr>))"
  by (simp add: bn_set_sign_def bn_at_apply)

lemma bn_diff_ok:
  assumes wf: "bn_wf (s r)" "bn_wf (s a)" "bn_wf (s b)"
    and room: "bn_grows calloc (bn_diff_width (s a) (s b)) (s r)"
  shows "\<exists>t. bn_diff calloc r a b s = (Ok (), s(r := t)) \<and> bn_minimal t \<and>
           bn_val t = int (bn_abs (s a)) - int (bn_abs (s b))"
proof (cases "bn_abs (s a) < bn_abs (s b)")
  case True
  then have le: "bn_abs (s a) \<le> bn_abs (s b)" by simp
  obtain t where t: "BN_usub calloc r b a s = (Ok (), s(r := t))" "bn_minimal t"
    "bn_abs t = bn_abs (s b) - bn_abs (s a)"
    using BN_usub_ok [where s = s, OF wf(1,3,2) le] room True by (auto simp: bn_diff_width_def)
  have "bn_diff calloc r a b s = (Ok (), s(r := t\<lparr>bn_neg := True\<rparr>))"
    using True t(1) by (simp add: bn_diff_def BN_ucmp_neg op_then_apply bn_set_sign_apply)
  with bn_minimal_sign [OF t(2), of True] t(3) True show ?thesis by auto
next
  case False
  then have le: "bn_abs (s b) \<le> bn_abs (s a)" by simp
  obtain t where t: "BN_usub calloc r a b s = (Ok (), s(r := t))" "bn_minimal t"
    "bn_abs t = bn_abs (s a) - bn_abs (s b)"
    using BN_usub_ok [where s = s, OF wf le] room False by (auto simp: bn_diff_width_def)
  have "bn_diff calloc r a b s = (Ok (), s(r := t\<lparr>bn_neg := False\<rparr>))"
    using False t(1) by (simp add: bn_diff_def BN_ucmp_neg op_then_apply bn_set_sign_apply)
  with bn_minimal_sign [OF t(2), of False] t(3) le show ?thesis by auto
qed

lemma bn_diff_fails:
  assumes "bn_wf (s a)" and "bn_wf (s b)" and "\<not> bn_grows calloc (bn_diff_width (s a) (s b)) (s r)"
  shows "bn_diff calloc r a b s = (Err, s)"
proof (cases "bn_abs (s a) < bn_abs (s b)")
  case True
  then have "BN_usub calloc r b a s = (Err, s)"
    using BN_usub_fails [where s = s, OF assms(2,1)] assms(3) by (simp add: bn_diff_width_def)
  with True show ?thesis by (simp add: bn_diff_def BN_ucmp_neg op_then_apply)
next
  case False
  then have "BN_usub calloc r a b s = (Err, s)"
    using BN_usub_fails [where s = s, OF assms(1,2)] assms(3) by (simp add: bn_diff_width_def)
  with False show ?thesis by (simp add: bn_diff_def BN_ucmp_neg op_then_apply)
qed

lemma bn_uadd_sign:
  assumes wf: "bn_wf (s r)" "bn_wf (s a)" "bn_wf (s b)"
    and room: "bn_grows calloc (bn_max_width (s a) (s b) + 1) (s r)"
    and neg: "neg \<longrightarrow> bn_abs (s a) + bn_abs (s b) \<noteq> 0"
  obtains t where "BN_uadd calloc r a b s = (Ok (), s(r := t))" "bn_minimal (t\<lparr>bn_neg := neg\<rparr>)"
    "bn_val (t\<lparr>bn_neg := neg\<rparr>) =
       (if neg then - (int (bn_abs (s a)) + int (bn_abs (s b))) else int (bn_abs (s a)) + int (bn_abs (s b)))"
proof -
  obtain t where t: "BN_uadd calloc r a b s = (Ok (), s(r := t))" "bn_minimal t"
    "bn_abs t = bn_abs (s a) + bn_abs (s b)"
    using BN_uadd_ok [where s = s, OF wf room] by blast
  with bn_minimal_sign [OF t(2), of neg] neg show thesis by (intro that [of t]) auto
qed

lemma BN_add_ok:
  assumes n: "bn_wf (s r)" "bn_normal (s a)" "bn_normal (s b)"
    and room: "bn_grows calloc (bn_add_width (s a) (s b)) (s r)"
  shows "\<exists>t. BN_add calloc r a b s = (Ok (), s(r := t)) \<and> bn_minimal t \<and> bn_val t = bn_val (s a) + bn_val (s b)"
proof -
  note wf = n(1) bn_normal_wf [OF n(2)] bn_normal_wf [OF n(3)]
  show ?thesis
  proof (cases "bn_neg (s a) = bn_neg (s b)")
    case True
    have neg: "bn_neg (s a) \<longrightarrow> bn_abs (s a) + bn_abs (s b) \<noteq> 0" using n(2) by (simp add: bn_normal_def)
    obtain t where t: "BN_uadd calloc r a b s = (Ok (), s(r := t))" "bn_minimal (t\<lparr>bn_neg := bn_neg (s a)\<rparr>)"
      "bn_val (t\<lparr>bn_neg := bn_neg (s a)\<rparr>) = (if bn_neg (s a)
         then - (int (bn_abs (s a)) + int (bn_abs (s b))) else int (bn_abs (s a)) + int (bn_abs (s b)))"
      by (rule bn_uadd_sign [where s = s, OF wf _ neg]) (use room True in \<open>auto simp: bn_add_width_def\<close>)
    then show ?thesis using True
      by (intro exI [of _ "t\<lparr>bn_neg := bn_neg (s a)\<rparr>"]) (auto simp: BN_add_def bn_val_def [of "s a"] bn_val_def [of "s b"])
  next
    case False
    show ?thesis
      using bn_diff_ok [where s = s, OF wf, of calloc] bn_diff_ok [where s = s, OF wf(1,3,2), of calloc] room False
      by (cases "bn_neg (s a)") (auto simp: BN_add_def bn_add_width_def bn_val_def [of "s a"] bn_val_def [of "s b"])
  qed
qed

lemma BN_add_fails:
  assumes "bn_wf (s a)" and "bn_wf (s b)" and "\<not> bn_grows calloc (bn_add_width (s a) (s b)) (s r)"
  shows "BN_add calloc r a b s =
           (Err, if bn_neg (s a) = bn_neg (s b) then s(r := (s r)\<lparr>bn_neg := bn_neg (s a)\<rparr>) else s)"
  using bn_diff_fails [where s = s, OF assms(1,2)] bn_diff_fails [where s = s, OF assms(2,1)]
    BN_uadd_fails [of calloc s a b r] assms(3)
  by (auto simp: BN_add_def bn_add_width_def)

lemma BN_sub_ok:
  assumes n: "bn_wf (s r)" "bn_normal (s a)" "bn_normal (s b)"
    and room: "bn_grows calloc (bn_sub_width (s a) (s b)) (s r)"
  shows "\<exists>t. BN_sub calloc r a b s = (Ok (), s(r := t)) \<and> bn_minimal t \<and> bn_val t = bn_val (s a) - bn_val (s b)"
proof -
  note wf = n(1) bn_normal_wf [OF n(2)] bn_normal_wf [OF n(3)]
  show ?thesis
  proof (cases "bn_neg (s a) = bn_neg (s b)")
    case True
    then show ?thesis
      using bn_diff_ok [where s = s, OF wf, of calloc] bn_diff_ok [where s = s, OF wf(1,3,2), of calloc] room
      by (cases "bn_neg (s a)") (auto simp: BN_sub_def bn_sub_width_def bn_val_def [of "s a"] bn_val_def [of "s b"])
  next
    case False
    have neg: "bn_neg (s a) \<longrightarrow> bn_abs (s a) + bn_abs (s b) \<noteq> 0" using n(2) by (simp add: bn_normal_def)
    obtain t where t: "BN_uadd calloc r a b s = (Ok (), s(r := t))" "bn_minimal (t\<lparr>bn_neg := bn_neg (s a)\<rparr>)"
      "bn_val (t\<lparr>bn_neg := bn_neg (s a)\<rparr>) = (if bn_neg (s a)
         then - (int (bn_abs (s a)) + int (bn_abs (s b))) else int (bn_abs (s a)) + int (bn_abs (s b)))"
      by (rule bn_uadd_sign [where s = s, OF wf _ neg]) (use room False in \<open>auto simp: bn_sub_width_def\<close>)
    then show ?thesis using False
      by (intro exI [of _ "t\<lparr>bn_neg := bn_neg (s a)\<rparr>"])
        (auto simp: BN_sub_def bn_val_def [of "s a"] bn_val_def [of "s b"] op_then_apply bn_set_sign_apply)
  qed
qed

lemma BN_sub_fails:
  assumes "bn_wf (s a)" and "bn_wf (s b)" and "\<not> bn_grows calloc (bn_sub_width (s a) (s b)) (s r)"
  shows "BN_sub calloc r a b s = (Err, s)"
  using bn_diff_fails [where s = s, OF assms(1,2)] bn_diff_fails [where s = s, OF assms(2,1)]
    BN_uadd_fails [of calloc s a b r] assms(3)
  by (auto simp: BN_sub_def bn_sub_width_def op_then_apply split: if_splits)

end
