(* ===== verification/Bignum_Word.thy ===== *)
theory Bignum_Word
  imports Bignum_Sum
begin

text \<open>Adding a machine word to a big number and subtracting one.\<close>

section \<open>The loops\<close>

lemma add_word_carry:
  "unat (x + w) + 2 ^ 64 * unat (if w > x + w then 1 else 0 :: u64) = unat x + unat (w :: u64)"
proof -
  have "unat (x + w) = (if unat x + unat w < 2 ^ 64 then unat x + unat w else unat x + unat w - 2 ^ 64)"
    using unat_u64 [of x] unat_u64 [of w] by (simp add: unat_plus_if')
  then show ?thesis using unat_u64 [of x] unat_u64 [of w] by (auto simp: word_less_nat_alt)
qed

lemma add_word_loop_eq:
  "\<exists>ys i w'. add_word_loop (pre @ xs @ post) (length pre) (length xs) w = (pre @ ys @ post, i, w') \<and>
     length ys = length xs \<and> (w' \<noteq> 0 \<longrightarrow> i = length pre + length xs) \<and>
     words_val ys + 2 ^ (64 * length xs) * unat w' = words_val xs + unat w"
proof (induction xs arbitrary: pre w)
  case (Cons x xs)
  show ?case
  proof (cases "w = 0")
    case True
    then show ?thesis by (intro exI [of _ "x # xs"] exI [of _ "length pre"] exI [of _ 0]) simp
  next
    case False
    let ?l = "x + w" and ?k = "if w > x + w then 1 else 0 :: u64"
    obtain ys i w' where r: "add_word_loop ((pre @ [?l]) @ xs @ post) (length (pre @ [?l])) (length xs) ?k =
        ((pre @ [?l]) @ ys @ post, i, w')" "length ys = length xs"
      "w' \<noteq> 0 \<longrightarrow> i = length (pre @ [?l]) + length xs"
      "words_val ys + 2 ^ (64 * length xs) * unat w' = words_val xs + unat ?k"
      using Cons [of "pre @ [?l]" ?k] by blast
    have "add_word_loop (pre @ (x # xs) @ post) (length pre) (length (x # xs)) w =
        add_word_loop ((pre @ [?l]) @ xs @ post) (length (pre @ [?l])) (length xs) ?k"
      using False by (simp add: Let_def)
    moreover have "words_val (?l # ys) + 2 ^ (64 * length (x # xs)) * unat w' = words_val (x # xs) + unat w"
    proof -
      have "words_val (?l # ys) + 2 ^ (64 * length (x # xs)) * unat w' =
          unat ?l + 2 ^ 64 * (words_val ys + 2 ^ (64 * length xs) * unat w')"
        by (simp add: power_add algebra_simps)
      also have "\<dots> = (unat ?l + 2 ^ 64 * unat ?k) + 2 ^ 64 * words_val xs"
        unfolding r(4) by (simp add: algebra_simps)
      finally show ?thesis unfolding add_word_carry by simp
    qed
    ultimately show ?thesis using r(1-3)
      by (intro exI [of _ "?l # ys"] exI [of _ i] exI [of _ w']) simp
  qed
qed simp

lemma sub_word_loop_eq:
  assumes "unat w \<le> words_val xs" and "w \<noteq> 0"
  shows "\<exists>ys i. sub_word_loop (pre @ xs @ post) (length pre) w = Some (pre @ ys @ post, i) \<and>
     length ys = length xs \<and> i < length pre + length xs \<and> words_val ys + unat w = words_val xs"
  using assms
proof (induction xs arbitrary: pre w)
  case Nil
  then show ?case by (simp add: unat_eq_0)
next
  case (Cons x xs)
  show ?case
  proof (cases "x \<ge> w")
    case True
    then have "unat (x - w) + unat w = unat x" by (simp add: unat_sub_u64 word_le_nat_alt)
    with True show ?thesis
      by (intro exI [of _ "(x - w) # xs"] exI [of _ "length pre"]) (subst sub_word_loop.simps, simp)
  next
    case False
    let ?l = "x - w"
    have l: "unat ?l + unat w = 2 ^ 64 + unat x"
      using False unat_u64 [of w] by (simp add: unat_sub_u64 word_le_nat_alt)
    have "unat (1 :: u64) \<le> words_val xs"
    proof (rule ccontr)
      assume "\<not> unat (1 :: u64) \<le> words_val xs"
      then show False using Cons.prems(1) False by (simp add: word_le_nat_alt)
    qed
    from Cons.IH [OF this, of "pre @ [?l]"] obtain ys i where
      r: "sub_word_loop ((pre @ [?l]) @ xs @ post) (length (pre @ [?l])) 1 = Some ((pre @ [?l]) @ ys @ post, i)"
        "length ys = length xs" "i < length (pre @ [?l]) + length xs" "words_val ys + unat (1 :: u64) = words_val xs"
      by auto
    have "sub_word_loop (pre @ (x # xs) @ post) (length pre) w =
        sub_word_loop ((pre @ [?l]) @ xs @ post) (length (pre @ [?l])) 1"
      using False by (subst sub_word_loop.simps) simp
    moreover have "words_val (?l # ys) + unat w = words_val (x # xs)"
      using l r(4) by simp
    ultimately show ?thesis using r(1-3) by (intro exI [of _ "?l # ys"] exI [of _ i]) simp
  qed
qed

section \<open>Positive numbers\<close>

lemma bn_d_split: "bn_wf a \<Longrightarrow> bn_d a = [] @ bn_words a @ drop (bn_width a) (bn_d a)"
  by (simp add: bn_words_def)

lemma bn_abs_replace:
  assumes "bn_wf a" and "length ys = bn_width a"
  shows "bn_abs (a\<lparr>bn_d := ys @ drop (bn_width a) (bn_d a)\<rparr>) = words_val ys \<and>
         bn_wf (a\<lparr>bn_d := ys @ drop (bn_width a) (bn_d a)\<rparr>)"
  using assms by (auto simp: bn_abs_def bn_words_def bn_wf_def)

lemma BN_add_word_pos:
  assumes wf: "bn_wf a" and pos: "\<not> bn_neg a" "w \<noteq> 0" "bn_abs a \<noteq> 0" and room: "bn_grows calloc (bn_width a + 1) a"
  shows "\<exists>t. BN_add_word calloc w a = (Ok (), t) \<and> bn_wf t \<and> \<not> bn_neg t \<and> bn_abs t = bn_abs a + unat w"
proof -
  let ?post = "drop (bn_width a) (bn_d a)"
  have len: "length (bn_words a) = bn_width a" using wf by simp
  obtain ys i k where l: "add_word_loop (bn_d a) 0 (bn_width a) w = (ys @ ?post, i, k)"
    "length ys = bn_width a" "k \<noteq> 0 \<longrightarrow> i = bn_width a"
    "words_val ys + 2 ^ (64 * bn_width a) * unat k = bn_abs a + unat w"
    using add_word_loop_eq [of "[]" "bn_words a" ?post w] bn_d_split [OF wf] len by (auto simp: bn_abs_def)
  define u where "u = a\<lparr>bn_d := ys @ ?post\<rparr>"
  have u: "bn_abs u = words_val ys" "bn_wf u" using bn_abs_replace [OF wf l(2)] by (simp_all add: u_def)
  have w: "bn_words u = ys" using l(2) by (simp add: bn_words_def u_def)
  have run: "BN_add_word calloc w a =
      (if k \<noteq> 0 \<and> i = bn_width u
       then op_then (bn_wexpand calloc (bn_width u + 1))
              (\<lambda>a. (Ok (), a\<lparr>bn_width := bn_width a + 1, bn_d := (bn_d a)[i := k]\<rparr>)) u
       else (Ok (), u))"
    using pos wf unfolding BN_add_word.simps [of calloc w a]
    by (simp add: BN_is_zero_iff bn_wf_def l(1) u_def Let_def)
  show ?thesis
  proof (cases "k = 0")
    case True
    with run u l(4) pos(1) show ?thesis by (simp add: u_def)
  next
    case False
    have dm: "bn_dmax u = bn_dmax a" using wf l(2) by (simp add: u_def bn_wf_def)
    then have "bn_grows calloc (bn_width u + 1) u" using room by (simp add: bn_grows_def u_def)
    then obtain t where t: "bn_wexpand calloc (bn_width u + 1) u = (Ok (), t)" "bn_wf t" "bn_width u + 1 \<le> bn_dmax t"
      "bn_words t = bn_words u" "bn_width t = bn_width u" "bn_neg t = bn_neg u"
      using bn_wexpand_ok [OF u(2)] by metis
    define v where "v = t\<lparr>bn_width := bn_width t + 1, bn_d := (bn_d t)[i := k]\<rparr>"
    have i: "i = bn_width t" using l(3) False t(5) by (simp add: u_def)
    have "bn_words v = bn_words t @ [k]"
      using t(3,5) by (simp add: v_def i bn_words_def take_Suc_conv_app_nth)
    then have "bn_abs v = bn_abs a + unat w"
      unfolding bn_abs_def [of v] using t(4) w l(2,4) by (simp add: words_val_append)
    moreover have "bn_wf v" using t(2,3,5) by (simp add: v_def bn_wf_def)
    moreover have "BN_add_word calloc w a = (Ok (), v)"
      using run False i t(1,5) by (simp add: op_then_apply v_def)
    ultimately show ?thesis using pos(1) t(6) by (intro exI [of _ v]) (simp add: v_def u_def)
  qed
qed

lemma BN_sub_word_pos:
  assumes wf: "bn_wf a" and pos: "\<not> bn_neg a" "w \<noteq> 0" "bn_abs a \<noteq> 0"
  shows "\<exists>t. BN_sub_word calloc w a = (Ok (), t) \<and> bn_normal t \<and> bn_val t = int (bn_abs a) - int (unat w)"
proof -
  have len: "length (bn_words a) = bn_width a" using wf by simp
  have m: "bn_minimal_width a \<noteq> 0" using bn_minimal_width_0 [OF wf] pos(3) by simp
  have z: "\<not> BN_is_zero a" using pos(3) by (simp add: BN_is_zero_iff)
  show ?thesis
  proof (cases "bn_minimal_width a = 1 \<and> bn_d a ! 0 < w")
    case True
    then have one: "bn_minimal_width a = Suc 0" and lt: "bn_d a ! 0 < w" by simp_all
    have v: "bn_abs a = unat (bn_d a ! 0)" using bn_top_word(1) [OF wf one] by simp
    have w: "0 < bn_width a" using bn_minimal_width_le [of a] one by simp
    obtain x xs where ws: "bn_words a = x # xs" using len w by (cases "bn_words a") auto
    obtain post where d: "bn_d a = x # xs @ post" using bn_d_split [OF wf] ws by (metis append_Cons append_Nil)
    then have x: "bn_d a ! 0 = x" by simp
    have "words_val (x # xs) = unat x" using v x ws by (simp add: bn_abs_def)
    then have xs: "words_val xs = 0" by simp
    define u where "u = a\<lparr>bn_d := (bn_d a)[0 := w - bn_d a ! 0], bn_neg := True\<rparr>"
    have "bn_width a = Suc (length xs)" using len ws by simp
    then have wu: "bn_words u = (w - x) # xs" by (simp add: bn_words_def u_def d)
    have "bn_abs u = unat w - unat x"
      unfolding bn_abs_def wu using xs lt x by (simp add: unat_sub_u64 word_less_nat_alt)
    moreover have "bn_wf u" using wf by (simp add: bn_wf_def u_def)
    moreover have "BN_sub_word calloc w a = (Ok (), u)"
      using True pos z by (simp add: BN_sub_word.simps [of calloc w a] u_def)
    ultimately show ?thesis using lt v x by (intro exI [of _ u]) (simp add: bn_normal_def bn_val_def u_def word_less_nat_alt)
  next
    case False
    have le: "unat w \<le> words_val (bn_words a)"
    proof (cases "bn_minimal_width a = 1")
      case True
      then show ?thesis using bn_top_word(1) [OF wf, of 0] False by (simp add: bn_abs_def word_le_nat_alt word_less_nat_alt)
    next
      case big: False
      with m obtain k where k: "bn_minimal_width a = Suc (Suc k)" by (metis One_nat_def not0_implies_Suc)
      note v = bn_top_word [OF wf k]
      have "(2 :: nat) ^ 64 * 1 \<le> 2 ^ (64 * Suc k) * unat (bn_d a ! Suc k)"
        using v(3) by (intro mult_le_mono power_increasing) (simp_all add: Suc_leI unat_gt_0)
      then show ?thesis using v(1) unat_u64 [of w] unfolding bn_abs_def by linarith
    qed
    let ?post = "drop (bn_width a) (bn_d a)"
    obtain ys i where l: "sub_word_loop (bn_d a) 0 w = Some (ys @ ?post, i)" "length ys = bn_width a" "i < bn_width a"
      "words_val ys + unat w = bn_abs a"
      using sub_word_loop_eq [OF le pos(2), of "[]" ?post] bn_d_split [OF wf] len by (auto simp: bn_abs_def)
    define u where "u = a\<lparr>bn_d := ys @ ?post\<rparr>"
    have u: "bn_abs u = words_val ys" "bn_wf u" using bn_abs_replace [OF wf l(2)] by (simp_all add: u_def)
    define n where "n = (if ys ! i = 0 \<and> i = bn_width a - 1 then bn_width a - 1 else bn_width a)"
    have top: "(ys @ ?post) ! i = ys ! i" using l(2,3) by (simp add: nth_append)
    have run: "BN_sub_word calloc w a = (Ok (), u\<lparr>bn_width := n\<rparr>)"
      using False pos z l(1,2,3) by (auto simp: BN_sub_word.simps [of calloc w a] u_def Let_def n_def nth_append)
    have n: "n \<le> bn_width a" by (simp add: n_def)
    have "words_val (take n ys) = words_val ys"
    proof (cases "n = bn_width a")
      case False
      then have "ys ! (bn_width a - 1) = 0" "n = bn_width a - 1" by (auto simp: n_def split: if_splits)
      moreover have "ys = take (bn_width a - 1) ys @ [ys ! (bn_width a - 1)]"
        using l(2,3) by (metis Suc_diff_1 append_self_conv2 gr_implies_not0 lessI list.size(3) neq0_conv take_Suc_conv_app_nth take_all_iff order_refl)
      ultimately show ?thesis using words_val_append [of "take n ys" "[0]"] by simp
    qed (simp add: l(2))
    moreover have "bn_words (u\<lparr>bn_width := n\<rparr>) = take n ys" using n l(2) by (simp add: bn_words_def u_def)
    ultimately have "bn_abs (u\<lparr>bn_width := n\<rparr>) = words_val ys" by (simp add: bn_abs_def)
    moreover have "bn_wf (u\<lparr>bn_width := n\<rparr>)" using u(2) n by (simp add: bn_wf_def u_def)
    moreover have "int (words_val ys) = int (bn_abs a) - int (unat w)" using l(4) by linarith
    ultimately show ?thesis using run pos(1)
      by (intro exI [of _ "u\<lparr>bn_width := n\<rparr>"]) (simp add: bn_normal_def bn_val_def u_def)
  qed
qed

section \<open>Signed numbers\<close>

lemma bn_abs_neg [simp]: "bn_abs (a\<lparr>bn_neg := n\<rparr>) = bn_abs a" "bn_wf (a\<lparr>bn_neg := n\<rparr>) = bn_wf a"
  by (simp_all add: bn_abs_def bn_words_def bn_wf_def)

lemma bn_grows_neg [simp]: "bn_grows calloc n (a\<lparr>bn_neg := m\<rparr>) = bn_grows calloc n a"
  by (simp add: bn_grows_def)

lemma bn_grows_one:
  assumes "bn_wf a" and "bn_grows calloc (bn_width a + 1) a"
  shows "bn_grows calloc 1 a"
  using assms by (cases "bn_width a") (auto simp: bn_grows_def bn_wf_def)

lemma bn_zero_val: "bn_abs a = 0 \<Longrightarrow> bn_val a = 0"
  by (simp add: bn_val_def)

lemma BN_add_word_ok:
  assumes n: "bn_normal a" and room: "bn_grows calloc (bn_width a + 1) a"
  shows "\<exists>t. BN_add_word calloc w a = (Ok (), t) \<and> bn_normal t \<and> bn_val t = bn_val a + int (unat w)"
proof -
  note wf = bn_normal_wf [OF n]
  consider "w = 0" | "w \<noteq> 0" "bn_abs a = 0" | "w \<noteq> 0" "bn_abs a \<noteq> 0" "bn_neg a" | "w \<noteq> 0" "bn_abs a \<noteq> 0" "\<not> bn_neg a"
    by blast
  then show ?thesis
  proof cases
    case 1
    with n show ?thesis by (simp add: BN_add_word.simps [of calloc 0 a])
  next
    case 2
    then show ?thesis using BN_set_word.sets [OF n, of w calloc] bn_grows_one [OF wf room]
      by (simp add: BN_add_word.simps [of calloc w a] BN_is_zero_iff bn_zero_val)
  next
    case 3
    let ?p = "a\<lparr>bn_neg := False\<rparr>"
    obtain t where t: "BN_sub_word calloc w ?p = (Ok (), t)" "bn_normal t" "bn_val t = int (bn_abs a) - int (unat w)"
      using BN_sub_word_pos [of ?p w calloc] wf 3 by auto
    define u where "u = (if \<not> BN_is_zero t then t\<lparr>bn_neg := \<not> bn_neg t\<rparr> else t)"
    have "BN_add_word calloc w a = (Ok (), u)"
      using 3 t(1) by (simp add: BN_add_word.simps [of calloc w a] BN_is_zero_iff u_def)
    moreover have "bn_normal u \<and> bn_val u = - bn_val t"
      using t(2) by (auto simp: u_def bn_normal_def bn_val_def BN_is_zero_iff)
    ultimately show ?thesis using t(3) 3 by (intro exI [of _ u]) (simp add: bn_val_def [of a])
  next
    case 4
    obtain t where t: "BN_add_word calloc w a = (Ok (), t)" "bn_wf t" "\<not> bn_neg t" "bn_abs t = bn_abs a + unat w"
      using BN_add_word_pos [OF wf 4(3,1,2) room] by blast
    then show ?thesis using 4 by (intro exI [of _ t]) (simp add: bn_normal_def bn_val_def)
  qed
qed

lemma BN_sub_word_ok:
  assumes n: "bn_normal a" and room: "bn_grows calloc (bn_width a + 1) a"
  shows "\<exists>t. BN_sub_word calloc w a = (Ok (), t) \<and> bn_normal t \<and> bn_val t = bn_val a - int (unat w)"
proof -
  note wf = bn_normal_wf [OF n]
  consider "w = 0" | "w \<noteq> 0" "bn_abs a = 0" | "w \<noteq> 0" "bn_abs a \<noteq> 0" "bn_neg a" | "w \<noteq> 0" "bn_abs a \<noteq> 0" "\<not> bn_neg a"
    by blast
  then show ?thesis
  proof cases
    case 1
    with n show ?thesis by (simp add: BN_sub_word.simps [of calloc 0 a])
  next
    case 2
    obtain t where t: "BN_set_word calloc w a = (Ok (), t)" "bn_normal t" "bn_val t = int (unat w)"
      using BN_set_word.sets [OF n, of w calloc] bn_grows_one [OF wf room] by blast
    have p: "0 < int (unat w)" using 2(1) by (simp only: of_nat_0_less_iff unat_gt_0 not_False_eq_True)
    have a: "int (bn_abs t) = int (unat w)"
    proof (cases "bn_neg t")
      case True
      then have "- int (bn_abs t) = int (unat w)" using t(3) by (simp only: bn_val_def if_True)
      with p show ?thesis by linarith
    next
      case False
      then show ?thesis using t(3) by (simp only: bn_val_def if_False)
    qed
    let ?u = "BN_set_negative True t"
    have "BN_sub_word calloc w a = (Ok (), ?u)"
      using 2 t(1) by (simp add: BN_sub_word.simps [of calloc w a] BN_is_zero_iff op_then_apply)
    moreover have "bn_normal ?u \<and> bn_val ?u = - int (unat w)"
      using BN_set_negative_eq [OF bn_normal_wf [OF t(2)], of True] a by simp
    ultimately show ?thesis using bn_zero_val [OF 2(2)] by (intro exI [of _ ?u]) simp
  next
    case 3
    let ?p = "a\<lparr>bn_neg := False\<rparr>"
    obtain t where t: "BN_add_word calloc w ?p = (Ok (), t)" "bn_wf t" "bn_abs t = bn_abs a + unat w"
      using BN_add_word_pos [of ?p w calloc] wf 3 room by auto
    have "BN_sub_word calloc w a = (Ok (), t\<lparr>bn_neg := True\<rparr>)"
      using 3 t(1) by (simp add: BN_sub_word.simps [of calloc w a] BN_is_zero_iff)
    then show ?thesis using t 3 by (intro exI [of _ "t\<lparr>bn_neg := True\<rparr>"]) (simp add: bn_normal_def bn_val_def)
  next
    case 4
    then show ?thesis using BN_sub_word_pos [OF wf 4(3,1,2), of calloc] by (simp add: bn_val_def [of a])
  qed
qed

end
