(* ===== verification/Bignum_Props.thy ===== *)
theory Bignum_Props
  imports Bignum_Word
begin

text \<open>The properties of the big numbers of crypto/fipsmodule/bn.\<close>

section \<open>Sizes and copies\<close>

text \<open>
  C32. Making room, resizing and copying keep the representation invariant and the number,
  and give room for the words asked for; without room, or when a word in use would be cut
  off, they fail and leave the object as it was.
\<close>

theorem bn_resized:
  assumes "bn_normal bn" and "bn_normal src"
  shows "(if bn_grows calloc words bn
          then \<exists>t. bn_wexpand calloc words bn = (Ok (), t) \<and> bn_normal t \<and> bn_val t = bn_val bn \<and> words \<le> bn_dmax t
          else bn_wexpand calloc words bn = (Err, bn)) \<and>
         (if if bn_width bn \<le> words then bn_grows calloc words bn else bn_abs bn < 2 ^ (64 * words)
          then \<exists>t. bn_resize_words calloc words bn = (Ok (), t) \<and> bn_normal t \<and> bn_val t = bn_val bn \<and> bn_width t = words
          else bn_resize_words calloc words bn = (Err, bn)) \<and>
         (if bn_grows calloc (bn_width src) bn
          then \<exists>t. BN_copy calloc src bn = (Ok (), t) \<and> bn_normal t \<and> bn_val t = bn_val src
          else BN_copy calloc src bn = (Err, bn))"
proof -
  have "\<exists>t. bn_wexpand calloc words bn = (Ok (), t) \<and> bn_normal t \<and> bn_val t = bn_val bn \<and> words \<le> bn_dmax t"
    if "bn_grows calloc words bn"
    using bn_wexpand_ok [OF bn_normal_wf [OF assms(1)] that] bn_wexpand.sets [OF assms(1) _ that] by (metis snd_conv)
  then have wexpand: "if bn_grows calloc words bn
      then \<exists>t. bn_wexpand calloc words bn = (Ok (), t) \<and> bn_normal t \<and> bn_val t = bn_val bn \<and> words \<le> bn_dmax t
      else bn_wexpand calloc words bn = (Err, bn)"
    using bn_wexpand.fails [OF assms(1), of calloc words] by simp
  let ?fits = "if bn_width bn \<le> words then bn_grows calloc words bn else bn_abs bn < 2 ^ (64 * words)"
  have width: "bn_width t = words" if "bn_resize_words calloc words bn = (Ok (), t)" for t
    using that by (auto simp: bn_resize_words_def op_then_apply split: if_splits result.splits prod.splits)
  have resize: "if ?fits
      then \<exists>t. bn_resize_words calloc words bn = (Ok (), t) \<and> bn_normal t \<and> bn_val t = bn_val bn \<and> bn_width t = words
      else bn_resize_words calloc words bn = (Err, bn)"
  proof (cases ?fits)
    case True
    from bn_resize_words.sets [OF assms(1) TrueI this] width show ?thesis unfolding if_P [OF True] by blast
  next
    case False
    from bn_resize_words.fails [OF assms(1) this] show ?thesis unfolding if_not_P [OF False] .
  qed
  have "if bn_grows calloc (bn_width src) bn
      then \<exists>t. BN_copy calloc src bn = (Ok (), t) \<and> bn_normal t \<and> bn_val t = bn_val src
      else BN_copy calloc src bn = (Err, bn)"
    using BN_copy.sets [OF assms(1) assms(2), of calloc] BN_copy.fails [OF assms(1), of calloc src] by simp
  with wexpand resize show ?thesis by blast
qed

definition bn_sample :: "bool \<Rightarrow> BN_ULONG list \<Rightarrow> bignum" where
  "bn_sample neg ws = \<lparr>bn_d = ws, bn_width = length ws, bn_neg = neg, bn_flags = BN_FLG_MALLOCED\<rparr>"

lemma bn_sample_words [simp]: "bn_words (bn_sample neg ws) = ws" "bn_neg (bn_sample neg ws) = neg"
  "bn_abs (bn_sample neg ws) = words_val ws" "bn_width (bn_sample neg ws) = length ws"
  "bn_dmax (bn_sample neg ws) = length ws"
  by (simp_all add: bn_sample_def bn_words_def bn_abs_def)

lemma bn_sample_val [simp]: "bn_val (bn_sample neg ws) = (if neg then - int (words_val ws) else int (words_val ws))"
  by (simp add: bn_val_def)

lemma bn_sample_normal:
  "length ws \<le> BN_MAX_WORDS \<Longrightarrow> (neg \<Longrightarrow> words_val ws \<noteq> 0) \<Longrightarrow> bn_normal (bn_sample neg ws)"
  by (simp add: bn_normal_def bn_wf_def)

theorem bn_resized_witness:
  "\<exists>t. BN_copy (\<lambda>_. True) (bn_sample True [7, 1]) (bn_sample False []) = (Ok (), t) \<and>
       bn_val t = - (7 + 2 ^ 64)"
proof -
  have n: "bn_normal (bn_sample False [])" "bn_normal (bn_sample True [7, 1])"
    by (simp_all add: bn_sample_normal BN_MAX_WORDS_def INT_MAX_def)
  have g: "bn_grows (\<lambda>_. True) (Suc (Suc 0)) (bn_sample False [])"
    by (simp add: bn_grows_def BN_MAX_WORDS_def INT_MAX_def bn_sample_def BN_FLG_MALLOCED_def BN_FLG_STATIC_DATA_def)
  show ?thesis using bn_resized [OF n, of "\<lambda>_. True" 0] g by auto
qed

section \<open>Bits and bytes\<close>

text \<open>
  C34. The number of bits is the least power of two above the magnitude, and the number of
  bytes the least power of 256, found without a branch on the words; the \<open>int\<close> product of the
  code does not overflow, nor do its unsigned sums wrap.
\<close>

theorem bn_bits_counted:
  assumes "bn_wf bn"
  shows "(BN_num_bits bn \<le> k \<longleftrightarrow> bn_abs bn < 2 ^ k) \<and> (BN_num_bytes bn \<le> k \<longleftrightarrow> bn_abs bn < 256 ^ k) \<and>
    (bn_minimal_width bn - 1) * 64 \<le> INT_MAX \<and> BN_num_bits bn + 7 < 2 ^ 32"
  using BN_num_bits_le [OF assms] BN_num_bytes_le [OF assms] bn_bits_bounded(1) [OF assms] BN_num_bits_bounded [OF assms] by simp

theorem bn_bits_counted_witness:
  "BN_num_bits (bn_sample True [7, 4, 0]) \<le> 67 \<and> \<not> BN_num_bits (bn_sample True [7, 4, 0]) \<le> 66"
proof -
  have "bn_wf (bn_sample True [7, 4, 0])" by (simp add: bn_wf_def BN_MAX_WORDS_def INT_MAX_def)
  from bn_bits_counted [OF this, of 67] bn_bits_counted [OF this, of 66] show ?thesis by simp
qed

text \<open>
  C27. A number is written into any length that can hold its magnitude, in either byte order,
  and what is written is read back as that magnitude, into a new object or one that is not
  negative; a length that is too short is refused.
\<close>

theorem bn_bytes_roundtrip:
  assumes "bn_wf bn" and "pred_option bn_normal ret" and "\<not> bn_neg (bn_target ret)"
    and "ret = None \<longrightarrow> struct_ok" and "bn_grows calloc ((n + 7) div 8) (bn_target ret)"
  shows "BN_bn2bin bn = BN_bn2bin_padded (BN_num_bytes bn) bn \<and>
         (if bn_abs bn < 256 ^ n
          then \<exists>bs. length bs = n \<and> BN_bn2bin_padded n bn = Ok bs \<and> BN_bn2le_padded n bn = Ok (rev bs) \<and>
            (\<exists>t. BN_bin2bn struct_ok calloc bs ret = (Ok t, map_option (\<lambda>_. t) ret) \<and>
                 bn_normal t \<and> bn_val t = int (bn_abs bn)) \<and>
            (\<exists>t. BN_lebin2bn struct_ok calloc (rev bs) ret = (Ok t, map_option (\<lambda>_. t) ret) \<and>
                 bn_normal t \<and> bn_val t = int (bn_abs bn))
          else BN_bn2bin_padded n bn = Err \<and> BN_bn2le_padded n bn = Err)"
proof -
  have "\<exists>bs. length bs = n \<and> BN_bn2bin_padded n bn = Ok bs \<and> BN_bn2le_padded n bn = Ok (rev bs) \<and>
      (\<exists>t. BN_bin2bn struct_ok calloc bs ret = (Ok t, map_option (\<lambda>_. t) ret) \<and>
           bn_normal t \<and> bn_val t = int (bn_abs bn)) \<and>
      (\<exists>t. BN_lebin2bn struct_ok calloc (rev bs) ret = (Ok t, map_option (\<lambda>_. t) ret) \<and>
           bn_normal t \<and> bn_val t = int (bn_abs bn))" if fit: "bn_abs bn < 256 ^ n"
  proof -
    define bs where "bs = be_bytes n (bn_abs bn)"
    have v: "be_val bs = bn_abs bn" "length bs = n" using be_val_be_bytes_exact [OF fit] by (simp_all add: bs_def)
    have room: "bs = [] \<or> bn_grows calloc (bytes_width bs) (bn_target ret)"
      using assms(5) bytes_width_eq [of bs] v(2) by (cases "bs = []") simp_all
    then have room': "rev bs = [] \<or> bn_grows calloc (bytes_width (rev bs)) (bn_target ret)" by simp
    show ?thesis
      using bin2bn.bn_read_ok [OF assms(2) _ room assms(4)] lebin2bn.bn_read_ok [OF assms(2) _ room' assms(4)] fit assms(3) v
      by (intro exI [of _ bs])
        (simp add: BN_bn2bin_padded_eq BN_bn2le_padded_eq bs_def [symmetric] BN_bin2bn_def BN_lebin2bn_def)
  qed
  moreover have "BN_bn2bin bn = BN_bn2bin_padded (BN_num_bytes bn) bn"
    using BN_num_bytes_le [OF assms(1), of "BN_num_bytes bn"] by (simp add: BN_bn2bin_eq [OF assms(1)] BN_bn2bin_padded_eq)
  ultimately show ?thesis by (simp add: BN_bn2bin_padded_eq BN_bn2le_padded_eq)
qed

theorem bn_bytes_roundtrip_witness:
  "\<exists>bs t. BN_bn2bin_padded 10 (bn_sample True [7, 1]) = Ok bs \<and>
     BN_bin2bn True (\<lambda>_. True) bs (Some (bn_sample False [3])) = (Ok t, Some t) \<and> bn_val t = 7 + 2 ^ 64"
proof -
  have g: "bn_grows (\<lambda>_. True) ((10 + 7) div 8) (bn_target (Some (bn_sample False [3])))"
    by (simp add: bn_grows_def bn_target_def BN_MAX_WORDS_def INT_MAX_def bn_sample_def BN_FLG_MALLOCED_def BN_FLG_STATIC_DATA_def)
  have n: "bn_wf (bn_sample True [7, 1])" "bn_normal (bn_sample False [3])"
    by (simp_all add: bn_sample_normal bn_wf_def BN_MAX_WORDS_def INT_MAX_def)
  show ?thesis
    using bn_bytes_roundtrip [OF n(1), of "Some (bn_sample False [3])" True "\<lambda>_. True" 10] g n(2)
    by (auto simp: bn_target_def)
qed

section \<open>Comparison\<close>

text \<open>
  C17. The comparisons, which do not branch on the words, agree with those of the numbers.
\<close>

theorem bn_compared:
  assumes "bn_normal a" and "bn_normal b"
  shows "sint (BN_cmp (Some a) (Some b)) = sgn (bn_val a - bn_val b) \<and>
         sint (BN_ucmp a b) = sgn (int (bn_abs a) - int (bn_abs b)) \<and>
         (BN_equal_consttime a b \<longleftrightarrow> bn_val a = bn_val b) \<and>
         sint (BN_cmp_word (Some a) w) = sgn (bn_val a - int (unat w)) \<and>
         (BN_is_zero a \<longleftrightarrow> bn_val a = 0) \<and> (BN_is_one a \<longleftrightarrow> bn_val a = 1) \<and>
         (BN_is_odd a \<longleftrightarrow> odd (bn_val a)) \<and> (BN_is_pow2 a \<longleftrightarrow> (\<exists>k. bn_val a = 2 ^ k))"
proof -
  note wf = bn_normal_wf [OF assms(1)] bn_normal_wf [OF assms(2)]
  have "BN_equal_consttime a b \<longleftrightarrow> bn_val a = bn_val b"
    unfolding BN_equal_consttime_iff [OF wf] using assms by (auto simp: bn_val_def bn_normal_def)
  moreover have "BN_is_one a \<longleftrightarrow> bn_val a = 1"
    by (auto simp: BN_is_one_def BN_abs_is_word_iff bn_val_def)
  moreover have "BN_is_pow2 a \<longleftrightarrow> (\<exists>k. bn_val a = 2 ^ k)"
  proof (cases "bn_neg a")
    case True
    then have "bn_val a < 2 ^ k" for k by (simp add: bn_val_def less_le_trans [of _ 1])
    then have "bn_val a \<noteq> 2 ^ k" for k by (metis less_irrefl)
    with True show ?thesis by (simp add: BN_is_pow2_iff [OF wf(1)])
  next
    case False
    have "int (bn_abs a) = 2 ^ k \<longleftrightarrow> bn_abs a = 2 ^ k" for k
      by (metis of_nat_eq_iff of_nat_numeral of_nat_power)
    with False show ?thesis by (simp add: BN_is_pow2_iff [OF wf(1)] bn_val_def)
  qed
  ultimately show ?thesis
    using assms by (auto simp: BN_cmp_eq BN_ucmp_eq BN_cmp_word_eq BN_is_zero_iff BN_is_odd_iff [OF wf(1)] bn_val_def)
qed

theorem bn_compared_witness:
  "sint (BN_cmp (Some (bn_sample True [7, 1])) (Some (bn_sample True [8, 0]))) = - 1 \<and>
   BN_equal_consttime (bn_sample True [8]) (bn_sample True [8, 0]) \<and> BN_is_pow2 (bn_sample False [0, 4])"
proof -
  have n: "bn_normal (bn_sample True [7, 1])" "bn_normal (bn_sample True [8, 0])" "bn_normal (bn_sample True [8])"
    "bn_normal (bn_sample False [0, 4])"
    by (simp_all add: bn_sample_normal BN_MAX_WORDS_def INT_MAX_def)
  have "bn_val (bn_sample False [0, 4]) = 2 ^ 66" by simp
  then have p: "\<exists>k. bn_val (bn_sample False [0, 4]) = 2 ^ k" by blast
  show ?thesis
    using bn_compared [OF n(1,2), of 0] bn_compared [OF n(3,2), of 0] bn_compared [OF n(4,4), of 0] p by simp
qed

end
