(* ===== verification/Asn1_Bn.thy ===== *)
theory Asn1_Bn
  imports Asn1_Int_Order Bignum_Props
begin

text \<open>
  The end of crypto/asn1/a_int.c: INTEGER and ENUMERATED values from and to big numbers.
\<close>

text \<open>
  The state is the object that \<open>ai\<close> points to; its type is written before there is memory
  for its contents. \<open>ASN1_STRING_set\<close> with a null source only makes room, and
  \<open>BN_bn2bin_padded\<close> then writes the contents.
\<close>

definition bn_store_contents :: "allocator \<Rightarrow> bignum \<Rightarrow> (asn1_string, unit) op" where
  "bn_store_contents mem bn =
     (let len = BN_num_bytes bn in
      op_then (ASN1_STRING_set mem None (int len))
        (\<lambda>ret. case BN_bn2bin_padded len bn of
           Ok bs \<Rightarrow>
             (case OPENSSL_memcpy (as_bytes ret) 0 bs len of
                None \<Rightarrow> (Abort, ret)
              | Some block \<Rightarrow> (Ok (), ret\<lparr>as_data := Some block\<rparr>))
         | Err \<Rightarrow> (Err, ret)
         | Abort \<Rightarrow> (Abort, ret)))"

definition bn_to_asn1_string ::
    "bool \<Rightarrow> allocator \<Rightarrow> bignum \<Rightarrow> int \<Rightarrow> (asn1_string option, asn1_string) op" where
  "bn_to_asn1_string struct_ok mem bn type ai =
     (case (if ai = None then ASN1_STRING_type_new struct_ok type else ai) of
        None \<Rightarrow> (Err, ai)
      | Some ret \<Rightarrow>
          (let ret = ret\<lparr>as_type := (if bn_neg bn \<and> \<not> BN_is_zero bn then type OR V_ASN1_NEG else type)\<rparr> in
           case bn_store_contents mem bn ret of
             (Ok _, ret) \<Rightarrow> (Ok ret, if ai = None then None else Some ret)
           | (Err, ret) \<Rightarrow> (Err, if ai = None then None else Some ret)
           | (Abort, ret) \<Rightarrow> (Abort, if ai = None then None else Some ret)))"

definition BN_to_ASN1_INTEGER ::
    "bool \<Rightarrow> allocator \<Rightarrow> bignum \<Rightarrow> (asn1_string option, asn1_string) op" where
  "BN_to_ASN1_INTEGER struct_ok mem bn = bn_to_asn1_string struct_ok mem bn V_ASN1_INTEGER"

definition BN_to_ASN1_ENUMERATED ::
    "bool \<Rightarrow> allocator \<Rightarrow> bignum \<Rightarrow> (asn1_string option, asn1_string) op" where
  "BN_to_ASN1_ENUMERATED struct_ok mem bn = bn_to_asn1_string struct_ok mem bn V_ASN1_ENUMERATED"

definition asn1_string_to_bn ::
    "bool \<Rightarrow> (nat \<Rightarrow> bool) \<Rightarrow> asn1_string \<Rightarrow> int \<Rightarrow> (bignum option, bignum) op" where
  "asn1_string_to_bn struct_ok calloc ai type bn =
     (if as_type ai AND NOT V_ASN1_NEG \<noteq> type then (Err, bn)
      else if length (as_bytes ai) < as_length ai then (Abort, bn)
      else
        (case BN_bin2bn struct_ok calloc (take (as_length ai) (as_bytes ai)) bn of
           (Ok ret, bn) \<Rightarrow>
             (let ret = (if as_type ai AND V_ASN1_NEG \<noteq> 0 then BN_set_negative True ret else ret)
              in (Ok ret, map_option (\<lambda>_. ret) bn))
         | failed \<Rightarrow> failed))"

definition ASN1_INTEGER_to_BN ::
    "bool \<Rightarrow> (nat \<Rightarrow> bool) \<Rightarrow> asn1_string \<Rightarrow> (bignum option, bignum) op" where
  "ASN1_INTEGER_to_BN struct_ok calloc ai = asn1_string_to_bn struct_ok calloc ai V_ASN1_INTEGER"

definition ASN1_ENUMERATED_to_BN ::
    "bool \<Rightarrow> (nat \<Rightarrow> bool) \<Rightarrow> asn1_string \<Rightarrow> (bignum option, bignum) op" where
  "ASN1_ENUMERATED_to_BN struct_ok calloc ai = asn1_string_to_bn struct_ok calloc ai V_ASN1_ENUMERATED"

section \<open>From a big number\<close>

lemma ASN1_STRING_set_null:
  assumes mem: "alloc_ok mem" and wf: "asn1_string_wf str" and n: "n \<le> ASN1_STRING_MAX" "mem (n + 1) \<noteq> None"
  obtains t where "ASN1_STRING_set mem None (int n) str = (Ok (), t)" "as_length t = n" "n < length (as_bytes t)"
    "as_type t = as_type str"
proof -
  define blk where "blk = (if as_length str \<le> n \<or> as_data str = None
                   then (case as_data str of None \<Rightarrow> mem (n + 1) | Some c \<Rightarrow> OPENSSL_realloc mem c (n + 1))
                   else as_data str)"
  have "blk \<noteq> None"
    using n(2) by (auto simp: blk_def OPENSSL_realloc_def split: option.split)
  then obtain block where b: "blk = Some block" by blast
  have len: "n < length block"
    using b mem wf unfolding blk_def
    by (auto simp: asn1_string_wf_def as_bytes_def dest: alloc_okD length_OPENSSL_realloc split: if_splits option.splits)
  have "ASN1_STRING_set mem None (int n) str = (Ok (), str\<lparr>as_data := Some block, as_length := n\<rparr>)"
    using n(1) b by (simp add: ASN1_STRING_set_def asn1_set_len_def blk_def [symmetric] Let_def)
  then show thesis by (rule that) (use len in \<open>simp_all add: as_bytes_def\<close>)
qed

lemma bn_store_contents_ok:
  assumes mem: "alloc_ok mem" and wf: "asn1_string_wf str" and bn: "bn_wf bn"
    and room: "BN_num_bytes bn \<le> ASN1_STRING_MAX" "mem (BN_num_bytes bn + 1) \<noteq> None"
  obtains t where "bn_store_contents mem bn str = (Ok (), t)" "asn1_string_wf t" "as_type t = as_type str"
    "as_contents t = be_bytes (BN_num_bytes bn) (bn_abs bn)"
proof -
  let ?n = "BN_num_bytes bn" and ?bs = "be_bytes (BN_num_bytes bn) (bn_abs bn)"
  obtain t where t: "ASN1_STRING_set mem None (int ?n) str = (Ok (), t)" "as_length t = ?n" "?n < length (as_bytes t)"
    "as_type t = as_type str" by (rule ASN1_STRING_set_null [OF mem wf room])
  have p: "BN_bn2bin_padded ?n bn = Ok ?bs"
    using BN_num_bytes_le [OF bn, of ?n] by (simp add: BN_bn2bin_padded_eq)
  have cp: "OPENSSL_memcpy (as_bytes t) 0 ?bs ?n = Some (?bs @ drop ?n (as_bytes t))"
    using t(3) by (simp add: OPENSSL_memcpy_def del: be_bytes.simps(2))
  let ?t = "t\<lparr>as_data := Some (?bs @ drop ?n (as_bytes t))\<rparr>"
  have "bn_store_contents mem bn str = (Ok (), ?t)"
    by (simp add: bn_store_contents_def Let_def op_then_apply t(1) p cp del: be_bytes.simps)
  then show thesis
    by (rule that) (use t in \<open>simp_all add: asn1_string_wf_def as_contents_def as_bytes_def del: be_bytes.simps\<close>)
qed

lemma be_bytes_hd:
  assumes "0 < n" and "256 ^ (n - 1) \<le> v" and "v < 256 ^ n"
  shows "hd (be_bytes n v) \<noteq> 0"
proof
  assume z: "hd (be_bytes n v) = 0"
  obtain b bs where b: "be_bytes n v = b # bs" "length bs = n - 1"
    using assms(1) length_be_bytes [of n v] by (cases "be_bytes n v") auto
  have "v = be_val (b # bs)" using be_val_be_bytes_exact [OF assms(3)] b(1) by simp
  also have "\<dots> = be_val bs" using z b(1) by simp
  also have "\<dots> < 256 ^ (n - 1)" using be_val_less [of bs] b(2) by simp
  finally show False using assms(2) by simp
qed

lemma bn_bytes_minimal:
  assumes "bn_wf bn"
  shows "be_bytes (BN_num_bytes bn) (bn_abs bn) = [] \<or> hd (be_bytes (BN_num_bytes bn) (bn_abs bn)) \<noteq> 0"
    and "be_bytes (BN_num_bytes bn) (bn_abs bn) = [] \<longleftrightarrow> bn_abs bn = 0"
    and "be_val (be_bytes (BN_num_bytes bn) (bn_abs bn)) = bn_abs bn"
proof -
  let ?n = "BN_num_bytes bn"
  have lt: "bn_abs bn < 256 ^ ?n" using BN_num_bytes_le [OF assms, of ?n] by simp
  have z: "?n = 0 \<longleftrightarrow> bn_abs bn = 0" using BN_num_bytes_le [OF assms, of 0] by simp
  have "256 ^ (?n - 1) \<le> bn_abs bn" if "0 < ?n"
  proof -
    have "\<not> ?n \<le> ?n - 1" using that by linarith
    then show ?thesis unfolding BN_num_bytes_le [OF assms, of "?n - 1"] by simp
  qed
  with be_bytes_hd [OF _ _ lt] show "be_bytes ?n (bn_abs bn) = [] \<or> hd (be_bytes ?n (bn_abs bn)) \<noteq> 0"
    by (cases "?n = 0") simp_all
  show "be_bytes ?n (bn_abs bn) = [] \<longleftrightarrow> bn_abs bn = 0"
    using z length_be_bytes [of ?n "bn_abs bn"] by (metis length_0_conv)
  show "be_val (be_bytes ?n (bn_abs bn)) = bn_abs bn" by (rule be_val_be_bytes_exact [OF lt])
qed

lemma bn_to_asn1_ok:
  assumes mem: "alloc_ok mem" "int_memory struct_ok mem (BN_num_bytes bn)" and bn: "bn_wf bn"
    and ai: "pred_option asn1_string_wf ai" and base: "asn1_base base"
  shows "\<exists>t. bn_to_asn1_string struct_ok mem bn base ai = (Ok t, map_option (\<lambda>_. t) ai) \<and>
           asn1_typed base t \<and> asn1_int_val t = bn_val bn \<and> length (as_contents t) = BN_num_bytes bn"
proof -
  have room: "BN_num_bytes bn \<le> ASN1_STRING_MAX" "mem (BN_num_bytes bn + 1) \<noteq> None" "struct_ok"
    using mem(2) by (auto simp: int_memory_def list_all_iff)
  define s where "s = (case ai of None \<Rightarrow> \<lparr>as_length = 0, as_type = base, as_data = None, as_flags = 0\<rparr> | Some s \<Rightarrow> s)"
  have new: "(if ai = None then ASN1_STRING_type_new struct_ok base else ai) = Some s"
    using room(3) by (cases ai) (simp_all add: s_def ASN1_STRING_type_new_def)
  have wf: "asn1_string_wf s" using ai by (cases ai) (simp_all add: s_def asn1_string_wf_def)
  let ?neg = "bn_neg bn \<and> \<not> BN_is_zero bn"
  let ?type = "if ?neg then base OR V_ASN1_NEG else base"
  obtain t where t: "bn_store_contents mem bn (s\<lparr>as_type := ?type\<rparr>) = (Ok (), t)" "asn1_string_wf t" "as_type t = ?type"
    "as_contents t = be_bytes (BN_num_bytes bn) (bn_abs bn)"
    by (rule bn_store_contents_ok [OF mem(1) _ bn room(1,2), of "s\<lparr>as_type := ?type\<rparr>"]) (use wf in simp_all)
  have neg: "asn1_negative t \<longleftrightarrow> ?neg"
    using asn1_base_bits [OF base] by (simp add: asn1_negative_def t(3))
  note m = bn_bytes_minimal [OF bn]
  have "asn1_typed base t"
    unfolding asn1_typed_def neg t(4) using t(2,3) m(1,2) by (simp add: BN_is_zero_iff)
  moreover have "asn1_int_val t = bn_val bn"
    unfolding asn1_int_val_def neg t(4) m(3) by (auto simp: bn_val_def BN_is_zero_iff)
  moreover have "bn_to_asn1_string struct_ok mem bn base ai = (Ok t, map_option (\<lambda>_. t) ai)"
    unfolding bn_to_asn1_string_def new using t(1) by (cases ai) (simp_all add: Let_def)
  moreover have "length (as_contents t) = BN_num_bytes bn" unfolding t(4) by (rule length_be_bytes)
  ultimately show ?thesis by blast
qed

section \<open>To a big number\<close>

lemma asn1_to_bn_ok:
  assumes s: "asn1_typed base s" and base: "asn1_base base" and bn: "pred_option bn_normal ret"
    and zero: "asn1_int_val s = 0 \<longrightarrow> \<not> bn_neg (bn_target ret)"
    and room: "ret = None \<longrightarrow> struct_ok" "as_contents s = [] \<or> bn_grows calloc (bytes_width (as_contents s)) (bn_target ret)"
  shows "\<exists>t. asn1_string_to_bn struct_ok calloc s base ret = (Ok t, map_option (\<lambda>_. t) ret) \<and>
           bn_normal t \<and> bn_val t = asn1_int_val s"
proof -
  let ?c = "as_contents s"
  have bits: "as_type s AND NOT V_ASN1_NEG = base" using s asn1_base_bits [OF base] by (auto simp: asn1_typed_def)
  have wf: "as_length s \<le> length (as_bytes s)" using asn1_typed_wf [OF s] by (simp add: asn1_string_wf_def)
  have "?c = [] \<longrightarrow> \<not> bn_neg (bn_target ret)" using zero by (auto simp: asn1_int_val_def)
  with bin2bn.bn_read_ok [of ret ?c calloc struct_ok] bn room obtain t where
    t: "bn_read struct_ok (bin2bn_into calloc ?c) ret = (Ok t, map_option (\<lambda>_. t) ret)" "bn_normal t"
      "bn_val t = int (be_val ?c)" by blast
  have a: "bn_abs t = be_val ?c" using t(3) by (auto simp: bn_val_def split: if_splits)
  let ?u = "if asn1_negative s then BN_set_negative True t else t"
  have "asn1_string_to_bn struct_ok calloc s base ret = (Ok ?u, map_option (\<lambda>_. ?u) ret)"
    using bits wf by (simp add: asn1_string_to_bn_def as_contents_take BN_bin2bn_def t(1) Let_def
        asn1_negative_def [symmetric] map_option_case split: option.split)
  moreover have "bn_normal ?u \<and> bn_val ?u = asn1_int_val s"
    using BN_set_negative_eq [OF bn_normal_wf [OF t(2)], of True] t(2,3) a by (simp add: asn1_int_val_def)
  ultimately show ?thesis by blast
qed

section \<open>Property\<close>

text \<open>
  C13. A big number becomes a well-typed INTEGER of that number, zero never being negative,
  and the INTEGER becomes that big number again, in a new object or a given one; a negative
  object given for the number zero is excluded, since \<open>BN_bin2bn\<close> would keep its sign.
\<close>

theorem integer_bn_conversion:
  assumes "alloc_ok mem" and "int_memory struct_ok mem (BN_num_bytes bn)" and "bn_wf bn"
    and "pred_option asn1_string_wf ai" and "pred_option bn_normal ret" and "bn_val bn = 0 \<longrightarrow> \<not> bn_neg (bn_target ret)"
    and "bn_grows calloc ((BN_num_bytes bn + 7) div 8) (bn_target ret)" 
  shows "\<exists>s. BN_to_ASN1_INTEGER struct_ok mem bn ai = (Ok s, map_option (\<lambda>_. s) ai) \<and>
           asn1_typed V_ASN1_INTEGER s \<and> asn1_int_val s = bn_val bn \<and>
           (\<exists>t. ASN1_INTEGER_to_BN struct_ok calloc s ret = (Ok t, map_option (\<lambda>_. t) ret) \<and>
                bn_normal t \<and> bn_val t = bn_val bn)"
proof -
  obtain s where s: "bn_to_asn1_string struct_ok mem bn V_ASN1_INTEGER ai = (Ok s, map_option (\<lambda>_. s) ai)"
    "asn1_typed V_ASN1_INTEGER s" "asn1_int_val s = bn_val bn" "length (as_contents s) = BN_num_bytes bn"
    using bn_to_asn1_ok [OF assms(1-4) asn1_base_intros(1)] by blast
  have "struct_ok" using assms(2) by (simp add: int_memory_def)
  moreover have "as_contents s = [] \<or> bn_grows calloc (bytes_width (as_contents s)) (bn_target ret)"
    using assms(7) bytes_width_eq [of "as_contents s"] s(4) by (cases "as_contents s = []") simp_all
  ultimately have "\<exists>t. asn1_string_to_bn struct_ok calloc s V_ASN1_INTEGER ret = (Ok t, map_option (\<lambda>_. t) ret) \<and>
      bn_normal t \<and> bn_val t = asn1_int_val s"
    using assms(6) s(3) by (intro asn1_to_bn_ok [OF s(2) asn1_base_intros(1) assms(5)]) simp_all
  with s show ?thesis by (auto simp: BN_to_ASN1_INTEGER_def ASN1_INTEGER_to_BN_def)
qed

theorem integer_bn_conversion_witness:
  "\<exists>s. BN_to_ASN1_INTEGER True plain_memory (bn_sample True [129, 0]) None = (Ok s, None) \<and>
       asn1_int_val s = - 129 \<and>
       (\<exists>t. ASN1_INTEGER_to_BN True (\<lambda>_. True) s None = (Ok t, None) \<and> bn_val t = - 129)"
proof -
  let ?bn = "bn_sample True [129, 0]"
  have wf: "bn_wf ?bn" by (simp add: bn_wf_def BN_MAX_WORDS_def INT_MAX_def)
  have n: "BN_num_bytes ?bn \<le> 1" unfolding BN_num_bytes_le [OF wf] by simp
  then have m: "int_memory True plain_memory (BN_num_bytes ?bn)"
    by (intro plain_memory_ok) (simp add: ASN1_STRING_MAX_def)
  have "(BN_num_bytes ?bn + 7) div 8 \<le> 1" using n by simp
  then have g: "bn_grows (\<lambda>_. True) ((BN_num_bytes ?bn + 7) div 8) (bn_target None)"
    by (simp add: bn_grows_def BN_MAX_WORDS_def INT_MAX_def bn_target_def bn_fresh_def BN_init_def
        BN_FLG_MALLOCED_def BN_FLG_STATIC_DATA_def)
  show ?thesis
    using integer_bn_conversion [OF plain_memory_ok(1) m wf, of None None "\<lambda>_. True"] g by auto
qed

text \<open>
  A failed allocation is not clean: the sign of a reused object is already that of the number
  that was not stored, so that a 5 has become a -5.
\<close>

theorem integer_bn_failed:
  "\<exists>t. BN_to_ASN1_INTEGER True (\<lambda>_. None) (bn_sample True [1])
         (Some \<lparr>as_length = 1, as_type = 2, as_data = Some [5], as_flags = 0\<rparr>) = (Err, Some t) \<and>
       asn1_int_val \<lparr>as_length = 1, as_type = 2, as_data = Some [5], as_flags = 0\<rparr> = 5 \<and> asn1_int_val t = - 5"
proof -
  let ?bn = "bn_sample True [1]"
  have wf: "bn_wf ?bn" by (simp add: bn_wf_def BN_MAX_WORDS_def INT_MAX_def)
  have "BN_num_bytes ?bn \<le> 1" "\<not> BN_num_bytes ?bn \<le> 0" unfolding BN_num_bytes_le [OF wf] by simp_all
  then have n: "BN_num_bytes ?bn = 1" by linarith
  show ?thesis
    by (simp add: BN_to_ASN1_INTEGER_def bn_to_asn1_string_def bn_store_contents_def n Let_def op_then_apply
        ASN1_STRING_set_def asn1_set_len_def ASN1_STRING_MAX_def OPENSSL_realloc_def BN_is_zero_iff
        asn1_int_val_def asn1_negative_def asn1_constants as_contents_def as_bytes_def)
qed

end
