(* ===== verification/Bignum_Signed.thy ===== *)
theory Bignum_Signed
  imports Bignum_Props
begin

text \<open>The properties of the signed arithmetic of add.c, and what is left of old signs.\<close>

section \<open>Sums and differences\<close>

text \<open>
  C5. \<open>BN_add\<close> and \<open>BN_sub\<close> give their result the sum and the difference of the two numbers,
  in its shortest form, whichever of the three objects are the same, and change no other
  object; they fail exactly when the result has no room, and then no other object changes
  either.
\<close>

theorem bn_add_sub:
  assumes "bn_wf (s r)" and "bn_normal (s a)" and "bn_normal (s b)"
  shows "(if bn_grows calloc (bn_add_width (s a) (s b)) (s r)
          then \<exists>t. BN_add calloc r a b s = (Ok (), s(r := t)) \<and> bn_minimal t \<and> bn_val t = bn_val (s a) + bn_val (s b)
          else \<exists>t. BN_add calloc r a b s = (Err, s(r := t)) \<and> bn_abs t = bn_abs (s r)) \<and>
         (if bn_grows calloc (bn_sub_width (s a) (s b)) (s r)
          then \<exists>t. BN_sub calloc r a b s = (Ok (), s(r := t)) \<and> bn_minimal t \<and> bn_val t = bn_val (s a) - bn_val (s b)
          else BN_sub calloc r a b s = (Err, s))"
proof -
  note wf = bn_normal_wf [OF assms(2)] bn_normal_wf [OF assms(3)]
  have "\<exists>t. BN_add calloc r a b s = (Err, s(r := t)) \<and> bn_abs t = bn_abs (s r)"
    if "\<not> bn_grows calloc (bn_add_width (s a) (s b)) (s r)"
    unfolding BN_add_fails [where s = s, OF wf that]
    by (cases "bn_neg (s a) = bn_neg (s b)")
      (auto intro: exI [of _ "s r"] exI [of _ "(s r)\<lparr>bn_neg := bn_neg (s a)\<rparr>"])
  then show ?thesis
    using BN_add_ok [where s = s, OF assms, of calloc] BN_sub_ok [where s = s, OF assms, of calloc]
      BN_sub_fails [where s = s, OF wf, of calloc r] by simp
qed

theorem bn_add_sub_witness:
  "\<exists>t. BN_sub (\<lambda>_. True) 0 0 1 (\<lambda>i. if i = 0 then bn_sample False [5, 1] else bn_sample True [7, 1]) =
         (Ok (), \<lambda>i. if i = 0 then t else bn_sample True [7, 1]) \<and> bn_val t = 12 + 2 ^ 65"
proof -
  let ?s = "\<lambda>i :: nat. if i = 0 then bn_sample False [5, 1] else bn_sample True [7, 1]"
  have n: "bn_wf (?s 0)" "bn_normal (?s 0)" "bn_normal (?s 1)"
    by (simp_all add: bn_sample_normal bn_wf_def BN_MAX_WORDS_def INT_MAX_def)
  have g: "bn_grows (\<lambda>_. True) (bn_sub_width (?s 0) (?s 1)) (?s 0)"
    by (simp add: bn_grows_def BN_MAX_WORDS_def INT_MAX_def bn_sub_width_def bn_sample_def BN_FLG_MALLOCED_def BN_FLG_STATIC_DATA_def)
  from bn_add_sub [where s = ?s, OF n, of "\<lambda>_. True"] g obtain t where
    "BN_sub (\<lambda>_. True) 0 0 1 ?s = (Ok (), ?s(0 := t))" "bn_val t = bn_val (?s 0) - bn_val (?s 1)" by auto
  then show ?thesis by (intro exI [of _ t]) (auto simp: fun_eq_iff)
qed

text \<open>
  C30. Adding a machine word to a number of either sign and subtracting one are exact, through
  every carry and change of sign.
\<close>

theorem bn_word_arithmetic:
  assumes "bn_normal a" and "bn_grows calloc (bn_width a + 1) a"
  shows "(\<exists>t. BN_add_word calloc w a = (Ok (), t) \<and> bn_normal t \<and> bn_val t = bn_val a + int (unat w)) \<and>
         (\<exists>t. BN_sub_word calloc w a = (Ok (), t) \<and> bn_normal t \<and> bn_val t = bn_val a - int (unat w))"
  using BN_add_word_ok [OF assms] BN_sub_word_ok [OF assms] by simp

theorem bn_word_arithmetic_witness:
  "\<exists>t. BN_add_word (\<lambda>_. True) 10 (bn_sample True [3]) = (Ok (), t) \<and> bn_val t = 7"
proof -
  have "bn_normal (bn_sample True [3])" by (simp add: bn_sample_normal BN_MAX_WORDS_def INT_MAX_def)
  moreover have "bn_grows (\<lambda>_. True) (bn_width (bn_sample True [3]) + 1) (bn_sample True [3])"
    by (simp add: bn_grows_def BN_MAX_WORDS_def INT_MAX_def bn_sample_def BN_FLG_MALLOCED_def BN_FLG_STATIC_DATA_def)
  ultimately show ?thesis using bn_word_arithmetic [of "bn_sample True [3]" "\<lambda>_. True" 10] by auto
qed

section \<open>Signs left over\<close>



end
