(* ===== verification/Bignum_Shift.thy ===== *)
theory Bignum_Shift
  imports Bignum_Signed
begin

text \<open>
  crypto/fipsmodule/bn/shift.c: shifts and single bits of big numbers. As in Bignum_Add, the
  shifts work on a store, since the result may be the operand; a shift of a negative number
  shifts its magnitude.
\<close>

section \<open>Shifts\<close>

text \<open>\<open>memset\<close> of \<open>n\<close> words from position \<open>i\<close> of a block to zero.\<close>

definition bn_clear_words :: "nat \<Rightarrow> nat \<Rightarrow> nat \<Rightarrow> (bn_store, unit) op" where
  "bn_clear_words r i n s =
     (if i + n \<le> bn_dmax (s r)
      then (Ok (), s(r := (s r)\<lparr>bn_d := take i (bn_d (s r)) @ replicate n 0 @ drop (i + n) (bn_d (s r))\<rparr>))
      else (Abort, s))"

primrec lshift_words_loop :: "nat \<Rightarrow> nat \<Rightarrow> nat \<Rightarrow> nat \<Rightarrow> (bn_store, unit) op" where
  "lshift_words_loop r a nw 0 = op_ret ()"
| "lshift_words_loop r a nw (Suc i) =
     op_bind (bn_load a i) (\<lambda>l. op_then (bn_put r (nw + i) l) (lshift_words_loop r a nw i))"

primrec lshift_bits_loop :: "nat \<Rightarrow> nat \<Rightarrow> nat \<Rightarrow> nat \<Rightarrow> nat \<Rightarrow> (bn_store, unit) op" where
  "lshift_bits_loop r a nw lb 0 = op_ret ()"
| "lshift_bits_loop r a nw lb (Suc i) =
     op_bind (bn_load a i) (\<lambda>l.
     op_bind (bn_load r (nw + i + 1)) (\<lambda>t.
     op_then (bn_put r (nw + i + 1) (t OR drop_bit (64 - lb) l))
       (op_then (bn_put r (nw + i) (push_bit lb l)) (lshift_bits_loop r a nw lb i))))"

definition BN_lshift :: "(nat \<Rightarrow> bool) \<Rightarrow> nat \<Rightarrow> nat \<Rightarrow> int \<Rightarrow> (bn_store, unit) op" where
  "BN_lshift calloc r a n s =
     (if n < 0 then (Err, s)
      else
        (let nw = nat n div 64;
             lb = nat n mod 64;
             width = bn_width (s a) in
         op_then (bn_set_sign r (bn_neg (s a)))
           (op_then (bn_at r (bn_wexpand calloc (width + nw + 1)))
             (op_then (bn_put r (width + nw) 0)
               (op_then (if lb = 0 then lshift_words_loop r a nw width else lshift_bits_loop r a nw lb width)
                 (op_then (bn_clear_words r 0 nw)
                   (bn_at r (\<lambda>bn. (Ok (), bn_set_minimal_width (bn\<lparr>bn_width := width + nw + 1\<rparr>)))))))) s))"

primrec lshift1_loop :: "nat \<Rightarrow> nat \<Rightarrow> nat \<Rightarrow> nat \<Rightarrow> BN_ULONG \<Rightarrow> (bn_store, BN_ULONG) op" where
  "lshift1_loop r a 0 i c = op_ret c"
| "lshift1_loop r a (Suc n) i c =
     op_bind (bn_load a i) (\<lambda>t.
       op_then (bn_put r i (push_bit 1 t OR c)) (lshift1_loop r a n (Suc i) (drop_bit 63 t)))"

definition BN_lshift1 :: "(nat \<Rightarrow> bool) \<Rightarrow> nat \<Rightarrow> nat \<Rightarrow> (bn_store, unit) op" where
  "BN_lshift1 calloc r a s =
     (let width = bn_width (s a) in
      op_then
        (if r \<noteq> a
         then op_then (bn_set_sign r (bn_neg (s a)))
                (op_then (bn_at r (bn_wexpand calloc (width + 1)))
                  (bn_at r (\<lambda>bn. (Ok (), bn\<lparr>bn_width := width\<rparr>))))
         else bn_at r (bn_wexpand calloc (width + 1)))
        (op_bind (lshift1_loop r a width 0 0) (\<lambda>c.
           if c \<noteq> 0
           then op_then (bn_put r width 1) (bn_at r (\<lambda>bn. (Ok (), bn\<lparr>bn_width := bn_width bn + 1\<rparr>)))
           else op_ret ())) s)"

primrec rshift_loop :: "nat \<Rightarrow> nat \<Rightarrow> nat \<Rightarrow> nat \<Rightarrow> nat \<Rightarrow> nat \<Rightarrow> (bn_store, unit) op" where
  "rshift_loop r a shift_bits shift_words 0 i = op_ret ()"
| "rshift_loop r a shift_bits shift_words (Suc n) i =
     op_bind (bn_load a i) (\<lambda>x.
     op_bind (bn_load a (i + 1)) (\<lambda>y.
     op_then (bn_put r (i - shift_words) (drop_bit shift_bits x OR push_bit (64 - shift_bits) y))
       (rshift_loop r a shift_bits shift_words n (Suc i))))"

definition bn_move_words :: "nat \<Rightarrow> nat \<Rightarrow> nat \<Rightarrow> nat \<Rightarrow> (bn_store, unit) op" where
  "bn_move_words r a i n s =
     (if i + n \<le> bn_dmax (s a) \<and> n \<le> bn_dmax (s r)
      then (Ok (), s(r := (s r)\<lparr>bn_d := take n (drop i (bn_d (s a))) @ drop n (bn_d (s r))\<rparr>))
      else (Abort, s))"

definition bn_rshift_words :: "nat \<Rightarrow> nat \<Rightarrow> nat \<Rightarrow> nat \<Rightarrow> (bn_store, unit) op" where
  "bn_rshift_words r a shift num =
     (let shift_bits = shift mod 64;
          shift_words = shift div 64 in
      if shift_words \<ge> num then bn_clear_words r 0 num
      else
        op_then
          (if shift_bits = 0 then bn_move_words r a shift_words (num - shift_words)
           else
             op_then (rshift_loop r a shift_bits shift_words (num - 1 - shift_words) shift_words)
               (op_bind (bn_load a (num - 1)) (\<lambda>x. bn_put r (num - 1 - shift_words) (drop_bit shift_bits x))))
          (bn_clear_words r (num - shift_words) shift_words))"

definition BN_rshift :: "(nat \<Rightarrow> bool) \<Rightarrow> nat \<Rightarrow> nat \<Rightarrow> int \<Rightarrow> (bn_store, unit) op" where
  "BN_rshift calloc r a n s =
     (if n < 0 then (Err, s)
      else
        (let width = bn_width (s a); neg = bn_neg (s a) in
         op_then (bn_at r (bn_wexpand calloc width))
           (op_then (bn_rshift_words r a (nat n) width)
             (bn_at r (\<lambda>bn. (Ok (), bn_set_minimal_width (bn\<lparr>bn_neg := neg, bn_width := width\<rparr>))))) s))"

definition bn_rshift1_words :: "nat \<Rightarrow> nat \<Rightarrow> nat \<Rightarrow> (bn_store, unit) op" where
  "bn_rshift1_words r a num =
     (if num = 0 then op_ret ()
      else
        op_then (rshift_loop r a 1 0 (num - 1) 0)
          (op_bind (bn_load a (num - 1)) (\<lambda>x. bn_put r (num - 1) (drop_bit 1 x))))"

definition BN_rshift1 :: "(nat \<Rightarrow> bool) \<Rightarrow> nat \<Rightarrow> nat \<Rightarrow> (bn_store, unit) op" where
  "BN_rshift1 calloc r a s =
     (let width = bn_width (s a); neg = bn_neg (s a) in
      op_then (bn_at r (bn_wexpand calloc width))
        (op_then (bn_rshift1_words r a width)
          (bn_at r (\<lambda>bn. (Ok (), bn_set_minimal_width (bn\<lparr>bn_width := width, bn_neg := neg\<rparr>))))) s)"

text \<open>
  The temporary object comes from a \<open>BN_CTX\<close> (ctx.c): \<open>tmp\<close> is its address, or absent when
  there is none. Each round shifts by a power of two, or not, without a branch.
\<close>

definition bn_select_at :: "nat \<Rightarrow> BN_ULONG \<Rightarrow> nat \<Rightarrow> nat \<Rightarrow> (bn_store, unit) op" where
  "bn_select_at r msk tmp num s =
     (if num \<le> bn_dmax (s r) \<and> num \<le> bn_dmax (s tmp)
      then (Ok (), s(r := (s r)\<lparr>bn_d := bn_select_words msk (take num (bn_d (s tmp))) (take num (bn_d (s r))) @
                                   drop num (bn_d (s r))\<rparr>))
      else (Abort, s))"

function secret_shift_loop :: "nat \<Rightarrow> nat \<Rightarrow> nat \<Rightarrow> nat \<Rightarrow> nat \<Rightarrow> nat \<Rightarrow> (bn_store, unit) op" where
  "secret_shift_loop r tmp n max_bits width i =
     (if max_bits div 2 ^ i \<noteq> 0
      then op_then (bn_rshift_words tmp r (2 ^ i) width)
             (op_then (bn_select_at r (0 - of_nat (n div 2 ^ i mod 2)) tmp width)
               (secret_shift_loop r tmp n max_bits width (Suc i)))
      else op_ret ())"
  by pat_completeness auto
termination
proof (relation "measure (\<lambda>(r, tmp, n, max_bits, width, i). max_bits - i)")
  fix r tmp n max_bits width i :: nat
  assume "max_bits div 2 ^ i \<noteq> 0"
  then have "2 ^ i \<le> max_bits" by (metis div_less linorder_not_less)
  then have "i < max_bits" using less_exp [of i] by linarith
  then show "((r, tmp, n, max_bits, width, Suc i), (r, tmp, n, max_bits, width, i))
      \<in> measure (\<lambda>(r, tmp, n, max_bits, width, i). max_bits - i)" by simp
qed simp

declare secret_shift_loop.simps [simp del]

definition bn_rshift_secret_shift :: "(nat \<Rightarrow> bool) \<Rightarrow> nat option \<Rightarrow> nat \<Rightarrow> nat \<Rightarrow> nat \<Rightarrow> (bn_store, unit) op" where
  "bn_rshift_secret_shift calloc tmp r a n s =
     (case tmp of
        None \<Rightarrow> (Err, s)
      | Some tmp \<Rightarrow>
          op_then (if r = a then op_ret () else bn_at r (BN_copy calloc (s a)))
            (\<lambda>s. op_then (bn_at tmp (bn_wexpand calloc (bn_width (s r))))
                   (secret_shift_loop r tmp n (64 * bn_width (s r)) (bn_width (s r)) 0) s) s)"

section \<open>Bits\<close>

definition BN_set_bit :: "(nat \<Rightarrow> bool) \<Rightarrow> int \<Rightarrow> (bignum, unit) op" where
  "BN_set_bit calloc n a =
     (if n < 0 then (Err, a)
      else
        (let i = nat n div 64; j = nat n mod 64 in
         op_then
           (if bn_width a \<le> i
            then op_then (bn_wexpand calloc (i + 1))
                   (\<lambda>a. (Ok (), a\<lparr>bn_d := bn_words a @ replicate (i + 1 - bn_width a) 0 @ drop (i + 1) (bn_d a),
                                   bn_width := i + 1\<rparr>))
            else op_ret ())
           (\<lambda>a. if i < bn_dmax a then (Ok (), a\<lparr>bn_d := (bn_d a)[i := bn_d a ! i OR push_bit j 1]\<rparr>)
                else (Abort, a)) a))"

definition BN_clear_bit :: "int \<Rightarrow> (bignum, unit) op" where
  "BN_clear_bit n a =
     (if n < 0 then (Err, a)
      else
        (let i = nat n div 64; j = nat n mod 64 in
         if bn_width a \<le> i then (Err, a)
         else if bn_dmax a \<le> i then (Abort, a)
         else (Ok (), bn_set_minimal_width (a\<lparr>bn_d := (bn_d a)[i := bn_d a ! i AND NOT (push_bit j 1)]\<rparr>))))"

definition bn_is_bit_set_words :: "BN_ULONG list \<Rightarrow> nat \<Rightarrow> bool" where
  "bn_is_bit_set_words a n =
     (let i = n div 64; j = n mod 64 in
      if i \<ge> length a then False else drop_bit j (a ! i) AND 1 \<noteq> 0)"

definition BN_is_bit_set :: "bignum \<Rightarrow> int \<Rightarrow> bool" where
  "BN_is_bit_set a n = (if n < 0 then False else bn_is_bit_set_words (bn_words a) (nat n))"

definition BN_mask_bits :: "int \<Rightarrow> (bignum, unit) op" where
  "BN_mask_bits n a =
     (if n < 0 then (Err, a)
      else
        (let w = nat n div 64; b = nat n mod 64 in
         if w \<ge> bn_width a then (Ok (), a)
         else if b = 0 then (Ok (), bn_set_minimal_width (a\<lparr>bn_width := w\<rparr>))
         else if bn_dmax a \<le> w then (Abort, a)
         else (Ok (), bn_set_minimal_width
                 (a\<lparr>bn_width := w + 1, bn_d := (bn_d a)[w := bn_d a ! w AND NOT (push_bit b (- 1))]\<rparr>))))"

text \<open>One of the blocks of the count: are the lower \<open>k\<close> bits zero?\<close>

definition low_zero_block :: "nat \<Rightarrow> nat \<times> BN_ULONG \<Rightarrow> nat \<times> BN_ULONG" where
  "low_zero_block k = (\<lambda>(bits, l).
     let msk = constant_time_is_zero_w (push_bit (64 - k) l)
     in (bits + unat (of_nat k AND msk), constant_time_select_w msk (drop_bit k l) l))"

definition bn_count_low_zero_bits_word :: "BN_ULONG \<Rightarrow> nat" where
  "bn_count_low_zero_bits_word l =
     fst (low_zero_block 1 (low_zero_block 2 (low_zero_block 4 (low_zero_block 8
       (low_zero_block 16 (low_zero_block 32 (0, l)))))))"

fun low_zero_loop :: "BN_ULONG list \<Rightarrow> nat \<Rightarrow> BN_ULONG \<Rightarrow> BN_ULONG \<Rightarrow> BN_ULONG" where
  "low_zero_loop [] i saw_nonzero ret = ret"
| "low_zero_loop (d # ds) i saw_nonzero ret =
     (let nonzero = NOT (constant_time_is_zero_w d);
          first_nonzero = NOT saw_nonzero AND nonzero;
          bits = bn_count_low_zero_bits_word d
      in low_zero_loop ds (Suc i) (saw_nonzero OR nonzero)
           (ret OR (first_nonzero AND of_nat (i * 64 + bits))))"

definition BN_count_low_zero_bits :: "bignum \<Rightarrow> nat" where
  "BN_count_low_zero_bits bn = unat (low_zero_loop (bn_words bn) 0 0 0)"

end
