(* ===== verification/Bignum_Shift_Words.thy ===== *)
theory Bignum_Shift_Words
  imports Bignum_Shift
begin

text \<open>
  Shifts and bits of lists of words: the value of what the loops of shift.c store.
\<close>

section \<open>Two neighbouring words\<close>

lemma or_low_bits:
  assumes "unat (c :: u64) < 2 ^ k"
  shows "unat (push_bit k w OR c) = unat (push_bit k w) + unat c"
proof -
  have "\<not> bit c i" if "k \<le> i" for i
  proof -
    have "take_bit k (unat c) = unat c" using assms by (simp add: take_bit_nat_eq_self)
    then have "bit (unat c) i \<longleftrightarrow> bit (unat c) i \<and> i < k" by (metis bit_take_bit_iff)
    with that show ?thesis by (simp add: bit_unsigned_iff)
  qed
  then have "push_bit k w AND c = 0"
    by (intro bit_word_eqI) (auto simp: bit_simps)
  then have "unat (push_bit k w) AND unat c = 0" by (simp only: unsigned_and_eq [symmetric] unsigned_0)
  then show ?thesis by (simp only: unsigned_or_eq disjunctive_add_eq_or)
qed

text \<open>A word shifted left: what stays and what goes into the next word.\<close>

lemma shifted_parts:
  assumes "k < 64"
  shows "unat (push_bit k (w :: u64)) + 2 ^ 64 * unat (drop_bit (64 - k) w) = 2 ^ k * unat w"
    and "unat (push_bit (64 - k) (w :: u64)) = 2 ^ (64 - k) * (unat w mod 2 ^ k)"
    and "unat (drop_bit (64 - k) w) < 2 ^ k"
proof -
  have two: "(2 :: nat) ^ k * 2 ^ (64 - k) = 2 ^ 64" using assms by (simp add: power_add [symmetric])
  have p: "unat (push_bit j w) = (2 ^ j * unat w) mod 2 ^ 64" for j
  proof -
    have "unat (push_bit j w) = take_bit 64 (push_bit j (unat w))" by (simp only: unsigned_push_bit_eq) simp
    then show ?thesis by (simp only: push_bit_eq_mult take_bit_eq_mod mult.commute)
  qed
  have "2 ^ k * unat w div 2 ^ 64 = unat w div 2 ^ (64 - k)"
    unfolding two [symmetric] by (simp add: div_mult2_eq)
  then show "unat (push_bit k w) + 2 ^ 64 * unat (drop_bit (64 - k) w) = 2 ^ k * unat w"
    unfolding p unat_drop_u64 using mod_mult_div_eq [of "2 ^ k * unat w" "2 ^ 64"] by simp
  show "unat (push_bit (64 - k) w) = 2 ^ (64 - k) * (unat w mod 2 ^ k)"
    unfolding p two [symmetric] by (simp add: mult.commute [of "2 ^ k"] mod_mult_mult1)
  have "unat w < 2 ^ k * 2 ^ (64 - k)" unfolding two by (rule unat_u64)
  then show "unat (drop_bit (64 - k) w) < 2 ^ k"
    unfolding unat_drop_u64 by (simp add: div_less_iff_less_mult)
qed

section \<open>Left shifts\<close>

text \<open>\<open>ws\<close> shifted by \<open>k\<close> bits with \<open>c\<close> below it; what goes out on top joins \<open>t\<close>.\<close>

fun lsh :: "nat \<Rightarrow> BN_ULONG \<Rightarrow> BN_ULONG list \<Rightarrow> BN_ULONG \<Rightarrow> BN_ULONG list" where
  "lsh k c [] t = [t OR c]"
| "lsh k c (w # ws) t = (push_bit k w OR c) # lsh k (drop_bit (64 - k) w) ws t"

lemma length_lsh [simp]: "length (lsh k c ws t) = Suc (length ws)"
  by (induction k c ws t rule: lsh.induct) simp_all

lemma lsh_snoc: "lsh k c (ws @ [w]) t = lsh k c ws (push_bit k w) @ [t OR drop_bit (64 - k) w]"
  by (induction ws arbitrary: c) simp_all

lemma words_val_lsh:
  "k < 64 \<Longrightarrow> unat c < 2 ^ k \<Longrightarrow> words_val (lsh k c ws 0) = 2 ^ k * words_val ws + unat c"
proof (induction ws arbitrary: c)
  case (Cons w ws)
  have "words_val (lsh k c (w # ws) 0) =
      unat (push_bit k w) + unat c + 2 ^ 64 * (2 ^ k * words_val ws + unat (drop_bit (64 - k) w))"
    using Cons.IH [OF Cons.prems(1) shifted_parts(3) [OF Cons.prems(1)]] or_low_bits [OF Cons.prems(2)] by simp
  also have "\<dots> = 2 ^ k * words_val (w # ws) + unat c"
    using shifted_parts(1) [OF Cons.prems(1), of w] by (simp add: algebra_simps)
  finally show ?case .
qed simp

section \<open>Right shifts\<close>

fun rsh :: "nat \<Rightarrow> BN_ULONG list \<Rightarrow> BN_ULONG list" where
  "rsh k [] = []"
| "rsh k [w] = [drop_bit k w]"
| "rsh k (w # v # ws) = (drop_bit k w OR push_bit (64 - k) v) # rsh k (v # ws)"

lemma length_rsh [simp]: "length (rsh k ws) = length ws"
  by (induction k ws rule: rsh.induct) simp_all

lemma words_val_rsh:
  "0 < k \<Longrightarrow> k < 64 \<Longrightarrow> words_val (rsh k ws) = words_val ws div 2 ^ k"
proof (induction k ws rule: rsh.induct)
  case (2 k w)
  then show ?case by (simp add: unat_drop_u64)
next
  case (3 k w v ws)
  let ?V = "words_val (v # ws)"
  have two: "(2 :: nat) ^ 64 = 2 ^ k * 2 ^ (64 - k)" using 3 by (simp add: power_add [symmetric])
  have dist: "a * (m + b * q) = a * m + b * a * q" for a m b q :: nat by (simp add: algebra_simps)
  have low: "unat v mod 2 ^ k = ?V mod 2 ^ k"
    unfolding words_val.simps two using mod_mult_self2 [of "unat v" "2 ^ k" "2 ^ (64 - k) * words_val ws"]
    by (simp only: mult.assoc)
  have "unat w < 2 ^ k * 2 ^ (64 - k)" using unat_u64 [of w] two by simp
  then have "unat (drop_bit k w) < 2 ^ (64 - k)"
    unfolding unat_drop_u64 by (simp add: div_less_iff_less_mult mult.commute)
  then have "unat (drop_bit k w OR push_bit (64 - k) v) = unat w div 2 ^ k + 2 ^ (64 - k) * (?V mod 2 ^ k)"
    using or_low_bits [of "drop_bit k w" "64 - k" v] shifted_parts(2) [OF 3(3), of v] low
    by (simp add: or.commute unat_drop_u64)
  then have "words_val (rsh k (w # v # ws)) =
      unat w div 2 ^ k + 2 ^ (64 - k) * (?V mod 2 ^ k) + 2 ^ 64 * (?V div 2 ^ k)"
    using 3 by simp
  also have "\<dots> = unat w div 2 ^ k + 2 ^ (64 - k) * ?V"
    using dist [of "2 ^ (64 - k)" "?V mod 2 ^ k" "2 ^ k" "?V div 2 ^ k"] two
    by (simp only: mod_mult_div_eq add.assoc)
  also have "\<dots> = words_val (w # v # ws) div 2 ^ k"
    unfolding words_val.simps(2) [of w] two
    by (simp add: mult.assoc del: words_val.simps)
  finally show ?case .
qed simp

section \<open>Bits\<close>

lemma bit_words_val:
  "bit (words_val ws) n \<longleftrightarrow> n div 64 < length ws \<and> bit (ws ! (n div 64)) (n mod 64)"
proof (induction ws arbitrary: n)
  case (Cons w ws)
  have z: "unat w AND 2 ^ 64 * words_val ws = 0"
  proof (rule bit_eqI)
    fix i
    have "take_bit 64 (unat w) = unat w" using unat_u64 [of w] by (simp add: take_bit_nat_eq_self)
    then have "bit (unat w) i \<longrightarrow> i < 64" by (metis bit_take_bit_iff)
    moreover have "bit (2 ^ 64 * words_val ws) i \<longrightarrow> 64 \<le> i"
      unfolding mult.commute [of "2 ^ 64"] push_bit_eq_mult [symmetric] by (simp add: bit_push_bit_iff)
    ultimately show "bit (unat w AND 2 ^ 64 * words_val ws) i \<longleftrightarrow> bit (0 :: nat) i" by (auto simp: bit_and_iff)
  qed
  have "bit (words_val (w # ws)) n \<longleftrightarrow> bit (unat w) n \<or> bit (push_bit 64 (words_val ws)) n"
    unfolding words_val.simps disjunctive_add_eq_or [OF z] bit_or_iff push_bit_eq_mult by (simp add: mult.commute)
  also have "\<dots> \<longleftrightarrow> bit w n \<or> 64 \<le> n \<and> bit (words_val ws) (n - 64)"
    by (simp add: bit_unsigned_iff bit_push_bit_iff)
  also have "\<dots> \<longleftrightarrow> n div 64 < length (w # ws) \<and> bit ((w # ws) ! (n div 64)) (n mod 64)"
  proof (cases "n < 64")
    case False
    then obtain j where j: "n = 64 + j" using le_Suc_ex by (metis linorder_not_less)
    have "\<not> bit w n" using False bit_imp_le_length [of w n] by auto
    moreover have "(64 + j) div 64 = Suc (j div 64)" by (simp add: div_add_self1)
    ultimately show ?thesis unfolding Cons.IH j by simp
  qed simp
  finally show ?case .
qed simp

text \<open>Changing one word changes the bits of that word.\<close>

lemma words_val_update:
  assumes "n div 64 < length ws" and "\<And>i. i < 64 \<Longrightarrow> bit w i \<longleftrightarrow> bit v (64 * (n div 64) + i)"
    and "\<And>i. i div 64 \<noteq> n div 64 \<Longrightarrow> bit v i \<longleftrightarrow> bit (words_val ws) i"
  shows "words_val (ws[n div 64 := w]) = v"
proof (rule bit_eqI)
  fix i
  show "bit (words_val (ws[n div 64 := w])) i \<longleftrightarrow> bit v i"
  proof (cases "i div 64 = n div 64")
    case True
    have "bit (words_val (ws[n div 64 := w])) i \<longleftrightarrow> bit w (i mod 64)"
      unfolding bit_words_val True using assms(1) by simp
    also have "\<dots> \<longleftrightarrow> bit v (64 * (i div 64) + i mod 64)" using assms(2) [of "i mod 64"] by (simp add: True)
    finally show ?thesis by simp
  next
    case False
    then show ?thesis unfolding assms(3) [OF False] bit_words_val by (simp add: nth_list_update)
  qed
qed

lemma same_bit: "j < 64 \<Longrightarrow> n = 64 * (n div 64) + j \<longleftrightarrow> j = n mod 64" for n :: nat
  using mod_mult_div_eq [of n 64] by linarith

lemma words_val_set_bit:
  assumes "n div 64 < length ws"
  shows "words_val (ws[n div 64 := ws ! (n div 64) OR push_bit (n mod 64) 1]) = set_bit n (words_val ws)"
  using assms
  by (intro words_val_update) (auto simp: bit_simps bit_words_val same_bit)

lemma words_val_unset_bit:
  assumes "n div 64 < length ws"
  shows "words_val (ws[n div 64 := ws ! (n div 64) AND NOT (push_bit (n mod 64) 1)]) = unset_bit n (words_val ws)"
  using assms
  by (intro words_val_update) (auto simp: bit_simps bit_words_val same_bit)

lemma words_val_take_bit:
  "words_val (take (n div 64) ws) = take_bit (64 * (n div 64)) (words_val ws)"
proof (rule bit_eqI)
  fix i
  have "i < 64 * (n div 64) \<longleftrightarrow> i div 64 < n div 64" by (simp add: div_less_iff_less_mult mult.commute)
  then show "bit (words_val (take (n div 64) ws)) i \<longleftrightarrow> bit (take_bit (64 * (n div 64)) (words_val ws)) i"
    by (auto simp: bit_words_val bit_take_bit_iff)
qed

lemma words_val_mask:
  assumes "n div 64 < length ws"
  shows "words_val ((take (n div 64 + 1) ws)[n div 64 := ws ! (n div 64) AND NOT (push_bit (n mod 64) (- 1))]) =
         take_bit n (words_val ws)"
proof (rule words_val_update)
  show "n div 64 < length (take (n div 64 + 1) ws)" using assms by simp
  have n: "i < n mod 64 \<longleftrightarrow> 64 * (n div 64) + i < n" for i
    using mod_mult_div_eq [of n 64] by linarith
  show "bit (ws ! (n div 64) AND NOT (push_bit (n mod 64) (- 1))) i \<longleftrightarrow>
      bit (take_bit n (words_val ws)) (64 * (n div 64) + i)" if "i < 64" for i
    using that assms unfolding bit_take_bit_iff n [symmetric] by (auto simp: bit_simps bit_words_val)
  show "bit (take_bit n (words_val ws)) i \<longleftrightarrow> bit (words_val (take (n div 64 + 1) ws)) i"
    if "i div 64 \<noteq> n div 64" for i
  proof -
    have "i < n \<longleftrightarrow> i div 64 < n div 64"
      using that div_le_mono [of i n 64] div_le_mono [of n i 64] by linarith
    with that show ?thesis by (auto simp: bit_words_val bit_take_bit_iff)
  qed
qed

end
