(* ===== verification/Bignum_Shift_Loops.thy ===== *)
theory Bignum_Shift_Loops
  imports Bignum_Shift_Words
begin

text \<open>
  The shifts on the store, also when the result is the operand: the left shift runs from the
  top word down and the right shift from the bottom up, so that no word is overwritten before
  it has been read.
\<close>

section \<open>Loops\<close>

lemma load_take:
  assumes "take n (bn_d (s a)) = ws" and "length ws = n" and "i < n"
  shows "bn_load a i s = (Ok (ws ! i), s)"
proof -
  have "n \<le> bn_dmax (s a)" using assms(1,2) by (metis length_take min_def nat_le_linear)
  with assms show ?thesis by (auto simp: bn_load_def)
qed

lemma take_with:
  assumes "take n (bn_d (s a)) = ws" and "take n d = take n (bn_d (s r))"
  shows "take n (bn_d (bn_with s r d a)) = ws"
  using assms by auto

lemma lshift_words_loop_eq:
  assumes "take n (bn_d (s a)) = ws" and "length ws = n" and "nw + n \<le> bn_dmax (s r)"
  shows "lshift_words_loop r a nw n s =
           (Ok (), bn_with s r (take nw (bn_d (s r)) @ ws @ drop (nw + n) (bn_d (s r))))"
  using assms
proof (induction n arbitrary: ws s)
  case (Suc n)
  let ?D = "bn_d (s r)"
  obtain ws' w where ws: "ws = ws' @ [w]" "length ws' = n" using Suc.prems(2) by (metis length_Suc_conv_rev)
  define d where "d = ?D[nw + n := w]"
  have l: "bn_load a n s = (Ok w, s)" using load_take [where s = s, OF Suc.prems(1,2), of n] nth_append_length [of ws' w "[]"]
    by (simp add: ws)
  have t: "take n (bn_d (s a)) = ws'"
    using Suc.prems(1) ws by (metis append_eq_conv_conj le_add2 min.absorb1 plus_1_eq_Suc take_take)
  have d: "take n d = take n ?D" "take nw d = take nw ?D" "drop (nw + n) d = w # drop (nw + Suc n) ?D"
    using Suc.prems(3) by (simp_all add: d_def drop_update_swap Cons_nth_drop_Suc [symmetric])
  have "lshift_words_loop r a nw n (bn_with s r d) =
      (Ok (), bn_with s r (take nw d @ ws' @ drop (nw + n) d))"
    using Suc.IH [where s = "bn_with s r d", OF take_with [where s = s and a = a and r = r, OF t d(1)] ws(2)] Suc.prems(3)
    by (simp add: d_def fun_upd_def cong: if_cong)
  then show ?case using l Suc.prems(3) unfolding d
    by (simp add: op_bind_apply op_then_apply bn_put_def d_def [symmetric] ws fun_eq_iff)
qed simp

lemma lshift_bits_loop_eq:
  assumes "take n (bn_d (s a)) = ws" and "length ws = n" and "nw + n < bn_dmax (s r)"
  shows "lshift_bits_loop r a nw lb n s =
           (Ok (), bn_with s r (take nw (bn_d (s r)) @ lsh lb 0 ws (bn_d (s r) ! (nw + n)) @
              drop (nw + n + 1) (bn_d (s r))))"
  using assms
proof (induction n arbitrary: ws s)
  case 0
  then show ?case by (simp add: Cons_nth_drop_Suc)
next
  case (Suc n)
  let ?D = "bn_d (s r)"
  obtain ws' w where ws: "ws = ws' @ [w]" "length ws' = n" using Suc.prems(2) by (metis length_Suc_conv_rev)
  define t where "t = ?D ! (nw + n + 1) OR drop_bit (64 - lb) w"
  define d where "d = ?D[nw + n + 1 := t, nw + n := push_bit lb w]"
  have l: "bn_load a n s = (Ok w, s)" using load_take [where s = s, OF Suc.prems(1,2), of n] nth_append_length [of ws' w "[]"]
    by (simp add: ws)
  have low: "take n (bn_d (s a)) = ws'"
    using Suc.prems(1) ws by (metis append_eq_conv_conj le_add2 min.absorb1 plus_1_eq_Suc take_take)
  have d: "take n d = take n ?D" "take nw d = take nw ?D" "d ! (nw + n) = push_bit lb w"
    "drop (nw + n + 1) d = t # drop (nw + Suc n + 1) ?D"
    using Suc.prems(3)
    by (simp_all add: d_def drop_update_swap Cons_nth_drop_Suc [symmetric])
  have "lshift_bits_loop r a nw lb n (bn_with s r d) =
      (Ok (), bn_with s r (take nw d @ lsh lb 0 ws' (d ! (nw + n)) @ drop (nw + n + 1) d))"
    using Suc.IH [where s = "bn_with s r d", OF take_with [where s = s and a = a and r = r, OF low d(1)] ws(2)] Suc.prems(3)
    by (simp add: d_def fun_upd_def cong: if_cong)
  then have "lshift_bits_loop r a nw lb n (bn_with s r d) =
      (Ok (), bn_with s r (take nw ?D @ lsh lb 0 ws (?D ! (nw + Suc n)) @ drop (nw + Suc n + 1) ?D))"
    unfolding d ws(1) lsh_snoc t_def by simp
  moreover have "lshift_bits_loop r a nw lb (Suc n) s = lshift_bits_loop r a nw lb n (bn_with s r d)"
    using l Suc.prems(3) by (simp add: op_bind_apply op_then_apply bn_put_def bn_load_def d_def t_def)
  ultimately show ?case by (simp add: fun_eq_iff)
qed

lemma rshift_loop_eq:
  assumes "take (Suc n) (drop i (bn_d (s a))) = ws" and "length ws = Suc n"
    and "sw \<le> i" and "i - sw + n \<le> bn_dmax (s r)"
  shows "rshift_loop r a k sw n i s =
           (Ok (), bn_with s r (take (i - sw) (bn_d (s r)) @ butlast (rsh k ws) @ drop (i - sw + n) (bn_d (s r))))"
  using assms
proof (induction n arbitrary: i ws s)
  case 0
  then obtain w where "ws = [w]" by (metis length_0_conv length_Suc_conv)
  then show ?case by simp
next
  case (Suc n)
  let ?D = "bn_d (s r)"
  obtain w v ws' where ws: "ws = w # v # ws'" "length ws' = n" using Suc.prems(2) by (metis length_Suc_conv)
  let ?x = "drop_bit k w OR push_bit (64 - k) v"
  define d where "d = ?D[i - sw := ?x]"
  have len: "i + Suc (Suc n) \<le> bn_dmax (s a)" using Suc.prems(1,2) by (auto simp: min_def split: if_splits)
  have nth: "bn_d (s a) ! (i + j) = ws ! j" if "j < Suc (Suc n)" for j
    using Suc.prems(1) that len by (metis add_leD1 nth_drop nth_take)
  have l: "bn_load a i s = (Ok w, s)" "bn_load a (i + 1) s = (Ok v, s)"
    using nth [of 0] nth [of 1] len by (simp_all add: bn_load_def ws)
  have low: "take (Suc n) (drop (Suc i) (bn_d (s a))) = v # ws'"
  proof -
    have "take (Suc n) (drop (Suc i) (bn_d (s a))) = tl (take (Suc (Suc n)) (drop i (bn_d (s a))))"
      by (simp add: tl_take drop_Suc tl_drop del: take_Suc_Cons)
    then show ?thesis unfolding Suc.prems(1) ws(1) by simp
  qed
  have dr: "drop (Suc i) (bn_d (bn_with s r d a)) = drop (Suc i) (bn_d (s a))"
    by (simp add: d_def)
  have d: "take (Suc i - sw) d = take (i - sw) ?D @ [?x]" "drop (Suc i - sw + n) d = drop (i - sw + Suc n) ?D"
    "bn_dmax (bn_with s r d r) = bn_dmax (s r)"
    using Suc.prems(3,4) by (simp_all add: d_def Suc_diff_le take_Suc_conv_app_nth)
  have IH: "rshift_loop r a k sw n (Suc i) (bn_with s r d) =
      (Ok (), bn_with s r (take (Suc i - sw) d @ butlast (rsh k (v # ws')) @ drop (Suc i - sw + n) d))"
  proof -
    have low': "take (Suc n) (drop (Suc i) (bn_d (bn_with s r d a))) = v # ws'" unfolding dr by (rule low)
    have "sw \<le> Suc i" "Suc i - sw + n \<le> bn_dmax (bn_with s r d r)" "length (v # ws') = Suc n"
      using Suc.prems(3,4) d(3) ws(2) by (simp_all add: Suc_diff_le)
    with Suc.IH [where s = "bn_with s r d", OF low'] have "rshift_loop r a k sw n (Suc i) (bn_with s r d) = (Ok (), bn_with (bn_with s r d) r
        (take (Suc i - sw) (bn_d (bn_with s r d r)) @ butlast (rsh k (v # ws')) @
          drop (Suc i - sw + n) (bn_d (bn_with s r d r))))" by blast
    then show ?thesis by simp
  qed
  have "rshift_loop r a k sw (Suc n) i s = rshift_loop r a k sw n (Suc i) (bn_with s r d)"
    using l Suc.prems(4) by (simp add: op_bind_apply op_then_apply bn_put_def d_def)
  moreover have "rsh k (v # ws') \<noteq> []" using length_rsh [of k "v # ws'"] by (metis length_0_conv nat.distinct(1) length_Cons)
  ultimately show ?case unfolding IH d ws(1) rsh.simps by (simp add: fun_eq_iff)
qed

end
