(* ===== verification/Bignum_Shift_Ops.thy ===== *)
theory Bignum_Shift_Ops
  imports Bignum_Shift_Loops
begin

text \<open>The shifts of shift.c as operations on the numbers.\<close>

section \<open>Right shifts of words\<close>

lemma drop_words_val: "words_val (drop n ws) = words_val ws div 2 ^ (64 * n)"
proof (cases "n \<le> length ws")
  case True
  then have "words_val ws = words_val (take n ws) + 2 ^ (64 * n) * words_val (drop n ws)"
    using words_val_split [of ws n] by simp
  moreover have "words_val (take n ws) < 2 ^ (64 * n)" using words_val_less [of "take n ws"] True by simp
  ultimately show ?thesis by simp
next
  case False
  have "words_val ws < 2 ^ (64 * length ws)" by (rule words_val_less)
  also have "\<dots> \<le> 2 ^ (64 * n)" using False by (intro power_increasing) simp_all
  finally show ?thesis using False by simp
qed

lemma last_rsh: "ws \<noteq> [] \<Longrightarrow> butlast (rsh k ws) @ [drop_bit k (last ws)] = rsh k ws"
  by (induction k ws rule: rsh.induct) (auto dest: arg_cong [of _ _ length])

lemma bn_clear_words_apply:
  "i + n \<le> bn_dmax (s r) \<Longrightarrow>
     bn_clear_words r i n s = (Ok (), bn_with s r (take i (bn_d (s r)) @ replicate n 0 @ drop (i + n) (bn_d (s r))))"
  by (simp add: bn_clear_words_def)

lemma rshift_words_shifted:
  assumes "num \<le> bn_dmax (s a)" and "num \<le> bn_dmax (s r)" and "sw < num" and "k < 64"
  defines "xs \<equiv> drop sw (take num (bn_d (s a)))"
  shows "\<exists>ws. (if k = 0 then bn_move_words r a sw (num - sw)
          else op_then (rshift_loop r a k sw (num - 1 - sw) sw)
            (op_bind (bn_load a (num - 1)) (\<lambda>x. bn_put r (num - 1 - sw) (drop_bit k x)))) s =
           (Ok (), bn_with s r (ws @ drop (num - sw) (bn_d (s r)))) \<and>
         length ws = num - sw \<and> words_val ws = words_val xs div 2 ^ k"
proof (cases "k = 0")
  case True
  have "xs = take (num - sw) (drop sw (bn_d (s a)))" by (simp add: xs_def drop_take)
  then show ?thesis using True assms(1-3)
    by (intro exI [of _ xs]) (simp add: bn_move_words_def)
next
  case False
  let ?D = "bn_d (s r)"
  have xs: "xs = take (Suc (num - 1 - sw)) (drop sw (bn_d (s a)))" "length xs = Suc (num - 1 - sw)" "xs \<noteq> []"
    using assms(1,3) by (auto simp: xs_def drop_take Suc_diff_Suc)
  let ?n = "num - 1 - sw"
  let ?b = "butlast (rsh k xs)"
  have lb: "length ?b = ?n" using xs(2) by simp
  let ?s = "bn_with s r (?b @ drop ?n ?D)"
  have loop: "rshift_loop r a k sw ?n sw s = (Ok (), ?s)"
    using rshift_loop_eq [where s = s and a = a and r = r and i = sw and n = ?n and k = k and sw = sw, OF xs(1) [symmetric] xs(2)]
      assms(2,3) by (simp add: fun_eq_iff)
  have lx: "bn_d (s a) ! (num - 1) = last xs"
    using assms(1,3) by (simp add: xs_def last_drop last_conv_nth)
  have load: "bn_load a (num - 1) ?s = (Ok (last xs), ?s)"
  proof (cases "a = r")
    case True
    have "(?b @ drop ?n ?D) ! (num - 1) = ?D ! (num - 1)"
      using lb assms(2,3) by (auto simp: nth_append)
    then show ?thesis using True lx lb assms(2,3) by (simp add: bn_load_def)
  next
    case False
    then show ?thesis using lx assms(1,3) by (simp add: bn_load_def)
  qed
  have d: "(?b @ drop ?n ?D)[?n := drop_bit k (last xs)] = rsh k xs @ drop (num - sw) ?D"
  proof -
    have "drop ?n ?D = ?D ! ?n # drop (Suc ?n) ?D" using assms(2,3) by (simp add: Cons_nth_drop_Suc)
    moreover have "Suc ?n = num - sw" using assms(3) by simp
    ultimately show ?thesis using last_rsh [OF xs(3), of k, symmetric] lb
      by (metis append.assoc append_Cons append_Nil list_update_length)
  qed
  have "bn_put r ?n (drop_bit k (last xs)) ?s = (Ok (), bn_with s r (rsh k xs @ drop (num - sw) ?D))"
    using assms(2,3) lb d by (simp add: bn_put_def)
  then show ?thesis using False loop load xs(2) assms(3,4) words_val_rsh [of k xs]
    by (intro exI [of _ "rsh k xs"]) (simp add: op_then_apply op_bind_apply)
qed

lemma bn_rshift_words_eq:
  assumes "num \<le> bn_dmax (s a)" and "num \<le> bn_dmax (s r)"
  shows "\<exists>ws. bn_rshift_words r a shift num s = (Ok (), bn_with s r (ws @ drop num (bn_d (s r)))) \<and>
           length ws = num \<and> words_val ws = words_val (take num (bn_d (s a))) div 2 ^ shift"
proof -
  let ?sw = "shift div 64" and ?k = "shift mod 64" and ?V = "words_val (take num (bn_d (s a)))"
  have sh: "(2 :: nat) ^ shift = 2 ^ (64 * ?sw) * 2 ^ ?k" by (simp add: power_add [symmetric])
  show ?thesis
  proof (cases "?sw \<ge> num")
    case True
    have "?V < 2 ^ (64 * num)" using words_val_less [of "take num (bn_d (s a))"] assms by simp
    also have "\<dots> \<le> 2 ^ shift" using True by (intro power_increasing) simp_all
    finally show ?thesis using True assms
      by (intro exI [of _ "replicate num 0"]) (simp add: bn_rshift_words_def Let_def bn_clear_words_apply)
  next
    case False
    let ?xs = "drop ?sw (take num (bn_d (s a)))"
    obtain ws where ws: "(if ?k = 0 then bn_move_words r a ?sw (num - ?sw)
          else op_then (rshift_loop r a ?k ?sw (num - 1 - ?sw) ?sw)
            (op_bind (bn_load a (num - 1)) (\<lambda>x. bn_put r (num - 1 - ?sw) (drop_bit ?k x)))) s =
           (Ok (), bn_with s r (ws @ drop (num - ?sw) (bn_d (s r))))"
      "length ws = num - ?sw" "words_val ws = words_val ?xs div 2 ^ ?k"
      using rshift_words_shifted [where s = s, OF assms, of ?sw ?k] False by auto
    have v: "words_val (ws @ replicate ?sw 0) = ?V div 2 ^ shift"
      unfolding sh by (simp add: words_val_append ws(3) drop_words_val div_mult2_eq)
    have "bn_rshift_words r a shift num s = (Ok (), bn_with s r ((ws @ replicate ?sw 0) @ drop num (bn_d (s r))))"
      using False ws(1,2) assms(2)
      by (simp add: bn_rshift_words_def Let_def op_then_apply bn_clear_words_apply)
    with v ws(2) False show ?thesis by (intro exI [of _ "ws @ replicate ?sw 0"]) simp
  qed
qed

section \<open>Right shifts\<close>

lemma bn_set_minimal_width_sign:
  assumes "bn_wf u"
  shows "bn_minimal (bn_set_minimal_width u)" "bn_val (bn_set_minimal_width u) = bn_val u"
  using bn_set_minimal_width_eq [OF assms] bn_set_minimal_width_minimal [OF assms] by simp_all

definition bn_shift_right :: "int \<Rightarrow> nat \<Rightarrow> int" where
  "bn_shift_right v n = (if v < 0 then - (- v div 2 ^ n) else v div 2 ^ n)"

lemma bn_shift_right_val:
  assumes "bn_abs u = bn_abs a div 2 ^ n" and "bn_neg u = bn_neg a" and "bn_normal a"
  shows "bn_val u = bn_shift_right (bn_val a) n"
  using assms by (auto simp: bn_val_def bn_shift_right_def bn_normal_def zdiv_int)

text \<open>The shift of the words of \<open>a\<close> into a result that was made large enough, and its end.\<close>

lemma rshift_finish:
  assumes wf: "bn_wf (s r)" "bn_normal (s a)" and room: "bn_grows calloc (bn_width (s a)) (s r)"
    and body: "\<And>s' d. bn_width (s a) \<le> bn_dmax (s' a) \<Longrightarrow> bn_width (s a) \<le> bn_dmax (s' r) \<Longrightarrow>
        body s' = bn_rshift_words r a n (bn_width (s a)) s'"
    and fin: "\<And>u. finish u = (Ok (), bn_set_minimal_width (u\<lparr>bn_neg := bn_neg (s a), bn_width := bn_width (s a)\<rparr>))"
  shows "\<exists>t. op_then (bn_at r (bn_wexpand calloc (bn_width (s a)))) (op_then body (bn_at r finish)) s =
             (Ok (), s(r := t)) \<and> bn_minimal t \<and> bn_val t = bn_shift_right (bn_val (s a)) n"
proof -
  let ?w = "bn_width (s a)"
  obtain t0 where t0: "bn_at r (bn_wexpand calloc ?w) s = (Ok (), s(r := t0))" "bn_wf t0" "?w \<le> bn_dmax t0"
    "bn_neg t0 = bn_neg (s r)" "\<And>x. take (bn_width (s x)) (bn_d ((s(r := t0)) x)) = bn_words (s x)"
    by (rule bn_wexpand_at [where s = s and r = r, OF wf(1) room]) (rule that)
  let ?s = "s(r := t0)"
  have len: "length (bn_words (s a)) = ?w" using wf(2) by (simp add: bn_normal_wf)
  have da: "?w \<le> bn_dmax (?s a)" using t0(5) [of a] len by (metis length_take min.cobounded1)
  obtain ws where ws: "bn_rshift_words r a n ?w ?s = (Ok (), bn_with ?s r (ws @ drop ?w (bn_d (?s r))))"
    "length ws = ?w" "words_val ws = words_val (take ?w (bn_d (?s a))) div 2 ^ n"
    using bn_rshift_words_eq [where s = ?s and r = r, OF da, of n] t0(3) by auto
  let ?u = "t0\<lparr>bn_d := ws @ drop ?w (bn_d t0), bn_neg := bn_neg (s a), bn_width := ?w\<rparr>"
  have u: "bn_wf ?u" "bn_abs ?u = bn_abs (s a) div 2 ^ n"
    using t0(2,3,5) ws(2,3) by (simp_all add: bn_wf_def bn_abs_def bn_words_def [of ?u])
  have "body ?s = bn_rshift_words r a n ?w ?s" using body [of ?s] da t0(3) by simp
  then have "op_then (bn_at r (bn_wexpand calloc ?w)) (op_then body (bn_at r finish)) s =
      (Ok (), s(r := bn_set_minimal_width ?u))"
    using t0(1) ws(1) by (simp add: op_then_apply bn_at_apply fin)
  with bn_set_minimal_width_sign [OF u(1)] bn_shift_right_val [OF u(2) _ wf(2)] show ?thesis by auto
qed

lemma BN_rshift_ok:
  assumes "bn_wf (s r)" and "bn_normal (s a)" and "bn_grows calloc (bn_width (s a)) (s r)"
  shows "\<exists>t. BN_rshift calloc r a (int n) s = (Ok (), s(r := t)) \<and> bn_minimal t \<and>
           bn_val t = bn_shift_right (bn_val (s a)) n"
  unfolding BN_rshift_def Let_def
  using rshift_finish [where s = s, OF assms, of "bn_rshift_words r a n (bn_width (s a))" n] by simp

lemma bn_rshift1_words_eq:
  assumes "num \<le> bn_dmax (s a)" and "num \<le> bn_dmax (s r)"
  shows "bn_rshift1_words r a num s = bn_rshift_words r a 1 num s"
proof (cases "num = 0")
  case True
  then show ?thesis by (simp add: bn_rshift1_words_def bn_rshift_words_def bn_clear_words_def op_ret_def)
next
  case False
  have "bn_clear_words r num 0 t = (Ok (), t)" if "num \<le> bn_dmax (t r)" for t
    using that by (simp add: bn_clear_words_def)
  moreover obtain ws where "op_then (rshift_loop r a 1 0 (num - 1) 0)
          (op_bind (bn_load a (num - 1)) (\<lambda>x. bn_put r (num - 1) (drop_bit 1 x))) s =
           (Ok (), bn_with s r (ws @ drop num (bn_d (s r))))" "length ws = num"
    using rshift_words_shifted [where s = s, OF assms, of 0 1] False by auto
  ultimately show ?thesis using False assms(2)
    by (simp add: bn_rshift1_words_def bn_rshift_words_def op_then_apply)
qed

lemma bn_width_neg: "u\<lparr>bn_width := w, bn_neg := n\<rparr> = u\<lparr>bn_neg := n, bn_width := w\<rparr>"
  by simp

lemma BN_rshift1_ok:
  assumes "bn_wf (s r)" and "bn_normal (s a)" and "bn_grows calloc (bn_width (s a)) (s r)"
  shows "\<exists>t. BN_rshift1 calloc r a s = (Ok (), s(r := t)) \<and> bn_minimal t \<and>
           bn_val t = bn_shift_right (bn_val (s a)) 1"
  unfolding BN_rshift1_def Let_def
  by (rule rshift_finish [where s = s, OF assms]) (simp_all add: bn_rshift1_words_eq bn_width_neg)

lemma BN_rshift_fails:
  "\<not> bn_grows calloc (bn_width (s a)) (s r) \<Longrightarrow>
     BN_rshift calloc r a (int n) s = (Err, s) \<and> BN_rshift1 calloc r a s = (Err, s)"
  by (simp add: BN_rshift_def BN_rshift1_def Let_def op_then_apply bn_wexpand_at_fails)

section \<open>Left shifts\<close>

lemma lshift_loops:
  assumes "take n (bn_d (s a)) = ws" and "length ws = n" and "nw + n < bn_dmax (s r)"
    and "bn_d (s r) ! (nw + n) = 0" and "lb < 64"
  shows "\<exists>vs. (if lb = 0 then lshift_words_loop r a nw n else lshift_bits_loop r a nw lb n) s =
           (Ok (), bn_with s r (take nw (bn_d (s r)) @ vs @ drop (nw + n + 1) (bn_d (s r)))) \<and>
         length vs = n + 1 \<and> words_val vs = 2 ^ lb * words_val ws"
proof (cases "lb = 0")
  case True
  have "drop (nw + n) (bn_d (s r)) = [0] @ drop (nw + n + 1) (bn_d (s r))"
    using assms(3,4) by (simp add: Cons_nth_drop_Suc [symmetric])
  then show ?thesis
    using True assms lshift_words_loop_eq [where s = s and a = a and r = r, OF assms(1,2), of nw]
    by (intro exI [of _ "ws @ [0]"]) (simp add: words_val_append fun_eq_iff)
next
  case False
  then show ?thesis
    using assms lshift_bits_loop_eq [where s = s and a = a and r = r, OF assms(1,2,3), of lb] words_val_lsh [of lb 0 ws]
    by (intro exI [of _ "lsh lb 0 ws 0"]) (simp add: fun_eq_iff)
qed

lemma bn_d_twice: "u\<lparr>bn_d := d, bn_d := e\<rparr> = u\<lparr>bn_d := e\<rparr>"
  by simp

lemma BN_lshift_ok:
  assumes wf: "bn_wf (s r)" "bn_normal (s a)" and room: "bn_grows calloc (bn_width (s a) + n div 64 + 1) (s r)"
  shows "\<exists>t. BN_lshift calloc r a (int n) s = (Ok (), s(r := t)) \<and> bn_minimal t \<and>
           bn_val t = 2 ^ n * bn_val (s a)"
proof -
  let ?w = "bn_width (s a)" and ?nw = "n div 64" and ?lb = "n mod 64"
  define s1 where "s1 = s(r := (s r)\<lparr>bn_neg := bn_neg (s a)\<rparr>)"
  have a: "bn_width (s1 a) = ?w" "bn_words (s1 a) = bn_words (s a)" "length (bn_words (s a)) = ?w"
    using bn_normal_wf [OF wf(2)] by (simp_all add: s1_def bn_words_def bn_wf_def)
  have r: "bn_wf (s1 r)" "bn_grows calloc (?w + ?nw + 1) (s1 r)" using wf(1) room by (simp_all add: s1_def)
  obtain t0 where t0: "bn_at r (bn_wexpand calloc (?w + ?nw + 1)) s1 = (Ok (), s1(r := t0))" "bn_wf t0"
    "?w + ?nw + 1 \<le> bn_dmax t0" "bn_neg t0 = bn_neg (s1 r)"
    "\<And>x. take (bn_width (s1 x)) (bn_d ((s1(r := t0)) x)) = bn_words (s1 x)"
    by (rule bn_wexpand_at [where s = s1 and r = r, OF r]) (rule that)
  define d where "d = (bn_d t0)[?w + ?nw := 0]"
  let ?s = "bn_with (s1(r := t0)) r d"
  have put: "bn_put r (?w + ?nw) 0 (s1(r := t0)) = (Ok (), ?s)" using t0(3) by (simp add: bn_put_def d_def)
  have da: "take ?w (bn_d (?s a)) = bn_words (s a)"
    using t0(5) [of a] unfolding a by (cases "a = r") (simp_all add: d_def)
  obtain vs where vs: "(if ?lb = 0 then lshift_words_loop r a ?nw ?w else lshift_bits_loop r a ?nw ?lb ?w) ?s =
      (Ok (), bn_with ?s r (take ?nw d @ vs @ drop (?nw + ?w + 1) d))"
    "length vs = ?w + 1" "words_val vs = 2 ^ ?lb * words_val (bn_words (s a))"
    using lshift_loops [where s = ?s and a = a and r = r, OF da a(3), of ?nw ?lb] t0(3) by (auto simp: d_def add.commute)
  let ?u = "t0\<lparr>bn_d := replicate ?nw 0 @ vs @ drop (?nw + ?w + 1) d, bn_width := ?w + ?nw + 1\<rparr>"
  have "bn_words ?u = replicate ?nw 0 @ vs"
    unfolding bn_words_def [of ?u] using vs(2) by simp
  then have abs: "bn_abs ?u = 2 ^ n * bn_abs (s a)"
    unfolding bn_abs_def by (simp add: words_val_append vs(3) mult.assoc [symmetric] power_add [symmetric])
  have u: "bn_wf ?u" "bn_neg ?u = bn_neg (s a)"
    using t0(2,3,4) vs(2) by (auto simp: bn_wf_def d_def s1_def)
  let ?d2 = "take ?nw d @ vs @ drop (?nw + ?w + 1) d"
  have clear: "bn_clear_words r 0 ?nw (bn_with ?s r ?d2) =
      (Ok (), bn_with ?s r (replicate ?nw 0 @ vs @ drop (?nw + ?w + 1) d))"
    using t0(3) vs(2) by (simp add: bn_clear_words_apply d_def)
  have set: "bn_set_sign r (bn_neg (s a)) s = (Ok (), s1)" by (simp add: bn_set_sign_apply s1_def)
  have "BN_lshift calloc r a (int n) s = (Ok (), s1(r := bn_set_minimal_width ?u))"
    by (simp only: BN_lshift_def Let_def nat_int of_nat_less_0_iff if_False op_then_apply set t0(1) put vs(1) clear
        prod.case result.case, simp only: bn_at_apply prod.case fun_upd_same fun_upd_upd bn_d_twice)
  moreover have "s1(r := bn_set_minimal_width ?u) = s(r := bn_set_minimal_width ?u)" by (simp add: s1_def)
  moreover have "bn_val ?u = 2 ^ n * bn_val (s a)" unfolding bn_val_def abs u(2) by simp
  ultimately show ?thesis using bn_set_minimal_width_sign [OF u(1)]
    by (intro exI [of _ "bn_set_minimal_width ?u"]) (simp only: simp_thms)
qed

lemma BN_lshift_fails:
  assumes "\<not> bn_grows calloc (bn_width (s a) + n div 64 + 1) (s r)"
  shows "BN_lshift calloc r a (int n) s = (Err, s(r := (s r)\<lparr>bn_neg := bn_neg (s a)\<rparr>))"
proof -
  let ?s = "s(r := (s r)\<lparr>bn_neg := bn_neg (s a)\<rparr>)"
  have "bn_at r (bn_wexpand calloc (bn_width (s a) + n div 64 + 1)) ?s = (Err, ?s)"
    using assms by (intro bn_wexpand_at_fails) simp
  then show ?thesis
    by (simp only: BN_lshift_def Let_def nat_int of_nat_less_0_iff if_False op_then_apply bn_set_sign_apply prod.case result.case)
qed

text \<open>The loop of \<open>BN_lshift1\<close> is a word loop that carries the top bit.\<close>

abbreviation lshift1_word :: "u64 \<Rightarrow> u64 \<Rightarrow> u64 \<Rightarrow> u64 \<times> u64" where
  "lshift1_word x y c \<equiv> (push_bit 1 x OR c, drop_bit 63 x)"

lemma drop_63: "drop_bit 63 (x :: u64) \<le> 1"
  using shifted_parts(3) [of 1 x] by (simp add: word_le_nat_alt)

lemma lshift1_loop_eq:
  "c \<le> 1 \<Longrightarrow> lshift1_loop r a n i c = word_loop lshift1_word r a (\<lambda>_. op_ret 0) n i c"
proof (induction n arbitrary: i c)
  case (Suc n)
  show ?case
    using Suc.IH [OF drop_63] Suc.prems
    by (intro ext) (auto simp: word_step_def op_defs op_ret_def op_assert_def split: prod.split result.split)
qed simp

lemma chain_lshift1:
  assumes "chain lshift1_word xs (replicate (length xs) 0) c = (ws, c')" and "c \<le> 1"
  shows "length ws = length xs \<and> c' \<le> 1 \<and>
         words_val ws + 2 ^ (64 * length xs) * unat c' = 2 * words_val xs + unat c"
  using assms
proof (induction xs arbitrary: c ws)
  case (Cons x xs)
  obtain vs where vs: "chain lshift1_word xs (replicate (length xs) 0) (drop_bit 63 x) = (vs, c')"
    "ws = (push_bit 1 x OR c) # vs"
    using Cons.prems(1) by (auto simp: apfst_def map_prod_def split: prod.splits)
  note IH = Cons.IH [OF vs(1) drop_63]
  have "unat c < 2 ^ 1" using Cons.prems(2) by (simp add: word_le_nat_alt)
  then have "unat (push_bit 1 x OR c) = unat (push_bit 1 x) + unat c" by (rule or_low_bits)
  with IH shifted_parts(1) [of 1 x] show ?case by (simp add: vs(2) power_add algebra_simps)
qed simp

lemma carries_lshift1: "carries lshift1_word"
  by (simp add: carries_def drop_63)

text \<open>The loop on a result that has room, and the carry out of it.\<close>

lemma lshift1_finish:
  assumes t: "bn_wf (s r)" "bn_width (s r) = w" "w + 1 \<le> bn_dmax (s r)"
    and xs: "take w (bn_d (s a)) = xs" "length xs = w"
  shows "\<exists>u. op_bind (lshift1_loop r a w 0 0) (\<lambda>c.
             if c \<noteq> 0
             then op_then (bn_put r w 1) (bn_at r (\<lambda>bn. (Ok (), bn\<lparr>bn_width := bn_width bn + 1\<rparr>)))
             else op_ret ()) s = (Ok (), s(r := u)) \<and>
           bn_wf u \<and> bn_neg u = bn_neg (s r) \<and> bn_abs u = 2 * words_val xs"
proof -
  obtain ws c where ch: "chain lshift1_word xs (replicate (length xs) 0) 0 = (ws, c)" by fastforce
  have v: "length ws = w" "c \<le> 1" "words_val ws + 2 ^ (64 * w) * unat c = 2 * words_val xs"
    using chain_lshift1 [OF ch] xs(2) by simp_all
  have w: "w \<le> bn_dmax (s a)" using xs by (metis length_take min.cobounded1)
  let ?d = "ws @ drop w (bn_d (s r))"
  have loop: "lshift1_loop r a w 0 0 s = (Ok c, bn_with s r ?d)"
  proof -
    have "word_loop lshift1_word r a (\<lambda>_. op_ret 0) w 0 0 s =
        (Ok c, bn_with s r (take 0 (bn_d (s r)) @ ws @ drop (0 + w) (bn_d (s r))))"
      by (rule word_loop_eq [OF _ supplies_zeros xs(2) _ _ _ _ carries_lshift1])
        (use w xs t ch in \<open>auto intro: supplies_load [where n = w]\<close>)
    then show ?thesis by (simp add: lshift1_loop_eq)
  qed
  show ?thesis
  proof (cases "c = 0")
    case True
    let ?u = "(s r)\<lparr>bn_d := ?d\<rparr>"
    have "bn_words ?u = ws" unfolding bn_words_def [of ?u] using v(1) t(2) by simp
    then have "bn_wf ?u \<and> bn_abs ?u = 2 * words_val xs"
      using t v True by (simp add: bn_wf_def bn_abs_def)
    with True loop show ?thesis by (intro exI [of _ ?u]) (simp add: op_bind_apply op_ret_def)
  next
    case False
    then have c: "c = 1" using v(2) by (metis linorder_not_less nle_le word_less_1)
    let ?u = "(s r)\<lparr>bn_d := ?d[w := 1], bn_width := w + 1\<rparr>"
    have "drop w (bn_d (s r)) = bn_d (s r) ! w # drop (w + 1) (bn_d (s r))"
      using t(3) by (simp add: Cons_nth_drop_Suc)
    then have d: "?d[w := 1] = (ws @ [1]) @ drop (w + 1) (bn_d (s r))" using v(1) by (simp add: list_update_append)
    have "bn_words ?u = ws @ [1]" unfolding bn_words_def [of ?u] using v(1) by (simp only: bignum.simps d) simp
    then have "bn_wf ?u \<and> bn_abs ?u = 2 * words_val xs"
      using t v c by (simp add: bn_wf_def bn_abs_def words_val_append)
    with False loop t v show ?thesis
      by (intro exI [of _ ?u]) (simp add: op_bind_apply op_then_apply bn_put_def bn_at_apply)
  qed
qed

lemma BN_lshift1_ok:
  assumes wf: "bn_wf (s r)" "bn_normal (s a)" and room: "bn_grows calloc (bn_width (s a) + 1) (s r)"
  shows "\<exists>t. BN_lshift1 calloc r a s = (Ok (), s(r := t)) \<and> bn_normal t \<and> bn_val t = 2 * bn_val (s a)"
proof -
  let ?w = "bn_width (s a)" and ?xs = "bn_words (s a)"
  let ?tail = "op_bind (lshift1_loop r a ?w 0 0) (\<lambda>c.
             if c \<noteq> 0
             then op_then (bn_put r ?w 1) (bn_at r (\<lambda>bn. (Ok (), bn\<lparr>bn_width := bn_width bn + 1\<rparr>)))
             else op_ret ())"
  have len: "length ?xs = ?w" using wf(2) by (simp add: bn_normal_wf)
  have "\<exists>s1. BN_lshift1 calloc r a s = ?tail s1 \<and> (\<forall>u. s1(r := u) = s(r := u)) \<and> bn_wf (s1 r) \<and> bn_width (s1 r) = ?w \<and>
      ?w + 1 \<le> bn_dmax (s1 r) \<and> bn_neg (s1 r) = bn_neg (s a) \<and> take ?w (bn_d (s1 a)) = ?xs"
  proof (cases "r = a")
    case True
    obtain t where t: "bn_wexpand calloc (?w + 1) (s r) = (Ok (), t)" "bn_wf t" "?w + 1 \<le> bn_dmax t"
      "bn_words t = bn_words (s r)" "bn_width t = bn_width (s r)" "bn_neg t = bn_neg (s r)"
      by (rule bn_wexpand_ok [OF wf(1) room]) (rule that)
    have "take ?w (bn_d t) = ?xs" using t(4,5) True by (simp add: bn_words_def)
    with t [unfolded True] show ?thesis unfolding True
      by (intro exI [of _ "s(a := t)"]) (simp add: BN_lshift1_def Let_def op_then_apply bn_at_apply)
  next
    case False
    let ?r = "(s r)\<lparr>bn_neg := bn_neg (s a)\<rparr>"
    have r: "bn_wf ?r" "bn_grows calloc (?w + 1) ?r" using wf(1) room by simp_all
    obtain t where t: "bn_wexpand calloc (?w + 1) ?r = (Ok (), t)" "bn_wf t" "?w + 1 \<le> bn_dmax t"
      "bn_words t = bn_words ?r" "bn_width t = bn_width ?r" "bn_neg t = bn_neg ?r"
      by (rule bn_wexpand_ok [OF r]) (rule that)
    have "bn_wf (t\<lparr>bn_width := ?w\<rparr>)" using t(2,3) by (simp add: bn_wf_def)
    moreover have "take ?w (bn_d (s a)) = ?xs" by (simp add: bn_words_def)
    ultimately show ?thesis using False t
      by (intro exI [of _ "s(r := t\<lparr>bn_width := ?w\<rparr>)"])
        (simp add: BN_lshift1_def Let_def op_then_apply bn_at_apply bn_set_sign_apply)
  qed
  then obtain s1 where s1: "BN_lshift1 calloc r a s = ?tail s1" "\<forall>u. s1(r := u) = s(r := u)" "bn_wf (s1 r)"
    "bn_width (s1 r) = ?w" "?w + 1 \<le> bn_dmax (s1 r)" "bn_neg (s1 r) = bn_neg (s a)" "take ?w (bn_d (s1 a)) = ?xs"
    by blast
  obtain u where u: "?tail s1 = (Ok (), s1(r := u))" "bn_wf u" "bn_neg u = bn_neg (s1 r)" "bn_abs u = 2 * words_val ?xs"
    using lshift1_finish [where s = s1 and r = r and a = a, OF s1(3-5,7) len] by blast
  have "bn_normal u \<and> bn_val u = 2 * bn_val (s a)"
    using u(2-4) s1(6) wf(2) by (simp add: bn_normal_def bn_val_def bn_abs_def [of "s a"])
  with s1(1,2) u(1) show ?thesis by auto
qed

lemma BN_lshift1_fails:
  assumes "\<not> bn_grows calloc (bn_width (s a) + 1) (s r)"
  shows "BN_lshift1 calloc r a s = (Err, s(r := (s r)\<lparr>bn_neg := bn_neg (s a)\<rparr>))"
proof -
  have "bn_at r (bn_wexpand calloc (bn_width (s a) + 1)) (s(r := (s r)\<lparr>bn_neg := n\<rparr>)) =
      (Err, s(r := (s r)\<lparr>bn_neg := n\<rparr>))" for n
    using assms by (intro bn_wexpand_at_fails) simp
  then show ?thesis
  proof (cases "r = a")
    case True
    then show ?thesis using bn_wexpand_at_fails [where s = s and r = r, OF assms] by (simp add: BN_lshift1_def Let_def op_then_apply)
  qed (simp add: BN_lshift1_def Let_def op_then_apply bn_set_sign_apply)
qed

end
