(* ===== verification/Bignum_Secret_Shift.thy ===== *)
theory Bignum_Secret_Shift
  imports Bignum_Shift_Ops
begin

text \<open>
  The right shift by a secret amount: each round shifts by a power of two and selects, with a
  mask, whether the shift is kept.
\<close>

section \<open>One round\<close>

lemma select_words_mask:
  "length a = length b \<Longrightarrow> bn_select_words (mask_w c) a b = (if c then a else b)"
  unfolding bn_select_words_def select_w_mask by (cases c) (simp_all add: map_fst_zip map_snd_zip map2_map_map [symmetric] split_def)

lemma secret_mask: "(0 :: BN_ULONG) - of_nat (n mod 2) = mask_w (odd n)"
  by (cases "odd n") (simp_all add: mask_w_def CONSTTIME_TRUE_W_def CONSTTIME_FALSE_W_def odd_iff_mod_2_eq_one even_iff_mod_2_eq_zero)

lemma secret_round:
  assumes "tmp \<noteq> r" and "w \<le> bn_dmax (s r)" and "w \<le> bn_dmax (s tmp)"
  defines "V \<equiv> words_val (take w (bn_d (s r)))"
  shows "\<exists>s' ws. op_then (bn_rshift_words tmp r e w)
             (op_then (bn_select_at r (0 - of_nat (m mod 2)) tmp w) k) s = k s' \<and>
           (\<forall>x. x \<noteq> r \<longrightarrow> x \<noteq> tmp \<longrightarrow> s' x = s x) \<and> s' r = (s r)\<lparr>bn_d := ws @ drop w (bn_d (s r))\<rparr> \<and>
           bn_dmax (s' tmp) = bn_dmax (s tmp) \<and> length ws = w \<and> words_val ws = V div 2 ^ (e * (m mod 2))"
proof -
  obtain vs where vs: "bn_rshift_words tmp r e w s = (Ok (), bn_with s tmp (vs @ drop w (bn_d (s tmp))))"
    "length vs = w" "words_val vs = V div 2 ^ e"
    using bn_rshift_words_eq [where s = s and a = r and r = tmp, OF assms(2,3), of e] unfolding V_def by blast
  let ?s1 = "bn_with s tmp (vs @ drop w (bn_d (s tmp)))"
  let ?ws = "if odd m then vs else take w (bn_d (s r))"
  let ?s2 = "bn_with ?s1 r (?ws @ drop w (bn_d (s r)))"
  have "take w (bn_d (?s1 tmp)) = vs" "?s1 r = s r" using vs(2) assms(1) by simp_all
  then have sel: "bn_select_at r (0 - of_nat (m mod 2)) tmp w ?s1 = (Ok (), ?s2)"
    using assms(1-3) vs(2) unfolding bn_select_at_def secret_mask
    by (simp add: select_words_mask)
  have "words_val ?ws = V div 2 ^ (e * (m mod 2))"
    using vs(3) by (cases "odd m") (simp_all add: V_def odd_iff_mod_2_eq_one even_iff_mod_2_eq_zero)
  then show ?thesis using vs(1,2) sel assms(1-3)
    by (intro exI [of _ ?s2] exI [of _ ?ws]) (simp add: op_then_apply)
qed

section \<open>All rounds\<close>

text \<open>The rounds go through the \<open>k\<close> bits that the number of bits in the words has.\<close>

lemma secret_shift_loop_eq:
  assumes "tmp \<noteq> r" and "\<And>j. mb div 2 ^ j \<noteq> 0 \<longleftrightarrow> j < k"
    and "w \<le> bn_dmax (s r)" and "w \<le> bn_dmax (s tmp)" and "i \<le> k"
  shows "\<exists>s' ws. secret_shift_loop r tmp n mb w i s = (Ok (), s') \<and>
           (\<forall>x. x \<noteq> r \<longrightarrow> x \<noteq> tmp \<longrightarrow> s' x = s x) \<and> s' r = (s r)\<lparr>bn_d := ws @ drop w (bn_d (s r))\<rparr> \<and>
           length ws = w \<and>
           words_val ws = words_val (take w (bn_d (s r))) div 2 ^ (2 ^ i * (n div 2 ^ i mod 2 ^ (k - i)))"
  using assms(3-5)
proof (induction "k - i" arbitrary: i s)
  case 0
  then have "i = k" by simp
  moreover have "secret_shift_loop r tmp n mb w k s = (Ok (), s)"
    using assms(2) [of k] by (subst secret_shift_loop.simps) (simp add: op_ret_def)
  ultimately show ?case using 0
    by (intro exI [of _ s] exI [of _ "take w (bn_d (s r))"]) simp
next
  case (Suc m)
  then have i: "i < k" "m = k - Suc i" by simp_all
  let ?b = "n div 2 ^ i"
  let ?q = "n div 2 ^ Suc i mod 2 ^ (k - Suc i)"
  let ?V = "words_val (take w (bn_d (s r)))"
  obtain s1 ws1 where r1: "secret_shift_loop r tmp n mb w i s = secret_shift_loop r tmp n mb w (Suc i) s1"
    "\<forall>x. x \<noteq> r \<longrightarrow> x \<noteq> tmp \<longrightarrow> s1 x = s x" "s1 r = (s r)\<lparr>bn_d := ws1 @ drop w (bn_d (s r))\<rparr>"
    "bn_dmax (s1 tmp) = bn_dmax (s tmp)" "length ws1 = w" "words_val ws1 = ?V div 2 ^ (2 ^ i * (?b mod 2))"
  proof -
    have "secret_shift_loop r tmp n mb w i s =
        op_then (bn_rshift_words tmp r (2 ^ i) w)
          (op_then (bn_select_at r (0 - of_nat (?b mod 2)) tmp w) (secret_shift_loop r tmp n mb w (Suc i))) s"
      using i(1) assms(2) [of i] by (subst secret_shift_loop.simps) simp
    then show thesis
      using secret_round [where s = s, OF assms(1) Suc.prems(1,2), of "2 ^ i" ?b "secret_shift_loop r tmp n mb w (Suc i)"]
        that by (elim exE conjE) simp
  qed
  have pre: "w \<le> bn_dmax (s1 r)" "w \<le> bn_dmax (s1 tmp)" "Suc i \<le> k"
    using r1(3-5) Suc.prems i by simp_all
  obtain s' ws where r2: "secret_shift_loop r tmp n mb w (Suc i) s1 = (Ok (), s')"
    "\<forall>x. x \<noteq> r \<longrightarrow> x \<noteq> tmp \<longrightarrow> s' x = s1 x" "s' r = (s1 r)\<lparr>bn_d := ws @ drop w (bn_d (s1 r))\<rparr>" "length ws = w"
    "words_val ws = words_val (take w (bn_d (s1 r))) div 2 ^ (2 ^ Suc i * ?q)"
    using Suc.hyps(1) [OF i(2) pre] by blast
  have "(2 :: nat) ^ (k - i) = 2 * 2 ^ (k - Suc i)"
    using i(1) by (simp add: power_Suc [symmetric] Suc_diff_Suc)
  then have "?b mod 2 ^ (k - i) = 2 * ?q + ?b mod 2"
    using mod_mult2_eq [of ?b 2 "2 ^ (k - Suc i)"] div_mult2_eq [of n "2 ^ i" 2]
    by (simp only: power_Suc mult.commute)
  then have e: "2 ^ i * (?b mod 2 ^ (k - i)) = 2 ^ i * (?b mod 2) + 2 ^ Suc i * ?q" by (simp add: algebra_simps)
  have "words_val ws = ?V div 2 ^ (2 ^ i * (?b mod 2 ^ (k - i)))"
    unfolding e power_add div_mult2_eq using r1(3,5,6) r2(5) by simp
  moreover have "s' r = (s r)\<lparr>bn_d := ws @ drop w (bn_d (s r))\<rparr>" using r1(3,5) r2(3) by simp
  ultimately show ?case using r1(1,2) r2(1,2,4) by (intro exI [of _ s'] exI [of _ ws]) simp
qed

section \<open>The operation\<close>

lemma BN_copy_words:
  assumes "bn_wf src" and "bn_wf bn" and "bn_grows calloc (bn_width src) bn"
  shows "\<exists>t. BN_copy calloc src bn = (Ok (), t) \<and> bn_wf t \<and> bn_words t = bn_words src \<and>
           bn_width t = bn_width src \<and> bn_neg t = bn_neg src"
proof -
  obtain t where t: "bn_wexpand calloc (bn_width src) bn = (Ok (), t)" "bn_wf t" "bn_width src \<le> bn_dmax t"
    by (rule bn_wexpand_ok [OF assms(2,3)])
  have len: "length (bn_words src) = bn_width src" using assms(1) by simp
  let ?t = "bn_store_words (bn_words src) (bn_neg src) t"
  have "bn_words ?t = bn_words src \<and> bn_wf ?t"
    using bn_store_words_words [of "bn_words src" t] t(2,3) len by (simp add: bn_wf_def)
  moreover have "bn_width ?t = bn_width src" "bn_neg ?t = bn_neg src" using len by (simp_all add: bn_store_words_def)
  moreover have "BN_copy calloc src bn = (Ok (), ?t)"
    using t(1) assms(1) by (simp add: BN_copy_def op_then_apply bn_wf_def)
  ultimately show ?thesis by blast
qed

text \<open>\<open>k\<close> is the number of bits that the bit length of the words of \<open>a\<close> has.\<close>

lemma bit_length_iff:
  assumes "(m :: nat) < 2 ^ k" and "k = 0 \<or> 2 ^ (k - 1) \<le> m"
  shows "m div 2 ^ j \<noteq> 0 \<longleftrightarrow> j < k"
proof -
  have "m div 2 ^ j \<noteq> 0 \<longleftrightarrow> 2 ^ j \<le> m" by (simp add: div_eq_0_iff linorder_not_less)
  also have "\<dots> \<longleftrightarrow> j < k"
  proof
    assume "2 ^ j \<le> m"
    then have "(2 :: nat) ^ j < 2 ^ k" using assms(1) by linarith
    then show "j < k" by (rule power_less_imp_less_exp [rotated]) simp
  next
    assume j: "j < k"
    then have "(2 :: nat) ^ j \<le> 2 ^ (k - 1)" by (intro power_increasing) simp_all
    moreover have "2 ^ (k - 1) \<le> m" using j assms(2) by auto
    ultimately show "2 ^ j \<le> m" by (rule le_trans)
  qed
  finally show ?thesis .
qed

lemma bn_rshift_secret_shift_ok:
  assumes wf: "bn_wf (s r)" "bn_wf (s a)" "bn_wf (s tmp)" and tmp: "tmp \<noteq> r"
    and room: "bn_grows calloc (bn_width (s a)) (s r)" "bn_grows calloc (bn_width (s a)) (s tmp)"
    and k: "64 * bn_width (s a) < 2 ^ k" "k = 0 \<or> 2 ^ (k - 1) \<le> 64 * bn_width (s a)"
  shows "\<exists>s'. bn_rshift_secret_shift calloc (Some tmp) r a n s = (Ok (), s') \<and>
           (\<forall>x. x \<noteq> r \<longrightarrow> x \<noteq> tmp \<longrightarrow> s' x = s x) \<and> bn_wf (s' r) \<and> bn_neg (s' r) = bn_neg (s a) \<and>
           bn_width (s' r) = bn_width (s a) \<and> bn_abs (s' r) = bn_abs (s a) div 2 ^ (n mod 2 ^ k)"
proof -
  let ?w = "bn_width (s a)"
  obtain t where t: "(if r = a then op_ret () else bn_at r (BN_copy calloc (s a))) s = (Ok (), s(r := t))" "bn_wf t"
    "bn_words t = bn_words (s a)" "bn_width t = ?w" "bn_neg t = bn_neg (s a)"
  proof (cases "r = a")
    case True
    then show thesis using wf(2) by (intro that [of "s a"]) (simp_all add: op_ret_def)
  next
    case False
    obtain t where "BN_copy calloc (s a) (s r) = (Ok (), t)" "bn_wf t" "bn_words t = bn_words (s a)"
      "bn_width t = ?w" "bn_neg t = bn_neg (s a)"
      using BN_copy_words [OF wf(2,1) room(1)] by blast
    with False show thesis by (intro that [of t]) (simp_all add: bn_at_apply)
  qed
  obtain u where u: "bn_wexpand calloc ?w (s tmp) = (Ok (), u)" "bn_wf u" "?w \<le> bn_dmax u"
    by (rule bn_wexpand_ok [OF wf(3) room(2)])
  let ?s2 = "s(r := t, tmp := u)"
  have dt: "?w \<le> bn_dmax t" "take ?w (bn_d t) = bn_words (s a)"
    using t(2-4) by (simp_all add: bn_wf_def bn_words_def [of t])
  have pre: "?w \<le> bn_dmax (?s2 r)" "?w \<le> bn_dmax (?s2 tmp)" "0 \<le> k" using tmp dt u(3) by simp_all
  obtain s' ws where s': "secret_shift_loop r tmp n (64 * ?w) ?w 0 ?s2 = (Ok (), s')"
    "\<forall>x. x \<noteq> r \<longrightarrow> x \<noteq> tmp \<longrightarrow> s' x = ?s2 x" "s' r = (?s2 r)\<lparr>bn_d := ws @ drop ?w (bn_d (?s2 r))\<rparr>"
    "length ws = ?w" "words_val ws = words_val (take ?w (bn_d (?s2 r))) div 2 ^ (2 ^ 0 * (n div 2 ^ 0 mod 2 ^ (k - 0)))"
    using secret_shift_loop_eq [where s = ?s2 and i = 0, OF tmp bit_length_iff [OF k] pre] by blast
  have run: "bn_rshift_secret_shift calloc (Some tmp) r a n s = (Ok (), s')"
    using t(1,4) u(1) tmp s'(1) by (simp add: bn_rshift_secret_shift_def op_then_apply bn_at_apply)
  have r': "s' r = t\<lparr>bn_d := ws @ drop ?w (bn_d t)\<rparr>" using s'(3) tmp by simp
  have "bn_words (s' r) = ws" unfolding bn_words_def r' using s'(4) t(4) by simp
  then have "bn_abs (s' r) = bn_abs (s a) div 2 ^ (n mod 2 ^ k)"
    using s'(5) tmp dt(2) by (simp add: bn_abs_def)
  moreover have "bn_wf (s' r)" using r' t(2,4) s'(4) dt(1) by (simp add: bn_wf_def)
  ultimately show ?thesis using run s'(2) r' t(4,5) by (intro exI [of _ s']) simp
qed

end
