(* ===== verification/Bignum_Bit_Ops.thy ===== *)
theory Bignum_Bit_Ops
  imports Bignum_Secret_Shift
begin

text \<open>The single bits of a number, and the count of its low zero bits.\<close>

section \<open>Reading, setting and clearing\<close>

lemma BN_is_bit_set_eq: "BN_is_bit_set a (int n) \<longleftrightarrow> bit (bn_abs a) n"
proof -
  have "drop_bit j w AND 1 \<noteq> 0 \<longleftrightarrow> bit w j" for j and w :: BN_ULONG
    by (simp add: and_one_eq bit_iff_odd_drop_bit mod2_eq_if)
  then show ?thesis
    by (auto simp: BN_is_bit_set_def bn_is_bit_set_words_def bn_abs_def bit_words_val Let_def)
qed

lemma bn_words_update:
  assumes "bn_wf a" and "i < bn_width a"
  shows "bn_words (a\<lparr>bn_d := (bn_d a)[i := w]\<rparr>) = (bn_words a)[i := w]"
  using assms by (simp add: bn_words_def take_update_swap)

lemma bn_words_nth: "i < bn_width a \<Longrightarrow> bn_words a ! i = bn_d a ! i"
  by (simp add: bn_words_def)

lemma set_bit_here:
  assumes "bn_wf a" and "n div 64 < bn_width a"
  defines "t \<equiv> a\<lparr>bn_d := (bn_d a)[n div 64 := bn_d a ! (n div 64) OR push_bit (n mod 64) 1]\<rparr>"
  shows "bn_wf t \<and> bn_neg t = bn_neg a \<and> bn_abs t = set_bit n (bn_abs a)"
proof -
  have "bn_words t = (bn_words a)[n div 64 := bn_words a ! (n div 64) OR push_bit (n mod 64) 1]"
    unfolding t_def bn_words_update [OF assms(1,2)] bn_words_nth [OF assms(2)] ..
  then have "bn_abs t = set_bit n (bn_abs a)"
    using words_val_set_bit [of n "bn_words a"] assms(1,2) by (simp add: bn_abs_def)
  then show ?thesis using assms(1) by (simp add: t_def bn_wf_def)
qed

lemma BN_set_bit_ok:
  assumes wf: "bn_wf a" and room: "n div 64 < bn_width a \<or> bn_grows calloc (n div 64 + 1) a"
  shows "\<exists>t. BN_set_bit calloc (int n) a = (Ok (), t) \<and> bn_wf t \<and> bn_neg t = bn_neg a \<and>
           bn_abs t = set_bit n (bn_abs a)"
proof (cases "n div 64 < bn_width a")
  case True
  then have "n div 64 < bn_dmax a" using wf by (simp add: bn_wf_def)
  with True set_bit_here [OF wf True] show ?thesis
    by (simp add: BN_set_bit_def Let_def op_then_apply op_ret_def)
next
  case False
  let ?i = "n div 64"
  obtain b where b: "bn_wexpand calloc (?i + 1) a = (Ok (), b)" "bn_wf b" "?i + 1 \<le> bn_dmax b"
    "bn_words b = bn_words a" "bn_width b = bn_width a" "bn_neg b = bn_neg a"
    using bn_wexpand_ok [OF wf, of calloc "?i + 1"] room False by (metis (full_types))
  let ?c = "b\<lparr>bn_d := bn_words b @ replicate (?i + 1 - bn_width b) 0 @ drop (?i + 1) (bn_d b), bn_width := ?i + 1\<rparr>"
  have len: "length (bn_words b) = bn_width b" using b(2) by simp
  have w: "bn_words ?c = bn_words b @ replicate (?i + 1 - bn_width b) 0"
    unfolding bn_words_def [of ?c] using len False b(5) by simp
  have abs: "bn_abs ?c = bn_abs a" unfolding bn_abs_def w by (simp add: words_val_append b(4))
  have wc: "bn_wf ?c" using b(2,3,5) len False by (simp add: bn_wf_def)
  have i: "?i < bn_width ?c" "?i < bn_dmax ?c" using wc by (simp_all add: bn_wf_def)
  have "BN_set_bit calloc (int n) a =
      (Ok (), ?c\<lparr>bn_d := (bn_d ?c)[?i := bn_d ?c ! ?i OR push_bit (n mod 64) 1]\<rparr>)"
    using False b(1) i(2) by (simp add: BN_set_bit_def Let_def op_then_apply)
  with set_bit_here [OF wc i(1)] abs b(6) show ?thesis by auto
qed

lemma BN_set_bit_fails:
  "\<not> (n div 64 < bn_width a \<or> bn_grows calloc (n div 64 + 1) a) \<Longrightarrow> BN_set_bit calloc (int n) a = (Err, a)"
  by (simp add: BN_set_bit_def Let_def op_then_apply bn_wexpand_fails)

lemma bn_val_same_sign:
  "bn_neg t = bn_neg a \<Longrightarrow> bn_abs t = m \<Longrightarrow> bn_val t = (if bn_neg a then - int m else int m)"
  by (simp add: bn_val_def)

lemma BN_clear_bit_ok:
  assumes wf: "bn_wf a" and i: "n div 64 < bn_width a"
  shows "\<exists>t. BN_clear_bit (int n) a = (Ok (), t) \<and> bn_minimal t \<and>
           bn_val t = (if bn_neg a then - int (unset_bit n (bn_abs a)) else int (unset_bit n (bn_abs a)))"
proof -
  let ?b = "a\<lparr>bn_d := (bn_d a)[n div 64 := bn_d a ! (n div 64) AND NOT (push_bit (n mod 64) 1)]\<rparr>"
  have "bn_words ?b = (bn_words a)[n div 64 := bn_words a ! (n div 64) AND NOT (push_bit (n mod 64) 1)]"
    unfolding bn_words_update [OF assms] bn_words_nth [OF i] ..
  then have abs: "bn_abs ?b = unset_bit n (bn_abs a)"
    using words_val_unset_bit [of n "bn_words a"] assms by (simp add: bn_abs_def)
  have b: "bn_wf ?b" using wf by (simp add: bn_wf_def)
  have "BN_clear_bit (int n) a = (Ok (), bn_set_minimal_width ?b)"
    using assms by (simp add: BN_clear_bit_def Let_def bn_wf_def)
  with bn_set_minimal_width_sign [OF b] bn_val_same_sign [OF _ abs, of a] show ?thesis by simp
qed

lemma BN_mask_bits_ok:
  assumes wf: "bn_normal a"
  shows "\<exists>t. BN_mask_bits (int n) a = (Ok (), t) \<and> bn_normal t \<and>
           bn_val t = (if bn_neg a then - int (take_bit n (bn_abs a)) else int (take_bit n (bn_abs a)))"
proof (cases "bn_width a \<le> n div 64")
  case True
  have "bn_abs a < 2 ^ (64 * bn_width a)"
    using words_val_less [of "bn_words a"] bn_normal_wf [OF wf] by (simp add: bn_abs_def)
  also have "\<dots> \<le> 2 ^ n" using True by (intro power_increasing) simp_all
  finally have "take_bit n (bn_abs a) = bn_abs a" by (simp add: take_bit_nat_eq_self)
  with True wf show ?thesis by (simp add: BN_mask_bits_def Let_def bn_val_def)
next
  case False
  let ?w = "n div 64"
  note w = bn_normal_wf [OF wf]
  have take: "take m (bn_words a) = take m (bn_d a)" if "m \<le> bn_width a" for m
    using that by (simp add: bn_words_def min_def)
  have "\<exists>u. BN_mask_bits (int n) a = (Ok (), bn_set_minimal_width u) \<and> bn_wf u \<and> bn_neg u = bn_neg a \<and>
      bn_abs u = take_bit n (bn_abs a)"
  proof (cases "n mod 64 = 0")
    case True
    then have n: "64 * ?w = n" using mod_mult_div_eq [of n 64] by simp
    let ?u = "a\<lparr>bn_width := ?w\<rparr>"
    have "bn_words ?u = take ?w (bn_words a)" unfolding bn_words_def [of ?u] using take [of ?w] False by simp
    then have "bn_abs ?u = take_bit n (bn_abs a)" using words_val_take_bit [of n "bn_words a"] n by (simp add: bn_abs_def)
    with True False w show ?thesis by (intro exI [of _ ?u]) (simp add: BN_mask_bits_def Let_def bn_wf_def)
  next
    case b: False
    let ?x = "bn_d a ! ?w AND NOT (push_bit (n mod 64) (- 1))"
    let ?u = "a\<lparr>bn_width := ?w + 1, bn_d := (bn_d a)[?w := ?x]\<rparr>"
    have "bn_words ?u = (take (?w + 1) (bn_words a))[?w := ?x]"
      unfolding bn_words_def [of ?u] using take [of "?w + 1"] False by (simp add: take_update_swap)
    then have "bn_abs ?u = take_bit n (bn_abs a)"
      using words_val_mask [of n "bn_words a"] False w bn_words_nth [of ?w a] by (simp add: bn_abs_def)
    with b False w show ?thesis by (intro exI [of _ ?u]) (simp add: BN_mask_bits_def Let_def bn_wf_def)
  qed
  then obtain u where u: "BN_mask_bits (int n) a = (Ok (), bn_set_minimal_width u)" "bn_wf u" "bn_neg u = bn_neg a"
    "bn_abs u = take_bit n (bn_abs a)" by blast
  with bn_set_minimal_width_sign [OF u(2)] bn_val_same_sign [OF u(3,4)] show ?thesis by (simp add: bn_minimal_def)
qed

section \<open>Low zero bits\<close>

lemma low_bits_zero:
  assumes "0 < k" and "k < 64"
  shows "push_bit (64 - k) (l :: BN_ULONG) = 0 \<longleftrightarrow> 2 ^ k dvd unat l"
proof -
  have "push_bit (64 - k) l = 0 \<longleftrightarrow> unat (push_bit (64 - k) l) = 0" by (simp add: unat_eq_0)
  also have "\<dots> \<longleftrightarrow> unat l mod 2 ^ k = 0" unfolding shifted_parts(2) [OF assms(2)] by simp
  finally show ?thesis by (simp add: dvd_eq_mod_eq_0)
qed

lemma low_zero_block_eq:
  assumes "0 < k" and "k < 64"
  shows "low_zero_block k (bits, l) = (if 2 ^ k dvd unat l then (bits + k, drop_bit k l) else (bits, l))"
proof -
  have "unat (of_nat k AND mask_w c) = (if c then k else 0)" for c
  proof -
    have "of_nat k AND mask_w c = (if c then of_nat k else (0 :: u64))"
      by (rule bit_word_eqI) (simp add: bit_simps)
    then show ?thesis using assms(2) by (simp add: unsigned_of_nat take_bit_nat_eq_self)
  qed
  then show ?thesis
    unfolding low_zero_block_def prod.case Let_def is_zero_mask select_w_mask low_bits_zero [OF assms] by simp
qed

lemma low_zero_block_step:
  assumes "low_zero_block k (bits, l) = (bits', l')" and k: "0 < k" "k < 64"
    and "2 ^ bits dvd n" and "unat l = n div 2 ^ bits" and "\<not> 2 ^ (2 * k) dvd unat l"
  shows "2 ^ bits' dvd n \<and> unat l' = n div 2 ^ bits' \<and> \<not> 2 ^ k dvd unat l'"
proof (cases "2 ^ k dvd unat l")
  case True
  then have r: "bits' = bits + k" "l' = drop_bit k l" using assms(1) by (simp_all add: low_zero_block_eq [OF k])
  obtain q where q: "unat l = 2 ^ k * q" using True by (auto elim: dvdE)
  have n: "n = 2 ^ bits * unat l" using assms(4,5) by simp
  have l': "unat l' = q" unfolding r(2) unat_drop_u64 q by simp
  have "\<not> 2 ^ k dvd q" using assms(6) unfolding q mult_2 power_add by simp
  with l' n q r(1) show ?thesis by (simp add: power_add mult.assoc)
next
  case False
  with assms show ?thesis by (simp add: low_zero_block_eq [OF k])
qed

lemma bn_count_low_zero_bits_word_eq:
  assumes "l \<noteq> 0"
  shows "2 ^ j dvd unat l \<longleftrightarrow> j \<le> bn_count_low_zero_bits_word l"
proof -
  have pos: "0 < unat l" using assms by (simp add: unat_gt_0)
  obtain b1 l1 where 1: "low_zero_block 32 (0, l) = (b1, l1)" by fastforce
  obtain b2 l2 where 2: "low_zero_block 16 (b1, l1) = (b2, l2)" by fastforce
  obtain b3 l3 where 3: "low_zero_block 8 (b2, l2) = (b3, l3)" by fastforce
  obtain b4 l4 where 4: "low_zero_block 4 (b3, l3) = (b4, l4)" by fastforce
  obtain b5 l5 where 5: "low_zero_block 2 (b4, l4) = (b5, l5)" by fastforce
  obtain b l6 where 6: "low_zero_block 1 (b5, l5) = (b, l6)" by fastforce
  have c: "bn_count_low_zero_bits_word l = b"
    unfolding bn_count_low_zero_bits_word_def by (simp only: 1 2 3 4 5 6 fst_conv)
  have "\<not> 2 ^ 64 dvd unat l" using pos unat_u64 [of l] by (auto dest: dvd_imp_le)
  then have j1: "2 ^ b1 dvd unat l \<and> unat l1 = unat l div 2 ^ b1 \<and> \<not> 2 ^ 32 dvd unat l1"
    by (intro low_zero_block_step [OF 1]) simp_all
  note i1 = conjunct1 [OF j1] conjunct1 [OF conjunct2 [OF j1]] conjunct2 [OF conjunct2 [OF j1]]
  have j2: "2 ^ b2 dvd unat l \<and> unat l2 = unat l div 2 ^ b2 \<and> \<not> 2 ^ 16 dvd unat l2"
    by (rule low_zero_block_step [OF 2 _ _ i1(1,2)]) (use i1(3) in simp_all)
  note i2 = conjunct1 [OF j2] conjunct1 [OF conjunct2 [OF j2]] conjunct2 [OF conjunct2 [OF j2]]
  have j3: "2 ^ b3 dvd unat l \<and> unat l3 = unat l div 2 ^ b3 \<and> \<not> 2 ^ 8 dvd unat l3"
    by (rule low_zero_block_step [OF 3 _ _ i2(1,2)]) (use i2(3) in simp_all)
  note i3 = conjunct1 [OF j3] conjunct1 [OF conjunct2 [OF j3]] conjunct2 [OF conjunct2 [OF j3]]
  have j4: "2 ^ b4 dvd unat l \<and> unat l4 = unat l div 2 ^ b4 \<and> \<not> 2 ^ 4 dvd unat l4"
    by (rule low_zero_block_step [OF 4 _ _ i3(1,2)]) (use i3(3) in simp_all)
  note i4 = conjunct1 [OF j4] conjunct1 [OF conjunct2 [OF j4]] conjunct2 [OF conjunct2 [OF j4]]
  have j5: "2 ^ b5 dvd unat l \<and> unat l5 = unat l div 2 ^ b5 \<and> \<not> 2 ^ 2 dvd unat l5"
    by (rule low_zero_block_step [OF 5 _ _ i4(1,2)]) (use i4(3) in simp_all)
  note i5 = conjunct1 [OF j5] conjunct1 [OF conjunct2 [OF j5]] conjunct2 [OF conjunct2 [OF j5]]
  have j6: "2 ^ b dvd unat l \<and> unat l6 = unat l div 2 ^ b \<and> \<not> 2 ^ 1 dvd unat l6"
    by (rule low_zero_block_step [OF 6 _ _ i5(1,2)]) (use i5(3) in simp_all)
  note i6 = conjunct1 [OF j6] conjunct1 [OF conjunct2 [OF j6]] conjunct2 [OF conjunct2 [OF j6]]
  have l: "unat l = 2 ^ b * unat l6" "odd (unat l6)" using i6(1-3) by simp_all
  show ?thesis unfolding c
  proof
    assume "j \<le> b"
    then have "(2 :: nat) ^ j dvd 2 ^ b" by (rule le_imp_power_dvd)
    then show "2 ^ j dvd unat l" using i6(1) dvd_trans by blast
  next
    assume d: "2 ^ j dvd unat l"
    show "j \<le> b"
    proof (rule ccontr)
      assume "\<not> j \<le> b"
      then have "(2 :: nat) ^ Suc b dvd 2 ^ j" by (intro le_imp_power_dvd) simp
      then have "2 ^ b * 2 dvd 2 ^ b * unat l6" using d dvd_trans unfolding l(1) [symmetric] by (metis power_Suc2)
      with l(2) show False by simp
    qed
  qed
qed

lemma count_word_bound: "l \<noteq> 0 \<Longrightarrow> bn_count_low_zero_bits_word l < 64"
proof -
  assume l: "l \<noteq> 0"
  have "\<not> 2 ^ 64 dvd unat l" using l unat_u64 [of l] by (auto dest: dvd_imp_le simp: unat_gt_0)
  then show ?thesis using bn_count_low_zero_bits_word_eq [OF l, of 64] by linarith
qed

lemma mask_or: "mask_w a OR mask_w b = mask_w (a \<or> b)" and mask_and: "mask_w a AND mask_w b = mask_w (a \<and> b)"
  by (rule bit_word_eqI; auto simp: bit_simps)+

lemma low_zero_loop_seen: "low_zero_loop ds i (mask_w True) ret = ret"
proof (induction ds arbitrary: i)
  case (Cons d ds)
  have "mask_w False AND w = 0" for w by (rule bit_word_eqI) (simp add: bit_simps)
  then show ?case using Cons by (simp add: Let_def is_zero_mask mask_or mask_and)
qed simp

lemma words_val_dvd:
  "2 ^ j dvd words_val (w # ws) \<longleftrightarrow>
     (if w = 0 then j \<le> 64 \<or> 2 ^ (j - 64) dvd words_val ws else j < 64 \<and> 2 ^ j dvd unat w)"
proof (cases "j \<le> 64")
  case True
  then have "(2 :: nat) ^ j dvd 2 ^ 64 * words_val ws" by (intro dvd_mult2 le_imp_power_dvd)
  then have "2 ^ j dvd words_val (w # ws) \<longleftrightarrow> 2 ^ j dvd unat w" by (simp add: dvd_add_left_iff)
  moreover have "w \<noteq> 0 \<Longrightarrow> \<not> 2 ^ 64 dvd unat w" using unat_u64 [of w] unat_gt_0 [of w] by (auto dest: dvd_imp_le)
  ultimately show ?thesis using True by (cases "j = 64") auto
next
  case False
  then obtain m where j: "j = 64 + m" using le_Suc_ex by (metis nat_le_linear)
  show ?thesis
  proof (cases "w = 0")
    case True
    then show ?thesis using False by (simp add: j power_add)
  next
    case w: False
    have "\<not> 2 ^ j dvd words_val (w # ws)"
    proof
      assume "2 ^ j dvd words_val (w # ws)"
      then have "2 ^ 64 dvd unat w + 2 ^ 64 * words_val ws" unfolding j power_add by (simp only: words_val.simps dvd_mult_left)
      then have "2 ^ 64 dvd unat w" by (simp only: dvd_add_left_iff dvd_triv_left)
      then show False using w unat_u64 [of w] unat_gt_0 [of w] by (auto dest: dvd_imp_le)
    qed
    with w False show ?thesis by simp
  qed
qed

lemma low_zero_loop_eq:
  assumes "words_val ds \<noteq> 0" and "(i + length ds) * 64 < 2 ^ 64"
  shows "\<exists>c. unat (low_zero_loop ds i (mask_w False) 0) = i * 64 + c \<and> (\<forall>j. 2 ^ j dvd words_val ds \<longleftrightarrow> j \<le> c)"
  using assms
proof (induction ds arbitrary: i)
  case (Cons d ds)
  have F: "mask_w False AND w = 0" "mask_w True AND w = w" for w
    by (rule bit_word_eqI; simp add: bit_simps; fail)+
  show ?case
  proof (cases "d = 0")
    case True
    then obtain c where c: "unat (low_zero_loop ds (Suc i) (mask_w False) 0) = Suc i * 64 + c"
      "\<forall>j. 2 ^ j dvd words_val ds \<longleftrightarrow> j \<le> c"
      using Cons.IH [of "Suc i"] Cons.prems by auto
    have "low_zero_loop (d # ds) i (mask_w False) 0 = low_zero_loop ds (Suc i) (mask_w False) 0"
      using True F by (simp add: Let_def is_zero_mask mask_or mask_and)
    then show ?thesis using c True by (intro exI [of _ "64 + c"]) (auto simp: words_val_dvd simp del: words_val.simps)
  next
    case False
    let ?c = "bn_count_low_zero_bits_word d"
    have c: "?c < 64" by (rule count_word_bound [OF False])
    have "low_zero_loop (d # ds) i (mask_w False) 0 = of_nat (i * 64 + ?c)"
      using False F by (simp add: Let_def is_zero_mask mask_or mask_and low_zero_loop_seen)
    moreover have "i * 64 + ?c < 2 ^ 64" using c Cons.prems(2) by simp
    then have "unat (of_nat (i * 64 + ?c) :: BN_ULONG) = i * 64 + ?c"
      by (simp only: unsigned_of_nat) (simp add: take_bit_nat_eq_self)
    ultimately show ?thesis using False c bn_count_low_zero_bits_word_eq [OF False]
      by (intro exI [of _ ?c]) (auto simp: words_val_dvd simp del: words_val.simps)
  qed
qed simp

lemma BN_count_low_zero_bits_eq:
  assumes "bn_wf a"
  shows "bn_abs a \<noteq> 0 \<Longrightarrow> 2 ^ j dvd bn_abs a \<longleftrightarrow> j \<le> BN_count_low_zero_bits a"
    and "bn_abs a = 0 \<Longrightarrow> BN_count_low_zero_bits a = 0"
proof -
  have c: "BN_count_low_zero_bits a = unat (low_zero_loop (bn_words a) 0 (mask_w False) 0)"
    by (simp add: BN_count_low_zero_bits_def mask_w_def CONSTTIME_FALSE_W_def)
  have "length (bn_words a) * 64 < 2 ^ 64" using assms by (simp add: bn_wf_def BN_MAX_WORDS_def INT_MAX_def)
  then show "bn_abs a \<noteq> 0 \<Longrightarrow> 2 ^ j dvd bn_abs a \<longleftrightarrow> j \<le> BN_count_low_zero_bits a"
    using low_zero_loop_eq [of "bn_words a" 0] unfolding c bn_abs_def by auto
  have "low_zero_loop ds i (mask_w False) 0 = 0" if "words_val ds = 0" for ds i
    using that
  proof (induction ds arbitrary: i)
    case (Cons d ds)
    have "mask_w True AND (0 :: u64) = 0" by simp
    moreover have "mask_w False AND w = 0" for w by (rule bit_word_eqI) (simp add: bit_simps)
    ultimately show ?case using Cons by (simp add: Let_def is_zero_mask mask_or mask_and unat_eq_0)
  qed simp
  then show "bn_abs a = 0 \<Longrightarrow> BN_count_low_zero_bits a = 0"
    unfolding c bn_abs_def by simp
qed

end
