(* ===== verification/Bignum_Shift_Props.thy ===== *)
theory Bignum_Shift_Props
  imports Bignum_Bit_Ops
begin

text \<open>The properties of shift.c.\<close>

section \<open>Shifts\<close>

text \<open>
  \<open>BN_lshift\<close> and \<open>BN_lshift1\<close> multiply by a power of two and \<open>BN_rshift\<close> and \<open>BN_rshift1\<close> divide
  by one, rounding towards zero, also into the operand itself, and change no other object.
  Without room for the result they fail; a left shift has then given the old number of the
  result the sign of the operand.
\<close>

theorem bn_shifted:
  assumes "bn_wf (s r)" and "bn_normal (s a)"
  shows "(if bn_grows calloc (bn_width (s a) + n div 64 + 1) (s r)
          then \<exists>t. BN_lshift calloc r a (int n) s = (Ok (), s(r := t)) \<and> bn_minimal t \<and> bn_val t = 2 ^ n * bn_val (s a)
          else BN_lshift calloc r a (int n) s = (Err, s(r := (s r)\<lparr>bn_neg := bn_neg (s a)\<rparr>)))"
    and "(if bn_grows calloc (bn_width (s a) + 1) (s r)
          then \<exists>t. BN_lshift1 calloc r a s = (Ok (), s(r := t)) \<and> bn_normal t \<and> bn_val t = 2 * bn_val (s a)
          else BN_lshift1 calloc r a s = (Err, s(r := (s r)\<lparr>bn_neg := bn_neg (s a)\<rparr>)))"
    and "(if bn_grows calloc (bn_width (s a)) (s r)
          then (\<exists>t. BN_rshift calloc r a (int n) s = (Ok (), s(r := t)) \<and> bn_minimal t \<and>
                  bn_val t = bn_shift_right (bn_val (s a)) n) \<and>
               (\<exists>t. BN_rshift1 calloc r a s = (Ok (), s(r := t)) \<and> bn_minimal t \<and>
                  bn_val t = bn_shift_right (bn_val (s a)) 1)
          else BN_rshift calloc r a (int n) s = (Err, s) \<and> BN_rshift1 calloc r a s = (Err, s))"
    and "n \<noteq> 0 \<Longrightarrow> BN_lshift calloc r a (- int n) s = (Err, s) \<and> BN_rshift calloc r a (- int n) s = (Err, s)"
  using BN_lshift_ok [where s = s and r = r, OF assms] BN_lshift_fails [of calloc s a n r]
    BN_lshift1_ok [where s = s and r = r, OF assms] BN_lshift1_fails [of calloc s a r]
    BN_rshift_ok [where s = s and r = r, OF assms] BN_rshift1_ok [where s = s and r = r, OF assms]
    BN_rshift_fails [of calloc s a r n]
  by (simp_all add: BN_lshift_def BN_rshift_def)

text \<open>
  The shift by a secret amount looks at the low \<open>k\<close> bits of the amount only, where \<open>k\<close> is the
  bit length of the number of bits in the words. For amounts below \<open>2 ^ k\<close> the magnitude is
  that of \<open>BN_rshift\<close>; the width and the sign stay, also of a result zero.
\<close>

theorem bn_secret_shift:
  assumes "bn_wf (s r)" and "bn_wf (s a)" and "bn_wf (s tmp)" and "tmp \<noteq> r"
    and "bn_grows calloc (bn_width (s a)) (s r)" and "bn_grows calloc (bn_width (s a)) (s tmp)"
    and "64 * bn_width (s a) < 2 ^ k" and "k = 0 \<or> 2 ^ (k - 1) \<le> 64 * bn_width (s a)"
  shows "\<exists>s'. bn_rshift_secret_shift calloc (Some tmp) r a n s = (Ok (), s') \<and>
           (\<forall>x. x \<noteq> r \<longrightarrow> x \<noteq> tmp \<longrightarrow> s' x = s x) \<and> bn_wf (s' r) \<and> bn_neg (s' r) = bn_neg (s a) \<and>
           bn_width (s' r) = bn_width (s a) \<and> bn_abs (s' r) = bn_abs (s a) div 2 ^ (n mod 2 ^ k)"
  by (rule bn_rshift_secret_shift_ok [where s = s, OF assms])

text \<open>So the shift of a number of one word by 128 bits leaves it as it was.\<close>

theorem bn_secret_shift_128:
  "\<exists>s'. bn_rshift_secret_shift (\<lambda>_. True) (Some 1) 0 0 128 (\<lambda>_. bn_sample False [5]) = (Ok (), s') \<and> bn_val (s' 0) = 5"
proof -
  have wf: "bn_wf (bn_sample False [5])" by (simp add: bn_wf_def BN_MAX_WORDS_def INT_MAX_def)
  have g: "bn_grows (\<lambda>_. True) (bn_width (bn_sample False [5])) (bn_sample False [5])"
    by (simp add: bn_grows_def bn_sample_def)
  have "64 * bn_width (bn_sample False [5]) < 2 ^ 7" "(7 :: nat) = 0 \<or> 2 ^ (7 - 1) \<le> 64 * bn_width (bn_sample False [5])"
    by (simp_all add: bn_sample_def)
  from bn_secret_shift [where s = "\<lambda>_. bn_sample False [5]" and r = 0 and tmp = 1 and a = 0 and n = 128, OF wf wf wf _ g g this]
  show ?thesis by (auto simp: bn_val_def bn_abs_def [of "bn_sample False [5]"])
qed

section \<open>Bits\<close>

text \<open>
  \<open>BN_is_bit_set\<close> reads a bit of the magnitude, \<open>BN_set_bit\<close> sets one, growing the number where
  it has to, \<open>BN_clear_bit\<close> clears one within the words and \<open>BN_mask_bits\<close> keeps the low ones;
  the sign stays, except of a number that has become zero. \<open>BN_count_low_zero_bits\<close> is the
  exponent of the largest power of two that divides the number, or 0 for zero.
\<close>

theorem bn_bits_changed:
  assumes "bn_normal a"
  shows "BN_is_bit_set a (int n) \<longleftrightarrow> bit (bn_abs a) n"
    and "if n div 64 < bn_width a \<or> bn_grows calloc (n div 64 + 1) a
         then \<exists>t. BN_set_bit calloc (int n) a = (Ok (), t) \<and> bn_wf t \<and> bn_neg t = bn_neg a \<and>
                bn_abs t = set_bit n (bn_abs a)
         else BN_set_bit calloc (int n) a = (Err, a)"
    and "if n div 64 < bn_width a
         then \<exists>t. BN_clear_bit (int n) a = (Ok (), t) \<and> bn_minimal t \<and>
                bn_val t = (if bn_neg a then - int (unset_bit n (bn_abs a)) else int (unset_bit n (bn_abs a)))
         else BN_clear_bit (int n) a = (Err, a)"
    and "\<exists>t. BN_mask_bits (int n) a = (Ok (), t) \<and> bn_normal t \<and>
           bn_val t = (if bn_neg a then - int (bn_abs a mod 2 ^ n) else int (bn_abs a mod 2 ^ n))"
    and "bn_abs a \<noteq> 0 \<Longrightarrow> 2 ^ n dvd bn_abs a \<longleftrightarrow> n \<le> BN_count_low_zero_bits a"
    and "bn_abs a = 0 \<Longrightarrow> BN_count_low_zero_bits a = 0"
proof -
  note wf = bn_normal_wf [OF assms]
  show "BN_is_bit_set a (int n) \<longleftrightarrow> bit (bn_abs a) n" by (rule BN_is_bit_set_eq)
  show "if n div 64 < bn_width a \<or> bn_grows calloc (n div 64 + 1) a
         then \<exists>t. BN_set_bit calloc (int n) a = (Ok (), t) \<and> bn_wf t \<and> bn_neg t = bn_neg a \<and>
                bn_abs t = set_bit n (bn_abs a)
         else BN_set_bit calloc (int n) a = (Err, a)"
    using BN_set_bit_ok [OF wf, of n calloc] BN_set_bit_fails [of n a calloc] by simp
  show "if n div 64 < bn_width a
         then \<exists>t. BN_clear_bit (int n) a = (Ok (), t) \<and> bn_minimal t \<and>
                bn_val t = (if bn_neg a then - int (unset_bit n (bn_abs a)) else int (unset_bit n (bn_abs a)))
         else BN_clear_bit (int n) a = (Err, a)"
    using BN_clear_bit_ok [OF wf, of n] by (simp add: BN_clear_bit_def Let_def)
  show "\<exists>t. BN_mask_bits (int n) a = (Ok (), t) \<and> bn_normal t \<and>
           bn_val t = (if bn_neg a then - int (bn_abs a mod 2 ^ n) else int (bn_abs a mod 2 ^ n))"
    using BN_mask_bits_ok [OF assms, of n] unfolding take_bit_eq_mod .
  show "bn_abs a \<noteq> 0 \<Longrightarrow> 2 ^ n dvd bn_abs a \<longleftrightarrow> n \<le> BN_count_low_zero_bits a"
    "bn_abs a = 0 \<Longrightarrow> BN_count_low_zero_bits a = 0"
    using BN_count_low_zero_bits_eq [OF wf] by simp_all
qed

end
