(* ===== verification/Spec2Isabelle.thy ===== *)
theory Spec2Isabelle
  imports Cbs_Time Cbb_Oid Unicode_Enc Base64_Stream Stack_List Pool_System Ber_Der Set_Of
    Asn1_Bit_Read Asn1_Header Asn1_Bn Bignum_Shift_Props
begin

text \<open>
  A model of the encoding, number and container core of BoringSSL, as the iOS build of the application
  vendors it under src/ios/Pods/BoringSSL-GRPC/src/crypto. Paths below are relative to that
  directory.

  How the parts interact. Bytes come in through \<open>CBS\<close> (bytestring/cbs.c), a cursor over a block
  that every reader advances, and go out through \<open>CBB\<close> (bytestring/cbb.c), a growable buffer with
  a chain of open children whose length prefixes are filled in by \<open>CBB_flush\<close>. The ASN.1 readers
  and writers are built on the two; object identifiers, times (with asn1/posix_time.c), Unicode
  strings (unicode.c), BER to DER conversion (ber.c) and SET OF sorting use both sides. The
  older ASN.1 code (asn1/asn1_lib.c, a_int.c, a_bitstr.c) keeps every string, INTEGER and BIT
  STRING in one structure, reads with \<open>CBS\<close> and writes through raw pointers; its integers are
  also converted from and to big numbers (fipsmodule/bn: bn.c, bytes.c, cmp.c, add.c, shift.c). Base64
  (base64/base64.c) has the streaming encoder and decoder with their context. The containers are
  the stack of pointers with its heap sort (stack/stack.c), the chained hash table (lhash/lhash.c)
  and the pool of shared, reference counted buffers (pool/pool.c, refcount.c), which keeps its
  buffers in a hash table keyed by SipHash (siphash/siphash.c). mem.c and internal.h supply byte
  comparison, copying and the constant-time selections.

  Conventions. An operation on an object is a function \<open>('s, 'a) op\<close> from the object to an outcome
  and the object afterwards, also when it fails (BS_Prelude). \<open>Ok\<close> is the success of the C
  function, \<open>Err\<close> its documented failure (a zero or null result), and \<open>Abort\<close> what a C program must
  never do: a failing assertion, a null or dangling dereference, an access outside an object. That
  an operation is not \<open>Abort\<close> is therefore proved, not assumed. Machine integers are words of their
  width; \<open>size_t\<close> is a natural number below 2^64 with \<open>size_add\<close> and \<open>size_mul\<close> wrapping around.
  The allocator is a parameter: it gives a block of the size asked for, with any bytes in it, or
  fails. Comparison and hash functions handed to a container are parameters with a contract, a
  locale. The error queue is not modelled.

  The theories and what they model.
  \<^item> BS_Prelude: outcomes, operations and their combinators, sizes. Byte_Codec: the contract of a
    reader that accepts exactly the encodings of some values (locales \<open>byte_reader\<close>,
    \<open>byte_codec\<close>, \<open>safe_byte_codec\<close>), interpreted for every reader. Radix: digits in a base.
    C_Mem: mem.c and the block operations of internal.h. Const_Time: the masks of internal.h.
  \<^item> Cbs_Core, Cbs_Numbers, Cbs_Asn1, Cbs_Values, Cbs_Time, Twos_Complement: cbs.c. A \<open>CBS\<close> is the
    list of the bytes left. Posix_Time: asn1/posix_time.c, against the Gregorian calendar counted
    day by day.
  \<^item> Cbb_Core (the buffer, the children, \<open>CBB_flush\<close>), Cbb_Flush (the abstract builder and the
    refinement), Cbb_Build (locales \<open>cbb_writer\<close> and \<open>cbb_opener\<close>, the contract of every
    writer: what it adds to the bytes that flushing produces and when it can fail), Cbb_Asn1,
    Cbb_Document (whole documents, and reading back what was built), Cbb_Oid: cbb.c. A builder is
    its base buffer with the chain of pending children; a \<open>CBB\<close> is a depth in the chain.
  \<^item> Unicode_Enc: unicode.c. Base64_Enc, Base64_Stream: base64.c.
  \<^item> Ber_Element (the element reader in BER mode), Ber_Conv (ber.c itself), Ber_Trees (the trees
    BER encodes and the documents they convert to), Ber_Write (the conversion as a writer),
    Ber_Der (its properties). Set_Of: \<open>CBB_flush_asn1_set_of\<close> and \<open>CBB_finish_i2d\<close>.
  \<^item> Asn1_String (the \<open>ASN1_STRING\<close> structure of asn1_lib.c), Asn1_Integer (a_int.c, with the lemmas
    in Asn1_Int_Lemmas, Asn1_Int_Props, Asn1_Int_Values and the properties in Asn1_Int_Order),
    Asn1_Bits (a_bitstr.c; Asn1_Bit_Props, Asn1_Bit_Read), Asn1_Object (element headers;
    Asn1_Header), Asn1_Bn (the conversions of a_int.c from and to big numbers). A string is a
    record with its block, which may be longer than its length or absent.
  \<^item> Bignum (bn.c, cmp.c), Bignum_Bytes (bytes.c), Bignum_Add (add.c and the word loops of
    generic.c): a \<open>BIGNUM\<close> is a record with its block of words, the width in use, sign and flags;
    add.c works on a store of them, as result and operands may be one object. Bignum_Val (the
    number a record stands for), Bignum_Bits, Bignum_Order, Bignum_Size (locale \<open>bn_setter\<close>,
    the contract of every function that gives an object a new number), Bignum_IO, Bignum_Arith
    and Bignum_Loops (the word loops, unrolled and with aliasing), Bignum_Sum, Bignum_Word,
    Bignum_Props and Bignum_Signed (the properties). Bignum_Shift (shift.c, on the same store),
    with Bignum_Shift_Words (shifts and bits of lists of words), Bignum_Shift_Loops,
    Bignum_Shift_Ops, Bignum_Secret_Shift, Bignum_Bit_Ops and the properties in
    Bignum_Shift_Props.
  \<^item> C_Compare: what sorting and searching ask of a comparison function (locale \<open>c_compare\<close>,
    interpreted for the order of SET OF elements and of ASN.1 strings). Stack, Stack_Sort, Stack_List: stack.c, its
    heap sort, and its refinement of lists.
  \<^item> Lhash, Lhash_Table: lhash.c, the contract of hash and comparison (locale \<open>hash_keys\<close>) and of
    a callback of \<open>OPENSSL_lh_doall_arg\<close> (locale \<open>lh_callback\<close>), and the refinement of a set
    without equal elements. Siphash: siphash.c, against the
    published algorithm, written down apart from the code.
  \<^item> Buffer_Pool (pool.c, refcount.c), Pool_Table (the pool's functions as an instance of
    \<open>hash_keys\<close>), Pool_Counts (each operation on a consistent pool), Pool_System (the threads that
    share a pool as a step relation, the invariant of the reachable states and what it gives).

  What the lemmas show. Readers: each accepts exactly the encodings of its values, consumes
  exactly their bytes, and never leaves defined behaviour. Writers: each adds exactly its
  encoding, fails only when a length does not fit its prefix or memory runs out, and never writes
  outside the buffer; what is built is read back. BER: the conversion accepts exactly the BER
  trees, gives their DER, and leaves DER alone. ASN.1 values: the contents accepted are exactly
  the shortest encodings of a number or the valid bit strings, they are written back as they
  were read, comparisons and conversions respect the number, and no function leaves the block
  of its object. Big numbers: comparison, conversion, addition and shifts are those of the integers,
  at every width and with result and operands in one object, and single bits are those of the
  magnitude. Containers: sorting, searching, insertion and
  deletion refine those of lists and sets, through every resize. The pool: under every
  interleaving of atomic steps a held buffer is live and unchanged, equal bytes share a buffer,
  and nothing leaks.

  Bounds and fuel. Loops over a structure are structural recursions; the others are functions
  with a termination proof: by the length of the input (readers, \<open>cbs_find_ber\<close>,
  \<open>implicit_string_loop\<close>, \<open>load_words_be\<close>), by the words left (\<open>word_blocks\<close>, \<open>sub_word_loop\<close>), by the distance of an index (the heap, the search), by the children
  left (\<open>CBB_flush\<close>). \<open>cbs_convert_ber\<close> has fuel, because the recursion decides how much input is
  left for the loop; every round takes at least two bytes, \<open>CBS_asn1_ber_to_der\<close> gives it one
  more than the length of its input, and running out would be an \<open>Abort\<close>, which \<open>ber_to_der\<close>
  excludes. The iteration over a hash table, whose callback may change it, is a partial function;
  \<open>lhash_doall_delete\<close> shows it ends. A hash table has fewer than 2^61 items, as no more fit in
  memory; this is a premise where an item is added. \<open>BN_add_word\<close> and \<open>BN_sub_word\<close> call each
  other only for a negative number, with its sign removed; \<open>secret_shift_loop\<close> ends when the bit
  index reaches the bit length of the width. Words of big numbers have 64 bits.

  Not modelled. Of the files above: functions that only free, the printf wrappers of mem.c and
  the error queue. A \<open>CBB\<close> is addressed by its depth, so what reads through or discards below one that
  an error cut off, and the children of a discarded child, are not represented. A compare-and-swap loop of refcount.c is the atomic step it ends with, and a
  section under a lock of pool.c is one step; the memory model below that is not represented. The
  C library's \<open>qsort\<close> is a parameter with the standard's promise. On targets with assembler, the
  word loops of generic.c are replaced by it. The rest of BoringSSL (ciphers, multiplication,
  division and modular arithmetic of big numbers, curves, X.509, TLS), gRPC, Firebase and the Dart application are outside the
  development.
\<close>

end
